(* ===== verification/Prelude.thy ===== *)
theory Prelude
  imports Main "HOL-Library.Word"
begin

unbundle bit_operations_syntax

text \<open>
  Shared ground of the development.  A C function of the kernel is a HOL function that
  takes the state it works on and returns an \<open>outcome\<close>: a value, or one of the ways in
  which a kernel function does not return (a \<open>panic\<close>, a C undefined behaviour such as a null
  dereference, a \<open>sleep\<close> that nobody ends, a loop that runs for ever).  Stateful functions
  are composed with \<open>bindk\<close>.  The theory also fixes the machine integer types and the
  named collections of facts the component theories extend.
\<close>

named_theorems kern_simps \<open>unfolding rules of the kernel state monad\<close>
named_theorems kmem_simps \<open>facts on the page allocator\<close>
named_theorems page_simps \<open>facts on page arithmetic\<close>
named_theorems frame_simps \<open>an operation leaves a part of the state alone\<close>

type_synonym u8 = "8 word"
type_synonym u16 = "16 word"
type_synonym u32 = "32 word"

section \<open>Outcomes\<close>

datatype 'a outcome =
    Ok 'a
  | Panic string       \<comment> \<open>the kernel called panic with this message\<close>
  | Undefined string   \<comment> \<open>undefined behaviour of C, for example a null dereference\<close>
  | Sleeps string      \<comment> \<open>the caller sleeps and no other process runs to wake it\<close>
  | Diverges           \<comment> \<open>a loop that does not end\<close>

type_synonym ('s, 'a) kern = "'s \<Rightarrow> ('a \<times> 's) outcome"

definition ret :: "'a \<Rightarrow> ('s, 'a) kern" where
  "ret x = (\<lambda>s. Ok (x, s))"

definition bindk :: "('s, 'a) kern \<Rightarrow> ('a \<Rightarrow> ('s, 'b) kern) \<Rightarrow> ('s, 'b) kern" where
  "bindk m f = (\<lambda>s. case m s of
      Ok (x, t) \<Rightarrow> f x t
    | Panic msg \<Rightarrow> Panic msg
    | Undefined msg \<Rightarrow> Undefined msg
    | Sleeps msg \<Rightarrow> Sleeps msg
    | Diverges \<Rightarrow> Diverges)"

definition seqk :: "('s, unit) kern \<Rightarrow> ('s, 'b) kern \<Rightarrow> ('s, 'b) kern" where
  "seqk m k = bindk m (\<lambda>_. k)"

definition panic :: "string \<Rightarrow> ('s, 'a) kern" where
  "panic msg = (\<lambda>_. Panic msg)"

definition undefinedk :: "string \<Rightarrow> ('s, 'a) kern" where
  "undefinedk msg = (\<lambda>_. Undefined msg)"

definition sleepsk :: "string \<Rightarrow> ('s, 'a) kern" where
  "sleepsk msg = (\<lambda>_. Sleeps msg)"

definition divergesk :: "('s, 'a) kern" where
  "divergesk = (\<lambda>_. Diverges)"

definition getk :: "('s \<Rightarrow> 'a) \<Rightarrow> ('s, 'a) kern" where
  "getk f = (\<lambda>s. Ok (f s, s))"

definition modk :: "('s \<Rightarrow> 's) \<Rightarrow> ('s, unit) kern" where
  "modk f = (\<lambda>s. Ok ((), f s))"

definition whenk :: "bool \<Rightarrow> ('s, unit) kern \<Rightarrow> ('s, unit) kern" where
  "whenk b m = (if b then m else ret ())"

lemmas kern_defs = ret_def bindk_def seqk_def panic_def undefinedk_def sleepsk_def
  divergesk_def getk_def modk_def whenk_def

lemma ret_app [kern_simps]: "ret x s = Ok (x, s)" by (simp add: ret_def)

lemma panic_app [kern_simps]: "panic msg s = Panic msg" by (simp add: panic_def)

lemma undefinedk_app [kern_simps]: "undefinedk msg s = Undefined msg"
  by (simp add: undefinedk_def)

lemma sleepsk_app [kern_simps]: "sleepsk msg s = Sleeps msg" by (simp add: sleepsk_def)

lemma divergesk_app [kern_simps]: "divergesk s = Diverges" by (simp add: divergesk_def)

lemma getk_app [kern_simps]: "getk f s = Ok (f s, s)" by (simp add: getk_def)

lemma modk_app [kern_simps]: "modk f s = Ok ((), f s)" by (simp add: modk_def)

lemma whenk_app [kern_simps]: "whenk b m s = (if b then m s else Ok ((), s))"
  by (simp add: whenk_def ret_def)

lemma bindk_Ok [kern_simps]: "m s = Ok (x, t) \<Longrightarrow> bindk m f s = f x t"
  by (simp add: bindk_def)

lemma bindk_Panic [kern_simps]: "m s = Panic msg \<Longrightarrow> bindk m f s = Panic msg"
  by (simp add: bindk_def)

lemma bindk_Undefined [kern_simps]: "m s = Undefined msg \<Longrightarrow> bindk m f s = Undefined msg"
  by (simp add: bindk_def)

lemma bindk_Sleeps [kern_simps]: "m s = Sleeps msg \<Longrightarrow> bindk m f s = Sleeps msg"
  by (simp add: bindk_def)

lemma bindk_Diverges [kern_simps]: "m s = Diverges \<Longrightarrow> bindk m f s = Diverges"
  by (simp add: bindk_def)

lemma seqk_app [kern_simps]: "seqk m k s = bindk m (\<lambda>_. k) s"
  by (simp add: seqk_def)

lemma bindk_OkD:
  "bindk m f s = Ok (y, u) \<Longrightarrow> \<exists>x t. m s = Ok (x, t) \<and> f x t = Ok (y, u)"
  by (auto simp: bindk_def split: outcome.splits)

lemma bindk_OkE:
  assumes "bindk m f s = Ok (y, u)"
  obtains x t where "m s = Ok (x, t)" and "f x t = Ok (y, u)"
  using bindk_OkD [OF assms] by blast

lemma bindk_assoc: "bindk (bindk m f) g = bindk m (\<lambda>x. bindk (f x) g)"
  by (rule ext) (auto simp: bindk_def split: outcome.splits)

lemma bindk_ret_right: "bindk m ret = m"
  by (rule ext) (auto simp: bindk_def ret_def split: outcome.splits)

text \<open>Running an operation on a part of a larger state.\<close>

definition zoomk :: "('s \<Rightarrow> 't) \<Rightarrow> ('t \<Rightarrow> 's \<Rightarrow> 's) \<Rightarrow> ('t, 'a) kern \<Rightarrow> ('s, 'a) kern" where
  "zoomk part put m = (\<lambda>s. case m (part s) of
      Ok (x, t) \<Rightarrow> Ok (x, put t s)
    | Panic msg \<Rightarrow> Panic msg
    | Undefined msg \<Rightarrow> Undefined msg
    | Sleeps msg \<Rightarrow> Sleeps msg
    | Diverges \<Rightarrow> Diverges)"

lemma zoomk_Ok [kern_simps]: "m (part s) = Ok (x, t) \<Longrightarrow> zoomk part put m s = Ok (x, put t s)"
  by (simp add: zoomk_def)

lemma zoomk_not_Ok [kern_simps]:
  "m (part s) = Panic msg \<Longrightarrow> zoomk part put m s = Panic msg"
  "m (part s) = Undefined msg \<Longrightarrow> zoomk part put m s = Undefined msg"
  "m (part s) = Sleeps msg \<Longrightarrow> zoomk part put m s = Sleeps msg"
  "m (part s) = Diverges \<Longrightarrow> zoomk part put m s = Diverges"
  by (simp_all add: zoomk_def)

section \<open>Hoare-style reasoning on outcomes\<close>

text \<open>
  \<open>okp P r\<close>: the outcome is a normal return and it satisfies \<open>P\<close> (total correctness).
  \<open>okq P r\<close>: if the outcome is a normal return, it satisfies \<open>P\<close> (used for frame
  conditions only, where the code may also panic).
\<close>

definition okp :: "('a \<Rightarrow> 's \<Rightarrow> bool) \<Rightarrow> ('a \<times> 's) outcome \<Rightarrow> bool" where
  "okp P r \<longleftrightarrow> (\<exists>x t. r = Ok (x, t) \<and> P x t)"

definition okq :: "('a \<Rightarrow> 's \<Rightarrow> bool) \<Rightarrow> ('a \<times> 's) outcome \<Rightarrow> bool" where
  "okq P r \<longleftrightarrow> (\<forall>x t. r = Ok (x, t) \<longrightarrow> P x t)"

lemma okp_Ok [simp]: "okp P (Ok (x, t)) \<longleftrightarrow> P x t"
  by (simp add: okp_def)

lemma okp_not_Ok [simp]:
  "\<not> okp P (Panic m)" "\<not> okp P (Undefined m)" "\<not> okp P (Sleeps m)" "\<not> okp P Diverges"
  by (simp_all add: okp_def)

lemma okpI: "r = Ok (x, t) \<Longrightarrow> P x t \<Longrightarrow> okp P r"
  by (simp add: okp_def)

lemma okpE:
  assumes "okp P r"
  obtains x t where "r = Ok (x, t)" and "P x t"
  using assms by (auto simp: okp_def)

lemma okp_mono: "okp P r \<Longrightarrow> (\<And>x t. P x t \<Longrightarrow> Q x t) \<Longrightarrow> okp Q r"
  by (auto simp: okp_def)

lemma okp_bind: "okp (\<lambda>x t. okp P (f x t)) (m s) \<Longrightarrow> okp P (bindk m f s)"
  by (auto simp: okp_def bindk_def)

lemma okp_bindI:
  assumes "okp Q (m s)" and "\<And>x t. Q x t \<Longrightarrow> okp P (f x t)"
  shows "okp P (bindk m f s)"
  using assms by (auto simp: okp_def bindk_def)

lemma okq_Ok [simp]: "okq P (Ok (x, t)) \<longleftrightarrow> P x t"
  by (simp add: okq_def)

lemma okq_not_Ok [simp]:
  "okq P (Panic m)" "okq P (Undefined m)" "okq P (Sleeps m)" "okq P Diverges"
  by (simp_all add: okq_def)

lemma okq_bindI:
  assumes "okq Q (m s)" and "\<And>x t. Q x t \<Longrightarrow> okq P (f x t)"
  shows "okq P (bindk m f s)"
  using assms by (auto simp: okq_def bindk_def split: outcome.splits)

lemma okq_mono: "okq P r \<Longrightarrow> (\<And>x t. P x t \<Longrightarrow> Q x t) \<Longrightarrow> okq Q r"
  by (auto simp: okq_def)

lemma okqD: "okq P r \<Longrightarrow> r = Ok (x, t) \<Longrightarrow> P x t"
  by (simp add: okq_def)

lemma okp_okq: "okp P r \<Longrightarrow> okq P r"
  by (auto simp: okp_def okq_def)

section \<open>Lists\<close>

lemma find_Some_iff_first:
  "find P xs = Some x \<longleftrightarrow> (\<exists>i < length xs. x = xs ! i \<and> P (xs ! i) \<and> (\<forall>j < i. \<not> P (xs ! j)))"
  by (auto simp: find_Some_iff)

text \<open>The index of the first element with a property, as a loop over an array finds it.\<close>

fun find_index_from :: "nat \<Rightarrow> ('a \<Rightarrow> bool) \<Rightarrow> 'a list \<Rightarrow> nat option" where
  "find_index_from i P [] = None"
| "find_index_from i P (x # xs) = (if P x then Some i else find_index_from (Suc i) P xs)"

abbreviation find_index :: "('a \<Rightarrow> bool) \<Rightarrow> 'a list \<Rightarrow> nat option" where
  "find_index \<equiv> find_index_from 0"

lemma find_index_from_Some:
  "find_index_from k P xs = Some i \<longleftrightarrow>
     k \<le> i \<and> i - k < length xs \<and> P (xs ! (i - k)) \<and> (\<forall>j < i - k. \<not> P (xs ! j))"
proof (induction xs arbitrary: k)
  case Nil
  then show ?case by simp
next
  case (Cons x xs)
  show ?case
  proof (cases "P x")
    case True
    then show ?thesis by (auto simp: nth_Cons' split: if_splits)
  next
    case False
    then have "find_index_from k P (x # xs) = find_index_from (Suc k) P xs" by simp
    also have "\<dots> = Some i \<longleftrightarrow> Suc k \<le> i \<and> i - Suc k < length xs \<and> P (xs ! (i - Suc k)) \<and>
        (\<forall>j < i - Suc k. \<not> P (xs ! j))"
      by (rule Cons.IH)
    also have "\<dots> \<longleftrightarrow> k \<le> i \<and> i - k < length (x # xs) \<and> P ((x # xs) ! (i - k)) \<and>
        (\<forall>j < i - k. \<not> P ((x # xs) ! j))"
    proof (cases "Suc k \<le> i")
      case True
      then obtain d where d: "i = Suc (k + d)" by (metis add_Suc less_eqE)
      show ?thesis by (simp add: d All_less_Suc2 False)
    next
      case not: False
      then show ?thesis using False by (auto simp: nth_Cons' split: if_splits)
    qed
    finally show ?thesis .
  qed
qed

lemma find_index_Some:
  "find_index P xs = Some i \<longleftrightarrow> i < length xs \<and> P (xs ! i) \<and> (\<forall>j < i. \<not> P (xs ! j))"
  by (simp add: find_index_from_Some)

lemma find_index_from_None: "find_index_from k P xs = None \<longleftrightarrow> (\<forall>x \<in> set xs. \<not> P x)"
  by (induction xs arbitrary: k) auto

end
