(* ===== verification/Mmu.thy ===== *)
theory Mmu
  imports Prelude
begin

unbundle bit_operations_syntax

text \<open>
  The address-space layout of \<open>memlayout.h\<close> and the paging macros of \<open>mmu.h\<close>, on 32-bit
  words, and a byte-addressed memory with the little-endian 32-bit accesses the compiler
  generates for \<open>uint\<close>, pointer and page-table-entry loads and stores.
  The memory is indexed by kernel virtual addresses (the direct map from \<open>KERNBASE\<close>).
\<close>

section \<open>Constants\<close>

definition EXTMEM :: u32 where "EXTMEM = 0x100000"
definition PHYSTOP :: u32 where "PHYSTOP = 0xE000000"
definition DEVSPACE :: u32 where "DEVSPACE = 0xFE000000"
definition KERNBASE :: u32 where "KERNBASE = 0x80000000"
definition KERNLINK :: u32 where "KERNLINK = KERNBASE + EXTMEM"

definition PGSIZE :: u32 where "PGSIZE = 4096"
definition NPDENTRIES :: nat where "NPDENTRIES = 1024"

definition PTE_P :: u32 where "PTE_P = 1"
definition PTE_W :: u32 where "PTE_W = 2"
definition PTE_U :: u32 where "PTE_U = 4"

section \<open>Macros\<close>

definition V2P :: "u32 \<Rightarrow> u32" where "V2P a = a - KERNBASE"
definition P2V :: "u32 \<Rightarrow> u32" where "P2V a = a + KERNBASE"

definition PDX :: "u32 \<Rightarrow> u32" where "PDX va = drop_bit 22 va AND 0x3FF"
definition PTX :: "u32 \<Rightarrow> u32" where "PTX va = drop_bit 12 va AND 0x3FF"

definition PGADDR :: "u32 \<Rightarrow> u32 \<Rightarrow> u32 \<Rightarrow> u32" where
  "PGADDR d t off = push_bit 22 d OR push_bit 12 t OR off"

definition PGROUNDUP :: "u32 \<Rightarrow> u32" where
  "PGROUNDUP sz = (sz + PGSIZE - 1) AND NOT (PGSIZE - 1)"

definition PGROUNDDOWN :: "u32 \<Rightarrow> u32" where
  "PGROUNDDOWN a = a AND NOT (PGSIZE - 1)"

definition PTE_ADDR :: "u32 \<Rightarrow> u32" where "PTE_ADDR pte = pte AND NOT 0xFFF"
definition PTE_FLAGS :: "u32 \<Rightarrow> u32" where "PTE_FLAGS pte = pte AND 0xFFF"

lemmas layout_defs = EXTMEM_def PHYSTOP_def DEVSPACE_def KERNBASE_def KERNLINK_def
  PGSIZE_def NPDENTRIES_def PTE_P_def PTE_W_def PTE_U_def

section \<open>Page arithmetic\<close>

lemma PTE_ADDR_PGROUNDDOWN: "PTE_ADDR = PGROUNDDOWN"
  by (rule ext) (simp add: PTE_ADDR_def PGROUNDDOWN_def PGSIZE_def)

lemma and_4095: "(x :: u32) AND 0xFFF = take_bit 12 x"
proof -
  have "(0xFFF :: u32) = mask 12" by (simp add: mask_eq_exp_minus_1)
  then show ?thesis by (simp add: take_bit_eq_mask)
qed

lemma and_1023: "(x :: u32) AND 0x3FF = take_bit 10 x"
proof -
  have "(0x3FF :: u32) = mask 10" by (simp add: mask_eq_exp_minus_1)
  then show ?thesis by (simp add: take_bit_eq_mask)
qed

lemma unat32_less: "unat (x :: u32) < 4294967296"
proof -
  have "unat x < 2 ^ LENGTH(32)" by (rule unsigned_less)
  then show ?thesis by simp
qed

lemma unat_widen: "unat (ucast (x :: u8) :: u32) = unat x" "unat (ucast (y :: u16) :: u32) = unat y"
  using unsigned_less [of x, where ?'a = nat] unsigned_less [of y, where ?'a = nat] by (simp_all add: unsigned_ucast_eq take_bit_nat_eq_self)

lemma unat_take_bit32: "unat (take_bit n (x :: u32)) = unat x mod 2 ^ n"
proof -
  have "unat (take_bit n x) = take_bit n (unat x)" by (rule unsigned_take_bit_eq)
  also have "\<dots> = unat x mod 2 ^ n" by (rule take_bit_eq_mod)
  finally show ?thesis .
qed

lemma split_mask: "(x :: u32) = (x AND NOT m) + (x AND m)"
proof -
  have "(x AND NOT m) AND (x AND m) = 0"
    by (rule bit_word_eqI) (auto simp: bit_simps)
  then have "(x AND NOT m) + (x AND m) = (x AND NOT m) OR (x AND m)"
    by (rule disjunctive_add_eq_or)
  also have "\<dots> = x"
    by (rule bit_word_eqI) (auto simp: bit_simps)
  finally show ?thesis ..
qed

lemma or_mask_split: "((x :: u32) AND NOT m) OR (x AND m) = x"
  by (rule bit_word_eqI) (auto simp: bit_simps)

lemma unat_and_4095: "unat ((a :: u32) AND 0xFFF) = unat a mod 4096"
  by (simp only: and_4095 unat_take_bit32) simp

lemma unat_PGROUNDDOWN: "unat (PGROUNDDOWN a) = 4096 * (unat a div 4096)"
proof -
  have "a AND NOT 0xFFF = a - (a AND 0xFFF)"
    using split_mask [of a "0xFFF"] by (metis add_diff_cancel_right')
  then have "unat (PGROUNDDOWN a) = unat (a - (a AND 0xFFF))"
    by (simp add: PGROUNDDOWN_def PGSIZE_def)
  also have "\<dots> = unat a - unat (a AND 0xFFF)"
    by (rule unat_sub) (simp add: word_le_nat_alt unat_and_4095)
  also have "\<dots> = 4096 * (unat a div 4096)"
    by (simp add: unat_and_4095 minus_mod_eq_mult_div)
  finally show ?thesis .
qed

lemma unat_PDX: "unat (PDX va) = unat va div 4194304"
proof -
  have b: "unat va div 4194304 < 1024"
    using unat32_less [of va] by (simp add: less_mult_imp_div_less)
  have "unat (PDX va) = unat (drop_bit 22 va) mod 2 ^ 10"
    by (simp only: PDX_def and_1023 unat_take_bit32)
  also have "\<dots> = unat va div 4194304"
    using b unat_drop_bit_eq [of 22 va] drop_bit_eq_div [of 22 "unat va"] by simp
  finally show ?thesis .
qed

lemma unat_PTX: "unat (PTX va) = unat va div 4096 mod 1024"
proof -
  have "unat (PTX va) = unat (drop_bit 12 va) mod 2 ^ 10"
    by (simp only: PTX_def and_1023 unat_take_bit32)
  also have "unat (drop_bit 12 va) = unat va div 4096"
    using unat_drop_bit_eq [of 12 va] drop_bit_eq_div [of 12 "unat va"] by simp
  finally show ?thesis by simp
qed

lemma PDX_less: "unat (PDX va) < 1024"
  using unat32_less [of va] by (simp add: unat_PDX less_mult_imp_div_less)

lemma PTX_less: "unat (PTX va) < 1024"
  by (simp add: unat_PTX)

definition page_aligned :: "u32 \<Rightarrow> bool" where
  "page_aligned a \<longleftrightarrow> a mod PGSIZE = 0"

lemma page_aligned_unat: "page_aligned a \<longleftrightarrow> unat a mod 4096 = 0"
  by (simp add: page_aligned_def PGSIZE_def word_unat_eq_iff unat_mod)

lemma page_aligned_PGROUNDDOWN [simp]: "page_aligned (PGROUNDDOWN a)"
  by (simp add: page_aligned_unat unat_PGROUNDDOWN)

lemma PGROUNDDOWN_aligned [page_simps]: "page_aligned a \<Longrightarrow> PGROUNDDOWN a = a"
  by (auto simp: word_unat_eq_iff unat_PGROUNDDOWN page_aligned_unat)

lemma PGROUNDDOWN_idem [simp]: "PGROUNDDOWN (PGROUNDDOWN a) = PGROUNDDOWN a"
  by (simp add: PGROUNDDOWN_aligned)

lemma page_aligned_le: "page_aligned f \<Longrightarrow> unat f \<le> 4294963200"
  using unat32_less [of f] by (auto simp: page_aligned_unat)

lemma unat_page_add:
  "page_aligned f \<Longrightarrow> unat off < 4096 \<Longrightarrow> unat (f + off) = unat f + unat off"
  using page_aligned_le [of f] by (simp add: unat_word_ariths)

lemma PGROUNDDOWN_add [page_simps]:
  "page_aligned f \<Longrightarrow> unat off < 4096 \<Longrightarrow> PGROUNDDOWN (f + off) = f"
  by (auto simp: word_unat_eq_iff unat_PGROUNDDOWN unat_page_add page_aligned_unat)

lemma PGROUNDUP_eq: "PGROUNDUP a = PGROUNDDOWN (a + 4095)"
  by (simp add: PGROUNDUP_def PGROUNDDOWN_def PGSIZE_def add.commute)

lemma unat_PGROUNDUP:
  assumes "unat a \<le> 4294963200"
  shows "unat (PGROUNDUP a) = 4096 * ((unat a + 4095) div 4096)"
proof -
  have "PGROUNDUP a = PGROUNDDOWN (a + 4095)"
    by (rule PGROUNDUP_eq)
  moreover have "unat (a + 4095) = unat a + 4095"
    using assms by (simp add: unat_word_ariths)
  ultimately show ?thesis by (simp add: unat_PGROUNDDOWN)
qed

lemma page_aligned_PGROUNDUP [simp]: "page_aligned (PGROUNDUP a)"
  by (simp add: PGROUNDUP_eq)

lemma page_aligned_add:
  "page_aligned a \<Longrightarrow> page_aligned b \<Longrightarrow> page_aligned (a + b)"
  by (auto simp: page_aligned_unat unat_word_ariths mod_eq_0_iff_dvd dvd_mod)

lemma page_aligned_diff:
  "page_aligned a \<Longrightarrow> page_aligned b \<Longrightarrow> page_aligned (a - b)"
proof -
  assume a: "page_aligned a" "page_aligned b"
  have "unat (a - b) = (if unat b \<le> unat a then unat a - unat b else unat a + 2 ^ 32 - unat b)"
    by (simp add: unat_sub_if')
  with a show ?thesis
    using unat32_less [of b] by (auto simp: page_aligned_unat mod_eq_0_iff_dvd intro!: dvd_diff_nat)
qed

lemma page_aligned_consts [simp]:
  "page_aligned KERNBASE" "page_aligned PGSIZE" "page_aligned PHYSTOP" "page_aligned 0"
  "page_aligned EXTMEM" "page_aligned DEVSPACE"
  by (simp_all add: page_aligned_def layout_defs)

lemma page_aligned_P2V [simp]: "page_aligned (P2V a) \<longleftrightarrow> page_aligned a"
  using page_aligned_add [of a KERNBASE] page_aligned_diff [of "a + KERNBASE" KERNBASE]
  by (auto simp: P2V_def)

lemma page_aligned_V2P [simp]: "page_aligned (V2P a) \<longleftrightarrow> page_aligned a"
  using page_aligned_diff [of a KERNBASE] page_aligned_add [of "a - KERNBASE" KERNBASE]
  by (auto simp: V2P_def)

lemma P2V_V2P [simp]: "P2V (V2P a) = a" and V2P_P2V [simp]: "V2P (P2V a) = a"
  by (simp_all add: P2V_def V2P_def)

lemma P2V_inj [simp]: "P2V a = P2V b \<longleftrightarrow> a = b"
  by (simp add: P2V_def)

lemma V2P_inj [simp]: "V2P a = V2P b \<longleftrightarrow> a = b"
  by (simp add: V2P_def)

section \<open>Page table entries\<close>

lemma aligned_and_4095: "page_aligned a \<Longrightarrow> a AND 0xFFF = 0"
  by (simp add: word_unat_eq_iff unat_and_4095 page_aligned_unat)

lemma small_and_not_4095:
  assumes "unat (fl :: u32) < 4096" shows "fl AND NOT 0xFFF = 0"
proof -
  have "PGROUNDDOWN fl = 0"
    using assms by (simp add: word_unat_eq_iff unat_PGROUNDDOWN)
  then show ?thesis by (simp add: PGROUNDDOWN_def PGSIZE_def)
qed

lemma page_aligned_and: "page_aligned a \<Longrightarrow> a AND NOT 0xFFF = a"
  using PGROUNDDOWN_aligned [of a] by (simp add: PGROUNDDOWN_def PGSIZE_def)

lemma PTE_ADDR_or [page_simps]:
  "page_aligned pa \<Longrightarrow> unat fl < 4096 \<Longrightarrow> PTE_ADDR (pa OR fl) = pa"
  by (simp only: PTE_ADDR_def bit.conj_disj_distrib2 page_aligned_and small_and_not_4095 or.right_neutral)

lemma small_and_4095: "unat (fl :: u32) < 4096 \<Longrightarrow> fl AND 0xFFF = fl"
  by (simp add: word_unat_eq_iff unat_and_4095)

lemma PTE_FLAGS_or [page_simps]:
  "page_aligned pa \<Longrightarrow> unat fl < 4096 \<Longrightarrow> PTE_FLAGS (pa OR fl) = fl"
  by (simp only: PTE_FLAGS_def bit.conj_disj_distrib2 aligned_and_4095 small_and_4095 or.left_neutral)

lemma PTE_ADDR_aligned [simp]: "page_aligned (PTE_ADDR pte)"
  by (simp add: PTE_ADDR_PGROUNDDOWN)

lemma PTE_FLAGS_less [simp]: "unat (PTE_FLAGS pte) < 4096"
  by (simp add: PTE_FLAGS_def unat_and_4095)

lemma PTE_split: "PTE_ADDR pte OR PTE_FLAGS pte = pte"
  unfolding PTE_ADDR_def PTE_FLAGS_def by (rule or_mask_split)

end
