(* ===== verification/Cstring.thy ===== *)
theory Cstring
  imports Mmu
begin

unbundle bit_operations_syntax

text \<open>
  The routines of \<open>string.c\<close> and the byte memory they work on.  A memory is a function from
  32-bit addresses to bytes; pointer arithmetic wraps.  A string argument that is only read
  is the function giving the byte at each offset from the pointer.  The lemmas give the
  closed form of the bulk operations (every byte of the range, nothing else), the agreement of
  the two copying directions of \<open>memmove\<close>, and the comparison and copy laws that the file
  system relies on for directory names.
\<close>

type_synonym memory = "u32 \<Rightarrow> u8"
type_synonym bytes = "nat \<Rightarrow> u8"

section \<open>32-bit accesses\<close>

definition load32 :: "memory \<Rightarrow> u32 \<Rightarrow> u32" where
  "load32 m a = ucast (m a) OR push_bit 8 (ucast (m (a + 1))) OR
     push_bit 16 (ucast (m (a + 2))) OR push_bit 24 (ucast (m (a + 3)))"

definition store32 :: "memory \<Rightarrow> u32 \<Rightarrow> u32 \<Rightarrow> memory" where
  "store32 m a v = m(a := ucast v, a + 1 := ucast (drop_bit 8 v),
     a + 2 := ucast (drop_bit 16 v), a + 3 := ucast (drop_bit 24 v))"

lemma load32_store32_same [simp]: "load32 (store32 m a v) a = v"
proof -
  have "load32 (store32 m a v) a = ucast (ucast v :: u8) OR
      push_bit 8 (ucast (ucast (drop_bit 8 v) :: u8)) OR
      push_bit 16 (ucast (ucast (drop_bit 16 v) :: u8)) OR
      push_bit 24 (ucast (ucast (drop_bit 24 v) :: u8))"
    by (simp add: load32_def store32_def)
  also have "\<dots> = v"
  proof (rule bit_word_eqI)
    fix n assume "n < LENGTH(32)"
    then consider "n < 8" | "8 \<le> n" "n < 16" | "16 \<le> n" "n < 24" | "24 \<le> n" "n < 32"
      by fastforce
    then show "bit (ucast (ucast v :: u8) OR
      push_bit 8 (ucast (ucast (drop_bit 8 v) :: u8)) OR
      push_bit 16 (ucast (ucast (drop_bit 16 v) :: u8)) OR
      push_bit 24 (ucast (ucast (drop_bit 24 v) :: u8)) :: u32) n = bit v n"
      by cases (auto simp: bit_simps less_diff_conv2)
  qed
  finally show ?thesis .
qed

definition word_aligned :: "u32 \<Rightarrow> bool" where
  "word_aligned a \<longleftrightarrow> unat a mod 4 = 0"

lemma word_aligned_unat_add:
  assumes "word_aligned a" "k < 4"
  shows "unat (a + of_nat k) = unat a + k"
proof -
  have "unat a \<le> 4294967292"
    using assms(1) unat32_less [of a] by (simp add: word_aligned_def) presburger
  moreover have "unat (of_nat k :: u32) = k"
    using assms(2) by (simp add: unat_of_nat)
  ultimately show ?thesis
    using assms(2) by (simp add: unat_word_ariths)
qed

lemma word_aligned_disjoint:
  assumes "word_aligned a" "word_aligned b" "a \<noteq> b" "i < 4" "j < 4"
  shows "a + of_nat i \<noteq> b + of_nat j"
proof
  assume "a + of_nat i = b + of_nat j"
  then have "unat a + i = unat b + j"
    using assms by (metis word_aligned_unat_add)
  with assms(1,2,4,5) have "unat a = unat b"
    unfolding word_aligned_def by presburger
  with \<open>a \<noteq> b\<close> show False by (simp add: word_unat_eq_iff)
qed

lemma load32_cong:
  assumes "\<And>k. k < 4 \<Longrightarrow> m (a + of_nat k) = m' (a + of_nat k)"
  shows "load32 m a = load32 m' a"
  using assms [of 0] assms [of 1] assms [of 2] assms [of 3] by (simp add: load32_def)

lemma load32_store32_other:
  assumes "word_aligned a" "word_aligned b" "a \<noteq> b"
  shows "load32 (store32 m a v) b = load32 m b"
proof (rule load32_cong)
  fix k :: nat assume k: "k < 4"
  have "b + of_nat k \<noteq> a + of_nat i" if "i < 4" for i
    using assms k that word_aligned_disjoint [of b a k i] by auto
  from this [of 0] this [of 1] this [of 2] this [of 3]
  show "store32 m a v (b + of_nat k) = m (b + of_nat k)"
    by (simp add: store32_def)
qed

section \<open>memset, memmove, memcmp\<close>

text \<open>The x86 string stores of \<open>x86.h\<close>: \<open>cnt\<close> bytes or 32-bit words upwards from \<open>addr\<close>.\<close>

primrec stosb :: "memory \<Rightarrow> u32 \<Rightarrow> u8 \<Rightarrow> nat \<Rightarrow> memory" where
  "stosb m addr data 0 = m"
| "stosb m addr data (Suc cnt) = stosb (m(addr := data)) (addr + 1) data cnt"

primrec stosl :: "memory \<Rightarrow> u32 \<Rightarrow> u32 \<Rightarrow> nat \<Rightarrow> memory" where
  "stosl m addr data 0 = m"
| "stosl m addr data (Suc cnt) = stosl (store32 m addr data) (addr + 4) data cnt"

definition memset :: "memory \<Rightarrow> u32 \<Rightarrow> u32 \<Rightarrow> u32 \<Rightarrow> memory" where
  "memset m dst c n =
     (if dst mod 4 = 0 \<and> n mod 4 = 0 then
        (let c' = c AND 0xFF in
         stosl m dst (push_bit 24 c' OR push_bit 16 c' OR push_bit 8 c' OR c') (unat (n div 4)))
      else stosb m dst (ucast c) (unat n))"

primrec memcmp_loop :: "bytes \<Rightarrow> bytes \<Rightarrow> nat \<Rightarrow> nat \<Rightarrow> int" where
  "memcmp_loop s1 s2 i 0 = 0"
| "memcmp_loop s1 s2 i (Suc n) =
     (if s1 i \<noteq> s2 i then uint (s1 i) - uint (s2 i) else memcmp_loop s1 s2 (Suc i) n)"

definition memcmp :: "bytes \<Rightarrow> bytes \<Rightarrow> u32 \<Rightarrow> int" where
  "memcmp v1 v2 n = memcmp_loop v1 v2 0 (unat n)"

primrec copy_down :: "memory \<Rightarrow> u32 \<Rightarrow> u32 \<Rightarrow> nat \<Rightarrow> memory" where
  "copy_down m d s 0 = m"
| "copy_down m d s (Suc n) = copy_down (m(d - 1 := m (s - 1))) (d - 1) (s - 1) n"

primrec copy_up :: "memory \<Rightarrow> u32 \<Rightarrow> u32 \<Rightarrow> nat \<Rightarrow> memory" where
  "copy_up m d s 0 = m"
| "copy_up m d s (Suc n) = copy_up (m(d := m s)) (d + 1) (s + 1) n"

definition memmove :: "memory \<Rightarrow> u32 \<Rightarrow> u32 \<Rightarrow> u32 \<Rightarrow> memory" where
  "memmove m dst src n =
     (if src < dst \<and> src + n > dst
      then copy_down m (dst + n) (src + n) (unat n)
      else copy_up m dst src (unat n))"

definition memcpy :: "memory \<Rightarrow> u32 \<Rightarrow> u32 \<Rightarrow> u32 \<Rightarrow> memory" where
  "memcpy m dst src n = memmove m dst src n"

section \<open>Strings\<close>

primrec strncmp_loop :: "bytes \<Rightarrow> bytes \<Rightarrow> nat \<Rightarrow> nat \<Rightarrow> int" where
  "strncmp_loop p q i 0 = 0"
| "strncmp_loop p q i (Suc n) =
     (if p i \<noteq> 0 \<and> p i = q i then strncmp_loop p q (Suc i) n
      else uint (p i) - uint (q i))"

definition strncmp :: "bytes \<Rightarrow> bytes \<Rightarrow> nat \<Rightarrow> int" where
  "strncmp p q n = strncmp_loop p q 0 n"

text \<open>
  The copying loops: \<open>i\<close> is the number of bytes copied so far, and the result is the
  destination array.  \<open>strncpy_pad\<close> is the second loop of \<open>strncpy\<close>.
\<close>

primrec strncpy_pad :: "bytes \<Rightarrow> nat \<Rightarrow> nat \<Rightarrow> bytes" where
  "strncpy_pad s i 0 = s"
| "strncpy_pad s i (Suc n) = strncpy_pad (s(i := 0)) (Suc i) n"

primrec strncpy_loop :: "bytes \<Rightarrow> bytes \<Rightarrow> nat \<Rightarrow> nat \<Rightarrow> bytes" where
  "strncpy_loop s t i 0 = s"
| "strncpy_loop s t i (Suc n) =
     (if t i \<noteq> 0 then strncpy_loop (s(i := t i)) t (Suc i) n
      else strncpy_pad (s(i := t i)) (Suc i) n)"

definition strncpy :: "bytes \<Rightarrow> bytes \<Rightarrow> int \<Rightarrow> bytes" where
  "strncpy s t n = strncpy_loop s t 0 (nat n)"

text \<open>\<open>safestrcpy_loop s t i k\<close>: \<open>k\<close> bytes may still be copied before the terminating NUL.\<close>

primrec safestrcpy_loop :: "bytes \<Rightarrow> bytes \<Rightarrow> nat \<Rightarrow> nat \<Rightarrow> bytes" where
  "safestrcpy_loop s t i 0 = s(i := 0)"
| "safestrcpy_loop s t i (Suc k) =
     (if t i \<noteq> 0 then safestrcpy_loop (s(i := t i)) t (Suc i) k
      else (s(i := t i))(Suc i := 0))"

definition safestrcpy :: "bytes \<Rightarrow> bytes \<Rightarrow> int \<Rightarrow> bytes" where
  "safestrcpy s t n = (if n \<le> 0 then s else safestrcpy_loop s t 0 (nat (n - 1)))"

partial_function (option) strlen_from :: "bytes \<Rightarrow> nat \<Rightarrow> nat option" where
  "strlen_from s n = (if s n \<noteq> 0 then strlen_from s (Suc n) else Some n)"

definition strlen :: "bytes \<Rightarrow> nat option" where
  "strlen s = strlen_from s 0"

section \<open>Closed forms of the bulk operations\<close>

lemma unat_diff_Suc: "a \<noteq> (d :: u32) \<Longrightarrow> unat (a - d) = Suc (unat (a - (d + 1)))"
proof -
  assume "a \<noteq> d"
  then have "a - d \<noteq> 0" by simp
  then have "unat (a - d - 1) = unat (a - d) - 1" and "0 < unat (a - d)"
    by (simp_all add: unat_minus_one unat_gt_0)
  then show ?thesis by (simp add: algebra_simps)
qed

lemma unat_diff_self_add: "n < 4294967296 \<Longrightarrow> unat ((d :: u32) + of_nat n - d) = n"
  by (simp add: unat_of_nat)

lemma unat_minus_1: "unat (- 1 :: u32) = 4294967295"
  by (simp add: unsigned_minus_1_eq_mask mask_eq_exp_minus_1)

lemma stosb_apply:
  "cnt \<le> 4294967296 \<Longrightarrow> stosb m addr v cnt a = (if unat (a - addr) < cnt then v else m a)"
proof (induction cnt arbitrary: m addr)
  case 0
  then show ?case by simp
next
  case (Suc cnt)
  show ?case
  proof (cases "a = addr")
    case True
    have "unat (a - (addr + 1)) = 4294967295"
      using True unat_minus_1 by simp
    then show ?thesis using Suc True by simp
  next
    case False
    then show ?thesis using Suc unat_diff_Suc [OF False] by simp
  qed
qed

definition rep4 :: "u8 \<Rightarrow> u32" where
  "rep4 b = push_bit 24 (ucast b) OR push_bit 16 (ucast b) OR push_bit 8 (ucast b) OR ucast b"

lemma byte_rep4:
  "ucast (rep4 b) = b" "ucast (drop_bit 8 (rep4 b)) = b"
  "ucast (drop_bit 16 (rep4 b)) = b" "ucast (drop_bit 24 (rep4 b)) = b"
  by (rule bit_word_eqI, auto simp: rep4_def bit_simps dest: bit_imp_le_length)+

lemma stosb_4: "stosb m a b 4 = m(a := b, a + 1 := b, a + 2 := b, a + 3 := b)"
  by (simp add: numeral_eq_Suc add.assoc)

lemma store32_rep4: "store32 m a (rep4 b) = stosb m a b 4"
  by (simp only: store32_def byte_rep4 stosb_4)

lemma stosb_append: "stosb m a b (i + j) = stosb (stosb m a b i) (a + of_nat i) b j"
  by (induction i arbitrary: m a) (simp_all add: add.assoc)

lemma stosl_rep4: "stosl m a (rep4 b) cnt = stosb m a b (4 * cnt)"
proof (induction cnt arbitrary: m a)
  case 0
  then show ?case by simp
next
  case (Suc cnt)
  have "stosb m a b (4 * Suc cnt) = stosb m a b (4 + 4 * cnt)" by simp
  also have "\<dots> = stosb (stosb m a b 4) (a + of_nat 4) b (4 * cnt)"
    by (rule stosb_append)
  finally show ?case by (simp only: stosl.simps Suc.IH store32_rep4 of_nat_numeral)
qed

lemma and_255_ucast: "(c :: u32) AND 0xFF = ucast (ucast c :: u8)"
proof -
  have "(0xFF :: u32) = mask 8" by (simp add: mask_eq_exp_minus_1)
  then have "c AND 0xFF = take_bit 8 c" by (simp add: take_bit_eq_mask)
  also have "\<dots> = ucast (ucast c :: u8)"
    by (rule bit_word_eqI) (auto simp: bit_simps)
  finally show ?thesis .
qed

lemma memset_stosb: "memset m dst c n = stosb m dst (ucast c) (unat n)"
proof (cases "dst mod 4 = 0 \<and> n mod 4 = 0")
  case True
  then have "unat n mod 4 = 0" by (simp add: word_unat_eq_iff unat_mod)
  then have "4 * unat (n div 4) = unat n" by (simp add: unat_div) presburger
  then show ?thesis
    using True stosl_rep4 [of m dst "ucast c" "unat (n div 4)"]
    by (simp add: memset_def Let_def and_255_ucast rep4_def)
next
  case False
  then show ?thesis by (simp only: memset_def if_False)
qed

lemma memset_apply: "memset m dst c n a = (if unat (a - dst) < unat n then ucast c else m a)"
  using unat32_less [of n] by (simp add: memset_stosb stosb_apply)

lemma copy_up_apply:
  assumes "n \<le> 4294967296"
    and "\<And>i j. i < j \<Longrightarrow> j < n \<Longrightarrow> d + of_nat i \<noteq> s + of_nat j"
  shows "copy_up m d s n a = (if unat (a - d) < n then m (s + (a - d)) else m a)"
  using assms
proof (induction n arbitrary: m d s)
  case 0
  then show ?case by simp
next
  case (Suc n)
  have ns: "d + 1 + of_nat i \<noteq> s + 1 + of_nat j" if "i < j" "j < n" for i j
    using Suc.prems(2) [of "Suc i" "Suc j"] that by (simp add: algebra_simps)
  have nd: "s + 1 + of_nat j \<noteq> d" if "j < n" for j
    using Suc.prems(2) [of 0 "Suc j"] that by (simp add: algebra_simps)
  have IH: "copy_up m (d + 1) (s + 1) n a =
      (if unat (a - (d + 1)) < n then m (s + 1 + (a - (d + 1))) else m a)" for m
    using Suc.IH ns Suc.prems(1) by simp
  show ?case
  proof (cases "a = d")
    case True
    have "unat (a - (d + 1)) = 4294967295"
      using True unat_minus_1 by simp
    then show ?thesis using IH Suc.prems(1) True by simp
  next
    case False
    have "s + 1 + (a - (d + 1)) \<noteq> d" if "unat (a - (d + 1)) < n"
      using nd [OF that] by simp
    then show ?thesis
      using IH unat_diff_Suc [OF False] False by (simp add: algebra_simps)
  qed
qed

lemma copy_down_apply:
  assumes "n \<le> 4294967296"
    and "\<And>i j. i < j \<Longrightarrow> j < n \<Longrightarrow> d + of_nat j \<noteq> s + of_nat i"
  shows "copy_down m (d + of_nat n) (s + of_nat n) n a =
    (if unat (a - d) < n then m (s + (a - d)) else m a)"
  using assms
proof (induction n arbitrary: m)
  case 0
  then show ?case by simp
next
  case (Suc n)
  let ?m = "m(d + of_nat n := m (s + of_nat n))"
  have nd: "s + of_nat i \<noteq> d + of_nat n" if "i < n" for i
    using Suc.prems(2) [of i n] that by auto
  have "copy_down m (d + of_nat (Suc n)) (s + of_nat (Suc n)) (Suc n) a =
      copy_down ?m (d + of_nat n) (s + of_nat n) n a"
    by simp
  also have "\<dots> = (if unat (a - d) < n then ?m (s + (a - d)) else ?m a)"
    using Suc.IH Suc.prems by simp
  also have "\<dots> = (if unat (a - d) < Suc n then m (s + (a - d)) else m a)"
  proof -
    have "?m (s + (a - d)) = m (s + (a - d))" if "unat (a - d) < n"
      using nd [OF that] by simp
    moreover have "a = d + of_nat n \<longleftrightarrow> unat (a - d) = n"
      using Suc.prems(1) unat_diff_self_add [of n d] by (auto simp: unat_of_nat)
    ultimately show ?thesis by auto
  qed
  finally show ?case .
qed

lemma memmove_apply:
  assumes "unat src + unat n < 4294967296" "unat dst + unat n \<le> 4294967296"
  shows "memmove m dst src n a = (if unat (a - dst) < unat n then m (src + (a - dst)) else m a)"
proof -
  have s: "unat (src + of_nat i) = unat src + i" if "i < unat n" for i
    using assms that by (simp add: unat_word_ariths unat_of_nat)
  have d: "unat (dst + of_nat i) = unat dst + i" if "i < unat n" for i
    using assms that by (simp add: unat_word_ariths unat_of_nat)
  have sn: "unat (src + n) = unat src + unat n"
    using assms by (simp add: unat_word_ariths)
  show ?thesis
  proof (cases "src < dst \<and> src + n > dst")
    case True
    have "dst + of_nat j \<noteq> src + of_nat i" if "i < j" "j < unat n" for i j
      using s [of i] d [of j] that True by (auto simp: word_less_nat_alt word_unat_eq_iff)
    then show ?thesis
      using True copy_down_apply [of "unat n" dst src m a] unat32_less [of n]
      by (simp add: memmove_def)
  next
    case False
    then have "unat dst \<le> unat src \<or> unat src + unat n \<le> unat dst"
      using sn by (auto simp: word_less_nat_alt not_less)
    then have "dst + of_nat i \<noteq> src + of_nat j" if "i < j" "j < unat n" for i j
      using s [of j] d [of i] that by (auto simp: word_unat_eq_iff)
    then show ?thesis
      using False copy_up_apply [of "unat n" dst src m a] unat32_less [of n]
      by (auto simp: memmove_def)
  qed
qed

section \<open>Strings of bounded length\<close>

text \<open>The string at \<open>p\<close>, read from offset \<open>i\<close> up to a NUL or at most \<open>n\<close> bytes.\<close>

definition cstr_from :: "nat \<Rightarrow> nat \<Rightarrow> bytes \<Rightarrow> u8 list" where
  "cstr_from i n p = takeWhile (\<lambda>b. b \<noteq> 0) (map p [i ..< i + n])"

abbreviation cstr :: "nat \<Rightarrow> bytes \<Rightarrow> u8 list" where
  "cstr \<equiv> cstr_from 0"

lemma cstr_from_0 [simp]: "cstr_from i 0 p = []"
  by (simp add: cstr_from_def)

lemma cstr_from_Suc:
  "cstr_from i (Suc n) p = (if p i \<noteq> 0 then p i # cstr_from (Suc i) n p else [])"
proof -
  have "[i ..< i + Suc n] = i # [Suc i ..< Suc i + n]"
    by (subst upt_conv_Cons) simp_all
  then show ?thesis by (simp add: cstr_from_def del: upt_Suc)
qed

lemma cstr_from_cong:
  "(\<And>k. i \<le> k \<Longrightarrow> k < i + n \<Longrightarrow> p k = q k) \<Longrightarrow> cstr_from i n p = cstr_from i n q"
  unfolding cstr_from_def by (rule arg_cong [where f = "takeWhile _"]) simp

lemma strncmp_loop_eq_0: "strncmp_loop p q i n = 0 \<longleftrightarrow> cstr_from i n p = cstr_from i n q"
proof (induction n arbitrary: i)
  case 0
  then show ?case by simp
next
  case (Suc n)
  have "uint (p i) = uint (q i) \<longleftrightarrow> p i = q i" by (simp only: word_uint_eq_iff)
  then show ?case using Suc by (cases "p i = q i") (auto simp: cstr_from_Suc word_uint_eq_iff)
qed

lemma strncmp_eq_0: "strncmp p q n = 0 \<longleftrightarrow> cstr n p = cstr n q"
  by (simp add: strncmp_def strncmp_loop_eq_0)

lemma strncpy_pad_apply: "strncpy_pad s i n k = (if i \<le> k \<and> k < i + n then 0 else s k)"
  by (induction n arbitrary: s i) auto

lemma strncpy_loop_outside: "k < i \<or> i + n \<le> k \<Longrightarrow> strncpy_loop s t i n k = s k"
  by (induction n arbitrary: s i) (auto simp: strncpy_pad_apply)

lemma cstr_strncpy_loop: "cstr_from i n (strncpy_loop s t i n) = cstr_from i n t"
proof (induction n arbitrary: s i)
  case 0
  then show ?case by simp
next
  case (Suc n)
  then show ?case
    by (simp add: cstr_from_Suc strncpy_loop_outside strncpy_pad_apply)
qed

lemma cstr_strncpy: "cstr n (strncpy s t (int n)) = cstr n t"
  by (simp add: strncpy_def cstr_strncpy_loop)

lemma strncpy_outside: "n \<le> int k \<Longrightarrow> strncpy s t n k = s k"
  by (simp add: strncpy_def strncpy_loop_outside)

lemma safestrcpy_loop_outside: "k < i \<or> i + n < k \<Longrightarrow> safestrcpy_loop s t i n k = s k"
  by (induction n arbitrary: s i) auto

lemma cstr_safestrcpy_loop: "cstr_from i (Suc n) (safestrcpy_loop s t i n) = cstr_from i n t"
proof (induction n arbitrary: s i)
  case 0
  then show ?case by (simp add: cstr_from_Suc)
next
  case (Suc n)
  show ?case
  proof (cases "t i = 0")
    case True
    then show ?thesis by (simp add: cstr_from_Suc)
  next
    case False
    let ?r = "safestrcpy_loop (s(i := t i)) t (Suc i) n"
    have "?r i = t i" by (simp add: safestrcpy_loop_outside)
    moreover have "cstr_from (Suc i) (Suc n) ?r = cstr_from (Suc i) n t" by (rule Suc.IH)
    ultimately show ?thesis
      using False by (simp add: cstr_from_Suc [of i "Suc n"] cstr_from_Suc [of i n t])
  qed
qed

lemma cstr_safestrcpy: "cstr (Suc n) (safestrcpy s t (int (Suc n))) = cstr n t"
  by (simp add: safestrcpy_def cstr_safestrcpy_loop)

lemma safestrcpy_outside: "n \<le> int k \<Longrightarrow> safestrcpy s t n k = s k"
  by (simp add: safestrcpy_def safestrcpy_loop_outside)

lemma strlen_from_Some:
  assumes "s k = 0" "\<And>i. n \<le> i \<Longrightarrow> i < k \<Longrightarrow> s i \<noteq> 0" "n \<le> k"
  shows "strlen_from s n = Some k"
  using assms(2,3)
proof (induction "k - n" arbitrary: n)
  case 0
  then show ?case using assms(1) by (subst strlen_from.simps) simp
next
  case (Suc d)
  then have "strlen_from s (Suc n) = Some k" by (auto intro!: Suc.hyps(1))
  then show ?case using Suc by (subst strlen_from.simps) simp
qed

lemma strlen_Some: "s k = 0 \<Longrightarrow> (\<And>i. i < k \<Longrightarrow> s i \<noteq> 0) \<Longrightarrow> strlen s = Some k"
  by (simp add: strlen_def strlen_from_Some)

end
