(* ===== verification/Kalloc.thy ===== *)
theory Kalloc
  imports Cstring
begin

unbundle bit_operations_syntax

text \<open>
  The physical page allocator.  The copy-on-write kernel (\<open>xv6-cow_patch/kalloc.c\<close>) keeps a free
  list threaded through the free pages themselves, a count of free pages and a reference count
  per physical page; a page goes back to the list only when its last reference is dropped.
  The scheduling kernel (\<open>xv6_scheduling_patch/kalloc.c\<close>) has the plain free list.
  \<open>flist\<close> abstracts the list in memory; \<open>kmem_inv\<close> is the allocator invariant.  The locale
  \<open>page_allocator\<close> is the contract both allocators meet.
\<close>

section \<open>The copy-on-write allocator\<close>

record kstate =
  mem :: memory                 \<comment> \<open>kernel virtual memory\<close>
  kend :: u32                   \<comment> \<open>the linker symbol \<open>end\<close>\<close>
  klocked :: bool               \<comment> \<open>\<open>kmem.lock\<close> is held\<close>
  use_lock :: bool              \<comment> \<open>\<open>kmem.use_lock\<close>\<close>
  free_pages :: u32
  freelist :: u32
  page_rCount :: "u32 \<Rightarrow> u32"   \<comment> \<open>indexed by physical page number\<close>
  kdata :: u32                  \<comment> \<open>the linker symbol \<open>data\<close>\<close>
  kpgdir :: u32                 \<comment> \<open>the kernel-only page directory of \<open>vm.c\<close>\<close>
  cr3 :: u32                    \<comment> \<open>the page-table register\<close>

definition acquire_kmem :: "(kstate, unit) kern" where
  "acquire_kmem = (\<lambda>s. if klocked s then Panic ''acquire'' else Ok ((), s\<lparr>klocked := True\<rparr>))"

definition release_kmem :: "(kstate, unit) kern" where
  "release_kmem = (\<lambda>s. if klocked s then Ok ((), s\<lparr>klocked := False\<rparr>) else Panic ''release'')"

definition pgno :: "u32 \<Rightarrow> u32" where
  "pgno pa = drop_bit 12 pa"

definition set_rCount :: "u32 \<Rightarrow> u32 \<Rightarrow> kstate \<Rightarrow> kstate" where
  "set_rCount pa n s = s\<lparr>page_rCount := (page_rCount s)(pgno pa := n)\<rparr>"

definition rCount :: "kstate \<Rightarrow> u32 \<Rightarrow> u32" where
  "rCount s pa = page_rCount s (pgno pa)"

definition kfree_drop :: "u32 \<Rightarrow> (kstate, unit) kern" where
  "kfree_drop v = (\<lambda>s.
     let s1 = (if rCount s (V2P v) > 0 then set_rCount (V2P v) (rCount s (V2P v) - 1) s else s) in
     if rCount s1 (V2P v) = 0 then
       let m1 = memset (mem s1) v 1 PGSIZE; m2 = store32 m1 v (freelist s1) in
       Ok ((), s1\<lparr>mem := m2, free_pages := free_pages s1 + 1, freelist := v\<rparr>)
     else Ok ((), s1))"

definition kfree :: "u32 \<Rightarrow> (kstate, unit) kern" where
  "kfree v = (\<lambda>s.
     if v mod PGSIZE \<noteq> 0 \<or> v < kend s \<or> V2P v \<ge> PHYSTOP then Panic ''kfree''
     else seqk (whenk (use_lock s) acquire_kmem)
            (seqk (kfree_drop v) (whenk (use_lock s) release_kmem)) s)"

definition kalloc_take :: "(kstate, u32) kern" where
  "kalloc_take = (\<lambda>s.
     let r = freelist s in
     if r \<noteq> 0 then
       Ok (r, set_rCount (V2P r) 1
                (s\<lparr>freelist := load32 (mem s) r, free_pages := free_pages s - 1\<rparr>))
     else Ok (r, s))"

definition kalloc :: "(kstate, u32) kern" where
  "kalloc = (\<lambda>s.
     seqk (whenk (use_lock s) acquire_kmem)
       (bindk kalloc_take (\<lambda>r. seqk (whenk (use_lock s) release_kmem) (ret r))) s)"

text \<open>
  \<open>freerange\<close>: the loop runs once per whole page in the range; \<open>n\<close> bounds the iterations
  and is the number of pages that fit between the rounded start and the end.
\<close>

primrec freerange_loop :: "nat \<Rightarrow> u32 \<Rightarrow> u32 \<Rightarrow> (kstate, unit) kern" where
  "freerange_loop 0 p vend = (\<lambda>s. if p + PGSIZE \<le> vend then Diverges else Ok ((), s))"
| "freerange_loop (Suc n) p vend = (\<lambda>s.
     if p + PGSIZE \<le> vend then
       seqk (modk (set_rCount (V2P p) 0))
         (seqk (kfree p) (freerange_loop n (p + PGSIZE) vend)) s
     else Ok ((), s))"

definition freerange :: "u32 \<Rightarrow> u32 \<Rightarrow> (kstate, unit) kern" where
  "freerange vstart vend = freerange_loop (unat vend div 4096) (PGROUNDUP vstart) vend"

definition kinit1 :: "u32 \<Rightarrow> u32 \<Rightarrow> (kstate, unit) kern" where
  "kinit1 vstart vend =
     seqk (modk (\<lambda>s. s\<lparr>klocked := False, use_lock := False, free_pages := 0\<rparr>))
       (freerange vstart vend)"

definition kinit2 :: "u32 \<Rightarrow> u32 \<Rightarrow> (kstate, unit) kern" where
  "kinit2 vstart vend = seqk (freerange vstart vend) (modk (\<lambda>s. s\<lparr>use_lock := True\<rparr>))"

definition num_of_FreePages :: "(kstate, u32) kern" where
  "num_of_FreePages =
     seqk acquire_kmem (bindk (getk free_pages) (\<lambda>n. seqk release_kmem (ret n)))"

definition bad_pa :: "kstate \<Rightarrow> u32 \<Rightarrow> bool" where
  "bad_pa s pa \<longleftrightarrow> pa \<ge> PHYSTOP \<or> pa < V2P (kend s)"

definition i_rCount :: "u32 \<Rightarrow> (kstate, unit) kern" where
  "i_rCount pa = (\<lambda>s.
     if bad_pa s pa then Panic ''i_rCount''
     else seqk acquire_kmem
            (seqk (modk (\<lambda>s. set_rCount pa (rCount s pa + 1) s)) release_kmem) s)"

definition d_rCount :: "u32 \<Rightarrow> (kstate, unit) kern" where
  "d_rCount pa = (\<lambda>s.
     if bad_pa s pa then Panic ''d_rCount''
     else seqk acquire_kmem
            (seqk (modk (\<lambda>s. set_rCount pa (rCount s pa - 1) s)) release_kmem) s)"

definition get_rCount :: "u32 \<Rightarrow> (kstate, u32) kern" where
  "get_rCount pa = (\<lambda>s.
     if bad_pa s pa then Panic ''getReferenceCount''
     else seqk acquire_kmem
            (bindk (getk (\<lambda>s. rCount s pa)) (\<lambda>n. seqk release_kmem (ret n))) s)"

section \<open>The plain allocator of the scheduling kernel\<close>

record skstate =
  smem :: memory
  skend :: u32
  sklocked :: bool
  suse_lock :: bool
  sfreelist :: u32
  skdata :: u32
  skpgdir :: u32
  scr3 :: u32

definition sacquire_kmem :: "(skstate, unit) kern" where
  "sacquire_kmem = (\<lambda>s. if sklocked s then Panic ''acquire'' else Ok ((), s\<lparr>sklocked := True\<rparr>))"

definition srelease_kmem :: "(skstate, unit) kern" where
  "srelease_kmem = (\<lambda>s. if sklocked s then Ok ((), s\<lparr>sklocked := False\<rparr>) else Panic ''release'')"

definition sched_kfree :: "u32 \<Rightarrow> (skstate, unit) kern" where
  "sched_kfree v = (\<lambda>s.
     if v mod PGSIZE \<noteq> 0 \<or> v < skend s \<or> V2P v \<ge> PHYSTOP then Panic ''kfree''
     else seqk (modk (\<lambda>s. s\<lparr>smem := memset (smem s) v 1 PGSIZE\<rparr>))
       (seqk (whenk (suse_lock s) sacquire_kmem)
          (seqk (modk (\<lambda>s. s\<lparr>smem := store32 (smem s) v (sfreelist s), sfreelist := v\<rparr>))
             (whenk (suse_lock s) srelease_kmem))) s)"

definition sched_kalloc :: "(skstate, u32) kern" where
  "sched_kalloc = (\<lambda>s.
     seqk (whenk (suse_lock s) sacquire_kmem)
       (bindk (getk sfreelist) (\<lambda>r.
          seqk (whenk (r \<noteq> 0) (modk (\<lambda>s. s\<lparr>sfreelist := load32 (smem s) r\<rparr>)))
            (seqk (whenk (suse_lock s) srelease_kmem) (ret r)))) s)"

primrec sched_freerange_loop :: "nat \<Rightarrow> u32 \<Rightarrow> u32 \<Rightarrow> (skstate, unit) kern" where
  "sched_freerange_loop 0 p vend = (\<lambda>s. if p + PGSIZE \<le> vend then Diverges else Ok ((), s))"
| "sched_freerange_loop (Suc n) p vend = (\<lambda>s.
     if p + PGSIZE \<le> vend then
       seqk (sched_kfree p) (sched_freerange_loop n (p + PGSIZE) vend) s
     else Ok ((), s))"

definition sched_freerange :: "u32 \<Rightarrow> u32 \<Rightarrow> (skstate, unit) kern" where
  "sched_freerange vstart vend = sched_freerange_loop (unat vend div 4096) (PGROUNDUP vstart) vend"

definition sched_kinit1 :: "u32 \<Rightarrow> u32 \<Rightarrow> (skstate, unit) kern" where
  "sched_kinit1 vstart vend =
     seqk (modk (\<lambda>s. s\<lparr>sklocked := False, suse_lock := False\<rparr>)) (sched_freerange vstart vend)"

definition sched_kinit2 :: "u32 \<Rightarrow> u32 \<Rightarrow> (skstate, unit) kern" where
  "sched_kinit2 vstart vend =
     seqk (sched_freerange vstart vend) (modk (\<lambda>s. s\<lparr>suse_lock := True\<rparr>))"

section \<open>Memory by pages\<close>

text \<open>Two memories agree on the pages in \<open>F\<close>.\<close>

definition agree_on :: "u32 set \<Rightarrow> memory \<Rightarrow> memory \<Rightarrow> bool" where
  "agree_on F m m' \<longleftrightarrow> (\<forall>a. PGROUNDDOWN a \<in> F \<longrightarrow> m a = m' a)"

lemma agree_onD: "agree_on F m m' \<Longrightarrow> PGROUNDDOWN a \<in> F \<Longrightarrow> m a = m' a"
  by (simp add: agree_on_def)

lemma agree_on_refl [simp]: "agree_on F m m"
  by (simp add: agree_on_def)

lemma agree_on_sym: "agree_on F m m' \<Longrightarrow> agree_on F m' m"
  by (simp add: agree_on_def)

lemma agree_on_trans: "agree_on F m m' \<Longrightarrow> agree_on F m' m'' \<Longrightarrow> agree_on F m m''"
  by (simp add: agree_on_def)

lemma agree_on_subset: "agree_on F m m' \<Longrightarrow> G \<subseteq> F \<Longrightarrow> agree_on G m m'"
  by (auto simp: agree_on_def)

lemma page_of_word_byte:
  assumes "word_aligned a" "k < 4"
  shows "PGROUNDDOWN (a + of_nat k) = PGROUNDDOWN a"
proof -
  have "unat (a + of_nat k) = unat a + k"
    using assms by (rule word_aligned_unat_add)
  moreover have "(unat a + k) div 4096 = unat a div 4096"
  proof -
    obtain q where q: "unat a = 4 * q"
      using assms(1) by (auto simp: word_aligned_def mod_eq_0_iff_dvd)
    have "(4 * q + k) div (4 * 1024) = (4 * q + k) div 4 div 1024"
      by (rule div_mult2_eq)
    moreover have "(4 * q + k) div 4 = q" using assms(2) by simp
    moreover have "4 * q div (4 * 1024) = q div 1024" by (simp add: div_mult2_eq)
    ultimately show ?thesis by (simp add: q)
  qed
  ultimately show ?thesis by (simp add: word_unat_eq_iff unat_PGROUNDDOWN)
qed

lemma load32_agree:
  assumes "agree_on F m m'" "word_aligned a" "PGROUNDDOWN a \<in> F"
  shows "load32 m a = load32 m' a"
  using assms by (intro load32_cong) (auto simp: page_of_word_byte intro: agree_onD)

lemma agree_on_store32:
  assumes "word_aligned a" "PGROUNDDOWN a \<notin> F"
  shows "agree_on F (store32 m a v) m"
  using page_of_word_byte [OF assms(1), of 0] page_of_word_byte [OF assms(1), of 1]
    page_of_word_byte [OF assms(1), of 2] page_of_word_byte [OF assms(1), of 3] assms(2)
  by (auto simp: agree_on_def store32_def)

lemma in_page_iff:
  assumes "page_aligned f"
  shows "unat (a - f) < 4096 \<longleftrightarrow> PGROUNDDOWN a = f"
proof
  assume "unat (a - f) < 4096"
  then have "PGROUNDDOWN (f + (a - f)) = f" by (rule PGROUNDDOWN_add [OF assms])
  then show "PGROUNDDOWN a = f" by simp
next
  assume f: "PGROUNDDOWN a = f"
  then have "unat f = 4096 * (unat a div 4096)" by (metis unat_PGROUNDDOWN)
  moreover from this have "unat (a - f) = unat a - unat f"
    by (intro unat_sub) (simp add: word_le_nat_alt)
  ultimately show "unat (a - f) < 4096"
    by (simp add: minus_mult_div_eq_mod)
qed

lemma memset_page:
  "page_aligned f \<Longrightarrow> memset m f c PGSIZE a = (if PGROUNDDOWN a = f then ucast c else m a)"
  by (simp add: memset_apply PGSIZE_def in_page_iff)

lemma agree_on_memset: "page_aligned f \<Longrightarrow> f \<notin> F \<Longrightarrow> agree_on F (memset m f c PGSIZE) m"
  by (auto simp: agree_on_def memset_page)

lemma page_aligned_word_aligned: "page_aligned a \<Longrightarrow> word_aligned a"
  using dvd_trans [of 4 4096 "unat a"]
  by (simp add: page_aligned_unat word_aligned_def mod_eq_0_iff_dvd)

section \<open>The free list\<close>

primrec flist :: "memory \<Rightarrow> u32 \<Rightarrow> u32 list \<Rightarrow> bool" where
  "flist m p [] \<longleftrightarrow> p = 0"
| "flist m p (x # xs) \<longleftrightarrow> p = x \<and> x \<noteq> 0 \<and> flist m (load32 m x) xs"

lemma flist_null [simp]: "flist m 0 xs \<longleftrightarrow> xs = []"
  by (cases xs) auto

lemma flist_nonnull: "p \<noteq> 0 \<Longrightarrow> flist m p xs \<longleftrightarrow> (\<exists>ys. xs = p # ys \<and> flist m (load32 m p) ys)"
  by (cases xs) auto

lemma flist_unique: "flist m p xs \<Longrightarrow> flist m p ys \<Longrightarrow> xs = ys"
proof (induction xs arbitrary: p ys)
  case Nil
  then show ?case by simp
next
  case (Cons x xs)
  then show ?case by (auto simp: flist_nonnull)
qed

lemma flist_agree:
  assumes "agree_on F m m'" "set xs \<subseteq> F" "\<forall>x \<in> set xs. page_aligned x"
  shows "flist m p xs \<longleftrightarrow> flist m' p xs"
  using assms(2,3)
proof (induction xs arbitrary: p)
  case Nil
  then show ?case by simp
next
  case (Cons x xs)
  have "load32 m x = load32 m' x"
    using Cons.prems
    by (intro load32_agree [OF assms(1)]) (auto simp: page_simps page_aligned_word_aligned)
  with Cons show ?case by simp
qed

definition page_ok :: "u32 \<Rightarrow> u32 \<Rightarrow> bool" where
  "page_ok e v \<longleftrightarrow> page_aligned v \<and> e \<le> v \<and> V2P v < PHYSTOP"

lemma page_ok_aligned [simp, intro]: "page_ok e v \<Longrightarrow> page_aligned v"
  by (simp add: page_ok_def)

lemma page_ok_kfree_guard:
  "(v mod PGSIZE \<noteq> 0 \<or> v < e \<or> V2P v \<ge> PHYSTOP) \<longleftrightarrow> \<not> page_ok e v"
  by (simp only: page_ok_def page_aligned_def not_less not_le de_Morgan_conj)

lemma page_ok_range: "page_ok e v \<Longrightarrow> 0x80000000 \<le> unat v \<and> unat v < 0x8E000000"
proof -
  assume "page_ok e v"
  then have "unat (v - 0x80000000) < 0xE000000"
    by (simp add: page_ok_def V2P_def layout_defs word_less_nat_alt)
  then show ?thesis
    using unat32_less [of v] by (simp add: unat_sub_if' split: if_splits)
qed

lemma page_ok_nonzero: "page_ok e v \<Longrightarrow> v \<noteq> 0"
  using page_ok_range by fastforce

lemma pgno_inj:
  assumes "page_aligned a" "page_aligned b" "pgno a = pgno b" shows "a = b"
proof -
  have "unat (pgno x) = unat x div 4096" for x
    using unat_drop_bit_eq [of 12 x] drop_bit_eq_div [of 12 "unat x"] by (simp add: pgno_def)
  with assms(3) have "unat a div 4096 = unat b div 4096" by metis
  with assms(1,2) show ?thesis
    by (simp add: word_unat_eq_iff page_aligned_unat) (metis mod_0_imp_dvd dvd_mult_div_cancel)
qed

lemma pgno_V2P_eq [simp]:
  "page_aligned a \<Longrightarrow> page_aligned b \<Longrightarrow> pgno (V2P a) = pgno (V2P b) \<longleftrightarrow> a = b"
  using pgno_inj [of "V2P a" "V2P b"] by auto

section \<open>The allocator invariant\<close>

definition free_list :: "kstate \<Rightarrow> u32 list \<Rightarrow> bool" where
  "free_list s xs \<longleftrightarrow> flist (mem s) (freelist s) xs \<and> distinct xs \<and>
     (\<forall>x \<in> set xs. page_ok (kend s) x \<and> rCount s (V2P x) = 0) \<and>
     free_pages s = of_nat (length xs)"

definition kmem_inv :: "kstate \<Rightarrow> bool" where
  "kmem_inv s \<longleftrightarrow> \<not> klocked s \<and> (\<exists>xs. free_list s xs)"

text \<open>The parts of the state an allocator call never changes.\<close>

definition same_config :: "kstate \<Rightarrow> kstate \<Rightarrow> bool" where
  "same_config s t \<longleftrightarrow> kend t = kend s \<and> use_lock t = use_lock s \<and> klocked t = klocked s \<and>
     kdata t = kdata s \<and> kpgdir t = kpgdir s \<and> cr3 t = cr3 s"

lemma same_config_refl [simp]: "same_config s s"
  by (simp add: same_config_def)

lemma same_config_trans: "same_config s t \<Longrightarrow> same_config t u \<Longrightarrow> same_config s u"
  by (simp add: same_config_def)

lemma rCount_set [simp]: "rCount (set_rCount pa n s) pa = n"
  by (simp add: rCount_def set_rCount_def)

lemma set_rCount_fields [simp]:
  "mem (set_rCount pa n s) = mem s" "kend (set_rCount pa n s) = kend s"
  "klocked (set_rCount pa n s) = klocked s" "use_lock (set_rCount pa n s) = use_lock s"
  "free_pages (set_rCount pa n s) = free_pages s" "freelist (set_rCount pa n s) = freelist s"
  "page_rCount (set_rCount pa n s) = (page_rCount s)(pgno pa := n)"
  "kdata (set_rCount pa n s) = kdata s" "kpgdir (set_rCount pa n s) = kpgdir s"
  "cr3 (set_rCount pa n s) = cr3 s"
  by (simp_all add: set_rCount_def)

lemma acquire_kmem_Ok [simp]: "\<not> klocked s \<Longrightarrow> acquire_kmem s = Ok ((), s\<lparr>klocked := True\<rparr>)"
  by (simp add: acquire_kmem_def)

lemma release_kmem_Ok [simp]: "klocked s \<Longrightarrow> release_kmem s = Ok ((), s\<lparr>klocked := False\<rparr>)"
  by (simp add: release_kmem_def)

lemma kalloc_eq:
  assumes "\<not> klocked s"
  shows "kalloc s = Ok (freelist s, if freelist s = 0 then s else
     set_rCount (V2P (freelist s)) 1
       (s\<lparr>freelist := load32 (mem s) (freelist s), free_pages := free_pages s - 1\<rparr>))"
  using assms
  by (cases "use_lock s"; cases "freelist s = 0")
     (simp_all add: kalloc_def kern_defs kalloc_take_def Let_def set_rCount_def)

lemma klocked_id: "\<not> klocked s \<Longrightarrow> s\<lparr>klocked := False\<rparr> = s"
  by (cases s) simp

definition dropped :: "u32 \<Rightarrow> kstate \<Rightarrow> kstate" where
  "dropped v s =
    (let s1 = (if rCount s (V2P v) > 0 then set_rCount (V2P v) (rCount s (V2P v) - 1) s else s) in
     if rCount s1 (V2P v) = 0
     then s1\<lparr>mem := store32 (memset (mem s1) v 1 PGSIZE) v (freelist s1),
             free_pages := free_pages s1 + 1, freelist := v\<rparr>
     else s1)"

lemma kfree_drop_dropped: "kfree_drop v s = Ok ((), dropped v s)"
  by (simp only: kfree_drop_def dropped_def Let_def if_distrib [of "\<lambda>x. Ok ((), x)"])

lemma dropped_klocked: "dropped v (s\<lparr>klocked := b\<rparr>) = (dropped v s)\<lparr>klocked := b\<rparr>"
  by (simp add: dropped_def Let_def rCount_def set_rCount_def)

lemma kfree_eq:
  assumes "\<not> klocked s" "page_ok (kend s) v"
  shows "kfree v s = Ok ((), dropped v s)"
proof -
  have l: "(dropped v s)\<lparr>klocked := False\<rparr> = dropped v s"
    using dropped_klocked [where v = v and s = s and b = False] assms(1) by (simp add: klocked_id)
  show ?thesis
    unfolding kfree_def page_ok_kfree_guard
    using assms l
    by (cases "use_lock s") (simp_all add: kern_simps kfree_drop_dropped dropped_klocked)
qed

lemma kfree_bad: "\<not> page_ok (kend s) v \<Longrightarrow> kfree v s = Panic ''kfree''"
  unfolding kfree_def page_ok_kfree_guard by (rule if_P)

lemma kalloc_empty: "\<not> klocked s \<Longrightarrow> free_list s [] \<Longrightarrow> kalloc s = Ok (0, s)"
  by (simp add: kalloc_eq free_list_def)

lemma kalloc_Cons:
  assumes "\<not> klocked s" "free_list s (x # xs)"
  obtains t where "kalloc s = Ok (x, t)" "free_list t xs" "same_config s t" "mem t = mem s"
    "page_rCount t = (page_rCount s)(pgno (V2P x) := 1)"
proof
  let ?t = "set_rCount (V2P x) 1
       (s\<lparr>freelist := load32 (mem s) x, free_pages := free_pages s - 1\<rparr>)"
  have x: "freelist s = x" "x \<noteq> 0" "page_ok (kend s) x" "flist (mem s) (load32 (mem s) x) xs"
    "x \<notin> set xs" "distinct xs"
    using assms(2) by (auto simp: free_list_def)
  show "kalloc s = Ok (x, ?t)"
    using assms(1) x by (simp add: kalloc_eq)
  show "free_list ?t xs"
    using assms(2) x by (auto simp: free_list_def rCount_def)
  show "same_config s ?t" by (simp add: same_config_def)
  show "mem ?t = mem s" by simp
  show "page_rCount ?t = (page_rCount s)(pgno (V2P x) := 1)" by simp
qed

lemma kfree_shared:
  assumes "\<not> klocked s" "page_ok (kend s) v" "1 < rCount s (V2P v)"
  shows "kfree v s = Ok ((), set_rCount (V2P v) (rCount s (V2P v) - 1) s)"
proof -
  have "rCount s (V2P v) - 1 \<noteq> 0" using assms(3) by auto
  moreover have "0 < rCount s (V2P v)"
    using assms(3) by (simp add: word_less_nat_alt)
  ultimately show ?thesis using assms(1,2) by (simp add: kfree_eq dropped_def Let_def)
qed

lemma free_list_shared:
  assumes "free_list s xs" "v \<notin> set xs" "page_aligned v"
  shows "free_list (set_rCount (V2P v) n s) xs"
  using assms by (auto simp: free_list_def rCount_def)

lemma kfree_last:
  assumes "\<not> klocked s" "page_ok (kend s) v" "rCount s (V2P v) \<le> 1" "free_list s xs" "v \<notin> set xs"
  obtains t where "kfree v s = Ok ((), t)" "free_list t (v # xs)" "same_config s t"
    "agree_on (- {v}) (mem t) (mem s)"
    "page_rCount t = (page_rCount s)(pgno (V2P v) := 0)"
proof
  let ?m = "store32 (memset (mem s) v 1 PGSIZE) v (freelist s)"
  let ?t = "(set_rCount (V2P v) 0 s)\<lparr>mem := ?m, free_pages := free_pages s + 1, freelist := v\<rparr>"
  have v: "page_aligned v" "word_aligned v" "PGROUNDDOWN v = v"
    using assms(2) by (auto simp: page_aligned_word_aligned page_simps)
  have rc: "rCount s (V2P v) = 0 \<or> rCount s (V2P v) = 1"
    using assms(3) by (simp add: word_le_nat_alt word_unat_eq_iff) linarith
  have "set_rCount (V2P v) 0 s = s" if "rCount s (V2P v) = 0"
    using that by (simp add: set_rCount_def rCount_def fun_upd_idem)
  with rc show "kfree v s = Ok ((), ?t)"
    using assms(1,2) by (auto simp: kfree_eq dropped_def Let_def)
  show ag: "agree_on (- {v}) (mem ?t) (mem s)"
    using v agree_on_store32 [of v "- {v}" "memset (mem s) v 1 PGSIZE"]
      agree_on_memset [of v "- {v}" "mem s" 1] by (auto intro: agree_on_trans)
  have "flist ?m (freelist s) xs"
    using ag assms(4,5) flist_agree [of "- {v}" "mem s" ?m xs]
    by (auto simp: free_list_def intro: agree_on_sym)
  then show "free_list ?t (v # xs)"
    using assms(2,4,5) v page_ok_nonzero [OF assms(2)]
    by (auto simp: free_list_def rCount_def)
  show "same_config s ?t" by (simp add: same_config_def)
  show "page_rCount ?t = (page_rCount s)(pgno (V2P v) := 0)" by simp
qed

lemma bad_pa_page_ok: "page_ok (kend s) v \<Longrightarrow> 0x80000000 \<le> kend s \<Longrightarrow> \<not> bad_pa s (V2P v)"
proof -
  assume v: "page_ok (kend s) v" and e: "0x80000000 \<le> kend s"
  have "kend s \<le> v" "0x80000000 \<le> v" using v e by (auto simp: page_ok_def)
  then have "V2P (kend s) \<le> V2P v"
    using e by (simp add: V2P_def layout_defs word_le_nat_alt unat_sub)
  with v show ?thesis by (auto simp: bad_pa_def page_ok_def)
qed

lemma i_rCount_eq:
  "\<not> klocked s \<Longrightarrow> \<not> bad_pa s pa \<Longrightarrow> i_rCount pa s = Ok ((), set_rCount pa (rCount s pa + 1) s)"
  by (simp add: i_rCount_def kern_simps set_rCount_def rCount_def)

lemma d_rCount_eq:
  "\<not> klocked s \<Longrightarrow> \<not> bad_pa s pa \<Longrightarrow> d_rCount pa s = Ok ((), set_rCount pa (rCount s pa - 1) s)"
  by (simp add: d_rCount_def kern_simps set_rCount_def rCount_def)

lemma get_rCount_eq: "\<not> klocked s \<Longrightarrow> \<not> bad_pa s pa \<Longrightarrow> get_rCount pa s = Ok (rCount s pa, s)"
  by (simp add: get_rCount_def kern_simps rCount_def)

lemma get_rCount_bad: "bad_pa s pa \<Longrightarrow> get_rCount pa s = Panic ''getReferenceCount''"
  by (simp add: get_rCount_def)

section \<open>Building the free list at boot\<close>

definition page_seq :: "u32 \<Rightarrow> nat \<Rightarrow> u32 list" where
  "page_seq p n = map (\<lambda>i. p + of_nat (4096 * i)) [0 ..< n]"

lemma page_seq_0 [simp]: "page_seq p 0 = []"
  by (simp add: page_seq_def)

lemma page_seq_Suc: "page_seq p (Suc n) = p # page_seq (p + PGSIZE) n"
  by (simp add: page_seq_def PGSIZE_def map_upt_Suc algebra_simps del: upt_Suc)

lemma length_page_seq [simp]: "length (page_seq p n) = n"
  by (simp add: page_seq_def)

lemma page_okI:
  assumes "page_aligned p" "e \<le> p" "0x80000000 \<le> unat p" "unat p < 0x8E000000"
  shows "page_ok e p"
proof -
  have "unat (p - 0x80000000) = unat p - 0x80000000"
    using assms(3) by (simp add: unat_sub word_le_nat_alt)
  with assms show ?thesis
    by (simp add: page_ok_def V2P_def layout_defs word_less_nat_alt)
qed

lemma freerange_step:
  assumes "\<not> klocked s" "free_list s xs" "page_ok (kend s) p" "p \<notin> set xs"
  obtains t where "seqk (modk (set_rCount (V2P p) 0)) (kfree p) s = Ok ((), t)"
    "free_list t (p # xs)" "same_config s t"
proof -
  let ?s = "set_rCount (V2P p) 0 s"
  have "\<not> klocked ?s" "page_ok (kend ?s) p" "rCount ?s (V2P p) \<le> 1"
    using assms by simp_all
  moreover have "free_list ?s xs" using assms by (intro free_list_shared) auto
  ultimately obtain t where "kfree p ?s = Ok ((), t)" "free_list t (p # xs)" "same_config ?s t"
    using assms(4) by (rule kfree_last)
  then show ?thesis by (intro that [of t]) (simp_all add: kern_simps same_config_def)
qed

lemma freerange_loop_ok:
  assumes "\<not> klocked s" "free_list s xs" "page_aligned p" "kend s \<le> p"
    and "0x80000000 \<le> unat p" "unat p \<le> 0x8E000000" "unat vend \<le> 0x8E000000"
    and "\<forall>x \<in> set xs. x < p" "(unat vend - unat p) div 4096 \<le> n"
  shows "\<exists>t. freerange_loop n p vend s = Ok ((), t) \<and> same_config s t \<and>
    free_list t (rev (page_seq p ((unat vend - unat p) div 4096)) @ xs)"
  using assms
proof (induction n arbitrary: p s xs)
  case 0
  have "unat (p + PGSIZE) = unat p + 4096"
    using 0 by (simp add: PGSIZE_def unat_word_ariths)
  moreover have "unat vend < unat p + 4096"
    using "0.prems"(9) by (simp add: div_eq_0_iff)
  ultimately show ?case using 0 by (simp add: word_le_nat_alt)
next
  case (Suc n)
  have p2: "unat (p + PGSIZE) = unat p + 4096"
    using Suc.prems by (simp add: PGSIZE_def unat_word_ariths)
  show ?case
  proof (cases "p + PGSIZE \<le> vend")
    case False
    then have "(unat vend - unat p) div 4096 = 0"
      by (simp add: word_le_nat_alt p2)
    with False Suc.prems show ?thesis by simp
  next
    case True
    then have le: "unat p + 4096 \<le> unat vend" by (simp add: word_le_nat_alt p2)
    have "page_ok (kend s) p" using Suc.prems le by (intro page_okI) auto
    moreover have "p \<notin> set xs" using Suc.prems(8) by auto
    ultimately obtain t where
      t: "seqk (modk (set_rCount (V2P p) 0)) (kfree p) s = Ok ((), t)"
        "free_list t (p # xs)" "same_config s t"
      using Suc.prems(1,2) freerange_step [of s xs p] by metis
    define k where "k = (unat vend - (unat p + 4096)) div 4096"
    have k: "(unat vend - unat p) div 4096 = Suc k"
      using le by (simp add: k_def le_div_geq)
    have nx: "\<forall>x \<in> set (p # xs). x < p + PGSIZE"
      using Suc.prems(8) p2 by (auto simp: word_less_nat_alt)
    have "kend t \<le> p + PGSIZE"
      using t(3) Suc.prems(4) p2 by (simp add: same_config_def word_le_nat_alt)
    moreover have "page_aligned (p + PGSIZE)" using Suc.prems(3) by (simp add: page_aligned_add)
    ultimately obtain u where u: "freerange_loop n (p + PGSIZE) vend t = Ok ((), u)" "same_config t u"
        "free_list u (rev (page_seq (p + PGSIZE) k) @ p # xs)"
      using Suc.IH [of t "p # xs" "p + PGSIZE"] t(2,3) Suc.prems le nx k
      by (auto simp: p2 k_def [symmetric] same_config_def)
    have "freerange_loop (Suc n) p vend s = freerange_loop n (p + PGSIZE) vend t"
      using t(1) True by (auto simp: kern_defs split: outcome.splits)
    then show ?thesis
      using u t(3) by (auto simp: k page_seq_Suc intro: same_config_trans)
  qed
qed

lemma freerange_ok:
  assumes "\<not> klocked s" "free_list s xs" "kend s \<le> vstart"
    and "0x80000000 \<le> unat vstart" "unat vstart \<le> 0x8E000000" "unat vend \<le> 0x8E000000"
    and "\<forall>x \<in> set xs. x < vstart"
  shows "\<exists>t. freerange vstart vend s = Ok ((), t) \<and> same_config s t \<and>
    free_list t (rev (page_seq (PGROUNDUP vstart)
      ((unat vend - unat (PGROUNDUP vstart)) div 4096)) @ xs)"
proof -
  have u: "unat (PGROUNDUP vstart) = 4096 * ((unat vstart + 4095) div 4096)"
    using assms(5) by (simp add: unat_PGROUNDUP)
  have ge: "unat vstart \<le> unat (PGROUNDUP vstart)" unfolding u by linarith
  have "(unat vstart + 4095) div 4096 \<le> (0x8E000000 + 4095) div 4096"
    using assms(5) by (intro div_le_mono) simp
  then have le: "unat (PGROUNDUP vstart) \<le> 0x8E000000" by (simp add: u)
  show ?thesis
    unfolding freerange_def
  proof (rule freerange_loop_ok)
    show "kend s \<le> PGROUNDUP vstart" "\<forall>x \<in> set xs. x < PGROUNDUP vstart"
      using assms(3,7) ge by (auto simp: word_le_nat_alt word_less_nat_alt)
    show "(unat vend - unat (PGROUNDUP vstart)) div 4096 \<le> unat vend div 4096"
      by (simp add: div_le_mono)
  qed (use assms ge le in auto)
qed

section \<open>The allocator contract\<close>

text \<open>
  What the clients of \<open>kalloc\<close> and \<open>kfree\<close> rely on, in terms of the list of free pages:
  \<open>frees s xs\<close> says that the allocator is consistent and its free pages are \<open>xs\<close>;
  \<open>sole s v\<close> that \<open>v\<close> is a page with at most one reference, so that freeing it gives it back.
\<close>

primrec alloc_many :: "('s, u32) kern \<Rightarrow> nat \<Rightarrow> ('s, u32 list) kern" where
  "alloc_many alloc 0 = ret []"
| "alloc_many alloc (Suc n) =
     bindk alloc (\<lambda>r. bindk (alloc_many alloc n) (\<lambda>rs. ret (r # rs)))"

locale page_allocator =
  fixes alloc :: "('s, u32) kern"
    and free :: "u32 \<Rightarrow> ('s, unit) kern"
    and frees :: "'s \<Rightarrow> u32 list \<Rightarrow> bool"
    and sole :: "'s \<Rightarrow> u32 \<Rightarrow> bool"
  assumes alloc_Nil: "frees s [] \<Longrightarrow> alloc s = Ok (0, s)"
    and alloc_Cons: "frees s (x # xs) \<Longrightarrow> okp (\<lambda>r t. r = x \<and> frees t xs \<and> sole t x) (alloc s)"
    and free_sole: "frees s xs \<Longrightarrow> v \<notin> set xs \<Longrightarrow> sole s v \<Longrightarrow>
      okp (\<lambda>_ t. frees t (v # xs)) (free v s)"
    and frees_distinct: "frees s xs \<Longrightarrow> distinct xs \<and> 0 \<notin> set xs"
begin

lemma alloc_many_take:
  "frees s xs \<Longrightarrow> n \<le> length xs \<Longrightarrow>
   okp (\<lambda>rs t. rs = take n xs \<and> frees t (drop n xs)) (alloc_many alloc n s)"
proof (induction n arbitrary: s xs)
  case 0
  then show ?case by (simp add: kern_simps)
next
  case (Suc n)
  then obtain y ys where xs: "xs = y # ys" by (cases xs) auto
  have "okp (\<lambda>r t. r = y \<and> frees t ys \<and> sole t y) (alloc s)"
    using Suc.prems(1) xs alloc_Cons by blast
  then show ?case
    unfolding alloc_many.simps
  proof (rule okp_bindI)
    fix r t assume r: "r = y \<and> frees t ys \<and> sole t y"
    have "okp (\<lambda>rs t. rs = take n ys \<and> frees t (drop n ys)) (alloc_many alloc n t)"
      using Suc.IH [of t ys] Suc.prems(2) r xs by simp
    then show "okp (\<lambda>rs t. rs = take (Suc n) xs \<and> frees t (drop (Suc n) xs))
        (bindk (alloc_many alloc n) (\<lambda>rs. ret (r # rs)) t)"
      by (rule okp_bindI) (simp add: kern_simps r xs)
  qed
qed

lemma alloc_many_distinct:
  "frees s xs \<Longrightarrow> n \<le> length xs \<Longrightarrow>
   okp (\<lambda>rs t. length rs = n \<and> distinct rs \<and> 0 \<notin> set rs) (alloc_many alloc n s)"
  using frees_distinct [of s xs]
  by (auto intro!: okp_mono [OF alloc_many_take] dest: in_set_takeD)

lemma alloc_exhausted:
  assumes "frees s xs"
  shows "okp (\<lambda>rs t. okp (\<lambda>r u. r = 0 \<and> u = t) (alloc t)) (alloc_many alloc (length xs) s)"
  using assms by (auto intro!: okp_mono [OF alloc_many_take [of s xs "length xs"]] simp: alloc_Nil)

lemma alloc_free_roundtrip:
  assumes "frees s xs" "xs \<noteq> []"
  shows "okp (\<lambda>_ t. frees t xs) (bindk alloc free s)"
proof -
  obtain y ys where xs: "xs = y # ys" using assms(2) by (cases xs) auto
  have "okp (\<lambda>r t. r = y \<and> frees t ys \<and> sole t y) (alloc s)"
    using assms(1) xs alloc_Cons by blast
  then show ?thesis
  proof (rule okp_bindI)
    fix r t assume r: "r = y \<and> frees t ys \<and> sole t y"
    have "y \<notin> set ys" using frees_distinct [OF assms(1)] xs by simp
    then show "okp (\<lambda>_ t. frees t xs) (free r t)"
      using r free_sole [of t ys y] xs by simp
  qed
qed

end

definition cow_frees :: "kstate \<Rightarrow> u32 list \<Rightarrow> bool" where
  "cow_frees s xs \<longleftrightarrow> \<not> klocked s \<and> free_list s xs"

definition cow_sole :: "kstate \<Rightarrow> u32 \<Rightarrow> bool" where
  "cow_sole s v \<longleftrightarrow> page_ok (kend s) v \<and> rCount s (V2P v) \<le> 1"

interpretation cow: page_allocator kalloc kfree cow_frees cow_sole
proof
  show "cow_frees s [] \<Longrightarrow> kalloc s = Ok (0, s)" for s
    by (simp add: cow_frees_def kalloc_empty)
  show "okp (\<lambda>r t. r = x \<and> cow_frees t xs \<and> cow_sole t x) (kalloc s)"
    if "cow_frees s (x # xs)" for s x xs
  proof -
    from that have l: "\<not> klocked s" "free_list s (x # xs)" by (auto simp: cow_frees_def)
    then have "page_ok (kend s) x" by (simp add: free_list_def)
    moreover obtain t where "kalloc s = Ok (x, t)" "free_list t xs" "same_config s t"
        "page_rCount t = (page_rCount s)(pgno (V2P x) := 1)"
      using l by (rule kalloc_Cons)
    ultimately show ?thesis
      using l by (simp add: cow_frees_def cow_sole_def same_config_def rCount_def)
  qed
  show "okp (\<lambda>_ t. cow_frees t (v # xs)) (kfree v s)"
    if h: "cow_frees s xs" "v \<notin> set xs" "cow_sole s v" for s xs v
  proof -
    from h have "\<not> klocked s" "page_ok (kend s) v" "rCount s (V2P v) \<le> 1" "free_list s xs"
      by (auto simp: cow_frees_def cow_sole_def)
    then obtain t where "kfree v s = Ok ((), t)" "free_list t (v # xs)" "same_config s t"
      using h(2) by (rule kfree_last)
    then show ?thesis using h(1) by (simp add: cow_frees_def same_config_def)
  qed
  show "cow_frees s xs \<Longrightarrow> distinct xs \<and> 0 \<notin> set xs" for s xs
    by (auto simp: cow_frees_def free_list_def dest: page_ok_nonzero)
qed

definition sched_frees :: "skstate \<Rightarrow> u32 list \<Rightarrow> bool" where
  "sched_frees s xs \<longleftrightarrow> \<not> sklocked s \<and> flist (smem s) (sfreelist s) xs \<and> distinct xs \<and>
     (\<forall>x \<in> set xs. page_ok (skend s) x)"

definition sched_sole :: "skstate \<Rightarrow> u32 \<Rightarrow> bool" where
  "sched_sole s v \<longleftrightarrow> page_ok (skend s) v"

lemma sklocked_id: "\<not> sklocked s \<Longrightarrow> s\<lparr>sklocked := False\<rparr> = s"
  by (cases s) simp

lemma sched_kalloc_eq:
  "\<not> sklocked s \<Longrightarrow> sched_kalloc s =
     Ok (sfreelist s, if sfreelist s = 0 then s else s\<lparr>sfreelist := load32 (smem s) (sfreelist s)\<rparr>)"
  by (cases "suse_lock s"; cases "sfreelist s = 0")
     (simp_all add: sched_kalloc_def kern_defs sacquire_kmem_def srelease_kmem_def sklocked_id)

lemma sched_kfree_eq:
  "\<not> sklocked s \<Longrightarrow> page_ok (skend s) v \<Longrightarrow> sched_kfree v s =
     Ok ((), s\<lparr>smem := store32 (memset (smem s) v 1 PGSIZE) v (sfreelist s), sfreelist := v\<rparr>)"
  unfolding sched_kfree_def page_ok_kfree_guard
  by (cases "suse_lock s")
     (simp_all add: kern_defs sacquire_kmem_def srelease_kmem_def)

interpretation sched: page_allocator sched_kalloc sched_kfree sched_frees sched_sole
proof
  show "sched_frees s [] \<Longrightarrow> sched_kalloc s = Ok (0, s)" for s
    by (simp add: sched_frees_def sched_kalloc_eq)
  show "okp (\<lambda>r t. r = x \<and> sched_frees t xs \<and> sched_sole t x) (sched_kalloc s)"
    if "sched_frees s (x # xs)" for s x xs
    using that by (auto simp: sched_frees_def sched_sole_def sched_kalloc_eq)
  show "okp (\<lambda>_ t. sched_frees t (v # xs)) (sched_kfree v s)"
    if "sched_frees s xs" "v \<notin> set xs" "sched_sole s v" for s xs v
  proof -
    let ?m = "store32 (memset (smem s) v 1 PGSIZE) v (sfreelist s)"
    have v: "page_aligned v" "word_aligned v" "PGROUNDDOWN v = v"
      using that(3) by (auto simp: sched_sole_def page_aligned_word_aligned page_simps)
    have "agree_on (- {v}) ?m (smem s)"
      using v agree_on_store32 [of v "- {v}" "memset (smem s) v 1 PGSIZE"]
        agree_on_memset [of v "- {v}" "smem s" 1] by (auto intro: agree_on_trans)
    then have "flist ?m (sfreelist s) xs"
      using that(1,2) flist_agree [of "- {v}" "smem s" ?m xs]
      by (auto simp: sched_frees_def intro: agree_on_sym)
    then show ?thesis
      using that page_ok_nonzero [of "skend s" v]
      by (simp add: sched_frees_def sched_sole_def sched_kfree_eq)
  qed
  show "sched_frees s xs \<Longrightarrow> distinct xs \<and> 0 \<notin> set xs" for s xs
    by (auto simp: sched_frees_def dest: page_ok_nonzero)
qed

end
