(* ===== verification/Vm.thy ===== *)
theory Vm
  imports Kalloc
begin

unbundle bit_operations_syntax

text \<open>
  Virtual memory of the copy-on-write kernel (\<open>xv6-cow_patch/vm.c\<close>): two-level page tables kept in
  kernel memory, the user part of an address space, the copy-on-write \<open>copyuvm\<close> that fork uses
  and the page fault handler \<open>COW_FAULT\<close>.  Page directories, page tables and user pages are
  all pages of the memory of \<^typ>\<open>kstate\<close>, so that aliasing between them is visible.
\<close>

section \<open>Page tables\<close>

definition stmem :: "u32 \<Rightarrow> u32 \<Rightarrow> kstate \<Rightarrow> kstate" where
  "stmem a v s = s\<lparr>mem := store32 (mem s) a v\<rparr>"

definition walkpgdir :: "u32 \<Rightarrow> u32 \<Rightarrow> bool \<Rightarrow> (kstate, u32) kern" where
  "walkpgdir pgdir va alloc = (\<lambda>s.
     let pde = pgdir + 4 * PDX va in
     if load32 (mem s) pde AND PTE_P \<noteq> 0 then
       Ok (P2V (PTE_ADDR (load32 (mem s) pde)) + 4 * PTX va, s)
     else if \<not> alloc then Ok (0, s)
     else bindk kalloc (\<lambda>pgtab.
       if pgtab = 0 then ret 0
       else seqk (modk (\<lambda>s. s\<lparr>mem := memset (mem s) pgtab 0 PGSIZE\<rparr>))
              (seqk (modk (stmem pde (V2P pgtab OR PTE_P OR PTE_W OR PTE_U)))
                (ret (pgtab + 4 * PTX va)))) s)"

text \<open>
  \<open>mappages\<close> runs until \<open>a = lst\<close>; the loop takes the number of pages between them as
  fuel, which is exactly the number of iterations.
\<close>

primrec mappages_loop :: "nat \<Rightarrow> u32 \<Rightarrow> u32 \<Rightarrow> u32 \<Rightarrow> u32 \<Rightarrow> u32 \<Rightarrow> (kstate, int) kern" where
  "mappages_loop 0 pgdir a lst pa perm = divergesk"
| "mappages_loop (Suc n) pgdir a lst pa perm =
     bindk (walkpgdir pgdir a True) (\<lambda>pte s.
       if pte = 0 then Ok (-1, s)
       else if load32 (mem s) pte AND PTE_P \<noteq> 0 then Panic ''remap''
       else let s1 = stmem pte (pa OR perm OR PTE_P) s in
         if a = lst then Ok (0, s1)
         else mappages_loop n pgdir (a + PGSIZE) lst (pa + PGSIZE) perm s1)"

definition mappages :: "u32 \<Rightarrow> u32 \<Rightarrow> u32 \<Rightarrow> u32 \<Rightarrow> u32 \<Rightarrow> (kstate, int) kern" where
  "mappages pgdir va sz pa perm =
     (let a = PGROUNDDOWN va; lst = PGROUNDDOWN (va + sz - 1) in
      mappages_loop (Suc (unat (lst - a) div 4096)) pgdir a lst pa perm)"

section \<open>Freeing\<close>

text \<open>
  \<open>deallocuvm\<close>: the address grows by at least a page per iteration, so as many iterations as
  \<open>oldsz\<close> has pages are enough.
\<close>

primrec deallocuvm_loop :: "nat \<Rightarrow> u32 \<Rightarrow> u32 \<Rightarrow> u32 \<Rightarrow> (kstate, unit) kern" where
  "deallocuvm_loop 0 pgdir a oldsz = (\<lambda>s. if a < oldsz then Diverges else Ok ((), s))"
| "deallocuvm_loop (Suc n) pgdir a oldsz = (\<lambda>s.
     if a < oldsz then
       bindk (walkpgdir pgdir a False) (\<lambda>pte s.
         if pte = 0 then deallocuvm_loop n pgdir (PGADDR (PDX a + 1) 0 0 - PGSIZE + PGSIZE) oldsz s
         else if load32 (mem s) pte AND PTE_P \<noteq> 0 then
           (let pa = PTE_ADDR (load32 (mem s) pte) in
            if pa = 0 then Panic ''kfree''
            else seqk (kfree (P2V pa))
                   (seqk (modk (stmem pte 0))
                     (deallocuvm_loop n pgdir (a + PGSIZE) oldsz)) s)
         else deallocuvm_loop n pgdir (a + PGSIZE) oldsz s) s
     else Ok ((), s))"

definition deallocuvm :: "u32 \<Rightarrow> u32 \<Rightarrow> u32 \<Rightarrow> (kstate, u32) kern" where
  "deallocuvm pgdir oldsz newsz =
     (if newsz \<ge> oldsz then ret oldsz
      else seqk (deallocuvm_loop (Suc (unat oldsz div 4096)) pgdir (PGROUNDUP newsz) oldsz)
             (ret newsz))"

primrec freevm_loop :: "nat \<Rightarrow> u32 \<Rightarrow> u32 \<Rightarrow> (kstate, unit) kern" where
  "freevm_loop 0 pgdir i = ret ()"
| "freevm_loop (Suc n) pgdir i = (\<lambda>s.
     let pde = load32 (mem s) (pgdir + 4 * i) in
     seqk (whenk (pde AND PTE_P \<noteq> 0) (kfree (P2V (PTE_ADDR pde))))
       (freevm_loop n pgdir (i + 1)) s)"

definition freevm :: "u32 \<Rightarrow> (kstate, unit) kern" where
  "freevm pgdir =
     (if pgdir = 0 then panic ''freevm: no pgdir''
      else bindk (deallocuvm pgdir KERNBASE 0) (\<lambda>_.
             seqk (freevm_loop NPDENTRIES pgdir 0) (kfree pgdir)))"

section \<open>The kernel part of an address space\<close>

record kmap_entry =
  virt :: u32
  phys_start :: u32
  phys_end :: u32
  kperm :: u32

definition kmap :: "u32 \<Rightarrow> kmap_entry list" where
  "kmap data =
    [\<lparr>virt = KERNBASE, phys_start = 0, phys_end = EXTMEM, kperm = PTE_W\<rparr>,
     \<lparr>virt = KERNLINK, phys_start = V2P KERNLINK, phys_end = V2P data, kperm = 0\<rparr>,
     \<lparr>virt = data, phys_start = V2P data, phys_end = PHYSTOP, kperm = PTE_W\<rparr>,
     \<lparr>virt = DEVSPACE, phys_start = DEVSPACE, phys_end = 0, kperm = PTE_W\<rparr>]"

fun setupkvm_loop :: "u32 \<Rightarrow> kmap_entry list \<Rightarrow> (kstate, u32) kern" where
  "setupkvm_loop pgdir [] = ret pgdir"
| "setupkvm_loop pgdir (k # ks) =
     bindk (mappages pgdir (virt k) (phys_end k - phys_start k) (phys_start k) (kperm k)) (\<lambda>r.
       if r < 0 then seqk (freevm pgdir) (ret 0) else setupkvm_loop pgdir ks)"

definition setupkvm :: "(kstate, u32) kern" where
  "setupkvm = bindk kalloc (\<lambda>pgdir.
     if pgdir = 0 then ret 0
     else seqk (modk (\<lambda>s. s\<lparr>mem := memset (mem s) pgdir 0 PGSIZE\<rparr>))
       (if P2V PHYSTOP > DEVSPACE then panic ''PHYSTOP too high''
        else bindk (getk kdata) (\<lambda>data. setupkvm_loop pgdir (kmap data))))"

definition lcr3 :: "u32 \<Rightarrow> (kstate, unit) kern" where
  "lcr3 v = modk (\<lambda>s. s\<lparr>cr3 := v\<rparr>)"

definition switchkvm :: "(kstate, unit) kern" where
  "switchkvm = bindk (getk kpgdir) (\<lambda>p. lcr3 (V2P p))"

definition kvmalloc :: "(kstate, unit) kern" where
  "kvmalloc = bindk setupkvm (\<lambda>p. seqk (modk (\<lambda>s. s\<lparr>kpgdir := p\<rparr>)) switchkvm)"

section \<open>User memory\<close>

primrec allocuvm_loop :: "nat \<Rightarrow> u32 \<Rightarrow> u32 \<Rightarrow> u32 \<Rightarrow> u32 \<Rightarrow> (kstate, u32) kern" where
  "allocuvm_loop 0 pgdir a oldsz newsz = (if a < newsz then divergesk else ret newsz)"
| "allocuvm_loop (Suc n) pgdir a oldsz newsz =
     (if a < newsz then
        bindk kalloc (\<lambda>mm.
          if mm = 0 then bindk (deallocuvm pgdir newsz oldsz) (\<lambda>_. ret 0)
          else seqk (modk (\<lambda>s. s\<lparr>mem := memset (mem s) mm 0 PGSIZE\<rparr>))
            (bindk (mappages pgdir a PGSIZE (V2P mm) (PTE_W OR PTE_U)) (\<lambda>r.
               if r < 0 then
                 bindk (deallocuvm pgdir newsz oldsz) (\<lambda>_. seqk (kfree mm) (ret 0))
               else allocuvm_loop n pgdir (a + PGSIZE) oldsz newsz)))
      else ret newsz)"

definition allocuvm :: "u32 \<Rightarrow> u32 \<Rightarrow> u32 \<Rightarrow> (kstate, u32) kern" where
  "allocuvm pgdir oldsz newsz =
     (if newsz \<ge> KERNBASE then ret 0
      else if newsz < oldsz then ret oldsz
      else allocuvm_loop (Suc (unat newsz div 4096)) pgdir (PGROUNDUP oldsz) oldsz newsz)"

text \<open>\<open>inituvm\<close> copies the \<open>sz\<close> bytes at \<open>init\<close>; a failing \<open>kalloc\<close> is not checked by the code.\<close>

definition inituvm :: "u32 \<Rightarrow> u32 \<Rightarrow> u32 \<Rightarrow> (kstate, unit) kern" where
  "inituvm pgdir init sz =
     (if sz \<ge> PGSIZE then panic ''inituvm: more than a page''
      else bindk kalloc (\<lambda>mm.
        if mm = 0 then undefinedk ''inituvm: memset of a null page''
        else seqk (modk (\<lambda>s. s\<lparr>mem := memset (mem s) mm 0 PGSIZE\<rparr>))
          (bindk (mappages pgdir 0 PGSIZE (V2P mm) (PTE_W OR PTE_U)) (\<lambda>_.
             modk (\<lambda>s. s\<lparr>mem := memmove (mem s) mm init sz\<rparr>)))))"

definition clearpteu :: "u32 \<Rightarrow> u32 \<Rightarrow> (kstate, unit) kern" where
  "clearpteu pgdir uva = bindk (walkpgdir pgdir uva False) (\<lambda>pte s.
     if pte = 0 then Panic ''clearpteu''
     else Ok ((), stmem pte (load32 (mem s) pte AND NOT PTE_U) s))"

primrec copyuvm_loop :: "nat \<Rightarrow> u32 \<Rightarrow> u32 \<Rightarrow> u32 \<Rightarrow> u32 \<Rightarrow> (kstate, u32) kern" where
  "copyuvm_loop 0 pgdir d i sz =
     (if i < sz then divergesk else seqk (lcr3 (V2P pgdir)) (ret d))"
| "copyuvm_loop (Suc n) pgdir d i sz =
     (if i < sz then
        bindk (walkpgdir pgdir i False) (\<lambda>pte s.
          if pte = 0 then Panic ''copyuvm: pte should exist''
          else if load32 (mem s) pte AND PTE_P = 0 then Panic ''copyuvm: page not present''
          else let s1 = stmem pte (NOT PTE_W AND load32 (mem s) pte) s;
                   flags = PTE_FLAGS (load32 (mem s1) pte);
                   pa = PTE_ADDR (load32 (mem s1) pte) in
            bindk (mappages d i PGSIZE pa flags) (\<lambda>r.
              if r < 0 then seqk (freevm d) (seqk (lcr3 (V2P pgdir)) (ret 0))
              else seqk (i_rCount pa) (copyuvm_loop n pgdir d (i + PGSIZE) sz)) s1)
      else seqk (lcr3 (V2P pgdir)) (ret d))"

definition copyuvm :: "u32 \<Rightarrow> u32 \<Rightarrow> (kstate, u32) kern" where
  "copyuvm pgdir sz = bindk setupkvm (\<lambda>d.
     if d = 0 then ret 0
     else copyuvm_loop (Suc (unat sz div 4096)) pgdir d 0 sz)"

definition uva2ka :: "u32 \<Rightarrow> u32 \<Rightarrow> (kstate, u32) kern" where
  "uva2ka pgdir uva = bindk (walkpgdir pgdir uva False) (\<lambda>pte s.
     if pte = 0 then Undefined ''uva2ka: null pte''
     else if load32 (mem s) pte AND PTE_P = 0 then Ok (0, s)
     else if load32 (mem s) pte AND PTE_U = 0 then Ok (0, s)
     else Ok (P2V (PTE_ADDR (load32 (mem s) pte)), s))"

text \<open>Every iteration of \<open>copyout\<close> copies at least one byte, so \<open>len\<close> iterations are enough.\<close>

primrec copyout_loop :: "nat \<Rightarrow> u32 \<Rightarrow> u32 \<Rightarrow> u32 \<Rightarrow> u32 \<Rightarrow> (kstate, int) kern" where
  "copyout_loop 0 pgdir va buf len = (if len > 0 then divergesk else ret 0)"
| "copyout_loop (Suc k) pgdir va buf len =
     (if len > 0 then
        (let va0 = PGROUNDDOWN va in
         bindk (uva2ka pgdir va0) (\<lambda>pa0.
           if pa0 = 0 then ret (-1)
           else (let n0 = PGSIZE - (va - va0); n = (if n0 > len then len else n0) in
             seqk (modk (\<lambda>s. s\<lparr>mem := memmove (mem s) (pa0 + (va - va0)) buf n\<rparr>))
               (copyout_loop k pgdir (va0 + PGSIZE) (buf + n) (len - n)))))
      else ret 0)"

definition copyout :: "u32 \<Rightarrow> u32 \<Rightarrow> u32 \<Rightarrow> u32 \<Rightarrow> (kstate, int) kern" where
  "copyout pgdir va p len = copyout_loop (unat len) pgdir va p len"

section \<open>The copy-on-write fault handler\<close>

text \<open>
  \<open>COW_FAULT\<close> for the process with page directory \<open>pgdir\<close> and the faulting address
  \<open>va\<close> (read from \<open>cr2\<close>).  The result is the new value it gives to \<open>killed\<close>: true
  when no page could be allocated.  The handler does not test the pointer
  \<open>walkpgdir\<close> returns.
\<close>

definition COW_FAULT :: "u32 \<Rightarrow> u32 \<Rightarrow> (kstate, bool) kern" where
  "COW_FAULT pgdir va = bindk (walkpgdir pgdir va False) (\<lambda>pte s.
     if pte = 0 then Undefined ''COW_FAULT: null pte''
     else let pa = PTE_ADDR (load32 (mem s) pte) in
       bindk (get_rCount pa) (\<lambda>ref_count.
         if ref_count < 1 then panic ''Error in COW_FAULT: Incorrect Reference Count''
         else if ref_count = 1 then
           seqk (modk (\<lambda>s. stmem pte (PTE_W OR load32 (mem s) pte) s))
             (seqk (lcr3 (V2P pgdir)) (ret False))
         else bindk kalloc (\<lambda>mm.
           if mm \<noteq> 0 then
             seqk (modk (\<lambda>s. s\<lparr>mem := memmove (mem s) mm (P2V pa) PGSIZE\<rparr>))
               (seqk (modk (stmem pte (PTE_U OR PTE_W OR PTE_P OR V2P mm)))
                 (seqk (d_rCount pa)
                   (seqk (lcr3 (V2P pgdir)) (ret False))))
           else ret True)) s)"

end
