(* ===== verification/Vm_Lemmas.thy ===== *)
theory Vm_Lemmas
  imports Vm
begin

unbundle bit_operations_syntax

text \<open>
  The page table as a function: \<open>pte_val m pd va\<close> is the page table entry that the
  two-level structure at \<open>pd\<close> holds for \<open>va\<close> (0 without a table), \<open>pt_pages\<close> the pages the
  structure occupies.  \<open>wf_pgdir\<close> is the representation invariant; \<open>ext\<close> describes what
  the mapping operations do to the state: they take pages from the free list for new tables and
  write to table pages only.
\<close>

definition present :: "u32 \<Rightarrow> bool" where
  "present e \<longleftrightarrow> e AND PTE_P \<noteq> 0"

definition pde_at :: "memory \<Rightarrow> u32 \<Rightarrow> u32 \<Rightarrow> u32" where
  "pde_at m pd i = load32 m (pd + 4 * i)"

definition tab :: "u32 \<Rightarrow> u32" where
  "tab e = P2V (PTE_ADDR e)"

definition pte_loc :: "memory \<Rightarrow> u32 \<Rightarrow> u32 \<Rightarrow> u32 option" where
  "pte_loc m pd va =
     (let e = pde_at m pd (PDX va) in
      if present e then Some (tab e + 4 * PTX va) else None)"

definition pte_val :: "memory \<Rightarrow> u32 \<Rightarrow> u32 \<Rightarrow> u32" where
  "pte_val m pd va = (case pte_loc m pd va of None \<Rightarrow> 0 | Some a \<Rightarrow> load32 m a)"

definition pt_pages :: "memory \<Rightarrow> u32 \<Rightarrow> u32 set" where
  "pt_pages m pd = insert pd {tab (pde_at m pd i) | i. i < 1024 \<and> present (pde_at m pd i)}"

definition used :: "kstate \<Rightarrow> u32 \<Rightarrow> bool" where
  "used s f \<longleftrightarrow> page_ok (kend s) f \<and> rCount s (V2P f) \<noteq> 0"

definition wf_pgdir :: "kstate \<Rightarrow> u32 \<Rightarrow> bool" where
  "wf_pgdir s pd \<longleftrightarrow> (\<forall>f \<in> pt_pages (mem s) pd. used s f) \<and>
     (\<forall>i < 1024. present (pde_at (mem s) pd i) \<longrightarrow>
        tab (pde_at (mem s) pd i) \<noteq> pd \<and>
        (\<forall>j < 1024. present (pde_at (mem s) pd j) \<longrightarrow>
           tab (pde_at (mem s) pd j) = tab (pde_at (mem s) pd i) \<longrightarrow> j = i))"

lemma not_present_0 [simp]: "\<not> present 0"
  by (simp add: present_def)

lemma tab_aligned [simp]: "page_aligned (tab e)"
  by (simp add: tab_def)

lemma idx_less: "unat i < 1024 \<Longrightarrow> unat (4 * i :: u32) = 4 * unat i"
  by (simp add: unat_word_ariths)

lemma slot_page [page_simps]:
  "page_aligned f \<Longrightarrow> unat i < 1024 \<Longrightarrow> PGROUNDDOWN (f + 4 * i) = f"
  by (rule PGROUNDDOWN_add) (simp_all add: idx_less)

lemma slot_word_aligned:
  assumes "page_aligned f" "unat i < 1024" shows "word_aligned (f + 4 * i)"
proof -
  have "unat (f + 4 * i) = unat f + 4 * unat i"
    using assms by (simp add: unat_page_add idx_less)
  moreover have "4 dvd unat f"
    using page_aligned_word_aligned [OF assms(1)] by (simp add: word_aligned_def mod_eq_0_iff_dvd)
  ultimately show ?thesis by (simp add: word_aligned_def mod_eq_0_iff_dvd)
qed

lemma slot_inj:
  assumes "page_aligned f" "page_aligned g" "unat i < 1024" "unat j < 1024"
  shows "f + 4 * i = g + 4 * j \<longleftrightarrow> f = g \<and> i = j"
proof
  assume e: "f + 4 * i = g + 4 * j"
  then have "f = g" using assms slot_page by metis
  with e have "unat (4 * i) = unat (4 * j)" by simp
  with assms have "unat i = unat j" by (simp add: idx_less)
  with \<open>f = g\<close> show "f = g \<and> i = j" by (simp add: word_unat_eq_iff)
qed simp

lemma less_1024: "(i :: u32) < 1024 \<longleftrightarrow> unat i < 1024"
  by (simp add: word_less_nat_alt)

lemma PDX_lt [simp]: "PDX va < 1024" and PTX_lt [simp]: "PTX va < 1024"
  by (simp_all add: less_1024 PDX_less PTX_less)

text \<open>An address is determined by its indices and its page offset.\<close>

lemma unat_PDX2: "unat (PDX va) = unat va div 4096 div 1024"
  using div_mult2_eq [of "unat va" 4096 1024] by (simp add: unat_PDX)

lemma same_page_div: "PGROUNDDOWN a = PGROUNDDOWN b \<longleftrightarrow> unat a div 4096 = unat b div 4096"
  by (simp add: word_unat_eq_iff unat_PGROUNDDOWN)

lemma same_page_indices:
  "PGROUNDDOWN a = PGROUNDDOWN b \<longleftrightarrow> PDX a = PDX b \<and> PTX a = PTX b"
proof
  assume "PDX a = PDX b \<and> PTX a = PTX b"
  then have "unat a div 4096 div 1024 = unat b div 4096 div 1024"
      "unat a div 4096 mod 1024 = unat b div 4096 mod 1024"
    using unat_PDX2 [of a] unat_PDX2 [of b] unat_PTX [of a] unat_PTX [of b] by simp_all
  then show "PGROUNDDOWN a = PGROUNDDOWN b"
    unfolding same_page_div by (metis div_mult_mod_eq)
next
  assume "PGROUNDDOWN a = PGROUNDDOWN b"
  then have "unat a div 4096 = unat b div 4096" by (simp only: same_page_div)
  then show "PDX a = PDX b \<and> PTX a = PTX b"
    by (simp add: word_unat_eq_iff unat_PDX2 unat_PTX)
qed

section \<open>Reading and writing entries\<close>

lemma pt_pages_pd [simp]: "pd \<in> pt_pages m pd"
  by (simp add: pt_pages_def)

lemma pt_pages_tab: "i < 1024 \<Longrightarrow> present (pde_at m pd i) \<Longrightarrow> tab (pde_at m pd i) \<in> pt_pages m pd"
  by (auto simp: pt_pages_def)

lemma wf_pgdir_used: "wf_pgdir s pd \<Longrightarrow> f \<in> pt_pages (mem s) pd \<Longrightarrow> used s f"
  by (simp add: wf_pgdir_def)

lemma used_aligned: "used s f \<Longrightarrow> page_aligned f"
  by (auto simp: used_def)

lemma wf_pgdir_aligned: "wf_pgdir s pd \<Longrightarrow> page_aligned pd"
  using wf_pgdir_used [of s pd pd] by (auto intro: used_aligned)

lemma used_not_free: "used s f \<Longrightarrow> free_list s xs \<Longrightarrow> f \<notin> set xs"
  by (auto simp: used_def free_list_def)

lemma pde_at_agree:
  assumes "agree_on F m m'" "pd \<in> F" "page_aligned pd" "i < 1024"
  shows "pde_at m pd i = pde_at m' pd i"
  unfolding pde_at_def
  using assms by (intro load32_agree [OF assms(1)]) (simp_all add: page_simps slot_word_aligned less_1024)

lemma pt_pages_agree:
  assumes "agree_on F m m'" "pd \<in> F" "page_aligned pd"
  shows "pt_pages m' pd = pt_pages m pd"
  using pde_at_agree [OF assms] by (auto simp: pt_pages_def) metis+

lemma pte_loc_agree:
  assumes "agree_on F m m'" "pd \<in> F" "page_aligned pd"
  shows "pte_loc m' pd va = pte_loc m pd va"
  using pde_at_agree [OF assms, of "PDX va"] by (simp add: pte_loc_def)

lemma pte_val_agree:
  assumes "agree_on F m m'" "pt_pages m pd \<subseteq> F" "page_aligned pd"
  shows "pte_val m' pd va = pte_val m pd va"
proof -
  have pd: "pd \<in> F" using assms(2) by auto
  have l: "pte_loc m' pd va = pte_loc m pd va"
    using pd assms(3) by (rule pte_loc_agree [OF assms(1)])
  show ?thesis
  proof (cases "present (pde_at m pd (PDX va))")
    case False
    then show ?thesis by (simp add: pte_val_def l) (simp add: pte_loc_def)
  next
    case True
    have "tab (pde_at m pd (PDX va)) \<in> F"
      using assms(2) pt_pages_tab [OF PDX_lt True] by blast
    then have "load32 m (tab (pde_at m pd (PDX va)) + 4 * PTX va) =
        load32 m' (tab (pde_at m pd (PDX va)) + 4 * PTX va)"
      by (intro load32_agree [OF assms(1)]) (simp_all add: page_simps slot_word_aligned PTX_less)
    with True show ?thesis by (simp add: pte_val_def l) (simp add: pte_loc_def)
  qed
qed

lemma wf_pgdir_agree:
  assumes "wf_pgdir s pd" "agree_on (pt_pages (mem s) pd) (mem s) (mem t)" "kend t = kend s"
    and "\<And>f. f \<in> pt_pages (mem s) pd \<Longrightarrow> rCount t (V2P f) \<noteq> 0"
  shows "wf_pgdir t pd"
proof -
  have al: "page_aligned pd" using assms(1) by (rule wf_pgdir_aligned)
  have pp: "pt_pages (mem t) pd = pt_pages (mem s) pd"
    using assms(2) al by (intro pt_pages_agree) auto
  have pe: "pde_at (mem t) pd i = pde_at (mem s) pd i" if "i < 1024" for i
    using pde_at_agree [OF assms(2) _ al that] by simp
  show ?thesis
    using assms(1,3,4) by (auto simp: wf_pgdir_def pp pe used_def)
qed

text \<open>Writing the entry of one page changes the entries of that page only.\<close>

lemma pte_loc_facts:
  assumes "wf_pgdir s pd" "pte_loc (mem s) pd va = Some a"
  shows "word_aligned a" "PGROUNDDOWN a \<in> pt_pages (mem s) pd" "PGROUNDDOWN a \<noteq> pd" "a \<noteq> 0"
proof -
  let ?e = "pde_at (mem s) pd (PDX va)"
  have e: "present ?e" "a = tab ?e + 4 * PTX va"
    using assms(2) by (auto simp: pte_loc_def Let_def split: if_splits)
  have p: "PGROUNDDOWN a = tab ?e" by (simp add: e page_simps PTX_less)
  show "word_aligned a" by (simp add: e slot_word_aligned PTX_less)
  show in_pt: "PGROUNDDOWN a \<in> pt_pages (mem s) pd" using e p by (simp add: pt_pages_tab)
  show "PGROUNDDOWN a \<noteq> pd" using assms(1) e p by (simp add: wf_pgdir_def)
  have "used s (PGROUNDDOWN a)" using assms(1) in_pt by (rule wf_pgdir_used)
  then have "PGROUNDDOWN a \<noteq> 0" by (auto simp: used_def dest: page_ok_nonzero)
  then show "a \<noteq> 0" by (auto simp: PGROUNDDOWN_aligned)
qed

lemma store_pte:
  assumes "wf_pgdir s pd" "pte_loc (mem s) pd va = Some a"
  shows "pte_loc (store32 (mem s) a v) pd va' = pte_loc (mem s) pd va'"
    and "pt_pages (store32 (mem s) a v) pd = pt_pages (mem s) pd"
    and "pte_val (store32 (mem s) a v) pd va' =
      (if PGROUNDDOWN va' = PGROUNDDOWN va then v else pte_val (mem s) pd va')"
proof -
  let ?m = "mem s" and ?m' = "store32 (mem s) a v"
  note f = pte_loc_facts [OF assms]
  have al: "page_aligned pd" using assms(1) by (rule wf_pgdir_aligned)
  have ag: "agree_on {pd} ?m' ?m" using f by (intro agree_on_store32) auto
  show l: "pte_loc ?m' pd va' = pte_loc ?m pd va'" for va'
    using pte_loc_agree [OF ag _ al] by simp
  show "pt_pages ?m' pd = pt_pages ?m pd" using pt_pages_agree [OF ag _ al] by simp
  let ?e = "\<lambda>va. pde_at ?m pd (PDX va)"
  have e: "present (?e va)" "a = tab (?e va) + 4 * PTX va"
    using assms(2) by (auto simp: pte_loc_def Let_def split: if_splits)
  show "pte_val ?m' pd va' = (if PGROUNDDOWN va' = PGROUNDDOWN va then v else pte_val ?m pd va')"
  proof (cases "present (?e va')")
    case False
    then have "PGROUNDDOWN va' \<noteq> PGROUNDDOWN va" using e by (auto simp: same_page_indices)
    with False show ?thesis by (simp add: pte_val_def l) (simp add: pte_loc_def)
  next
    case True
    let ?b = "tab (?e va') + 4 * PTX va'"
    have b: "pte_loc ?m pd va' = Some ?b" using True by (simp add: pte_loc_def)
    have "?b = a \<longleftrightarrow> tab (?e va') = tab (?e va) \<and> PTX va' = PTX va"
      unfolding e(2) by (rule slot_inj) (simp_all add: PTX_less)
    also have "\<dots> \<longleftrightarrow> PGROUNDDOWN va' = PGROUNDDOWN va"
      using assms(1) True e(1) unfolding wf_pgdir_def same_page_indices by (metis PDX_lt)
    finally have eq: "?b = a \<longleftrightarrow> PGROUNDDOWN va' = PGROUNDDOWN va" .
    have "load32 ?m' ?b = load32 ?m ?b" if "?b \<noteq> a"
      using f(1) that by (intro load32_store32_other) (auto simp: slot_word_aligned PTX_less)
    then show ?thesis using eq by (auto simp: pte_val_def l b)
  qed
qed

lemma wf_pgdir_store_pte:
  assumes "wf_pgdir s pd" "pte_loc (mem s) pd va = Some a"
  shows "wf_pgdir (stmem a v s) pd"
proof -
  have al: "page_aligned pd" using assms(1) by (rule wf_pgdir_aligned)
  have ag: "agree_on {pd} (store32 (mem s) a v) (mem s)"
    using pte_loc_facts [OF assms] by (intro agree_on_store32) auto
  have "pde_at (store32 (mem s) a v) pd i = pde_at (mem s) pd i" if "i < 1024" for i
    using pde_at_agree [OF ag _ al that] by simp
  then show ?thesis
    using assms(1) store_pte(2) [OF assms]
    by (auto simp: wf_pgdir_def stmem_def used_def rCount_def)
qed

section \<open>walkpgdir\<close>

lemma walkpgdir_lookup:
  "walkpgdir pd va False s = Ok (case pte_loc (mem s) pd va of None \<Rightarrow> 0 | Some a \<Rightarrow> a, s)"
  by (simp add: walkpgdir_def pte_loc_def pde_at_def present_def tab_def Let_def)

definition ext :: "u32 \<Rightarrow> kstate \<Rightarrow> kstate \<Rightarrow> u32 list \<Rightarrow> u32 list \<Rightarrow> bool" where
  "ext pd s t ys xs \<longleftrightarrow> same_config s t \<and> free_list s (ys @ xs) \<and> free_list t xs \<and> wf_pgdir t pd \<and>
     pt_pages (mem t) pd = pt_pages (mem s) pd \<union> set ys \<and>
     agree_on (- pt_pages (mem t) pd) (mem t) (mem s) \<and>
     (\<forall>f. page_aligned f \<longrightarrow>
        rCount t (V2P f) = (if f \<in> set ys then 1 else rCount s (V2P f)))"

lemma ext_refl: "free_list s xs \<Longrightarrow> wf_pgdir s pd \<Longrightarrow> ext pd s s [] xs"
  by (simp add: ext_def)

lemma ext_trans:
  assumes "ext pd s t ys (zs @ xs)" "ext pd t u zs xs"
  shows "ext pd s u (ys @ zs) xs"
proof -
  have "agree_on (- pt_pages (mem u) pd) (mem t) (mem s)"
    using assms by (auto simp: ext_def intro: agree_on_subset)
  then have "agree_on (- pt_pages (mem u) pd) (mem u) (mem s)"
    using assms(2) by (auto simp: ext_def intro: agree_on_trans)
  moreover have "free_list s ((ys @ zs) @ xs)" using assms(1) by (simp add: ext_def)
  moreover have "pt_pages (mem u) pd = pt_pages (mem s) pd \<union> set (ys @ zs)"
    using assms by (auto simp: ext_def)
  moreover have "\<forall>f. page_aligned f \<longrightarrow>
        rCount u (V2P f) = (if f \<in> set (ys @ zs) then 1 else rCount s (V2P f))"
    using assms by (auto simp: ext_def)
  ultimately show ?thesis
    using assms unfolding ext_def by (blast intro: same_config_trans)
qed

lemma free_list_agree:
  assumes "free_list s xs" "agree_on F (mem s) (mem t)" "set xs \<subseteq> F"
    and "freelist t = freelist s" "kend t = kend s" "free_pages t = free_pages s"
    and "\<And>x. x \<in> set xs \<Longrightarrow> rCount t (V2P x) = rCount s (V2P x)"
  shows "free_list t xs"
  using assms flist_agree [OF assms(2,3), of "freelist s"] by (auto simp: free_list_def)

lemma free_list_stmem:
  assumes "free_list s xs" "word_aligned a" "used s (PGROUNDDOWN a)"
  shows "free_list (stmem a v s) xs"
proof (rule free_list_agree [OF assms(1)])
  have "PGROUNDDOWN a \<notin> set xs" using assms(3,1) by (rule used_not_free)
  then show "agree_on (set xs) (mem s) (mem (stmem a v s))"
    using assms(2) by (auto simp: stmem_def intro: agree_on_sym agree_on_store32)
qed (auto simp: stmem_def rCount_def)

lemma ext_stmem:
  assumes "free_list s xs" "wf_pgdir s pd" "pte_loc (mem s) pd va = Some a"
  shows "ext pd s (stmem a v s) [] xs"
proof -
  note f = pte_loc_facts [OF assms(2,3)]
  have "used s (PGROUNDDOWN a)" using assms(2) f(2) by (rule wf_pgdir_used)
  then have "free_list (stmem a v s) xs" using assms(1) f(1) by (intro free_list_stmem)
  moreover have "agree_on (- pt_pages (mem s) pd) (store32 (mem s) a v) (mem s)"
    using f by (intro agree_on_store32) auto
  ultimately show ?thesis
    using assms wf_pgdir_store_pte [OF assms(2,3)] store_pte(2) [OF assms(2,3)]
    by (simp add: ext_def stmem_def same_config_def rCount_def)
qed

lemma present_new_pde: "page_aligned p \<Longrightarrow> present (V2P p OR PTE_P OR PTE_W OR PTE_U)"
proof -
  have "(V2P p OR PTE_P OR PTE_W OR PTE_U) AND PTE_P = PTE_P"
    by (rule bit_word_eqI) (auto simp: bit_simps PTE_P_def)
  then show ?thesis by (simp add: present_def) (simp add: PTE_P_def)
qed

lemma tab_new_pde: "page_aligned p \<Longrightarrow> tab (V2P p OR PTE_P OR PTE_W OR PTE_U) = p"
proof -
  assume "page_aligned p"
  moreover have "unat (PTE_P OR PTE_W OR PTE_U) < 4096" by (simp add: layout_defs)
  ultimately have "PTE_ADDR (V2P p OR (PTE_P OR PTE_W OR PTE_U)) = V2P p"
    by (intro PTE_ADDR_or) simp_all
  then show ?thesis by (simp add: tab_def or.assoc)
qed

lemma load32_memset_0:
  assumes "page_aligned f" "word_aligned a" "PGROUNDDOWN a = f"
  shows "load32 (memset m f 0 PGSIZE) a = 0"
proof -
  have "load32 (memset m f 0 PGSIZE) a = load32 (\<lambda>_. 0) a"
    using assms by (intro load32_cong) (simp add: memset_page page_of_word_byte)
  then show ?thesis by (simp add: load32_def)
qed

text \<open>A fresh, zeroed table hung into an empty directory slot changes no entry.\<close>

definition hang :: "memory \<Rightarrow> u32 \<Rightarrow> u32 \<Rightarrow> u32 \<Rightarrow> memory" where
  "hang m pd va x = store32 (memset m x 0 PGSIZE) (pd + 4 * PDX va)
     (V2P x OR PTE_P OR PTE_W OR PTE_U)"

lemma hang_agree:
  assumes "page_aligned pd" "page_aligned x"
  shows "agree_on (- {pd}) (hang m pd va x) (memset m x 0 PGSIZE)"
    and "agree_on (- {x, pd}) (hang m pd va x) m"
proof -
  have sl: "PGROUNDDOWN (pd + 4 * PDX va) = pd" "word_aligned (pd + 4 * PDX va)"
    using assms by (simp_all add: page_simps slot_word_aligned PDX_less)
  show h: "agree_on (- {pd}) (hang m pd va x) (memset m x 0 PGSIZE)"
    using sl by (simp add: hang_def agree_on_store32)
  have "agree_on (- {x}) (memset m x 0 PGSIZE) m" using assms by (simp add: agree_on_memset)
  with h show "agree_on (- {x, pd}) (hang m pd va x) m"
    by (auto intro: agree_on_trans agree_on_subset)
qed

lemma hang_pde:
  assumes "page_aligned pd" "page_aligned x" "x \<noteq> pd" "i < 1024"
  shows "pde_at (hang m pd va x) pd i =
      (if i = PDX va then V2P x OR PTE_P OR PTE_W OR PTE_U else pde_at m pd i)"
proof (cases "i = PDX va")
  case True
  then show ?thesis by (simp add: pde_at_def hang_def)
next
  case False
  then have "pd + 4 * PDX va \<noteq> pd + 4 * i"
    using slot_inj [of pd pd "PDX va" i] assms by (auto simp: PDX_less less_1024)
  then have "pde_at (hang m pd va x) pd i = pde_at (memset m x 0 PGSIZE) pd i"
    using assms unfolding pde_at_def hang_def
    by (intro load32_store32_other) (simp_all add: slot_word_aligned less_1024 PDX_less)
  also have "\<dots> = pde_at m pd i"
    using assms by (intro pde_at_agree [OF agree_on_memset [of x "- {x}"]]) auto
  finally show ?thesis using False by simp
qed

lemma hang_new_val:
  assumes "page_aligned pd" "page_aligned x" "x \<noteq> pd" "PDX va' = PDX va"
  shows "pte_val (hang m pd va x) pd va' = 0"
proof -
  have "load32 (hang m pd va x) (x + 4 * PTX va') = load32 (memset m x 0 PGSIZE) (x + 4 * PTX va')"
    using assms by (intro load32_agree [OF hang_agree(1)])
      (simp_all add: page_simps PTX_less slot_word_aligned)
  also have "\<dots> = 0"
    using assms by (simp add: load32_memset_0 page_simps PTX_less slot_word_aligned)
  finally show ?thesis
    using assms by (simp add: pte_val_def pte_loc_def hang_pde present_new_pde tab_new_pde)
qed

lemma hang_val:
  assumes "wf_pgdir s pd" "\<not> present (pde_at (mem s) pd (PDX va))" "page_aligned x"
    and "x \<notin> pt_pages (mem s) pd"
  shows "pte_val (hang (mem s) pd va x) pd va' = pte_val (mem s) pd va'"
proof -
  have al: "page_aligned pd" using assms(1) by (rule wf_pgdir_aligned)
  have ne: "x \<noteq> pd" using assms(4) by (auto simp: pt_pages_def)
  let ?t = "tab (pde_at (mem s) pd (PDX va'))"
  consider "PDX va' = PDX va" | "PDX va' \<noteq> PDX va" "\<not> present (pde_at (mem s) pd (PDX va'))"
    | "PDX va' \<noteq> PDX va" "present (pde_at (mem s) pd (PDX va'))" by blast
  then show ?thesis
  proof cases
    case 1
    then show ?thesis
      using assms al ne by (simp add: hang_new_val) (simp add: pte_val_def pte_loc_def)
  next
    case 2
    then show ?thesis using assms al ne by (simp add: pte_val_def pte_loc_def hang_pde)
  next
    case 3
    then have "?t \<in> - {x, pd}"
      using assms(1,4) pt_pages_tab [of "PDX va'" "mem s" pd] by (auto simp: wf_pgdir_def)
    then have "load32 (hang (mem s) pd va x) (?t + 4 * PTX va') = load32 (mem s) (?t + 4 * PTX va')"
      using al assms(3)
      by (intro load32_agree [OF hang_agree(2)]) (simp_all add: page_simps PTX_less slot_word_aligned)
    then show ?thesis using 3 assms al ne by (simp add: pte_val_def pte_loc_def hang_pde)
  qed
qed

lemma hang_pt_pages:
  assumes "page_aligned pd" "page_aligned x" "x \<noteq> pd" "\<not> present (pde_at m pd (PDX va))"
  shows "pt_pages (hang m pd va x) pd = insert x (pt_pages m pd)"
proof -
  note h = hang_pde [OF assms(1-3)] and n = present_new_pde [OF assms(2)] tab_new_pde [OF assms(2)]
  have "x \<in> pt_pages (hang m pd va x) pd"
    using pt_pages_tab [of "PDX va" "hang m pd va x" pd] by (simp add: h n)
  moreover have "tab (pde_at m pd i) \<in> pt_pages (hang m pd va x) pd"
    if "i < 1024" "present (pde_at m pd i)" for i
  proof -
    have "i \<noteq> PDX va" using that assms(4) by auto
    then show ?thesis using pt_pages_tab [of i "hang m pd va x" pd] that by (simp add: h)
  qed
  ultimately have "insert x (pt_pages m pd) \<subseteq> pt_pages (hang m pd va x) pd"
    by (auto simp: pt_pages_def)
  moreover have "pt_pages (hang m pd va x) pd \<subseteq> insert x (pt_pages m pd)"
    by (auto simp: pt_pages_def h n split: if_splits)
  ultimately show ?thesis by blast
qed

lemma hang_wf:
  assumes "wf_pgdir s pd" "\<not> present (pde_at (mem s) pd (PDX va))" "page_ok (kend s) x"
    and "x \<notin> pt_pages (mem s) pd" "mem t = hang (mem s) pd va x" "kend t = kend s"
    and "rCount t (V2P x) \<noteq> 0" "\<And>f. f \<in> pt_pages (mem s) pd \<Longrightarrow> rCount t (V2P f) \<noteq> 0"
  shows "wf_pgdir t pd"
proof -
  have al: "page_aligned pd" "page_aligned x" using assms(1,3) by (auto dest: wf_pgdir_aligned)
  have ne: "x \<noteq> pd" using assms(4) by (auto simp: pt_pages_def)
  note h = hang_pde [OF al ne] and n = present_new_pde [OF al(2)] tab_new_pde [OF al(2)]
  have nt: "tab (pde_at (mem s) pd i) \<noteq> x" if "i < 1024" "present (pde_at (mem s) pd i)" for i
    using pt_pages_tab [OF that] assms(4) by auto
  have pp: "pt_pages (mem t) pd = insert x (pt_pages (mem s) pd)"
    using al ne assms(2,5) by (simp add: hang_pt_pages)
  have "\<forall>f \<in> pt_pages (mem t) pd. used t f"
    using assms(1,3,6-8) by (auto simp: pp used_def wf_pgdir_def)
  moreover have "\<forall>i < 1024. present (pde_at (mem t) pd i) \<longrightarrow> tab (pde_at (mem t) pd i) \<noteq> pd \<and>
        (\<forall>j < 1024. present (pde_at (mem t) pd j) \<longrightarrow>
           tab (pde_at (mem t) pd j) = tab (pde_at (mem t) pd i) \<longrightarrow> j = i)"
    using assms(1) nt ne by (auto simp: wf_pgdir_def assms(5) h n split: if_splits)
  ultimately show ?thesis by (simp add: wf_pgdir_def)
qed

lemma walkpgdir_alloc_present:
  assumes "pte_loc (mem s) pd va = Some a"
  shows "walkpgdir pd va True s = Ok (a, s)"
  using assms
  by (auto simp: walkpgdir_def pte_loc_def pde_at_def present_def tab_def Let_def split: if_splits)

lemma walkpgdir_alloc_new:
  assumes "\<not> present (pde_at (mem s) pd (PDX va))" "kalloc s = Ok (x, t)" "x \<noteq> 0"
  shows "walkpgdir pd va True s = Ok (x + 4 * PTX va, t\<lparr>mem := hang (mem t) pd va x\<rparr>)"
  using assms
  by (simp add: walkpgdir_def pde_at_def present_def Let_def kern_simps hang_def stmem_def)

lemma ext_hang:
  assumes "\<not> klocked s" "free_list s (x # zs)" "wf_pgdir s pd"
    and "\<not> present (pde_at (mem s) pd (PDX va))"
    and t: "free_list t zs" "same_config s t" "mem t = mem s"
      "page_rCount t = (page_rCount s)(pgno (V2P x) := 1)"
  shows "ext pd s (t\<lparr>mem := hang (mem t) pd va x\<rparr>) [x] zs" (is "ext pd s ?t [x] zs")
proof -
  have al: "page_aligned pd" using assms(3) by (rule wf_pgdir_aligned)
  have x: "page_ok (kend s) x" "page_aligned x" using assms(2) by (auto simp: free_list_def)
  have u: "used s f \<Longrightarrow> f \<noteq> x \<and> f \<notin> set zs" for f
    using assms(2) used_not_free [of s f "x # zs"] by auto
  have pdz: "pd \<noteq> x \<and> pd \<notin> set zs"
    by (rule u [OF wf_pgdir_used [OF assms(3) pt_pages_pd]])
  have "distinct (x # zs)" using assms(2) by (simp add: free_list_def)
  then have fz: "x \<notin> pt_pages (mem s) pd" "x \<noteq> pd" "x \<notin> set zs" "pd \<notin> set zs"
    using pdz u [of x] wf_pgdir_used [OF assms(3), of x] by (blast, blast, simp, blast)
  have rc: "rCount ?t (V2P f) = (if f = x then 1 else rCount s (V2P f))" if "page_aligned f" for f
    using that x by (simp add: rCount_def t(4))
  have nz: "rCount ?t (V2P f) \<noteq> 0" if "f \<in> pt_pages (mem s) pd" for f
    using wf_pgdir_used [OF assms(3) that] rc [of f] by (auto simp: used_def split: if_splits)
  have "wf_pgdir ?t pd"
  proof (rule hang_wf [OF assms(3,4) x(1) fz(1) _ _ _ nz])
    show "rCount ?t (V2P x) \<noteq> 0" using rc [OF x(2)] by simp
  qed (use t in \<open>simp_all add: same_config_def\<close>)
  moreover have "free_list ?t zs"
  proof (rule free_list_agree [OF t(1), of "- {x, pd}"])
    show "agree_on (- {x, pd}) (mem t) (mem ?t)"
      using al x hang_agree(2) [of pd x "mem t" va] by (auto intro: agree_on_sym)
    show "set zs \<subseteq> - {x, pd}" using fz by auto
  qed (auto simp: rCount_def)
  moreover have "agree_on (- pt_pages (mem ?t) pd) (mem ?t) (mem s)"
    using al x assms(4) fz hang_agree(2) [of pd x "mem s" va]
    by (auto simp: t(3) hang_pt_pages intro!: agree_on_subset [of "- {x, pd}"])
  ultimately show ?thesis
    using assms(2,4) t rc al x fz by (simp add: ext_def hang_pt_pages same_config_def)
qed

lemma walkpgdir_alloc:
  assumes l: "\<not> klocked s" and fl: "free_list s xs" and wf: "wf_pgdir s pd"
  obtains (found) a t ys zs where "xs = ys @ zs" "walkpgdir pd va True s = Ok (a, t)"
      "ext pd s t ys zs" "pte_loc (mem t) pd va = Some a"
      "\<And>va'. pte_val (mem t) pd va' = pte_val (mem s) pd va'"
    | (out_of_memory) "xs = []" "walkpgdir pd va True s = Ok (0, s)"
proof (cases "pte_loc (mem s) pd va")
  case (Some a)
  then show ?thesis
    using found [of "[]" xs a s] ext_refl [OF fl wf] by (simp add: walkpgdir_alloc_present)
next
  case None
  then have np: "\<not> present (pde_at (mem s) pd (PDX va))"
    by (auto simp: pte_loc_def Let_def split: if_splits)
  show ?thesis
  proof (cases xs)
    case Nil
    then have "walkpgdir pd va True s = Ok (0, s)"
      using np kalloc_empty [OF l] fl
      by (simp add: walkpgdir_def pde_at_def present_def Let_def kern_simps)
    then show ?thesis using Nil out_of_memory by blast
  next
    case (Cons x zs)
    obtain t where t: "kalloc s = Ok (x, t)" "free_list t zs" "same_config s t" "mem t = mem s"
        "page_rCount t = (page_rCount s)(pgno (V2P x) := 1)"
      using l fl unfolding Cons by (rule kalloc_Cons)
    let ?t = "t\<lparr>mem := hang (mem t) pd va x\<rparr>"
    have x: "page_aligned x" "x \<noteq> 0" "x \<notin> pt_pages (mem s) pd" "page_aligned pd"
      using fl Cons page_ok_nonzero wf_pgdir_used [OF wf, of x] used_not_free [of s x xs]
        wf_pgdir_aligned [OF wf] by (auto simp: free_list_def)
    have "ext pd s ?t [x] zs" using ext_hang [OF l _ wf np t(2-5)] fl Cons by blast
    moreover have "pte_loc (mem ?t) pd va = Some (x + 4 * PTX va)"
      using x by (auto simp: pte_loc_def hang_pde present_new_pde tab_new_pde pt_pages_def)
    ultimately show ?thesis
      using found [of "[x]" zs "x + 4 * PTX va" ?t] walkpgdir_alloc_new [OF np t(1) x(2)]
        hang_val [OF wf np x(1,3)] Cons t(4) by simp
  qed
qed

lemma pte_val_same_page:
  assumes "PGROUNDDOWN a = PGROUNDDOWN b" shows "pte_val m pd a = pte_val m pd b"
proof -
  have "PDX a = PDX b" "PTX a = PTX b" using assms by (simp_all add: same_page_indices)
  then show ?thesis by (simp only: pte_val_def pte_loc_def)
qed

section \<open>mappages\<close>

lemma pte_val_loc: "pte_loc m pd va = Some a \<Longrightarrow> load32 m a = pte_val m pd va"
  by (simp add: pte_val_def)

lemma ext_klocked: "ext pd s t ys xs \<Longrightarrow> klocked t = klocked s"
  by (simp add: ext_def same_config_def)

lemma ext_frees: "ext pd s t ys xs \<Longrightarrow> free_list t xs" and ext_wf: "ext pd s t ys xs \<Longrightarrow> wf_pgdir t pd"
  by (simp_all add: ext_def)

text \<open>One iteration of the mapping loop.\<close>

lemma map_page:
  assumes "\<not> klocked s" "free_list s xs" "wf_pgdir s pd" "\<not> present (pte_val (mem s) pd va)"
  obtains (mapped) a t ys zs where "xs = ys @ zs" "walkpgdir pd va True s = Ok (a, t)" "a \<noteq> 0"
      "\<not> present (load32 (mem t) a)" "ext pd s (stmem a v t) ys zs"
      "\<And>va'. pte_val (mem (stmem a v t)) pd va' =
         (if PGROUNDDOWN va' = PGROUNDDOWN va then v else pte_val (mem s) pd va')"
    | (out_of_memory) "xs = []" "walkpgdir pd va True s = Ok (0, s)"
  using assms(1-3)
proof (cases rule: walkpgdir_alloc [where va = va])
  case (found a t ys zs)
  note wft = ext_wf [OF found(3)]
  have "ext pd s (stmem a v t) (ys @ []) zs"
    using found(3) ext_stmem [OF ext_frees [OF found(3)] wft found(4)]
    by (intro ext_trans [where zs = "[]"]) simp_all
  moreover have "\<not> present (load32 (mem t) a)"
    using found(4,5) assms(4) by (simp add: pte_val_loc)
  moreover have "pte_val (mem (stmem a v t)) pd va' =
         (if PGROUNDDOWN va' = PGROUNDDOWN va then v else pte_val (mem s) pd va')" for va'
    using store_pte(3) [OF wft found(4)] found(5) by (simp add: stmem_def)
  ultimately show ?thesis
    using mapped found(1,2) pte_loc_facts(4) [OF wft found(4)] by auto
next
  case out_of_memory
  then show ?thesis using that(2) by blast
qed

lemma aligned_diff_step:
  assumes "page_aligned a" "page_aligned b" "a \<noteq> b"
  shows "unat (b - a) = unat (b - (a + PGSIZE)) + 4096"
proof -
  have "page_aligned (b - a)" using assms by (simp add: page_aligned_diff)
  moreover have "b - a \<noteq> 0" using assms(3) by simp
  ultimately have "4096 \<le> unat (b - a)"
    using dvd_imp_le [of 4096 "unat (b - a)"]
    by (simp add: page_aligned_unat unat_gt_0 mod_eq_0_iff_dvd)
  then have "unat (b - a - PGSIZE) = unat (b - a) - 4096"
    by (simp add: PGSIZE_def unat_sub word_le_nat_alt)
  with \<open>4096 \<le> unat (b - a)\<close> show ?thesis by (simp add: algebra_simps)
qed

definition in_range :: "u32 \<Rightarrow> u32 \<Rightarrow> u32 \<Rightarrow> bool" where
  "in_range a lst va \<longleftrightarrow> unat (PGROUNDDOWN va - a) \<le> unat (lst - a)"

lemma in_range_first: "page_aligned a \<Longrightarrow> PGROUNDDOWN va = a \<Longrightarrow> in_range a lst va"
  by (simp add: in_range_def)

lemma in_range_step:
  assumes "page_aligned a" "page_aligned lst" "a \<noteq> lst" "PGROUNDDOWN va \<noteq> a"
  shows "in_range (a + PGSIZE) lst va \<longleftrightarrow> in_range a lst va"
  using assms aligned_diff_step [of a "PGROUNDDOWN va"] aligned_diff_step [of a lst]
  by (simp add: in_range_def)

lemma in_range_step_first:
  assumes "page_aligned a" "page_aligned lst" "a \<noteq> lst"
  shows "\<not> in_range (a + PGSIZE) lst a"
proof -
  have "unat (lst - a) < 4294967296" by (rule unat32_less)
  moreover have "unat (PGROUNDDOWN a - (a + PGSIZE)) = 4294963200"
    using assms(1) by (simp add: page_simps PGSIZE_def)
  ultimately show ?thesis
    using aligned_diff_step [OF assms] by (simp add: in_range_def)
qed

definition map_result :: "memory \<Rightarrow> memory \<Rightarrow> u32 \<Rightarrow> u32 \<Rightarrow> u32 \<Rightarrow> u32 \<Rightarrow> u32 \<Rightarrow> bool" where
  "map_result m m' pd a lst pa perm \<longleftrightarrow> (\<forall>va. pte_val m' pd va =
     (if in_range a lst va then (pa + (PGROUNDDOWN va - a)) OR perm OR PTE_P
      else pte_val m pd va))"

definition outside_same :: "memory \<Rightarrow> memory \<Rightarrow> u32 \<Rightarrow> u32 \<Rightarrow> u32 \<Rightarrow> bool" where
  "outside_same m m' pd a lst \<longleftrightarrow>
     (\<forall>va. \<not> in_range a lst va \<longrightarrow> pte_val m' pd va = pte_val m pd va)"

lemma map_result_outside: "map_result m m' pd a lst pa perm \<Longrightarrow> outside_same m m' pd a lst"
  by (simp add: map_result_def outside_same_def)

lemma map_result_step:
  assumes "page_aligned a" "page_aligned lst" "a \<noteq> lst"
    and "\<And>va. pte_val m1 pd va =
      (if PGROUNDDOWN va = a then pa OR perm OR PTE_P else pte_val m pd va)"
  shows "map_result m1 m2 pd (a + PGSIZE) lst (pa + PGSIZE) perm \<Longrightarrow>
      map_result m m2 pd a lst pa perm"
    and "outside_same m1 m2 pd (a + PGSIZE) lst \<Longrightarrow> outside_same m m2 pd a lst"
proof -
  have first: "\<not> in_range (a + PGSIZE) lst va" if "PGROUNDDOWN va = a" for va
    using in_range_step_first [OF assms(1-3)] that assms(1) by (simp add: in_range_def page_simps)
  show "map_result m m2 pd a lst pa perm"
    if h: "map_result m1 m2 pd (a + PGSIZE) lst (pa + PGSIZE) perm"
    unfolding map_result_def
  proof
    fix va
    show "pte_val m2 pd va = (if in_range a lst va then (pa + (PGROUNDDOWN va - a)) OR perm OR PTE_P
      else pte_val m pd va)"
      using h first [of va] in_range_first [OF assms(1)] in_range_step [OF assms(1-3), of va]
        assms(4) [of va]
      by (cases "PGROUNDDOWN va = a") (simp_all add: map_result_def algebra_simps)
  qed
  show "outside_same m m2 pd a lst" if "outside_same m1 m2 pd (a + PGSIZE) lst"
    using that in_range_first [OF assms(1)] in_range_step [OF assms(1-3)] assms(4)
    by (auto simp: outside_same_def) metis
qed

lemma mappages_loop_ok:
  assumes "\<not> klocked s" "free_list s xs" "wf_pgdir s pd" "page_aligned a" "page_aligned lst"
    and "\<And>va. in_range a lst va \<Longrightarrow> \<not> present (pte_val (mem s) pd va)"
    and "unat (lst - a) div 4096 < n"
  shows "\<exists>r t ys zs. mappages_loop n pd a lst pa perm s = Ok (r, t) \<and> xs = ys @ zs \<and>
     ext pd s t ys zs \<and>
     (r = 0 \<and> map_result (mem s) (mem t) pd a lst pa perm \<or>
      r = -1 \<and> zs = [] \<and> outside_same (mem s) (mem t) pd a lst)"
  using assms
proof (induction n arbitrary: s xs a pa)
  case 0
  then show ?case by simp
next
  case (Suc n)
  have np: "\<not> present (pte_val (mem s) pd a)"
    using Suc.prems(6) in_range_first [of a a lst] Suc.prems(4) by (simp add: page_simps)
  from Suc.prems(1-3) np show ?case
  proof (cases rule: map_page [where v = "pa OR perm OR PTE_P" and va = a])
    case (mapped p t ys zs)
    let ?t = "stmem p (pa OR perm OR PTE_P) t"
    have step: "mappages_loop (Suc n) pd a lst pa perm s =
        (if a = lst then Ok (0, ?t) else mappages_loop n pd (a + PGSIZE) lst (pa + PGSIZE) perm ?t)"
      using mapped(2-4) by (simp add: kern_simps present_def Let_def)
    have v: "pte_val (mem ?t) pd va =
        (if PGROUNDDOWN va = a then pa OR perm OR PTE_P else pte_val (mem s) pd va)" for va
      using mapped(6) Suc.prems(4) by (simp add: page_simps)
    show ?thesis
    proof (cases "a = lst")
      case True
      have "map_result (mem s) (mem ?t) pd a lst pa perm"
        using v True by (auto simp: map_result_def in_range_def unat_eq_0)
      then show ?thesis using step True mapped(1,5) by auto
    next
      case False
      have "\<not> present (pte_val (mem ?t) pd va)" if "in_range (a + PGSIZE) lst va" for va
        using that v [of va] Suc.prems(4-6) False in_range_step [of a lst va]
          in_range_step_first [of a lst] by (auto simp: in_range_def page_simps)
      moreover have "unat (lst - (a + PGSIZE)) div 4096 < n"
        using Suc.prems(7) aligned_diff_step [OF Suc.prems(4,5) False] by simp
      ultimately obtain r u ys' zs' where u: "mappages_loop n pd (a + PGSIZE) lst (pa + PGSIZE) perm ?t = Ok (r, u)"
          "zs = ys' @ zs'" "ext pd ?t u ys' zs'"
          "r = 0 \<and> map_result (mem ?t) (mem u) pd (a + PGSIZE) lst (pa + PGSIZE) perm \<or>
           r = -1 \<and> zs' = [] \<and> outside_same (mem ?t) (mem u) pd (a + PGSIZE) lst"
        using Suc.IH [of ?t zs "a + PGSIZE" "pa + PGSIZE"] mapped(5) Suc.prems(1,4,5)
          ext_klocked [OF mapped(5)] ext_frees [OF mapped(5)] ext_wf [OF mapped(5)]
        by (auto simp: page_aligned_add)
      have "ext pd s u (ys @ ys') zs'" using mapped(5) u(2,3) ext_trans by blast
      then show ?thesis
        using step False u(1,2,4) mapped(1) map_result_step [OF Suc.prems(4,5) False v]
        by (intro exI [of _ r] exI [of _ u] exI [of _ "ys @ ys'"] exI [of _ zs']) auto
    qed
  next
    case out_of_memory
    then show ?thesis
      using ext_refl [OF Suc.prems(2,3)] by (auto simp: kern_simps outside_same_def)
  qed
qed

lemma mappages_ok:
  assumes "\<not> klocked s" "free_list s xs" "wf_pgdir s pd"
    and "\<And>va'. in_range (PGROUNDDOWN va) (PGROUNDDOWN (va + sz - 1)) va' \<Longrightarrow>
      \<not> present (pte_val (mem s) pd va')"
  shows "\<exists>r t ys zs. mappages pd va sz pa perm s = Ok (r, t) \<and> xs = ys @ zs \<and> ext pd s t ys zs \<and>
     (r = 0 \<and> map_result (mem s) (mem t) pd (PGROUNDDOWN va) (PGROUNDDOWN (va + sz - 1)) pa perm \<or>
      r = -1 \<and> zs = [] \<and>
        outside_same (mem s) (mem t) pd (PGROUNDDOWN va) (PGROUNDDOWN (va + sz - 1)))"
  unfolding mappages_def Let_def using assms by (intro mappages_loop_ok) auto

lemma one_page_range:
  assumes "page_aligned va"
  shows "PGROUNDDOWN (va + PGSIZE - 1) = va" "in_range va va va' \<longleftrightarrow> PGROUNDDOWN va' = va"
proof -
  have "PGROUNDDOWN (va + 4095) = va" by (rule PGROUNDDOWN_add [OF assms]) simp
  then show "PGROUNDDOWN (va + PGSIZE - 1) = va" by (simp add: PGSIZE_def add.commute)
  show "in_range va va va' \<longleftrightarrow> PGROUNDDOWN va' = va"
    by (auto simp: in_range_def unat_eq_0)
qed

lemma mappages_page:
  assumes "\<not> klocked s" "free_list s xs" "wf_pgdir s pd" "page_aligned va"
    and "\<not> present (pte_val (mem s) pd va)"
  obtains (mapped) t ys zs where "mappages pd va PGSIZE pa perm s = Ok (0, t)" "xs = ys @ zs"
      "ext pd s t ys zs"
      "\<And>va'. pte_val (mem t) pd va' =
         (if PGROUNDDOWN va' = va then pa OR perm OR PTE_P else pte_val (mem s) pd va')"
    | (out_of_memory) t where "mappages pd va PGSIZE pa perm s = Ok (-1, t)" "ext pd s t xs []"
      "\<And>va'. PGROUNDDOWN va' \<noteq> va \<Longrightarrow> pte_val (mem t) pd va' = pte_val (mem s) pd va'"
proof -
  have c: "pte_val (mem s) pd va' = pte_val (mem s) pd va" if "PGROUNDDOWN va' = va" for va'
    using that assms(4) by (intro pte_val_same_page) (simp add: page_simps)
  note r = PGROUNDDOWN_aligned [OF assms(4)] one_page_range [OF assms(4)]
  have np: "\<not> present (pte_val (mem s) pd va')"
    if "in_range (PGROUNDDOWN va) (PGROUNDDOWN (va + PGSIZE - 1)) va'" for va'
    using that c [of va'] assms(5) by (simp add: r)
  obtain b t ys zs where m: "mappages pd va PGSIZE pa perm s = Ok (b, t)" "xs = ys @ zs" "ext pd s t ys zs"
    "b = 0 \<and> map_result (mem s) (mem t) pd va va pa perm \<or>
     b = -1 \<and> zs = [] \<and> outside_same (mem s) (mem t) pd va va"
    using mappages_ok [where va = va and sz = PGSIZE and pa = pa and perm = perm, OF assms(1-3) np]
    unfolding r by blast
  from m(4) show ?thesis
  proof (elim disjE conjE)
    assume "b = 0" "map_result (mem s) (mem t) pd va va pa perm"
    then show ?thesis
      using mapped [of t ys zs] m(1-3) by (simp add: map_result_def r)
  next
    assume "b = -1" "zs = []" "outside_same (mem s) (mem t) pd va va"
    then show ?thesis
      using out_of_memory [of t] m(1-3) by (simp add: outside_same_def r)
  qed
qed

end
