(* ===== verification/Vm_Kernel.thy ===== *)
theory Vm_Kernel
  imports Vm_Lemmas
begin

unbundle bit_operations_syntax

text \<open>
  \<open>setupkvm\<close>: with enough free pages it builds a page table whose kernel half maps the four
  ranges of \<open>kmap\<close> and whose user half is empty.  A page table has at most 1025 pages, which
  bounds the memory the mapping operations take.
\<close>

section \<open>The size of a page table\<close>

lemma card_pt_pages: "finite (pt_pages m pd)" "card (pt_pages m pd) \<le> 1025"
proof -
  let ?I = "(\<lambda>i. tab (pde_at m pd (of_nat i))) ` {..< 1024 :: nat}"
  have sub: "pt_pages m pd \<subseteq> insert pd ?I"
  proof
    fix f assume "f \<in> pt_pages m pd"
    then consider "f = pd" | i where "f = tab (pde_at m pd i)" "i < 1024"
      by (auto simp: pt_pages_def)
    then show "f \<in> insert pd ?I"
    proof cases
      case 2
      then have "f = tab (pde_at m pd (of_nat (unat i)))" "unat i \<in> {..< 1024}"
        by (simp_all add: less_1024)
      then show ?thesis by blast
    qed simp
  qed
  have "card (insert pd ?I) \<le> Suc (card ?I)" by (simp add: card_insert_if)
  also have "card ?I \<le> card {..< 1024 :: nat}" by (rule card_image_le) simp
  finally have c: "card (insert pd ?I) \<le> 1025" by simp
  have fin: "finite (insert pd ?I)" by simp
  show "finite (pt_pages m pd)" using sub fin by (rule finite_subset)
  show "card (pt_pages m pd) \<le> 1025" using card_mono [OF fin sub] c by simp
qed

lemma ext_card: "ext pd s t ys zs \<Longrightarrow> length ys \<le> 1025"
proof -
  assume e: "ext pd s t ys zs"
  then have "distinct ys" by (simp add: ext_def free_list_def)
  then have "length ys = card (set ys)" by (simp add: distinct_card)
  also have "\<dots> \<le> card (pt_pages (mem t) pd)"
    using e card_pt_pages(1) by (intro card_mono) (auto simp: ext_def)
  finally show ?thesis using card_pt_pages(2) [of "mem t" pd] by linarith
qed

section \<open>An empty page table\<close>

lemma zero_pgdir:
  assumes "page_ok (kend s) d" "rCount s (V2P d) \<noteq> 0" "mem s = memset m d 0 PGSIZE"
  shows "wf_pgdir s d" "pt_pages (mem s) d = {d}" "pte_val (mem s) d va = 0"
proof -
  have z: "pde_at (mem s) d i = 0" if "i < 1024" for i
    using assms that
    by (simp add: pde_at_def load32_memset_0 page_simps less_1024 slot_word_aligned page_ok_aligned)
  show pp: "pt_pages (mem s) d = {d}" by (auto simp: pt_pages_def z)
  show "wf_pgdir s d" unfolding wf_pgdir_def pp using assms(1,2) by (simp add: z used_def)
  show "pte_val (mem s) d va = 0" by (simp add: pte_val_def pte_loc_def z)
qed

section \<open>The kernel mappings\<close>

definition kernel_layout :: "u32 \<Rightarrow> bool" where
  "kernel_layout data \<longleftrightarrow> page_aligned data \<and> unat KERNLINK < unat data \<and>
     unat data < unat (P2V PHYSTOP)"

definition krange :: "kmap_entry \<Rightarrow> u32 \<Rightarrow> bool" where
  "krange k va \<longleftrightarrow> in_range (PGROUNDDOWN (virt k))
     (PGROUNDDOWN (virt k + (phys_end k - phys_start k) - 1)) va"

lemma in_range_interval:
  assumes "unat a \<le> unat l"
  shows "in_range a l va \<longleftrightarrow> unat a \<le> unat (PGROUNDDOWN va) \<and> unat (PGROUNDDOWN va) \<le> unat l"
proof (cases "unat a \<le> unat (PGROUNDDOWN va)")
  case True
  then have "unat (PGROUNDDOWN va - a) = unat (PGROUNDDOWN va) - unat a"
    by (simp add: unat_sub word_le_nat_alt)
  moreover have "unat (l - a) = unat l - unat a"
    using assms by (simp add: unat_sub word_le_nat_alt)
  ultimately show ?thesis using True assms by (auto simp: in_range_def)
next
  case False
  then have "unat (PGROUNDDOWN va - a) = unat (PGROUNDDOWN va) + 4294967296 - unat a"
    by (simp add: unat_sub_if')
  moreover have "unat (l - a) = unat l - unat a"
    using assms by (simp add: unat_sub word_le_nat_alt)
  ultimately show ?thesis
    using False unat32_less [of l] unat32_less [of a] unfolding in_range_def by linarith
qed

lemma aligned_minus_1:
  assumes "page_aligned b" "b \<noteq> 0"
  shows "unat (PGROUNDDOWN (b - 1)) = unat b - 4096" "4096 \<le> unat b"
proof -
  obtain q where q: "unat b = 4096 * q"
    using assms(1) by (auto simp: page_aligned_unat mod_eq_0_iff_dvd)
  have q0: "0 < q" using q assms(2) by (cases q) (auto simp: unat_eq_0)
  then show "4096 \<le> unat b" using q by simp
  have "unat (b - 1) = 4096 * q - 1"
    using assms(2) q by (simp add: unat_minus_one)
  moreover have "(4096 * q - 1) div 4096 = q - 1"
    using q0 by (cases q) simp_all
  ultimately show "unat (PGROUNDDOWN (b - 1)) = unat b - 4096"
    using q by (simp add: unat_PGROUNDDOWN diff_mult_distrib2)
qed

lemma aligned_interval:
  assumes "page_aligned a" "page_aligned b" "unat a < unat b"
  shows "in_range a (PGROUNDDOWN (b - 1)) va \<longleftrightarrow>
    unat a \<le> unat (PGROUNDDOWN va) \<and> unat (PGROUNDDOWN va) < unat b"
proof -
  obtain p q where pq: "unat a = 4096 * p" "unat b = 4096 * q"
    using assms(1,2) by (auto simp: page_aligned_unat mod_eq_0_iff_dvd elim!: dvdE)
  have b: "b \<noteq> 0" using assms(3) by auto
  note m = aligned_minus_1 [OF assms(2) b]
  have "p < q" using assms(3) pq by simp
  then have "unat a \<le> unat (PGROUNDDOWN (b - 1))" using m pq by simp
  then have "in_range a (PGROUNDDOWN (b - 1)) va \<longleftrightarrow>
      unat a \<le> unat (PGROUNDDOWN va) \<and> unat (PGROUNDDOWN va) \<le> unat b - 4096"
    using in_range_interval m by simp
  moreover have "unat (PGROUNDDOWN va) \<le> unat b - 4096 \<longleftrightarrow> unat (PGROUNDDOWN va) < unat b"
    using pq m(2) unfolding unat_PGROUNDDOWN pq by auto
  ultimately show ?thesis by simp
qed

lemma top_interval:
  "in_range a (PGROUNDDOWN (- 1)) va \<longleftrightarrow> unat a \<le> unat (PGROUNDDOWN va)" if "page_aligned a" for a
proof -
  have t: "unat (PGROUNDDOWN (- 1)) = 4294963200"
    by (simp add: unat_PGROUNDDOWN unat_minus_1)
  have le: "unat x \<le> unat (PGROUNDDOWN (- 1))" if "page_aligned x" for x
    using page_aligned_le [OF that] t by simp
  show ?thesis
    using in_range_interval [OF le [OF that]] le [of "PGROUNDDOWN va"] by simp
qed

lemma kmap_ranges:
  assumes "kernel_layout data"
  shows "krange (kmap data ! 0) va \<longleftrightarrow> 0x80000000 \<le> unat (PGROUNDDOWN va) \<and> unat (PGROUNDDOWN va) < 0x80100000"
    and "krange (kmap data ! 1) va \<longleftrightarrow> 0x80100000 \<le> unat (PGROUNDDOWN va) \<and> unat (PGROUNDDOWN va) < unat data"
    and "krange (kmap data ! 2) va \<longleftrightarrow> unat data \<le> unat (PGROUNDDOWN va) \<and> unat (PGROUNDDOWN va) < 0x8E000000"
    and "krange (kmap data ! 3) va \<longleftrightarrow> 0xFE000000 \<le> unat (PGROUNDDOWN va)"
proof -
  have pg: "page_aligned (0x8E000000 :: u32)" "page_aligned (0x80100000 :: u32)"
      "page_aligned (0x80000000 :: u32)" "page_aligned (0xFE000000 :: u32)"
    by (simp_all add: page_aligned_def PGSIZE_def)
  note d = assms [unfolded kernel_layout_def P2V_def layout_defs, simplified]
  show "krange (kmap data ! 0) va \<longleftrightarrow> 0x80000000 \<le> unat (PGROUNDDOWN va) \<and> unat (PGROUNDDOWN va) < 0x80100000"
    using aligned_interval [OF pg(3,2), of va] pg
    by (simp add: krange_def kmap_def layout_defs PGROUNDDOWN_aligned)
  show "krange (kmap data ! 1) va \<longleftrightarrow> 0x80100000 \<le> unat (PGROUNDDOWN va) \<and> unat (PGROUNDDOWN va) < unat data"
    using aligned_interval [OF pg(2), of data va] pg d
    by (simp add: krange_def kmap_def layout_defs PGROUNDDOWN_aligned V2P_def)
  show "krange (kmap data ! 2) va \<longleftrightarrow> unat data \<le> unat (PGROUNDDOWN va) \<and> unat (PGROUNDDOWN va) < 0x8E000000"
  proof -
    have "unat (0x8E000000 :: u32) = 0x8E000000" by simp
    then have "in_range data (PGROUNDDOWN (0x8E000000 - 1)) va \<longleftrightarrow>
        unat data \<le> unat (PGROUNDDOWN va) \<and> unat (PGROUNDDOWN va) < 0x8E000000"
      using aligned_interval [OF _ pg(1), of data va] d by metis
    moreover have "data + (0xE000000 - (data - 0x80000000)) - 1 = (0x8E000000 - 1 :: u32)"
      by (simp add: algebra_simps)
    ultimately show ?thesis
      using d by (simp add: krange_def kmap_def layout_defs PGROUNDDOWN_aligned V2P_def)
  qed
  show "krange (kmap data ! 3) va \<longleftrightarrow> 0xFE000000 \<le> unat (PGROUNDDOWN va)"
    using top_interval [OF pg(4), of va] pg
    by (simp add: krange_def kmap_def layout_defs PGROUNDDOWN_aligned)
qed

definition kpte :: "kmap_entry \<Rightarrow> u32 \<Rightarrow> u32" where
  "kpte k va = (phys_start k + (PGROUNDDOWN va - PGROUNDDOWN (virt k))) OR kperm k OR PTE_P"

lemma ext_room:
  assumes "ext d s t ys zs" "1025 < length (ys @ zs) + card (pt_pages (mem s) d)"
    and "wf_pgdir s d"
  shows "1025 < length zs + card (pt_pages (mem t) d)" "zs \<noteq> []"
proof -
  have fl: "free_list s (ys @ zs)" and pp: "pt_pages (mem t) d = pt_pages (mem s) d \<union> set ys"
    using assms(1) by (simp_all add: ext_def)
  have "set ys \<inter> pt_pages (mem s) d = {}"
    using wf_pgdir_used [OF assms(3)] used_not_free [OF _ fl] by fastforce
  then have "card (pt_pages (mem t) d) = card (pt_pages (mem s) d) + card (set ys)"
    unfolding pp using card_pt_pages(1) by (subst card_Un_disjoint) auto
  moreover have "card (set ys) = length ys"
    using fl by (simp add: free_list_def distinct_card)
  ultimately show r: "1025 < length zs + card (pt_pages (mem t) d)" using assms(2) by simp
  show "zs \<noteq> []" using r card_pt_pages(2) [of "mem t" d] by auto
qed

lemma setupkvm_loop_ok:
  assumes "\<not> klocked s" "free_list s xs" "wf_pgdir s d"
    and "1025 < length xs + card (pt_pages (mem s) d)"
    and "\<And>k va. k \<in> set ks \<Longrightarrow> krange k va \<Longrightarrow> \<not> present (pte_val (mem s) d va)"
    and "sorted_wrt (\<lambda>k k'. \<forall>va. \<not> (krange k va \<and> krange k' va)) ks"
  shows "\<exists>t ys zs. setupkvm_loop d ks s = Ok (d, t) \<and> xs = ys @ zs \<and> ext d s t ys zs \<and>
     (\<forall>k \<in> set ks. \<forall>va. krange k va \<longrightarrow> pte_val (mem t) d va = kpte k va) \<and>
     (\<forall>va. (\<forall>k \<in> set ks. \<not> krange k va) \<longrightarrow> pte_val (mem t) d va = pte_val (mem s) d va)"
  using assms
proof (induction ks arbitrary: s xs)
  case Nil
  then show ?case using ext_refl [of s xs d] by (auto simp: kern_simps)
next
  case (Cons k ks)
  let ?a = "PGROUNDDOWN (virt k)"
  let ?l = "PGROUNDDOWN (virt k + (phys_end k - phys_start k) - 1)"
  have "\<not> present (pte_val (mem s) d va)" if "in_range ?a ?l va" for va
    using Cons.prems(5) [of k va] that by (simp add: krange_def)
  then obtain r t ys zs where
    t: "mappages d (virt k) (phys_end k - phys_start k) (phys_start k) (kperm k) s = Ok (r, t)"
      "xs = ys @ zs" "ext d s t ys zs"
      "r = 0 \<and> map_result (mem s) (mem t) d ?a ?l (phys_start k) (kperm k) \<or>
       r = -1 \<and> zs = [] \<and> outside_same (mem s) (mem t) d ?a ?l"
    using mappages_ok [OF Cons.prems(1-3), of "virt k" "phys_end k - phys_start k" "phys_start k"
        "kperm k"] by blast
  note room = ext_room [OF t(3) _ Cons.prems(3)]
  have r: "r = 0" and m: "map_result (mem s) (mem t) d ?a ?l (phys_start k) (kperm k)"
    using t(2,4) room Cons.prems(4) by auto
  have v: "pte_val (mem t) d va = (if krange k va then kpte k va else pte_val (mem s) d va)" for va
    using m by (simp add: map_result_def krange_def kpte_def)
  have "\<not> present (pte_val (mem t) d va)" if "k' \<in> set ks" "krange k' va" for k' va
    using that Cons.prems(5) [of k' va] Cons.prems(6) v [of va] by auto
  then obtain u ys' zs' where u: "setupkvm_loop d ks t = Ok (d, u)" "zs = ys' @ zs'" "ext d t u ys' zs'"
      "\<forall>k \<in> set ks. \<forall>va. krange k va \<longrightarrow> pte_val (mem u) d va = kpte k va"
      "\<forall>va. (\<forall>k \<in> set ks. \<not> krange k va) \<longrightarrow> pte_val (mem u) d va = pte_val (mem t) d va"
    using Cons.IH [of t zs] Cons.prems(1,4,6) t(2) room ext_klocked [OF t(3)]
      ext_frees [OF t(3)] ext_wf [OF t(3)] by auto
  have "ext d s u (ys @ ys') zs'" using t(3) u(2,3) ext_trans by blast
  moreover have "\<forall>k' \<in> set (k # ks). \<forall>va. krange k' va \<longrightarrow> pte_val (mem u) d va = kpte k' va"
    using u(4,5) v Cons.prems(6) by auto
  moreover have "\<forall>va. (\<forall>k' \<in> set (k # ks). \<not> krange k' va) \<longrightarrow>
      pte_val (mem u) d va = pte_val (mem s) d va"
    using u(5) v by auto
  moreover have "setupkvm_loop d (k # ks) s = Ok (d, u)" using t(1) r u(1) by (simp add: kern_simps)
  ultimately show ?case using t(2) u(2) by (metis append_assoc)
qed

lemma kmap_disjoint:
  assumes "kernel_layout data"
  shows "sorted_wrt (\<lambda>k k'. \<forall>va. \<not> (krange k va \<and> krange k' va)) (kmap data)"
proof -
  note r = kmap_ranges [OF assms]
  have "unat data < 0x8E000000" "0x80100000 < unat data"
    using assms by (simp_all add: kernel_layout_def P2V_def layout_defs)
  then have "sorted_wrt (\<lambda>k k'. \<forall>va. \<not> (krange k va \<and> krange k' va))
      [kmap data ! 0, kmap data ! 1, kmap data ! 2, kmap data ! 3]"
    by (auto simp: r r [unfolded One_nat_def])
  then show ?thesis by (simp add: kmap_def)
qed

lemma kmap_set: "set (kmap data) = {kmap data ! 0, kmap data ! 1, kmap data ! 2, kmap data ! 3}"
  by (simp add: kmap_def)

lemma user_not_krange:
  assumes "kernel_layout data" "unat va < 0x80000000" "k \<in> set (kmap data)"
  shows "\<not> krange k va"
proof -
  have "unat (PGROUNDDOWN va) < 0x80000000" using assms(2) by (simp add: unat_PGROUNDDOWN)
  moreover have "0x80100000 < unat data"
    using assms(1) by (simp add: kernel_layout_def P2V_def layout_defs)
  moreover have "k = kmap data ! 0 \<or> k = kmap data ! 1 \<or> k = kmap data ! 2 \<or> k = kmap data ! 3"
    using assms(3) by (simp only: kmap_set) auto
  ultimately show ?thesis using kmap_ranges [OF assms(1), of va] by auto
qed

section \<open>setupkvm\<close>

text \<open>
  A freshly built address space \<open>d\<close>: its tables are the pages \<open>ps\<close> taken from the front of
  the free list, its user half is empty, its kernel half holds the four mappings of \<open>kmap\<close>, and
  nothing else in memory and no other reference count changed.
\<close>

definition new_space :: "kstate \<Rightarrow> kstate \<Rightarrow> u32 \<Rightarrow> u32 list \<Rightarrow> bool" where
  "new_space s t d ps \<longleftrightarrow> same_config s t \<and> wf_pgdir t d \<and> pt_pages (mem t) d = set ps \<and>
     agree_on (- set ps) (mem t) (mem s) \<and>
     (\<forall>f. page_aligned f \<longrightarrow> rCount t (V2P f) = (if f \<in> set ps then 1 else rCount s (V2P f))) \<and>
     (\<forall>va. unat va < 0x80000000 \<longrightarrow> pte_val (mem t) d va = 0) \<and>
     (\<forall>k \<in> set (kmap (kdata s)). \<forall>va. krange k va \<longrightarrow> pte_val (mem t) d va = kpte k va)"

lemma setupkvm_ok:
  assumes "\<not> klocked s" "free_list s xs" "1025 < length xs" "kernel_layout (kdata s)"
  obtains d t ps zs where "setupkvm s = Ok (d, t)" "d \<noteq> 0" "xs = ps @ zs" "d \<in> set ps"
    "free_list t zs" "new_space s t d ps" "length ps \<le> 1025"
proof -
  obtain d xs' where xs: "xs = d # xs'" using assms(3) by (cases xs) auto
  obtain s1 where s1: "kalloc s = Ok (d, s1)" "free_list s1 xs'" "same_config s s1"
      "mem s1 = mem s" "page_rCount s1 = (page_rCount s)(pgno (V2P d) := 1)"
    using assms(1,2) unfolding xs by (rule kalloc_Cons)
  let ?s2 = "s1\<lparr>mem := memset (mem s1) d 0 PGSIZE\<rparr>"
  have d: "page_ok (kend s) d" "page_aligned d" "d \<noteq> 0" "d \<notin> set xs'"
    using assms(2) page_ok_nonzero by (auto simp: xs free_list_def)
  have z: "wf_pgdir ?s2 d" "pt_pages (mem ?s2) d = {d}" "pte_val (mem ?s2) d va = 0" for va
    using zero_pgdir [of ?s2 d "mem s1"] d s1(3,5) by (simp_all add: same_config_def rCount_def)
  have fl2: "free_list ?s2 xs'"
  proof (rule free_list_agree [OF s1(2), of "- {d}"])
    show "agree_on (- {d}) (mem s1) (mem ?s2)"
      using d by (auto intro: agree_on_sym agree_on_memset)
  qed (use d in \<open>auto simp: rCount_def\<close>)
  have "\<not> klocked ?s2" using assms(1) s1(3) by (simp add: same_config_def)
  moreover have "1025 < length xs' + card (pt_pages (mem ?s2) d)"
    using assms(3) by (simp only: z(2)) (simp add: xs)
  ultimately obtain t ys zs where t: "setupkvm_loop d (kmap (kdata s)) ?s2 = Ok (d, t)"
      "xs' = ys @ zs" "ext d ?s2 t ys zs"
      "\<forall>k \<in> set (kmap (kdata s)). \<forall>va. krange k va \<longrightarrow> pte_val (mem t) d va = kpte k va"
      "\<forall>va. (\<forall>k \<in> set (kmap (kdata s)). \<not> krange k va) \<longrightarrow> pte_val (mem t) d va = 0"
    using setupkvm_loop_ok [OF _ fl2 z(1) _ _ kmap_disjoint [OF assms(4)]] z(3) by auto
  show thesis
  proof
    show "setupkvm s = Ok (d, t)"
      using s1(1) d(3) t(1) s1(3)
      by (simp add: setupkvm_def kern_simps P2V_def layout_defs same_config_def)
    show "xs = (d # ys) @ zs" "d \<in> set (d # ys)" "d \<noteq> 0" using xs t(2) d by simp_all
    show "free_list t zs" using t(3) by (simp add: ext_def)
    show "length (d # ys) \<le> 1025"
    proof -
      have "distinct (d # ys)" using assms(2) xs t(2) by (simp add: free_list_def)
      then have "length (d # ys) = card (pt_pages (mem t) d)"
        using t(3) z(2) by (simp add: ext_def distinct_card [symmetric])
      then show ?thesis using card_pt_pages(2) [of "mem t" d] by simp
    qed
    have "agree_on (- set (d # ys)) (mem t) (mem s)"
      using t(3) z(2) s1(4) agree_on_memset [of d "- set (d # ys)" "mem s" 0] d
      by (auto simp: ext_def intro: agree_on_trans)
    moreover have "pte_val (mem t) d va = 0" if "unat va < 0x80000000" for va
      using t(5) user_not_krange [OF assms(4) that] by blast
    moreover have "rCount ?s2 (V2P f) = (if f = d then 1 else rCount s (V2P f))"
      if "page_aligned f" for f
      using that d(2) s1(5) by (simp add: rCount_def)
    ultimately show "new_space s t d (d # ys)"
      using t(3,4) z(2) s1(3) by (auto simp: new_space_def ext_def same_config_def)
  qed
qed

end
