(* ===== verification/Cow.thy ===== *)
theory Cow
  imports Vm_Kernel
begin

unbundle bit_operations_syntax

text \<open>
  Copy on write: what \<open>copyuvm\<close> (fork) and \<open>COW_FAULT\<close> do to the address spaces of the
  processes involved.  Fork gives the child the same pages read-only, with one more reference
  each; a fault on a shared page gives the faulting process a private copy with the same
  contents, and leaves every other address space as it was.
\<close>

section \<open>Entries\<close>

definition ro :: "u32 \<Rightarrow> u32" where
  "ro e = NOT PTE_W AND e"

lemma present_bit: "present e \<longleftrightarrow> bit e 0"
  using and_exp_eq_0_iff_not_bit [of e 0] by (simp add: present_def PTE_P_def)

lemma PTE_W_bit: "bit PTE_W n \<longleftrightarrow> n = 1" 
  by (auto simp: PTE_W_def bit_simps)

lemma present_ro [simp]: "present (ro e) = present e"
  by (simp add: present_bit ro_def bit_simps PTE_W_bit)

lemma or_present: "present e \<Longrightarrow> e OR PTE_P = e"
  by (rule bit_word_eqI) (auto simp: present_bit PTE_P_def bit_simps)

lemma PTE_ADDR_ro [simp]: "PTE_ADDR (ro e) = PTE_ADDR e"
proof (rule bit_word_eqI)
  fix n assume "n < LENGTH(32)"
  have "\<not> bit (NOT 0xFFF :: u32) 1" by (simp add: bit_simps)
  then show "bit (PTE_ADDR (ro e)) n = bit (PTE_ADDR e) n"
    by (cases "n = 1") (auto simp: PTE_ADDR_def ro_def bit_and_iff bit_not_iff_eq PTE_W_bit)
qed

lemma tab_ro [simp]: "tab (ro e) = tab e"
  by (simp add: tab_def)

lemma pte_rebuild: "present e \<Longrightarrow> PTE_ADDR e OR PTE_FLAGS e OR PTE_P = e"
  using or_present [of e] by (simp add: PTE_split flip: or.assoc)

section \<open>Two address spaces side by side\<close>

definition apart :: "kstate \<Rightarrow> u32 \<Rightarrow> u32 \<Rightarrow> bool" where
  "apart s pd d \<longleftrightarrow> wf_pgdir s pd \<and> wf_pgdir s d \<and> pt_pages (mem s) pd \<inter> pt_pages (mem s) d = {}"

text \<open>Writing an entry of one leaves the other alone.\<close>

lemma apart_stmem:
  assumes "apart s pd d" "pte_loc (mem s) pd va = Some a"
  shows "apart (stmem a v s) pd d"
    and "pte_val (mem (stmem a v s)) d va' = pte_val (mem s) d va'"
    and "pt_pages (mem (stmem a v s)) d = pt_pages (mem s) d"
    and "pt_pages (mem (stmem a v s)) pd = pt_pages (mem s) pd"
    and "agree_on (- pt_pages (mem s) pd) (mem (stmem a v s)) (mem s)"
proof -
  have wf: "wf_pgdir s pd" "wf_pgdir s d" and dj: "pt_pages (mem s) pd \<inter> pt_pages (mem s) d = {}"
    using assms(1) by (auto simp: apart_def)
  note f = pte_loc_facts [OF wf(1) assms(2)]
  have "agree_on (- {PGROUNDDOWN a}) (store32 (mem s) a v) (mem s)"
    using f(1) by (intro agree_on_store32) auto
  then have ag: "agree_on (pt_pages (mem s) d) (mem s) (mem (stmem a v s))"
    and ag': "agree_on (- pt_pages (mem s) pd) (mem (stmem a v s)) (mem s)"
    using f(2) dj by (auto simp: stmem_def intro: agree_on_sym agree_on_subset)
  show "agree_on (- pt_pages (mem s) pd) (mem (stmem a v s)) (mem s)" by (rule ag')
  have al: "page_aligned d" using wf(2) by (rule wf_pgdir_aligned)
  show v: "pte_val (mem (stmem a v s)) d va' = pte_val (mem s) d va'" for va'
    using pte_val_agree [OF ag _ al] by simp
  show p: "pt_pages (mem (stmem a v s)) d = pt_pages (mem s) d"
    using pt_pages_agree [OF ag _ al] by simp
  show p': "pt_pages (mem (stmem a v s)) pd = pt_pages (mem s) pd"
    using store_pte(2) [OF wf(1) assms(2)] by (simp add: stmem_def)
  have "wf_pgdir (stmem a v s) d"
    using wf(2) ag wf_pgdir_used [OF wf(2)]
    by (intro wf_pgdir_agree [OF wf(2)]) (auto simp: stmem_def rCount_def used_def)
  then show "apart (stmem a v s) pd d"
    using wf_pgdir_store_pte [OF wf(1) assms(2)] dj p p' by (simp add: apart_def)
qed

text \<open>Mapping into the new space leaves an address space that is in use alone.\<close>

lemma ext_other:
  assumes "ext d s t ys zs" "apart s pd d"
  shows "apart t pd d" "pte_val (mem t) pd va = pte_val (mem s) pd va"
    and "pt_pages (mem t) pd = pt_pages (mem s) pd"
proof -
  have wf: "wf_pgdir s pd" and dj: "pt_pages (mem s) pd \<inter> pt_pages (mem s) d = {}"
    using assms(2) by (auto simp: apart_def)
  have fl: "free_list s (ys @ zs)" and pp: "pt_pages (mem t) d = pt_pages (mem s) d \<union> set ys"
    and ae: "agree_on (- pt_pages (mem t) d) (mem t) (mem s)"
    using assms(1) unfolding ext_def by blast+
  have ny: "f \<notin> set ys" if "f \<in> pt_pages (mem s) pd" for f
    using used_not_free [OF wf_pgdir_used [OF wf that] fl] by simp
  have dt: "pt_pages (mem s) pd \<inter> pt_pages (mem t) d = {}" using dj ny pp by auto
  from ae have ag: "agree_on (pt_pages (mem s) pd) (mem s) (mem t)"
    using dt by (auto intro: agree_on_sym agree_on_subset)
  have al: "page_aligned pd" using wf by (rule wf_pgdir_aligned)
  show "pte_val (mem t) pd va = pte_val (mem s) pd va"
    using pte_val_agree [OF ag _ al] by simp
  show p: "pt_pages (mem t) pd = pt_pages (mem s) pd"
    using pt_pages_agree [OF ag _ al] by simp
  have rc: "rCount t (V2P f) \<noteq> 0" if "f \<in> pt_pages (mem s) pd" for f
    using assms(1) ny [OF that] wf_pgdir_used [OF wf that] by (auto simp: ext_def used_def)
  have "wf_pgdir t pd"
    using assms(1) rc by (intro wf_pgdir_agree [OF wf ag]) (simp_all add: ext_def same_config_def)
  then show "apart t pd d"
    using assms(1) dt p by (simp add: apart_def ext_def)
qed

lemma wf_pgdir_set_rCount:
  assumes "wf_pgdir s pd" "page_aligned f" "f \<notin> pt_pages (mem s) pd \<or> n \<noteq> 0"
  shows "wf_pgdir (set_rCount (V2P f) n s) pd"
proof (rule wf_pgdir_agree [OF assms(1)])
  fix g assume "g \<in> pt_pages (mem s) pd"
  then have "used s g" by (rule wf_pgdir_used [OF assms(1)])
  then show "rCount (set_rCount (V2P f) n s) (V2P g) \<noteq> 0"
    using assms(2,3) \<open>g \<in> pt_pages (mem s) pd\<close> by (auto simp: rCount_def used_def)
qed simp_all

section \<open>One page of copyuvm\<close>

text \<open>
  The effect of one iteration on the pair of address spaces: \<open>f\<close> is the page mapped at \<open>va\<close>,
  \<open>ys\<close> the pages taken for new tables of the child.
\<close>

definition shared_page :: "kstate \<Rightarrow> kstate \<Rightarrow> u32 \<Rightarrow> u32 \<Rightarrow> u32 \<Rightarrow> u32 list \<Rightarrow> bool" where
  "shared_page s t pd d va ys \<longleftrightarrow> same_config s t \<and> apart t pd d \<and>
     (\<forall>w. pte_val (mem t) pd w =
        (if PGROUNDDOWN w = va then ro (pte_val (mem s) pd va) else pte_val (mem s) pd w)) \<and>
     (\<forall>w. pte_val (mem t) d w =
        (if PGROUNDDOWN w = va then ro (pte_val (mem s) pd va) else pte_val (mem s) d w)) \<and>
     pt_pages (mem t) pd = pt_pages (mem s) pd \<and>
     pt_pages (mem t) d = pt_pages (mem s) d \<union> set ys \<and>
     agree_on (- (pt_pages (mem t) pd \<union> pt_pages (mem t) d)) (mem t) (mem s) \<and>
     (\<forall>g. page_aligned g \<longrightarrow> rCount t (V2P g) =
        (if g \<in> set ys then 1 else rCount s (V2P g)) +
        (if g = tab (pte_val (mem s) pd va) then 1 else 0))"

lemma card_room:
  assumes "apart s pd d" "ext d s t ys zs" "1025 < length (ys @ zs) + card (pt_pages (mem s) d)"
  shows "zs \<noteq> []" "1025 < length zs + card (pt_pages (mem t) d)"
  using assms ext_room [of d s t ys zs] by (auto simp: apart_def)

lemma shared_pageI:
  assumes "apart s pd d" "pte_loc (mem s) pd va = Some a"
    and x: "ext d (stmem a (ro (pte_val (mem s) pd va)) s) t ys zs"
    and v: "\<And>w. pte_val (mem t) d w = (if PGROUNDDOWN w = va then ro (pte_val (mem s) pd va)
        else pte_val (mem (stmem a (ro (pte_val (mem s) pd va)) s)) d w)"
    and "page_aligned va"
    and f: "f = tab (pte_val (mem s) pd va)" "f \<notin> pt_pages (mem t) pd \<union> pt_pages (mem t) d"
      "f \<notin> set ys"
  shows "shared_page s (set_rCount (V2P f) (rCount t (V2P f) + 1) t) pd d va ys"
proof -
  let ?s1 = "stmem a (ro (pte_val (mem s) pd va)) s"
  let ?t = "set_rCount (V2P f) (rCount t (V2P f) + 1) t"
  note sa = apart_stmem [OF assms(1,2), where v = "ro (pte_val (mem s) pd va)"]
  note o = ext_other [OF x sa(1)]
  have wf: "wf_pgdir s pd" using assms(1) by (simp add: apart_def)
  have af: "page_aligned f" by (simp add: f)
  have "wf_pgdir ?t pd" "wf_pgdir ?t d"
    using o(1) f af by (auto simp: apart_def intro: wf_pgdir_set_rCount)
  then have "apart ?t pd d" using o(1) by (simp add: apart_def)
  moreover have "same_config s ?t"
    using x by (simp add: ext_def same_config_def stmem_def)
  moreover have "pte_val (mem t) pd w =
      (if PGROUNDDOWN w = va then ro (pte_val (mem s) pd va) else pte_val (mem s) pd w)" for w
    using o(2) store_pte(3) [OF wf assms(2)] assms(5) by (simp add: stmem_def page_simps)
  moreover have "pte_val (mem t) d w =
      (if PGROUNDDOWN w = va then ro (pte_val (mem s) pd va) else pte_val (mem s) d w)" for w
    using v sa(2) by simp
  moreover have "pt_pages (mem t) pd = pt_pages (mem s) pd"
      "pt_pages (mem t) d = pt_pages (mem s) d \<union> set ys"
    using o(3) sa(3,4) x by (simp_all add: ext_def)
  moreover have "agree_on (- (pt_pages (mem t) pd \<union> pt_pages (mem t) d)) (mem t) (mem s)"
  proof (rule agree_on_trans)
    have "agree_on (- pt_pages (mem t) d) (mem t) (mem ?s1)" using x unfolding ext_def by blast
    then show "agree_on (- (pt_pages (mem t) pd \<union> pt_pages (mem t) d)) (mem t) (mem ?s1)"
      by (rule agree_on_subset) auto
    show "agree_on (- (pt_pages (mem t) pd \<union> pt_pages (mem t) d)) (mem ?s1) (mem s)"
      using sa(5) o(3) sa(4) by (auto intro: agree_on_subset)
  qed
  moreover have "rCount ?t (V2P g) = (if g \<in> set ys then 1 else rCount s (V2P g)) + (if g = f then 1 else 0)"
    if "page_aligned g" for g
  proof -
    have "rCount t (V2P h) = (if h \<in> set ys then 1 else rCount s (V2P h))" if "page_aligned h" for h
      using x that by (simp add: ext_def stmem_def rCount_def)
    then show ?thesis using that af f(3) by (simp add: rCount_def)
  qed
  ultimately show ?thesis by (simp add: shared_page_def f(1))
qed

lemma copy_page:
  assumes "\<not> klocked s" "free_list s xs" "apart s pd d" "page_aligned va" "va < sz"
    and "1025 < length xs + card (pt_pages (mem s) d)" "0x80000000 \<le> kend s"
    and e: "present (pte_val (mem s) pd va)" "\<not> present (pte_val (mem s) d va)"
    and f: "used s (tab (pte_val (mem s) pd va))"
      "tab (pte_val (mem s) pd va) \<notin> pt_pages (mem s) pd \<union> pt_pages (mem s) d"
  obtains t ys zs where
    "copyuvm_loop (Suc n) pd d va sz s = copyuvm_loop n pd d (va + PGSIZE) sz t"
    "xs = ys @ zs" "free_list t zs" "shared_page s t pd d va ys"
    "1025 < length zs + card (pt_pages (mem t) d)"
proof -
  let ?e = "pte_val (mem s) pd va"
  have wf: "wf_pgdir s pd" "wf_pgdir s d" using assms(3) by (simp_all add: apart_def)
  obtain a where a: "pte_loc (mem s) pd va = Some a"
    using e(1) by (cases "pte_loc (mem s) pd va") (simp_all add: pte_val_def)
  have la: "load32 (mem s) a = ?e" using a by (rule pte_val_loc)
  let ?s1 = "stmem a (ro ?e) s"
  note fa = pte_loc_facts [OF wf(1) a] and sa = apart_stmem [OF assms(3) a, where v = "ro ?e"]
  have l1: "load32 (mem ?s1) a = ro ?e" by (simp add: stmem_def)
  have fl1: "free_list ?s1 xs"
    using assms(2) fa wf_pgdir_used [OF wf(1) fa(2)] by (intro free_list_stmem)
  have c1: "same_config s ?s1" by (simp add: stmem_def same_config_def)
  have np: "\<not> present (pte_val (mem ?s1) d va)" using e(2) sa(2) by simp
  have wf1: "wf_pgdir ?s1 d" using sa(1) by (simp add: apart_def)
  have nl: "\<not> klocked ?s1" using assms(1) by (simp add: stmem_def)
  let ?pa = "PTE_ADDR ?e" and ?fl = "PTE_FLAGS (ro ?e)"
  have rb: "?pa OR ?fl OR PTE_P = ro ?e" using pte_rebuild [of "ro ?e"] e(1) by simp
  have room1: "1025 < length xs + card (pt_pages (mem ?s1) d)" using assms(6) sa(3) by simp
  from nl fl1 wf1 assms(4) np show thesis
  proof (cases rule: mappages_page [where pa = ?pa and perm = ?fl])
    case (out_of_memory t)
    then show ?thesis using card_room(1) [OF sa(1), of t xs "[]"] room1 by simp
  next
    case (mapped t ys zs)
    note o = ext_other [OF mapped(3) sa(1)]
    have fy: "tab ?e \<notin> set ys"
      using used_not_free [OF f(1) assms(2)] mapped(2) by simp
    have ft: "tab ?e \<notin> pt_pages (mem t) pd \<union> pt_pages (mem t) d"
      using f(2) o(3) sa(3,4) mapped(3) fy by (auto simp: ext_def)
    have ok: "page_ok (kend s) (tab ?e)" using f(1) by (simp add: used_def)
    have ct: "same_config ?s1 t" using mapped(3) by (simp add: ext_def)
    have V: "V2P (tab ?e) = ?pa" by (simp add: tab_def)
    let ?t = "set_rCount ?pa (rCount t ?pa + 1) t"
    have ir: "i_rCount ?pa t = Ok ((), ?t)"
      using bad_pa_page_ok [of t "tab ?e"] ok assms(1,7) c1 ct
      by (intro i_rCount_eq) (simp_all add: same_config_def V)
    show ?thesis
    proof
      show "copyuvm_loop (Suc n) pd d va sz s = copyuvm_loop n pd d (va + PGSIZE) sz ?t"
        using assms(5) e(1) fa(4) mapped(1) ir a la l1
        by (simp add: kern_simps walkpgdir_lookup Let_def present_def flip: ro_def)
      show "xs = ys @ zs" by (rule mapped(2))
      have "tab ?e \<notin> set zs" using used_not_free [OF f(1) assms(2)] mapped(2) by simp
      then show "free_list ?t zs"
        using ext_frees [OF mapped(3)] ok V free_list_shared [of t zs "tab ?e"] by auto
      show "1025 < length zs + card (pt_pages (mem ?t) d)"
        using card_room(2) [OF sa(1) mapped(3)] room1 mapped(2) by simp
      show "shared_page s ?t pd d va ys"
        using shared_pageI [OF assms(3) a mapped(3) _ assms(4)] mapped(4) rb ft fy by (simp add: V)
    qed
  qed
qed

section \<open>The loop of copyuvm\<close>

definition upage :: "nat \<Rightarrow> u32" where
  "upage k = of_nat (4096 * k)"

definition uframe :: "memory \<Rightarrow> u32 \<Rightarrow> nat \<Rightarrow> u32" where
  "uframe m pd k = tab (pte_val m pd (upage k))"

lemma unat_upage: "k \<le> 0x80000 \<Longrightarrow> unat (upage k) = 4096 * k"
proof -
  assume k: "k \<le> 0x80000"
  have "unat (upage k) = 4096 * k mod 2 ^ LENGTH(32)"
    unfolding upage_def by (rule unat_of_nat)
  also have "\<dots> = 4096 * k" using k by simp
  finally show ?thesis .
qed

lemma upage_aligned [simp]: "k \<le> 0x80000 \<Longrightarrow> page_aligned (upage k)"
  by (simp add: page_aligned_unat unat_upage)

lemma upage_Suc: "upage (Suc k) = upage k + PGSIZE"
  by (simp add: upage_def PGSIZE_def add.commute)

lemma upage_iff:
  assumes "k \<le> 0x80000" shows "PGROUNDDOWN va = upage k \<longleftrightarrow> unat va div 4096 = k"
  using unat_upage [OF assms] by (simp add: word_unat_eq_iff unat_PGROUNDDOWN)

definition shared_range ::
  "kstate \<Rightarrow> kstate \<Rightarrow> u32 \<Rightarrow> u32 \<Rightarrow> nat \<Rightarrow> nat \<Rightarrow> u32 list \<Rightarrow> bool" where
  "shared_range s t pd d k n ys \<longleftrightarrow> same_config s t \<and> apart t pd d \<and>
     (\<forall>w. pte_val (mem t) pd w = (if k \<le> unat w div 4096 \<and> unat w div 4096 < n
        then ro (pte_val (mem s) pd w) else pte_val (mem s) pd w)) \<and>
     (\<forall>w. pte_val (mem t) d w = (if k \<le> unat w div 4096 \<and> unat w div 4096 < n
        then ro (pte_val (mem s) pd w) else pte_val (mem s) d w)) \<and>
     pt_pages (mem t) pd = pt_pages (mem s) pd \<and>
     pt_pages (mem t) d = pt_pages (mem s) d \<union> set ys \<and>
     agree_on (- (pt_pages (mem t) pd \<union> pt_pages (mem t) d)) (mem t) (mem s) \<and>
     (\<forall>g. page_aligned g \<longrightarrow> rCount t (V2P g) =
        (if g \<in> set ys then 1 else rCount s (V2P g)) +
        of_nat (card {j. k \<le> j \<and> j < n \<and> uframe (mem s) pd j = g}))"

lemma shared_range_refl: "apart s pd d \<Longrightarrow> shared_range s s pd d n n []"
proof -
  assume a: "apart s pd d"
  have none: "{j. n \<le> j \<and> j < n \<and> uframe (mem s) pd j = g} = {}" for g by auto
  have never: "n \<le> i \<and> i < n \<longleftrightarrow> False" for i by auto
  show ?thesis unfolding shared_range_def none never using a by simp
qed

lemma upage_of: "k < 0x80000 \<Longrightarrow> PGROUNDDOWN w = upage k \<longleftrightarrow> unat w div 4096 = k"
  by (intro upage_iff) simp

text \<open>The entries after one shared page.\<close>

lemma shared_page_vals:
  assumes "shared_page s s1 pd d (upage k) ys" "k < 0x80000"
  shows "pte_val (mem s1) pd w = (if unat w div 4096 = k then ro (pte_val (mem s) pd w) else pte_val (mem s) pd w)"
    "pte_val (mem s1) d w = (if unat w div 4096 = k then ro (pte_val (mem s) pd w) else pte_val (mem s) d w)"
    "uframe (mem s1) pd j = uframe (mem s) pd j"
proof -
  have same: "pte_val m pd (upage k) = pte_val m pd w" if "unat w div 4096 = k" for m w
  proof (rule pte_val_same_page)
    have "PGROUNDDOWN w = upage k" using upage_of [OF assms(2)] that by simp
    then show "PGROUNDDOWN (upage k) = PGROUNDDOWN w" using PGROUNDDOWN_idem [of w] by simp
  qed
  have v: "pte_val (mem s1) pd w = (if unat w div 4096 = k then ro (pte_val (mem s) pd w) else pte_val (mem s) pd w)"
    "pte_val (mem s1) d w = (if unat w div 4096 = k then ro (pte_val (mem s) pd w) else pte_val (mem s) d w)" for w
    using assms(1) same [of w "mem s"] by (simp_all add: shared_page_def upage_of [OF assms(2)])
  show "pte_val (mem s1) pd w = (if unat w div 4096 = k then ro (pte_val (mem s) pd w) else pte_val (mem s) pd w)"
    "pte_val (mem s1) d w = (if unat w div 4096 = k then ro (pte_val (mem s) pd w) else pte_val (mem s) d w)" by (rule v)+
  show "uframe (mem s1) pd j = uframe (mem s) pd j" using v(1) [of "upage j"] by (simp add: uframe_def)
qed

lemma frame_card:
  assumes "k < n"
  shows "card {j. k \<le> j \<and> j < n \<and> f j = g} = card {j. Suc k \<le> j \<and> j < n \<and> f j = g} + (if g = f k then 1 else 0)"
proof -
  have "{j. k \<le> j \<and> j < n \<and> f j = g} = (if g = f k then insert k else id) {j. Suc k \<le> j \<and> j < n \<and> f j = g}"
    using assms by (auto simp: le_Suc_eq dest: le_neq_implies_less)
  then show ?thesis by simp
qed

text \<open>The counts after one page and the pages behind it.\<close>

lemma shared_range_counts:
  assumes p: "shared_page s s1 pd d (upage k) ys" and r: "shared_range s1 t pd d (Suc k) n zs"
    and k: "k < n" "n \<le> 0x80000" and dist: "set ys \<inter> set zs = {}" and fr: "uframe (mem s) pd k \<notin> set zs" and g: "page_aligned g"
  shows "rCount t (V2P g) = (if g \<in> set (ys @ zs) then 1 else rCount s (V2P g)) + of_nat (card {j. k \<le> j \<and> j < n \<and> uframe (mem s) pd j = g})"
proof -
  have "k < 0x80000" using k by simp
  note frames = shared_page_vals(3) [OF p this]
  have "rCount s1 (V2P g) = (if g \<in> set ys then 1 else rCount s (V2P g)) + (if g = uframe (mem s) pd k then 1 else 0)"
    using p g by (simp add: shared_page_def uframe_def)
  moreover have "rCount t (V2P g) = (if g \<in> set zs then 1 else rCount s1 (V2P g)) +
      of_nat (card {j. Suc k \<le> j \<and> j < n \<and> uframe (mem s) pd j = g})"
    using r g by (simp add: shared_range_def frames)
  moreover have "g \<in> set zs \<Longrightarrow> g \<notin> set ys \<and> g \<noteq> uframe (mem s) pd k" using dist fr by auto
  ultimately show ?thesis unfolding frame_card [OF k(1)] by (cases "g \<in> set zs") simp_all
qed

lemma shared_range_step:
  assumes p: "shared_page s s1 pd d (upage k) ys" and r: "shared_range s1 t pd d (Suc k) n zs"
    and k: "k < n" "n \<le> 0x80000" and dist: "set ys \<inter> set zs = {}"
    and fr: "uframe (mem s) pd k \<notin> set zs"
  shows "shared_range s t pd d k n (ys @ zs)"
proof -
  have "k < 0x80000" using k by simp
  note v = shared_page_vals [OF p this]
  have "agree_on (- (pt_pages (mem t) pd \<union> pt_pages (mem t) d)) (mem t) (mem s)"
  proof (rule agree_on_trans)
    show "agree_on (- (pt_pages (mem t) pd \<union> pt_pages (mem t) d)) (mem t) (mem s1)"
      using r unfolding shared_range_def by blast
    have "agree_on (- (pt_pages (mem s1) pd \<union> pt_pages (mem s1) d)) (mem s1) (mem s)"
      using p unfolding shared_page_def by blast
    moreover have "- (pt_pages (mem t) pd \<union> pt_pages (mem t) d) \<subseteq>
        - (pt_pages (mem s1) pd \<union> pt_pages (mem s1) d)"
      using r by (simp add: shared_range_def) blast
    ultimately show "agree_on (- (pt_pages (mem t) pd \<union> pt_pages (mem t) d)) (mem s1) (mem s)"
      by (rule agree_on_subset)
  qed
  moreover have "pte_val (mem t) pd w = (if k \<le> unat w div 4096 \<and> unat w div 4096 < n then ro (pte_val (mem s) pd w) else pte_val (mem s) pd w)"
    "pte_val (mem t) d w = (if k \<le> unat w div 4096 \<and> unat w div 4096 < n then ro (pte_val (mem s) pd w) else pte_val (mem s) d w)" for w
  proof -
    have "pte_val (mem t) pd w = (if Suc k \<le> unat w div 4096 \<and> unat w div 4096 < n then ro (pte_val (mem s1) pd w) else pte_val (mem s1) pd w)"
      "pte_val (mem t) d w = (if Suc k \<le> unat w div 4096 \<and> unat w div 4096 < n then ro (pte_val (mem s1) pd w) else pte_val (mem s1) d w)"
      using r unfolding shared_range_def by blast+
    then show "pte_val (mem t) pd w = (if k \<le> unat w div 4096 \<and> unat w div 4096 < n then ro (pte_val (mem s) pd w) else pte_val (mem s) pd w)"
      "pte_val (mem t) d w = (if k \<le> unat w div 4096 \<and> unat w div 4096 < n then ro (pte_val (mem s) pd w) else pte_val (mem s) d w)"
      using k(1) v(1,2) [of w] by (cases "unat w div 4096 = k"; auto)+
  qed
  moreover have "same_config s t"
    using p r unfolding shared_range_def shared_page_def by (blast intro: same_config_trans)
  moreover have "apart t pd d" "pt_pages (mem t) pd = pt_pages (mem s) pd"
      "pt_pages (mem t) d = pt_pages (mem s) d \<union> set (ys @ zs)"
    using p r by (simp_all add: shared_range_def shared_page_def Un_assoc)
  ultimately show ?thesis using shared_range_counts [OF assms] unfolding shared_range_def by blast
qed

text \<open>
  What the pages \<open>k, \<dots>, n - 1\<close> of the parent have to be: present, backed by pages in use that
  are not page tables, with reference counts that do not overflow; and free in the child.
\<close>

definition sharable :: "kstate \<Rightarrow> u32 \<Rightarrow> u32 \<Rightarrow> nat \<Rightarrow> nat \<Rightarrow> bool" where
  "sharable s pd d k n \<longleftrightarrow> (\<forall>j. k \<le> j \<and> j < n \<longrightarrow>
     present (pte_val (mem s) pd (upage j)) \<and> \<not> present (pte_val (mem s) d (upage j)) \<and>
     used s (uframe (mem s) pd j) \<and>
     uframe (mem s) pd j \<notin> pt_pages (mem s) pd \<union> pt_pages (mem s) d \<and>
     unat (rCount s (V2P (uframe (mem s) pd j))) + (n - k) < 2 ^ 32)"

lemma sharable_step:
  assumes sh: "sharable s pd d k n" and p: "shared_page s t pd d (upage k) ys"
    and fl: "free_list s (ys @ zs)" and k: "k < n" "n \<le> 0x80000"
  shows "sharable t pd d (Suc k) n"
  unfolding sharable_def
proof (intro allI impI)
  fix j assume j: "Suc k \<le> j \<and> j < n"
  then have sj: "present (pte_val (mem s) pd (upage j))" "\<not> present (pte_val (mem s) d (upage j))"
    and u: "used s (uframe (mem s) pd j)"
    and nt: "uframe (mem s) pd j \<notin> pt_pages (mem s) pd \<union> pt_pages (mem s) d"
    and bd: "unat (rCount s (V2P (uframe (mem s) pd j))) + (n - k) < 2 ^ 32"
    using sh by (auto simp: sharable_def)
  let ?g = "uframe (mem s) pd j"
  have ne: "PGROUNDDOWN (upage j) \<noteq> upage k"
    using upage_iff [of k "upage j"] unat_upage [of j] j k by simp
  have v: "pte_val (mem t) pd (upage j) = pte_val (mem s) pd (upage j)"
    "pte_val (mem t) d (upage j) = pte_val (mem s) d (upage j)"
    using p ne by (simp_all add: shared_page_def)
  have g: "uframe (mem t) pd j = ?g" by (simp add: uframe_def v)
  have gy: "?g \<notin> set ys" using used_not_free [OF u fl] by simp
  have al: "page_aligned ?g" by (simp add: uframe_def)
  let ?c = "rCount s (V2P ?g)"
  have rc: "rCount t (V2P ?g) = ?c + (if ?g = tab (pte_val (mem s) pd (upage k)) then 1 else 0)"
    using p al gy by (simp add: shared_page_def)
  have u1: "unat (?c + 1) = unat ?c + 1"
  proof -
    have "unat ?c + 1 < 2 ^ 32" using bd j by linarith
    then show ?thesis by (simp add: unat_word_ariths)
  qed
  have "unat ?c \<noteq> 0" using u by (simp add: used_def unat_eq_0)
  then have "rCount t (V2P ?g) \<noteq> 0" "unat (rCount t (V2P ?g)) \<le> unat ?c + 1"
    using rc u1 by (auto simp: unat_eq_0 [symmetric] simp del: unat_eq_0 split: if_splits)
  moreover have "page_ok (kend t) ?g"
    using u p by (simp add: used_def shared_page_def same_config_def)
  ultimately show "present (pte_val (mem t) pd (upage j)) \<and> \<not> present (pte_val (mem t) d (upage j)) \<and>
     used t (uframe (mem t) pd j) \<and>
     uframe (mem t) pd j \<notin> pt_pages (mem t) pd \<union> pt_pages (mem t) d \<and>
     unat (rCount t (V2P (uframe (mem t) pd j))) + (n - Suc k) < 2 ^ 32"
    using sj v g nt gy bd j p by (simp add: used_def shared_page_def)
qed

lemma copyuvm_loop_done:
  "\<not> i < sz \<Longrightarrow> copyuvm_loop fuel pd d i sz s = Ok (d, s\<lparr>cr3 := V2P pd\<rparr>)"
  by (cases fuel) (simp_all add: kern_simps lcr3_def)

lemma copyuvm_loop_ok:
  assumes "\<not> klocked s" "free_list s xs" "apart s pd d" "0x80000000 \<le> kend s"
    and "1025 < length xs + card (pt_pages (mem s) d)"
    and "k \<le> n" "n \<le> 0x80000" "n - k \<le> fuel" "sharable s pd d k n"
    and sz: "\<And>j. j \<le> n \<Longrightarrow> upage j < sz \<longleftrightarrow> j < n"
  shows "\<exists>t ys zs. copyuvm_loop fuel pd d (upage k) sz s = Ok (d, t\<lparr>cr3 := V2P pd\<rparr>) \<and>
    xs = ys @ zs \<and> free_list t zs \<and> shared_range s t pd d k n ys"
  using assms(1-9)
proof (induction fuel arbitrary: s xs k)
  case 0
  then have "k = n" "\<not> upage n < sz" using sz [of n] by simp_all
  then show ?case
    using copyuvm_loop_done [of "upage n" sz 0] 0(2) shared_range_refl [OF 0(3)]
    by (intro exI [of _ s] exI [of _ "[]"] exI [of _ xs]) (simp only: append_Nil simp_thms)
next
  case (Suc fuel)
  show ?case
  proof (cases "k = n")
    case True
    have "\<not> upage n < sz" using sz [of n] by simp
    then show ?thesis
      using True copyuvm_loop_done [of "upage n" sz "Suc fuel"] Suc.prems(2) shared_range_refl [OF Suc.prems(3)]
      by (intro exI [of _ s] exI [of _ "[]"] exI [of _ xs]) (simp only: append_Nil simp_thms)
  next
    case False
    then have k: "k < n" using Suc.prems(6) by simp
    have pg: "present (pte_val (mem s) pd (upage k))" "\<not> present (pte_val (mem s) d (upage k))"
      "used s (tab (pte_val (mem s) pd (upage k)))"
      "tab (pte_val (mem s) pd (upage k)) \<notin> pt_pages (mem s) pd \<union> pt_pages (mem s) d"
      using Suc.prems(9) k by (auto simp: sharable_def uframe_def)
    have "page_aligned (upage k)" "upage k < sz" using k Suc.prems(7) sz [of k] by simp_all
    then obtain s1 ys zs where st: "copyuvm_loop (Suc fuel) pd d (upage k) sz s =
        copyuvm_loop fuel pd d (upage k + PGSIZE) sz s1" "xs = ys @ zs" "free_list s1 zs"
      "shared_page s s1 pd d (upage k) ys" "1025 < length zs + card (pt_pages (mem s1) d)"
      using copy_page [OF Suc.prems(1-3) _ _ Suc.prems(5,4) pg, where n = fuel] by metis
    have c: "same_config s s1" "apart s1 pd d" using st(4) by (simp_all add: shared_page_def)
    have sh1: "sharable s1 pd d (Suc k) n"
      using sharable_step [OF Suc.prems(9) st(4) _ k Suc.prems(7)] Suc.prems(2) st(2) by simp
    have "\<exists>t us vs. copyuvm_loop fuel pd d (upage (Suc k)) sz s1 = Ok (d, t\<lparr>cr3 := V2P pd\<rparr>) \<and>
      zs = us @ vs \<and> free_list t vs \<and> shared_range s1 t pd d (Suc k) n us"
    proof (rule Suc.IH [OF _ st(3) c(2) _ st(5) _ Suc.prems(7) _ sh1])
      show "\<not> klocked s1" "0x80000000 \<le> kend s1"
        using Suc.prems(1,4) c(1) by (simp_all only: same_config_def simp_thms)
    qed (use k Suc.prems(8) in linarith)+
    then obtain t us vs where t: "copyuvm_loop fuel pd d (upage (Suc k)) sz s1 = Ok (d, t\<lparr>cr3 := V2P pd\<rparr>)"
      "zs = us @ vs" "free_list t vs" "shared_range s1 t pd d (Suc k) n us" by blast
    have "distinct xs" using Suc.prems(2) by (simp add: free_list_def)
    then have dj: "set ys \<inter> set us = {}" using st(2) t(2) by auto
    have nf: "uframe (mem s) pd k \<notin> set us"
      using used_not_free [OF pg(3) Suc.prems(2)] st(2) t(2) by (simp add: uframe_def)
    have "shared_range s t pd d k n (ys @ us)"
      by (rule shared_range_step [OF st(4) t(4) k Suc.prems(7) dj nf])
    then show ?thesis
      using st(1,2) t(1-3)
      by (intro exI [of _ t] exI [of _ "ys @ us"] exI [of _ vs]) (simp only: upage_Suc append_assoc simp_thms)
  qed
qed

section \<open>What a process sees\<close>

text \<open>
  The memory of a process as the processor presents it: the byte at a user address, through
  the page table.
\<close>

definition uread :: "memory \<Rightarrow> u32 \<Rightarrow> u32 \<Rightarrow> u8" where
  "uread m pd va = m (tab (pte_val m pd va) + (va AND 0xFFF))"

definition upages :: "u32 \<Rightarrow> nat" where
  "upages sz = (unat sz + 4095) div 4096"

lemma upages_iff: "j < upages sz \<longleftrightarrow> 4096 * j < unat sz"
proof -
  have "j < upages sz \<longleftrightarrow> Suc j * 4096 \<le> unat sz + 4095"
    unfolding upages_def using less_eq_div_iff_mult_less_eq [of 4096 "Suc j" "unat sz + 4095"] by (simp add: Suc_le_eq)
  then show ?thesis by auto
qed

lemma upages_page: "va < sz \<Longrightarrow> unat va div 4096 < upages sz"
  unfolding upages_iff word_less_nat_alt by (metis le_less_trans times_div_less_eq_dividend)

text \<open>
  \<open>user_space s pd sz\<close>: every page below \<open>sz\<close> is present and backed by a page in use that is not one of
  the page tables.
\<close>

definition user_space :: "kstate \<Rightarrow> u32 \<Rightarrow> u32 \<Rightarrow> bool" where
  "user_space s pd sz \<longleftrightarrow> wf_pgdir s pd \<and> sz \<le> KERNBASE \<and> (\<forall>j < upages sz.
     present (pte_val (mem s) pd (upage j)) \<and> used s (uframe (mem s) pd j) \<and>
     uframe (mem s) pd j \<notin> pt_pages (mem s) pd)"

definition counts_below :: "kstate \<Rightarrow> u32 \<Rightarrow> u32 \<Rightarrow> bool" where
  "counts_below s pd sz \<longleftrightarrow> (\<forall>j < upages sz.
     unat (rCount s (V2P (uframe (mem s) pd j))) + upages sz < 2 ^ 32)"

lemma new_space_apart:
  assumes n: "new_space s t d ps" and fl: "free_list s (ps @ zs)" and wf: "wf_pgdir s pd"
  shows "apart t pd d" "pte_val (mem t) pd va = pte_val (mem s) pd va"
    and "pt_pages (mem t) pd = pt_pages (mem s) pd"
proof -
  have out: "pt_pages (mem s) pd \<inter> set ps = {}"
    using used_not_free [OF _ fl] wf_pgdir_used [OF wf] by auto
  have ag: "agree_on (pt_pages (mem s) pd) (mem s) (mem t)"
    using n out by (auto simp: new_space_def intro: agree_on_sym agree_on_subset)
  have al: "page_aligned pd" using wf by (rule wf_pgdir_aligned)
  show "pte_val (mem t) pd va = pte_val (mem s) pd va"
    using pte_val_agree [OF ag _ al] by simp
  show p: "pt_pages (mem t) pd = pt_pages (mem s) pd"
    using pt_pages_agree [OF ag _ al] by simp
  have "rCount t (V2P f) \<noteq> 0" if "f \<in> pt_pages (mem s) pd" for f
    using n that out wf_pgdir_used [OF wf that] by (auto simp: new_space_def used_def)
  then have "wf_pgdir t pd"
    using n by (intro wf_pgdir_agree [OF wf ag]) (simp_all add: new_space_def same_config_def)
  then show "apart t pd d" using n p out by (simp add: apart_def new_space_def)
qed

lemma new_space_sharable:
  assumes n: "new_space s t d ps" and fl: "free_list s (ps @ zs)"
    and us: "user_space s pd sz" and cb: "counts_below s pd sz"
  shows "sharable t pd d 0 (upages sz)"
  unfolding sharable_def
proof (intro allI impI)
  fix j assume j: "0 \<le> j \<and> j < upages sz"
  have wf: "wf_pgdir s pd" using us by (simp add: user_space_def)
  note a = new_space_apart [OF n fl wf]
  have g: "uframe (mem t) pd j = uframe (mem s) pd j" by (simp add: uframe_def a(2))
  let ?g = "uframe (mem s) pd j"
  have u: "used s ?g" "?g \<notin> pt_pages (mem s) pd" "present (pte_val (mem s) pd (upage j))"
    using us j by (auto simp: user_space_def)
  have gp: "?g \<notin> set ps" using used_not_free [OF u(1) fl] by simp
  have rc: "rCount t (V2P ?g) = rCount s (V2P ?g)"
    using n gp by (simp add: new_space_def uframe_def)
  have "4096 * j < 0x80000000"
    using j us by (simp add: upages_iff user_space_def KERNBASE_def word_le_nat_alt)
  then have "pte_val (mem t) d (upage j) = 0"
    using n unat_upage [of j] by (simp add: new_space_def)
  then show "present (pte_val (mem t) pd (upage j)) \<and> \<not> present (pte_val (mem t) d (upage j)) \<and>
     used t (uframe (mem t) pd j) \<and>
     uframe (mem t) pd j \<notin> pt_pages (mem t) pd \<union> pt_pages (mem t) d \<and>
     unat (rCount t (V2P (uframe (mem t) pd j))) + (upages sz - 0) < 2 ^ 32"
    using u gp rc n cb j unfolding g a(2,3)
    by (simp add: used_def new_space_def same_config_def counts_below_def)
qed

text \<open>
  The result of a successful fork of the memory: \<open>d\<close> is the child's directory, \<open>ps\<close> the pages
  taken for it.
\<close>

definition forked :: "kstate \<Rightarrow> kstate \<Rightarrow> u32 \<Rightarrow> u32 \<Rightarrow> u32 \<Rightarrow> u32 list \<Rightarrow> bool" where
  "forked s t pd d sz ps \<longleftrightarrow> apart t pd d \<and> pt_pages (mem t) d = set ps \<and>
     pt_pages (mem t) pd = pt_pages (mem s) pd \<and>
     (\<forall>w. unat w div 4096 < upages sz \<longrightarrow> pte_val (mem t) pd w = ro (pte_val (mem s) pd w) \<and>
        pte_val (mem t) d w = ro (pte_val (mem s) pd w)) \<and>
     (\<forall>w. upages sz \<le> unat w div 4096 \<longrightarrow> pte_val (mem t) pd w = pte_val (mem s) pd w) \<and>
     (\<forall>w. upages sz \<le> unat w div 4096 \<and> unat w < 0x80000000 \<longrightarrow> pte_val (mem t) d w = 0) \<and>
     agree_on (- (pt_pages (mem s) pd \<union> set ps)) (mem t) (mem s) \<and>
     (\<forall>g. page_aligned g \<longrightarrow> rCount t (V2P g) =
        (if g \<in> set ps then 1 else rCount s (V2P g)) +
        of_nat (card {j. j < upages sz \<and> uframe (mem s) pd j = g}))"

lemma forkedI:
  assumes n: "new_space s s1 d ps" and fl: "free_list s (ps @ zs @ vs)" and wf: "wf_pgdir s pd"
    and r: "shared_range s1 t pd d 0 (upages sz) zs"
  shows "forked s t pd d sz (ps @ zs)"
proof -
  note a = new_space_apart [OF n fl wf]
  have r2: "apart t pd d" "pt_pages (mem t) pd = pt_pages (mem s) pd"
    "pt_pages (mem t) d = set (ps @ zs)"
    using r n a(3) by (simp_all add: shared_range_def new_space_def)
  have vp: "pte_val (mem t) pd w = (if unat w div 4096 < upages sz
        then ro (pte_val (mem s) pd w) else pte_val (mem s) pd w)" for w
    using r by (simp add: shared_range_def a(2))
  have vd: "pte_val (mem t) d w = (if unat w div 4096 < upages sz
        then ro (pte_val (mem s) pd w) else pte_val (mem s1) d w)" for w
    using r by (simp add: shared_range_def a(2))
  have v0: "pte_val (mem s1) d w = 0" if "unat w < 0x80000000" for w
    using n that by (simp add: new_space_def)
  have "agree_on (- (pt_pages (mem s) pd \<union> set (ps @ zs))) (mem t) (mem s)"
  proof (rule agree_on_trans)
    show "agree_on (- (pt_pages (mem s) pd \<union> set (ps @ zs))) (mem t) (mem s1)"
    proof -
      have "agree_on (- (pt_pages (mem t) pd \<union> pt_pages (mem t) d)) (mem t) (mem s1)"
        using r unfolding shared_range_def by blast
      then show ?thesis by (simp only: r2)
    qed
    have "agree_on (- set ps) (mem s1) (mem s)" using n unfolding new_space_def by blast
    then show "agree_on (- (pt_pages (mem s) pd \<union> set (ps @ zs))) (mem s1) (mem s)"
      by (rule agree_on_subset) auto
  qed
  moreover have "rCount t (V2P g) = (if g \<in> set (ps @ zs) then 1 else rCount s (V2P g)) +
        of_nat (card {j. j < upages sz \<and> uframe (mem s) pd j = g})" if "page_aligned g" for g
  proof -
    have "uframe (mem s1) pd = uframe (mem s) pd" by (rule ext) (simp add: uframe_def a(2))
    then have "rCount t (V2P g) = (if g \<in> set zs then 1 else rCount s1 (V2P g)) +
        of_nat (card {j. j < upages sz \<and> uframe (mem s) pd j = g})"
      using r that by (simp add: shared_range_def)
    then show ?thesis using n that by (simp add: new_space_def)
  qed
  ultimately show ?thesis
    unfolding forked_def using r2 vp vd v0 by (simp add: not_less [symmetric])
qed

theorem copyuvm_ok:
  assumes "\<not> klocked s" "free_list s xs" "1025 < length xs" "kernel_layout (kdata s)"
    and "0x80000000 \<le> kend s" "user_space s pd sz" "counts_below s pd sz"
  obtains d t ps zs where "copyuvm pd sz s = Ok (d, t\<lparr>cr3 := V2P pd\<rparr>)" "d \<noteq> 0" "xs = ps @ zs"
    "free_list t zs" "forked s t pd d sz ps" "same_config s t"
proof -
  obtain d s1 ps zs where k: "setupkvm s = Ok (d, s1)" "d \<noteq> 0" "xs = ps @ zs" "d \<in> set ps"
    "free_list s1 zs" "new_space s s1 d ps" "length ps \<le> 1025"
    using assms(1-4) by (rule setupkvm_ok)
  have wf: "wf_pgdir s pd" and sz: "unat sz \<le> 0x80000000"
    using assms(6) by (simp_all add: user_space_def KERNBASE_def word_le_nat_alt)
  have fl: "free_list s (ps @ zs)" using assms(2) k(3) by simp
  have c: "same_config s s1" using k(6) by (simp add: new_space_def)
  have dp: "distinct ps" using fl by (simp add: free_list_def)
  have u: "upages sz \<le> 0x80000" using sz by (simp add: upages_def)
  have "\<exists>t ys vs. copyuvm_loop (Suc (unat sz div 4096)) pd d (upage 0) sz s1 = Ok (d, t\<lparr>cr3 := V2P pd\<rparr>) \<and>
      zs = ys @ vs \<and> free_list t vs \<and> shared_range s1 t pd d 0 (upages sz) ys"
  proof (rule copyuvm_loop_ok [OF _ k(5) new_space_apart(1) [OF k(6) fl wf] _ _ _ u _
        new_space_sharable [OF k(6) fl assms(6,7)]])
    show "\<not> klocked s1" "0x80000000 \<le> kend s1"
      using assms(1,5) c by (simp_all add: same_config_def)
    have "card (pt_pages (mem s1) d) = length ps"
      using k(6) dp by (simp add: new_space_def distinct_card)
    then show "1025 < length zs + card (pt_pages (mem s1) d)" using assms(3) k(3) by simp
    show "upages sz - 0 \<le> Suc (unat sz div 4096)" by (simp add: upages_def)
    show "upage j < sz \<longleftrightarrow> j < upages sz" if "j \<le> upages sz" for j
      using that u unat_upage [of j] by (simp add: upages_iff word_less_nat_alt)
  qed simp
  then obtain t ys vs where t: "copyuvm_loop (Suc (unat sz div 4096)) pd d (upage 0) sz s1 =
      Ok (d, t\<lparr>cr3 := V2P pd\<rparr>)" "zs = ys @ vs" "free_list t vs" "shared_range s1 t pd d 0 (upages sz) ys"
    by blast
  have "upage 0 = 0" by (simp add: upage_def)
  then have "copyuvm pd sz s = Ok (d, t\<lparr>cr3 := V2P pd\<rparr>)"
    using k(1,2) t(1) by (simp add: copyuvm_def kern_simps del: copyuvm_loop.simps)
  moreover have "forked s t pd d sz (ps @ ys)"
    using fl t(2) by (intro forkedI [OF k(6) _ wf t(4), of vs]) simp
  moreover have "same_config s t"
    using c t(4) by (auto simp: shared_range_def intro: same_config_trans)
  ultimately show thesis
    using that [of d t "ps @ ys" vs] k(2,3) t(2,3) by simp
qed

end
