(* ===== verification/Cow_Example.thy ===== *)
theory Cow_Example
  imports Cow
begin

unbundle bit_operations_syntax

text \<open>
  A concrete machine state of the copy-on-write kernel: a free list of any length, and a process with one
  user page at address 0.  It shows that the hypotheses of the theorems on fork and on
  page faults hold together.
\<close>

section \<open>A free list in memory\<close>

primrec chain :: "memory \<Rightarrow> u32 list \<Rightarrow> memory" where
  "chain m [] = m"
| "chain m (x # xs) = store32 (chain m xs) x (case xs of [] \<Rightarrow> 0 | y # _ \<Rightarrow> y)"

lemma chain_agree:
  "\<forall>x \<in> set xs. page_aligned x \<Longrightarrow> set xs \<inter> F = {} \<Longrightarrow> agree_on F (chain m xs) m"
proof (induction xs)
  case Nil
  then show ?case by simp
next
  case (Cons x xs)
  have "agree_on F (chain m (x # xs)) (chain m xs)"
    using Cons.prems by (auto simp: page_simps intro!: agree_on_store32 page_aligned_word_aligned)
  with Cons show ?case by (auto intro: agree_on_trans)
qed

lemma flist_chain:
  assumes "\<forall>x \<in> set xs. page_aligned x \<and> x \<noteq> 0" "distinct xs"
  shows "flist (chain m xs) (case xs of [] \<Rightarrow> 0 | y # _ \<Rightarrow> y) xs"
  using assms
proof (induction xs)
  case Nil
  then show ?case by simp
next
  case (Cons x xs)
  have "agree_on (- {x}) (chain m (x # xs)) (chain m xs)"
    using Cons.prems by (auto simp: page_simps intro!: agree_on_store32 page_aligned_word_aligned)
  then have "flist (chain m (x # xs)) p xs \<longleftrightarrow> flist (chain m xs) p xs" for p
    using Cons.prems by (intro flist_agree [of "- {x}"]) auto
  with Cons show ?case by simp
qed

lemma page_seq_unat:
  assumes "x \<in> set (page_seq p n)" "unat p + 4096 * n \<le> 2 ^ 32"
  shows "\<exists>i < n. unat x = unat p + 4096 * i"
proof -
  obtain i where i: "i < n" "x = p + of_nat (4096 * i)" using assms(1) by (auto simp: page_seq_def)
  have "unat p + 4096 * i < 2 ^ 32" using i(1) assms(2) by linarith
  then have "unat x = unat p + 4096 * i"
    unfolding i(2) by (simp add: unat_word_ariths unat_of_nat)
  then show ?thesis using i(1) by blast
qed

lemma page_seq_distinct:
  assumes "unat p + 4096 * n \<le> 2 ^ 32" shows "distinct (page_seq p n)"
proof -
  have "inj_on (\<lambda>i. p + of_nat (4096 * i) :: u32) {0 ..< n}"
  proof (rule inj_onI)
    fix i j assume ij: "i \<in> {0 ..< n}" "j \<in> {0 ..< n}" "p + of_nat (4096 * i) = p + (of_nat (4096 * j) :: u32)"
    have "unat (of_nat (4096 * i) :: u32) = 4096 * i" "unat (of_nat (4096 * j) :: u32) = 4096 * j"
      using assms ij(1,2) by (simp_all only: unat_of_nat) (simp_all add: take_bit_nat_eq_self)
    moreover have "of_nat (4096 * i) = (of_nat (4096 * j) :: u32)"
      using ij(3) by (rule add_left_imp_eq)
    ultimately show "i = j" by (metis mult_cancel1 zero_neq_numeral)
  qed
  then show ?thesis by (simp only: page_seq_def distinct_map) simp
qed

section \<open>A process with one page\<close>

definition exPD :: u32 where "exPD = 0x80300000"
definition exPT :: u32 where "exPT = 0x80301000"
definition exUP :: u32 where "exUP = 0x80302000"

lemmas ex_addrs = exPD_def exPT_def exUP_def

text \<open>The entry flags are \<open>PTE_P | PTE_W | PTE_U\<close>.\<close>

definition exmem0 :: memory where
  "exmem0 = store32 (store32 (\<lambda>_. 0) exPD 0x00301007) exPT 0x00302007"

definition exfree :: "nat \<Rightarrow> u32 list" where
  "exfree n = page_seq 0x80400000 n"

definition exst :: "nat \<Rightarrow> kstate" where
  "exst n = \<lparr>mem = chain exmem0 (exfree n), kend = 0x80200000, klocked = False, use_lock = True,
     free_pages = of_nat n, freelist = (if n = 0 then 0 else 0x80400000),
     page_rCount = (\<lambda>i. if i = 0x300 \<or> i = 0x301 \<or> i = 0x302 then 1 else 0),
     kdata = 0x80108000, kpgdir = 0, cr3 = 0\<rparr>"

lemma ex_aligned [simp]: "page_aligned exPD" "page_aligned exPT" "page_aligned exUP"
  by (simp_all add: page_aligned_unat ex_addrs)

lemma exfree_facts:
  assumes "n \<le> 10000" "x \<in> set (exfree n)"
  shows "page_aligned x" "0x80400000 \<le> unat x" "unat x < 0x8E000000"
proof -
  obtain i where i: "i < n" "unat x = 0x80400000 + 4096 * i"
    using page_seq_unat [of x "0x80400000" n] assms by (auto simp: exfree_def)
  then show "0x80400000 \<le> unat x" "unat x < 0x8E000000" using assms(1) by simp_all
  have "unat x = 4096 * (0x80400 + i)" using i(2) by simp
  then show "page_aligned x" unfolding page_aligned_unat by (metis mod_mult_self1_is_0)
qed

lemma exst_pages:
  assumes "n \<le> 10000" "f = exPD \<or> f = exPT \<or> f = exUP"
  shows "used (exst n) f" "rCount (exst n) (V2P f) = 1" "f \<notin> set (exfree n)"
proof -
  show "rCount (exst n) (V2P f) = 1"
    using assms(2) by (auto simp: rCount_def exst_def ex_addrs V2P_def layout_defs pgno_def)
  moreover have "page_ok 0x80200000 f"
    using assms(2) by (auto intro!: page_okI simp: ex_addrs page_aligned_unat)
  ultimately show "used (exst n) f" by (simp add: used_def exst_def)
  show "f \<notin> set (exfree n)" using exfree_facts(2) [OF assms(1), of f] assms(2) by (auto simp: ex_addrs)
qed

lemma exst_free_list:
  assumes "n \<le> 10000" shows "free_list (exst n) (exfree n)"
proof -
  have d: "distinct (exfree n)" unfolding exfree_def using assms by (intro page_seq_distinct) simp
  have "(case exfree n of [] \<Rightarrow> 0 | y # _ \<Rightarrow> y) = freelist (exst n)"
    by (cases n) (simp_all add: exfree_def exst_def page_seq_Suc)
  moreover have "\<forall>x \<in> set (exfree n). page_aligned x \<and> x \<noteq> 0"
    using exfree_facts [OF assms] by fastforce
  ultimately have "flist (mem (exst n)) (freelist (exst n)) (exfree n)"
    using flist_chain [of "exfree n" exmem0] d by (simp add: exst_def)
  moreover have "page_ok (kend (exst n)) x \<and> rCount (exst n) (V2P x) = 0" if x: "x \<in> set (exfree n)" for x
  proof
    note f = exfree_facts [OF assms x]
    show "page_ok (kend (exst n)) x"
      using f by (intro page_okI) (simp_all add: exst_def word_le_nat_alt)
    have "x \<noteq> exPD" "x \<noteq> exPT" "x \<noteq> exUP" using f(2) by (auto simp: ex_addrs)
    then have "pgno (V2P x) \<noteq> pgno (V2P exPD)" "pgno (V2P x) \<noteq> pgno (V2P exPT)"
      "pgno (V2P x) \<noteq> pgno (V2P exUP)" using f(1) by simp_all
    then show "rCount (exst n) (V2P x) = 0"
      by (simp add: rCount_def exst_def ex_addrs V2P_def layout_defs pgno_def)
  qed
  moreover have "free_pages (exst n) = of_nat (length (exfree n))" by (simp add: exst_def exfree_def)
  ultimately show ?thesis using d by (simp add: free_list_def)
qed

lemma exst_agree:
  assumes "n \<le> 10000" shows "agree_on {exPD, exPT, exUP} exmem0 (mem (exst n))"
proof -
  have "agree_on {exPD, exPT, exUP} (chain exmem0 (exfree n)) exmem0"
    using exst_pages(3) [OF assms] exfree_facts(1) [OF assms] by (intro chain_agree) auto
  then show ?thesis by (simp add: exst_def agree_on_sym)
qed

lemma load32_zero: "load32 (\<lambda>_. 0) a = 0"
  by (simp add: load32_def)

lemma exmem0_word:
  assumes "word_aligned a"
  shows "load32 exmem0 a = (if a = exPT then 0x00302007 else if a = exPD then 0x00301007 else 0)"
  using assms load32_store32_other [of exPT a] load32_store32_other [of exPD a]
  by (auto simp: exmem0_def load32_zero page_aligned_word_aligned)

lemma ex_pde: "i < 1024 \<Longrightarrow> pde_at exmem0 exPD i = (if i = 0 then 0x00301007 else 0)"
proof -
  assume i: "i < 1024"
  then have i': "unat i < 1024" by (simp add: word_less_nat_alt)
  have "PGROUNDDOWN (exPD + 4 * i) = exPD" using i' by (simp add: page_simps)
  moreover have "PGROUNDDOWN exPT = exPT" by (simp add: page_simps)
  ultimately have "exPD + 4 * i \<noteq> exPT" by (auto simp: ex_addrs)
  moreover have "exPD + 4 * i = exPD \<longleftrightarrow> i = 0"
    using slot_inj [of exPD exPD i 0] i' by simp
  ultimately show ?thesis
    using i' by (simp add: pde_at_def exmem0_word slot_word_aligned)
qed

lemma ex_present: "present 0x00301007" "tab 0x00301007 = exPT" "present 0x00302007" "tab 0x00302007 = exUP"
  by (simp_all add: present_def PTE_P_def tab_def PTE_ADDR_def P2V_def layout_defs ex_addrs)

lemma exst_space:
  assumes n: "n \<le> 10000"
  shows "pt_pages (mem (exst n)) exPD = {exPD, exPT}" "wf_pgdir (exst n) exPD"
    and "pte_val (mem (exst n)) exPD 0 = 0x00302007"
proof -
  have P0: "pt_pages exmem0 exPD = {exPD, exPT}"
  proof -
    have "{tab (pde_at exmem0 exPD i) | i. i < 1024 \<and> present (pde_at exmem0 exPD i)} = {exPT}"
    proof (intro equalityI subsetI)
      fix f assume "f \<in> {tab (pde_at exmem0 exPD i) | i. i < 1024 \<and> present (pde_at exmem0 exPD i)}"
      then obtain i where i: "f = tab (pde_at exmem0 exPD i)" "i < 1024" "present (pde_at exmem0 exPD i)"
        by blast
      then show "f \<in> {exPT}" using ex_pde [OF i(2)] ex_present(2) by (cases "i = 0") simp_all
    next
      fix f assume "f \<in> {exPT}"
      then have "f = tab (pde_at exmem0 exPD 0)" "present (pde_at exmem0 exPD 0)"
        using ex_pde [of 0] ex_present(1,2) by simp_all
      then show "f \<in> {tab (pde_at exmem0 exPD i) | i. i < 1024 \<and> present (pde_at exmem0 exPD i)}"
        by (auto intro!: exI [of _ "0 :: u32"])
    qed
    then show ?thesis by (simp only: pt_pages_def)
  qed
  note ag = exst_agree [OF n]
  show P: "pt_pages (mem (exst n)) exPD = {exPD, exPT}"
    using pt_pages_agree [OF ag, of exPD] P0 by simp
  have pe: "pde_at (mem (exst n)) exPD i = (if i = 0 then 0x00301007 else 0)" if "i < 1024" for i
    using pde_at_agree [OF ag _ _ that, of exPD] ex_pde [OF that] by simp
  show "wf_pgdir (exst n) exPD"
    unfolding wf_pgdir_def P
  proof (intro conjI ballI allI impI)
    show "used (exst n) f" if "f \<in> {exPD, exPT}" for f
      using exst_pages(1) [OF n, of f] that by blast
    fix i assume "i < 1024" "present (pde_at (mem (exst n)) exPD i)"
    then have i: "i = 0" using pe [of i] by (cases "i = 0") simp_all
    show "tab (pde_at (mem (exst n)) exPD i) \<noteq> exPD"
      using pe [of 0] i ex_present(2) by (simp add: ex_addrs)
    fix j assume "j < 1024" "present (pde_at (mem (exst n)) exPD j)"
    then show "j = i" using pe [of j] i by (cases "j = 0") simp_all
  qed
  have "pte_val exmem0 exPD 0 = 0x00302007"
    using ex_present
    by (simp add: pte_val_def pte_loc_def PDX_def PTX_def ex_pde exmem0_word page_aligned_word_aligned layout_defs)
  then show "pte_val (mem (exst n)) exPD 0 = 0x00302007"
    using pte_val_agree [OF ag, of exPD 0] P0 by simp
qed

lemma exst_user:
  assumes n: "n \<le> 10000"
  shows "user_space (exst n) exPD 4096" "counts_below (exst n) exPD 4096"
    and "kernel_layout (kdata (exst n))" "\<not> klocked (exst n)" "0x80000000 \<le> kend (exst n)"
proof -
  have u: "upages 4096 = 1" by (simp add: upages_def)
  have p0: "upage 0 = 0" by (simp add: upage_def)
  have f: "uframe (mem (exst n)) exPD 0 = exUP" by (simp add: uframe_def p0 exst_space [OF n] ex_present)
  show "user_space (exst n) exPD 4096"
    using exst_space [OF n] ex_present exst_pages(1) [OF n, of exUP]
    by (simp add: user_space_def u f p0 layout_defs) (simp add: ex_addrs)
  show "counts_below (exst n) exPD 4096"
    using exst_pages(2) [OF n, of exUP] by (simp add: counts_below_def u f)
  show "kernel_layout (kdata (exst n))"
    by (simp add: kernel_layout_def exst_def page_aligned_unat P2V_def layout_defs)
qed (simp_all add: exst_def)

end
