(* ===== verification/Cow_Fault.thy ===== *)
theory Cow_Fault
  imports Cow_Example
begin

unbundle bit_operations_syntax

text \<open>
  The page fault handler \<open>COW_FAULT\<close> of \<open>xv6-cow_patch/vm.c\<close>, branch by branch, and what fork
  followed by a fault and a write means for the two processes: neither sees the other's writes.
\<close>

section \<open>User bytes\<close>

lemma offset_less: "unat (va AND 0xFFF :: u32) < 4096"
proof -
  have "va AND 0xFFF \<le> (0xFFF :: u32)" by (rule word_and_le1)
  then show ?thesis by (simp add: word_le_nat_alt)
qed

lemma user_byte_page: "page_aligned f \<Longrightarrow> PGROUNDDOWN (f + (va AND 0xFFF)) = f"
  by (rule PGROUNDDOWN_add) (simp_all add: offset_less)

lemma uread_agree:
  assumes "agree_on F m m'" "tab (pte_val m pd va) \<in> F" "tab (pte_val m' pd va) = tab (pte_val m pd va)"
  shows "uread m pd va = uread m' pd va"
  using assms by (auto simp: uread_def user_byte_page intro: agree_onD)

lemma pte_val_upage:
  assumes "unat va < 0x80000000"
  shows "pte_val m pd va = pte_val m pd (upage (unat va div 4096))"
    and "tab (pte_val m pd va) = uframe m pd (unat va div 4096)"
proof -
  have k: "unat va div 4096 \<le> 0x80000" using assms by linarith
  then have "PGROUNDDOWN va = upage (unat va div 4096)" by (simp add: upage_iff)
  then have "PGROUNDDOWN va = PGROUNDDOWN (upage (unat va div 4096))"
    using PGROUNDDOWN_idem [of va] by simp
  then show "pte_val m pd va = pte_val m pd (upage (unat va div 4096))"
    by (rule pte_val_same_page)
  then show "tab (pte_val m pd va) = uframe m pd (unat va div 4096)" by (simp add: uframe_def)
qed

lemma user_space_page:
  assumes "user_space s pd sz" "va < sz"
  shows "present (pte_val (mem s) pd va)" "used s (tab (pte_val (mem s) pd va))"
    and "tab (pte_val (mem s) pd va) \<notin> pt_pages (mem s) pd" "unat va < 0x80000000"
proof -
  show va: "unat va < 0x80000000"
    using assms by (simp add: user_space_def KERNBASE_def word_less_nat_alt word_le_nat_alt)
  note v = pte_val_upage [OF va, of "mem s" pd]
  show "present (pte_val (mem s) pd va)" "used s (tab (pte_val (mem s) pd va))"
    "tab (pte_val (mem s) pd va) \<notin> pt_pages (mem s) pd"
    using assms upages_page [OF assms(2)] unfolding v by (simp_all add: user_space_def uframe_def)
qed

section \<open>The handler, branch by branch\<close>

lemma memmove_page:
  assumes "page_ok e x" "page_ok e f"
  shows "memmove m x f PGSIZE a = (if PGROUNDDOWN a = x then m (f + (a - x)) else m a)"
  using assms page_ok_range [OF assms(1)] page_ok_range [OF assms(2)]
  by (subst memmove_apply) (auto simp: PGSIZE_def in_page_iff)

lemma memmove_page_byte:
  assumes "page_ok e x" "page_ok e f"
  shows "memmove m x f PGSIZE (x + (va AND 0xFFF)) = m (f + (va AND 0xFFF))"
  using assms by (simp add: memmove_page user_byte_page)

lemma fault_lookup:
  assumes "wf_pgdir s pd" "present (pte_val (mem s) pd va)"
  obtains a where "pte_loc (mem s) pd va = Some a" "a \<noteq> 0" "load32 (mem s) a = pte_val (mem s) pd va"
    "walkpgdir pd va False s = Ok (a, s)"
proof -
  obtain a where a: "pte_loc (mem s) pd va = Some a"
    using assms(2) by (cases "pte_loc (mem s) pd va") (simp_all add: pte_val_def)
  show thesis
    using that [OF a] pte_loc_facts(4) [OF assms(1) a] pte_val_loc [OF a] a
    by (simp add: walkpgdir_lookup)
qed

lemma fault_count:
  assumes "\<not> klocked s" "0x80000000 \<le> kend s" "used s (tab e)"
  shows "get_rCount (PTE_ADDR e) s = Ok (rCount s (PTE_ADDR e), s)" "\<not> rCount s (PTE_ADDR e) < 1"
    and "V2P (tab e) = PTE_ADDR e"
proof -
  show v: "V2P (tab e) = PTE_ADDR e" by (simp add: tab_def)
  show "get_rCount (PTE_ADDR e) s = Ok (rCount s (PTE_ADDR e), s)"
    using assms bad_pa_page_ok [of s "tab e"] by (intro get_rCount_eq) (simp_all add: used_def v)
  show "\<not> rCount s (PTE_ADDR e) < 1"
    using assms(3) by (simp add: used_def v word_less_nat_alt unat_eq_0)
qed

text \<open>A page with one owner only becomes writable again.\<close>

lemma COW_FAULT_sole:
  assumes "\<not> klocked s" "0x80000000 \<le> kend s" "wf_pgdir s pd"
    and "present (pte_val (mem s) pd va)" "used s (tab (pte_val (mem s) pd va))"
    and "rCount s (V2P (tab (pte_val (mem s) pd va))) = 1"
  obtains a where "COW_FAULT pd va s =
      Ok (False, (stmem a (PTE_W OR pte_val (mem s) pd va) s)\<lparr>cr3 := V2P pd\<rparr>)"
    "pte_loc (mem s) pd va = Some a"
proof -
  obtain a where a: "pte_loc (mem s) pd va = Some a" "a \<noteq> 0" "load32 (mem s) a = pte_val (mem s) pd va"
    "walkpgdir pd va False s = Ok (a, s)"
    using assms(3,4) by (rule fault_lookup)
  note c = fault_count [OF assms(1,2,5)]
  show thesis
    using that [OF _ a(1)] a c assms(6)
    by (simp add: COW_FAULT_def kern_simps Let_def lcr3_def)
qed

text \<open>
  A shared page is copied: \<open>privatised\<close> is the effect on the state, with \<open>x\<close> the new page.
\<close>

definition privatised :: "kstate \<Rightarrow> kstate \<Rightarrow> u32 \<Rightarrow> u32 \<Rightarrow> u32 \<Rightarrow> bool" where
  "privatised s t pd va x \<longleftrightarrow> same_config s t \<and> wf_pgdir t pd \<and>
     pt_pages (mem t) pd = pt_pages (mem s) pd \<and>
     (\<forall>w. pte_val (mem t) pd w = (if PGROUNDDOWN w = PGROUNDDOWN va
        then PTE_U OR PTE_W OR PTE_P OR V2P x else pte_val (mem s) pd w)) \<and>
     (\<forall>o'. mem t (x + (o' AND 0xFFF)) = mem s (tab (pte_val (mem s) pd va) + (o' AND 0xFFF))) \<and>
     agree_on (- insert x (pt_pages (mem s) pd)) (mem t) (mem s) \<and>
     (\<forall>g. page_aligned g \<longrightarrow> rCount t (V2P g) = (if g = x then 1
        else if g = tab (pte_val (mem s) pd va) then rCount s (V2P g) - 1 else rCount s (V2P g)))"

lemma new_pte:
  assumes "page_aligned x"
  shows "tab (PTE_U OR PTE_W OR PTE_P OR V2P x) = x" "present (PTE_U OR PTE_W OR PTE_P OR V2P x)"
  using tab_new_pde [OF assms] present_new_pde [OF assms] by (simp_all add: ac_simps)

lemma privatise_step:
  assumes wf: "wf_pgdir s pd" and a: "pte_loc (mem s) pd va = Some a"
    and f: "page_ok (kend s) f" "f \<notin> pt_pages (mem s) pd" "f = tab (pte_val (mem s) pd va)"
    and x: "page_ok (kend s) x" "x \<notin> pt_pages (mem s) pd" "x \<noteq> f"
    and s1: "same_config s s1" "mem s1 = mem s" "page_rCount s1 = (page_rCount s)(pgno (V2P x) := 1)"
  shows "privatised s (set_rCount (V2P f) (rCount s (V2P f) - 1)
      (stmem a (PTE_U OR PTE_W OR PTE_P OR V2P x) (s1\<lparr>mem := memmove (mem s) x f PGSIZE\<rparr>))) pd va x"
    (is "privatised s ?t pd va x")
proof -
  let ?m = "memmove (mem s) x f PGSIZE" and ?e = "PTE_U OR PTE_W OR PTE_P OR V2P x"
  let ?s2 = "s1\<lparr>mem := ?m\<rparr>"
  have al: "page_aligned pd" using wf by (rule wf_pgdir_aligned)
  have agm: "agree_on (- {x}) ?m (mem s)"
    using memmove_page [OF x(1) f(1)] by (simp add: agree_on_def)
  have ag: "agree_on (pt_pages (mem s) pd) (mem s) (mem ?s2)"
    using agm x(2) by (auto intro: agree_on_sym agree_on_subset)
  have rc: "rCount s1 (V2P g) = (if g = x then 1 else rCount s (V2P g))" if "page_aligned g" for g
    using that x(1) by (auto simp: rCount_def s1(3))
  have rn: "rCount ?s2 (V2P g) \<noteq> 0" if "g \<in> pt_pages (mem s) pd" for g
  proof -
    have "used s g" using wf that by (rule wf_pgdir_used)
    then show ?thesis
      using rc [of g] x(2) that by (auto simp: used_def rCount_def split: if_splits)
  qed
  have wf2: "wf_pgdir ?s2 pd"
    using s1(1) rn by (intro wf_pgdir_agree [OF wf ag]) (simp_all add: same_config_def)
  have loc: "pte_loc (mem ?s2) pd va = Some a"
    using a pte_loc_agree [OF ag _ al] by simp
  have pp: "pt_pages (mem ?s2) pd = pt_pages (mem s) pd"
    using pt_pages_agree [OF ag _ al] by simp
  have pv: "pte_val (mem ?s2) pd w = pte_val (mem s) pd w" for w
    using pte_val_agree [OF ag _ al] by simp
  note fa = pte_loc_facts [OF wf2 loc]
  have mt: "mem ?t = store32 ?m a ?e" by (simp add: stmem_def)
  have pt: "pt_pages (mem ?t) pd = pt_pages (mem s) pd"
    using store_pte(2) [OF wf2 loc] pp by (simp add: stmem_def)
  have fpt: "f \<notin> pt_pages (mem (stmem a ?e ?s2)) pd" using f(2) pt mt by (simp add: stmem_def)
  have "wf_pgdir ?t pd"
    using f(1) fpt by (intro wf_pgdir_set_rCount wf_pgdir_store_pte [OF wf2 loc]) auto
  moreover have "same_config s ?t" using s1(1) by (simp add: same_config_def stmem_def)
  moreover have "pte_val (mem ?t) pd w = (if PGROUNDDOWN w = PGROUNDDOWN va then ?e
      else pte_val (mem s) pd w)" for w
    using store_pte(3) [OF wf2 loc, of ?e w] pv by (simp add: stmem_def)
  moreover have ag2: "agree_on (- pt_pages (mem s) pd) (mem ?t) ?m"
    unfolding mt using fa(1,2) pp by (intro agree_on_store32) auto
  moreover have "mem ?t (x + (w AND 0xFFF)) = mem s (f + (w AND 0xFFF))" for w
  proof -
    have "mem ?t (x + (w AND 0xFFF)) = ?m (x + (w AND 0xFFF))"
      using x by (intro agree_onD [OF ag2]) (simp add: user_byte_page)
    then show ?thesis using memmove_page_byte [OF x(1) f(1)] by simp
  qed
  moreover have "agree_on (- insert x (pt_pages (mem s) pd)) (mem ?t) (mem s)"
  proof (rule agree_on_trans)
    show "agree_on (- insert x (pt_pages (mem s) pd)) (mem ?t) ?m"
      using ag2 by (rule agree_on_subset) auto
    show "agree_on (- insert x (pt_pages (mem s) pd)) ?m (mem s)"
      using agm by (rule agree_on_subset) auto
  qed
  moreover have "rCount ?t (V2P g) = (if g = x then 1
        else if g = f then rCount s (V2P g) - 1 else rCount s (V2P g))" if "page_aligned g" for g
    using that f(1) x rc [OF that] by (auto simp: rCount_def stmem_def)
  ultimately show ?thesis unfolding privatised_def f(3) [symmetric] using pt by simp
qed

lemma COW_FAULT_copy:
  assumes "\<not> klocked s" "0x80000000 \<le> kend s" "wf_pgdir s pd" "free_list s (x # xs)"
    and e: "present (pte_val (mem s) pd va)" "used s (tab (pte_val (mem s) pd va))"
      "tab (pte_val (mem s) pd va) \<notin> pt_pages (mem s) pd"
    and "1 < rCount s (V2P (tab (pte_val (mem s) pd va)))"
  obtains t where "COW_FAULT pd va s = Ok (False, t\<lparr>cr3 := V2P pd\<rparr>)" "privatised s t pd va x"
    "free_list t xs"
proof -
  let ?f = "tab (pte_val (mem s) pd va)" and ?e = "PTE_U OR PTE_W OR PTE_P OR V2P x"
  obtain a where a: "pte_loc (mem s) pd va = Some a" "a \<noteq> 0" "load32 (mem s) a = pte_val (mem s) pd va"
    "walkpgdir pd va False s = Ok (a, s)"
    using assms(3) e(1) by (rule fault_lookup)
  note c = fault_count [OF assms(1,2) e(2)]
  obtain s1 where s1: "kalloc s = Ok (x, s1)" "free_list s1 xs" "same_config s s1" "mem s1 = mem s"
    "page_rCount s1 = (page_rCount s)(pgno (V2P x) := 1)"
    using assms(1,4) by (rule kalloc_Cons)
  have x: "page_ok (kend s) x" "x \<noteq> ?f" "x \<notin> pt_pages (mem s) pd" "x \<notin> set xs"
    using assms(4) used_not_free [OF e(2) assms(4)] used_not_free [OF wf_pgdir_used [OF assms(3)] assms(4)]
    by (auto simp: free_list_def)
  have f: "page_ok (kend s) ?f" "?f \<notin> set xs"
    using e(2) used_not_free [OF e(2) assms(4)] by (auto simp: used_def)
  let ?s2 = "s1\<lparr>mem := memmove (mem s) x ?f PGSIZE\<rparr>"
  let ?s3 = "stmem a ?e ?s2"
  let ?t = "set_rCount (V2P ?f) (rCount s (V2P ?f) - 1) ?s3"
  have p: "privatised s ?t pd va x"
    by (rule privatise_step [OF assms(3) a(1) f(1) e(3) refl x(1,3,2) s1(3,4,5)])
  have n3: "\<not> klocked ?s3" "\<not> bad_pa ?s3 (PTE_ADDR (pte_val (mem s) pd va))"
    using assms(1,2) s1(3) f(1) bad_pa_page_ok [of s ?f]
    by (simp_all add: stmem_def same_config_def bad_pa_def c(3))
  have r3: "rCount ?s3 (V2P ?f) = rCount s (V2P ?f)"
    using x(1,2) s1(5) by (simp add: rCount_def stmem_def) 
  have "x \<noteq> 0" using x(1) by (rule page_ok_nonzero)
  moreover have "rCount s (PTE_ADDR (pte_val (mem s) pd va)) \<noteq> 1" using assms(8) c(3) by auto
  ultimately have "COW_FAULT pd va s = Ok (False, ?t\<lparr>cr3 := V2P pd\<rparr>)"
    using a(2-4) c s1(1,4) n3 r3
    by (simp add: COW_FAULT_def kern_simps Let_def lcr3_def d_rCount_eq flip: tab_def)
  moreover have "free_list ?t xs"
  proof (rule free_list_agree [OF s1(2), of "- insert x (pt_pages (mem s) pd)"])
    show "agree_on (- insert x (pt_pages (mem s) pd)) (mem s1) (mem ?t)"
      using p unfolding s1(4) privatised_def by (blast intro: agree_on_sym)
    show "set xs \<subseteq> - insert x (pt_pages (mem s) pd)"
      using x(4) used_not_free [OF wf_pgdir_used [OF assms(3)] assms(4)] by auto
    show "rCount ?t (V2P y) = rCount s1 (V2P y)" if "y \<in> set xs" for y
    proof -
      have "page_aligned y" "y \<noteq> ?f" using that f(2) assms(4) by (auto simp: free_list_def)
      then show ?thesis using f(1) by (auto simp: rCount_def stmem_def)
    qed
  qed (simp_all add: stmem_def)
  ultimately show thesis using that p by blast
qed

text \<open>Without a free page the process is killed and nothing else changes.\<close>

lemma COW_FAULT_no_memory:
  assumes "\<not> klocked s" "0x80000000 \<le> kend s" "wf_pgdir s pd" "free_list s []"
    and "present (pte_val (mem s) pd va)" "used s (tab (pte_val (mem s) pd va))"
    and "1 < rCount s (V2P (tab (pte_val (mem s) pd va)))"
  shows "COW_FAULT pd va s = Ok (True, s)"
proof -
  obtain a where a: "pte_loc (mem s) pd va = Some a" "a \<noteq> 0" "load32 (mem s) a = pte_val (mem s) pd va"
    "walkpgdir pd va False s = Ok (a, s)"
    using assms(3,5) by (rule fault_lookup)
  have "rCount s (PTE_ADDR (pte_val (mem s) pd va)) \<noteq> 1"
    using assms(7) fault_count(3) [OF assms(1,2,6)] by auto
  then show ?thesis
    using a fault_count [OF assms(1,2,6)] kalloc_empty [OF assms(1,4)]
    by (simp add: COW_FAULT_def kern_simps Let_def)
qed

text \<open>The addresses the handler does not check.\<close>

lemma COW_FAULT_no_table:
  "pte_loc (mem s) pd va = None \<Longrightarrow> COW_FAULT pd va s = Undefined ''COW_FAULT: null pte''"
  by (simp add: COW_FAULT_def kern_simps walkpgdir_lookup)

lemma COW_FAULT_unmapped:
  assumes "wf_pgdir s pd" "pte_loc (mem s) pd va = Some a" "bad_pa s (PTE_ADDR (pte_val (mem s) pd va))"
  shows "COW_FAULT pd va s = Panic ''getReferenceCount''"
  using assms pte_loc_facts(4) [OF assms(1,2)] pte_val_loc [OF assms(2)]
  by (simp add: COW_FAULT_def kern_simps walkpgdir_lookup Let_def get_rCount_bad)

section \<open>Fork, fault, write\<close>

text \<open>A store of the process with directory \<open>pd\<close> to its address \<open>va\<close>.\<close>

definition uwrite :: "u32 \<Rightarrow> u32 \<Rightarrow> u8 \<Rightarrow> kstate \<Rightarrow> kstate" where
  "uwrite pd va b s = s\<lparr>mem := (mem s)(tab (pte_val (mem s) pd va) + (va AND 0xFFF) := b)\<rparr>"

text \<open>
  A directory \<open>q\<close> whose tables and user pages are disjoint from what a fault in \<open>pd\<close> writes.
\<close>

definition bystander :: "kstate \<Rightarrow> u32 \<Rightarrow> u32 \<Rightarrow> u32 \<Rightarrow> bool" where
  "bystander s pd q sz \<longleftrightarrow> user_space s q sz \<and> pt_pages (mem s) pd \<inter> pt_pages (mem s) q = {} \<and>
     (\<forall>w < sz. tab (pte_val (mem s) q w) \<notin> pt_pages (mem s) pd)"

lemma privatised_bystander:
  assumes p: "privatised s t pd va x" and b: "bystander s pd q sz" and x: "free_list s (x # xs)"
  shows "pte_val (mem t) q w = pte_val (mem s) q w"
    and "w < sz \<Longrightarrow> uread (mem t) q w = uread (mem s) q w"
    and "w < sz \<Longrightarrow> tab (pte_val (mem t) q w) \<noteq> x" "x \<notin> pt_pages (mem s) q"
proof -
  have wf: "wf_pgdir s q" using b by (simp add: bystander_def user_space_def)
  have xq: "x \<notin> pt_pages (mem s) q"
    using used_not_free [OF wf_pgdir_used [OF wf] x] by auto
  then show "x \<notin> pt_pages (mem s) q" .
  have al: "page_aligned q" using wf by (rule wf_pgdir_aligned)
  have ag: "agree_on (- insert x (pt_pages (mem s) pd)) (mem t) (mem s)"
    using p by (simp add: privatised_def)
  have "pt_pages (mem s) q \<subseteq> - insert x (pt_pages (mem s) pd)"
    using xq b by (auto simp: bystander_def)
  then show v: "pte_val (mem t) q w = pte_val (mem s) q w" for w
    using pte_val_agree [OF agree_on_sym [OF ag] _ al] by simp
  assume w: "w < sz"
  have "tab (pte_val (mem s) q w) \<noteq> x"
    using user_space_page(2) [of s q sz w] b w used_not_free [OF _ x] by (auto simp: bystander_def)
  then show "tab (pte_val (mem t) q w) \<noteq> x" by (simp add: v)
  then have "tab (pte_val (mem t) q w) \<in> - insert x (pt_pages (mem s) pd)"
    using b w by (auto simp: bystander_def v)
  then show "uread (mem t) q w = uread (mem s) q w" by (intro uread_agree [OF ag]) (simp_all add: v)
qed

lemma privatised_uread:
  assumes p: "privatised s t pd va x" and us: "user_space s pd sz" and x: "free_list s (x # xs)"
    and w: "w < sz" and va: "va < sz"
  shows "uread (mem t) pd w = uread (mem s) pd w"
proof -
  have ax: "page_aligned x" using x by (auto simp: free_list_def)
  note pw = user_space_page [OF us w]
  show ?thesis
  proof (cases "PGROUNDDOWN w = PGROUNDDOWN va")
    case True
    then have "pte_val (mem s) pd va = pte_val (mem s) pd w" using pte_val_same_page [of w va] by simp
    then show ?thesis
      using p True by (simp add: uread_def privatised_def new_pte [OF ax])
  next
    case False
    then have v: "pte_val (mem t) pd w = pte_val (mem s) pd w" using p by (simp add: privatised_def)
    have "tab (pte_val (mem s) pd w) \<noteq> x" using used_not_free [OF pw(2) x] by simp
    then have "tab (pte_val (mem t) pd w) \<in> - insert x (pt_pages (mem s) pd)" using pw(3) v by simp
    moreover have "agree_on (- insert x (pt_pages (mem s) pd)) (mem t) (mem s)"
      using p by (simp add: privatised_def)
    moreover have "tab (pte_val (mem s) pd w) = tab (pte_val (mem t) pd w)" by (simp only: v)
    ultimately show ?thesis using uread_agree by metis
  qed
qed

lemma page_byte_inj:
  assumes "page_aligned f" "page_aligned g" "f + (v AND 0xFFF) = g + (w AND 0xFFF)"
  shows "f = g"
  using user_byte_page [OF assms(1), of v] user_byte_page [OF assms(2), of w] assms(3) by simp

text \<open>A write to a page no one else maps is seen by its owner only.\<close>

lemma uwrite_other:
  assumes b: "wf_pgdir s q" "\<And>w. w < sz \<Longrightarrow> tab (pte_val (mem s) q w) \<noteq> tab (pte_val (mem s) pd va)"
    and n: "tab (pte_val (mem s) pd va) \<notin> pt_pages (mem s) q" and w: "w < sz"
  shows "uread (mem (uwrite pd va c s)) q w = uread (mem s) q w"
proof -
  let ?f = "tab (pte_val (mem s) pd va)"
  have ag: "agree_on (- {?f}) (mem s) (mem (uwrite pd va c s))"
    using user_byte_page [of ?f va] by (auto simp: agree_on_def uwrite_def)
  have v: "pte_val (mem (uwrite pd va c s)) q w = pte_val (mem s) q w"
    using pte_val_agree [OF ag _ wf_pgdir_aligned [OF b(1)]] n by blast
  show ?thesis
    using b(2) [OF w] by (intro uread_agree [OF agree_on_sym [OF ag]]) (simp_all add: v)
qed

lemma forked_reads:
  assumes f: "forked s t pd d sz ps" and us: "user_space s pd sz" and fl: "free_list s (ps @ zs)"
    and w: "w < sz"
  shows "uread (mem t) d w = uread (mem s) pd w" "uread (mem t) pd w = uread (mem s) pd w"
proof -
  note pw = user_space_page [OF us w]
  have v: "pte_val (mem t) d w = ro (pte_val (mem s) pd w)" "pte_val (mem t) pd w = ro (pte_val (mem s) pd w)"
    using f upages_page [OF w] by (simp_all add: forked_def)
  have "tab (pte_val (mem s) pd w) \<notin> set ps" using used_not_free [OF pw(2) fl] by simp
  then have i: "tab (pte_val (mem s) pd w) \<in> - (pt_pages (mem s) pd \<union> set ps)" using pw(3) by simp
  have "agree_on (- (pt_pages (mem s) pd \<union> set ps)) (mem t) (mem s)" using f by (simp add: forked_def)
  then have "mem t (tab (pte_val (mem s) pd w) + (w AND 0xFFF)) = uread (mem s) pd w"
    unfolding uread_def by (rule agree_onD) (use i in \<open>simp add: user_byte_page\<close>)
  then show "uread (mem t) d w = uread (mem s) pd w" "uread (mem t) pd w = uread (mem s) pd w"
    by (simp_all add: uread_def v)
qed

lemma page_split: "PGROUNDDOWN (va :: u32) + (va AND 0xFFF) = va"
proof -
  have "4096 * (unat va div 4096) + unat va mod 4096 = unat va" by simp
  then show ?thesis
    using unat32_less [of va]
    by (simp only: word_unat_eq_iff unat_word_ariths unat_PGROUNDDOWN unat_and_4095) simp
qed

lemma uwrite_own:
  assumes wf: "wf_pgdir s pd" and n: "tab (pte_val (mem s) pd va) \<notin> pt_pages (mem s) pd"
    and only: "PGROUNDDOWN w = PGROUNDDOWN va \<or> tab (pte_val (mem s) pd w) \<noteq> tab (pte_val (mem s) pd va)"
  shows "uread (mem (uwrite pd va c s)) pd w = (if w = va then c else uread (mem s) pd w)"
proof -
  let ?f = "tab (pte_val (mem s) pd va)" and ?g = "tab (pte_val (mem s) pd w)"
  have ag: "agree_on (- {?f}) (mem s) (mem (uwrite pd va c s))"
    using user_byte_page [of ?f va] by (auto simp: agree_on_def uwrite_def)
  have v: "pte_val (mem (uwrite pd va c s)) pd w = pte_val (mem s) pd w"
    using pte_val_agree [OF ag _ wf_pgdir_aligned [OF wf]] n by blast
  have "?g + (w AND 0xFFF) = ?f + (va AND 0xFFF) \<longleftrightarrow> w = va"
  proof
    assume e: "?g + (w AND 0xFFF) = ?f + (va AND 0xFFF)"
    then have gf: "?g = ?f" by (rule page_byte_inj [OF tab_aligned tab_aligned])
    then have "PGROUNDDOWN w = PGROUNDDOWN va" using only by simp
    moreover have "w AND 0xFFF = va AND 0xFFF" using e unfolding gf by (rule add_left_imp_eq)
    ultimately have "PGROUNDDOWN w + (w AND 0xFFF) = PGROUNDDOWN va + (va AND 0xFFF)" by (simp only:)
    then show "w = va" by (simp only: page_split)
  qed simp
  then show ?thesis by (simp add: uread_def v) (simp add: uwrite_def)
qed

text \<open>
  The central argument: in a state where \<open>pd\<close> and \<open>q\<close> share the page at \<open>va\<close>, a fault of
  \<open>pd\<close> at \<open>va\<close> and the write that follows change the byte for \<open>pd\<close> and for nobody else.
\<close>

lemma fault_write:
  assumes "\<not> klocked s" "0x80000000 \<le> kend s" "free_list s (x # xs)" "va < sz"
    and us: "user_space s pd sz" and b: "bystander s pd q sz"
    and "1 < rCount s (V2P (tab (pte_val (mem s) pd va)))"
  shows "okp (\<lambda>killed t. \<not> killed \<and> (\<forall>w < sz.
      uread (mem (uwrite pd va c t)) pd w = (if w = va then c else uread (mem s) pd w) \<and>
      uread (mem (uwrite pd va c t)) q w = uread (mem s) q w)) (COW_FAULT pd va s)"
proof -
  note pw = user_space_page [OF us assms(4)]
  have wf: "wf_pgdir s pd" "wf_pgdir s q" using us b by (simp_all add: user_space_def bystander_def)
  obtain t where t: "COW_FAULT pd va s = Ok (False, t\<lparr>cr3 := V2P pd\<rparr>)" "privatised s t pd va x"
    "free_list t xs"
    using assms(1,2) wf(1) assms(3) pw(1-3) assms(7) by (rule COW_FAULT_copy)
  let ?t = "t\<lparr>cr3 := V2P pd\<rparr>"
  have ax: "page_aligned x" using assms(3) by (auto simp: free_list_def)
  have vx: "tab (pte_val (mem t) pd va) = x"
    using t(2) by (simp add: privatised_def new_pte [OF ax])
  have vw: "PGROUNDDOWN w \<noteq> PGROUNDDOWN va \<Longrightarrow> pte_val (mem t) pd w = pte_val (mem s) pd w" for w
    using t(2) by (simp add: privatised_def)
  have pt: "pt_pages (mem t) pd = pt_pages (mem s) pd" and wft: "wf_pgdir t pd"
    using t(2) by (simp_all add: privatised_def)
  have xn: "x \<notin> pt_pages (mem s) pd" using used_not_free [OF wf_pgdir_used [OF wf(1)] assms(3)] by auto
  have own: "uread (mem (uwrite pd va c ?t)) pd w = (if w = va then c else uread (mem s) pd w)"
    if w: "w < sz" for w
  proof -
    have "PGROUNDDOWN w = PGROUNDDOWN va \<or> tab (pte_val (mem t) pd w) \<noteq> x"
      using used_not_free [OF user_space_page(2) [OF us w] assms(3)] vw [of w]
      by (cases "PGROUNDDOWN w = PGROUNDDOWN va") simp_all
    then have "uread (mem (uwrite pd va c t)) pd w = (if w = va then c else uread (mem t) pd w)"
      using xn by (intro uwrite_own [OF wft]) (simp_all add: vx pt)
    then show ?thesis
      using privatised_uread [OF t(2) us assms(3) w assms(4)] by (simp add: uwrite_def)
  qed
  have other: "uread (mem (uwrite pd va c ?t)) q w = uread (mem s) q w" if w: "w < sz" for w
  proof -
    note bs = privatised_bystander [OF t(2) b assms(3)]
    have "agree_on (pt_pages (mem s) q) (mem s) (mem t)"
    proof (rule agree_on_sym, rule agree_on_subset)
      show "agree_on (- insert x (pt_pages (mem s) pd)) (mem t) (mem s)"
        using t(2) by (simp add: privatised_def)
      show "pt_pages (mem s) q \<subseteq> - insert x (pt_pages (mem s) pd)"
        using b bs(4) by (auto simp: bystander_def)
    qed
    note ag = this
    have ptq: "pt_pages (mem t) q = pt_pages (mem s) q"
      using pt_pages_agree [OF ag _ wf_pgdir_aligned [OF wf(2)]] by simp
    have "rCount t (V2P g) \<noteq> 0" if "g \<in> pt_pages (mem s) q" for g
    proof -
      have g: "used s g" using wf(2) that by (rule wf_pgdir_used)
      have "rCount s (V2P g) - 1 \<noteq> 0" if "g = tab (pte_val (mem s) pd va)"
        using assms(7) that by auto
      moreover have "page_aligned g" using g by (rule used_aligned)
      ultimately show ?thesis using t(2) g by (auto simp: privatised_def used_def)
    qed
    then have "wf_pgdir t q"
      using t(2) by (intro wf_pgdir_agree [OF wf(2) ag]) (simp_all add: privatised_def same_config_def)
    then have "uread (mem (uwrite pd va c t)) q w = uread (mem t) q w"
      using bs(3,4) by (intro uwrite_other [OF _ _ _ w]) (simp_all add: vx ptq)
    then show ?thesis using bs(2) [OF w] by (simp add: uwrite_def)
  qed
  show ?thesis using t(1) own other by simp
qed

lemma forked_counts:
  assumes f: "forked s t pd d sz ps" and us: "user_space s pd sz" and fl: "free_list s (ps @ zs)"
    and cb: "counts_below s pd sz" and w: "w < sz"
  shows "1 < rCount t (V2P (tab (pte_val (mem s) pd w)))"
proof -
  note pw = user_space_page [OF us w]
  let ?k = "unat w div 4096" and ?f = "tab (pte_val (mem s) pd w)"
  let ?J = "{j. j < upages sz \<and> uframe (mem s) pd j = ?f}"
  have k: "?k < upages sz" by (rule upages_page [OF w])
  have fk: "?f = uframe (mem s) pd ?k" by (rule pte_val_upage(2) [OF pw(4)])
  have "?f \<notin> set ps" using used_not_free [OF pw(2) fl] by simp
  then have rc: "rCount t (V2P ?f) = rCount s (V2P ?f) + of_nat (card ?J)"
    using f by (simp add: forked_def)
  have "?k \<in> ?J" using k fk by simp
  moreover have fin: "finite ?J" by simp
  ultimately have c1: "0 < card ?J" by (auto simp: card_gt_0_iff)
  have "?J \<subseteq> {..< upages sz}" by auto
  then have c2: "card ?J \<le> upages sz" using card_mono [of "{..< upages sz}" ?J] by simp
  have b: "unat (rCount s (V2P ?f)) + upages sz < 2 ^ 32"
    using cb k unfolding fk counts_below_def by blast
  have "unat (of_nat (card ?J) :: u32) = card ?J"
    using c2 b by (simp add: unat_of_nat take_bit_nat_eq_self)
  then have "unat (rCount t (V2P ?f)) = unat (rCount s (V2P ?f)) + card ?J"
    unfolding rc using b c2 by (subst unat_add_lem [THEN iffD1]) simp_all
  moreover have "0 < unat (rCount s (V2P ?f))" using pw(2) by (simp add: used_def unat_gt_0)
  ultimately show ?thesis using c1 by (simp add: word_less_nat_alt)
qed

lemma cr3_irrelevant [simp]:
  "rCount (s\<lparr>cr3 := v\<rparr>) = rCount s" "used (s\<lparr>cr3 := v\<rparr>) = used s"
  "wf_pgdir (s\<lparr>cr3 := v\<rparr>) = wf_pgdir s" "free_list (s\<lparr>cr3 := v\<rparr>) = free_list s"
  "user_space (s\<lparr>cr3 := v\<rparr>) = user_space s" "bystander (s\<lparr>cr3 := v\<rparr>) = bystander s"
  by (simp_all add: fun_eq_iff rCount_def used_def wf_pgdir_def free_list_def user_space_def bystander_def)

lemma forked_spaces:
  assumes f: "forked s t pd d sz ps" and us: "user_space s pd sz" and fl: "free_list s (ps @ zs)"
    and cb: "counts_below s pd sz" and c: "same_config s t"
  shows "user_space t pd sz" "user_space t d sz" "bystander t pd d sz" "bystander t d pd sz"
proof -
  have sz: "sz \<le> KERNBASE" using us by (simp add: user_space_def)
  have ap: "apart t pd d" and pp: "pt_pages (mem t) d = set ps"
    "pt_pages (mem t) pd = pt_pages (mem s) pd"
    using f by (simp_all add: forked_def)
  have v: "pte_val (mem t) d w = ro (pte_val (mem s) pd w)" "pte_val (mem t) pd w = ro (pte_val (mem s) pd w)"
    if "unat w div 4096 < upages sz" for w
    using f that by (simp_all add: forked_def)
  have page: "present (pte_val (mem t) q (upage j)) \<and> used t (uframe (mem t) q j) \<and>
      uframe (mem t) q j \<notin> pt_pages (mem t) r"
    if j: "j < upages sz" and q: "q = pd \<or> q = d" and r: "r = pd \<or> r = d" for j q r
  proof -
    have lt: "4096 * j < unat sz" using j by (simp add: upages_iff)
    have u: "unat (upage j) = 4096 * j"
      using lt sz by (intro unat_upage) (simp add: KERNBASE_def word_le_nat_alt)
    have w: "upage j < sz" using lt by (simp add: word_less_nat_alt u)
    note pw = user_space_page [OF us w]
    have vj: "pte_val (mem t) q (upage j) = ro (pte_val (mem s) pd (upage j))"
      using v [of "upage j"] u j q by auto
    have "used t (uframe (mem s) pd j)"
      using forked_counts [OF f us fl cb w] pw(2) c
      by (auto simp: used_def uframe_def same_config_def)
    then show ?thesis
      using vj pw pp r used_not_free [OF pw(2) fl] by (auto simp: uframe_def)
  qed
  show "user_space t pd sz" "user_space t d sz"
    using page [OF _ _ disjI1 [OF refl]] page [OF _ _ disjI2 [OF refl]] ap sz
    unfolding user_space_def apart_def by blast+
  moreover have "tab (pte_val (mem t) q w) \<notin> pt_pages (mem t) r"
    if w: "w < sz" and "q = pd \<or> q = d" "r = pd \<or> r = d" for q r w
    using page [OF upages_page [OF w] that(2,3)] pte_val_upage(2) [OF user_space_page(4) [OF us w]] by simp
  ultimately show "bystander t pd d sz" "bystander t d pd sz"
    using ap by (auto simp: bystander_def apart_def)
qed

text \<open>Everything that happens after the memory of a process has been forked.\<close>

lemma copyuvm_spaces:
  assumes "\<not> klocked s" "free_list s xs" "1025 < length xs" "kernel_layout (kdata s)"
    and "0x80000000 \<le> kend s" "user_space s pd sz" "counts_below s pd sz"
  obtains d t x zs where "copyuvm pd sz s = Ok (d, t)" "d \<noteq> 0" "free_list t (x # zs)" "\<not> klocked t"
    "0x80000000 \<le> kend t" "user_space t pd sz" "user_space t d sz" "bystander t pd d sz" "bystander t d pd sz"
    "\<forall>w < sz. uread (mem t) d w = uread (mem s) pd w \<and> uread (mem t) pd w = uread (mem s) pd w"
    "\<forall>w < sz. 1 < rCount t (V2P (tab (pte_val (mem t) d w))) \<and>
        tab (pte_val (mem t) pd w) = tab (pte_val (mem t) d w)"
proof -
  obtain d t ps zs where t: "copyuvm pd sz s = Ok (d, t\<lparr>cr3 := V2P pd\<rparr>)" "d \<noteq> 0" "xs = ps @ zs"
    "free_list t zs" "forked s t pd d sz ps" "same_config s t"
    using assms by (rule copyuvm_ok)
  have fl: "free_list s (ps @ zs)" using assms(2) t(3) by simp
  have "pt_pages (mem t) d = set ps" using t(5) by (simp add: forked_def)
  moreover have "wf_pgdir t d" using t(5) by (simp add: forked_def apart_def)
  ultimately have "card (set ps) \<le> 1025" using card_pt_pages [of "mem t" d] by simp
  moreover have "distinct ps" using fl by (simp add: free_list_def)
  ultimately have "length ps \<le> 1025" by (simp add: distinct_card)
  then obtain x zs' where z: "zs = x # zs'" using assms(3) t(3) by (cases zs) auto
  note sp = forked_spaces [OF t(5) assms(6) fl assms(7) t(6)]
  have v: "pte_val (mem t) d w = ro (pte_val (mem s) pd w)" "pte_val (mem t) pd w = ro (pte_val (mem s) pd w)"
    if "w < sz" for w
    using t(5) upages_page [OF that] by (simp_all add: forked_def)
  show thesis
  proof (rule that [OF t(1,2)])
    show "free_list (t\<lparr>cr3 := V2P pd\<rparr>) (x # zs')" using t(4) z by simp
    show "\<not> klocked (t\<lparr>cr3 := V2P pd\<rparr>)" "0x80000000 \<le> kend (t\<lparr>cr3 := V2P pd\<rparr>)"
      using assms(1,5) t(6) by (simp_all add: same_config_def)
    show "\<forall>w < sz. uread (mem (t\<lparr>cr3 := V2P pd\<rparr>)) d w = uread (mem s) pd w \<and>
        uread (mem (t\<lparr>cr3 := V2P pd\<rparr>)) pd w = uread (mem s) pd w"
      using forked_reads [OF t(5) assms(6) fl] by simp
    show "\<forall>w < sz. 1 < rCount (t\<lparr>cr3 := V2P pd\<rparr>) (V2P (tab (pte_val (mem (t\<lparr>cr3 := V2P pd\<rparr>)) d w))) \<and>
        tab (pte_val (mem (t\<lparr>cr3 := V2P pd\<rparr>)) pd w) = tab (pte_val (mem (t\<lparr>cr3 := V2P pd\<rparr>)) d w)"
      using forked_counts [OF t(5) assms(6) fl assms(7)] v by simp
  qed (use sp in simp_all)
qed

section \<open>Copy on write as the processes see it\<close>

text \<open>
  C1: copy-on-write fork is fork.  After \<open>copyuvm\<close> parent and child read the parent's old bytes
  everywhere.  A page fault of either at any user address is resolved by \<open>COW_FAULT\<close> without
  killing it, and the write that follows is seen by the writer at that address and by nobody
  else: all other reads of both processes still give the bytes from before the fork.
\<close>

theorem cow_fork_isolation:
  assumes "\<not> klocked s" "free_list s xs" "1025 < length xs" "kernel_layout (kdata s)"
    and "0x80000000 \<le> kend s" "user_space s pd sz" "counts_below s pd sz" "va < sz"
  shows "okp (\<lambda>d t. d \<noteq> 0 \<and>
      (\<forall>w < sz. uread (mem t) d w = uread (mem s) pd w \<and> uread (mem t) pd w = uread (mem s) pd w) \<and>
      okp (\<lambda>killed u. \<not> killed \<and> (\<forall>w < sz.
        uread (mem (uwrite d va c u)) d w = (if w = va then c else uread (mem s) pd w) \<and>
        uread (mem (uwrite d va c u)) pd w = uread (mem s) pd w)) (COW_FAULT d va t) \<and>
      okp (\<lambda>killed u. \<not> killed \<and> (\<forall>w < sz.
        uread (mem (uwrite pd va c u)) pd w = (if w = va then c else uread (mem s) pd w) \<and>
        uread (mem (uwrite pd va c u)) d w = uread (mem s) pd w)) (COW_FAULT pd va t))
    (copyuvm pd sz s)"
proof -
  obtain d t x zs where t: "copyuvm pd sz s = Ok (d, t)" "d \<noteq> 0" "free_list t (x # zs)" "\<not> klocked t"
    "0x80000000 \<le> kend t" "user_space t pd sz" "user_space t d sz" "bystander t pd d sz" "bystander t d pd sz"
    "\<forall>w < sz. uread (mem t) d w = uread (mem s) pd w \<and> uread (mem t) pd w = uread (mem s) pd w"
    "\<forall>w < sz. 1 < rCount t (V2P (tab (pte_val (mem t) d w))) \<and>
        tab (pte_val (mem t) pd w) = tab (pte_val (mem t) d w)"
    using assms(1-7) by (rule copyuvm_spaces)
  note c = t(11) [rule_format, OF assms(8)]
  show ?thesis
    using fault_write [OF t(4,5,3) assms(8) t(7,9), of c] fault_write [OF t(4,5,3) assms(8) t(6,8), of c]
      t(1,2,10) c
    by (auto elim!: okp_mono)
qed

theorem cow_fork_isolation_witness:
  "okp (\<lambda>d t. d \<noteq> 0 \<and>
      (\<forall>w < 4096. uread (mem t) d w = uread (mem (exst 1100)) exPD w \<and>
        uread (mem t) exPD w = uread (mem (exst 1100)) exPD w) \<and>
      okp (\<lambda>killed u. \<not> killed \<and> (\<forall>w < 4096.
        uread (mem (uwrite d 8 7 u)) d w = (if w = 8 then 7 else uread (mem (exst 1100)) exPD w) \<and>
        uread (mem (uwrite d 8 7 u)) exPD w = uread (mem (exst 1100)) exPD w)) (COW_FAULT d 8 t) \<and>
      okp (\<lambda>killed u. \<not> killed \<and> (\<forall>w < 4096.
        uread (mem (uwrite exPD 8 7 u)) exPD w = (if w = 8 then 7 else uread (mem (exst 1100)) exPD w) \<and>
        uread (mem (uwrite exPD 8 7 u)) d w = uread (mem (exst 1100)) exPD w)) (COW_FAULT exPD 8 t))
    (copyuvm exPD 4096 (exst 1100))"
proof (rule cow_fork_isolation)
  show "free_list (exst 1100) (exfree 1100)" by (rule exst_free_list) simp
  show "1025 < length (exfree 1100)" by (simp add: exfree_def)
qed (simp_all add: exst_user)

text \<open>
  C2: what fork costs and shares.  For a process whose pages are distinct, \<open>copyuvm\<close> maps every page
  of the parent in the child at the same address, read-only in both, with exactly one more reference
  per page; no user page is copied: the pages it takes from the free list are the child's
  page tables, each with one reference.
\<close>

theorem cow_fork_accounting:
  assumes "\<not> klocked s" "free_list s xs" "1025 < length xs" "kernel_layout (kdata s)"
    and "0x80000000 \<le> kend s" "user_space s pd sz" "counts_below s pd sz"
    and inj: "inj_on (uframe (mem s) pd) {j. j < upages sz}"
  shows "okp (\<lambda>d t. \<exists>ps zs. xs = ps @ zs \<and> free_list t zs \<and> pt_pages (mem t) d = set ps \<and>
      (\<forall>w < sz. pte_val (mem t) d w = NOT PTE_W AND pte_val (mem s) pd w \<and>
         pte_val (mem t) pd w = NOT PTE_W AND pte_val (mem s) pd w \<and>
         rCount t (V2P (tab (pte_val (mem s) pd w))) = rCount s (V2P (tab (pte_val (mem s) pd w))) + 1) \<and>
      (\<forall>f \<in> set ps. rCount t (V2P f) = 1))
    (copyuvm pd sz s)"
proof -
  obtain d t ps zs where t: "copyuvm pd sz s = Ok (d, t\<lparr>cr3 := V2P pd\<rparr>)" "d \<noteq> 0" "xs = ps @ zs"
    "free_list t zs" "forked s t pd d sz ps" "same_config s t"
    using assms(1-7) by (rule copyuvm_ok)
  have fl: "free_list s (ps @ zs)" using assms(2) t(3) by simp
  have rc: "rCount t (V2P g) = (if g \<in> set ps then 1 else rCount s (V2P g)) +
        of_nat (card {j. j < upages sz \<and> uframe (mem s) pd j = g})" if "page_aligned g" for g
    using t(5) that by (simp add: forked_def)
  have "rCount t (V2P (tab (pte_val (mem s) pd w))) = rCount s (V2P (tab (pte_val (mem s) pd w))) + 1"
    if w: "w < sz" for w
  proof -
    let ?k = "unat w div 4096"
    note pw = user_space_page [OF assms(6) w]
    have k: "?k < upages sz" by (rule upages_page [OF w])
    have fk: "tab (pte_val (mem s) pd w) = uframe (mem s) pd ?k" by (rule pte_val_upage(2) [OF pw(4)])
    have "{j. j < upages sz \<and> uframe (mem s) pd j = uframe (mem s) pd ?k} = {?k}"
      using k inj by (auto simp: inj_on_def)
    then show ?thesis
      using rc [OF tab_aligned, of "pte_val (mem s) pd w"] used_not_free [OF pw(2) fl] fk by simp
  qed
  moreover have "rCount t (V2P f) = 1" if f: "f \<in> set ps" for f
  proof -
    have "uframe (mem s) pd j \<noteq> f" if j: "j < upages sz" for j
      using assms(6) j used_not_free [OF _ fl] f by (auto simp: user_space_def)
    then have none: "{j. j < upages sz \<and> uframe (mem s) pd j = f} = {}" by auto
    have "page_aligned f" using fl f by (auto simp: free_list_def)
    from rc [OF this] show ?thesis using f by (simp add: none)
  qed
  moreover have "pte_val (mem t) d w = NOT PTE_W AND pte_val (mem s) pd w \<and>
         pte_val (mem t) pd w = NOT PTE_W AND pte_val (mem s) pd w" if "w < sz" for w
    using t(5) upages_page [OF that] by (simp add: forked_def ro_def)
  moreover have "pt_pages (mem t) d = set ps" using t(5) by (simp add: forked_def)
  ultimately show ?thesis
    unfolding t(1) okp_Ok using t(3,4) by (intro exI [of _ ps] exI [of _ zs]) simp
qed

theorem cow_fork_accounting_witness:
  "okp (\<lambda>d t. \<exists>ps zs. exfree 1100 = ps @ zs \<and> free_list t zs \<and> pt_pages (mem t) d = set ps \<and>
      (\<forall>w < 4096. pte_val (mem t) d w = NOT PTE_W AND pte_val (mem (exst 1100)) exPD w \<and>
         pte_val (mem t) exPD w = NOT PTE_W AND pte_val (mem (exst 1100)) exPD w \<and>
         rCount t (V2P (tab (pte_val (mem (exst 1100)) exPD w))) =
           rCount (exst 1100) (V2P (tab (pte_val (mem (exst 1100)) exPD w))) + 1) \<and>
      (\<forall>f \<in> set ps. rCount t (V2P f) = 1))
    (copyuvm exPD 4096 (exst 1100))"
proof (rule cow_fork_accounting)
  show "free_list (exst 1100) (exfree 1100)" by (rule exst_free_list) simp
  show "1025 < length (exfree 1100)" by (simp add: exfree_def)
  show "inj_on (uframe (mem (exst 1100)) exPD) {j. j < upages 4096}" by (simp add: upages_def inj_on_def)
qed (simp_all add: exst_user)

text \<open>
  C3: the page fault handler on a present user page, all three branches.  A page with one reference
  becomes writable in place, and memory, counts and free pages stay; a shared page is replaced by a
  fresh page with the same bytes, writable and with count one, the old page loses one
  reference; with no free page the process is marked killed and nothing changes.
\<close>

theorem COW_FAULT_branches:
  assumes "\<not> klocked s" "0x80000000 \<le> kend s" "free_list s xs" "user_space s pd sz" "va < sz"
  defines "e \<equiv> pte_val (mem s) pd va"
  shows "okp (\<lambda>killed t.
     if rCount s (V2P (tab e)) = 1 then
       \<not> killed \<and> pte_val (mem t) pd va = PTE_W OR e \<and> free_list t xs \<and>
       agree_on (- pt_pages (mem s) pd) (mem t) (mem s) \<and> page_rCount t = page_rCount s
     else case xs of
       [] \<Rightarrow> killed \<and> t = s
     | x # ys \<Rightarrow> \<not> killed \<and> pte_val (mem t) pd va = PTE_U OR PTE_W OR PTE_P OR V2P x \<and>
         free_list t ys \<and> (\<forall>w < sz. uread (mem t) pd w = uread (mem s) pd w) \<and>
         rCount t (V2P x) = 1 \<and> rCount t (V2P (tab e)) = rCount s (V2P (tab e)) - 1)
    (COW_FAULT pd va s)"
proof -
  note pw = user_space_page [OF assms(4,5), folded e_def]
  have wf: "wf_pgdir s pd" using assms(4) by (simp add: user_space_def)
  show ?thesis
  proof (cases "rCount s (V2P (tab e)) = 1")
    case True
    then obtain a where a: "COW_FAULT pd va s = Ok (False, (stmem a (PTE_W OR e) s)\<lparr>cr3 := V2P pd\<rparr>)"
      "pte_loc (mem s) pd va = Some a"
      using COW_FAULT_sole [OF assms(1,2) wf, of va] pw unfolding e_def by blast
    have x: "ext pd s (stmem a (PTE_W OR e) s) [] xs" by (rule ext_stmem [OF assms(3) wf a(2)])
    show ?thesis
      using True a store_pte(2,3) [OF wf a(2)] x by (simp add: ext_def stmem_def)
  next
    case False
    then have gt: "1 < rCount s (V2P (tab e))"
      using pw(2) by (simp add: used_def word_less_nat_alt word_unat_eq_iff)
    show ?thesis
    proof (cases xs)
      case Nil
      then show ?thesis
        using COW_FAULT_no_memory [OF assms(1,2) wf _ pw(1,2) [unfolded e_def]] assms(3) gt False
        by (simp add: e_def)
    next
      case (Cons x ys)
      have fx: "free_list s (x # ys)" using assms(3) Cons by simp
      have ax: "page_aligned x" "x \<noteq> tab e"
        using fx used_not_free [OF pw(2) fx] by (auto simp: free_list_def)
      obtain t where t: "COW_FAULT pd va s = Ok (False, t\<lparr>cr3 := V2P pd\<rparr>)" "privatised s t pd va x"
        "free_list t ys"
        using assms(1,2) wf fx pw(1-3) [unfolded e_def] gt [unfolded e_def] by (rule COW_FAULT_copy)
      have "rCount t (V2P x) = 1" "rCount t (V2P (tab e)) = rCount s (V2P (tab e)) - 1"
        using t(2) ax by (simp_all add: privatised_def e_def)
      moreover have "pte_val (mem t) pd va = PTE_U OR PTE_W OR PTE_P OR V2P x"
        using t(2) by (simp add: privatised_def)
      ultimately show ?thesis
        using False Cons t privatised_uread [OF t(2) assms(4) fx _ assms(5)] by simp
    qed
  qed
qed

theorem COW_FAULT_branches_witness:
  "okp (\<lambda>killed t. \<not> killed \<and> pte_val (mem t) exPD 8 = PTE_W OR pte_val (mem (exst 2)) exPD 8)
    (COW_FAULT exPD 8 (exst 2))"
proof -
  have p: "pte_val (mem (exst 2)) exPD 8 = 0x00302007"
    using pte_val_same_page [of 8 0] exst_space(3) [of 2] by (simp add: PGROUNDDOWN_def PGSIZE_def)
  have "rCount (exst 2) (V2P (tab (pte_val (mem (exst 2)) exPD 8))) = 1"
    using exst_pages(2) [of 2 exUP] by (simp add: p ex_present)
  moreover have "(8 :: u32) < 4096" by simp
  ultimately show ?thesis
    using COW_FAULT_branches [OF exst_user(4,5) exst_free_list exst_user(1), of 2 8]
    by (auto elim!: okp_mono)
qed

text \<open>
  C4: the handler trusts the faulting address.  An access to an address without a page table
  makes the kernel dereference a null pointer, and an access to an address whose entry is 0, for
  example just beyond the end of the process, makes the kernel panic: a user program can stop the
  kernel.
\<close>

theorem COW_FAULT_wild_address:
  assumes "wf_pgdir s pd" "pte_val (mem s) pd va = 0" "0x80000000 < kend s"
  shows "COW_FAULT pd va s = Undefined ''COW_FAULT: null pte'' \<or>
    COW_FAULT pd va s = Panic ''getReferenceCount''"
proof (cases "pte_loc (mem s) pd va")
  case None
  then show ?thesis by (simp add: COW_FAULT_no_table)
next
  case (Some a)
  have "V2P (kend s) \<noteq> 0" using assms(3) by (auto simp: V2P_def layout_defs)
  then have "bad_pa s (PTE_ADDR (pte_val (mem s) pd va))"
    unfolding assms(2) by (simp add: bad_pa_def PTE_ADDR_def word_less_nat_alt unat_gt_0)
  then show ?thesis using COW_FAULT_unmapped [OF assms(1) Some] by simp
qed

theorem COW_FAULT_wild_address_witness:
  "COW_FAULT exPD 0x5000 (exst 2) = Undefined ''COW_FAULT: null pte'' \<or>
    COW_FAULT exPD 0x5000 (exst 2) = Panic ''getReferenceCount''"
proof (rule COW_FAULT_wild_address)
  show "wf_pgdir (exst 2) exPD" by (rule exst_space) simp
  show "0x80000000 < kend (exst 2)" by (simp add: exst_def)
  have "pte_val exmem0 exPD 0x5000 = 0"
    using ex_present slot_word_aligned [of exPT 5]
    by (simp add: pte_val_def pte_loc_def PDX_def PTX_def ex_pde exmem0_word layout_defs)
       (simp add: ex_addrs)
  moreover have "pt_pages exmem0 exPD = {exPD, exPT}"
    using pt_pages_agree [OF exst_agree, of 2 exPD] exst_space(1) [of 2] by simp
  ultimately show "pte_val (mem (exst 2)) exPD 0x5000 = 0"
    using pte_val_agree [OF exst_agree, of 2 exPD "0x5000"] by simp
qed

end
