(* ===== verification/Spinlock.thy ===== *)
theory Spinlock
  imports Prelude
begin

text \<open>
  Spin locks and the matched interrupt disabling of \<open>spinlock.c\<close>.  The state has every CPU's
  \<open>ncli\<close>, \<open>intena\<close> and interrupt flag, and every lock's \<open>locked\<close> and \<open>cpu\<close> fields; the
  functions take the number of the CPU that runs them.  \<open>acquire\<close> is the call of a CPU that nobody
  runs beside; the relation \<open>lstep\<close> interleaves the instructions of all CPUs on
  one lock, and mutual exclusion is an invariant of it.
\<close>

section \<open>State\<close>

datatype lockid =
    PTABLE | TICKSLOCK | KMEM | BCACHE | ICACHE | FTABLE | LOGLOCK | CONS | IDELOCK
  | PIPELOCK nat | SLEEPLK nat

record cpu =
  ncli :: int        \<comment> \<open>depth of \<open>pushcli\<close> nesting\<close>
  intena :: bool     \<comment> \<open>were interrupts enabled before \<open>pushcli\<close>?\<close>
  fl_if :: bool      \<comment> \<open>the interrupt flag of \<open>eflags\<close>\<close>

record spinlock =
  locked :: bool
  lcpu :: "nat option"   \<comment> \<open>the CPU holding the lock\<close>

record lockst =
  cpus :: "nat \<Rightarrow> cpu"
  locks :: "lockid \<Rightarrow> spinlock"

definition upd_cpu :: "nat \<Rightarrow> (cpu \<Rightarrow> cpu) \<Rightarrow> lockst \<Rightarrow> lockst" where
  "upd_cpu c f s = s\<lparr>cpus := (cpus s)(c := f (cpus s c))\<rparr>"

definition upd_lock :: "lockid \<Rightarrow> (spinlock \<Rightarrow> spinlock) \<Rightarrow> lockst \<Rightarrow> lockst" where
  "upd_lock l f s = s\<lparr>locks := (locks s)(l := f (locks s l))\<rparr>"

section \<open>Operations\<close>

definition initlock :: "lockid \<Rightarrow> (lockst, unit) kern" where
  "initlock l = modk (upd_lock l (\<lambda>k. k\<lparr>locked := False, lcpu := None\<rparr>))"

definition pushcli :: "nat \<Rightarrow> (lockst, unit) kern" where
  "pushcli c = (\<lambda>s.
     let eflags = fl_if (cpus s c);
         s1 = upd_cpu c (\<lambda>p. p\<lparr>fl_if := False\<rparr>) s;
         s2 = (if ncli (cpus s1 c) = 0 then upd_cpu c (\<lambda>p. p\<lparr>intena := eflags\<rparr>) s1 else s1) in
     Ok ((), upd_cpu c (\<lambda>p. p\<lparr>ncli := ncli p + 1\<rparr>) s2))"

definition popcli :: "nat \<Rightarrow> (lockst, unit) kern" where
  "popcli c = (\<lambda>s.
     if fl_if (cpus s c) then Panic ''popcli - interruptible''
     else let s1 = upd_cpu c (\<lambda>p. p\<lparr>ncli := ncli p - 1\<rparr>) s in
       if ncli (cpus s1 c) < 0 then Panic ''popcli''
       else if ncli (cpus s1 c) = 0 \<and> intena (cpus s1 c)
         then Ok ((), upd_cpu c (\<lambda>p. p\<lparr>fl_if := True\<rparr>) s1)
         else Ok ((), s1))"

definition holding :: "nat \<Rightarrow> lockid \<Rightarrow> (lockst, bool) kern" where
  "holding c l =
     seqk (pushcli c)
       (bindk (getk (\<lambda>s. locked (locks s l) \<and> lcpu (locks s l) = Some c)) (\<lambda>r.
          seqk (popcli c) (ret r)))"

text \<open>One \<open>xchg\<close>; the result says whether the lock was free.\<close>

definition xchg :: "lockid \<Rightarrow> (lockst, bool) kern" where
  "xchg l = (\<lambda>s. Ok (\<not> locked (locks s l), upd_lock l (\<lambda>k. k\<lparr>locked := True\<rparr>) s))"

definition acquire_enter :: "nat \<Rightarrow> lockid \<Rightarrow> (lockst, unit) kern" where
  "acquire_enter c l =
     seqk (pushcli c) (bindk (holding c l) (\<lambda>h. if h then panic ''acquire'' else ret ()))"

definition acquire_done :: "nat \<Rightarrow> lockid \<Rightarrow> (lockst, unit) kern" where
  "acquire_done c l = modk (upd_lock l (\<lambda>k. k\<lparr>lcpu := Some c\<rparr>))"

definition acquire :: "nat \<Rightarrow> lockid \<Rightarrow> (lockst, unit) kern" where
  "acquire c l =
     seqk (acquire_enter c l)
       (bindk (xchg l) (\<lambda>free. if free then acquire_done c l else divergesk))"

definition release_enter :: "nat \<Rightarrow> lockid \<Rightarrow> (lockst, unit) kern" where
  "release_enter c l = bindk (holding c l) (\<lambda>h.
     if \<not> h then panic ''release''
     else modk (upd_lock l (\<lambda>k. k\<lparr>lcpu := None\<rparr>)))"

definition release_done :: "nat \<Rightarrow> lockid \<Rightarrow> (lockst, unit) kern" where
  "release_done c l =
     seqk (modk (upd_lock l (\<lambda>k. k\<lparr>locked := False\<rparr>))) (popcli c)"

definition release :: "nat \<Rightarrow> lockid \<Rightarrow> (lockst, unit) kern" where
  "release c l = seqk (release_enter c l) (release_done c l)"

section \<open>Matched interrupt disabling\<close>

lemma upd_cpu_simps [simp]:
  "cpus (upd_cpu c f s) c = f (cpus s c)" "c' \<noteq> c \<Longrightarrow> cpus (upd_cpu c f s) c' = cpus s c'"
  "locks (upd_cpu c f s) = locks s" "cpus (upd_lock l g s) = cpus s"
  "locks (upd_lock l g s) l = g (locks s l)" "l' \<noteq> l \<Longrightarrow> locks (upd_lock l g s) l' = locks s l'"
  "upd_cpu c f (upd_cpu c f' s) = upd_cpu c (\<lambda>p. f (f' p)) s"
  "upd_lock l g (upd_lock l g' s) = upd_lock l (\<lambda>k. g (g' k)) s"
  by (simp_all add: upd_cpu_def upd_lock_def)

text \<open>The condition every CPU keeps: inside a \<open>pushcli\<close> interrupts are off.\<close>

definition cpu_ok :: "cpu \<Rightarrow> bool" where
  "cpu_ok p \<longleftrightarrow> 0 \<le> ncli p \<and> (0 < ncli p \<longrightarrow> \<not> fl_if p)"

definition push1 :: "cpu \<Rightarrow> cpu" where
  "push1 p = p\<lparr>ncli := ncli p + 1, intena := (if ncli p = 0 then fl_if p else intena p), fl_if := False\<rparr>"

definition pop1 :: "cpu \<Rightarrow> cpu" where
  "pop1 p = p\<lparr>ncli := ncli p - 1, fl_if := (ncli p = 1 \<and> intena p)\<rparr>"

lemma pushcli_eq: "pushcli c s = Ok ((), upd_cpu c push1 s)"
  by (cases "cpus s c") (simp add: pushcli_def Let_def upd_cpu_def push1_def)

lemma popcli_eq:
  "cpu_ok (cpus s c) \<Longrightarrow> 0 < ncli (cpus s c) \<Longrightarrow> popcli c s = Ok ((), upd_cpu c pop1 s)"
  by (cases "cpus s c") (auto simp: popcli_def Let_def cpu_ok_def upd_cpu_def pop1_def)

lemma cpu_ok_push1 [simp]: "cpu_ok p \<Longrightarrow> cpu_ok (push1 p)"
  by (simp add: cpu_ok_def push1_def)

lemma ncli_push1 [simp]: "ncli (push1 p) = ncli p + 1" and ncli_pop1 [simp]: "ncli (pop1 p) = ncli p - 1"
  by (simp_all add: push1_def pop1_def)

lemma cpu_ok_pop1 [simp]: "cpu_ok p \<Longrightarrow> 0 < ncli p \<Longrightarrow> cpu_ok (pop1 p)"
  by (auto simp: cpu_ok_def pop1_def)

lemma pop1_push1:
  "cpu_ok p \<Longrightarrow> pop1 (push1 p) = p\<lparr>intena := (if ncli p = 0 then fl_if p else intena p)\<rparr>"
  by (auto simp: cpu_ok_def push1_def pop1_def)

lemma pop1_push1_nested: "cpu_ok p \<Longrightarrow> 0 < ncli p \<Longrightarrow> pop1 (push1 p) = p"
  by (simp add: pop1_push1)

lemma upd_cpu_id: "f (cpus s c) = cpus s c \<Longrightarrow> upd_cpu c f s = s"
  by (simp add: upd_cpu_def fun_upd_idem)

definition holds :: "lockst \<Rightarrow> nat \<Rightarrow> lockid \<Rightarrow> bool" where
  "holds s c l \<longleftrightarrow> locked (locks s l) \<and> lcpu (locks s l) = Some c"

lemma holding_nested:
  assumes "cpu_ok (cpus s c)" "0 < ncli (cpus s c)"
  shows "holding c l s = Ok (holds s c l, s)"
  using assms
  by (simp add: holding_def kern_simps pushcli_eq popcli_eq holds_def pop1_push1_nested upd_cpu_id)

definition acquired :: "nat \<Rightarrow> lockid \<Rightarrow> lockst \<Rightarrow> lockst" where
  "acquired c l s = upd_lock l (\<lambda>k. k\<lparr>locked := True, lcpu := Some c\<rparr>) (upd_cpu c push1 s)"

definition released :: "nat \<Rightarrow> lockid \<Rightarrow> lockst \<Rightarrow> lockst" where
  "released c l s = upd_cpu c pop1 (upd_lock l (\<lambda>k. k\<lparr>lcpu := None, locked := False\<rparr>) s)"

lemma cpu_ok_ncli: "cpu_ok p \<Longrightarrow> 0 < ncli p + 1"
  by (simp add: cpu_ok_def)

lemma acquire_enter_eq:
  assumes "cpu_ok (cpus s c)"
  shows "acquire_enter c l s = (if holds s c l then Panic ''acquire'' else Ok ((), upd_cpu c push1 s))"
  using assms cpu_ok_ncli [OF assms]
  by (simp add: acquire_enter_def kern_simps pushcli_eq holding_nested holds_def)

lemma acquire_free:
  assumes "cpu_ok (cpus s c)" "\<not> locked (locks s l)"
  shows "acquire c l s = Ok ((), acquired c l s)"
  using assms
  by (simp add: acquire_def kern_simps acquire_enter_eq holds_def xchg_def acquire_done_def acquired_def)

lemma acquire_twice:
  assumes "cpu_ok (cpus s c)" "holds s c l" shows "acquire c l s = Panic ''acquire''"
  using assms by (simp add: acquire_def kern_simps acquire_enter_eq)

lemma release_held:
  assumes "cpu_ok (cpus s c)" "0 < ncli (cpus s c)" "holds s c l"
  shows "release c l s = Ok ((), released c l s)"
  using assms
  by (simp add: release_def release_enter_def release_done_def kern_simps holding_nested popcli_eq released_def)

lemma release_not_held:
  assumes "cpu_ok (cpus s c)" "\<not> holds s c l" shows "release c l s = Panic ''release''"
  using assms cpu_ok_ncli [OF assms(1)]
  by (simp add: release_def release_enter_def kern_defs pushcli_eq holding_def popcli_eq holds_def)

lemma acquired_facts [simp]:
  "holds (acquired c l s) c l" "ncli (cpus (acquired c l s) c) = ncli (cpus s c) + 1"
  "cpu_ok (cpus s c) \<Longrightarrow> cpu_ok (cpus (acquired c l s) c)"
  "l' \<noteq> l \<Longrightarrow> locks (acquired c l s) l' = locks s l'"
  by (simp_all add: acquired_def holds_def)

section \<open>All CPUs on one lock\<close>

text \<open>
  Where a CPU stands with respect to the lock: it spins in \<open>acquire\<close>, has done the successful
  \<open>xchg\<close>, is in the critical section (\<open>lk->cpu\<close> set), or has cleared \<open>lk->cpu\<close> in \<open>release\<close>.
\<close>

datatype lpc = Outside | Spinning | Took | Inside | Leaving

type_synonym lconf = "lockst \<times> (nat \<Rightarrow> lpc)"

inductive lstep :: "lockid \<Rightarrow> lconf \<Rightarrow> lconf \<Rightarrow> bool" for l where
  enter: "pc c = Outside \<Longrightarrow> acquire_enter c l s = Ok ((), t) \<Longrightarrow> lstep l (s, pc) (t, pc(c := Spinning))"
| spin: "pc c = Spinning \<Longrightarrow> xchg l s = Ok (False, t) \<Longrightarrow> lstep l (s, pc) (t, pc)"
| take: "pc c = Spinning \<Longrightarrow> xchg l s = Ok (True, t) \<Longrightarrow> lstep l (s, pc) (t, pc(c := Took))"
| mark: "pc c = Took \<Longrightarrow> acquire_done c l s = Ok ((), t) \<Longrightarrow> lstep l (s, pc) (t, pc(c := Inside))"
| unmark: "pc c = Inside \<Longrightarrow> release_enter c l s = Ok ((), t) \<Longrightarrow> lstep l (s, pc) (t, pc(c := Leaving))"
| leave: "pc c = Leaving \<Longrightarrow> release_done c l s = Ok ((), t) \<Longrightarrow> lstep l (s, pc) (t, pc(c := Outside))"

definition owns :: "lpc \<Rightarrow> bool" where
  "owns q \<longleftrightarrow> q = Took \<or> q = Inside \<or> q = Leaving"

definition lock_inv :: "lockid \<Rightarrow> lconf \<Rightarrow> bool" where
  "lock_inv l = (\<lambda>(s, pc).
     (\<forall>c. cpu_ok (cpus s c) \<and> (pc c \<noteq> Outside \<longrightarrow> 0 < ncli (cpus s c))) \<and>
     (\<forall>c d. owns (pc c) \<longrightarrow> owns (pc d) \<longrightarrow> c = d) \<and>
     (locked (locks s l) \<longleftrightarrow> (\<exists>c. owns (pc c))) \<and>
     (\<forall>c. lcpu (locks s l) = Some c \<longleftrightarrow> pc c = Inside))"

definition lock_init :: lconf where
  "lock_init = (\<lparr>cpus = (\<lambda>_. \<lparr>ncli = 0, intena = False, fl_if = True\<rparr>),
     locks = (\<lambda>_. \<lparr>locked = False, lcpu = None\<rparr>)\<rparr>, \<lambda>_. Outside)"

inductive lreach :: "lockid \<Rightarrow> lconf \<Rightarrow> bool" for l where
  start: "lreach l lock_init"
| next_step: "lreach l k \<Longrightarrow> lstep l k k' \<Longrightarrow> lreach l k'"

lemma lock_inv_init: "lock_inv l lock_init"
  by (simp add: lock_inv_def lock_init_def cpu_ok_def owns_def)

lemma owns_simps [simp]:
  "owns Took" "owns Inside" "owns Leaving" "\<not> owns Outside" "\<not> owns Spinning"
  by (simp_all add: owns_def)

lemma lock_inv_step: "lock_inv l (s, pc) \<Longrightarrow> lstep l (s, pc) (t, pc') \<Longrightarrow> lock_inv l (t, pc')"
proof -
  assume inv: "lock_inv l (s, pc)"
  then have ok: "cpu_ok (cpus s c)" and nest: "pc c \<noteq> Outside \<Longrightarrow> 0 < ncli (cpus s c)"
    and one: "owns (pc c) \<Longrightarrow> owns (pc d) \<Longrightarrow> c = d"
    and lk: "locked (locks s l) \<longleftrightarrow> (\<exists>c. owns (pc c))"
    and own: "lcpu (locks s l) = Some c \<longleftrightarrow> pc c = Inside" for c d
    by (auto simp: lock_inv_def)
  assume "lstep l (s, pc) (t, pc')"
  then show ?thesis
  proof (cases rule: lstep.cases)
    case (enter c)
    then have t: "t = upd_cpu c push1 s"
      using ok [of c] by (simp add: acquire_enter_eq split: if_splits)
    have "cpu_ok (cpus t d) \<and> ((pc(c := Spinning)) d \<noteq> Outside \<longrightarrow> 0 < ncli (cpus t d))" for d
      using ok nest [of d] cpu_ok_ncli [OF ok] by (cases "d = c") (simp_all add: t)
    moreover have "owns ((pc(c := Spinning)) d) = owns (pc d)"
      "((pc(c := Spinning)) d = Inside) = (pc d = Inside)" for d
      using enter by simp_all
    ultimately show ?thesis
      using one lk own enter unfolding lock_inv_def by (simp add: t)
  next
    case (spin c)
    then have "upd_lock l (\<lambda>k. k\<lparr>locked := True\<rparr>) s = s"
      by (cases "locks s l") (simp add: xchg_def upd_lock_def fun_upd_idem)
    then show ?thesis using spin inv by (simp add: xchg_def)
  next
    case (take c)
    then have t: "t = upd_lock l (\<lambda>k. k\<lparr>locked := True\<rparr>) s" and free: "\<not> locked (locks s l)"
      by (auto simp: xchg_def)
    have "\<not> owns (pc d)" for d using free lk by auto
    then show ?thesis using ok nest own take by (auto simp: lock_inv_def t)
  next
    case (mark c)
    then have t: "t = upd_lock l (\<lambda>k. k\<lparr>lcpu := Some c\<rparr>) s" by (simp add: acquire_done_def kern_simps)
    have "d = c" if "owns (pc d)" for d using one [of d c] that mark by simp
    moreover have "locked (locks s l)" using lk mark owns_simps(1) by metis
    ultimately show ?thesis using ok nest mark one by (auto simp: lock_inv_def t)
  next
    case (unmark c)
    then have t: "t = upd_lock l (\<lambda>k. k\<lparr>lcpu := None\<rparr>) s"
      using ok [of c] nest [of c] by (auto simp: release_enter_def kern_defs holding_nested split: if_splits)
    have "d = c" if "owns (pc d)" for d using one [of d c] that unmark by simp
    moreover have "locked (locks s l)" using lk unmark owns_simps(2) by metis
    ultimately show ?thesis using ok nest unmark one by (auto simp: lock_inv_def t)
  next
    case (leave c)
    let ?s = "upd_lock l (\<lambda>k. k\<lparr>locked := False\<rparr>) s"
    have t: "t = upd_cpu c pop1 ?s"
      using leave ok [of c] nest [of c]
      by (simp add: release_done_def kern_simps popcli_eq)
    have only: "d = c" if "owns (pc d)" for d using one [of d c] that leave by simp
    have "cpu_ok (cpus t d) \<and> ((pc(c := Outside)) d \<noteq> Outside \<longrightarrow> 0 < ncli (cpus t d))" for d
      using ok nest [of d] leave by (cases "d = c") (simp_all add: t)
    moreover have "\<not> owns ((pc(c := Outside)) d)" for d using only [of d] by auto
    moreover have "lcpu (locks s l) = Some d \<longleftrightarrow> False" for d
      using own [of d] only [of d] leave by auto
    ultimately show ?thesis using leave only by (auto simp: lock_inv_def t)
  qed
qed

lemma lreach_inv: "lreach l k \<Longrightarrow> lock_inv l k"
proof (induction rule: lreach.induct)
  case start
  then show ?case by (rule lock_inv_init)
next
  case (next_step k k')
  then show ?case by (cases k; cases k') (auto intro: lock_inv_step)
qed

text \<open>
  C11: mutual exclusion.  In every interleaving of the instructions of \<open>acquire\<close> and \<open>release\<close> on
  any number of CPUs, at most one CPU is in the critical section, interrupts of every CPU between
  \<open>acquire\<close> and \<open>release\<close> are off, and the CPU in the critical section can always release without
  a panic.
\<close>

theorem spinlock_mutual_exclusion:
  assumes "lreach l (s, pc)" "pc c = Inside"
  shows "(pc d = Inside \<longrightarrow> d = c) \<and> (pc d \<noteq> Outside \<longrightarrow> \<not> fl_if (cpus s d)) \<and>
    release c l s = Ok ((), released c l s)"
proof -
  have inv: "lock_inv l (s, pc)" using assms(1) by (rule lreach_inv)
  have lk: "locked (locks s l) \<longleftrightarrow> (\<exists>c. owns (pc c))" "lcpu (locks s l) = Some c"
    using inv assms(2) by (simp_all add: lock_inv_def)
  have o: "owns (pc c)" using assms(2) by simp
  then have h: "holds s c l" using lk by (auto simp: holds_def)
  have c: "cpu_ok (cpus s d)" "pc d \<noteq> Outside \<Longrightarrow> 0 < ncli (cpus s d)" for d
    using inv by (auto simp: lock_inv_def)
  have "pc d = Inside \<longrightarrow> d = c"
    using inv o by (auto simp: lock_inv_def)
  then show ?thesis
    using c(1) [of d] c(2) [of d] release_held [OF c(1) c(2) h] assms(2) by (simp add: cpu_ok_def)
qed

text \<open>CPU 0 in the critical section while CPU 1 spins.\<close>

definition ex_lock1 :: lockst where
  "ex_lock1 = upd_cpu 1 push1 (upd_cpu 0 push1 (fst lock_init))"

definition ex_lock2 :: lockst where
  "ex_lock2 = upd_lock PTABLE (\<lambda>k. k\<lparr>lcpu := Some 0\<rparr>) (upd_lock PTABLE (\<lambda>k. k\<lparr>locked := True\<rparr>) ex_lock1)"

definition ex_pc :: "nat \<Rightarrow> lpc" where
  "ex_pc = (\<lambda>_. Outside)(0 := Inside, 1 := Spinning)"

lemma ex_lock_reachable: "lreach PTABLE (ex_lock2, ex_pc)"
proof -
  let ?o = "\<lambda>_ :: nat. Outside" and ?s0 = "fst lock_init"
  have i: "lock_init = (?s0, ?o)" by (simp add: lock_init_def)
  have ok: "cpu_ok (cpus ?s0 c)" "\<not> locked (locks ?s0 l)" for c l
    by (simp_all add: lock_init_def cpu_ok_def)
  have r0: "lreach PTABLE (?s0, ?o)" using lreach.start i by metis
  have "acquire_enter 0 PTABLE ?s0 = Ok ((), upd_cpu 0 push1 ?s0)"
    using ok by (simp add: acquire_enter_eq holds_def)
  from lreach.next_step [OF r0 lstep.enter [OF _ this]]
  have r1: "lreach PTABLE (upd_cpu 0 push1 ?s0, ?o(0 := Spinning))" by simp
  have "acquire_enter 1 PTABLE (upd_cpu 0 push1 ?s0) = Ok ((), ex_lock1)"
    using ok by (simp add: acquire_enter_eq holds_def ex_lock1_def)
  from lreach.next_step [OF r1 lstep.enter [OF _ this]]
  have r2: "lreach PTABLE (ex_lock1, ?o(0 := Spinning, 1 := Spinning))" by simp
  have "xchg PTABLE ex_lock1 = Ok (True, upd_lock PTABLE (\<lambda>k. k\<lparr>locked := True\<rparr>) ex_lock1)"
    using ok by (simp add: xchg_def ex_lock1_def)
  from lreach.next_step [OF r2 lstep.take [OF _ this, of _ 0]]
  have r3: "lreach PTABLE (upd_lock PTABLE (\<lambda>k. k\<lparr>locked := True\<rparr>) ex_lock1,
      ?o(0 := Spinning, 1 := Spinning, 0 := Took))" by simp
  have "acquire_done 0 PTABLE (upd_lock PTABLE (\<lambda>k. k\<lparr>locked := True\<rparr>) ex_lock1) = Ok ((), ex_lock2)"
    by (simp add: acquire_done_def kern_simps ex_lock2_def)
  from lreach.next_step [OF r3 lstep.mark [OF _ this]]
  have "lreach PTABLE (ex_lock2, ?o(0 := Spinning, 1 := Spinning, 0 := Took, 0 := Inside))" by simp
  moreover have "?o(0 := Spinning, 1 := Spinning, 0 := Took, 0 := Inside) = ex_pc"
    by (auto simp: ex_pc_def)
  ultimately show ?thesis by simp
qed

theorem spinlock_mutual_exclusion_witness:
  "ex_pc 1 \<noteq> Inside \<and> \<not> fl_if (cpus ex_lock2 1) \<and>
    release 0 PTABLE ex_lock2 = Ok ((), released 0 PTABLE ex_lock2)"
  using spinlock_mutual_exclusion [OF ex_lock_reachable, of 0 1] by (simp add: ex_pc_def)

end
