(* ===== verification/Proc.thy ===== *)
theory Proc
  imports Spinlock Cstring
begin

text \<open>
  Processes: the process table and the part of \<open>proc.c\<close> that both kernels share word for word
  (\<open>sched\<close>, \<open>yield\<close>, \<open>sleep\<close>, \<open>wakeup\<close>, \<open>kill\<close>, and the loops of \<open>exit\<close> and \<open>wait\<close> over the
  children).  The scheduling kernel extends the record
  \<open>proc\<close> with its bookkeeping, so the operations here are polymorphic in the extension.
  Pointers to processes are indices of the process table.  A function that gives up the CPU is
  split at the context switch: \<open>sleep_enter\<close> is the code of \<open>sleep\<close> up to \<open>swtch\<close>, \<open>sleep_exit\<close> the code
  after the process has been switched back to.
\<close>

section \<open>State\<close>

text \<open>
  Sleep channels are addresses of kernel objects; only their identity matters.
\<close>

datatype chan =
    NoChan | ChanTicks | ChanProc nat | ChanRead nat | ChanWrite nat | ChanBuf nat | ChanSleep nat
  | ChanLog | ChanInput

datatype procstate = UNUSED | EMBRYO | SLEEPING | RUNNABLE | RUNNING | ZOMBIE

record proc =
  p_sz :: u32
  p_pgdir :: u32
  p_kstack :: u32
  p_state :: procstate
  p_pid :: u32
  p_parent :: "nat option"
  p_tf :: u32                  \<comment> \<open>address of the trap frame\<close>
  p_context :: u32             \<comment> \<open>address of the saved context\<close>
  p_chan :: chan
  p_killed :: bool
  p_ofile :: "nat option list" \<comment> \<open>indices of the file table\<close>
  p_cwd :: "nat option"        \<comment> \<open>index of the inode cache\<close>
  p_name :: bytes

definition NPROC :: nat where "NPROC = 64"

text \<open>The CPU that runs the code is CPU 0; \<open>cproc\<close> is its \<open>proc\<close> field.\<close>

record 'p pst =
  lk :: lockst
  ptable :: "'p list"
  nextpid :: u32
  initproc :: "nat option"
  ticks :: u32
  cproc :: "nat option"

type_synonym ('a, 'x, 'r) pkern = "(('a proc_scheme, 'x) pst_scheme, 'r) kern"

section \<open>Locks and the current process\<close>

definition acquirep :: "lockid \<Rightarrow> ('a, 'x, unit) pkern" where
  "acquirep l = zoomk lk (\<lambda>k s. s\<lparr>lk := k\<rparr>) (acquire 0 l)"

definition releasep :: "lockid \<Rightarrow> ('a, 'x, unit) pkern" where
  "releasep l = zoomk lk (\<lambda>k s. s\<lparr>lk := k\<rparr>) (release 0 l)"

definition upd_proc :: "nat \<Rightarrow> ('a proc_scheme \<Rightarrow> 'a proc_scheme) \<Rightarrow>
    ('a proc_scheme, 'x) pst_scheme \<Rightarrow> ('a proc_scheme, 'x) pst_scheme" where
  "upd_proc i f s = s\<lparr>ptable := (ptable s)[i := f (ptable s ! i)]\<rparr>"

definition myproc :: "('a, 'x, nat) pkern" where
  "myproc = (\<lambda>s. case cproc s of None \<Rightarrow> Undefined ''myproc: null'' | Some i \<Rightarrow> Ok (i, s))"

section \<open>Giving up the CPU\<close>

text \<open>The result is the value of \<open>intena\<close> that \<open>sched\<close> saves and restores.\<close>

definition sched_enter :: "('a, 'x, bool) pkern" where
  "sched_enter = bindk myproc (\<lambda>i s.
     if \<not> holds (lk s) 0 PTABLE then Panic ''sched ptable.lock''
     else if ncli (cpus (lk s) 0) \<noteq> 1 then Panic ''sched locks''
     else if p_state (ptable s ! i) = RUNNING then Panic ''sched running''
     else if fl_if (cpus (lk s) 0) then Panic ''sched interruptible''
     else Ok (intena (cpus (lk s) 0), s))"

definition sched_exit :: "bool \<Rightarrow> ('a, 'x, unit) pkern" where
  "sched_exit b = modk (\<lambda>s. s\<lparr>lk := upd_cpu 0 (\<lambda>c. c\<lparr>intena := b\<rparr>) (lk s)\<rparr>)"

definition yield_enter :: "('a, 'x, bool) pkern" where
  "yield_enter =
     seqk (acquirep PTABLE)
       (bindk myproc (\<lambda>i. seqk (modk (upd_proc i (\<lambda>p. p\<lparr>p_state := RUNNABLE\<rparr>))) sched_enter))"

definition yield_exit :: "bool \<Rightarrow> ('a, 'x, unit) pkern" where
  "yield_exit b = seqk (sched_exit b) (releasep PTABLE)"

definition sleep_enter :: "chan \<Rightarrow> lockid \<Rightarrow> ('a, 'x, bool) pkern" where
  "sleep_enter ch l = (\<lambda>s. case cproc s of
       None \<Rightarrow> Panic ''sleep''
     | Some i \<Rightarrow>
         seqk (whenk (l \<noteq> PTABLE) (seqk (acquirep PTABLE) (releasep l)))
           (seqk (modk (upd_proc i (\<lambda>p. p\<lparr>p_chan := ch, p_state := SLEEPING\<rparr>))) sched_enter) s)"

definition sleep_exit :: "bool \<Rightarrow> lockid \<Rightarrow> ('a, 'x, unit) pkern" where
  "sleep_exit b l =
     seqk (sched_exit b)
       (bindk myproc (\<lambda>i.
          seqk (modk (upd_proc i (\<lambda>p. p\<lparr>p_chan := NoChan\<rparr>)))
            (whenk (l \<noteq> PTABLE) (seqk (releasep PTABLE) (acquirep l)))))"

section \<open>Waking up and killing\<close>

definition wake :: "chan \<Rightarrow> 'a proc_scheme \<Rightarrow> 'a proc_scheme" where
  "wake ch p = (if p_state p = SLEEPING \<and> p_chan p = ch then p\<lparr>p_state := RUNNABLE\<rparr> else p)"

definition wakeup1 :: "chan \<Rightarrow> ('a, 'x, unit) pkern" where
  "wakeup1 ch = modk (\<lambda>s. s\<lparr>ptable := map (wake ch) (ptable s)\<rparr>)"

definition wakeup :: "chan \<Rightarrow> ('a, 'x, unit) pkern" where
  "wakeup ch = seqk (acquirep PTABLE) (seqk (wakeup1 ch) (releasep PTABLE))"

definition kill1 :: "'a proc_scheme \<Rightarrow> 'a proc_scheme" where
  "kill1 p = p\<lparr>p_killed := True,
     p_state := (if p_state p = SLEEPING then RUNNABLE else p_state p)\<rparr>"

definition kill :: "u32 \<Rightarrow> ('a, 'x, int) pkern" where
  "kill pid =
     seqk (acquirep PTABLE) (\<lambda>s.
       case find_index (\<lambda>p. p_pid p = pid) (ptable s) of
         Some i \<Rightarrow> seqk (modk (upd_proc i kill1)) (seqk (releasep PTABLE) (ret 0)) s
       | None \<Rightarrow> seqk (releasep PTABLE) (ret (-1)) s)"

section \<open>Kernel stacks, children\<close>

definition KSTACKSIZE :: u32 where "KSTACKSIZE = 4096"
definition SIZEOF_TRAPFRAME :: u32 where "SIZEOF_TRAPFRAME = 76"
definition SIZEOF_CONTEXT :: u32 where "SIZEOF_CONTEXT = 20"
definition CONTEXT_EIP :: u32 where "CONTEXT_EIP = 16"

definition chan_of :: "nat option \<Rightarrow> chan" where
  "chan_of q = (case q of None \<Rightarrow> NoChan | Some i \<Rightarrow> ChanProc i)"

text \<open>The loop that passes abandoned children to \<open>initproc\<close>, from index \<open>k\<close> on.\<close>

fun reparent :: "nat \<Rightarrow> nat list \<Rightarrow> ('a, 'x, unit) pkern" where
  "reparent i [] = ret ()"
| "reparent i (k # ks) = (\<lambda>s.
     if p_parent (ptable s ! k) = Some i then
       seqk (modk (upd_proc k (\<lambda>p. p\<lparr>p_parent := initproc s\<rparr>)))
         (seqk (whenk (p_state (ptable s ! k) = ZOMBIE) (wakeup1 (chan_of (initproc s))))
           (reparent i ks)) s
     else reparent i ks s)"

text \<open>
  One scan of \<open>wait\<close> and \<open>waitx\<close> for a child of process \<open>i\<close>: a zombie child, no zombie but some child, or
  no child at all.
\<close>

datatype scan = Zombie nat | HasKids | NoKids

fun scan_kids :: "nat \<Rightarrow> nat \<Rightarrow> 'a proc_scheme list \<Rightarrow> bool \<Rightarrow> scan" where
  "scan_kids i k [] havekids = (if havekids then HasKids else NoKids)"
| "scan_kids i k (p # ps) havekids =
     (if p_parent p \<noteq> Some i then scan_kids i (Suc k) ps havekids
      else if p_state p = ZOMBIE then Zombie k
      else scan_kids i (Suc k) ps True)"

definition reaped :: "'a proc_scheme \<Rightarrow> 'a proc_scheme" where
  "reaped p = p\<lparr>p_kstack := 0, p_pid := 0, p_parent := None, p_name := (p_name p)(0 := 0),
     p_killed := False, p_state := UNUSED\<rparr>"

section \<open>Lock facts for single-CPU reasoning\<close>

text \<open>\<open>holdset s L\<close>: CPU 0 holds exactly the locks in \<open>L\<close>, and no lock is held elsewhere.\<close>

definition holdset :: "('p, 'x) pst_scheme \<Rightarrow> lockid set \<Rightarrow> bool" where
  "holdset s L \<longleftrightarrow> finite L \<and> cpu_ok (cpus (lk s) 0) \<and> ncli (cpus (lk s) 0) = int (card L) \<and>
     (\<forall>l. locked (locks (lk s) l) \<longleftrightarrow> l \<in> L) \<and> (\<forall>l \<in> L. lcpu (locks (lk s) l) = Some 0)"

abbreviation quiet :: "('p, 'x) pst_scheme \<Rightarrow> bool" where
  "quiet s \<equiv> holdset s {}"

abbreviation critical :: "('p, 'x) pst_scheme \<Rightarrow> bool" where
  "critical s \<equiv> holdset s {PTABLE}"

definition lock_in :: "lockid \<Rightarrow> ('p, 'x) pst_scheme \<Rightarrow> ('p, 'x) pst_scheme" where
  "lock_in l s = s\<lparr>lk := acquired 0 l (lk s)\<rparr>"

definition lock_out :: "lockid \<Rightarrow> ('p, 'x) pst_scheme \<Rightarrow> ('p, 'x) pst_scheme" where
  "lock_out l s = s\<lparr>lk := released 0 l (lk s)\<rparr>"

lemma lock_fields [simp]:
  "ptable (lock_in l s) = ptable s" "ptable (lock_out l s) = ptable s" "cproc (lock_in l s) = cproc s"
  "cproc (lock_out l s) = cproc s" "ticks (lock_in l s) = ticks s" "ticks (lock_out l s) = ticks s"
  "nextpid (lock_in l s) = nextpid s" "nextpid (lock_out l s) = nextpid s"
  "initproc (lock_in l s) = initproc s" "initproc (lock_out l s) = initproc s"
  by (simp_all add: lock_in_def lock_out_def)

lemma released_facts:
  "cpu_ok (cpus s c) \<Longrightarrow> 0 < ncli (cpus s c) \<Longrightarrow> cpu_ok (cpus (released c l s) c)"
  "ncli (cpus (released c l s) c) = ncli (cpus s c) - 1"
  "l' \<noteq> l \<Longrightarrow> locks (released c l s) l' = locks s l'"
  "\<not> locked (locks (released c l s) l)"
  by (simp_all add: released_def)

lemma acquirep_hold: "holdset s L \<Longrightarrow> l \<notin> L \<Longrightarrow> acquirep l s = Ok ((), lock_in l s)"
  by (simp add: acquirep_def kern_simps acquire_free holdset_def lock_in_def)

lemma holdset_in [intro]: "holdset s L \<Longrightarrow> l \<notin> L \<Longrightarrow> holdset (lock_in l s) (insert l L)"
proof -
  assume h: "holdset s L" and l: "l \<notin> L"
  have "locked (locks (acquired 0 l (lk s)) l') \<longleftrightarrow> l' \<in> insert l L" for l'
    using h by (cases "l' = l") (simp_all add: holdset_def acquired_def)
  moreover have "lcpu (locks (acquired 0 l (lk s)) l') = Some 0" if "l' \<in> insert l L" for l'
    using h that by (cases "l' = l") (simp_all add: holdset_def acquired_def)
  ultimately show ?thesis
    using h l by (simp add: holdset_def lock_in_def)
qed

lemma releasep_hold: "holdset s L \<Longrightarrow> l \<in> L \<Longrightarrow> releasep l s = Ok ((), lock_out l s)"
proof -
  assume h: "holdset s L" and l: "l \<in> L"
  have "0 < card L" using h l by (auto simp: holdset_def card_gt_0_iff)
  then have "release 0 l (lk s) = Ok ((), released 0 l (lk s))"
    using h l by (intro release_held) (simp_all add: holdset_def holds_def)
  then show ?thesis by (simp add: releasep_def kern_simps lock_out_def)
qed

lemma holdset_out: "holdset s L \<Longrightarrow> l \<in> L \<Longrightarrow> holdset (lock_out l s) (L - {l})"
proof -
  assume h: "holdset s L" and l: "l \<in> L"
  have c: "0 < card L" using h l by (auto simp: holdset_def card_gt_0_iff)
  have "locked (locks (released 0 l (lk s)) l') \<longleftrightarrow> l' \<in> L - {l}" for l'
    using h by (cases "l' = l") (simp_all add: holdset_def released_facts)
  moreover have "lcpu (locks (released 0 l (lk s)) l') = Some 0" if "l' \<in> L - {l}" for l'
    using h that by (simp add: holdset_def released_facts)
  ultimately show ?thesis
    using h l c by (auto simp: holdset_def lock_out_def released_facts int_ops)
qed

lemma quiet_out: "critical s \<Longrightarrow> quiet (lock_out PTABLE s)"
  using holdset_out [of s "{PTABLE}" PTABLE] by simp

lemmas lock_simps = acquirep_hold releasep_hold holdset_in quiet_out

lemma upd_proc_fields [simp]:
  "ptable (upd_proc i f s) = (ptable s)[i := f (ptable s ! i)]" "cproc (upd_proc i f s) = cproc s"
  "ticks (upd_proc i f s) = ticks s" "nextpid (upd_proc i f s) = nextpid s" "lk (upd_proc i f s) = lk s"
  "initproc (upd_proc i f s) = initproc s"
  by (simp_all add: upd_proc_def)

lemma holdset_upd [simp]:
  "holdset (s\<lparr>ptable := pt\<rparr>) = holdset s" "holdset (s\<lparr>nextpid := n\<rparr>) = holdset s"
  "holdset (s\<lparr>cproc := c\<rparr>) = holdset s" "holdset (s\<lparr>ticks := k\<rparr>) = holdset s"
  "holdset (upd_proc i f s) = holdset s"
  by (simp_all add: fun_eq_iff holdset_def)

lemma sched_enter_critical:
  assumes "critical s" "cproc s = Some i" "p_state (ptable s ! i) \<noteq> RUNNING"
  shows "sched_enter s = Ok (intena (cpus (lk s) 0), s)"
  using assms
  by (simp add: sched_enter_def myproc_def kern_simps holdset_def cpu_ok_def holds_def)

lemma sched_exit_hold: "holdset s L \<Longrightarrow> holdset (s\<lparr>lk := upd_cpu 0 (\<lambda>c. c\<lparr>intena := b\<rparr>) (lk s)\<rparr>) L"
  by (simp add: holdset_def cpu_ok_def)

section \<open>What the operations do\<close>

lemma wakeup_eq:
  assumes "holdset s L" "PTABLE \<notin> L"
  shows "wakeup ch s = Ok ((), lock_out PTABLE ((lock_in PTABLE s)\<lparr>ptable := map (wake ch) (ptable s)\<rparr>))"
proof -
  have "holdset ((lock_in PTABLE s)\<lparr>ptable := map (wake ch) (ptable s)\<rparr>) (insert PTABLE L)"
    using assms by (simp add: holdset_in)
  then show ?thesis
    using assms by (simp add: wakeup_def kern_simps acquirep_hold wakeup1_def releasep_hold)
qed

lemma kill_eq:
  assumes "quiet s"
  shows "kill pid s = (case find_index (\<lambda>p. p_pid p = pid) (ptable s) of
      Some i \<Rightarrow> Ok (0, lock_out PTABLE (upd_proc i kill1 (lock_in PTABLE s)))
    | None \<Rightarrow> Ok (-1, lock_out PTABLE (lock_in PTABLE s)))"
  using assms holdset_in [OF assms, of PTABLE]
  by (simp add: kill_def kern_simps acquirep_hold releasep_hold split: option.split)

lemma sleep_enter_hold:
  assumes "holdset s {l}" "l \<noteq> PTABLE" "cproc s = Some i" "i < length (ptable s)"
  shows "okp (\<lambda>b t. critical t \<and> p_state (ptable t ! i) = SLEEPING \<and> p_chan (ptable t ! i) = ch \<and>
    ptable t = (ptable s)[i := (ptable s ! i)\<lparr>p_chan := ch, p_state := SLEEPING\<rparr>] \<and> t = s\<lparr>lk := lk t, ptable := ptable t\<rparr>) (sleep_enter ch l s)"
proof -
  let ?f = "\<lambda>p. p\<lparr>p_chan := ch, p_state := SLEEPING\<rparr>"
  have a: "acquirep PTABLE s = Ok ((), lock_in PTABLE s)" using assms(1,2) by (simp add: acquirep_hold)
  have h: "holdset (lock_in PTABLE s) {PTABLE, l}" using holdset_in [OF assms(1), of PTABLE] assms(2) by auto
  let ?s = "lock_out l (lock_in PTABLE s)"
  have r: "releasep l (lock_in PTABLE s) = Ok ((), ?s)" using h by (simp add: releasep_hold)
  have "{PTABLE, l} - {l} = {PTABLE}" using assms(2) by auto
  then have h2: "critical (upd_proc i ?f ?s)" using holdset_out [OF h, of l] by simp
  have "sched_enter (upd_proc i ?f ?s) = Ok (intena (cpus (lk (upd_proc i ?f ?s)) 0), upd_proc i ?f ?s)"
    by (rule sched_enter_critical [OF h2, where i = i]) (use assms in simp_all)
  then have "sleep_enter ch l s = Ok (intena (cpus (lk (upd_proc i ?f ?s)) 0), upd_proc i ?f ?s)"
    using a r assms(2,3) by (simp add: sleep_enter_def kern_simps)
  then show ?thesis using h2 assms(4) by (simp add: upd_proc_def lock_in_def lock_out_def)
qed

end
