(* ===== verification/Sched_Vm.thy ===== *)
theory Sched_Vm
  imports Kalloc Vm
begin

unbundle bit_operations_syntax

text \<open>
  Virtual memory of the scheduling kernel (\<open>xv6_scheduling_patch/vm.c\<close>): the same page table code
  on top of the plain allocator, with the \<open>copyuvm\<close> that copies every page.  The table \<open>kmap\<close> is the one of
  \<open>Vm\<close>.
\<close>

section \<open>Page tables\<close>

definition s_stmem :: "u32 \<Rightarrow> u32 \<Rightarrow> skstate \<Rightarrow> skstate" where
  "s_stmem a v s = s\<lparr>smem := store32 (smem s) a v\<rparr>"

definition s_walkpgdir :: "u32 \<Rightarrow> u32 \<Rightarrow> bool \<Rightarrow> (skstate, u32) kern" where
  "s_walkpgdir pgdir va alloc = (\<lambda>s.
     let pde = pgdir + 4 * PDX va in
     if load32 (smem s) pde AND PTE_P \<noteq> 0 then
       Ok (P2V (PTE_ADDR (load32 (smem s) pde)) + 4 * PTX va, s)
     else if \<not> alloc then Ok (0, s)
     else bindk sched_kalloc (\<lambda>pgtab.
       if pgtab = 0 then ret 0
       else seqk (modk (\<lambda>s. s\<lparr>smem := memset (smem s) pgtab 0 PGSIZE\<rparr>))
              (seqk (modk (s_stmem pde (V2P pgtab OR PTE_P OR PTE_W OR PTE_U)))
                (ret (pgtab + 4 * PTX va)))) s)"

text \<open>
  \<open>mappages\<close> runs until \<open>a = lst\<close>; the loop takes the number of pages between them as
  fuel, which is exactly the number of iterations.
\<close>

primrec s_mappages_loop :: "nat \<Rightarrow> u32 \<Rightarrow> u32 \<Rightarrow> u32 \<Rightarrow> u32 \<Rightarrow> u32 \<Rightarrow> (skstate, int) kern" where
  "s_mappages_loop 0 pgdir a lst pa perm = divergesk"
| "s_mappages_loop (Suc n) pgdir a lst pa perm =
     bindk (s_walkpgdir pgdir a True) (\<lambda>pte s.
       if pte = 0 then Ok (-1, s)
       else if load32 (smem s) pte AND PTE_P \<noteq> 0 then Panic ''remap''
       else let s1 = s_stmem pte (pa OR perm OR PTE_P) s in
         if a = lst then Ok (0, s1)
         else s_mappages_loop n pgdir (a + PGSIZE) lst (pa + PGSIZE) perm s1)"

definition s_mappages :: "u32 \<Rightarrow> u32 \<Rightarrow> u32 \<Rightarrow> u32 \<Rightarrow> u32 \<Rightarrow> (skstate, int) kern" where
  "s_mappages pgdir va sz pa perm =
     (let a = PGROUNDDOWN va; lst = PGROUNDDOWN (va + sz - 1) in
      s_mappages_loop (Suc (unat (lst - a) div 4096)) pgdir a lst pa perm)"

section \<open>Freeing\<close>

text \<open>
  \<open>deallocuvm\<close>: the address grows by at least a page per iteration, so as many iterations as
  \<open>oldsz\<close> has pages are enough.
\<close>

primrec s_deallocuvm_loop :: "nat \<Rightarrow> u32 \<Rightarrow> u32 \<Rightarrow> u32 \<Rightarrow> (skstate, unit) kern" where
  "s_deallocuvm_loop 0 pgdir a oldsz = (\<lambda>s. if a < oldsz then Diverges else Ok ((), s))"
| "s_deallocuvm_loop (Suc n) pgdir a oldsz = (\<lambda>s.
     if a < oldsz then
       bindk (s_walkpgdir pgdir a False) (\<lambda>pte s.
         if pte = 0 then s_deallocuvm_loop n pgdir (PGADDR (PDX a + 1) 0 0 - PGSIZE + PGSIZE) oldsz s
         else if load32 (smem s) pte AND PTE_P \<noteq> 0 then
           (let pa = PTE_ADDR (load32 (smem s) pte) in
            if pa = 0 then Panic ''kfree''
            else seqk (sched_kfree (P2V pa))
                   (seqk (modk (s_stmem pte 0))
                     (s_deallocuvm_loop n pgdir (a + PGSIZE) oldsz)) s)
         else s_deallocuvm_loop n pgdir (a + PGSIZE) oldsz s) s
     else Ok ((), s))"

definition s_deallocuvm :: "u32 \<Rightarrow> u32 \<Rightarrow> u32 \<Rightarrow> (skstate, u32) kern" where
  "s_deallocuvm pgdir oldsz newsz =
     (if newsz \<ge> oldsz then ret oldsz
      else seqk (s_deallocuvm_loop (Suc (unat oldsz div 4096)) pgdir (PGROUNDUP newsz) oldsz)
             (ret newsz))"

primrec s_freevm_loop :: "nat \<Rightarrow> u32 \<Rightarrow> u32 \<Rightarrow> (skstate, unit) kern" where
  "s_freevm_loop 0 pgdir i = ret ()"
| "s_freevm_loop (Suc n) pgdir i = (\<lambda>s.
     let pde = load32 (smem s) (pgdir + 4 * i) in
     seqk (whenk (pde AND PTE_P \<noteq> 0) (sched_kfree (P2V (PTE_ADDR pde))))
       (s_freevm_loop n pgdir (i + 1)) s)"

definition s_freevm :: "u32 \<Rightarrow> (skstate, unit) kern" where
  "s_freevm pgdir =
     (if pgdir = 0 then panic ''freevm: no pgdir''
      else bindk (s_deallocuvm pgdir KERNBASE 0) (\<lambda>_.
             seqk (s_freevm_loop NPDENTRIES pgdir 0) (sched_kfree pgdir)))"

section \<open>The kernel part of an address space\<close>

fun s_setupkvm_loop :: "u32 \<Rightarrow> kmap_entry list \<Rightarrow> (skstate, u32) kern" where
  "s_setupkvm_loop pgdir [] = ret pgdir"
| "s_setupkvm_loop pgdir (k # ks) =
     bindk (s_mappages pgdir (virt k) (phys_end k - phys_start k) (phys_start k) (kperm k)) (\<lambda>r.
       if r < 0 then seqk (s_freevm pgdir) (ret 0) else s_setupkvm_loop pgdir ks)"

definition s_setupkvm :: "(skstate, u32) kern" where
  "s_setupkvm = bindk sched_kalloc (\<lambda>pgdir.
     if pgdir = 0 then ret 0
     else seqk (modk (\<lambda>s. s\<lparr>smem := memset (smem s) pgdir 0 PGSIZE\<rparr>))
       (if P2V PHYSTOP > DEVSPACE then panic ''PHYSTOP too high''
        else bindk (getk skdata) (\<lambda>data. s_setupkvm_loop pgdir (kmap data))))"

definition s_lcr3 :: "u32 \<Rightarrow> (skstate, unit) kern" where
  "s_lcr3 v = modk (\<lambda>s. s\<lparr>scr3 := v\<rparr>)"

definition s_switchkvm :: "(skstate, unit) kern" where
  "s_switchkvm = bindk (getk skpgdir) (\<lambda>p. s_lcr3 (V2P p))"

definition s_kvmalloc :: "(skstate, unit) kern" where
  "s_kvmalloc = bindk s_setupkvm (\<lambda>p. seqk (modk (\<lambda>s. s\<lparr>skpgdir := p\<rparr>)) s_switchkvm)"

section \<open>User memory\<close>

primrec s_allocuvm_loop :: "nat \<Rightarrow> u32 \<Rightarrow> u32 \<Rightarrow> u32 \<Rightarrow> u32 \<Rightarrow> (skstate, u32) kern" where
  "s_allocuvm_loop 0 pgdir a oldsz newsz = (if a < newsz then divergesk else ret newsz)"
| "s_allocuvm_loop (Suc n) pgdir a oldsz newsz =
     (if a < newsz then
        bindk sched_kalloc (\<lambda>mm.
          if mm = 0 then bindk (s_deallocuvm pgdir newsz oldsz) (\<lambda>_. ret 0)
          else seqk (modk (\<lambda>s. s\<lparr>smem := memset (smem s) mm 0 PGSIZE\<rparr>))
            (bindk (s_mappages pgdir a PGSIZE (V2P mm) (PTE_W OR PTE_U)) (\<lambda>r.
               if r < 0 then
                 bindk (s_deallocuvm pgdir newsz oldsz) (\<lambda>_. seqk (sched_kfree mm) (ret 0))
               else s_allocuvm_loop n pgdir (a + PGSIZE) oldsz newsz)))
      else ret newsz)"

definition s_allocuvm :: "u32 \<Rightarrow> u32 \<Rightarrow> u32 \<Rightarrow> (skstate, u32) kern" where
  "s_allocuvm pgdir oldsz newsz =
     (if newsz \<ge> KERNBASE then ret 0
      else if newsz < oldsz then ret oldsz
      else s_allocuvm_loop (Suc (unat newsz div 4096)) pgdir (PGROUNDUP oldsz) oldsz newsz)"

text \<open>\<open>inituvm\<close> copies the \<open>sz\<close> bytes at \<open>init\<close>; a failing \<open>sched_kalloc\<close> is not checked by the code.\<close>

definition s_inituvm :: "u32 \<Rightarrow> u32 \<Rightarrow> u32 \<Rightarrow> (skstate, unit) kern" where
  "s_inituvm pgdir init sz =
     (if sz \<ge> PGSIZE then panic ''inituvm: more than a page''
      else bindk sched_kalloc (\<lambda>mm.
        if mm = 0 then undefinedk ''inituvm: memset of a null page''
        else seqk (modk (\<lambda>s. s\<lparr>smem := memset (smem s) mm 0 PGSIZE\<rparr>))
          (bindk (s_mappages pgdir 0 PGSIZE (V2P mm) (PTE_W OR PTE_U)) (\<lambda>_.
             modk (\<lambda>s. s\<lparr>smem := memmove (smem s) mm init sz\<rparr>)))))"

definition s_clearpteu :: "u32 \<Rightarrow> u32 \<Rightarrow> (skstate, unit) kern" where
  "s_clearpteu pgdir uva = bindk (s_walkpgdir pgdir uva False) (\<lambda>pte s.
     if pte = 0 then Panic ''clearpteu''
     else Ok ((), s_stmem pte (load32 (smem s) pte AND NOT PTE_U) s))"

text \<open>
  \<open>copyuvm\<close> of this kernel copies every page.  The label \<open>bad\<close> frees the new directory.
\<close>

primrec s_copyuvm_loop :: "nat \<Rightarrow> u32 \<Rightarrow> u32 \<Rightarrow> u32 \<Rightarrow> u32 \<Rightarrow> (skstate, u32) kern" where
  "s_copyuvm_loop 0 pgdir d i sz = (if i < sz then divergesk else ret d)"
| "s_copyuvm_loop (Suc n) pgdir d i sz =
     (if i < sz then
        bindk (s_walkpgdir pgdir i False) (\<lambda>pte s.
          if pte = 0 then Panic ''copyuvm: pte should exist''
          else if load32 (smem s) pte AND PTE_P = 0 then Panic ''copyuvm: page not present''
          else let pa = PTE_ADDR (load32 (smem s) pte);
                   flags = PTE_FLAGS (load32 (smem s) pte) in
            bindk sched_kalloc (\<lambda>mm.
              if mm = 0 then seqk (s_freevm d) (ret 0)
              else seqk (modk (\<lambda>s. s\<lparr>smem := memmove (smem s) mm (P2V pa) PGSIZE\<rparr>))
                (bindk (s_mappages d i PGSIZE (V2P mm) flags) (\<lambda>r.
                   if r < 0 then seqk (sched_kfree mm) (seqk (s_freevm d) (ret 0))
                   else s_copyuvm_loop n pgdir d (i + PGSIZE) sz))) s)
      else ret d)"

definition s_copyuvm :: "u32 \<Rightarrow> u32 \<Rightarrow> (skstate, u32) kern" where
  "s_copyuvm pgdir sz = bindk s_setupkvm (\<lambda>d.
     if d = 0 then ret 0
     else s_copyuvm_loop (Suc (unat sz div 4096)) pgdir d 0 sz)"

definition s_uva2ka :: "u32 \<Rightarrow> u32 \<Rightarrow> (skstate, u32) kern" where
  "s_uva2ka pgdir uva = bindk (s_walkpgdir pgdir uva False) (\<lambda>pte s.
     if pte = 0 then Undefined ''uva2ka: null pte''
     else if load32 (smem s) pte AND PTE_P = 0 then Ok (0, s)
     else if load32 (smem s) pte AND PTE_U = 0 then Ok (0, s)
     else Ok (P2V (PTE_ADDR (load32 (smem s) pte)), s))"

text \<open>Every iteration of \<open>copyout\<close> copies at least one byte, so \<open>len\<close> iterations are enough.\<close>

primrec s_copyout_loop :: "nat \<Rightarrow> u32 \<Rightarrow> u32 \<Rightarrow> u32 \<Rightarrow> u32 \<Rightarrow> (skstate, int) kern" where
  "s_copyout_loop 0 pgdir va buf len = (if len > 0 then divergesk else ret 0)"
| "s_copyout_loop (Suc k) pgdir va buf len =
     (if len > 0 then
        (let va0 = PGROUNDDOWN va in
         bindk (s_uva2ka pgdir va0) (\<lambda>pa0.
           if pa0 = 0 then ret (-1)
           else (let n0 = PGSIZE - (va - va0); n = (if n0 > len then len else n0) in
             seqk (modk (\<lambda>s. s\<lparr>smem := memmove (smem s) (pa0 + (va - va0)) buf n\<rparr>))
               (s_copyout_loop k pgdir (va0 + PGSIZE) (buf + n) (len - n)))))
      else ret 0)"

definition s_copyout :: "u32 \<Rightarrow> u32 \<Rightarrow> u32 \<Rightarrow> u32 \<Rightarrow> (skstate, int) kern" where
  "s_copyout pgdir va p len = s_copyout_loop (unat len) pgdir va p len"

end
