(* ===== verification/Sched.thy ===== *)
theory Sched
  imports Proc Sched_Vm
begin

text \<open>
  The schedulers of \<open>xv6_scheduling_patch/proc.c\<close>: round robin, first come first served, priority
  based and multi-level feedback queue, with the bookkeeping of the clock tick, \<open>set_priority\<close>
  and \<open>getprocstable\<close>.  \<open>scheduler\<close> is split at its context switches: \<open>sched_top\<close> is the code
  from the head of the loop to the first \<open>swtch\<close> (or to the end of the round), \<open>sched_back\<close> the code
  after a process has switched back.  The compile-time macro that selects the policy is the
  parameter of type \<open>policy\<close>.  The 32-bit integers of C are words; a signed comparison
  is \<open><s\<close>, and \<open>ticks\<close> is unsigned, so the comparison in the ageing code is unsigned.
\<close>

section \<open>State\<close>

record sproc = proc +
  p_ctime :: u32
  p_rtime :: u32
  p_etime :: u32
  p_iotime :: u32
  p_priority :: u32
  p_queue :: u32
  p_q_ticks :: "u32 list"
  p_curr_q_ticks :: u32
  p_n_run :: u32
  p_lastWorkingticks :: u32

record sst = "sproc pst" +
  km :: skstate
  trapret :: u32      \<comment> \<open>address of the assembly routine\<close>
  forkret :: u32

definition DEFAULT_PRIORITY_PBS :: u32 where "DEFAULT_PRIORITY_PBS = 60"

definition max_tick_of_q :: "u32 list" where "max_tick_of_q = [1, 2, 4, 8, 16]"

definition q_max_time :: "u32 list" where "q_max_time = [1, 5, 10, 15, 20]"

definition zoom_km :: "(skstate, 'a) kern \<Rightarrow> (sst, 'a) kern" where
  "zoom_km m = zoomk km (\<lambda>k s. s\<lparr>km := k\<rparr>) m"

section \<open>The clock tick\<close>

definition tick_proc :: "sproc \<Rightarrow> sproc outcome" where
  "tick_proc p =
     (if p_state p = RUNNING then
        if unat (p_queue p) < 5 then
          Ok (p\<lparr>p_rtime := p_rtime p + 1,
                p_q_ticks := (p_q_ticks p)[unat (p_queue p) := p_q_ticks p ! unat (p_queue p) + 1],
                p_curr_q_ticks := p_curr_q_ticks p + 1\<rparr>)
        else Undefined ''q_ticks out of bounds''
      else if p_state p = SLEEPING then
        Ok (p\<lparr>p_iotime := p_iotime p + 1, p_lastWorkingticks := p_lastWorkingticks p + 1\<rparr>)
      else Ok p)"

fun tick_all :: "sproc list \<Rightarrow> sproc list outcome" where
  "tick_all [] = Ok []"
| "tick_all (p # ps) = (case tick_proc p of
      Ok q \<Rightarrow> (case tick_all ps of Ok qs \<Rightarrow> Ok (q # qs) | e \<Rightarrow> e)
    | Panic m \<Rightarrow> Panic m | Undefined m \<Rightarrow> Undefined m | Sleeps m \<Rightarrow> Sleeps m | Diverges \<Rightarrow> Diverges)"

definition updateRunsandOthers :: "(sst, unit) kern" where
  "updateRunsandOthers =
     seqk (acquirep PTABLE)
       (seqk (\<lambda>s. case tick_all (ptable s) of
                Ok ps \<Rightarrow> Ok ((), s\<lparr>ptable := ps\<rparr>)
              | Panic m \<Rightarrow> Panic m | Undefined m \<Rightarrow> Undefined m | Sleeps m \<Rightarrow> Sleeps m
              | Diverges \<Rightarrow> Diverges)
         (releasep PTABLE))"

text \<open>
  The work of the timer interrupt in \<open>trap\<close>: the tick counter and the bookkeeping under
  \<open>tickslock\<close>, and the wakeup of the sleepers on the address of \<open>ticks\<close>.  Every CPU gets the interrupt, and
  CPU 0 does this work.
\<close>

definition timer_tick :: "(sst, unit) kern" where
  "timer_tick =
     seqk (acquirep TICKSLOCK)
       (seqk (modk (\<lambda>s. s\<lparr>ticks := ticks s + 1\<rparr>))
         (seqk updateRunsandOthers
           (seqk (wakeup ChanTicks) (releasep TICKSLOCK))))"

definition timer_irq :: "nat \<Rightarrow> (sst, unit) kern" where
  "timer_irq cpu = whenk (cpu = 0) timer_tick"

section \<open>Creating a process\<close>

definition embryo :: "u32 \<Rightarrow> u32 \<Rightarrow> sproc \<Rightarrow> sproc" where
  "embryo pid now p = p\<lparr>p_state := EMBRYO, p_pid := pid, p_ctime := now, p_rtime := 0, p_etime := 0,
     p_iotime := 0, p_priority := DEFAULT_PRIORITY_PBS, p_n_run := 0, p_queue := 0,
     p_curr_q_ticks := 0, p_lastWorkingticks := now, p_q_ticks := replicate 5 0\<rparr>"

definition kstack_frame :: "nat \<Rightarrow> u32 \<Rightarrow> sst \<Rightarrow> sst" where
  "kstack_frame i stack s =
     (let tf = stack + KSTACKSIZE - SIZEOF_TRAPFRAME;
          sp = tf - 4;
          ctx = sp - SIZEOF_CONTEXT;
          m1 = store32 (smem (km s)) sp (trapret s);
          m2 = memset m1 ctx 0 SIZEOF_CONTEXT;
          m3 = store32 m2 (ctx + CONTEXT_EIP) (forkret s) in
      upd_proc i (\<lambda>p. p\<lparr>p_tf := tf, p_context := ctx\<rparr>) (s\<lparr>km := (km s)\<lparr>smem := m3\<rparr>\<rparr>))"

definition allocproc :: "(sst, nat option) kern" where
  "allocproc = seqk (acquirep PTABLE) (\<lambda>s.
     case find_index (\<lambda>p. p_state p = UNUSED) (ptable s) of
       None \<Rightarrow> seqk (releasep PTABLE) (ret None) s
     | Some i \<Rightarrow>
         seqk (modk (\<lambda>s. upd_proc i (embryo (nextpid s) (ticks s)) (s\<lparr>nextpid := nextpid s + 1\<rparr>)))
           (seqk (releasep PTABLE)
             (bindk (zoom_km sched_kalloc) (\<lambda>stack.
               seqk (modk (upd_proc i (\<lambda>p. p\<lparr>p_kstack := stack\<rparr>)))
                 (if stack = 0 then
                    seqk (modk (upd_proc i (\<lambda>p. p\<lparr>p_state := UNUSED\<rparr>))) (ret None)
                  else seqk (modk (kstack_frame i stack)) (ret (Some i)))))) s)"

section \<open>Running a process\<close>

definition sched_switchuvm :: "nat \<Rightarrow> (sst, unit) kern" where
  "sched_switchuvm i = (\<lambda>s.
     if p_kstack (ptable s ! i) = 0 then Panic ''switchuvm: no kstack''
     else if p_pgdir (ptable s ! i) = 0 then Panic ''switchuvm: no pgdir''
     else Ok ((), s\<lparr>km := (km s)\<lparr>scr3 := V2P (p_pgdir (ptable s ! i))\<rparr>\<rparr>))"

definition sched_switchkvm :: "(sst, unit) kern" where
  "sched_switchkvm = modk (\<lambda>s. s\<lparr>km := (km s)\<lparr>scr3 := V2P (skpgdir (km s))\<rparr>\<rparr>)"

text \<open>The code before \<open>swtch\<close> in the first three policies.\<close>

definition dispatch :: "nat \<Rightarrow> (sst, unit) kern" where
  "dispatch i =
     seqk (modk (\<lambda>s. s\<lparr>cproc := Some i\<rparr>))
       (seqk (sched_switchuvm i)
         (modk (\<lambda>s. upd_proc i (\<lambda>p. p\<lparr>p_n_run := p_n_run p + 1, p_state := RUNNING,
            p_lastWorkingticks := ticks s\<rparr>) s)))"

text \<open>The code after it.\<close>

definition undispatch :: "nat \<Rightarrow> (sst, unit) kern" where
  "undispatch i =
     seqk sched_switchkvm
       (modk (\<lambda>s. (upd_proc i (\<lambda>p. p\<lparr>p_lastWorkingticks := ticks s\<rparr>) s)\<lparr>cproc := None\<rparr>))"

text \<open>
  Where the scheduler stands: at the head of its loop, or switched to process \<open>i\<close> from the loop
  of the policy.
\<close>

datatype policy = RR | FCFS | PBS | MLFQ

datatype spc =
    Top
  | RRrun nat          \<comment> \<open>the process running\<close>
  | FCFSrun nat
  | PBSrun nat nat     \<comment> \<open>the process running and \<open>minone\<close>\<close>
  | MLFQrun nat nat    \<comment> \<open>the queue \<open>i\<close> and the process running\<close>

definition end_round :: "(sst, spc) kern" where
  "end_round = seqk (releasep PTABLE) (ret Top)"

definition runnable :: "sproc \<Rightarrow> bool" where
  "runnable p \<longleftrightarrow> p_state p = RUNNABLE"

text \<open>The next index from \<open>k\<close> on whose process satisfies a condition.\<close>

definition next_from :: "(sproc \<Rightarrow> bool) \<Rightarrow> nat \<Rightarrow> sproc list \<Rightarrow> nat option" where
  "next_from P k ps = find_index_from k P (drop k ps)"

subsection \<open>Round robin\<close>

definition rr_from :: "nat \<Rightarrow> (sst, spc) kern" where
  "rr_from k = (\<lambda>s. case next_from runnable k (ptable s) of
      None \<Rightarrow> end_round s
    | Some i \<Rightarrow> seqk (dispatch i) (ret (RRrun i)) s)"

subsection \<open>First come, first served\<close>

text \<open>
  The selection loop shared by FCFS (key \<open>ctime\<close>) and by the first loop of PBS (key \<open>priority\<close>): the
  first of the runnable processes with the least key in signed order.
\<close>

fun select_min :: "(sproc \<Rightarrow> u32) \<Rightarrow> nat \<Rightarrow> sproc list \<Rightarrow> (nat \<times> u32) option \<Rightarrow> (nat \<times> u32) option" where
  "select_min key i [] best = best"
| "select_min key i (p # ps) best =
     (if p_state p \<noteq> RUNNABLE then select_min key (Suc i) ps best
      else case best of
        None \<Rightarrow> select_min key (Suc i) ps (Some (i, key p))
      | Some (j, b) \<Rightarrow> if key p <s b then select_min key (Suc i) ps (Some (i, key p))
          else select_min key (Suc i) ps best)"

definition fcfs_pick :: "sproc list \<Rightarrow> nat option" where
  "fcfs_pick ps = map_option fst (select_min p_ctime 0 ps None)"

definition fcfs_top :: "(sst, spc) kern" where
  "fcfs_top = (\<lambda>s. case fcfs_pick (ptable s) of
      None \<Rightarrow> end_round s
    | Some i \<Rightarrow> seqk (dispatch i) (ret (FCFSrun i)) s)"

subsection \<open>Priorities\<close>

definition pbs_min :: "sproc list \<Rightarrow> nat option" where
  "pbs_min ps = map_option fst (select_min p_priority 0 ps None)"

text \<open>The second loop from index \<open>k\<close> on; \<open>m\<close> is \<open>minone\<close>.\<close>

definition pbs_from :: "nat \<Rightarrow> nat \<Rightarrow> (sst, spc) kern" where
  "pbs_from k m = (\<lambda>s.
     case next_from (\<lambda>p. runnable p \<and> p_priority p = p_priority (ptable s ! m)) k (ptable s) of
       None \<Rightarrow> end_round s
     | Some i \<Rightarrow> seqk (dispatch i) (ret (PBSrun i m)) s)"

definition pbs_top :: "(sst, spc) kern" where
  "pbs_top = (\<lambda>s. case pbs_min (ptable s) of
      None \<Rightarrow> end_round s
    | Some m \<Rightarrow> pbs_from 0 m s)"

definition pbs_better :: "nat \<Rightarrow> sproc list \<Rightarrow> bool" where
  "pbs_better m ps \<longleftrightarrow> (\<exists>q \<in> set ps. p_state q = RUNNABLE \<and> p_priority q <s p_priority (ps ! m))"

definition pbs_back :: "nat \<Rightarrow> nat \<Rightarrow> (sst, spc) kern" where
  "pbs_back i m = seqk (undispatch i)
     (\<lambda>s. if pbs_better m (ptable s) then end_round s else pbs_from (Suc i) m s)"

subsection \<open>Feedback queues\<close>

definition age :: "u32 \<Rightarrow> sproc \<Rightarrow> sproc outcome" where
  "age now p =
     (if p_state p \<noteq> RUNNABLE then Ok p
      else if 0 <s p_queue p then
        if unat (p_queue p) < 5 then
          if now - p_lastWorkingticks p > q_max_time ! unat (p_queue p)
          then Ok (p\<lparr>p_queue := p_queue p - 1, p_lastWorkingticks := now\<rparr>) else Ok p
        else Undefined ''q_max_time out of bounds''
      else Ok p)"

fun age_all :: "u32 \<Rightarrow> sproc list \<Rightarrow> sproc list outcome" where
  "age_all now [] = Ok []"
| "age_all now (p # ps) = (case age now p of
      Ok q \<Rightarrow> (case age_all now ps of Ok qs \<Rightarrow> Ok (q # qs) | e \<Rightarrow> e)
    | Panic m \<Rightarrow> Panic m | Undefined m \<Rightarrow> Undefined m | Sleeps m \<Rightarrow> Sleeps m | Diverges \<Rightarrow> Diverges)"

text \<open>
  One process \<open>i\<close> offered to the array \<open>queues\<close>: the earliest created in queues 0 to 3, the longest
  waiting in queue 4.
\<close>

definition offer :: "sproc list \<Rightarrow> nat \<Rightarrow> nat option list \<Rightarrow> nat option list" where
  "offer ps i qs =
     (let p = ps ! i; q = unat (p_queue p) in
      if p_queue p \<noteq> 4 then
        (case qs ! q of
           None \<Rightarrow> qs[q := Some i]
         | Some j \<Rightarrow> if p_ctime p <s p_ctime (ps ! j) \<and> p_state (ps ! j) = RUNNABLE
                     then qs[q := Some i] else qs)
      else
        (case qs ! q of
           None \<Rightarrow> qs[q := Some i]
         | Some j \<Rightarrow> if p_lastWorkingticks p <s p_lastWorkingticks (ps ! j)
                     then qs[q := Some i] else qs))"

fun collect :: "sproc list \<Rightarrow> nat list \<Rightarrow> nat option list \<Rightarrow> nat option list outcome" where
  "collect ps [] qs = Ok qs"
| "collect ps (i # is) qs =
     (if p_state (ps ! i) \<noteq> RUNNABLE then collect ps is qs
      else if unat (p_queue (ps ! i)) < 5 then collect ps is (offer ps i qs)
      else Undefined ''queues out of bounds'')"

definition mlfq_dispatch :: "nat \<Rightarrow> (sst, unit) kern" where
  "mlfq_dispatch i =
     seqk (modk (\<lambda>s. (upd_proc i (\<lambda>p. p\<lparr>p_lastWorkingticks := ticks s\<rparr>) s)\<lparr>cproc := Some i\<rparr>))
       (seqk (sched_switchuvm i) (modk (upd_proc i (\<lambda>p. p\<lparr>p_state := RUNNING\<rparr>))))"

definition mlfq_finish :: "nat \<Rightarrow> nat \<Rightarrow> (sst, spc) kern" where
  "mlfq_finish q i = (\<lambda>s.
     let used = p_curr_q_ticks (ptable s ! i);
         s1 = (if max_tick_of_q ! q \<le>s used \<and> q \<noteq> 4
               then upd_proc i (\<lambda>p. p\<lparr>p_queue := p_queue p + 1\<rparr>) s else s) in
     end_round (upd_proc i (\<lambda>p. p\<lparr>p_lastWorkingticks := ticks s\<rparr>) s1))"

text \<open>
  The \<open>while\<close> loop around the process: it is entered with a runnable process, and runs again as
  long as it is runnable and its slice is not used up.
\<close>

definition mlfq_top :: "(sst, spc) kern" where
  "mlfq_top = (\<lambda>s. case age_all (ticks s) (ptable s) of
      Ok ps \<Rightarrow>
        (case collect ps [0 ..< length ps] (replicate 5 None) of
           Ok qs \<Rightarrow>
             (case find_index (\<lambda>q. q \<noteq> None) qs of
                None \<Rightarrow> end_round (s\<lparr>ptable := ps\<rparr>)
              | Some q \<Rightarrow>
                  let i = the (qs ! q);
                      s1 = upd_proc i (\<lambda>p. p\<lparr>p_curr_q_ticks := 0, p_n_run := p_n_run p + 1\<rparr>) (s\<lparr>ptable := ps\<rparr>) in
                  if p_state (ptable s1 ! i) = RUNNABLE
                  then seqk (mlfq_dispatch i) (ret (MLFQrun q i)) s1
                  else mlfq_finish q i s1)
         | Panic m \<Rightarrow> Panic m | Undefined m \<Rightarrow> Undefined m | Sleeps m \<Rightarrow> Sleeps m | Diverges \<Rightarrow> Diverges)
    | Panic m \<Rightarrow> Panic m | Undefined m \<Rightarrow> Undefined m | Sleeps m \<Rightarrow> Sleeps m | Diverges \<Rightarrow> Diverges)"

definition mlfq_back :: "nat \<Rightarrow> nat \<Rightarrow> (sst, spc) kern" where
  "mlfq_back q i = seqk sched_switchkvm (seqk (modk (\<lambda>s. s\<lparr>cproc := None\<rparr>)) (\<lambda>s.
     if max_tick_of_q ! q \<le>s p_curr_q_ticks (ptable s ! i) then mlfq_finish q i s
     else if p_state (ptable s ! i) = RUNNABLE
       then seqk (mlfq_dispatch i) (ret (MLFQrun q i)) s
       else mlfq_finish q i s))"

subsection \<open>The scheduler loop\<close>

definition sched_top :: "policy \<Rightarrow> (sst, spc) kern" where
  "sched_top pol = seqk (acquirep PTABLE)
     (case pol of RR \<Rightarrow> rr_from 0 | FCFS \<Rightarrow> fcfs_top | PBS \<Rightarrow> pbs_top | MLFQ \<Rightarrow> mlfq_top)"

definition sched_back :: "spc \<Rightarrow> (sst, spc) kern" where
  "sched_back pc = (case pc of
      Top \<Rightarrow> undefinedk ''scheduler not switched''
    | RRrun i \<Rightarrow> seqk (undispatch i) (rr_from (Suc i))
    | FCFSrun i \<Rightarrow> seqk (undispatch i) end_round
    | PBSrun i m \<Rightarrow> pbs_back i m
    | MLFQrun q i \<Rightarrow> mlfq_back q i)"

section \<open>Fork, exit and wait on the process table\<close>

text \<open>
  The last step of \<open>fork\<close>, and of \<open>userinit\<close>: the new process becomes runnable.
\<close>

definition make_runnable :: "nat \<Rightarrow> (sst, unit) kern" where
  "make_runnable i = seqk (acquirep PTABLE)
     (seqk (modk (upd_proc i (\<lambda>p. p\<lparr>p_state := RUNNABLE\<rparr>))) (releasep PTABLE))"

text \<open>\<open>exit\<close> after the files are closed, up to the switch to the scheduler.\<close>

definition exit_zombie :: "nat \<Rightarrow> (sst, bool) kern" where
  "exit_zombie i = seqk (acquirep PTABLE) (\<lambda>s.
     seqk (wakeup1 (chan_of (p_parent (ptable s ! i))))
       (seqk (reparent i [0 ..< length (ptable s)])
         (seqk (modk (\<lambda>s. upd_proc i (\<lambda>p. p\<lparr>p_etime := ticks s, p_state := ZOMBIE\<rparr>) s))
           sched_enter)) s)"

definition clear_times :: "sproc \<Rightarrow> sproc" where
  "clear_times p = p\<lparr>p_etime := 0, p_ctime := 0, p_rtime := 0, p_iotime := 0, p_lastWorkingticks := 0,
     p_n_run := 0, p_priority := 0, p_q_ticks := replicate 5 0, p_curr_q_ticks := 0\<rparr>"

text \<open>
  The results of \<open>wait\<close> and \<open>waitx\<close> when they do not sleep: the pid and, for \<open>waitx\<close>, the two
  times written for the caller.  The result \<open>None\<close> means that the caller sleeps on its own channel and
  scans again when it is woken up.
\<close>

definition wtime_of :: "sproc \<Rightarrow> u32" where
  "wtime_of p = p_etime p - (p_ctime p + p_rtime p + p_iotime p)"

definition wait_scan :: "nat \<Rightarrow> (sst, u32 option) kern" where
  "wait_scan i = (\<lambda>s. case scan_kids i 0 (ptable s) False of
      Zombie k \<Rightarrow>
        (let p = ptable s ! k in
         seqk (zoom_km (sched_kfree (p_kstack p)))
           (seqk (zoom_km (s_freevm (p_pgdir p)))
             (seqk (modk (upd_proc k reaped)) (seqk (releasep PTABLE) (ret (Some (p_pid p)))))) s)
    | HasKids \<Rightarrow> if p_killed (ptable s ! i) then seqk (releasep PTABLE) (ret (Some (-1))) s
                else Ok (None, s)
    | NoKids \<Rightarrow> seqk (releasep PTABLE) (ret (Some (-1))) s)"

definition waitx_scan :: "nat \<Rightarrow> (sst, (u32 \<times> (u32 \<times> u32) option) option) kern" where
  "waitx_scan i = (\<lambda>s. case scan_kids i 0 (ptable s) False of
      Zombie k \<Rightarrow>
        (let p = ptable s ! k in
         seqk (modk (upd_proc k clear_times))
           (seqk (zoom_km (sched_kfree (p_kstack p)))
             (seqk (zoom_km (s_freevm (p_pgdir p)))
               (seqk (modk (upd_proc k reaped))
                 (seqk (releasep PTABLE) (ret (Some (p_pid p, Some (wtime_of p, p_rtime p)))))))) s)
    | HasKids \<Rightarrow> if p_killed (ptable s ! i) then seqk (releasep PTABLE) (ret (Some (-1, None))) s
                else Ok (None, s)
    | NoKids \<Rightarrow> seqk (releasep PTABLE) (ret (Some (-1, None))) s)"

section \<open>System calls on scheduling\<close>

text \<open>
  \<open>set_priority\<close> up to the call of \<open>yield\<close>: the result and whether it yields.
\<close>

definition set_priority :: "u32 \<Rightarrow> u32 \<Rightarrow> (sst, u32 \<times> bool) kern" where
  "set_priority new_priority pid =
     (if new_priority \<le>s -1 \<or> 100 <s new_priority then ret (-1, False)
      else (\<lambda>s. case find_index (\<lambda>p. p_pid p = pid) (ptable s) of
         None \<Rightarrow> Ok ((-1, False), s)
       | Some i \<Rightarrow> seqk (acquirep PTABLE) (\<lambda>s.
           let old = p_priority (ptable s ! i) in
           seqk (modk (upd_proc i (\<lambda>p. p\<lparr>p_priority := new_priority\<rparr>)))
             (seqk (releasep PTABLE) (ret (old, new_priority <s old))) s) s))"

record Info_req =
  i_pid :: u32
  i_state :: procstate
  i_rtime :: u32
  i_priority :: u32
  i_curq :: u32
  i_n_run :: u32
  i_wtime :: u32
  i_ticks :: "u32 list"

definition info :: "u32 \<Rightarrow> sproc \<Rightarrow> Info_req" where
  "info now p = \<lparr>i_pid = p_pid p, i_state = p_state p, i_rtime = p_rtime p, i_priority = p_priority p,
     i_curq = p_queue p, i_n_run = p_n_run p, i_wtime = now - p_lastWorkingticks p,
     i_ticks = p_q_ticks p\<rparr>"

text \<open>The rows written to the table; \<open>count\<close> is their number.\<close>

definition getprocstable :: "(sst, Info_req list) kern" where
  "getprocstable = seqk (acquirep PTABLE)
     (bindk (getk (\<lambda>s. map (info (ticks s)) (filter (\<lambda>p. p_state p \<noteq> UNUSED) (ptable s)))) (\<lambda>rows.
        seqk (releasep PTABLE) (ret rows)))"

end
