(* ===== verification/Sched_Pick.thy ===== *)
theory Sched_Pick
  imports Sched
begin

text \<open>
  What the policies choose.  The locale \<open>picker\<close> is the contract of a selection loop that scans the
  process table for the least key; FCFS (by creation time) and PBS (by priority) are
  its instances.  The theory also characterises the choice of the feedback queues.
\<close>

section \<open>The selection loop\<close>

definition best_of :: "(sproc \<Rightarrow> u32) \<Rightarrow> sproc list \<Rightarrow> nat \<Rightarrow> bool" where
  "best_of key ps i \<longleftrightarrow> i < length ps \<and> p_state (ps ! i) = RUNNABLE \<and>
     (\<forall>j < length ps. p_state (ps ! j) = RUNNABLE \<longrightarrow>
        sint (key (ps ! i)) \<le> sint (key (ps ! j)) \<and>
        (j < i \<longrightarrow> sint (key (ps ! i)) < sint (key (ps ! j))))"

lemma select_min_snoc:
  "select_min key k (ps @ [p]) best =
     (let b = select_min key k ps best in
      if p_state p \<noteq> RUNNABLE then b
      else case b of None \<Rightarrow> Some (k + length ps, key p)
        | Some (j, v) \<Rightarrow> if key p <s v then Some (k + length ps, key p) else b)"
  by (induction ps arbitrary: k best) (auto simp: Let_def split: option.splits)

lemma select_min_best:
  "case select_min key 0 ps None of
     None \<Rightarrow> \<forall>p \<in> set ps. p_state p \<noteq> RUNNABLE
   | Some (i, v) \<Rightarrow> v = key (ps ! i) \<and> best_of key ps i"
proof (induction ps rule: rev_induct)
  case Nil
  then show ?case by simp
next
  case (snoc p ps)
  show ?case
  proof (cases "select_min key 0 ps None")
    case None
    then show ?thesis
      using snoc by (auto simp: select_min_snoc best_of_def nth_append)
  next
    case (Some r)
    obtain i v where r: "r = (i, v)" by (cases r)
    have b: "v = key (ps ! i)" "best_of key ps i" using snoc Some r by simp_all
    then show ?thesis
      using Some r
      by (auto simp: select_min_snoc best_of_def nth_append word_sless_alt Let_def less_Suc_eq not_less)
  qed
qed

locale picker =
  fixes pick :: "sproc list \<Rightarrow> nat option" and key :: "sproc \<Rightarrow> u32"
  assumes pick_best: "pick ps = Some i \<Longrightarrow> best_of key ps i"
    and pick_none: "pick ps = None \<longleftrightarrow> (\<forall>p \<in> set ps. p_state p \<noteq> RUNNABLE)"
begin

lemma best_unique: "best_of key ps i \<Longrightarrow> best_of key ps j \<Longrightarrow> i = j"
  unfolding best_of_def by (metis linorder_neqE_nat not_less)

lemma pick_iff: "pick ps = Some i \<longleftrightarrow> best_of key ps i"
proof
  assume b: "best_of key ps i"
  then have "pick ps \<noteq> None" by (auto simp: pick_none best_of_def)
  then obtain j where "pick ps = Some j" by auto
  with b pick_best [OF this] show "pick ps = Some i" using best_unique by blast
qed (rule pick_best)

lemma pick_total: "p \<in> set ps \<Longrightarrow> p_state p = RUNNABLE \<Longrightarrow> \<exists>i. pick ps = Some i"
  using pick_none by fastforce

text \<open>A process that is created later, or becomes runnable with a larger key, changes nothing.\<close>

lemma pick_stable:
  assumes "pick ps = Some i" "j < length ps" "j \<noteq> i"
    and "p_state p \<noteq> RUNNABLE \<or> sint (key (ps ! i)) < sint (key p)"
  shows "pick (ps[j := p]) = Some i"
  using assms unfolding pick_iff best_of_def by (auto simp: nth_list_update)

end

interpretation fcfs: picker fcfs_pick p_ctime
proof unfold_locales
  show "fcfs_pick ps = Some i \<Longrightarrow> best_of p_ctime ps i" for ps i
    using select_min_best [where key = p_ctime and ps = ps] by (auto simp: fcfs_pick_def split: option.splits)
  show "fcfs_pick ps = None \<longleftrightarrow> (\<forall>p \<in> set ps. p_state p \<noteq> RUNNABLE)" for ps
    using select_min_best [where key = p_ctime and ps = ps]
    by (auto simp: fcfs_pick_def best_of_def split: option.splits)
qed

interpretation pbs: picker pbs_min p_priority
proof unfold_locales
  show "pbs_min ps = Some i \<Longrightarrow> best_of p_priority ps i" for ps i
    using select_min_best [where key = p_priority and ps = ps] by (auto simp: pbs_min_def split: option.splits)
  show "pbs_min ps = None \<longleftrightarrow> (\<forall>p \<in> set ps. p_state p \<noteq> RUNNABLE)" for ps
    using select_min_best [where key = p_priority and ps = ps]
    by (auto simp: pbs_min_def best_of_def split: option.splits)
qed

lemma next_from_Some:
  "next_from P k ps = Some i \<longleftrightarrow> k \<le> i \<and> i < length ps \<and> P (ps ! i) \<and> (\<forall>j. k \<le> j \<and> j < i \<longrightarrow> \<not> P (ps ! j))"
proof (cases "k \<le> i \<and> i < length ps")
  case True
  have "(\<forall>j < i - k. \<not> P (ps ! (k + j))) \<longleftrightarrow> (\<forall>j. k \<le> j \<and> j < i \<longrightarrow> \<not> P (ps ! j))"
  proof (intro iffI allI impI)
    fix j assume a: "\<forall>j < i - k. \<not> P (ps ! (k + j))" "k \<le> j \<and> j < i"
    then show "\<not> P (ps ! j)" using a(1) [rule_format, of "j - k"] by (simp add: diff_less_mono)
  qed auto
  with True show ?thesis by (simp add: next_from_def find_index_from_Some less_diff_conv2 add.commute)
next
  case False
  then show ?thesis by (auto simp: next_from_def find_index_from_Some)
qed

lemma next_from_None: "next_from P k ps = None \<longleftrightarrow> (\<forall>i. k \<le> i \<and> i < length ps \<longrightarrow> \<not> P (ps ! i))"
proof -
  have "(\<forall>x \<in> set (drop k ps). \<not> P x) \<longleftrightarrow> (\<forall>i. k \<le> i \<and> i < length ps \<longrightarrow> \<not> P (ps ! i))"
  proof (intro iffI allI impI ballI)
    fix i assume a: "\<forall>x \<in> set (drop k ps). \<not> P x" "k \<le> i \<and> i < length ps"
    then have "drop k ps ! (i - k) \<in> set (drop k ps)" by (intro nth_mem) (simp add: diff_less_mono)
    with a show "\<not> P (ps ! i)" by simp
  next
    fix x assume a: "\<forall>i. k \<le> i \<and> i < length ps \<longrightarrow> \<not> P (ps ! i)" "x \<in> set (drop k ps)"
    then show "\<not> P x" by (auto simp: in_set_conv_nth)
  qed
  then show ?thesis by (simp add: next_from_def find_index_from_None)
qed

section \<open>The feedback queues\<close>

text \<open>What the array \<open>queues\<close> holds after some processes have been offered.\<close>

definition queue_ok :: "sproc list \<Rightarrow> nat set \<Rightarrow> nat option list \<Rightarrow> bool" where
  "queue_ok ps I qs \<longleftrightarrow> length qs = 5 \<and> (\<forall>q < 5. case qs ! q of
      None \<Rightarrow> \<forall>i \<in> I. p_state (ps ! i) = RUNNABLE \<longrightarrow> unat (p_queue (ps ! i)) \<noteq> q
    | Some j \<Rightarrow> j \<in> I \<and> p_state (ps ! j) = RUNNABLE \<and> unat (p_queue (ps ! j)) = q \<and>
        (\<forall>i \<in> I. p_state (ps ! i) = RUNNABLE \<and> unat (p_queue (ps ! i)) = q \<longrightarrow>
           (if q = 4 then sint (p_lastWorkingticks (ps ! j)) \<le> sint (p_lastWorkingticks (ps ! i))
            else sint (p_ctime (ps ! j)) \<le> sint (p_ctime (ps ! i)))))"

lemma queue_ok_skip:
  "queue_ok ps I qs \<Longrightarrow> p_state (ps ! i) \<noteq> RUNNABLE \<Longrightarrow> queue_ok ps (insert i I) qs"
  by (auto simp: queue_ok_def split: option.splits)

lemma queue_ok_offer:
  assumes ok: "queue_ok ps I qs" and i: "p_state (ps ! i) = RUNNABLE" "unat (p_queue (ps ! i)) < 5"
  shows "queue_ok ps (insert i I) (offer ps i qs)"
proof -
  let ?q = "unat (p_queue (ps ! i))"
  have four: "p_queue (ps ! i) = 4 \<longleftrightarrow> ?q = 4" by (simp add: word_unat_eq_iff)
  have len: "length qs = 5" using ok by (simp add: queue_ok_def)
  have other: "offer ps i qs ! q = qs ! q" if "q \<noteq> ?q" for q
    using that by (cases "p_queue (ps ! i) = 4") (auto simp: offer_def Let_def split: option.split)
  have here: "offer ps i qs ! ?q = (case qs ! ?q of None \<Rightarrow> Some i | Some j \<Rightarrow>
      if (if ?q = 4 then sint (p_lastWorkingticks (ps ! i)) < sint (p_lastWorkingticks (ps ! j))
          else sint (p_ctime (ps ! i)) < sint (p_ctime (ps ! j))) then Some i else Some j)"
  proof (cases "qs ! ?q")
    case None
    then show ?thesis using i(2) len by (cases "p_queue (ps ! i) = 4") (simp_all add: offer_def Let_def)
  next
    case (Some j)
    then have "p_state (ps ! j) = RUNNABLE" using ok i(2) by (auto simp: queue_ok_def split: option.splits)
    then show ?thesis
      using Some i(2) len four
      by (cases "p_queue (ps ! i) = 4") (simp_all add: offer_def Let_def word_sless_alt)
  qed
  have "length (offer ps i qs) = 5" using len by (simp add: offer_def Let_def split: option.split)
  moreover have "case offer ps i qs ! q of
      None \<Rightarrow> \<forall>i' \<in> insert i I. p_state (ps ! i') = RUNNABLE \<longrightarrow> unat (p_queue (ps ! i')) \<noteq> q
    | Some j \<Rightarrow> j \<in> insert i I \<and> p_state (ps ! j) = RUNNABLE \<and> unat (p_queue (ps ! j)) = q \<and>
        (\<forall>i' \<in> insert i I. p_state (ps ! i') = RUNNABLE \<and> unat (p_queue (ps ! i')) = q \<longrightarrow>
           (if q = 4 then sint (p_lastWorkingticks (ps ! j)) \<le> sint (p_lastWorkingticks (ps ! i'))
            else sint (p_ctime (ps ! j)) \<le> sint (p_ctime (ps ! i'))))" if q: "q < 5" for q
  proof -
    have okq: "case qs ! q of
        None \<Rightarrow> \<forall>i \<in> I. p_state (ps ! i) = RUNNABLE \<longrightarrow> unat (p_queue (ps ! i)) \<noteq> q
      | Some j \<Rightarrow> j \<in> I \<and> p_state (ps ! j) = RUNNABLE \<and> unat (p_queue (ps ! j)) = q \<and>
          (\<forall>i \<in> I. p_state (ps ! i) = RUNNABLE \<and> unat (p_queue (ps ! i)) = q \<longrightarrow>
             (if q = 4 then sint (p_lastWorkingticks (ps ! j)) \<le> sint (p_lastWorkingticks (ps ! i))
              else sint (p_ctime (ps ! j)) \<le> sint (p_ctime (ps ! i))))"
      using ok q by (simp add: queue_ok_def)
    show ?thesis
    proof (cases "q = ?q")
      case False
      then show ?thesis using okq other [OF False] by (auto split: option.splits)
    next
      case True
      show ?thesis
      proof (cases "qs ! q")
        case None
        then show ?thesis using okq here True i by auto
      next
        case (Some j)
        then show ?thesis using okq here True i by (auto split: if_splits)
      qed
    qed
  qed
  ultimately show ?thesis by (simp add: queue_ok_def)
qed

lemma collect_ok:
  assumes "queue_ok ps I qs" "\<forall>i \<in> set is. unat (p_queue (ps ! i)) < 5"
  shows "\<exists>rs. collect ps is qs = Ok rs \<and> queue_ok ps (I \<union> set is) rs"
  using assms
proof (induction "is" arbitrary: qs I)
  case Nil
  then show ?case by simp
next
  case (Cons i js)
  show ?case
  proof (cases "p_state (ps ! i) = RUNNABLE")
    case True
    have "queue_ok ps (insert i I) (offer ps i qs)" using Cons.prems True by (intro queue_ok_offer) auto
    with Cons.IH [OF this] Cons.prems True show ?thesis by simp
  next
    case False
    have "queue_ok ps (insert i I) qs" using Cons.prems(1) False by (rule queue_ok_skip)
    with Cons.IH [OF this] Cons.prems False show ?thesis by simp
  qed
qed

lemma queue_ok_empty: "queue_ok ps {} (replicate 5 None)"
  by (simp add: queue_ok_def)

lemma queue_ok_None:
  assumes "queue_ok ps I qs" "q < 5" "qs ! q = None" "i \<in> I" "p_state (ps ! i) = RUNNABLE"
  shows "unat (p_queue (ps ! i)) \<noteq> q"
proof -
  have "case qs ! q of None \<Rightarrow> \<forall>i \<in> I. p_state (ps ! i) = RUNNABLE \<longrightarrow> unat (p_queue (ps ! i)) \<noteq> q | Some j \<Rightarrow> True"
    using assms(1,2) by (auto simp: queue_ok_def split: option.splits)
  then show ?thesis using assms(3-5) by simp
qed

end
