(* ===== verification/Sched_Inv.thy ===== *)
theory Sched_Inv
  imports Sched_Pick
begin

text \<open>
  The scheduler together with the processes it runs, as a transition system on one CPU (the kernel started with \<open>CPUS=1\<close>; the
  \<open>Makefile\<close> starts two by default, and then a process can be running on the other one): clock ticks,
  scheduling rounds, and the kernel entries by which the running process gives up the CPU or
  changes the process table.  The invariant says that exactly the process the scheduler switched to is
  running, that the queue numbers index their arrays, and that the time accounting of
  \<open>waitx\<close> adds up.
\<close>

section \<open>The invariant\<close>

definition local_ok :: "nat \<Rightarrow> sproc \<Rightarrow> bool" where
  "local_ok n p \<longleftrightarrow> length (p_q_ticks p) = 5 \<and> unat (p_queue p) < 5 \<and>
     (p_state p \<in> {SLEEPING, RUNNABLE, RUNNING} \<longrightarrow> p_kstack p \<noteq> 0 \<and> p_pgdir p \<noteq> 0) \<and>
     (p_state p \<noteq> UNUSED \<longrightarrow> unat (p_ctime p) + unat (p_rtime p) + unat (p_iotime p) \<le> n) \<and>
     (p_state p = ZOMBIE \<and> n < 2 ^ 32 \<longrightarrow>
        unat (p_ctime p) + unat (p_rtime p) + unat (p_iotime p) \<le> unat (p_etime p))"

definition tables_ok :: "nat \<Rightarrow> sst \<Rightarrow> bool" where
  "tables_ok n s \<longleftrightarrow> length (ptable s) = NPROC \<and> ticks s = of_nat n \<and>
     (\<forall>p \<in> set (ptable s). local_ok n p)"

definition none_running :: "sst \<Rightarrow> bool" where
  "none_running s \<longleftrightarrow> (\<forall>p \<in> set (ptable s). p_state p \<noteq> RUNNING)"

definition only_running :: "nat \<Rightarrow> sst \<Rightarrow> bool" where
  "only_running i s \<longleftrightarrow> i < length (ptable s) \<and> cproc s = Some i \<and>
     (\<forall>j < length (ptable s). p_state (ptable s ! j) = RUNNING \<longleftrightarrow> j = i)"

definition on_cpu :: "sst \<Rightarrow> spc \<Rightarrow> bool" where
  "on_cpu s pc = (case pc of
      Top \<Rightarrow> cproc s = None \<and> none_running s
    | RRrun i \<Rightarrow> only_running i s
    | FCFSrun i \<Rightarrow> only_running i s
    | PBSrun i m \<Rightarrow> only_running i s \<and> m < length (ptable s)
    | MLFQrun q i \<Rightarrow> only_running i s \<and> q < 5 \<and> unat (p_queue (ptable s ! i)) = q)"

definition proc_of :: "spc \<Rightarrow> nat option" where
  "proc_of pc = (case pc of Top \<Rightarrow> None | RRrun i \<Rightarrow> Some i | FCFSrun i \<Rightarrow> Some i
     | PBSrun i _ \<Rightarrow> Some i | MLFQrun _ i \<Rightarrow> Some i)"

definition sinv :: "nat \<Rightarrow> sst \<Rightarrow> spc \<Rightarrow> bool" where
  "sinv n s pc \<longleftrightarrow> quiet s \<and> tables_ok n s \<and> on_cpu s pc"

text \<open>The same at the moment of a switch: the lock is passed on to the process.\<close>

definition mid :: "nat \<Rightarrow> spc \<Rightarrow> sst \<Rightarrow> bool" where
  "mid n pc s \<longleftrightarrow> tables_ok n s \<and> on_cpu s pc \<and> holdset s (if pc = Top then {} else {PTABLE})"

definition idle :: "nat \<Rightarrow> sst \<Rightarrow> bool" where
  "idle n s \<longleftrightarrow> critical s \<and> tables_ok n s \<and> cproc s = None \<and> none_running s"

definition given_up :: "nat \<Rightarrow> spc \<Rightarrow> sst \<Rightarrow> bool" where
  "given_up n pc s \<longleftrightarrow> critical s \<and> tables_ok n s \<and> none_running s \<and>
     (\<exists>i. proc_of pc = Some i \<and> i < NPROC \<and> cproc s = Some i) \<and>
     (\<forall>i m. pc = PBSrun i m \<longrightarrow> m < NPROC) \<and>
     (\<forall>q i. pc = MLFQrun q i \<longrightarrow> q < 5 \<and> unat (p_queue (ptable s ! i)) = q)"

section \<open>Frame lemmas\<close>

lemma km_fields [simp]:
  "ptable (s\<lparr>km := k\<rparr>) = ptable s" "cproc (s\<lparr>km := k\<rparr>) = cproc s" "ticks (s\<lparr>km := k\<rparr>) = ticks s"
  "lk (s\<lparr>km := k\<rparr>) = lk s" "nextpid (s\<lparr>km := k\<rparr>) = nextpid s" "initproc (s\<lparr>km := k\<rparr>) = initproc s"
  by simp_all

lemma holdset_km [simp]: "holdset (s\<lparr>km := k\<rparr>) = holdset s"
  by (simp add: fun_eq_iff holdset_def)

lemma tables_ok_frame [simp]:
  "tables_ok n (s\<lparr>cproc := c\<rparr>) = tables_ok n s" "tables_ok n (s\<lparr>km := k\<rparr>) = tables_ok n s"
  "tables_ok n (lock_in l s) = tables_ok n s" "tables_ok n (lock_out l s) = tables_ok n s"
  "tables_ok n (s\<lparr>nextpid := v\<rparr>) = tables_ok n s" "tables_ok n (s\<lparr>lk := x\<rparr>) = tables_ok n s"
  by (simp_all add: tables_ok_def)

lemma none_running_frame [simp]:
  "none_running (s\<lparr>cproc := c\<rparr>) = none_running s" "none_running (s\<lparr>km := k\<rparr>) = none_running s"
  "none_running (lock_in l s) = none_running s" "none_running (lock_out l s) = none_running s"
  by (simp_all add: none_running_def)

lemma only_running_frame [simp]:
  "only_running i (s\<lparr>km := k\<rparr>) = only_running i s" "only_running i (lock_in l s) = only_running i s"
  "only_running i (lock_out l s) = only_running i s" "only_running i (s\<lparr>lk := x\<rparr>) = only_running i s"
  "only_running i (s\<lparr>nextpid := v\<rparr>) = only_running i s"
  by (simp_all add: only_running_def)

lemma on_cpu_frame [simp]:
  "on_cpu (s\<lparr>km := k\<rparr>) pc = on_cpu s pc" "on_cpu (lock_in l s) pc = on_cpu s pc"
  "on_cpu (lock_out l s) pc = on_cpu s pc"
  by (simp_all add: on_cpu_def split: spc.split)

lemma tables_ok_upd:
  assumes "tables_ok n s" "\<And>p. local_ok n p \<Longrightarrow> p = ptable s ! i \<Longrightarrow> local_ok n (f p)"
  shows "tables_ok n (upd_proc i f s)"
proof (cases "i < length (ptable s)")
  case True
  then have "local_ok n (f (ptable s ! i))"
    using assms nth_mem [OF True] by (simp add: tables_ok_def)
  then show ?thesis
    using assms(1) set_update_subset_insert [of "ptable s" i "f (ptable s ! i)"]
    by (auto simp: tables_ok_def)
next
  case False
  then show ?thesis using assms(1) by (simp add: tables_ok_def list_update_beyond)
qed

lemma tables_ok_nth: "tables_ok n s \<Longrightarrow> i < NPROC \<Longrightarrow> local_ok n (ptable s ! i)"
  by (simp add: tables_ok_def)

lemma none_running_nth: "none_running s \<longleftrightarrow> (\<forall>j < length (ptable s). p_state (ptable s ! j) \<noteq> RUNNING)"
  by (simp add: none_running_def all_set_conv_all_nth)

lemma none_running_upd:
  assumes "none_running s" "p_state (f (ptable s ! i)) \<noteq> RUNNING"
  shows "none_running (upd_proc i f s)"
  using assms by (cases "i < length (ptable s)") (auto simp: none_running_nth nth_list_update)

section \<open>Switching to a process and back\<close>

lemma switchuvm_ok:
  assumes "local_ok n (ptable s ! i)" "p_state (ptable s ! i) = RUNNABLE"
  shows "sched_switchuvm i s = Ok ((), s\<lparr>km := (km s)\<lparr>scr3 := V2P (p_pgdir (ptable s ! i))\<rparr>\<rparr>)"
  using assms by (simp add: sched_switchuvm_def local_ok_def)

text \<open>The state in which process \<open>i\<close> has been chosen and marked running.\<close>

definition chosen :: "nat \<Rightarrow> nat \<Rightarrow> sst \<Rightarrow> sst \<Rightarrow> bool" where
  "chosen n i s t \<longleftrightarrow> critical t \<and> tables_ok n t \<and> only_running i t \<and>
     p_queue (ptable t ! i) = p_queue (ptable s ! i) \<and> p_priority (ptable t ! i) = p_priority (ptable s ! i)"

lemma chosen_run:
  assumes "idle n s" "i < NPROC"
    and "tables_ok n t" "critical t" "cproc t = Some i"
    and "\<And>j. j < NPROC \<Longrightarrow> j \<noteq> i \<Longrightarrow> p_state (ptable t ! j) = p_state (ptable s ! j)"
    and "p_state (ptable t ! i) = RUNNING"
    and "p_queue (ptable t ! i) = p_queue (ptable s ! i)" "p_priority (ptable t ! i) = p_priority (ptable s ! i)"
  shows "chosen n i s t"
proof -
  have len: "length (ptable t) = NPROC" "length (ptable s) = NPROC"
    using assms(1,3) by (simp_all add: tables_ok_def idle_def)
  have "p_state (ptable t ! j) = RUNNING \<longleftrightarrow> j = i" if "j < NPROC" for j
    using assms(1,6,7) that len by (cases "j = i") (simp_all add: idle_def none_running_nth)
  then show ?thesis using assms len by (simp add: chosen_def only_running_def)
qed

lemma dispatch_ok:
  assumes "idle n s" "i < NPROC" "p_state (ptable s ! i) = RUNNABLE"
  shows "okp (\<lambda>_ t. chosen n i s t) (dispatch i s)"
proof -
  have ok: "tables_ok n s" "critical s" using assms(1) by (simp_all add: idle_def)
  have len: "i < length (ptable s)" using ok assms(2) by (simp add: tables_ok_def)
  have li: "local_ok n (ptable s ! i)" using ok(1) assms(2) by (rule tables_ok_nth)
  let ?s1 = "s\<lparr>cproc := Some i\<rparr>"
  let ?s2 = "?s1\<lparr>km := (km ?s1)\<lparr>scr3 := V2P (p_pgdir (ptable ?s1 ! i))\<rparr>\<rparr>"
  let ?t = "upd_proc i (\<lambda>p. p\<lparr>p_n_run := p_n_run p + 1, p_state := RUNNING,
      p_lastWorkingticks := ticks ?s2\<rparr>) ?s2"
  have d: "dispatch i s = Ok ((), ?t)"
    using switchuvm_ok [of n ?s1 i] li assms(3) by (simp add: dispatch_def kern_simps)
  have "tables_ok n ?t"
    using ok(1) assms(3) by (intro tables_ok_upd) (simp_all add: local_ok_def)
  then have "chosen n i s ?t"
    using assms(1,2) ok len by (intro chosen_run) simp_all
  then show ?thesis by (simp only: d okp_Ok)
qed

lemma end_round_ok: "idle n s \<Longrightarrow> okp (mid n) (end_round s)"
  using releasep_hold [of s "{PTABLE}" PTABLE]
  by (simp add: end_round_def kern_simps idle_def mid_def on_cpu_def quiet_out)

lemma idle_none_running: "idle n s \<Longrightarrow> none_running s" and idle_length: "idle n s \<Longrightarrow> length (ptable s) = NPROC"
  by (simp_all add: idle_def tables_ok_def)

lemma run_ok:
  assumes "okp (\<lambda>_ t. chosen n i s t) (m s)" "\<And>t. chosen n i s t \<Longrightarrow> on_cpu t pc" "pc \<noteq> Top"
  shows "okp (mid n) (seqk m (ret pc) s)"
  unfolding seqk_app
  using assms(1)
  by (rule okp_bindI) (use assms(2,3) in \<open>simp add: kern_simps mid_def chosen_def\<close>)

lemma rr_from_ok:
  assumes "idle n s" shows "okp (mid n) (rr_from k s)"
proof (cases "next_from runnable k (ptable s)")
  case None
  then show ?thesis using end_round_ok [OF assms] by (simp add: rr_from_def)
next
  case (Some i)
  then have "i < NPROC" "p_state (ptable s ! i) = RUNNABLE"
    using idle_length [OF assms] by (simp_all add: next_from_Some runnable_def)
  then have "okp (\<lambda>_ t. chosen n i s t) (dispatch i s)" using assms by (intro dispatch_ok)
  then have "okp (mid n) (seqk (dispatch i) (ret (RRrun i)) s)"
    by (rule run_ok) (simp_all add: on_cpu_def chosen_def)
  then show ?thesis by (simp add: rr_from_def Some)
qed

lemma fcfs_top_ok:
  assumes "idle n s" shows "okp (mid n) (fcfs_top s)"
proof (cases "fcfs_pick (ptable s)")
  case None
  then show ?thesis using end_round_ok [OF assms] by (simp add: fcfs_top_def)
next
  case (Some i)
  then have "i < NPROC" "p_state (ptable s ! i) = RUNNABLE"
    using idle_length [OF assms] fcfs.pick_best [OF Some] by (simp_all add: best_of_def)
  then have "okp (\<lambda>_ t. chosen n i s t) (dispatch i s)" using assms by (intro dispatch_ok)
  then have "okp (mid n) (seqk (dispatch i) (ret (FCFSrun i)) s)"
    by (rule run_ok) (simp_all add: on_cpu_def chosen_def)
  then show ?thesis by (simp add: fcfs_top_def Some)
qed

lemma pbs_from_ok:
  assumes "idle n s" "m < NPROC" shows "okp (mid n) (pbs_from k m s)"
proof (cases "next_from (\<lambda>p. runnable p \<and> p_priority p = p_priority (ptable s ! m)) k (ptable s)")
  case None
  then show ?thesis using end_round_ok [OF assms(1)] by (simp add: pbs_from_def)
next
  case (Some i)
  then have "i < NPROC" "p_state (ptable s ! i) = RUNNABLE"
    using idle_length [OF assms(1)] by (simp_all add: next_from_Some runnable_def)
  then have "okp (\<lambda>_ t. chosen n i s t) (dispatch i s)" using assms by (intro dispatch_ok)
  then have "okp (mid n) (seqk (dispatch i) (ret (PBSrun i m)) s)"
    by (rule run_ok) (use assms(2) in \<open>simp_all add: on_cpu_def chosen_def tables_ok_def\<close>)
  then show ?thesis by (simp add: pbs_from_def Some)
qed

lemma pbs_top_ok:
  assumes "idle n s" shows "okp (mid n) (pbs_top s)"
proof (cases "pbs_min (ptable s)")
  case None
  then show ?thesis using end_round_ok [OF assms] by (simp add: pbs_top_def)
next
  case (Some m)
  then have "m < NPROC" using pbs.pick_best [OF Some] idle_length [OF assms] by (simp add: best_of_def)
  then show ?thesis using pbs_from_ok [OF assms] by (simp add: pbs_top_def Some)
qed

text \<open>Ageing and the choice among the queues.\<close>

lemma unat_minus_one_less: "x \<noteq> 0 \<Longrightarrow> unat x < k \<Longrightarrow> unat (x - 1 :: u32) < k"
  by (simp add: unat_minus_one)

lemma age_ok:
  assumes "local_ok n p" "p_state p \<noteq> RUNNING"
  shows "\<exists>q. age now p = Ok q \<and> local_ok n q \<and> p_state q = p_state p \<and> p_ctime q = p_ctime p \<and>
    p_priority q = p_priority p"
proof -
  have "0 <s p_queue p \<Longrightarrow> p_queue p \<noteq> 0" by (auto simp: word_sless_alt)
  then show ?thesis
    using assms unat_minus_one_less [of "p_queue p" 5] by (auto simp: age_def local_ok_def)
qed

lemma age_all_ok:
  assumes "\<forall>p \<in> set ps. local_ok n p" "\<forall>p \<in> set ps. p_state p \<noteq> RUNNING"
  shows "\<exists>qs. age_all now ps = Ok qs \<and> length qs = length ps \<and> (\<forall>p \<in> set qs. local_ok n p) \<and>
    map p_state qs = map p_state ps"
  using assms
proof (induction ps)
  case Nil
  then show ?case by simp
next
  case (Cons p ps)
  then obtain qs where qs: "age_all now ps = Ok qs" "length qs = length ps" "\<forall>p \<in> set qs. local_ok n p"
    "map p_state qs = map p_state ps" by auto
  obtain q where "age now p = Ok q" "local_ok n q" "p_state q = p_state p"
    using Cons.prems age_ok [of n p now] by auto
  with qs show ?case by simp
qed

lemma mlfq_dispatch_ok:
  assumes "idle n s" "i < NPROC" "p_state (ptable s ! i) = RUNNABLE"
  shows "okp (\<lambda>_ t. chosen n i s t) (mlfq_dispatch i s)"
proof -
  have ok: "tables_ok n s" "critical s" using assms(1) by (simp_all add: idle_def)
  have len: "i < length (ptable s)" using ok assms(2) by (simp add: tables_ok_def)
  have li: "local_ok n (ptable s ! i)" using ok(1) assms(2) by (rule tables_ok_nth)
  let ?s1 = "(upd_proc i (\<lambda>p. p\<lparr>p_lastWorkingticks := ticks s\<rparr>) s)\<lparr>cproc := Some i\<rparr>"
  let ?s2 = "?s1\<lparr>km := (km ?s1)\<lparr>scr3 := V2P (p_pgdir (ptable ?s1 ! i))\<rparr>\<rparr>"
  let ?t = "upd_proc i (\<lambda>p. p\<lparr>p_state := RUNNING\<rparr>) ?s2"
  have "local_ok n (ptable ?s1 ! i)" "p_state (ptable ?s1 ! i) = RUNNABLE"
    using li assms(3) len by (simp_all add: local_ok_def)
  then have d: "mlfq_dispatch i s = Ok ((), ?t)"
    using switchuvm_ok [of n ?s1 i] by (simp add: mlfq_dispatch_def kern_simps)
  have "tables_ok n (upd_proc i (\<lambda>p. p\<lparr>p_lastWorkingticks := ticks s\<rparr>) s)"
    using ok(1) by (intro tables_ok_upd) (simp_all add: local_ok_def)
  then have "tables_ok n ?t"
    using assms(3) len by (intro tables_ok_upd) (simp_all add: local_ok_def)
  then have "chosen n i s ?t"
    using assms(1,2) ok len by (intro chosen_run) simp_all
  then show ?thesis by (simp only: d okp_Ok)
qed

lemma mlfq_top_ok:
  assumes "idle n s" shows "okp (mid n) (mlfq_top s)"
proof -
  have ok: "tables_ok n s" "none_running s" using assms by (simp_all add: idle_def)
  obtain ps where ps: "age_all (ticks s) (ptable s) = Ok ps" "length ps = length (ptable s)"
    "\<forall>p \<in> set ps. local_ok n p" "map p_state ps = map p_state (ptable s)"
    using age_all_ok [of "ptable s" n "ticks s"] ok by (auto simp: tables_ok_def none_running_def)
  have len: "length ps = NPROC" using ps(2) idle_length [OF assms] by simp
  have "p_state p \<noteq> RUNNING" if "p \<in> set ps" for p
  proof -
    have "p_state p \<in> set (map p_state (ptable s))" using that ps(4) by (metis imageI set_map)
    then show ?thesis using ok(2) by (auto simp: none_running_def)
  qed
  then have id1: "idle n (s\<lparr>ptable := ps\<rparr>)"
    using assms ps(2,3) by (simp add: idle_def tables_ok_def none_running_def)
  have "\<forall>i \<in> set [0 ..< length ps]. unat (p_queue (ps ! i)) < 5"
    using ps(3) by (simp add: local_ok_def)
  from collect_ok [OF queue_ok_empty this]
  obtain qs where qs: "collect ps [0 ..< length ps] (replicate 5 None) = Ok qs"
    "queue_ok ps {0 ..< length ps} qs" by auto
  show ?thesis
  proof (cases "find_index (\<lambda>q. q \<noteq> None) qs")
    case None
    then show ?thesis using end_round_ok [OF id1] by (simp add: mlfq_top_def ps(1) qs(1))
  next
    case (Some q)
    then have q: "q < 5" "qs ! q \<noteq> None"
      using qs(2) by (simp_all add: find_index_Some queue_ok_def)
    then obtain i where i: "qs ! q = Some i" by auto
    have iq: "i < NPROC" "p_state (ps ! i) = RUNNABLE" "unat (p_queue (ps ! i)) = q"
      using qs(2) q(1) i len by (auto simp: queue_ok_def)
    let ?s1 = "upd_proc i (\<lambda>p. p\<lparr>p_curr_q_ticks := 0, p_n_run := p_n_run p + 1\<rparr>) (s\<lparr>ptable := ps\<rparr>)"
    have "idle n ?s1"
      using id1 iq unfolding idle_def
      by (auto intro!: tables_ok_upd none_running_upd simp: local_ok_def)
    then have "okp (\<lambda>_ t. chosen n i ?s1 t) (mlfq_dispatch i ?s1)"
      using iq len by (intro mlfq_dispatch_ok) simp_all
    then have "okp (mid n) (seqk (mlfq_dispatch i) (ret (MLFQrun q i)) ?s1)"
      by (rule run_ok) (use iq q(1) len in \<open>simp_all add: on_cpu_def chosen_def\<close>)
    then show ?thesis
      using iq len qs(1) Some by (simp add: mlfq_top_def ps(1) i Let_def del: not_None_eq)
  qed
qed

lemma sched_top_ok:
  assumes "sinv n s Top" shows "okp (mid n) (sched_top pol s)"
proof -
  have q: "quiet s" "tables_ok n s" "on_cpu s Top" using assms by (simp_all add: sinv_def)
  have "idle n (lock_in PTABLE s)"
    using q holdset_in [OF q(1), of PTABLE] by (simp add: idle_def on_cpu_def)
  then show ?thesis
    using acquirep_hold [OF q(1), of PTABLE] rr_from_ok fcfs_top_ok pbs_top_ok mlfq_top_ok
    by (cases pol) (simp_all add: sched_top_def kern_simps)
qed

section \<open>Coming back to the scheduler\<close>

lemma undispatch_ok:
  assumes "given_up n pc s" "proc_of pc = Some i"
  shows "okp (\<lambda>_ t. idle n t) (undispatch i s)"
proof -
  have g: "critical s" "tables_ok n s" "none_running s" "i < NPROC" using assms by (auto simp: given_up_def)
  have len: "i < length (ptable s)" using g by (simp add: tables_ok_def)
  have "p_state (ptable s ! i) \<noteq> RUNNING" using g(3) len by (simp add: none_running_nth)
  then have "idle n ((upd_proc i (\<lambda>p. p\<lparr>p_lastWorkingticks := ticks s\<rparr>)
      (s\<lparr>km := (km s)\<lparr>scr3 := V2P (skpgdir (km s))\<rparr>\<rparr>))\<lparr>cproc := None\<rparr>)"
    using g unfolding idle_def
    by (auto intro!: tables_ok_upd none_running_upd simp: local_ok_def)
  then show ?thesis by (simp add: undispatch_def sched_switchkvm_def kern_simps)
qed

lemma idle_upd:
  assumes "idle n s" "\<And>p. local_ok n p \<Longrightarrow> p = ptable s ! i \<Longrightarrow> local_ok n (f p)"
    and "p_state (f (ptable s ! i)) = p_state (ptable s ! i)" "i < NPROC"
  shows "idle n (upd_proc i f s)"
proof -
  have "p_state (ptable s ! i) \<noteq> RUNNING"
    using idle_none_running [OF assms(1)] idle_length [OF assms(1)] assms(4) by (simp add: none_running_nth)
  then show ?thesis
    using assms tables_ok_upd [OF _ assms(2)] none_running_upd [of s f i] by (simp add: idle_def)
qed

lemma mlfq_finish_ok:
  assumes "idle n s" "i < NPROC" "q < 5" "unat (p_queue (ptable s ! i)) = q"
  shows "okp (mid n) (mlfq_finish q i s)"
proof -
  let ?s1 = "if max_tick_of_q ! q \<le>s p_curr_q_ticks (ptable s ! i) \<and> q \<noteq> 4
               then upd_proc i (\<lambda>p. p\<lparr>p_queue := p_queue p + 1\<rparr>) s else s"
  have "unat (p_queue (ptable s ! i) + 1) = q + 1" if "q \<noteq> 4"
    using assms(3,4) that by (simp add: unat_word_ariths)
  then have "q \<noteq> 4 \<Longrightarrow> idle n (upd_proc i (\<lambda>p. p\<lparr>p_queue := p_queue p + 1\<rparr>) s)"
    using assms(2,3) by (intro idle_upd [OF assms(1)]) (simp_all add: local_ok_def)
  then have "idle n ?s1" using assms(1) by simp
  then have "idle n (upd_proc i (\<lambda>p. p\<lparr>p_lastWorkingticks := ticks s\<rparr>) ?s1)"
    by (rule idle_upd) (use assms(2) in \<open>simp_all add: local_ok_def\<close>)
  then show ?thesis unfolding mlfq_finish_def Let_def by (rule end_round_ok)
qed

lemma mlfq_back_ok:
  assumes "given_up n (MLFQrun q i) s"
  shows "okp (mid n) (mlfq_back q i s)"
proof -
  let ?t = "s\<lparr>km := (km s)\<lparr>scr3 := V2P (skpgdir (km s))\<rparr>, cproc := None\<rparr>"
  have g: "critical s" "tables_ok n s" "none_running s" "i < NPROC" "q < 5" "unat (p_queue (ptable s ! i)) = q"
    using assms by (auto simp: given_up_def proc_of_def)
  have id: "idle n ?t" using g by (simp add: idle_def)
  note fin = mlfq_finish_ok [OF id g(4,5)]
  have "okp (mid n) (seqk (mlfq_dispatch i) (ret (MLFQrun q i)) ?t)"
    if "p_state (ptable s ! i) = RUNNABLE"
    by (rule run_ok, rule mlfq_dispatch_ok [OF id g(4)])
       (use that g in \<open>simp_all add: on_cpu_def chosen_def\<close>)
  then show ?thesis
    using fin g by (simp add: mlfq_back_def sched_switchkvm_def kern_simps)
qed

lemma pbs_back_ok:
  assumes "given_up n (PBSrun i m) s" shows "okp (mid n) (pbs_back i m s)"
proof -
  have m: "m < NPROC" using assms by (simp add: given_up_def)
  have "okp (\<lambda>_ t. idle n t) (undispatch i s)" using assms by (rule undispatch_ok) (simp add: proc_of_def)
  then show ?thesis
    unfolding pbs_back_def seqk_app
    by (rule okp_bindI) (use end_round_ok pbs_from_ok m in simp)
qed

lemma sched_back_ok:
  assumes "given_up n pc s" shows "okp (mid n) (sched_back pc s)"
proof (cases pc)
  case Top
  then show ?thesis using assms by (simp add: given_up_def proc_of_def)
next
  case (RRrun i)
  have "okp (\<lambda>_ t. idle n t) (undispatch i s)" using assms by (rule undispatch_ok) (simp add: RRrun proc_of_def)
  then show ?thesis unfolding RRrun sched_back_def spc.case seqk_app by (rule okp_bindI) (rule rr_from_ok)
next
  case (FCFSrun i)
  have "okp (\<lambda>_ t. idle n t) (undispatch i s)" using assms by (rule undispatch_ok) (simp add: FCFSrun proc_of_def)
  then show ?thesis unfolding FCFSrun sched_back_def spc.case seqk_app by (rule okp_bindI) (rule end_round_ok)
next
  case (PBSrun i m)
  then show ?thesis using pbs_back_ok assms by (simp add: sched_back_def)
next
  case (MLFQrun q i)
  then show ?thesis using mlfq_back_ok assms by (simp add: sched_back_def)
qed

section \<open>The running process\<close>

text \<open>The ways in which the running process gives up the CPU: \<open>t\<close> is the state at \<open>swtch\<close>.\<close>

inductive gives_up :: "sst \<Rightarrow> sst \<Rightarrow> bool" where
  yields: "yield_enter s = Ok (b, t) \<Longrightarrow> gives_up s t"
| sleeps: "acquirep l s = Ok ((), s1) \<Longrightarrow> sleep_enter ch l s1 = Ok (b, t) \<Longrightarrow> gives_up s t"
| exits: "cproc s = Some i \<Longrightarrow> exit_zombie i s = Ok (b, t) \<Longrightarrow> gives_up s t"

text \<open>The ways in which a process continues after \<open>swtch\<close>, until it holds no lock.\<close>

inductive resumes :: "sst \<Rightarrow> sst \<Rightarrow> bool" where
  forkrets: "releasep PTABLE s = Ok ((), t) \<Longrightarrow> resumes s t"
| yielded: "yield_exit b s = Ok ((), t) \<Longrightarrow> resumes s t"
| slept: "sleep_exit b l s = Ok ((), s1) \<Longrightarrow> releasep l s1 = Ok ((), t) \<Longrightarrow> resumes s t"

text \<open>
  Kernel entries of the running process that return to it.  \<open>fork\<close> is a sequence of steps, between which the clock may tick and other processes run: \<open>allocproc\<close> takes an
  entry (or fails), \<open>prepares\<close> fills in fields of the new process that do not matter here, and either \<open>completes\<close> makes it
  runnable, when it has a stack and a directory, or \<open>undoes\<close> gives the entry back, when \<open>copyuvm\<close> has failed.
  \<open>owns\<close> is any change of memory and of the fields of the running process that \<open>exec\<close>, \<open>sbrk\<close> and the calls on files change; its directory is never null.
\<close>

inductive kcall :: "sst \<Rightarrow> sst \<Rightarrow> bool" where
  wakes: "wakeup ch s = Ok ((), t) \<Longrightarrow> kcall s t"
| kills: "kill pid s = Ok (r, t) \<Longrightarrow> kcall s t"
| prioritises: "set_priority v pid s = Ok (r, t) \<Longrightarrow> kcall s t"
| owns: "cproc s = Some i \<Longrightarrow> pd \<noteq> 0 \<Longrightarrow>
    kcall s (upd_proc i (\<lambda>p. p\<lparr>p_sz := z, p_pgdir := pd, p_tf := tf, p_ofile := fs, p_cwd := d, p_name := nm\<rparr>) (s\<lparr>km := k\<rparr>))"
| allocates: "allocproc s = Ok (r, t) \<Longrightarrow> kcall s t"
| prepares: "i < length (ptable s) \<Longrightarrow> p_state (ptable s ! i) = EMBRYO \<Longrightarrow>
    kcall s (upd_proc i (\<lambda>p. p\<lparr>p_sz := z, p_pgdir := pd, p_parent := q, p_ofile := fs, p_cwd := d, p_name := nm\<rparr>) (s\<lparr>km := k\<rparr>))"
| completes: "i < length (ptable s) \<Longrightarrow> p_state (ptable s ! i) = EMBRYO \<Longrightarrow> p_kstack (ptable s ! i) \<noteq> 0 \<Longrightarrow> p_pgdir (ptable s ! i) \<noteq> 0 \<Longrightarrow>
    make_runnable i s = Ok ((), t) \<Longrightarrow> kcall s t"
| undoes: "i < length (ptable s) \<Longrightarrow> p_state (ptable s ! i) = EMBRYO \<Longrightarrow>
    kcall s (upd_proc i (\<lambda>p. p\<lparr>p_kstack := 0, p_state := UNUSED\<rparr>) (s\<lparr>km := k\<rparr>))"
| waits: "cproc s = Some i \<Longrightarrow> acquirep PTABLE s = Ok ((), s1) \<Longrightarrow> wait_scan i s1 = Ok (Some r, t) \<Longrightarrow> kcall s t"
| waitxs: "cproc s = Some i \<Longrightarrow> acquirep PTABLE s = Ok ((), s1) \<Longrightarrow> waitx_scan i s1 = Ok (Some r, t) \<Longrightarrow> kcall s t"

text \<open>The states the machine can reach, with the number of clock ticks so far.\<close>

definition boot_state :: "sst \<Rightarrow> bool" where
  "boot_state s \<longleftrightarrow> quiet s \<and> ticks s = 0 \<and> cproc s = None \<and> length (ptable s) = NPROC \<and>
     (\<forall>p \<in> set (ptable s). local_ok 0 p \<and> p_state p \<in> {UNUSED, RUNNABLE})"

inductive sys :: "policy \<Rightarrow> nat \<Rightarrow> sst \<Rightarrow> spc \<Rightarrow> bool" for pol where
  boots: "boot_state s \<Longrightarrow> sys pol 0 s Top"
| idles: "sys pol n s Top \<Longrightarrow> sched_top pol s = Ok (Top, t) \<Longrightarrow> sys pol n t Top"
| starts: "sys pol n s Top \<Longrightarrow> sched_top pol s = Ok (pc, t) \<Longrightarrow> pc \<noteq> Top \<Longrightarrow> resumes t u \<Longrightarrow> sys pol n u pc"
| ticks: "sys pol n s pc \<Longrightarrow> timer_tick s = Ok ((), t) \<Longrightarrow> sys pol (Suc n) t pc"
| calls: "sys pol n s pc \<Longrightarrow> pc \<noteq> Top \<Longrightarrow> kcall s t \<Longrightarrow> sys pol n t pc"
| stops: "sys pol n s pc \<Longrightarrow> pc \<noteq> Top \<Longrightarrow> gives_up s t \<Longrightarrow> sched_back pc t = Ok (Top, u) \<Longrightarrow> sys pol n u Top"
| switches: "sys pol n s pc \<Longrightarrow> pc \<noteq> Top \<Longrightarrow> gives_up s t \<Longrightarrow> sched_back pc t = Ok (pc', u) \<Longrightarrow>
    pc' \<noteq> Top \<Longrightarrow> resumes u v \<Longrightarrow> sys pol n v pc'"

subsection \<open>Continuing\<close>

lemma on_cpu_same_table:
  "ptable t = ptable s \<Longrightarrow> cproc t = cproc s \<Longrightarrow> on_cpu t pc = on_cpu s pc"
  by (simp add: on_cpu_def only_running_def none_running_def split: spc.split)

lemma tables_ok_same: "ptable t = ptable s \<Longrightarrow> ticks t = ticks s \<Longrightarrow> tables_ok n t = tables_ok n s"
  by (simp add: tables_ok_def)

lemma on_cpu_proc: "on_cpu s pc \<Longrightarrow> pc \<noteq> Top \<Longrightarrow> \<exists>i. proc_of pc = Some i \<and> only_running i s"
  by (auto simp: on_cpu_def proc_of_def split: spc.splits)

text \<open>An update that keeps the states and the queues of all processes keeps \<open>on_cpu\<close>.\<close>

lemma on_cpu_upd:
  assumes "on_cpu s pc" "cproc t = cproc s" "length (ptable t) = length (ptable s)"
    and "\<And>j. j < length (ptable s) \<Longrightarrow>
      (p_state (ptable t ! j) = RUNNING \<longleftrightarrow> p_state (ptable s ! j) = RUNNING) \<and>
      (p_state (ptable s ! j) = RUNNING \<longrightarrow> p_queue (ptable t ! j) = p_queue (ptable s ! j))"
  shows "on_cpu t pc"
  using assms
  by (auto simp: on_cpu_def only_running_def none_running_nth split: spc.splits)

lemma nth_upd: "xs[i := x] ! j = (if j = i \<and> i < length xs then x else xs ! j)"
  by (cases "i < length xs") (auto simp: nth_list_update list_update_beyond)

lemma on_cpu_upd1:
  assumes "on_cpu s pc"
    and "p_state (f (ptable s ! i)) = RUNNING \<longleftrightarrow> p_state (ptable s ! i) = RUNNING"
    and "p_state (ptable s ! i) = RUNNING \<Longrightarrow> p_queue (f (ptable s ! i)) = p_queue (ptable s ! i)"
  shows "on_cpu (upd_proc i f s) pc"
  by (rule on_cpu_upd [OF assms(1)]) (use assms(2,3) in \<open>auto simp: nth_upd\<close>)

lemma resumes_ok:
  assumes "resumes s t" "mid n pc s" "pc \<noteq> Top" shows "sinv n t pc"
proof -
  have m: "critical s" "tables_ok n s" "on_cpu s pc" using assms(2,3) by (simp_all add: mid_def)
  let ?x = "\<lambda>b. s\<lparr>lk := upd_cpu 0 (\<lambda>c. c\<lparr>intena := b\<rparr>) (lk s)\<rparr>"
  have x: "critical (?x b)" for b using m(1) by (rule sched_exit_hold)
  from assms(1) show ?thesis
  proof cases
    case forkrets
    then have "t = lock_out PTABLE s" using m(1) by (simp add: releasep_hold)
    then show ?thesis using m quiet_out [OF m(1)] by (simp add: sinv_def)
  next
    case (yielded b)
    then have "t = lock_out PTABLE (?x b)"
      using releasep_hold [OF x] by (simp add: yield_exit_def sched_exit_def kern_simps)
    then show ?thesis
      using m quiet_out [OF x] by (simp add: sinv_def on_cpu_same_table [of "?x b" s])
  next
    case (slept b l s1)
    obtain i where i: "proc_of pc = Some i" "only_running i s" using on_cpu_proc [OF m(3) assms(3)] by blast
    let ?y = "upd_proc i (\<lambda>p. p\<lparr>p_chan := NoChan\<rparr>) (?x b)"
    have c: "cproc s = Some i" using i(2) by (simp add: only_running_def)
    have y: "critical ?y" using x by simp
    have s1: "s1 = (if l = PTABLE then ?y else lock_in l (lock_out PTABLE ?y))"
      using slept(1) c releasep_hold [OF y] acquirep_hold [OF quiet_out [OF y], of l]
      by (simp add: sleep_exit_def sched_exit_def myproc_def kern_simps split: if_splits)
    have h1: "holdset s1 {l}"
      using y holdset_in [OF quiet_out [OF y], of l] by (simp add: s1)
    have t: "t = lock_out l s1" using slept(2) releasep_hold [OF h1] by simp
    have ok: "tables_ok n ?y" using m(2) by (intro tables_ok_upd) (simp_all add: local_ok_def)
    have "on_cpu (?x b) pc" using m(3) on_cpu_same_table [of "?x b" s] by simp
    then have "on_cpu ?y pc" by (rule on_cpu_upd1) simp_all
    then show ?thesis
      using ok holdset_out [OF h1] by (simp add: sinv_def t s1)
  qed
qed

subsection \<open>Giving up the CPU\<close>

lemma given_upI:
  assumes "sinv n s pc" "pc \<noteq> Top" "proc_of pc = Some i" "critical t" "tables_ok n t" "cproc t = cproc s"
    and "none_running t" "p_queue (ptable t ! i) = p_queue (ptable s ! i)"
  shows "given_up n pc t"
proof -
  have o: "on_cpu s pc" "length (ptable s) = NPROC" using assms(1) by (simp_all add: sinv_def tables_ok_def)
  have r: "only_running i s" using on_cpu_proc [OF o(1) assms(2)] assms(3) by auto
  have q: "i' = i" if "pc = MLFQrun q i'" for q i' using that assms(3) by (simp add: proc_of_def)
  show ?thesis
    using assms(3-8) o r q by (auto simp: given_up_def only_running_def on_cpu_def)
qed

lemma none_running_after:
  assumes "only_running i s" "length (ptable t) = length (ptable s)" "p_state (ptable t ! i) \<noteq> RUNNING"
    and "\<And>j. j < length (ptable s) \<Longrightarrow> j \<noteq> i \<Longrightarrow> p_state (ptable t ! j) = RUNNING \<Longrightarrow> p_state (ptable s ! j) = RUNNING"
  shows "none_running t"
  using assms by (auto simp: none_running_nth only_running_def)

lemma local_ok_wake: "local_ok n p \<Longrightarrow> local_ok n (wake ch p)"
  by (auto simp: wake_def local_ok_def)

lemma wake_fields [simp]:
  "p_state (wake ch p) = RUNNING \<longleftrightarrow> p_state p = RUNNING" "p_queue (wake ch p) = p_queue p"
  "p_state (wake ch p) = ZOMBIE \<longleftrightarrow> p_state p = ZOMBIE"
  by (auto simp: wake_def)

text \<open>The pass over the children in \<open>exit\<close> changes parents, and may wake \<open>initproc\<close>.\<close>

lemma reparent_ok:
  assumes "tables_ok n s" "\<forall>k \<in> set ks. k < NPROC"
  shows "\<exists>t. reparent i ks s = Ok ((), t) \<and> tables_ok n t \<and> lk t = lk s \<and> cproc t = cproc s \<and>
    (\<forall>j < NPROC. (p_state (ptable t ! j) = RUNNING \<longleftrightarrow> p_state (ptable s ! j) = RUNNING) \<and>
       p_queue (ptable t ! j) = p_queue (ptable s ! j))"
  using assms
proof (induction ks arbitrary: s)
  case Nil
  then show ?case by (simp add: kern_simps)
next
  case (Cons k ks)
  show ?case
  proof (cases "p_parent (ptable s ! k) = Some i")
    case False
    then show ?thesis using Cons by simp
  next
    case True
    let ?s1 = "upd_proc k (\<lambda>p. p\<lparr>p_parent := initproc s\<rparr>) s"
    let ?s2 = "if p_state (ptable s ! k) = ZOMBIE
        then ?s1\<lparr>ptable := map (wake (chan_of (initproc s))) (ptable ?s1)\<rparr> else ?s1"
    have t1: "tables_ok n ?s1" using Cons.prems(1) by (intro tables_ok_upd) (simp_all add: local_ok_def)
    then have t2: "tables_ok n ?s2" by (auto simp: tables_ok_def local_ok_wake)
    have len: "length (ptable s) = NPROC" using Cons.prems(1) by (simp add: tables_ok_def)
    have same: "(p_state (ptable ?s2 ! j) = RUNNING \<longleftrightarrow> p_state (ptable s ! j) = RUNNING) \<and>
       p_queue (ptable ?s2 ! j) = p_queue (ptable s ! j)" if "j < NPROC" for j
      using that len by (simp add: nth_upd)
    have "reparent i (k # ks) s = reparent i ks ?s2"
      using True by (simp add: kern_simps wakeup1_def)
    then show ?thesis
      using Cons.IH [OF t2] Cons.prems(2) same by (auto split: if_splits)
  qed
qed

lemma exit_zombie_ok:
  assumes "sinv n s pc" "pc \<noteq> Top" "proc_of pc = Some i"
  shows "okp (\<lambda>_ t. given_up n pc t) (exit_zombie i s)"
proof -
  have q: "quiet s" "tables_ok n s" "on_cpu s pc" using assms(1) by (simp_all add: sinv_def)
  have r: "only_running i s" using on_cpu_proc [OF q(3) assms(2)] assms(3) by auto
  have len: "length (ptable s) = NPROC" "i < NPROC"
    using q(2) r by (simp_all add: tables_ok_def only_running_def)
  let ?s1 = "(lock_in PTABLE s)\<lparr>ptable := map (wake (chan_of (p_parent (ptable s ! i)))) (ptable s)\<rparr>"
  have t1: "tables_ok n ?s1" using q(2) by (auto simp: tables_ok_def local_ok_wake)
  have c1: "critical ?s1" using holdset_in [OF q(1), of PTABLE] by simp
  obtain s2 where s2: "reparent i [0 ..< length (ptable s)] ?s1 = Ok ((), s2)" "tables_ok n s2" "lk s2 = lk ?s1"
    "cproc s2 = cproc ?s1" "\<forall>j < NPROC. (p_state (ptable s2 ! j) = RUNNING \<longleftrightarrow> p_state (ptable ?s1 ! j) = RUNNING) \<and>
       p_queue (ptable s2 ! j) = p_queue (ptable ?s1 ! j)"
    using reparent_ok [OF t1, of "[0 ..< length (ptable s)]" i] len by auto
  let ?t = "upd_proc i (\<lambda>p. p\<lparr>p_etime := ticks s2, p_state := ZOMBIE\<rparr>) s2"
  have len2: "length (ptable s2) = NPROC" using s2(2) by (simp add: tables_ok_def)
  have run2: "p_state (ptable s2 ! i) = RUNNING"
    using s2(5) len r by (simp add: only_running_def)
  have "unat (ticks s2) = n" if "n < 2 ^ 32"
    using s2(2) that by (simp add: tables_ok_def unat_of_nat take_bit_nat_eq_self)
  then have tt: "tables_ok n ?t"
    using s2(2) run2 by (intro tables_ok_upd) (auto simp: local_ok_def)
  have c2: "critical s2" using c1 s2(3) by (simp add: holdset_def)
  have ct: "cproc ?t = Some i" using s2(4) r by (simp add: only_running_def)
  have "p_state (ptable ?t ! i) \<noteq> RUNNING" using len2 len(2) by simp
  then have sw: "sched_enter ?t = Ok (intena (cpus (lk ?t) 0), ?t)"
    using c2 ct by (intro sched_enter_critical) simp_all
  have "none_running ?t"
    by (rule none_running_after [OF r]) (use len len2 s2(5) in \<open>auto simp: nth_upd\<close>)
  moreover have "p_queue (ptable ?t ! i) = p_queue (ptable s ! i)"
    using s2(5) len len2 by (simp add: nth_upd)
  ultimately have "given_up n pc ?t"
    using c2 tt ct r by (intro given_upI [OF assms]) (simp_all add: only_running_def)
  then show ?thesis
    using acquirep_hold [OF q(1), of PTABLE] s2(1) sw
    by (simp add: exit_zombie_def kern_simps wakeup1_def)
qed

lemma stop_ok:
  assumes "sinv n s pc" "pc \<noteq> Top" "proc_of pc = Some i" "critical s1" "ptable s1 = ptable s"
    "cproc s1 = cproc s" "ticks s1 = ticks s"
    and f: "p_state (f (ptable s ! i)) \<noteq> RUNNING" "p_queue (f (ptable s ! i)) = p_queue (ptable s ! i)"
      "local_ok n (ptable s ! i) \<Longrightarrow> local_ok n (f (ptable s ! i))"
  shows "okp (\<lambda>_ t. given_up n pc t) (seqk (modk (upd_proc i f)) sched_enter s1)"
proof -
  let ?t = "upd_proc i f s1"
  have q: "tables_ok n s" "on_cpu s pc" using assms(1) by (simp_all add: sinv_def)
  have r: "only_running i s" using on_cpu_proc [OF q(2) assms(2)] assms(3) by auto
  have len: "i < length (ptable s)" using r by (simp add: only_running_def)
  have "tables_ok n s1" using q(1) assms(5,7) by (simp add: tables_ok_def)
  then have tt: "tables_ok n ?t" using assms(5) f(3) by (intro tables_ok_upd) simp_all
  have "none_running ?t"
    by (rule none_running_after [OF r]) (use len assms(5) f(1) in \<open>auto simp: nth_upd\<close>)
  then have "given_up n pc ?t"
    using assms(4-6) tt len f(2) by (intro given_upI [OF assms(1-3)]) simp_all
  moreover have "ptable ?t ! i = f (ptable s ! i)" using len assms(5) by simp
  then have "p_state (ptable ?t ! i) \<noteq> RUNNING" using f(1) by (simp only: not_False_eq_True)
  then have "sched_enter ?t = Ok (intena (cpus (lk ?t) 0), ?t)"
    using assms(4,6) r by (intro sched_enter_critical) (simp_all add: only_running_def)
  ultimately show ?thesis by (simp add: kern_simps)
qed

lemma gives_up_ok:
  assumes "gives_up s t" "sinv n s pc" "pc \<noteq> Top"
  shows "given_up n pc t"
proof -
  have q: "quiet s" "tables_ok n s" "on_cpu s pc" using assms(2) by (simp_all add: sinv_def)
  obtain i where i: "proc_of pc = Some i" "only_running i s" using on_cpu_proc [OF q(3) assms(3)] by blast
  have c: "cproc s = Some i" "p_state (ptable s ! i) = RUNNING" using i(2) by (auto simp: only_running_def)
  from assms(1) show ?thesis
  proof cases
    case (yields b)
    have "critical (lock_in PTABLE s)" using holdset_in [OF q(1), of PTABLE] by simp
    then have "okp (\<lambda>_ t. given_up n pc t)
        (seqk (modk (upd_proc i (\<lambda>p. p\<lparr>p_state := RUNNABLE\<rparr>))) sched_enter (lock_in PTABLE s))"
      using c(2) by (intro stop_ok [OF assms(2,3) i(1)]) (simp_all add: local_ok_def)
    moreover have "yield_enter s =
        seqk (modk (upd_proc i (\<lambda>p. p\<lparr>p_state := RUNNABLE\<rparr>))) sched_enter (lock_in PTABLE s)"
      using acquirep_hold [OF q(1), of PTABLE] c(1)
      by (simp add: yield_enter_def kern_simps myproc_def)
    ultimately show ?thesis using yields by (metis okp_Ok)
  next
    case (sleeps l s1 ch b)
    have s1: "s1 = lock_in l s" "holdset s1 {l}"
      using sleeps(1) acquirep_hold [OF q(1), of l] holdset_in [OF q(1), of l] by simp_all
    define s2 where "s2 = (if l = PTABLE then s1 else lock_out l (lock_in PTABLE s1))"
    have s2: "critical s2" "ptable s2 = ptable s" "cproc s2 = cproc s" "ticks s2 = ticks s"
    proof -
      show "critical s2"
      proof (cases "l = PTABLE")
        case False
        then have "holdset (lock_in PTABLE s1) {PTABLE, l}" using holdset_in [OF s1(2), of PTABLE] by simp
        moreover have "{PTABLE, l} - {l} = {PTABLE}" using False by auto
        ultimately show ?thesis using holdset_out [of "lock_in PTABLE s1" "{PTABLE, l}" l] False by (simp add: s2_def)
      qed (use s1 in \<open>simp add: s2_def\<close>)
    qed (simp_all add: s2_def s1(1))
    have "okp (\<lambda>_ t. given_up n pc t)
        (seqk (modk (upd_proc i (\<lambda>p. p\<lparr>p_chan := ch, p_state := SLEEPING\<rparr>))) sched_enter s2)"
      using c(2) s2 by (intro stop_ok [OF assms(2,3) i(1)]) (simp_all add: local_ok_def)
    moreover have "sleep_enter ch l s1 =
        seqk (modk (upd_proc i (\<lambda>p. p\<lparr>p_chan := ch, p_state := SLEEPING\<rparr>))) sched_enter s2"
    proof (cases "l = PTABLE")
      case True
      then show ?thesis using c(1) s1(1) by (simp add: sleep_enter_def kern_simps s2_def)
    next
      case False
      then have "acquirep PTABLE s1 = Ok ((), lock_in PTABLE s1)"
        using acquirep_hold [OF s1(2)] by simp
      moreover have "releasep l (lock_in PTABLE s1) = Ok ((), s2)"
        using holdset_in [OF s1(2), of PTABLE] False releasep_hold [of "lock_in PTABLE s1" "{PTABLE, l}" l]
        by (simp add: s2_def)
      ultimately show ?thesis using c(1) s1(1) False by (simp add: sleep_enter_def kern_simps)
    qed
    ultimately show ?thesis using sleeps(2) by (metis okp_Ok)
  next
    case (exits i' b)
    then show ?thesis using exit_zombie_ok [OF assms(2,3) i(1)] c(1) by simp
  qed
qed

subsection \<open>The clock tick\<close>

lemma unat_inc_le: "unat (x + 1 :: u32) \<le> unat x + 1"
  by (simp add: unat_word_ariths)

lemma tick_proc_ok:
  assumes "local_ok n p"
  shows "\<exists>q. tick_proc p = Ok q \<and> local_ok (Suc n) q \<and> p_state q = p_state p \<and> p_queue q = p_queue p"
  using assms unat_inc_le [of "p_rtime p"] unat_inc_le [of "p_iotime p"]
  by (auto simp: tick_proc_def local_ok_def)

lemma tick_all_ok:
  assumes "\<forall>p \<in> set ps. local_ok n p"
  shows "\<exists>qs. tick_all ps = Ok qs \<and> (\<forall>q \<in> set qs. local_ok (Suc n) q) \<and>
    map p_state qs = map p_state ps \<and> map p_queue qs = map p_queue ps"
  using assms
proof (induction ps)
  case Nil
  then show ?case by simp
next
  case (Cons p ps)
  obtain q where "tick_proc p = Ok q" "local_ok (Suc n) q" "p_state q = p_state p" "p_queue q = p_queue p"
    using tick_proc_ok [of n p] Cons.prems by auto
  with Cons show ?case by auto
qed

lemma timer_tick_ok:
  assumes "sinv n s pc"
  shows "okp (\<lambda>_ t. sinv (Suc n) t pc) (timer_tick s)"
proof -
  have q: "quiet s" "tables_ok n s" "on_cpu s pc" using assms by (simp_all add: sinv_def)
  obtain qs where qs: "tick_all (ptable s) = Ok qs" "\<forall>q \<in> set qs. local_ok (Suc n) q"
    "map p_state qs = map p_state (ptable s)" "map p_queue qs = map p_queue (ptable s)"
    using tick_all_ok [of "ptable s" n] q(2) by (auto simp: tables_ok_def)
  have len: "length qs = length (ptable s)" using qs(3) by (metis length_map)
  have st: "p_state (qs ! j) = p_state (ptable s ! j)" "p_queue (qs ! j) = p_queue (ptable s ! j)"
    if "j < length (ptable s)" for j
    using that len qs(3,4) by (metis nth_map)+
  let ?s1 = "(lock_in TICKSLOCK s)\<lparr>ticks := ticks s + 1\<rparr>"
  have h1: "holdset ?s1 {TICKSLOCK}" using holdset_in [OF q(1), of TICKSLOCK] by simp
  let ?s2 = "lock_in PTABLE ?s1"
  have h2: "holdset ?s2 {PTABLE, TICKSLOCK}" using holdset_in [OF h1, of PTABLE] by simp
  let ?s3 = "?s2\<lparr>ptable := qs\<rparr>"
  let ?s4 = "lock_out PTABLE ?s3"
  have h4: "holdset ?s4 {TICKSLOCK}" using holdset_out [of ?s3 "{PTABLE, TICKSLOCK}" PTABLE] h2 by simp
  let ?s5 = "lock_out PTABLE ((lock_in PTABLE ?s4)\<lparr>ptable := map (wake ChanTicks) (ptable ?s4)\<rparr>)"
  have h5: "holdset ?s5 {TICKSLOCK}"
    using holdset_in [OF h4, of PTABLE]
      holdset_out [of "(lock_in PTABLE ?s4)\<lparr>ptable := map (wake ChanTicks) (ptable ?s4)\<rparr>" "{PTABLE, TICKSLOCK}" PTABLE]
    by simp
  let ?t = "lock_out TICKSLOCK ?s5"
  have u: "updateRunsandOthers ?s1 = Ok ((), ?s4)"
    using acquirep_hold [OF h1, of PTABLE] releasep_hold [of ?s3 "{PTABLE, TICKSLOCK}" PTABLE] h2 qs(1)
    by (simp add: updateRunsandOthers_def kern_simps)
  have run: "timer_tick s = Ok ((), ?t)"
    using acquirep_hold [OF q(1), of TICKSLOCK] u wakeup_eq [OF h4, of ChanTicks] releasep_hold [OF h5, of TICKSLOCK]
    by (simp add: timer_tick_def kern_simps)
  have "quiet ?t" using holdset_out [OF h5, of TICKSLOCK] by simp
  moreover have "tables_ok (Suc n) ?t"
    using q(2) qs(2) len by (auto simp: tables_ok_def local_ok_wake)
  moreover have "on_cpu ?t pc"
    by (rule on_cpu_upd [OF q(3)]) (use len st in simp_all)
  ultimately show ?thesis unfolding run okp_Ok by (simp add: sinv_def)
qed

subsection \<open>Kernel entries that return\<close>

lemma zoom_km_OkE:
  assumes "zoom_km m s = Ok (x, t)" obtains k where "t = s\<lparr>km := k\<rparr>"
  using assms by (auto simp: zoom_km_def zoomk_def split: outcome.splits)

lemma sinv_upd1:
  assumes "quiet s" "tables_ok n s" "on_cpu s pc"
    and "local_ok n (ptable s ! i) \<Longrightarrow> local_ok n (f (ptable s ! i))"
    and "p_state (f (ptable s ! i)) = RUNNING \<longleftrightarrow> p_state (ptable s ! i) = RUNNING"
    and "p_state (ptable s ! i) = RUNNING \<Longrightarrow> p_queue (f (ptable s ! i)) = p_queue (ptable s ! i)"
  shows "sinv n (upd_proc i f s) pc"
  using assms tables_ok_upd [OF assms(2), of i f] on_cpu_upd1 [OF assms(3), of f i] by (simp add: sinv_def)

lemma lock_in_out_quiet:
  assumes "quiet s" shows "quiet (lock_out PTABLE (upd_proc i f (lock_in PTABLE s)))"
    "quiet (lock_out PTABLE (lock_in PTABLE s))"
  using holdset_in [OF assms, of PTABLE] by (simp_all add: quiet_out)

lemma lock_out_upd:
  "lock_out l (upd_proc i f s) = upd_proc i f (lock_out l s)"
  "lock_in l (upd_proc i f s) = upd_proc i f (lock_in l s)"
  by (simp_all add: lock_out_def lock_in_def upd_proc_def)

lemma sinv_unlock: "sinv n s pc \<Longrightarrow> sinv n (lock_out PTABLE (lock_in PTABLE s)) pc"
  using lock_in_out_quiet(2) [of s] by (simp add: sinv_def)

lemma wakeup_sinv:
  assumes "sinv n s pc" "wakeup ch s = Ok ((), t)" shows "sinv n t pc"
proof -
  have q: "quiet s" "tables_ok n s" "on_cpu s pc" using assms(1) by (simp_all add: sinv_def)
  have t: "t = lock_out PTABLE ((lock_in PTABLE s)\<lparr>ptable := map (wake ch) (ptable s)\<rparr>)"
    using wakeup_eq [OF q(1)] assms(2) by simp
  have "quiet t" unfolding t using holdset_in [OF q(1), of PTABLE] by (intro quiet_out) simp
  moreover have "tables_ok n t" using q(2) by (auto simp: t tables_ok_def local_ok_wake)
  moreover have "on_cpu t pc" by (rule on_cpu_upd [OF q(3)]) (simp_all add: t)
  ultimately show ?thesis by (simp add: sinv_def)
qed

lemma sinv_locked_upd:
  assumes "sinv n s pc"
    and "local_ok n (ptable s ! i) \<Longrightarrow> local_ok n (f (ptable s ! i))"
    and "p_state (f (ptable s ! i)) = RUNNING \<longleftrightarrow> p_state (ptable s ! i) = RUNNING"
    and "p_state (ptable s ! i) = RUNNING \<Longrightarrow> p_queue (f (ptable s ! i)) = p_queue (ptable s ! i)"
  shows "sinv n (lock_out PTABLE (upd_proc i f (lock_in PTABLE s))) pc"
  unfolding lock_out_upd
  using sinv_unlock [OF assms(1)] assms(2-4) by (intro sinv_upd1) (simp_all add: sinv_def)

lemma kill_sinv:
  assumes "sinv n s pc" "kill pid s = Ok (r, t)" shows "sinv n t pc"
proof -
  have q: "quiet s" using assms(1) by (simp add: sinv_def)
  have k: "local_ok n p \<Longrightarrow> local_ok n (kill1 p)" "p_state (kill1 p) = RUNNING \<longleftrightarrow> p_state p = RUNNING"
    "p_queue (kill1 p) = p_queue p" for p :: sproc
    by (auto simp: kill1_def local_ok_def)
  show ?thesis
    using assms sinv_unlock [OF assms(1)] sinv_locked_upd [OF assms(1), of _ kill1] k
    by (auto simp: kill_eq [OF q] split: option.splits)
qed

lemma set_priority_sinv:
  assumes "sinv n s pc" "set_priority v pid s = Ok (r, t)" shows "sinv n t pc"
proof -
  have q: "quiet s" using assms(1) by (simp add: sinv_def)
  have c: "critical (lock_in PTABLE s)" using holdset_in [OF q, of PTABLE] by simp
  let ?f = "\<lambda>p. p\<lparr>p_priority := v\<rparr> :: sproc"
  have rel: "releasep PTABLE (upd_proc i ?f (lock_in PTABLE s)) =
      Ok ((), lock_out PTABLE (upd_proc i ?f (lock_in PTABLE s)))" for i
    using c by (intro releasep_hold [of _ "{PTABLE}"]) simp_all
  have "t = s \<or> (\<exists>i. t = lock_out PTABLE (upd_proc i ?f (lock_in PTABLE s)))"
    using assms(2) acquirep_hold [OF q, of PTABLE] rel
    by (auto simp: set_priority_def kern_simps Let_def split: if_splits option.splits)
  then show ?thesis
    using assms(1) sinv_locked_upd [OF assms(1), of _ ?f] by (auto simp: local_ok_def)
qed

lemma kstack_frame_eq: "\<exists>tf ctx k. kstack_frame i stack s =
    upd_proc i (\<lambda>p. p\<lparr>p_tf := tf, p_context := ctx\<rparr>) (s\<lparr>km := k\<rparr>)"
  unfolding kstack_frame_def Let_def by blast

text \<open>The slot has been claimed and the lock released: the kernel stack, or the slot is given back.\<close>

lemma embryo_stack_sinv:
  assumes s: "sinv n s pc" "p_state (ptable s ! i) = EMBRYO" "i < length (ptable s)"
    and r: "bindk (zoom_km sched_kalloc) (\<lambda>stack. seqk (modk (upd_proc i (\<lambda>p. p\<lparr>p_kstack := stack\<rparr>)))
       (if stack = 0 then seqk (modk (upd_proc i (\<lambda>p. p\<lparr>p_state := UNUSED\<rparr>))) (ret None)
        else seqk (modk (kstack_frame i stack)) (ret (Some i)))) s = Ok (r, t)"
  shows "sinv n t pc \<and> (\<forall>i. r = Some i \<longrightarrow> i < NPROC \<and> p_state (ptable t ! i) = EMBRYO \<and> p_kstack (ptable t ! i) \<noteq> 0)"
proof -
  obtain stack s4 where k: "zoom_km sched_kalloc s = Ok (stack, s4)"
    "seqk (modk (upd_proc i (\<lambda>p. p\<lparr>p_kstack := stack\<rparr>)))
       (if stack = 0 then seqk (modk (upd_proc i (\<lambda>p. p\<lparr>p_state := UNUSED\<rparr>))) (ret None)
        else seqk (modk (kstack_frame i stack)) (ret (Some i))) s4 = Ok (r, t)"
    using r by (auto elim: bindk_OkE)
  obtain m where s4: "s4 = s\<lparr>km := m\<rparr>" using k(1) by (rule zoom_km_OkE)
  have v4: "sinv n s4 pc" using s(1) by (simp add: s4 sinv_def)
  let ?s5 = "upd_proc i (\<lambda>p. p\<lparr>p_kstack := stack\<rparr>) s4"
  have st: "p_state (ptable s4 ! i) = EMBRYO" using s(2) by (simp add: s4)
  have v5: "sinv n ?s5 pc"
    using v4 st by (intro sinv_upd1) (simp_all add: sinv_def local_ok_def)
  have i4: "i < length (ptable s4)" using s(3) by (simp add: s4)
  show ?thesis
  proof (cases "stack = 0")
    case True
    then have "r = None" "t = upd_proc i (\<lambda>p. p\<lparr>p_state := UNUSED\<rparr>) ?s5"
      using k(2) by (simp_all add: kern_simps)
    moreover have "sinv n (upd_proc i (\<lambda>p. p\<lparr>p_state := UNUSED\<rparr>) ?s5) pc"
      using v5 st i4 by (intro sinv_upd1) (simp_all add: sinv_def local_ok_def)
    ultimately show ?thesis by simp
  next
    case False
    then have t: "r = Some i" "t = kstack_frame i stack ?s5"
      using k(2) by (simp_all add: kern_simps)
    obtain tf ctx m' where f: "kstack_frame i stack ?s5 =
        upd_proc i (\<lambda>p. p\<lparr>p_tf := tf, p_context := ctx\<rparr>) (?s5\<lparr>km := m'\<rparr>)"
      using kstack_frame_eq by blast
    have "sinv n (upd_proc i (\<lambda>p. p\<lparr>p_tf := tf, p_context := ctx\<rparr>) (?s5\<lparr>km := m'\<rparr>)) pc"
      using v5 by (intro sinv_upd1) (simp_all add: sinv_def local_ok_def)
    then show ?thesis
      using t f st i4 False v4 by (simp add: sinv_def tables_ok_def)
  qed
qed

lemma allocproc_sinv:
  assumes "sinv n s pc" "allocproc s = Ok (r, t)"
  shows "sinv n t pc \<and> (\<forall>i. r = Some i \<longrightarrow> i < NPROC \<and> p_state (ptable t ! i) = EMBRYO \<and> p_kstack (ptable t ! i) \<noteq> 0)"
proof -
  have q: "quiet s" "tables_ok n s" "on_cpu s pc" using assms(1) by (simp_all add: sinv_def)
  have c: "critical (lock_in PTABLE s)" using holdset_in [OF q(1), of PTABLE] by simp
  have a: "acquirep PTABLE s = Ok ((), lock_in PTABLE s)" using acquirep_hold [OF q(1)] by simp
  show ?thesis
  proof (cases "find_index (\<lambda>p. p_state p = UNUSED) (ptable s)")
    case None
    then have "r = None" "t = lock_out PTABLE (lock_in PTABLE s)"
      using assms(2) a releasep_hold [OF c] by (simp_all add: allocproc_def kern_simps)
    then show ?thesis using sinv_unlock [OF assms(1)] by simp
  next
    case (Some i)
    then have i: "i < length (ptable s)" "p_state (ptable s ! i) = UNUSED" by (simp_all add: find_index_Some)
    let ?s1 = "lock_in PTABLE s"
    let ?s2 = "upd_proc i (embryo (nextpid s) (ticks s)) (?s1\<lparr>nextpid := nextpid s + 1\<rparr>)"
    let ?s3 = "lock_out PTABLE ?s2"
    have c2: "critical ?s2" using c by simp
    have "unat (ticks s) \<le> n" using q(2) by (simp add: tables_ok_def unat_of_nat)
    then have le: "local_ok n (embryo (nextpid s) (ticks s) p)" for p :: sproc
      by (simp add: local_ok_def embryo_def)
    have t3: "tables_ok n ?s3" using q(2) le by (simp add: tables_ok_upd)
    have o3: "on_cpu ?s3 pc"
      by (rule on_cpu_upd [OF q(3)]) (use i in \<open>auto simp: nth_upd embryo_def\<close>)
    have s3: "sinv n ?s3 pc" using quiet_out [OF c2] t3 o3 by (simp add: sinv_def)
    have p3: "p_state (ptable ?s3 ! i) = EMBRYO" using i by (simp add: embryo_def)
    have "bindk (zoom_km sched_kalloc) (\<lambda>stack. seqk (modk (upd_proc i (\<lambda>p. p\<lparr>p_kstack := stack\<rparr>)))
        (if stack = 0 then seqk (modk (upd_proc i (\<lambda>p. p\<lparr>p_state := UNUSED\<rparr>))) (ret None)
         else seqk (modk (kstack_frame i stack)) (ret (Some i)))) ?s3 = Ok (r, t)"
      using assms(2) a Some releasep_hold [OF c2] by (simp add: allocproc_def kern_simps)
    then show ?thesis using i(1) by (intro embryo_stack_sinv [OF s3 p3]) simp_all
  qed
qed

lemma make_runnable_sinv:
  assumes "sinv n s pc" "p_state (ptable s ! i) = EMBRYO" "p_kstack (ptable s ! i) \<noteq> 0" "p_pgdir (ptable s ! i) \<noteq> 0"
    and "make_runnable i s = Ok ((), t)"
  shows "sinv n t pc"
proof -
  have q: "quiet s" using assms(1) by (simp add: sinv_def)
  have c: "critical (lock_in PTABLE s)" using holdset_in [OF q, of PTABLE] by simp
  have "releasep PTABLE (upd_proc i (\<lambda>p. p\<lparr>p_state := RUNNABLE\<rparr>) (lock_in PTABLE s)) =
      Ok ((), lock_out PTABLE (upd_proc i (\<lambda>p. p\<lparr>p_state := RUNNABLE\<rparr>) (lock_in PTABLE s)))"
    using c by (intro releasep_hold [of _ "{PTABLE}"]) simp_all
  then have "t = lock_out PTABLE (upd_proc i (\<lambda>p. p\<lparr>p_state := RUNNABLE\<rparr>) (lock_in PTABLE s))"
    using assms(5) acquirep_hold [OF q, of PTABLE] by (simp add: make_runnable_def kern_simps)
  then show ?thesis
    using sinv_locked_upd [OF assms(1), of i "\<lambda>p. p\<lparr>p_state := RUNNABLE\<rparr>"] assms(2-4)
    by (simp add: local_ok_def)
qed

lemma scan_kids_zombie:
  "scan_kids i k ps h = Zombie j \<Longrightarrow> k \<le> j \<and> j - k < length ps \<and> p_state (ps ! (j - k)) = ZOMBIE \<and>
     p_parent (ps ! (j - k)) = Some i"
proof (induction ps arbitrary: k h)
  case Nil
  then show ?case by (simp split: if_splits)
next
  case (Cons p ps)
  show ?case
  proof (cases "p_parent p = Some i \<and> p_state p = ZOMBIE")
    case True
    then show ?thesis using Cons.prems by simp
  next
    case False
    then have "Suc k \<le> j \<and> j - Suc k < length ps \<and> p_state (ps ! (j - Suc k)) = ZOMBIE \<and>
        p_parent (ps ! (j - Suc k)) = Some i"
      using Cons.IH [of "Suc k" h] Cons.IH [of "Suc k" True] Cons.prems by (auto split: if_splits)
    then show ?thesis by (auto simp: nth_Cons' Suc_diff_Suc)
  qed
qed

text \<open>
  Reaping: both scans end with the child's slot unused, the memory freed and the lock released.
\<close>

lemma reap_sinv:
  assumes "sinv n s pc" "scan_kids i 0 (ptable s) False = Zombie k"
    and g: "\<And>p. local_ok n p \<Longrightarrow> local_ok n (g p)" "\<And>p. p_state (g p) = p_state p" "\<And>p. p_queue (g p) = p_queue p"
    and "seqk (modk (upd_proc k g)) (seqk (zoom_km (sched_kfree a)) (seqk (zoom_km (s_freevm b))
           (seqk (modk (upd_proc k reaped)) (seqk (releasep PTABLE) (ret x))))) (lock_in PTABLE s) = Ok (r, t)"
  shows "sinv n t pc"
proof -
  have q: "quiet s" using assms(1) by (simp add: sinv_def)
  have k: "k < length (ptable s)" "p_state (ptable s ! k) = ZOMBIE"
    using scan_kids_zombie [OF assms(2)] by simp_all
  let ?s1 = "upd_proc k g (lock_in PTABLE s)"
  from assms(6) have "bindk (zoom_km (sched_kfree a)) (\<lambda>_. seqk (zoom_km (s_freevm b))
           (seqk (modk (upd_proc k reaped)) (seqk (releasep PTABLE) (ret x)))) ?s1 = Ok (r, t)"
    by (simp add: kern_simps)
  then obtain s2 where s2: "zoom_km (sched_kfree a) ?s1 = Ok ((), s2)" "bindk (zoom_km (s_freevm b))
       (\<lambda>_. seqk (modk (upd_proc k reaped)) (seqk (releasep PTABLE) (ret x))) s2 = Ok (r, t)"
    by (auto elim!: bindk_OkE simp: seqk_app)
  obtain m1 where m1: "s2 = ?s1\<lparr>km := m1\<rparr>" using s2(1) by (rule zoom_km_OkE)
  obtain s3 where s3: "zoom_km (s_freevm b) s2 = Ok ((), s3)"
      "seqk (modk (upd_proc k reaped)) (seqk (releasep PTABLE) (ret x)) s3 = Ok (r, t)"
    using s2(2) by (auto elim!: bindk_OkE)
  obtain m2 where m2: "s3 = s2\<lparr>km := m2\<rparr>" using s3(1) by (rule zoom_km_OkE)
  let ?u = "s\<lparr>km := m2\<rparr>" and ?f = "\<lambda>p. reaped (g p)"
  have u: "upd_proc k reaped s3 = upd_proc k ?f (lock_in PTABLE ?u)"
    using k(1) by (simp add: m1 m2 upd_proc_def lock_in_def)
  have "critical (upd_proc k ?f (lock_in PTABLE ?u))"
    using holdset_in [of ?u "{}" PTABLE] q by simp
  then have "t = lock_out PTABLE (upd_proc k ?f (lock_in PTABLE ?u))"
    using s3(2) releasep_hold [of "upd_proc k ?f (lock_in PTABLE ?u)" "{PTABLE}" PTABLE]
    by (simp add: kern_simps u)
  moreover have "sinv n ?u pc" using assms(1) by (simp add: sinv_def)
  moreover have "local_ok n (reaped (g p))" if "local_ok n p" for p
    using g(1) [OF that] by (simp add: local_ok_def reaped_def)
  moreover have "p_state (reaped p) = UNUSED" "p_queue (reaped p) = p_queue p" for p :: sproc
    by (simp_all add: reaped_def)
  ultimately show ?thesis using sinv_locked_upd [of n ?u pc k ?f] k(2) g by simp
qed

lemma wait_scan_sinv:
  assumes "sinv n s pc" "wait_scan i (lock_in PTABLE s) = Ok (Some r, t)"
  shows "sinv n t pc"
proof (cases "scan_kids i 0 (ptable s) False")
  case (Zombie k)
  have "upd_proc k (\<lambda>p. p) (lock_in PTABLE s) = lock_in PTABLE s"
    by (simp add: upd_proc_def)
  then show ?thesis
    using assms(2) Zombie
    by (intro reap_sinv [OF assms(1) Zombie, of "\<lambda>p. p"]) (simp_all add: wait_scan_def kern_simps Let_def)
qed (use assms releasep_hold [of "lock_in PTABLE s" "{PTABLE}" PTABLE] holdset_in [of s "{}" PTABLE] sinv_unlock
    in \<open>auto simp: wait_scan_def kern_simps sinv_def split: if_splits\<close>)

lemma waitx_scan_sinv:
  assumes "sinv n s pc" "waitx_scan i (lock_in PTABLE s) = Ok (Some r, t)"
  shows "sinv n t pc"
proof (cases "scan_kids i 0 (ptable s) False")
  case (Zombie k)
  have z: "p_state (ptable s ! k) = ZOMBIE" using scan_kids_zombie [OF Zombie] by simp
  have "local_ok n p \<Longrightarrow> local_ok n (clear_times p)" for p by (simp add: local_ok_def clear_times_def)
  then show ?thesis
    using assms(2) Zombie
    by (intro reap_sinv [OF assms(1) Zombie, of clear_times])
       (simp_all add: waitx_scan_def kern_simps Let_def, simp_all add: clear_times_def)
qed (use assms releasep_hold [of "lock_in PTABLE s" "{PTABLE}" PTABLE] holdset_in [of s "{}" PTABLE] sinv_unlock
    in \<open>auto simp: waitx_scan_def kern_simps sinv_def split: if_splits\<close>)

lemma kcall_ok:
  assumes "kcall s t" "sinv n s pc" shows "sinv n t pc"
proof -
  have q: "quiet s" using assms(2) by (simp add: sinv_def)
  have lk: "s1 = lock_in PTABLE s" if "acquirep PTABLE s = Ok ((), s1)" for s1
    using that acquirep_hold [OF q, of PTABLE] by simp
  from assms(1) show ?thesis
  proof cases
    case (wakes ch)
    then show ?thesis using wakeup_sinv [OF assms(2)] by blast
  next
    case (kills pid r)
    then show ?thesis using kill_sinv [OF assms(2)] by blast
  next
    case (prioritises v pid r)
    then show ?thesis using set_priority_sinv [OF assms(2)] by blast
  next
    case (owns i pd z tf fs d nm k)
  have "on_cpu s pc" using assms(2) by (simp add: sinv_def)
  then show ?thesis
    unfolding owns(1) using assms(2) owns(3) by (intro sinv_upd1) (simp_all add: sinv_def local_ok_def)
next
  case (allocates r)
  then show ?thesis using allocproc_sinv [OF assms(2)] by blast
next
  case (prepares i z pd q fs d nm k)
  then show ?thesis
    using assms(2) unfolding prepares(1) by (intro sinv_upd1) (simp_all add: sinv_def local_ok_def)
next
  case (completes i)
  then show ?thesis using make_runnable_sinv [OF assms(2)] by blast
next
  case (undoes i k)
  then show ?thesis
    using assms(2) unfolding undoes(1) by (intro sinv_upd1) (simp_all add: sinv_def local_ok_def)
next
  case (waits i s1 r)
    then show ?thesis using wait_scan_sinv [OF assms(2)] lk by blast
  next
    case (waitxs i s1 r)
    then show ?thesis using waitx_scan_sinv [OF assms(2)] lk by blast
  qed
qed

section \<open>Reachable states\<close>

lemma okp_D: "okp P r \<Longrightarrow> r = Ok (x, t) \<Longrightarrow> P x t"
  by simp

lemma sys_inv: "sys pol n s pc \<Longrightarrow> sinv n s pc"
proof (induction rule: sys.induct)
  case (boots s)
  then show ?case
    by (auto simp: boot_state_def sinv_def tables_ok_def on_cpu_def none_running_def)
next
  case (idles n s t)
  then show ?case using okp_D [OF sched_top_ok [OF idles(3)] idles(2)] by (simp add: mid_def sinv_def)
next
  case (starts n s pc t u)
  then show ?case using okp_D [OF sched_top_ok starts(2)] resumes_ok by blast
next
  case (ticks n s pc t)
  then show ?case using okp_D [OF timer_tick_ok ticks(2)] by blast
next
  case (calls n s pc t)
  then show ?case using kcall_ok by blast
next
  case (stops n s pc t u)
  have "given_up n pc t" using stops.hyps stops.IH by (intro gives_up_ok)
  then show ?case using okp_D [OF sched_back_ok stops(4)] by (simp add: mid_def sinv_def)
next
  case (switches n s pc t pc' u v)
  then show ?case using okp_D [OF sched_back_ok switches(4)] gives_up_ok resumes_ok by blast
qed

end
