(* ===== verification/Sched_Times.thy ===== *)
theory Sched_Times
  imports Sched_Inv
begin

text \<open>
  The accounting of times.  The clock tick is compared with what it should do to one process; every other step is shown to leave the
  times of a process alone, from its creation to its exit.  A run of the system is given a history that counts, for every process, the
  ticks at which it was running, asleep, and neither.
\<close>

section \<open>What a tick does to a process\<close>

definition after_tick :: "sproc \<Rightarrow> sproc" where
  "after_tick p = (case p_state p of
     RUNNING \<Rightarrow> p\<lparr>p_rtime := p_rtime p + 1, p_q_ticks := (p_q_ticks p)[unat (p_queue p) := p_q_ticks p ! unat (p_queue p) + 1],
                   p_curr_q_ticks := p_curr_q_ticks p + 1\<rparr>
   | SLEEPING \<Rightarrow> p\<lparr>p_iotime := p_iotime p + 1, p_lastWorkingticks := p_lastWorkingticks p + 1,
                   p_state := (if p_chan p = ChanTicks then RUNNABLE else SLEEPING)\<rparr>
   | _ \<Rightarrow> p)"

lemma tick_proc_after: "tick_proc p = Ok q \<Longrightarrow> wake ChanTicks q = after_tick p"
  by (auto simp: tick_proc_def after_tick_def wake_def split: procstate.split if_splits)

lemma tick_all_after: "tick_all ps = Ok qs \<Longrightarrow> map (wake ChanTicks) qs = map after_tick ps"
  by (induction ps arbitrary: qs) (auto simp: tick_proc_after split: outcome.splits)

lemma timer_tick_table:
  assumes "timer_tick s = Ok ((), t)"
  shows "ptable t = map after_tick (ptable s)" "ticks t = ticks s + 1" "cproc t = cproc s"
proof -
  obtain qs where qs: "tick_all (ptable s) = Ok qs" "ptable t = map (wake ChanTicks) qs" "ticks t = ticks s + 1" "cproc t = cproc s"
    using assms by (auto simp: timer_tick_def updateRunsandOthers_def wakeup_def wakeup1_def seqk_app modk_app acquirep_def releasep_def zoomk_def
        elim!: bindk_OkE split: outcome.splits)
  then show "ptable t = map after_tick (ptable s)" "ticks t = ticks s + 1" "cproc t = cproc s" using tick_all_after [OF qs(1)] by simp_all
qed

section \<open>Steps that leave the times alone\<close>

text \<open>The same process before and after some steps at time \<open>now\<close>, in which it may have exited.\<close>

definition same_times :: "u32 \<Rightarrow> sproc \<Rightarrow> sproc \<Rightarrow> bool" where
  "same_times now p q \<longleftrightarrow> (p_state q = UNUSED \<longleftrightarrow> p_state p = UNUSED) \<and>
     p_ctime q = p_ctime p \<and> p_rtime q = p_rtime p \<and> p_iotime q = p_iotime p \<and>
     (if p_state p = ZOMBIE then p_state q = ZOMBIE \<and> p_etime q = p_etime p else p_state q = ZOMBIE \<longrightarrow> p_etime q = now)"

definition timeless :: "sst \<Rightarrow> sst \<Rightarrow> bool" where
  "timeless s t \<longleftrightarrow> ticks t = ticks s \<and> length (ptable t) = length (ptable s) \<and>
     (\<forall>k < length (ptable s). same_times (ticks s) (ptable s ! k) (ptable t ! k))"

lemma same_times_refl [simp]: "same_times now p p"
  by (simp add: same_times_def)

lemma same_times_trans: "same_times now p q \<Longrightarrow> same_times now q r \<Longrightarrow> same_times now p r"
  by (auto simp: same_times_def split: if_splits)

lemma timeless_refl [simp]: "timeless s s"
  by (auto simp: timeless_def)

lemma timeless_trans: "timeless s t \<Longrightarrow> timeless t u \<Longrightarrow> timeless s u"
  by (auto simp: timeless_def intro: same_times_trans)

lemma timeless_same: "ptable t = ptable s \<Longrightarrow> ticks t = ticks s \<Longrightarrow> timeless s t"
  by (auto simp: timeless_def)

lemma timeless_upd: "(k < length (ptable s) \<Longrightarrow> same_times (ticks s) (ptable s ! k) (f (ptable s ! k))) \<Longrightarrow> timeless s (upd_proc k f s)"
  by (auto simp: timeless_def nth_upd)

lemma timeless_map: "(\<And>p. same_times (ticks s) p (f p)) \<Longrightarrow> timeless s (s\<lparr>ptable := map f (ptable s)\<rparr>)"
  by (simp add: timeless_def)

lemma same_times_wake: "same_times now p (wake ch p)"
  by (auto simp: same_times_def wake_def)

lemma lockp_table:
  "acquirep l s = Ok (x, t) \<Longrightarrow> ptable t = ptable s \<and> ticks t = ticks s \<and> cproc t = cproc s \<and> initproc t = initproc s"
  "releasep l s = Ok (x, t) \<Longrightarrow> ptable t = ptable s \<and> ticks t = ticks s \<and> cproc t = cproc s \<and> initproc t = initproc s"
  by (auto simp: acquirep_def releasep_def zoomk_def split: outcome.splits)

lemma lockp_timeless: "acquirep l s = Ok (x, t) \<Longrightarrow> timeless s t" "releasep l s = Ok (x, t) \<Longrightarrow> timeless s t"
  using lockp_table by (blast intro: timeless_same)+

named_theorems timeless_intros \<open>functions of the kernel that leave the times alone\<close>

definition keeps_times :: "(sst, 'a) kern \<Rightarrow> bool" where
  "keeps_times m \<longleftrightarrow> (\<forall>s x t. m s = Ok (x, t) \<longrightarrow> timeless s t)"

lemma keeps_timesI: "(\<And>s x t. m s = Ok (x, t) \<Longrightarrow> timeless s t) \<Longrightarrow> keeps_times m"
  by (simp add: keeps_times_def)

lemma keeps_timesD: "keeps_times m \<Longrightarrow> m s = Ok (x, t) \<Longrightarrow> timeless s t"
  by (simp add: keeps_times_def)

lemma kt_ret [timeless_intros]: "keeps_times (ret x)"
  by (rule keeps_timesI) (simp add: ret_def)

lemma kt_bind [timeless_intros]: "keeps_times m \<Longrightarrow> (\<And>x. keeps_times (f x)) \<Longrightarrow> keeps_times (bindk m f)"
  by (rule keeps_timesI, erule bindk_OkE) (rule timeless_trans, erule (1) keeps_timesD, drule meta_spec, erule (1) keeps_timesD)

lemma kt_seq [timeless_intros]: "keeps_times m \<Longrightarrow> keeps_times n \<Longrightarrow> keeps_times (seqk m n)"
  unfolding seqk_def by (intro kt_bind)

lemma kt_when [timeless_intros]: "keeps_times m \<Longrightarrow> keeps_times (whenk b m)"
  by (rule keeps_timesI) (auto simp: whenk_def ret_def dest: keeps_timesD split: if_splits)

lemma kt_lock [timeless_intros]: "keeps_times (acquirep l)" "keeps_times (releasep l)"
  by (rule keeps_timesI, erule lockp_timeless)+

lemma kt_myproc [timeless_intros]: "keeps_times myproc"
  by (rule keeps_timesI) (auto simp: myproc_def split: option.splits)

lemma kt_zoom_km [timeless_intros]: "keeps_times (zoom_km m)"
  by (rule keeps_timesI) (auto elim!: zoom_km_OkE intro: timeless_same)

lemma kt_switchkvm [timeless_intros]: "keeps_times sched_switchkvm"
  by (rule keeps_timesI) (auto simp: sched_switchkvm_def kern_simps intro: timeless_same)

lemma kt_cproc [timeless_intros]: "keeps_times (modk (\<lambda>s. s\<lparr>cproc := c\<rparr>))"
  by (rule keeps_timesI) (auto simp: kern_simps intro: timeless_same)

lemma kt_end_round [timeless_intros]: "keeps_times end_round"
  unfolding end_round_def by (intro timeless_intros)

lemma kt_sched_enter [timeless_intros]: "keeps_times sched_enter"
  unfolding sched_enter_def by (rule kt_bind [OF kt_myproc]) (rule keeps_timesI, auto split: if_splits)

lemma kt_sched_exit [timeless_intros]: "keeps_times (sched_exit b)"
  by (rule keeps_timesI) (auto simp: sched_exit_def kern_simps intro!: timeless_same)

lemma kt_chan [timeless_intros]: "keeps_times (modk (upd_proc i (\<lambda>p. p\<lparr>p_chan := ch\<rparr>)))"
  by (rule keeps_timesI) (auto simp: kern_simps same_times_def intro!: timeless_upd)

lemma kt_resumes: "resumes s t \<Longrightarrow> timeless s t"
proof (induction rule: resumes.induct)
  case (yielded b s t)
  have "keeps_times (yield_exit b)" unfolding yield_exit_def by (intro timeless_intros)
  then show ?case using yielded by (rule keeps_timesD)
next
  case (slept b l s s1 t)
  have "keeps_times (sleep_exit b l)" unfolding sleep_exit_def by (intro timeless_intros)
  then show ?case using slept lockp_timeless(2) timeless_trans by (metis keeps_timesD)
qed (rule lockp_timeless)

section \<open>The scheduler\<close>

text \<open>A runnable process becomes the running one.\<close>

lemma switch_timeless: "sched_switchuvm i s = Ok (x, t) \<Longrightarrow> ptable t = ptable s \<and> ticks t = ticks s"
  by (auto simp: sched_switchuvm_def split: if_splits)

lemma dispatch_timeless:
  assumes "dispatch i s = Ok (x, t)" "p_state (ptable s ! i) = RUNNABLE"
  shows "timeless s t"
proof -
  obtain u where u: "sched_switchuvm i (s\<lparr>cproc := Some i\<rparr>) = Ok ((), u)"
    "t = upd_proc i (\<lambda>p. p\<lparr>p_n_run := p_n_run p + 1, p_state := RUNNING, p_lastWorkingticks := ticks u\<rparr>) u"
    using assms(1) by (auto simp: dispatch_def kern_simps seqk_app modk_app elim!: bindk_OkE)
  have same: "ptable u = ptable s" "ticks u = ticks s" using switch_timeless [OF u(1)] by simp_all
  have "timeless s u" using same by (rule timeless_same)
  moreover have "timeless u t" unfolding u(2)
    by (rule timeless_upd) (use assms(2) same in \<open>simp add: same_times_def\<close>)
  ultimately show ?thesis by (rule timeless_trans)
qed

lemma mlfq_dispatch_timeless:
  assumes "mlfq_dispatch i s = Ok (x, t)" "p_state (ptable s ! i) = RUNNABLE"
  shows "timeless s t"
proof -
  let ?s1 = "(upd_proc i (\<lambda>p. p\<lparr>p_lastWorkingticks := ticks s\<rparr>) s)\<lparr>cproc := Some i\<rparr>"
  obtain u where u: "sched_switchuvm i ?s1 = Ok ((), u)" "t = upd_proc i (\<lambda>p. p\<lparr>p_state := RUNNING\<rparr>) u"
    using assms(1) by (auto simp: mlfq_dispatch_def kern_simps seqk_app modk_app elim!: bindk_OkE)
  have same: "ptable u = ptable ?s1" "ticks u = ticks ?s1" using switch_timeless [OF u(1)] by simp_all
  have "timeless s (upd_proc i (\<lambda>p. p\<lparr>p_lastWorkingticks := ticks s\<rparr>) s)"
    by (rule timeless_upd) (simp add: same_times_def)
  moreover have "timeless (upd_proc i (\<lambda>p. p\<lparr>p_lastWorkingticks := ticks s\<rparr>) s) u" using same by (intro timeless_same) simp_all
  moreover have "p_state (ptable u ! i) = RUNNABLE" if "i < length (ptable u)" using that assms(2) same by (simp add: nth_upd)
  then have "timeless u t" unfolding u(2) by (intro timeless_upd) (simp add: same_times_def)
  ultimately show ?thesis by (blast intro: timeless_trans)
qed

lemma run_timeless:
  assumes "seqk m (ret pc) s = Ok (x, t)" "\<And>y u. m s = Ok (y, u) \<Longrightarrow> timeless s u"
  shows "timeless s t"
  using assms by (auto simp: seqk_app ret_app elim!: bindk_OkE)

lemma undispatch_timeless: "keeps_times (undispatch i)"
proof -
  have "keeps_times (modk (\<lambda>s. (upd_proc i (\<lambda>p. p\<lparr>p_lastWorkingticks := ticks s\<rparr>) s)\<lparr>cproc := None\<rparr>))"
  proof (rule keeps_timesI)
    fix s t :: sst and x assume "modk (\<lambda>s. (upd_proc i (\<lambda>p. p\<lparr>p_lastWorkingticks := ticks s\<rparr>) s)\<lparr>cproc := None\<rparr>) s = Ok (x, t)"
    then have t: "t = (upd_proc i (\<lambda>p. p\<lparr>p_lastWorkingticks := ticks s\<rparr>) s)\<lparr>cproc := None\<rparr>" by (simp add: kern_simps)
    have "timeless s (upd_proc i (\<lambda>p. p\<lparr>p_lastWorkingticks := ticks s\<rparr>) s)" by (rule timeless_upd) (simp add: same_times_def)
    then show "timeless s t" unfolding t by (simp add: timeless_def)
  qed
  then show ?thesis unfolding undispatch_def by (intro timeless_intros)
qed

lemma rr_from_timeless: "rr_from k s = Ok (pc, t) \<Longrightarrow> timeless s t"
  by (auto simp: rr_from_def next_from_Some runnable_def split: option.splits
      dest: keeps_timesD [OF kt_end_round] run_timeless [OF _ dispatch_timeless])

lemma select_min_RUNNABLE: "select_min key i ps best = Some (j, b) \<Longrightarrow>
    best = Some (j, b) \<or> i \<le> j \<and> j - i < length ps \<and> p_state (ps ! (j - i)) = RUNNABLE"
proof (induction ps arbitrary: i best)
  case (Cons p ps)
  have step: "Suc i \<le> j \<and> j - Suc i < length ps \<and> p_state (ps ! (j - Suc i)) = RUNNABLE \<Longrightarrow>
      i \<le> j \<and> j - i < length (p # ps) \<and> p_state ((p # ps) ! (j - i)) = RUNNABLE"
    by (auto simp: nth_Cons' Suc_diff_Suc)
  show ?case
  proof (cases "p_state p = RUNNABLE")
    case False
    then show ?thesis using Cons.IH [of "Suc i" best] Cons.prems step by auto
  next
    case True
    then have "select_min key (Suc i) ps (Some (i, key p)) = Some (j, b) \<or> best \<noteq> None \<and> select_min key (Suc i) ps best = Some (j, b)"
      using Cons.prems by (auto split: option.splits if_splits)
    then show ?thesis using Cons.IH [of "Suc i" "Some (i, key p)"] Cons.IH [of "Suc i" best] True step by auto
  qed
qed simp

lemma fcfs_top_timeless:
  assumes "fcfs_top s = Ok (pc, t)"
  shows "timeless s t"
proof (cases "fcfs_pick (ptable s)")
  case None
  then show ?thesis using assms keeps_timesD [OF kt_end_round] by (simp add: fcfs_top_def)
next
  case (Some i)
  then obtain b where "select_min p_ctime 0 (ptable s) None = Some (i, b)" by (auto simp: fcfs_pick_def)
  then have "p_state (ptable s ! i) = RUNNABLE" using select_min_RUNNABLE by fastforce
  then show ?thesis using assms Some by (auto simp: fcfs_top_def dest: run_timeless [OF _ dispatch_timeless])
qed

lemma pbs_from_timeless: "pbs_from k m s = Ok (pc, t) \<Longrightarrow> timeless s t"
  by (auto simp: pbs_from_def next_from_Some runnable_def split: option.splits
      dest: keeps_timesD [OF kt_end_round] run_timeless [OF _ dispatch_timeless])

lemma pbs_top_timeless: "pbs_top s = Ok (pc, t) \<Longrightarrow> timeless s t"
  by (auto simp: pbs_top_def split: option.splits dest: keeps_timesD [OF kt_end_round] pbs_from_timeless)

lemma pbs_back_timeless: "pbs_back i m s = Ok (pc, t) \<Longrightarrow> timeless s t"
  unfolding pbs_back_def seqk_app
  by (erule bindk_OkE) (auto split: if_splits dest!: keeps_timesD [OF undispatch_timeless] keeps_timesD [OF kt_end_round] pbs_from_timeless
      intro: timeless_trans)

lemma age_times: "age now p = Ok q \<Longrightarrow> same_times x p q"
  by (auto simp: age_def same_times_def split: if_splits)

lemma age_all_times: "age_all now ps = Ok qs \<Longrightarrow> length qs = length ps \<and> (\<forall>k < length ps. same_times x (ps ! k) (qs ! k))"
  by (induction ps arbitrary: qs) (auto simp: less_Suc_eq_0_disj age_times split: outcome.splits)

lemma mlfq_finish_timeless:
  assumes "mlfq_finish q i s = Ok (pc, t)"
  shows "timeless s t"
proof -
  let ?s1 = "if max_tick_of_q ! q \<le>s p_curr_q_ticks (ptable s ! i) \<and> q \<noteq> 4 then upd_proc i (\<lambda>p. p\<lparr>p_queue := p_queue p + 1\<rparr>) s else s"
  have "timeless s ?s1" by (auto intro!: timeless_upd simp: same_times_def)
  moreover have "timeless ?s1 (upd_proc i (\<lambda>p. p\<lparr>p_lastWorkingticks := ticks s\<rparr>) ?s1)"
    by (rule timeless_upd) (simp add: same_times_def)
  moreover have "timeless (upd_proc i (\<lambda>p. p\<lparr>p_lastWorkingticks := ticks s\<rparr>) ?s1) t"
    using assms unfolding mlfq_finish_def Let_def by (rule keeps_timesD [OF kt_end_round])
  ultimately show ?thesis by (blast intro: timeless_trans)
qed

lemma mlfq_next_timeless:
  assumes "(if c then seqk (mlfq_dispatch i) (ret pc') s else mlfq_finish q i s) = Ok (pc, t)" "c \<Longrightarrow> p_state (ptable s ! i) = RUNNABLE"
  shows "timeless s t"
proof (cases c)
  case True
  have "seqk (mlfq_dispatch i) (ret pc') s = Ok (pc, t)" using assms(1) True by (simp only: if_True)
  then show ?thesis by (rule run_timeless) (rule mlfq_dispatch_timeless [OF _ assms(2) [OF True]])
next
  case False
  have "mlfq_finish q i s = Ok (pc, t)" using assms(1) False by (simp only: if_False)
  then show ?thesis by (rule mlfq_finish_timeless)
qed

lemma mlfq_top_timeless:
  assumes "mlfq_top s = Ok (pc, t)"
  shows "timeless s t"
proof -
  obtain ps where ps: "age_all (ticks s) (ptable s) = Ok ps" using assms by (auto simp: mlfq_top_def split: outcome.splits)
  then obtain qs where qs: "collect ps [0 ..< length ps] (replicate 5 None) = Ok qs" using assms by (auto simp: mlfq_top_def split: outcome.splits)
  have aged: "timeless s (s\<lparr>ptable := ps\<rparr>)" using age_all_times [OF ps] by (simp add: timeless_def)
  show ?thesis
  proof (cases "find_index (\<lambda>q. q \<noteq> None) qs")
    case None
    then have "end_round (s\<lparr>ptable := ps\<rparr>) = Ok (pc, t)" using assms by (simp add: mlfq_top_def ps qs)
    then show ?thesis using aged keeps_timesD [OF kt_end_round] timeless_trans by blast
  next
    case (Some q)
    let ?i = "the (qs ! q)"
    let ?s1 = "upd_proc ?i (\<lambda>p. p\<lparr>p_curr_q_ticks := 0, p_n_run := p_n_run p + 1\<rparr>) (s\<lparr>ptable := ps\<rparr>)"
    have "timeless (s\<lparr>ptable := ps\<rparr>) ?s1" by (rule timeless_upd) (simp add: same_times_def)
    moreover have "(if p_state (ptable ?s1 ! ?i) = RUNNABLE then seqk (mlfq_dispatch ?i) (ret (MLFQrun q ?i)) ?s1
        else mlfq_finish q ?i ?s1) = Ok (pc, t)"
      using assms Some by (simp add: mlfq_top_def ps qs Let_def)
    then have "timeless ?s1 t" by (rule mlfq_next_timeless)
    ultimately show ?thesis using aged timeless_trans by blast
  qed
qed

lemma mlfq_back_timeless:
  assumes "mlfq_back q i s = Ok (pc, t)"
  shows "timeless s t"
proof -
  let ?k = "seqk sched_switchkvm (modk (\<lambda>s. s\<lparr>cproc := None\<rparr>))"
  obtain u where u: "?k s = Ok ((), u)" "(if max_tick_of_q ! q \<le>s p_curr_q_ticks (ptable u ! i) then mlfq_finish q i u
     else if p_state (ptable u ! i) = RUNNABLE then seqk (mlfq_dispatch i) (ret (MLFQrun q i)) u else mlfq_finish q i u) = Ok (pc, t)"
    using assms by (auto simp: mlfq_back_def sched_switchkvm_def kern_simps)
  have "keeps_times ?k" by (intro timeless_intros)
  then have "timeless s u" using u(1) by (rule keeps_timesD)
  moreover have "timeless u t"
  proof (cases "max_tick_of_q ! q \<le>s p_curr_q_ticks (ptable u ! i)")
    case True
    then show ?thesis using u(2) mlfq_finish_timeless by simp
  next
    case False
    then show ?thesis using u(2) by (intro mlfq_next_timeless [of "p_state (ptable u ! i) = RUNNABLE"]) (simp_all only: if_False)
  qed
  ultimately show ?thesis by (rule timeless_trans)
qed

lemma sched_top_timeless:
  assumes "sched_top pol s = Ok (pc, t)"
  shows "timeless s t"
proof -
  obtain u where u: "acquirep PTABLE s = Ok ((), u)" "(case pol of RR \<Rightarrow> rr_from 0 | FCFS \<Rightarrow> fcfs_top | PBS \<Rightarrow> pbs_top | MLFQ \<Rightarrow> mlfq_top) u = Ok (pc, t)"
    using assms by (auto simp: sched_top_def seqk_app elim: bindk_OkE)
  have "timeless u t" using u(2) rr_from_timeless fcfs_top_timeless pbs_top_timeless mlfq_top_timeless by (cases pol) auto
  then show ?thesis using lockp_timeless(1) [OF u(1)] timeless_trans by blast
qed

lemma sched_back_timeless:
  assumes "sched_back pc s = Ok (pc', t)"
  shows "timeless s t"
proof (cases pc)
  case Top
  then show ?thesis using assms by (simp add: sched_back_def undefinedk_def)
next
  case (RRrun i)
  then show ?thesis using assms rr_from_timeless keeps_timesD [OF undispatch_timeless] timeless_trans
    by (fastforce simp: sched_back_def seqk_app elim: bindk_OkE)
next
  case (FCFSrun i)
  have "keeps_times (seqk (undispatch i) end_round)" by (intro timeless_intros undispatch_timeless)
  then show ?thesis using assms FCFSrun by (auto simp: sched_back_def dest: keeps_timesD)
next
  case (PBSrun i m)
  then show ?thesis using assms pbs_back_timeless by (simp add: sched_back_def)
next
  case (MLFQrun q i)
  then show ?thesis using assms mlfq_back_timeless by (simp add: sched_back_def)
qed

section \<open>The running process\<close>

lemma timeless_wakeup1 [timeless_intros]: "keeps_times (wakeup1 ch)"
  by (rule keeps_timesI) (auto simp: wakeup1_def modk_def intro!: timeless_map same_times_wake)

lemma reparent_timeless [timeless_intros]: "keeps_times (reparent i ks)"
proof (induction ks)
  case (Cons k ks)
  have p: "keeps_times (modk (upd_proc k (\<lambda>p. p\<lparr>p_parent := z\<rparr>)))" for k z
    by (rule keeps_timesI) (auto simp: kern_simps same_times_def intro!: timeless_upd)
  have "keeps_times (seqk (modk (upd_proc k (\<lambda>p. p\<lparr>p_parent := z\<rparr>))) (seqk (whenk b (wakeup1 ch)) (reparent i ks)))" for z b ch
    by (intro timeless_intros p Cons)
  then show ?case by (intro keeps_timesI) (auto split: if_splits dest: keeps_timesD [OF Cons] keeps_timesD)
qed (simp add: timeless_intros)

text \<open>The process that runs becomes runnable, a sleeper or a zombie.\<close>

lemma stop_timeless:
  assumes "seqk (modk (upd_proc i f)) sched_enter s = Ok (x, t)"
    and "i < length (ptable s) \<Longrightarrow> same_times (ticks s) (ptable s ! i) (f (ptable s ! i))"
  shows "timeless s t"
proof -
  have "sched_enter (upd_proc i f s) = Ok (x, t)" using assms(1) by (simp add: kern_simps)
  then have "timeless (upd_proc i f s) t" by (rule keeps_timesD [OF kt_sched_enter])
  then show ?thesis using timeless_upd [of i s f] assms(2) timeless_trans by blast
qed

lemma exit_timeless:
  assumes run: "exit_zombie i s = Ok (b, t)" and inv: "sinv n s pc" and i: "p_state (ptable s ! i) = RUNNING" "i < NPROC"
  shows "timeless s t"
proof -
  obtain u where u: "acquirep PTABLE s = Ok ((), u)" and
    run1: "(seqk (wakeup1 (chan_of (p_parent (ptable u ! i)))) (seqk (reparent i [0 ..< length (ptable u)])
       (seqk (modk (\<lambda>s. upd_proc i (\<lambda>p. p\<lparr>p_etime := ticks s, p_state := ZOMBIE\<rparr>) s)) sched_enter))) u = Ok (b, t)"
    using run by (auto simp: exit_zombie_def seqk_app elim: bindk_OkE)
  note same = lockp_table(1) [OF u]
  let ?v = "u\<lparr>ptable := map (wake (chan_of (p_parent (ptable u ! i)))) (ptable u)\<rparr>"
  have tab: "tables_ok n s" using inv by (simp add: sinv_def)
  then have tv: "tables_ok n ?v" using same by (auto simp: tables_ok_def local_ok_wake)
  have len: "length (ptable u) = NPROC" using tab same by (simp add: tables_ok_def)
  obtain w where w: "reparent i [0 ..< length (ptable u)] ?v = Ok ((), w)"
    "\<forall>j < NPROC. (p_state (ptable w ! j) = RUNNING \<longleftrightarrow> p_state (ptable ?v ! j) = RUNNING) \<and> p_queue (ptable w ! j) = p_queue (ptable ?v ! j)"
    using reparent_ok [OF tv, of "[0 ..< length (ptable u)]" i] len by auto
  have run2: "seqk (modk (upd_proc i (\<lambda>p. p\<lparr>p_etime := ticks w, p_state := ZOMBIE\<rparr>))) sched_enter w = Ok (b, t)"
    using run1 w(1) by (simp add: kern_simps wakeup1_def)
  have "p_state (ptable w ! i) = RUNNING" using w(2) i same len by simp
  then have "timeless w t" by (intro stop_timeless [OF run2]) (simp add: same_times_def)
  moreover have "timeless s u" using u by (rule lockp_timeless)
  moreover have "timeless u ?v" by (rule timeless_map) (rule same_times_wake)
  moreover have "timeless ?v w" using w(1) by (rule keeps_timesD [OF reparent_timeless])
  ultimately show ?thesis by (blast intro: timeless_trans)
qed

lemma gives_up_timeless:
  assumes "gives_up s t" "sinv n s pc" "pc \<noteq> Top"
  shows "timeless s t"
proof -
  obtain i where i: "cproc s = Some i" "p_state (ptable s ! i) = RUNNING" "i < NPROC"
    using on_cpu_proc [of s pc] assms(2,3) by (auto simp: sinv_def only_running_def tables_ok_def)
  from assms(1) show ?thesis
  proof cases
    case (yields b)
    then obtain u where u: "acquirep PTABLE s = Ok ((), u)" "seqk (modk (upd_proc i (\<lambda>p. p\<lparr>p_state := RUNNABLE\<rparr>))) sched_enter u = Ok (b, t)"
      using lockp_table(1) [of PTABLE s] i(1) by (auto simp: yield_enter_def seqk_app myproc_def bindk_Ok elim!: bindk_OkE)
    have "timeless u t" using lockp_table(1) [OF u(1)] i(2) by (intro stop_timeless [OF u(2)]) (simp add: same_times_def)
    then show ?thesis using lockp_timeless(1) [OF u(1)] timeless_trans by blast
  next
    case (sleeps l s1 ch b)
    note s1 = lockp_table(1) [OF sleeps(1)]
    let ?k = "whenk (l \<noteq> PTABLE) (seqk (acquirep PTABLE) (releasep l))"
    obtain u where u: "?k s1 = Ok ((), u)" "seqk (modk (upd_proc i (\<lambda>p. p\<lparr>p_chan := ch, p_state := SLEEPING\<rparr>))) sched_enter u = Ok (b, t)"
      using sleeps(2) s1 i(1) by (auto simp: sleep_enter_def seqk_app elim!: bindk_OkE)
    have same: "ptable u = ptable s1" "ticks u = ticks s1"
      using u(1) by (auto simp: whenk_def ret_def seqk_app dest!: lockp_table elim!: bindk_OkE split: if_splits)
    have "timeless u t" using same s1 i(2) by (intro stop_timeless [OF u(2)]) (simp add: same_times_def)
    moreover have "timeless s u" using same s1 by (intro timeless_same) simp_all
    ultimately show ?thesis using timeless_trans by blast
  next
    case (exits j b)
    then show ?thesis using exit_timeless [OF _ assms(2)] i by simp
  qed
qed

section \<open>Birth and death\<close>

text \<open>What a kernel entry does to an entry of the table: nothing to its times, a new process, or a free entry.\<close>

definition same_life :: "u32 \<Rightarrow> sproc \<Rightarrow> sproc \<Rightarrow> bool" where
  "same_life now p q \<longleftrightarrow> same_times now p q \<or> p_state q = UNUSED \<or>
     p_state p = UNUSED \<and> p_state q = EMBRYO \<and> p_ctime q = now \<and> p_rtime q = 0 \<and> p_iotime q = 0"

definition lives_on :: "sst \<Rightarrow> sst \<Rightarrow> bool" where
  "lives_on s t \<longleftrightarrow> ticks t = ticks s \<and> length (ptable t) = length (ptable s) \<and>
     (\<forall>k < length (ptable s). same_life (ticks s) (ptable s ! k) (ptable t ! k))"

lemma timeless_lives: "timeless s t \<Longrightarrow> lives_on s t"
  by (simp add: timeless_def lives_on_def same_life_def)

lemma lives_same_table: "lives_on s t \<Longrightarrow> ptable u = ptable t \<Longrightarrow> ticks u = ticks t \<Longrightarrow> lives_on s u"
  by (simp add: lives_on_def)

lemma lives_upd:
  assumes "ptable t = (ptable s)[k := q]" "ticks t = ticks s" "k < length (ptable s) \<Longrightarrow> same_life (ticks s) (ptable s ! k) q"
  shows "lives_on s t"
  using assms by (auto simp: lives_on_def nth_upd same_life_def)

lemma allocproc_lives:
  assumes "allocproc s = Ok (r, t)"
  shows "lives_on s t"
proof -
  obtain u where u: "acquirep PTABLE s = Ok ((), u)" and rest: "(case find_index (\<lambda>p. p_state p = UNUSED) (ptable u) of
       None \<Rightarrow> seqk (releasep PTABLE) (ret None) u
     | Some i \<Rightarrow>
         seqk (modk (\<lambda>s. upd_proc i (embryo (nextpid s) (ticks s)) (s\<lparr>nextpid := nextpid s + 1\<rparr>)))
           (seqk (releasep PTABLE)
             (bindk (zoom_km sched_kalloc) (\<lambda>stack.
               seqk (modk (upd_proc i (\<lambda>p. p\<lparr>p_kstack := stack\<rparr>)))
                 (if stack = 0 then seqk (modk (upd_proc i (\<lambda>p. p\<lparr>p_state := UNUSED\<rparr>))) (ret None)
                  else seqk (modk (kstack_frame i stack)) (ret (Some i)))))) u) = Ok (r, t)"
    using assms by (auto simp: allocproc_def seqk_app elim: bindk_OkE)
  note same = lockp_table(1) [OF u]
  show ?thesis
  proof (cases "find_index (\<lambda>p. p_state p = UNUSED) (ptable u)")
    case None
    then have "ptable t = ptable s" "ticks t = ticks s"
      using rest same by (auto simp: seqk_app ret_app dest!: lockp_table(2) elim!: bindk_OkE)
    then show ?thesis by (intro timeless_lives timeless_same)
  next
    case (Some i)
    then have i: "p_state (ptable s ! i) = UNUSED" using same by (simp add: find_index_Some)
    let ?v = "upd_proc i (embryo (nextpid u) (ticks u)) (u\<lparr>nextpid := nextpid u + 1\<rparr>)"
    obtain w stack x where w: "releasep PTABLE ?v = Ok ((), w)" "zoom_km sched_kalloc w = Ok (stack, x)"
      and last: "seqk (modk (upd_proc i (\<lambda>p. p\<lparr>p_kstack := stack\<rparr>)))
                 (if stack = 0 then seqk (modk (upd_proc i (\<lambda>p. p\<lparr>p_state := UNUSED\<rparr>))) (ret None)
                  else seqk (modk (kstack_frame i stack)) (ret (Some i))) x = Ok (r, t)"
      using rest Some by (auto simp: seqk_app modk_app bindk_Ok elim!: bindk_OkE)
    obtain m where m: "x = w\<lparr>km := m\<rparr>" using w(2) by (rule zoom_km_OkE)
    have x: "ptable x = (ptable s)[i := embryo (nextpid u) (ticks s) (ptable s ! i)]" "ticks x = ticks s"
      using lockp_table(2) [OF w(1)] m same by simp_all
    obtain tf ctx m' where f: "kstack_frame i stack (upd_proc i (\<lambda>p. p\<lparr>p_kstack := stack\<rparr>) x) =
        upd_proc i (\<lambda>p. p\<lparr>p_tf := tf, p_context := ctx\<rparr>) ((upd_proc i (\<lambda>p. p\<lparr>p_kstack := stack\<rparr>) x)\<lparr>km := m'\<rparr>)"
      using kstack_frame_eq by blast
    show ?thesis
    proof (cases "i < length (ptable s)")
      case True
      show ?thesis
      proof (cases "stack = 0")
        case z: True
        then have "t = upd_proc i (\<lambda>p. p\<lparr>p_state := UNUSED\<rparr>) (upd_proc i (\<lambda>p. p\<lparr>p_kstack := stack\<rparr>) x)" using last by (simp add: kern_simps)
        then show ?thesis using x True by (intro lives_upd [of _ _ i]) (auto simp: same_life_def)
      next
        case False
        then have "t = kstack_frame i stack (upd_proc i (\<lambda>p. p\<lparr>p_kstack := stack\<rparr>) x)" using last by (simp add: kern_simps)
        then show ?thesis unfolding f using x True i by (intro lives_upd [of _ _ i]) (auto simp: same_life_def embryo_def)
      qed
    next
      case False
      then show ?thesis using Some same by (simp add: find_index_Some)
    qed
  qed
qed

text \<open>\<open>wait\<close> and \<open>waitx\<close> free the entry of a zombie.\<close>

lemma reap_lives:
  assumes "seqk (modk (upd_proc k g)) (seqk (zoom_km a) (seqk (zoom_km b) (seqk (modk (upd_proc k reaped)) (seqk (releasep PTABLE) (ret x))))) s = Ok (r, t)"
  shows "lives_on s t \<and> r = x \<and> (k < length (ptable s) \<longrightarrow> ptable t ! k = reaped (g (ptable s ! k)))"
proof -
  obtain u v y z where u: "zoom_km a (upd_proc k g s) = Ok (y, u)" "zoom_km b u = Ok (z, v)"
    and r: "seqk (releasep PTABLE) (ret x) (upd_proc k reaped v) = Ok (r, t)"
    using assms by (auto simp: seqk_app modk_app bindk_Ok elim!: bindk_OkE)
  obtain m1 m2 where m: "u = (upd_proc k g s)\<lparr>km := m1\<rparr>" "v = u\<lparr>km := m2\<rparr>" using u by (auto elim!: zoom_km_OkE)
  have "ptable t = ptable (upd_proc k reaped v)" "ticks t = ticks s" "r = x"
    using r m by (auto simp: seqk_app ret_app dest!: lockp_table(2) elim!: bindk_OkE)
  moreover have "ptable (upd_proc k reaped v) = (ptable s)[k := reaped (g (ptable s ! k))]"
    using m by (cases "k < length (ptable s)") (simp_all add: list_update_beyond)
  ultimately show ?thesis by (auto intro!: lives_upd [of _ _ k] simp: same_life_def reaped_def)
qed

lemma released_lives: "seqk (releasep PTABLE) (ret x) s = Ok (r, t) \<Longrightarrow> lives_on s t"
proof -
  have "keeps_times (seqk (releasep PTABLE) (ret x))" by (intro timeless_intros)
  then show "seqk (releasep PTABLE) (ret x) s = Ok (r, t) \<Longrightarrow> lives_on s t" by (intro timeless_lives) (rule keeps_timesD)
qed

lemma wait_scan_lives: "wait_scan i s = Ok (r, t) \<Longrightarrow> lives_on s t"
proof (cases "scan_kids i 0 (ptable s) False")
  case (Zombie k)
  let ?p = "ptable s ! k"
  assume "wait_scan i s = Ok (r, t)"
  then have "seqk (modk (upd_proc k (\<lambda>p. p))) (seqk (zoom_km (sched_kfree (p_kstack ?p))) (seqk (zoom_km (s_freevm (p_pgdir ?p)))
     (seqk (modk (upd_proc k reaped)) (seqk (releasep PTABLE) (ret (Some (p_pid ?p))))))) s = Ok (r, t)"
    using Zombie by (simp add: wait_scan_def Let_def kern_simps upd_proc_def)
  from reap_lives [OF this] show ?thesis by simp
qed (auto simp: wait_scan_def timeless_lives split: if_splits dest: released_lives)

lemma waitx_scan_lives: "waitx_scan i s = Ok (r, t) \<Longrightarrow> lives_on s t"
  by (auto simp: waitx_scan_def Let_def timeless_lives split: scan.splits if_splits dest: released_lives reap_lives)

lemma kcall_lives: "kcall s t \<Longrightarrow> lives_on s t"
proof (induction rule: kcall.induct)
  case (wakes ch s t)
  have "keeps_times (wakeup ch)" unfolding wakeup_def by (intro timeless_intros)
  then show ?case using wakes by (intro timeless_lives) (rule keeps_timesD)
next
  case (kills pid s r t)
  have k: "keeps_times (modk (upd_proc i kill1))" for i
    by (rule keeps_timesI) (auto simp: kern_simps same_times_def kill1_def intro!: timeless_upd)
  have "keeps_times (seqk (modk (upd_proc i kill1)) (seqk (releasep PTABLE) (ret 0)))" "keeps_times (seqk (releasep PTABLE) (ret (-1)))" for i
    by (intro timeless_intros k)+
  then have after: "timeless u t" if "(case find_index (\<lambda>p. p_pid p = pid) (ptable u) of
      Some i \<Rightarrow> seqk (modk (upd_proc i kill1)) (seqk (releasep PTABLE) (ret 0)) u
    | None \<Rightarrow> seqk (releasep PTABLE) (ret (-1)) u) = Ok (r, t)" for u using that by (auto split: option.splits dest: keeps_timesD)
  obtain x u where u: "acquirep PTABLE s = Ok (x, u)" "(case find_index (\<lambda>p. p_pid p = pid) (ptable u) of
      Some i \<Rightarrow> seqk (modk (upd_proc i kill1)) (seqk (releasep PTABLE) (ret 0)) u
    | None \<Rightarrow> seqk (releasep PTABLE) (ret (-1)) u) = Ok (r, t)" using kills unfolding kill_def seqk_app by (rule bindk_OkE)
  show ?case using timeless_trans [OF lockp_timeless(1) [OF u(1)] after [OF u(2)]] by (rule timeless_lives)
next
  case (prioritises v pid s r t)
  have p: "keeps_times (modk (upd_proc i (\<lambda>p. p\<lparr>p_priority := v\<rparr>)))" for i
    by (rule keeps_timesI) (auto simp: kern_simps same_times_def intro!: timeless_upd)
  show ?case using prioritises
    by (intro timeless_lives)
      (auto simp: set_priority_def ret_def Let_def seqk_app elim!: bindk_OkE split: if_splits option.splits
        dest!: lockp_timeless keeps_timesD [OF p] intro: timeless_trans)
next
  case (owns s i pd z tf fs d nm k)
  then show ?case by (intro lives_upd [of _ _ i]) (auto simp: same_life_def same_times_def)
next
  case (prepares i s z pd q fs d nm k)
  then show ?case by (intro lives_upd [of _ _ i]) (auto simp: same_life_def same_times_def)
next
  case (completes i s t)
  obtain u where u: "acquirep PTABLE s = Ok ((), u)" "releasep PTABLE (upd_proc i (\<lambda>p. p\<lparr>p_state := RUNNABLE\<rparr>) u) = Ok ((), t)"
    using completes(5) by (auto simp: make_runnable_def seqk_app modk_app bindk_Ok elim!: bindk_OkE)
  then show ?case using completes lockp_table(1) [OF u(1)] lockp_table(2) [OF u(2)]
    by (intro lives_upd [of _ _ i]) (auto simp: same_life_def same_times_def)
next
  case (undoes i s k)
  then show ?case by (intro lives_upd [of _ _ i]) (auto simp: same_life_def)
next
  case (waits s i s1 r t)
  then show ?case using lockp_table(1) [OF waits(2)] wait_scan_lives by (fastforce simp: lives_on_def)
next
  case (waitxs s i s1 r t)
  then show ?case using lockp_table(1) [OF waitxs(2)] waitx_scan_lives by (fastforce simp: lives_on_def)
qed (rule allocproc_lives)

section \<open>Histories\<close>

text \<open>The steps of the system other than the clock tick.\<close>

inductive sstep :: "policy \<Rightarrow> sst \<Rightarrow> spc \<Rightarrow> sst \<Rightarrow> spc \<Rightarrow> bool" for pol where
  idle_step: "sched_top pol s = Ok (Top, t) \<Longrightarrow> sstep pol s Top t Top"
| start_step: "sched_top pol s = Ok (pc, t) \<Longrightarrow> pc \<noteq> Top \<Longrightarrow> resumes t u \<Longrightarrow> sstep pol s Top u pc"
| call_step: "pc \<noteq> Top \<Longrightarrow> kcall s t \<Longrightarrow> sstep pol s pc t pc"
| stop_step: "pc \<noteq> Top \<Longrightarrow> gives_up s t \<Longrightarrow> sched_back pc t = Ok (Top, u) \<Longrightarrow> sstep pol s pc u Top"
| switch_step: "pc \<noteq> Top \<Longrightarrow> gives_up s t \<Longrightarrow> sched_back pc t = Ok (pc', u) \<Longrightarrow> pc' \<noteq> Top \<Longrightarrow> resumes u v \<Longrightarrow> sstep pol s pc v pc'"

text \<open>The ticks at which the process of an entry was running, asleep, or otherwise waiting, since the entry was last free.\<close>

record spent =
  t_run :: nat
  t_sleep :: nat
  t_wait :: nat

definition spend :: "procstate \<Rightarrow> spent \<Rightarrow> spent" where
  "spend st c = (case st of
     RUNNING \<Rightarrow> c\<lparr>t_run := t_run c + 1\<rparr>
   | SLEEPING \<Rightarrow> c\<lparr>t_sleep := t_sleep c + 1\<rparr>
   | RUNNABLE \<Rightarrow> c\<lparr>t_wait := t_wait c + 1\<rparr>
   | EMBRYO \<Rightarrow> c\<lparr>t_wait := t_wait c + 1\<rparr>
   | _ \<Rightarrow> c)"

definition nothing :: spent where "nothing = \<lparr>t_run = 0, t_sleep = 0, t_wait = 0\<rparr>"

definition if_used :: "sst \<Rightarrow> (nat \<Rightarrow> spent) \<Rightarrow> nat \<Rightarrow> spent" where
  "if_used s g k = (if p_state (ptable s ! k) = UNUSED then nothing else g k)"

inductive hist :: "policy \<Rightarrow> nat \<Rightarrow> sst \<Rightarrow> spc \<Rightarrow> (nat \<Rightarrow> spent) \<Rightarrow> bool" for pol where
  hist_boot: "boot_state s \<Longrightarrow> hist pol 0 s Top (\<lambda>_. nothing)"
| hist_tick: "hist pol n s pc g \<Longrightarrow> timer_tick s = Ok ((), t) \<Longrightarrow> hist pol (Suc n) t pc (\<lambda>k. spend (p_state (ptable s ! k)) (g k))"
| hist_step: "hist pol n s pc g \<Longrightarrow> sstep pol s pc t pc' \<Longrightarrow> hist pol n t pc' (if_used s g)"

text \<open>Every reachable state has a history, and only these have one.\<close>

lemma hist_sys: "hist pol n s pc g \<Longrightarrow> sys pol n s pc"
proof (induction rule: hist.induct)
  case (hist_step n s pc g t pc')
  from hist_step(2) show ?case using hist_step.IH by cases (auto intro: sys.intros)
qed (auto intro: sys.intros)

lemma sys_hist: "sys pol n s pc \<Longrightarrow> \<exists>g. hist pol n s pc g"
proof (induction rule: sys.induct)
  case (boots s)
  then show ?case using hist_boot by blast
next
  case (idles n s t)
  then show ?case using hist_step [OF _ idle_step] by blast
next
  case (starts n s pc t u)
  then show ?case using hist_step [OF _ start_step] by blast
next
  case (ticks n s pc t)
  then show ?case using hist_tick by blast
next
  case (calls n s pc t)
  then show ?case using hist_step [OF _ call_step] by blast
next
  case (stops n s pc t u)
  then show ?case using hist_step [OF _ stop_step] by blast
next
  case (switches n s pc t pc' u v)
  then show ?case using hist_step [OF _ switch_step] by blast
qed

lemma sstep_lives:
  assumes "sstep pol s pc t pc'" "sinv n s pc"
  shows "lives_on s t"
  using assms(1)
proof cases
  case idle_step
  then show ?thesis by (intro timeless_lives sched_top_timeless)
next
  case (start_step u)
  show ?thesis by (rule timeless_lives) (rule timeless_trans [OF sched_top_timeless [OF start_step(2)] kt_resumes [OF start_step(4)]])
next
  case call_step
  then show ?thesis by (intro kcall_lives)
next
  case (stop_step u)
  show ?thesis
    by (rule timeless_lives) (rule timeless_trans [OF gives_up_timeless [OF stop_step(3) assms(2) stop_step(2)] sched_back_timeless [OF stop_step(4)]])
next
  case (switch_step u v)
  show ?thesis
    by (rule timeless_lives) (rule timeless_trans [OF timeless_trans [OF gives_up_timeless [OF switch_step(2) assms(2) switch_step(1)]
      sched_back_timeless [OF switch_step(3)]] kt_resumes [OF switch_step(5)]])
qed

section \<open>The fields of a process and its history\<close>

definition accounts :: "nat \<Rightarrow> u32 \<Rightarrow> sproc \<Rightarrow> spent \<Rightarrow> bool" where
  "accounts n now p c \<longleftrightarrow> p_state p \<noteq> UNUSED \<longrightarrow>
     p_rtime p = of_nat (t_run c) \<and> p_iotime p = of_nat (t_sleep c) \<and> t_run c + t_sleep c + t_wait c \<le> n \<and>
     (if p_state p = ZOMBIE then p_etime p else now) = p_ctime p + of_nat (t_run c + t_sleep c + t_wait c)"

lemma accounts_boot: "local_ok 0 p \<Longrightarrow> p_state p \<in> {UNUSED, RUNNABLE} \<Longrightarrow> accounts 0 0 p nothing"
  by (auto simp: accounts_def local_ok_def nothing_def unat_eq_0)

lemma accounts_tick: "accounts n now p c \<Longrightarrow> accounts (Suc n) (now + 1) (after_tick p) (spend (p_state p) c)"
  by (cases "p_state p") (auto simp: accounts_def after_tick_def spend_def algebra_simps)

lemma accounts_life:
  assumes "accounts n now p c" "same_life now p q"
  shows "accounts n now q (if p_state p = UNUSED then nothing else c)"
  using assms by (auto simp: accounts_def same_life_def same_times_def nothing_def split: if_splits)

lemma hist_accounts: "hist pol n s pc g \<Longrightarrow> k < length (ptable s) \<Longrightarrow> accounts n (ticks s) (ptable s ! k) (g k)"
proof (induction rule: hist.induct)
  case (hist_boot s)
  then show ?case by (simp add: boot_state_def accounts_boot)
next
  case (hist_tick n s pc g t)
  then show ?case using timer_tick_table [OF hist_tick(2)] by (simp add: accounts_tick)
next
  case (hist_step n s pc g t pc')
  have "lives_on s t" using sstep_lives [OF hist_step(2)] sys_inv [OF hist_sys [OF hist_step(1)]] by blast
  then show ?case using hist_step(3,4) accounts_life unfolding lives_on_def if_used_def by simp
qed

end
