(* ===== verification/Sched_Props.thy ===== *)
theory Sched_Props
  imports Sched_Times
begin

text \<open>
  The properties of the schedulers: safety of the whole loop, what each policy runs, and the times
  that \<open>waitx\<close> reports.
\<close>

section \<open>An example machine\<close>

definition ex_slot :: sproc where
  "ex_slot = \<lparr>p_sz = 0, p_pgdir = 0, p_kstack = 0, p_state = UNUSED, p_pid = 0, p_parent = None,
     p_tf = 0, p_context = 0, p_chan = NoChan, p_killed = False, p_ofile = replicate 16 None,
     p_cwd = None, p_name = (\<lambda>_. 0), p_ctime = 0, p_rtime = 0, p_etime = 0, p_iotime = 0,
     p_priority = 0, p_queue = 0, p_q_ticks = replicate 5 0, p_curr_q_ticks = 0, p_n_run = 0,
     p_lastWorkingticks = 0\<rparr>"

definition ex_proc :: "u32 \<Rightarrow> u32 \<Rightarrow> sproc" where
  "ex_proc pid prio = ex_slot\<lparr>p_pgdir := 0x80300000, p_kstack := 0x80310000, p_state := RUNNABLE,
     p_pid := pid, p_priority := prio\<rparr>"

definition ex_sst :: sst where
  "ex_sst = \<lparr>lk = fst lock_init, ptable = [ex_proc 1 60, ex_proc 2 40] @ replicate 62 ex_slot, nextpid = 3,
     initproc = Some 0, ticks = 0, cproc = None,
     km = \<lparr>smem = (\<lambda>_. 0), skend = 0x80200000, sklocked = False, suse_lock = True, sfreelist = 0,
       skdata = 0x80108000, skpgdir = 0x80320000, scr3 = 0\<rparr>,
     trapret = 0x80105000, forkret = 0x80104000\<rparr>"

lemma ex_sst_boot: "boot_state ex_sst"
  by (auto simp: boot_state_def ex_sst_def ex_proc_def ex_slot_def local_ok_def NPROC_def holdset_def
      lock_init_def cpu_ok_def)

lemma ex_sst_sys: "sys pol 0 ex_sst Top"
  by (rule sys.boots) (rule ex_sst_boot)

section \<open>The scheduler as a whole\<close>

text \<open>
  C12: on one CPU, at every moment, under every policy and for every behaviour of the processes, the table holds at most
  one running process, namely the one the scheduler has switched to, the current process of the
  CPU; no lock is held outside the critical sections; every queue number is a valid index; and the
  next scheduling round and the next clock tick complete without a panic or an access out of
  bounds.  (With two CPUs a second process may be running; that machine is not modelled.)
\<close>

theorem scheduler_safe:
  assumes "sys pol n s pc"
  shows "cproc s = proc_of pc \<and>
    (\<forall>j < length (ptable s). p_state (ptable s ! j) = RUNNING \<longleftrightarrow> proc_of pc = Some j) \<and>
    quiet s \<and> (\<forall>p \<in> set (ptable s). unat (p_queue p) < 5) \<and>
    okp (\<lambda>_ _. True) (timer_tick s) \<and>
    (pc = Top \<longrightarrow> okp (\<lambda>_ _. True) (sched_top pol s)) \<and>
    (pc \<noteq> Top \<longrightarrow> (\<forall>t. gives_up s t \<longrightarrow> okp (\<lambda>_ _. True) (sched_back pc t)))"
proof -
  have inv: "sinv n s pc" using assms by (rule sys_inv)
  then have q: "quiet s" "tables_ok n s" "on_cpu s pc" by (simp_all add: sinv_def)
  have c: "cproc s = proc_of pc \<and> (\<forall>j < length (ptable s). p_state (ptable s ! j) = RUNNING \<longleftrightarrow> proc_of pc = Some j)"
    using q(3) by (cases pc) (auto simp: on_cpu_def proc_of_def only_running_def none_running_nth)
  have u: "\<forall>p \<in> set (ptable s). unat (p_queue p) < 5" using q(2) by (simp add: tables_ok_def local_ok_def)
  have t: "okp (\<lambda>_ _. True) (timer_tick s)" using timer_tick_ok [OF inv] by (rule okp_mono) simp
  have top: "okp (\<lambda>_ _. True) (sched_top pol s)" if "pc = Top"
    using sched_top_ok [of n s pol] inv that by (auto elim: okp_mono)
  have bk: "okp (\<lambda>_ _. True) (sched_back pc u)" if "pc \<noteq> Top" "gives_up s u" for u
    using sched_back_ok [OF gives_up_ok [OF that(2) inv that(1)]] by (rule okp_mono) simp
  show ?thesis using c q(1) u t top bk by blast
qed

theorem scheduler_safe_witness:
  "cproc ex_sst = None \<and> quiet ex_sst \<and> okp (\<lambda>_ _. True) (timer_tick ex_sst) \<and>
    okp (\<lambda>_ _. True) (sched_top MLFQ ex_sst)"
  using scheduler_safe [OF ex_sst_sys, of MLFQ] by (simp add: proc_of_def)

section \<open>What each policy runs\<close>

definition min_key :: "(sproc \<Rightarrow> u32) \<Rightarrow> sproc list \<Rightarrow> nat \<Rightarrow> bool" where
  "min_key key ps i \<longleftrightarrow> i < length ps \<and> p_state (ps ! i) = RUNNABLE \<and>
     (\<forall>j < length ps. p_state (ps ! j) = RUNNABLE \<longrightarrow> sint (key (ps ! i)) \<le> sint (key (ps ! j)))"

lemma best_min_key: "best_of key ps i \<Longrightarrow> min_key key ps i"
  by (auto simp: best_of_def min_key_def)

lemma seqk_ret_pc:
  assumes "seqk m (ret pc) s = Ok (pc', t)" shows "pc' = pc"
  using assms by (auto elim!: bindk_OkE simp: seqk_app ret_app)

lemma end_round_pc: "end_round s = Ok (pc, t) \<Longrightarrow> pc = Top"
  unfolding end_round_def by (rule seqk_ret_pc)

text \<open>first come, first served.  A round runs no process only if none is runnable; otherwise it
  switches to the runnable process with the earliest creation time, the first in the table among
  equals, and that process is not preempted by the clock.
\<close>

theorem fcfs_runs_earliest:
  assumes "sys FCFS n s Top" "sched_top FCFS s = Ok (pc, t)"
  shows "(pc = Top \<and> (\<forall>p \<in> set (ptable s). p_state p \<noteq> RUNNABLE)) \<or>
    (\<exists>i. pc = FCFSrun i \<and> best_of p_ctime (ptable s) i \<and> p_state (ptable t ! i) = RUNNING)"
proof -
  have inv: "sinv n s Top" using assms(1) by (rule sys_inv)
  then have q: "quiet s" by (simp add: sinv_def)
  have top: "fcfs_top (lock_in PTABLE s) = Ok (pc, t)"
    using assms(2) acquirep_hold [OF q, of PTABLE] by (simp add: sched_top_def kern_simps)
  have m: "mid n pc t" using okp_D [OF sched_top_ok [OF inv] assms(2)] .
  show ?thesis
  proof (cases "fcfs_pick (ptable s)")
    case None
    then have "end_round (lock_in PTABLE s) = Ok (pc, t)" using top by (simp add: fcfs_top_def)
    then show ?thesis using None fcfs.pick_none [of "ptable s"] end_round_pc by blast
  next
    case (Some i)
    then have pc: "pc = FCFSrun i" using top seqk_ret_pc by (fastforce simp: fcfs_top_def)
    then show ?thesis
      using fcfs.pick_best [OF Some] m by (auto simp: mid_def on_cpu_def only_running_def)
  qed
qed

theorem fcfs_runs_earliest_witness:
  "\<exists>pc t. sched_top FCFS ex_sst = Ok (pc, t) \<and>
    ((pc = Top \<and> (\<forall>p \<in> set (ptable ex_sst). p_state p \<noteq> RUNNABLE)) \<or>
    (\<exists>i. pc = FCFSrun i \<and> best_of p_ctime (ptable ex_sst) i \<and> p_state (ptable t ! i) = RUNNING))"
proof -
  obtain pc t where r: "sched_top FCFS ex_sst = Ok (pc, t)"
    using sched_top_ok [OF sys_inv [OF ex_sst_sys], of FCFS] by (auto elim: okpE)
  then show ?thesis using fcfs_runs_earliest [OF ex_sst_sys r] by blast
qed

lemma undispatch_table:
  "undispatch i s = Ok ((), t) \<Longrightarrow>
   ptable t = (ptable s)[i := (ptable s ! i)\<lparr>p_lastWorkingticks := ticks s\<rparr>]"
  by (auto simp: undispatch_def sched_switchkvm_def kern_simps)

lemma map_update_same: "f x = f (xs ! i) \<Longrightarrow> map f (xs[i := x]) = map f xs"
  by (metis list_update_beyond list_update_id map_update not_less)

lemma pbs_from_pc:
  assumes "pbs_from k m s = Ok (pc, t)"
  shows "pc = Top \<or> (\<exists>i. pc = PBSrun i m \<and> i < length (ptable s) \<and> p_state (ptable s ! i) = RUNNABLE \<and>
    p_priority (ptable s ! i) = p_priority (ptable s ! m))"
  using assms
  by (auto simp: pbs_from_def next_from_Some runnable_def split: option.splits
      dest: end_round_pc seqk_ret_pc)

lemma min_key_same:
  assumes "length ps' = length ps" "map p_state ps' = map p_state ps" "map p_priority ps' = map p_priority ps"
  shows "min_key p_priority ps' i = min_key p_priority ps i"
proof -
  have "p_state (ps' ! j) = p_state (ps ! j) \<and> p_priority (ps' ! j) = p_priority (ps ! j)" if "j < length ps" for j
    using assms that by (metis nth_map)
  then show ?thesis using assms(1) unfolding min_key_def by auto
qed

lemma pbs_top_best:
  assumes "sinv n s Top"
  shows "okp (\<lambda>pc' t. pc' = Top \<or> (\<exists>i m. pc' = PBSrun i m \<and> min_key p_priority (ptable s) i)) (sched_top PBS s)"
proof -
  have q: "quiet s" using assms by (simp add: sinv_def)
  obtain pc' t where r: "sched_top PBS s = Ok (pc', t)"
    using sched_top_ok [of n s PBS] assms by (auto elim: okpE)
  have top: "pbs_top (lock_in PTABLE s) = Ok (pc', t)"
    using r acquirep_hold [OF q, of PTABLE] by (simp add: sched_top_def kern_simps)
  have "pc' = Top \<or> (\<exists>i m. pc' = PBSrun i m \<and> min_key p_priority (ptable s) i)"
  proof (cases "pbs_min (ptable s)")
    case None
    then show ?thesis using top by (auto simp: pbs_top_def dest: end_round_pc)
  next
    case (Some m)
    then have "min_key p_priority (ptable s) m" using pbs.pick_best best_min_key by blast
    moreover have "pbs_from 0 m (lock_in PTABLE s) = Ok (pc', t)" using top Some by (simp add: pbs_top_def)
    ultimately show ?thesis
      using pbs_from_pc [of 0 m "lock_in PTABLE s" pc' t] by (auto simp: min_key_def)
  qed
  then show ?thesis by (simp add: r)
qed

lemma pbs_back_best:
  assumes inv: "sinv n s (PBSrun i m)" and g: "gives_up s t"
  shows "okp (\<lambda>pc' u. pc' = Top \<or> (\<exists>j. pc' = PBSrun j m \<and> min_key p_priority (ptable t) j)) (sched_back (PBSrun i m) t)"
proof -
  have gu: "given_up n (PBSrun i m) t" using g inv by (intro gives_up_ok) simp_all
  obtain u where u: "undispatch i t = Ok ((), u)" "idle n u"
    using undispatch_ok [OF gu, of i] by (auto simp: proc_of_def elim: okpE)
  have ut: "map p_state (ptable u) = map p_state (ptable t)" "map p_priority (ptable u) = map p_priority (ptable t)"
    using undispatch_table [OF u(1)] by (simp_all add: map_update_same)
  have same: "min_key p_priority (ptable u) j = min_key p_priority (ptable t) j" for j
    using ut by (intro min_key_same) (metis length_map, simp_all)
  obtain pc' v where r: "sched_back (PBSrun i m) t = Ok (pc', v)"
    using sched_back_ok [OF gu] by (auto elim: okpE)
  then have b: "(if pbs_better m (ptable u) then end_round u else pbs_from (Suc i) m u) = Ok (pc', v)"
    using u(1) by (simp add: sched_back_def pbs_back_def kern_simps)
  have "pc' = Top \<or> (\<exists>j. pc' = PBSrun j m \<and> min_key p_priority (ptable u) j)"
  proof (cases "pbs_better m (ptable u)")
    case True
    then show ?thesis using b by (auto dest: end_round_pc)
  next
    case False
    then have "\<forall>q \<in> set (ptable u). p_state q = RUNNABLE \<longrightarrow> sint (p_priority (ptable u ! m)) \<le> sint (p_priority q)"
      by (auto simp: pbs_better_def word_sless_alt not_less)
    then have "\<forall>j < length (ptable u). p_state (ptable u ! j) = RUNNABLE \<longrightarrow>
        sint (p_priority (ptable u ! m)) \<le> sint (p_priority (ptable u ! j))" by simp
    then show ?thesis using b False pbs_from_pc [of "Suc i" m u pc' v] by (auto simp: min_key_def)
  qed
  then show ?thesis using r same by simp
qed

text \<open>
  C20: priority scheduling.  Every process the scheduler switches to, at the start of a round or later in
  the round robin among equals, has the best (least) priority of all processes runnable at that moment.
\<close>

theorem pbs_runs_best_priority:
  assumes "sys PBS n s pc"
  shows "(pc = Top \<longrightarrow> okp (\<lambda>pc' t. pc' = Top \<or> (\<exists>i m. pc' = PBSrun i m \<and> min_key p_priority (ptable s) i))
      (sched_top PBS s)) \<and>
    (\<forall>i m t. pc = PBSrun i m \<longrightarrow> gives_up s t \<longrightarrow>
      okp (\<lambda>pc' u. pc' = Top \<or> (\<exists>j. pc' = PBSrun j m \<and> min_key p_priority (ptable t) j)) (sched_back pc t))"
  using pbs_top_best pbs_back_best sys_inv [OF assms] by blast

theorem pbs_runs_best_priority_witness:
  "okp (\<lambda>pc' t. pc' = Top \<or> (\<exists>i m. pc' = PBSrun i m \<and> min_key p_priority (ptable ex_sst) i))
      (sched_top PBS ex_sst)"
  using pbs_runs_best_priority [OF ex_sst_sys] by blast

lemma mlfq_choice:
  assumes "sys MLFQ n s Top" "sched_top MLFQ s = Ok (pc, t)"
  shows "\<exists>ps. age_all (ticks s) (ptable s) = Ok ps \<and>
    ((pc = Top \<and> (\<forall>p \<in> set ps. p_state p \<noteq> RUNNABLE)) \<or>
     (\<exists>q i. pc = MLFQrun q i \<and> i < length ps \<and> p_state (ps ! i) = RUNNABLE \<and> unat (p_queue (ps ! i)) = q \<and>
       (\<forall>j < length ps. p_state (ps ! j) = RUNNABLE \<longrightarrow> q \<le> unat (p_queue (ps ! j)) \<and>
          (unat (p_queue (ps ! j)) = q \<longrightarrow>
             (if q = 4 then sint (p_lastWorkingticks (ps ! i)) \<le> sint (p_lastWorkingticks (ps ! j))
              else sint (p_ctime (ps ! i)) \<le> sint (p_ctime (ps ! j)))))))"
proof -
  have inv: "sinv n s Top" using assms(1) by (rule sys_inv)
  then have q: "quiet s" "tables_ok n s" "none_running s" by (simp_all add: sinv_def on_cpu_def)
  have top: "mlfq_top (lock_in PTABLE s) = Ok (pc, t)"
    using assms(2) acquirep_hold [OF q(1), of PTABLE] by (simp add: sched_top_def kern_simps)
  obtain ps where ps: "age_all (ticks s) (ptable s) = Ok ps" "\<forall>p \<in> set ps. local_ok n p"
    using age_all_ok [of "ptable s" n "ticks s"] q(2,3) by (auto simp: tables_ok_def none_running_def)
  have b5: "\<forall>i \<in> set [0 ..< length ps]. unat (p_queue (ps ! i)) < 5" using ps(2) by (simp add: local_ok_def)
  obtain qs where qs: "collect ps [0 ..< length ps] (replicate 5 None) = Ok qs"
    "queue_ok ps {0 ..< length ps} qs" using collect_ok [OF queue_ok_empty b5] by auto
  show ?thesis
  proof (cases "find_index (\<lambda>q. q \<noteq> None) qs")
    case None
    then have "end_round ((lock_in PTABLE s)\<lparr>ptable := ps\<rparr>) = Ok (pc, t)"
      using top by (simp add: mlfq_top_def ps(1) qs(1))
    then have "pc = Top" by (rule end_round_pc)
    moreover have "p_state (ps ! i) \<noteq> RUNNABLE" if i: "i < length ps" for i
    proof -
      let ?q = "unat (p_queue (ps ! i))"
      have "?q < 5" using b5 i by simp
      moreover from this have "qs ! ?q = None" using None qs(2) by (auto simp: find_index_from_None queue_ok_def)
      ultimately show ?thesis using queue_ok_None [OF qs(2)] i by auto
    qed
    ultimately show ?thesis using ps(1) by (auto simp: all_set_conv_all_nth)
  next
    case (Some q)
    then have k: "q < 5" "qs ! q \<noteq> None" "\<And>j. j < q \<Longrightarrow> qs ! j = None"
      using qs(2) by (auto simp: find_index_Some queue_ok_def)
    then obtain i where i: "qs ! q = Some i" by auto
    have iq: "i < length ps" "p_state (ps ! i) = RUNNABLE" "unat (p_queue (ps ! i)) = q"
      and best: "\<And>j. j < length ps \<Longrightarrow> p_state (ps ! j) = RUNNABLE \<Longrightarrow> unat (p_queue (ps ! j)) = q \<Longrightarrow>
        (if q = 4 then sint (p_lastWorkingticks (ps ! i)) \<le> sint (p_lastWorkingticks (ps ! j))
              else sint (p_ctime (ps ! i)) \<le> sint (p_ctime (ps ! j)))"
      using qs(2) k(1) i by (auto simp: queue_ok_def)
    have ge: "q \<le> unat (p_queue (ps ! j))" if j: "j < length ps" "p_state (ps ! j) = RUNNABLE" for j
    proof (rule ccontr)
      assume "\<not> q \<le> unat (p_queue (ps ! j))"
      then have "unat (p_queue (ps ! j)) < 5" "qs ! unat (p_queue (ps ! j)) = None" using k by auto
      then show False using queue_ok_None [OF qs(2)] j by auto
    qed
    have "pc = MLFQrun q i"
      using top iq Some qs(1) i seqk_ret_pc by (fastforce simp: mlfq_top_def ps(1) Let_def)
    then show ?thesis using ps(1) iq best ge by blast
  qed
qed

text \<open>
  C21: feedback queues, the choice.  After ageing, the scheduler switches to a process of the first
  non-empty queue; in queues 0 to 3 it is one created earliest, in queue 4 one that has waited
  longest; it stays idle only if nothing is runnable.
\<close>

theorem mlfq_runs_first_queue:
  assumes "sys MLFQ n s Top" "sched_top MLFQ s = Ok (pc, t)"
  shows "\<exists>ps. age_all (ticks s) (ptable s) = Ok ps \<and>
    ((pc = Top \<and> (\<forall>p \<in> set ps. p_state p \<noteq> RUNNABLE)) \<or>
     (\<exists>q i. pc = MLFQrun q i \<and> i < length ps \<and> p_state (ps ! i) = RUNNABLE \<and> unat (p_queue (ps ! i)) = q \<and>
       (\<forall>j < length ps. p_state (ps ! j) = RUNNABLE \<longrightarrow> q \<le> unat (p_queue (ps ! j)) \<and>
          (unat (p_queue (ps ! j)) = q \<longrightarrow>
             (if q = 4 then sint (p_lastWorkingticks (ps ! i)) \<le> sint (p_lastWorkingticks (ps ! j))
              else sint (p_ctime (ps ! i)) \<le> sint (p_ctime (ps ! j)))))))"
  using assms by (rule mlfq_choice)

theorem mlfq_runs_first_queue_witness:
  "\<exists>pc t ps. sched_top MLFQ ex_sst = Ok (pc, t) \<and> age_all (ticks ex_sst) (ptable ex_sst) = Ok ps \<and>
    ((pc = Top \<and> (\<forall>p \<in> set ps. p_state p \<noteq> RUNNABLE)) \<or>
     (\<exists>q i. pc = MLFQrun q i \<and> i < length ps \<and> p_state (ps ! i) = RUNNABLE \<and> unat (p_queue (ps ! i)) = q))"
proof -
  obtain pc t where r: "sched_top MLFQ ex_sst = Ok (pc, t)"
    using sched_top_ok [OF sys_inv [OF ex_sst_sys], of MLFQ] by (auto elim: okpE)
  then show ?thesis using mlfq_runs_first_queue [OF ex_sst_sys r] by blast
qed

lemma mlfq_back_eq:
  "mlfq_back q i t =
    (if max_tick_of_q ! q \<le>s p_curr_q_ticks (ptable t ! i)
       then mlfq_finish q i (t\<lparr>km := (km t)\<lparr>scr3 := V2P (skpgdir (km t))\<rparr>, cproc := None\<rparr>)
     else if p_state (ptable t ! i) = RUNNABLE
       then seqk (mlfq_dispatch i) (ret (MLFQrun q i)) (t\<lparr>km := (km t)\<lparr>scr3 := V2P (skpgdir (km t))\<rparr>, cproc := None\<rparr>)
     else mlfq_finish q i (t\<lparr>km := (km t)\<lparr>scr3 := V2P (skpgdir (km t))\<rparr>, cproc := None\<rparr>))"
  by (simp add: mlfq_back_def sched_switchkvm_def kern_simps)

text \<open>
  C22: feedback queues, the feedback.  A process that comes back with its slice of \<open>2 ^ q\<close> ticks used up
  moves one queue down (and stays in queue 4); one that is still runnable with part of its slice left
  is run again at once; one that blocked or exited before keeps its queue.
\<close>

theorem mlfq_feedback:
  assumes "sys MLFQ n s (MLFQrun q i)" "gives_up s t" "sched_back (MLFQrun q i) t = Ok (pc, u)"
  shows "if max_tick_of_q ! q \<le>s p_curr_q_ticks (ptable t ! i)
    then pc = Top \<and> unat (p_queue (ptable u ! i)) = min 4 (q + 1)
    else if p_state (ptable t ! i) = RUNNABLE then pc = MLFQrun q i \<and> p_state (ptable u ! i) = RUNNING
    else pc = Top \<and> unat (p_queue (ptable u ! i)) = q"
proof -
  have inv: "sinv n s (MLFQrun q i)" using assms(1) by (rule sys_inv)
  have gu: "given_up n (MLFQrun q i) t" using gives_up_ok [OF assms(2) inv] by simp
  have m: "mid n pc u" using okp_D [OF sched_back_ok [OF gu] assms(3)] .
  have g: "critical t" "i < length (ptable t)" "q < 5" "unat (p_queue (ptable t ! i)) = q"
    using gu by (auto simp: given_up_def proc_of_def tables_ok_def)
  let ?v = "t\<lparr>km := (km t)\<lparr>scr3 := V2P (skpgdir (km t))\<rparr>, cproc := None\<rparr>"
  have b: "(if max_tick_of_q ! q \<le>s p_curr_q_ticks (ptable t ! i) then mlfq_finish q i ?v
      else if p_state (ptable t ! i) = RUNNABLE then seqk (mlfq_dispatch i) (ret (MLFQrun q i)) ?v
      else mlfq_finish q i ?v) = Ok (pc, u)"
    using assms(3) unfolding sched_back_def spc.case mlfq_back_eq .
  have up: "unat (p_queue (ptable t ! i) + 1) = q + 1" if "q \<noteq> 4"
    using g(3,4) that by (simp add: unat_word_ariths)
  have fin: "pc = Top \<and> unat (p_queue (ptable u ! i)) =
      (if max_tick_of_q ! q \<le>s p_curr_q_ticks (ptable t ! i) \<and> q \<noteq> 4 then q + 1 else q)"
    if f: "mlfq_finish q i ?v = Ok (pc, u)"
  proof -
    let ?w = "upd_proc i (\<lambda>p. p\<lparr>p_lastWorkingticks := ticks t\<rparr>)
      (if max_tick_of_q ! q \<le>s p_curr_q_ticks (ptable t ! i) \<and> q \<noteq> 4
       then upd_proc i (\<lambda>p. p\<lparr>p_queue := p_queue p + 1\<rparr>) ?v else ?v)"
    have "holdset ?w {PTABLE}" using g(1) by simp
    then have "releasep PTABLE ?w = Ok ((), lock_out PTABLE ?w)" by (rule releasep_hold) simp
    then have "pc = Top" "u = lock_out PTABLE ?w"
      using f by (simp_all add: mlfq_finish_def end_round_def Let_def kern_simps split: if_splits)
    then show ?thesis using g up by simp
  qed
  show ?thesis
  proof (cases "max_tick_of_q ! q \<le>s p_curr_q_ticks (ptable t ! i)")
    case True
    then show ?thesis using b fin g(3) by simp
  next
    case no: False
    show ?thesis
    proof (cases "p_state (ptable t ! i) = RUNNABLE")
      case True
      then have "pc = MLFQrun q i" using b no seqk_ret_pc by fastforce
      then show ?thesis using no True m g(2) by (auto simp: mid_def on_cpu_def only_running_def)
    next
      case False
      then show ?thesis using b no fin by simp
    qed
  qed
qed

text \<open>The machine can always go on: the process switched to continues, and can yield.\<close>

lemma mid_resumes: "mid n pc s \<Longrightarrow> pc \<noteq> Top \<Longrightarrow> \<exists>t. resumes s t"
  using releasep_hold [of s "{PTABLE}" PTABLE] by (auto simp: mid_def intro: resumes.forkrets)

lemma sinv_yield_enter:
  assumes "sinv n s pc" "pc \<noteq> Top" shows "\<exists>b t. yield_enter s = Ok (b, t)"
proof -
  have q: "quiet s" "on_cpu s pc" using assms(1) by (simp_all add: sinv_def)
  obtain i where i: "proc_of pc = Some i" "only_running i s" using on_cpu_proc [OF q(2) assms(2)] by blast
  have c: "cproc s = Some i" "p_state (ptable s ! i) = RUNNING" using i(2) by (auto simp: only_running_def)
  have "critical (lock_in PTABLE s)" using holdset_in [OF q(1), of PTABLE] by simp
  then have "okp (\<lambda>_ t. given_up n pc t)
      (seqk (modk (upd_proc i (\<lambda>p. p\<lparr>p_state := RUNNABLE\<rparr>))) sched_enter (lock_in PTABLE s))"
    using c(2) by (intro stop_ok [OF assms i(1)]) (simp_all add: local_ok_def)
  then obtain b t where "seqk (modk (upd_proc i (\<lambda>p. p\<lparr>p_state := RUNNABLE\<rparr>))) sched_enter (lock_in PTABLE s) = Ok (b, t)"
    by (auto elim: okpE)
  then have "yield_enter s = Ok (b, t)"
    using acquirep_hold [OF q(1), of PTABLE] c(1) by (simp add: yield_enter_def kern_simps myproc_def)
  then show ?thesis by blast
qed

lemma sinv_yields: "sinv n s pc \<Longrightarrow> pc \<noteq> Top \<Longrightarrow> \<exists>t. gives_up s t"
  using sinv_yield_enter gives_up.yields by blast

lemma ex_runs: "\<exists>s q i. sys MLFQ 0 s (MLFQrun q i)"
proof -
  obtain pc t where r: "sched_top MLFQ ex_sst = Ok (pc, t)" and m: "mid 0 pc t"
    using sched_top_ok [OF sys_inv [OF ex_sst_sys], of MLFQ] by (auto elim: okpE)
  obtain ps where ps: "age_all (ticks ex_sst) (ptable ex_sst) = Ok ps"
    "(pc = Top \<and> (\<forall>p \<in> set ps. p_state p \<noteq> RUNNABLE)) \<or> (\<exists>q i. pc = MLFQrun q i)"
    using mlfq_choice [OF ex_sst_sys r] by blast
  have "\<forall>p \<in> set (ptable ex_sst). local_ok 0 p \<and> p_state p \<noteq> RUNNING"
    using ex_sst_boot by (auto simp: boot_state_def)
  then have "map p_state ps = map p_state (ptable ex_sst)"
    using age_all_ok [of "ptable ex_sst" 0 "ticks ex_sst"] ps(1) by auto
  moreover have "RUNNABLE \<in> set (map p_state (ptable ex_sst))" by (simp add: ex_sst_def ex_proc_def)
  ultimately have "RUNNABLE \<in> set (map p_state ps)" by simp
  then obtain q i where pc: "pc = MLFQrun q i" using ps(2) by fastforce
  moreover obtain u where "resumes t u" using mid_resumes [OF m] pc by blast
  ultimately show ?thesis using sys.starts [OF ex_sst_sys r] by blast
qed

theorem mlfq_feedback_witness:
  "\<exists>s t q i pc u. sys MLFQ 0 s (MLFQrun q i) \<and> gives_up s t \<and>
    sched_back (MLFQrun q i) t = Ok (pc, u) \<and>
    (if max_tick_of_q ! q \<le>s p_curr_q_ticks (ptable t ! i)
     then pc = Top \<and> unat (p_queue (ptable u ! i)) = min 4 (q + 1)
     else if p_state (ptable t ! i) = RUNNABLE then pc = MLFQrun q i \<and> p_state (ptable u ! i) = RUNNING
     else pc = Top \<and> unat (p_queue (ptable u ! i)) = q)"
proof -
  obtain s q i where s: "sys MLFQ 0 s (MLFQrun q i)" using ex_runs by blast
  obtain t where t: "gives_up s t" using sinv_yields [OF sys_inv [OF s]] by auto
  obtain pc u where u: "sched_back (MLFQrun q i) t = Ok (pc, u)"
    using sched_back_ok [OF gives_up_ok [OF t sys_inv [OF s]]] by (auto elim: okpE)
  show ?thesis using mlfq_feedback [OF s t u] s t u by blast
qed

section \<open>Times\<close>

text \<open>
  C25: the times \<open>waitx\<close> reports.  Along any run on one CPU let the ticks of every process be counted from its creation to its exit: those at which it was running,
  asleep, or waiting for the CPU.  As long as there were fewer than \<open>2 ^ 32\<close> ticks, the fields of an exited child hold exactly the numbers of running and sleeping
  ticks, the waiting time that \<open>waitx\<close> computes is exactly the number of waiting ticks, and the three add up to its life time from creation to exit.  When
  \<open>waitx\<close> reaps the child it returns the waiting and the running time, and the slot is free again.
\<close>

theorem waitx_times_add_up:
  assumes "hist pol n s pc g" "n < 2 ^ 32" "k < length (ptable s)" "p_state (ptable s ! k) = ZOMBIE"
  defines "p \<equiv> ptable s ! k"
  shows "unat (p_rtime p) = t_run (g k) \<and> unat (p_iotime p) = t_sleep (g k) \<and> unat (wtime_of p) = t_wait (g k) \<and>
    unat (p_etime p) = unat (p_ctime p) + t_run (g k) + t_sleep (g k) + t_wait (g k) \<and>
    (\<forall>i pid wtime rtime t. scan_kids i 0 (ptable s) False = Zombie k \<and>
       waitx_scan i (lock_in PTABLE s) = Ok (Some (pid, Some (wtime, rtime)), t) \<longrightarrow>
       pid = p_pid p \<and> unat wtime = t_wait (g k) \<and> unat rtime = t_run (g k) \<and>
       p_state (ptable t ! k) = UNUSED \<and> p_pid (ptable t ! k) = 0)"
proof -
  have inv: "sinv n s pc" using sys_inv [OF hist_sys [OF assms(1)]] .
  have "local_ok n p" using inv assms(3) by (simp add: sinv_def tables_ok_def p_def)
  then have sum: "unat (p_ctime p) + unat (p_rtime p) + unat (p_iotime p) \<le> unat (p_etime p)"
    using assms(2,4) by (simp add: local_ok_def p_def)
  have add: "unat (p_ctime p + p_rtime p + p_iotime p) = unat (p_ctime p) + unat (p_rtime p) + unat (p_iotime p)"
    using sum unat32_less [of "p_etime p"] by (simp add: unat_word_ariths)
  have w: "unat (p_ctime p) + unat (p_rtime p) + unat (p_iotime p) + unat (wtime_of p) = unat (p_etime p)"
    unfolding wtime_of_def using sum add by (simp add: unat_sub word_le_nat_alt)
  have acc: "p_rtime p = of_nat (t_run (g k))" "p_iotime p = of_nat (t_sleep (g k))" "t_run (g k) + t_sleep (g k) + t_wait (g k) \<le> n"
    "p_etime p = p_ctime p + of_nat (t_run (g k) + t_sleep (g k) + t_wait (g k))"
    using hist_accounts [OF assms(1,3)] assms(4) by (simp_all add: accounts_def p_def)
  have small: "unat (of_nat m :: u32) = m" if "m \<le> n" for m using that assms(2) by (simp add: unat_of_nat take_bit_nat_eq_self)
  have "wtime_of p = of_nat (t_wait (g k))" unfolding wtime_of_def acc(4) acc(1,2) by (simp add: algebra_simps)
  then have t: "unat (wtime_of p) = t_wait (g k)" "unat (p_rtime p) = t_run (g k)" "unat (p_iotime p) = t_sleep (g k)"
    using acc(1-3) small by simp_all
  have "pid = p_pid p \<and> wtime = wtime_of p \<and> rtime = p_rtime p \<and> p_state (ptable u ! k) = UNUSED \<and> p_pid (ptable u ! k) = 0"
    if "scan_kids i 0 (ptable s) False = Zombie k" "waitx_scan i (lock_in PTABLE s) = Ok (Some (pid, Some (wtime, rtime)), u)" for i pid wtime rtime u
    using that assms(3)
    by (auto simp: waitx_scan_def Let_def seqk_app ret_app modk_app reaped_def releasep_def zoomk_def p_def
        elim!: bindk_OkE zoom_km_OkE split: outcome.splits)
  then show ?thesis using w t by auto
qed

lemma exit_zombie_state:
  assumes "exit_zombie i s = Ok (b, t)" "i < length (ptable t)" shows "p_state (ptable t ! i) = ZOMBIE"
  using assms by (auto simp: exit_zombie_def seqk_app sched_enter_def modk_app myproc_def
      elim!: bindk_OkE split: if_splits option.splits)

text \<open>A process that runs for one tick and exits.\<close>

lemma ex_zombie: "\<exists>s k g. hist FCFS 1 s Top g \<and> k < length (ptable s) \<and> p_state (ptable s ! k) = ZOMBIE \<and> t_run (g k) = 1"
proof -
  obtain pc t where r: "sched_top FCFS ex_sst = Ok (pc, t)" and m: "mid 0 pc t"
    using sched_top_ok [OF sys_inv [OF ex_sst_sys], of FCFS] by (auto elim: okpE)
  have qu: "quiet ex_sst" using ex_sst_boot by (simp add: boot_state_def)
  have "fcfs_pick (ptable ex_sst) \<noteq> None"
    unfolding fcfs.pick_none by (simp add: ex_sst_def ex_proc_def)
  then obtain i where i: "fcfs_pick (ptable ex_sst) = Some i" by auto
  have pc: "pc = FCFSrun i"
    using r acquirep_hold [OF qu, of PTABLE] i seqk_ret_pc
    by (fastforce simp: sched_top_def fcfs_top_def kern_simps)
  obtain u0 where u0: "resumes t u0" using mid_resumes [OF m] pc by blast
  have h0: "hist FCFS 0 ex_sst Top (\<lambda>_. nothing)" by (rule hist_boot) (rule ex_sst_boot)
  have h1: "hist FCFS 0 u0 (FCFSrun i) (if_used ex_sst (\<lambda>_. nothing))"
    using hist_step [OF h0 start_step [OF r _ u0]] pc by simp
  note inv0 = sys_inv [OF hist_sys [OF h1]]
  obtain u where u: "timer_tick u0 = Ok ((), u)" using timer_tick_ok [OF inv0] by (auto elim: okpE)
  let ?g = "\<lambda>k. spend (p_state (ptable u0 ! k)) (if_used ex_sst (\<lambda>_. nothing) k)"
  have h2: "hist FCFS 1 u (FCFSrun i) ?g" using hist_tick [OF h1 u] by simp
  note inv = sys_inv [OF hist_sys [OF h2]]
  have "p_state (ptable u0 ! i) = RUNNING" using inv0 by (auto simp: sinv_def on_cpu_def only_running_def)
  then have g: "t_run (?g i) = 1" by (simp add: spend_def if_used_def nothing_def)
  have ri: "only_running i u" using inv by (simp add: sinv_def on_cpu_def)
  obtain b v where v: "exit_zombie i u = Ok (b, v)"
    using exit_zombie_ok [OF inv, of i] by (auto simp: proc_of_def elim: okpE)
  have "cproc u = Some i" using ri by (simp add: only_running_def)
  then have gu: "gives_up u v" using v by (rule gives_up.exits)
  have gv: "given_up 1 (FCFSrun i) v" using gives_up_ok [OF gu inv] by simp
  then have len: "i < length (ptable v)" by (auto simp: given_up_def proc_of_def tables_ok_def)
  obtain w where w: "undispatch i v = Ok ((), w)" "idle 1 w"
    using undispatch_ok [OF gv, of i] by (auto simp: proc_of_def elim: okpE)
  have "releasep PTABLE w = Ok ((), lock_out PTABLE w)"
    using w(2) by (intro releasep_hold [of _ "{PTABLE}"]) (simp_all add: idle_def)
  then have "sched_back (FCFSrun i) v = Ok (Top, lock_out PTABLE w)"
    using w(1) by (simp add: sched_back_def end_round_def kern_simps)
  then have "hist FCFS 1 (lock_out PTABLE w) Top (if_used u ?g)" using hist_step [OF h2 stop_step [OF _ gu]] by simp
  moreover have "p_state (ptable w ! i) = ZOMBIE" "i < length (ptable w)"
    using exit_zombie_state [OF v len] undispatch_table [OF w(1)] len by simp_all
  moreover have "t_run (if_used u ?g i) = 1" using ri g by (auto simp: if_used_def only_running_def)
  ultimately show ?thesis by (intro exI [of _ "lock_out PTABLE w"] exI [of _ i] exI [of _ "if_used u ?g"]) simp
qed

theorem waitx_times_add_up_witness:
  "\<exists>s k g. hist FCFS 1 s Top g \<and> p_state (ptable s ! k) = ZOMBIE \<and> unat (p_rtime (ptable s ! k)) = 1 \<and>
    unat (wtime_of (ptable s ! k)) = t_wait (g k)"
proof -
  obtain s k g where z: "hist FCFS 1 s Top g" "k < length (ptable s)" "p_state (ptable s ! k) = ZOMBIE" "t_run (g k) = 1"
    using ex_zombie by blast
  then show ?thesis using waitx_times_add_up [of FCFS 1 s Top g k] by (intro exI [of _ s] exI [of _ k] exI [of _ g]) simp
qed

section \<open>Killing by pid\<close>

text \<open>
  \<open>kill\<close> does not look at the state of a slot.  Free slots have pid 0, so \<open>kill 0\<close> succeeds and marks the
  first free slot; \<open>allocproc\<close> does not clear the mark, so the next process created in that slot is
  born killed, although nobody killed it.
\<close>

theorem kill_zero_marks_next_process:
  assumes "quiet s" "find_index (\<lambda>p. p_pid p = 0) (ptable s) = Some i"
    and "find_index (\<lambda>p. p_state p = UNUSED) (ptable s) = Some i"
    and "kill 0 s = Ok (r, t)" "allocproc t = Ok (Some j, u)"
  shows "r = 0 \<and> j = i \<and> p_state (ptable u ! j) = EMBRYO \<and> p_killed (ptable u ! j)"
proof -
  have t: "r = 0" "t = lock_out PTABLE (upd_proc i kill1 (lock_in PTABLE s))"
    using assms(2,4) by (simp_all add: kill_eq [OF assms(1)])
  have i: "i < length (ptable s)" "p_state (ptable s ! i) = UNUSED" "\<forall>j < i. p_state (ptable s ! j) \<noteq> UNUSED"
    using assms(3) by (auto simp: find_index_Some)
  then have f: "find_index (\<lambda>p. p_state p = UNUSED) (ptable t) = Some i"
    by (auto simp: t find_index_Some kill1_def nth_upd)
  have ki: "p_killed (ptable t ! i)" "i < length (ptable t)" using i by (simp_all add: t kill1_def)
  have q: "quiet t" using lock_in_out_quiet(1) [OF assms(1)] by (simp add: t)
  have c: "critical (lock_in PTABLE t)" using holdset_in [OF q, of PTABLE] by simp
  have a: "acquirep PTABLE t = Ok ((), lock_in PTABLE t)" using acquirep_hold [OF q] by simp
  show ?thesis
    using assms(5) a f ki t(1)
    by (auto simp: allocproc_def seqk_app bindk_Ok modk_app ret_app releasep_def zoomk_def kstack_frame_def
        Let_def embryo_def elim!: bindk_OkE zoom_km_OkE split: outcome.splits if_splits)
qed

lemma allocproc_Some:
  assumes "quiet s" "find_index (\<lambda>p. p_state p = UNUSED) (ptable s) = Some i"
    and "\<not> sklocked (km s)" "sfreelist (km s) \<noteq> 0"
  shows "\<exists>u. allocproc s = Ok (Some i, u)"
proof -
  have c: "critical (lock_in PTABLE s)" using holdset_in [OF assms(1), of PTABLE] by simp
  let ?s1 = "upd_proc i (embryo (nextpid s) (ticks s)) ((lock_in PTABLE s)\<lparr>nextpid := nextpid s + 1\<rparr>)"
  have r: "releasep PTABLE ?s1 = Ok ((), lock_out PTABLE ?s1)"
    using c by (intro releasep_hold [of _ "{PTABLE}"]) simp_all
  have m: "km (lock_out PTABLE ?s1) = km s" by (simp add: lock_out_def lock_in_def upd_proc_def)
  have "\<exists>k. sched_kalloc (km s) = Ok (sfreelist (km s), k)"
    using assms(3,4) by (simp add: sched_kalloc_def kern_defs sacquire_kmem_def srelease_kmem_def)
  then obtain k where "zoom_km sched_kalloc (lock_out PTABLE ?s1) = Ok (sfreelist (km s), (lock_out PTABLE ?s1)\<lparr>km := k\<rparr>)"
    using m by (auto simp: zoom_km_def kern_simps)
  then show ?thesis
    using acquirep_hold [OF assms(1), of PTABLE] assms(2,4) r by (simp add: allocproc_def kern_simps)
qed

definition ex_sst2 :: sst where
  "ex_sst2 = ex_sst\<lparr>km := (km ex_sst)\<lparr>sfreelist := 0x80400000\<rparr>\<rparr>"

theorem kill_zero_marks_next_process_witness:
  "\<exists>t u. kill 0 ex_sst2 = Ok (0, t) \<and> allocproc t = Ok (Some 2, u) \<and> p_killed (ptable u ! 2)"
proof -
  have q: "quiet ex_sst2" using ex_sst_boot by (simp add: boot_state_def ex_sst2_def)
  have f: "find_index (\<lambda>p. p_pid p = 0) (ptable ex_sst2) = Some 2"
    "find_index (\<lambda>p. p_state p = UNUSED) (ptable ex_sst2) = Some 2"
    by (simp_all add: ex_sst2_def ex_sst_def ex_proc_def ex_slot_def numeral_eq_Suc)
  let ?t = "lock_out PTABLE (upd_proc 2 kill1 (lock_in PTABLE ex_sst2))"
  have k: "kill 0 ex_sst2 = Ok (0, ?t)" using f(1) by (simp add: kill_eq [OF q])
  have qt: "quiet ?t" by (rule lock_in_out_quiet(1) [OF q])
  have ft: "find_index (\<lambda>p. p_state p = UNUSED) (ptable ?t) = Some 2"
    using f(2) by (auto simp: find_index_Some kill1_def nth_upd)
  have "km ?t = km ex_sst2" by (simp add: lock_out_def lock_in_def upd_proc_def)
  then have "\<not> sklocked (km ?t)" "sfreelist (km ?t) \<noteq> 0" by (simp_all add: ex_sst2_def ex_sst_def)
  then obtain u where u: "allocproc ?t = Ok (Some 2, u)" using allocproc_Some [OF qt ft] by blast
  show ?thesis using kill_zero_marks_next_process [OF q f k u] k u by blast
qed

section \<open>Round robin\<close>

text \<open>
  round robin goes through the table in order.  When process \<open>i\<close> gives up the CPU, the next process run
  in the same round is the first runnable one after it in the table; the round ends only if there is none.
\<close>

theorem rr_runs_next:
  assumes "sys RR n s (RRrun i)" "gives_up s t" "sched_back (RRrun i) t = Ok (pc, u)"
  shows "(pc = Top \<and> (\<forall>j. i < j \<and> j < length (ptable t) \<longrightarrow> p_state (ptable t ! j) \<noteq> RUNNABLE)) \<or>
    (\<exists>k. pc = RRrun k \<and> i < k \<and> p_state (ptable t ! k) = RUNNABLE \<and>
       (\<forall>j. i < j \<and> j < k \<longrightarrow> p_state (ptable t ! j) \<noteq> RUNNABLE))"
proof -
  have gu: "given_up n (RRrun i) t" using gives_up_ok [OF assms(2) sys_inv [OF assms(1)]] by simp
  obtain v where v: "undispatch i t = Ok ((), v)"
    using undispatch_ok [OF gu, of i] by (auto simp: proc_of_def elim: okpE)
  have st: "p_state (ptable v ! j) = p_state (ptable t ! j)" "length (ptable v) = length (ptable t)" for j
    using undispatch_table [OF v] by (simp_all add: nth_upd)
  have b: "rr_from (Suc i) v = Ok (pc, u)" using assms(3) v by (simp add: sched_back_def kern_simps)
  show ?thesis
  proof (cases "next_from runnable (Suc i) (ptable v)")
    case None
    then have "pc = Top" using b by (auto simp: rr_from_def dest: end_round_pc)
    then show ?thesis using None by (simp add: next_from_None runnable_def st Suc_le_eq)
  next
    case (Some k)
    then have "pc = RRrun k" using b seqk_ret_pc by (fastforce simp: rr_from_def)
    then show ?thesis using Some by (simp add: next_from_Some runnable_def st Suc_le_eq)
  qed
qed

lemma ex_rr_runs: "\<exists>s i. sys RR 0 s (RRrun i)"
proof -
  obtain pc t where r: "sched_top RR ex_sst = Ok (pc, t)" and m: "mid 0 pc t"
    using sched_top_ok [OF sys_inv [OF ex_sst_sys], of RR] by (auto elim: okpE)
  have qu: "quiet ex_sst" using ex_sst_boot by (simp add: boot_state_def)
  have "next_from runnable 0 (ptable ex_sst) = Some 0"
    by (simp add: next_from_def ex_sst_def ex_proc_def runnable_def)
  then have pc: "pc = RRrun 0"
    using r acquirep_hold [OF qu, of PTABLE] seqk_ret_pc by (fastforce simp: sched_top_def kern_simps rr_from_def)
  obtain u where "resumes t u" using mid_resumes [OF m] pc by blast
  then show ?thesis using sys.starts [OF ex_sst_sys r] pc by blast
qed

theorem rr_runs_next_witness:
  "\<exists>s t i pc u. sys RR 0 s (RRrun i) \<and> gives_up s t \<and> sched_back (RRrun i) t = Ok (pc, u) \<and>
    ((pc = Top \<and> (\<forall>j. i < j \<and> j < length (ptable t) \<longrightarrow> p_state (ptable t ! j) \<noteq> RUNNABLE)) \<or>
     (\<exists>k. pc = RRrun k \<and> i < k \<and> p_state (ptable t ! k) = RUNNABLE \<and>
       (\<forall>j. i < j \<and> j < k \<longrightarrow> p_state (ptable t ! j) \<noteq> RUNNABLE)))"
proof -
  obtain s i where s: "sys RR 0 s (RRrun i)" using ex_rr_runs by blast
  obtain t where t: "gives_up s t" using sinv_yields [OF sys_inv [OF s]] by auto
  obtain pc u where u: "sched_back (RRrun i) t = Ok (pc, u)"
    using sched_back_ok [OF gives_up_ok [OF t sys_inv [OF s]]] by (auto elim: okpE)
  show ?thesis using rr_runs_next [OF s t u] s t u by blast
qed

end
