(* ===== verification/Pipe.thy ===== *)
theory Pipe
  imports Proc
begin

text \<open>
  Pipes (\<open>pipe.c\<close>): a ring buffer of 512 bytes indexed by two free-running 32-bit counters.
  \<open>pipewrite\<close> and \<open>piperead\<close> are split where they sleep: a run of the loop until the call returns
  or sleeps, and the same loop again when the process is woken up.  A run also gives the channels it
  wakes.  The locale \<open>bounded_fifo\<close> is the contract of a bounded first-in first-out buffer; its theorem on
  interleaved writes and reads is applied to the pipe.
\<close>

section \<open>The code\<close>

definition PIPESIZE :: u32 where "PIPESIZE = 512"

record pipe =
  pdata :: "nat \<Rightarrow> u8"
  nread :: u32
  nwrite :: u32
  readopen :: bool
  writeopen :: bool

definition pipe_init :: "(nat \<Rightarrow> u8) \<Rightarrow> pipe" where
  "pipe_init garbage = \<lparr>pdata = garbage, nread = 0, nwrite = 0, readopen = True, writeopen = True\<rparr>"

definition pipe_put :: "u8 \<Rightarrow> pipe \<Rightarrow> pipe" where
  "pipe_put b p = p\<lparr>pdata := (pdata p)(unat (nwrite p mod PIPESIZE) := b), nwrite := nwrite p + 1\<rparr>"

datatype wres = WDone | WErr | WSleep "u8 list"  \<comment> \<open>the bytes still to write\<close>

text \<open>\<open>i\<close> is the number of this pipe in the channels.\<close>

fun pipewrite_loop :: "nat \<Rightarrow> bool \<Rightarrow> u8 list \<Rightarrow> pipe \<Rightarrow> wres \<times> chan list \<times> pipe" where
  "pipewrite_loop i killed [] p = (WDone, [ChanRead i], p)"
| "pipewrite_loop i killed (b # bs) p =
     (if nwrite p = nread p + PIPESIZE then
        if \<not> readopen p \<or> killed then (WErr, [], p)
        else (WSleep (b # bs), [ChanRead i], p)
      else pipewrite_loop i killed bs (pipe_put b p))"

definition pipe_get :: "pipe \<Rightarrow> u8 \<times> pipe" where
  "pipe_get p = (pdata p (unat (nread p mod PIPESIZE)), p\<lparr>nread := nread p + 1\<rparr>)"

fun piperead_copy :: "nat \<Rightarrow> pipe \<Rightarrow> u8 list \<times> pipe" where
  "piperead_copy 0 p = ([], p)"
| "piperead_copy (Suc n) p =
     (if nread p = nwrite p then ([], p)
      else let (b, p1) = pipe_get p; (bs, p2) = piperead_copy n p1 in (b # bs, p2))"

datatype rres = RDone "u8 list" | RErr | RSleep

definition piperead_run :: "nat \<Rightarrow> bool \<Rightarrow> nat \<Rightarrow> pipe \<Rightarrow> rres \<times> chan list \<times> pipe" where
  "piperead_run i killed n p =
     (if nread p = nwrite p \<and> writeopen p then
        if killed then (RErr, [], p) else (RSleep, [], p)
      else let (bs, q) = piperead_copy n p in (RDone bs, [ChanWrite i], q))"

text \<open>The state part of \<open>pipeclose\<close>: the new state, the channel woken, and whether the page is freed.\<close>

definition pipe_close :: "nat \<Rightarrow> bool \<Rightarrow> pipe \<Rightarrow> pipe \<times> chan \<times> bool" where
  "pipe_close i writable p =
     (let q = (if writable then p\<lparr>writeopen := False\<rparr> else p\<lparr>readopen := False\<rparr>) in
      (q, if writable then ChanRead i else ChanWrite i, \<not> readopen q \<and> \<not> writeopen q))"

section \<open>The buffer as a list\<close>

definition plen :: "pipe \<Rightarrow> nat" where
  "plen p = unat (nwrite p - nread p)"

definition contents :: "pipe \<Rightarrow> u8 list" where
  "contents p = map (\<lambda>k. pdata p (unat ((nread p + of_nat k) mod PIPESIZE))) [0 ..< plen p]"

definition pipe_ok :: "pipe \<Rightarrow> bool" where
  "pipe_ok p \<longleftrightarrow> plen p \<le> 512"

lemma length_contents [simp]: "length (contents p) = plen p"
  by (simp add: contents_def)

lemma pipe_full: "pipe_ok p \<Longrightarrow> nwrite p = nread p + PIPESIZE \<longleftrightarrow> plen p = 512"
proof -
  have "nwrite p = nread p + PIPESIZE \<longleftrightarrow> nwrite p - nread p = 512"
    by (auto simp: PIPESIZE_def algebra_simps)
  also have "\<dots> \<longleftrightarrow> plen p = 512" by (simp add: plen_def word_unat_eq_iff)
  finally show "nwrite p = nread p + PIPESIZE \<longleftrightarrow> plen p = 512" .
qed

lemma pipe_empty: "nread p = nwrite p \<longleftrightarrow> contents p = []"
proof -
  have "nread p = nwrite p \<longleftrightarrow> nwrite p - nread p = 0" by auto
  also have "\<dots> \<longleftrightarrow> plen p = 0" by (simp add: plen_def unat_eq_0)
  finally show ?thesis by (simp flip: length_0_conv)
qed

text \<open>512 divides \<open>2 ^ 32\<close>, so the slot does not change when a counter wraps.\<close>

lemma slot_eq: "unat ((a :: u32) mod PIPESIZE) = unat a mod 512"
  by (simp add: PIPESIZE_def unat_mod)

lemma slot_add: "unat ((a + of_nat k :: u32) mod PIPESIZE) = (unat a + k) mod 512"
proof -
  have "unat (a + of_nat k :: u32) = (unat a + k) mod 2 ^ 32"
    by (simp add: unat_word_ariths unat_of_nat mod_add_right_eq)
  moreover have "m mod 2 ^ 32 mod 512 = m mod (512 :: nat)" for m
    by (rule mod_mod_cancel) simp
  ultimately show ?thesis by (simp only: slot_eq)
qed

lemma slots_distinct: "k < n \<Longrightarrow> n \<le> 512 \<Longrightarrow> j < n \<Longrightarrow> j \<noteq> k \<Longrightarrow> (a + j) mod 512 \<noteq> (a + k) mod (512 :: nat)"
proof
  assume a: "k < n" "n \<le> 512" "j < n" "j \<noteq> k" and e: "(a + j) mod 512 = (a + k) mod 512"
  have "int (a + j) mod 512 = int (a + k) mod 512" using e by (metis of_nat_mod of_nat_numeral)
  then have "(int (a + j) - int a) mod 512 = (int (a + k) - int a) mod 512" by (rule mod_diff_cong) simp
  then have "int j mod 512 = int k mod 512" by simp
  then show False using a by simp
qed

lemma nwrite_eq: "nwrite p = nread p + of_nat (plen p)"
  by (simp add: plen_def)

lemma pipe_put_contents:
  assumes "plen p < 512"
  shows "contents (pipe_put b p) = contents p @ [b]" "pipe_ok (pipe_put b p)"
proof -
  have "nwrite p + 1 - nread p = (nwrite p - nread p) + 1" by (simp add: algebra_simps)
  moreover have "plen (pipe_put b p) = unat (nwrite p + 1 - nread p)" by (simp add: plen_def pipe_put_def)
  ultimately have "plen (pipe_put b p) = unat ((nwrite p - nread p) + 1)" by (simp only:)
  also have "\<dots> = (plen p + 1) mod 2 ^ 32" unfolding plen_def by (simp only: unat_word_ariths unat_1) simp
  finally have len: "plen (pipe_put b p) = Suc (plen p)" using assms by simp
  show "pipe_ok (pipe_put b p)" using assms len by (simp add: pipe_ok_def)
  have slot: "unat (nwrite p mod PIPESIZE) = (unat (nread p) + plen p) mod 512"
    using slot_add [of "nread p" "plen p"] nwrite_eq [of p] by simp
  have same: "pdata (pipe_put b p) (unat ((nread p + of_nat k) mod PIPESIZE)) =
      pdata p (unat ((nread p + of_nat k) mod PIPESIZE))" if "k < plen p" for k
  proof -
    have "(unat (nread p) + k) mod 512 \<noteq> (unat (nread p) + plen p) mod 512"
      using slots_distinct [of "plen p" "Suc (plen p)" k] assms that by simp
    then show ?thesis by (simp add: pipe_put_def slot slot_add)
  qed
  have "pdata (pipe_put b p) (unat ((nread p + of_nat (plen p)) mod PIPESIZE)) = b"
    by (simp add: pipe_put_def flip: nwrite_eq)
  moreover have "nread (pipe_put b p) = nread p" by (simp add: pipe_put_def)
  ultimately show "contents (pipe_put b p) = contents p @ [b]"
    using same by (simp add: contents_def len)
qed

lemma pipe_get_contents:
  assumes "contents p = c # cs" "pipe_ok p"
  shows "fst (pipe_get p) = c" "contents (snd (pipe_get p)) = cs" "pipe_ok (snd (pipe_get p))"
proof -
  have n: "0 < plen p" using assms(1) by (metis length_contents length_greater_0_conv list.distinct(1))
  obtain m where m: "plen p = Suc m" using n gr0_implies_Suc by blast
  have up: "[0 ..< plen p] = 0 # map Suc [0 ..< plen p - 1]"
    by (simp only: m upt_conv_Cons zero_less_Suc map_Suc_upt diff_Suc_1)
  have c: "c # cs = pdata p (unat (nread p mod PIPESIZE)) #
      map (\<lambda>k. pdata p (unat ((nread p + of_nat (Suc k)) mod PIPESIZE))) [0 ..< plen p - 1]"
    using assms(1) unfolding contents_def up by (simp add: comp_def)
  then show "fst (pipe_get p) = c" by (simp add: pipe_get_def)
  have "plen (snd (pipe_get p)) = unat ((nwrite p - nread p) - 1)"
    by (simp add: plen_def pipe_get_def diff_diff_eq)
  moreover have "nwrite p - nread p \<noteq> 0" using n unfolding plen_def unat_gt_0 .
  ultimately have len: "plen (snd (pipe_get p)) = plen p - 1"
    unfolding plen_def by (metis unat_minus_one)
  show "pipe_ok (snd (pipe_get p))" using assms(2) len by (simp add: pipe_ok_def)
  show "contents (snd (pipe_get p)) = cs"
    using c by (simp add: contents_def len) (simp add: pipe_get_def add.assoc)
qed

section \<open>Bounded queues\<close>

text \<open>
  What the loops of \<open>pipewrite\<close> and \<open>piperead\<close> rely on: a container of at most \<open>cap\<close> items, whose tests for
  full and empty are exact, that takes an item at one end and gives it back at the other.
\<close>

locale bounded_fifo =
  fixes ok :: "'c \<Rightarrow> bool" and items :: "'c \<Rightarrow> 'b list" and cap :: nat
    and isfull :: "'c \<Rightarrow> bool" and isempty :: "'c \<Rightarrow> bool"
    and put :: "'b \<Rightarrow> 'c \<Rightarrow> 'c" and get :: "'c \<Rightarrow> 'b \<times> 'c"
  assumes bounded: "ok c \<Longrightarrow> length (items c) \<le> cap"
    and full_iff: "ok c \<Longrightarrow> isfull c \<longleftrightarrow> length (items c) = cap"
    and empty_iff: "ok c \<Longrightarrow> isempty c \<longleftrightarrow> items c = []"
    and put_items: "ok c \<Longrightarrow> \<not> isfull c \<Longrightarrow> ok (put b c) \<and> items (put b c) = items c @ [b]"
    and get_items: "ok c \<Longrightarrow> \<not> isempty c \<Longrightarrow> ok (snd (get c)) \<and> items c = fst (get c) # items (snd (get c))"
begin

fun fill :: "'b list \<Rightarrow> 'c \<Rightarrow> 'b list \<times> 'c" where
  "fill [] c = ([], c)"
| "fill (b # bs) c = (if isfull c then (b # bs, c) else fill bs (put b c))"

fun drain :: "nat \<Rightarrow> 'c \<Rightarrow> 'b list \<times> 'c" where
  "drain 0 c = ([], c)"
| "drain (Suc n) c = (if isempty c then ([], c)
     else let (b, d) = get c; (bs, e) = drain n d in (b # bs, e))"

lemma fill_spec:
  "ok c \<Longrightarrow> fst (fill bs c) = drop (cap - length (items c)) bs \<and> ok (snd (fill bs c)) \<and>
     items (snd (fill bs c)) = items c @ take (cap - length (items c)) bs"
proof (induction bs arbitrary: c)
  case Nil
  then show ?case by simp
next
  case (Cons b bs)
  show ?case
  proof (cases "isfull c")
    case True
    then show ?thesis using Cons.prems by (simp add: full_iff)
  next
    case False
    with bounded [OF Cons.prems] full_iff [OF Cons.prems]
    obtain k where "cap - length (items c) = Suc k" by (metis Suc_diff_Suc le_neq_implies_less)
    moreover from this have "cap - Suc (length (items c)) = k" by simp
    ultimately show ?thesis
      using put_items [OF Cons.prems False, of b] Cons.IH [of "put b c"] False by simp
  qed
qed

lemma drain_spec:
  "ok c \<Longrightarrow> fst (drain n c) = take n (items c) \<and> ok (snd (drain n c)) \<and>
     items (snd (drain n c)) = drop n (items c)"
proof (induction n arbitrary: c)
  case 0
  then show ?case by simp
next
  case (Suc n)
  show ?case
  proof (cases "isempty c")
    case True
    then show ?thesis using Suc.prems empty_iff by simp
  next
    case False
    then show ?thesis using get_items [OF Suc.prems False] Suc.IH [of "snd (get c)"]
      by (simp add: split_beta Let_def)
  qed
qed

end

interpretation ring: bounded_fifo pipe_ok contents 512 "\<lambda>p. nwrite p = nread p + PIPESIZE"
  "\<lambda>p. nread p = nwrite p" pipe_put pipe_get
proof
  fix p :: pipe and b
  show "pipe_ok p \<Longrightarrow> length (contents p) \<le> 512" by (simp add: pipe_ok_def)
  show "pipe_ok p \<Longrightarrow> nwrite p = nread p + PIPESIZE \<longleftrightarrow> length (contents p) = 512" by (simp add: pipe_full)
  show "nread p = nwrite p \<longleftrightarrow> contents p = []" by (rule pipe_empty)
  show "pipe_ok (pipe_put b p) \<and> contents (pipe_put b p) = contents p @ [b]"
    if ok: "pipe_ok p" and f: "nwrite p \<noteq> nread p + PIPESIZE"
  proof -
    have "plen p < 512" using ok f pipe_full [OF ok] by (auto simp: pipe_ok_def)
    then show ?thesis by (simp add: pipe_put_contents)
  qed
  show "pipe_ok (snd (pipe_get p)) \<and> contents p = fst (pipe_get p) # contents (snd (pipe_get p))"
    if ok: "pipe_ok p" and ne: "nread p \<noteq> nwrite p"
  proof -
    obtain c cs where c: "contents p = c # cs" using ne pipe_empty [of p] by (cases "contents p") auto
    then show ?thesis using pipe_get_contents [OF c ok] by simp
  qed
qed

section \<open>The loops of \<open>pipewrite\<close> and \<open>piperead\<close>\<close>

lemma pipe_ops_open [simp]:
  "readopen (pipe_put b p) = readopen p" "writeopen (pipe_put b p) = writeopen p"
  "readopen (snd (pipe_get p)) = readopen p" "writeopen (snd (pipe_get p)) = writeopen p"
  by (simp_all add: pipe_put_def pipe_get_def)

lemma pipewrite_loop_fill:
  "pipewrite_loop i killed bs p =
     (let (r, q) = ring.fill bs p in
      (if r = [] then WDone else if \<not> readopen p \<or> killed then WErr else WSleep r,
       if r \<noteq> [] \<and> (\<not> readopen p \<or> killed) then [] else [ChanRead i], q))"
  by (induction bs arbitrary: p) (auto simp: split_beta Let_def)

lemma piperead_copy_drain: "piperead_copy n p = ring.drain n p"
  by (induction n arbitrary: p) simp_all

text \<open>
  \<open>pipewrite\<close>, from entry or wake-up to return or sleep: it appends the longest prefix that the free
  space takes, and returns, fails or sleeps on what is left; a sleeping or finished writer has woken the readers.
\<close>

theorem pipewrite_behaviour:
  assumes "pipe_ok p"
  shows "\<exists>q. pipe_ok q \<and> contents q = contents p @ take (512 - length (contents p)) bs \<and>
    pipewrite_loop i killed bs p =
      (if length bs \<le> 512 - length (contents p) then (WDone, [ChanRead i], q)
       else if \<not> readopen p \<or> killed then (WErr, [], q)
       else (WSleep (drop (512 - length (contents p)) bs), [ChanRead i], q))"
proof -
  let ?f = "ring.fill bs p"
  have f: "fst ?f = drop (512 - length (contents p)) bs" "pipe_ok (snd ?f)"
    "contents (snd ?f) = contents p @ take (512 - length (contents p)) bs"
    using ring.fill_spec [OF assms, of bs] by (simp_all only: fst_conv)
  have "pipewrite_loop i killed bs p =
      (if length bs \<le> 512 - length (contents p) then (WDone, [ChanRead i], snd ?f)
       else if \<not> readopen p \<or> killed then (WErr, [], snd ?f)
       else (WSleep (drop (512 - length (contents p)) bs), [ChanRead i], snd ?f))"
    unfolding pipewrite_loop_fill by (simp add: split_beta Let_def f(1))
  with f show ?thesis by blast
qed

definition ex_pipe :: pipe where
  "ex_pipe = \<lparr>pdata = (\<lambda>k. of_nat k), nread = - 2, nwrite = 1, readopen = True, writeopen = True\<rparr>"

lemma ex_pipe_len: "plen ex_pipe = 3"
  by (simp add: plen_def ex_pipe_def)

lemma ex_pipe_ok: "pipe_ok ex_pipe"
  by (simp add: pipe_ok_def ex_pipe_len)

lemma ex_pipe_contents: "contents ex_pipe = [254, 255, 0]"
proof -
  have "[0 ..< (3 :: nat)] = [0, 1, 2]" by (simp add: upt_rec)
  then show ?thesis unfolding contents_def ex_pipe_len by (simp add: ex_pipe_def PIPESIZE_def)
qed

theorem pipewrite_behaviour_witness:
  "\<exists>q. contents q = [254, 255, 0, 7, 8] \<and> pipewrite_loop 0 False [7, 8] ex_pipe = (WDone, [ChanRead 0], q)"
  using pipewrite_behaviour [OF ex_pipe_ok, of "[7, 8]" 0 False]
  by (simp add: ex_pipe_contents ex_pipe_len del: pipewrite_loop.simps) blast

text \<open>
  \<open>piperead\<close>, from entry or wake-up to return or sleep: on an empty pipe with a writer it sleeps (or fails,
  when killed); otherwise it returns the oldest bytes, at most \<open>n\<close>, and leaves the others; an empty pipe
  without a writer gives the end-of-file result of no bytes.
\<close>

theorem piperead_behaviour:
  assumes "pipe_ok p"
  shows "\<exists>q. pipe_ok q \<and>
    (if contents p = [] \<and> writeopen p then q = p \<and> piperead_run i killed n p = (if killed then RErr else RSleep, [], p)
     else contents q = drop n (contents p) \<and>
       piperead_run i killed n p = (RDone (take n (contents p)), [ChanWrite i], q))"
proof (cases "contents p = [] \<and> writeopen p")
  case True
  then show ?thesis using assms pipe_empty [of p] by (auto simp: piperead_run_def)
next
  case False
  let ?d = "ring.drain n p"
  have "fst ?d = take n (contents p)" "pipe_ok (snd ?d)" "contents (snd ?d) = drop n (contents p)"
    using ring.drain_spec [OF assms, of n] by auto
  moreover have "piperead_run i killed n p = (RDone (fst ?d), [ChanWrite i], snd ?d)"
    using False by (auto simp: piperead_run_def piperead_copy_drain pipe_empty split_beta Let_def)
  ultimately show ?thesis using False by auto
qed

theorem piperead_behaviour_witness:
  "\<exists>q. contents q = [0] \<and> piperead_run 0 False 2 ex_pipe = (RDone [254, 255], [ChanWrite 0], q)"
  using piperead_behaviour [OF ex_pipe_ok, of 0 False 2] by (auto simp: ex_pipe_contents)

section \<open>Interleavings\<close>

text \<open>
  A pipe with the history of its use: the bytes that writers have put in and the bytes that readers have
  taken out.  Steps are runs of the two loops, by any process in any order, and the closing of an end.
\<close>

definition taken :: "rres \<Rightarrow> u8 list" where
  "taken r = (case r of RDone bs \<Rightarrow> bs | _ \<Rightarrow> [])"

definition put_in :: "u8 list \<Rightarrow> wres \<Rightarrow> pipe \<Rightarrow> u8 list" where
  "put_in bs r p = (case r of WDone \<Rightarrow> bs | WSleep rest \<Rightarrow> take (length bs - length rest) bs
     | WErr \<Rightarrow> take (512 - plen p) bs)"

inductive piperun :: "nat \<Rightarrow> pipe \<Rightarrow> u8 list \<Rightarrow> u8 list \<Rightarrow> bool" for i where
  fresh: "piperun i (pipe_init g) [] []"
| wrote: "piperun i p win rout \<Longrightarrow> pipewrite_loop i killed bs p = (r, ch, q) \<Longrightarrow>
    piperun i q (win @ put_in bs r p) rout"
| got: "piperun i p win rout \<Longrightarrow> piperead_run i killed n p = (r, ch, q) \<Longrightarrow>
    piperun i q win (rout @ taken r)"
| close: "piperun i p win rout \<Longrightarrow> pipe_close i writable p = (q, ch, gone) \<Longrightarrow> piperun i q win rout"

lemma pipewrite_loop_contents:
  assumes "pipe_ok p" "pipewrite_loop i killed bs p = (r, ch, q)"
  shows "pipe_ok q" "contents q = contents p @ put_in bs r p"
proof -
  have f: "pipe_ok (snd (ring.fill bs p))" "fst (ring.fill bs p) = drop (512 - plen p) bs"
    "contents (snd (ring.fill bs p)) = contents p @ take (512 - plen p) bs"
    using ring.fill_spec [OF assms(1), of bs] by auto
  have q: "q = snd (ring.fill bs p)" and r: "r = (if drop (512 - plen p) bs = [] then WDone
      else if \<not> readopen p \<or> killed then WErr else WSleep (drop (512 - plen p) bs))"
    using assms(2) unfolding pipewrite_loop_fill by (auto simp add: split_beta Let_def f)
  show "pipe_ok q" by (simp add: q f)
  show "contents q = contents p @ put_in bs r p" by (simp add: q f r put_in_def min_def)
qed

lemma piperead_run_contents:
  assumes "pipe_ok p" "piperead_run i killed n p = (r, ch, q)"
  shows "pipe_ok q" "contents p = taken r @ contents q"
proof -
  have "fst (ring.drain n p) = take n (contents p)" "pipe_ok (snd (ring.drain n p))"
    "contents (snd (ring.drain n p)) = drop n (contents p)"
    using ring.drain_spec [OF assms(1), of n] by auto
  then show "pipe_ok q" "contents p = taken r @ contents q"
    using assms by (auto simp: piperead_run_def piperead_copy_drain split_beta Let_def taken_def split: if_splits)
qed

lemma pipe_close_contents:
  assumes "pipe_close i writable p = (q, ch, gone)"
  shows "plen q = plen p" "contents q = contents p"
  using assms by (cases writable; auto simp: pipe_close_def Let_def plen_def contents_def)+

text \<open>
  C29: whatever the order in which writers and readers run, are put to sleep or killed, and the ends
  are closed, and however often the two counters wrap around, the bytes read are, in order, a prefix of the bytes written;
  the rest is in the buffer, which never holds more than 512 bytes.
\<close>

theorem pipe_is_fifo:
  assumes "piperun i p win rout"
  shows "win = rout @ contents p \<and> length (contents p) \<le> 512"
proof -
  from assms have "pipe_ok p \<and> win = rout @ contents p"
  proof (induction rule: piperun.induct)
    case (fresh g)
    then show ?case by (simp add: pipe_ok_def plen_def contents_def pipe_init_def)
  next
    case (wrote p win rout killed bs r ch q)
    then show ?case using pipewrite_loop_contents [of p i killed bs r ch q] by simp
  next
    case (got p win rout killed n r ch q)
    then show ?case using piperead_run_contents [of p i killed n r ch q] by simp
  next
    case (close p win rout writable q ch gone)
    then show ?case using pipe_close_contents [of i writable p q ch gone] by (simp add: pipe_ok_def)
  qed
  then show ?thesis by (simp add: pipe_ok_def)
qed

theorem pipe_is_fifo_witness:
  "\<exists>p. piperun 0 p [5, 6, 7] [5] \<and> contents p = [6, 7]"
proof -
  let ?p0 = "pipe_init (\<lambda>_. 0)"
  have w: "pipewrite_loop 0 False [5, 6, 7] ?p0 = (WDone, [ChanRead 0], pipe_put 7 (pipe_put 6 (pipe_put 5 ?p0)))"
    by (simp add: pipe_init_def pipe_put_def PIPESIZE_def)
  then have "piperun 0 (pipe_put 7 (pipe_put 6 (pipe_put 5 ?p0))) [5, 6, 7] []"
    using piperun.wrote [OF piperun.fresh w] by (simp add: put_in_def)
  moreover obtain q where "piperead_run 0 False 1 (pipe_put 7 (pipe_put 6 (pipe_put 5 ?p0))) = (RDone [5], [ChanWrite 0], q)"
    by (simp add: piperead_run_def pipe_get_def pipe_init_def pipe_put_def PIPESIZE_def)
  ultimately have r: "piperun 0 q [5, 6, 7] [5]" using piperun.got by (fastforce simp: taken_def)
  then show ?thesis using pipe_is_fifo [OF r] by auto
qed

lemma fill_readopen: "readopen (snd (ring.fill bs p)) = readopen p"
  by (induction bs arbitrary: p) simp_all

lemma drain_readopen: "readopen (snd (ring.drain n p)) = readopen p"
proof (induction n arbitrary: p)
  case (Suc n)
  show ?case using Suc [of "snd (pipe_get p)"] by (simp add: split_beta Let_def)
qed simp

end
