(* ===== verification/Pipe_Live.thy ===== *)
theory Pipe_Live
  imports Pipe
begin

text \<open>
  A writer and a reader of a pipe as two processes of the process table, under any scheduler.  A process runs only when its entry is
  \<open>RUNNABLE\<close>; one that sleeps in \<open>pipewrite\<close> or \<open>piperead\<close> stays in its entry on its channel until a wake-up on this channel, so that a lost
  or missing wake-up is a run that stops too early.
\<close>

section \<open>The two processes\<close>

text \<open>
  The writer has a list of buffers to write, one \<open>write\<close> each (the head is what is left of the call it is in), and then closes its end: \<open>None\<close>.  The reader
  reads until a call gives 0 (or fails).
\<close>

record plumbing =
  pl_pipe :: pipe
  pl_procs :: "proc list"
  pl_todo :: "u8 list list option"
  pl_got :: "u8 list"
  pl_eof :: bool

text \<open>The wake-ups that a run of a loop has done, and the entry of a process that sleeps.\<close>

definition wakes :: "chan list \<Rightarrow> proc list \<Rightarrow> proc list" where
  "wakes chs ps = fold (\<lambda>ch. map (wake ch)) chs ps"

definition asleep_on :: "nat \<Rightarrow> chan \<Rightarrow> proc list \<Rightarrow> proc list" where
  "asleep_on k ch ps = ps[k := (ps ! k)\<lparr>p_chan := ch, p_state := SLEEPING\<rparr>]"

definition writer_run :: "nat \<Rightarrow> nat \<Rightarrow> plumbing \<Rightarrow> plumbing" where
  "writer_run i w s = (case pl_todo s of
     None \<Rightarrow> s
   | Some [] \<Rightarrow> (case pipe_close i True (pl_pipe s) of
       (q, ch, gone) \<Rightarrow> s\<lparr>pl_pipe := q, pl_procs := wakes [ch] (pl_procs s), pl_todo := None\<rparr>)
   | Some (bs # bss) \<Rightarrow> (case pipewrite_loop i False bs (pl_pipe s) of
       (WSleep rest, chs, q) \<Rightarrow>
         s\<lparr>pl_pipe := q, pl_procs := asleep_on w (ChanWrite i) (wakes chs (pl_procs s)), pl_todo := Some (rest # bss)\<rparr>
     | (_, chs, q) \<Rightarrow> s\<lparr>pl_pipe := q, pl_procs := wakes chs (pl_procs s), pl_todo := Some bss\<rparr>))"

definition reader_run :: "nat \<Rightarrow> nat \<Rightarrow> nat \<Rightarrow> plumbing \<Rightarrow> plumbing" where
  "reader_run i r n s = (case piperead_run i False n (pl_pipe s) of
     (RDone bs, chs, q) \<Rightarrow>
       s\<lparr>pl_pipe := q, pl_procs := wakes chs (pl_procs s), pl_got := pl_got s @ bs, pl_eof := (bs = [])\<rparr>
   | (RErr, chs, q) \<Rightarrow> s\<lparr>pl_pipe := q, pl_procs := wakes chs (pl_procs s), pl_eof := True\<rparr>
   | (RSleep, chs, q) \<Rightarrow> s\<lparr>pl_pipe := q, pl_procs := asleep_on r (ChanRead i) (wakes chs (pl_procs s))\<rparr>)"

inductive pstep :: "nat \<Rightarrow> nat \<Rightarrow> nat \<Rightarrow> nat \<Rightarrow> plumbing \<Rightarrow> plumbing \<Rightarrow> bool" for i w r n where
  writes: "p_state (pl_procs s ! w) = RUNNABLE \<Longrightarrow> pl_todo s \<noteq> None \<Longrightarrow> pstep i w r n s (writer_run i w s)"
| reads: "p_state (pl_procs s ! r) = RUNNABLE \<Longrightarrow> \<not> pl_eof s \<Longrightarrow> pstep i w r n s (reader_run i r n s)"

text \<open>The start: both processes can run, with the pipe open at both ends.\<close>

definition plumbed :: "nat \<Rightarrow> nat \<Rightarrow> u8 list list \<Rightarrow> plumbing \<Rightarrow> bool" where
  "plumbed w r bss s \<longleftrightarrow> w \<noteq> r \<and> w < length (pl_procs s) \<and> r < length (pl_procs s) \<and>
     p_state (pl_procs s ! w) = RUNNABLE \<and> p_state (pl_procs s ! r) = RUNNABLE \<and>
     pipe_ok (pl_pipe s) \<and> readopen (pl_pipe s) \<and> writeopen (pl_pipe s) \<and>
     pl_todo s = Some bss \<and> pl_got s = [] \<and> \<not> pl_eof s"

section \<open>The invariant and the measure\<close>

definition unwritten :: "plumbing \<Rightarrow> u8 list" where
  "unwritten s = (case pl_todo s of None \<Rightarrow> [] | Some bss \<Rightarrow> concat bss)"

definition plinv :: "nat \<Rightarrow> nat \<Rightarrow> nat \<Rightarrow> u8 list \<Rightarrow> plumbing \<Rightarrow> bool" where
  "plinv i w r sent s \<longleftrightarrow> w \<noteq> r \<and> w < length (pl_procs s) \<and> r < length (pl_procs s) \<and>
     pipe_ok (pl_pipe s) \<and> readopen (pl_pipe s) \<and> (writeopen (pl_pipe s) \<longleftrightarrow> pl_todo s \<noteq> None) \<and>
     pl_got s @ contents (pl_pipe s) @ unwritten s = sent \<and>
     (p_state (pl_procs s ! w) = RUNNABLE \<or>
      p_state (pl_procs s ! w) = SLEEPING \<and> p_chan (pl_procs s ! w) = ChanWrite i \<and> length (contents (pl_pipe s)) = 512) \<and>
     (p_state (pl_procs s ! r) = RUNNABLE \<or>
      p_state (pl_procs s ! r) = SLEEPING \<and> p_chan (pl_procs s ! r) = ChanRead i \<and> contents (pl_pipe s) = [] \<and> pl_todo s \<noteq> None) \<and>
     (pl_eof s \<longrightarrow> contents (pl_pipe s) = [] \<and> pl_todo s = None)"

definition plmeasure :: "nat \<Rightarrow> nat \<Rightarrow> plumbing \<Rightarrow> nat" where
  "plmeasure w r s = 4 * length (unwritten s) + 3 * length (contents (pl_pipe s)) +
     (case pl_todo s of None \<Rightarrow> 0 | Some bss \<Rightarrow> 2 * length bss + 2) +
     (if p_state (pl_procs s ! w) = RUNNABLE then 2 else 0) + (if p_state (pl_procs s ! r) = RUNNABLE then 1 else 0) +
     (if pl_eof s then 0 else 1)"

lemma wakes_simps [simp]:
  "length (wakes chs ps) = length ps" "wakes [] ps = ps"
  "k < length ps \<Longrightarrow> wakes [ch] ps ! k = wake ch (ps ! k)"
  by (induction chs arbitrary: ps) (simp_all add: wakes_def)

lemma asleep_simps [simp]:
  "length (asleep_on k ch ps) = length ps"
  "k < length ps \<Longrightarrow> asleep_on k ch ps ! k = (ps ! k)\<lparr>p_chan := ch, p_state := SLEEPING\<rparr>"
  "j \<noteq> k \<Longrightarrow> asleep_on k ch ps ! j = ps ! j"
  by (simp_all add: asleep_on_def)

lemma wake_cases:
  "p_state (wake ch p) = RUNNABLE \<longleftrightarrow> p_state p = RUNNABLE \<or> p_state p = SLEEPING \<and> p_chan p = ch"
  "p_state (wake ch p) = SLEEPING \<longleftrightarrow> p_state p = SLEEPING \<and> p_chan p \<noteq> ch"
  "p_chan (wake ch p) = p_chan p"
  by (auto simp: wake_def)

lemma pipe_close_write:
  "pipe_close i True p = (q, ch, gone) \<Longrightarrow> ch = ChanRead i \<and> readopen q = readopen p \<and> \<not> writeopen q"
  by (auto simp: pipe_close_def Let_def)

lemma drain_writeopen: "writeopen (snd (ring.drain n p)) = writeopen p"
proof (induction n arbitrary: p)
  case (Suc n)
  show ?case using Suc [of "snd (pipe_get p)"] by (simp add: split_beta Let_def)
qed simp

lemma fill_writeopen: "writeopen (snd (ring.fill bs p)) = writeopen p"
  by (induction bs arbitrary: p) simp_all

text \<open>A run of the writer with the read end open, and a run of the reader.\<close>

lemma write_cases:
  assumes "pipe_ok p" "readopen p"
  obtains q where "pipewrite_loop i False bs p = (WDone, [ChanRead i], q)" "contents q = contents p @ bs"
      "pipe_ok q" "readopen q" "writeopen q = writeopen p"
  | q k where "pipewrite_loop i False bs p = (WSleep (drop k bs), [ChanRead i], q)" "contents q = contents p @ take k bs" "length (contents q) = 512"
      "pipe_ok q" "readopen q" "writeopen q = writeopen p"
proof -
  let ?f = "ring.fill bs p" and ?k = "512 - plen p"
  have f: "fst ?f = drop ?k bs" "pipe_ok (snd ?f)" "contents (snd ?f) = contents p @ take ?k bs"
    using ring.fill_spec [OF assms(1), of bs] by (simp_all only: fst_conv length_contents)
  note o = fill_readopen [of bs p] fill_writeopen [of bs p]
  show thesis
  proof (cases "drop ?k bs = []")
    case True
    then have "pipewrite_loop i False bs p = (WDone, [ChanRead i], snd ?f)"
      unfolding pipewrite_loop_fill by (simp add: split_beta Let_def f(1))
    then show thesis using True f o assms(2) by (intro that(1) [of "snd ?f"]) simp_all
  next
    case False
    then have "pipewrite_loop i False bs p = (WSleep (drop ?k bs), [ChanRead i], snd ?f)"
      using assms(2) unfolding pipewrite_loop_fill by (simp add: split_beta Let_def f(1))
    moreover have "length (contents (snd ?f)) = 512"
      using False assms(1) unfolding f(3) by (simp add: pipe_ok_def)
    ultimately show thesis using f o assms(2) by (intro that(2) [of ?k "snd ?f"]) simp_all
  qed
qed

lemma read_cases:
  assumes "pipe_ok p"
  obtains "contents p = []" "writeopen p" "piperead_run i False n p = (RSleep, [], p)"
  | q where "contents p = [] \<longrightarrow> \<not> writeopen p" "piperead_run i False n p = (RDone (take n (contents p)), [ChanWrite i], q)"
      "contents q = drop n (contents p)" "pipe_ok q" "readopen q = readopen p" "writeopen q = writeopen p"
proof (cases "contents p = [] \<and> writeopen p")
  case True
  then show thesis using pipe_empty [of p] by (intro that(1)) (auto simp: piperead_run_def)
next
  case False
  let ?d = "ring.drain n p"
  have "fst ?d = take n (contents p)" "pipe_ok (snd ?d)" "contents (snd ?d) = drop n (contents p)"
    using ring.drain_spec [OF assms, of n] by auto
  moreover have "piperead_run i False n p = (RDone (fst ?d), [ChanWrite i], snd ?d)"
    using False by (auto simp: piperead_run_def piperead_copy_drain pipe_empty split_beta Let_def)
  ultimately show thesis using False drain_readopen drain_writeopen by (intro that(2) [of "snd ?d"]) auto
qed

section \<open>Every step keeps the invariant and lowers the measure\<close>

lemma writer_run_ok:
  assumes J: "plinv i w r sent s" and run: "p_state (pl_procs s ! w) = RUNNABLE" and todo: "pl_todo s \<noteq> None"
  shows "plinv i w r sent (writer_run i w s) \<and> plmeasure w r (writer_run i w s) < plmeasure w r s"
proof -
  have ok: "pipe_ok (pl_pipe s)" "readopen (pl_pipe s)" "w < length (pl_procs s)" "r < length (pl_procs s)" "w \<noteq> r"
    using J by (simp_all add: plinv_def)
  consider "pl_todo s = Some []" | bs bss where "pl_todo s = Some (bs # bss)"
    using todo by (metis list.exhaust not_None_eq)
  then show ?thesis
  proof cases
    case 1
    obtain q ch gone where q: "pipe_close i True (pl_pipe s) = (q, ch, gone)" by (metis prod_cases3)
    note c = pipe_close_contents [OF q] pipe_close_write [OF q]
    show ?thesis using J run 1 ok c
      by (simp add: plinv_def plmeasure_def writer_run_def q unwritten_def wake_cases pipe_ok_def) auto
  next
    case 2
    show ?thesis
    proof (cases rule: write_cases [OF ok(1,2), of i bs])
      case (1 q)
      then show ?thesis using J run 2 ok
        by (simp add: plinv_def plmeasure_def writer_run_def unwritten_def wake_cases del: pipewrite_loop.simps) auto
    next
      case (2 q k)
      then show ?thesis using J run \<open>pl_todo s = Some (bs # bss)\<close> ok
        by (simp add: plinv_def plmeasure_def writer_run_def unwritten_def wake_cases del: pipewrite_loop.simps) auto
    qed
  qed
qed

lemma reader_run_ok:
  assumes J: "plinv i w r sent s" and run: "p_state (pl_procs s ! r) = RUNNABLE" and eof: "\<not> pl_eof s" and n: "0 < n"
  shows "plinv i w r sent (reader_run i r n s) \<and> plmeasure w r (reader_run i r n s) < plmeasure w r s"
proof -
  have ok: "pipe_ok (pl_pipe s)" "w < length (pl_procs s)" "r < length (pl_procs s)" "w \<noteq> r"
    using J by (simp_all add: plinv_def)
  show ?thesis
  proof (cases rule: read_cases [OF ok(1), of i n])
    case 1
    then show ?thesis using J run eof ok by (simp add: plinv_def plmeasure_def reader_run_def unwritten_def)
  next
    case (2 q)
    show ?thesis
    proof (cases "contents (pl_pipe s) = []")
      case True
      then have "pl_todo s = None" "p_state (pl_procs s ! w) = RUNNABLE" using 2(1) J by (auto simp: plinv_def)
      then show ?thesis using J run eof ok 2 True
        by (simp add: plinv_def plmeasure_def reader_run_def unwritten_def wake_cases flip: length_0_conv)
    next
      case False
      then have w': "p_state (wake (ChanWrite i) (pl_procs s ! w)) = RUNNABLE" using J by (auto simp: plinv_def wake_cases)
      have r': "p_state (wake (ChanWrite i) (pl_procs s ! r)) = RUNNABLE" using run by (simp add: wake_cases)
      obtain c cs m where c: "contents (pl_pipe s) = c # cs" "n = Suc m" using False n by (metis list.exhaust gr0_implies_Suc)
      have split: "take n (contents (pl_pipe s)) @ contents q @ zs = contents (pl_pipe s) @ zs" for zs
        unfolding append_assoc [symmetric] by (simp add: 2(3))
      have less: "length (contents q) < length (contents (pl_pipe s))" unfolding 2(3) c by simp
      have ne: "take n (contents (pl_pipe s)) \<noteq> []" using c by simp
      let ?t = "reader_run i r n s"
      have t: "?t = s\<lparr>pl_pipe := q, pl_procs := wakes [ChanWrite i] (pl_procs s), pl_got := pl_got s @ take n (contents (pl_pipe s)), pl_eof := False\<rparr>"
        using ne by (simp add: reader_run_def 2(2))
      have "plinv i w r sent ?t"
        using J 2(4-6) ok w' r' unfolding t plinv_def by (simp add: unwritten_def split)
      moreover have "plmeasure w r ?t < plmeasure w r s"
        using ok w' r' run eof less unfolding t plmeasure_def by (simp add: unwritten_def)
      ultimately show ?thesis by simp
    qed
  qed
qed

lemma pstep_ok:
  assumes "pstep i w r n s t" "plinv i w r sent s" "0 < n"
  shows "plinv i w r sent t \<and> plmeasure w r t < plmeasure w r s"
  using assms(1)
proof cases
  case writes
  then show ?thesis using writer_run_ok [OF assms(2)] by simp
next
  case reads
  then show ?thesis using reader_run_ok [OF assms(2) _ _ assms(3)] by simp
qed

lemma psteps_ok:
  assumes "(pstep i w r n ^^ k) s t" "plinv i w r sent s" "0 < n"
  shows "plinv i w r sent t \<and> plmeasure w r t + k \<le> plmeasure w r s"
  using assms(1)
proof (induction k arbitrary: t)
  case (Suc k)
  then obtain u where u: "(pstep i w r n ^^ k) s u" "pstep i w r n u t" by (auto elim: relcomppE)
  show ?case using Suc.IH [OF u(1)] pstep_ok [OF u(2) _ assms(3), of sent] by auto
qed (use assms(2) in simp)

text \<open>The two processes never both sleep: when none can run, the reader has seen the end of the bytes.\<close>

lemma stuck_done:
  assumes "plinv i w r sent s" "\<not> (\<exists>t. pstep i w r n s t)"
  shows "pl_todo s = None \<and> pl_eof s \<and> pl_got s = sent"
proof -
  have no: "p_state (pl_procs s ! w) = RUNNABLE \<Longrightarrow> pl_todo s = None" "p_state (pl_procs s ! r) = RUNNABLE \<Longrightarrow> pl_eof s"
    using assms(2) pstep.intros [of s w i r n] pstep.intros [of s r] by blast+
  have "contents (pl_pipe s) = [] \<Longrightarrow> length (contents (pl_pipe s)) \<noteq> 512" by simp
  then show ?thesis using no assms(1) by (cases "pl_todo s") (auto simp del: length_contents simp: plinv_def unwritten_def)
qed

text \<open>
  C31: a pipeline makes progress.  Let one process write any number of buffers and close its end, and another one read at least one byte at a time until the end of
  file.  Each is put to sleep when the pipe is full or empty and runs again only after a wake-up on its channel; otherwise the scheduler may run them in any order.
  Then every run is finite, with a bound linear in the number of bytes, and a run can stop only when both are done: no wake-up is
  missing, the writer has closed its end, and the reader has seen the end of file and got every byte, in order.
\<close>

theorem pipe_transfer_completes:
  assumes "plumbed w r bss s" "0 < n" "(pstep i w r n ^^ k) s t"
  shows "k \<le> 4 * length (concat bss) + 3 * length (contents (pl_pipe s)) + 2 * length bss + 6 \<and>
    (\<not> (\<exists>u. pstep i w r n t u) \<longrightarrow> pl_todo t = None \<and> pl_eof t \<and> pl_got t = contents (pl_pipe s) @ concat bss)"
proof -
  have J: "plinv i w r (contents (pl_pipe s) @ concat bss) s" using assms(1) by (simp add: plumbed_def plinv_def unwritten_def)
  have m: "plmeasure w r s = 4 * length (concat bss) + 3 * length (contents (pl_pipe s)) + 2 * length bss + 6"
    using assms(1) by (simp add: plumbed_def plmeasure_def unwritten_def)
  note run = psteps_ok [OF assms(3) J assms(2)]
  then have "k \<le> plmeasure w r s" by simp
  moreover have "\<not> (\<exists>u. pstep i w r n t u) \<Longrightarrow> pl_todo t = None \<and> pl_eof t \<and> pl_got t = contents (pl_pipe s) @ concat bss"
    using stuck_done [of i w r _ t n] run by blast
  ultimately show ?thesis unfolding m by blast
qed

text \<open>A reader that comes first and sleeps, a writer of one byte, and the reader again until the end of file.\<close>

definition ex_piper :: proc where
  "ex_piper = \<lparr>p_sz = 0, p_pgdir = 0, p_kstack = 0, p_state = RUNNABLE, p_pid = 1, p_parent = None, p_tf = 0, p_context = 0,
     p_chan = NoChan, p_killed = False, p_ofile = [], p_cwd = None, p_name = (\<lambda>_. 0)\<rparr>"

definition ex_plumbing :: plumbing where
  "ex_plumbing = \<lparr>pl_pipe = pipe_init (\<lambda>_. 0), pl_procs = [ex_piper, ex_piper], pl_todo = Some [[7]], pl_got = [], pl_eof = False\<rparr>"

lemma ex_plumbed: "plumbed 0 1 [[7]] ex_plumbing"
  by (simp add: plumbed_def ex_plumbing_def ex_piper_def pipe_init_def pipe_ok_def plen_def)

lemma ex_run:
  "\<exists>t. (pstep 0 0 1 1 ^^ 5) ex_plumbing t \<and> pl_todo t = None \<and> pl_eof t"
proof -
  let ?R = "reader_run 0 1 1" and ?W = "writer_run 0 0"
  note defs = ex_plumbing_def ex_piper_def pipe_init_def reader_run_def writer_run_def piperead_run_def wakes_def asleep_on_def wake_def
    pipe_put_def pipe_get_def PIPESIZE_def pipe_close_def
  define a where "a = ?R ex_plumbing"
  define b where "b = ?W a"
  define c where "c = ?W b"
  define d where "d = ?R c"
  define e where "e = ?R d"
  have a: "pstep 0 0 1 1 ex_plumbing a" unfolding a_def by (rule pstep.reads) (simp_all add: ex_plumbing_def ex_piper_def)
  have a': "a = ex_plumbing\<lparr>pl_procs := [ex_piper, ex_piper\<lparr>p_chan := ChanRead 0, p_state := SLEEPING\<rparr>]\<rparr>"
    by (simp add: a_def defs)
  have b: "pstep 0 0 1 1 a b" unfolding b_def by (rule pstep.writes) (simp_all add: a' ex_plumbing_def ex_piper_def)
  have b': "b = ex_plumbing\<lparr>pl_pipe := pipe_put 7 (pipe_init (\<lambda>_. 0)), pl_procs := [ex_piper, ex_piper\<lparr>p_chan := ChanRead 0\<rparr>], pl_todo := Some []\<rparr>"
    by (simp add: b_def a' defs)
  have c: "pstep 0 0 1 1 b c" unfolding c_def by (rule pstep.writes) (simp_all add: b' ex_plumbing_def ex_piper_def)
  have c': "c = b\<lparr>pl_pipe := (pl_pipe b)\<lparr>writeopen := False\<rparr>, pl_todo := None\<rparr>"
    by (simp add: c_def b' defs)
  have d: "pstep 0 0 1 1 c d" unfolding d_def by (rule pstep.reads) (simp_all add: c' b' ex_plumbing_def ex_piper_def)
  have d': "d = c\<lparr>pl_pipe := snd (pipe_get (pl_pipe c)), pl_got := [7]\<rparr>"
    by (simp add: d_def c' b' defs)
  have e: "pstep 0 0 1 1 d e" unfolding e_def by (rule pstep.reads) (simp_all add: d' c' b' ex_plumbing_def ex_piper_def)
  have e': "pl_todo e = None" "pl_eof e" by (simp_all add: e_def d' c' b' defs)
  have "(pstep 0 0 1 1 ^^ Suc (Suc (Suc (Suc (Suc 0))))) ex_plumbing e" by (rule relpowp_Suc_I a b c d e relpowp_0_I)+
  then have "(pstep 0 0 1 1 ^^ 5) ex_plumbing e" by (simp only: numeral_eq_Suc pred_numeral_simps Num.BitM.simps)
  then show ?thesis using e' by blast
qed

theorem pipe_transfer_completes_witness:
  "\<exists>t. (pstep 0 0 1 1 ^^ 5) ex_plumbing t \<and> pl_eof t \<and> pl_got t = [7]"
proof -
  obtain t where t: "(pstep 0 0 1 1 ^^ 5) ex_plumbing t" "pl_todo t = None" "pl_eof t" using ex_run by blast
  have "\<not> (\<exists>u. pstep 0 0 1 1 t u)" using t(2,3) by (auto elim: pstep.cases)
  moreover have "contents (pl_pipe ex_plumbing) = []" by (simp add: ex_plumbing_def contents_def plen_def pipe_init_def)
  ultimately show ?thesis using pipe_transfer_completes [OF ex_plumbed _ t(1)] t by auto
qed

end
