(* ===== verification/Blocks.thy ===== *)
theory Blocks
  imports Cstring
begin

text \<open>
  C objects in a disk block: the little-endian 16- and 32-bit fields of the structures of \<open>fs.h\<close> that are read and written
  through pointers into the data of a buffer, and copies of byte ranges.
\<close>

definition get32 :: "bytes \<Rightarrow> nat \<Rightarrow> u32" where
  "get32 d off = ucast (d off) OR push_bit 8 (ucast (d (off + 1))) OR
     push_bit 16 (ucast (d (off + 2))) OR push_bit 24 (ucast (d (off + 3)))"

definition put32 :: "nat \<Rightarrow> u32 \<Rightarrow> bytes \<Rightarrow> bytes" where
  "put32 off v d = d(off := ucast v, off + 1 := ucast (drop_bit 8 v),
     off + 2 := ucast (drop_bit 16 v), off + 3 := ucast (drop_bit 24 v))"

definition get16 :: "bytes \<Rightarrow> nat \<Rightarrow> u16" where
  "get16 d off = ucast (d off) OR push_bit 8 (ucast (d (off + 1)))"

definition put16 :: "nat \<Rightarrow> u16 \<Rightarrow> bytes \<Rightarrow> bytes" where
  "put16 off v d = d(off := ucast v, off + 1 := ucast (drop_bit 8 v))"

text \<open>\<open>memmove(dst + doff, src + soff, n)\<close> between two different arrays.\<close>

definition copy_bytes :: "bytes \<Rightarrow> nat \<Rightarrow> bytes \<Rightarrow> nat \<Rightarrow> nat \<Rightarrow> bytes" where
  "copy_bytes dst doff src soff n = (\<lambda>k. if doff \<le> k \<and> k < doff + n then src (soff + (k - doff)) else dst k)"

lemma get32_put32 [simp]: "get32 (put32 off v d) off = v"
proof -
  have "get32 (put32 off v d) off = ucast (ucast v :: u8) OR
      push_bit 8 (ucast (ucast (drop_bit 8 v) :: u8)) OR
      push_bit 16 (ucast (ucast (drop_bit 16 v) :: u8)) OR
      push_bit 24 (ucast (ucast (drop_bit 24 v) :: u8))"
    by (simp add: get32_def put32_def)
  also have "\<dots> = v"
  proof (rule bit_word_eqI)
    fix n assume "n < LENGTH(32)"
    then consider "n < 8" | "8 \<le> n" "n < 16" | "16 \<le> n" "n < 24" | "24 \<le> n" "n < 32" by fastforce
    then show "bit (ucast (ucast v :: u8) OR
      push_bit 8 (ucast (ucast (drop_bit 8 v) :: u8)) OR
      push_bit 16 (ucast (ucast (drop_bit 16 v) :: u8)) OR
      push_bit 24 (ucast (ucast (drop_bit 24 v) :: u8)) :: u32) n = bit v n"
      by cases (auto simp: bit_simps less_diff_conv2)
  qed
  finally show ?thesis .
qed

lemma get16_put16 [simp]: "get16 (put16 off v d) off = v"
proof -
  have "get16 (put16 off v d) off = ucast (ucast v :: u8) OR push_bit 8 (ucast (ucast (drop_bit 8 v) :: u8))"
    by (simp add: get16_def put16_def)
  also have "\<dots> = v"
  proof (rule bit_word_eqI)
    fix n assume "n < LENGTH(16)"
    then consider "n < 8" | "8 \<le> n" "n < 16" by fastforce
    then show "bit (ucast (ucast v :: u8) OR push_bit 8 (ucast (ucast (drop_bit 8 v) :: u8)) :: u16) n = bit v n"
      by cases (auto simp: bit_simps less_diff_conv2)
  qed
  finally show ?thesis .
qed

text \<open>Fields that do not overlap do not interfere.\<close>

lemma get32_cong: "(\<And>k. off \<le> k \<Longrightarrow> k < off + 4 \<Longrightarrow> d k = e k) \<Longrightarrow> get32 d off = get32 e off"
  by (simp add: get32_def)

lemma get16_cong: "(\<And>k. off \<le> k \<Longrightarrow> k < off + 2 \<Longrightarrow> d k = e k) \<Longrightarrow> get16 d off = get16 e off"
  by (simp add: get16_def)

lemma put32_out: "k < off \<or> off + 4 \<le> k \<Longrightarrow> put32 off v d k = d k"
  by (auto simp: put32_def)

lemma put16_out: "k < off \<or> off + 2 \<le> k \<Longrightarrow> put16 off v d k = d k"
  by (auto simp: put16_def)

lemma get_put_other [simp]:
  "off + 4 \<le> o' \<or> o' + 4 \<le> off \<Longrightarrow> get32 (put32 off v d) o' = get32 d o'"
  "off + 2 \<le> o' \<or> o' + 4 \<le> off \<Longrightarrow> get32 (put16 off w d) o' = get32 d o'"
  "off + 4 \<le> o' \<or> o' + 2 \<le> off \<Longrightarrow> get16 (put32 off v d) o' = get16 d o'"
  "off + 2 \<le> o' \<or> o' + 2 \<le> off \<Longrightarrow> get16 (put16 off w d) o' = get16 d o'"
  by (auto intro!: get32_cong get16_cong put32_out put16_out)

end
