(* ===== verification/Bio.thy ===== *)
theory Bio
  imports Blocks
begin

text \<open>
  Sleep locks (\<open>sleeplock.c\<close>), the disk driver (\<open>memide.c\<close>) and the buffer cache (\<open>bio.c\<close>).  The cache is an array
  of 30 buffers and a circular doubly linked list through them, kept as the two pointer fields \<open>bnext\<close> and
  \<open>bprev\<close>; node 30 is \<open>bcache.head\<close>.  The theory shows that the pointer code implements a list with a
  move-to-front operation and that the cache is coherent: what \<open>bread\<close> returns is the current contents of
  the block, wherever it is.

  The functions run on behalf of the process \<open>curpid\<close>.  The spin locks \<open>bcache.lock\<close> and \<open>lk->lk\<close> are taken and released
  inside one function and never across a sleep, so a function is one atomic step here.  A sleep lock that is
  already held makes the function sleep, which is the outcome \<open>Sleeps\<close>.  The disk keeps, next to its blocks,
  the sequence of writes it has received, for reasoning about crashes.
\<close>

section \<open>Sleep locks\<close>

record sleeplock =
  sl_locked :: bool
  sl_pid :: u32

definition initsleeplock :: sleeplock where
  "initsleeplock = \<lparr>sl_locked = False, sl_pid = 0\<rparr>"

definition acquiresleep :: "u32 \<Rightarrow> (sleeplock, unit) kern" where
  "acquiresleep pid = (\<lambda>l. if sl_locked l then Sleeps ''acquiresleep''
     else Ok ((), l\<lparr>sl_locked := True, sl_pid := pid\<rparr>))"

definition releasesleep :: "(sleeplock, unit) kern" where
  "releasesleep = modk (\<lambda>l. l\<lparr>sl_locked := False, sl_pid := 0\<rparr>)"

definition holdingsleep :: "u32 \<Rightarrow> sleeplock \<Rightarrow> bool" where
  "holdingsleep pid l \<longleftrightarrow> sl_locked l \<and> sl_pid l = pid"

section \<open>State\<close>

definition NBUF :: nat where "NBUF = 30"

abbreviation HEAD :: nat where "HEAD \<equiv> NBUF"

record buf =
  b_valid :: bool      \<comment> \<open>\<open>B_VALID\<close>\<close>
  b_dirty :: bool      \<comment> \<open>\<open>B_DIRTY\<close>\<close>
  b_dev :: u32
  b_blockno :: u32
  b_lock :: sleeplock
  b_refcnt :: u32
  b_data :: bytes

text \<open>
  A block is the function of its 512 bytes; other indices have no meaning, and a copy of \<open>BSIZE\<close> bytes is the whole function.
\<close>

record bst =
  bufs :: "nat \<Rightarrow> buf"
  bnext :: "nat \<Rightarrow> nat"
  bprev :: "nat \<Rightarrow> nat"
  disk :: "nat \<Rightarrow> bytes"
  disksize :: nat
  writes :: "(nat \<times> bytes) list"  \<comment> \<open>all writes, in order\<close>
  curpid :: u32

type_synonym ('x, 'r) bkern = "('x bst_scheme, 'r) kern"

definition upd_buf :: "nat \<Rightarrow> (buf \<Rightarrow> buf) \<Rightarrow> 'x bst_scheme \<Rightarrow> 'x bst_scheme" where
  "upd_buf i f s = s\<lparr>bufs := (bufs s)(i := f (bufs s i))\<rparr>"

section \<open>The disk\<close>

definition disk_write :: "nat \<Rightarrow> bytes \<Rightarrow> 'x bst_scheme \<Rightarrow> 'x bst_scheme" where
  "disk_write k d s = s\<lparr>disk := (disk s)(k := d), writes := writes s @ [(k, d)]\<rparr>"

definition iderw :: "nat \<Rightarrow> ('x, unit) bkern" where
  "iderw i = (\<lambda>s. let b = bufs s i in
     if \<not> holdingsleep (curpid s) (b_lock b) then Panic ''iderw: buf not locked''
     else if b_valid b \<and> \<not> b_dirty b then Panic ''iderw: nothing to do''
     else if b_dev b \<noteq> 1 then Panic ''iderw: request not for disk 1''
     else if disksize s \<le> unat (b_blockno b) then Panic ''iderw: block out of range''
     else if b_dirty b then
       Ok ((), disk_write (unat (b_blockno b)) (b_data b) (upd_buf i (\<lambda>b. b\<lparr>b_dirty := False, b_valid := True\<rparr>) s))
     else Ok ((), upd_buf i (\<lambda>b. b\<lparr>b_data := disk s (unat (b_blockno b)), b_valid := True\<rparr>) s))"

section \<open>The buffer cache\<close>

fun binit_loop :: "nat list \<Rightarrow> 'x bst_scheme \<Rightarrow> 'x bst_scheme" where
  "binit_loop [] s = s"
| "binit_loop (b # bs) s =
     (let s1 = s\<lparr>bnext := (bnext s)(b := bnext s HEAD)\<rparr>;
          s2 = s1\<lparr>bprev := (bprev s1)(b := HEAD)\<rparr>;
          s3 = upd_buf b (\<lambda>x. x\<lparr>b_lock := initsleeplock\<rparr>) s2;
          s4 = s3\<lparr>bprev := (bprev s3)(bnext s3 HEAD := b)\<rparr>;
          s5 = s4\<lparr>bnext := (bnext s4)(HEAD := b)\<rparr>
      in binit_loop bs s5)"

definition binit :: "('x, unit) bkern" where
  "binit = modk (\<lambda>s. binit_loop [0 ..< NBUF]
     (s\<lparr>bprev := (bprev s)(HEAD := HEAD), bnext := (bnext s)(HEAD := HEAD)\<rparr>))"

text \<open>The two loops of \<open>bget\<close> follow \<open>next\<close> and \<open>prev\<close> until they are back at the head.\<close>

fun bscan :: "nat \<Rightarrow> (nat \<Rightarrow> nat) \<Rightarrow> (nat \<Rightarrow> bool) \<Rightarrow> nat \<Rightarrow> nat option outcome" where
  "bscan 0 link P b = Diverges"
| "bscan (Suc fuel) link P b =
     (if b = HEAD then Ok None else if P b then Ok (Some b) else bscan fuel link P (link b))"

definition block_is :: "u32 \<Rightarrow> u32 \<Rightarrow> 'x bst_scheme \<Rightarrow> nat \<Rightarrow> bool" where
  "block_is dev blockno s b \<longleftrightarrow> b_dev (bufs s b) = dev \<and> b_blockno (bufs s b) = blockno"

definition recyclable :: "'x bst_scheme \<Rightarrow> nat \<Rightarrow> bool" where
  "recyclable s b \<longleftrightarrow> b_refcnt (bufs s b) = 0 \<and> \<not> b_dirty (bufs s b)"

definition block_sleep :: "nat \<Rightarrow> ('x, unit) bkern" where
  "block_sleep b = (\<lambda>s. zoomk (\<lambda>s. b_lock (bufs s b)) (\<lambda>l. upd_buf b (\<lambda>x. x\<lparr>b_lock := l\<rparr>)) (acquiresleep (curpid s)) s)"

definition bget :: "u32 \<Rightarrow> u32 \<Rightarrow> ('x, nat) bkern" where
  "bget dev blockno = (\<lambda>s.
     case bscan (Suc NBUF) (bnext s) (block_is dev blockno s) (bnext s HEAD) of
       Ok (Some b) \<Rightarrow>
         bindk (block_sleep b) (\<lambda>_. ret b) (upd_buf b (\<lambda>x. x\<lparr>b_refcnt := b_refcnt x + 1\<rparr>) s)
     | Ok None \<Rightarrow>
         (case bscan (Suc NBUF) (bprev s) (recyclable s) (bprev s HEAD) of
            Ok (Some b) \<Rightarrow>
              bindk (block_sleep b) (\<lambda>_. ret b)
                (upd_buf b (\<lambda>x. x\<lparr>b_dev := dev, b_blockno := blockno, b_valid := False, b_dirty := False,
                                  b_refcnt := 1\<rparr>) s)
          | Ok None \<Rightarrow> Panic ''bget: no buffers''
          | _ \<Rightarrow> Diverges)
     | _ \<Rightarrow> Diverges)"

definition bread :: "u32 \<Rightarrow> u32 \<Rightarrow> ('x, nat) bkern" where
  "bread dev blockno = bindk (bget dev blockno) (\<lambda>b s.
     seqk (whenk (\<not> b_valid (bufs s b)) (iderw b)) (ret b) s)"

definition bwrite :: "nat \<Rightarrow> ('x, unit) bkern" where
  "bwrite b = (\<lambda>s. if \<not> holdingsleep (curpid s) (b_lock (bufs s b)) then Panic ''bwrite''
     else iderw b (upd_buf b (\<lambda>x. x\<lparr>b_dirty := True\<rparr>) s))"

definition lru_unlink :: "nat \<Rightarrow> 'x bst_scheme \<Rightarrow> 'x bst_scheme" where
  "lru_unlink b s =
     (let s1 = s\<lparr>bprev := (bprev s)(bnext s b := bprev s b)\<rparr>
      in s1\<lparr>bnext := (bnext s1)(bprev s1 b := bnext s1 b)\<rparr>)"

definition lru_push :: "nat \<Rightarrow> 'x bst_scheme \<Rightarrow> 'x bst_scheme" where
  "lru_push b s =
     (let s1 = s\<lparr>bnext := (bnext s)(b := bnext s HEAD)\<rparr>;
          s2 = s1\<lparr>bprev := (bprev s1)(b := HEAD)\<rparr>;
          s3 = s2\<lparr>bprev := (bprev s2)(bnext s2 HEAD := b)\<rparr>
      in s3\<lparr>bnext := (bnext s3)(HEAD := b)\<rparr>)"

definition brelse :: "nat \<Rightarrow> ('x, unit) bkern" where
  "brelse b = (\<lambda>s. if \<not> holdingsleep (curpid s) (b_lock (bufs s b)) then Panic ''brelse''
     else let s1 = upd_buf b (\<lambda>x. x\<lparr>b_lock := (b_lock x)\<lparr>sl_locked := False, sl_pid := 0\<rparr>\<rparr>) s;
              s2 = upd_buf b (\<lambda>x. x\<lparr>b_refcnt := b_refcnt x - 1\<rparr>) s1
          in Ok ((), if b_refcnt (bufs s2 b) = 0 then lru_push b (lru_unlink b s2) else s2))"

section \<open>The linked list\<close>

text \<open>\<open>seg nx pv a xs z\<close>: from node \<open>a\<close>, the links lead through \<open>xs\<close> to \<open>z\<close>, and the back links lead back.\<close>

fun seg :: "(nat \<Rightarrow> nat) \<Rightarrow> (nat \<Rightarrow> nat) \<Rightarrow> nat \<Rightarrow> nat list \<Rightarrow> nat \<Rightarrow> bool" where
  "seg nx pv a [] z \<longleftrightarrow> nx a = z \<and> pv z = a"
| "seg nx pv a (x # xs) z \<longleftrightarrow> nx a = x \<and> pv x = a \<and> seg nx pv x xs z"

definition lru :: "'x bst_scheme \<Rightarrow> nat list \<Rightarrow> bool" where
  "lru s xs \<longleftrightarrow> distinct xs \<and> HEAD \<notin> set xs \<and> seg (bnext s) (bprev s) HEAD xs HEAD"

lemma seg_append: "seg nx pv a (ys @ b # zs) z \<longleftrightarrow> seg nx pv a ys b \<and> seg nx pv b zs z"
  by (induction ys arbitrary: a) auto

lemma seg_next_upd: "c \<notin> insert a (set xs) \<Longrightarrow> seg (nx(c := v)) pv a xs z = seg nx pv a xs z"
  by (induction xs arbitrary: a) auto

lemma seg_prev_upd: "c \<notin> insert z (set xs) \<Longrightarrow> seg nx (pv(c := v)) a xs z = seg nx pv a xs z"
  by (induction xs arbitrary: a) auto

lemma seg_rev: "seg nx pv a xs z \<longleftrightarrow> seg pv nx z (rev xs) a"
proof (induction xs arbitrary: a)
  case Nil
  then show ?case by auto
next
  case (Cons x xs)
  then show ?case by (auto simp: seg_append)
qed

text \<open>A doubly linked list without the node \<open>b\<close> in the middle.\<close>

lemma seg_unlink:
  assumes "seg nx pv a ys b" "seg nx pv b zs z" "distinct (ys @ b # zs)" "a \<notin> set (b # zs)" "z \<notin> set (ys @ [b])"
    and az: "a \<notin> set ys" "z \<notin> set zs"
  shows "seg (nx(pv b := nx b)) (pv(nx b := pv b)) a (ys @ zs) z"
proof (cases zs)
  case Nil
  have nb: "nx b = z" using assms(2) Nil by simp
  show ?thesis
  proof (cases ys rule: rev_cases)
    case Nil
    with \<open>zs = []\<close> assms(1) nb show ?thesis by simp
  next
    case (snoc us l)
    have l: "seg nx pv a us l" "pv b = l" using assms(1) snoc by (auto simp: seg_append)
    have "seg (nx(l := z)) (pv(z := l)) a us l"
      using l(1) assms snoc by (subst seg_next_upd, fastforce, subst seg_prev_upd) auto
    then show ?thesis using Nil snoc l(2) nb by (simp add: seg_append)
  qed
next
  case (Cons f vs)
  have f: "nx b = f" "seg nx pv f vs z" using assms(2) Cons by auto
  have tail: "seg (nx(p := f)) (pv(f := p)) f vs z" if "p \<notin> set (f # vs)" for p
    using that f(2) assms Cons by (subst seg_next_upd, fastforce, subst seg_prev_upd) auto
  show ?thesis
  proof (cases ys rule: rev_cases)
    case Nil
    with assms(1) have "pv b = a" by simp
    with Nil Cons f tail [of a] assms show ?thesis by simp
  next
    case (snoc us l)
    have l: "seg nx pv a us l" "pv b = l" using assms(1) snoc by (auto simp: seg_append)
    have "seg (nx(l := f)) (pv(f := l)) a us l"
      using l(1) assms snoc Cons by (subst seg_next_upd, fastforce, subst seg_prev_upd) auto
    moreover have "seg (nx(l := f)) (pv(f := l)) f vs z" using tail [of l] assms snoc Cons by auto
    ultimately show ?thesis using snoc Cons l(2) f(1) by (simp add: seg_append)
  qed
qed

lemma lru_unlink_ok:
  assumes "lru s (ys @ b # zs)"
  shows "lru (lru_unlink b s) (ys @ zs)"
proof -
  have d: "distinct (ys @ b # zs)" "HEAD \<notin> set (ys @ b # zs)"
    and g: "seg (bnext s) (bprev s) HEAD ys b" "seg (bnext s) (bprev s) b zs HEAD"
    using assms by (auto simp: lru_def seg_append)
  have "bprev (lru_unlink b s) = (bprev s)(bnext s b := bprev s b)" by (simp add: lru_unlink_def)
  moreover have "bnext s b \<noteq> b" using d g(2) by (cases zs) auto
  then have "bnext (lru_unlink b s) = (bnext s)(bprev s b := bnext s b)" by (simp add: lru_unlink_def)
  ultimately show ?thesis using seg_unlink [OF g d(1)] d by (auto simp: lru_def)
qed

lemma lru_push_ok:
  assumes "lru s xs" "b \<notin> set xs" "b \<noteq> HEAD"
  shows "lru (lru_push b s) (b # xs)"
proof -
  have d: "distinct xs" "HEAD \<notin> set xs" and g: "seg (bnext s) (bprev s) HEAD xs HEAD"
    using assms(1) by (auto simp: lru_def)
  have n: "bnext (lru_push b s) = (bnext s)(b := bnext s HEAD, HEAD := b)"
    and p: "bprev (lru_push b s) = (bprev s)(b := HEAD, bnext s HEAD := b)"
    using assms(3) by (auto simp: lru_push_def)
  have "seg (bnext (lru_push b s)) (bprev (lru_push b s)) b xs HEAD"
  proof (cases xs)
    case Nil
    then show ?thesis using g assms(3) by (simp add: n p)
  next
    case (Cons x us)
    have x: "bnext s HEAD = x" "seg (bnext s) (bprev s) x us HEAD" using g Cons by auto
    have "seg ((bnext s)(b := x, HEAD := b)) ((bprev s)(b := HEAD, x := b)) x us HEAD"
      using x(2) d assms(2,3) Cons
      by (subst seg_next_upd, fastforce, subst seg_next_upd, fastforce, subst seg_prev_upd, fastforce,
          subst seg_prev_upd) auto
    then show ?thesis using x Cons assms(2,3) d by (simp add: n p)
  qed
  moreover have "bnext s HEAD \<noteq> b" using g assms(2,3) by (cases xs) auto
  ultimately show ?thesis using d assms(2,3) by (simp add: lru_def n p)
qed

lemma bscan_seg:
  assumes "seg nx pv a xs HEAD" "HEAD \<notin> set xs" "length xs < fuel"
  shows "bscan fuel nx P (nx a) = Ok (find P xs)"
  using assms
proof (induction xs arbitrary: a fuel)
  case Nil
  then show ?case by (cases fuel) auto
next
  case (Cons x xs)
  then show ?case by (cases fuel) auto
qed

declare bscan.simps [simp del]

section \<open>Coherence\<close>

text \<open>
  \<open>slot_ok\<close> is the invariant of one buffer; \<open>h\<close> says whether the current process holds it.  A held buffer may differ
  from the disk (it is being modified), every other clean buffer is a copy of its block.
\<close>

definition slot_ok :: "'x bst_scheme \<Rightarrow> bool \<Rightarrow> buf \<Rightarrow> bool" where
  "slot_ok s h b \<longleftrightarrow>
     (b_valid b \<longrightarrow> b_dev b = 1 \<and> unat (b_blockno b) < disksize s) \<and>
     (b_dirty b \<longrightarrow> b_valid b) \<and>
     (if h then b_valid b \<and> b_refcnt b = 1 \<and> b_lock b = \<lparr>sl_locked = True, sl_pid = curpid s\<rparr>
      else b_refcnt b = 0 \<and> \<not> sl_locked (b_lock b) \<and>
        (b_valid b \<longrightarrow> \<not> b_dirty b \<longrightarrow> b_data b = disk s (unat (b_blockno b))))"

definition keys_distinct :: "'x bst_scheme \<Rightarrow> bool" where
  "keys_distinct s \<longleftrightarrow> (\<forall>i < NBUF. \<forall>j < NBUF. b_dev (bufs s i) = 1 \<longrightarrow> b_dev (bufs s j) = 1 \<longrightarrow>
     b_blockno (bufs s i) = b_blockno (bufs s j) \<longrightarrow> i = j)"

definition list_ok :: "'x bst_scheme \<Rightarrow> bool" where
  "list_ok s \<longleftrightarrow> (\<exists>xs. lru s xs \<and> set xs = {..< NBUF})"

definition cache_ok :: "nat set \<Rightarrow> 'x bst_scheme \<Rightarrow> bool" where
  "cache_ok H s \<longleftrightarrow> list_ok s \<and> keys_distinct s \<and> H \<subseteq> {..< NBUF} \<and>
     (\<forall>i < NBUF. slot_ok s (i \<in> H) (bufs s i))"

definition cached :: "'x bst_scheme \<Rightarrow> nat \<Rightarrow> nat \<Rightarrow> bool" where
  "cached s k i \<longleftrightarrow> b_valid (bufs s i) \<and> unat (b_blockno (bufs s i)) = k"

text \<open>The current contents of a block: the cached copy, or the disk.\<close>

definition bview :: "'x bst_scheme \<Rightarrow> nat \<Rightarrow> bytes" where
  "bview s k = (case find (cached s k) [0 ..< NBUF] of Some i \<Rightarrow> b_data (bufs s i) | None \<Rightarrow> disk s k)"

definition dirty_bufs :: "'x bst_scheme \<Rightarrow> nat set" where
  "dirty_bufs s = {i. i < NBUF \<and> b_dirty (bufs s i)}"

definition dirty_blocks :: "'x bst_scheme \<Rightarrow> nat set" where
  "dirty_blocks s = (\<lambda>i. unat (b_blockno (bufs s i))) ` dirty_bufs s"

lemma cache_okD:
  assumes "cache_ok H s"
  shows "list_ok s" "keys_distinct s" "H \<subseteq> {..< NBUF}" "i < NBUF \<Longrightarrow> slot_ok s (i \<in> H) (bufs s i)"
  using assms by (simp_all add: cache_ok_def)

lemma cached_unique:
  assumes "cache_ok H s" "i < NBUF" "j < NBUF" "cached s k i" "cached s k j"
  shows "i = j"
proof -
  have "b_dev (bufs s i) = 1" "b_dev (bufs s j) = 1"
    using assms cache_okD(4) [OF assms(1)] by (auto simp: slot_ok_def cached_def)
  moreover have "b_blockno (bufs s i) = b_blockno (bufs s j)"
    using assms(4,5) by (auto simp: cached_def word_unat_eq_iff)
  ultimately show ?thesis using cache_okD(2) [OF assms(1)] assms(2,3) by (auto simp: keys_distinct_def)
qed

lemma bview_cached:
  assumes "cache_ok H s" "i < NBUF" "cached s k i"
  shows "bview s k = b_data (bufs s i)"
proof -
  have "find (cached s k) [0 ..< NBUF] \<noteq> None" using assms(2,3) by (auto simp: find_None_iff)
  then obtain j where j: "find (cached s k) [0 ..< NBUF] = Some j" by blast
  then have "j < NBUF" "cached s k j" by (auto simp: find_Some_iff)
  then have "j = i" using cached_unique [OF assms(1)] assms by blast
  then show ?thesis by (simp add: bview_def j)
qed

lemma bview_uncached:
  assumes "\<forall>i < NBUF. \<not> cached s k i"
  shows "bview s k = disk s k"
proof -
  have "find (cached s k) [0 ..< NBUF] = None" using assms by (auto simp: find_None_iff)
  then show ?thesis by (simp add: bview_def)
qed

lemma bview_clean:
  assumes "cache_ok H s" "\<And>i. i < NBUF \<Longrightarrow> cached s k i \<Longrightarrow> i \<notin> H \<and> \<not> b_dirty (bufs s i)"
  shows "bview s k = disk s k"
proof (cases "\<exists>i < NBUF. cached s k i")
  case True
  then obtain i where i: "i < NBUF" "cached s k i" by blast
  then have "b_data (bufs s i) = disk s k"
    using assms(2) [OF i] cache_okD(4) [OF assms(1) i(1)] by (auto simp: slot_ok_def cached_def)
  then show ?thesis using bview_cached [OF assms(1) i] by simp
next
  case False
  then show ?thesis by (intro bview_uncached) auto
qed

lemma upd_buf_fields [simp]:
  "bnext (upd_buf i f s) = bnext s" "bprev (upd_buf i f s) = bprev s" "disk (upd_buf i f s) = disk s"
  "disksize (upd_buf i f s) = disksize s" "writes (upd_buf i f s) = writes s" "curpid (upd_buf i f s) = curpid s"
  "bst.more (upd_buf i f s) = bst.more s" "bufs (upd_buf i f s) = (bufs s)(i := f (bufs s i))"
  by (simp_all add: upd_buf_def)

lemma upd_buf_twice: "upd_buf i g (upd_buf i f s) = upd_buf i (g \<circ> f) s"
  by (simp add: upd_buf_def)

lemma lru_cong: "bnext t = bnext s \<Longrightarrow> bprev t = bprev s \<Longrightarrow> lru t xs = lru s xs"
  by (simp add: lru_def)

lemma list_ok_cong: "bnext t = bnext s \<Longrightarrow> bprev t = bprev s \<Longrightarrow> list_ok t = list_ok s"
  by (simp add: list_ok_def lru_def)

lemma slot_ok_cong:
  "disksize t = disksize s \<Longrightarrow> curpid t = curpid s \<Longrightarrow> disk t = disk s \<Longrightarrow> slot_ok t h b = slot_ok s h b"
  by (simp add: slot_ok_def)

lemma bscan_list:
  assumes "lru s xs" "set xs = {..< NBUF}"
  shows "bscan (Suc NBUF) (bnext s) P (bnext s HEAD) = Ok (find P xs)"
    and "bscan (Suc NBUF) (bprev s) P (bprev s HEAD) = Ok (find P (rev xs))"
proof -
  have "length xs = NBUF" using assms distinct_card [of xs] by (simp add: lru_def)
  then show "bscan (Suc NBUF) (bnext s) P (bnext s HEAD) = Ok (find P xs)"
    using assms(1) by (intro bscan_seg) (auto simp: lru_def)
  have "seg (bprev s) (bnext s) HEAD (rev xs) HEAD"
    using assms(1) seg_rev [of "bnext s" "bprev s"] by (simp add: lru_def)
  then show "bscan (Suc NBUF) (bprev s) P (bprev s HEAD) = Ok (find P (rev xs))"
    using assms \<open>length xs = NBUF\<close> by (intro bscan_seg) (auto simp: lru_def)
qed

lemma lock_upd: "(l :: sleeplock)\<lparr>sl_locked := a, sl_pid := p\<rparr> = \<lparr>sl_locked = a, sl_pid = p\<rparr>"
  by (cases l) simp

text \<open>
  What \<open>bget\<close> does to the buffer it returns: a valid buffer is the cached block, any other has been recycled.
\<close>

definition got_buf :: "'x bst_scheme \<Rightarrow> u32 \<Rightarrow> nat \<Rightarrow> buf \<Rightarrow> bool" where
  "got_buf s bn b x \<longleftrightarrow> b_dev x = 1 \<and> b_blockno x = bn \<and> b_refcnt x = 1 \<and>
     b_lock x = \<lparr>sl_locked = True, sl_pid = curpid s\<rparr> \<and>
     (if b_valid x then cached s (unat bn) b \<and> b_data x = b_data (bufs s b) \<and> b_dirty x = b_dirty (bufs s b)
      else \<not> b_dirty x \<and> \<not> b_dirty (bufs s b) \<and> (\<forall>i < NBUF. \<not> cached s (unat bn) i))"

lemma bget_ok:
  assumes c: "cache_ok H s"
    and free: "\<And>i. i \<in> H \<Longrightarrow> b_blockno (bufs s i) \<noteq> bn"
    and room: "(\<exists>i < NBUF. i \<notin> H \<and> \<not> b_dirty (bufs s i)) \<or> (\<exists>i < NBUF. cached s (unat bn) i)"
  shows "\<exists>b g. bget 1 bn s = Ok (b, upd_buf b g s) \<and> b < NBUF \<and> b \<notin> H \<and> got_buf s bn b (g (bufs s b)) \<and>
     (\<forall>j < NBUF. j \<noteq> b \<longrightarrow> b_dev (bufs s j) = 1 \<longrightarrow> b_blockno (bufs s j) \<noteq> bn)"
proof -
  obtain xs where xs: "lru s xs" "set xs = {..< NBUF}" using cache_okD(1) [OF c] by (auto simp: list_ok_def)
  have slot: "slot_ok s (i \<in> H) (bufs s i)" if "i < NBUF" for i using cache_okD(4) [OF c that] .
  have acq: "\<not> sl_locked (b_lock (bufs t b)) \<Longrightarrow> bindk (block_sleep b) (\<lambda>_. ret b) t =
      Ok (b, upd_buf b (\<lambda>x. x\<lparr>b_lock := \<lparr>sl_locked = True, sl_pid = curpid t\<rparr>\<rparr>) t)" for b and t :: "'a bst_scheme"
    by (simp add: kern_simps block_sleep_def zoomk_def acquiresleep_def lock_upd)
  show ?thesis
  proof (cases "find (block_is 1 bn s) xs")
    case (Some b)
    then have b: "b < NBUF" "b_dev (bufs s b) = 1" "b_blockno (bufs s b) = bn"
      using xs(2) by (auto simp: find_Some_iff block_is_def set_conv_nth)
    then have nb: "b \<notin> H" using free by blast
    let ?g = "(\<lambda>x. x\<lparr>b_lock := \<lparr>sl_locked = True, sl_pid = curpid s\<rparr>\<rparr>) \<circ> (\<lambda>x. x\<lparr>b_refcnt := b_refcnt x + 1\<rparr>)"
    have "bget 1 bn s = Ok (b, upd_buf b ?g s)"
      using slot [OF b(1)] nb by (simp add: bget_def bscan_list [OF xs] Some acq upd_buf_twice slot_ok_def)
    moreover have "got_buf s bn b (?g (bufs s b))"
    proof -
      have "\<forall>i < NBUF. cached s (unat bn) i \<longrightarrow> b_valid (bufs s b)"
        using b slot cache_okD(2) [OF c] by (auto simp: keys_distinct_def cached_def slot_ok_def word_unat_eq_iff)
      then show ?thesis using b slot [OF b(1)] nb by (auto simp: got_buf_def slot_ok_def cached_def)
    qed
    ultimately show ?thesis using b nb cache_okD(2) [OF c] by (fastforce simp: keys_distinct_def)
  next
    case None
    have un: "b_dev (bufs s i) = 1 \<Longrightarrow> b_blockno (bufs s i) \<noteq> bn" if "i < NBUF" for i
      using None xs(2) that by (auto simp: find_None_iff block_is_def)
    have unc: "\<not> cached s (unat bn) i" if "i < NBUF" for i
      using un [OF that] slot [OF that] by (auto simp: cached_def slot_ok_def word_unat_eq_iff)
    obtain j where j: "j < NBUF" "j \<notin> H" "\<not> b_dirty (bufs s j)" using room unc by blast
    then have "recyclable s j" using slot [OF j(1)] by (simp add: recyclable_def slot_ok_def)
    then have "find (recyclable s) (rev xs) \<noteq> None" using j(1) xs(2) by (auto simp: find_None_iff)
    then obtain b where f: "find (recyclable s) (rev xs) = Some b" by blast
    have "recyclable s b" "b \<in> set (rev xs)"
      using f unfolding find_Some_iff by (metis nth_mem)+
    then have b: "b_refcnt (bufs s b) = 0" "\<not> b_dirty (bufs s b)" "b < NBUF"
      using xs(2) by (auto simp: recyclable_def)
    have nb: "b \<notin> H" using slot [OF b(3)] b(1) by (auto simp: slot_ok_def)
    let ?g = "(\<lambda>x. x\<lparr>b_lock := \<lparr>sl_locked = True, sl_pid = curpid s\<rparr>\<rparr>) \<circ>
      (\<lambda>x. x\<lparr>b_dev := 1, b_blockno := bn, b_valid := False, b_dirty := False, b_refcnt := 1\<rparr>)"
    have "bget 1 bn s = Ok (b, upd_buf b ?g s)"
      using slot [OF b(3)] nb by (simp add: bget_def bscan_list [OF xs] None f acq upd_buf_twice slot_ok_def)
    moreover have "got_buf s bn b (?g (bufs s b))" using b unc by (simp add: got_buf_def)
    ultimately show ?thesis using b(3) nb un by blast
  qed
qed

section \<open>Effect of the operations on the contents of blocks\<close>

text \<open>\<open>same_disk s t\<close>: nothing outside the cache has changed, and the dirty blocks are the same.\<close>

definition same_disk :: "'x bst_scheme \<Rightarrow> 'x bst_scheme \<Rightarrow> bool" where
  "same_disk s t \<longleftrightarrow> disk t = disk s \<and> disksize t = disksize s \<and> writes t = writes s \<and> curpid t = curpid s \<and>
     bst.more t = bst.more s"

lemma same_disk_refl [simp]: "same_disk s s"
  by (simp add: same_disk_def)

lemma same_disk_trans: "same_disk s t \<Longrightarrow> same_disk t u \<Longrightarrow> same_disk s u"
  by (simp add: same_disk_def)

lemma upd_buf_same_disk [simp]: "same_disk s (upd_buf i f s)"
  by (simp add: same_disk_def)

lemma upd_buf_const: "upd_buf b g s = upd_buf b (\<lambda>_. g (bufs s b)) s"
  by (simp add: upd_buf_def)

lemma cache_ok_upd:
  assumes c: "cache_ok H s" and b: "b < NBUF" and x: "slot_ok s h x"
    and keys: "b_dev x = 1 \<Longrightarrow> (\<forall>j < NBUF. j \<noteq> b \<longrightarrow> b_dev (bufs s j) = 1 \<longrightarrow> b_blockno (bufs s j) \<noteq> b_blockno x)"
    and H': "H' = (if h then insert b H else H - {b})"
  shows "cache_ok H' (upd_buf b (\<lambda>_. x) s)"
proof -
  let ?t = "upd_buf b (\<lambda>_. x) s"
  have "list_ok ?t" using cache_okD(1) [OF c] list_ok_cong [of ?t s] by simp
  moreover have "keys_distinct ?t"
    using cache_okD(2) [OF c] keys unfolding keys_distinct_def by auto
  moreover have "slot_ok ?t (i \<in> H') (bufs ?t i)" if "i < NBUF" for i
    using cache_okD(4) [OF c that] x H' slot_ok_cong [of ?t s] by (cases h) simp_all
  moreover have "H' \<subseteq> {..< NBUF}" using cache_okD(3) [OF c] b H' by auto
  ultimately show ?thesis by (simp add: cache_ok_def)
qed

text \<open>Two states of the cache that hold the same blocks give the same contents.\<close>

lemma bview_cong:
  assumes "\<And>i. i < NBUF \<Longrightarrow> cached t k i = cached s k i \<and> (cached s k i \<longrightarrow> b_data (bufs t i) = b_data (bufs s i))"
    and "disk t k = disk s k"
  shows "bview t k = bview s k"
proof -
  have f: "find (cached t k) [0 ..< NBUF] = find (cached s k) [0 ..< NBUF]"
    using assms(1) by (intro find_cong) auto
  show ?thesis
  proof (cases "find (cached s k) [0 ..< NBUF]")
    case None
    then show ?thesis using assms(2) f by (simp add: bview_def)
  next
    case (Some i)
    then have "i < NBUF" "cached s k i" by (auto simp: find_Some_iff)
    then show ?thesis using assms(1) [of i] f Some by (simp add: bview_def)
  qed
qed

lemma fetch_ok:
  assumes c: "cache_ok H s" and b: "b < NBUF" "b \<notin> H" and bn: "unat bn < disksize s"
    and x: "b_dev x = 1" "b_blockno x = bn" "b_refcnt x = 1" "b_valid x"
      "b_lock x = \<lparr>sl_locked = True, sl_pid = curpid s\<rparr>"
    and others: "\<forall>j < NBUF. j \<noteq> b \<longrightarrow> b_dev (bufs s j) = 1 \<longrightarrow> b_blockno (bufs s j) \<noteq> bn"
    and how: "cached s (unat bn) b \<and> b_data x = b_data (bufs s b) \<and> b_dirty x = b_dirty (bufs s b) \<or>
      \<not> b_dirty x \<and> \<not> b_dirty (bufs s b) \<and> (\<forall>i < NBUF. \<not> cached s (unat bn) i) \<and> b_data x = disk s (unat bn)"
  defines "t \<equiv> upd_buf b (\<lambda>_. x) s"
  shows "cache_ok (insert b H) t" "b_data x = bview s (unat bn)" "bview t = bview s" "dirty_blocks t = dirty_blocks s"
proof -
  have tb [simp]: "bufs t = (bufs s)(b := x)" by (simp add: t_def)
  show ok: "cache_ok (insert b H) t" unfolding t_def
    using others x bn by (intro cache_ok_upd [OF c b(1), of True]) (auto simp: slot_ok_def)
  show dat: "b_data x = bview s (unat bn)"
    using how bview_cached [OF c b(1)] bview_uncached [of s "unat bn"] by auto
  show "bview t = bview s"
  proof
    fix k
    show "bview t k = bview s k"
    proof (cases "k = unat bn")
      case True
      have "cached t k b" using x True by (simp add: cached_def)
      then show ?thesis using bview_cached [OF ok b(1)] dat True by simp
    next
      case False
      have tk: "cached t k i \<longleftrightarrow> i \<noteq> b \<and> cached s k i" for i
        using False x by (auto simp: cached_def)
      show ?thesis
      proof (cases "cached s k b")
        case True
        have clean: "\<not> b_dirty (bufs s b)" using how True False by (auto simp: cached_def)
        have only: "i = b" if "i < NBUF" "cached s k i" for i using cached_unique [OF c] that b(1) True by blast
        have "bview s k = disk s k" using only b(2) clean by (intro bview_clean [OF c]) auto
        moreover have "bview t k = disk t k" using only tk by (intro bview_uncached) auto
        ultimately show ?thesis by (simp add: t_def)
      next
        case no: False
        then show ?thesis using tk by (intro bview_cong) (auto simp: t_def)
      qed
    qed
  qed
  have "b_dirty x = b_dirty (bufs s b)" "b_dirty x \<Longrightarrow> b_blockno (bufs s b) = bn"
    using how by (auto simp: cached_def word_unat_eq_iff)
  then show "dirty_blocks t = dirty_blocks s"
    using x(2) by (intro set_eqI) (auto simp: dirty_blocks_def dirty_bufs_def image_iff)
qed

text \<open>There is a buffer to recycle unless all are held or dirty.\<close>

lemma room_card:
  assumes c: "cache_ok H s" and "card H + card (dirty_blocks s) < NBUF"
  shows "\<exists>i < NBUF. i \<notin> H \<and> \<not> b_dirty (bufs s i)"
proof (rule ccontr)
  assume "\<not> ?thesis"
  then have sub: "{..< NBUF} \<subseteq> H \<union> dirty_bufs s" by (auto simp: dirty_bufs_def)
  have "inj_on (\<lambda>i. unat (b_blockno (bufs s i))) (dirty_bufs s)"
    using c cache_okD(4) [OF c] unfolding inj_on_def
    by (auto simp: dirty_bufs_def slot_ok_def cached_def intro: cached_unique [OF c])
  then have "card (dirty_bufs s) = card (dirty_blocks s)" by (simp add: dirty_blocks_def card_image)
  moreover have "finite (dirty_bufs s)" "finite H"
    using cache_okD(3) [OF c] finite_subset by (auto simp: dirty_bufs_def)
  then have "NBUF \<le> card (H \<union> dirty_bufs s)" using card_mono [OF _ sub] by simp
  then have "NBUF \<le> card H + card (dirty_bufs s)" using card_Un_le [of H "dirty_bufs s"] by linarith
  ultimately show False using assms(2) by simp
qed

lemma dirty_cached:
  assumes "cache_ok H s" "k \<in> dirty_blocks s"
  shows "\<exists>i < NBUF. cached s k i \<and> b_dirty (bufs s i)"
  using assms(2) cache_okD(4) [OF assms(1)]
  by (fastforce simp: dirty_blocks_def dirty_bufs_def cached_def slot_ok_def)

lemma room_cached:
  assumes "cache_ok H s" "card H + card (dirty_blocks s) < NBUF \<or> unat bn \<in> dirty_blocks s"
  shows "(\<exists>i < NBUF. i \<notin> H \<and> \<not> b_dirty (bufs s i)) \<or> (\<exists>i < NBUF. cached s (unat bn) i)"
  using assms(2) room_card [OF assms(1)] dirty_cached [OF assms(1)] by blast

lemma bread_ok:
  assumes c: "cache_ok H s" and bn: "unat bn < disksize s"
    and free: "\<And>i. i \<in> H \<Longrightarrow> b_blockno (bufs s i) \<noteq> bn"
    and room: "card H + card (dirty_blocks s) < NBUF \<or> unat bn \<in> dirty_blocks s"
  shows "\<exists>b t. bread 1 bn s = Ok (b, t) \<and> b < NBUF \<and> b \<notin> H \<and> cache_ok (insert b H) t \<and>
     b_blockno (bufs t b) = bn \<and> b_data (bufs t b) = bview s (unat bn) \<and> bview t = bview s \<and>
     dirty_blocks t = dirty_blocks s \<and> same_disk s t \<and> (\<forall>j. j \<noteq> b \<longrightarrow> bufs t j = bufs s j)"
proof -
  obtain b g where g: "bget 1 bn s = Ok (b, upd_buf b g s)" and b: "b < NBUF" "b \<notin> H"
    and gb: "got_buf s bn b (g (bufs s b))"
    and others: "\<forall>j < NBUF. j \<noteq> b \<longrightarrow> b_dev (bufs s j) = 1 \<longrightarrow> b_blockno (bufs s j) \<noteq> bn"
    using bget_ok [OF c free room_cached [OF c room]] by blast
  let ?y = "g (bufs s b)"
  define x where "x = (if b_valid ?y then ?y else ?y\<lparr>b_data := disk s (unat bn), b_valid := True\<rparr>)"
  have run: "bread 1 bn s = Ok (b, upd_buf b (\<lambda>_. x) s)"
  proof (cases "b_valid ?y")
    case True
    then show ?thesis by (simp add: bread_def kern_simps g x_def upd_buf_const [of b g s])
  next
    case False
    then have "iderw b (upd_buf b g s) = Ok ((), upd_buf b (\<lambda>_. x) s)"
      using gb bn by (simp add: iderw_def Let_def holdingsleep_def got_buf_def upd_buf_twice comp_def x_def)
    then show ?thesis using False by (simp add: bread_def kern_simps g)
  qed
  have x: "b_dev x = 1" "b_blockno x = bn" "b_refcnt x = 1" "b_valid x"
      "b_lock x = \<lparr>sl_locked = True, sl_pid = curpid s\<rparr>"
    and how: "cached s (unat bn) b \<and> b_data x = b_data (bufs s b) \<and> b_dirty x = b_dirty (bufs s b) \<or>
      \<not> b_dirty x \<and> \<not> b_dirty (bufs s b) \<and> (\<forall>i < NBUF. \<not> cached s (unat bn) i) \<and> b_data x = disk s (unat bn)"
    using gb by (auto simp: got_buf_def x_def split: if_splits)
  have "cache_ok (insert b H) (upd_buf b (\<lambda>_. x) s)" "b_data x = bview s (unat bn)"
    "bview (upd_buf b (\<lambda>_. x) s) = bview s" "dirty_blocks (upd_buf b (\<lambda>_. x) s) = dirty_blocks s"
    using fetch_ok [OF c b bn x others how] by auto
  with run b x(2) show ?thesis
    by (intro exI [of _ b] exI [of _ "upd_buf b (\<lambda>_. x) s"]) simp
qed

definition set_data :: "bytes \<Rightarrow> buf \<Rightarrow> buf" where
  "set_data d b = b\<lparr>b_data := d\<rparr>"

lemma held_facts:
  assumes "cache_ok H s" "b \<in> H"
  shows "b < NBUF" "b_valid (bufs s b)" "b_dev (bufs s b) = 1" "unat (b_blockno (bufs s b)) < disksize s"
    "b_refcnt (bufs s b) = 1" "b_lock (bufs s b) = \<lparr>sl_locked = True, sl_pid = curpid s\<rparr>"
    "holdingsleep (curpid s) (b_lock (bufs s b))" "cached s (unat (b_blockno (bufs s b))) b"
proof -
  show b: "b < NBUF" using assms cache_okD(3) by blast
  show "b_valid (bufs s b)" "b_dev (bufs s b) = 1" "unat (b_blockno (bufs s b)) < disksize s"
    "b_refcnt (bufs s b) = 1" "b_lock (bufs s b) = \<lparr>sl_locked = True, sl_pid = curpid s\<rparr>"
    "holdingsleep (curpid s) (b_lock (bufs s b))" "cached s (unat (b_blockno (bufs s b))) b"
    using cache_okD(4) [OF assms(1) b] assms(2) by (auto simp: slot_ok_def holdingsleep_def cached_def)
qed

lemma keys_others:
  assumes "cache_ok H s" "b < NBUF" "b_dev (bufs s b) = 1"
  shows "\<forall>j < NBUF. j \<noteq> b \<longrightarrow> b_dev (bufs s j) = 1 \<longrightarrow> b_blockno (bufs s j) \<noteq> b_blockno (bufs s b)"
  using cache_okD(2) [OF assms(1)] assms(2,3) by (auto simp: keys_distinct_def)

lemma others_uncached:
  assumes "cache_ok H s" "b \<in> H" "i < NBUF" "cached s (unat (b_blockno (bufs s b))) i"
  shows "i = b"
  using cached_unique [OF assms(1)] held_facts [OF assms(1,2)] assms(3,4) by blast

lemma held_blockno_distinct:
  assumes "cache_ok H s" "a \<in> H" "b \<in> H" "a \<noteq> b"
  shows "b_blockno (bufs s a) \<noteq> b_blockno (bufs s b)"
  using others_uncached [OF assms(1,3), of a] held_facts [OF assms(1,2)] assms(4) by auto

text \<open>Changing the data of a held buffer changes the contents of its block.\<close>

lemma set_data_ok:
  assumes c: "cache_ok H s" and b: "b \<in> H"
  shows "cache_ok H (upd_buf b (set_data d) s)"
    "bview (upd_buf b (set_data d) s) = (bview s)(unat (b_blockno (bufs s b)) := d)"
    "dirty_blocks (upd_buf b (set_data d) s) = dirty_blocks s"
proof -
  let ?x = "set_data d (bufs s b)" and ?t = "upd_buf b (set_data d) s"
  have t: "?t = upd_buf b (\<lambda>_. ?x) s" by (rule upd_buf_const)
  show ok: "cache_ok H ?t" unfolding t
    using held_facts [OF c b] keys_others [OF c] cache_okD(4) [OF c] b
    by (intro cache_ok_upd [OF c, of _ True]) (auto simp: set_data_def slot_ok_def)
  show "bview ?t = (bview s)(unat (b_blockno (bufs s b)) := d)"
  proof
    fix k
    show "bview ?t k = ((bview s)(unat (b_blockno (bufs s b)) := d)) k"
    proof (cases "k = unat (b_blockno (bufs s b))")
      case True
      then have "cached ?t k b" using held_facts [OF c b] by (simp add: cached_def set_data_def)
      then show ?thesis using bview_cached [OF ok] held_facts(1) [OF c b] True by (simp add: set_data_def)
    next
      case False
      then have "bview ?t k = bview s k" by (intro bview_cong) (auto simp: cached_def set_data_def)
      then show ?thesis using False by simp
    qed
  qed
  show "dirty_blocks ?t = dirty_blocks s"
    by (intro set_eqI) (auto simp: dirty_blocks_def dirty_bufs_def set_data_def image_iff)
qed

text \<open>Marking a held buffer as dirty pins it in the cache.\<close>

definition pin :: "buf \<Rightarrow> buf" where
  "pin b = b\<lparr>b_dirty := True\<rparr>"

lemma pin_ok:
  assumes c: "cache_ok H s" and b: "b \<in> H"
  shows "cache_ok H (upd_buf b pin s)" "bview (upd_buf b pin s) = bview s"
    "dirty_blocks (upd_buf b pin s) = insert (unat (b_blockno (bufs s b))) (dirty_blocks s)"
proof -
  have t: "upd_buf b pin s = upd_buf b (\<lambda>_. pin (bufs s b)) s" by (rule upd_buf_const)
  show "cache_ok H (upd_buf b pin s)" unfolding t
    using held_facts [OF c b] keys_others [OF c] cache_okD(4) [OF c] b
    by (intro cache_ok_upd [OF c, of _ True]) (auto simp: pin_def slot_ok_def)
  show "bview (upd_buf b pin s) = bview s"
    by (intro ext bview_cong) (auto simp: cached_def pin_def)
  show "dirty_blocks (upd_buf b pin s) = insert (unat (b_blockno (bufs s b))) (dirty_blocks s)"
    using held_facts(1) [OF c b] by (intro set_eqI) (auto simp: dirty_blocks_def dirty_bufs_def pin_def image_iff)
qed

lemma bwrite_ok:
  assumes c: "cache_ok H s" and b: "b \<in> H"
  defines "k \<equiv> unat (b_blockno (bufs s b))"
  shows "\<exists>t. bwrite b s = Ok ((), t) \<and> cache_ok H t \<and> bview t = bview s \<and>
     disk t = (disk s)(k := b_data (bufs s b)) \<and> writes t = writes s @ [(k, b_data (bufs s b))] \<and>
     dirty_blocks t = dirty_blocks s - {k} \<and> disksize t = disksize s \<and> curpid t = curpid s \<and>
     bst.more t = bst.more s \<and> bufs t = (bufs s)(b := (bufs s b)\<lparr>b_dirty := False, b_valid := True\<rparr>)"
proof -
  let ?x = "(bufs s b)\<lparr>b_dirty := False, b_valid := True\<rparr>"
  define t where "t = disk_write k (b_data (bufs s b)) (upd_buf b (\<lambda>_. ?x) s)"
  have f: "disk t = (disk s)(k := b_data (bufs s b))" "writes t = writes s @ [(k, b_data (bufs s b))]"
    "disksize t = disksize s" "curpid t = curpid s" "bst.more t = bst.more s" "bufs t = (bufs s)(b := ?x)"
    "bnext t = bnext s" "bprev t = bprev s"
    by (simp_all add: t_def disk_write_def)
  have run: "bwrite b s = Ok ((), t)"
    using held_facts [OF c b]
    by (simp add: bwrite_def iderw_def Let_def upd_buf_twice comp_def t_def k_def)
      (simp add: upd_buf_def disk_write_def)
  have uniq: "i = b" if "i < NBUF" "cached s k i" for i using others_uncached [OF c b that(1)] that(2) by (simp add: k_def)
  have "slot_ok t (i \<in> H) (bufs t i)" if i: "i < NBUF" for i
  proof (cases "i = b")
    case True
    then show ?thesis using cache_okD(4) [OF c i] b by (auto simp: slot_ok_def f)
  next
    case False
    then have "b_valid (bufs s i) \<Longrightarrow> unat (b_blockno (bufs s i)) \<noteq> k" using uniq [OF i] by (auto simp: cached_def)
    then show ?thesis using False cache_okD(4) [OF c i] by (auto simp: slot_ok_def f)
  qed
  moreover have "keys_distinct t" using cache_okD(2) [OF c] by (auto simp: keys_distinct_def f)
  moreover have "list_ok t" using cache_okD(1) [OF c] list_ok_cong [of t s] f by simp
  ultimately have ok: "cache_ok H t" using cache_okD(3) [OF c] by (simp add: cache_ok_def)
  have v: "bview t j = bview s j" for j
  proof (cases "j = k")
    case True
    have "cached s k b" "cached t k b" using held_facts [OF c b] by (auto simp: cached_def f k_def)
    then show ?thesis using bview_cached [OF c] bview_cached [OF ok] held_facts(1) [OF c b] True by (simp add: f)
  next
    case False
    then show ?thesis by (intro bview_cong) (auto simp: cached_def f k_def)
  qed
  have "i \<in> dirty_bufs s \<Longrightarrow> i \<noteq> b \<Longrightarrow> unat (b_blockno (bufs s i)) \<noteq> k" for i
    using uniq [of i] cache_okD(4) [OF c, of i] by (auto simp: dirty_bufs_def slot_ok_def cached_def)
  then have "dirty_blocks t = dirty_blocks s - {k}"
    by (intro set_eqI) (auto simp: dirty_blocks_def dirty_bufs_def f image_iff k_def; metis)
  with run ok v f show ?thesis by (intro exI [of _ t]) auto
qed

lemma lru_move_fields [simp]:
  "bufs (lru_push b (lru_unlink b s)) = bufs s" "disk (lru_push b (lru_unlink b s)) = disk s"
  "disksize (lru_push b (lru_unlink b s)) = disksize s" "writes (lru_push b (lru_unlink b s)) = writes s"
  "curpid (lru_push b (lru_unlink b s)) = curpid s" "bst.more (lru_push b (lru_unlink b s)) = bst.more s"
  by (simp_all add: lru_push_def lru_unlink_def Let_def)

lemma list_ok_move:
  assumes "list_ok s" "b < NBUF"
  shows "list_ok (lru_push b (lru_unlink b s))"
proof -
  obtain xs where xs: "lru s xs" "set xs = {..< NBUF}" using assms(1) by (auto simp: list_ok_def)
  then obtain ys zs where s: "xs = ys @ b # zs" using assms(2) by (metis lessThan_iff split_list)
  have d: "distinct (ys @ b # zs)" "b \<noteq> HEAD" using xs assms(2) s by (auto simp: lru_def)
  have "lru (lru_unlink b s) (ys @ zs)" using lru_unlink_ok xs(1) s by simp
  then have "lru (lru_push b (lru_unlink b s)) (b # ys @ zs)" by (rule lru_push_ok) (use d in auto)
  moreover have "set (b # ys @ zs) = {..< NBUF}" using xs(2) s by auto
  ultimately show ?thesis unfolding list_ok_def by blast
qed

lemma cache_ok_move: "cache_ok H s \<Longrightarrow> b < NBUF \<Longrightarrow> cache_ok H (lru_push b (lru_unlink b s))"
  using list_ok_move [of s b] by (simp add: cache_ok_def keys_distinct_def slot_ok_def)

lemma brelse_ok:
  assumes c: "cache_ok H s" and b: "b \<in> H"
    and clean: "b_dirty (bufs s b) \<or> b_data (bufs s b) = disk s (unat (b_blockno (bufs s b)))"
  shows "\<exists>t. brelse b s = Ok ((), t) \<and> cache_ok (H - {b}) t \<and> bview t = bview s \<and>
     dirty_blocks t = dirty_blocks s \<and> same_disk s t \<and> (\<forall>j. j \<noteq> b \<longrightarrow> bufs t j = bufs s j)"
proof -
  let ?x = "(bufs s b)\<lparr>b_lock := \<lparr>sl_locked = False, sl_pid = 0\<rparr>, b_refcnt := 0\<rparr>"
  let ?u = "upd_buf b (\<lambda>_. ?x) s"
  let ?t = "lru_push b (lru_unlink b ?u)"
  have run: "brelse b s = Ok ((), ?t)"
    using held_facts [OF c b]
    by (simp add: brelse_def Let_def upd_buf_twice comp_def lock_upd) (simp add: upd_buf_def)
  have u: "cache_ok (H - {b}) ?u"
    using held_facts [OF c b] keys_others [OF c] cache_okD(4) [OF c] clean
    by (intro cache_ok_upd [OF c, of _ False]) (auto simp: slot_ok_def)
  have t: "cache_ok (H - {b}) ?t" by (rule cache_ok_move [OF u held_facts(1) [OF c b]])
  have "bview ?t = bview s" by (intro ext bview_cong) (auto simp: cached_def)
  moreover have "dirty_blocks ?t = dirty_blocks s"
    by (intro set_eqI) (auto simp: dirty_blocks_def dirty_bufs_def image_iff)
  ultimately show ?thesis using run t by (intro exI [of _ ?t]) (auto simp: same_disk_def)
qed

section \<open>Initialisation\<close>

definition blank_buf :: buf where
  "blank_buf = \<lparr>b_valid = False, b_dirty = False, b_dev = 0, b_blockno = 0,
     b_lock = \<lparr>sl_locked = False, sl_pid = 0\<rparr>, b_refcnt = 0, b_data = (\<lambda>_. 0)\<rparr>"

lemma binit_loop_step:
  "binit_loop (b # bs) s = binit_loop bs (upd_buf b (\<lambda>x. x\<lparr>b_lock := initsleeplock\<rparr>) (lru_push b s))"
  by (cases s) (simp add: lru_push_def upd_buf_def Let_def)

lemma lru_push_fields [simp]:
  "bufs (lru_push b s) = bufs s" "disk (lru_push b s) = disk s" "disksize (lru_push b s) = disksize s"
  "writes (lru_push b s) = writes s" "curpid (lru_push b s) = curpid s" "bst.more (lru_push b s) = bst.more s"
  by (simp_all add: lru_push_def Let_def)

lemma binit_loop_ok:
  assumes "lru s xs" "distinct bs" "set bs \<inter> set xs = {}" "HEAD \<notin> set bs" "\<forall>i. bufs s i = blank_buf"
  shows "lru (binit_loop bs s) (rev bs @ xs) \<and> (\<forall>i. bufs (binit_loop bs s) i = blank_buf) \<and> same_disk s (binit_loop bs s)"
  using assms
proof (induction bs arbitrary: s xs)
  case Nil
  then show ?case by simp
next
  case (Cons b bs)
  let ?t = "upd_buf b (\<lambda>x. x\<lparr>b_lock := initsleeplock\<rparr>) (lru_push b s)"
  have "lru (lru_push b s) (b # xs)" using Cons.prems by (intro lru_push_ok) auto
  then have "lru ?t (b # xs)" using lru_cong [of ?t "lru_push b s"] by simp
  moreover have "\<forall>i. bufs ?t i = blank_buf" using Cons.prems(5) by (simp add: blank_buf_def initsleeplock_def)
  ultimately show ?case
    using Cons.IH [of ?t "b # xs"] Cons.prems unfolding binit_loop_step by (auto simp: same_disk_def)
qed

lemma binit_ok:
  assumes "\<forall>i. bufs s i = blank_buf"
  shows "\<exists>t. binit s = Ok ((), t) \<and> cache_ok {} t \<and> lru t (rev [0 ..< NBUF]) \<and> (\<forall>i. bufs t i = blank_buf) \<and> same_disk s t"
proof -
  let ?s = "s\<lparr>bprev := (bprev s)(HEAD := HEAD), bnext := (bnext s)(HEAD := HEAD)\<rparr>"
  have "lru ?s []" by (simp add: lru_def)
  then have t: "lru (binit_loop [0 ..< NBUF] ?s) (rev [0 ..< NBUF] @ [])" "\<forall>i. bufs (binit_loop [0 ..< NBUF] ?s) i = blank_buf"
    "same_disk ?s (binit_loop [0 ..< NBUF] ?s)"
    using binit_loop_ok [of ?s "[]" "[0 ..< NBUF]"] assms by auto
  then have "cache_ok {} (binit_loop [0 ..< NBUF] ?s)"
    by (auto simp: cache_ok_def list_ok_def keys_distinct_def slot_ok_def blank_buf_def intro!: exI [of _ "rev [0 ..< NBUF]"])
  then show ?thesis using t by (auto simp: binit_def kern_simps same_disk_def)
qed

end
