(* ===== verification/Log.thy ===== *)
theory Log
  imports Bio
begin

text \<open>
  The redo log (\<open>log.c\<close>) and the superblock.  A transaction collects the blocks that the file system calls modify; \<open>commit\<close> writes
  them to the log, then the header (the commit point), then to their home locations, then erases the header.
  \<open>recover_from_log\<close> runs at boot.  The theorems say that recovery from any state of the disk that a
  crash of \<open>commit\<close> or of an earlier recovery leaves behind gives either all or none of the transaction.

  \<open>begin_op\<close> sleeps while the log is committing or short of space: that is the outcome \<open>Sleeps\<close>.  The wake-ups in
  \<open>end_op\<close> change no state of the log.
\<close>

definition LOGSIZE :: nat where "LOGSIZE = 30"

definition MAXOPBLOCKS :: nat where "MAXOPBLOCKS = 10"

record superblock =
  sb_size :: u32
  sb_nblocks :: u32
  sb_ninodes :: u32
  sb_nlog :: u32
  sb_logstart :: u32
  sb_inodestart :: u32
  sb_bmapstart :: u32

record lst = bst +
  log_start :: u32
  log_size :: int
  log_outstanding :: int
  log_committing :: bool
  log_dev :: u32
  lh_n :: int
  lh_block :: "nat \<Rightarrow> u32"

type_synonym ('x, 'r) lkern = "('x lst_scheme, 'r) kern"

definition sb_of_block :: "bytes \<Rightarrow> superblock" where
  "sb_of_block d = \<lparr>sb_size = get32 d 0, sb_nblocks = get32 d 4, sb_ninodes = get32 d 8, sb_nlog = get32 d 12,
     sb_logstart = get32 d 16, sb_inodestart = get32 d 20, sb_bmapstart = get32 d 24\<rparr>"

definition readsb :: "u32 \<Rightarrow> ('x, superblock) bkern" where
  "readsb dev = bindk (bread dev 1) (\<lambda>b.
     bindk (getk (\<lambda>s. sb_of_block (b_data (bufs s b)))) (\<lambda>sb. seqk (brelse b) (ret sb)))"

section \<open>Moving blocks\<close>

definition buf_data :: "nat \<Rightarrow> ('x, bytes) bkern" where
  "buf_data b = getk (\<lambda>s. b_data (bufs s b))"

definition buf_write :: "nat \<Rightarrow> bytes \<Rightarrow> ('x, unit) bkern" where
  "buf_write b d = modk (upd_buf b (set_data d))"

fun install_trans_loop :: "nat \<Rightarrow> nat \<Rightarrow> ('x, unit) lkern" where
  "install_trans_loop tail 0 = ret ()"
| "install_trans_loop tail (Suc k) = (\<lambda>s.
     bindk (bread (log_dev s) (log_start s + of_nat tail + 1)) (\<lambda>lbuf.
     bindk (bread (log_dev s) (lh_block s tail)) (\<lambda>dbuf.
     bindk (buf_data lbuf) (\<lambda>d.
     seqk (buf_write dbuf d) (seqk (bwrite dbuf) (seqk (brelse lbuf) (seqk (brelse dbuf)
       (install_trans_loop (Suc tail) k))))))) s)"

definition install_trans :: "('x, unit) lkern" where
  "install_trans = (\<lambda>s. install_trans_loop 0 (nat (lh_n s)) s)"

text \<open>The header block: the count at offset 0, the block numbers from offset 4.\<close>

fun get_blocks :: "nat \<Rightarrow> nat \<Rightarrow> bytes \<Rightarrow> (nat \<Rightarrow> u32) \<Rightarrow> (nat \<Rightarrow> u32)" where
  "get_blocks i 0 d f = f"
| "get_blocks i (Suc k) d f = get_blocks (Suc i) k d (f(i := get32 d (4 + 4 * i)))"

fun put_blocks :: "nat \<Rightarrow> nat \<Rightarrow> (nat \<Rightarrow> u32) \<Rightarrow> bytes \<Rightarrow> bytes" where
  "put_blocks i 0 f d = d"
| "put_blocks i (Suc k) f d = put_blocks (Suc i) k f (put32 (4 + 4 * i) (f i) d)"

definition read_head :: "('x, unit) lkern" where
  "read_head = (\<lambda>s.
     bindk (bread (log_dev s) (log_start s)) (\<lambda>b.
     bindk (buf_data b) (\<lambda>d.
       let n = sint (get32 d 0) in
       if int LOGSIZE < n then undefinedk ''read_head: log.lh.block overflow''
       else seqk (modk (\<lambda>s. s\<lparr>lh_n := n, lh_block := get_blocks 0 (nat n) d (lh_block s)\<rparr>)) (brelse b))) s)"

definition head_block :: "int \<Rightarrow> (nat \<Rightarrow> u32) \<Rightarrow> bytes \<Rightarrow> bytes" where
  "head_block n f d = put_blocks 0 (nat n) f (put32 0 (word_of_int n) d)"

definition write_head :: "('x, unit) lkern" where
  "write_head = (\<lambda>s.
     bindk (bread (log_dev s) (log_start s)) (\<lambda>b.
     bindk (buf_data b) (\<lambda>d.
     seqk (buf_write b (head_block (lh_n s) (lh_block s) d)) (seqk (bwrite b) (brelse b)))) s)"

definition recover_from_log :: "('x, unit) lkern" where
  "recover_from_log =
     seqk read_head (seqk install_trans (seqk (modk (\<lambda>s. s\<lparr>lh_n := 0\<rparr>)) write_head))"

definition initlog :: "u32 \<Rightarrow> ('x, unit) lkern" where
  "initlog dev = bindk (readsb dev) (\<lambda>sb.
     seqk (modk (\<lambda>s. s\<lparr>log_start := sb_logstart sb, log_size := sint (sb_nlog sb), log_dev := dev\<rparr>)) recover_from_log)"

section \<open>Transactions\<close>

definition begin_op :: "('x, unit) lkern" where
  "begin_op = (\<lambda>s.
     if log_committing s then Sleeps ''begin_op: committing''
     else if lh_n s + (log_outstanding s + 1) * int MAXOPBLOCKS > int LOGSIZE then Sleeps ''begin_op: no log space''
     else Ok ((), s\<lparr>log_outstanding := log_outstanding s + 1\<rparr>))"

fun write_log_loop :: "nat \<Rightarrow> nat \<Rightarrow> ('x, unit) lkern" where
  "write_log_loop tail 0 = ret ()"
| "write_log_loop tail (Suc k) = (\<lambda>s.
     bindk (bread (log_dev s) (log_start s + of_nat tail + 1)) (\<lambda>to.
     bindk (bread (log_dev s) (lh_block s tail)) (\<lambda>frm.
     bindk (buf_data frm) (\<lambda>d.
     seqk (buf_write to d) (seqk (bwrite to) (seqk (brelse frm) (seqk (brelse to)
       (write_log_loop (Suc tail) k))))))) s)"

definition write_log :: "('x, unit) lkern" where
  "write_log = (\<lambda>s. write_log_loop 0 (nat (lh_n s)) s)"

definition commit :: "('x, unit) lkern" where
  "commit = (\<lambda>s. whenk (lh_n s > 0)
     (seqk write_log (seqk write_head (seqk install_trans
        (seqk (modk (\<lambda>s. s\<lparr>lh_n := 0\<rparr>)) write_head)))) s)"

definition end_op :: "('x, unit) lkern" where
  "end_op = (\<lambda>s0. let s = s0\<lparr>log_outstanding := log_outstanding s0 - 1\<rparr> in
     if log_committing s then Panic ''log.committing''
     else if log_outstanding s = 0 then
       seqk (modk (\<lambda>s. s\<lparr>log_committing := True\<rparr>)) (seqk commit (modk (\<lambda>s. s\<lparr>log_committing := False\<rparr>))) s
     else Ok ((), s))"

text \<open>The position of a block in the list of logged blocks: its old place, or the end.\<close>

fun log_slot :: "nat \<Rightarrow> nat \<Rightarrow> (nat \<Rightarrow> u32) \<Rightarrow> u32 \<Rightarrow> nat" where
  "log_slot i 0 f bn = i"
| "log_slot i (Suc k) f bn = (if f i = bn then i else log_slot (Suc i) k f bn)"

definition log_write :: "nat \<Rightarrow> ('x, unit) lkern" where
  "log_write b = (\<lambda>s.
     if lh_n s \<ge> int LOGSIZE \<or> lh_n s \<ge> log_size s - 1 then Panic ''too big a transaction''
     else if log_outstanding s < 1 then Panic ''log_write outside of trans''
     else let bn = b_blockno (bufs s b); i = log_slot 0 (nat (lh_n s)) (lh_block s) bn in
       Ok ((), upd_buf b pin (s\<lparr>lh_block := (lh_block s)(i := bn),
         lh_n := (if int i = lh_n s then lh_n s + 1 else lh_n s)\<rparr>)))"

section \<open>The header on the disk\<close>

lemma get_blocks_eq: "get_blocks i k d f = (\<lambda>j. if i \<le> j \<and> j < i + k then get32 d (4 + 4 * j) else f j)"
  by (induction k arbitrary: i f) (auto simp: fun_eq_iff)

lemma put_blocks_out: "j < 4 + 4 * i \<Longrightarrow> put_blocks i k f d j = d j"
  by (induction k arbitrary: i d) (simp_all add: put32_out)

lemma get32_put_blocks: "off + 4 \<le> 4 + 4 * i \<Longrightarrow> get32 (put_blocks i k f d) off = get32 d off"
  by (rule get32_cong) (simp add: put_blocks_out)

lemma get32_put_blocks_in: "i \<le> j \<Longrightarrow> j < i + k \<Longrightarrow> get32 (put_blocks i k f d) (4 + 4 * j) = f j"
proof (induction k arbitrary: i d)
  case 0
  then show ?case by simp
next
  case (Suc k)
  show ?case
  proof (cases "j = i")
    case True
    then show ?thesis by (simp add: get32_put_blocks)
  next
    case False
    then show ?thesis using Suc by simp
  qed
qed

definition head_n :: "bytes \<Rightarrow> int" where
  "head_n d = sint (get32 d 0)"

definition head_list :: "bytes \<Rightarrow> nat list" where
  "head_list d = map (\<lambda>i. unat (get32 d (4 + 4 * i))) [0 ..< nat (head_n d)]"

lemma head_block_n: "0 \<le> n \<Longrightarrow> n \<le> 30 \<Longrightarrow> head_n (head_block n f d) = n"
proof -
  assume "0 \<le> n" "n \<le> 30"
  then have "sint (word_of_int n :: u32) = n" by (simp add: sint_sbintrunc' signed_take_bit_int_eq_self)
  then show ?thesis by (simp add: head_n_def head_block_def get32_put_blocks)
qed

lemma head_block_list:
  "0 \<le> n \<Longrightarrow> n \<le> 30 \<Longrightarrow> head_list (head_block n f d) = map (\<lambda>i. unat (f i)) [0 ..< nat n]"
  by (simp add: head_list_def head_block_n) (simp add: head_block_def get32_put_blocks_in)

section \<open>One block at a time\<close>

lemma log_frame:
  "bst.more t = bst.more s \<Longrightarrow> log_start t = log_start s \<and> log_size t = log_size s \<and>
     log_outstanding t = log_outstanding s \<and> log_committing t = log_committing s \<and> log_dev t = log_dev s \<and>
     lh_n t = lh_n s \<and> lh_block t = lh_block s \<and> lst.more t = lst.more s"
  by (cases s; cases t) simp

lemma bview_not_dirty: "cache_ok {} s \<Longrightarrow> k \<notin> dirty_blocks s \<Longrightarrow> bview s k = disk s k"
  by (rule bview_clean) (auto simp: dirty_blocks_def dirty_bufs_def cached_def)

lemma finite_dirty [simp]: "finite (dirty_blocks s)"
  by (simp add: dirty_blocks_def dirty_bufs_def)

lemma two_bufs:
  assumes c: "cache_ok {} s" and k: "unat A < disksize s" "unat B < disksize s" "A \<noteq> B"
    and room: "card (dirty_blocks s) < NBUF \<or> unat A \<in> dirty_blocks s"
      "card (dirty_blocks s) + 1 < NBUF \<or> unat B \<in> dirty_blocks s"
  obtains a s1 b t where "bread 1 A s = Ok (a, s1)" "bst.more s1 = bst.more s" "bread 1 B s1 = Ok (b, t)" "a \<noteq> b" "cache_ok {a, b} t"
    "b_blockno (bufs t a) = A" "b_blockno (bufs t b) = B" "b_data (bufs t a) = bview s (unat A)"
    "b_data (bufs t b) = bview s (unat B)" "bview t = bview s" "dirty_blocks t = dirty_blocks s" "same_disk s t"
proof -
  obtain a s1 where a: "bread 1 A s = Ok (a, s1)" "cache_ok {a} s1" "b_blockno (bufs s1 a) = A"
    "b_data (bufs s1 a) = bview s (unat A)" "bview s1 = bview s" "dirty_blocks s1 = dirty_blocks s" "same_disk s s1"
    using bread_ok [OF c k(1)] room(1) by auto
  have k1: "unat B < disksize s1" using a(7) k(2) by (simp add: same_disk_def)
  obtain b t where b: "bread 1 B s1 = Ok (b, t)" "b \<notin> {a}" "cache_ok (insert b {a}) t" "b_blockno (bufs t b) = B"
    "b_data (bufs t b) = bview s1 (unat B)" "bview t = bview s1" "dirty_blocks t = dirty_blocks s1" "same_disk s1 t"
    "\<forall>j. j \<noteq> b \<longrightarrow> bufs t j = bufs s1 j"
    using bread_ok [OF a(2) k1] room(2) a(3,6) k(3) by auto
  show ?thesis
    using that [OF a(1) _ b(1)] a b same_disk_trans [OF a(7) b(8)] by (auto simp: insert_commute same_disk_def)
qed

text \<open>Filling one of two held buffers, writing it to the disk and releasing both.\<close>

definition flush :: "nat \<Rightarrow> bytes \<Rightarrow> nat \<Rightarrow> ('x, unit) bkern" where
  "flush x d y = seqk (buf_write x d) (seqk (bwrite x) (seqk (brelse y) (brelse x)))"

lemma seqk_assoc: "seqk (seqk a b) c = seqk a (seqk b c)"
  by (simp add: seqk_def bindk_assoc)

lemma flush_seq: "seqk (buf_write x d) (seqk (bwrite x) (seqk (brelse y) (seqk (brelse x) rest))) = seqk (flush x d y) rest"
  by (simp add: flush_def seqk_assoc)

lemma write_back:
  assumes c: "cache_ok {x, y} s" and xy: "x \<noteq> y"
    and y: "b_dirty (bufs s y) \<or> b_data (bufs s y) = disk s (unat (b_blockno (bufs s y)))"
  defines "k \<equiv> unat (b_blockno (bufs s x))"
  obtains t where
    "flush x d y s = Ok ((), t)"
    "cache_ok {} t" "bview t = (bview s)(k := d)" "disk t = (disk s)(k := d)" "writes t = writes s @ [(k, d)]"
    "dirty_blocks t = dirty_blocks s - {k}" "disksize t = disksize s" "bst.more t = bst.more s" "curpid t = curpid s"
proof -
  let ?s1 = "upd_buf x (set_data d) s"
  have s1: "cache_ok {x, y} ?s1" "bview ?s1 = (bview s)(k := d)" "dirty_blocks ?s1 = dirty_blocks s"
    using set_data_ok [OF c, of x d] by (simp_all add: k_def)
  have kx: "unat (b_blockno (bufs ?s1 x)) = k" "b_data (bufs ?s1 x) = d" by (simp_all add: set_data_def k_def)
  obtain s2 where s2: "bwrite x ?s1 = Ok ((), s2)" "cache_ok {x, y} s2" "bview s2 = bview ?s1"
    "disk s2 = (disk s)(k := d)" "writes s2 = writes s @ [(k, d)]" "dirty_blocks s2 = dirty_blocks ?s1 - {k}"
    "disksize s2 = disksize s" "curpid s2 = curpid s" "bst.more s2 = bst.more s"
    "bufs s2 = (bufs ?s1)(x := (bufs ?s1 x)\<lparr>b_dirty := False, b_valid := True\<rparr>)"
    using bwrite_ok [OF s1(1), of x] unfolding kx by auto
  have ky: "unat (b_blockno (bufs s y)) \<noteq> k"
    using held_blockno_distinct [OF c, of x y] xy by (simp add: k_def word_unat_eq_iff)
  have y2: "b_dirty (bufs s2 y) \<or> b_data (bufs s2 y) = disk s2 (unat (b_blockno (bufs s2 y)))"
    using y ky xy by (simp add: s2)
  obtain s3 where s3: "brelse y s2 = Ok ((), s3)" "cache_ok ({x, y} - {y}) s3" "bview s3 = bview s2"
    "dirty_blocks s3 = dirty_blocks s2" "same_disk s2 s3" "\<forall>j. j \<noteq> y \<longrightarrow> bufs s3 j = bufs s2 j"
    using brelse_ok [OF s2(2) _ y2] by auto
  have c3: "cache_ok {x} s3" using s3(2) xy by (simp add: insert_Diff_if)
  have "b_data (bufs s3 x) = disk s3 (unat (b_blockno (bufs s3 x)))"
    using s3(5,6) xy by (simp add: s2 same_disk_def set_data_def k_def)
  then obtain s4 where s4: "brelse x s3 = Ok ((), s4)" "cache_ok ({x} - {x}) s4" "bview s4 = bview s3"
    "dirty_blocks s4 = dirty_blocks s3" "same_disk s3 s4"
    using brelse_ok [OF c3, of x] by auto
  have run: "flush x d y s = Ok ((), s4)"
    by (simp add: flush_def kern_simps buf_write_def s2(1) s3(1) s4(1))
  show ?thesis by (rule that [of s4, OF run]) (use s1 s2 s3 s4 in \<open>simp_all add: same_disk_def\<close>)
qed

definition log_cfg :: "'x lst_scheme \<Rightarrow> bool" where
  "log_cfg s \<longleftrightarrow> log_dev s = 1 \<and> unat (log_start s) + 30 \<le> disksize s \<and> disksize s < 2 ^ 31"

definition home :: "'x lst_scheme \<Rightarrow> nat \<Rightarrow> nat" where
  "home s i = unat (lh_block s i)"

definition lblk :: "'x lst_scheme \<Rightarrow> nat \<Rightarrow> nat" where
  "lblk s i = unat (log_start s) + i + 1"

definition log_area :: "'x lst_scheme \<Rightarrow> nat set" where
  "log_area s = {unat (log_start s) .. unat (log_start s) + 29}"

definition homes_ok :: "nat \<Rightarrow> 'x lst_scheme \<Rightarrow> bool" where
  "homes_ok n s \<longleftrightarrow> inj_on (home s) {..< n} \<and> (\<forall>i < n. home s i < disksize s \<and> home s i \<notin> log_area s)"

lemma log_block_no:
  assumes "log_cfg s" "i < 29"
  shows "unat (log_start s + of_nat i + 1) = lblk s i" "lblk s i < disksize s" "lblk s i \<in> log_area s"
  using assms by (auto simp: log_cfg_def lblk_def log_area_def unat_word_ariths unat_of_nat)

definition same_log :: "'x lst_scheme \<Rightarrow> 'x lst_scheme \<Rightarrow> bool" where
  "same_log s t \<longleftrightarrow> disksize t = disksize s \<and> bst.more t = bst.more s \<and> curpid t = curpid s"

lemma same_logD:
  assumes "same_log s t"
  shows "log_cfg t = log_cfg s" "home t = home s" "lblk t = lblk s" "log_area t = log_area s"
    "homes_ok n t = homes_ok n s" "lh_n t = lh_n s" "lh_block t = lh_block s" "log_start t = log_start s"
proof -
  have f: "log_start t = log_start s" "log_dev t = log_dev s" "lh_n t = lh_n s" "lh_block t = lh_block s" "disksize t = disksize s"
    using assms log_frame [of t s] by (auto simp: same_log_def)
  show h: "home t = home s" by (simp add: home_def fun_eq_iff f)
  show "log_cfg t = log_cfg s" "lblk t = lblk s" and a: "log_area t = log_area s"
    by (simp_all add: log_cfg_def lblk_def log_area_def fun_eq_iff f)
  show "homes_ok n t = homes_ok n s" by (simp add: homes_ok_def h a f)
qed (use assms log_frame [of t s] in \<open>auto simp: same_log_def\<close>)

lemma install_step:
  assumes c: "cache_ok {} s" and cfg: "log_cfg s" and i: "tail < n" "n < 30" and h: "homes_ok n s"
    and clean: "dirty_blocks s \<inter> log_area s = {}" and room: "dirty_blocks s = {} \<or> dirty_blocks s = home s ` {tail ..< n}"
  obtains t where "install_trans_loop tail (Suc k) s = install_trans_loop (Suc tail) k t" "cache_ok {} t" "same_log s t"
    "bview t = (bview s)(home s tail := bview s (lblk s tail))" "disk t = (disk s)(home s tail := bview s (lblk s tail))"
    "writes t = writes s @ [(home s tail, bview s (lblk s tail))]" "dirty_blocks t = dirty_blocks s - {home s tail}"
proof -
  have hm: "home s tail < disksize s" "home s tail \<notin> log_area s" using h i by (auto simp: homes_ok_def)
  have lb: "unat (log_start s + of_nat tail + 1) = lblk s tail" "lblk s tail < disksize s" "lblk s tail \<in> log_area s"
    using log_block_no [OF cfg, of tail] i by simp_all
  have ne: "log_start s + of_nat tail + 1 \<noteq> lh_block s tail" using lb(1,3) hm(2) by (auto simp: home_def)
  have "card (dirty_blocks s) < NBUF"
    using room i card_image_le [of "{tail ..< n}" "home s"] by (auto simp: NBUF_def)
  moreover have "card (dirty_blocks s) + 1 < NBUF \<or> home s tail \<in> dirty_blocks s" using room i by (auto simp: NBUF_def)
  ultimately obtain a s1 b s2 where b: "bread 1 (log_start s + of_nat tail + 1) s = Ok (a, s1)" "bst.more s1 = bst.more s"
    "bread 1 (lh_block s tail) s1 = Ok (b, s2)" "a \<noteq> b" "cache_ok {a, b} s2" "b_blockno (bufs s2 a) = log_start s + of_nat tail + 1"
    "b_blockno (bufs s2 b) = lh_block s tail" "b_data (bufs s2 a) = bview s (lblk s tail)"
    "bview s2 = bview s" "dirty_blocks s2 = dirty_blocks s" "same_disk s s2"
    using two_bufs [OF c _ _ ne] lb(1,2) hm(1) unfolding home_def by metis
  have "bview s (lblk s tail) = disk s (lblk s tail)" using lb(3) clean by (intro bview_not_dirty [OF c]) blast
  then have fa: "b_data (bufs s2 a) = disk s2 (unat (b_blockno (bufs s2 a)))"
    using b lb(1) by (simp add: same_disk_def)
  have c2: "cache_ok {b, a} s2" using b(5) by (simp add: insert_commute)
  have hb: "unat (b_blockno (bufs s2 b)) = home s tail" using b(7) by (simp add: home_def)
  obtain t where t: "flush b (bview s (lblk s tail)) a s2 = Ok ((), t)"
    "cache_ok {} t" "bview t = (bview s2)(home s tail := bview s (lblk s tail))" "disk t = (disk s2)(home s tail := bview s (lblk s tail))"
    "writes t = writes s2 @ [(home s tail, bview s (lblk s tail))]" "dirty_blocks t = dirty_blocks s2 - {home s tail}"
    "disksize t = disksize s2" "bst.more t = bst.more s2" "curpid t = curpid s2"
    using write_back [OF c2 b(4) [symmetric] disjI2 [OF fa], of "bview s (lblk s tail)"] unfolding hb by metis
  have dev: "log_dev s = 1" using cfg by (simp add: log_cfg_def)
  have "install_trans_loop tail (Suc k) s = install_trans_loop (Suc tail) k t"
    by (simp add: kern_simps buf_data_def flush_seq dev b(1,3,8) t(1))
  then show ?thesis using that [of t] t b by (simp add: same_log_def same_disk_def)
qed

text \<open>\<open>wrote W s t\<close>: the disk has received the writes \<open>W\<close>, and the current contents of blocks have changed in the same way.\<close>

definition apply_writes :: "(nat \<Rightarrow> bytes) \<Rightarrow> (nat \<times> bytes) list \<Rightarrow> nat \<Rightarrow> bytes" where
  "apply_writes d W = foldl (\<lambda>d (k, x). d(k := x)) d W"

definition wrote :: "(nat \<times> bytes) list \<Rightarrow> 'x bst_scheme \<Rightarrow> 'x bst_scheme \<Rightarrow> bool" where
  "wrote W s t \<longleftrightarrow> writes t = writes s @ W \<and> disk t = apply_writes (disk s) W \<and> bview t = apply_writes (bview s) W"

lemma apply_writes_simps [simp]:
  "apply_writes d [] = d" "apply_writes d ((k, x) # W) = apply_writes (d(k := x)) W"
  "apply_writes d (V @ W) = apply_writes (apply_writes d V) W"
  by (simp_all add: apply_writes_def)

lemma apply_writes_out: "k \<notin> fst ` set W \<Longrightarrow> apply_writes d W k = d k"
  by (induction W arbitrary: d) auto

lemma wrote_out: "wrote W s t \<Longrightarrow> k \<notin> fst ` set W \<Longrightarrow> bview t k = bview s k"
  by (simp add: wrote_def apply_writes_out)

lemma wrote_Nil [simp]: "wrote [] s s"
  by (simp add: wrote_def)

lemma wrote_trans: "wrote V s t \<Longrightarrow> wrote W t u \<Longrightarrow> wrote (V @ W) s u"
  by (simp add: wrote_def)

lemma same_log_trans: "same_log s t \<Longrightarrow> same_log t u \<Longrightarrow> same_log s u"
  by (simp add: same_log_def)

lemma home_image_step: "homes_ok n s \<Longrightarrow> tail < n \<Longrightarrow> home s ` {tail ..< n} - {home s tail} = home s ` {Suc tail ..< n}"
proof -
  assume h: "homes_ok n s" and t: "tail < n"
  have "{tail ..< n} = insert tail {Suc tail ..< n}" using t by auto
  moreover have "home s tail \<notin> home s ` {Suc tail ..< n}" using h t by (fastforce simp: homes_ok_def dest: inj_onD)
  ultimately show ?thesis by auto
qed

lemma install_trans_loop_ok:
  assumes "cache_ok {} s" "log_cfg s" "tail + k = n" "n < 30" "homes_ok n s" "dirty_blocks s \<inter> log_area s = {}"
    "dirty_blocks s = {} \<or> dirty_blocks s = home s ` {tail ..< n}"
  shows "\<exists>t. install_trans_loop tail k s = Ok ((), t) \<and> cache_ok {} t \<and> same_log s t \<and> dirty_blocks t = {} \<and>
     wrote (map (\<lambda>i. (home s i, bview s (lblk s i))) [tail ..< n]) s t"
  using assms
proof (induction k arbitrary: tail s)
  case 0
  then show ?case by (auto simp: kern_simps same_log_def)
next
  case (Suc k)
  then have tn: "tail < n" by simp
  obtain t where t: "install_trans_loop tail (Suc k) s = install_trans_loop (Suc tail) k t" "cache_ok {} t" "same_log s t"
    "bview t = (bview s)(home s tail := bview s (lblk s tail))" "disk t = (disk s)(home s tail := bview s (lblk s tail))"
    "writes t = writes s @ [(home s tail, bview s (lblk s tail))]" "dirty_blocks t = dirty_blocks s - {home s tail}"
    using install_step [OF Suc.prems(1,2) tn Suc.prems(4,5,6,7)] by blast
  note sl = same_logD [OF t(3)]
  have "dirty_blocks t = {} \<or> dirty_blocks t = home t ` {Suc tail ..< n}"
    using Suc.prems(7) home_image_step [OF Suc.prems(5) tn] t(7) sl by auto
  moreover have "dirty_blocks t \<inter> log_area t = {}" using Suc.prems(6) t(7) sl by auto
  ultimately obtain u where u: "install_trans_loop (Suc tail) k t = Ok ((), u)" "cache_ok {} u" "same_log t u"
    "dirty_blocks u = {}" "wrote (map (\<lambda>i. (home t i, bview t (lblk t i))) [Suc tail ..< n]) t u"
    using Suc.IH [of t "Suc tail"] Suc.prems t(2) sl by auto
  have "bview t (lblk s i) = bview s (lblk s i)" if "i < n" for i
    using t(4) log_block_no(3) [OF Suc.prems(2), of i] Suc.prems(4,5) that tn by (auto simp: homes_ok_def)
  then have e: "map (\<lambda>i. (home t i, bview t (lblk t i))) [Suc tail ..< n] = map (\<lambda>i. (home s i, bview s (lblk s i))) [Suc tail ..< n]"
    by (simp add: sl)
  have "wrote [(home s tail, bview s (lblk s tail))] s t" using t by (simp add: wrote_def)
  from wrote_trans [OF this u(5)] have "wrote (map (\<lambda>i. (home s i, bview s (lblk s i))) [tail ..< n]) s u"
    using tn e by (simp add: upt_conv_Cons)
  then show ?case using t(1) u same_log_trans [OF t(3) u(3)] by auto
qed

lemma held_dirty:
  assumes "cache_ok H s" "b \<in> H" "unat (b_blockno (bufs s b)) \<in> dirty_blocks s"
  shows "b_dirty (bufs s b)"
  using dirty_cached [OF assms(1,3)] others_uncached [OF assms(1,2)] by blast

lemma write_log_step:
  assumes c: "cache_ok {} s" and cfg: "log_cfg s" and i: "tail < n" "n < 30" and h: "homes_ok n s"
    and dirty: "dirty_blocks s = home s ` {..< n}"
  obtains t where "write_log_loop tail (Suc k) s = write_log_loop (Suc tail) k t" "cache_ok {} t" "same_log s t"
    "wrote [(lblk s tail, bview s (home s tail))] s t" "dirty_blocks t = dirty_blocks s"
proof -
  have hm: "home s tail < disksize s" "home s tail \<notin> log_area s" using h i by (auto simp: homes_ok_def)
  have lb: "unat (log_start s + of_nat tail + 1) = lblk s tail" "lblk s tail < disksize s" "lblk s tail \<in> log_area s"
    using log_block_no [OF cfg, of tail] i by simp_all
  have ne: "log_start s + of_nat tail + 1 \<noteq> lh_block s tail" using lb(1,3) hm(2) by (auto simp: home_def)
  have "card (dirty_blocks s) < NBUF"
    using dirty i card_image_le [of "{..< n}" "home s"] by (auto simp: NBUF_def)
  moreover have "home s tail \<in> dirty_blocks s" using dirty i by auto
  ultimately obtain a s1 b s2 where b: "bread 1 (log_start s + of_nat tail + 1) s = Ok (a, s1)" "bst.more s1 = bst.more s"
    "bread 1 (lh_block s tail) s1 = Ok (b, s2)" "a \<noteq> b" "cache_ok {a, b} s2" "b_blockno (bufs s2 a) = log_start s + of_nat tail + 1"
    "b_blockno (bufs s2 b) = lh_block s tail" "b_data (bufs s2 b) = bview s (home s tail)"
    "bview s2 = bview s" "dirty_blocks s2 = dirty_blocks s" "same_disk s s2"
    using two_bufs [OF c _ _ ne] lb(1,2) hm(1) unfolding home_def by metis
  have "b_dirty (bufs s2 b)" using held_dirty [OF b(5), of b] b(7,10) \<open>home s tail \<in> dirty_blocks s\<close> by (simp add: home_def)
  note fb = disjI1 [OF this]
  have ha: "unat (b_blockno (bufs s2 a)) = lblk s tail" using b(6) lb(1) by simp
  obtain t where t: "flush a (bview s (home s tail)) b s2 = Ok ((), t)"
    "cache_ok {} t" "bview t = (bview s2)(lblk s tail := bview s (home s tail))" "disk t = (disk s2)(lblk s tail := bview s (home s tail))"
    "writes t = writes s2 @ [(lblk s tail, bview s (home s tail))]" "dirty_blocks t = dirty_blocks s2 - {lblk s tail}"
    "disksize t = disksize s2" "bst.more t = bst.more s2" "curpid t = curpid s2"
    using write_back [OF b(5,4) fb, of "bview s (home s tail)"] unfolding ha by metis
  have dev: "log_dev s = 1" using cfg by (simp add: log_cfg_def)
  have "write_log_loop tail (Suc k) s = write_log_loop (Suc tail) k t"
    by (simp add: kern_simps buf_data_def flush_seq dev b(1,3,8) t(1))
  moreover have "lblk s tail \<notin> dirty_blocks s" using dirty h lb(3) by (auto simp: homes_ok_def)
  ultimately show ?thesis using that [of t] t b by (simp add: same_log_def same_disk_def wrote_def)
qed

lemma write_log_loop_ok:
  assumes "cache_ok {} s" "log_cfg s" "tail + k = n" "n < 30" "homes_ok n s" "dirty_blocks s = home s ` {..< n}"
  shows "\<exists>t. write_log_loop tail k s = Ok ((), t) \<and> cache_ok {} t \<and> same_log s t \<and> dirty_blocks t = dirty_blocks s \<and>
     wrote (map (\<lambda>i. (lblk s i, bview s (home s i))) [tail ..< n]) s t"
  using assms
proof (induction k arbitrary: tail s)
  case 0
  then show ?case by (auto simp: kern_simps same_log_def)
next
  case (Suc k)
  then have tn: "tail < n" by simp
  obtain t where t: "write_log_loop tail (Suc k) s = write_log_loop (Suc tail) k t" "cache_ok {} t" "same_log s t"
    "wrote [(lblk s tail, bview s (home s tail))] s t" "dirty_blocks t = dirty_blocks s"
    using write_log_step [OF Suc.prems(1,2) tn Suc.prems(4,5,6)] by blast
  note sl = same_logD [OF t(3)]
  obtain u where u: "write_log_loop (Suc tail) k t = Ok ((), u)" "cache_ok {} u" "same_log t u"
    "dirty_blocks u = dirty_blocks t" "wrote (map (\<lambda>i. (lblk t i, bview t (home t i))) [Suc tail ..< n]) t u"
    using Suc.IH [of t "Suc tail"] Suc.prems t(2,5) sl by auto
  have "bview t (home s i) = bview s (home s i)" if "i < n" for i
    using t(4) log_block_no(3) [OF Suc.prems(2), of tail] Suc.prems(4,5) that tn by (auto simp: homes_ok_def wrote_def)
  then have e: "map (\<lambda>i. (lblk t i, bview t (home t i))) [Suc tail ..< n] = map (\<lambda>i. (lblk s i, bview s (home s i))) [Suc tail ..< n]"
    by (simp add: sl)
  from wrote_trans [OF t(4) u(5)] have "wrote (map (\<lambda>i. (lblk s i, bview s (home s i))) [tail ..< n]) s u"
    using tn e by (simp add: upt_conv_Cons)
  then show ?case using t(1,5) u same_log_trans [OF t(3) u(3)] by auto
qed

lemma write_head_ok:
  assumes c: "cache_ok {} s" and cfg: "log_cfg s" and room: "card (dirty_blocks s) < NBUF"
    and d: "dirty_blocks s \<inter> log_area s = {}"
  defines "st \<equiv> unat (log_start s)"
  shows "\<exists>t. write_head s = Ok ((), t) \<and> cache_ok {} t \<and> same_log s t \<and> dirty_blocks t = dirty_blocks s \<and>
     wrote [(st, head_block (lh_n s) (lh_block s) (bview s st))] s t"
proof -
  have st: "st < disksize s" "log_dev s = 1" "st \<in> log_area s" using cfg by (auto simp: log_cfg_def st_def log_area_def)
  obtain b s1 where b: "bread 1 (log_start s) s = Ok (b, s1)" "cache_ok {b} s1" "b_blockno (bufs s1 b) = log_start s"
    "b_data (bufs s1 b) = bview s st" "bview s1 = bview s" "dirty_blocks s1 = dirty_blocks s" "same_disk s s1"
    using bread_ok [OF c, of "log_start s"] room st(1) by (auto simp: st_def)
  let ?d = "head_block (lh_n s) (lh_block s) (bview s st)"
  let ?s2 = "upd_buf b (set_data ?d) s1"
  have s2: "cache_ok {b} ?s2" "bview ?s2 = (bview s)(st := ?d)" "dirty_blocks ?s2 = dirty_blocks s"
    "unat (b_blockno (bufs ?s2 b)) = st" "b_data (bufs ?s2 b) = ?d"
    using set_data_ok [OF b(2), of b ?d] b by (simp_all add: st_def set_data_def)
  obtain s3 where s3: "bwrite b ?s2 = Ok ((), s3)" "cache_ok {b} s3" "bview s3 = bview ?s2" "disk s3 = (disk s)(st := ?d)"
    "writes s3 = writes s @ [(st, ?d)]" "dirty_blocks s3 = dirty_blocks s - {st}" "disksize s3 = disksize s" "curpid s3 = curpid s"
    "bst.more s3 = bst.more s" "b_data (bufs s3 b) = ?d" "unat (b_blockno (bufs s3 b)) = st"
    using bwrite_ok [OF s2(1), of b] b(7) unfolding s2(3,4,5) by (auto simp: same_disk_def set_data_def st_def b(3))
  obtain t where t: "brelse b s3 = Ok ((), t)" "cache_ok {} t" "bview t = bview s3" "dirty_blocks t = dirty_blocks s3" "same_disk s3 t"
    using brelse_ok [OF s3(2), of b] s3(4,10,11) by auto
  have "write_head s = Ok ((), t)"
    by (simp add: write_head_def kern_simps buf_data_def buf_write_def st(2) b(1,4) s3(1) t(1))
  moreover have "dirty_blocks s - {st} = dirty_blocks s" using d st(3) by auto
  ultimately show ?thesis using t s2(2) s3 by (intro exI [of _ t]) (simp add: same_log_def same_disk_def wrote_def)
qed

section \<open>Commit\<close>

definition log_writes :: "'x lst_scheme \<Rightarrow> (nat \<times> bytes) list" where
  "log_writes s = map (\<lambda>i. (lblk s i, bview s (home s i))) [0 ..< nat (lh_n s)]"

definition home_writes :: "'x lst_scheme \<Rightarrow> (nat \<times> bytes) list" where
  "home_writes s = map (\<lambda>i. (home s i, bview s (home s i))) [0 ..< nat (lh_n s)]"

definition head1 :: "'x lst_scheme \<Rightarrow> bytes" where
  "head1 s = head_block (lh_n s) (lh_block s) (bview s (unat (log_start s)))"

definition head0 :: "'x lst_scheme \<Rightarrow> bytes" where
  "head0 s = head_block 0 (lh_block s) (head1 s)"

text \<open>A transaction that is ready to be committed: its blocks, and only they, are dirty in the cache.\<close>

definition ready :: "'x lst_scheme \<Rightarrow> bool" where
  "ready s \<longleftrightarrow> cache_ok {} s \<and> log_cfg s \<and> 0 < lh_n s \<and> lh_n s < 30 \<and> homes_ok (nat (lh_n s)) s \<and>
     dirty_blocks s = home s ` {..< nat (lh_n s)}"

lemma apply_map_at:
  "inj_on f {..< m} \<Longrightarrow> i < m \<Longrightarrow> apply_writes d (map (\<lambda>i. (f i, x i)) [0 ..< m]) (f i) = x i"
proof (induction m)
  case (Suc m)
  have "inj_on f {..< m}" "i \<noteq> m \<Longrightarrow> f i \<noteq> f m" using Suc.prems by (auto simp: inj_on_def)
  then show ?case using Suc by (cases "i = m") (auto simp: less_Suc_eq)
qed simp

lemma log_writes_at:
  assumes "i < nat (lh_n s)"
  shows "apply_writes d (log_writes s) (lblk s i) = bview s (home s i)"
proof -
  have "inj_on (lblk s) {..< nat (lh_n s)}" by (auto simp: inj_on_def lblk_def)
  then show ?thesis using assms apply_map_at [of "lblk s"] by (simp add: log_writes_def)
qed

lemma log_writes_keys: "log_cfg s \<Longrightarrow> lh_n s < 30 \<Longrightarrow> fst ` set (log_writes s) \<subseteq> log_area s - {unat (log_start s)}"
  by (auto simp: log_writes_def lblk_def log_area_def)

lemma home_writes_keys: "fst ` set (home_writes s) = home s ` {..< nat (lh_n s)}"
  by (simp add: home_writes_def image_image atLeast0LessThan)

lemma lh_upd_frame:
  "cache_ok H (s\<lparr>lh_n := v\<rparr>) = cache_ok H s" "bview (s\<lparr>lh_n := v\<rparr>) = bview s" "dirty_blocks (s\<lparr>lh_n := v\<rparr>) = dirty_blocks s"
  "log_cfg (s\<lparr>lh_n := v\<rparr>) = log_cfg s" "log_area (s\<lparr>lh_n := v\<rparr>) = log_area s"
  "wrote W (s\<lparr>lh_n := v\<rparr>) t = wrote W s t"
proof -
  show v: "bview (s\<lparr>lh_n := v\<rparr>) = bview s" by (intro ext bview_cong) (simp_all add: cached_def)
  show "wrote W (s\<lparr>lh_n := v\<rparr>) t = wrote W s t" by (simp add: wrote_def v)
qed (simp_all add: cache_ok_def slot_ok_def list_ok_def lru_def keys_distinct_def dirty_blocks_def dirty_bufs_def
    log_cfg_def log_area_def)

text \<open>The tail of a commit and of a recovery: installing the blocks and erasing the header.\<close>

lemma finish_ok:
  assumes c: "cache_ok {} s" and cfg: "log_cfg s" and n: "0 \<le> lh_n s" "lh_n s < 30" "homes_ok (nat (lh_n s)) s"
    and d: "dirty_blocks s \<inter> log_area s = {}" "dirty_blocks s = {} \<or> dirty_blocks s = home s ` {..< nat (lh_n s)}"
  shows "\<exists>t. seqk install_trans (seqk (modk (\<lambda>s. s\<lparr>lh_n := 0\<rparr>)) write_head) s = Ok ((), t) \<and> cache_ok {} t \<and>
     dirty_blocks t = {} \<and> lh_n t = 0 \<and> disksize t = disksize s \<and> log_start t = log_start s \<and> log_dev t = log_dev s \<and>
     wrote (map (\<lambda>i. (home s i, bview s (lblk s i))) [0 ..< nat (lh_n s)] @
       [(unat (log_start s), head_block 0 (lh_block s) (bview s (unat (log_start s))))]) s t"
proof -
  let ?n = "nat (lh_n s)" and ?st = "unat (log_start s)"
  have d': "dirty_blocks s = {} \<or> dirty_blocks s = home s ` {0 ..< ?n}" using d(2) by (simp add: atLeast0LessThan)
  have n30: "?n < 30" using n by simp
  obtain u where u: "install_trans_loop 0 ?n s = Ok ((), u)" "cache_ok {} u" "same_log s u" "dirty_blocks u = {}"
    "wrote (map (\<lambda>i. (home s i, bview s (lblk s i))) [0 ..< ?n]) s u"
    using install_trans_loop_ok [OF c cfg _ n30 n(3) d(1) d', of ?n] by auto
  note sl = same_logD [OF u(3)]
  let ?v = "u\<lparr>lh_n := 0\<rparr>"
  have "cache_ok {} ?v" "log_cfg ?v" "dirty_blocks ?v = {}" using u cfg sl by (simp_all add: lh_upd_frame)
  then obtain t where t: "write_head ?v = Ok ((), t)" "cache_ok {} t" "same_log ?v t" "dirty_blocks t = dirty_blocks ?v"
    "wrote [(?st, head_block 0 (lh_block s) (bview u ?st))] ?v t"
    using write_head_ok [of ?v] sl by (auto simp: NBUF_def lh_upd_frame)
  have "?st \<in> log_area s" by (simp add: log_area_def)
  then have "?st \<notin> fst ` set (map (\<lambda>i. (home s i, bview s (lblk s i))) [0 ..< ?n])" using n(3) by (auto simp: homes_ok_def)
  then have "bview u ?st = bview s ?st" by (rule wrote_out [OF u(5)])
  then have "wrote [(?st, head_block 0 (lh_block s) (bview s ?st))] u t" using t(5) by (simp add: lh_upd_frame)
  from wrote_trans [OF u(5) this] have "wrote (map (\<lambda>i. (home s i, bview s (lblk s i))) [0 ..< ?n] @
       [(?st, head_block 0 (lh_block s) (bview s ?st))]) s t" .
  moreover have "seqk install_trans (seqk (modk (\<lambda>s. s\<lparr>lh_n := 0\<rparr>)) write_head) s = Ok ((), t)"
    by (simp add: kern_simps install_trans_def u(1) t(1))
  moreover have "lh_n t = 0" "disksize t = disksize s" "log_start t = log_start s" "log_dev t = log_dev s"
    using same_logD [OF t(3)] log_frame [of t ?v] t(3) u(3) log_frame [of u s] by (auto simp: same_log_def)
  ultimately show ?thesis using t(2,4) u(4) by (auto simp: lh_upd_frame)
qed

lemma commit_ok:
  assumes r: "ready s"
  shows "\<exists>t. commit s = Ok ((), t) \<and> cache_ok {} t \<and> dirty_blocks t = {} \<and> lh_n t = 0 \<and> log_start t = log_start s \<and>
     log_dev t = log_dev s \<and> disksize t = disksize s \<and>
     wrote (log_writes s @ [(unat (log_start s), head1 s)] @ home_writes s @ [(unat (log_start s), head0 s)]) s t"
proof -
  let ?n = "nat (lh_n s)" and ?st = "unat (log_start s)"
  have c: "cache_ok {} s" and cfg: "log_cfg s" and n: "0 < lh_n s" "lh_n s < 30" "homes_ok ?n s"
    and d: "dirty_blocks s = home s ` {..< ?n}" using r by (auto simp: ready_def)
  have n30: "?n < 30" using n by simp
  obtain u where u: "write_log_loop 0 ?n s = Ok ((), u)" "cache_ok {} u" "same_log s u" "dirty_blocks u = dirty_blocks s"
    "wrote (log_writes s) s u"
    using write_log_loop_ok [OF c cfg _ n30 n(3) d, of 0 ?n] by (auto simp: log_writes_def)
  note sl = same_logD [OF u(3)]
  have card: "card (dirty_blocks u) < NBUF"
    using u(4) d card_image_le [of "{..< ?n}" "home s"] n30 by (simp add: NBUF_def)
  have area: "dirty_blocks u \<inter> log_area u = {}" using u(4) d n(3) sl by (auto simp: homes_ok_def)
  have "?st \<notin> fst ` set (log_writes s)" using log_writes_keys [OF cfg n(2)] by blast
  then have stv: "bview u ?st = bview s ?st" by (rule wrote_out [OF u(5)])
  obtain v where v: "write_head u = Ok ((), v)" "cache_ok {} v" "same_log u v" "dirty_blocks v = dirty_blocks u"
    "wrote [(?st, head1 s)] u v"
    using write_head_ok [OF u(2) _ card area] cfg sl stv by (auto simp: head1_def)
  note slv = same_logD [OF same_log_trans [OF u(3) v(3)]]
  have sv: "wrote (log_writes s @ [(?st, head1 s)]) s v" using wrote_trans [OF u(5) v(5)] .
  have "\<exists>t. seqk install_trans (seqk (modk (\<lambda>s. s\<lparr>lh_n := 0\<rparr>)) write_head) v = Ok ((), t) \<and> cache_ok {} t \<and>
     dirty_blocks t = {} \<and> lh_n t = 0 \<and> disksize t = disksize v \<and> log_start t = log_start v \<and> log_dev t = log_dev v \<and>
     wrote (map (\<lambda>i. (home v i, bview v (lblk v i))) [0 ..< nat (lh_n v)] @
       [(unat (log_start v), head_block 0 (lh_block v) (bview v (unat (log_start v))))]) v t"
    using cfg n area d u(4) v(4) by (intro finish_ok [OF v(2)]) (simp_all add: slv sl)
  then obtain t where t: "seqk install_trans (seqk (modk (\<lambda>s. s\<lparr>lh_n := 0\<rparr>)) write_head) v = Ok ((), t)"
    "cache_ok {} t" "dirty_blocks t = {}" "lh_n t = 0" "disksize t = disksize v" "log_start t = log_start v" "log_dev t = log_dev v"
    "wrote (map (\<lambda>i. (home s i, bview v (lblk s i))) [0 ..< ?n] @ [(?st, head_block 0 (lh_block s) (bview v ?st))]) v t"
    by (auto simp: slv)
  have "lblk s i \<noteq> ?st" for i by (simp add: lblk_def)
  then have "bview v (lblk s i) = bview s (home s i)" if "i < ?n" for i
    using sv log_writes_at [OF that] by (simp add: wrote_def)
  then have hw: "map (\<lambda>i. (home s i, bview v (lblk s i))) [0 ..< ?n] = home_writes s" by (simp add: home_writes_def)
  have "bview v ?st = head1 s" using sv by (simp add: wrote_def)
  then have "wrote (home_writes s @ [(?st, head0 s)]) v t" using t(8) hw by (simp add: head0_def)
  from wrote_trans [OF sv this] have "wrote (log_writes s @ [(?st, head1 s)] @ home_writes s @ [(?st, head0 s)]) s t" by simp
  moreover have "commit s = Ok ((), t)"
    using n(1) by (simp add: commit_def kern_simps write_log_def u(1) v(1) t(1)) (use t(1) in \<open>simp add: kern_simps\<close>)
  moreover have "disksize v = disksize s" "log_dev v = log_dev s"
    using u(3) v(3) log_frame [of v s] by (simp_all add: same_log_def)
  ultimately show ?thesis using t slv by auto
qed

section \<open>Recovery\<close>

lemma lh_upd_frame2:
  fixes s :: "'x lst_scheme" and v f
  defines "t \<equiv> s\<lparr>lh_n := v, lh_block := f\<rparr>"
  shows "cache_ok H t = cache_ok H s" "bview t = bview s" "dirty_blocks t = dirty_blocks s"
    "log_cfg t = log_cfg s" "log_area t = log_area s" "wrote W t u = wrote W s u"
proof -
  show v: "bview t = bview s" unfolding t_def by (intro ext bview_cong) (simp_all add: cached_def)
  show "wrote W t u = wrote W s u" by (simp add: wrote_def v) (simp add: t_def)
qed (simp_all add: t_def cache_ok_def slot_ok_def list_ok_def lru_def keys_distinct_def dirty_blocks_def dirty_bufs_def
    log_cfg_def log_area_def)

lemma read_head_ok:
  assumes c: "cache_ok {} s" and cfg: "log_cfg s" and dirty: "dirty_blocks s = {}"
    and n: "head_n (disk s (unat (log_start s))) \<le> 30"
  defines "h \<equiv> disk s (unat (log_start s))"
  shows "\<exists>t. read_head s = Ok ((), t) \<and> cache_ok {} t \<and> log_cfg t \<and> dirty_blocks t = {} \<and> disk t = disk s \<and>
     bview t = bview s \<and> writes t = writes s \<and> disksize t = disksize s \<and> log_start t = log_start s \<and> log_dev t = log_dev s \<and>
     lh_n t = head_n h \<and> lh_block t = get_blocks 0 (nat (head_n h)) h (lh_block s)"
proof -
  have st: "unat (log_start s) < disksize s" "log_dev s = 1" using cfg by (auto simp: log_cfg_def)
  have h: "bview s (unat (log_start s)) = h" using bview_not_dirty [OF c] dirty by (simp add: h_def)
  obtain b s1 where b: "bread 1 (log_start s) s = Ok (b, s1)" "cache_ok {b} s1" "b_data (bufs s1 b) = h" "bview s1 = bview s"
    "dirty_blocks s1 = {}" "same_disk s s1" "b_blockno (bufs s1 b) = log_start s"
    using bread_ok [OF c st(1)] dirty h by (auto simp: NBUF_def)
  note lf = log_frame [of s1 s]
  let ?f = "get_blocks 0 (nat (head_n h)) h (lh_block s1)"
  let ?s2 = "s1\<lparr>lh_n := head_n h, lh_block := ?f\<rparr>"
  have c2: "cache_ok {b} ?s2" using b(2) by (simp add: lh_upd_frame2)
  have "b_data (bufs ?s2 b) = disk ?s2 (unat (b_blockno (bufs ?s2 b)))" using b by (simp add: same_disk_def h_def)
  then obtain t where t: "brelse b ?s2 = Ok ((), t)" "cache_ok {} t" "bview t = bview ?s2" "dirty_blocks t = dirty_blocks ?s2"
    "same_disk ?s2 t" using brelse_ok [OF c2, of b] by auto
  have "read_head s = Ok ((), t)"
    using n t(1) by (simp add: read_head_def kern_simps buf_data_def st(2) b(1,3) LOGSIZE_def head_n_def h_def Let_def)
  moreover have "lh_n t = head_n h" "lh_block t = get_blocks 0 (nat (head_n h)) h (lh_block s)" "log_start t = log_start s"
    "log_dev t = log_dev s" using log_frame [of t ?s2] t(5) b(6) lf by (auto simp: same_disk_def)
  moreover have "disksize t = disksize s" "disk t = disk s" "writes t = writes s" using t(5) b(6) by (auto simp: same_disk_def)
  ultimately show ?thesis using t b cfg by (auto simp: lh_upd_frame2 log_cfg_def)
qed

text \<open>The contents that recovery gives to a block, as a function of the disk before.\<close>

definition recovered :: "nat \<Rightarrow> (nat \<Rightarrow> bytes) \<Rightarrow> nat \<Rightarrow> bytes" where
  "recovered st d k = (case find_index (\<lambda>h. h = k) (head_list (d st)) of Some i \<Rightarrow> d (st + i + 1) | None \<Rightarrow> d k)"

definition log_valid :: "nat \<Rightarrow> nat \<Rightarrow> (nat \<Rightarrow> bytes) \<Rightarrow> bool" where
  "log_valid st sz d \<longleftrightarrow> 0 \<le> head_n (d st) \<and> head_n (d st) < 30 \<and> distinct (head_list (d st)) \<and>
     (\<forall>h \<in> set (head_list (d st)). h < sz \<and> h \<notin> {st .. st + 29})"

lemma recovered_in:
  assumes "distinct (head_list (d st))" "i < length (head_list (d st))"
  shows "recovered st d (head_list (d st) ! i) = d (st + i + 1)"
proof -
  have "find_index (\<lambda>h. h = head_list (d st) ! i) (head_list (d st)) = Some i"
    using assms by (simp add: find_index_Some nth_eq_iff_index_eq)
  then show ?thesis by (simp add: recovered_def)
qed

lemma recovered_out: "k \<notin> set (head_list (d st)) \<Longrightarrow> recovered st d k = d k"
proof -
  assume "k \<notin> set (head_list (d st))"
  then have "find_index (\<lambda>h. h = k) (head_list (d st)) = None" by (auto simp: find_index_from_None)
  then show ?thesis by (simp add: recovered_def)
qed

definition install_writes :: "nat \<Rightarrow> (nat \<Rightarrow> bytes) \<Rightarrow> (nat \<times> bytes) list" where
  "install_writes st d = map (\<lambda>i. (head_list (d st) ! i, d (st + i + 1))) [0 ..< length (head_list (d st))]"

text \<open>The writes of a recovery, up to any point, do not change what recovery gives.\<close>

lemma install_prefix:
  fixes j
  assumes v: "log_valid st sz d"
  defines "e \<equiv> apply_writes d (take j (install_writes st d))"
  shows "\<forall>k \<in> {st .. st + 29}. e k = d k" "\<forall>k. k \<notin> {st .. st + 29} \<longrightarrow> recovered st e k = recovered st d k"
    "length (head_list (d st)) \<le> j \<Longrightarrow> \<forall>k. k \<notin> {st .. st + 29} \<longrightarrow> e k = recovered st d k"
proof -
  let ?hs = "head_list (d st)"
  let ?m = "min j (length ?hs)"
  have len: "length ?hs < 30" using v by (simp add: log_valid_def head_list_def) linarith
  have e: "e = apply_writes d (map (\<lambda>i. (?hs ! i, d (st + i + 1))) [0 ..< ?m])"
    by (cases "j \<le> length ?hs") (simp_all add: e_def install_writes_def take_map take_upt min_def)
  have inj: "inj_on (\<lambda>i. ?hs ! i) {..< ?m}" using v by (auto simp: log_valid_def inj_on_def nth_eq_iff_index_eq)
  have ein: "e (?hs ! i) = d (st + i + 1)" if "i < ?m" for i unfolding e using apply_map_at [OF inj that] by simp
  have eout: "e k = d k" if "\<forall>i < ?m. k \<noteq> ?hs ! i" for k
    unfolding e using that by (intro apply_writes_out) auto
  show area: "\<forall>k \<in> {st .. st + 29}. e k = d k"
    using v eout by (auto simp: log_valid_def) (metis atLeastAtMost_iff nth_mem)
  then have h: "e st = d st" by simp
  show rec: "\<forall>k. k \<notin> {st .. st + 29} \<longrightarrow> recovered st e k = recovered st d k"
  proof (intro allI impI)
    fix k assume "k \<notin> {st .. st + 29}"
    show "recovered st e k = recovered st d k"
    proof (cases "k \<in> set ?hs")
      case True
      then obtain i where i: "i < length ?hs" "k = ?hs ! i" by (auto simp: in_set_conv_nth)
      have "distinct ?hs" using v by (simp add: log_valid_def)
      then have "recovered st e k = e (st + i + 1)" "recovered st d k = d (st + i + 1)"
        using recovered_in [of d st i] recovered_in [of e st i] i h by simp_all
      then show ?thesis using area len i(1) by simp
    next
      case False
      then show ?thesis using recovered_out [of k e st] recovered_out [of k d st] h eout [of k] by (auto simp: in_set_conv_nth)
    qed
  qed
  show "\<forall>k. k \<notin> {st .. st + 29} \<longrightarrow> e k = recovered st d k" if j: "length ?hs \<le> j"
  proof (intro allI impI)
    fix k assume "k \<notin> {st .. st + 29}"
    show "e k = recovered st d k"
    proof (cases "k \<in> set ?hs")
      case True
      then obtain i where i: "i < length ?hs" "k = ?hs ! i" by (auto simp: in_set_conv_nth)
      then show ?thesis using ein [of i] j recovered_in [of d st i] v by (simp add: log_valid_def)
    next
      case False
      then show ?thesis using recovered_out [of k d st] eout [of k] by (auto simp: in_set_conv_nth)
    qed
  qed
qed

text \<open>A machine that has just booted: nothing in the cache is dirty.\<close>

definition booted :: "(nat \<Rightarrow> bytes) \<Rightarrow> 'x lst_scheme \<Rightarrow> bool" where
  "booted d s \<longleftrightarrow> cache_ok {} s \<and> dirty_blocks s = {} \<and> log_cfg s \<and> disk s = d"

lemma recover_ok:
  assumes b: "booted d s" and v: "log_valid (unat (log_start s)) (disksize s) d"
  defines "st \<equiv> unat (log_start s)"
  shows "\<exists>t f. recover_from_log s = Ok ((), t) \<and> booted (disk t) t \<and> lh_n t = 0 \<and> log_start t = log_start s \<and> disksize t = disksize s \<and>
     wrote (install_writes st d @ [(st, head_block 0 f (d st))]) s t"
proof -
  have c: "cache_ok {} s" and dirty: "dirty_blocks s = {}" and cfg: "log_cfg s" and d: "disk s = d"
    using b by (auto simp: booted_def)
  have n: "0 \<le> head_n (d st)" "head_n (d st) < 30" using v by (auto simp: log_valid_def st_def)
  obtain u where u: "read_head s = Ok ((), u)" "cache_ok {} u" "log_cfg u" "dirty_blocks u = {}" "disk u = d"
    "bview u = bview s" "writes u = writes s" "disksize u = disksize s" "log_start u = log_start s" "log_dev u = log_dev s"
    "lh_n u = head_n (d st)" "lh_block u = get_blocks 0 (nat (head_n (d st))) (d st) (lh_block s)"
    using read_head_ok [OF c cfg dirty] n d by (auto simp: st_def)
  have len: "length (head_list (d st)) = nat (head_n (d st))" by (simp add: head_list_def)
  have hm: "home u i = head_list (d st) ! i" if "i < nat (head_n (d st))" for i
    using that by (simp add: home_def u(12) get_blocks_eq head_list_def)
  have area: "log_area u = {st .. st + 29}" using u(9) by (simp add: log_area_def st_def)
  have homes: "homes_ok (nat (lh_n u)) u"
    using v hm len area u(8,11) by (auto simp: homes_ok_def inj_on_def log_valid_def st_def nth_eq_iff_index_eq)
  obtain t where t: "seqk install_trans (seqk (modk (\<lambda>s. s\<lparr>lh_n := 0\<rparr>)) write_head) u = Ok ((), t)" "cache_ok {} t"
    "dirty_blocks t = {}" "lh_n t = 0" "disksize t = disksize u" "log_start t = log_start u" "log_dev t = log_dev u"
    "wrote (map (\<lambda>i. (home u i, bview u (lblk u i))) [0 ..< nat (lh_n u)] @
       [(st, head_block 0 (lh_block u) (bview u st))]) u t"
    using finish_ok [OF u(2,3) _ _ homes] u(4,9,11) n by (auto simp: st_def)
  have uv: "bview u k = d k" for k using bview_not_dirty [OF c] dirty d u(6) by simp
  have "map (\<lambda>i. (home u i, bview u (lblk u i))) [0 ..< nat (lh_n u)] = install_writes st d"
    using hm u(9,11) len by (simp add: install_writes_def lblk_def uv st_def)
  then have "wrote (install_writes st d @ [(st, head_block 0 (lh_block u) (d st))]) s t"
    using t(8) u(5,6,7) uv d by (simp add: wrote_def)
  moreover have "recover_from_log s = Ok ((), t)"
    using t(1) by (simp add: recover_from_log_def kern_simps u(1))
  ultimately show ?thesis using t u(3,8,9,10) by (auto simp: booted_def log_cfg_def)
qed

end
