(* ===== verification/Bio_Props.thy ===== *)
theory Bio_Props
  imports Log
begin

text \<open>
  Two properties of the buffer cache as a whole.  Seen from its clients it is the disk: reads give what was last written.
  Inside, it is a list of buffers in the order of their last release, and the linked list of the code implements it.
\<close>

section \<open>The cache is the disk\<close>

text \<open>The two ways in which the kernel uses a block without the log: copy it out, or overwrite it and write it back.\<close>

definition load_block :: "u32 \<Rightarrow> ('x, bytes) bkern" where
  "load_block k = bindk (bread 1 k) (\<lambda>b. bindk (buf_data b) (\<lambda>d. seqk (brelse b) (ret d)))"

definition store_block :: "u32 \<Rightarrow> bytes \<Rightarrow> ('x, unit) bkern" where
  "store_block k d = bindk (bread 1 k) (\<lambda>b. seqk (buf_write b d) (seqk (bwrite b) (brelse b)))"

datatype blk_op = Load u32 | Store u32 bytes

fun run_blk :: "blk_op list \<Rightarrow> ('x, bytes list) bkern" where
  "run_blk [] = ret []"
| "run_blk (Load k # ops) = bindk (load_block k) (\<lambda>d. bindk (run_blk ops) (\<lambda>ds. ret (d # ds)))"
| "run_blk (Store k d # ops) = seqk (store_block k d) (run_blk ops)"

fun spec_blk :: "blk_op list \<Rightarrow> (nat \<Rightarrow> bytes) \<Rightarrow> bytes list \<times> (nat \<Rightarrow> bytes)" where
  "spec_blk [] D = ([], D)"
| "spec_blk (Load k # ops) D = (case spec_blk ops D of (ds, D') \<Rightarrow> (D (unat k) # ds, D'))"
| "spec_blk (Store k d # ops) D = spec_blk ops (D(unat k := d))"

fun op_block :: "blk_op \<Rightarrow> nat" where
  "op_block (Load k) = unat k"
| "op_block (Store k d) = unat k"

text \<open>No buffer is held and none is dirty: the contents of every block are those of the disk.\<close>

definition quiet :: "'x bst_scheme \<Rightarrow> bool" where
  "quiet s \<longleftrightarrow> cache_ok {} s \<and> dirty_blocks s = {}"

lemma quiet_view: "quiet s \<Longrightarrow> bview s = disk s"
  by (rule ext, rule bview_clean [of "{}"]) (auto simp: quiet_def dirty_blocks_def dirty_bufs_def)

lemma quiet_bread:
  assumes "quiet s" "unat k < disksize s"
  obtains b t where "bread 1 k s = Ok (b, t)" "cache_ok {b} t" "b_blockno (bufs t b) = k" "b_data (bufs t b) = disk s (unat k)"
    "dirty_blocks t = {}" "same_disk s t" "bview t = bview s"
proof -
  have "cache_ok {} s" "card ({} :: nat set) + card (dirty_blocks s) < NBUF" using assms(1) by (auto simp: quiet_def NBUF_def)
  then show ?thesis
    using bread_ok [of "{}" s k] assms quiet_view [OF assms(1)] that by (auto simp: quiet_def)
qed

lemma load_block_ok:
  assumes "quiet s" "unat k < disksize s"
  shows "\<exists>t. load_block k s = Ok (disk s (unat k), t) \<and> quiet t \<and> same_disk s t"
proof -
  obtain b t where b: "bread 1 k s = Ok (b, t)" "cache_ok {b} t" "b_blockno (bufs t b) = k" "b_data (bufs t b) = disk s (unat k)"
    "dirty_blocks t = {}" "same_disk s t" using quiet_bread [OF assms] by blast
  have "b_data (bufs t b) = disk t (unat (b_blockno (bufs t b)))" using b by (simp add: same_disk_def)
  then obtain u where u: "brelse b t = Ok ((), u)" "cache_ok ({b} - {b}) u" "dirty_blocks u = dirty_blocks t" "same_disk t u"
    using brelse_ok [OF b(2), of b] by auto
  have "load_block k s = Ok (disk s (unat k), u)" using b u by (simp add: load_block_def buf_data_def kern_simps)
  then show ?thesis using u b(5) same_disk_trans [OF b(6) u(4)] by (auto simp: quiet_def)
qed

lemma store_block_ok:
  assumes "quiet s" "unat k < disksize s"
  shows "\<exists>t. store_block k d s = Ok ((), t) \<and> quiet t \<and> disk t = (disk s)(unat k := d) \<and> disksize t = disksize s"
proof -
  obtain b t where b: "bread 1 k s = Ok (b, t)" "cache_ok {b} t" "b_blockno (bufs t b) = k"
    "dirty_blocks t = {}" "same_disk s t" using quiet_bread [OF assms] by blast
  let ?u = "upd_buf b (set_data d) t"
  have u: "cache_ok {b} ?u" "dirty_blocks ?u = {}" "b_data (bufs ?u b) = d" "b_blockno (bufs ?u b) = k"
    using set_data_ok [OF b(2), of b d] b(3,4) by (simp_all add: set_data_def)
  obtain v where v: "bwrite b ?u = Ok ((), v)" "cache_ok {b} v" "disk v = (disk ?u)(unat k := d)" "dirty_blocks v = {}"
    "disksize v = disksize ?u" "bufs v = (bufs ?u)(b := (bufs ?u b)\<lparr>b_dirty := False, b_valid := True\<rparr>)"
    using bwrite_ok [OF u(1), of b] u(2,3,4) by auto
  have "b_data (bufs v b) = disk v (unat (b_blockno (bufs v b)))" using v(3,6) u(3,4) by simp
  then obtain w where w: "brelse b v = Ok ((), w)" "cache_ok ({b} - {b}) w" "dirty_blocks w = dirty_blocks v" "same_disk v w"
    using brelse_ok [OF v(2), of b] by auto
  have "store_block k d s = Ok ((), w)" using b v w by (simp add: store_block_def buf_write_def kern_simps)
  then show ?thesis using w v b(5) by (auto simp: quiet_def same_disk_def)
qed

lemma run_blk_ok:
  assumes "quiet s" "\<forall>p \<in> set ops. op_block p < disksize s"
  shows "\<exists>t. run_blk ops s = Ok (fst (spec_blk ops (disk s)), t) \<and> quiet t \<and> disk t = snd (spec_blk ops (disk s))"
  using assms
proof (induction ops arbitrary: s)
  case Nil
  then show ?case by (simp add: kern_simps)
next
  case (Cons p ops)
  show ?case
  proof (cases p)
    case (Load k)
    obtain t where t: "load_block k s = Ok (disk s (unat k), t)" "quiet t" "same_disk s t"
      using load_block_ok [of s k] Cons.prems Load by auto
    have "\<exists>u. run_blk ops t = Ok (fst (spec_blk ops (disk t)), u) \<and> quiet u \<and> disk u = snd (spec_blk ops (disk t))"
      using Cons.IH [OF t(2)] Cons.prems t(3) by (simp add: same_disk_def)
    then show ?thesis using t Load by (auto simp: kern_simps same_disk_def split: prod.splits)
  next
    case (Store k d)
    obtain t where t: "store_block k d s = Ok ((), t)" "quiet t" "disk t = (disk s)(unat k := d)" "disksize t = disksize s"
      using store_block_ok [of s k d] Cons.prems Store by auto
    have "\<exists>u. run_blk ops t = Ok (fst (spec_blk ops (disk t)), u) \<and> quiet u \<and> disk u = snd (spec_blk ops (disk t))"
      using Cons.IH [OF t(2)] Cons.prems t(4) by simp
    then show ?thesis using t Store by (simp add: kern_simps)
  qed
qed

text \<open>
  C28: the buffer cache is transparent.  From the state that \<open>binit\<close> leaves, any sequence of block reads and block writes
  through the cache of 30 buffers, with as many different blocks as it likes, succeeds, gives the same data as the same
  sequence on a plain array of blocks, and leaves that array on the disk.
\<close>

theorem buffer_cache_transparent:
  assumes "\<forall>i. bufs s i = blank_buf" "\<forall>p \<in> set ops. op_block p < disksize s"
  shows "\<exists>t. seqk binit (run_blk ops) s = Ok (fst (spec_blk ops (disk s)), t) \<and> disk t = snd (spec_blk ops (disk s))"
proof -
  obtain u where u: "binit s = Ok ((), u)" "cache_ok {} u" "\<forall>i. bufs u i = blank_buf" "same_disk s u"
    using binit_ok [OF assms(1)] by blast
  have "quiet u" using u by (simp add: quiet_def dirty_blocks_def dirty_bufs_def blank_buf_def)
  from run_blk_ok [OF this, of ops] show ?thesis using u(1,4) assms(2) by (auto simp: kern_simps same_disk_def)
qed

definition ex_bst :: bst where
  "ex_bst = \<lparr>bufs = (\<lambda>_. blank_buf), bnext = (\<lambda>_. 0), bprev = (\<lambda>_. 0), disk = (\<lambda>k _. of_nat k), disksize = 100, writes = [], curpid = 1\<rparr>"

theorem buffer_cache_transparent_witness:
  "\<exists>t. seqk binit (run_blk [Store 7 (\<lambda>_. 42), Load 9, Load 7]) ex_bst = Ok ([\<lambda>_. 9, \<lambda>_. 42], t) \<and> disk t 7 = (\<lambda>_. 42)"
  using buffer_cache_transparent [of ex_bst "[Store 7 (\<lambda>_. 42), Load 9, Load 7]"] by (auto simp: ex_bst_def)

section \<open>The order of the buffers\<close>

text \<open>
  The abstract cache: a list of buffers, the most recently released first.  A block that is not cached goes to the buffer
  released longest ago among those that are neither in use nor dirty.
\<close>

definition lru_choice :: "u32 \<Rightarrow> u32 \<Rightarrow> 'x bst_scheme \<Rightarrow> nat list \<Rightarrow> nat option" where
  "lru_choice dev bn s xs = (case find (block_is dev bn s) xs of Some b \<Rightarrow> Some b | None \<Rightarrow> find (recyclable s) (rev xs))"

definition lru_release :: "nat \<Rightarrow> nat list \<Rightarrow> nat list" where
  "lru_release b xs = b # remove1 b xs"

lemma lru_release_ok:
  assumes "lru s xs" "b \<in> set xs"
  shows "lru (lru_push b (lru_unlink b s)) (lru_release b xs)"
proof -
  obtain ys zs where x: "xs = ys @ b # zs" "b \<notin> set ys" using assms(2) by (metis split_list_first)
  have "distinct xs" "HEAD \<notin> set xs" using assms(1) by (auto simp: lru_def)
  then have n: "b \<notin> set (ys @ zs)" "b \<noteq> HEAD" using x by auto
  have "lru (lru_unlink b s) (ys @ zs)" using lru_unlink_ok assms(1) x(1) by simp
  from lru_push_ok [OF this n] show ?thesis using x by (simp add: lru_release_def remove1_append)
qed

lemma lru_upd_buf [simp]: "lru (upd_buf b f s) xs = lru s xs"
  by (rule lru_cong) simp_all

lemma bget_hit:
  assumes "lru s xs" "set xs = {..< NBUF}" "find (block_is dev bn s) xs = Some b" "\<not> sl_locked (b_lock (bufs s b))"
  shows "\<exists>t. bget dev bn s = Ok (b, t) \<and> lru t xs \<and> block_is dev bn t b \<and> (\<forall>j. j \<noteq> b \<longrightarrow> bufs t j = bufs s j) \<and>
    b_refcnt (bufs t b) = b_refcnt (bufs s b) + 1 \<and> b_valid (bufs t b) = b_valid (bufs s b) \<and> b_data (bufs t b) = b_data (bufs s b)"
proof -
  have "block_is dev bn s b" using assms(3) by (auto simp: find_Some_iff)
  then show ?thesis
    using assms by (simp add: bget_def bscan_list [OF assms(1,2)] kern_simps block_sleep_def zoomk_def acquiresleep_def block_is_def)
qed

lemma bget_miss:
  assumes "lru s xs" "set xs = {..< NBUF}" "find (block_is dev bn s) xs = None" "find (recyclable s) (rev xs) = Some b"
    "\<not> sl_locked (b_lock (bufs s b))"
  shows "\<exists>t. bget dev bn s = Ok (b, t) \<and> lru t xs \<and> block_is dev bn t b \<and> (\<forall>j. j \<noteq> b \<longrightarrow> bufs t j = bufs s j) \<and>
    b_refcnt (bufs t b) = 1 \<and> \<not> b_valid (bufs t b)"
  using assms by (simp add: bget_def bscan_list [OF assms(1,2)] kern_simps block_sleep_def zoomk_def acquiresleep_def block_is_def)

text \<open>
  C35: the linked list implements replacement of the least recently used buffer.  If the links represent the list \<open>xs\<close>, then
  \<open>bget\<close> ends; it panics exactly when the block is not cached and every buffer is in use or dirty; otherwise, unless it has to
  wait for the lock of the chosen buffer, it gives the buffer of the abstract cache, changes no other buffer and not
  the list.  \<open>brelse\<close> of the last reference moves the buffer to the front of the list and an earlier one leaves the list alone.
\<close>

theorem buffer_cache_lru:
  assumes x: "lru s xs" "set xs = {..< NBUF}"
  shows "(case lru_choice dev bn s xs of
      None \<Rightarrow> bget dev bn s = Panic ''bget: no buffers''
    | Some b \<Rightarrow> (if sl_locked (b_lock (bufs s b)) then \<exists>m. bget dev bn s = Sleeps m
        else \<exists>t. bget dev bn s = Ok (b, t) \<and> lru t xs \<and> block_is dev bn t b \<and> (\<forall>j. j \<noteq> b \<longrightarrow> bufs t j = bufs s j))) \<and>
    (b \<in> set xs \<longrightarrow> holdingsleep (curpid s) (b_lock (bufs s b)) \<longrightarrow> (\<exists>t. brelse b s = Ok ((), t) \<and>
        lru t (if b_refcnt (bufs s b) = 1 then lru_release b xs else xs) \<and> \<not> sl_locked (b_lock (bufs t b))))"
proof (intro conjI impI)
  show "case lru_choice dev bn s xs of
      None \<Rightarrow> bget dev bn s = Panic ''bget: no buffers''
    | Some b \<Rightarrow> (if sl_locked (b_lock (bufs s b)) then \<exists>m. bget dev bn s = Sleeps m
        else \<exists>t. bget dev bn s = Ok (b, t) \<and> lru t xs \<and> block_is dev bn t b \<and> (\<forall>j. j \<noteq> b \<longrightarrow> bufs t j = bufs s j))"
  proof (cases "find (block_is dev bn s) xs")
    case (Some b)
    then show ?thesis using bget_hit [OF x Some]
      by (auto simp: lru_choice_def bget_def bscan_list [OF x] kern_simps block_sleep_def zoomk_def acquiresleep_def)
  next
    case none: None
    show ?thesis
    proof (cases "find (recyclable s) (rev xs)")
      case None
      then show ?thesis using none by (simp add: lru_choice_def bget_def bscan_list [OF x])
    next
      case (Some b)
      then show ?thesis using none bget_miss [OF x none Some]
        by (auto simp: lru_choice_def bget_def bscan_list [OF x] kern_simps block_sleep_def zoomk_def acquiresleep_def)
    qed
  qed
next
  assume b: "b \<in> set xs" "holdingsleep (curpid s) (b_lock (bufs s b))"
  let ?u = "upd_buf b (\<lambda>x. x\<lparr>b_refcnt := b_refcnt x - 1\<rparr>) (upd_buf b (\<lambda>x. x\<lparr>b_lock := (b_lock x)\<lparr>sl_locked := False, sl_pid := 0\<rparr>\<rparr>) s)"
  have u: "lru ?u xs" using x(1) by simp
  have "lru (lru_push b (lru_unlink b ?u)) (lru_release b xs)" by (rule lru_release_ok [OF u b(1)])
  moreover have "bufs (lru_push b (lru_unlink b ?u)) = bufs ?u" by (rule lru_move_fields)
  moreover have "(b_refcnt (bufs ?u b) = 0) = (b_refcnt (bufs s b) = 1)" by simp
  ultimately show "\<exists>t. brelse b s = Ok ((), t) \<and> lru t (if b_refcnt (bufs s b) = 1 then lru_release b xs else xs) \<and>
      \<not> sl_locked (b_lock (bufs t b))"
    using u b(2) by (auto simp: brelse_def Let_def simp del: lru_push_fields)
qed

text \<open>After \<open>binit\<close>, block 7 goes to buffer 0, which was put into the list first.\<close>

theorem buffer_cache_lru_witness:
  "\<exists>s :: bst. lru s (rev [0 ..< NBUF]) \<and> (\<exists>t. bget 1 7 s = Ok (0, t) \<and> lru t (rev [0 ..< NBUF]) \<and> block_is 1 7 t 0)"
proof -
  obtain s :: bst where s: "lru s (rev [0 ..< NBUF])" "\<forall>i. bufs s i = blank_buf"

  proof -
    have "\<forall>i. bufs ex_bst i = blank_buf" by (simp add: ex_bst_def)
    from binit_ok [OF this] show thesis using that by blast
  qed
  have "lru_choice 1 7 s (rev [0 ..< NBUF]) = Some 0"
  proof -
    have "find (block_is 1 7 s) (rev [0 ..< NBUF]) = None" using s(2) by (simp add: find_None_iff block_is_def blank_buf_def)
    moreover have "find (recyclable s) [0 ..< NBUF] = Some 0"
      using s(2) by (simp add: upt_conv_Cons NBUF_def recyclable_def blank_buf_def)
    ultimately show ?thesis by (simp add: lru_choice_def)
  qed
  moreover have "\<not> sl_locked (b_lock (bufs s 0))" using s(2) by (simp add: blank_buf_def)
  ultimately show ?thesis using buffer_cache_lru [OF s(1), of 1 7 0] s(1) by (auto simp: atLeast0LessThan)
qed

end
