(* ===== verification/Log_Crash.thy ===== *)
theory Log_Crash
  imports Log
begin

text \<open>
  Crashes.  A crash loses the memory and keeps the disk, with some prefix of the writes that were under way.  The theorem
  \<open>commit_crash_atomic\<close> covers a crash at any point of \<open>commit\<close> followed by any number of recoveries that crash themselves
  at any point.  The theory also relates the space that \<open>begin_op\<close> reserves to the limit that \<open>log_write\<close> enforces.
\<close>

section \<open>Disk states after a crash\<close>

lemma log_valid_head: "e st = d st \<Longrightarrow> log_valid st sz e = log_valid st sz d"
  by (simp add: log_valid_def)

lemma head0_facts: "head_n (head_block 0 f x) = 0" "head_list (head_block 0 f x) = []"
  using head_block_n [of 0] head_block_list [of 0] by simp_all

lemma erased:
  assumes "e st = head_block 0 f x"
  shows "log_valid st sz e" "recovered st e k = e k"
  using assms recovered_out [of k e st] by (simp_all add: log_valid_def head0_facts)

lemma recover_prefix:
  fixes f
  assumes v: "log_valid st sz d"
  defines "e \<equiv> (\<lambda>j. apply_writes d (take j (install_writes st d @ [(st, head_block 0 f (d st))])))"
  shows "log_valid st sz (e j)" "k \<notin> {st .. st + 29} \<Longrightarrow> recovered st (e j) k = recovered st d k"
proof -
  let ?I = "install_writes st d"
  have len: "length ?I = length (head_list (d st))" by (simp add: install_writes_def)
  consider "j \<le> length ?I" | "length ?I < j" by linarith
  then have "log_valid st sz (e j) \<and> (\<forall>k. k \<notin> {st .. st + 29} \<longrightarrow> recovered st (e j) k = recovered st d k)"
  proof cases
    case 1
    then have e: "e j = apply_writes d (take j ?I)" by (simp add: e_def)
    then have "e j st = d st" using install_prefix(1) [OF v, of j] by simp
    then show ?thesis using log_valid_head v install_prefix(2) [OF v, of j] e by metis
  next
    case 2
    have e: "e j = (apply_writes d (take j ?I))(st := head_block 0 f (d st))" using 2 by (simp add: e_def take_Cons')
    have "k \<notin> {st .. st + 29} \<Longrightarrow> e j k = recovered st d k" for k
      using install_prefix(3) [OF v, of j] 2 len by (auto simp: e)
    then show ?thesis using erased [of "e j" st f "d st"] by (simp add: e)
  qed
  then show "log_valid st sz (e j)" "k \<notin> {st .. st + 29} \<Longrightarrow> recovered st (e j) k = recovered st d k" by auto
qed

definition commit_writes :: "'x lst_scheme \<Rightarrow> (nat \<times> bytes) list" where
  "commit_writes s = log_writes s @ [(unat (log_start s), head1 s)] @ home_writes s @ [(unat (log_start s), head0 s)]"

text \<open>The disk just after the commit point.\<close>

definition committed :: "'x lst_scheme \<Rightarrow> nat \<Rightarrow> bytes" where
  "committed s = (apply_writes (disk s) (log_writes s))(unat (log_start s) := head1 s)"

lemma committed_facts:
  assumes r: "ready s"
  defines "st \<equiv> unat (log_start s)"
  shows "log_valid st (disksize s) (committed s)" "home_writes s = install_writes st (committed s)"
    "k \<notin> log_area s \<Longrightarrow> recovered st (committed s) k = bview s k"
proof -
  let ?n = "nat (lh_n s)" and ?d = "committed s"
  have c: "cache_ok {} s" and cfg: "log_cfg s" and n: "0 \<le> lh_n s" "lh_n s \<le> 30" "lh_n s < 30" and h: "homes_ok ?n s"
    and dirty: "dirty_blocks s = home s ` {..< ?n}" using r by (auto simp: ready_def)
  have hl: "head_n (?d st) = lh_n s" "head_list (?d st) = map (home s) [0 ..< ?n]"
    using head_block_n [OF n(1,2)] head_block_list [OF n(1,2)] by (simp_all add: committed_def st_def head1_def home_def [abs_def])
  have blk: "?d (st + i + 1) = bview s (home s i)" if "i < ?n" for i
    using log_writes_at [OF that, of "disk s"] by (simp add: committed_def st_def lblk_def)
  show "log_valid st (disksize s) ?d"
    unfolding log_valid_def hl using n h by (auto simp: distinct_map homes_ok_def atLeast0LessThan log_area_def st_def)
  show "home_writes s = install_writes st ?d"
    using blk by (simp add: home_writes_def install_writes_def hl)
  assume k: "k \<notin> log_area s"
  show "recovered st ?d k = bview s k"
  proof (cases "k \<in> set (head_list (?d st))")
    case True
    then obtain i where i: "i < ?n" "k = home s i" by (auto simp: hl)
    have "distinct (head_list (?d st))" using h by (simp add: hl distinct_map homes_ok_def atLeast0LessThan)
    then have "recovered st ?d (head_list (?d st) ! i) = ?d (st + i + 1)" using i by (intro recovered_in) (simp_all add: hl)
    then show ?thesis using i blk by (simp add: hl)
  next
    case False
    then have "k \<notin> dirty_blocks s" by (simp add: dirty hl atLeast0LessThan)
    then have "bview s k = disk s k" by (rule bview_not_dirty [OF c])
    moreover have "k \<noteq> st" "k \<notin> fst ` set (log_writes s)"
      using k log_writes_keys [OF cfg n(3)] by (auto simp: log_area_def st_def)
    then have "?d k = disk s k" by (simp add: committed_def st_def apply_writes_out)
    ultimately show ?thesis using recovered_out [of k ?d st] False by simp
  qed
qed

lemma commit_prefix:
  assumes r: "ready s" and empty: "head_n (disk s (unat (log_start s))) = 0"
  defines "st \<equiv> unat (log_start s)"
  defines "e \<equiv> (\<lambda>j. apply_writes (disk s) (take j (commit_writes s)))"
  shows "log_valid st (disksize s) (e j) \<and> ((\<forall>k. k \<notin> log_area s \<longrightarrow> recovered st (e j) k = disk s k) \<or>
     (\<forall>k. k \<notin> log_area s \<longrightarrow> recovered st (e j) k = bview s k))"
proof -
  let ?L = "log_writes s" and ?d = "committed s"
  have area: "log_area s = {st .. st + 29}" by (simp add: log_area_def st_def)
  have n: "lh_n s < 30" "log_cfg s" using r by (auto simp: ready_def)
  note keys = log_writes_keys [OF n(2,1)]
  show ?thesis
  proof (cases "j \<le> length ?L")
    case True
    then have e: "e j = apply_writes (disk s) (take j ?L)" by (simp add: e_def commit_writes_def)
    have sub: "fst ` set (take j ?L) \<subseteq> log_area s - {st}" using keys set_take_subset [of j ?L] by (auto simp: st_def)
    have st: "e j st = disk s st" unfolding e using sub by (intro apply_writes_out) blast
    then have hl: "head_list (e j st) = []" using empty by (simp add: head_list_def st_def)
    have "recovered st (e j) k = disk s k" if "k \<notin> log_area s" for k
    proof -
      have "e j k = disk s k" unfolding e using sub that by (intro apply_writes_out) blast
      then show ?thesis using recovered_out [of k "e j" st] hl by simp
    qed
    moreover have "log_valid st (disksize s) (e j)" using hl st empty by (simp add: log_valid_def st_def)
    ultimately show ?thesis by blast
  next
    case False
    then obtain i where j: "j = length ?L + 1 + i" by (metis add.commute add_Suc_right less_natE linorder_not_le plus_1_eq_Suc)
    have "take j (commit_writes s) = (?L @ [(st, head1 s)]) @ take i (home_writes s @ [(st, head0 s)])"
      by (simp add: commit_writes_def j st_def)
    then have "e j = apply_writes ?d (take i (install_writes st ?d @ [(st, head_block 0 (lh_block s) (?d st))]))"
      using committed_facts(2) [OF r] by (simp add: e_def committed_def st_def head0_def)
    then show ?thesis
      using recover_prefix [OF committed_facts(1) [OF r], where j = i and f = "lh_block s"] committed_facts(3) [OF r]
      unfolding area st_def [symmetric] by auto
  qed
qed

section \<open>Repeated crashes\<close>

text \<open>
  \<open>recrash ls sz d e\<close>: starting from the disk \<open>d\<close>, a number of recoveries have each been cut short after some of their
  writes, and the disk is now \<open>e\<close>.
\<close>

inductive recrash :: "u32 \<Rightarrow> nat \<Rightarrow> (nat \<Rightarrow> bytes) \<Rightarrow> (nat \<Rightarrow> bytes) \<Rightarrow> bool" for ls sz d where
  none: "recrash ls sz d d"
| again: "recrash ls sz d e \<Longrightarrow> booted e (s :: lst) \<Longrightarrow> log_start s = ls \<Longrightarrow> disksize s = sz \<Longrightarrow>
    recover_from_log s = Ok ((), t) \<Longrightarrow>
    recrash ls sz d (apply_writes e (take j (drop (length (writes s)) (writes t))))"

lemma recrash_keeps:
  assumes "recrash ls sz d e" "log_valid (unat ls) sz d"
  shows "log_valid (unat ls) sz e \<and> (\<forall>k. k \<notin> {unat ls .. unat ls + 29} \<longrightarrow> recovered (unat ls) e k = recovered (unat ls) d k)"
  using assms
proof (induction rule: recrash.induct)
  case none
  then show ?case by simp
next
  case (again e s t j)
  then have v: "log_valid (unat ls) sz e" by simp
  obtain f where "wrote (install_writes (unat ls) e @ [(unat ls, head_block 0 f (e (unat ls)))]) s t"
    using recover_ok [OF again.hyps(2)] v again.hyps(3,4,5) by auto
  then have "drop (length (writes s)) (writes t) = install_writes (unat ls) e @ [(unat ls, head_block 0 f (e (unat ls)))]"
    by (simp add: wrote_def)
  then show ?case using recover_prefix [OF v, where f = f and j = j] again.IH again.prems by simp
qed

text \<open>Recovery, when it is not cut short, gives every block outside the log its recovered contents.\<close>

lemma recover_result:
  assumes b: "booted d s" and v: "log_valid (unat (log_start s)) (disksize s) d"
  shows "\<exists>t. recover_from_log s = Ok ((), t) \<and> booted (disk t) t \<and> lh_n t = 0 \<and> head_n (disk t (unat (log_start s))) = 0 \<and>
     (\<forall>k. k \<notin> log_area s \<longrightarrow> disk t k = recovered (unat (log_start s)) d k)"
proof -
  let ?st = "unat (log_start s)"
  obtain t f where t: "recover_from_log s = Ok ((), t)" "booted (disk t) t" "lh_n t = 0"
    "wrote (install_writes ?st d @ [(?st, head_block 0 f (d ?st))]) s t"
    using recover_ok [OF b v] by blast
  have d: "disk s = d" using b by (simp add: booted_def)
  let ?j = "Suc (length (head_list (d ?st)))"
  have "disk t = (apply_writes d (install_writes ?st d))(?st := head_block 0 f (d ?st))"
    using t(4) d by (simp add: wrote_def)
  moreover have "take ?j (install_writes ?st d) = install_writes ?st d" by (simp add: install_writes_def)
  ultimately have "\<forall>k. k \<notin> log_area s \<longrightarrow> disk t k = recovered ?st d k" "head_n (disk t ?st) = 0"
    using install_prefix(3) [OF v, of ?j] by (auto simp: log_area_def head0_facts)
  then show ?thesis using t by blast
qed

text \<open>
  C7: a transaction is atomic.  Let \<open>commit\<close> of a transaction be interrupted by a crash after any number \<open>j\<close> of its disk writes, and
  let any number of recoveries crash too.  Then the next recovery that runs to its end succeeds, leaves an empty log, and
  every block outside the log has its contents from before the transaction, or every block has its contents
  from the transaction.
\<close>

theorem commit_crash_atomic:
  fixes s r :: lst
  assumes "ready s" "head_n (disk s (unat (log_start s))) = 0" "commit s = Ok ((), t)"
    and "recrash (log_start s) (disksize s) (apply_writes (disk s) (take j (drop (length (writes s)) (writes t)))) e"
    and "booted e r" "log_start r = log_start s" "disksize r = disksize s"
  shows "\<exists>r'. recover_from_log r = Ok ((), r') \<and> head_n (disk r' (unat (log_start s))) = 0 \<and>
    ((\<forall>k. k \<notin> log_area s \<longrightarrow> disk r' k = disk s k) \<or> (\<forall>k. k \<notin> log_area s \<longrightarrow> disk r' k = bview s k))"
proof -
  let ?st = "unat (log_start s)" and ?e0 = "apply_writes (disk s) (take j (commit_writes s))"
  have area: "log_area s = {?st .. ?st + 29}" "log_area r = log_area s" using assms(6) by (simp_all add: log_area_def)
  have "wrote (commit_writes s) s t" using commit_ok [OF assms(1)] assms(3) by (auto simp: commit_writes_def)
  then have "drop (length (writes s)) (writes t) = commit_writes s" by (simp add: wrote_def)
  then have rc: "recrash (log_start s) (disksize s) ?e0 e" using assms(4) by simp
  note cp = commit_prefix [OF assms(1,2), of j]
  have v0: "log_valid ?st (disksize s) ?e0" using cp by blast
  note ek = recrash_keeps [OF rc v0]
  obtain r' where r': "recover_from_log r = Ok ((), r')" "head_n (disk r' ?st) = 0"
    "\<forall>k. k \<notin> log_area s \<longrightarrow> disk r' k = recovered ?st e k"
    using recover_result [OF assms(5)] ek assms(6,7) area by auto
  then show ?thesis using cp ek area(1) by (intro exI [of _ r']) auto
qed

text \<open>
  A commit that is not interrupted succeeds, moves the whole transaction to the disk, leaves the cache clean and the log empty.
\<close>

theorem commit_installs:
  assumes "ready s"
  shows "\<exists>t. commit s = Ok ((), t) \<and> lh_n t = 0 \<and> cache_ok {} t \<and> dirty_blocks t = {} \<and>
    head_n (disk t (unat (log_start s))) = 0 \<and> (\<forall>k. k \<notin> log_area s \<longrightarrow> disk t k = bview s k)"
proof -
  let ?st = "unat (log_start s)" and ?d = "committed s"
  obtain t where t: "commit s = Ok ((), t)" "cache_ok {} t" "dirty_blocks t = {}" "lh_n t = 0" "wrote (commit_writes s) s t"
    using commit_ok [OF assms] by (auto simp: commit_writes_def)
  have "commit_writes s = (log_writes s @ [(?st, head1 s)]) @ install_writes ?st ?d @ [(?st, head0 s)]"
    using committed_facts(2) [OF assms] by (simp add: commit_writes_def)
  then have d: "disk t = (apply_writes ?d (install_writes ?st ?d))(?st := head0 s)"
    using t(5) by (simp add: wrote_def committed_def)
  let ?j = "length (head_list (?d ?st))"
  have "take ?j (install_writes ?st ?d) = install_writes ?st ?d" by (simp add: install_writes_def)
  then have "disk t k = recovered ?st ?d k" if "k \<notin> log_area s" for k
    using install_prefix(3) [OF committed_facts(1) [OF assms], of ?j] that by (auto simp: d log_area_def)
  then have "\<forall>k. k \<notin> log_area s \<longrightarrow> disk t k = bview s k" using committed_facts(3) [OF assms] by simp
  moreover have "head_n (disk t ?st) = 0" by (simp add: d head0_def head0_facts)
  ultimately show ?thesis using t by blast
qed

section \<open>An example\<close>

text \<open>Buffer 0 holds a modified copy of block 100; the log starts at block 2.\<close>

definition ex_boot :: lst where
  "ex_boot = \<lparr>bufs = (\<lambda>_. blank_buf), bnext = (\<lambda>_. 0), bprev = (\<lambda>_. 0), disk = (\<lambda>_ _. 0), disksize = 1000, writes = [],
     curpid = 1, log_start = 2, log_size = 30, log_outstanding = 0, log_committing = False, log_dev = 1, lh_n = 0,
     lh_block = (\<lambda>_. 0)\<rparr>"

definition ex_up :: lst where
  "ex_up = (case binit ex_boot of Ok (_, t) \<Rightarrow> t | _ \<Rightarrow> ex_boot)"

lemma ex_up_facts:
  "cache_ok {} ex_up" "\<forall>i. bufs ex_up i = blank_buf" "disk ex_up = (\<lambda>_ _. 0)" "disksize ex_up = 1000" "writes ex_up = []"
  "log_start ex_up = 2" "log_dev ex_up = 1" "lh_n ex_up = 0" "curpid ex_up = 1" "log_size ex_up = 30"
  "log_outstanding ex_up = 0" "\<not> log_committing ex_up"
proof -
  have "\<forall>i. bufs ex_boot i = blank_buf" by (simp add: ex_boot_def)
  then obtain t where t: "binit ex_boot = Ok ((), t)" "cache_ok {} t" "\<forall>i. bufs t i = blank_buf" "same_disk ex_boot t"
    using binit_ok [of ex_boot] by blast
  have e: "ex_up = t" by (simp add: ex_up_def t(1))
  have "disk t = (\<lambda>_ _. 0)" "disksize t = 1000" "writes t = []" "curpid t = 1" "bst.more t = bst.more ex_boot"
    using t(4) by (simp_all add: same_disk_def ex_boot_def)
  moreover have "log_start t = 2" "log_dev t = 1" "lh_n t = 0" "log_size t = 30" "log_outstanding t = 0" "\<not> log_committing t"
    using log_frame [of t ex_boot] calculation(5) by (simp_all add: ex_boot_def)
  ultimately show "cache_ok {} ex_up" "\<forall>i. bufs ex_up i = blank_buf" "disk ex_up = (\<lambda>_ _. 0)" "disksize ex_up = 1000" "writes ex_up = []"
    "log_start ex_up = 2" "log_dev ex_up = 1" "lh_n ex_up = 0" "curpid ex_up = 1" "log_size ex_up = 30"
    "log_outstanding ex_up = 0" "\<not> log_committing ex_up"
    using t e by simp_all
qed

lemma ex_up_booted: "booted (\<lambda>_ _. 0) ex_up"
proof -
  have "dirty_blocks ex_up = {}" using ex_up_facts(2) by (simp add: dirty_blocks_def dirty_bufs_def blank_buf_def)
  then show ?thesis using ex_up_facts by (simp add: booted_def log_cfg_def)
qed

definition ex_buf :: buf where
  "ex_buf = blank_buf\<lparr>b_valid := True, b_dirty := True, b_dev := 1, b_blockno := 100, b_data := (\<lambda>_. 7)\<rparr>"

definition ex_trans :: lst where
  "ex_trans = (upd_buf 0 (\<lambda>_. ex_buf) ex_up)\<lparr>lh_n := 1, lh_block := (\<lambda>_. 100)\<rparr>"

lemma ex_trans_cache: "cache_ok {} ex_trans"
proof -
  have "cache_ok ({} - {0}) (upd_buf 0 (\<lambda>_. ex_buf) ex_up)"
    using ex_up_facts by (intro cache_ok_upd [OF ex_up_facts(1), of 0 False])
      (auto simp: slot_ok_def ex_buf_def blank_buf_def NBUF_def)
  then show ?thesis unfolding ex_trans_def lh_upd_frame2 by simp
qed

lemma ex_trans_bufs: "bufs ex_trans i = (if i = 0 then ex_buf else blank_buf)"
  using ex_up_facts(2) by (simp add: ex_trans_def)

lemma ex_trans_fields:
  "lh_n ex_trans = 1" "lh_block ex_trans = (\<lambda>_. 100)" "log_start ex_trans = 2" "log_dev ex_trans = 1"
  "disksize ex_trans = 1000" "disk ex_trans = (\<lambda>_ _. 0)" "writes ex_trans = []"
  using ex_up_facts log_frame [of "upd_buf 0 (\<lambda>_. ex_buf) ex_up" ex_up] by (simp_all add: ex_trans_def)

lemma ex_trans_view: "bview ex_trans 100 = (\<lambda>_. 7)"
proof -
  have "cached ex_trans 100 0" by (simp add: cached_def ex_trans_bufs ex_buf_def)
  then have "bview ex_trans 100 = b_data (bufs ex_trans 0)" by (rule bview_cached [OF ex_trans_cache, rotated]) (simp add: NBUF_def)
  then show ?thesis by (simp add: ex_trans_bufs ex_buf_def)
qed

lemma ex_trans_ready: "ready ex_trans"
proof -
  have "dirty_bufs ex_trans = {0}" by (auto simp: dirty_bufs_def ex_trans_bufs ex_buf_def blank_buf_def NBUF_def)
  then have "dirty_blocks ex_trans = {100}" by (simp add: dirty_blocks_def ex_trans_bufs ex_buf_def)
  moreover have "homes_ok 1 ex_trans" "home ex_trans ` {..< 1} = {100}"
    by (auto simp: homes_ok_def inj_on_def home_def ex_trans_fields log_area_def)
  ultimately show ?thesis using ex_trans_cache by (simp add: ready_def log_cfg_def ex_trans_fields)
qed

text \<open>The example transaction crashes before its first write.\<close>

theorem commit_crash_atomic_witness:
  "\<exists>r'. recover_from_log ex_up = Ok ((), r') \<and> (disk r' 100 = (\<lambda>_. 0) \<or> disk r' 100 = (\<lambda>_. 7))"
proof -
  obtain t where t: "commit ex_trans = Ok ((), t)" using commit_ok [OF ex_trans_ready] by blast
  have e: "head_n (disk ex_trans (unat (log_start ex_trans))) = 0"
    by (simp add: ex_trans_fields head_n_def get32_def)
  have rc: "recrash (log_start ex_trans) (disksize ex_trans)
      (apply_writes (disk ex_trans) (take 0 (drop (length (writes ex_trans)) (writes t)))) (\<lambda>_ _. 0)"
    by (simp add: ex_trans_fields recrash.none)
  have "\<exists>r'. recover_from_log ex_up = Ok ((), r') \<and> head_n (disk r' (unat (log_start ex_trans))) = 0 \<and>
    ((\<forall>k. k \<notin> log_area ex_trans \<longrightarrow> disk r' k = disk ex_trans k) \<or> (\<forall>k. k \<notin> log_area ex_trans \<longrightarrow> disk r' k = bview ex_trans k))"
    by (rule commit_crash_atomic [OF ex_trans_ready e t rc ex_up_booted]) (simp_all add: ex_trans_fields ex_up_facts)
  moreover have "100 \<notin> log_area ex_trans" by (simp add: log_area_def ex_trans_fields)
  ultimately show ?thesis using ex_trans_view ex_trans_fields(6) by metis
qed

theorem commit_installs_witness: "\<exists>t. commit ex_trans = Ok ((), t) \<and> disk t 100 = (\<lambda>_. 7)"
proof -
  have "100 \<notin> log_area ex_trans" by (simp add: log_area_def ex_trans_fields)
  then show ?thesis using commit_installs [OF ex_trans_ready] ex_trans_view by metis
qed

section \<open>Log space\<close>

text \<open>Where \<open>log_write\<close> puts a block: the list of logged blocks stays free of duplicates.\<close>

lemma log_slot_spec:
  "i \<le> log_slot i k f bn \<and> log_slot i k f bn \<le> i + k \<and> (log_slot i k f bn < i + k \<longrightarrow> f (log_slot i k f bn) = bn) \<and>
     (\<forall>j. i \<le> j \<longrightarrow> j < log_slot i k f bn \<longrightarrow> f j \<noteq> bn)"
proof (induction k arbitrary: i)
  case 0
  then show ?case by simp
next
  case (Suc k)
  show ?case
  proof (cases "f i = bn")
    case True
    then show ?thesis by simp
  next
    case False
    have "f j \<noteq> bn" if "i \<le> j" "j < log_slot (Suc i) k f bn" for j
      using Suc [of "Suc i"] False that by (cases "j = i") auto
    then show ?thesis using Suc [of "Suc i"] False by auto
  qed
qed

text \<open>Except for the header, the commit code changes no part of the log's state.\<close>

lemma more_frames:
  "okq (\<lambda>_ t. bst.more t = bst.more s) (bread dev bn s)" "okq (\<lambda>_ t. bst.more t = bst.more s) (bwrite b s)"
  "okq (\<lambda>_ t. bst.more t = bst.more s) (brelse b s)" "okq (\<lambda>_ t. bst.more t = bst.more s) (buf_write b d s)"
  "okq (\<lambda>_ t. bst.more t = bst.more s) (buf_data b s)"
proof -
  have ide: "okq (\<lambda>_ t. bst.more t = bst.more s) (iderw b s)" for b and s :: "'a bst_scheme"
    by (auto simp: iderw_def Let_def disk_write_def okq_def split: if_splits)
  have lockit: "okq (\<lambda>_ t. bst.more t = bst.more s) (bindk (block_sleep b) (\<lambda>_. ret b) s)" for b and s :: "'a bst_scheme"
    by (auto simp: okq_def bindk_def block_sleep_def zoomk_def acquiresleep_def ret_def split: outcome.splits if_splits)
  have get: "okq (\<lambda>_ t. bst.more t = bst.more s) (bget dev bn s)"
    using lockit by (auto simp: bget_def okq_def split: outcome.splits option.splits; metis upd_buf_fields(7))
  show "okq (\<lambda>_ t. bst.more t = bst.more s) (bread dev bn s)" unfolding bread_def
    by (rule okq_bindI, rule get) (use ide in \<open>auto simp: okq_def seqk_def bindk_def whenk_def ret_def split: outcome.splits if_splits; metis\<close>)
  show "okq (\<lambda>_ t. bst.more t = bst.more s) (bwrite b s)"
    using ide [of "upd_buf b (\<lambda>x. x\<lparr>b_dirty := True\<rparr>) s" b] by (auto simp: bwrite_def okq_def)
  show "okq (\<lambda>_ t. bst.more t = bst.more s) (brelse b s)"
    by (auto simp: brelse_def okq_def Let_def lru_unlink_def)
  show "okq (\<lambda>_ t. bst.more t = bst.more s) (buf_write b d s)" by (simp add: buf_write_def kern_simps)
  show "okq (\<lambda>_ t. bst.more t = bst.more s) (buf_data b s)" by (simp add: buf_data_def kern_simps)
qed

lemma more_seq:
  assumes "\<And>s. okq (\<lambda>_ t. bst.more t = bst.more s) (m s)" "\<And>x s. okq (\<lambda>_ t. bst.more t = bst.more s) (f x s)"
  shows "okq (\<lambda>_ t. bst.more t = bst.more s) (bindk m f s)"
  by (rule okq_bindI, rule assms(1)) (use assms(2) in \<open>auto simp: okq_def; metis\<close>)

lemma loop_frames:
  "okq (\<lambda>_ t. bst.more t = bst.more s) (install_trans_loop i k s)"
  "okq (\<lambda>_ t. bst.more t = bst.more s) (write_log_loop i k s)"
  "okq (\<lambda>_ t. bst.more t = bst.more s) (write_head s)"
proof -
  show "okq (\<lambda>_ t. bst.more t = bst.more s) (install_trans_loop i k s)"
    by (induction k arbitrary: i s) (simp_all add: kern_simps seqk_def, intro more_seq more_frames)
  show "okq (\<lambda>_ t. bst.more t = bst.more s) (write_log_loop i k s)"
    by (induction k arbitrary: i s) (simp_all add: kern_simps seqk_def, intro more_seq more_frames)
  show "okq (\<lambda>_ t. bst.more t = bst.more s) (write_head s)"
    unfolding write_head_def seqk_def by (intro more_seq more_frames)
qed

lemma commit_resets:
  assumes "commit s = Ok ((), t)" "0 \<le> lh_n s"
  shows "lh_n t = 0" "log_outstanding t = log_outstanding s" "log_size t = log_size s" "log_committing t = log_committing s"
proof -
  have lf: "okq (\<lambda>_ t. lh_n t = lh_n s \<and> log_outstanding t = log_outstanding s \<and> log_size t = log_size s \<and> log_committing t = log_committing s) (m s)"
    if "okq (\<lambda>_ t. bst.more t = bst.more s) (m s)" for m :: "('a, unit) lkern" and s
    using that log_frame by (auto simp: okq_def)
  show "lh_n t = 0" "log_outstanding t = log_outstanding s" "log_size t = log_size s" "log_committing t = log_committing s"
  proof -
    have "lh_n t = 0 \<and> log_outstanding t = log_outstanding s \<and> log_size t = log_size s \<and> log_committing t = log_committing s"
    proof (cases "lh_n s > 0")
      case False
      then show ?thesis using assms by (simp add: commit_def kern_simps)
    next
      case True
      then obtain s1 s2 s3 where "write_log s = Ok ((), s1)" "write_head s1 = Ok ((), s2)" "install_trans s2 = Ok ((), s3)"
        "write_head (s3\<lparr>lh_n := 0\<rparr>) = Ok ((), t)"
        using assms(1) by (auto simp: commit_def kern_simps modk_app elim!: bindk_OkE)
      moreover have "okq (\<lambda>_ t. bst.more t = bst.more s) (write_log s)" "okq (\<lambda>_ t. bst.more t = bst.more s2) (install_trans s2)"
        by (simp_all add: write_log_def install_trans_def loop_frames)
      ultimately show ?thesis
        using lf [of s write_log] lf [of s1 write_head, OF loop_frames(3)] lf [of s2 install_trans]
          lf [of "s3\<lparr>lh_n := 0\<rparr>" write_head, OF loop_frames(3)] by (fastforce simp: okq_def)
    qed
    then show "lh_n t = 0" "log_outstanding t = log_outstanding s" "log_size t = log_size s" "log_committing t = log_committing s"
      by auto
  qed
qed

text \<open>
  The life of the log: file system calls begin, log blocks and end in any order, each logging at most \<open>MAXOPBLOCKS\<close> blocks.  The list
  holds the number of blocks that each call under way has logged; the call that ends last commits.
\<close>

inductive logrun :: "int \<Rightarrow> nat list \<Rightarrow> 'x lst_scheme \<Rightarrow> bool" for sz where
  start: "lh_n s = 0 \<Longrightarrow> log_outstanding s = 0 \<Longrightarrow> \<not> log_committing s \<Longrightarrow> log_size s = sz \<Longrightarrow> logrun sz [] s"
| begins: "logrun sz us s \<Longrightarrow> begin_op s = Ok ((), t) \<Longrightarrow> logrun sz (0 # us) t"
| logs: "logrun sz us s \<Longrightarrow> i < length us \<Longrightarrow> us ! i < MAXOPBLOCKS \<Longrightarrow> log_write b s = Ok ((), t) \<Longrightarrow>
    logrun sz (us[i := Suc (us ! i)]) t"
| ends: "logrun sz (us @ u # vs) s \<Longrightarrow> end_op s = Ok ((), t) \<Longrightarrow> logrun sz (us @ vs) t"

definition unused :: "nat list \<Rightarrow> nat" where
  "unused us = (\<Sum>u \<leftarrow> us. MAXOPBLOCKS - u)"

definition reserved :: "int \<Rightarrow> nat list \<Rightarrow> 'x lst_scheme \<Rightarrow> bool" where
  "reserved sz us s \<longleftrightarrow> 0 \<le> lh_n s \<and> lh_n s + int (unused us) \<le> int LOGSIZE \<and> log_outstanding s = int (length us) \<and>
     log_size s = sz \<and> \<not> log_committing s"

lemma unused_bound: "unused us \<le> length us * MAXOPBLOCKS"
  by (induction us) (auto simp: unused_def)

lemma unused_update:
  "i < length us \<Longrightarrow> us ! i < MAXOPBLOCKS \<Longrightarrow> unused (us[i := Suc (us ! i)]) + 1 = unused us"
proof (induction us arbitrary: i)
  case (Cons u us)
  then show ?case by (cases i) (auto simp: unused_def)
qed simp

lemma unused_pos: "i < length us \<Longrightarrow> us ! i < MAXOPBLOCKS \<Longrightarrow> 0 < unused us"
  using unused_update [of i us] by simp

lemma log_write_log:
  assumes "0 \<le> lh_n s" "log_write b s = Ok ((), t)"
  shows "lh_n t = lh_n s \<or> lh_n t = lh_n s + 1" "log_outstanding t = log_outstanding s" "log_size t = log_size s"
    "log_committing t = log_committing s"
proof -
  let ?u = "s\<lparr>lh_block := (lh_block s)(log_slot 0 (nat (lh_n s)) (lh_block s) (b_blockno (bufs s b)) := b_blockno (bufs s b)),
    lh_n := (if int (log_slot 0 (nat (lh_n s)) (lh_block s) (b_blockno (bufs s b))) = lh_n s then lh_n s + 1 else lh_n s)\<rparr>"
  have "t = upd_buf b pin ?u" using assms(2) by (auto simp: log_write_def Let_def split: if_splits)
  then have "bst.more t = bst.more ?u" by simp
  from log_frame [OF this] show "lh_n t = lh_n s \<or> lh_n t = lh_n s + 1" "log_outstanding t = log_outstanding s"
    "log_size t = log_size s" "log_committing t = log_committing s" by auto
qed

lemma logrun_reserved: "logrun sz us s \<Longrightarrow> reserved sz us s"
proof (induction rule: logrun.induct)
  case (start s)
  then show ?case by (simp add: reserved_def unused_def)
next
  case (begins us s t)
  then have t: "t = s\<lparr>log_outstanding := log_outstanding s + 1\<rparr>"
    "lh_n s + (log_outstanding s + 1) * int MAXOPBLOCKS \<le> int LOGSIZE" by (auto simp: begin_op_def split: if_splits)
  have "int (unused (0 # us)) \<le> (log_outstanding s + 1) * int MAXOPBLOCKS"
    using begins.IH unused_bound [of "0 # us"] by (simp add: reserved_def MAXOPBLOCKS_def)
  then show ?case using begins.IH t by (simp add: reserved_def)
next
  case (logs us s i b t)
  have "0 \<le> lh_n s" using logs.IH by (simp add: reserved_def)
  note lw = log_write_log [OF this logs.hyps(4)]
  show ?case using logs.IH lw unused_update [OF logs.hyps(2,3)] by (auto simp: reserved_def)
next
  case (ends us u vs s t)
  let ?s = "s\<lparr>log_outstanding := log_outstanding s - 1\<rparr>"
  have r: "0 \<le> lh_n s" "log_outstanding s = int (length us + length vs) + 1" "\<not> log_committing s" "log_size s = sz"
    "lh_n s + int (unused (us @ u # vs)) \<le> int LOGSIZE" using ends.IH by (auto simp: reserved_def)
  have un: "unused (us @ vs) \<le> unused (us @ u # vs)" by (simp add: unused_def)
  show ?case
  proof (cases "us @ vs = []")
    case False
    then have "length us + length vs \<noteq> 0" by simp
    then have "log_outstanding s - 1 \<noteq> 0" using r(2) by linarith
    then have "t = ?s" using ends.hyps(2) r(2,3) by (auto simp: end_op_def Let_def split: if_splits)
    then show ?thesis using r un by (simp add: reserved_def)
  next
    case True
    then obtain v where v: "commit (?s\<lparr>log_committing := True\<rparr>) = Ok ((), v)" "t = v\<lparr>log_committing := False\<rparr>"
      using ends.hyps(2) r(2,3) by (auto simp: end_op_def Let_def kern_simps elim!: bindk_OkE)
    then show ?thesis using commit_resets [OF v(1)] r True by (simp add: reserved_def unused_def LOGSIZE_def)
  qed
qed

text \<open>
  The space that \<open>begin_op\<close> reserves is enough when the log has \<open>LOGSIZE + 1\<close> blocks: a call that has logged fewer than
  \<open>MAXOPBLOCKS\<close> blocks can log another one, whatever the other calls do.
\<close>

theorem log_reservation_suffices:
  assumes "logrun sz us s" "int LOGSIZE + 1 \<le> sz" "i < length us" "us ! i < MAXOPBLOCKS"
  shows "\<exists>t. log_write b s = Ok ((), t)"
proof -
  have r: "lh_n s + int (unused us) \<le> int LOGSIZE" "log_outstanding s = int (length us)" "log_size s = sz"
    using logrun_reserved [OF assms(1)] by (auto simp: reserved_def)
  have "0 < unused us" by (rule unused_pos [OF assms(3,4)])
  moreover have "us \<noteq> []" using assms(3) by auto
  ultimately show ?thesis using r assms(2) by (simp add: log_write_def Let_def)
qed

lemma ex_log_start: "logrun 30 [] ex_up" "logrun 31 [] (ex_up\<lparr>log_size := 31\<rparr>)"
  using ex_up_facts by (auto intro: logrun.start)

theorem log_reservation_suffices_witness:
  "\<exists>t. log_write 0 (ex_up\<lparr>log_size := 31, log_outstanding := 1\<rparr>) = Ok ((), t)"
proof -
  let ?s = "ex_up\<lparr>log_size := 31\<rparr>"
  have "begin_op ?s = Ok ((), ?s\<lparr>log_outstanding := 1\<rparr>)"
    using ex_up_facts by (simp add: begin_op_def MAXOPBLOCKS_def LOGSIZE_def)
  then have r: "logrun 31 [0] (?s\<lparr>log_outstanding := 1\<rparr>)" by (rule logrun.begins [OF ex_log_start(2)])
  have "\<exists>t. log_write 0 (?s\<lparr>log_outstanding := 1\<rparr>) = Ok ((), t)"
    by (rule log_reservation_suffices [OF r, of 0]) (simp_all add: LOGSIZE_def MAXOPBLOCKS_def)
  then show ?thesis by simp
qed

text \<open>
  The log that \<open>mkfs\<close> makes has only \<open>LOGSIZE\<close> blocks, one of them the header.  Three calls, admitted together by
  \<open>begin_op\<close>, fill it before they have used what they reserved.
\<close>

definition numbered :: "lst \<Rightarrow> lst" where
  "numbered s = s\<lparr>bufs := (\<lambda>i. blank_buf\<lparr>b_blockno := of_nat i\<rparr>)\<rparr>"

lemma short_call:
  assumes "length us = 3" "sum_list us < 30"
  shows "\<exists>i < length us. us ! i < MAXOPBLOCKS"
proof (rule ccontr)
  assume "\<not> ?thesis"
  then have "\<forall>u \<in> set us. MAXOPBLOCKS \<le> u" by (metis in_set_conv_nth not_less)
  moreover obtain a b c where "us = [a, b, c]" using assms(1) by (auto simp: numeral_3_eq_3 length_Suc_conv)
  ultimately show False using assms(2) by (simp add: MAXOPBLOCKS_def)
qed

lemma three_calls:
  "m \<le> 29 \<Longrightarrow> \<exists>us s :: lst. logrun 30 us s \<and> lh_n s = int m \<and> length us = 3 \<and> sum_list us = m \<and>
     (\<forall>j < m. lh_block s j = of_nat j) \<and> (\<forall>j. b_blockno (bufs s j) = of_nat j)"
proof (induction m)
  case 0
  let ?s = "numbered ex_up"
  have f: "lh_n ?s = 0" "log_outstanding ?s = 0" "\<not> log_committing ?s" "log_size ?s = 30"
    using ex_up_facts by (simp_all add: numbered_def)
  have b: "begin_op (?s\<lparr>log_outstanding := n\<rparr>) = Ok ((), ?s\<lparr>log_outstanding := n + 1\<rparr>)" if "n \<le> 2" for n
    using f that by (simp add: begin_op_def MAXOPBLOCKS_def LOGSIZE_def)
  have "logrun 30 [] (?s\<lparr>log_outstanding := 0\<rparr>)" using f by (intro logrun.start) simp_all
  from logrun.begins [OF this b] have "logrun 30 [0] (?s\<lparr>log_outstanding := 1\<rparr>)" by simp
  from logrun.begins [OF this b] have "logrun 30 [0, 0] (?s\<lparr>log_outstanding := 2\<rparr>)" by simp
  from logrun.begins [OF this b] have "logrun 30 [0, 0, 0] (?s\<lparr>log_outstanding := 3\<rparr>)" by simp
  then show ?case using f
    by (intro exI [of _ "[0, 0, 0]"] exI [of _ "?s\<lparr>log_outstanding := 3\<rparr>"]) (simp add: numbered_def)
next
  case (Suc m)
  then obtain us and s :: lst where r: "logrun 30 us s" "lh_n s = int m" "length us = 3" "sum_list us = m"
    "\<forall>j < m. lh_block s j = of_nat j" "\<forall>j. b_blockno (bufs s j) = of_nat j" by auto
  obtain a b c where us: "us = [a, b, c]" using r(3) by (auto simp: numeral_3_eq_3 length_Suc_conv)
  obtain i where i: "i < length us" "us ! i < MAXOPBLOCKS" using short_call [OF r(3)] r(4) Suc.prems by auto
  have rs: "log_outstanding s = 3" "log_size s = 30" using logrun_reserved [OF r(1)] r(3) by (auto simp: reserved_def)
  have sl: "log_slot 0 m (lh_block s) (of_nat m) = m"
  proof -
    let ?l = "log_slot 0 m (lh_block s) (of_nat m)"
    have l: "?l \<le> m" "?l < m \<longrightarrow> lh_block s ?l = of_nat m" using log_slot_spec [of 0 m "lh_block s" "of_nat m"] by auto
    have "(of_nat ?l :: u32) \<noteq> of_nat m" if "?l < m"
      using that Suc.prems by (simp add: word_unat_eq_iff unat_of_nat)
    then show ?thesis using l r(5) by (metis le_neq_implies_less)
  qed
  let ?t = "upd_buf m pin (s\<lparr>lh_block := (lh_block s)(m := of_nat m), lh_n := int m + 1\<rparr>)"
  have "log_write m s = Ok ((), ?t)"
    using rs r(2,6) Suc.prems sl by (simp add: log_write_def Let_def LOGSIZE_def)
  from logrun.logs [OF r(1) i this] have "logrun 30 (us[i := Suc (us ! i)]) ?t" .
  moreover have "sum_list (us[i := Suc (us ! i)]) = Suc m" using i(1) r(4) us by (auto simp: less_Suc_eq numeral_3_eq_3)
  moreover have "lh_n ?t = int (Suc m)" "\<forall>j < Suc m. lh_block ?t j = of_nat j"
    using log_frame [of ?t "s\<lparr>lh_block := (lh_block s)(m := of_nat m), lh_n := int m + 1\<rparr>"] r(5) by (auto simp: less_Suc_eq)
  moreover have "\<forall>j. b_blockno (bufs ?t j) = of_nat j" using r(6) by (simp add: pin_def)
  ultimately show ?case using r(3) by (metis length_list_update)
qed

text \<open>
  C40: with the log size that \<open>mkfs\<close> writes into the superblock the reservation is one block short: there is a run in which three
  calls have been admitted, one of them has logged fewer than \<open>MAXOPBLOCKS\<close> blocks, and its next \<open>log_write\<close> panics.
\<close>

theorem log_reservation_one_short:
  "\<exists>us (s :: lst) i b. logrun (int LOGSIZE) us s \<and> i < length us \<and> us ! i < MAXOPBLOCKS \<and>
     log_write b s = Panic ''too big a transaction''"
proof -
  obtain us and s :: lst where r: "logrun 30 us s" "lh_n s = 29" "length us = 3" "sum_list us = 29"
    using three_calls [of 29] by auto
  have "\<exists>i < length us. us ! i < MAXOPBLOCKS" using short_call [OF r(3)] r(4) by simp
  moreover have "log_size s = 30" using logrun_reserved [OF r(1)] by (simp add: reserved_def)
  then have "log_write 0 s = Panic ''too big a transaction''" using r(2) by (simp add: log_write_def)
  ultimately show ?thesis using r(1) by (auto simp: LOGSIZE_def)
qed

end
