(* ===== verification/Fs.thy ===== *)
theory Fs
  imports Log
begin

text \<open>
  The file system proper (\<open>fs.c\<close>): block allocation, inodes, the contents of files, directories and path names, with all
  their buffer and log operations.  The state extends that of the log with the inode cache and the superblock.
  Pointers to inodes are indices of the cache; a function that may return a null pointer returns an option.  Functions that
  fill a caller's buffer return its contents.  Block and byte counts that the code has checked are natural numbers.

  The device table \<open>devsw\<close> holds the functions that the device drivers have installed; their effect on the
  device is not part of this state.
\<close>

definition NINODE :: nat where "NINODE = 50"
definition NDIRECT :: nat where "NDIRECT = 12"
definition NINDIRECT :: nat where "NINDIRECT = 128"
definition MAXFILE :: nat where "MAXFILE = NDIRECT + NINDIRECT"
definition BSIZE :: nat where "BSIZE = 512"
definition BPB :: nat where "BPB = 4096"
definition IPB :: nat where "IPB = 8"
definition DIRSIZ :: nat where "DIRSIZ = 14"
definition NDEV :: int where "NDEV = 10"
definition ROOTDEV :: u32 where "ROOTDEV = 1"
definition ROOTINO :: u32 where "ROOTINO = 1"
definition T_DIR :: u16 where "T_DIR = 1"
definition T_FILE :: u16 where "T_FILE = 2"
definition T_DEV :: u16 where "T_DEV = 3"

lemmas fs_consts = NINODE_def NDIRECT_def NINDIRECT_def MAXFILE_def BSIZE_def BPB_def IPB_def DIRSIZ_def

record inode =
  i_dev :: u32
  i_inum :: u32
  i_ref :: int
  i_lock :: sleeplock
  i_valid :: bool
  i_type :: u16
  i_major :: u16
  i_minor :: u16
  i_nlink :: u16
  i_size :: u32
  i_addrs :: "nat \<Rightarrow> u32"

record devops =
  dev_read :: "(u32 \<Rightarrow> int \<times> bytes) option"
  dev_write :: "(bytes \<Rightarrow> u32 \<Rightarrow> int) option"

record fsst = lst +
  sb :: superblock
  inodes :: "nat \<Rightarrow> inode"
  devsw :: "nat \<Rightarrow> devops"
  mycwd :: nat      \<comment> \<open>the current directory of the process\<close>

type_synonym ('x, 'r) fkern = "('x fsst_scheme, 'r) kern"

definition upd_inode :: "nat \<Rightarrow> (inode \<Rightarrow> inode) \<Rightarrow> ('x, unit) fkern" where
  "upd_inode i f = modk (\<lambda>s. s\<lparr>inodes := (inodes s)(i := f (inodes s i))\<rparr>)"

definition BBLOCK :: "nat \<Rightarrow> superblock \<Rightarrow> u32" where
  "BBLOCK b x = of_nat (b div BPB) + sb_bmapstart x"

definition IBLOCK :: "u32 \<Rightarrow> superblock \<Rightarrow> u32" where
  "IBLOCK i x = of_nat (unat i div IPB) + sb_inodestart x"

section \<open>Blocks\<close>

definition bzero :: "u32 \<Rightarrow> u32 \<Rightarrow> ('x, unit) fkern" where
  "bzero dev bno = bindk (bread dev bno) (\<lambda>bp.
     seqk (buf_write bp (\<lambda>_. 0)) (seqk (log_write bp) (brelse bp)))"

text \<open>Bit \<open>bi\<close> of a block of the free map.\<close>

definition bmask :: "nat \<Rightarrow> u8" where
  "bmask bi = push_bit (bi mod 8) 1"

definition bit_clear :: "bytes \<Rightarrow> nat \<Rightarrow> bool" where
  "bit_clear d bi \<longleftrightarrow> d (bi div 8) AND bmask bi = 0"

text \<open>The inner loop of \<open>balloc\<close>: the first free bit among \<open>bi, \<dots>\<close>, \<open>k\<close> of them.\<close>

fun balloc_scan :: "bytes \<Rightarrow> nat \<Rightarrow> nat \<Rightarrow> nat option" where
  "balloc_scan d bi 0 = None"
| "balloc_scan d bi (Suc k) = (if bit_clear d bi then Some bi else balloc_scan d (Suc bi) k)"

function balloc_loop :: "u32 \<Rightarrow> nat \<Rightarrow> nat \<Rightarrow> ('x, u32) fkern" where
  "balloc_loop dev sz b = (\<lambda>s.
     if b < sz then
       bindk (bread dev (BBLOCK b (sb s))) (\<lambda>bp.
       bindk (buf_data bp) (\<lambda>d.
         case balloc_scan d 0 (min BPB (sz - b)) of
           Some bi \<Rightarrow>
             seqk (buf_write bp (d(bi div 8 := d (bi div 8) OR bmask bi)))
               (seqk (log_write bp) (seqk (brelse bp)
                 (seqk (bzero dev (of_nat (b + bi))) (ret (of_nat (b + bi))))))
         | None \<Rightarrow> seqk (brelse bp) (balloc_loop dev sz (b + BPB)))) s
     else Panic ''balloc: out of blocks'')"
  by auto
termination by (relation "measure (\<lambda>(dev, sz, b). sz - b)") (auto simp: BPB_def)

definition balloc :: "u32 \<Rightarrow> ('x, u32) fkern" where
  "balloc dev = (\<lambda>s. balloc_loop dev (unat (sb_size (sb s))) 0 s)"

definition bfree :: "u32 \<Rightarrow> u32 \<Rightarrow> ('x, unit) fkern" where
  "bfree dev b = (\<lambda>s.
     bindk (bread dev (BBLOCK (unat b) (sb s))) (\<lambda>bp.
     bindk (buf_data bp) (\<lambda>d.
       let bi = unat b mod BPB in
       if bit_clear d bi then panic ''freeing free block''
       else seqk (buf_write bp (d(bi div 8 := d (bi div 8) AND NOT (bmask bi))))
              (seqk (log_write bp) (brelse bp)))) s)"

section \<open>Inodes\<close>

definition iinit :: "u32 \<Rightarrow> ('x, unit) fkern" where
  "iinit dev =
     seqk (modk (\<lambda>s. s\<lparr>inodes := (\<lambda>i. if i < NINODE then (inodes s i)\<lparr>i_lock := initsleeplock\<rparr> else inodes s i)\<rparr>))
       (bindk (readsb dev) (\<lambda>b. modk (\<lambda>s. s\<lparr>sb := b\<rparr>)))"

definition iget :: "u32 \<Rightarrow> u32 \<Rightarrow> ('x, nat) fkern" where
  "iget dev inum = (\<lambda>s.
     case find (\<lambda>i. i_ref (inodes s i) > 0 \<and> i_dev (inodes s i) = dev \<and> i_inum (inodes s i) = inum) [0 ..< NINODE] of
       Some i \<Rightarrow> seqk (upd_inode i (\<lambda>ip. ip\<lparr>i_ref := i_ref ip + 1\<rparr>)) (ret i) s
     | None \<Rightarrow>
         (case find (\<lambda>i. i_ref (inodes s i) = 0) [0 ..< NINODE] of
            None \<Rightarrow> Panic ''iget: no inodes''
          | Some i \<Rightarrow> seqk (upd_inode i (\<lambda>ip. ip\<lparr>i_dev := dev, i_inum := inum, i_ref := 1, i_valid := False\<rparr>)) (ret i) s))"

text \<open>The on-disk inode at offset \<open>o\<close> of a block: 64 bytes.\<close>

definition dinode_off :: "u32 \<Rightarrow> nat" where
  "dinode_off inum = 64 * (unat inum mod IPB)"

definition dinode_clear :: "nat \<Rightarrow> bytes \<Rightarrow> bytes" where
  "dinode_clear off d = (\<lambda>k. if off \<le> k \<and> k < off + 64 then 0 else d k)"

fun put_addrs :: "nat \<Rightarrow> nat \<Rightarrow> nat \<Rightarrow> (nat \<Rightarrow> u32) \<Rightarrow> bytes \<Rightarrow> bytes" where
  "put_addrs off i 0 a d = d"
| "put_addrs off i (Suc k) a d = put_addrs off (Suc i) k a (put32 (off + 12 + 4 * i) (a i) d)"

definition put_dinode :: "nat \<Rightarrow> inode \<Rightarrow> bytes \<Rightarrow> bytes" where
  "put_dinode off ip d = put_addrs off 0 (NDIRECT + 1) (i_addrs ip)
     (put32 (off + 8) (i_size ip) (put16 (off + 6) (i_nlink ip) (put16 (off + 4) (i_minor ip)
       (put16 (off + 2) (i_major ip) (put16 off (i_type ip) d)))))"

definition get_dinode :: "nat \<Rightarrow> bytes \<Rightarrow> inode \<Rightarrow> inode" where
  "get_dinode off d ip = ip\<lparr>i_type := get16 d off, i_major := get16 d (off + 2), i_minor := get16 d (off + 4),
     i_nlink := get16 d (off + 6), i_size := get32 d (off + 8),
     i_addrs := (\<lambda>i. if i \<le> NDIRECT then get32 d (off + 12 + 4 * i) else i_addrs ip i)\<rparr>"

fun ialloc_loop :: "u32 \<Rightarrow> u16 \<Rightarrow> nat \<Rightarrow> nat \<Rightarrow> ('x, nat) fkern" where
  "ialloc_loop dev type inum 0 = panic ''ialloc: no inodes''"
| "ialloc_loop dev type inum (Suc k) = (\<lambda>s.
     bindk (bread dev (IBLOCK (of_nat inum) (sb s))) (\<lambda>bp.
     bindk (buf_data bp) (\<lambda>d.
       let off = dinode_off (of_nat inum) in
       if get16 d off = 0 then
         seqk (buf_write bp (put16 off type (dinode_clear off d)))
           (seqk (log_write bp) (seqk (brelse bp) (iget dev (of_nat inum))))
       else seqk (brelse bp) (ialloc_loop dev type (Suc inum) k))) s)"

definition ialloc :: "u32 \<Rightarrow> u16 \<Rightarrow> ('x, nat) fkern" where
  "ialloc dev type = (\<lambda>s. ialloc_loop dev type 1 (unat (sb_ninodes (sb s)) - 1) s)"

definition iupdate :: "nat \<Rightarrow> ('x, unit) fkern" where
  "iupdate i = (\<lambda>s. let ip = inodes s i in
     bindk (bread (i_dev ip) (IBLOCK (i_inum ip) (sb s))) (\<lambda>bp.
     bindk (buf_data bp) (\<lambda>d.
     seqk (buf_write bp (put_dinode (dinode_off (i_inum ip)) ip d)) (seqk (log_write bp) (brelse bp)))) s)"

definition idup :: "nat \<Rightarrow> ('x, nat) fkern" where
  "idup i = seqk (upd_inode i (\<lambda>ip. ip\<lparr>i_ref := i_ref ip + 1\<rparr>)) (ret i)"

definition inode_sleep :: "nat \<Rightarrow> ('x, unit) fkern" where
  "inode_sleep i = (\<lambda>s. zoomk (\<lambda>s. i_lock (inodes s i))
     (\<lambda>l s. s\<lparr>inodes := (inodes s)(i := (inodes s i)\<lparr>i_lock := l\<rparr>)\<rparr>) (acquiresleep (curpid s)) s)"

definition inode_release :: "nat \<Rightarrow> ('x, unit) fkern" where
  "inode_release i = upd_inode i (\<lambda>ip. ip\<lparr>i_lock := (i_lock ip)\<lparr>sl_locked := False, sl_pid := 0\<rparr>\<rparr>)"

definition ilock :: "nat \<Rightarrow> ('x, unit) fkern" where
  "ilock i = (\<lambda>s.
     if i_ref (inodes s i) < 1 then Panic ''ilock''
     else seqk (inode_sleep i) (\<lambda>s.
       let ip = inodes s i in
       if i_valid ip then Ok ((), s)
       else bindk (bread (i_dev ip) (IBLOCK (i_inum ip) (sb s))) (\<lambda>bp.
            bindk (buf_data bp) (\<lambda>d.
            seqk (upd_inode i (get_dinode (dinode_off (i_inum ip)) d))
              (seqk (brelse bp) (seqk (upd_inode i (\<lambda>ip. ip\<lparr>i_valid := True\<rparr>))
                (\<lambda>s. if i_type (inodes s i) = 0 then Panic ''ilock: no type'' else Ok ((), s)))))) s) s)"

definition iunlock :: "nat \<Rightarrow> ('x, unit) fkern" where
  "iunlock i = (\<lambda>s.
     if \<not> holdingsleep (curpid s) (i_lock (inodes s i)) \<or> i_ref (inodes s i) < 1 then Panic ''iunlock''
     else inode_release i s)"

text \<open>\<open>itrunc\<close>: the direct blocks, then the blocks of the indirect block, then the indirect block itself.\<close>

fun itrunc_direct :: "nat \<Rightarrow> nat \<Rightarrow> nat \<Rightarrow> ('x, unit) fkern" where
  "itrunc_direct ip i 0 = ret ()"
| "itrunc_direct ip i (Suc k) = (\<lambda>s. let a = i_addrs (inodes s ip) i in
     seqk (whenk (a \<noteq> 0) (seqk (bfree (i_dev (inodes s ip)) a)
             (upd_inode ip (\<lambda>x. x\<lparr>i_addrs := (i_addrs x)(i := 0)\<rparr>))))
       (itrunc_direct ip (Suc i) k) s)"

fun itrunc_indirect :: "u32 \<Rightarrow> nat \<Rightarrow> nat \<Rightarrow> nat \<Rightarrow> ('x, unit) fkern" where
  "itrunc_indirect dev bp j 0 = ret ()"
| "itrunc_indirect dev bp j (Suc k) = (\<lambda>s. let a = get32 (b_data (bufs s bp)) (4 * j) in
     seqk (whenk (a \<noteq> 0) (bfree dev a)) (itrunc_indirect dev bp (Suc j) k) s)"

definition itrunc :: "nat \<Rightarrow> ('x, unit) fkern" where
  "itrunc ip = seqk (itrunc_direct ip 0 NDIRECT) (\<lambda>s.
     let a = i_addrs (inodes s ip) NDIRECT; dev = i_dev (inodes s ip) in
     seqk (whenk (a \<noteq> 0)
        (bindk (bread dev a) (\<lambda>bp.
           seqk (itrunc_indirect dev bp 0 NINDIRECT)
             (seqk (brelse bp) (seqk (bfree dev a)
               (upd_inode ip (\<lambda>x. x\<lparr>i_addrs := (i_addrs x)(NDIRECT := 0)\<rparr>)))))))
       (seqk (upd_inode ip (\<lambda>x. x\<lparr>i_size := 0\<rparr>)) (iupdate ip)) s)"

definition iput :: "nat \<Rightarrow> ('x, unit) fkern" where
  "iput i = seqk (inode_sleep i) (seqk (\<lambda>s. let ip = inodes s i in
       whenk (i_valid ip \<and> i_nlink ip = 0 \<and> i_ref ip = 1)
         (seqk (itrunc i) (seqk (upd_inode i (\<lambda>x. x\<lparr>i_type := 0\<rparr>)) (seqk (iupdate i)
            (upd_inode i (\<lambda>x. x\<lparr>i_valid := False\<rparr>))))) s)
     (seqk (inode_release i) (upd_inode i (\<lambda>x. x\<lparr>i_ref := i_ref x - 1\<rparr>))))"

definition iunlockput :: "nat \<Rightarrow> ('x, unit) fkern" where
  "iunlockput i = seqk (iunlock i) (iput i)"

section \<open>Inode contents\<close>

definition bmap :: "nat \<Rightarrow> nat \<Rightarrow> ('x, u32) fkern" where
  "bmap ip bn = (\<lambda>s.
     let dev = i_dev (inodes s ip) in
     if bn < NDIRECT then
       (let addr = i_addrs (inodes s ip) bn in
        if addr = 0 then bindk (balloc dev) (\<lambda>addr.
          seqk (upd_inode ip (\<lambda>x. x\<lparr>i_addrs := (i_addrs x)(bn := addr)\<rparr>)) (ret addr)) s
        else Ok (addr, s))
     else if bn - NDIRECT < NINDIRECT then
       bindk (let addr = i_addrs (inodes s ip) NDIRECT in
              if addr = 0 then bindk (balloc dev) (\<lambda>addr.
                seqk (upd_inode ip (\<lambda>x. x\<lparr>i_addrs := (i_addrs x)(NDIRECT := addr)\<rparr>)) (ret addr))
              else ret addr) (\<lambda>addr.
       bindk (bread dev addr) (\<lambda>bp.
       bindk (buf_data bp) (\<lambda>d.
       bindk (let a = get32 d (4 * (bn - NDIRECT)) in
              if a = 0 then bindk (balloc dev) (\<lambda>a.
                seqk (modk (\<lambda>s. upd_buf bp (\<lambda>x. set_data (put32 (4 * (bn - NDIRECT)) a (b_data x)) x) s))
                  (seqk (log_write bp) (ret a)))
              else ret a) (\<lambda>a.
       seqk (brelse bp) (ret a))))) s
     else Panic ''bmap: out of range'')"

record stat =
  st_type :: u16
  st_dev :: u32
  st_ino :: u32
  st_nlink :: u16
  st_size :: u32

definition stati :: "nat \<Rightarrow> ('x, stat) fkern" where
  "stati i = getk (\<lambda>s. let ip = inodes s i in
     \<lparr>st_type = i_type ip, st_dev = i_dev ip, st_ino = i_inum ip, st_nlink = i_nlink ip, st_size = i_size ip\<rparr>)"

text \<open>\<open>dst\<close> is the caller's buffer, \<open>tot\<close> the number of bytes in it so far, \<open>n\<close> the number of bytes still to read.\<close>

function readi_loop :: "nat \<Rightarrow> bytes \<Rightarrow> nat \<Rightarrow> nat \<Rightarrow> nat \<Rightarrow> ('x, bytes) fkern" where
  "readi_loop ip dst tot off n =
     (if n = 0 then ret dst
      else let m = min n (BSIZE - off mod BSIZE) in
        bindk (bmap ip (off div BSIZE)) (\<lambda>addr s.
          bindk (bread (i_dev (inodes s ip)) addr) (\<lambda>bp.
          bindk (buf_data bp) (\<lambda>d.
          seqk (brelse bp) (readi_loop ip (copy_bytes dst tot d (off mod BSIZE) m) (tot + m) (off + m) (n - m)))) s))"
  by auto
termination by (relation "measure (\<lambda>(ip, dst, tot, off, n). n)") (auto simp: BSIZE_def)

definition readi :: "nat \<Rightarrow> bytes \<Rightarrow> u32 \<Rightarrow> u32 \<Rightarrow> ('x, int \<times> bytes) fkern" where
  "readi i dst off n = (\<lambda>s. let ip = inodes s i in
     if i_type ip = T_DEV then
       Ok ((if sint (i_major ip) < 0 \<or> sint (i_major ip) \<ge> NDEV then (-1, dst)
           else case dev_read (devsw s (unat (i_major ip))) of None \<Rightarrow> (-1, dst) | Some f \<Rightarrow> f n), s)
     else if i_size ip < off \<or> off + n < off then Ok ((-1, dst), s)
     else let n' = (if i_size ip < off + n then i_size ip - off else n) in
       bindk (readi_loop i dst 0 (unat off) (unat n')) (\<lambda>d. ret (sint n', d)) s)"

function writei_loop :: "nat \<Rightarrow> bytes \<Rightarrow> nat \<Rightarrow> nat \<Rightarrow> nat \<Rightarrow> ('x, unit) fkern" where
  "writei_loop ip src tot off n =
     (if n = 0 then ret ()
      else let m = min n (BSIZE - off mod BSIZE) in
        bindk (bmap ip (off div BSIZE)) (\<lambda>addr s.
          bindk (bread (i_dev (inodes s ip)) addr) (\<lambda>bp.
          bindk (buf_data bp) (\<lambda>d.
          seqk (buf_write bp (copy_bytes d (off mod BSIZE) src tot m))
            (seqk (log_write bp) (seqk (brelse bp) (writei_loop ip src (tot + m) (off + m) (n - m)))))) s))"
  by auto
termination by (relation "measure (\<lambda>(ip, src, tot, off, n). n)") (auto simp: BSIZE_def)

definition writei :: "nat \<Rightarrow> bytes \<Rightarrow> u32 \<Rightarrow> u32 \<Rightarrow> ('x, int) fkern" where
  "writei i src off n = (\<lambda>s. let ip = inodes s i in
     if i_type ip = T_DEV then
       Ok ((if sint (i_major ip) < 0 \<or> sint (i_major ip) \<ge> NDEV then -1
           else case dev_write (devsw s (unat (i_major ip))) of None \<Rightarrow> -1 | Some f \<Rightarrow> f src n), s)
     else if i_size ip < off \<or> off + n < off then Ok (-1, s)
     else if of_nat (MAXFILE * BSIZE) < off + n then Ok (-1, s)
     else seqk (writei_loop i src 0 (unat off) (unat n)) (\<lambda>s.
       seqk (whenk (n > 0 \<and> i_size (inodes s i) < off + n)
               (seqk (upd_inode i (\<lambda>x. x\<lparr>i_size := off + n\<rparr>)) (iupdate i)))
         (ret (sint n)) s) s)"

section \<open>Directories\<close>

definition namecmp :: "bytes \<Rightarrow> bytes \<Rightarrow> int" where
  "namecmp p q = strncmp p q DIRSIZ"

definition de_inum :: "bytes \<Rightarrow> u16" where
  "de_inum de = get16 de 0"

definition de_name :: "bytes \<Rightarrow> bytes" where
  "de_name de = (\<lambda>k. de (2 + k))"

text \<open>The local variable \<open>de\<close> is an argument of the loops: \<open>readi\<close> overwrites its 16 bytes.\<close>

function dirlookup_loop :: "nat \<Rightarrow> bytes \<Rightarrow> bytes \<Rightarrow> nat \<Rightarrow> nat \<Rightarrow> ('x, (nat \<times> nat) option) fkern" where
  "dirlookup_loop dp name de off sz =
     (if sz \<le> off then ret None
      else bindk (readi dp de (of_nat off) 16) (\<lambda>(r, de).
        if r \<noteq> 16 then panic ''dirlookup read''
        else if de_inum de \<noteq> 0 \<and> namecmp name (de_name de) = 0 then
          (\<lambda>s. bindk (iget (i_dev (inodes s dp)) (ucast (de_inum de))) (\<lambda>ip. ret (Some (ip, off))) s)
        else dirlookup_loop dp name de (off + 16) sz))"
  by auto
termination by (relation "measure (\<lambda>(dp, name, de, off, sz). sz - off)") auto

text \<open>The result is the inode and the offset of the entry.\<close>

definition dirlookup :: "nat \<Rightarrow> bytes \<Rightarrow> ('x, (nat \<times> nat) option) fkern" where
  "dirlookup dp name = (\<lambda>s.
     if i_type (inodes s dp) \<noteq> T_DIR then Panic ''dirlookup not DIR''
     else dirlookup_loop dp name (\<lambda>_. 0) 0 (unat (i_size (inodes s dp))) s)"

function dirlink_loop :: "nat \<Rightarrow> bytes \<Rightarrow> nat \<Rightarrow> nat \<Rightarrow> ('x, nat \<times> bytes) fkern" where
  "dirlink_loop dp de off sz =
     (if sz \<le> off then ret (off, de)
      else bindk (readi dp de (of_nat off) 16) (\<lambda>(r, de).
        if r \<noteq> 16 then panic ''dirlink read''
        else if de_inum de = 0 then ret (off, de)
        else dirlink_loop dp de (off + 16) sz))"
  by auto
termination by (relation "measure (\<lambda>(dp, de, off, sz). sz - off)") auto

definition make_dirent :: "bytes \<Rightarrow> u16 \<Rightarrow> bytes \<Rightarrow> bytes" where
  "make_dirent name inum de = put16 0 inum (copy_bytes de 2 (strncpy (de_name de) name (int DIRSIZ)) 0 DIRSIZ)"

definition dirlink :: "nat \<Rightarrow> bytes \<Rightarrow> u32 \<Rightarrow> ('x, int) fkern" where
  "dirlink dp name inum = bindk (dirlookup dp name) (\<lambda>r.
     case r of
       Some (ip, _) \<Rightarrow> seqk (iput ip) (ret (-1))
     | None \<Rightarrow> (\<lambda>s.
         bindk (dirlink_loop dp (\<lambda>_. 0) 0 (unat (i_size (inodes s dp)))) (\<lambda>(off, de).
         bindk (writei dp (make_dirent name (ucast inum) de) (of_nat off) 16) (\<lambda>n.
           if n \<noteq> 16 then panic ''dirlink'' else ret 0)) s))"

section \<open>Paths\<close>

text \<open>A path is the list of its bytes before the NUL; \<open>'/'\<close> is 47.\<close>

definition slash :: u8 where "slash = 47"

definition skip_slashes :: "u8 list \<Rightarrow> u8 list" where
  "skip_slashes p = dropWhile (\<lambda>c. c = slash) p"

definition skipelem :: "u8 list \<Rightarrow> bytes \<Rightarrow> (u8 list \<times> bytes) option" where
  "skipelem path name =
     (let path = skip_slashes path in
      if path = [] then None
      else let s = takeWhile (\<lambda>c. c \<noteq> slash) path; len = length s;
               src = (\<lambda>k. if k < len then s ! k else 0);
               name = (if DIRSIZ \<le> len then copy_bytes name 0 src 0 DIRSIZ
                       else (copy_bytes name 0 src 0 len)(len := 0))
           in Some (skip_slashes (dropWhile (\<lambda>c. c \<noteq> slash) path), name))"

lemma skipelem_shorter: "skipelem path name = Some (p, n) \<Longrightarrow> length p < length path"
proof -
  assume a: "skipelem path name = Some (p, n)"
  let ?q = "skip_slashes path"
  have ne: "?q \<noteq> []" and p: "p = skip_slashes (dropWhile (\<lambda>c. c \<noteq> slash) ?q)"
    using a by (auto simp: skipelem_def Let_def split: if_splits)
  obtain c cs where q: "?q = c # cs" using ne by (cases ?q) auto
  have "c \<noteq> slash" using q hd_dropWhile [of "\<lambda>c. c = slash" path] by (auto simp: skip_slashes_def)
  then have "length p \<le> length cs"
    using p q by (simp add: skip_slashes_def) (meson length_dropWhile_le le_trans)
  moreover have "length ?q \<le> length path" by (simp add: skip_slashes_def length_dropWhile_le)
  ultimately show ?thesis using q by simp
qed

function namex_loop :: "u8 list \<Rightarrow> bool \<Rightarrow> bytes \<Rightarrow> nat \<Rightarrow> ('x, nat option \<times> bytes) fkern" where
  "namex_loop path parent name ip =
     (case skipelem path name of
        None \<Rightarrow> if parent then seqk (iput ip) (ret (None, name)) else ret (Some ip, name)
      | Some (path', name') \<Rightarrow>
          seqk (ilock ip) (\<lambda>s.
            if i_type (inodes s ip) \<noteq> T_DIR then seqk (iunlockput ip) (ret (None, name')) s
            else if parent \<and> path' = [] then seqk (iunlock ip) (ret (Some ip, name')) s
            else bindk (dirlookup ip name') (\<lambda>r.
              case r of
                None \<Rightarrow> seqk (iunlockput ip) (ret (None, name'))
              | Some (nxt, _) \<Rightarrow> seqk (iunlockput ip) (namex_loop path' parent name' nxt)) s))"
  by auto
termination by (relation "measure (\<lambda>(path, parent, name, ip). length path)") (auto dest: skipelem_shorter)

definition namex :: "u8 list \<Rightarrow> bool \<Rightarrow> bytes \<Rightarrow> ('x, nat option \<times> bytes) fkern" where
  "namex path parent name =
     bindk (if path \<noteq> [] \<and> hd path = slash then iget ROOTDEV ROOTINO else (\<lambda>s. idup (mycwd s) s))
       (namex_loop path parent name)"

definition namei :: "u8 list \<Rightarrow> ('x, nat option) fkern" where
  "namei path = bindk (namex path False (\<lambda>_. 0)) (\<lambda>(ip, _). ret ip)"

definition nameiparent :: "u8 list \<Rightarrow> bytes \<Rightarrow> ('x, nat option \<times> bytes) fkern" where
  "nameiparent path name = namex path True name"

end
