(* ===== verification/Fs_Blocks.thy ===== *)
theory Fs_Blocks
  imports Fs Log_Crash
begin

text \<open>
  The file system as a client of the log.  Inside a transaction (\<open>tx\<close>) a block is changed by reading it, filling the buffer,
  \<open>log_write\<close> and \<open>brelse\<close>: the lemmas give the effect of this sequence on the contents of blocks and the log space it
  takes.  The block allocator and the on-disk inodes are shown correct on top of it.
\<close>

section \<open>Transactions\<close>

text \<open>
  \<open>tx H r s\<close>: the process is inside a transaction, holds the buffers \<open>H\<close>, the dirty blocks are the logged ones, and
  \<open>r\<close> more blocks can be logged.
\<close>

definition tx :: "nat set \<Rightarrow> nat \<Rightarrow> 'x lst_scheme \<Rightarrow> bool" where
  "tx H r s \<longleftrightarrow> cache_ok H s \<and> log_cfg s \<and> 0 \<le> lh_n s \<and> lh_n s + int r \<le> 29 \<and> homes_ok (nat (lh_n s)) s \<and>
     dirty_blocks s = home s ` {..< nat (lh_n s)} \<and> 1 \<le> log_outstanding s \<and> log_size s = 30"

text \<open>\<open>fsame s t\<close>: between \<open>s\<close> and \<open>t\<close> only buffers and the list of logged blocks have changed.\<close>

definition fsame :: "'x lst_scheme \<Rightarrow> 'x lst_scheme \<Rightarrow> bool" where
  "fsame s t \<longleftrightarrow> disk t = disk s \<and> disksize t = disksize s \<and> writes t = writes s \<and> curpid t = curpid s \<and>
     log_start t = log_start s \<and> lst.more t = lst.more s"

lemma fsame_refl [simp]: "fsame s s"
  by (simp add: fsame_def)

lemma fsame_trans: "fsame s t \<Longrightarrow> fsame t u \<Longrightarrow> fsame s u"
  by (simp add: fsame_def)

lemma fsame_area: "fsame s t \<Longrightarrow> log_area t = log_area s"
  by (simp add: fsame_def log_area_def)

lemma same_disk_fsame: "same_disk s t \<Longrightarrow> fsame s t"
  using log_frame [of t s] by (simp add: same_disk_def fsame_def)

lemma tx_same_disk:
  assumes "tx H r s" "same_disk s t" "cache_ok H' t" "dirty_blocks t = dirty_blocks s"
  shows "tx H' r t"
proof -
  have sl: "same_log s t" using assms(2) by (simp add: same_log_def same_disk_def)
  have "bst.more t = bst.more s" using assms(2) by (simp add: same_disk_def)
  then show ?thesis using assms same_logD [OF sl] log_frame [of t s] by (simp add: tx_def)
qed

lemma tx_card: "tx H r s \<Longrightarrow> card (dirty_blocks s) + r \<le> 29"
proof -
  assume t: "tx H r s"
  then have "card (dirty_blocks s) \<le> nat (lh_n s)" using card_image_le [of "{..< nat (lh_n s)}" "home s"] by (simp add: tx_def)
  then show ?thesis using t by (simp add: tx_def) linarith
qed

text \<open>\<open>fsblk s bn\<close>: a block outside the log.\<close>

definition fsblk :: "'x lst_scheme \<Rightarrow> u32 \<Rightarrow> bool" where
  "fsblk s bn \<longleftrightarrow> unat bn < disksize s \<and> unat bn \<notin> log_area s"

lemma fsblk_same: "fsame s t \<Longrightarrow> fsblk t bn = fsblk s bn"
  using fsame_area [of s t] by (simp add: fsblk_def fsame_def)

text \<open>The state after \<open>bread\<close>: buffer \<open>b\<close> is held and has the contents of block \<open>bn\<close>.\<close>

definition got :: "nat set \<Rightarrow> nat \<Rightarrow> nat \<Rightarrow> u32 \<Rightarrow> 'x lst_scheme \<Rightarrow> 'x lst_scheme \<Rightarrow> bool" where
  "got H r b bn s t \<longleftrightarrow> b \<notin> H \<and> tx (insert b H) r t \<and> b_blockno (bufs t b) = bn \<and> b_data (bufs t b) = bview s (unat bn) \<and>
     bview t = bview s \<and> dirty_blocks t = dirty_blocks s \<and> same_disk s t \<and> (\<forall>j. j \<noteq> b \<longrightarrow> bufs t j = bufs s j)"

lemma tx_bread:
  assumes t: "tx H r s" and H: "card H \<le> r" and bn: "unat bn < disksize s" "\<And>i. i \<in> H \<Longrightarrow> b_blockno (bufs s i) \<noteq> bn"
  obtains b u where "bread 1 bn s = Ok (b, u)" "got H r b bn s u"
proof -
  have c: "cache_ok H s" using t by (simp add: tx_def)
  have "card H + card (dirty_blocks s) < NBUF" using tx_card [OF t] H by (simp add: NBUF_def)
  then obtain b u where u: "bread 1 bn s = Ok (b, u)" "b \<notin> H" "cache_ok (insert b H) u" "b_blockno (bufs u b) = bn"
    "b_data (bufs u b) = bview s (unat bn)" "bview u = bview s" "dirty_blocks u = dirty_blocks s" "same_disk s u"
    "\<forall>j. j \<noteq> b \<longrightarrow> bufs u j = bufs s j"
    using bread_ok [OF c bn(1) bn(2)] by blast
  have "tx (insert b H) r u" by (rule tx_same_disk [OF t u(8,3,7)])
  then show ?thesis using that [of b u] u by (simp add: got_def)
qed

lemma got_data: "got H r b bn s t \<Longrightarrow> buf_data b t = Ok (bview s (unat bn), t)"
  by (simp add: got_def buf_data_def kern_simps)

lemma log_slot_home:
  fixes bn
  assumes "homes_ok (nat (lh_n s)) s" "0 \<le> lh_n s"
  defines "i \<equiv> log_slot 0 (nat (lh_n s)) (lh_block s) bn"
  shows "unat bn \<in> home s ` {..< nat (lh_n s)} \<Longrightarrow> int i < lh_n s \<and> lh_block s i = bn"
    "unat bn \<notin> home s ` {..< nat (lh_n s)} \<Longrightarrow> int i = lh_n s"
proof -
  have sp: "i \<le> nat (lh_n s)" "i < nat (lh_n s) \<longrightarrow> lh_block s i = bn" "\<forall>j < i. lh_block s j \<noteq> bn"
    using log_slot_spec [of 0 "nat (lh_n s)" "lh_block s" bn] by (auto simp: i_def)
  {
    assume "unat bn \<in> home s ` {..< nat (lh_n s)}"
    then obtain j where j: "j < nat (lh_n s)" "lh_block s j = bn" by (auto simp: home_def word_unat_eq_iff)
    then have "i \<noteq> nat (lh_n s)" using sp(3) by auto
    then show "int i < lh_n s \<and> lh_block s i = bn" using sp assms(2) by auto
  next
    assume "unat bn \<notin> home s ` {..< nat (lh_n s)}"
    then have "\<forall>j < nat (lh_n s). lh_block s j \<noteq> bn" by (auto simp: home_def)
    then have "i = nat (lh_n s)" using sp(1,2) by (metis le_neq_implies_less)
    then show "int i = lh_n s" using assms(2) by simp
  }
qed

lemma homes_ok_append:
  assumes "homes_ok n s" "unat bn \<notin> home s ` {..< n}" "unat bn < disksize s" "unat bn \<notin> log_area s"
    "lh_block t = (lh_block s)(n := bn)" "disksize t = disksize s" "log_start t = log_start s"
  shows "homes_ok (Suc n) t" "home t ` {..< Suc n} = insert (unat bn) (home s ` {..< n})"
proof -
  have h: "home t i = (if i = n then unat bn else home s i)" for i by (simp add: home_def assms(5))
  have a: "log_area t = log_area s" by (simp add: log_area_def assms(7))
  have "inj_on (home t) {..< Suc n}"
    using assms(1,2) unfolding inj_on_def homes_ok_def by (auto simp: h less_Suc_eq image_iff) (metis lessThan_iff)+
  moreover have "\<forall>i < Suc n. home t i < disksize t \<and> home t i \<notin> log_area t"
    using assms(1,3,4) by (auto simp: h a assms(6) homes_ok_def less_Suc_eq)
  ultimately show "homes_ok (Suc n) t" by (simp add: homes_ok_def)
  show "home t ` {..< Suc n} = insert (unat bn) (home s ` {..< n})" by (auto simp: h less_Suc_eq image_iff)
qed

lemma lh_frame3:
  fixes s :: "'x lst_scheme" and v f
  shows "cache_ok H (s\<lparr>lh_block := f, lh_n := v\<rparr>) = cache_ok H s" "bview (s\<lparr>lh_block := f, lh_n := v\<rparr>) = bview s"
    "dirty_blocks (s\<lparr>lh_block := f, lh_n := v\<rparr>) = dirty_blocks s"
proof -
  have "s\<lparr>lh_block := f, lh_n := v\<rparr> = s\<lparr>lh_n := v, lh_block := f\<rparr>" by (cases s) simp
  then show "cache_ok H (s\<lparr>lh_block := f, lh_n := v\<rparr>) = cache_ok H s" "bview (s\<lparr>lh_block := f, lh_n := v\<rparr>) = bview s"
    "dirty_blocks (s\<lparr>lh_block := f, lh_n := v\<rparr>) = dirty_blocks s"
    by (simp_all only: lh_upd_frame2)
qed

lemma log_write_tx:
  assumes t: "tx H (Suc r) s" and b: "b \<in> H" and bn: "fsblk s (b_blockno (bufs s b))"
  shows "\<exists>u. log_write b s = Ok ((), u) \<and> tx H r u \<and> bview u = bview s \<and> fsame s u \<and> bufs u = (bufs s)(b := pin (bufs s b))"
proof -
  let ?bn = "b_blockno (bufs s b)" and ?n = "nat (lh_n s)"
  let ?i = "log_slot 0 ?n (lh_block s) ?bn"
  define v where "v = (if int ?i = lh_n s then lh_n s + 1 else lh_n s)"
  let ?f = "(lh_block s)(?i := ?bn)"
  let ?s1 = "s\<lparr>lh_block := ?f, lh_n := v\<rparr>"
  let ?u = "upd_buf b pin ?s1"
  have c: "cache_ok H s" and cfg: "log_cfg s" and n: "0 \<le> lh_n s" "lh_n s + int (Suc r) \<le> 29" and h: "homes_ok ?n s"
    and d: "dirty_blocks s = home s ` {..< ?n}" and o: "1 \<le> log_outstanding s" "log_size s = 30"
    using t by (auto simp: tx_def)
  have run: "log_write b s = Ok ((), ?u)" using n o by (simp add: log_write_def Let_def LOGSIZE_def v_def)
  have c1: "cache_ok H ?s1" using c by (simp only: lh_frame3)
  note pin = pin_ok [OF c1 b]
  have uf: "bst.more ?u = bst.more ?s1" by simp
  note lf = log_frame [OF uf]
  have fu: "log_start ?u = log_start s" "log_size ?u = 30" "log_outstanding ?u = log_outstanding s" "log_dev ?u = log_dev s"
    "lh_n ?u = v" "lh_block ?u = ?f" "lst.more ?u = lst.more s" "disksize ?u = disksize s"
    using lf o by simp_all
  have area: "log_area ?u = log_area s" by (simp add: log_area_def fu(1))
  have du: "dirty_blocks ?u = insert (unat ?bn) (dirty_blocks s)" using pin(3) by (simp add: lh_frame3)
  have "homes_ok (nat v) ?u \<and> home ?u ` {..< nat v} = insert (unat ?bn) (home s ` {..< ?n}) \<and> 0 \<le> v \<and> v \<le> lh_n s + 1"
  proof (cases "unat ?bn \<in> home s ` {..< ?n}")
    case True
    have i: "int ?i < lh_n s" "lh_block s ?i = ?bn" using log_slot_home(1) [OF h n(1) True] by auto
    then have "v = lh_n s" "?f = lh_block s" by (auto simp: v_def)
    moreover from this have "home ?u = home s" using fu(6) by (simp add: home_def fun_eq_iff)
    ultimately show ?thesis using h area fu n(1) True by (auto simp: homes_ok_def)
  next
    case False
    have i: "int ?i = lh_n s" using log_slot_home(2) [OF h n(1) False] .
    then have v: "nat v = Suc ?n" "v = lh_n s + 1" "?i = ?n" using n(1) by (auto simp: v_def)
    have "lh_block ?u = (lh_block s)(?n := ?bn)" using fu(6) v(3) by simp
    from homes_ok_append [OF h False _ _ this fu(8) fu(1)] bn
    show ?thesis unfolding v(1) fsblk_def using v(2) n(1) by auto
  qed
  then have "tx H r ?u" using pin(1) cfg n o fu du d by (simp add: tx_def log_cfg_def)
  moreover have "fsame s ?u" using fu by (simp add: fsame_def)
  moreover have "bview ?u = bview s" using pin(2) by (simp add: lh_frame3)
  ultimately show ?thesis using run by (intro exI [of _ ?u]) simp
qed

text \<open>Filling, logging and releasing a held buffer.\<close>

lemma tx_finish:
  assumes t: "tx (insert b H) (Suc r) s" and b: "b \<notin> H" and bn: "fsblk s (b_blockno (bufs s b))"
  obtains u where "seqk (buf_write b d) (seqk (log_write b) (brelse b)) s = Ok ((), u)" "tx H r u" "fsame s u"
    "bview u = (bview s)(unat (b_blockno (bufs s b)) := d)" "\<forall>j. j \<noteq> b \<longrightarrow> bufs u j = bufs s j"
proof -
  let ?k = "unat (b_blockno (bufs s b))" and ?s1 = "upd_buf b (set_data d) s"
  have c: "cache_ok (insert b H) s" using t by (simp add: tx_def)
  have s1: "cache_ok (insert b H) ?s1" "bview ?s1 = (bview s)(?k := d)" "dirty_blocks ?s1 = dirty_blocks s"
    using set_data_ok [OF c, of b d] by auto
  have t1: "tx (insert b H) (Suc r) ?s1" by (rule tx_same_disk [OF t _ s1(1,3)]) simp
  have "fsblk ?s1 (b_blockno (bufs ?s1 b))" using bn fsblk_same [OF same_disk_fsame, of s ?s1] by (simp add: set_data_def)
  then obtain s2 where s2: "log_write b ?s1 = Ok ((), s2)" "tx (insert b H) r s2" "bview s2 = bview ?s1" "fsame ?s1 s2"
    "bufs s2 = (bufs ?s1)(b := pin (bufs ?s1 b))" using log_write_tx [OF t1] by blast
  have c2: "cache_ok (insert b H) s2" using s2(2) by (simp add: tx_def)
  have "b_dirty (bufs s2 b)" using s2(5) by (simp add: pin_def)
  then obtain u where u: "brelse b s2 = Ok ((), u)" "cache_ok (insert b H - {b}) u" "bview u = bview s2"
    "dirty_blocks u = dirty_blocks s2" "same_disk s2 u" "\<forall>j. j \<noteq> b \<longrightarrow> bufs u j = bufs s2 j"
    using brelse_ok [OF c2, of b] by blast
  have H: "insert b H - {b} = H" using b by auto
  have "tx H r u" using tx_same_disk [OF s2(2) u(5) _ u(4)] u(2) by (simp only: H)
  moreover have "fsame s u"
    using fsame_trans [OF fsame_trans [OF same_disk_fsame s2(4)] same_disk_fsame [OF u(5)], of s] by simp
  moreover have "seqk (buf_write b d) (seqk (log_write b) (brelse b)) s = Ok ((), u)"
    by (simp add: kern_simps buf_write_def s2(1) u(1))
  ultimately show ?thesis using that [of u] u s2 s1 by simp
qed

lemma tx_drop:
  assumes g: "got H r b bn s t" and s: "tx H r s"
    and fr: "\<And>i. i \<in> H \<Longrightarrow> b_blockno (bufs s i) \<noteq> bn"
  obtains u where "brelse b t = Ok ((), u)" "tx H r u" "fsame s u" "bview u = bview s" "\<forall>j. j \<noteq> b \<longrightarrow> bufs u j = bufs s j"
proof -
  have t: "tx (insert b H) r t" "b \<notin> H" "b_blockno (bufs t b) = bn" "b_data (bufs t b) = bview s (unat bn)" "bview t = bview s"
    "dirty_blocks t = dirty_blocks s" "same_disk s t" "\<forall>j. j \<noteq> b \<longrightarrow> bufs t j = bufs s j" using g by (auto simp: got_def)
  have c: "cache_ok (insert b H) t" "cache_ok H s" using t(1) s by (simp_all add: tx_def)
  have "b_dirty (bufs t b) \<or> b_data (bufs t b) = disk t (unat (b_blockno (bufs t b)))"
  proof (cases "unat bn \<in> dirty_blocks t")
    case True
    then show ?thesis using held_dirty [OF c(1), of b] t(3) by simp
  next
    case False
    have "bview s (unat bn) = disk s (unat bn)"
    proof (rule bview_clean [OF c(2)])
      fix i assume i: "i < NBUF" "cached s (unat bn) i"
      then have "b_blockno (bufs s i) = bn" by (simp add: cached_def word_unat_eq_iff)
      then have "i \<notin> H" using fr by blast
      moreover have "\<not> b_dirty (bufs s i)"
        using False i unfolding t(6) by (force simp: dirty_blocks_def dirty_bufs_def cached_def)
      ultimately show "i \<notin> H \<and> \<not> b_dirty (bufs s i)" by blast
    qed
    then show ?thesis using t(3,4,7) by (simp add: same_disk_def)
  qed
  then obtain u where u: "brelse b t = Ok ((), u)" "cache_ok (insert b H - {b}) u" "bview u = bview t"
    "dirty_blocks u = dirty_blocks t" "same_disk t u" "\<forall>j. j \<noteq> b \<longrightarrow> bufs u j = bufs t j"
    using brelse_ok [OF c(1), of b] by blast
  have H: "insert b H - {b} = H" using t(2) by auto
  have "tx H r u" using tx_same_disk [OF t(1) u(5) _ u(4)] u(2) by (simp only: H)
  then show ?thesis using that [of u] u t same_disk_fsame [OF same_disk_trans [OF t(7) u(5)]] by simp
qed

section \<open>The free map\<close>

lemma fs_frame:
  "lst.more t = lst.more s \<Longrightarrow> sb t = sb s \<and> inodes t = inodes s \<and> devsw t = devsw s \<and> mycwd t = mycwd s \<and> fsst.more t = fsst.more s"
  by (cases s; cases t) simp

lemma fsame_fields: "fsame s t \<Longrightarrow> sb t = sb s \<and> inodes t = inodes s \<and> devsw t = devsw s \<and> mycwd t = mycwd s"
  using fs_frame [of t s] by (simp add: fsame_def)

lemma bmask_bits: "bmask bi = 2 ^ (bi mod 8)"
  by (simp add: bmask_def push_bit_eq_mult)

lemma bit_clear_iff: "bit_clear d bi \<longleftrightarrow> \<not> bit (d (bi div 8)) (bi mod 8)"
  by (simp add: bit_clear_def bmask_bits and_exp_eq_0_iff_not_bit)

lemma bit_set: "bit (x OR bmask bi) j \<longleftrightarrow> bit x j \<or> j = bi mod 8"
  by (auto simp: bmask_bits bit_or_iff bit_exp_iff)

lemma bit_unset: "bit (x AND NOT (bmask bi)) j \<longleftrightarrow> bit x j \<and> j \<noteq> bi mod 8"
  by (auto simp: bmask_bits bit_and_iff bit_not_iff bit_exp_iff dest: bit_imp_le_length)

text \<open>\<open>used s b\<close>: the bit of block \<open>b\<close> is set.\<close>

definition bmblk :: "'x fsst_scheme \<Rightarrow> nat \<Rightarrow> nat" where
  "bmblk s b = unat (BBLOCK b (sb s))"

definition used :: "'x fsst_scheme \<Rightarrow> nat \<Rightarrow> bool" where
  "used s b \<longleftrightarrow> \<not> bit_clear (bview s (bmblk s b)) (b mod BPB)"

definition fs_size :: "'x fsst_scheme \<Rightarrow> nat" where
  "fs_size s = unat (sb_size (sb s))"

text \<open>The free map lies on the disk, outside the log.\<close>

definition map_ok :: "'x fsst_scheme \<Rightarrow> bool" where
  "map_ok s \<longleftrightarrow> fs_size s \<le> disksize s \<and> disksize s < 2 ^ 31 \<and> unat (sb_bmapstart (sb s)) + fs_size s div BPB < disksize s \<and>
     (\<forall>b \<le> fs_size s. unat (sb_bmapstart (sb s)) + b div BPB \<notin> log_area s)"

lemma bmblk_eq:
  assumes "map_ok s" "b < fs_size s"
  shows "bmblk s b = unat (sb_bmapstart (sb s)) + b div BPB" "fsblk s (BBLOCK b (sb s))"
proof -
  have le: "b div BPB \<le> fs_size s div BPB" using assms(2) by (simp add: div_le_mono)
  have lt: "unat (sb_bmapstart (sb s)) + b div BPB < disksize s" "disksize s < 2 ^ 31" using assms(1) le by (auto simp: map_ok_def)
  then have "unat (of_nat (b div BPB) :: u32) = b div BPB" by (simp add: unat_of_nat)
  then show e: "bmblk s b = unat (sb_bmapstart (sb s)) + b div BPB"
    using lt by (simp add: bmblk_def BBLOCK_def unat_word_ariths)
  show "fsblk s (BBLOCK b (sb s))"
    using e lt assms by (simp add: fsblk_def map_ok_def bmblk_def)
qed

lemma used_cong: "bview t = bview s \<Longrightarrow> sb t = sb s \<Longrightarrow> used t b = used s b"
  by (simp add: used_def bmblk_def)

lemma map_ok_same: "fsame s t \<Longrightarrow> map_ok t = map_ok s"
  using fsame_fields [of s t] fsame_area [of s t] by (simp add: map_ok_def fs_size_def fsame_def)

text \<open>Changing one bit of the free map.\<close>

lemma used_update:
  assumes m: "map_ok s" and b: "b < fs_size s" "b' < fs_size s" and sb: "sb t = sb s"
    and v: "\<And>k. k = bmblk s b \<or> k = bmblk s b' \<Longrightarrow> bview t k = ((bview s)(bmblk s b := d((b mod BPB) div 8 := x))) k"
    and d: "d = bview s (bmblk s b)"
    and x: "\<And>j. bit x j = (if j = b mod 8 then w else bit (d ((b mod BPB) div 8)) j)"
  shows "used t b' = (if b' = b then w else used s b')"
proof -
  have mod8: "c mod BPB mod 8 = c mod 8" for c by (simp add: BPB_def mod_mod_cancel)
  have bt: "bmblk t b' = bmblk s b'" by (simp add: bmblk_def sb)
  have ut: "used t b' = bit (bview t (bmblk s b') (b' mod BPB div 8)) (b' mod 8)"
    by (simp add: used_def bit_clear_iff bt mod8)
  have us: "used s b' = bit (bview s (bmblk s b') (b' mod BPB div 8)) (b' mod 8)"
    by (simp add: used_def bit_clear_iff mod8)
  show ?thesis
  proof (cases "bmblk s b' = bmblk s b \<and> b' mod BPB div 8 = b mod BPB div 8")
    case True
    have "bview t (bmblk s b') (b' mod BPB div 8) = x" using v [of "bmblk s b'"] True by simp
    then have u: "used t b' = (if b' mod 8 = b mod 8 then w else used s b')" using ut us x d True by simp
    have "b' = b" if "b' mod 8 = b mod 8"
    proof -
      have "b' div BPB = b div BPB" using True bmblk_eq(1) [OF m b(1)] bmblk_eq(1) [OF m b(2)] by simp
      moreover have "b' mod BPB = b mod BPB" using True that mod8 by (metis div_mult_mod_eq)
      ultimately show ?thesis by (metis div_mult_mod_eq)
    qed
    then show ?thesis using u by auto
  next
    case False
    then have "b' \<noteq> b" by auto
    moreover have "bview t (bmblk s b') (b' mod BPB div 8) = bview s (bmblk s b') (b' mod BPB div 8)"
      using v [of "bmblk s b'"] False d by auto
    ultimately show ?thesis using ut us by simp
  qed
qed

lemma bfree_ok:
  assumes t: "tx {} (Suc r) s" and m: "map_ok s" and b: "unat b < fs_size s"
  shows "if used s (unat b)
    then \<exists>t. bfree 1 b s = Ok ((), t) \<and> tx {} r t \<and> fsame s t \<and>
      (\<forall>b' < fs_size s. used t b' = (b' \<noteq> unat b \<and> used s b')) \<and> (\<forall>k. k \<noteq> bmblk s (unat b) \<longrightarrow> bview t k = bview s k)
    else bfree 1 b s = Panic ''freeing free block''"
proof -
  let ?bn = "BBLOCK (unat b) (sb s)" and ?bi = "unat b mod BPB"
  let ?d = "bview s (unat ?bn)"
  have blk: "fsblk s ?bn" by (rule bmblk_eq(2) [OF m b])
  then obtain p s1 where p: "bread 1 ?bn s = Ok (p, s1)" "got {} (Suc r) p ?bn s s1"
    using tx_bread [OF t, of ?bn] by (auto simp: fsblk_def)
  note data = got_data [OF p(2)]
  show ?thesis
  proof (cases "used s (unat b)")
    case False
    then show ?thesis by (simp add: bfree_def kern_simps p(1) data Let_def used_def bmblk_def)
  next
    case True
    let ?x = "?d (?bi div 8) AND NOT (bmask ?bi)"
    have t1: "tx (insert p {}) (Suc r) s1" "fsame s s1" "bview s1 = bview s" "b_blockno (bufs s1 p) = ?bn"
      using p(2) same_disk_fsame [of s s1] by (auto simp: got_def)
    have blk1: "fsblk s1 (b_blockno (bufs s1 p))" using blk fsblk_same [OF t1(2)] t1(4) by simp
    obtain u where u: "seqk (buf_write p (?d(?bi div 8 := ?x))) (seqk (log_write p) (brelse p)) s1 = Ok ((), u)"
      "tx {} r u" "fsame s1 u" "bview u = (bview s1)(unat (b_blockno (bufs s1 p)) := ?d(?bi div 8 := ?x))"
      using tx_finish [OF t1(1) _ blk1, of "?d(?bi div 8 := ?x)"] by auto
    have fs: "fsame s u" by (rule fsame_trans [OF t1(2) u(3)])
    have v: "bview u = (bview s)(bmblk s (unat b) := ?d(?bi div 8 := ?x))" using u(4) t1 by (simp add: bmblk_def)
    have "used u b' = (if b' = unat b then False else used s b')" if "b' < fs_size s" for b'
      by (rule used_update [OF m b that, where d = ?d and x = ?x])
        (use v fsame_fields [OF fs] in \<open>auto simp: bmblk_def bit_unset BPB_def mod_mod_cancel\<close>)
    moreover have "bfree 1 b s = Ok ((), u)"
      using True u(1) by (simp add: bfree_def kern_simps p(1) data Let_def used_def bmblk_def)
    ultimately show ?thesis using True u(2) fs v by auto
  qed
qed

lemma bzero_tx:
  assumes t: "tx H (Suc r) s" and bn: "fsblk s bn" and H: "card H \<le> Suc r" "\<And>i. i \<in> H \<Longrightarrow> b_blockno (bufs s i) \<noteq> bn"
  shows "\<exists>u. bzero 1 bn s = Ok ((), u) \<and> tx H r u \<and> fsame s u \<and> bview u = (bview s)(unat bn := (\<lambda>_. 0)) \<and> (\<forall>i \<in> H. bufs u i = bufs s i)"
proof -
  obtain p s1 where p: "bread 1 bn s = Ok (p, s1)" "got H (Suc r) p bn s s1"
    using tx_bread [OF t H(1) _ H(2)] bn by (auto simp: fsblk_def)
  have t1: "tx (insert p H) (Suc r) s1" "fsame s s1" "bview s1 = bview s" "b_blockno (bufs s1 p) = bn" "p \<notin> H"
    "\<forall>j. j \<noteq> p \<longrightarrow> bufs s1 j = bufs s j"
    using p(2) same_disk_fsame [of s s1] by (auto simp: got_def)
  have "fsblk s1 (b_blockno (bufs s1 p))" using bn fsblk_same [OF t1(2)] t1(4) by simp
  then obtain u where u: "seqk (buf_write p (\<lambda>_. 0)) (seqk (log_write p) (brelse p)) s1 = Ok ((), u)"
    "tx H r u" "fsame s1 u" "bview u = (bview s1)(unat (b_blockno (bufs s1 p)) := (\<lambda>_. 0))" "\<forall>j. j \<noteq> p \<longrightarrow> bufs u j = bufs s1 j"
    by (rule tx_finish [OF t1(1,5), of "\<lambda>_. 0"])
  have "\<forall>i \<in> H. bufs u i = bufs s i" using u(5) t1(5,6) by auto
  then show ?thesis
    using fsame_trans [OF t1(2) u(3)] t1 u by (simp add: bzero_def kern_simps p(1))
qed

lemma balloc_scan_find: "balloc_scan d bi k = find (bit_clear d) [bi ..< bi + k]"
proof (induction k arbitrary: bi)
  case (Suc k)
  show ?case using Suc [of "Suc bi"] by (simp add: upt_conv_Cons del: upt_Suc)
qed simp

text \<open>The outer loop of \<open>balloc\<close> has passed over blocks in use only.\<close>

lemma same_map_block: "b mod BPB = 0 \<Longrightarrow> j < BPB \<Longrightarrow> BBLOCK (b + j) x = BBLOCK b x \<and> (b + j) mod BPB = j"
  by (auto simp: BBLOCK_def BPB_def mod_add_left_eq [symmetric] elim!: dvdE simp flip: dvd_eq_mod_eq_0)

lemma used_in_block:
  assumes "b mod BPB = 0" "j < BPB"
  shows "used s (b + j) = (\<not> bit_clear (bview s (unat (BBLOCK b (sb s)))) j)"
  using same_map_block [OF assms, of "sb s"] by (simp add: used_def bmblk_def)

definition allocated :: "nat \<Rightarrow> 'x fsst_scheme \<Rightarrow> 'x fsst_scheme \<Rightarrow> bool" where
  "allocated a s t \<longleftrightarrow> a < fs_size s \<and> \<not> used s a \<and> (\<forall>k < a. used s k) \<and> (\<forall>b < fs_size s. used t b = (b = a \<or> used s b)) \<and>
     bview t a = (\<lambda>_. 0) \<and> (\<forall>k. k \<noteq> a \<longrightarrow> k \<noteq> bmblk s a \<longrightarrow> bview t k = bview s k)"

lemma allocated_cong: "bview s' = bview s \<Longrightarrow> sb s' = sb s \<Longrightarrow> allocated a s' t = allocated a s t"
  by (simp add: allocated_def used_def bmblk_def fs_size_def)

text \<open>No free block is a block of the log or of the free map.\<close>

definition meta_used :: "'x fsst_scheme \<Rightarrow> bool" where
  "meta_used s \<longleftrightarrow> (\<forall>k < fs_size s. k \<in> log_area s \<or> (\<exists>b < fs_size s. k = bmblk s b) \<longrightarrow> used s k)"

text \<open>The buffers in \<open>H\<close> hold blocks in use that are not of the free map.\<close>

definition aside :: "nat set \<Rightarrow> 'x fsst_scheme \<Rightarrow> bool" where
  "aside H s \<longleftrightarrow> (\<forall>i \<in> H. let k = unat (b_blockno (bufs s i)) in k < fs_size s \<and> used s k \<and> (\<forall>b < fs_size s. bmblk s b \<noteq> k))"

lemma aside_empty [simp]: "aside {} s"
  by (simp add: aside_def)

lemma aside_map: "aside H s \<Longrightarrow> b < fs_size s \<Longrightarrow> i \<in> H \<Longrightarrow> b_blockno (bufs s i) \<noteq> BBLOCK b (sb s)"
  unfolding aside_def bmblk_def Let_def by metis

lemma aside_free: "aside H s \<Longrightarrow> \<not> used s (unat bn) \<Longrightarrow> i \<in> H \<Longrightarrow> b_blockno (bufs s i) \<noteq> bn"
  by (auto simp: aside_def Let_def)

lemma balloc_found:
  assumes t: "tx H (Suc (Suc r)) s" and H: "card H \<le> Suc r" "aside H s" 
    and m: "map_ok s" and mu: "meta_used s" and b: "b mod BPB = 0" "b < fs_size s" "\<forall>k < b. used s k"
    and p: "got H (Suc (Suc r)) p (BBLOCK b (sb s)) s s1"
    and scan: "balloc_scan (bview s (unat (BBLOCK b (sb s)))) 0 (min BPB (fs_size s - b)) = Some bi"
  defines "d \<equiv> bview s (unat (BBLOCK b (sb s)))"
  shows "\<exists>u. seqk (buf_write p (d(bi div 8 := d (bi div 8) OR bmask bi))) (seqk (log_write p) (seqk (brelse p)
      (seqk (bzero 1 (of_nat (b + bi))) (ret (of_nat (b + bi) :: u32))))) s1 = Ok (of_nat (b + bi), u) \<and> tx H r u \<and> fsame s u \<and>
      allocated (b + bi) s u \<and> (\<forall>i \<in> H. bufs u i = bufs s i)"
proof -
  let ?bn = "BBLOCK b (sb s)" and ?x = "d (bi div 8) OR bmask bi" and ?a = "b + bi"
  have f: "find (bit_clear d) [0 ..< min BPB (fs_size s - b)] = Some bi" using scan by (simp add: balloc_scan_find d_def)
  then obtain i where i: "i < min BPB (fs_size s - b)" "bi = i" "bit_clear d i" "\<forall>j < i. \<not> bit_clear d j"
    by (auto simp: find_Some_iff)
  then have bi: "bi < BPB" "?a < fs_size s" "bit_clear d bi" by auto
  have blk: "fsblk s ?bn" by (rule bmblk_eq(2) [OF m b(2)])
  have bm: "BBLOCK ?a (sb s) = ?bn" "?a mod BPB = bi" using same_map_block [OF b(1) bi(1)] by auto
  have free: "\<not> used s ?a" using used_in_block [OF b(1) bi(1), of s] bi(3) by (simp add: d_def)
  have low: "\<forall>k < ?a. used s k"
  proof (intro allI impI)
    fix k assume k: "k < ?a"
    show "used s k"
    proof (cases "k < b")
      case False
      then have "used s (b + (k - b))" using used_in_block [OF b(1), of "k - b" s] i(2,4) bi(1) k by (simp add: d_def)
      then show ?thesis using False by simp
    qed (use b(3) in simp)
  qed
  have t1: "tx (insert p H) (Suc (Suc r)) s1" "fsame s s1" "bview s1 = bview s" "b_blockno (bufs s1 p) = ?bn"
    "p \<notin> H" "\<forall>j. j \<noteq> p \<longrightarrow> bufs s1 j = bufs s j"
    using p same_disk_fsame [of s s1] by (auto simp: got_def)
  have "fsblk s1 (b_blockno (bufs s1 p))" using blk fsblk_same [OF t1(2)] t1(4) by simp
  then obtain u where u: "seqk (buf_write p (d(bi div 8 := ?x))) (seqk (log_write p) (brelse p)) s1 = Ok ((), u)"
    "tx H (Suc r) u" "fsame s1 u" "bview u = (bview s1)(unat (b_blockno (bufs s1 p)) := d(bi div 8 := ?x))"
    "\<forall>j. j \<noteq> p \<longrightarrow> bufs u j = bufs s1 j"
    by (rule tx_finish [OF t1(1,5), of "d(bi div 8 := ?x)"])
  have hu: "bufs u j = bufs s j" if "j \<in> H" for j using that u(5) t1(5,6) by auto
  have fu: "fsame s u" by (rule fsame_trans [OF t1(2) u(3)])
  have vu: "bview u = (bview s)(bmblk s ?a := d(bi div 8 := ?x))" using u(4) t1 bm by (simp add: bmblk_def)
  have a32: "unat (of_nat ?a :: u32) = ?a" using bi(2) m by (simp add: map_ok_def unat_of_nat del: of_nat_add)
  have na: "?a \<notin> log_area s" "\<forall>c < fs_size s. ?a \<noteq> bmblk s c" using free mu bi(2) by (auto simp: meta_used_def)
  have "fsblk s (of_nat ?a)" unfolding fsblk_def a32 using na(1) bi(2) m by (simp add: map_ok_def)
  then have "fsblk u (of_nat ?a)" by (simp only: fsblk_same [OF fu])
  moreover have "b_blockno (bufs u j) \<noteq> of_nat ?a" if "j \<in> H" for j
    using aside_free [OF H(2), of "of_nat ?a" j] free that hu by (simp only: a32 simp_thms)
  ultimately obtain v where v: "bzero 1 (of_nat ?a) u = Ok ((), v)" "tx H r v" "fsame u v" "bview v = (bview u)(?a := (\<lambda>_. 0))"
      "\<forall>j \<in> H. bufs v j = bufs u j"
    using bzero_tx [OF u(2) _ H(1), of "of_nat ?a"] unfolding a32 by blast
  have fv: "fsame s v" by (rule fsame_trans [OF fu v(3)])
  have "?a mod BPB mod 8 = ?a mod 8" by (simp add: BPB_def mod_mod_cancel)
  then have m8: "?a mod 8 = bi mod 8" by (simp only: bm(2))
  have "used v c = (if c = ?a then True else used s c)" if c: "c < fs_size s" for c
    by (rule used_update [OF m bi(2) c, where d = d and x = ?x])
      (use vu v(4) na(2) c bi(2) bm m8 fsame_fields [OF fv] in \<open>auto simp: d_def bmblk_def bit_set\<close>)
  moreover have "bview v k = bview s k" if "k \<noteq> ?a" "k \<noteq> bmblk s ?a" for k using that v(4) vu by simp
  ultimately have "allocated ?a s v" using free low bi(2) v(4) by (simp add: allocated_def)
  moreover have "seqk (buf_write p (d(bi div 8 := ?x))) (seqk (log_write p) (seqk (brelse p)
      (seqk (bzero 1 (of_nat ?a)) (ret (of_nat ?a :: u32))))) s1 = Ok (of_nat ?a, v)"
    using u(1) v(1) by (simp add: seqk_def bindk_assoc [symmetric]) (simp add: bindk_def ret_def)
  ultimately show ?thesis using v(2,5) fv hu by auto
qed

lemma balloc_loop_ok:
  assumes "tx H (Suc (Suc r)) s" "map_ok s" "meta_used s" "b mod BPB = 0" "\<forall>k < b. used s k" "\<exists>k < fs_size s. \<not> used s k" "aside H s"
    and H: "card H \<le> Suc r"
  shows "\<exists>a t. balloc_loop 1 (fs_size s) b s = Ok (of_nat a, t) \<and> tx H r t \<and> fsame s t \<and> allocated a s t \<and> (\<forall>i \<in> H. bufs t i = bufs s i)"
  using assms(1-7)
proof (induction "fs_size s - b" arbitrary: b s rule: less_induct)
  case less
  let ?bn = "BBLOCK b (sb s)"
  have b: "b < fs_size s" using less.prems(5,6) by (meson leI le_less_trans not_less)
  have blk: "fsblk s ?bn" by (rule bmblk_eq(2) [OF less.prems(2) b])
  obtain p s1 where p: "bread 1 ?bn s = Ok (p, s1)" "got H (Suc (Suc r)) p ?bn s s1"
    using tx_bread [OF less.prems(1) _ _ aside_map [OF less.prems(7) b]] H blk by (auto simp: fsblk_def)
  note data = got_data [OF p(2)]
  show ?case
  proof (cases "balloc_scan (bview s (unat ?bn)) 0 (min BPB (fs_size s - b))")
    case (Some bi)
    obtain u where u: "seqk (buf_write p ((bview s (unat ?bn))(bi div 8 := bview s (unat ?bn) (bi div 8) OR bmask bi)))
        (seqk (log_write p) (seqk (brelse p) (seqk (bzero 1 (of_nat (b + bi))) (ret (of_nat (b + bi) :: u32))))) s1 = Ok (of_nat (b + bi), u)"
      "tx H r u" "fsame s u" "allocated (b + bi) s u" "\<forall>i \<in> H. bufs u i = bufs s i"
      using balloc_found [OF less.prems(1) H less.prems(7,2,3,4) b less.prems(5) p(2) Some] by blast
    have "balloc_loop 1 (fs_size s) b s = Ok (of_nat (b + bi), u)"
      using b u(1) by (subst balloc_loop.simps) (simp add: kern_simps p(1) data Some)
    then show ?thesis using u by blast
  next
    case None
    then have full: "\<forall>j < min BPB (fs_size s - b). \<not> bit_clear (bview s (unat ?bn)) j"
      by (auto simp: balloc_scan_find find_None_iff)
    have low: "\<forall>k < b + BPB. k < fs_size s \<longrightarrow> used s k"
    proof (intro allI impI)
      fix k assume k: "k < b + BPB" "k < fs_size s"
      show "used s k"
      proof (cases "k < b")
        case False
        then have "used s (b + (k - b))" using used_in_block [OF less.prems(4), of "k - b" s] full k by simp
        then show ?thesis using False by simp
      qed (use less.prems(5) in simp)
    qed
    then have next_lt: "b + BPB < fs_size s" using less.prems(6) by (meson leI less_le_trans)
    obtain u where u: "brelse p s1 = Ok ((), u)" "tx H (Suc (Suc r)) u" "fsame s u" "bview u = bview s" "\<forall>j. j \<noteq> p \<longrightarrow> bufs u j = bufs s j"
      by (rule tx_drop [OF p(2) less.prems(1) aside_map [OF less.prems(7) b]])
    have hu: "\<forall>i \<in> H. bufs u i = bufs s i" using u(5) p(2) by (auto simp: got_def)
    note fu = fsame_fields [OF u(3)]
    have sz: "fs_size u = fs_size s" "used u = used s" "log_area u = log_area s" "bmblk u = bmblk s"
      using fu fsame_area [OF u(3)] used_cong [OF u(4)] by (simp_all add: fs_size_def bmblk_def fun_eq_iff)
    have "\<exists>a t. balloc_loop 1 (fs_size u) (b + BPB) u = Ok (of_nat a, t) \<and> tx H r t \<and> fsame u t \<and> allocated a u t \<and> (\<forall>i \<in> H. bufs t i = bufs u i)"
    proof (rule less.hyps [OF _ u(2)])
      show "fs_size u - (b + BPB) < fs_size s - b" using b sz(1) by (simp add: BPB_def)
      show "map_ok u" using map_ok_same [OF u(3)] less.prems(2) by simp
      show "meta_used u" using less.prems(3) by (simp add: meta_used_def sz)
      show "(b + BPB) mod BPB = 0" using less.prems(4) by simp
      show "\<forall>k < b + BPB. used u k" using low next_lt sz(2) by simp
      show "\<exists>k < fs_size u. \<not> used u k" using less.prems(6) sz by simp
      show "aside H u" using less.prems(7) hu sz by (simp add: aside_def)
    qed
    then obtain a t where "balloc_loop 1 (fs_size s) (b + BPB) u = Ok (of_nat a, t)" "tx H r t" "fsame u t" "allocated a s t"
        "\<forall>i \<in> H. bufs t i = bufs u i"
      using allocated_cong [of u s] u(4) fu sz(1) by auto
    moreover from this have "balloc_loop 1 (fs_size s) b s = Ok (of_nat a, t)"
      using b by (subst balloc_loop.simps) (simp add: kern_simps p(1) data None u(1))
    ultimately show ?thesis using fsame_trans [OF u(3)] hu by fastforce
  qed
qed

lemma balloc_ok:
  assumes "tx H (Suc (Suc r)) s" "map_ok s" "meta_used s" "\<exists>k < fs_size s. \<not> used s k" "aside H s" "card H \<le> Suc r"
  shows "\<exists>a t. balloc 1 s = Ok (of_nat a, t) \<and> tx H r t \<and> fsame s t \<and> allocated a s t \<and> (\<forall>i \<in> H. bufs t i = bufs s i)"
  using balloc_loop_ok [OF assms(1,2,3), of 0] assms(4-6) by (simp add: balloc_def fs_size_def)

section \<open>On-disk inodes\<close>

lemma put_addrs_out: "k < off + 12 + 4 * i \<or> off + 12 + 4 * (i + n) \<le> k \<Longrightarrow> put_addrs off i n a d k = d k"
proof (induction n arbitrary: i d)
  case (Suc n)
  then have "put_addrs off (Suc i) n a (put32 (off + 12 + 4 * i) (a i) d) k = put32 (off + 12 + 4 * i) (a i) d k" by auto
  then show ?case using Suc.prems by (simp add: put32_out) (auto intro: put32_out)
qed simp

lemma get32_put_addrs_in: "i \<le> j \<Longrightarrow> j < i + n \<Longrightarrow> get32 (put_addrs off i n a d) (off + 12 + 4 * j) = a j"
proof (induction n arbitrary: i d)
  case (Suc n)
  show ?case
  proof (cases "j = i")
    case True
    have "get32 (put_addrs off (Suc i) n a (put32 (off + 12 + 4 * i) (a i) d)) (off + 12 + 4 * i) =
        get32 (put32 (off + 12 + 4 * i) (a i) d) (off + 12 + 4 * i)"
      by (rule get32_cong) (simp add: put_addrs_out)
    then show ?thesis using True by simp
  next
    case False
    then show ?thesis using Suc.IH [of "Suc i"] Suc.prems by simp
  qed
qed simp

lemma put_dinode_out:
  assumes "k < off \<or> off + 64 \<le> k"
  shows "put_dinode off ip d k = d k"
proof -
  have "put_dinode off ip d k = put32 (off + 8) (i_size ip) (put16 (off + 6) (i_nlink ip) (put16 (off + 4) (i_minor ip)
       (put16 (off + 2) (i_major ip) (put16 off (i_type ip) d)))) k"
    unfolding put_dinode_def using assms by (intro put_addrs_out) (auto simp: NDIRECT_def)
  also have "\<dots> = d k" using assms by (auto simp: put32_out put16_out)
  finally show ?thesis .
qed

definition same_dinode :: "inode \<Rightarrow> inode \<Rightarrow> bool" where
  "same_dinode a b \<longleftrightarrow> i_type a = i_type b \<and> i_major a = i_major b \<and> i_minor a = i_minor b \<and> i_nlink a = i_nlink b \<and>
     i_size a = i_size b \<and> (\<forall>i \<le> NDIRECT. i_addrs a i = i_addrs b i)"

lemma get_put_dinode: "same_dinode (get_dinode off (put_dinode off ip d) ip') ip"
proof -
  let ?e = "put32 (off + 8) (i_size ip) (put16 (off + 6) (i_nlink ip) (put16 (off + 4) (i_minor ip)
       (put16 (off + 2) (i_major ip) (put16 off (i_type ip) d))))"
  have low16: "get16 (put_dinode off ip d) o' = get16 ?e o'" if "o' + 2 \<le> off + 12" for o'
    unfolding put_dinode_def using that by (intro get16_cong put_addrs_out) simp
  have low32: "get32 (put_dinode off ip d) (off + 8) = get32 ?e (off + 8)"
    unfolding put_dinode_def by (intro get32_cong put_addrs_out) simp
  have "get32 (put_dinode off ip d) (off + 12 + 4 * i) = i_addrs ip i" if "i \<le> NDIRECT" for i
    unfolding put_dinode_def using that by (intro get32_put_addrs_in) auto
  then show ?thesis by (simp add: same_dinode_def get_dinode_def low16 low32)
qed

text \<open>The inode block of an inode lies on the disk, outside the log.\<close>

definition iblk_ok :: "'x fsst_scheme \<Rightarrow> u32 \<Rightarrow> bool" where
  "iblk_ok s inum \<longleftrightarrow> fsblk s (IBLOCK inum (sb s))"

lemma iupdate_ok:
  assumes t: "tx {} (Suc r) s" and dev: "i_dev (inodes s i) = 1" and ok: "iblk_ok s (i_inum (inodes s i))"
  defines "k \<equiv> unat (IBLOCK (i_inum (inodes s i)) (sb s))"
  shows "\<exists>u. iupdate i s = Ok ((), u) \<and> tx {} r u \<and> fsame s u \<and>
     bview u = (bview s)(k := put_dinode (dinode_off (i_inum (inodes s i))) (inodes s i) (bview s k))"
proof -
  let ?bn = "IBLOCK (i_inum (inodes s i)) (sb s)"
  let ?d = "put_dinode (dinode_off (i_inum (inodes s i))) (inodes s i) (bview s k)"
  obtain p s1 where p: "bread 1 ?bn s = Ok (p, s1)" "got {} (Suc r) p ?bn s s1"
    using tx_bread [OF t, of ?bn] ok by (auto simp: iblk_ok_def fsblk_def)
  note data = got_data [OF p(2)]
  have t1: "tx (insert p {}) (Suc r) s1" "fsame s s1" "bview s1 = bview s" "b_blockno (bufs s1 p) = ?bn"
    using p(2) same_disk_fsame [of s s1] by (auto simp: got_def)
  have "fsblk s1 (b_blockno (bufs s1 p))" using ok fsblk_same [OF t1(2)] t1(4) by (simp add: iblk_ok_def)
  then obtain u where u: "seqk (buf_write p ?d) (seqk (log_write p) (brelse p)) s1 = Ok ((), u)"
    "tx {} r u" "fsame s1 u" "bview u = (bview s1)(unat (b_blockno (bufs s1 p)) := ?d)"
    using tx_finish [OF t1(1), of ?d] by auto
  have "iupdate i s = Ok ((), u)"
    using u(1) by (simp add: iupdate_def Let_def kern_simps dev p(1) data k_def)
  then show ?thesis using u t1 fsame_trans [OF t1(2) u(3)] by (auto simp: k_def)
qed

text \<open>Loading an inode from the disk.\<close>

lemma inodes_frame:
  fixes s :: "'x fsst_scheme" and g
  shows "cache_ok H (s\<lparr>inodes := g\<rparr>) = cache_ok H s" "bview (s\<lparr>inodes := g\<rparr>) = bview s"
    "dirty_blocks (s\<lparr>inodes := g\<rparr>) = dirty_blocks s" "tx H r (s\<lparr>inodes := g\<rparr>) = tx H r s" "fsblk (s\<lparr>inodes := g\<rparr>) bn = fsblk s bn"
    "log_area (s\<lparr>inodes := g\<rparr>) = log_area s"
proof -
  let ?t = "s\<lparr>inodes := g\<rparr>"
  show c: "cache_ok H ?t = cache_ok H s" for H
    by (simp add: cache_ok_def slot_ok_def list_ok_def lru_def keys_distinct_def)
  show "bview ?t = bview s" by (intro ext bview_cong) (simp_all add: cached_def)
  show d: "dirty_blocks ?t = dirty_blocks s" by (simp add: dirty_blocks_def dirty_bufs_def)
  show a: "log_area ?t = log_area s" by (simp add: log_area_def)
  have "home ?t = home s" by (simp add: home_def fun_eq_iff)
  then show "tx H r ?t = tx H r s" by (simp add: tx_def c d a homes_ok_def log_cfg_def)
  show "fsblk ?t bn = fsblk s bn" by (simp add: fsblk_def a)
qed

lemma same_disk_inodes: "same_disk s t \<Longrightarrow> same_disk (s\<lparr>inodes := g\<rparr>) (t\<lparr>inodes := g\<rparr>)"
  by (cases s; cases t) (simp add: same_disk_def)

lemma got_inodes: "got H r b bn s t \<Longrightarrow> got H r b bn (s\<lparr>inodes := g\<rparr>) (t\<lparr>inodes := g\<rparr>)"
  by (simp add: got_def inodes_frame same_disk_inodes)

lemma ilock_loads:
  assumes t: "tx {} r s" and i: "i_dev (inodes s i) = 1" "iblk_ok s (i_inum (inodes s i))" "1 \<le> i_ref (inodes s i)"
    "\<not> sl_locked (i_lock (inodes s i))" "\<not> i_valid (inodes s i)"
  defines "d \<equiv> bview s (unat (IBLOCK (i_inum (inodes s i)) (sb s)))"
  assumes ty: "get16 d (dinode_off (i_inum (inodes s i))) \<noteq> 0"
  shows "\<exists>u. ilock i s = Ok ((), u) \<and> tx {} r u \<and> bview u = bview s \<and> inodes u = (inodes s)(i :=
     (get_dinode (dinode_off (i_inum (inodes s i))) d (inodes s i))\<lparr>i_valid := True, i_lock := \<lparr>sl_locked = True, sl_pid = curpid s\<rparr>\<rparr>)"
proof -
  let ?ip = "inodes s i" and ?bn = "IBLOCK (i_inum (inodes s i)) (sb s)" and ?l = "\<lparr>sl_locked = True, sl_pid = curpid s\<rparr>"
  let ?off = "dinode_off (i_inum (inodes s i))"
  define s1 where "s1 = s\<lparr>inodes := (inodes s)(i := ?ip\<lparr>i_lock := ?l\<rparr>)\<rparr>"
  have sl: "inode_sleep i s = Ok ((), s1)" using i(4) by (simp add: inode_sleep_def zoomk_def acquiresleep_def lock_upd s1_def)
  have t1: "tx {} r s1" using t by (simp add: s1_def inodes_frame)
  have bn: "unat ?bn < disksize s1" using i(2) by (simp add: iblk_ok_def fsblk_def s1_def)
  obtain p s2 where p: "bread 1 ?bn s1 = Ok (p, s2)" "got {} r p ?bn s1 s2" using tx_bread [OF t1 _ bn] by auto
  have v1: "bview s1 = bview s" by (simp add: s1_def inodes_frame)
  have data: "buf_data p s2 = Ok (d, s2)" using got_data [OF p(2)] v1 by (simp add: d_def)
  have "fsame s1 s2" using p(2) same_disk_fsame [of s1 s2] by (simp add: got_def)
  then have in2: "inodes s2 = inodes s1" using fsame_fields by blast
  let ?g = "(inodes s2)(i := get_dinode ?off d (inodes s2 i))"
  obtain u where u: "brelse p (s2\<lparr>inodes := ?g\<rparr>) = Ok ((), u)" "tx {} r u" "fsame (s1\<lparr>inodes := ?g\<rparr>) u" "bview u = bview (s1\<lparr>inodes := ?g\<rparr>)"
    using tx_drop [OF got_inodes [OF p(2)], of ?g] t1 by (auto simp: inodes_frame)
  have inu: "inodes u = ?g" using fsame_fields [OF u(3)] by simp
  let ?h = "(inodes u)(i := (inodes u i)\<lparr>i_valid := True\<rparr>)"
  have f1: "\<not> i_valid (inodes s1 i)" "i_dev (inodes s1 i) = 1" "i_inum (inodes s1 i) = i_inum ?ip" "sb s1 = sb s"
    using i(1,5) by (simp_all add: s1_def)
  have "i_type (get_dinode ?off d (inodes s1 i)) \<noteq> 0" using ty by (simp add: get_dinode_def)
  then have "ilock i s = Ok ((), u\<lparr>inodes := ?h\<rparr>)"
    using i(3) by (simp add: ilock_def kern_simps sl Let_def f1 p(1) data upd_inode_def u(1)) (simp add: inu in2)
  moreover have "?h = (inodes s)(i := (get_dinode ?off d ?ip)\<lparr>i_valid := True, i_lock := ?l\<rparr>)"
    by (simp add: inu in2 s1_def get_dinode_def fun_eq_iff)
  moreover have "tx {} r (u\<lparr>inodes := ?h\<rparr>)" "bview (u\<lparr>inodes := ?h\<rparr>) = bview s"
    using u(2,4) v1 by (simp_all only: inodes_frame)
  ultimately show ?thesis by (intro exI [of _ "u\<lparr>inodes := ?h\<rparr>"]) simp
qed

end
