(* ===== verification/Fs_Props.thy ===== *)
theory Fs_Props
  imports Fs_Blocks
begin

text \<open>
  Properties of the file system's own operations: the block allocator, inodes on the disk and in the cache, and path names.
\<close>

section \<open>An example\<close>

text \<open>
  A freshly booted system inside a transaction: 1000 blocks, the log from block 2, inodes from block 32, the free map
  in block 58, the first 64 blocks in use.
\<close>

definition ex_sb :: superblock where
  "ex_sb = \<lparr>sb_size = 1000, sb_nblocks = 941, sb_ninodes = 200, sb_nlog = 30, sb_logstart = 2, sb_inodestart = 32, sb_bmapstart = 58\<rparr>"

definition ex_map :: bytes where
  "ex_map = (\<lambda>i. if i < 8 then 255 else 0)"

definition ex_inode :: inode where
  "ex_inode = \<lparr>i_dev = 1, i_inum = 5, i_ref = 1, i_lock = \<lparr>sl_locked = False, sl_pid = 0\<rparr>, i_valid = False, i_type = 0, i_major = 0,
     i_minor = 0, i_nlink = 0, i_size = 0, i_addrs = (\<lambda>_. 0)\<rparr>"

definition ex_fboot :: fsst where
  "ex_fboot = \<lparr>bufs = (\<lambda>_. blank_buf), bnext = (\<lambda>_. 0), bprev = (\<lambda>_. 0),
     disk = (\<lambda>k. if k = 58 then ex_map else (\<lambda>_. 0)), disksize = 1000, writes = [],
     curpid = 1, log_start = 2, log_size = 30, log_outstanding = 1, log_committing = False, log_dev = 1, lh_n = 0,
     lh_block = (\<lambda>_. 0), sb = ex_sb, inodes = (\<lambda>i. if i = 0 then ex_inode\<lparr>i_valid := True, i_type := 2, i_size := 77\<rparr> else ex_inode),
     devsw = (\<lambda>_. \<lparr>dev_read = None, dev_write = None\<rparr>), mycwd = 0\<rparr>"

definition ex_fs :: fsst where
  "ex_fs = (case binit ex_fboot of Ok (_, t) \<Rightarrow> t | _ \<Rightarrow> ex_fboot)"

lemma ex_fs_facts:
  "cache_ok {} ex_fs" "\<forall>i. bufs ex_fs i = blank_buf" "disk ex_fs = disk ex_fboot" "disksize ex_fs = 1000"
  "bst.more ex_fs = bst.more ex_fboot" "curpid ex_fs = 1"
proof -
  have "\<forall>i. bufs ex_fboot i = blank_buf" by (simp add: ex_fboot_def)
  then obtain t where t: "binit ex_fboot = Ok ((), t)" "cache_ok {} t" "\<forall>i. bufs t i = blank_buf" "same_disk ex_fboot t"
    using binit_ok [of ex_fboot] by blast
  have "ex_fs = t" by (simp add: ex_fs_def t(1))
  then show "cache_ok {} ex_fs" "\<forall>i. bufs ex_fs i = blank_buf" "disk ex_fs = disk ex_fboot" "disksize ex_fs = 1000"
    "bst.more ex_fs = bst.more ex_fboot" "curpid ex_fs = 1"
    using t by (simp_all add: same_disk_def ex_fboot_def)
qed

lemma ex_fs_log: "log_start ex_fs = 2" "log_size ex_fs = 30" "log_outstanding ex_fs = 1" "log_dev ex_fs = 1" "lh_n ex_fs = 0"
  using log_frame [OF ex_fs_facts(5)] by (simp_all add: ex_fboot_def)

lemma ex_fs_fs: "sb ex_fs = ex_sb" "inodes ex_fs = inodes ex_fboot"
proof -
  have "lst.more ex_fs = lst.more ex_fboot" using log_frame [OF ex_fs_facts(5)] by simp
  from fs_frame [OF this] show "sb ex_fs = ex_sb" "inodes ex_fs = inodes ex_fboot" by (simp_all add: ex_fboot_def)
qed

lemma ex_fs_tx: "r \<le> 29 \<Longrightarrow> tx {} r ex_fs"
proof -
  assume "r \<le> 29"
  moreover have "dirty_blocks ex_fs = {}" using ex_fs_facts(2) by (simp add: dirty_blocks_def dirty_bufs_def blank_buf_def)
  ultimately show ?thesis using ex_fs_facts ex_fs_log by (simp add: tx_def log_cfg_def homes_ok_def)
qed

lemma ex_fs_view: "bview ex_fs k = (if k = 58 then ex_map else (\<lambda>_. 0))"
proof -
  have "bview ex_fs k = disk ex_fs k" using ex_fs_facts(2) by (intro bview_uncached) (simp add: cached_def blank_buf_def)
  then show ?thesis by (simp add: ex_fs_facts ex_fboot_def)
qed

lemma ex_fs_size: "fs_size ex_fs = 1000"
  by (simp add: fs_size_def ex_fs_fs ex_sb_def)

lemma ex_fs_map: "map_ok ex_fs"
  by (auto simp: map_ok_def ex_fs_size ex_fs_fs ex_sb_def ex_fs_facts log_area_def ex_fs_log BPB_def)

lemma ex_fs_used: "b < 1000 \<Longrightarrow> used ex_fs b = (b < 64)"
proof -
  assume b: "b < 1000"
  have blk: "bmblk ex_fs b = 58" using bmblk_eq(1) [OF ex_fs_map, of b] b by (simp add: ex_fs_size ex_fs_fs ex_sb_def BPB_def)
  have full: "bit (255 :: u8) (b mod 8)"
  proof -
    have "(255 :: u8) = mask 8" by (simp add: mask_eq_exp_minus_1)
    then show ?thesis by (simp only: bit_mask_iff) simp
  qed
  have "used ex_fs b = bit (ex_map (b div 8)) (b mod 8)"
    using b by (simp add: used_def bit_clear_iff blk ex_fs_view BPB_def mod_mod_cancel)
  also have "\<dots> = (b < 64)" using full by (simp add: ex_map_def) linarith
  finally show ?thesis .
qed

lemma ex_fs_meta: "meta_used ex_fs"
  using bmblk_eq(1) [OF ex_fs_map]
  by (auto simp: meta_used_def ex_fs_size ex_fs_used log_area_def ex_fs_log ex_fs_fs ex_sb_def BPB_def)

section \<open>Blocks\<close>

text \<open>\<open>balloc\<close> inside a transaction with space for two more blocks returns the first free block, zeroed and marked as used; no other block
  outside the free map changes and no other block changes its status.
\<close>

theorem balloc_allocates_first_free:
  assumes "tx {} (Suc (Suc r)) s" "map_ok s" "meta_used s" "a < fs_size s" "\<not> used s a" "\<forall>k < a. used s k"
  shows "\<exists>t. balloc 1 s = Ok (of_nat a, t) \<and> tx {} r t \<and> bview t a = (\<lambda>_. 0) \<and>
    (\<forall>b < fs_size s. used t b = (b = a \<or> used s b)) \<and> (\<forall>k. k \<noteq> a \<longrightarrow> k \<noteq> bmblk s a \<longrightarrow> bview t k = bview s k)"
proof -
  obtain c t where t: "balloc 1 s = Ok (of_nat c, t)" "tx {} r t" "allocated c s t"
    using balloc_ok [OF assms(1,2,3)] assms(4,5) by fastforce
  then have "c = a" using assms(5,6) by (auto simp: allocated_def) (metis linorder_neqE_nat)
  then show ?thesis using t by (auto simp: allocated_def)
qed

theorem balloc_allocates_first_free_witness:
  "\<exists>t. balloc 1 ex_fs = Ok (64, t) \<and> used t 64 \<and> used t 5 \<and> \<not> used t 65"
proof -
  have "\<exists>t. balloc 1 ex_fs = Ok (of_nat 64, t) \<and> tx {} 8 t \<and> bview t 64 = (\<lambda>_. 0) \<and>
    (\<forall>b < fs_size ex_fs. used t b = (b = 64 \<or> used ex_fs b)) \<and> (\<forall>k. k \<noteq> 64 \<longrightarrow> k \<noteq> bmblk ex_fs 64 \<longrightarrow> bview t k = bview ex_fs k)"
    by (rule balloc_allocates_first_free) (simp_all add: ex_fs_tx ex_fs_map ex_fs_meta ex_fs_size ex_fs_used)
  then show ?thesis using ex_fs_used by (auto simp: ex_fs_size)
qed

text \<open>
  \<open>bfree\<close> of a block in use clears its bit, leaves every other bit and every block outside the free map alone, and needs one
  block of log space; freeing a free block is caught.
\<close>

theorem bfree_frees:
  assumes "tx {} (Suc r) s" "map_ok s" "unat b < fs_size s"
  shows "if used s (unat b)
    then \<exists>t. bfree 1 b s = Ok ((), t) \<and> tx {} r t \<and>
      (\<forall>b' < fs_size s. used t b' = (b' \<noteq> unat b \<and> used s b')) \<and> (\<forall>k. k \<noteq> bmblk s (unat b) \<longrightarrow> bview t k = bview s k)
    else bfree 1 b s = Panic ''freeing free block''"
  using bfree_ok [OF assms] by (auto split: if_splits)

theorem bfree_frees_witness:
  "(\<exists>t. bfree 1 60 ex_fs = Ok ((), t) \<and> \<not> used t 60 \<and> used t 61) \<and> bfree 1 70 ex_fs = Panic ''freeing free block''"
proof
  show "\<exists>t. bfree 1 60 ex_fs = Ok ((), t) \<and> \<not> used t 60 \<and> used t 61"
    using bfree_frees [of 0 ex_fs 60] by (auto simp: ex_fs_tx ex_fs_map ex_fs_size ex_fs_used)
  show "bfree 1 70 ex_fs = Panic ''freeing free block''"
    using bfree_frees [of 0 ex_fs 70] by (simp add: ex_fs_tx ex_fs_map ex_fs_size ex_fs_used)
qed

section \<open>Inodes\<close>

text \<open>
  an inode survives the trip to the disk.  After \<open>iupdate\<close> of a cached inode, \<open>ilock\<close> of any other, not yet loaded cache entry for the same
  inode number gives an inode with the same type, device numbers, link count, size and block addresses; the other
  inodes of the block keep their contents.
\<close>

theorem inode_roundtrip:
  assumes "tx {} (Suc r) s" "i_dev (inodes s i) = 1" "iblk_ok s (i_inum (inodes s i))" "i_type (inodes s i) \<noteq> 0"
    and "j \<noteq> i" "i_dev (inodes s j) = 1" "i_inum (inodes s j) = i_inum (inodes s i)" "1 \<le> i_ref (inodes s j)"
      "\<not> sl_locked (i_lock (inodes s j))" "\<not> i_valid (inodes s j)"
  shows "\<exists>t u. iupdate i s = Ok ((), t) \<and> ilock j t = Ok ((), u) \<and> i_valid (inodes u j) \<and> same_dinode (inodes u j) (inodes s i) \<and>
    (\<forall>m ip. IBLOCK m (sb s) = IBLOCK (i_inum (inodes s i)) (sb s) \<longrightarrow> dinode_off m \<noteq> dinode_off (i_inum (inodes s i)) \<longrightarrow>
       get_dinode (dinode_off m) (bview u (unat (IBLOCK m (sb s)))) ip = get_dinode (dinode_off m) (bview s (unat (IBLOCK m (sb s)))) ip)"
proof -
  let ?n = "i_inum (inodes s i)" and ?k = "unat (IBLOCK (i_inum (inodes s i)) (sb s))"
  let ?d = "put_dinode (dinode_off ?n) (inodes s i) (bview s ?k)"
  obtain t where t: "iupdate i s = Ok ((), t)" "tx {} r t" "fsame s t" "bview t = (bview s)(?k := ?d)"
    using iupdate_ok [OF assms(1,2,3)] by blast
  note f = fsame_fields [OF t(3)]
  have iok: "iblk_ok t (i_inum (inodes t j))" using assms(3,7) f fsblk_same [OF t(3)] by (simp add: iblk_ok_def)
  have vd: "bview t (unat (IBLOCK (i_inum (inodes t j)) (sb t))) = ?d" using t(4) f assms(7) by simp
  have sd: "same_dinode (get_dinode (dinode_off ?n) ?d ip') (inodes s i)" for ip' by (rule get_put_dinode)
  have ty: "get16 (bview t (unat (IBLOCK (i_inum (inodes t j)) (sb t)))) (dinode_off (i_inum (inodes t j))) \<noteq> 0"
    unfolding vd using sd [of "inodes s i"] f assms(4,7) by (simp add: same_dinode_def get_dinode_def)
  obtain u where u: "ilock j t = Ok ((), u)" "bview u = bview t"
    "inodes u = (inodes t)(j := (get_dinode (dinode_off ?n) ?d (inodes t j))\<lparr>i_valid := True, i_lock := \<lparr>sl_locked = True, sl_pid = curpid t\<rparr>\<rparr>)"
    using ilock_loads [OF t(2) _ iok _ _ _ ty] assms f vd by auto
  have "same_dinode (inodes u j) (inodes s i)" using sd [of "inodes t j"] u(3) by (simp add: same_dinode_def)
  moreover have "get_dinode (dinode_off m) (bview u ?k) ip = get_dinode (dinode_off m) (bview s ?k) ip"
    if "dinode_off m \<noteq> dinode_off ?n" for m ip
  proof -
    have "dinode_off m + 64 \<le> dinode_off ?n \<or> dinode_off ?n + 64 \<le> dinode_off m" using that by (auto simp: dinode_off_def)
    then have same: "\<And>k. dinode_off m \<le> k \<Longrightarrow> k < dinode_off m + 64 \<Longrightarrow> ?d k = bview s ?k k" by (auto intro: put_dinode_out)
    have "get16 ?d (dinode_off m + c) = get16 (bview s ?k) (dinode_off m + c)" if "c + 2 \<le> 64" for c
      using that by (intro get16_cong same) auto
    from this [of 0] this [of 2] this [of 4] this [of 6]
    have g16: "get16 ?d (dinode_off m) = get16 (bview s ?k) (dinode_off m)" "get16 ?d (dinode_off m + 2) = get16 (bview s ?k) (dinode_off m + 2)"
      "get16 ?d (dinode_off m + 4) = get16 (bview s ?k) (dinode_off m + 4)" "get16 ?d (dinode_off m + 6) = get16 (bview s ?k) (dinode_off m + 6)"
      by simp_all
    have g32: "get32 ?d (dinode_off m + c) = get32 (bview s ?k) (dinode_off m + c)" if "c + 4 \<le> 64" for c
      using that by (intro get32_cong same) auto
    have "get32 ?d (dinode_off m + 12 + 4 * q) = get32 (bview s ?k) (dinode_off m + 12 + 4 * q)" if "q \<le> NDIRECT" for q
      using g32 [of "12 + 4 * q"] that by (simp add: NDIRECT_def add.assoc)
    then show ?thesis using g16 g32 [of 8] by (simp add: u(2) t(4) get_dinode_def fun_eq_iff)
  qed
  ultimately show ?thesis using t(1) u by (intro exI [of _ t] exI [of _ u]) auto
qed

theorem inode_roundtrip_witness:
  "\<exists>t u. iupdate 0 ex_fs = Ok ((), t) \<and> ilock 2 t = Ok ((), u) \<and> i_type (inodes u 2) = 2 \<and> i_size (inodes u 2) = 77"
proof -
  have ip: "inodes ex_fs 0 = ex_inode\<lparr>i_valid := True, i_type := 2, i_size := 77\<rparr>" "inodes ex_fs 2 = ex_inode"
    by (simp_all add: ex_fs_fs ex_fboot_def)
  have blk: "iblk_ok ex_fs (i_inum (inodes ex_fs 0))"
    unfolding ip by (simp add: iblk_ok_def fsblk_def IBLOCK_def IPB_def ex_inode_def ex_fs_fs(1) ex_sb_def ex_fs_facts log_area_def ex_fs_log)
  obtain t u where "iupdate 0 ex_fs = Ok ((), t)" "ilock 2 t = Ok ((), u)" "same_dinode (inodes u 2) (inodes ex_fs 0)"
    using inode_roundtrip [OF ex_fs_tx, of 0 0 2] blk by (auto simp: ip ex_inode_def)
  then show ?thesis by (auto simp: same_dinode_def ip)
qed

text \<open>The inode cache: an inode has at most one entry in use.\<close>

definition icache_ok :: "'x fsst_scheme \<Rightarrow> bool" where
  "icache_ok s \<longleftrightarrow> (\<forall>i < NINODE. 0 \<le> i_ref (inodes s i)) \<and>
     (\<forall>i < NINODE. \<forall>j < NINODE. 0 < i_ref (inodes s i) \<longrightarrow> 0 < i_ref (inodes s j) \<longrightarrow>
        i_dev (inodes s i) = i_dev (inodes s j) \<longrightarrow> i_inum (inodes s i) = i_inum (inodes s j) \<longrightarrow> i = j)"

lemma find_upt_Some: "find P [0 ..< n] = Some i \<Longrightarrow> i < n \<and> P i"
  by (auto simp: find_Some_iff)

lemma find_upt_None: "find P [0 ..< n] = None \<Longrightarrow> i < n \<Longrightarrow> \<not> P i"
  by (auto simp: find_None_iff)

text \<open>
  \<open>iget\<close> keeps the inode cache free of duplicate entries, returns the entry of the inode with one more reference, and keeps the
  entries in use apart from that; it gives up only when the inode is not cached and all entries are in use.
\<close>

theorem iget_one_entry_per_inode:
  assumes ok: "icache_ok s"
  shows "(\<exists>i t. iget dev inum s = Ok (i, t) \<and> i < NINODE \<and> icache_ok t \<and> i_dev (inodes t i) = dev \<and> i_inum (inodes t i) = inum \<and>
      i_ref (inodes t i) = i_ref (inodes s i) + 1 \<and> (\<forall>j. j \<noteq> i \<longrightarrow> inodes t j = inodes s j) \<and>
      (0 < i_ref (inodes s i) \<longrightarrow> inodes t i = (inodes s i)\<lparr>i_ref := i_ref (inodes s i) + 1\<rparr>)) \<or>
    (iget dev inum s = Panic ''iget: no inodes'' \<and> (\<forall>i < NINODE. 0 < i_ref (inodes s i) \<and>
      (i_dev (inodes s i) \<noteq> dev \<or> i_inum (inodes s i) \<noteq> inum)))"
proof -
  let ?P = "\<lambda>i. i_ref (inodes s i) > 0 \<and> i_dev (inodes s i) = dev \<and> i_inum (inodes s i) = inum"
  let ?Q = "\<lambda>i. i_ref (inodes s i) = 0"
  show ?thesis
  proof (cases "find ?P [0 ..< NINODE]")
    case (Some i)
    let ?t = "s\<lparr>inodes := (inodes s)(i := (inodes s i)\<lparr>i_ref := i_ref (inodes s i) + 1\<rparr>)\<rparr>"
    have i: "i < NINODE" "?P i" using find_upt_Some [OF Some] by auto
    have "iget dev inum s = Ok (i, ?t)" by (simp add: iget_def Some kern_simps upd_inode_def)
    moreover have "icache_ok ?t" using ok i unfolding icache_ok_def by (auto split: if_splits)
    ultimately show ?thesis using i by (intro disjI1 exI [of _ i] exI [of _ ?t]) simp
  next
    case None
    note nP = find_upt_None [OF None]
    show ?thesis
    proof (cases "find ?Q [0 ..< NINODE]")
      case (Some i)
      let ?t = "s\<lparr>inodes := (inodes s)(i := (inodes s i)\<lparr>i_dev := dev, i_inum := inum, i_ref := 1, i_valid := False\<rparr>)\<rparr>"
      have i: "i < NINODE" "?Q i" using find_upt_Some [OF Some] by auto
      have "iget dev inum s = Ok (i, ?t)" by (simp add: iget_def None Some kern_simps upd_inode_def)
      moreover have "icache_ok ?t" using ok i nP unfolding icache_ok_def by (auto split: if_splits)
      ultimately show ?thesis using i by (intro disjI1 exI [of _ i] exI [of _ ?t]) simp
    next
      case none: None
      have "iget dev inum s = Panic ''iget: no inodes''" by (simp add: iget_def None none)
      moreover have "0 < i_ref (inodes s i)" if "i < NINODE" for i
        using find_upt_None [OF none that] ok that unfolding icache_ok_def by (metis order_le_less)
      ultimately show ?thesis using nP by blast
    qed
  qed
qed

theorem iget_one_entry_per_inode_witness:
  "\<exists>i t. iget 1 7 (ex_fs\<lparr>inodes := (\<lambda>_. ex_inode\<lparr>i_ref := 0\<rparr>)\<rparr>) = Ok (i, t) \<and> i_inum (inodes t i) = 7 \<and> i_ref (inodes t i) = 1"
proof -
  let ?s = "ex_fs\<lparr>inodes := (\<lambda>_. ex_inode\<lparr>i_ref := 0\<rparr>)\<rparr>"
  have "icache_ok ?s" by (simp add: icache_ok_def ex_inode_def)
  moreover have "\<not> (\<forall>i < NINODE. 0 < i_ref (inodes ?s i))" by (auto simp: ex_inode_def NINODE_def intro: exI [of _ 0])
  ultimately show ?thesis using iget_one_entry_per_inode [of ?s 1 7] by (auto simp: ex_inode_def)
qed

section \<open>Paths\<close>

text \<open>Reference: the non-empty pieces between slashes.\<close>

fun splits :: "u8 list \<Rightarrow> u8 list list" where
  "splits [] = [[]]"
| "splits (c # cs) = (if c = slash then [] # splits cs else (c # hd (splits cs)) # tl (splits cs))"

definition path_elems :: "u8 list \<Rightarrow> u8 list list" where
  "path_elems p = filter (\<lambda>e. e \<noteq> []) (splits p)"

text \<open>The names that the loop of \<open>namex\<close> looks up, as it calls \<open>skipelem\<close> on what is left of the path.\<close>

function walk :: "u8 list \<Rightarrow> bytes \<Rightarrow> bytes list" where
  "walk path nm = (case skipelem path nm of None \<Rightarrow> [] | Some (p, n) \<Rightarrow> n # walk p n)"
  by auto
termination by (relation "measure (\<lambda>(path, nm). length path)") (auto dest: skipelem_shorter)

declare walk.simps [simp del]

definition cname :: "bytes \<Rightarrow> u8 list" where
  "cname n = takeWhile (\<lambda>c. c \<noteq> 0) (map n [0 ..< DIRSIZ])"

lemma splits_not_Nil [simp]: "splits p \<noteq> []"
  by (cases p) auto

lemma splits_elem:
  "splits p = takeWhile (\<lambda>c. c \<noteq> slash) p #
     (case dropWhile (\<lambda>c. c \<noteq> slash) p of [] \<Rightarrow> [] | _ # r \<Rightarrow> splits r)"
  by (induction p) (auto split: list.splits)

lemma path_elems_skip: "path_elems (skip_slashes p) = path_elems p"
  by (induction p) (auto simp: path_elems_def skip_slashes_def)

lemma path_elems_step:
  assumes "skip_slashes p = q" "q \<noteq> []"
  shows "path_elems p = takeWhile (\<lambda>c. c \<noteq> slash) q # path_elems (dropWhile (\<lambda>c. c \<noteq> slash) q)"
proof -
  have "hd q \<noteq> slash" using assms hd_dropWhile [of "\<lambda>c. c = slash" p] by (auto simp: skip_slashes_def)
  then have ne: "takeWhile (\<lambda>c. c \<noteq> slash) q \<noteq> []" using assms(2) by (cases q) auto
  let ?r = "dropWhile (\<lambda>c. c \<noteq> slash) q"
  have "path_elems q = takeWhile (\<lambda>c. c \<noteq> slash) q # path_elems ?r"
  proof (cases ?r)
    case Nil
    show ?thesis using ne splits_elem [of q] unfolding path_elems_def Nil by simp
  next
    case (Cons c r)
    then have "c = slash" using hd_dropWhile [of "\<lambda>c. c \<noteq> slash" q] by auto
    then show ?thesis using ne splits_elem [of q] unfolding path_elems_def Cons by simp
  qed
  then show ?thesis using path_elems_skip [of p] assms(1) by simp
qed

lemma cname_copied:
  fixes nm :: bytes
  assumes "0 \<notin> set e"
  defines "src \<equiv> (\<lambda>k. if k < length e then e ! k else 0)"
  shows "cname (if DIRSIZ \<le> length e then copy_bytes nm 0 src 0 DIRSIZ
      else (copy_bytes nm 0 src 0 (length e))(length e := 0)) = take DIRSIZ e"
proof (cases "DIRSIZ \<le> length e")
  case True
  have "map (copy_bytes nm 0 src 0 DIRSIZ) [0 ..< DIRSIZ] = take DIRSIZ e"
    using True by (intro nth_equalityI) (auto simp: copy_bytes_def src_def)
  moreover have "takeWhile (\<lambda>c. c \<noteq> 0) (take DIRSIZ e) = take DIRSIZ e"
    using assms(1) by (intro takeWhile_eq_all_conv [THEN iffD2]) (auto dest: in_set_takeD)
  ultimately show ?thesis using True by (simp add: cname_def)
next
  case False
  let ?n = "(copy_bytes nm 0 src 0 (length e))(length e := 0)"
  have l: "length e < DIRSIZ" using False by simp
  have "[0 ..< DIRSIZ] = [0 ..< length e] @ [length e ..< DIRSIZ]"
    using upt_add_eq_append [of 0 "length e" "DIRSIZ - length e"] l by (simp only: le_add_diff_inverse less_imp_le add_0 zero_le)
  also have "[length e ..< DIRSIZ] = length e # [Suc (length e) ..< DIRSIZ]" by (rule upt_conv_Cons [OF l])
  finally have A: "[0 ..< DIRSIZ] = [0 ..< length e] @ length e # [Suc (length e) ..< DIRSIZ]" .
  have B: "map ?n [0 ..< length e] = e" by (rule nth_equalityI) (auto simp: copy_bytes_def src_def)
  have "map ?n [0 ..< DIRSIZ] = e @ 0 # map ?n [Suc (length e) ..< DIRSIZ]"
    unfolding A map_append list.map B fun_upd_same ..
  moreover have "\<forall>c \<in> set e. c \<noteq> 0" using assms(1) by auto
  ultimately have "cname ?n = e" unfolding cname_def by (simp add: takeWhile_append2)
  then show ?thesis using False by simp
qed

text \<open>
  The path parser.  Repeated \<open>skipelem\<close> yields exactly the non-empty pieces of the path between slashes, in order, each
  cut to \<open>DIRSIZ\<close> bytes, and it always comes to an end.
\<close>

theorem skipelem_splits_path:
  assumes "0 \<notin> set path"
  shows "map cname (walk path nm) = map (take DIRSIZ) (path_elems path)"
  using assms
proof (induction path nm rule: walk.induct)
  case (1 path nm)
  let ?q = "skip_slashes path"
  show ?case
  proof (cases "?q = []")
    case True
    then have "path_elems path = []" using path_elems_skip [of path] by (simp add: path_elems_def)
    then show ?thesis using True by (simp add: walk.simps [of path] skipelem_def Let_def)
  next
    case False
    let ?e = "takeWhile (\<lambda>c. c \<noteq> slash) ?q" and ?r = "dropWhile (\<lambda>c. c \<noteq> slash) ?q"
    obtain n where sk: "skipelem path nm = Some (skip_slashes ?r, n)" and
      n: "n = (if DIRSIZ \<le> length ?e then copy_bytes nm 0 (\<lambda>k. if k < length ?e then ?e ! k else 0) 0 DIRSIZ
        else (copy_bytes nm 0 (\<lambda>k. if k < length ?e then ?e ! k else 0) 0 (length ?e))(length ?e := 0))"
      using False by (simp add: skipelem_def Let_def)
    have sub: "set (skip_slashes ?r) \<subseteq> set path" "set ?e \<subseteq> set path"
      by (auto simp: skip_slashes_def dest!: set_dropWhileD set_takeWhileD)
    have "map cname (walk (skip_slashes ?r) n) = map (take DIRSIZ) (path_elems (skip_slashes ?r))"
      using 1 sk sub(1) by blast
    moreover have "cname n = take DIRSIZ ?e" unfolding n by (rule cname_copied) (use 1 sub(2) in auto)
    ultimately show ?thesis
      using path_elems_step [OF refl False] path_elems_skip [of ?r] sk by (simp add: walk.simps [of path])
  qed
qed

text \<open>The examples of the comment in \<open>fs.c\<close>: \<open>"///a//bb"\<close> has the elements \<open>"a"\<close> and \<open>"bb"\<close>.\<close>

theorem skipelem_splits_path_witness:
  "map cname (walk [47, 47, 47, 97, 47, 47, 98, 98] (\<lambda>_. 0)) = [[97], [98, 98]]"
  using skipelem_splits_path [of "[47, 47, 47, 97, 47, 47, 98, 98]" "\<lambda>_. 0"]
  by (simp add: path_elems_def slash_def DIRSIZ_def)

end
