(* ===== verification/Fs_Content.thy ===== *)
theory Fs_Content
  imports Fs_Props
begin

text \<open>
  The contents of files: \<open>bmap\<close>, \<open>readi\<close> and \<open>writei\<close> on top of the allocator and the log.  A file is seen as an array of bytes through the
  addresses in its inode and its indirect block.
\<close>

declare readi_loop.simps [simp del] writei_loop.simps [simp del]

section \<open>Files as arrays of bytes\<close>

definition ind :: "'x fsst_scheme \<Rightarrow> nat \<Rightarrow> u32" where
  "ind s i = i_addrs (inodes s i) NDIRECT"

text \<open>The address of block \<open>bn\<close> of a file, 0 when it has none.\<close>

definition baddr :: "'x fsst_scheme \<Rightarrow> nat \<Rightarrow> nat \<Rightarrow> u32" where
  "baddr s i bn = (if bn < NDIRECT then i_addrs (inodes s i) bn
     else if ind s i = 0 then 0 else get32 (bview s (unat (ind s i))) (4 * (bn - NDIRECT)))"

definition fbyte :: "'x fsst_scheme \<Rightarrow> nat \<Rightarrow> nat \<Rightarrow> u8" where
  "fbyte s i k = (let a = baddr s i (k div BSIZE) in if a = 0 then 0 else bview s (unat a) (k mod BSIZE))"

text \<open>The blocks of the log, the free map and the inodes, and block 0.\<close>

definition metablk :: "'x fsst_scheme \<Rightarrow> nat set" where
  "metablk s = {0} \<union> log_area s \<union> bmblk s ` {..< fs_size s} \<union> (\<lambda>n. unat (IBLOCK n (sb s))) ` {n. n < sb_ninodes (sb s)}"

definition mapblk :: "'x fsst_scheme \<Rightarrow> nat set" where
  "mapblk s = bmblk s ` {..< fs_size s}"

definition fs_ok :: "'x fsst_scheme \<Rightarrow> bool" where
  "fs_ok s \<longleftrightarrow> map_ok s \<and> (\<forall>k < fs_size s. k \<in> metablk s \<longrightarrow> used s k) \<and>
     (\<forall>n < sb_ninodes (sb s). iblk_ok s n \<and> unat (IBLOCK n (sb s)) \<notin> mapblk s)"

definition data_block :: "'x fsst_scheme \<Rightarrow> u32 \<Rightarrow> bool" where
  "data_block s a \<longleftrightarrow> unat a < fs_size s \<and> used s (unat a) \<and> unat a \<notin> metablk s"

definition fblocks :: "'x fsst_scheme \<Rightarrow> nat \<Rightarrow> nat set" where
  "fblocks s i = unat ` ({ind s i} \<union> baddr s i ` {..< MAXFILE} - {0})"

definition addrs_ok :: "'x fsst_scheme \<Rightarrow> nat \<Rightarrow> bool" where
  "addrs_ok s i \<longleftrightarrow> i_dev (inodes s i) = 1 \<and> i_inum (inodes s i) < sb_ninodes (sb s) \<and>
     (ind s i \<noteq> 0 \<longrightarrow> data_block s (ind s i)) \<and>
     (\<forall>bn < MAXFILE. baddr s i bn \<noteq> 0 \<longrightarrow> data_block s (baddr s i bn) \<and> baddr s i bn \<noteq> ind s i \<and>
        (\<forall>bn' < MAXFILE. baddr s i bn' = baddr s i bn \<longrightarrow> bn' = bn))"

text \<open>\<open>taken N i s t\<close>: between \<open>s\<close> and \<open>t\<close> the file \<open>i\<close> has taken some of the blocks \<open>N\<close>, and only its own blocks have been written.\<close>

definition taken :: "nat set \<Rightarrow> nat \<Rightarrow> 'x fsst_scheme \<Rightarrow> 'x fsst_scheme \<Rightarrow> bool" where
  "taken N i s t \<longleftrightarrow> sb t = sb s \<and> log_area t = log_area s \<and> disksize t = disksize s \<and> fs_ok t \<and> addrs_ok t i \<and>
     (\<forall>bn < MAXFILE. baddr s i bn \<noteq> 0 \<longrightarrow> baddr t i bn = baddr s i bn) \<and>
     (\<exists>ad. inodes t = (inodes s)(i := (inodes s i)\<lparr>i_addrs := ad\<rparr>)) \<and>
     (\<forall>k < fs_size s. used t k = (used s k \<or> k \<in> N)) \<and> fblocks t i \<subseteq> fblocks s i \<union> N \<and>
     (\<forall>k. k \<notin> mapblk s \<union> fblocks s i \<union> N \<longrightarrow> bview t k = bview s k)"

text \<open>\<open>grown\<close>: moreover the contents of the file are the same.\<close>

definition grown :: "nat set \<Rightarrow> nat \<Rightarrow> 'x fsst_scheme \<Rightarrow> 'x fsst_scheme \<Rightarrow> bool" where
  "grown N i s t \<longleftrightarrow> taken N i s t \<and> (\<forall>k < MAXFILE * BSIZE. fbyte t i k = fbyte s i k)"

lemma metablk_cong: "sb t = sb s \<Longrightarrow> log_area t = log_area s \<Longrightarrow> metablk t = metablk s"
  by (simp add: metablk_def bmblk_def fs_size_def)

lemma fs_size_cong: "sb t = sb s \<Longrightarrow> fs_size t = fs_size s"
  by (simp add: fs_size_def)

lemma fs_ok_cong:
  assumes "fs_ok s" "sb t = sb s" "log_area t = log_area s" "disksize t = disksize s" "\<And>k. k < fs_size s \<Longrightarrow> used s k \<Longrightarrow> used t k"
  shows "fs_ok t"
proof -
  have b: "bmblk t = bmblk s" by (simp add: bmblk_def assms(2) fun_eq_iff)
  have z: "map_ok t = map_ok s" "fs_size t = fs_size s" using assms(2-4) by (simp_all add: map_ok_def fs_size_def)
  then have "mapblk t = mapblk s" by (simp add: mapblk_def b)
  then show ?thesis using z assms metablk_cong [OF assms(2,3)] by (simp add: fs_ok_def iblk_ok_def fsblk_def)
qed

lemma fs_ok_meta: "fs_ok s \<Longrightarrow> map_ok s \<and> meta_used s"
  by (auto simp: fs_ok_def meta_used_def metablk_def)

lemma data_block_fsblk: "fs_ok s \<Longrightarrow> data_block s a \<Longrightarrow> fsblk s a"
  by (auto simp: data_block_def fsblk_def metablk_def fs_ok_def map_ok_def)

lemma data_block_apart:
  assumes "data_block s a" shows "a \<noteq> 0" "b < fs_size s \<Longrightarrow> bmblk s b \<noteq> unat a" "n < sb_ninodes (sb s) \<Longrightarrow> IBLOCK n (sb s) \<noteq> a"
  using assms by (force simp: data_block_def metablk_def)+

lemma baddr_cong:
  assumes "i_addrs (inodes t i) = i_addrs (inodes s i)" "ind s i \<noteq> 0 \<Longrightarrow> bview t (unat (ind s i)) = bview s (unat (ind s i))"
  shows "ind t i = ind s i" "baddr t i = baddr s i" "fblocks t i = fblocks s i"
proof -
  show d: "ind t i = ind s i" by (simp add: ind_def assms(1))
  show b: "baddr t i = baddr s i" using assms(2) unfolding baddr_def d assms(1) by auto
  show "fblocks t i = fblocks s i" by (simp add: fblocks_def b d)
qed

lemma addrs_ok_cong:
  assumes "addrs_ok s i" "ind t i = ind s i" "baddr t i = baddr s i" "sb t = sb s" "log_area t = log_area s"
    "i_dev (inodes t i) = i_dev (inodes s i)" "i_inum (inodes t i) = i_inum (inodes s i)"
    "\<And>k. k < fs_size s \<Longrightarrow> used s k \<Longrightarrow> used t k"
  shows "addrs_ok t i"
proof -
  have "data_block s a \<Longrightarrow> data_block t a" for a
    using assms(8) metablk_cong [OF assms(4,5)] fs_size_cong [OF assms(4)] by (simp add: data_block_def)
  then show ?thesis using assms(1) by (simp add: addrs_ok_def assms(2-7))
qed

lemma addrs_ok_blocks: "addrs_ok s i \<Longrightarrow> k \<in> fblocks s i \<Longrightarrow> k < fs_size s \<and> used s k \<and> k \<notin> metablk s"
  by (auto simp: addrs_ok_def fblocks_def data_block_def)

lemma in_fblocks:
  "ind s i \<noteq> 0 \<Longrightarrow> unat (ind s i) \<in> fblocks s i" "bn < MAXFILE \<Longrightarrow> baddr s i bn \<noteq> 0 \<Longrightarrow> unat (baddr s i bn) \<in> fblocks s i"
  by (auto simp: fblocks_def)

lemma used_same_map:
  assumes "sb t = sb s" "\<And>b. b < fs_size s \<Longrightarrow> bview t (bmblk s b) = bview s (bmblk s b)" "k < fs_size s"
  shows "used t k = used s k"
  using assms(2) [OF assms(3)] by (simp add: used_def bmblk_def assms(1))

lemma fbyte_block:
  "k < MAXFILE * BSIZE \<Longrightarrow> k div BSIZE < MAXFILE"
  by (simp add: BSIZE_def less_mult_imp_div_less)

lemma taken_trans:
  assumes "taken N i s t" "taken M i t u" shows "taken (N \<union> M) i s u"
proof -
  have m: "mapblk t = mapblk s" "fs_size t = fs_size s" using assms(1) by (auto simp: taken_def fs_size_def mapblk_def bmblk_def)
  have "fblocks u i \<subseteq> fblocks s i \<union> (N \<union> M)" using assms by (auto simp: taken_def)
  moreover have "bview u k = bview s k" if "k \<notin> mapblk s \<union> fblocks s i \<union> (N \<union> M)" for k
  proof -
    have "k \<notin> fblocks t i" using assms(1) that by (auto simp: taken_def)
    then show ?thesis using assms that by (simp add: taken_def m)
  qed
  moreover have "\<exists>ad. inodes u = (inodes s)(i := (inodes s i)\<lparr>i_addrs := ad\<rparr>)" using assms by (auto simp: taken_def)
  moreover have "baddr u i bn = baddr s i bn" if "bn < MAXFILE" "baddr s i bn \<noteq> 0" for bn using assms that by (simp add: taken_def)
  moreover have "used u k = (used s k \<or> k \<in> N \<union> M)" if "k < fs_size s" for k using assms that m by (auto simp: taken_def)
  ultimately show ?thesis using assms by (simp add: taken_def)
qed

lemma grown_trans: "grown N i s t \<Longrightarrow> grown M i t u \<Longrightarrow> grown (N \<union> M) i s u"
  using taken_trans by (auto simp: grown_def)

lemma taken_ok: "taken N i s t \<Longrightarrow> fs_ok t \<and> addrs_ok t i" and grown_ok: "grown N i s t \<Longrightarrow> fs_ok t \<and> addrs_ok t i"
  by (simp_all add: taken_def grown_def)

section \<open>Taking a block\<close>

text \<open>A block fresh from \<open>balloc\<close>.\<close>

definition fresh :: "'x fsst_scheme \<Rightarrow> nat \<Rightarrow> u32 \<Rightarrow> bool" where
  "fresh s i x \<longleftrightarrow> data_block s x \<and> unat x \<notin> fblocks s i \<and> bview s (unat x) = (\<lambda>_. 0)"

lemma alloc_grown:
  assumes "fs_ok s" "addrs_ok s i" "allocated a s u" "fsame s u"
  shows "grown {a} i s u" "fresh u i (of_nat a)" "unat (of_nat a :: u32) = a"
proof -
  have f: "sb u = sb s" "inodes u = inodes s" "log_area u = log_area s" "disksize u = disksize s"
    using fsame_fields [OF assms(4)] fsame_area [OF assms(4)] assms(4) by (simp_all add: fsame_def)
  have a: "a < fs_size s" "\<not> used s a" "\<And>b. b < fs_size s \<Longrightarrow> used u b = (b = a \<or> used s b)" "bview u a = (\<lambda>_. 0)"
    "\<And>k. k \<noteq> a \<Longrightarrow> k \<noteq> bmblk s a \<Longrightarrow> bview u k = bview s k" using assms(3) by (auto simp: allocated_def)
  have na: "a \<notin> metablk s" "a \<notin> fblocks s i" using a(1,2) assms(1) addrs_ok_blocks [OF assms(2)] by (auto simp: fs_ok_def)
  have bm: "bmblk s a \<in> metablk s" using a(1) by (auto simp: metablk_def)
  have keep: "bview u k = bview s k" if "k \<in> fblocks s i" for k
    using a(5) [of k] that na(2) bm addrs_ok_blocks [OF assms(2) that] by auto
  have b: "ind u i = ind s i" "baddr u i = baddr s i" "fblocks u i = fblocks s i"
    by (rule baddr_cong; use keep in_fblocks(1) f(2) in auto)+
  have "fs_ok u" by (rule fs_ok_cong [OF assms(1) f(1,3,4)]) (simp add: a(3))
  moreover have "addrs_ok u i" by (rule addrs_ok_cong [OF assms(2) b(1,2) f(1,3)]) (simp_all add: a(3) f(2))
  moreover have "fbyte u i k = fbyte s i k" if "k < MAXFILE * BSIZE" for k
    using keep [OF in_fblocks(2) [OF fbyte_block [OF that]]] by (simp add: fbyte_def b(2) Let_def)
  moreover have "bview u k = bview s k" if "k \<notin> mapblk s \<union> fblocks s i \<union> {a}" for k using a(1,5) that by (auto simp: mapblk_def)
  ultimately show "grown {a} i s u" using f b a(3) by (auto simp: grown_def taken_def intro: exI [of _ "i_addrs (inodes s i)"])
  have "a < 2 ^ 32" using a(1) assms(1) by (simp add: fs_ok_def map_ok_def)
  then show u: "unat (of_nat a :: u32) = a" by (simp add: unat_of_nat)
  show "fresh u i (of_nat a)"
    using a na b(3) fs_size_cong [OF f(1)] metablk_cong [OF f(1,3)] unfolding fresh_def data_block_def u by simp
qed

text \<open>A fresh block becomes block \<open>bn\<close> of the file; at most the indirect block changes.\<close>

lemma add_block:
  assumes ok: "fs_ok u" "addrs_ok u i" "fresh u i x" and bn: "bn < MAXFILE" "baddr u i bn = 0"
    and f: "sb t = sb u" "log_area t = log_area u" "disksize t = disksize u" "inodes t = (inodes u)(i := (inodes u i)\<lparr>i_addrs := ad\<rparr>)"
    and d: "ind t i = ind u i" "\<And>b. b < MAXFILE \<Longrightarrow> baddr t i b = (if b = bn then x else baddr u i b)"
    and v: "\<And>k. ind u i = 0 \<or> k \<noteq> unat (ind u i) \<Longrightarrow> bview t k = bview u k"
  shows "grown {unat x} i u t"
proof -
  have x: "data_block u x" "unat x \<notin> fblocks u i" "bview u (unat x) = (\<lambda>_. 0)" using ok(3) by (auto simp: fresh_def)
  have ne: "ind u i \<noteq> 0 \<Longrightarrow> ind u i \<noteq> x" "\<And>b. b < MAXFILE \<Longrightarrow> baddr u i b \<noteq> x"
    using x(2) data_block_apart(1) [OF x(1)] by (auto simp: fblocks_def)
  have us: "used t k = used u k" if "k < fs_size u" for k
  proof (rule used_same_map [OF f(1) _ that])
    fix b assume "b < fs_size u"
    then show "bview t (bmblk u b) = bview u (bmblk u b)" using v ok(2) data_block_apart(2) [of u "ind u i" b] by (auto simp: addrs_ok_def)
  qed
  have db: "data_block t a = data_block u a" for a
    using us metablk_cong [OF f(1,2)] fs_size_cong [OF f(1)] by (auto simp: data_block_def)
  have fb: "fblocks t i \<subseteq> fblocks u i \<union> {unat x}" using d by (auto simp: fblocks_def)
  have "fs_ok t" by (rule fs_ok_cong [OF ok(1) f(1-3)]) (simp add: us)
  moreover have "addrs_ok t i" using ok(2) x(1) d ne f(1,4) by (auto simp: addrs_ok_def db)
  moreover have "fbyte t i k = fbyte u i k" if k: "k < MAXFILE * BSIZE" for k
  proof (cases "k div BSIZE = bn")
    case True
    have "bview t (unat x) = (\<lambda>_. 0)" using v [of "unat x"] ne(1) x(3) by (metis word_unat_eq_iff)
    then show ?thesis using True bn d(2) [OF bn(1)] by (simp add: fbyte_def Let_def)
  next
    case False
    have kb: "k div BSIZE < MAXFILE" by (rule fbyte_block [OF k])
    then have "baddr u i (k div BSIZE) \<noteq> 0 \<Longrightarrow> bview t (unat (baddr u i (k div BSIZE))) = bview u (unat (baddr u i (k div BSIZE)))"
      using ok(2) by (intro v) (auto simp: addrs_ok_def simp flip: word_unat_eq_iff)
    then show ?thesis using d(2) [OF kb] False by (simp add: fbyte_def Let_def)
  qed
  moreover have "bview t k = bview u k" if "k \<notin> mapblk u \<union> fblocks u i \<union> {unat x}" for k
    using that in_fblocks(1) [of u i] by (intro v) auto
  moreover have "used t k = (used u k \<or> k \<in> {unat x})" if "k < fs_size u" for k using us [OF that] x(1) by (auto simp: data_block_def)
  ultimately show ?thesis using f fb d(2) bn(2) by (auto simp: grown_def taken_def)
qed

text \<open>A fresh block becomes the indirect block.\<close>

lemma add_indirect:
  assumes ok: "fs_ok u" "addrs_ok u i" "fresh u i x" and z: "ind u i = 0"
  defines "t \<equiv> u\<lparr>inodes := (inodes u)(i := (inodes u i)\<lparr>i_addrs := (i_addrs (inodes u i))(NDIRECT := x)\<rparr>)\<rparr>"
  shows "grown {unat x} i u t" "ind t i = x"
proof -
  have x: "data_block u x" "unat x \<notin> fblocks u i" "bview u (unat x) = (\<lambda>_. 0)" using ok(3) by (auto simp: fresh_def)
  have f: "sb t = sb u" "log_area t = log_area u" "disksize t = disksize u" "bview t = bview u" by (simp_all add: t_def inodes_frame)
  show i: "ind t i = x" by (simp add: ind_def t_def)
  have "get32 (\<lambda>_. 0) k = 0" for k by (simp add: get32_def)
  then have b: "baddr t i = baddr u i"
    using z unfolding fun_eq_iff baddr_def i f(4) x(3) by (auto simp: t_def)
  have us: "used t k = used u k" for k by (rule used_cong [OF f(4,1)])
  have db: "data_block t a = data_block u a" for a
    using us metablk_cong [OF f(1,2)] fs_size_cong [OF f(1)] by (auto simp: data_block_def)
  have "baddr u i k \<noteq> x" if "k < MAXFILE" for k using x(2) that data_block_apart(1) [OF x(1)] by (auto simp: fblocks_def)
  then have "addrs_ok t i" using ok(2) x(1) by (auto simp: addrs_ok_def db b i f(1)) (simp_all add: t_def)
  moreover have "fs_ok t" by (rule fs_ok_cong [OF ok(1) f(1-3)]) (simp add: us)
  moreover have "fblocks t i \<subseteq> fblocks u i \<union> {unat x}" by (auto simp: fblocks_def b i)
  moreover have "inodes t = (inodes u)(i := (inodes u i)\<lparr>i_addrs := (i_addrs (inodes u i))(NDIRECT := x)\<rparr>)" by (simp add: t_def)
  ultimately show "grown {unat x} i u t" using f b us x(1) by (auto simp: grown_def taken_def fbyte_def data_block_def Let_def)
qed

lemma grown_same:
  assumes "fs_ok s" "addrs_ok s i" "fsame s t" "bview t = bview s"
  shows "grown {} i s t"
proof -
  have f: "sb t = sb s" "inodes t = inodes s" "log_area t = log_area s" "disksize t = disksize s"
    using fsame_fields [OF assms(3)] fsame_area [OF assms(3)] assms(3) by (simp_all add: fsame_def)
  have b: "ind t i = ind s i" "baddr t i = baddr s i" "fblocks t i = fblocks s i"
    by (rule baddr_cong; simp add: f(2) assms(4))+
  have us: "used t k = used s k" for k by (rule used_cong [OF assms(4) f(1)])
  have "fs_ok t" by (rule fs_ok_cong [OF assms(1) f(1,3,4)]) (simp add: us)
  moreover have "addrs_ok t i" by (rule addrs_ok_cong [OF assms(2) b(1,2) f(1,3)]) (simp_all add: us f(2))
  ultimately show ?thesis using f b us assms(4) by (auto simp: grown_def taken_def fbyte_def Let_def intro: exI [of _ "i_addrs (inodes s i)"])
qed

lemma tx_mono: "tx H r s \<Longrightarrow> r' \<le> r \<Longrightarrow> tx H r' s"
  by (auto simp: tx_def)

definition free_blocks :: "'x fsst_scheme \<Rightarrow> nat set" where
  "free_blocks s = {k. k < fs_size s \<and> \<not> used s k}"

lemma free_blocks_taken: "taken N i s t \<Longrightarrow> free_blocks t = free_blocks s - N"
  by (auto simp: taken_def free_blocks_def fs_size_def)

lemma free_blocks_grown: "grown N i s t \<Longrightarrow> free_blocks t = free_blocks s - N"
  unfolding grown_def by (blast dest: free_blocks_taken)

lemma finite_free [simp]: "finite (free_blocks s)"
  by (simp add: free_blocks_def)

section \<open>The map from file blocks to disk blocks\<close>

lemma balloc_grown:
  assumes "tx H (r + 2) s" "fs_ok s" "addrs_ok s i" "free_blocks s \<noteq> {}" "aside H s" "card H \<le> Suc r"
  obtains a u where "balloc 1 s = Ok (of_nat a, u)" "tx H r u" "grown {a} i s u" "fresh u i (of_nat a)" "unat (of_nat a :: u32) = a"
    "a \<in> free_blocks s" "fsame s u" "\<forall>j \<in> H. bufs u j = bufs s j" "\<And>k. k \<noteq> a \<Longrightarrow> k \<notin> metablk s \<Longrightarrow> bview u k = bview s k"
proof -
  have e: "\<exists>k < fs_size s. \<not> used s k" using assms(4) by (auto simp: free_blocks_def)
  have t: "tx H (Suc (Suc r)) s" using assms(1) by simp
  have m: "map_ok s" "meta_used s" using fs_ok_meta [OF assms(2)] by auto
  obtain a u where u: "balloc 1 s = Ok (of_nat a, u)" "tx H r u" "fsame s u" "allocated a s u" "\<forall>j \<in> H. bufs u j = bufs s j"
    using balloc_ok [OF t m e assms(5,6)] by blast
  note g = alloc_grown [OF assms(2,3) u(4,3)]
  have a: "a \<in> free_blocks s" using u(4) by (simp add: allocated_def free_blocks_def)
  then have "bmblk s a \<in> metablk s" by (auto simp: metablk_def free_blocks_def)
  then have "bview u k = bview s k" if "k \<noteq> a" "k \<notin> metablk s" for k using u(4) that by (auto simp: allocated_def)
  then show ?thesis using that u g a by blast
qed

lemma bmap_direct:
  assumes t: "tx {} (r + 2) s" and ok: "fs_ok s" "addrs_ok s i" and bn: "bn < NDIRECT" "baddr s i bn = 0" and fr: "free_blocks s \<noteq> {}"
  shows "\<exists>a t. bmap i bn s = Ok (baddr t i bn, t) \<and> baddr t i bn \<noteq> 0 \<and> tx {} r t \<and> grown {a} i s t \<and> a \<in> free_blocks s"
proof -
  obtain a u where u: "balloc 1 s = Ok (of_nat a, u)" "tx {} r u" "grown {a} i s u" "fresh u i (of_nat a)" "unat (of_nat a :: u32) = a"
    "a \<in> free_blocks s" "fsame s u" by (rule balloc_grown [OF t ok fr]) auto
  let ?t = "u\<lparr>inodes := (inodes u)(i := (inodes u i)\<lparr>i_addrs := (i_addrs (inodes u i))(bn := of_nat a)\<rparr>)\<rparr>"
  have iu: "inodes u = inodes s" using fsame_fields [OF u(7)] by simp
  have z: "i_addrs (inodes s i) bn = 0" using bn by (simp add: baddr_def)
  have ba: "baddr ?t i b = (if b = bn then of_nat a else baddr u i b)" for b
    using bn(1) by (simp add: baddr_def ind_def inodes_frame)
  have g: "grown {unat (of_nat a :: u32)} i u ?t"
  proof (rule add_block [where bn = bn and ad = "(i_addrs (inodes u i))(bn := of_nat a)"])
    show "fs_ok u" "addrs_ok u i" using u(3) by (auto simp: grown_def taken_def)
    show "baddr u i bn = 0" using bn z iu by (simp add: baddr_def)
    show "ind ?t i = ind u i" using bn(1) by (simp add: ind_def)
  qed (use u(4) bn(1) ba in \<open>simp_all add: inodes_frame MAXFILE_def\<close>)
  have "bmap i bn s = Ok (of_nat a, ?t)"
    using bn(1) z ok(2) u(1) by (simp add: bmap_def addrs_ok_def kern_simps upd_inode_def Let_def)
  moreover have "grown {a} i s ?t" using grown_trans [OF u(3) g] u(5) by simp
  moreover have "of_nat a \<noteq> (0 :: u32)" using u(4) data_block_apart(1) by (auto simp: fresh_def)
  ultimately show ?thesis using u(2,6) ba [of bn] by (intro exI [of _ a] exI [of _ ?t]) (simp add: inodes_frame)
qed

lemma read_indirect:
  assumes t: "tx {} r s" and ok: "fs_ok s" "addrs_ok s i" "ind s i \<noteq> 0"
  obtains p s1 where "bread 1 (ind s i) s = Ok (p, s1)" "got {} r p (ind s i) s s1"
proof -
  have "fsblk s (ind s i)" by (rule data_block_fsblk [OF ok(1)]) (use ok(2,3) in \<open>simp add: addrs_ok_def\<close>)
  then show ?thesis using tx_bread [OF t, of "ind s i"] that by (auto simp: fsblk_def)
qed

lemma bmap_mapped:
  assumes t: "tx {} r s" and ok: "fs_ok s" "addrs_ok s i" and bn: "bn < MAXFILE" "baddr s i bn \<noteq> 0"
  shows "\<exists>u. bmap i bn s = Ok (baddr s i bn, u) \<and> tx {} r u \<and> fsame s u \<and> bview u = bview s"
proof (cases "bn < NDIRECT")
  case True
  then show ?thesis using t bn(2) by (simp add: bmap_def baddr_def)
next
  case False
  then have i: "ind s i \<noteq> 0" using bn(2) by (auto simp: baddr_def)
  obtain p s1 where p: "bread 1 (ind s i) s = Ok (p, s1)" "got {} r p (ind s i) s s1" by (rule read_indirect [OF t ok i])
  note data = got_data [OF p(2)]
  obtain u where u: "brelse p s1 = Ok ((), u)" "tx {} r u" "fsame s u" "bview u = bview s" by (rule tx_drop [OF p(2) t]) auto
  have "bmap i bn s = Ok (baddr s i bn, u)"
    using False bn i ok(2) p(1) data u(1)
    by (simp add: bmap_def addrs_ok_def kern_simps Let_def baddr_def ind_def MAXFILE_def)
  then show ?thesis using u by blast
qed

lemma bmap_entry:
  assumes t: "tx {} (r + 3) s" and ok: "fs_ok s" "addrs_ok s i" and bn: "bn < MAXFILE" "\<not> bn < NDIRECT" "baddr s i bn = 0"
    and i: "ind s i \<noteq> 0" and fr: "free_blocks s \<noteq> {}"
  shows "\<exists>a t. bmap i bn s = Ok (baddr t i bn, t) \<and> baddr t i bn \<noteq> 0 \<and> tx {} r t \<and> grown {a} i s t \<and> a \<in> free_blocks s"
proof -
  let ?e = "4 * (bn - NDIRECT)" and ?k = "unat (ind s i)"
  have dev: "i_dev (inodes s i) = 1" and dk: "data_block s (ind s i)" using ok(2) i by (auto simp: addrs_ok_def)
  obtain p s1 where p: "bread 1 (ind s i) s = Ok (p, s1)" "got {} (r + 3) p (ind s i) s s1" by (rule read_indirect [OF t ok i])
  note data = got_data [OF p(2)]
  have t1: "tx {p} (Suc r + 2) s1" "fsame s s1" "bview s1 = bview s" "b_blockno (bufs s1 p) = ind s i" "b_data (bufs s1 p) = bview s ?k"
    using p(2) same_disk_fsame [of s s1] by (auto simp: got_def eval_nat_numeral)
  note g1 = grown_same [OF ok t1(2,3)]
  have ok1: "fs_ok s1" "addrs_ok s1 i" using g1 by (auto simp: grown_def taken_def)
  have f1: "sb s1 = sb s" "inodes s1 = inodes s" "metablk s1 = metablk s"
    using fsame_fields [OF t1(2)] fsame_area [OF t1(2)] metablk_cong [of s1 s] by auto
  have fr1: "free_blocks s1 = free_blocks s" using free_blocks_grown [OF g1] by simp
  have "data_block s1 (ind s i)" using ok1(2) i f1 by (simp add: addrs_ok_def ind_def)
  then have as: "aside {p} s1" using data_block_apart(2) [of s1 "ind s i"] by (simp add: aside_def t1(4) data_block_def)
  have fr2: "free_blocks s1 \<noteq> {}" using fr fr1 by simp
  obtain a u where u: "balloc 1 s1 = Ok (of_nat a, u)" "tx {p} (Suc r) u" "grown {a} i s1 u" "fresh u i (of_nat a)" "unat (of_nat a :: u32) = a"
    "a \<in> free_blocks s1" "fsame s1 u" "\<forall>j \<in> {p}. bufs u j = bufs s1 j" "\<And>k. k \<noteq> a \<Longrightarrow> k \<notin> metablk s1 \<Longrightarrow> bview u k = bview s1 k"
    using balloc_grown [OF t1(1) ok1 fr2 as] by auto
  have bu: "bufs u p = bufs s1 p" using u(8) by simp
  have oku: "fs_ok u" "addrs_ok u i" using u(3) by (auto simp: grown_def taken_def)
  have iu: "inodes u = inodes s" "ind u i = ind s i" using fsame_fields [OF u(7)] f1 by (auto simp: ind_def)
  have "?k \<noteq> a" using dk u(6) fr1 by (auto simp: data_block_def free_blocks_def)
  then have ub: "bview u ?k = bview s ?k" using u(9) [of ?k] dk f1(3) t1(3) by (simp add: data_block_def)
  let ?d = "put32 ?e (of_nat a) (bview s ?k)"
  have "data_block u (ind s i)" using oku(2) i iu by (simp add: addrs_ok_def)
  then have "fsblk u (b_blockno (bufs u p))" using data_block_fsblk [OF oku(1)] by (simp add: bu t1(4))
  then obtain v where v: "seqk (buf_write p ?d) (seqk (log_write p) (brelse p)) u = Ok ((), v)" "tx {} r v" "fsame u v"
    "bview v = (bview u)(unat (b_blockno (bufs u p)) := ?d)"
    using tx_finish [of p "{}" r u ?d] u(2) by auto
  have vv: "bview v = (bview u)(?k := ?d)" using v(4) by (simp add: bu t1(4))
  have fv: "sb v = sb u" "inodes v = inodes u" "log_area v = log_area u" "disksize v = disksize u"
    using fsame_fields [OF v(3)] fsame_area [OF v(3)] v(3) by (simp_all add: fsame_def)
  have iv: "ind v i = ind s i" by (simp add: ind_def fv iu)
  have ba: "baddr v i b = (if b = bn then of_nat a else baddr u i b)" for b
  proof -
    have "get32 ?d (4 * (b - NDIRECT)) = get32 (bview s ?k) (4 * (b - NDIRECT))" if "b \<noteq> bn" "\<not> b < NDIRECT"
      using that bn(2) by (intro get_put_other(1)) linarith
    then show ?thesis using bn(2) i by (auto simp: baddr_def iv vv ub iu fv(2))
  qed
  have g: "grown {unat (of_nat a :: u32)} i u v"
  proof (rule add_block [OF oku u(4) bn(1), where ad = "i_addrs (inodes u i)"])
    show "baddr u i bn = 0" using bn(2,3) i by (simp add: baddr_def iu ub)
  qed (use fv vv iv iu ba i in simp_all)
  have put: "upd_buf p (\<lambda>x. set_data (put32 ?e (of_nat a) (b_data x)) x) u = upd_buf p (set_data ?d) u"
    by (simp add: upd_buf_def bu t1(5))
  obtain w where w: "log_write p (upd_buf p (set_data ?d) u) = Ok ((), w)" "brelse p w = Ok ((), v)"
    using v(1) by (auto simp: kern_simps buf_write_def elim!: bindk_OkE)
  have "bmap i bn s = Ok (of_nat a, v)"
    using bn i dev p(1) data u(1) w
    by (simp add: bmap_def Let_def kern_simps baddr_def ind_def MAXFILE_def put)
  moreover have "grown {a} i s v" using grown_trans [OF grown_trans [OF g1 u(3)] g] u(5) by simp
  moreover have "of_nat a \<noteq> (0 :: u32)" using u(4) data_block_apart(1) by (auto simp: fresh_def)
  ultimately show ?thesis using v(2) u(6) fr1 ba [of bn] by (intro exI [of _ a] exI [of _ v]) simp
qed

lemma bmap_new_indirect:
  assumes t: "tx {} (r + 5) s" and ok: "fs_ok s" "addrs_ok s i" and bn: "bn < MAXFILE" "\<not> bn < NDIRECT" and z: "ind s i = 0"
    and fr: "2 \<le> card (free_blocks s)"
  shows "\<exists>a b t. bmap i bn s = Ok (baddr t i bn, t) \<and> baddr t i bn \<noteq> 0 \<and> tx {} r t \<and> grown {a, b} i s t \<and> {a, b} \<subseteq> free_blocks s"
proof -
  have t2: "tx {} ((r + 3) + 2) s" using t by (simp add: add.commute)
  have ne: "free_blocks s \<noteq> {}" using fr by auto
  obtain a u where u: "balloc 1 s = Ok (of_nat a, u)" "tx {} (r + 3) u" "grown {a} i s u" "fresh u i (of_nat a)"
    "unat (of_nat a :: u32) = a" "a \<in> free_blocks s" "fsame s u" by (rule balloc_grown [OF t2 ok ne]) auto
  let ?t = "u\<lparr>inodes := (inodes u)(i := (inodes u i)\<lparr>i_addrs := (i_addrs (inodes u i))(NDIRECT := of_nat a)\<rparr>)\<rparr>"
  have iu: "inodes u = inodes s" "ind u i = 0" using fsame_fields [OF u(7)] z by (auto simp: ind_def)
  note g = add_indirect [OF grown_ok [OF u(3), THEN conjunct1] grown_ok [OF u(3), THEN conjunct2] u(4) iu(2)]
  have gt: "grown {a} i s ?t" using grown_trans [OF u(3) g(1)] u(5) by simp
  have ia: "of_nat a \<noteq> (0 :: u32)" using u(4) data_block_apart(1) by (auto simp: fresh_def)
  have frt: "free_blocks ?t = free_blocks s - {a}" by (rule free_blocks_grown [OF gt])
  then have net: "free_blocks ?t \<noteq> {}" using fr u(6) by (metis card_Diff_singleton_if card.empty diff_is_0_eq not_less_eq_eq numeral_2_eq_2 One_nat_def)
  have zt: "baddr ?t i bn = 0"
  proof -
    have "bview u (unat (of_nat a :: u32)) = (\<lambda>_. 0)" using u(4) by (simp add: fresh_def)
    then have "get32 (bview ?t (unat (of_nat a :: u32))) k = 0" for k by (simp add: inodes_frame get32_def)
    then show ?thesis using bn(2) g(2) by (simp add: baddr_def)
  qed
  have tt: "tx {} (r + 3) ?t" using u(2) by (simp add: inodes_frame)
  obtain b v where v: "bmap i bn ?t = Ok (baddr v i bn, v)" "baddr v i bn \<noteq> 0" "tx {} r v" "grown {b} i ?t v" "b \<in> free_blocks ?t"
    using bmap_entry [OF tt _ _ bn zt _ net] grown_ok [OF gt] g(2) ia by auto
  have dev: "i_dev (inodes s i) = 1" using ok(2) by (simp add: addrs_ok_def)
  have "bmap i bn s = bmap i bn ?t"
    using bn z ia dev u(1) iu(1) unfolding bmap_def by (simp add: Let_def kern_simps ind_def upd_inode_def)
  moreover have "grown {a, b} i s v" using grown_trans [OF gt v(4)] by (simp add: insert_commute)
  moreover have "{a, b} \<subseteq> free_blocks s" using u(6) v(5) frt by auto
  ultimately show ?thesis using v by (intro exI [of _ a] exI [of _ b] exI [of _ v]) simp
qed

text \<open>
  \<open>bmap\<close> gives the address of a block of the file; when it has none it takes at most two blocks from the free ones, and the contents of the file do not change.
\<close>

lemma bmap_ok:
  assumes t: "tx {} (r + 5) s" and ok: "fs_ok s" "addrs_ok s i" and bn: "bn < MAXFILE" and fr: "2 \<le> card (free_blocks s)"
  shows "\<exists>N t. bmap i bn s = Ok (baddr t i bn, t) \<and> baddr t i bn \<noteq> 0 \<and> tx {} r t \<and> grown N i s t \<and> N \<subseteq> free_blocks s \<and> card N \<le> 2 \<and>
    (baddr s i bn \<noteq> 0 \<longrightarrow> inodes t = inodes s)"
proof (cases "baddr s i bn = 0")
  case False
  obtain u where u: "bmap i bn s = Ok (baddr s i bn, u)" "tx {} (r + 5) u" "fsame s u" "bview u = bview s"
    using bmap_mapped [OF t ok bn False] by blast
  have g: "grown {} i s u" by (rule grown_same [OF ok u(3,4)])
  then have "baddr u i bn = baddr s i bn" using bn False by (simp add: grown_def taken_def)
  then show ?thesis using u g False tx_mono [OF u(2), of r] fsame_fields [OF u(3)] by (intro exI [of _ "{}"] exI [of _ u]) simp
next
  case True
  have ne: "free_blocks s \<noteq> {}" using fr by auto
  have t2: "tx {} (r + 2) s" "tx {} (r + 3) s" by (rule tx_mono [OF t], simp)+
  consider "bn < NDIRECT" | "\<not> bn < NDIRECT" "ind s i \<noteq> 0" | "\<not> bn < NDIRECT" "ind s i = 0" by blast
  then have "\<exists>a b t. bmap i bn s = Ok (baddr t i bn, t) \<and> baddr t i bn \<noteq> 0 \<and> tx {} r t \<and> grown {a, b} i s t \<and> {a, b} \<subseteq> free_blocks s"
  proof cases
    case 1
    then show ?thesis using bmap_direct [OF t2(1) ok _ True ne] by (metis insert_absorb2 empty_subsetI insert_subset)
  next
    case 2
    then show ?thesis using bmap_entry [OF t2(2) ok bn _ True _ ne] by (metis insert_absorb2 empty_subsetI insert_subset)
  next
    case 3
    then show ?thesis using bmap_new_indirect [OF t ok bn _ _ fr] by blast
  qed
  then obtain a b v where "bmap i bn s = Ok (baddr v i bn, v)" "baddr v i bn \<noteq> 0" "tx {} r v" "grown {a, b} i s v" "{a, b} \<subseteq> free_blocks s"
    by blast
  moreover have "card {a, b} \<le> 2" by (simp add: card_insert_if)
  ultimately show ?thesis using True by blast
qed

section \<open>Writing\<close>

lemma store_block:
  assumes ok: "fs_ok u" "addrs_ok u i" and bn: "bn < MAXFILE" "baddr u i bn \<noteq> 0"
    and t: "fsame u t" "bview t = (bview u)(unat (baddr u i bn) := d)"
  shows "taken {} i u t" "k < MAXFILE * BSIZE \<Longrightarrow> fbyte t i k = (if k div BSIZE = bn then d (k mod BSIZE) else fbyte u i k)"
proof -
  let ?a = "baddr u i bn"
  have f: "sb t = sb u" "inodes t = inodes u" "log_area t = log_area u" "disksize t = disksize u"
    using fsame_fields [OF t(1)] fsame_area [OF t(1)] t(1) by (simp_all add: fsame_def)
  have a: "data_block u ?a" "?a \<noteq> ind u i" "\<And>b. b < MAXFILE \<Longrightarrow> unat (baddr u i b) = unat ?a \<Longrightarrow> b = bn"
    using ok(2) bn by (auto simp: addrs_ok_def simp flip: word_unat_eq_iff)
  have "unat (ind u i) \<noteq> unat ?a" using a(2) by (simp flip: word_unat_eq_iff)
  then have same: "i_addrs (inodes t i) = i_addrs (inodes u i)" "bview t (unat (ind u i)) = bview u (unat (ind u i))"
    by (simp_all add: f(2) t(2))
  note b = baddr_cong [OF same]
  have us: "used t k = used u k" if "k < fs_size u" for k
    by (rule used_same_map [OF f(1) _ that]) (use data_block_apart(2) [OF a(1)] t(2) in auto)
  have "fs_ok t" by (rule fs_ok_cong [OF ok(1) f(1,3,4)]) (simp add: us)
  moreover have "addrs_ok t i" by (rule addrs_ok_cong [OF ok(2) b(1,2) f(1,3)]) (simp_all add: us f(2))
  moreover have "unat ?a \<in> fblocks u i" by (rule in_fblocks(2) [OF bn])
  ultimately show "taken {} i u t"
    using f b us t(2) by (auto simp: taken_def intro: exI [of _ "i_addrs (inodes u i)"])
  assume "k < MAXFILE * BSIZE"
  then have "k div BSIZE < MAXFILE" by (rule fbyte_block)
  then show "fbyte t i k = (if k div BSIZE = bn then d (k mod BSIZE) else fbyte u i k)"
    using a(3) bn(2) by (auto simp: fbyte_def Let_def b(2) t(2))
qed

text \<open>The number of blocks that \<open>n\<close> bytes from \<open>off\<close> on lie in.\<close>

definition nblk :: "nat \<Rightarrow> nat \<Rightarrow> nat" where
  "nblk off n = (if n = 0 then 0 else (off mod BSIZE + n + BSIZE - 1) div BSIZE)"

lemma nblk_step:
  fixes off n :: nat
  assumes "0 < n"
  defines "m \<equiv> min n (BSIZE - off mod BSIZE)"
  shows "nblk off n = Suc (nblk (off + m) (n - m))"
proof (cases "n \<le> BSIZE - off mod BSIZE")
  case True
  have "off mod BSIZE + n + BSIZE - 1 < 2 * BSIZE" "BSIZE \<le> off mod BSIZE + n + BSIZE - 1"
    using True assms(1) by (simp_all add: BSIZE_def)
  then have "(off mod BSIZE + n + BSIZE - 1) div BSIZE = 1" by (simp add: BSIZE_def div_nat_eqI)
  then show ?thesis using True assms(1) by (simp add: nblk_def m_def)
next
  case False
  have lt: "off mod BSIZE < BSIZE" by (simp add: BSIZE_def)
  have m: "m = BSIZE - off mod BSIZE" using False by (simp add: m_def)
  have "(off + m) mod BSIZE = (off mod BSIZE + m) mod BSIZE" by (simp add: mod_add_left_eq)
  also have "\<dots> = 0" using lt m by simp
  finally have z: "(off + m) mod BSIZE = 0" .
  have "off mod BSIZE + n + BSIZE - 1 = (n - m + BSIZE - 1) + BSIZE" using m lt False by simp
  then have "(off mod BSIZE + n + BSIZE - 1) div BSIZE = Suc ((n - m + BSIZE - 1) div BSIZE)"
    by (simp add: BSIZE_def)
  then show ?thesis using z m False assms(1) by (simp add: nblk_def)
qed

text \<open>One round of the loop stays within a block.\<close>

lemma round_block:
  fixes off n k :: nat
  assumes "0 < n"
  defines "m \<equiv> min n (BSIZE - off mod BSIZE)"
  shows "0 < m" "m \<le> n" "off \<le> k \<Longrightarrow> k < off + m \<Longrightarrow> k div BSIZE = off div BSIZE"
    "k div BSIZE = off div BSIZE \<Longrightarrow> (off mod BSIZE \<le> k mod BSIZE \<and> k mod BSIZE < off mod BSIZE + m) = (off \<le> k \<and> k < off + m)"
    "k div BSIZE = off div BSIZE \<Longrightarrow> off \<le> k \<Longrightarrow> k mod BSIZE - off mod BSIZE = k - off"
proof -
  have lt: "off mod BSIZE < BSIZE" by (simp add: BSIZE_def)
  then show "0 < m" "m \<le> n" using assms(1) by (simp_all add: m_def)
  have o: "off = BSIZE * (off div BSIZE) + off mod BSIZE" and mle: "m \<le> BSIZE - off mod BSIZE" by (simp_all add: m_def)
  {
    assume "off \<le> k" "k < off + m"
    then have "BSIZE * (off div BSIZE) \<le> k" "k < BSIZE * Suc (off div BSIZE)" using lt o mle unfolding mult_Suc_right by linarith+
    then show "k div BSIZE = off div BSIZE" by (rule div_nat_eqI)
  next
    assume e: "k div BSIZE = off div BSIZE"
    then have "k = BSIZE * (off div BSIZE) + k mod BSIZE" by (metis mult_div_mod_eq)
    then show "(off mod BSIZE \<le> k mod BSIZE \<and> k mod BSIZE < off mod BSIZE + m) = (off \<le> k \<and> k < off + m)"
      "off \<le> k \<Longrightarrow> k mod BSIZE - off mod BSIZE = k - off" using o by linarith+
  }
qed

definition filled :: "(nat \<Rightarrow> u8) \<Rightarrow> nat \<Rightarrow> nat \<Rightarrow> (nat \<Rightarrow> u8) \<Rightarrow> nat \<Rightarrow> u8" where
  "filled g off n src = (\<lambda>k. if off \<le> k \<and> k < off + n then src (k - off) else g k)"

lemma writei_round:
  fixes off n :: nat
  assumes t: "tx {} (r + 6) s" and ok: "fs_ok s" "addrs_ok s i" and fr: "2 \<le> card (free_blocks s)"
    and n: "0 < n" "off + n \<le> MAXFILE * BSIZE"
  defines "m \<equiv> min n (BSIZE - off mod BSIZE)"
  shows "\<exists>N u. writei_loop i src tot off n s = writei_loop i src (tot + m) (off + m) (n - m) u \<and> tx {} r u \<and> taken N i s u \<and>
    N \<subseteq> free_blocks s \<and> card N \<le> 2 \<and> (\<forall>k < MAXFILE * BSIZE. fbyte u i k = filled (fbyte s i) off m (\<lambda>k. src (tot + k)) k) \<and>
    baddr u i (off div BSIZE) \<noteq> 0 \<and> (baddr s i (off div BSIZE) \<noteq> 0 \<longrightarrow> inodes u = inodes s)"
proof -
  let ?bn = "off div BSIZE"
  have bn: "?bn < MAXFILE" using n by (intro fbyte_block) simp
  have t5: "tx {} (Suc r + 5) s" using t by (simp add: eval_nat_numeral)
  obtain N v where v: "bmap i ?bn s = Ok (baddr v i ?bn, v)" "baddr v i ?bn \<noteq> 0" "tx {} (Suc r) v" "grown N i s v" "N \<subseteq> free_blocks s"
    "card N \<le> 2" "baddr s i ?bn \<noteq> 0 \<longrightarrow> inodes v = inodes s" using bmap_ok [OF t5 ok bn fr] by blast
  let ?a = "baddr v i ?bn"
  have okv: "fs_ok v" "addrs_ok v i" using grown_ok [OF v(4)] by auto
  have blk: "fsblk v ?a" by (rule data_block_fsblk [OF okv(1)]) (use okv(2) bn v(2) in \<open>simp add: addrs_ok_def\<close>)
  obtain p s1 where p: "bread 1 ?a v = Ok (p, s1)" "got {} (Suc r) p ?a v s1"
    using tx_bread [OF v(3), of ?a] blk by (auto simp: fsblk_def)
  note data = got_data [OF p(2)]
  have t1: "tx {p} (Suc r) s1" "fsame v s1" "bview s1 = bview v" "b_blockno (bufs s1 p) = ?a"
    using p(2) same_disk_fsame [of v s1] by (auto simp: got_def)
  let ?d = "copy_bytes (bview v (unat ?a)) (off mod BSIZE) src tot m"
  have "fsblk s1 (b_blockno (bufs s1 p))" using blk fsblk_same [OF t1(2)] t1(4) by simp
  then obtain u where u: "seqk (buf_write p ?d) (seqk (log_write p) (brelse p)) s1 = Ok ((), u)" "tx {} r u" "fsame s1 u"
    "bview u = (bview s1)(unat (b_blockno (bufs s1 p)) := ?d)"
    using tx_finish [of p "{}" r s1 ?d] t1(1) by auto
  have fu: "fsame v u" by (rule fsame_trans [OF t1(2) u(3)])
  note st = store_block [OF okv bn v(2) fu, of ?d]
  have bu: "bview u = (bview v)(unat ?a := ?d)" using u(4) t1(3,4) by simp
  obtain w1 w2 where w: "buf_write p ?d s1 = Ok ((), w1)" "log_write p w1 = Ok ((), w2)" "brelse p w2 = Ok ((), u)"
    using u(1) by (auto simp: kern_simps elim!: bindk_OkE)
  have dev: "i_dev (inodes v i) = 1" using okv(2) by (simp add: addrs_ok_def)
  have run: "writei_loop i src tot off n s = writei_loop i src (tot + m) (off + m) (n - m) u"
    using n(1) v(1) p(1) data w dev by (subst writei_loop.simps) (simp add: Let_def kern_simps flip: m_def)
  have tk: "taken N i s u" using taken_trans [of N i s v "{}" u] v(4) st(1) bu by (simp add: grown_def)
  note rb = round_block [OF n(1), where off = off, folded m_def]
  have fb: "fbyte u i k = filled (fbyte s i) off m (\<lambda>k. src (tot + k)) k" if k: "k < MAXFILE * BSIZE" for k
  proof -
    have sv: "fbyte v i k = fbyte s i k" using v(4) k by (simp add: grown_def)
    show ?thesis
    proof (cases "k div BSIZE = ?bn")
      case True
      have vk: "bview v (unat ?a) (k mod BSIZE) = fbyte s i k" using v(2) unfolding sv [symmetric] by (simp add: fbyte_def Let_def True)
      show ?thesis using st(2) [OF bu k] True rb(4,5) [OF True] vk by (auto simp: copy_bytes_def filled_def)
    next
      case False
      then have "\<not> (off \<le> k \<and> k < off + m)" using rb(3) by blast
      then show ?thesis using st(2) [OF bu k] False sv by (auto simp: filled_def)
    qed
  qed
  have "inodes u = inodes v" using fsame_fields [OF fu] by simp
  moreover have "baddr u i ?bn = ?a" using st(1) [OF bu] bn v(2) by (simp add: taken_def)
  ultimately show ?thesis using run u(2) tk v(2,5,6,7) fb by (intro exI [of _ N] exI [of _ u]) simp
qed

lemma filled_append:
  assumes "m \<le> n"
  shows "filled (filled g off m (\<lambda>k. src (tot + k))) (off + m) (n - m) (\<lambda>k. src (tot + m + k)) = filled g off n (\<lambda>k. src (tot + k))"
  using assms by (auto simp: filled_def fun_eq_iff)

lemma taken_mapped: "taken N i s t \<Longrightarrow> bn < MAXFILE \<Longrightarrow> baddr s i bn \<noteq> 0 \<Longrightarrow> baddr t i bn \<noteq> 0"
  by (simp add: taken_def)

lemma writei_loop_ok:
  assumes "tx {} (r + 6 * nblk off n) s" "fs_ok s" "addrs_ok s i" "2 * nblk off n \<le> card (free_blocks s)" "off + n \<le> MAXFILE * BSIZE"
  shows "\<exists>N u. writei_loop i src tot off n s = Ok ((), u) \<and> tx {} r u \<and> taken N i s u \<and> N \<subseteq> free_blocks s \<and>
    (\<forall>k < MAXFILE * BSIZE. fbyte u i k = filled (fbyte s i) off n (\<lambda>k. src (tot + k)) k) \<and>
    (\<forall>k. off \<le> k \<longrightarrow> k < off + n \<longrightarrow> baddr u i (k div BSIZE) \<noteq> 0) \<and>
    ((\<forall>k. off \<le> k \<longrightarrow> k < off + n \<longrightarrow> baddr s i (k div BSIZE) \<noteq> 0) \<longrightarrow> inodes u = inodes s)"
  using assms
proof (induction n arbitrary: s off tot rule: less_induct)
  case (less n)
  show ?case
  proof (cases "n = 0")
    case True
    then have "writei_loop i src tot off n s = Ok ((), s)" by (subst writei_loop.simps) (simp add: ret_app)
    moreover have "taken {} i s s" using grown_same [OF less.prems(2,3)] by (simp add: grown_def)
    moreover have "tx {} r s" using less.prems(1) True by (simp add: nblk_def)
    ultimately show ?thesis using True by (intro exI [of _ "{}"] exI [of _ s]) (auto simp: filled_def)
  next
    case False
    then have n: "0 < n" by simp
    define m where "m = min n (BSIZE - off mod BSIZE)"
    note rb = round_block [OF n, where off = off, folded m_def]
    have nb: "nblk off n = Suc (nblk (off + m) (n - m))" unfolding m_def by (rule nblk_step [OF n])
    let ?c = "nblk (off + m) (n - m)"
    have t: "tx {} ((r + 6 * ?c) + 6) s" using less.prems(1) nb by (simp add: add.commute add.left_commute)
    have fr: "2 \<le> card (free_blocks s)" using less.prems(4) nb by simp
    obtain N u where u: "writei_loop i src tot off n s = writei_loop i src (tot + m) (off + m) (n - m) u" "tx {} (r + 6 * ?c) u"
      "taken N i s u" "N \<subseteq> free_blocks s" "card N \<le> 2"
      "\<forall>k < MAXFILE * BSIZE. fbyte u i k = filled (fbyte s i) off m (\<lambda>k. src (tot + k)) k"
      "baddr u i (off div BSIZE) \<noteq> 0" "baddr s i (off div BSIZE) \<noteq> 0 \<longrightarrow> inodes u = inodes s"
      using writei_round [OF t less.prems(2,3) fr n less.prems(5), of src tot] unfolding m_def [symmetric] by blast
    have "card (free_blocks s) - card N \<le> card (free_blocks s - N)" by (rule diff_card_le_card_Diff) (simp add: finite_subset [OF u(4)])
    then have "2 * ?c \<le> card (free_blocks u)" using less.prems(4) nb u(5) free_blocks_taken [OF u(3)] by simp
    moreover have "off + m + (n - m) \<le> MAXFILE * BSIZE" using rb(2) less.prems(5) by simp
    moreover have "n - m < n" using n rb(1) by simp
    ultimately obtain M v where v: "writei_loop i src (tot + m) (off + m) (n - m) u = Ok ((), v)" "tx {} r v" "taken M i u v" "M \<subseteq> free_blocks u"
      "\<forall>k < MAXFILE * BSIZE. fbyte v i k = filled (fbyte u i) (off + m) (n - m) (\<lambda>k. src (tot + m + k)) k"
      "\<forall>k. off + m \<le> k \<longrightarrow> k < off + m + (n - m) \<longrightarrow> baddr v i (k div BSIZE) \<noteq> 0"
      "(\<forall>k. off + m \<le> k \<longrightarrow> k < off + m + (n - m) \<longrightarrow> baddr u i (k div BSIZE) \<noteq> 0) \<longrightarrow> inodes v = inodes u"
      using less.IH [of "n - m" "off + m" u "tot + m"] u(2) taken_ok [OF u(3)] by blast
    have tk: "taken (N \<union> M) i s v" by (rule taken_trans [OF u(3) v(3)])
    have sub: "N \<union> M \<subseteq> free_blocks s" using u(4) v(4) free_blocks_taken [OF u(3)] by auto
    have fb: "fbyte v i k = filled (fbyte s i) off n (\<lambda>k. src (tot + k)) k" if "k < MAXFILE * BSIZE" for k
    proof -
      have "fbyte v i k = filled (filled (fbyte s i) off m (\<lambda>k. src (tot + k))) (off + m) (n - m) (\<lambda>k. src (tot + m + k)) k"
        using v(5) u(6) that by (simp add: filled_def)
      then show ?thesis by (simp only: filled_append [OF rb(2)])
    qed
    have bk: "k div BSIZE < MAXFILE" if "k < off + n" for k using that less.prems(5) by (intro fbyte_block) simp
    have cov: "baddr v i (k div BSIZE) \<noteq> 0" if k: "off \<le> k" "k < off + n" for k
    proof (cases "k < off + m")
      case True
      then show ?thesis using taken_mapped [OF v(3) bk [OF k(2)]] rb(3) [OF k(1)] u(7) by simp
    next
      case False
      then show ?thesis using v(6) k rb(2) by simp
    qed
    have same: "inodes v = inodes s" if h: "\<forall>k. off \<le> k \<longrightarrow> k < off + n \<longrightarrow> baddr s i (k div BSIZE) \<noteq> 0"
    proof -
      have iu: "inodes u = inodes s" using u(8) h n by simp
      have "\<forall>k. off + m \<le> k \<longrightarrow> k < off + m + (n - m) \<longrightarrow> baddr u i (k div BSIZE) \<noteq> 0"
        using h taken_mapped [OF u(3) bk] rb(2) by simp
      from HOL.mp [OF v(7) this] show ?thesis using iu by simp
    qed
    show ?thesis unfolding u(1) v(1) using v(2) tk sub fb cov same by (intro exI [of _ "N \<union> M"] exI [of _ v] conjI) auto
  qed
qed

section \<open>Reading\<close>

lemma read_round:
  fixes off n :: nat
  assumes n: "0 < n" and a: "baddr s i (off div BSIZE) \<noteq> 0"
  defines "m \<equiv> min n (BSIZE - off mod BSIZE)"
  shows "copy_bytes (copy_bytes dst tot (bview s (unat (baddr s i (off div BSIZE)))) (off mod BSIZE) m) (tot + m) (fbyte s i) (off + m) (n - m) =
    copy_bytes dst tot (fbyte s i) off n"
proof -
  note rb = round_block [OF n, where off = off, folded m_def]
  have e: "fbyte s i (off + j) = bview s (unat (baddr s i (off div BSIZE))) (off mod BSIZE + j)" if "j < m" for j
  proof -
    have d: "(off + j) div BSIZE = off div BSIZE" using rb(3) [of "off + j"] that by simp
    then have "(off + j) mod BSIZE = off mod BSIZE + j" using rb(4,5) [OF d] that by linarith
    then show ?thesis using a d by (simp add: fbyte_def)
  qed
  show ?thesis
  proof
    fix x
    show "copy_bytes (copy_bytes dst tot (bview s (unat (baddr s i (off div BSIZE)))) (off mod BSIZE) m) (tot + m) (fbyte s i) (off + m) (n - m) x =
      copy_bytes dst tot (fbyte s i) off n x"
    proof (cases "tot \<le> x \<and> x < tot + m")
      case True
      then obtain j where "x = tot + j" "j < m" by (metis add_less_cancel_left le_iff_add)
      then show ?thesis using e rb(2) by (simp add: copy_bytes_def)
    next
      case False
      then show ?thesis using rb(2) by (auto simp: copy_bytes_def)
    qed
  qed
qed

lemma readi_loop_ok:
  assumes "tx {} r s" "fs_ok s" "addrs_ok s i" "\<forall>k. off \<le> k \<longrightarrow> k < off + n \<longrightarrow> baddr s i (k div BSIZE) \<noteq> 0" "off + n \<le> MAXFILE * BSIZE"
  shows "\<exists>u. readi_loop i dst tot off n s = Ok (copy_bytes dst tot (fbyte s i) off n, u) \<and> tx {} r u \<and> fsame s u \<and> bview u = bview s"
  using assms
proof (induction n arbitrary: s off tot dst rule: less_induct)
  case (less n)
  show ?case
  proof (cases "n = 0")
    case True
    then have "readi_loop i dst tot off n s = Ok (copy_bytes dst tot (fbyte s i) off n, s)"
      by (subst readi_loop.simps) (auto simp: ret_app copy_bytes_def fun_eq_iff)
    then show ?thesis using less.prems(1) by auto
  next
    case False
    then have n: "0 < n" by simp
    define m where "m = min n (BSIZE - off mod BSIZE)"
    let ?bn = "off div BSIZE"
    note rb = round_block [OF n, where off = off, folded m_def]
    have bn: "?bn < MAXFILE" using n less.prems(5) by (intro fbyte_block) simp
    have a: "baddr s i ?bn \<noteq> 0" using less.prems(4) n by simp
    obtain v where v: "bmap i ?bn s = Ok (baddr s i ?bn, v)" "tx {} r v" "fsame s v" "bview v = bview s"
      using bmap_mapped [OF less.prems(1-3) bn a] by blast
    have "data_block s (baddr s i ?bn)" using less.prems(3) bn a by (simp add: addrs_ok_def)
    then have "fsblk v (baddr s i ?bn)" using data_block_fsblk [OF less.prems(2)] fsblk_same [OF v(3)] by blast
    then obtain p s1 where p: "bread 1 (baddr s i ?bn) v = Ok (p, s1)" "got {} r p (baddr s i ?bn) v s1"
      using tx_bread [OF v(2), of "baddr s i ?bn"] by (auto simp: fsblk_def)
    note data = got_data [OF p(2)]
    obtain u where u: "brelse p s1 = Ok ((), u)" "tx {} r u" "fsame v u" "bview u = bview v" by (rule tx_drop [OF p(2) v(2)]) auto
    have su: "fsame s u" "bview u = bview s" using fsame_trans [OF v(3) u(3)] u(4) v(4) by simp_all
    have g: "grown {} i s u" by (rule grown_same [OF less.prems(2,3) su])
    have iu: "inodes u = inodes s" "inodes v = inodes s" using fsame_fields [OF su(1)] fsame_fields [OF v(3)] by auto
    have bu: "baddr u i = baddr s i" by (rule baddr_cong(2)) (simp_all add: iu su(2))
    have fu: "fbyte u i = fbyte s i" by (simp add: fun_eq_iff fbyte_def bu su(2) Let_def)
    have dev: "i_dev (inodes s i) = 1" using less.prems(3) by (simp add: addrs_ok_def)
    let ?dst = "copy_bytes dst tot (bview s (unat (baddr s i ?bn))) (off mod BSIZE) m"
    have "n - m < n" "off + m + (n - m) \<le> MAXFILE * BSIZE" using n rb(1,2) less.prems(5) by simp_all
    then obtain w where w: "readi_loop i ?dst (tot + m) (off + m) (n - m) u = Ok (copy_bytes ?dst (tot + m) (fbyte s i) (off + m) (n - m), w)"
      "tx {} r w" "fsame u w" "bview w = bview u"
      using less.IH [of "n - m" u "off + m" ?dst "tot + m"] u(2) grown_ok [OF g] less.prems(4) rb(2) bu fu by auto
    have "readi_loop i dst tot off n s = readi_loop i ?dst (tot + m) (off + m) (n - m) u"
      using n v(1) p(1) data u(1) dev iu(2) v(4) by (subst readi_loop.simps) (simp add: Let_def kern_simps flip: m_def)
    moreover have "copy_bytes ?dst (tot + m) (fbyte s i) (off + m) (n - m) = copy_bytes dst tot (fbyte s i) off n"
      using read_round [OF n a, where dst = dst and tot = tot] unfolding m_def [symmetric] .
    ultimately show ?thesis using w fsame_trans [OF su(1) w(3)] su(2) by auto
  qed
qed

end
