(* ===== verification/Fs_File.thy ===== *)
theory Fs_File
  imports Fs_Content
begin

text \<open>
  Regular files as byte lists: \<open>writei\<close> replaces a part of the list and \<open>readi\<close> returns a part of it, with the inode on the disk kept up to date and
  every other file left alone.
\<close>

section \<open>The contents of a file\<close>

definition fsize :: "'x fsst_scheme \<Rightarrow> nat \<Rightarrow> nat" where
  "fsize s i = unat (i_size (inodes s i))"

definition content :: "'x fsst_scheme \<Rightarrow> nat \<Rightarrow> u8 list" where
  "content s i = map (fbyte s i) [0 ..< fsize s i]"

definition inode_block :: "'x fsst_scheme \<Rightarrow> nat \<Rightarrow> nat" where
  "inode_block s i = unat (IBLOCK (i_inum (inodes s i)) (sb s))"

text \<open>The inode on the disk agrees with the one in the cache.\<close>

definition synced :: "'x fsst_scheme \<Rightarrow> nat \<Rightarrow> bool" where
  "synced s i \<longleftrightarrow> same_dinode (get_dinode (dinode_off (i_inum (inodes s i))) (bview s (inode_block s i)) (inodes s i)) (inodes s i)"

definition file_ok :: "'x fsst_scheme \<Rightarrow> nat \<Rightarrow> bool" where
  "file_ok s i \<longleftrightarrow> fs_ok s \<and> addrs_ok s i \<and> i_type (inodes s i) \<noteq> T_DEV \<and> fsize s i \<le> MAXFILE * BSIZE \<and>
     (\<forall>k < fsize s i. baddr s i (k div BSIZE) \<noteq> 0) \<and> synced s i"

lemma length_content [simp]: "length (content s i) = fsize s i"
  by (simp add: content_def)

lemma filled_list:
  assumes "off \<le> n" "m = max n (off + k)"
  shows "map (filled f off k g) [0 ..< m] = take off (map f [0 ..< n]) @ map g [0 ..< k] @ drop (off + k) (map f [0 ..< n])"
proof (rule nth_equalityI)
  show "length (map (filled f off k g) [0 ..< m]) = length (take off (map f [0 ..< n]) @ map g [0 ..< k] @ drop (off + k) (map f [0 ..< n]))"
    using assms by simp
  fix j assume "j < length (map (filled f off k g) [0 ..< m])"
  then show "map (filled f off k g) [0 ..< m] ! j = (take off (map f [0 ..< n]) @ map g [0 ..< k] @ drop (off + k) (map f [0 ..< n])) ! j"
    using assms by (auto simp: filled_def nth_append)
qed

lemma taken_inode_block:
  assumes "taken N i s t" "N \<subseteq> free_blocks s" "fs_ok s" "addrs_ok s i" "n < sb_ninodes (sb s)"
  shows "bview t (unat (IBLOCK n (sb s))) = bview s (unat (IBLOCK n (sb s)))"
proof -
  let ?k = "unat (IBLOCK n (sb s))"
  have "?k \<in> metablk s" "?k \<notin> mapblk s" using assms(3,5) by (auto simp: metablk_def fs_ok_def)
  moreover from this have "?k \<notin> fblocks s i" "?k \<notin> N"
    using addrs_ok_blocks [OF assms(4)] assms(2,3) by (auto simp: free_blocks_def fs_ok_def)
  ultimately show ?thesis using assms(1) by (simp add: taken_def)
qed

text \<open>Another file with blocks of its own.\<close>

lemma taken_other:
  assumes "taken N i s t" "N \<subseteq> free_blocks s" "j \<noteq> i" "addrs_ok s j" "fblocks s j \<inter> fblocks s i = {}"
  shows "inodes t j = inodes s j" "baddr t j = baddr s j" "k \<in> fblocks s j \<Longrightarrow> bview t k = bview s k"
proof -
  show i: "inodes t j = inodes s j" using assms(1,3) by (auto simp: taken_def)
  have keep: "bview t k = bview s k" if "k \<in> fblocks s j" for k
  proof -
    have "k \<notin> mapblk s" "k \<notin> fblocks s i" "k \<notin> N"
      using addrs_ok_blocks [OF assms(4) that] assms(2,5) that by (auto simp: free_blocks_def metablk_def mapblk_def)
    then show ?thesis using assms(1) by (simp add: taken_def)
  qed
  then show "k \<in> fblocks s j \<Longrightarrow> bview t k = bview s k" .
  show "baddr t j = baddr s j" by (rule baddr_cong(2)) (simp_all add: i keep in_fblocks(1))
qed

lemma content_cong:
  assumes "file_ok s j" "inodes t j = inodes s j" "baddr t j = baddr s j" "\<And>k. k \<in> fblocks s j \<Longrightarrow> bview t k = bview s k"
  shows "content t j = content s j"
proof -
  have "fbyte t j k = fbyte s j k" if "k < fsize s j" for k
  proof -
    have "k div BSIZE < MAXFILE" using assms(1) that by (intro fbyte_block) (simp add: file_ok_def)
    from assms(4) [OF in_fblocks(2) [OF this]] show ?thesis by (auto simp: fbyte_def Let_def assms(3))
  qed
  then show ?thesis by (simp add: content_def fsize_def assms(2))
qed

section \<open>Updating the inode\<close>

text \<open>The size of a file changes and its inode block is written.\<close>

lemma inode_block_apart:
  assumes "fs_ok u" "addrs_ok u i" "addrs_ok u j"
  shows "inode_block u i \<notin> mapblk u" "inode_block u i \<notin> fblocks u j"
proof -
  have n: "i_inum (inodes u i) < sb_ninodes (sb u)" using assms(2) by (simp add: addrs_ok_def)
  then show "inode_block u i \<notin> mapblk u" using assms(1) by (simp add: fs_ok_def inode_block_def)
  have "inode_block u i \<in> metablk u" using n by (auto simp: metablk_def inode_block_def)
  then show "inode_block u i \<notin> fblocks u j" using addrs_ok_blocks [OF assms(3)] by blast
qed

lemma resized:
  assumes ok: "fs_ok u" "addrs_ok u i" and f: "sb t = sb u" "log_area t = log_area u" "disksize t = disksize u"
    and i: "inodes t = (inodes u)(i := (inodes u i)\<lparr>i_size := z\<rparr>)" and v: "bview t = (bview u)(inode_block u i := d)"
  shows "fs_ok t" "addrs_ok u j \<Longrightarrow> baddr t j = baddr u j" "addrs_ok u j \<Longrightarrow> addrs_ok t j" "addrs_ok u j \<Longrightarrow> k \<in> fblocks u j \<Longrightarrow> bview t k = bview u k"
proof -
  have us: "used t k = used u k" if "k < fs_size u" for k
  proof (rule used_same_map [OF f(1) _ that])
    fix b assume "b < fs_size u"
    then have "bmblk u b \<in> mapblk u" by (simp add: mapblk_def)
    then show "bview t (bmblk u b) = bview u (bmblk u b)" using inode_block_apart(1) [OF ok ok(2)] v by auto
  qed
  show "fs_ok t" by (rule fs_ok_cong [OF ok(1) f]) (simp add: us)
  assume j: "addrs_ok u j"
  show keep: "bview t k = bview u k" if "k \<in> fblocks u j" for k using inode_block_apart(2) [OF ok j] that v by auto
  note b = baddr_cong [of t j u, OF _ keep [OF in_fblocks(1)]]
  show "baddr t j = baddr u j" by (rule b(2)) (simp add: i)
  show "addrs_ok t j" by (rule addrs_ok_cong [OF j b(1,2) f(1,2)]) (auto simp: i us)
qed

lemma grow_size:
  assumes t: "tx {} (Suc r) u" and ok: "fs_ok u" "addrs_ok u i"
  shows "\<exists>t. seqk (upd_inode i (\<lambda>x. x\<lparr>i_size := z\<rparr>)) (iupdate i) u = Ok ((), t) \<and> tx {} r t \<and> sb t = sb u \<and> log_area t = log_area u \<and>
    disksize t = disksize u \<and> inodes t = (inodes u)(i := (inodes u i)\<lparr>i_size := z\<rparr>) \<and> (\<exists>d. bview t = (bview u)(inode_block u i := d)) \<and> synced t i"
proof -
  let ?v = "u\<lparr>inodes := (inodes u)(i := (inodes u i)\<lparr>i_size := z\<rparr>)\<rparr>"
  have tv: "tx {} (Suc r) ?v" using t by (simp add: inodes_frame)
  have dev: "i_dev (inodes ?v i) = 1" "i_inum (inodes ?v i) = i_inum (inodes u i)" using ok(2) by (simp_all add: addrs_ok_def)
  have "iblk_ok u (i_inum (inodes u i))" using ok by (simp add: fs_ok_def addrs_ok_def)
  then have ib: "iblk_ok ?v (i_inum (inodes ?v i))" by (simp add: iblk_ok_def inodes_frame)
  obtain t where u: "iupdate i ?v = Ok ((), t)" "tx {} r t" "fsame ?v t"
    "bview t = (bview ?v)(unat (IBLOCK (i_inum (inodes ?v i)) (sb ?v)) :=
       put_dinode (dinode_off (i_inum (inodes ?v i))) (inodes ?v i) (bview ?v (unat (IBLOCK (i_inum (inodes ?v i)) (sb ?v)))))"
    using iupdate_ok [OF tv dev(1) ib] by blast
  have f: "sb t = sb u" "inodes t = inodes ?v" "log_area t = log_area u" "disksize t = disksize u"
    using fsame_fields [OF u(3)] fsame_area [OF u(3)] u(3) by (simp_all add: fsame_def inodes_frame)
  have b: "bview t = (bview u)(inode_block u i := put_dinode (dinode_off (i_inum (inodes u i))) (inodes ?v i) (bview u (inode_block u i)))"
    using u(4) by (simp add: inodes_frame inode_block_def)
  have ibt: "inode_block t i = inode_block u i" by (simp add: inode_block_def f)
  have "bview t (inode_block t i) = put_dinode (dinode_off (i_inum (inodes t i))) (inodes t i) (bview u (inode_block u i))"
    unfolding ibt by (simp add: b f(2))
  then have "synced t i" unfolding synced_def by (simp only: get_put_dinode)
  moreover have "seqk (upd_inode i (\<lambda>x. x\<lparr>i_size := z\<rparr>)) (iupdate i) u = Ok ((), t)" using u(1) by (simp add: kern_simps upd_inode_def)
  ultimately show ?thesis using u(2) f b by auto
qed

section \<open>Writing a file\<close>

text \<open>What \<open>writei\<close> needs to succeed: space in the log, free blocks, and a range that starts inside the file and fits the largest file.\<close>

definition can_write :: "nat \<Rightarrow> nat \<Rightarrow> nat \<Rightarrow> nat \<Rightarrow> 'x fsst_scheme \<Rightarrow> bool" where
  "can_write r i off n s \<longleftrightarrow> tx {} (r + 6 * nblk off n + 1) s \<and> 2 * nblk off n \<le> card (free_blocks s) \<and>
     off \<le> fsize s i \<and> off + n \<le> MAXFILE * BSIZE"

lemma file_ok_parts: "file_ok s i \<Longrightarrow> fs_ok s" "file_ok s i \<Longrightarrow> addrs_ok s i" "file_ok s i \<Longrightarrow> fsize s i \<le> MAXFILE * BSIZE"
  "file_ok s i \<Longrightarrow> k < fsize s i \<Longrightarrow> baddr s i (k div BSIZE) \<noteq> 0"
  by (simp_all add: file_ok_def)

lemma unat_add_small: "unat a + unat b < 2 ^ 32 \<Longrightarrow> unat (a + b :: u32) = unat a + unat b"
  by (simp add: unat_word_ariths)

lemma wrapped: "\<not> unat off + unat n < 2 ^ 32 \<Longrightarrow> off + n < (off :: u32)"
proof -
  assume big: "\<not> unat off + unat n < 2 ^ 32"
  then have "unat (off + n) = unat off + unat n - 2 ^ 32"
    using unat32_less [of off] unat32_less [of n] by (simp add: unat_word_ariths le_mod_geq)
  then have "unat (off + n) < unat off" using big unat32_less [of n] by simp
  then show ?thesis by (simp add: word_less_nat_alt)
qed

lemma sint_small: "unat (n :: u32) < 2 ^ 31 \<Longrightarrow> sint n = int (unat n)"
proof -
  assume "unat n < 2 ^ 31"
  then have "int (unat n) < 2 ^ 31" by (metis of_nat_less_iff of_nat_numeral of_nat_power)
  then have "uint n < 2 ^ 31" by simp
  moreover have "- (2 ^ 31) \<le> uint n" by (rule order_trans [OF _ uint_ge_0]) simp
  ultimately show ?thesis by (simp add: sint_uint signed_take_bit_int_eq_self)
qed

lemma max_bytes: "MAXFILE * BSIZE = 71680"
  by (simp add: fs_consts)

lemma writei_enters:
  assumes "file_ok s i" "unat off \<le> fsize s i" "unat off + unat n \<le> MAXFILE * BSIZE"
  shows "writei i src off n s = seqk (writei_loop i src 0 (unat off) (unat n)) (\<lambda>s.
       seqk (whenk (n > 0 \<and> i_size (inodes s i) < off + n) (seqk (upd_inode i (\<lambda>x. x\<lparr>i_size := off + n\<rparr>)) (iupdate i)))
         (ret (int (unat n))) s) s"
    "unat (off + n) = unat off + unat n"
proof -
  have le: "unat off + unat n \<le> 71680" using assms(3) unfolding max_bytes .
  then show add: "unat (off + n) = unat off + unat n" by (intro unat_add_small) simp
  have "sint n = int (unat n)" using le by (intro sint_small) simp
  moreover have "\<not> (i_size (inodes s i) < off \<or> off + n < off)" using assms(2) add by (auto simp: word_less_nat_alt fsize_def)
  moreover have "\<not> of_nat (MAXFILE * BSIZE) < off + n" unfolding max_bytes using le add by (simp add: word_less_nat_alt)
  moreover have "i_type (inodes s i) \<noteq> T_DEV" using assms(1) by (simp add: file_ok_def)
  ultimately show "writei i src off n s = seqk (writei_loop i src 0 (unat off) (unat n)) (\<lambda>s.
       seqk (whenk (n > 0 \<and> i_size (inodes s i) < off + n) (seqk (upd_inode i (\<lambda>x. x\<lparr>i_size := off + n\<rparr>)) (iupdate i)))
         (ret (int (unat n))) s) s"
    by (simp add: writei_def)
qed

text \<open>The loop has stored the bytes; the size is brought up to date.\<close>

lemma written_file:
  assumes f: "file_ok s i" and tk: "taken N i s u" "N \<subseteq> free_blocks s"
    and fb: "\<forall>k < MAXFILE * BSIZE. fbyte u i k = filled (fbyte s i) off n src k"
    and cov: "\<forall>k. off \<le> k \<longrightarrow> k < off + n \<longrightarrow> baddr u i (k div BSIZE) \<noteq> 0"
    and r: "off \<le> fsize s i" "off + n \<le> MAXFILE * BSIZE"
    and t: "fs_ok t" "addrs_ok t i" "inodes t i = (inodes u i)\<lparr>i_size := i_size (inodes t i)\<rparr>" "fsize t i = max (fsize s i) (off + n)"
      "baddr t i = baddr u i" "\<And>k. k \<in> fblocks u i \<Longrightarrow> bview t k = bview u k" "synced t i"
  shows "file_ok t i" "content t i = take off (content s i) @ map src [0 ..< n] @ drop (off + n) (content s i)"
proof -
  note le = file_ok_parts(3) [OF f]
  have ty: "i_type (inodes t i) = i_type (inodes s i)" using t(3) tk(1) by (cases "inodes t i") (auto simp: taken_def)
  have fbt: "fbyte t i k = filled (fbyte s i) off n src k" if "k < MAXFILE * BSIZE" for k
  proof -
    have "fbyte t i k = fbyte u i k"
      using t(6) [OF in_fblocks(2) [OF fbyte_block [OF that]]] by (auto simp: fbyte_def Let_def t(5))
    then show ?thesis using fb that by simp
  qed
  have mapped: "baddr t i (k div BSIZE) \<noteq> 0" if "k < fsize t i" for k
  proof (cases "off \<le> k \<and> k < off + n")
    case True
    then show ?thesis using cov t(5) by simp
  next
    case False
    then have "k < fsize s i" using that r t(4) by auto
    moreover have "k div BSIZE < MAXFILE" using calculation le by (intro fbyte_block) simp
    ultimately show ?thesis using taken_mapped [OF tk(1)] file_ok_parts(4) [OF f] t(5) by simp
  qed
  show "file_ok t i" using t mapped f le r ty by (simp add: file_ok_def)
  have "content t i = map (filled (fbyte s i) off n src) [0 ..< fsize t i]"
    using fbt le r t(4) by (simp add: content_def)
  then show "content t i = take off (content s i) @ map src [0 ..< n] @ drop (off + n) (content s i)"
    using filled_list [OF r(1) t(4)] by (simp add: content_def)
qed

lemma synced_same:
  assumes "synced s i" "inodes t i = inodes s i" "sb t = sb s" "bview t (inode_block s i) = bview s (inode_block s i)"
  shows "synced t i"
  using assms by (simp add: synced_def inode_block_def)

lemma writei_finish:
  assumes f: "file_ok s i" and w: "can_write r i (unat off) (unat n) s"
  shows "\<exists>N u t. writei i src off n s = Ok (int (unat n), t) \<and> tx {} r t \<and> taken N i s u \<and> N \<subseteq> free_blocks s \<and>
    sb t = sb u \<and> log_area t = log_area u \<and> disksize t = disksize u \<and>
    (\<exists>z d. inodes t = (inodes u)(i := (inodes u i)\<lparr>i_size := z\<rparr>) \<and> bview t = (bview u)(inode_block u i := d)) \<and>
    file_ok t i \<and> content t i = take (unat off) (content s i) @ map src [0 ..< unat n] @ drop (unat off + unat n) (content s i)"
proof -
  let ?o = "unat off" and ?n = "unat n"
  have c: "tx {} (Suc r + 6 * nblk ?o ?n) s" "2 * nblk ?o ?n \<le> card (free_blocks s)" "?o \<le> fsize s i" "?o + ?n \<le> MAXFILE * BSIZE"
    using w by (simp_all add: can_write_def add.commute)
  note e = writei_enters [OF f c(3,4)]
  obtain N u where u: "writei_loop i src 0 ?o ?n s = Ok ((), u)" "tx {} (Suc r) u" "taken N i s u" "N \<subseteq> free_blocks s"
    "\<forall>k < MAXFILE * BSIZE. fbyte u i k = filled (fbyte s i) ?o ?n src k"
    "\<forall>k. ?o \<le> k \<longrightarrow> k < ?o + ?n \<longrightarrow> baddr u i (k div BSIZE) \<noteq> 0"
    "(\<forall>k. ?o \<le> k \<longrightarrow> k < ?o + ?n \<longrightarrow> baddr s i (k div BSIZE) \<noteq> 0) \<longrightarrow> inodes u = inodes s"
    using writei_loop_ok [OF c(1) file_ok_parts(1,2) [OF f] c(2,4), of src 0] by auto
  note wf = written_file [OF f u(3-6) c(3,4)]
  have oku: "fs_ok u" "addrs_ok u i" using taken_ok [OF u(3)] by auto
  have zu: "i_size (inodes u i) = i_size (inodes s i)" using u(3) by (auto simp: taken_def)
  show ?thesis
  proof (cases "n > 0 \<and> i_size (inodes u i) < off + n")
    case True
    then obtain t d where t: "seqk (upd_inode i (\<lambda>x. x\<lparr>i_size := off + n\<rparr>)) (iupdate i) u = Ok ((), t)" "tx {} r t" "sb t = sb u"
      "log_area t = log_area u" "disksize t = disksize u" "inodes t = (inodes u)(i := (inodes u i)\<lparr>i_size := off + n\<rparr>)"
      "bview t = (bview u)(inode_block u i := d)" "synced t i" using grow_size [OF u(2) oku, of "off + n"] by blast
    note rs = resized [OF oku t(3-7)]
    have "fsize t i = max (fsize s i) (?o + ?n)" using True t(6) e(2) zu by (simp add: fsize_def word_less_nat_alt)
    then have "file_ok t i" "content t i = take ?o (content s i) @ map src [0 ..< ?n] @ drop (?o + ?n) (content s i)"
      using wf [OF rs(1) rs(3) [OF oku(2)]] rs(2,4) [OF oku(2)] t(6,8) by auto
    moreover have "writei i src off n s = Ok (int ?n, t)" using e(1) u(1) True t(1) by (simp add: kern_simps)
    ultimately show ?thesis using t u(3,4) by blast
  next
    case False
    have "?o + ?n \<le> fsize s i"
    proof (cases "n > 0")
      case True
      then show ?thesis using False zu e(2) by (simp add: word_less_nat_alt fsize_def)
    next
      case no: False
      then have "n = 0" by (simp add: word_gt_0)
      then show ?thesis using c(3) by simp
    qed
    then have m: "fsize u i = max (fsize s i) (?o + ?n)" and iu: "inodes u = inodes s"
      using file_ok_parts(4) [OF f] u(7) zu by (simp_all add: fsize_def)
    have "bview u (inode_block s i) = bview s (inode_block s i)"
      using taken_inode_block [OF u(3,4) file_ok_parts(1,2) [OF f], of "i_inum (inodes s i)"] file_ok_parts(2) [OF f]
      by (simp add: inode_block_def addrs_ok_def)
    moreover have "synced s i" "sb u = sb s" using f u(3) by (simp_all add: file_ok_def taken_def)
    ultimately have sy: "synced u i" using synced_same [of s i u] iu by simp
    have "file_ok u i" "content u i = take ?o (content s i) @ map src [0 ..< ?n] @ drop (?o + ?n) (content s i)"
      by (rule wf [OF oku _ m]; simp add: sy)+
    moreover have "writei i src off n s = Ok (int ?n, u)" unfolding e(1) by (simp add: kern_simps u(1) False whenk_def)
    moreover have "inodes u = (inodes u)(i := (inodes u i)\<lparr>i_size := i_size (inodes u i)\<rparr>)" by simp
    moreover have "bview u = (bview u)(inode_block u i := bview u (inode_block u i))" by simp
    ultimately show ?thesis using tx_mono [OF u(2), of r] u(3,4) by (metis le_Suc_eq order_refl)
  qed
qed

lemma written_other:
  assumes tk: "taken N i s u" "N \<subseteq> free_blocks s" and j: "j \<noteq> i" "file_ok s j" "fblocks s j \<inter> fblocks s i = {}"
    and t: "sb t = sb u" "log_area t = log_area u" "disksize t = disksize u" "inodes t = (inodes u)(i := (inodes u i)\<lparr>i_size := z\<rparr>)"
      "bview t = (bview u)(inode_block u i := d)"
  shows "content t j = content s j"
proof -
  have aj: "addrs_ok s j" by (rule file_ok_parts(2) [OF j(2)])
  note o = taken_other [OF tk j(1) aj j(3)]
  have ind: "ind u j = ind s j" by (simp add: ind_def o(1))
  then have fb: "fblocks u j = fblocks s j" by (simp add: fblocks_def o(2))
  have "addrs_ok u j" by (rule addrs_ok_cong [OF aj ind o(2)]) (use tk(1) o(1) in \<open>auto simp: taken_def\<close>)
  have oku: "fs_ok u" "addrs_ok u i" using taken_ok [OF tk(1)] by auto
  note r = resized(2,4) [OF oku t, where j = j]
  show ?thesis
  proof (rule content_cong [OF j(2)])
    show "inodes t j = inodes s j" using t(4) j(1) o(1) by simp
    show "baddr t j = baddr s j" using r(1) \<open>addrs_ok u j\<close> o(2) by simp
    show "bview t k = bview s k" if "k \<in> fblocks s j" for k using r(2) [OF \<open>addrs_ok u j\<close>] o(3) [OF that] that fb by simp
  qed
qed

lemma writei_succeeds:
  assumes f: "file_ok s i" and w: "can_write r i (unat off) (unat n) s"
  shows "\<exists>t. writei i src off n s = Ok (int (unat n), t) \<and> tx {} r t \<and> file_ok t i \<and>
      content t i = take (unat off) (content s i) @ map src [0 ..< unat n] @ drop (unat off + unat n) (content s i) \<and>
      (\<forall>j. j \<noteq> i \<and> file_ok s j \<and> fblocks s j \<inter> fblocks s i = {} \<longrightarrow> content t j = content s j)"
proof -
  obtain N u t z d where t: "writei i src off n s = Ok (int (unat n), t)" "tx {} r t" "taken N i s u" "N \<subseteq> free_blocks s"
    "sb t = sb u" "log_area t = log_area u" "disksize t = disksize u" "inodes t = (inodes u)(i := (inodes u i)\<lparr>i_size := z\<rparr>)"
    "bview t = (bview u)(inode_block u i := d)" "file_ok t i"
    "content t i = take (unat off) (content s i) @ map src [0 ..< unat n] @ drop (unat off + unat n) (content s i)"
    using writei_finish [OF f w, of src] by blast
  have "content t j = content s j" if j: "j \<noteq> i" "file_ok s j" "fblocks s j \<inter> fblocks s i = {}" for j
    by (rule written_other [OF t(3,4) j]) (rule t)+
  then show ?thesis using t by blast
qed

text \<open>
  C8: writing a file.  A file is a list of bytes.  When the range starts inside the file and fits the largest file, and the transaction has room for
  the blocks it touches, \<open>writei\<close> returns the number of bytes and replaces exactly the range, making the file longer when it reaches
  beyond the end; the file stays well formed (its blocks allocated, distinct, outside the metadata, and its inode on the disk up to
  date), and every other file keeps its contents.  In all other cases it returns -1 and changes nothing.
\<close>

theorem writei_updates_file:
  assumes "file_ok s i"
  shows "if unat off \<le> fsize s i \<and> unat off + unat n \<le> MAXFILE * BSIZE
    then can_write r i (unat off) (unat n) s \<longrightarrow> (\<exists>t. writei i src off n s = Ok (int (unat n), t) \<and> tx {} r t \<and> file_ok t i \<and>
      content t i = take (unat off) (content s i) @ map src [0 ..< unat n] @ drop (unat off + unat n) (content s i) \<and>
      (\<forall>j. j \<noteq> i \<and> file_ok s j \<and> fblocks s j \<inter> fblocks s i = {} \<longrightarrow> content t j = content s j))
    else writei i src off n s = Ok (-1, s)"
proof (cases "unat off \<le> fsize s i \<and> unat off + unat n \<le> MAXFILE * BSIZE")
  case False
  have "i_type (inodes s i) \<noteq> T_DEV" using assms by (simp add: file_ok_def)
  moreover have "i_size (inodes s i) < off \<or> off + n < off \<or> of_nat (MAXFILE * BSIZE) < off + n"
  proof (cases "unat off + unat n < 2 ^ 32")
    case True
    from unat_add_small [OF this] show ?thesis using False unfolding max_bytes by (auto simp: word_less_nat_alt fsize_def)
  qed (use wrapped in simp)
  ultimately show ?thesis using False by (auto simp: writei_def)
next
  case True
  then show ?thesis using writei_succeeds [OF assms] by auto
qed

section \<open>Reading a file\<close>

lemma unchanged:
  assumes "file_ok s i" "fsame s u" "bview u = bview s"
  shows "file_ok u i \<and> content u i = content s i"
proof -
  have g: "grown {} i s u" by (rule grown_same [OF file_ok_parts(1,2) [OF assms(1)] assms(2,3)])
  have f: "inodes u = inodes s" "sb u = sb s" using fsame_fields [OF assms(2)] by auto
  have b: "baddr u i = baddr s i" by (rule baddr_cong(2)) (simp_all add: f assms(3))
  have "synced u i" using assms(1,3) f by (simp add: synced_def inode_block_def file_ok_def)
  then have "file_ok u i" using assms(1) grown_ok [OF g] f by (simp add: file_ok_def fsize_def b)
  moreover have "content u i = content s i" by (rule content_cong [OF assms(1)]) (simp_all add: f b assms(3))
  ultimately show ?thesis by blast
qed

text \<open>
  \<open>readi\<close> returns the bytes of the file from the offset on, as many as were asked for and as the file has, in the caller's buffer, together with
  their number; it changes neither this file nor the log.  An offset beyond the end of the file, and a range that wraps around, give -1.
\<close>

lemma readi_reads:
  assumes "tx {} r s" "file_ok s i"
  shows "if unat off \<le> fsize s i \<and> unat off + unat n < 2 ^ 32
    then (let xs = take (unat n) (drop (unat off) (content s i)) in
      \<exists>t. readi i dst off n s = Ok ((int (length xs), \<lambda>k. if k < length xs then xs ! k else dst k), t) \<and>
        tx {} r t \<and> file_ok t i \<and> content t i = content s i)
    else readi i dst off n s = Ok ((-1, dst), s)"
proof (cases "unat off \<le> fsize s i \<and> unat off + unat n < 2 ^ 32")
  case False
  have "i_size (inodes s i) < off \<or> off + n < off"
  proof (cases "unat off + unat n < 2 ^ 32")
    case True
    then show ?thesis using False by (simp add: word_less_nat_alt fsize_def)
  qed (use wrapped in simp)
  then show ?thesis using False assms(2) by (simp add: readi_def file_ok_def)
next
  case True
  define n' where "n' = (if i_size (inodes s i) < off + n then i_size (inodes s i) - off else n)"
  let ?xs = "take (unat n) (drop (unat off) (content s i))"
  have add: "unat (off + n) = unat off + unat n" using True by (intro unat_add_small) simp
  have sub: "unat (i_size (inodes s i) - off) = fsize s i - unat off"
    using True by (simp add: fsize_def unat_sub word_le_nat_alt)
  have len: "unat n' = length ?xs" using add sub True by (auto simp: n'_def word_less_nat_alt fsize_def)
  note parts = file_ok_parts [OF assms(2)]
  have "unat n' \<le> fsize s i - unat off" using len by simp
  then have le: "unat off + unat n' \<le> fsize s i" using True by linarith
  obtain u where u: "readi_loop i dst 0 (unat off) (unat n') s = Ok (copy_bytes dst 0 (fbyte s i) (unat off) (unat n'), u)"
    "tx {} r u" "fsame s u" "bview u = bview s"
    using readi_loop_ok [OF assms(1) parts(1,2), of "unat off" "unat n'" dst 0] parts(3,4) le by auto
  have "sint n' = int (length ?xs)" using len le parts(3) max_bytes by (simp add: sint_small)
  then have "readi i dst off n s = Ok ((int (length ?xs), copy_bytes dst 0 (fbyte s i) (unat off) (unat n')), u)"
    using True add u(1) assms(2) unfolding readi_def Let_def n'_def [symmetric]
    by (auto simp: file_ok_def fsize_def word_less_nat_alt kern_simps)
  moreover have "copy_bytes dst 0 (fbyte s i) (unat off) (unat n') = (\<lambda>k. if k < length ?xs then ?xs ! k else dst k)"
    using le len by (auto simp: copy_bytes_def fun_eq_iff content_def)
  moreover have "file_ok u i" "content u i = content s i" using unchanged [OF assms(2) u(3,4)] by auto
  ultimately show ?thesis using True u(2) by (simp add: Let_def)
qed

section \<open>The interface of a file\<close>

text \<open>
  What the callers of \<open>readi\<close> and \<open>writei\<close> rely on: a well-formed file has contents, a list of bytes; a write replaces a range of it and a read returns a range.
\<close>

locale byte_file =
  fixes ok :: "'s \<Rightarrow> bool" and bytes_of :: "'s \<Rightarrow> 'b list"
    and wr :: "nat \<Rightarrow> 'b list \<Rightarrow> 's \<Rightarrow> 's \<Rightarrow> bool" and rd :: "nat \<Rightarrow> nat \<Rightarrow> 's \<Rightarrow> 'b list \<Rightarrow> 's \<Rightarrow> bool"
  assumes wr_law: "ok s \<Longrightarrow> wr off xs s t \<Longrightarrow> off \<le> length (bytes_of s) \<and> ok t \<and>
      bytes_of t = take off (bytes_of s) @ xs @ drop (off + length xs) (bytes_of s)"
    and rd_law: "ok s \<Longrightarrow> rd off n s ys t \<Longrightarrow> ys = take n (drop off (bytes_of s)) \<and> ok t \<and> bytes_of t = bytes_of s"
begin

lemma read_back: "ok s \<Longrightarrow> wr off xs s t \<Longrightarrow> rd off (length xs) t ys u \<Longrightarrow> ys = xs"
  using wr_law [of s off xs t] rd_law [of t off "length xs" ys u] by simp

lemma read_before:
  assumes "ok s" "wr off xs s t" "off' + n \<le> off" "rd off' n t ys u" "rd off' n s zs v" shows "ys = zs"
proof -
  have "take n (drop off' (take off (bytes_of s))) = take n (drop off' (bytes_of s))" using assms(3) by (simp add: drop_take min_absorb1)
  moreover have "off \<le> length (bytes_of s)" using wr_law [OF assms(1,2)] by blast
  ultimately show ?thesis
    using wr_law [OF assms(1,2)] rd_law [of t, OF _ assms(4)] rd_law [OF assms(1,5)] assms(3) by simp
qed

lemma append_bytes: "ok s \<Longrightarrow> wr (length (bytes_of s)) xs s t \<Longrightarrow> bytes_of t = bytes_of s @ xs"
  using wr_law [of s "length (bytes_of s)" xs t] by simp

end

definition wrote :: "nat \<Rightarrow> nat \<Rightarrow> u8 list \<Rightarrow> 'x fsst_scheme \<Rightarrow> 'x fsst_scheme \<Rightarrow> bool" where
  "wrote i off xs s t \<longleftrightarrow> (\<exists>r. can_write r i off (length xs) s) \<and>
     writei i (nth xs) (of_nat off) (of_nat (length xs)) s = Ok (int (length xs), t)"

definition was_read :: "nat \<Rightarrow> nat \<Rightarrow> nat \<Rightarrow> 'x fsst_scheme \<Rightarrow> u8 list \<Rightarrow> 'x fsst_scheme \<Rightarrow> bool" where
  "was_read i off n s ys t \<longleftrightarrow> (\<exists>r. tx {} r s) \<and> off + n < 2 ^ 32 \<and>
     (\<exists>dst d. readi i dst (of_nat off) (of_nat n) s = Ok ((int (length ys), d), t) \<and> ys = map d [0 ..< length ys])"

interpretation inode_file: byte_file "\<lambda>s. file_ok s i" "\<lambda>s. content s i" "wrote i" "was_read i" for i
proof
  fix s :: "'x fsst_scheme" and t off xs
  assume f: "file_ok s i" and w: "wrote i off xs s t"
  then obtain r where r: "can_write r i off (length xs) s" by (auto simp: wrote_def)
  then have b: "off \<le> fsize s i" "off + length xs \<le> 71680" by (simp_all add: can_write_def max_bytes)
  then have u: "unat (of_nat off :: u32) = off" "unat (of_nat (length xs) :: u32) = length xs" by (simp_all add: unat_of_nat)
  have "map ((!) xs) [0 ..< length xs] = xs" by (rule map_nth)
  then show "off \<le> length (content s i) \<and> file_ok t i \<and> content t i = take off (content s i) @ xs @ drop (off + length xs) (content s i)"
    using writei_succeeds [OF f, where off = "of_nat off" and n = "of_nat (length xs)" and src = "nth xs", unfolded u, OF r] w b(1)
    by (auto simp: wrote_def)
next
  fix s :: "'x fsst_scheme" and t off n ys
  assume f: "file_ok s i" and w: "was_read i off n s ys t"
  then obtain r dst d where r: "tx {} r s" "off + n < 2 ^ 32" "readi i dst (of_nat off) (of_nat n) s = Ok ((int (length ys), d), t)"
    "ys = map d [0 ..< length ys]" by (auto simp: was_read_def)
  have u: "unat (of_nat off :: u32) = off" "unat (of_nat n :: u32) = n" using r(2) by (simp_all add: unat_of_nat)
  let ?xs = "take n (drop off (content s i))"
  note rd = readi_reads [OF r(1) f, where off = "of_nat off" and n = "of_nat n" and dst = dst, unfolded u r(3)]
  have le: "off \<le> fsize s i" using rd by (auto split: if_splits)
  then have "length ys = length ?xs" "d = (\<lambda>k. if k < length ?xs then ?xs ! k else dst k)" "file_ok t i" "content t i = content s i"
    using rd r(2) by (auto simp: Let_def)
  moreover from this have "ys = ?xs" using r(4) by (metis (no_types, lifting) map_nth map_cong atLeastLessThan_iff set_upt)
  ultimately show "ys = ?xs \<and> file_ok t i \<and> content t i = content s i" by blast
qed

text \<open>
  What is written to a file is read back.  After a successful write of any bytes at any offset up to the end of the file, reading the same range gives exactly these bytes, and
  reading a range before it gives what it gave before the write.
\<close>

theorem file_read_back:
  assumes "file_ok s i" "can_write r i off (length xs) s"
  shows "\<exists>t. writei i (nth xs) (of_nat off) (of_nat (length xs)) s = Ok (int (length xs), t) \<and>
    (\<exists>d u. readi i dst (of_nat off) (of_nat (length xs)) t = Ok ((int (length xs), d), u) \<and> map d [0 ..< length xs] = xs) \<and>
    (\<forall>off' n d u d' v. off' + n \<le> off \<longrightarrow> readi i dst (of_nat off') (of_nat n) t = Ok ((int n, d), u) \<longrightarrow>
       readi i dst (of_nat off') (of_nat n) s = Ok ((int n, d'), v) \<longrightarrow> map d [0 ..< n] = map d' [0 ..< n])"
proof -
  have b: "off + length xs \<le> 71680" using assms(2) by (simp add: can_write_def max_bytes)
  then have u: "unat (of_nat off :: u32) = off" "unat (of_nat (length xs) :: u32) = length xs" by (simp_all add: unat_of_nat)
  obtain t where t: "writei i (nth xs) (of_nat off) (of_nat (length xs)) s = Ok (int (length xs), t)" "tx {} r t" "file_ok t i"
    "content t i = take off (content s i) @ map (nth xs) [0 ..< length xs] @ drop (off + length xs) (content s i)"
    using writei_succeeds [OF assms(1), where off = "of_nat off" and n = "of_nat (length xs)" and src = "nth xs", unfolded u, OF assms(2)] by blast
  have w: "wrote i off xs s t" using t(1) assms(2) by (auto simp: wrote_def)
  have ct: "length (content t i) = max (fsize s i) (off + length xs)" using t(4) assms(2) by (simp add: can_write_def)
  then have sz: "fsize t i = max (fsize s i) (off + length xs)" by simp
  have "off \<le> fsize t i \<and> off + length xs < 2 ^ 32" "length (take (length xs) (drop off (content t i))) = length xs" using sz b by auto
  then obtain d v where d: "readi i dst (of_nat off) (of_nat (length xs)) t = Ok ((int (length xs), d), v)"
    using readi_reads [OF t(2,3), where off = "of_nat off" and n = "of_nat (length xs)" and dst = dst, unfolded u Let_def] by (simp del: length_take) blast
  have "was_read i off (length xs) t (map d [0 ..< length xs]) v" using d t(2) b by (auto simp: was_read_def)
  then have "map d [0 ..< length xs] = xs" by (rule inode_file.read_back [OF assms(1) w])
  moreover have "map d [0 ..< n] = map d' [0 ..< n]" if "off' + n \<le> off" "readi i dst (of_nat off') (of_nat n) t = Ok ((int n, d), u)"
    "readi i dst (of_nat off') (of_nat n) s = Ok ((int n, d'), v)" for off' n d u d' v
  proof (rule inode_file.read_before [OF assms(1) w that(1)])
    show "was_read i off' n t (map d [0 ..< n]) u" using that b t(2) by (auto simp: was_read_def)
    show "was_read i off' n s (map d' [0 ..< n]) v" using that b assms(2) by (auto simp: was_read_def can_write_def)
  qed
  ultimately show ?thesis using t(1) d by blast
qed

section \<open>An example\<close>

text \<open>An empty file on the disk of the example.\<close>

lemma ex_file_inode: "inodes ex_fs 2 = ex_inode" "baddr ex_fs 2 bn = 0" "ind ex_fs 2 = 0"
  by (simp_all add: ex_fs_fs ex_fboot_def baddr_def ind_def ex_inode_def)

lemma ex_fs_blocks: "mapblk ex_fs = {58}" "sb_ninodes (sb ex_fs) = 200" "n < 200 \<Longrightarrow> unat (IBLOCK n (sb ex_fs)) = 32 + unat n div 8"
proof -
  have "bmblk ex_fs b = 58" if "b < 1000" for b
    using bmblk_eq(1) [OF ex_fs_map, of b] that by (simp add: ex_fs_size ex_fs_fs ex_sb_def BPB_def)
  moreover have "(0 :: nat) < 1000" by simp
  ultimately show "mapblk ex_fs = {58}" unfolding mapblk_def ex_fs_size by (metis image_cong image_constant lessThan_iff)
  show "sb_ninodes (sb ex_fs) = 200" by (simp add: ex_fs_fs ex_sb_def)
  assume "n < 200"
  then have "unat n < 200" by (simp add: word_less_nat_alt)
  then show "unat (IBLOCK n (sb ex_fs)) = 32 + unat n div 8"
    by (simp add: IBLOCK_def IPB_def ex_fs_fs ex_sb_def unat_word_ariths unat_of_nat)
qed

lemma ex_fs_ok: "fs_ok ex_fs"
proof -
  have un: "unat n div 8 < 25" if "n < 200" for n :: u32
  proof -
    have "unat n < 200" using that by (simp add: word_less_nat_alt)
    then show ?thesis by simp
  qed
  have "metablk ex_fs \<subseteq> {..< 64}"
    using un by (force simp: metablk_def ex_fs_blocks log_area_def ex_fs_log simp flip: mapblk_def)
  then have "used ex_fs k" if "k \<in> metablk ex_fs" "k < 1000" for k using that ex_fs_used by blast
  moreover have "iblk_ok ex_fs n \<and> unat (IBLOCK n (sb ex_fs)) \<notin> mapblk ex_fs" if "n < 200" for n
    using un [OF that] that by (simp add: iblk_ok_def fsblk_def ex_fs_blocks ex_fs_facts log_area_def ex_fs_log)
  ultimately show ?thesis by (simp add: fs_ok_def ex_fs_map ex_fs_size ex_fs_blocks(2))
qed

lemma ex_file_ok: "file_ok ex_fs 2" "fsize ex_fs 2 = 0" "content ex_fs 2 = []"
proof -
  show sz: "fsize ex_fs 2 = 0" by (simp add: fsize_def ex_file_inode ex_inode_def)
  then show "content ex_fs 2 = []" by (simp add: content_def)
  have "inode_block ex_fs 2 = 32" by (simp add: inode_block_def ex_file_inode ex_inode_def ex_fs_blocks)
  then have "synced ex_fs 2"
    by (simp add: synced_def ex_fs_view ex_file_inode ex_inode_def same_dinode_def get_dinode_def get16_def get32_def)
  moreover have "addrs_ok ex_fs 2" by (simp add: addrs_ok_def ex_file_inode ex_inode_def ex_fs_blocks)
  ultimately show "file_ok ex_fs 2" using sz ex_fs_ok by (simp add: file_ok_def ex_file_inode ex_inode_def T_DEV_def)
qed

lemma ex_free: "card (free_blocks ex_fs) = 936"
proof -
  have "free_blocks ex_fs = {64 ..< 1000}" using ex_fs_used by (auto simp: free_blocks_def ex_fs_size)
  then show ?thesis by simp
qed

lemma ex_can_write: "can_write 0 2 0 700 ex_fs"
  by (simp add: can_write_def ex_fs_tx ex_free ex_file_ok nblk_def fs_consts)

theorem writei_updates_file_witness:
  "\<exists>t. writei 2 of_nat 0 700 ex_fs = Ok (700, t) \<and> content t 2 = map of_nat [0 ..< 700]"
  using writei_updates_file [OF ex_file_ok(1), where off = 0 and n = 700 and r = 0 and src = of_nat] ex_can_write
  by (auto simp: ex_file_ok fs_consts)

theorem file_read_back_witness:
  "\<exists>t d u. writei 2 (nth (replicate 700 7)) 0 700 ex_fs = Ok (700, t) \<and>
    readi 2 (\<lambda>_. 0) 0 700 t = Ok ((700, d), u) \<and> map d [0 ..< 700] = replicate 700 7"
  using file_read_back [OF ex_file_ok(1), where off = 0 and xs = "replicate 700 7" and r = 0 and dst = "\<lambda>_. 0"] ex_can_write
  by auto

end
