(* ===== verification/File.thy ===== *)
theory File
  imports Fs Pipe
begin

text \<open>
  Open files (\<open>file.c\<close>) and the allocation of pipes (\<open>pipe.c\<close>).  The file table is an array of 100 entries with reference counts;
  an entry refers to an inode of the cache or to a pipe.  A pipe lives in a page: \<open>freepages\<close> is the list of
  free pages of the allocator, of which \<open>kalloc\<close> takes the first and to which \<open>kfree\<close> adds (theory \<open>Kalloc\<close>), and the
  structure of page \<open>i\<close> is \<open>pipes i\<close>, left as it was by its last use.  A read or write that has to wait gives the outcome
  \<open>Sleeps\<close>.  \<open>mykilled\<close> is the flag \<open>killed\<close> of the running process.
\<close>

definition NFILE :: nat where "NFILE = 100"

datatype ftype = FD_NONE | FD_PIPE | FD_INODE

record ofile =
  f_type :: ftype
  f_ref :: int
  f_readable :: bool
  f_writable :: bool
  f_pipe :: nat
  f_ip :: nat
  f_off :: u32

record filest = fsst +
  ftable :: "nat \<Rightarrow> ofile"
  pipes :: "nat \<Rightarrow> pipe"
  freepages :: "nat list"
  mykilled :: bool

type_synonym ('x, 'r) filekern = "('x filest_scheme, 'r) kern"

definition upd_file :: "nat \<Rightarrow> (ofile \<Rightarrow> ofile) \<Rightarrow> ('x, unit) filekern" where
  "upd_file i f = modk (\<lambda>s. s\<lparr>ftable := (ftable s)(i := f (ftable s i))\<rparr>)"

section \<open>Reference counts\<close>

definition filealloc :: "('x, nat option) filekern" where
  "filealloc = (\<lambda>s. case find (\<lambda>i. f_ref (ftable s i) = 0) [0 ..< NFILE] of
     None \<Rightarrow> Ok (None, s)
   | Some i \<Rightarrow> seqk (upd_file i (\<lambda>f. f\<lparr>f_ref := 1\<rparr>)) (ret (Some i)) s)"

definition filedup :: "nat \<Rightarrow> ('x, nat) filekern" where
  "filedup i = (\<lambda>s. if f_ref (ftable s i) < 1 then Panic ''filedup''
     else seqk (upd_file i (\<lambda>f. f\<lparr>f_ref := f_ref f + 1\<rparr>)) (ret i) s)"

definition pipeclose :: "nat \<Rightarrow> bool \<Rightarrow> ('x, unit) filekern" where
  "pipeclose i writable = modk (\<lambda>s. case pipe_close i writable (pipes s i) of
     (q, _, gone) \<Rightarrow> s\<lparr>pipes := (pipes s)(i := q), freepages := (if gone then i # freepages s else freepages s)\<rparr>)"

definition fileclose :: "nat \<Rightarrow> ('x, unit) filekern" where
  "fileclose i = (\<lambda>s.
     let f = ftable s i in
     if f_ref f < 1 then Panic ''fileclose''
     else if f_ref f - 1 > 0 then upd_file i (\<lambda>f. f\<lparr>f_ref := f_ref f - 1\<rparr>) s
     else seqk (upd_file i (\<lambda>f. f\<lparr>f_ref := 0, f_type := FD_NONE\<rparr>))
       (case f_type f of
          FD_PIPE \<Rightarrow> pipeclose (f_pipe f) (f_writable f)
        | FD_INODE \<Rightarrow> seqk begin_op (seqk (iput (f_ip f)) end_op)
        | FD_NONE \<Rightarrow> ret ()) s)"

definition page_alloc :: "('x, nat option) filekern" where
  "page_alloc = (\<lambda>s. case freepages s of [] \<Rightarrow> Ok (None, s) | p # ps \<Rightarrow> Ok (Some p, s\<lparr>freepages := ps\<rparr>))"

definition close_opt :: "nat option \<Rightarrow> ('x, unit) filekern" where
  "close_opt f = (case f of None \<Rightarrow> ret () | Some i \<Rightarrow> fileclose i)"

definition pipe_file :: "nat \<Rightarrow> bool \<Rightarrow> ofile \<Rightarrow> ofile" where
  "pipe_file p writable f = f\<lparr>f_type := FD_PIPE, f_readable := \<not> writable, f_writable := writable, f_pipe := p\<rparr>"

definition pipealloc :: "('x, (nat \<times> nat) option) filekern" where
  "pipealloc = bindk filealloc (\<lambda>f0. case f0 of
     None \<Rightarrow> ret None
   | Some a \<Rightarrow> bindk filealloc (\<lambda>f1. case f1 of
       None \<Rightarrow> seqk (fileclose a) (ret None)
     | Some b \<Rightarrow> bindk page_alloc (\<lambda>p. case p of
         None \<Rightarrow> seqk (fileclose a) (seqk (fileclose b) (ret None))
       | Some p \<Rightarrow>
           seqk (modk (\<lambda>s. s\<lparr>pipes := (pipes s)(p := pipe_init (pdata (pipes s p)))\<rparr>))
             (seqk (upd_file a (pipe_file p False)) (seqk (upd_file b (pipe_file p True)) (ret (Some (a, b))))))))"

section \<open>Reading and writing\<close>

definition filestat :: "nat \<Rightarrow> ('x, stat option) filekern" where
  "filestat i = (\<lambda>s. let f = ftable s i in
     if f_type f = FD_INODE then
       seqk (ilock (f_ip f)) (bindk (stati (f_ip f)) (\<lambda>st. seqk (iunlock (f_ip f)) (ret (Some st)))) s
     else Ok (None, s))"

definition list_bytes :: "u8 list \<Rightarrow> bytes" where
  "list_bytes bs = (\<lambda>k. if k < length bs then bs ! k else 0)"

definition fileread :: "nat \<Rightarrow> bytes \<Rightarrow> int \<Rightarrow> ('x, int \<times> bytes) filekern" where
  "fileread i dst n = (\<lambda>s. let f = ftable s i in
     if \<not> f_readable f then Ok ((-1, dst), s)
     else case f_type f of
       FD_PIPE \<Rightarrow>
         (case piperead_run (f_pipe f) (mykilled s) (nat n) (pipes s (f_pipe f)) of
            (RDone bs, _, q) \<Rightarrow>
              Ok ((int (length bs), copy_bytes dst 0 (list_bytes bs) 0 (length bs)), s\<lparr>pipes := (pipes s)(f_pipe f := q)\<rparr>)
          | (RErr, _, q) \<Rightarrow> Ok ((-1, dst), s)
          | (RSleep, _, q) \<Rightarrow> Sleeps ''piperead'')
     | FD_INODE \<Rightarrow>
         seqk (ilock (f_ip f)) (\<lambda>s.
           bindk (readi (f_ip f) dst (f_off (ftable s i)) (word_of_int n)) (\<lambda>(r, d).
             seqk (whenk (r > 0) (upd_file i (\<lambda>f. f\<lparr>f_off := f_off f + word_of_int r\<rparr>)))
               (seqk (iunlock (f_ip f)) (ret (r, d)))) s) s
     | FD_NONE \<Rightarrow> Panic ''fileread'')"

definition maxwrite :: nat where
  "maxwrite = ((MAXOPBLOCKS - 1 - 1 - 2) div 2) * 512"

text \<open>\<open>k\<close> of the \<open>n\<close> bytes are written (the variable \<open>i\<close> of the code).\<close>

function filewrite_loop :: "nat \<Rightarrow> nat \<Rightarrow> bytes \<Rightarrow> nat \<Rightarrow> nat \<Rightarrow> ('x, nat) filekern" where
  "filewrite_loop i ip src k n =
     (if n \<le> k then ret k
      else let n1 = min (n - k) maxwrite in
        seqk begin_op (seqk (ilock ip) (\<lambda>s.
          bindk (writei ip (\<lambda>j. src (k + j)) (f_off (ftable s i)) (of_nat n1)) (\<lambda>r.
            seqk (whenk (r > 0) (upd_file i (\<lambda>f. f\<lparr>f_off := f_off f + word_of_int r\<rparr>)))
              (seqk (iunlock ip) (seqk end_op
                (if r < 0 then ret k
                 else if r \<noteq> int n1 then panic ''short filewrite''
                 else filewrite_loop i ip src (k + n1) n)))) s)))"
  by auto
termination by (relation "measure (\<lambda>(i, ip, src, k, n). n - k)") (auto simp: maxwrite_def MAXOPBLOCKS_def)

definition filewrite :: "nat \<Rightarrow> bytes \<Rightarrow> int \<Rightarrow> ('x, int) filekern" where
  "filewrite i src n = (\<lambda>s. let f = ftable s i in
     if \<not> f_writable f then Ok (-1, s)
     else case f_type f of
       FD_PIPE \<Rightarrow>
         (case pipewrite_loop (f_pipe f) (mykilled s) (map src [0 ..< nat n]) (pipes s (f_pipe f)) of
            (WDone, _, q) \<Rightarrow> Ok (n, s\<lparr>pipes := (pipes s)(f_pipe f := q)\<rparr>)
          | (WErr, _, q) \<Rightarrow> Ok (-1, s\<lparr>pipes := (pipes s)(f_pipe f := q)\<rparr>)
          | (WSleep _, _, q) \<Rightarrow> Sleeps ''pipewrite'')
     | FD_INODE \<Rightarrow>
         bindk (filewrite_loop i (f_ip f) src 0 (nat n)) (\<lambda>k. ret (if int k = n then n else -1)) s
     | FD_NONE \<Rightarrow> Panic ''filewrite'')"

end
