(* ===== verification/Sysfile.thy ===== *)
theory Sysfile
  imports File
begin

text \<open>
  Fetching system call arguments (\<open>syscall.c\<close>) and the file system calls (\<open>sysfile.c\<close>).  The state adds what the code uses of
  the running process: its memory and size, the saved stack pointer, and the table of open files.  The arguments that the
  code passes by pointer are results; a fetch that fails gives \<open>None\<close> where the code returns -1.
\<close>

definition NOFILE :: nat where "NOFILE = 16"

record ust = filest +
  umem :: memory
  psz :: u32
  uesp :: u32
  ofiles :: "nat \<Rightarrow> nat option"

type_synonym ('x, 'r) ukern = "('x ust_scheme, 'r) kern"

section \<open>Arguments\<close>

definition fetchint :: "u32 \<Rightarrow> 'x ust_scheme \<Rightarrow> u32 option" where
  "fetchint addr s = (if psz s \<le> addr \<or> psz s < addr + 4 then None else Some (load32 (umem s) addr))"

text \<open>The bytes of the string at \<open>a\<close>, if it ends within the next \<open>k\<close> bytes.\<close>

fun fetchstr_loop :: "memory \<Rightarrow> u32 \<Rightarrow> nat \<Rightarrow> u8 list option" where
  "fetchstr_loop m a 0 = None"
| "fetchstr_loop m a (Suc k) = (if m a = 0 then Some [] else map_option ((#) (m a)) (fetchstr_loop m (a + 1) k))"

definition fetchstr :: "u32 \<Rightarrow> 'x ust_scheme \<Rightarrow> u8 list option" where
  "fetchstr addr s = (if psz s \<le> addr then None else fetchstr_loop (umem s) addr (unat (psz s) - unat addr))"

definition argint :: "nat \<Rightarrow> 'x ust_scheme \<Rightarrow> u32 option" where
  "argint n s = fetchint (uesp s + 4 + 4 * of_nat n) s"

definition argptr :: "nat \<Rightarrow> int \<Rightarrow> 'x ust_scheme \<Rightarrow> u32 option" where
  "argptr n sz s = (case argint n s of
     None \<Rightarrow> None
   | Some i \<Rightarrow> if sz < 0 \<or> psz s \<le> i \<or> psz s < i + word_of_int sz then None else Some i)"

definition argstr :: "nat \<Rightarrow> 'x ust_scheme \<Rightarrow> u8 list option" where
  "argstr n s = (case argint n s of None \<Rightarrow> None | Some addr \<Rightarrow> fetchstr addr s)"

definition argfd :: "nat \<Rightarrow> 'x ust_scheme \<Rightarrow> (nat \<times> nat) option" where
  "argfd n s = (case argint n s of
     None \<Rightarrow> None
   | Some w \<Rightarrow> let fd = sint w in
       if fd < 0 \<or> int NOFILE \<le> fd then None
       else case ofiles s (nat fd) of None \<Rightarrow> None | Some f \<Rightarrow> Some (nat fd, f))"

definition fdalloc :: "nat \<Rightarrow> ('x, nat option) ukern" where
  "fdalloc f = (\<lambda>s. case find (\<lambda>fd. ofiles s fd = None) [0 ..< NOFILE] of
     None \<Rightarrow> Ok (None, s)
   | Some fd \<Rightarrow> Ok (Some fd, s\<lparr>ofiles := (ofiles s)(fd := Some f)\<rparr>))"

section \<open>Calls on open files\<close>

definition sys_dup :: "('x, int) ukern" where
  "sys_dup = (\<lambda>s. case argfd 0 s of
     None \<Rightarrow> Ok (-1, s)
   | Some (_, f) \<Rightarrow> bindk (fdalloc f) (\<lambda>fd. case fd of
       None \<Rightarrow> ret (-1)
     | Some fd \<Rightarrow> bindk (filedup f) (\<lambda>_. ret (int fd))) s)"

text \<open>The kernel reads and writes the memory of the process at its own addresses.\<close>

definition user_bytes :: "memory \<Rightarrow> u32 \<Rightarrow> bytes" where
  "user_bytes m p = (\<lambda>k. m (p + of_nat k))"

definition to_user :: "memory \<Rightarrow> u32 \<Rightarrow> bytes \<Rightarrow> nat \<Rightarrow> memory" where
  "to_user m p d n = (\<lambda>a. if unat (a - p) < n then d (unat (a - p)) else m a)"

definition sys_read :: "('x, int) ukern" where
  "sys_read = (\<lambda>s. case (argfd 0 s, argint 2 s) of
     (Some (_, f), Some n) \<Rightarrow>
       (case argptr 1 (sint n) s of
          None \<Rightarrow> Ok (-1, s)
        | Some p \<Rightarrow> bindk (fileread f (user_bytes (umem s) p) (sint n)) (\<lambda>(r, d).
            seqk (modk (\<lambda>s. s\<lparr>umem := to_user (umem s) p d (nat r)\<rparr>)) (ret r)) s)
   | _ \<Rightarrow> Ok (-1, s))"

definition sys_write :: "('x, int) ukern" where
  "sys_write = (\<lambda>s. case (argfd 0 s, argint 2 s) of
     (Some (_, f), Some n) \<Rightarrow>
       (case argptr 1 (sint n) s of
          None \<Rightarrow> Ok (-1, s)
        | Some p \<Rightarrow> filewrite f (user_bytes (umem s) p) (sint n) s)
   | _ \<Rightarrow> Ok (-1, s))"

definition sys_close :: "('x, int) ukern" where
  "sys_close = (\<lambda>s. case argfd 0 s of
     None \<Rightarrow> Ok (-1, s)
   | Some (fd, f) \<Rightarrow> seqk (modk (\<lambda>s. s\<lparr>ofiles := (ofiles s)(fd := None)\<rparr>)) (seqk (fileclose f) (ret 0)) s)"

text \<open>The structure \<open>stat\<close> in memory: 20 bytes, the fields at their natural alignment.\<close>

definition store16 :: "memory \<Rightarrow> u32 \<Rightarrow> u16 \<Rightarrow> memory" where
  "store16 m a v = m(a := ucast v, a + 1 := ucast (drop_bit 8 v))"

definition store_stat :: "memory \<Rightarrow> u32 \<Rightarrow> stat \<Rightarrow> memory" where
  "store_stat m a st = store32 (store16 (store32 (store32 (store16 m a (st_type st)) (a + 4) (st_dev st)) (a + 8) (st_ino st))
     (a + 12) (st_nlink st)) (a + 16) (st_size st)"

definition sys_fstat :: "('x, int) ukern" where
  "sys_fstat = (\<lambda>s. case (argfd 0 s, argptr 1 20 s) of
     (Some (_, f), Some p) \<Rightarrow> bindk (filestat f) (\<lambda>st. case st of
         None \<Rightarrow> ret (-1)
       | Some st \<Rightarrow> seqk (modk (\<lambda>s. s\<lparr>umem := store_stat (umem s) p st\<rparr>)) (ret 0)) s
   | _ \<Rightarrow> Ok (-1, s))"

definition sys_pipe :: "('x, int) ukern" where
  "sys_pipe = (\<lambda>s. case argptr 0 8 s of
     None \<Rightarrow> Ok (-1, s)
   | Some p \<Rightarrow> bindk pipealloc (\<lambda>r. case r of
       None \<Rightarrow> ret (-1)
     | Some (rfl, wfl) \<Rightarrow> bindk (fdalloc rfl) (\<lambda>fd0. case fd0 of
         None \<Rightarrow> seqk (fileclose rfl) (seqk (fileclose wfl) (ret (-1)))
       | Some fd0 \<Rightarrow> bindk (fdalloc wfl) (\<lambda>fd1. case fd1 of
           None \<Rightarrow> seqk (modk (\<lambda>s. s\<lparr>ofiles := (ofiles s)(fd0 := None)\<rparr>))
                     (seqk (fileclose rfl) (seqk (fileclose wfl) (ret (-1))))
         | Some fd1 \<Rightarrow>
             seqk (modk (\<lambda>s. s\<lparr>umem := store32 (store32 (umem s) p (of_nat fd0)) (p + 4) (of_nat fd1)\<rparr>)) (ret 0)))) s)"

section \<open>Calls on path names\<close>

definition no_name :: bytes where "no_name = (\<lambda>_. 0)"
definition dot :: bytes where "dot = (\<lambda>_. 0)(0 := 46)"
definition dotdot :: bytes where "dotdot = (\<lambda>_. 0)(0 := 46, 1 := 46)"

definition change_nlink :: "nat \<Rightarrow> u16 \<Rightarrow> ('x, unit) fkern" where
  "change_nlink ip v = seqk (upd_inode ip (\<lambda>x. x\<lparr>i_nlink := i_nlink x + v\<rparr>)) (iupdate ip)"

definition link_bad :: "nat \<Rightarrow> ('x, int) fkern" where
  "link_bad ip = seqk (ilock ip) (seqk (change_nlink ip (-1)) (seqk (iunlockput ip) (seqk end_op (ret (-1)))))"

definition sys_link :: "('x, int) ukern" where
  "sys_link = (\<lambda>s. case (argstr 0 s, argstr 1 s) of
     (Some old, Some new) \<Rightarrow> seqk begin_op (bindk (namei old) (\<lambda>ip. case ip of
         None \<Rightarrow> seqk end_op (ret (-1))
       | Some ip \<Rightarrow> seqk (ilock ip) (\<lambda>s.
           if i_type (inodes s ip) = T_DIR then seqk (iunlockput ip) (seqk end_op (ret (-1))) s
           else seqk (change_nlink ip 1) (seqk (iunlock ip) (bindk (nameiparent new no_name) (\<lambda>(dp, name). case dp of
               None \<Rightarrow> link_bad ip
             | Some dp \<Rightarrow> seqk (ilock dp) (\<lambda>s.
                 bindk (if i_dev (inodes s dp) \<noteq> i_dev (inodes s ip) then ret (-1) else dirlink dp name (i_inum (inodes s ip))) (\<lambda>r.
                   if r < 0 then seqk (iunlockput dp) (link_bad ip)
                   else seqk (iunlockput dp) (seqk (iput ip) (seqk end_op (ret 0)))) s)))) s))) s
   | _ \<Rightarrow> Ok (-1, s))"

function isdirempty_loop :: "nat \<Rightarrow> bytes \<Rightarrow> nat \<Rightarrow> nat \<Rightarrow> ('x, bool) fkern" where
  "isdirempty_loop dp de off sz =
     (if sz \<le> off then ret True
      else bindk (readi dp de (of_nat off) 16) (\<lambda>(r, de).
        if r \<noteq> 16 then panic ''isdirempty: readi''
        else if de_inum de \<noteq> 0 then ret False
        else isdirempty_loop dp de (off + 16) sz))"
  by auto
termination by (relation "measure (\<lambda>(dp, de, off, sz). sz - off)") auto

definition isdirempty :: "nat \<Rightarrow> ('x, bool) fkern" where
  "isdirempty dp = (\<lambda>s. isdirempty_loop dp no_name 32 (unat (i_size (inodes s dp))) s)"

definition unlink_bad :: "nat \<Rightarrow> ('x, int) fkern" where
  "unlink_bad dp = seqk (iunlockput dp) (seqk end_op (ret (-1)))"

definition unlink_entry :: "nat \<Rightarrow> nat \<Rightarrow> nat \<Rightarrow> ('x, int) fkern" where
  "unlink_entry dp ip off =
     bindk (writei dp (\<lambda>_. 0) (of_nat off) 16) (\<lambda>n s.
       if n \<noteq> 16 then Panic ''unlink: writei''
       else seqk (whenk (i_type (inodes s ip) = T_DIR) (change_nlink dp (-1)))
         (seqk (iunlockput dp) (seqk (change_nlink ip (-1)) (seqk (iunlockput ip) (seqk end_op (ret 0))))) s)"

definition sys_unlink :: "('x, int) ukern" where
  "sys_unlink = (\<lambda>s. case argstr 0 s of
     None \<Rightarrow> Ok (-1, s)
   | Some path \<Rightarrow> seqk begin_op (bindk (nameiparent path no_name) (\<lambda>(dp, name). case dp of
         None \<Rightarrow> seqk end_op (ret (-1))
       | Some dp \<Rightarrow> seqk (ilock dp)
           (if namecmp name dot = 0 \<or> namecmp name dotdot = 0 then unlink_bad dp
            else bindk (dirlookup dp name) (\<lambda>r. case r of
              None \<Rightarrow> unlink_bad dp
            | Some (ip, off) \<Rightarrow> seqk (ilock ip) (\<lambda>s.
                if sint (i_nlink (inodes s ip)) < 1 then Panic ''unlink: nlink < 1''
                else bindk (if i_type (inodes s ip) = T_DIR then isdirempty ip else ret True) (\<lambda>empty.
                  if \<not> empty then seqk (iunlockput ip) (unlink_bad dp) else unlink_entry dp ip off) s))))) s)"

definition create :: "u8 list \<Rightarrow> u16 \<Rightarrow> u16 \<Rightarrow> u16 \<Rightarrow> ('x, nat option) fkern" where
  "create path type major minor = bindk (nameiparent path no_name) (\<lambda>(dp, name). case dp of
     None \<Rightarrow> ret None
   | Some dp \<Rightarrow> seqk (ilock dp) (bindk (dirlookup dp name) (\<lambda>r. case r of
       Some (ip, _) \<Rightarrow>
         seqk (iunlockput dp) (seqk (ilock ip) (\<lambda>s.
           if type = T_FILE \<and> i_type (inodes s ip) = T_FILE then Ok (Some ip, s)
           else seqk (iunlockput ip) (ret None) s))
     | None \<Rightarrow> (\<lambda>s. bindk (ialloc (i_dev (inodes s dp)) type) (\<lambda>ip.
         seqk (ilock ip)
         (seqk (upd_inode ip (\<lambda>x. x\<lparr>i_major := major, i_minor := minor, i_nlink := 1\<rparr>)) (seqk (iupdate ip)
         (seqk (whenk (type = T_DIR)
            (seqk (change_nlink dp 1) (\<lambda>s.
              bindk (dirlink ip dot (i_inum (inodes s ip))) (\<lambda>a.
                if a < 0 then panic ''create dots''
                else bindk (dirlink ip dotdot (i_inum (inodes s dp))) (\<lambda>b.
                  if b < 0 then panic ''create dots'' else ret ())) s)))
         (\<lambda>s. bindk (dirlink dp name (i_inum (inodes s ip))) (\<lambda>a.
            if a < 0 then panic ''create: dirlink''
            else seqk (iunlockput dp) (ret (Some ip))) s))))) s))))"

definition O_WRONLY :: u32 where "O_WRONLY = 1"
definition O_RDWR :: u32 where "O_RDWR = 2"
definition O_CREATE :: u32 where "O_CREATE = 0x200"

definition open_inode :: "u8 list \<Rightarrow> u32 \<Rightarrow> ('x, nat option) fkern" where
  "open_inode path omode =
     (if omode AND O_CREATE \<noteq> 0 then bindk (create path T_FILE 0 0) (\<lambda>ip. case ip of
        None \<Rightarrow> seqk end_op (ret None)
      | Some ip \<Rightarrow> ret (Some ip))
      else bindk (namei path) (\<lambda>ip. case ip of
        None \<Rightarrow> seqk end_op (ret None)
      | Some ip \<Rightarrow> seqk (ilock ip) (\<lambda>s.
          if i_type (inodes s ip) = T_DIR \<and> omode \<noteq> 0 then seqk (iunlockput ip) (seqk end_op (ret None)) s
          else Ok (Some ip, s))))"

definition open_fail :: "nat \<Rightarrow> ('x, int) fkern" where
  "open_fail ip = seqk (iunlockput ip) (seqk end_op (ret (-1)))"

definition sys_open :: "('x, int) ukern" where
  "sys_open = (\<lambda>s. case (argstr 0 s, argint 1 s) of
     (Some path, Some omode) \<Rightarrow> seqk begin_op (bindk (open_inode path omode) (\<lambda>ip. case ip of
         None \<Rightarrow> ret (-1)
       | Some ip \<Rightarrow> bindk filealloc (\<lambda>f. case f of
           None \<Rightarrow> open_fail ip
         | Some f \<Rightarrow> bindk (fdalloc f) (\<lambda>fd. case fd of
             None \<Rightarrow> seqk (fileclose f) (open_fail ip)
           | Some fd \<Rightarrow> seqk (iunlock ip) (seqk end_op
               (seqk (upd_file f (\<lambda>x. x\<lparr>f_type := FD_INODE, f_ip := ip, f_off := 0,
                   f_readable := (omode AND O_WRONLY = 0),
                   f_writable := (omode AND O_WRONLY \<noteq> 0 \<or> omode AND O_RDWR \<noteq> 0)\<rparr>)) (ret (int fd)))))))) s
   | _ \<Rightarrow> Ok (-1, s))"

definition make_node :: "nat option \<Rightarrow> ('x, int) fkern" where
  "make_node ip = (case ip of
     None \<Rightarrow> seqk end_op (ret (-1))
   | Some ip \<Rightarrow> seqk (iunlockput ip) (seqk end_op (ret 0)))"

definition sys_mkdir :: "('x, int) ukern" where
  "sys_mkdir = seqk begin_op (\<lambda>s. case argstr 0 s of
     None \<Rightarrow> seqk end_op (ret (-1)) s
   | Some path \<Rightarrow> bindk (create path T_DIR 0 0) make_node s)"

definition sys_mknod :: "('x, int) ukern" where
  "sys_mknod = seqk begin_op (\<lambda>s. case (argstr 0 s, argint 1 s, argint 2 s) of
     (Some path, Some major, Some minor) \<Rightarrow> bindk (create path T_DEV (ucast major) (ucast minor)) make_node s
   | _ \<Rightarrow> seqk end_op (ret (-1)) s)"

definition sys_chdir :: "('x, int) ukern" where
  "sys_chdir = seqk begin_op (\<lambda>s. case argstr 0 s of
     None \<Rightarrow> seqk end_op (ret (-1)) s
   | Some path \<Rightarrow> bindk (namei path) (\<lambda>ip. case ip of
       None \<Rightarrow> seqk end_op (ret (-1))
     | Some ip \<Rightarrow> seqk (ilock ip) (\<lambda>s.
         if i_type (inodes s ip) \<noteq> T_DIR then seqk (iunlockput ip) (seqk end_op (ret (-1))) s
         else seqk (iunlock ip) (seqk (iput (mycwd s)) (seqk end_op
                (seqk (modk (\<lambda>s. s\<lparr>mycwd := ip\<rparr>)) (ret 0)))) s)) s)"

end
