(* ===== verification/Sys_Props.thy ===== *)
theory Sys_Props
  imports Sysfile Fs_Props
begin

text \<open>
  Properties of the system call layer: arguments stay inside the memory of the process, and the file table, the pipes and
  the descriptors keep their counts straight, on the error paths too.
\<close>

section \<open>Arguments\<close>

lemma fetchstr_loop_step:
  "fetchstr_loop m a (numeral k) = (if m a = 0 then Some [] else map_option ((#) (m a)) (fetchstr_loop m (a + 1) (pred_numeral k)))"
  by (simp add: numeral_eq_Suc)

lemma fetchstr_loop_spec:
  "fetchstr_loop m a k = Some str \<Longrightarrow>
     length str < k \<and> (\<forall>i < length str. str ! i = m (a + of_nat i) \<and> str ! i \<noteq> 0) \<and> m (a + of_nat (length str)) = 0"
proof (induction k arbitrary: a str)
  case (Suc k)
  show ?case
  proof (cases "m a = 0")
    case False
    then obtain rest where r: "fetchstr_loop m (a + 1) k = Some rest" "str = m a # rest" using Suc.prems by auto
    have ih: "length rest < k" "\<forall>i < length rest. rest ! i = m (a + 1 + of_nat i) \<and> rest ! i \<noteq> 0"
      "m (a + 1 + of_nat (length rest)) = 0" using Suc.IH [OF r(1)] by auto
    have "str ! i = m (a + of_nat i) \<and> str ! i \<noteq> 0" if "i < length str" for i
      using that ih(2) r(2) False by (cases i) (auto simp: algebra_simps)
    moreover have "length str < Suc k \<and> m (a + of_nat (length str)) = 0" using ih(1,3) r(2) by (simp add: algebra_simps)
    ultimately show ?thesis by blast
  qed (use Suc.prems in auto)
qed simp

text \<open>
  C32: the argument checks of \<open>syscall.c\<close> protect the kernel.  For a process of at most 2 GB, an integer, buffer or string that they
  accept lies completely inside the memory of the process, whatever values the process passes, and no arithmetic of the
  checks wraps around.
\<close>

theorem syscall_arguments_in_bounds:
  assumes "unat (psz s) \<le> 2 ^ 31"
  shows "(fetchint a s = Some v \<longrightarrow> unat a + 4 \<le> unat (psz s)) \<and>
    (sz < 2 ^ 31 \<longrightarrow> argptr n sz s = Some p \<longrightarrow> 0 \<le> sz \<and> unat p < unat (psz s) \<and> unat p + nat sz \<le> unat (psz s)) \<and>
    (fetchstr a s = Some str \<longrightarrow> unat a + length str < unat (psz s) \<and>
       (\<forall>i < length str. str ! i = umem s (a + of_nat i) \<and> str ! i \<noteq> 0) \<and> umem s (a + of_nat (length str)) = 0)"
proof (intro conjI impI)
  assume "fetchint a s = Some v"
  then have "a < psz s" "a + 4 \<le> psz s" by (auto simp: fetchint_def split: if_splits)
  then show "unat a + 4 \<le> unat (psz s)" using assms
    by (simp add: word_less_nat_alt word_le_nat_alt unat_word_ariths)
next
  assume sz: "sz < 2 ^ 31" and p: "argptr n sz s = Some p"
  then have c: "0 \<le> sz" "p < psz s" "p + word_of_int sz \<le> psz s" by (auto simp: argptr_def split: option.splits if_splits)
  show "0 \<le> sz" by (rule c(1))
  show l: "unat p < unat (psz s)" using c(2) by (simp add: word_less_nat_alt)
  have "unat (word_of_int sz :: u32) = nat sz"
    using c(1) sz by (simp add: unsigned_of_int take_bit_int_eq_self)
  then have "unat (p + word_of_int sz) = unat p + nat sz"
    using l assms sz c(1) by (simp add: unat_word_ariths)
  then show "unat p + nat sz \<le> unat (psz s)" using c(3) by (simp add: word_le_nat_alt)
next
  assume f: "fetchstr a s = Some str"
  then have a: "a < psz s" and l: "fetchstr_loop (umem s) a (unat (psz s) - unat a) = Some str"
    by (auto simp: fetchstr_def split: if_splits)
  note sp = fetchstr_loop_spec [OF l]
  show "unat a + length str < unat (psz s)" using conjunct1 [OF sp] by linarith
  show "\<forall>i < length str. str ! i = umem s (a + of_nat i) \<and> str ! i \<noteq> 0" "umem s (a + of_nat (length str)) = 0" using sp by auto
qed

section \<open>Files and pipes\<close>

text \<open>An unused entry of the file table has no type, so closing a fresh entry closes nothing else.\<close>

definition ftab_ok :: "'x filest_scheme \<Rightarrow> bool" where
  "ftab_ok s \<longleftrightarrow> (\<forall>i < NFILE. 0 \<le> f_ref (ftable s i) \<and> (f_ref (ftable s i) = 0 \<longrightarrow> f_type (ftable s i) = FD_NONE))"

lemma filealloc_cases:
  obtains (full) "filealloc s = Ok (None, s)" "\<forall>i < NFILE. f_ref (ftable s i) \<noteq> 0"
  | (slot) i where "i < NFILE" "f_ref (ftable s i) = 0"
      "filealloc s = Ok (Some i, s\<lparr>ftable := (ftable s)(i := (ftable s i)\<lparr>f_ref := 1\<rparr>)\<rparr>)"
proof (cases "find (\<lambda>i. f_ref (ftable s i) = 0) [0 ..< NFILE]")
  case None
  have "filealloc s = Ok (None, s)" by (simp add: filealloc_def None)
  moreover have "\<forall>i < NFILE. f_ref (ftable s i) \<noteq> 0" using None by (auto simp: find_None_iff)
  ultimately show ?thesis by (rule full)
next
  case (Some i)
  have "i < NFILE" "f_ref (ftable s i) = 0" using Some by (auto simp: find_Some_iff)
  moreover have "filealloc s = Ok (Some i, s\<lparr>ftable := (ftable s)(i := (ftable s i)\<lparr>f_ref := 1\<rparr>)\<rparr>)"
    by (simp add: filealloc_def Some kern_simps upd_file_def)
  ultimately show ?thesis by (rule slot)
qed

lemma fileclose_fresh:
  assumes "f_ref (ftable s i) = 1" "f_type (ftable s i) = FD_NONE"
  shows "fileclose i s = Ok ((), s\<lparr>ftable := (ftable s)(i := (ftable s i)\<lparr>f_ref := 0, f_type := FD_NONE\<rparr>)\<rparr>)"
  using assms by (simp add: fileclose_def Let_def kern_simps upd_file_def)

lemma fileclose_pipe:
  assumes "f_ref (ftable s i) = 1" "f_type (ftable s i) = FD_PIPE"
  shows "fileclose i s = pipeclose (f_pipe (ftable s i)) (f_writable (ftable s i))
     (s\<lparr>ftable := (ftable s)(i := (ftable s i)\<lparr>f_ref := 0, f_type := FD_NONE\<rparr>)\<rparr>)"
  using assms by (simp add: fileclose_def Let_def kern_simps upd_file_def)

text \<open>
  Pipe allocation succeeds exactly when two file entries and a page are free; when it fails it has undone everything.
\<close>

text \<open>Every file that was open is as before, in all its fields, and no other entry of the table is in use.\<close>

definition files_kept :: "'x filest_scheme \<Rightarrow> 'x filest_scheme \<Rightarrow> bool" where
  "files_kept s t \<longleftrightarrow> (\<forall>i. if f_ref (ftable s i) = 0 then f_ref (ftable t i) = 0 else ftable t i = ftable s i)"

lemma files_kept_refl [simp]: "files_kept s s"
  by (simp add: files_kept_def)

lemma pipealloc_spec:
  assumes ok: "ftab_ok s"
  shows "\<exists>r t. pipealloc s = Ok (r, t) \<and> ftab_ok t \<and> filest.more t = filest.more s \<and>
    (case r of
       None \<Rightarrow> t = s\<lparr>ftable := ftable t\<rparr> \<and> files_kept s t \<and>
         (freepages s = [] \<or> \<not> (\<exists>i < NFILE. \<exists>j < NFILE. i \<noteq> j \<and> f_ref (ftable s i) = 0 \<and> f_ref (ftable s j) = 0))
     | Some (a, b) \<Rightarrow> \<exists>p. t = s\<lparr>ftable := ftable t, pipes := (pipes s)(p := pipes t p), freepages := freepages t\<rparr> \<and> freepages s = p # freepages t \<and> a \<noteq> b \<and> f_ref (ftable s a) = 0 \<and> f_ref (ftable s b) = 0 \<and>
         ftable t a = pipe_file p False ((ftable s a)\<lparr>f_ref := 1\<rparr>) \<and> ftable t b = pipe_file p True ((ftable s b)\<lparr>f_ref := 1\<rparr>) \<and>
         contents (pipes t p) = [] \<and> readopen (pipes t p) \<and> writeopen (pipes t p) \<and>
         (\<forall>i. i \<noteq> a \<longrightarrow> i \<noteq> b \<longrightarrow> ftable t i = ftable s i))"
proof (cases s rule: filealloc_cases)
  case full
  then show ?thesis using ok by (auto simp: pipealloc_def kern_simps)
next
  case (slot a)
  let ?s1 = "s\<lparr>ftable := (ftable s)(a := (ftable s a)\<lparr>f_ref := 1\<rparr>)\<rparr>"
  have ta: "f_type (ftable s a) = FD_NONE" using ok slot by (simp add: ftab_ok_def)
  show ?thesis
  proof (cases ?s1 rule: filealloc_cases)
    case full
    let ?t = "?s1\<lparr>ftable := (ftable ?s1)(a := (ftable ?s1 a)\<lparr>f_ref := 0, f_type := FD_NONE\<rparr>)\<rparr>"
    have "pipealloc s = Ok (None, ?t)"
      using slot full fileclose_fresh [of ?s1 a] ta by (simp add: pipealloc_def kern_simps)
    moreover have "ftab_ok ?t" using ok by (simp add: ftab_ok_def)
    moreover have "filest.more ?t = filest.more s" "?t = s\<lparr>ftable := ftable ?t\<rparr>" "files_kept s ?t" using slot by (simp_all add: files_kept_def)
    moreover have "i = a" if "f_ref (ftable s i) = 0" "i < NFILE" for i
      using spec [OF full(2), of i] that by (auto split: if_splits)
    then have "\<not> (\<exists>i < NFILE. \<exists>j < NFILE. i \<noteq> j \<and> f_ref (ftable s i) = 0 \<and> f_ref (ftable s j) = 0)" by blast
    ultimately show ?thesis by (intro exI [of _ None] exI [of _ ?t]) (simp only: option.case simp_thms)
  next
    case two: (slot b)
    let ?s2 = "?s1\<lparr>ftable := (ftable ?s1)(b := (ftable ?s1 b)\<lparr>f_ref := 1\<rparr>)\<rparr>"
    have ab: "a \<noteq> b" using two(2) by auto
    have tb: "f_type (ftable s b) = FD_NONE" using ok two ab by (simp add: ftab_ok_def)
    show ?thesis
    proof (cases "freepages s")
      case Nil
      let ?s3 = "?s2\<lparr>ftable := (ftable ?s2)(a := (ftable ?s2 a)\<lparr>f_ref := 0, f_type := FD_NONE\<rparr>)\<rparr>"
      let ?t = "?s3\<lparr>ftable := (ftable ?s3)(b := (ftable ?s3 b)\<lparr>f_ref := 0, f_type := FD_NONE\<rparr>)\<rparr>"
      have "fileclose a ?s2 = Ok ((), ?s3)" by (rule fileclose_fresh) (use ab ta in simp_all)
      moreover have "fileclose b ?s3 = Ok ((), ?t)" by (rule fileclose_fresh) (use ab tb in simp_all)
      ultimately have "pipealloc s = Ok (None, ?t)"
        using slot two Nil by (simp add: pipealloc_def kern_simps page_alloc_def)
      moreover have "ftab_ok ?t" using ok by (simp add: ftab_ok_def)
      moreover have "files_kept s ?t" using slot two ab by (simp add: files_kept_def)
      ultimately show ?thesis using Nil by (intro exI [of _ None] exI [of _ ?t]) simp
    next
      case (Cons p ps)
      let ?s3 = "?s2\<lparr>freepages := ps, pipes := (pipes s)(p := pipe_init (pdata (pipes s p)))\<rparr>"
      let ?s4 = "?s3\<lparr>ftable := (ftable ?s3)(a := pipe_file p False (ftable ?s3 a))\<rparr>"
      let ?t = "?s4\<lparr>ftable := (ftable ?s4)(b := pipe_file p True (ftable ?s4 b))\<rparr>"
      have "pipealloc s = Ok (Some (a, b), ?t)"
        using slot two Cons ab by (simp add: pipealloc_def kern_simps page_alloc_def upd_file_def)
      moreover have "ftab_ok ?t" using ok ab by (simp add: ftab_ok_def pipe_file_def)
      moreover have "contents (pipe_init g) = []" for g by (simp add: contents_def plen_def pipe_init_def)
      moreover have "f_ref (ftable s b) = 0" using two ab by simp
      ultimately show ?thesis using slot ab Cons
        by (intro exI [of _ "Some (a, b)"] exI [of _ ?t]) (simp add: pipe_init_def)
    qed
  qed
qed

lemma close_both:
  assumes u: "ftab_ok u" "a \<noteq> b" "readopen (pipes u p)" "writeopen (pipes u p)"
    and a: "ftable u a = pipe_file p False f" "f_ref f = 1" and b: "ftable u b = pipe_file p True g" "f_ref g = 1"
  shows "\<exists>v. seqk (fileclose a) (seqk (fileclose b) (ret x)) u = Ok (x, v) \<and> ftab_ok v \<and> filest.more v = filest.more u \<and>
    v = u\<lparr>ftable := ftable v, pipes := (pipes u)(p := pipes v p), freepages := p # freepages u\<rparr> \<and>
    f_ref (ftable v a) = 0 \<and> f_ref (ftable v b) = 0 \<and> (\<forall>i. i \<noteq> a \<longrightarrow> i \<noteq> b \<longrightarrow> ftable v i = ftable u i)"
proof -
  let ?u1 = "u\<lparr>ftable := (ftable u)(a := (ftable u a)\<lparr>f_ref := 0, f_type := FD_NONE\<rparr>),
    pipes := (pipes u)(p := (pipes u p)\<lparr>readopen := False\<rparr>)\<rparr>"
  let ?v = "?u1\<lparr>ftable := (ftable ?u1)(b := (ftable ?u1 b)\<lparr>f_ref := 0, f_type := FD_NONE\<rparr>),
    pipes := (pipes ?u1)(p := (pipes ?u1 p)\<lparr>writeopen := False\<rparr>), freepages := p # freepages u\<rparr>"
  have "fileclose a u = Ok ((), ?u1)"
    using a u by (subst fileclose_pipe) (simp_all add: pipe_file_def pipeclose_def pipe_close_def kern_simps)
  moreover have "fileclose b ?u1 = Ok ((), ?v)"
    using b u by (subst fileclose_pipe) (simp_all add: pipe_file_def pipeclose_def pipe_close_def kern_simps)
  ultimately have "seqk (fileclose a) (seqk (fileclose b) (ret x)) u = Ok (x, ?v)" by (simp add: kern_simps)
  moreover have "ftab_ok ?v" using u(1) by (simp add: ftab_ok_def)
  ultimately show ?thesis using u(2) by (intro exI [of _ ?v]) simp
qed

lemma fdalloc_cases:
  obtains (full) "fdalloc f s = Ok (None, s)" "\<forall>fd < NOFILE. ofiles s fd \<noteq> None"
  | (slot) fd where "fd < NOFILE" "ofiles s fd = None" "\<forall>k < fd. ofiles s k \<noteq> None"
      "fdalloc f s = Ok (Some fd, s\<lparr>ofiles := (ofiles s)(fd := Some f)\<rparr>)"
proof (cases "find (\<lambda>fd. ofiles s fd = None) [0 ..< NOFILE]")
  case None
  have "fdalloc f s = Ok (None, s)" by (simp add: fdalloc_def None)
  moreover have "\<forall>fd < NOFILE. ofiles s fd \<noteq> None" using None by (auto simp: find_None_iff)
  ultimately show ?thesis by (rule full)
next
  case (Some fd)
  have "fd < NOFILE" "ofiles s fd = None" "\<forall>k < fd. ofiles s k \<noteq> None" using Some by (auto simp: find_Some_iff)
  moreover have "fdalloc f s = Ok (Some fd, s\<lparr>ofiles := (ofiles s)(fd := Some f)\<rparr>)" by (simp add: fdalloc_def Some)
  ultimately show ?thesis by (rule slot)
qed

lemma ust_frame:
  assumes "filest.more t = filest.more (s :: 'x ust_scheme)"
  shows "umem t = umem s" "psz t = psz s" "uesp t = uesp s" "ofiles t = ofiles s" "ust.more t = ust.more s"
  using assms by (cases s; cases t; simp)+

text \<open>
  The two outcomes.  A call that fails changes nothing but free entries of the file table and, in memory that no pipe uses, a pipe on a free page;
  files, file system, free pages, descriptors and the memory of the process are as before.
\<close>

definition pipe_undone :: "'x ust_scheme \<Rightarrow> 'x ust_scheme \<Rightarrow> bool" where
  "pipe_undone s t \<longleftrightarrow> t = s\<lparr>ftable := ftable t, pipes := pipes t\<rparr> \<and> files_kept s t \<and>
     (\<forall>q. q \<notin> set (freepages s) \<longrightarrow> pipes t q = pipes s q)"

text \<open>What may be missing: a place for the result in the memory of the process, a page, two entries of the file table or two descriptors.\<close>

definition pipe_short :: "'x ust_scheme \<Rightarrow> bool" where
  "pipe_short s \<longleftrightarrow> argptr 0 8 s = None \<or> freepages s = [] \<or>
     \<not> (\<exists>i < NFILE. \<exists>j < NFILE. i \<noteq> j \<and> f_ref (ftable s i) = 0 \<and> f_ref (ftable s j) = 0) \<or>
     \<not> (\<exists>i < NOFILE. \<exists>j < NOFILE. i \<noteq> j \<and> ofiles s i = None \<and> ofiles s j = None)"

definition pipe_made :: "'x ust_scheme \<Rightarrow> 'x ust_scheme \<Rightarrow> bool" where
  "pipe_made s t \<longleftrightarrow> (\<exists>p pg a b fd0 fd1 pp. argptr 0 8 s = Some p \<and> freepages s = pg # freepages t \<and>
     a \<noteq> b \<and> f_ref (ftable s a) = 0 \<and> f_ref (ftable s b) = 0 \<and>
     fd0 < fd1 \<and> fd1 < NOFILE \<and> ofiles s fd0 = None \<and> ofiles s fd1 = None \<and>
     (\<forall>k < fd1. k \<noteq> fd0 \<longrightarrow> ofiles s k \<noteq> None) \<and>
     contents pp = [] \<and> readopen pp \<and> writeopen pp \<and>
     t = s\<lparr>ftable := (ftable s)(a := pipe_file pg False ((ftable s a)\<lparr>f_ref := 1\<rparr>), b := pipe_file pg True ((ftable s b)\<lparr>f_ref := 1\<rparr>)),
           pipes := (pipes s)(pg := pp), freepages := freepages t, ofiles := (ofiles s)(fd0 := Some a, fd1 := Some b),
           umem := store32 (store32 (umem s) p (of_nat fd0)) (p + 4) (of_nat fd1)\<rparr>)"

lemma sys_pipe_undone:
  assumes "ftab_ok u" "u = s\<lparr>ftable := ftable u, pipes := (pipes s)(pg := pipes u pg), freepages := freepages u\<rparr>" "a \<noteq> b"
    and "freepages s = pg # freepages u" "f_ref (ftable s a) = 0" "f_ref (ftable s b) = 0"
    and "ftable u a = pipe_file pg False f" "f_ref f = 1" "ftable u b = pipe_file pg True g" "f_ref g = 1"
    and "\<forall>i. i \<noteq> a \<longrightarrow> i \<noteq> b \<longrightarrow> ftable u i = ftable s i" "readopen (pipes u pg)" "writeopen (pipes u pg)"
  shows "\<exists>t. seqk (fileclose a) (seqk (fileclose b) (ret x)) u = Ok (x, t) \<and> ftab_ok t \<and> pipe_undone s t"
proof -
  obtain v where v: "seqk (fileclose a) (seqk (fileclose b) (ret x)) u = Ok (x, v)" "ftab_ok v"
    and fr: "v = u\<lparr>ftable := ftable v, pipes := (pipes u)(pg := pipes v pg), freepages := pg # freepages u\<rparr>"
    and ab: "f_ref (ftable v a) = 0" "f_ref (ftable v b) = 0" "\<forall>i. i \<noteq> a \<longrightarrow> i \<noteq> b \<longrightarrow> ftable v i = ftable u i"
    using close_both [of u a b pg f g x] assms by blast
  obtain ft pp fs where u: "u = s\<lparr>ftable := ft, pipes := (pipes s)(pg := pp), freepages := fs\<rparr>" using assms(2) by blast
  obtain ft' pp' where v': "v = u\<lparr>ftable := ft', pipes := (pipes u)(pg := pp'), freepages := pg # freepages u\<rparr>" using fr by blast
  have "pg # fs = freepages s" using assms(4) u by simp
  then have vs: "v = (s\<lparr>ftable := ft', pipes := (pipes s)(pg := pp')\<rparr>)" unfolding v' u by simp
  then have "v = s\<lparr>ftable := ftable v, pipes := pipes v\<rparr>" "\<forall>q. q \<noteq> pg \<longrightarrow> pipes v q = pipes s q" by simp_all
  moreover have "files_kept s v" unfolding files_kept_def
  proof (intro allI)
    fix i
    show "if f_ref (ftable s i) = 0 then f_ref (ftable v i) = 0 else ftable v i = ftable s i"
      using assms(5,6,11) ab by (cases "i = a"; cases "i = b") auto
  qed
  ultimately have "pipe_undone s v" using assms(4) by (simp add: pipe_undone_def)
  then show ?thesis using v by blast
qed

text \<open>The two files of the pipe are open: the descriptors are entered, or the files closed again.\<close>

lemma sys_pipe_enters:
  assumes p: "argptr 0 8 s = Some p" and u: "pipealloc s = Ok (Some (a, b), u)" "ftab_ok u"
      "u = s\<lparr>ftable := ftable u, pipes := (pipes s)(pg := pipes u pg), freepages := freepages u\<rparr>"
    and pg: "freepages s = pg # freepages u" "a \<noteq> b" "f_ref (ftable s a) = 0" "f_ref (ftable s b) = 0"
      "ftable u a = pipe_file pg False ((ftable s a)\<lparr>f_ref := 1\<rparr>)" "ftable u b = pipe_file pg True ((ftable s b)\<lparr>f_ref := 1\<rparr>)"
      "contents (pipes u pg) = []" "readopen (pipes u pg)" "writeopen (pipes u pg)"
      "\<forall>i. i \<noteq> a \<longrightarrow> i \<noteq> b \<longrightarrow> ftable u i = ftable s i"
    and undo: "\<exists>t. seqk (fileclose a) (seqk (fileclose b) (ret (-1 :: int))) u = Ok (-1, t) \<and> ftab_ok t \<and> pipe_undone s t"
  shows "\<exists>r t. sys_pipe s = Ok (r, t) \<and> ftab_ok t \<and> (r = -1 \<and> pipe_short s \<and> pipe_undone s t \<or> r = 0 \<and> pipe_made s t)"
proof -
  have ft: "ftable u = (ftable s)(a := pipe_file pg False ((ftable s a)\<lparr>f_ref := 1\<rparr>), b := pipe_file pg True ((ftable s b)\<lparr>f_ref := 1\<rparr>))"
    using pg(2,5,6,10) by auto
  obtain pp fs where us: "u = s\<lparr>ftable := ftable u, pipes := (pipes s)(pg := pp), freepages := fs\<rparr>" using u(3) by blast
  have pp: "pipes u pg = pp" "freepages u = fs" "ofiles u = ofiles s" "umem u = umem s" by (subst us; simp)+
  have ut: "u = s\<lparr>ftable := (ftable s)(a := pipe_file pg False ((ftable s a)\<lparr>f_ref := 1\<rparr>), b := pipe_file pg True ((ftable s b)\<lparr>f_ref := 1\<rparr>)),
      pipes := (pipes s)(pg := pp), freepages := fs\<rparr>" using us unfolding ft .
  have e: "u\<lparr>ofiles := X, umem := Y\<rparr> =
      s\<lparr>ftable := (ftable s)(a := pipe_file pg False ((ftable s a)\<lparr>f_ref := 1\<rparr>), b := pipe_file pg True ((ftable s b)\<lparr>f_ref := 1\<rparr>)),
        pipes := (pipes s)(pg := pp), freepages := fs, ofiles := X, umem := Y\<rparr>" for X Y by (subst ut) simp
  show ?thesis
  proof (cases a u rule: fdalloc_cases)
    case full
    then have "pipe_short s" using pp(3) by (auto simp: pipe_short_def)
    then show ?thesis using undo p u(1) full(1) by (auto simp: sys_pipe_def kern_simps)
  next
    case (slot fd0)
    let ?u1 = "u\<lparr>ofiles := (ofiles u)(fd0 := Some a)\<rparr>"
    show ?thesis
    proof (cases b ?u1 rule: fdalloc_cases)
      case full
      have "i = fd0" if "i < NOFILE" "ofiles s i = None" for i using full(2) that pp(3) by (auto split: if_splits)
      then have "pipe_short s" unfolding pipe_short_def by blast
      moreover have "?u1\<lparr>ofiles := (ofiles ?u1)(fd0 := None)\<rparr> = u" using slot(2) by (simp add: fun_upd_idem)
      ultimately show ?thesis using undo p u(1) slot(4) full(1) by (auto simp: sys_pipe_def kern_simps)
    next
      case two: (slot fd1)
      let ?t = "?u1\<lparr>ofiles := (ofiles ?u1)(fd1 := Some b), umem := store32 (store32 (umem u) p (of_nat fd0)) (p + 4) (of_nat fd1)\<rparr>"
      have "sys_pipe s = Ok (0, ?t)" using p u(1) slot(4) two(4) by (simp add: sys_pipe_def kern_simps)
      moreover have "ftab_ok ?t" using u(2) by (simp add: ftab_ok_def)
      moreover have "pipe_made s ?t" unfolding pipe_made_def
      proof (intro exI conjI)
        show "fd0 < fd1" using two(2) spec [OF slot(3), of fd1] by (auto split: if_splits intro: linorder_neqE_nat)
        show "ofiles s fd1 = None" using two(2) pp(3) by (simp split: if_splits)
        show "\<forall>k < fd1. k \<noteq> fd0 \<longrightarrow> ofiles s k \<noteq> None" using two(3) pp(3) by (auto split: if_splits)
        show "?t = s\<lparr>ftable := (ftable s)(a := pipe_file pg False ((ftable s a)\<lparr>f_ref := 1\<rparr>), b := pipe_file pg True ((ftable s b)\<lparr>f_ref := 1\<rparr>)),
           pipes := (pipes s)(pg := pp), freepages := freepages ?t, ofiles := (ofiles s)(fd0 := Some a, fd1 := Some b),
           umem := store32 (store32 (umem s) p (of_nat fd0)) (p + 4) (of_nat fd1)\<rparr>"
          using e [where X = "(ofiles u)(fd0 := Some a, fd1 := Some b)"] pp by simp
      qed (use p pg slot(2) two(1) pp in simp_all)
      ultimately show ?thesis by blast
    qed
  qed
qed

text \<open>
  C30: the system call \<open>pipe\<close> is all or nothing.  It always returns.  Either it gives the process two new descriptors, the two
  lowest free ones, for the two ends of a new empty pipe in a page that was free, and stores their numbers in the array of the caller; or it gives
  -1 because the array is not in the memory of the process, no page is free, or less than two entries of the file table or two descriptors are, and then
  every open file is as before in all its fields, no other entry of the file table is in use, and the pipes, the file system, the free pages, the
  descriptors and the memory of the process are as before.
\<close>

theorem sys_pipe_all_or_nothing:
  assumes ok: "ftab_ok s"
  shows "\<exists>r t. sys_pipe s = Ok (r, t) \<and> ftab_ok t \<and> (r = -1 \<and> pipe_short s \<and> pipe_undone s t \<or> r = 0 \<and> pipe_made s t)"
proof (cases "argptr 0 8 s")
  case None
  then show ?thesis using ok by (simp add: sys_pipe_def pipe_undone_def pipe_short_def)
next
  case (Some p)
  obtain r u where u: "pipealloc s = Ok (r, u)" "ftab_ok u" using pipealloc_spec [OF ok] by blast
  show ?thesis
  proof (cases r)
    case None
    then have f: "u = s\<lparr>ftable := ftable u\<rparr>" "files_kept s u"
      "freepages s = [] \<or> \<not> (\<exists>i < NFILE. \<exists>j < NFILE. i \<noteq> j \<and> f_ref (ftable s i) = 0 \<and> f_ref (ftable s j) = 0)"
      using pipealloc_spec [OF ok] u by simp_all
    have "pipes u = pipes s" by (subst f(1)) simp
    then have "pipe_undone s u" using f(1,2) by (simp add: pipe_undone_def)
    moreover have "pipe_short s" using f(3) by (auto simp: pipe_short_def)
    ultimately show ?thesis using Some None u by (simp add: sys_pipe_def kern_simps)
  next
    case ab: (Some ab)
    obtain a b where [simp]: "ab = (a, b)" by (cases ab)
    obtain pg where fr: "u = s\<lparr>ftable := ftable u, pipes := (pipes s)(pg := pipes u pg), freepages := freepages u\<rparr>"
      and pg: "freepages s = pg # freepages u" "a \<noteq> b" "f_ref (ftable s a) = 0" "f_ref (ftable s b) = 0"
      "ftable u a = pipe_file pg False ((ftable s a)\<lparr>f_ref := 1\<rparr>)" "ftable u b = pipe_file pg True ((ftable s b)\<lparr>f_ref := 1\<rparr>)"
      "contents (pipes u pg) = []" "readopen (pipes u pg)" "writeopen (pipes u pg)"
      "\<forall>i. i \<noteq> a \<longrightarrow> i \<noteq> b \<longrightarrow> ftable u i = ftable s i"
      using pipealloc_spec [OF ok] u(1) ab by auto
    have undo: "\<exists>t. seqk (fileclose a) (seqk (fileclose b) (ret (-1 :: int))) u = Ok (-1, t) \<and> ftab_ok t \<and> pipe_undone s t"
      by (rule sys_pipe_undone [OF u(2) fr pg(2,1,3,4,5) _ pg(6) _ pg(10,8,9)]) simp_all
    show ?thesis using u(1) ab by (intro sys_pipe_enters [OF Some _ u(2) fr pg undo]) simp
  qed
qed

section \<open>An example\<close>

text \<open>
  A process of two pages with its arguments on the stack at address 4096: a buffer at 100, the length 5.  At address 100 it
  has the string "hi".  No file is open.
\<close>

definition ex_umem :: memory where
  "ex_umem = (\<lambda>_. 0)(4100 := 100, 4104 := 5, 100 := 104, 101 := 105)"

definition ex_ofile :: ofile where
  "ex_ofile = \<lparr>f_type = FD_NONE, f_ref = 0, f_readable = False, f_writable = False, f_pipe = 0, f_ip = 0, f_off = 0\<rparr>"

definition ex_ust :: ust where
  "ex_ust = fsst.extend ex_fs (filest_ext (\<lambda>_. ex_ofile) (\<lambda>_. pipe_init (\<lambda>_. 0)) [7, 8] False
     (ust_ext ex_umem 8192 4096 (\<lambda>_. None) ()))"

lemma ex_ust_simps [simp]: "ftable ex_ust = (\<lambda>_. ex_ofile)" "freepages ex_ust = [7, 8]" "umem ex_ust = ex_umem" "psz ex_ust = 8192"
  "uesp ex_ust = 4096" "ofiles ex_ust = (\<lambda>_. None)"
  by (simp_all add: ex_ust_def fsst.defs)

theorem syscall_arguments_in_bounds_witness:
  "fetchint 4104 ex_ust = Some 5 \<and> argptr 0 5 ex_ust = Some 100 \<and> fetchstr 100 ex_ust = Some [104, 105] \<and>
   unat (100 :: u32) + nat 5 \<le> unat (psz ex_ust) \<and> unat (100 :: u32) + length [104, 105 :: u8] < unat (psz ex_ust)"
proof -
  have "fetchint 4104 ex_ust = Some 5" by (simp add: fetchint_def load32_def ex_umem_def)
  moreover have p: "argptr 0 5 ex_ust = Some 100" by (simp add: argptr_def argint_def fetchint_def load32_def ex_umem_def)
  moreover have f: "fetchstr 100 ex_ust = Some [104, 105]" 
    by (simp add: fetchstr_def ex_umem_def fetchstr_loop_step)
  ultimately show ?thesis
    using syscall_arguments_in_bounds [of ex_ust 4104 5 5 0 100 "[104, 105]"] by simp
qed

theorem sys_pipe_all_or_nothing_witness:
  "\<exists>t. sys_pipe ex_ust = Ok (0, t) \<and> ftab_ok t \<and> pipe_made ex_ust t"
proof -
  have ok: "ftab_ok ex_ust" by (simp add: ftab_ok_def ex_ofile_def)
  have p: "argptr 0 8 ex_ust = Some 100" by (simp add: argptr_def argint_def fetchint_def load32_def ex_umem_def)
  have f: "\<exists>i < NFILE. \<exists>j < NFILE. i \<noteq> j \<and> f_ref (ftable ex_ust i) = 0 \<and> f_ref (ftable ex_ust j) = 0"
    by (rule exI [of _ 0], simp add: NFILE_def ex_ofile_def, rule exI [of _ 1], simp)
  have d: "\<exists>i < NOFILE. \<exists>j < NOFILE. i \<noteq> j \<and> ofiles ex_ust i = None \<and> ofiles ex_ust j = None"
    by (rule exI [of _ 0], simp add: NOFILE_def, rule exI [of _ 1], simp)
  have "\<not> pipe_short ex_ust" using p f d by (simp add: pipe_short_def)
  then show ?thesis using sys_pipe_all_or_nothing [OF ok] by blast
qed

end
