(* ===== verification/Grep.thy ===== *)
theory Grep
  imports Prelude
begin

text \<open>
  The user program \<open>grep.c\<close>: its regular expression matcher and its loop over the input.  A C string is the list of its bytes
  before the terminating zero, so the code's test for the zero at the end is the test for the empty list.  The matcher is
  compared with the language of the expression; the loop, which keeps unfinished lines in a buffer of 1024 bytes, with
  the list of the lines of its input.
\<close>

section \<open>The matcher\<close>

abbreviation (input) c_caret :: u8 where "c_caret \<equiv> 94"
abbreviation (input) c_dollar :: u8 where "c_dollar \<equiv> 36"
abbreviation (input) c_dot :: u8 where "c_dot \<equiv> 46"
abbreviation (input) c_star :: u8 where "c_star \<equiv> 42"
abbreviation (input) c_newline :: u8 where "c_newline \<equiv> 10"

function matchhere :: "u8 list \<Rightarrow> u8 list \<Rightarrow> bool" and matchstar :: "u8 \<Rightarrow> u8 list \<Rightarrow> u8 list \<Rightarrow> bool" where
  "matchhere [] str = True"
| "matchhere (c # re) str =
     (if re \<noteq> [] \<and> hd re = c_star then matchstar c (tl re) str
      else if c = c_dollar \<and> re = [] then str = []
      else case str of
        [] \<Rightarrow> False
      | t # ts \<Rightarrow> (c = c_dot \<or> c = t) \<and> matchhere re ts)"
| "matchstar c re str =
     (matchhere re str \<or>
      (case str of [] \<Rightarrow> False | t # ts \<Rightarrow> (t = c \<or> c = c_dot) \<and> matchstar c re ts))"
  by pat_completeness auto
termination
  by (relation "measure (\<lambda>x. case x of Inl (re, str) \<Rightarrow> 2 * (length re + length str)
      | Inr (c, re, str) \<Rightarrow> 2 * (length re + length str) + 1)") (auto simp: neq_Nil_conv)

fun match_from :: "u8 list \<Rightarrow> u8 list \<Rightarrow> bool" where
  "match_from re str =
     (matchhere re str \<or> (case str of [] \<Rightarrow> False | t # ts \<Rightarrow> match_from re ts))"

definition match :: "u8 list \<Rightarrow> u8 list \<Rightarrow> bool" where
  "match re str = (case re of
     [] \<Rightarrow> match_from re str
   | c # re' \<Rightarrow> if c = c_caret then matchhere re' str else match_from re str)"

declare matchhere.simps(2) [simp del] matchstar.simps [simp del] match_from.simps [simp del]

section \<open>What an expression means\<close>

datatype item = One u8 | Many u8

definition accepts :: "u8 \<Rightarrow> u8 \<Rightarrow> bool" where
  "accepts c t \<longleftrightarrow> c = c_dot \<or> c = t"

text \<open>The items of an expression, and whether it ends with the anchor \<open>$\<close>.\<close>

fun items :: "u8 list \<Rightarrow> item list \<times> bool" where
  "items [] = ([], False)"
| "items [c] = (if c = c_dollar then ([], True) else ([One c], False))"
| "items (c # d # re) =
     (if d = c_star then apfst ((#) (Many c)) (items re) else apfst ((#) (One c)) (items (d # re)))"

fun lang :: "item list \<Rightarrow> u8 list set" where
  "lang [] = {[]}"
| "lang (One c # is) = {t # u |t u. accepts c t \<and> u \<in> lang is}"
| "lang (Many c # is) = {us @ v |us v. (\<forall>t \<in> set us. accepts c t) \<and> v \<in> lang is}"

definition starts :: "item list \<times> bool \<Rightarrow> u8 list \<Rightarrow> bool" where
  "starts p str \<longleftrightarrow> (\<exists>u v. str = u @ v \<and> u \<in> lang (fst p) \<and> (snd p \<longrightarrow> v = []))"

lemma lang_ManyI: "\<forall>t \<in> set us. accepts c t \<Longrightarrow> v \<in> lang is \<Longrightarrow> us @ v \<in> lang (Many c # is)"
  by auto

lemma startsI: "str = u @ v \<Longrightarrow> u \<in> lang (fst p) \<Longrightarrow> snd p \<longrightarrow> v = [] \<Longrightarrow> starts p str"
  unfolding starts_def by blast

lemma starts_Nil: "starts ([], e) str \<longleftrightarrow> e \<longrightarrow> str = []"
  by (auto simp: starts_def)

lemma starts_One: "starts (apfst ((#) (One c)) p) str \<longleftrightarrow> (\<exists>t ts. str = t # ts \<and> accepts c t \<and> starts p ts)"
proof
  assume "starts (apfst ((#) (One c)) p) str"
  then obtain w v where "str = w @ v" "w \<in> lang (One c # fst p)" "snd p \<longrightarrow> v = []" unfolding starts_def by auto
  then obtain t u where "str = t # u @ v" "accepts c t" "u \<in> lang (fst p)" "snd p \<longrightarrow> v = []" by auto
  then show "\<exists>t ts. str = t # ts \<and> accepts c t \<and> starts p ts" unfolding starts_def by blast
next
  assume "\<exists>t ts. str = t # ts \<and> accepts c t \<and> starts p ts"
  then obtain t u v where "str = t # u @ v" "accepts c t" "u \<in> lang (fst p)" "snd p \<longrightarrow> v = []" by (auto simp: starts_def)
  then show "starts (apfst ((#) (One c)) p) str" by (intro startsI [of _ "t # u" v]) auto
qed

lemma starts_Many:
  "starts (apfst ((#) (Many c)) p) str \<longleftrightarrow>
     starts p str \<or> (\<exists>t ts. str = t # ts \<and> accepts c t \<and> starts (apfst ((#) (Many c)) p) ts)"
proof
  assume "starts (apfst ((#) (Many c)) p) str"
  then obtain x w where x: "str = x @ w" "x \<in> lang (Many c # fst p)" "snd p \<longrightarrow> w = []" unfolding starts_def by auto
  then obtain us v where u: "str = (us @ v) @ w" "\<forall>t \<in> set us. accepts c t" "v \<in> lang (fst p)" "snd p \<longrightarrow> w = []" by auto
  show "starts p str \<or> (\<exists>t ts. str = t # ts \<and> accepts c t \<and> starts (apfst ((#) (Many c)) p) ts)"
  proof (cases us)
    case Nil
    then have "starts p str" using u by (intro startsI [of _ v w]) auto
    then show ?thesis ..
  next
    case (Cons t us')
    then have "starts (apfst ((#) (Many c)) p) ((us' @ v) @ w)" using u by (intro startsI [of _ "us' @ v" w]) auto
    moreover have "str = t # ((us' @ v) @ w)" "accepts c t" using u Cons by simp_all
    ultimately show ?thesis by blast
  qed
next
  assume "starts p str \<or> (\<exists>t ts. str = t # ts \<and> accepts c t \<and> starts (apfst ((#) (Many c)) p) ts)"
  then show "starts (apfst ((#) (Many c)) p) str"
  proof
    assume "starts p str"
    then obtain u v where "str = u @ v" "u \<in> lang (fst p)" "snd p \<longrightarrow> v = []" unfolding starts_def by blast
    then show ?thesis using lang_ManyI [of "[]" c u "fst p"] by (intro startsI [of _ u v]) auto
  next
    assume "\<exists>t ts. str = t # ts \<and> accepts c t \<and> starts (apfst ((#) (Many c)) p) ts"
    then obtain t ts where "str = t # ts" "accepts c t" "starts (apfst ((#) (Many c)) p) ts" by blast
    moreover then obtain x w where "ts = x @ w" "x \<in> lang (Many c # fst p)" "snd p \<longrightarrow> w = []"
      unfolding starts_def by (auto simp del: lang.simps)
    ultimately have "str = t # x @ w" "accepts c t" "x \<in> lang (Many c # fst p)" "snd p \<longrightarrow> w = []" by simp_all
    then obtain us v where "str = t # (us @ v) @ w" "accepts c t" "\<forall>t \<in> set us. accepts c t" "v \<in> lang (fst p)" "snd p \<longrightarrow> w = []"
      by auto
    then show ?thesis 
      using lang_ManyI [of "t # us" c v "fst p"] by (intro startsI [of _ "(t # us) @ v" w]) (simp_all del: lang.simps)
  qed
qed

lemma matchhere_starts:
  "matchhere re str \<longleftrightarrow> starts (items re) str"
  "matchstar c re str \<longleftrightarrow> starts (apfst ((#) (Many c)) (items re)) str"
proof (induction re str and c re str rule: matchhere_matchstar.induct)
  case (1 str)
  then show ?case by (simp add: starts_Nil)
next
  case (2 c re str)
  then show ?case
    by (cases re; cases str)
      (auto simp: matchhere.simps(2) starts_Nil starts_One [of c "([], False)", simplified] starts_One accepts_def)
next
  case (3 c re str)
  then show ?case
    by (subst matchstar.simps, subst starts_Many) (auto simp: accepts_def split: list.splits)
qed

lemma match_from_iff: "match_from re str \<longleftrightarrow> (\<exists>pre post. str = pre @ post \<and> matchhere re post)"
proof (induction str)
  case Nil
  then show ?case by (subst match_from.simps) simp
next
  case (Cons t ts)
  then show ?case by (subst match_from.simps) (auto simp: Cons_eq_append_conv)
qed

text \<open>
  C36: the matcher of \<open>grep\<close> finds exactly the texts that its expressions describe.  It always ends, and it accepts a str if and only
  if some piece of it belongs to the language of the expression, at the start of the str if the expression begins with
  \<open>^\<close> and up to its end if it ends with \<open>$\<close>.
\<close>

theorem match_language:
  "match re str \<longleftrightarrow>
     (\<exists>pre piece post. str = pre @ piece @ post \<and>
        (let anchored = (re \<noteq> [] \<and> hd re = c_caret); p = items (if anchored then tl re else re) in
         piece \<in> lang (fst p) \<and> (anchored \<longrightarrow> pre = []) \<and> (snd p \<longrightarrow> post = [])))"
proof (cases "re \<noteq> [] \<and> hd re = c_caret")
  case True
  then obtain re' where re: "re = c_caret # re'" by (cases re) auto
  show ?thesis by (simp add: re match_def matchhere_starts starts_def Let_def)
next
  case False
  then have "match re str = match_from re str" by (cases re) (auto simp: match_def)
  then show ?thesis using False
    by (simp add: match_from_iff matchhere_starts starts_def Let_def) blast
qed

theorem match_language_witness:
  "match [94, 97, 46, 42, 36] [97, 98, 99] \<and>
   (\<exists>pre piece post. [97, 98, 99] = pre @ piece @ post \<and> piece \<in> lang [One 97, Many 46] \<and> pre = [] \<and> post = [])"
proof -
  have m: "match [94, 97, 46, 42, 36] [97, 98, 99]"
    by (simp add: match_def matchhere.simps(2) matchstar.simps)
  then show ?thesis using match_language [of "[94, 97, 46, 42, 36]" "[97, 98, 99]"] by (simp add: Let_def)
qed

section \<open>The loop\<close>

text \<open>
  The position of the first byte \<open>c\<close> before the end of the string, as \<open>strchr\<close> finds it.  The buffer is the list of the \<open>m\<close> bytes
  read and not yet dealt with; the byte after them is zero.
\<close>

fun strchr :: "u8 list \<Rightarrow> u8 \<Rightarrow> nat option" where
  "strchr [] c = None"
| "strchr (x # xs) c = (if x = 0 then None else if x = c then Some 0 else map_option Suc (strchr xs c))"

lemma strchr_Some: "strchr xs c = Some k \<Longrightarrow> k < length xs"
  by (induction xs arbitrary: k) (auto split: if_splits)

text \<open>The inner loop: the bytes it writes and the bytes from \<open>p\<close> on when it ends.\<close>

function grep_lines :: "u8 list \<Rightarrow> u8 list \<Rightarrow> u8 list \<times> u8 list" where
  "grep_lines pat xs = (case strchr xs c_newline of
     None \<Rightarrow> ([], xs)
   | Some k \<Rightarrow> (case grep_lines pat (drop (Suc k) xs) of (out, rest) \<Rightarrow>
       ((if match pat (take k xs) then take k xs @ [c_newline] else []) @ out, rest)))"
  by auto
termination by (relation "measure (\<lambda>(pat, xs). length xs)") (auto dest: strchr_Some)

declare grep_lines.simps [simp del]

text \<open>
  The outer loop.  \<open>rd f n\<close> is the result of \<open>read\<close> of at most \<open>n\<close> bytes in the state \<open>f\<close> of the file: the bytes, none at the end
  of the file or on an error, and the new state.
\<close>

type_synonym 'f reader = "'f \<Rightarrow> nat \<Rightarrow> u8 list \<times> 'f"

fun grep :: "nat \<Rightarrow> 'f reader \<Rightarrow> u8 list \<Rightarrow> 'f \<Rightarrow> u8 list \<Rightarrow> u8 list option" where
  "grep 0 rd pat f buf = None"
| "grep (Suc fuel) rd pat f buf =
     (case rd f (1024 - length buf - 1) of (chunk, f') \<Rightarrow>
        if chunk = [] then Some []
        else case grep_lines pat (buf @ chunk) of (out, rest) \<Rightarrow>
          map_option ((@) out)
            (grep fuel rd pat f' (if length rest = length (buf @ chunk) then [] else rest)))"

section \<open>Lines\<close>

text \<open>The lines of a text that are terminated by a newline.\<close>

function full_lines :: "u8 list \<Rightarrow> u8 list list" where
  "full_lines xs = (if c_newline \<in> set xs
     then takeWhile (\<lambda>x. x \<noteq> c_newline) xs # full_lines (tl (dropWhile (\<lambda>x. x \<noteq> c_newline) xs)) else [])"
  by auto
termination
proof (relation "measure length")
  fix xs :: "u8 list"
  assume "c_newline \<in> set xs"
  then show "(tl (dropWhile (\<lambda>x. x \<noteq> c_newline) xs), xs) \<in> measure length"
    using length_dropWhile_le [of "\<lambda>x. x \<noteq> c_newline" xs] by (cases xs) auto
qed simp

declare full_lines.simps [simp del]

definition matching_lines :: "u8 list \<Rightarrow> u8 list \<Rightarrow> u8 list" where
  "matching_lines pat xs = concat (map (\<lambda>l. l @ [c_newline]) (filter (match pat) (full_lines xs)))"

lemma full_lines_none: "c_newline \<notin> set xs \<Longrightarrow> full_lines xs = []"
  by (subst full_lines.simps) simp

lemma full_lines_line:
  assumes "c_newline \<notin> set l"
  shows "full_lines (l @ c_newline # xs) = l # full_lines xs"
proof -
  have "\<forall>x \<in> set l. x \<noteq> c_newline" using assms by auto
  then have "takeWhile (\<lambda>x. x \<noteq> c_newline) (l @ c_newline # xs) = l" "dropWhile (\<lambda>x. x \<noteq> c_newline) (l @ c_newline # xs) = c_newline # xs"
    by (simp_all add: takeWhile_append dropWhile_append)
  then show ?thesis by (subst full_lines.simps) simp
qed

lemma strchr_none: "c \<notin> set xs \<Longrightarrow> strchr xs c = None"
  by (induction xs) auto

lemma strchr_line: "c \<notin> set l \<Longrightarrow> 0 \<notin> set l \<Longrightarrow> c \<noteq> 0 \<Longrightarrow> strchr (l @ c # xs) c = Some (length l)"
  by (induction l) auto

text \<open>What the inner loop writes, and what it leaves: the unfinished last line.\<close>

lemma grep_lines_spec:
  assumes "0 \<notin> set xs"
  shows "\<exists>rest. grep_lines pat xs = (matching_lines pat xs, rest) \<and> c_newline \<notin> set rest \<and>
    (if c_newline \<in> set xs then length rest < length xs else rest = xs) \<and> set rest \<subseteq> set xs \<and>
    (\<forall>ys. full_lines (xs @ ys) = full_lines xs @ full_lines (rest @ ys))"
  using assms
proof (induction xs rule: length_induct)
  case (1 xs)
  show ?case
  proof (cases "c_newline \<in> set xs")
    case False
    then show ?thesis by (subst grep_lines.simps) (simp add: strchr_none matching_lines_def full_lines_none)
  next
    case True
    then obtain l zs where x: "xs = l @ c_newline # zs" "c_newline \<notin> set l" by (metis split_list_first)
    then obtain rest where r: "grep_lines pat zs = (matching_lines pat zs, rest)" "c_newline \<notin> set rest" "length rest \<le> length zs"
      "set rest \<subseteq> set zs" "\<forall>ys. full_lines (zs @ ys) = full_lines zs @ full_lines (rest @ ys)"
    proof -
      have "length zs < length xs" "0 \<notin> set zs" using x 1(2) by auto
      with 1(1) obtain rest where "grep_lines pat zs = (matching_lines pat zs, rest)" "c_newline \<notin> set rest"
        "if c_newline \<in> set zs then length rest < length zs else rest = zs" "set rest \<subseteq> set zs"
        "\<forall>ys. full_lines (zs @ ys) = full_lines zs @ full_lines (rest @ ys)" by blast
      then show ?thesis by (intro that) (auto split: if_splits)
    qed
    have "grep_lines pat xs = (matching_lines pat xs, rest)"
      using 1(2) x r(1) by (subst grep_lines.simps) (simp add: strchr_line matching_lines_def full_lines_line)
    then show ?thesis using r x by (auto simp: full_lines_line)
  qed
qed

section \<open>Files\<close>

text \<open>Reading a file gives as many bytes as asked for, or what is left of the file (\<open>readi\<close>).\<close>

definition read_file :: "u8 list reader" where
  "read_file xs n = (take n xs, drop n xs)"

lemma matching_lines_split:
  "full_lines zs = full_lines xs @ full_lines ys \<Longrightarrow> matching_lines pat zs = matching_lines pat xs @ matching_lines pat ys"
  by (simp add: matching_lines_def)

lemma grep_numeral:
  "grep (numeral k) rd pat f buf = (case rd f (1024 - length buf - 1) of (chunk, f') \<Rightarrow>
     if chunk = [] then Some []
     else case grep_lines pat (buf @ chunk) of (out, rest) \<Rightarrow>
       map_option ((@) out) (grep (pred_numeral k) rd pat f' (if length rest = length (buf @ chunk) then [] else rest)))"
  by (simp add: numeral_eq_Suc)

lemma grep_file:
  assumes "0 \<notin> set (buf @ xs)" "c_newline \<notin> set buf" "length buf \<le> 1022" "length xs < fuel"
    and "\<forall>l \<in> set (full_lines (buf @ xs)). length l \<le> 1022"
  shows "grep fuel read_file pat xs buf = Some (matching_lines pat (buf @ xs))"
  using assms
proof (induction fuel arbitrary: xs buf)
  case 0
  then show ?case by simp
next
  case (Suc fuel)
  let ?n = "1024 - length buf - 1"
  let ?w = "buf @ take ?n xs" and ?ys = "drop ?n xs"
  show ?case
  proof (cases "xs = []")
    case True
    then show ?thesis using Suc.prems(2) by (simp add: read_file_def matching_lines_def full_lines_none)
  next
    case False
    have n: "0 < ?n" using Suc.prems(3) by simp
    have parts: "buf @ xs = ?w @ ?ys" by simp
    have fewer: "length ?ys < fuel" using Suc.prems(4) False n by (cases xs) auto
    have "0 \<notin> set ?w" "0 \<notin> set ?ys" using Suc.prems(1) by (auto dest: in_set_takeD in_set_dropD)
    then obtain rest where r: "grep_lines pat ?w = (matching_lines pat ?w, rest)" "c_newline \<notin> set rest"
      "if c_newline \<in> set ?w then length rest < length ?w else rest = ?w" "set rest \<subseteq> set ?w"
      "full_lines (?w @ ?ys) = full_lines ?w @ full_lines (rest @ ?ys)"
      using grep_lines_spec [of ?w pat] by blast
    let ?b = "if length rest = length ?w then [] else rest"
    have step: "grep (Suc fuel) read_file pat xs buf = map_option ((@) (matching_lines pat ?w)) (grep fuel read_file pat ?ys ?b)"
      using r(1) False n by (simp add: read_file_def)
    have lines: "full_lines (rest @ ?ys) = full_lines (?b @ ?ys)"
    proof (cases "length rest = length ?w")
      case True
      then have none: "c_newline \<notin> set ?w" "rest = ?w" using r(3) by (auto split: if_splits)
      have "c_newline \<notin> set ?ys"
      proof
        assume "c_newline \<in> set ?ys"
        then obtain l zs where l: "?ys = l @ c_newline # zs" "c_newline \<notin> set l" by (metis split_list_first)
        then have "?w @ l \<in> set (full_lines (buf @ xs))"
          using full_lines_line [of "?w @ l" zs] none by (simp add: parts del: append_take_drop_id)
        moreover have "?n < length xs" using l(1) by (cases "length xs \<le> ?n") auto
        then have "length ?w = 1023" using Suc.prems(3) by simp
        ultimately show False using Suc.prems(5) by fastforce
      qed
      then have "c_newline \<notin> set (rest @ ?ys)" "c_newline \<notin> set (?b @ ?ys)" using none by (simp_all del: append_take_drop_id)
      from this [THEN full_lines_none] show ?thesis by (rule trans [OF _ sym])
    qed simp
    have "grep fuel read_file pat ?ys ?b = Some (matching_lines pat (?b @ ?ys))"
    proof (rule Suc.IH)
      show "0 \<notin> set (?b @ ?ys)" using \<open>0 \<notin> set ?w\<close> \<open>0 \<notin> set ?ys\<close> r(4) by auto
      show "c_newline \<notin> set ?b" using r(2) by auto
      show "length ?b \<le> 1022" using r(3) Suc.prems(3) by (auto split: if_splits)
      show "length ?ys < fuel" by (rule fewer)
      show "\<forall>l \<in> set (full_lines (?b @ ?ys)). length l \<le> 1022"
        using Suc.prems(5) unfolding parts r(5) lines set_append ball_Un by (rule conjunct2)
    qed
    moreover have "matching_lines pat (buf @ xs) = matching_lines pat ?w @ matching_lines pat (?b @ ?ys)"
      unfolding parts by (rule matching_lines_split) (simp only: r(5) lines)
    ultimately show ?thesis unfolding step by (simp only: option.map)
  qed
qed

text \<open>
  C37: on a file, \<open>grep\<close> prints the matching lines.  If no line has more than 1022 bytes and the file has no zero byte, then however the
  lines lie across the reads of the 1024-byte buffer, the program ends and its output is, in order, the terminated lines
  that match.  A last line without a newline is never printed.
\<close>

theorem grep_prints_matching_lines:
  assumes "0 \<notin> set xs" "\<forall>l \<in> set (full_lines xs). length l \<le> 1022"
  shows "grep (Suc (length xs)) read_file pat xs [] = Some (matching_lines pat xs)"
  using grep_file [of "[]" xs "Suc (length xs)" pat] assms by simp

theorem grep_prints_matching_lines_witness:
  "grep 9 read_file [104, 105] [104, 105, 10, 98, 10, 104, 105, 33] [] = Some [104, 105, 10]"
proof -
  let ?xs = "[104, 105, 10, 98, 10, 104, 105, 33] :: u8 list"
  have l: "full_lines ?xs = [[104, 105], [98]]"
    using full_lines_line [of "[104, 105]" "[98, 10, 104, 105, 33]"] full_lines_line [of "[98]" "[104, 105, 33]"]
      full_lines_none [of "[104, 105, 33]"] by simp
  then have "matching_lines [104, 105] ?xs = [104, 105, 10]"
    by (simp add: matching_lines_def match_def match_from.simps matchhere.simps(2))
  moreover have n: "Suc (length ?xs) = 9" by simp
  moreover have "0 \<notin> set ?xs" "\<forall>l \<in> set (full_lines ?xs). length l \<le> 1022" by (simp_all add: l)
  ultimately show ?thesis using grep_prints_matching_lines [of ?xs "[104, 105]", unfolded n] by metis
qed

text \<open>
  On a pipe or the console, where a read may return part of a line, \<open>grep\<close> loses input.  A read that completes no line empties the
  buffer (\<open>p == buf\<close>), not only when the buffer is full: the bytes read so far are forgotten, whatever comes next.
\<close>

theorem grep_forgets_partial_line:
  assumes "rd f (1024 - length buf - 1) = (chunk, f')" "chunk \<noteq> []" "c_newline \<notin> set (buf @ chunk)"
  shows "grep (Suc fuel) rd pat f buf = grep fuel rd pat f' []"
proof -
  have "grep_lines pat (buf @ chunk) = ([], buf @ chunk)"
    using assms(3) by (subst grep_lines.simps) (simp add: strchr_none)
  then show ?thesis using assms(1,2) by (cases "grep fuel rd pat f' []") auto
qed

text \<open>The line "hi" is found when it arrives in one piece and not when its first letter arrives alone.\<close>

definition read_pieces :: "u8 list list reader" where
  "read_pieces f n = (case f of [] \<Rightarrow> ([], []) | x # xs \<Rightarrow> (x, xs))"

theorem grep_forgets_partial_line_witness:
  "grep 3 read_pieces [104, 105] [[104, 105, 10]] [] = Some [104, 105, 10] \<and>
   grep 3 read_pieces [104, 105] [[104], [105, 10]] [] = grep 2 read_pieces [104, 105] [[105, 10]] [] \<and>
   grep 3 read_pieces [104, 105] [[104], [105, 10]] [] = Some []"
proof (intro conjI)
  show "grep 3 read_pieces [104, 105] [[104, 105, 10]] [] = Some [104, 105, 10]"
    by (simp add: grep_numeral read_pieces_def grep_lines.simps match_def match_from.simps matchhere.simps(2))
  show *: "grep 3 read_pieces [104, 105] [[104], [105, 10]] [] = grep 2 read_pieces [104, 105] [[105, 10]] []"
    using grep_forgets_partial_line [of read_pieces "[[104], [105, 10]]" "[]" "[104]" "[[105, 10]]" 2 "[104, 105]"]
    by (simp add: read_pieces_def del: grep.simps)
  show "grep 3 read_pieces [104, 105] [[104], [105, 10]] [] = Some []" unfolding *
    by (simp add: grep_numeral read_pieces_def grep_lines.simps match_def match_from.simps matchhere.simps(2))
qed

end
