(* ===== verification/Ulib.thy ===== *)
theory Ulib
  imports Cstring
begin

text \<open>
  The C library of the user programs: string functions and number conversion (\<open>ulib.c\<close>) and formatted output
  (\<open>printf.c\<close>).  A C string is the list of its bytes before the terminating zero, output is the list of the bytes written.
  Writing outside the 16-byte buffer of \<open>printint\<close> gives \<open>None\<close>.
\<close>

section \<open>Strings\<close>

fun ustrcmp :: "u8 list \<Rightarrow> u8 list \<Rightarrow> int" where
  "ustrcmp [] [] = 0"
| "ustrcmp [] (q # qs) = - uint q"
| "ustrcmp (p # ps) [] = uint p"
| "ustrcmp (p # ps) (q # qs) = (if p = q then ustrcmp ps qs else uint p - uint q)"

fun atoi_loop :: "u32 \<Rightarrow> u8 list \<Rightarrow> u32" where
  "atoi_loop n [] = n"
| "atoi_loop n (c # s) = (if 48 \<le> c \<and> c \<le> 57 then atoi_loop (n * 10 + ucast c - 48) s else n)"

definition atoi :: "u8 list \<Rightarrow> u32" where
  "atoi s = atoi_loop 0 s"

text \<open>\<open>gets\<close> with space for \<open>n\<close> more bytes, on the bytes that standard input still gives: the line and the bytes left.\<close>

fun gets_loop :: "nat \<Rightarrow> u8 list \<Rightarrow> u8 list \<times> u8 list" where
  "gets_loop 0 inp = ([], inp)"
| "gets_loop (Suc n) [] = ([], [])"
| "gets_loop (Suc n) (c # inp) =
     (if c = 10 \<or> c = 13 then ([c], inp) else map_prod ((#) c) id (gets_loop n inp))"

definition gets :: "int \<Rightarrow> u8 list \<Rightarrow> u8 list \<times> u8 list" where
  "gets mx inp = gets_loop (nat (mx - 1)) inp"

section \<open>Memory\<close>

text \<open>These work on the memory of the process; \<open>strcpy\<close> and \<open>strlen\<close> do not end on a string without terminating zero.\<close>

partial_function (option) ustrcpy_loop :: "memory \<Rightarrow> u32 \<Rightarrow> u32 \<Rightarrow> memory option" where
  "ustrcpy_loop m s t = (if m t \<noteq> 0 then ustrcpy_loop (m(s := m t)) (s + 1) (t + 1) else Some (m(s := m t)))"

definition ustrcpy :: "memory \<Rightarrow> u32 \<Rightarrow> u32 \<Rightarrow> (u32 \<times> memory) option" where
  "ustrcpy m s t = map_option (\<lambda>m'. (s, m')) (ustrcpy_loop m s t)"

definition ustrlen :: "bytes \<Rightarrow> u32 option" where
  "ustrlen s = map_option of_nat (strlen s)"

definition umemset :: "memory \<Rightarrow> u32 \<Rightarrow> u32 \<Rightarrow> u32 \<Rightarrow> memory" where
  "umemset m dst c n = stosb m dst (ucast c) (unat n)"

text \<open>Unlike the \<open>memmove\<close> of the kernel, this one always copies upwards.\<close>

definition umemmove :: "memory \<Rightarrow> u32 \<Rightarrow> u32 \<Rightarrow> int \<Rightarrow> u32 \<times> memory" where
  "umemmove m vdst vsrc n = (vdst, copy_up m vdst vsrc (nat n))"

text \<open>\<open>stat\<close> on the system calls it makes: each takes the state and returns its result and the new state.\<close>

definition ustat :: "('s \<Rightarrow> int \<times> 's) \<Rightarrow> (int \<Rightarrow> 's \<Rightarrow> int \<times> 's) \<Rightarrow> (int \<Rightarrow> 's \<Rightarrow> int \<times> 's) \<Rightarrow> 's \<Rightarrow> int \<times> 's" where
  "ustat opn fstat cls s = (case opn s of (fd, s1) \<Rightarrow>
     if fd < 0 then (-1, s1)
     else case fstat fd s1 of (r, s2) \<Rightarrow> case cls fd s2 of (_, s3) \<Rightarrow> (r, s3))"

section \<open>Formatted output\<close>

definition digit :: "u32 \<Rightarrow> u8" where
  "digit d = [48, 49, 50, 51, 52, 53, 54, 55, 56, 57, 65, 66, 67, 68, 69, 70] ! unat d"

text \<open>The digits from position \<open>i\<close> of the buffer on, the last first.\<close>

function int_digits :: "nat \<Rightarrow> u32 \<Rightarrow> u32 \<Rightarrow> u8 list option" where
  "int_digits i base x =
     (if 16 \<le> i then None
      else if x div base = 0 then Some [digit (x mod base)]
      else map_option ((#) (digit (x mod base))) (int_digits (Suc i) base (x div base)))"
  by auto
termination by (relation "measure (\<lambda>(i, base, x). 16 - i)") auto

declare int_digits.simps [simp del]

definition printint :: "u32 \<Rightarrow> u32 \<Rightarrow> bool \<Rightarrow> u8 list option" where
  "printint xx base sg =
     (let neg = (sg \<and> xx <s 0); x = (if neg then - xx else xx) in
      case int_digits 0 base x of
        None \<Rightarrow> None
      | Some ds \<Rightarrow> if neg then (if 16 \<le> length ds then None else Some (rev (ds @ [45]))) else Some (rev ds))"

text \<open>
  \<open>printf\<close>: \<open>ap k\<close> is the \<open>k\<close>-th word after the format on the stack, \<open>strs\<close> the string at an address; \<open>pct\<close> says that the last byte was
  a percent sign.
\<close>

definition string_arg :: "(u32 \<Rightarrow> u8 list) \<Rightarrow> u32 \<Rightarrow> u8 list" where
  "string_arg strs a = (if a = 0 then [40, 110, 117, 108, 108, 41] else strs a)"

fun printf_loop :: "(u32 \<Rightarrow> u8 list) \<Rightarrow> (nat \<Rightarrow> u32) \<Rightarrow> nat \<Rightarrow> bool \<Rightarrow> u8 list \<Rightarrow> u8 list option" where
  "printf_loop strs ap k pct [] = Some []"
| "printf_loop strs ap k pct (c # fmt) =
     (if \<not> pct then
        if c = 37 then printf_loop strs ap k True fmt else map_option ((#) c) (printf_loop strs ap k False fmt)
      else if c = 100 then
        (case printint (ap k) 10 True of None \<Rightarrow> None | Some ds \<Rightarrow> map_option ((@) ds) (printf_loop strs ap (Suc k) False fmt))
      else if c = 120 \<or> c = 112 then
        (case printint (ap k) 16 False of None \<Rightarrow> None | Some ds \<Rightarrow> map_option ((@) ds) (printf_loop strs ap (Suc k) False fmt))
      else if c = 115 then map_option ((@) (string_arg strs (ap k))) (printf_loop strs ap (Suc k) False fmt)
      else if c = 99 then map_option ((#) (ucast (ap k))) (printf_loop strs ap (Suc k) False fmt)
      else if c = 37 then map_option ((#) c) (printf_loop strs ap k False fmt)
      else map_option (\<lambda>r. 37 # c # r) (printf_loop strs ap k False fmt))"

definition printf :: "(u32 \<Rightarrow> u8 list) \<Rightarrow> (nat \<Rightarrow> u32) \<Rightarrow> u8 list \<Rightarrow> u8 list option" where
  "printf strs ap fmt = printf_loop strs ap 0 False fmt"

section \<open>Numbers\<close>

fun digit_val :: "u8 \<Rightarrow> nat" where
  "digit_val c = (if c < 65 then unat c - 48 else unat c - 55)"

definition digits_val :: "nat \<Rightarrow> u8 list \<Rightarrow> nat" where
  "digits_val base ds = foldr (\<lambda>d a. digit_val d + base * a) ds 0"

lemma digit_table:
  "k < 16 \<Longrightarrow> digit_val (digit (of_nat k)) = k"
  "k < 10 \<Longrightarrow> 48 \<le> digit (of_nat k) \<and> digit (of_nat k) \<le> 57 \<and> unat (digit (of_nat k)) = k + 48"
proof -
  have "list_all (\<lambda>k. digit_val (digit (of_nat k)) = k) [0 ..< 16]" by code_simp
  then show "k < 16 \<Longrightarrow> digit_val (digit (of_nat k)) = k" by (simp add: list_all_iff)
  have "list_all (\<lambda>k. 48 \<le> digit (of_nat k) \<and> digit (of_nat k) \<le> 57 \<and> unat (digit (of_nat k)) = k + 48) [0 ..< 10]" by code_simp
  then show "k < 10 \<Longrightarrow> 48 \<le> digit (of_nat k) \<and> digit (of_nat k) \<le> 57 \<and> unat (digit (of_nat k)) = k + 48" by (simp add: list_all_iff)
qed

text \<open>A number below \<open>base ^ k\<close> has at most \<open>k\<close> digits, which are its representation.\<close>

lemma int_digits_ok:
  assumes "base = 10 \<or> base = 16" "unat x < unat base ^ k" "0 < k" "i + k \<le> 16"
  shows "\<exists>ds. int_digits i base x = Some ds \<and> ds \<noteq> [] \<and> length ds \<le> k \<and> digits_val (unat base) ds = unat x \<and>
    (base = 10 \<longrightarrow> (\<forall>d \<in> set ds. 48 \<le> d \<and> d \<le> 57))"
  using assms
proof (induction k arbitrary: i x)
  case (Suc k)
  let ?b = "unat base"
  have b: "2 \<le> ?b" "?b \<le> 16" using Suc.prems(1) by auto
  have m: "unat (x mod base) = unat x mod ?b" "unat (x div base) = unat x div ?b" by (simp_all add: unat_mod unat_div)
  have r: "unat x mod ?b < ?b" using b by simp
  have d: "digit (x mod base) = digit (of_nat (unat x mod ?b))" unfolding m(1) [symmetric] by simp
  have dv: "digit_val (digit (x mod base)) = unat x mod ?b" unfolding d by (rule digit_table(1)) (use r b(2) in linarith)
  have dc: "base = 10 \<Longrightarrow> 48 \<le> digit (x mod base) \<and> digit (x mod base) \<le> 57" unfolding d using digit_table(2) [of "unat x mod ?b"] r by auto
  show ?case
  proof (cases "x div base = 0")
    case True
    then have "unat x div ?b = 0" using m(2) by simp
    then have "unat x mod ?b = unat x" using b by (simp add: div_eq_0_iff)
    then show ?thesis using True Suc.prems(4) dv dc by (subst int_digits.simps) (simp add: digits_val_def)
  next
    case False
    then have n: "unat x div ?b \<noteq> 0" by (metis m(2) unat_eq_zero)
    have less: "unat (x div base) < ?b ^ k" using Suc.prems(2) b by (simp add: m(2) less_mult_imp_div_less mult.commute)
    have "0 < k" using less n m(2) by (cases k) auto
    then obtain ds where ds: "int_digits (Suc i) base (x div base) = Some ds" "length ds \<le> k" "digits_val ?b ds = unat (x div base)"
      "base = 10 \<longrightarrow> (\<forall>d \<in> set ds. 48 \<le> d \<and> d \<le> 57)"
      using Suc.IH [OF Suc.prems(1) less, of "Suc i"] Suc.prems(4) by auto
    have "int_digits i base x = Some (digit (x mod base) # ds)" using False ds(1) Suc.prems(4) by (subst int_digits.simps) simp
    moreover have "digits_val ?b (digit (x mod base) # ds) = unat x mod ?b + ?b * (unat x div ?b)"
      using ds(3) dv m(2) by (simp add: digits_val_def)
    ultimately show ?thesis using ds dc by simp
  qed
qed simp

lemma atoi_loop_snoc:
  assumes "\<forall>d \<in> set s. 48 \<le> d \<and> d \<le> 57" "48 \<le> c" "c \<le> 57"
  shows "atoi_loop n (s @ [c]) = atoi_loop n s * 10 + ucast c - 48"
  using assms by (induction s arbitrary: n) auto

lemma atoi_digits:
  assumes "\<forall>d \<in> set ds. 48 \<le> d \<and> d \<le> 57"
  shows "atoi (rev ds) = of_nat (digits_val 10 ds)"
  using assms
proof (induction ds)
  case (Cons d ds)
  have d: "48 \<le> unat d" "unat d \<le> 57" using Cons.prems by (simp_all add: word_le_nat_alt)
  then have "(of_nat (digit_val d) :: u32) = of_nat (unat d) - 48" by (simp add: word_less_nat_alt of_nat_diff)
  then have "ucast d - 48 = (of_nat (digit_val d) :: u32)" by simp
  then show ?case using Cons by (simp add: atoi_def atoi_loop_snoc digits_val_def algebra_simps)
qed (simp add: atoi_def digits_val_def)

lemma printint_unsigned:
  assumes "base = 10 \<and> k = 10 \<or> base = 16 \<and> k = 8"
  shows "\<exists>ds. int_digits 0 base x = Some ds \<and> ds \<noteq> [] \<and> length ds \<le> k \<and> digits_val (unat base) ds = unat x \<and>
    (base = 10 \<longrightarrow> (\<forall>d \<in> set ds. 48 \<le> d \<and> d \<le> 57))"
  by (rule int_digits_ok) (use assms unat32_less [of x] in auto)

text \<open>
  Numbers survive printing and reading.  For every 32-bit number, \<open>printint\<close> stays inside its 16-byte buffer; \<open>%d\<close> prints at most 11
  bytes, a minus sign for a negative number and decimal digits that \<open>atoi\<close> reads back as the absolute value; \<open>%x\<close> prints at most eight
  digits, whose value in base 16 is the number.
\<close>

theorem printint_roundtrip:
  "(\<exists>str. printint x 10 True = Some str \<and> length str \<le> 11 \<and> (if x <s 0 then hd str = 45 \<and> atoi (tl str) = - x else atoi str = x)) \<and>
   (\<exists>str. printint x 16 False = Some str \<and> length str \<le> 8 \<and> digits_val 16 (rev str) = unat x)"
proof
  show "\<exists>str. printint x 10 True = Some str \<and> length str \<le> 11 \<and> (if x <s 0 then hd str = 45 \<and> atoi (tl str) = - x else atoi str = x)"
  proof (cases "x <s 0")
    case True
    obtain ds where "int_digits 0 10 (- x) = Some ds" "length ds \<le> 10" "digits_val 10 ds = unat (- x)" "\<forall>d \<in> set ds. 48 \<le> d \<and> d \<le> 57"
      using printint_unsigned [of 10 10 "- x"] by auto
    then show ?thesis using True atoi_digits [of ds] by (simp add: printint_def)
  next
    case False
    obtain ds where "int_digits 0 10 x = Some ds" "length ds \<le> 10" "digits_val 10 ds = unat x" "\<forall>d \<in> set ds. 48 \<le> d \<and> d \<le> 57"
      using printint_unsigned [of 10 10 x] by auto
    then show ?thesis using False atoi_digits [of ds] by (simp add: printint_def)
  qed
  show "\<exists>str. printint x 16 False = Some str \<and> length str \<le> 8 \<and> digits_val 16 (rev str) = unat x"
    using printint_unsigned [of 16 8 x] by (auto simp: printint_def)
qed

section \<open>Copying\<close>

lemma ustrcpy_ok:
  assumes "m (t + of_nat k) = 0" "\<And>i. i < k \<Longrightarrow> m (t + of_nat i) \<noteq> 0" "\<And>i j. i \<le> k \<Longrightarrow> j \<le> k \<Longrightarrow> s + of_nat i \<noteq> t + of_nat j"
  shows "ustrcpy_loop m s t = Some (copy_up m s t (Suc k))"
  using assms
proof (induction k arbitrary: m s t)
  case 0
  then show ?case by (subst ustrcpy_loop.simps) simp
next
  case (Suc k)
  have "m t \<noteq> 0" using Suc.prems(2) [of 0] by simp
  moreover have "ustrcpy_loop (m(s := m t)) (s + 1) (t + 1) = Some (copy_up (m(s := m t)) (s + 1) (t + 1) (Suc k))"
  proof (rule Suc.IH)
    have ne: "t + 1 + of_nat i \<noteq> s" if "i \<le> k" for i using Suc.prems(3) [of 0 "Suc i"] that by (auto simp: algebra_simps)
    show "(m(s := m t)) (t + 1 + of_nat k) = 0" using ne [of k] Suc.prems(1) by (simp add: algebra_simps)
    show "(m(s := m t)) (t + 1 + of_nat i) \<noteq> 0" if "i < k" for i using ne [of i] Suc.prems(2) [of "Suc i"] that by (simp add: algebra_simps)
    show "s + 1 + of_nat i \<noteq> t + 1 + of_nat j" if "i \<le> k" "j \<le> k" for i j using Suc.prems(3) [of "Suc i" "Suc j"] that by (simp add: algebra_simps)
  qed
  ultimately show ?case by (subst ustrcpy_loop.simps) simp
qed

text \<open>
  \<open>memmove\<close> of the user library on a destination one byte above the source repeats the first byte, where that of the kernel moves
  the bytes.
\<close>

lemma copy_up_outside: "(\<And>i. i < n \<Longrightarrow> d + of_nat i \<noteq> a) \<Longrightarrow> copy_up m d t n a = m a"
proof (induction n arbitrary: m d t)
  case (Suc n)
  have "copy_up (m(d := m t)) (d + 1) (t + 1) n a = (m(d := m t)) a"
    by (rule Suc.IH) (use Suc.prems [of "Suc i" for i] in \<open>simp add: algebra_simps\<close>)
  then show ?case using Suc.prems [of 0] by simp
qed simp

lemma umemmove_overlap:
  assumes "k \<le> n" "n < 2 ^ 32"
  shows "snd (umemmove m (s + 1) s (int n)) (s + of_nat k) = m s"
proof -
  have "copy_up m (s + 1) s n (s + of_nat k) = m s"
    using assms
  proof (induction n arbitrary: k m s)
    case (Suc n)
    show ?case
    proof (cases k)
      case 0
      have "s + 1 + of_nat i \<noteq> s" if "i < Suc n" for i
      proof
        assume "s + 1 + of_nat i = s"
        then have "(of_nat (Suc i) :: u32) = 0" by (simp add: algebra_simps)
        then have "unat (of_nat (Suc i) :: u32) = 0" by (simp only: unat_0)
        then show False using that Suc.prems(2) by (simp only: unat_of_nat) simp
      qed
      then show ?thesis using 0 copy_up_outside [of "Suc n" "s + 1" s m s] by simp
    next
      case (Suc j)
      have "copy_up (m(s + 1 := m s)) (s + 1 + 1) (s + 1) n (s + 1 + of_nat j) = (m(s + 1 := m s)) (s + 1)"
        by (rule Suc.IH) (use Suc Suc.prems in auto)
      then show ?thesis using Suc by (simp add: algebra_simps)
    qed
  qed simp
  then show ?thesis by (simp add: umemmove_def)
qed

end
