(* ===== verification/Sh.thy ===== *)
theory Sh
  imports Sysfile Ulib
begin

text \<open>
  The shell (\<open>sh.c\<close>): its parser, the execution of a command and the main loop.  A pointer into the line is
  represented by the rest of the line from it on, without the terminating zero; \<open>*ps\<close> is the state of the parsing functions.
  Each parsing function takes the depth of calls and iterations it may use; \<open>parsecmd\<close> supplies enough of it for its line.
  \<open>malloc\<close> of the nodes is taken to succeed.
\<close>

section \<open>Commands\<close>

text \<open>\<open>'a\<close> stands for the strings: a pair of pointers while parsing, the bytes afterwards.\<close>

datatype 'a cmd =
    EXEC "'a list"
  | REDIR "'a cmd" 'a u32 nat
  | PIPE "'a cmd" "'a cmd"
  | LIST "'a cmd" "'a cmd"
  | BACK "'a cmd"

type_synonym ptr = "u8 list"
type_synonym ptok = "ptr \<times> ptr"
type_synonym 'a parser = "(ptr, 'a) kern"

definition MAXARGS :: nat where "MAXARGS = 10"

definition O_RDONLY :: u32 where "O_RDONLY = 0"

section \<open>Tokens\<close>

definition whitespace :: "u8 list" where "whitespace = [32, 9, 13, 10, 11]"

definition symbols :: "u8 list" where "symbols = [60, 124, 62, 38, 59, 40, 41]"

abbreviation (input) c_bar :: u8 where "c_bar \<equiv> 124"
abbreviation (input) c_amp :: u8 where "c_amp \<equiv> 38"
abbreviation (input) c_semi :: u8 where "c_semi \<equiv> 59"
abbreviation (input) c_lpar :: u8 where "c_lpar \<equiv> 40"
abbreviation (input) c_rpar :: u8 where "c_rpar \<equiv> 41"
abbreviation (input) c_lt :: u8 where "c_lt \<equiv> 60"
abbreviation (input) c_gt :: u8 where "c_gt \<equiv> 62"
abbreviation (input) c_plus :: u8 where "c_plus \<equiv> 43"
abbreviation (input) c_a :: u8 where "c_a \<equiv> 97"

definition skip_white :: "ptr \<Rightarrow> ptr" where
  "skip_white s = dropWhile (\<lambda>c. c \<in> set whitespace) s"

definition wordc :: "u8 \<Rightarrow> bool" where
  "wordc c \<longleftrightarrow> c \<notin> set whitespace \<and> c \<notin> set symbols"

text \<open>The kind of the token at \<open>s\<close> and the pointer after it.\<close>

definition token_at :: "ptr \<Rightarrow> u8 \<times> ptr" where
  "token_at s = (case s of
     [] \<Rightarrow> (0, s)
   | c # r \<Rightarrow>
       if c \<in> {c_bar, c_lpar, c_rpar, c_semi, c_amp, c_lt} then (c, r)
       else if c = c_gt then (if r \<noteq> [] \<and> hd r = c_gt then (c_plus, tl r) else (c, r))
       else (c_a, dropWhile wordc s))"

definition gettoken :: "(u8 \<times> ptok) parser" where
  "gettoken = (\<lambda>s. let q = skip_white s; (tok, eq) = token_at q in Ok ((tok, (q, eq)), skip_white eq))"

definition peek :: "u8 list \<Rightarrow> bool parser" where
  "peek toks = (\<lambda>s. let s' = skip_white s in Ok (s' \<noteq> [] \<and> hd s' \<in> set toks, s'))"

section \<open>The parser\<close>

definition redir :: "u8 \<Rightarrow> ptok cmd \<Rightarrow> ptok \<Rightarrow> ptok cmd" where
  "redir tok cmd f =
     (if tok = c_lt then REDIR cmd f O_RDONLY 0
      else if tok = c_gt then REDIR cmd f (O_WRONLY OR O_CREATE) 1
      else if tok = c_plus then REDIR cmd f (O_WRONLY OR O_CREATE) 1
      else cmd)"

fun parseredirs :: "nat \<Rightarrow> ptok cmd \<Rightarrow> ptok cmd parser" where
  "parseredirs 0 cmd = divergesk"
| "parseredirs (Suc n) cmd = bindk (peek [c_lt, c_gt]) (\<lambda>b.
     if b then bindk gettoken (\<lambda>(tok, _). bindk gettoken (\<lambda>(k, f).
       if k \<noteq> c_a then panic ''missing file for redirection''
       else parseredirs n (redir tok cmd f)))
     else ret cmd)"

text \<open>The node that \<open>parseexec\<close> allocates is the innermost one below the redirections; arguments are stored there.\<close>

fun add_arg :: "ptok \<Rightarrow> ptok cmd \<Rightarrow> ptok cmd" where
  "add_arg a (EXEC as) = EXEC (as @ [a])"
| "add_arg a (REDIR c f m fd) = REDIR (add_arg a c) f m fd"
| "add_arg a c = c"

text \<open>The loop of \<open>parseexec\<close> over the arguments.\<close>

fun parseargs :: "nat \<Rightarrow> nat \<Rightarrow> ptok cmd \<Rightarrow> ptok cmd parser" where
  "parseargs 0 argc cmd = divergesk"
| "parseargs (Suc n) argc cmd = bindk (peek [c_bar, c_rpar, c_amp, c_semi]) (\<lambda>b.
     if b then ret cmd
     else bindk gettoken (\<lambda>(tok, a).
       if tok = 0 then ret cmd
       else if tok \<noteq> c_a then panic ''syntax''
       else if MAXARGS \<le> Suc argc then panic ''too many args''
       else bindk (parseredirs n (add_arg a cmd)) (parseargs n (Suc argc))))"

text \<open>The loop of \<open>parseline\<close> over ampersands.\<close>

fun parsebacks :: "nat \<Rightarrow> ptok cmd \<Rightarrow> ptok cmd parser" where
  "parsebacks 0 cmd = divergesk"
| "parsebacks (Suc n) cmd = bindk (peek [c_amp]) (\<lambda>b.
     if b then bindk gettoken (\<lambda>_. parsebacks n (BACK cmd)) else ret cmd)"

fun parseline :: "nat \<Rightarrow> ptok cmd parser"
  and parsepipe :: "nat \<Rightarrow> ptok cmd parser"
  and parseexec :: "nat \<Rightarrow> ptok cmd parser"
  and parseblock :: "nat \<Rightarrow> ptok cmd parser" where
  "parseline 0 = divergesk"
| "parseline (Suc n) = bindk (parsepipe n) (\<lambda>c. bindk (parsebacks n c) (\<lambda>cmd.
     bindk (peek [c_semi]) (\<lambda>b.
       if b then bindk gettoken (\<lambda>_. bindk (parseline n) (\<lambda>right. ret (LIST cmd right))) else ret cmd)))"
| "parsepipe 0 = divergesk"
| "parsepipe (Suc n) = bindk (parseexec n) (\<lambda>cmd. bindk (peek [c_bar]) (\<lambda>b.
     if b then bindk gettoken (\<lambda>_. bindk (parsepipe n) (\<lambda>right. ret (PIPE cmd right))) else ret cmd))"
| "parseexec 0 = divergesk"
| "parseexec (Suc n) = bindk (peek [c_lpar]) (\<lambda>b.
     if b then parseblock n else bindk (parseredirs n (EXEC [])) (parseargs n 0))"
| "parseblock 0 = divergesk"
| "parseblock (Suc n) = bindk (peek [c_lpar]) (\<lambda>b.
     if \<not> b then panic ''parseblock''
     else bindk gettoken (\<lambda>_. bindk (parseline n) (\<lambda>cmd. bindk (peek [c_rpar]) (\<lambda>b.
       if \<not> b then panic ''syntax - missing )''
       else bindk gettoken (\<lambda>_. parseredirs n cmd)))))"

section \<open>Terminating the strings\<close>

text \<open>A write of a zero at a pointer, in a line of length \<open>n\<close> followed by its zero.\<close>

definition put_nul :: "nat \<Rightarrow> ptr \<Rightarrow> u8 list \<Rightarrow> u8 list" where
  "put_nul n p buf = buf[n - length p := 0]"

fun nulterminate :: "nat \<Rightarrow> ptok cmd \<Rightarrow> u8 list \<Rightarrow> u8 list" where
  "nulterminate n (EXEC as) buf = fold (\<lambda>(q, eq). put_nul n eq) as buf"
| "nulterminate n (REDIR c f m fd) buf = put_nul n (snd f) (nulterminate n c buf)"
| "nulterminate n (PIPE l r) buf = nulterminate n r (nulterminate n l buf)"
| "nulterminate n (LIST l r) buf = nulterminate n r (nulterminate n l buf)"
| "nulterminate n (BACK c) buf = nulterminate n c buf"

text \<open>The depth that is enough for a line of a given length.\<close>

definition parse_depth :: "nat \<Rightarrow> nat" where
  "parse_depth len = 4 * len + 5"

text \<open>The tree and the line with its zeros.\<close>

definition parsecmd :: "u8 list \<Rightarrow> (ptok cmd \<times> u8 list) outcome" where
  "parsecmd s = (case bindk (parseline (parse_depth (length s))) (\<lambda>cmd. bindk (peek []) (\<lambda>_. ret cmd)) s of
     Ok (cmd, t) \<Rightarrow> if t \<noteq> [] then Panic ''syntax'' else Ok (cmd, nulterminate (length s) cmd (s @ [0]))
   | Panic msg \<Rightarrow> Panic msg | Undefined msg \<Rightarrow> Undefined msg | Sleeps msg \<Rightarrow> Sleeps msg | Diverges \<Rightarrow> Diverges)"

text \<open>The C string at a pointer, and the command with its strings as \<open>runcmd\<close> reads them.\<close>

definition string_at :: "nat \<Rightarrow> u8 list \<Rightarrow> ptr \<Rightarrow> u8 list" where
  "string_at n buf q = takeWhile (\<lambda>c. c \<noteq> 0) (drop (n - length q) buf)"

definition read_cmd :: "nat \<Rightarrow> u8 list \<Rightarrow> ptok cmd \<Rightarrow> u8 list cmd" where
  "read_cmd n buf c = map_cmd (\<lambda>(q, eq). string_at n buf q) c"

section \<open>Running a command\<close>

text \<open>
  A process of the shell has a table of \<open>NOFILE\<close> descriptors.  The files behind them are named by how they were opened; a pipe is named by
  the place of the process that made it in the tree of forks.  What a process does is a list of actions; a fork carries the actions of the child,
  \<open>exec\<close> and \<open>wait\<close> carry the descriptors the process has while the program runs or while it waits, and every list ends with \<open>exit\<close>.
  Whether \<open>open\<close> and \<open>fork\<close> succeed is decided by \<open>opens\<close> and \<open>forks\<close>.
\<close>

datatype chan = Console | Opened "u8 list" u32 | ReadEnd "nat list" | WriteEnd "nat list"

type_synonym fdtable = "chan option list"

datatype action =
    Fork1 "action list"
  | Wait1 fdtable                    \<comment> \<open>sleeps until a child exits, with these descriptors open\<close>
  | Exec1 "u8 list list" fdtable     \<comment> \<open>returns only on failure, with a message\<close>
  | Fail string

definition sh_close :: "nat \<Rightarrow> fdtable \<Rightarrow> fdtable" where
  "sh_close fd t = t[fd := None]"

definition lowest_free :: "fdtable \<Rightarrow> nat option" where
  "lowest_free t = find (\<lambda>fd. t ! fd = None) [0 ..< length t]"

definition sh_alloc :: "chan \<Rightarrow> fdtable \<Rightarrow> (nat \<times> fdtable) option" where
  "sh_alloc ch t = map_option (\<lambda>fd. (fd, t[fd := Some ch])) (lowest_free t)"

text \<open>\<open>dup\<close>, whose result the shell does not check.\<close>

definition sh_dup :: "nat \<Rightarrow> fdtable \<Rightarrow> fdtable" where
  "sh_dup fd t = (case t ! fd of None \<Rightarrow> t | Some ch \<Rightarrow> (case sh_alloc ch t of None \<Rightarrow> t | Some (_, t') \<Rightarrow> t'))"

definition sh_pipe :: "nat list \<Rightarrow> fdtable \<Rightarrow> (nat \<times> nat \<times> fdtable) option" where
  "sh_pipe at t = (case sh_alloc (ReadEnd at) t of
     None \<Rightarrow> None
   | Some (r, t1) \<Rightarrow> (case sh_alloc (WriteEnd at) t1 of None \<Rightarrow> None | Some (w, t2) \<Rightarrow> Some (r, w, t2)))"

definition fork1 :: "(nat list \<Rightarrow> bool) \<Rightarrow> nat list \<Rightarrow> action list \<Rightarrow> action list \<Rightarrow> action list" where
  "fork1 forks at child parent = (if forks at then Fork1 child # parent else [Fail ''fork''])"

fun runcmd :: "(u8 list \<Rightarrow> u32 \<Rightarrow> bool) \<Rightarrow> (nat list \<Rightarrow> bool) \<Rightarrow> nat list \<Rightarrow> u8 list cmd \<Rightarrow> fdtable \<Rightarrow> action list" where
  "runcmd opens forks at (EXEC as) t = (if as = [] then [] else [Exec1 as t])"
| "runcmd opens forks at (REDIR c f m fd) t =
     (let t1 = sh_close fd t in
      if \<not> opens f m then [Fail ''open'']
      else case sh_alloc (Opened f m) t1 of
        None \<Rightarrow> [Fail ''open'']
      | Some (_, t2) \<Rightarrow> runcmd opens forks at c t2)"
| "runcmd opens forks at (LIST l r) t =
     fork1 forks (0 # at) (runcmd opens forks (0 # at) l t) (Wait1 t # runcmd opens forks (1 # at) r t)"
| "runcmd opens forks at (PIPE l r) t =
     (case sh_pipe at t of
        None \<Rightarrow> [Fail ''pipe'']
      | Some (p0, p1, t1) \<Rightarrow>
          fork1 forks (0 # at)
            (runcmd opens forks (0 # at) l (sh_close p1 (sh_close p0 (sh_dup p1 (sh_close 1 t1)))))
            (fork1 forks (1 # at)
              (runcmd opens forks (1 # at) r (sh_close p1 (sh_close p0 (sh_dup p0 (sh_close 0 t1)))))
              (let t2 = sh_close p1 (sh_close p0 t1) in [Wait1 t2, Wait1 t2])))"
| "runcmd opens forks at (BACK c) t = fork1 forks (0 # at) (runcmd opens forks (0 # at) c t) []"

section \<open>The main loop\<close>

datatype job = Chdir "u8 list" | Line "u8 list"

text \<open>\<open>getcmd\<close> on the bytes that standard input still gives: the C string in the buffer, if it is not empty, and the bytes left.\<close>

definition getcmd :: "u8 list \<Rightarrow> (u8 list \<times> u8 list) option" where
  "getcmd inp = (let (line, rest) = gets 100 inp; s = takeWhile (\<lambda>c. c \<noteq> 0) line in
     if s = [] then None else Some (s, rest))"

definition job_of :: "u8 list \<Rightarrow> job" where
  "job_of s = (if take 3 s = [99, 100, 32] then Chdir (drop 3 (butlast s)) else Line s)"

lemma gets_loop_length: "gets_loop n inp = (xs, rest) \<Longrightarrow> length xs + length rest = length inp"
proof (induction n inp arbitrary: xs rest rule: gets_loop.induct)
  case (3 n c inp)
  then show ?case by (cases "gets_loop n inp") (auto split: if_splits)
qed auto

lemma getcmd_shorter:
  assumes "getcmd inp = Some (s, rest)"
  shows "length rest < length inp"
proof -
  obtain xs r where g: "gets_loop 99 inp = (xs, r)" by fastforce
  then have "xs \<noteq> [] \<and> r = rest" using assms by (auto simp: getcmd_def gets_def Let_def split: if_splits)
  then show ?thesis using gets_loop_length [OF g] by (cases xs) auto
qed

function sh_main :: "u8 list \<Rightarrow> job list" where
  "sh_main inp = (case getcmd inp of None \<Rightarrow> [] | Some (s, rest) \<Rightarrow> job_of s # sh_main rest)"
  by auto
termination by (relation "measure length") (auto dest: getcmd_shorter)

declare sh_main.simps [simp del]

end
