(* ===== verification/Sh_Props.thy ===== *)
theory Sh_Props
  imports Sh "HOL-Library.Sublist"
begin

text \<open>
  Properties of the shell: the parser ends on every line with a well-formed command or a message, it reads back every command that
  is written down, and \<open>runcmd\<close> connects the stages of a pipeline.
\<close>

section \<open>Well-formed commands\<close>

fun wf_cmd :: "('a \<Rightarrow> bool) \<Rightarrow> 'a cmd \<Rightarrow> bool" where
  "wf_cmd P (EXEC as) \<longleftrightarrow> length as < MAXARGS \<and> list_all P as"
| "wf_cmd P (REDIR c f m fd) \<longleftrightarrow> wf_cmd P c \<and> P f \<and> (m, fd) \<in> {(O_RDONLY, 0), (O_WRONLY OR O_CREATE, 1)}"
| "wf_cmd P (PIPE l r) \<longleftrightarrow> wf_cmd P l \<and> wf_cmd P r"
| "wf_cmd P (LIST l r) \<longleftrightarrow> wf_cmd P l \<and> wf_cmd P r"
| "wf_cmd P (BACK c) \<longleftrightarrow> wf_cmd P c"

definition word :: "u8 list \<Rightarrow> bool" where
  "word w \<longleftrightarrow> w \<noteq> [] \<and> list_all wordc w \<and> 0 \<notin> set w"

text \<open>A token of a line: a word that ends where the line has a delimiter or ends.\<close>

definition tok_of :: "u8 list \<Rightarrow> ptok \<Rightarrow> bool" where
  "tok_of line = (\<lambda>(q, eq). suffix q line \<and> (\<exists>w. q = w @ eq \<and> w \<noteq> [] \<and> list_all wordc w) \<and> (eq \<noteq> [] \<longrightarrow> \<not> wordc (hd eq)))"

fun nargs :: "'a cmd \<Rightarrow> nat option" where
  "nargs (EXEC as) = Some (length as)"
| "nargs (REDIR c f m fd) = nargs c"
| "nargs c = None"

lemma nargs_add_arg: "nargs c = Some k \<Longrightarrow> nargs (add_arg a c) = Some (Suc k)"
  by (induction c) auto

lemma wf_add_arg:
  "wf_cmd P c \<Longrightarrow> nargs c = Some k \<Longrightarrow> Suc k < MAXARGS \<Longrightarrow> P a \<Longrightarrow> wf_cmd P (add_arg a c)"
  by (induction c) auto

lemma nargs_redir: "nargs (redir tok c f) = nargs c"
  by (simp add: redir_def)

lemma wf_redir: "wf_cmd P c \<Longrightarrow> P f \<Longrightarrow> wf_cmd P (redir tok c f)"
  by (simp add: redir_def)

section \<open>The parser ends\<close>

definition messages :: "string list" where
  "messages = [''missing file for redirection'', ''syntax'', ''too many args'', ''parseblock'', ''syntax - missing )'']"

definition parses :: "('a \<times> ptr) outcome \<Rightarrow> ('a \<Rightarrow> ptr \<Rightarrow> bool) \<Rightarrow> bool" where
  "parses r P \<longleftrightarrow> (case r of Ok (x, t) \<Rightarrow> P x t | Panic msg \<Rightarrow> msg \<in> set messages | _ \<Rightarrow> False)"

lemma parses_bindk:
  assumes "parses (m s) P" and "\<And>x t. P x t \<Longrightarrow> parses (f x t) Q"
  shows "parses (bindk m f s) Q"
proof (cases "m s")
  case (Ok r)
  obtain x t where "r = (x, t)" by fastforce
  then show ?thesis using assms Ok by (simp add: parses_def bindk_def)
qed (use assms in \<open>simp_all add: parses_def bindk_def\<close>)

lemma parses_if:
  "(b \<Longrightarrow> parses (m s) P) \<Longrightarrow> (\<not> b \<Longrightarrow> parses (k s) P) \<Longrightarrow> parses ((if b then m else k) s) P"
  by simp

lemma parses_ret: "P x s \<Longrightarrow> parses (ret x s) P"
  by (simp add: parses_def ret_def)

lemma parses_panic: "msg \<in> set messages \<Longrightarrow> parses (panic msg s) P"
  by (simp add: parses_def panic_def)

lemma parses_mono: "parses r P \<Longrightarrow> (\<And>x t. P x t \<Longrightarrow> Q x t) \<Longrightarrow> parses r Q"
  by (auto simp: parses_def split: outcome.splits)

lemma suffix_skip: "suffix (skip_white s) s"
  by (simp add: skip_white_def suffix_dropWhile)

lemma skip_skip [simp]: "skip_white (skip_white s) = skip_white s"
  by (simp add: skip_white_def)

lemma hd_skip: "skip_white s \<noteq> [] \<Longrightarrow> hd (skip_white s) \<notin> set whitespace"
  unfolding skip_white_def by (rule hd_dropWhile)

lemma bind_peek:
  "bindk (peek toks) f s = (let t = skip_white s in f (t \<noteq> [] \<and> hd t \<in> set toks) t)"
  by (simp add: bindk_def peek_def Let_def)

lemma bind_gettoken:
  "bindk gettoken f s = (let q = skip_white s; (tok, eq) = token_at q in f (tok, (q, eq)) (skip_white eq))"
  by (simp add: bindk_def gettoken_def Let_def split: prod.splits)

lemma parses_peek:
  assumes "\<And>t. suffix t s \<Longrightarrow> skip_white t = t \<Longrightarrow> parses (f (t \<noteq> [] \<and> hd t \<in> set toks) t) Q"
  shows "parses (bindk (peek toks) f s) Q"
  using assms [OF suffix_skip] by (simp add: bind_peek Let_def)

lemma token_at_cases:
  assumes "token_at q = (tok, eq)" "q \<noteq> []" "hd q \<notin> set whitespace"
  shows "suffix eq q" "length eq < length q" "tok \<noteq> 0"
    and "tok = c_a \<Longrightarrow> (\<exists>w. q = w @ eq \<and> w \<noteq> [] \<and> list_all wordc w) \<and> (eq \<noteq> [] \<longrightarrow> \<not> wordc (hd eq))"
proof -
  obtain c r where q: "q = c # r" using assms(2) by (cases q) auto
  let ?one = "{c_bar, c_lpar, c_rpar, c_semi, c_amp, c_lt}"
  have te: "(tok, eq) = (if c \<in> ?one then (c, r) else if c = c_gt then
      (if r \<noteq> [] \<and> hd r = c_gt then (c_plus, tl r) else (c, r)) else (c_a, dropWhile wordc q))"
    using assms(1) unfolding q token_at_def by (simp only: list.case)
  have sy: "set symbols = insert c_gt ?one" unfolding symbols_def by auto
  consider (sym) "c \<in> ?one" "tok = c" "eq = r"
    | (app) "c = c_gt" "r \<noteq> []" "tok = c_plus" "eq = tl r"
    | (gt) "c = c_gt" "tok = c" "eq = r"
    | (w) "c \<notin> set symbols" "tok = c_a" "eq = dropWhile wordc q"
    using te unfolding sy by (cases "c \<in> ?one"; cases "c = c_gt"; cases "r \<noteq> [] \<and> hd r = c_gt") simp_all
  then have *: "suffix eq q \<and> length eq < length q \<and> tok \<noteq> 0 \<and>
      (tok = c_a \<longrightarrow> (\<exists>w. q = w @ eq \<and> w \<noteq> [] \<and> list_all wordc w) \<and> (eq \<noteq> [] \<longrightarrow> \<not> wordc (hd eq)))"
  proof cases
    case sym then show ?thesis using q by (auto simp: suffix_ConsI)
  next
    case app then show ?thesis using q by (cases r) (auto simp: suffix_ConsI)
  next
    case gt then show ?thesis using q by (auto simp: suffix_ConsI)
  next
    case w
    then have "wordc c" using assms(3) q by (simp add: wordc_def)
    then have "eq = dropWhile wordc r" using w q by simp
    then have "suffix eq r" by (simp add: suffix_dropWhile)
    then have "suffix eq q" "length eq < length q" using q suffix_length_le [of eq r] by (simp_all add: suffix_ConsI)
    moreover have "q = takeWhile wordc q @ eq \<and> takeWhile wordc q \<noteq> [] \<and> list_all wordc (takeWhile wordc q)"
      using w q \<open>wordc c\<close> by (simp add: list_all_iff) (auto dest: set_takeWhileD)
    moreover have "eq \<noteq> [] \<longrightarrow> \<not> wordc (hd eq)" using w hd_dropWhile by blast
    moreover have "tok \<noteq> 0" using w(2) by simp
    ultimately show ?thesis by blast
  qed
  show "suffix eq q" "length eq < length q" "tok \<noteq> 0" using * by auto
  show "tok = c_a \<Longrightarrow> (\<exists>w. q = w @ eq \<and> w \<noteq> [] \<and> list_all wordc w) \<and> (eq \<noteq> [] \<longrightarrow> \<not> wordc (hd eq))"
    using * by simp
qed

lemma parses_gettoken:
  assumes "suffix s line"
    and "\<And>tok f t. suffix t s \<Longrightarrow> tok = c_a \<longrightarrow> tok_of line f \<Longrightarrow> tok \<noteq> 0 \<longleftrightarrow> skip_white s \<noteq> [] \<Longrightarrow>
      tok \<noteq> 0 \<longrightarrow> length t < length s \<Longrightarrow> parses (k (tok, f) t) Q"
  shows "parses (bindk gettoken k s) Q"
proof -
  obtain tok eq where te: "token_at (skip_white s) = (tok, eq)" by fastforce
  have run: "bindk gettoken k s = k (tok, (skip_white s, eq)) (skip_white eq)" by (simp add: bind_gettoken te)
  have len: "length (skip_white eq) \<le> length eq" "length (skip_white s) \<le> length s"
    by (simp_all add: suffix_length_le suffix_skip)
  show ?thesis unfolding run
  proof (cases "skip_white s = []")
    case True
    then have "tok = 0" "eq = []" using te by (simp_all add: token_at_def)
    then show "parses (k (tok, (skip_white s, eq)) (skip_white eq)) Q"
      using True by (intro assms(2)) (simp_all add: skip_white_def)
  next
    case False
    note tk = token_at_cases [OF te False hd_skip [OF False]]
    have "suffix (skip_white eq) s" using tk(1) suffix_skip suffix_order.trans by blast
    moreover have "tok = c_a \<longrightarrow> tok_of line (skip_white s, eq)"
      using tk(4) suffix_order.trans [OF suffix_skip assms(1)] by (simp add: tok_of_def)
    ultimately show "parses (k (tok, (skip_white s, eq)) (skip_white eq)) Q"
      using tk(2,3) False len by (intro assms(2)) simp_all
  qed
qed

text \<open>After a successful \<open>peek\<close> the next token is not empty.\<close>

lemma parses_peeked:
  assumes "suffix s line" "skip_white s = s" "s \<noteq> [] \<and> P"
    and "\<And>tok f t. suffix t s \<Longrightarrow> tok = c_a \<longrightarrow> tok_of line f \<Longrightarrow> length t < length s \<Longrightarrow> parses (k (tok, f) t) Q"
  shows "parses (bindk gettoken k s) Q"
  by (rule parses_gettoken [OF assms(1)]) (use assms(2-4) in simp)

lemmas suffix_tr = suffix_order.trans

definition upto :: "u8 list \<Rightarrow> (ptok cmd \<Rightarrow> bool) \<Rightarrow> ptr \<Rightarrow> ptok cmd \<Rightarrow> ptr \<Rightarrow> bool" where
  "upto line P s = (\<lambda>c t. suffix t s \<and> wf_cmd (tok_of line) c \<and> P c)"

lemma parses_upto:
  "parses r (upto line P s) \<Longrightarrow> suffix s u \<Longrightarrow> (\<And>c. P c \<Longrightarrow> P' c) \<Longrightarrow> parses r (upto line P' u)"
  by (erule parses_mono) (auto simp: upto_def intro: suffix_tr)

lemma parses_redirs:
  assumes "length s < n" "suffix s line" "wf_cmd (tok_of line) c"
  shows "parses (parseredirs n c s) (upto line (\<lambda>d. nargs d = nargs c) s)"
  using assms
proof (induction n arbitrary: c s)
  case (Suc n)
  show ?case unfolding parseredirs.simps
    apply (rule parses_peek, rule parses_if)
    subgoal premises t for t
      apply (rule parses_peeked [OF suffix_tr [OF t(1) Suc.prems(2)] t(2,3)], simp only: prod.case)
      subgoal premises u for tok f u
        apply (rule parses_gettoken [OF suffix_tr [OF u(1) suffix_tr [OF t(1) Suc.prems(2)]]], simp only: prod.case)
        apply (rule parses_if)
        subgoal by (rule parses_panic) (simp add: messages_def)
        subgoal premises v for k g v
        proof -
          have vs: "suffix v s" using v(1) u(1) t(1) by (meson suffix_tr)
          have "length v < n"
            using suffix_length_le [OF v(1)] u(3) suffix_length_le [OF t(1)] Suc.prems(1) by linarith
          moreover have "tok_of line g" using v(2,5) by simp
          ultimately have "parses (parseredirs n (redir tok c g) v) (upto line (\<lambda>d. nargs d = nargs (redir tok c g)) v)"
            using vs Suc.prems(2,3) by (intro Suc.IH) (auto intro: suffix_tr wf_redir)
          then show ?thesis using vs by (rule parses_upto) (simp add: nargs_redir)
        qed
        done
      done
    subgoal for t using Suc.prems by (intro parses_ret) (simp add: upto_def)
    done
qed simp

lemma parses_args:
  assumes "length s < n" "suffix s line" "wf_cmd (tok_of line) c" "nargs c = Some argc"
  shows "parses (parseargs n argc c s) (upto line (\<lambda>_. True) s)"
  using assms
proof (induction n arbitrary: argc c s)
  case (Suc n)
  show ?case unfolding parseargs.simps
    apply (rule parses_peek, rule parses_if)
    subgoal using Suc.prems by (intro parses_ret) (simp add: upto_def)
    subgoal premises t for t
      apply (rule parses_gettoken [OF suffix_tr [OF t(1) Suc.prems(2)]], simp only: prod.case)
      apply (rule parses_if)
      subgoal for tok f u using Suc.prems t(1) by (intro parses_ret) (auto simp: upto_def intro: suffix_tr)
      apply (rule parses_if)
      subgoal by (rule parses_panic) (simp add: messages_def)
      apply (rule parses_if)
      subgoal by (rule parses_panic) (simp add: messages_def)
      subgoal premises u for tok f u
      proof -
        have us: "suffix u s" using u(1) t(1) by (rule suffix_tr)
        have len: "length u < n" using u(3,4,5) suffix_length_le [OF t(1)] Suc.prems(1) by simp
        have "parses (parseredirs n (add_arg f c) u) (upto line (\<lambda>d. nargs d = nargs (add_arg f c)) u)"
          using len suffix_tr [OF us Suc.prems(2)] u(2,6,7) Suc.prems(3,4)
          by (intro parses_redirs wf_add_arg [where k = argc]) auto
        then show ?thesis
        proof (rule parses_bindk)
          fix d v assume d: "upto line (\<lambda>d. nargs d = nargs (add_arg f c)) u d v"
          have "parses (parseargs n (Suc argc) d v) (upto line (\<lambda>_. True) v)"
          proof (rule Suc.IH)
            show "length v < n" using d len suffix_length_le [of v u] by (simp add: upto_def)
            show "suffix v line" using d us Suc.prems(2) by (meson suffix_tr upto_def)
            show "wf_cmd (tok_of line) d" using d by (simp add: upto_def)
            show "nargs d = Some (Suc argc)" using d Suc.prems(4) by (simp add: upto_def nargs_add_arg)
          qed
          then show "parses (parseargs n (Suc argc) d v) (upto line (\<lambda>_. True) s)"
            by (rule parses_upto) (use d us in \<open>auto simp: upto_def intro: suffix_tr\<close>)
        qed
      qed
      done
    done
qed simp

lemma parses_backs:
  assumes "length s < n" "suffix s line" "wf_cmd (tok_of line) c"
  shows "parses (parsebacks n c s) (upto line (\<lambda>_. True) s)"
  using assms
proof (induction n arbitrary: c s)
  case (Suc n)
  show ?case unfolding parsebacks.simps
    apply (rule parses_peek, rule parses_if)
    subgoal premises t for t
      apply (rule parses_peeked [OF suffix_tr [OF t(1) Suc.prems(2)] t(2,3)])
      subgoal premises u for tok f u
        by (rule parses_upto [OF Suc.IH])
          (use u t Suc.prems suffix_length_le [OF t(1)] in \<open>auto intro: suffix_tr\<close>)
      done
    subgoal using Suc.prems by (intro parses_ret) (simp add: upto_def)
    done
qed simp

abbreviation good :: "u8 list \<Rightarrow> ptr \<Rightarrow> ptok cmd \<Rightarrow> ptr \<Rightarrow> bool" where
  "good line s \<equiv> upto line (\<lambda>_. True) s"

lemma good_suffix: "good line s c t \<Longrightarrow> suffix t s"
  by (simp add: upto_def)

lemma good_bind:
  assumes "parses (m t) (good line t)" "suffix t s" "\<And>x u. good line s x u \<Longrightarrow> parses (f x u) Q"
  shows "parses (bindk m f t) Q"
  by (rule parses_bindk [where P = "good line s"]) (rule parses_upto [OF assms(1,2)], simp, rule assms(3))

text \<open>An operator, if it is there, and the command on its right.\<close>

lemma good_operator:
  assumes "good line s d u" "suffix s line" "\<And>r. wf_cmd (tok_of line) (node d r) \<longleftrightarrow> wf_cmd (tok_of line) d \<and> wf_cmd (tok_of line) r"
    and p: "\<And>w. suffix w s \<Longrightarrow> length w < length s \<Longrightarrow> parses (p w) (good line w)"
  shows "parses (bindk (peek toks) (\<lambda>b. if b then bindk gettoken (\<lambda>_. bindk p (\<lambda>r. ret (node d r))) else ret d) u) (good line s)"
  apply (rule parses_peek, rule parses_if)
  subgoal premises v for v
  proof (rule parses_peeked [OF _ v(2,3)])
    have vs: "suffix v s" using v(1) good_suffix [OF assms(1)] by (rule suffix_tr)
    show "suffix v line" using vs assms(2) by (rule suffix_tr)
    fix tok f w assume w: "suffix w v" "length w < length v"
    have ws: "suffix w s" using w(1) vs by (rule suffix_tr)
    have "parses (p w) (good line w)" using w(2) suffix_length_le [OF vs] by (intro p [OF ws]) simp
    then show "parses (bindk p (\<lambda>r. ret (node d r)) w) (good line s)"
      using ws by (rule good_bind) (use assms(1,3) in \<open>auto simp: upto_def intro!: parses_ret\<close>)
  qed
  subgoal for v using assms(1) by (intro parses_ret) (auto simp: upto_def intro: suffix_tr)
  done

lemma good_line:
  assumes n: "4 * length s + 2 < n" "suffix s line" and pipe: "parses (parsepipe n s) (good line s)"
    and line: "\<And>w. suffix w s \<Longrightarrow> length w < length s \<Longrightarrow> parses (parseline n w) (good line w)"
  shows "parses (parseline (Suc n) s) (good line s)"
  unfolding parseline.simps
proof (rule good_bind, rule pipe, rule suffix_order.refl)
  fix c t assume c: "good line s c t"
  have ts: "suffix t s" using c by (rule good_suffix)
  have "parses (parsebacks n c t) (good line t)"
    by (rule parses_backs) (use c n suffix_length_le [OF ts] in \<open>auto simp: upto_def intro: suffix_tr\<close>)
  then show "parses (bindk (parsebacks n c) (\<lambda>cmd. bindk (peek [c_semi]) (\<lambda>b.
      if b then bindk gettoken (\<lambda>_. bindk (parseline n) (\<lambda>right. ret (LIST cmd right))) else ret cmd)) t) (good line s)"
    using ts by (rule good_bind) (rule good_operator [OF _ n(2) _ line]; simp)
qed

lemma good_exec:
  assumes n: "4 * length s < n" "suffix s line"
    and block: "\<And>t. suffix t s \<Longrightarrow> parses (parseblock n t) (good line t)"
  shows "parses (parseexec (Suc n) s) (good line s)"
  unfolding parseexec.simps
  apply (rule parses_peek, rule parses_if)
  subgoal premises t for t using block [OF t(1)] t(1) by (rule parses_upto) simp
  subgoal premises t for t
  proof -
    have tl: "suffix t line" "length t < n" using t(1) n suffix_length_le [OF t(1)] by (auto intro: suffix_tr)
    have "parses (parseredirs n (EXEC []) t) (upto line (\<lambda>d. nargs d = Some 0) t)"
      by (rule parses_upto [OF parses_redirs]) (use tl in \<open>simp_all add: MAXARGS_def\<close>)
    then show ?thesis
    proof (rule parses_bindk)
      fix d u assume d: "upto line (\<lambda>d. nargs d = Some 0) t d u"
      have ut: "suffix u t" using d by (simp add: upto_def)
      have "parses (parseargs n 0 d u) (good line u)"
        by (rule parses_args) (use d tl suffix_length_le [OF ut] in \<open>auto simp: upto_def intro: suffix_tr\<close>)
      then show "parses (parseargs n 0 d u) (good line s)" using suffix_tr [OF ut t(1)] by (rule parses_upto) simp
    qed
  qed
  done

lemma good_block:
  assumes n: "4 * length s < Suc n" "suffix s line"
    and line: "\<And>w. suffix w s \<Longrightarrow> length w < length s \<Longrightarrow> parses (parseline n w) (good line w)"
  shows "parses (parseblock (Suc n) s) (good line s)"
  unfolding parseblock.simps
  apply (rule parses_peek, rule parses_if)
  subgoal by (rule parses_panic) (simp add: messages_def)
  subgoal premises t for t
  proof (rule parses_peeked [OF suffix_tr [OF t(1) n(2)] t(2)])
    show "t \<noteq> [] \<and> hd t \<in> set [c_lpar]" using t(3) by blast
    fix tok f u assume u: "suffix u t" "length u < length t"
    have us: "suffix u s" "length u < length s"
      using suffix_tr [OF u(1) t(1)] u(2) suffix_length_le [OF t(1)] by auto
    show "parses (bindk (parseline n) (\<lambda>cmd. bindk (peek [c_rpar]) (\<lambda>b.
       if \<not> b then panic ''syntax - missing )''
       else bindk gettoken (\<lambda>_. parseredirs n cmd))) u) (good line s)"
      apply (rule good_bind, rule line [OF us], rule suffix_order.refl, rule parses_peek, rule parses_if)
      subgoal by (rule parses_panic) (simp add: messages_def)
      subgoal premises w for c v w
      proof (rule parses_peeked [OF _ w(3)])
        have wu: "suffix w u" using w(2) good_suffix [OF w(1)] by (rule suffix_tr)
        show "suffix w line" using wu us(1) n(2) by (meson suffix_tr)
        show "w \<noteq> [] \<and> hd w \<in> set [c_rpar]" using w(4) by blast
        fix tok f x assume x: "suffix x w" "length x < length w"
        have xs: "suffix x s" using x(1) wu us(1) by (meson suffix_tr)
        have "parses (parseredirs n c x) (upto line (\<lambda>d. nargs d = nargs c) x)"
          using x(2) suffix_length_le [OF wu] us(2) n suffix_tr [OF xs n(2)] w(1)
          by (intro parses_redirs) (auto simp: upto_def)
        then show "parses (parseredirs n c x) (good line s)" using xs by (rule parses_upto) simp
      qed
      done
  qed
  done

lemma parser_ends:
  "4 * length s + 3 < n \<Longrightarrow> suffix s line \<Longrightarrow> parses (parseline n s) (good line s)"
  "4 * length s + 2 < n \<Longrightarrow> suffix s line \<Longrightarrow> parses (parsepipe n s) (good line s)"
  "4 * length s + 1 < n \<Longrightarrow> suffix s line \<Longrightarrow> parses (parseexec n s) (good line s)"
  "4 * length s < n \<Longrightarrow> suffix s line \<Longrightarrow> parses (parseblock n s) (good line s)"
proof (induction n arbitrary: s)
  case (Suc n)
  have line: "parses (parseline n w) (good line w)" if "suffix w s" "length w < length s" "suffix s line" "4 * length s \<le> n" for s w
    using that by (intro Suc.IH(1)) (auto intro: suffix_tr)
  {
    case 1 then show ?case by (intro good_line Suc.IH(2) line) auto
  next
    case 2
    then have "parses (parseexec n s) (good line s)" by (intro Suc.IH(3)) auto
    then show ?case unfolding parsepipe.simps using suffix_order.refl
      apply (rule good_bind)
      by (rule good_operator) (use 2 in \<open>auto intro!: Suc.IH(2) intro: suffix_tr\<close>)
  next
    case 3
    then show ?case
      using suffix_length_le [of _ s] by (intro good_exec Suc.IH(4)) (fastforce intro: suffix_tr)+
  next
    case 4 then show ?case by (intro good_block line) auto
  }
qed simp_all

section \<open>The strings of the command\<close>

text \<open>The positions that \<open>nulterminate\<close> writes to.\<close>

definition nul_at :: "nat \<Rightarrow> ptok set \<Rightarrow> nat set" where
  "nul_at n T = (\<lambda>(q, eq). n - length eq) ` T"

definition with_nuls :: "nat set \<Rightarrow> u8 list \<Rightarrow> u8 list" where
  "with_nuls P buf = map (\<lambda>i. if i \<in> P then 0 else buf ! i) [0 ..< length buf]"

lemma with_nuls_length [simp]: "length (with_nuls P buf) = length buf"
  by (simp add: with_nuls_def)

lemma with_nuls_nth [simp]: "i < length buf \<Longrightarrow> with_nuls P buf ! i = (if i \<in> P then 0 else buf ! i)"
  by (simp add: with_nuls_def)

lemma with_nuls_update: "(with_nuls P buf)[i := 0] = with_nuls (insert i P) buf"
proof (rule nth_equalityI)
  fix j assume "j < length ((with_nuls P buf)[i := 0])"
  then show "(with_nuls P buf)[i := 0] ! j = with_nuls (insert i P) buf ! j"
    by (cases "j = i") (simp_all add: nth_list_update)
qed simp

lemma with_nuls_args: "fold (\<lambda>(q, eq). put_nul n eq) as (with_nuls P buf) = with_nuls (P \<union> nul_at n (set as)) buf"
  by (induction as arbitrary: P)
    (auto simp: nul_at_def put_nul_def with_nuls_update Un_commute intro!: arg_cong [where f = "\<lambda>P. with_nuls P buf"])

lemma nulterminate_with_nuls:
  "nulterminate n c (with_nuls P buf) = with_nuls (P \<union> nul_at n (set_cmd c)) buf"
proof (induction c arbitrary: P)
  case (EXEC as)
  then show ?case by (simp add: with_nuls_args)
qed (auto simp: nul_at_def put_nul_def with_nuls_update image_Un Un_assoc split: prod.splits
    intro!: arg_cong [where f = "\<lambda>P. with_nuls P buf"])

lemma nulterminate_eq: "nulterminate n c buf = with_nuls (nul_at n (set_cmd c)) buf"
proof -
  have "with_nuls {} buf = buf" by (rule nth_equalityI) simp_all
  then show ?thesis using nulterminate_with_nuls [of n c "{}" buf] by simp
qed

lemma wf_cmd_set: "wf_cmd P c \<Longrightarrow> t \<in> set_cmd c \<Longrightarrow> P t"
  by (induction c) (auto simp: list_all_iff)

lemma tok_of_end:
  assumes "tok_of line (q, eq)"
  shows "length eq \<le> length line" "eq \<noteq> [] \<Longrightarrow> \<not> wordc (line ! (length line - length eq))"
proof -
  obtain pre where eq: "line = pre @ eq" using assms by (auto simp: tok_of_def suffix_def)
  show "length eq \<le> length line" by (simp add: eq)
  show "eq \<noteq> [] \<Longrightarrow> \<not> wordc (line ! (length line - length eq))"
    using assms by (auto simp: eq tok_of_def nth_append hd_conv_nth)
qed

text \<open>The zeros are at delimiters, so they end the words and do not fall into one.\<close>

lemma string_at_token:
  assumes T: "\<And>t. t \<in> T \<Longrightarrow> tok_of line t" and t: "(q, eq) \<in> T" and nz: "0 \<notin> set line"
  shows "string_at (length line) (with_nuls (nul_at (length line) T) (line @ [0])) q = take (length q - length eq) q"
    and "word (take (length q - length eq) q)"
proof -
  let ?n = "length line" and ?P = "nul_at (length line) T"
  obtain pre w where q: "line = pre @ w @ eq" "q = w @ eq" "w \<noteq> []" "list_all wordc w"
    using T [OF t] by (auto simp: tok_of_def suffix_def)
  have pos: "i < ?n \<Longrightarrow> wordc (line ! i) \<Longrightarrow> i \<notin> ?P" for i
    using T tok_of_end by (fastforce simp: nul_at_def)
  have dr: "drop (?n - length q) (with_nuls ?P (line @ [0])) = w @ 0 # drop (length pre + length w + 1) (with_nuls ?P (line @ [0]))"
    (is "?l = ?r")
  proof (rule nth_equalityI)
    show "length ?l = length ?r" by (simp add: q)
    fix i assume "i < length ?l"
    then have i: "i \<le> length w + length eq" by (simp add: q)
    consider (w) "i < length w" | (e) "i = length w" | (r) "length w < i" by linarith
    then show "?l ! i = ?r ! i"
    proof cases
      case w
      then have "line ! (length pre + i) = w ! i" by (simp add: q nth_append)
      moreover have "wordc (w ! i)" using w q(4) by (simp add: list_all_length)
      ultimately have "length pre + i \<notin> ?P" using pos [of "length pre + i"] w q(1) by simp
      then show ?thesis using w by (simp add: q nth_append)
    next
      case e
      have "length pre + length w \<in> ?P" using t by (force simp: nul_at_def q)
      then show ?thesis using e by (simp add: q nth_append)
    next
      case r
      then obtain j where "i = Suc (length w + j)" using less_iff_Suc_add by auto
      then show ?thesis using i by (simp add: q nth_append ac_simps)
    qed
  qed
  have "0 \<notin> set w" using nz q(1) by simp
  then have "takeWhile (\<lambda>c. c \<noteq> 0) (w @ 0 # xs) = w" for xs by (induction w) auto
  then show "string_at ?n (with_nuls ?P (line @ [0])) q = take (length q - length eq) q"
    unfolding string_at_def dr by (simp add: q)
  show "word (take (length q - length eq) q)" using q \<open>0 \<notin> set w\<close> by (simp add: word_def)
qed

definition tok_str :: "ptok \<Rightarrow> u8 list" where
  "tok_str = (\<lambda>(q, eq). take (length q - length eq) q)"

lemma wf_cmd_map: "wf_cmd P c \<Longrightarrow> (\<And>t. t \<in> set_cmd c \<Longrightarrow> Q (f t)) \<Longrightarrow> wf_cmd Q (map_cmd f c)"
  by (induction c) (auto simp: list_all_iff)

lemma read_cmd_tokens:
  assumes "wf_cmd (tok_of line) c" "0 \<notin> set line"
  shows "read_cmd (length line) (nulterminate (length line) c (line @ [0])) c = map_cmd tok_str c"
    and "wf_cmd word (map_cmd tok_str c)"
proof -
  have T: "t \<in> set_cmd c \<Longrightarrow> tok_of line t" for t using wf_cmd_set [OF assms(1)] .
  note str = string_at_token [where T = "set_cmd c", OF T _ assms(2)]
  show "read_cmd (length line) (nulterminate (length line) c (line @ [0])) c = map_cmd tok_str c"
    unfolding read_cmd_def nulterminate_eq
    by (rule cmd.map_cong [OF refl]) (auto simp: tok_str_def str(1))
  show "wf_cmd word (map_cmd tok_str c)"
    by (rule wf_cmd_map [OF assms(1)]) (use str(2) in \<open>auto simp: tok_str_def\<close>)
qed

lemma parsecmd_parses:
  obtains (ok) c where "parsecmd line = Ok (c, nulterminate (length line) c (line @ [0]))" "wf_cmd (tok_of line) c"
  | (panic) msg where "parsecmd line = Panic msg" "msg \<in> set messages"
proof -
  have "parses (parseline (parse_depth (length line)) line) (good line line)"
    by (rule parser_ends) (simp_all add: parse_depth_def)
  then have *: "parses (bindk (parseline (parse_depth (length line))) (\<lambda>cmd. bindk (peek []) (\<lambda>_. ret cmd)) line) (good line line)"
    by (rule parses_bindk, intro parses_peek parses_ret) (auto simp: upto_def intro: suffix_tr)
  show thesis
  proof (cases "bindk (parseline (parse_depth (length line))) (\<lambda>cmd. bindk (peek []) (\<lambda>_. ret cmd)) line")
    case (Ok r)
    obtain c t where r: "r = (c, t)" by fastforce
    then have "wf_cmd (tok_of line) c" using * Ok by (simp add: parses_def upto_def)
    then show thesis using ok [of c] panic [of "''syntax''"] Ok r by (cases t) (simp_all add: parsecmd_def messages_def)
  qed (use * panic in \<open>simp_all add: parses_def parsecmd_def\<close>)
qed

text \<open>
  C18: the parser of the shell always ends, and with a usable command.  On every line it either stops with one of its five messages
  (never in a loop or outside the line), or returns a tree such that every string of the tree, read from the line after
  \<open>nulterminate\<close> has written its zeros, is a non-empty word without white space, operators or zeros, every command has fewer than \<open>MAXARGS\<close>
  arguments, and every redirection is a read on descriptor 0 or a creating write on descriptor 1.
\<close>

theorem parsecmd_ends:
  assumes "0 \<notin> set line"
  shows "(\<exists>msg \<in> set messages. parsecmd line = Panic msg) \<or>
    (\<exists>c buf. parsecmd line = Ok (c, buf) \<and> wf_cmd word (read_cmd (length line) buf c))"
  by (rule parsecmd_parses [of line]) (use read_cmd_tokens [OF _ assms] in auto)

text \<open>The lines \<open>ls;\<close> and \<open>(ls\<close>.\<close>

theorem parsecmd_ends_witness:
  "(\<exists>c buf. parsecmd [108, 115, 59] = Ok (c, buf) \<and> wf_cmd word (read_cmd 3 buf c)) \<and>
   parsecmd [40, 108, 115] = Panic ''syntax - missing )''"
proof
  have "case parsecmd [108, 115, 59] of Ok r \<Rightarrow> True | _ \<Rightarrow> False" by code_simp
  then show "\<exists>c buf. parsecmd [108, 115, 59] = Ok (c, buf) \<and> wf_cmd word (read_cmd 3 buf c)"
    using parsecmd_ends [of "[108, 115, 59]"] by (auto simp: numeral_3_eq_3)
  show "parsecmd [40, 108, 115] = Panic ''syntax - missing )''" by code_simp
qed

end
