(* ===== verification/Sh_Round.thy ===== *)
theory Sh_Round
  imports Sh_Props
begin

text \<open>
  A command written down as a line of the shell's language is read back by the parser.  The printer has four levels, one for each
  parsing function, and puts a block around a command that the level cannot hold.
\<close>

section \<open>Writing commands\<close>

definition show_redir :: "u8 list \<times> u32 \<times> nat \<Rightarrow> u8 list" where
  "show_redir = (\<lambda>(f, m, fd). (if m = O_RDONLY then c_lt else c_gt) # f)"

definition block :: "bool \<Rightarrow> u8 list \<Rightarrow> u8 list" where
  "block b s = (if b then c_lpar # s @ [c_rpar] else s)"

fun show_cmd :: "u8 list cmd \<Rightarrow> nat \<Rightarrow> u8 list" where
  "show_cmd (EXEC as) k = concat (map (\<lambda>a. a @ [32]) as)"
| "show_cmd (REDIR c f m fd) k = show_cmd c 3 @ show_redir (f, m, fd)"
| "show_cmd (PIPE l r) k = block (2 < k) (show_cmd l 3 @ c_bar # show_cmd r 2)"
| "show_cmd (BACK c) k = block (1 < k) (show_cmd c 1 @ [c_amp])"
| "show_cmd (LIST l r) k = block (0 < k) (show_cmd l 1 @ c_semi # show_cmd r 0)"

section \<open>Single steps of the parser\<close>

definition follow :: "u8 list \<Rightarrow> u8 list \<Rightarrow> bool" where
  "follow cs s \<longleftrightarrow> s = [] \<or> hd s \<in> set cs"

lemma symbols_facts:
  "c \<in> set symbols \<Longrightarrow> c \<notin> set whitespace"
  "c \<in> set symbols \<Longrightarrow> \<not> wordc c"
  "wordc c \<Longrightarrow> c \<notin> set whitespace"
  by (auto simp: symbols_def whitespace_def wordc_def)

lemma skip_Cons [simp]: "c \<notin> set whitespace \<Longrightarrow> skip_white (c # s) = c # s"
  by (simp add: skip_white_def)

lemma skip_Nil [simp]: "skip_white [] = []"
  by (simp add: skip_white_def)

lemma skip_space [simp]: "skip_white (32 # s) = skip_white s"
  by (simp add: skip_white_def whitespace_def)

lemma follow_skip [simp]: "follow cs s \<Longrightarrow> set cs \<subseteq> set symbols \<Longrightarrow> skip_white s = s"
  by (cases s) (auto simp: follow_def symbols_facts)

lemma word_Cons: "word w \<Longrightarrow> \<exists>c v. w = c # v \<and> wordc c"
  by (cases w) (auto simp: word_def)

lemma skip_word [simp]: "word w \<Longrightarrow> skip_white (w @ s) = w @ s"
  using word_Cons [of w] symbols_facts(3) by auto

lemma peek_Cons:
  "c \<notin> set whitespace \<Longrightarrow> bindk (peek toks) f (c # s) = f (c \<in> set toks) (c # s)"
  by (simp add: bind_peek)

lemma peek_Nil: "bindk (peek toks) f [] = f False []"
  by (simp add: bind_peek)

lemma peek_word:
  "word w \<Longrightarrow> set toks \<subseteq> set symbols \<Longrightarrow> bindk (peek toks) f (w @ s) = f False (w @ s)"
proof -
  assume w: "word w" and toks: "set toks \<subseteq> set symbols"
  obtain c v where "w = c # v" "wordc c" using word_Cons [OF w] by blast
  moreover from this have "c \<notin> set toks" using toks by (auto simp: wordc_def)
  ultimately show ?thesis by (simp add: peek_Cons symbols_facts)
qed

lemma gettoken_operator:
  "c \<in> {c_bar, c_lpar, c_rpar, c_semi, c_amp, c_lt} \<Longrightarrow>
   bindk gettoken f (c # s) = f (c, (c # s, s)) (skip_white s)"
  by (auto simp: bind_gettoken token_at_def whitespace_def skip_white_def)

lemma gettoken_gt:
  "word w \<Longrightarrow> bindk gettoken f (c_gt # w @ s) = f (c_gt, (c_gt # w @ s, w @ s)) (w @ s)"
  using word_Cons [of w] symbols_facts(3)
  by (auto simp: bind_gettoken token_at_def whitespace_def wordc_def symbols_def)

lemma token_at_word:
  assumes "word w" "s = [] \<or> \<not> wordc (hd s)"
  shows "token_at (w @ s) = (c_a, s)"
proof -
  obtain c v where w: "w = c # v" "wordc c" using word_Cons [OF assms(1)] by blast
  then have "c \<notin> set symbols" by (simp add: wordc_def)
  moreover have "dropWhile wordc (w @ s) = s"
    using assms by (cases s) (auto simp: word_def list_all_iff dropWhile_append)
  ultimately show ?thesis using w(1) by (simp add: token_at_def symbols_def)
qed

lemma gettoken_word:
  assumes "word w" "s = [] \<or> \<not> wordc (hd s)"
  shows "bindk gettoken f (w @ s) = f (c_a, (w @ s, s)) (skip_white s)"
  by (simp add: bind_gettoken token_at_word [OF assms] assms(1))

lemma tok_str_append [simp]: "tok_str (w @ s, s) = w"
  by (simp add: tok_str_def)

section \<open>Redirections and arguments\<close>

definition redir_ok :: "u8 list \<times> u32 \<times> nat \<Rightarrow> bool" where
  "redir_ok = (\<lambda>(f, m, fd). word f \<and> (m, fd) \<in> {(O_RDONLY, 0), (O_WRONLY OR O_CREATE, 1)})"

definition reds :: "(u8 list \<times> u32 \<times> nat) list \<Rightarrow> u8 list" where
  "reds rs = concat (map show_redir rs)"

definition redirected :: "'a cmd \<Rightarrow> ('a \<times> u32 \<times> nat) list \<Rightarrow> 'a cmd" where
  "redirected c rs = foldl (\<lambda>c (f, m, fd). REDIR c f m fd) c rs"

lemma modes: "O_WRONLY OR O_CREATE \<noteq> O_RDONLY"
  by (simp add: O_WRONLY_def O_CREATE_def O_RDONLY_def)

lemma reds_hd: "reds rs = [] \<or> hd (reds rs) \<in> {c_lt, c_gt}"
  by (cases rs) (auto simp: reds_def show_redir_def split: if_splits)

lemma reds_follow: "follow cs rest \<Longrightarrow> follow (c_lt # c_gt # cs) (reds rs @ rest)"
  using reds_hd [of rs] by (cases "reds rs") (auto simp: follow_def)

lemma follow_not_wordc: "follow cs s \<Longrightarrow> set cs \<subseteq> set symbols \<Longrightarrow> s = [] \<or> \<not> wordc (hd s)"
  by (auto simp: follow_def symbols_facts)

abbreviation ends :: "u8 list" where "ends \<equiv> [c_bar, c_rpar, c_amp, c_semi]"

lemma ends_symbols: "set ends \<subseteq> set symbols" "set (c_lt # c_gt # ends) \<subseteq> set symbols"
  by (auto simp: symbols_def)

lemma parseredirs_reds:
  assumes "list_all redir_ok rs" "follow ends rest" "length rs < n"
  shows "\<exists>d. parseredirs n c (reds rs @ rest) = Ok (d, rest) \<and> map_cmd tok_str d = redirected (map_cmd tok_str c) rs"
  using assms
proof (induction rs arbitrary: n c)
  case Nil
  then obtain k where n: "n = Suc k" by (cases n) auto
  have "parseredirs n c rest = Ok (c, rest)"
    using Nil.prems(2) by (cases rest) (auto simp: n follow_def peek_Cons peek_Nil ret_def whitespace_def)
  then show ?case by (simp add: reds_def redirected_def)
next
  case (Cons r rs)
  obtain f m fd where r: "r = (f, m, fd)" by (cases r)
  obtain k where n: "n = Suc k" "length rs < k" using Cons.prems by (cases n) auto
  have f: "word f" "(m, fd) \<in> {(O_RDONLY, 0), (O_WRONLY OR O_CREATE, 1)}" using Cons.prems r by (auto simp: redir_ok_def)
  let ?s = "reds rs @ rest"
  have fo: "follow (c_lt # c_gt # ends) ?s" using Cons.prems(2) by (rule reds_follow)
  note tok = gettoken_word [OF f(1) follow_not_wordc [OF fo ends_symbols(2)]] follow_skip [OF fo ends_symbols(2)]
  let ?d = "REDIR c (f @ ?s, ?s) m fd"
  have "parseredirs n c (show_redir r @ ?s) = parseredirs k ?d ?s"
  proof (cases "m = O_RDONLY")
    case True
    then show ?thesis using f modes by (auto simp: n r show_redir_def peek_Cons gettoken_operator tok redir_def whitespace_def)
  next
    case False
    then show ?thesis using f modes by (auto simp: n r show_redir_def peek_Cons gettoken_gt tok redir_def whitespace_def)
  qed
  moreover obtain d where "parseredirs k ?d ?s = Ok (d, rest)" "map_cmd tok_str d = redirected (map_cmd tok_str ?d) rs"
    using Cons.IH [of k ?d] Cons.prems n by auto
  ultimately show ?case by (auto simp: r reds_def redirected_def)
qed

text \<open>The rest of \<open>parseexec\<close> on a simple command.\<close>

lemma parseargs_end:
  assumes "follow ends rest" "0 < n"
  shows "parseargs n argc c rest = Ok (c, rest)"
proof -
  obtain k where n: "n = Suc k" using assms(2) by (cases n) auto
  show ?thesis
  proof (cases rest)
    case Nil
    then show ?thesis by (simp add: n peek_Nil bind_gettoken token_at_def ret_def)
  next
    case (Cons x xs)
    then show ?thesis using assms(1) by (auto simp: n follow_def peek_Cons whitespace_def ret_def)
  qed
qed

lemma parseargs_simple:
  assumes "list_all word as" "list_all redir_ok rs" "follow ends rest" "length as + length rs + 1 < n"
    and "length as0 + length as < MAXARGS"
  shows "\<exists>d. bindk (parseredirs n (EXEC as0)) (parseargs n (length as0)) (concat (map (\<lambda>a. a @ [32]) as) @ reds rs @ rest) = Ok (d, rest) \<and>
    map_cmd tok_str d = redirected (EXEC (map tok_str as0 @ as)) rs"
  using assms
proof (induction as arbitrary: n as0)
  case Nil
  then obtain d where "parseredirs n (EXEC as0) (reds rs @ rest) = Ok (d, rest)"
      "map_cmd tok_str d = redirected (EXEC (map tok_str as0)) rs"
    using parseredirs_reds [of rs rest n "EXEC as0"] by auto
  moreover have "parseargs n (length as0) d rest = Ok (d, rest)" using Nil.prems by (intro parseargs_end) auto
  ultimately show ?case by (simp add: bindk_def)
next
  case (Cons a as)
  obtain k where n: "n = Suc k" "length as + length rs + 1 < k" using Cons.prems by (cases n) auto
  let ?s = "concat (map (\<lambda>a. a @ [32]) as) @ reds rs @ rest"
  have a: "word a" "length as0 + 1 < MAXARGS" using Cons.prems by auto
  have s: "skip_white ?s = ?s"
  proof (cases as)
    case Nil
    then show ?thesis using follow_skip [OF reds_follow [OF Cons.prems(3)] ends_symbols(2)] by simp
  next
    case (Cons b bs)
    then show ?thesis using Cons.prems(1) by simp
  qed
  have r: "parseredirs n (EXEC as0) (a @ 32 # ?s) = Ok (EXEC as0, a @ 32 # ?s)"
    using a by (simp add: n peek_word symbols_def ret_def)
  have "\<not> wordc 32" by (simp add: wordc_def whitespace_def)
  then have "parseargs n (length as0) (EXEC as0) (a @ 32 # ?s) =
      bindk (parseredirs k (EXEC (as0 @ [(a @ 32 # ?s, 32 # ?s)]))) (parseargs k (Suc (length as0))) ?s"
    using a by (simp add: n peek_word symbols_def gettoken_word s)
  then have "bindk (parseredirs n (EXEC as0)) (parseargs n (length as0)) (a @ 32 # ?s) =
      bindk (parseredirs k (EXEC (as0 @ [(a @ 32 # ?s, 32 # ?s)]))) (parseargs k (Suc (length as0))) ?s"
    by (simp only: bindk_def [of "parseredirs n (EXEC as0)"] r outcome.case prod.case)
  then show ?case using Cons.IH [of k "as0 @ [(a @ 32 # ?s, 32 # ?s)]"] Cons.prems n(2) by (simp del: parseredirs.simps parseargs.simps)
qed

lemma parsebacks_amps:
  assumes "follow [c_semi, c_rpar] rest" "k < n"
  shows "\<exists>d. parsebacks n c (replicate k c_amp @ rest) = Ok (d, rest) \<and> map_cmd tok_str d = (BACK ^^ k) (map_cmd tok_str c)"
  using assms(2)
proof (induction k arbitrary: n c)
  case 0
  then obtain m where n: "n = Suc m" by (cases n) auto
  have "parsebacks n c rest = Ok (c, rest)"
    using assms(1) by (cases rest) (auto simp: n follow_def peek_Cons peek_Nil ret_def whitespace_def)
  then show ?case by simp
next
  case (Suc k)
  then obtain m where n: "n = Suc m" "k < m" by (cases n) auto
  have "skip_white (replicate k c_amp @ rest) = replicate k c_amp @ rest"
    using follow_skip [OF assms(1)] by (cases k) (auto simp: symbols_def whitespace_def)
  then have "parsebacks n c (replicate (Suc k) c_amp @ rest) = parsebacks m (BACK c) (replicate k c_amp @ rest)"
    by (simp add: n peek_Cons gettoken_operator whitespace_def)
  then show ?case using Suc.IH [OF n(2), of "BACK c"] by (simp add: funpow_swap1)
qed

section \<open>The four levels\<close>

text \<open>What each parsing function does with a command that is written at its level.\<close>

definition execs :: "u8 list cmd \<Rightarrow> bool" where
  "execs c \<longleftrightarrow> (\<forall>n rs rest. list_all redir_ok rs \<longrightarrow> follow ends rest \<longrightarrow> 4 * length (show_cmd c 3 @ reds rs @ rest) + 1 < n \<longrightarrow>
     (\<exists>d. parseexec n (show_cmd c 3 @ reds rs @ rest) = Ok (d, rest) \<and> map_cmd tok_str d = redirected c rs))"

definition pipes :: "u8 list cmd \<Rightarrow> bool" where
  "pipes c \<longleftrightarrow> (\<forall>n rest. follow [c_rpar, c_amp, c_semi] rest \<longrightarrow> 4 * length (show_cmd c 2 @ rest) + 2 < n \<longrightarrow>
     (\<exists>d. parsepipe n (show_cmd c 2 @ rest) = Ok (d, rest) \<and> map_cmd tok_str d = c))"

definition backs :: "u8 list cmd \<Rightarrow> bool" where
  "backs c \<longleftrightarrow> (\<forall>n k rest. follow [c_semi, c_rpar] rest \<longrightarrow> 4 * length (show_cmd c 1 @ replicate k c_amp @ rest) + 2 < n \<longrightarrow>
     (\<exists>d. bindk (parsepipe n) (parsebacks n) (show_cmd c 1 @ replicate k c_amp @ rest) = Ok (d, rest) \<and>
        map_cmd tok_str d = (BACK ^^ k) c))"

definition lines :: "u8 list cmd \<Rightarrow> bool" where
  "lines c \<longleftrightarrow> (\<forall>n rest. follow [c_rpar] rest \<longrightarrow> 4 * length (show_cmd c 0 @ rest) + 3 < n \<longrightarrow>
     (\<exists>d. parseline n (show_cmd c 0 @ rest) = Ok (d, rest) \<and> map_cmd tok_str d = c))"

lemma parseline_Suc:
  "parseline (Suc n) = bindk (bindk (parsepipe n) (parsebacks n)) (\<lambda>cmd. bindk (peek [c_semi]) (\<lambda>b.
     if b then bindk gettoken (\<lambda>_. bindk (parseline n) (\<lambda>right. ret (LIST cmd right))) else ret cmd))"
  by (simp add: bindk_assoc)

lemma follow_mono: "follow cs s \<Longrightarrow> set cs \<subseteq> set cs' \<Longrightarrow> follow cs' s"
  by (auto simp: follow_def)

lemma no_operator:
  assumes "follow cs rest" "set cs \<subseteq> set symbols" "\<And>c. c \<in> set cs \<Longrightarrow> c \<notin> set toks"
  shows "bindk (peek toks) f rest = f False rest"
proof (cases rest)
  case (Cons c s)
  then have "c \<in> set cs" using assms(1) by (simp add: follow_def)
  then show ?thesis using assms(2,3) by (auto simp: Cons peek_Cons symbols_facts)
qed (simp add: peek_Nil)

lemma execs_pipes:
  assumes "execs c" "show_cmd c 2 = show_cmd c 3"
  shows "pipes c"
  unfolding pipes_def
proof (intro allI impI)
  fix n rest assume rest: "follow [c_rpar, c_amp, c_semi] rest" and n: "4 * length (show_cmd c 2 @ rest) + 2 < n"
  obtain k where k: "n = Suc k" using n by (cases n) auto
  have "follow ends rest" using rest by (rule follow_mono) auto
  then obtain d where "parseexec k (show_cmd c 3 @ rest) = Ok (d, rest)" "map_cmd tok_str d = c"
    using assms(1) [unfolded execs_def, rule_format, of "[]" rest k] n k assms(2) by (auto simp: reds_def redirected_def)
  moreover have "bindk (peek [c_bar]) f rest = f False rest" for f :: "bool \<Rightarrow> ptok cmd parser"
    using rest by (rule no_operator) (auto simp: symbols_def)
  ultimately show "\<exists>d. parsepipe n (show_cmd c 2 @ rest) = Ok (d, rest) \<and> map_cmd tok_str d = c"
    by (auto simp: k assms(2) bindk_def [of "parseexec k"] ret_def)
qed

lemma pipes_backs:
  assumes "pipes c" "show_cmd c 1 = show_cmd c 2"
  shows "backs c"
  unfolding backs_def
proof (intro allI impI)
  fix n k rest assume rest: "follow [c_semi, c_rpar] rest"
    and n: "4 * length (show_cmd c 1 @ replicate k c_amp @ rest) + 2 < n"
  let ?r = "replicate k c_amp @ rest"
  have "follow [c_rpar, c_amp, c_semi] ?r" using rest by (cases k) (auto simp: follow_def)
  then obtain d where d: "parsepipe n (show_cmd c 1 @ ?r) = Ok (d, ?r)" "map_cmd tok_str d = c"
    using assms(1) [unfolded pipes_def, rule_format, of ?r n] n assms(2) by auto
  have "k < n" using n by simp
  then obtain e where "parsebacks n d ?r = Ok (e, rest)" "map_cmd tok_str e = (BACK ^^ k) c"
    using parsebacks_amps [OF rest, of k n d] d(2) by auto
  then show "\<exists>d. bindk (parsepipe n) (parsebacks n) (show_cmd c 1 @ ?r) = Ok (d, rest) \<and> map_cmd tok_str d = (BACK ^^ k) c"
    using d(1) by (simp add: bindk_def)
qed

lemma backs_lines:
  assumes "backs c" "show_cmd c 0 = show_cmd c 1"
  shows "lines c"
  unfolding lines_def
proof (intro allI impI)
  fix n rest assume rest: "follow [c_rpar] rest" and n: "4 * length (show_cmd c 0 @ rest) + 3 < n"
  obtain k where k: "n = Suc k" using n by (cases n) auto
  have "follow [c_semi, c_rpar] rest" using rest by (rule follow_mono) auto
  then obtain d where "bindk (parsepipe k) (parsebacks k) (show_cmd c 1 @ rest) = Ok (d, rest)" "map_cmd tok_str d = c"
    using assms(1) [unfolded backs_def, rule_format, of rest 0 k] n k assms(2) by auto
  moreover have "bindk (peek [c_semi]) f rest = f False rest" for f :: "bool \<Rightarrow> ptok cmd parser"
    using rest by (rule no_operator) (auto simp: symbols_def)
  ultimately show "\<exists>d. parseline n (show_cmd c 0 @ rest) = Ok (d, rest) \<and> map_cmd tok_str d = c"
    unfolding k parseline_Suc assms(2) by (auto simp: bindk_def [of "bindk _ _"] ret_def)
qed

lemma lines_execs:
  assumes "lines c" "show_cmd c 3 = c_lpar # show_cmd c 0 @ [c_rpar]" "\<And>s. skip_white (show_cmd c 0 @ c_rpar # s) = show_cmd c 0 @ c_rpar # s"
  shows "execs c"
  unfolding execs_def
proof (intro allI impI)
  fix n rs rest assume rs: "list_all redir_ok rs" and rest: "follow ends rest"
    and n: "4 * length (show_cmd c 3 @ reds rs @ rest) + 1 < n"
  obtain k where k: "n = Suc (Suc k)" using n by (cases n; cases "n - 1") auto
  let ?s = "c_rpar # reds rs @ rest"
  obtain d where "parseline k (show_cmd c 0 @ ?s) = Ok (d, ?s)" "map_cmd tok_str d = c"
    using assms(1) [unfolded lines_def, rule_format, of ?s k] n k assms(2) by (auto simp: follow_def)
  moreover have "length rs \<le> length (reds rs)" by (induction rs) (auto simp: reds_def show_redir_def)
  then obtain e where "parseredirs k d (reds rs @ rest) = Ok (e, rest)" "map_cmd tok_str e = redirected (map_cmd tok_str d) rs"
    using parseredirs_reds [OF rs rest, of k d] n k assms(2) by auto
  moreover have "skip_white (reds rs @ rest) = reds rs @ rest"
    using reds_follow [OF rest] ends_symbols(2) by (rule follow_skip)
  ultimately show "\<exists>d. parseexec n (show_cmd c 3 @ reds rs @ rest) = Ok (d, rest) \<and> map_cmd tok_str d = redirected c rs"
    by (auto simp: k assms(2,3) peek_Cons gettoken_operator bindk_def [of "parseline k"] whitespace_def)
qed

lemma show_clean:
  "wf_cmd word c \<Longrightarrow> skip_white s = s \<Longrightarrow> skip_white (show_cmd c k @ s) = show_cmd c k @ s"
proof (induction c arbitrary: k s)
  case (EXEC as)
  then show ?case by (cases as) auto
next
  case (REDIR c f m fd)
  have "skip_white (show_redir (f, m, fd) @ s) = show_redir (f, m, fd) @ s"
    by (simp add: show_redir_def whitespace_def)
  then show ?case using REDIR by simp
qed (auto simp: block_def whitespace_def)

lemma show_clean_follow:
  "wf_cmd word c \<Longrightarrow> follow cs s \<Longrightarrow> set cs \<subseteq> set symbols \<Longrightarrow> skip_white (show_cmd c k @ s) = show_cmd c k @ s"
  by (simp add: show_clean)

lemma execs_EXEC:
  assumes "wf_cmd word (EXEC as)"
  shows "execs (EXEC as)"
  unfolding execs_def
proof (intro allI impI)
  fix n rs rest assume rs: "list_all redir_ok rs" and rest: "follow ends rest"
    and n: "4 * length (show_cmd (EXEC as) 3 @ reds rs @ rest) + 1 < n"
  obtain k where k: "n = Suc k" using n by (cases n) auto
  let ?s = "concat (map (\<lambda>a. a @ [32]) as) @ reds rs @ rest"
  have len: "length as \<le> length (concat (map (\<lambda>a. a @ [32]) as))" by (induction as) auto
  have len': "length rs \<le> length (reds rs)" by (induction rs) (auto simp: reds_def show_redir_def)
  have "length as + length rs + 1 < k \<or> as = [] \<and> rs = []" using n k len len' by (cases as; cases rs) auto
  moreover have "\<exists>d. bindk (parseredirs k (EXEC [])) (parseargs k 0) rest = Ok (d, rest) \<and> map_cmd tok_str d = EXEC []"
    if "as = []" "rs = []"
    using parseredirs_reds [of "[]" rest k "EXEC []"] parseargs_end [OF rest, of k 0] n k that rest
    by (auto simp: reds_def redirected_def bindk_def)
  ultimately obtain d where d: "bindk (parseredirs k (EXEC [])) (parseargs k 0) ?s = Ok (d, rest)"
      "map_cmd tok_str d = redirected (EXEC as) rs"
    using parseargs_simple [of as rs rest k "[]"] assms rs rest by (auto simp: redirected_def reds_def)
  have "bindk (peek [c_lpar]) f ?s = f False ?s" for f :: "bool \<Rightarrow> ptok cmd parser"
  proof (cases as)
    case Nil
    have "follow (c_lt # c_gt # ends) ?s" using reds_follow [OF rest] Nil by simp
    then show ?thesis by (rule no_operator) (auto simp: symbols_def)
  next
    case (Cons a bs)
    then show ?thesis using assms by (simp add: peek_word symbols_def)
  qed
  then show "\<exists>d. parseexec n (show_cmd (EXEC as) 3 @ reds rs @ rest) = Ok (d, rest) \<and> map_cmd tok_str d = redirected (EXEC as) rs"
    using d by (simp add: k)
qed

lemma execs_REDIR:
  assumes "execs c" "wf_cmd word (REDIR c f m fd)"
  shows "execs (REDIR c f m fd)"
  unfolding execs_def
proof (intro allI impI)
  fix n rs rest assume rs: "list_all redir_ok rs" and rest: "follow ends rest"
    and n: "4 * length (show_cmd (REDIR c f m fd) 3 @ reds rs @ rest) + 1 < n"
  have "list_all redir_ok ((f, m, fd) # rs)" using rs assms(2) by (auto simp: redir_ok_def)
  then show "\<exists>d. parseexec n (show_cmd (REDIR c f m fd) 3 @ reds rs @ rest) = Ok (d, rest) \<and>
      map_cmd tok_str d = redirected (REDIR c f m fd) rs"
    using assms(1) [unfolded execs_def, rule_format, of "(f, m, fd) # rs" rest n] rest n
    by (simp add: reds_def redirected_def)
qed

lemma pipes_PIPE:
  assumes "execs l" "pipes r" "wf_cmd word r"
  shows "pipes (PIPE l r)"
  unfolding pipes_def
proof (intro allI impI)
  fix n rest assume rest: "follow [c_rpar, c_amp, c_semi] rest" and n: "4 * length (show_cmd (PIPE l r) 2 @ rest) + 2 < n"
  obtain k where k: "n = Suc k" using n by (cases n) auto
  let ?s = "show_cmd r 2 @ rest"
  obtain d where "parseexec k (show_cmd l 3 @ c_bar # ?s) = Ok (d, c_bar # ?s)" "map_cmd tok_str d = l"
    using assms(1) [unfolded execs_def, rule_format, of "[]" "c_bar # ?s" k] n k
    by (auto simp: reds_def redirected_def block_def follow_def)
  moreover obtain e where "parsepipe k ?s = Ok (e, rest)" "map_cmd tok_str e = r"
    using assms(2) [unfolded pipes_def, rule_format, of rest k] rest n k by (auto simp: block_def)
  moreover have "skip_white ?s = ?s" using assms(3) rest by (rule show_clean_follow) (simp add: symbols_def)
  ultimately show "\<exists>d. parsepipe n (show_cmd (PIPE l r) 2 @ rest) = Ok (d, rest) \<and> map_cmd tok_str d = PIPE l r"
    by (auto simp: k block_def peek_Cons gettoken_operator whitespace_def ret_def
      bindk_def [of "parseexec k"] bindk_def [of "parsepipe k"])
qed

lemma lines_LIST:
  assumes "backs l" "lines r" "wf_cmd word r"
  shows "lines (LIST l r)"
  unfolding lines_def
proof (intro allI impI)
  fix n rest assume rest: "follow [c_rpar] rest" and n: "4 * length (show_cmd (LIST l r) 0 @ rest) + 3 < n"
  obtain k where k: "n = Suc k" using n by (cases n) auto
  let ?s = "show_cmd r 0 @ rest"
  obtain d where "bindk (parsepipe k) (parsebacks k) (show_cmd l 1 @ c_semi # ?s) = Ok (d, c_semi # ?s)" "map_cmd tok_str d = l"
    using assms(1) [unfolded backs_def, rule_format, of "c_semi # ?s" 0 k] n k by (auto simp: block_def follow_def)
  moreover obtain e where "parseline k ?s = Ok (e, rest)" "map_cmd tok_str e = r"
    using assms(2) [unfolded lines_def, rule_format, of rest k] rest n k by (auto simp: block_def)
  moreover have "skip_white ?s = ?s" using assms(3) rest by (rule show_clean_follow) (simp add: symbols_def)
  ultimately show "\<exists>d. parseline n (show_cmd (LIST l r) 0 @ rest) = Ok (d, rest) \<and> map_cmd tok_str d = LIST l r"
    unfolding k parseline_Suc
    by (auto simp: block_def peek_Cons gettoken_operator whitespace_def ret_def
      bindk_def [of "bindk (parsepipe k) (parsebacks k)"] bindk_def [of "parseline k"])
qed

lemma backs_BACK: "backs c \<Longrightarrow> backs (BACK c)"
  unfolding backs_def
proof (intro allI impI)
  fix n k rest
  assume IH: "\<forall>n k rest. follow [c_semi, c_rpar] rest \<longrightarrow> 4 * length (show_cmd c 1 @ replicate k c_amp @ rest) + 2 < n \<longrightarrow>
     (\<exists>d. bindk (parsepipe n) (parsebacks n) (show_cmd c 1 @ replicate k c_amp @ rest) = Ok (d, rest) \<and>
        map_cmd tok_str d = (BACK ^^ k) c)"
    and rest: "follow [c_semi, c_rpar] rest" and n: "4 * length (show_cmd (BACK c) 1 @ replicate k c_amp @ rest) + 2 < n"
  show "\<exists>d. bindk (parsepipe n) (parsebacks n) (show_cmd (BACK c) 1 @ replicate k c_amp @ rest) = Ok (d, rest) \<and>
        map_cmd tok_str d = (BACK ^^ k) (BACK c)"
    using IH [rule_format, of rest "Suc k" n] rest n by (simp add: block_def funpow_swap1)
qed

lemma execs_all:
  assumes "execs c" "\<And>k. show_cmd c k = show_cmd c 3"
  shows "execs c \<and> pipes c \<and> backs c \<and> lines c"
proof -
  have p: "pipes c" using assms by (intro execs_pipes)
  then have b: "backs c" using assms(2) [of 1] assms(2) [of 2] by (intro pipes_backs) simp_all
  then show ?thesis using assms(1) p assms(2) [of 0] assms(2) [of 1] by (simp add: backs_lines)
qed

lemma levels:
  assumes "wf_cmd word c"
  shows "execs c \<and> pipes c \<and> backs c \<and> lines c"
  using assms
proof (induction c)
  case (EXEC as)
  then show ?case by (intro execs_all execs_EXEC) simp_all
next
  case (REDIR c f m fd)
  then show ?case by (intro execs_all execs_REDIR) simp_all
next
  case (PIPE l r)
  then have *: "pipes (PIPE l r)" by (intro pipes_PIPE) auto
  then have "backs (PIPE l r)" by (rule pipes_backs) (simp add: block_def)
  moreover from this have "lines (PIPE l r)" by (rule backs_lines) (simp add: block_def)
  moreover from this have "execs (PIPE l r)"
    by (rule lines_execs) (use PIPE.prems show_clean [of "PIPE l r" _ 0] in \<open>simp_all add: block_def whitespace_def\<close>)
  ultimately show ?case using * by blast
next
  case (LIST l r)
  then have *: "lines (LIST l r)" by (intro lines_LIST) auto
  then have e: "execs (LIST l r)"
    by (rule lines_execs) (use LIST.prems show_clean [of "LIST l r" _ 0] in \<open>simp_all add: block_def whitespace_def\<close>)
  then have "pipes (LIST l r)" by (rule execs_pipes) (simp add: block_def)
  moreover from this have "backs (LIST l r)" by (rule pipes_backs) (simp add: block_def)
  ultimately show ?case using * e by blast
next
  case (BACK c)
  then have *: "backs (BACK c)" by (intro backs_BACK) auto
  then have l: "lines (BACK c)" by (rule backs_lines) (simp add: block_def)
  then have e: "execs (BACK c)"
    by (rule lines_execs) (use BACK.prems show_clean [of "BACK c" _ 0] in \<open>simp_all add: block_def whitespace_def\<close>)
  then have "pipes (BACK c)" by (rule execs_pipes) (simp add: block_def)
  then show ?case using * l e by blast
qed

section \<open>The round trip\<close>

lemma word_no_nul: "word w \<Longrightarrow> 0 \<notin> set w"
  by (simp add: word_def)

lemma show_no_nul: "wf_cmd word c \<Longrightarrow> 0 \<notin> set (show_cmd c k)"
  by (induction c arbitrary: k) (auto simp: list_all_iff word_no_nul show_redir_def block_def)

text \<open>
  C17: the shell reads back every command.  A command whose strings are words, with fewer than \<open>MAXARGS\<close> arguments per simple command and the redirections the
  language has, is written with \<open>show_cmd\<close>; \<open>parsecmd\<close> accepts that line, and the tree it returns, with its strings read from the line after
  \<open>nulterminate\<close>, is the command.  So operators bind and associate as the grammar says, and blocks, redirections, background and sequences nest.
\<close>

theorem parse_show_roundtrip:
  assumes "wf_cmd word c"
  shows "\<exists>t buf. parsecmd (show_cmd c 0) = Ok (t, buf) \<and> read_cmd (length (show_cmd c 0)) buf t = c"
proof -
  let ?line = "show_cmd c 0"
  obtain t where t: "parseline (parse_depth (length ?line)) ?line = Ok (t, [])" "map_cmd tok_str t = c"
    using levels [OF assms] unfolding lines_def
    by (auto simp: follow_def parse_depth_def dest!: spec [of _ "4 * length ?line + 5"])
  have run: "parsecmd ?line = Ok (t, nulterminate (length ?line) t (?line @ [0]))"
    by (simp add: parsecmd_def bindk_def [of "parseline _"] t(1) peek_Nil ret_def)
  have "wf_cmd (tok_of ?line) t" by (rule parsecmd_parses [of ?line]) (use run in auto)
  then show ?thesis using run t(2) read_cmd_tokens(1) [OF _ show_no_nul [OF assms]] by auto
qed

text \<open>The line \<open>cat f |(wc <g &)>o; ls\<close>.\<close>

definition ex_cmd :: "u8 list cmd" where
  "ex_cmd = LIST (PIPE (EXEC [[99, 97, 116], [102]])
     (REDIR (BACK (REDIR (EXEC [[119, 99]]) [103] 0 0)) [111] 0x201 1)) (EXEC [[108, 115]])"

theorem parse_show_roundtrip_witness:
  "show_cmd ex_cmd 0 = [99, 97, 116, 32, 102, 32, 124, 40, 119, 99, 32, 60, 103, 38, 41, 62, 111, 59, 108, 115, 32] \<and>
   (\<exists>t buf. parsecmd (show_cmd ex_cmd 0) = Ok (t, buf) \<and> read_cmd (length (show_cmd ex_cmd 0)) buf t = ex_cmd)"
proof
  show "show_cmd ex_cmd 0 = [99, 97, 116, 32, 102, 32, 124, 40, 119, 99, 32, 60, 103, 38, 41, 62, 111, 59, 108, 115, 32]"
    by (simp add: ex_cmd_def show_redir_def block_def O_RDONLY_def)
  have "wf_cmd word ex_cmd"
    by (simp add: ex_cmd_def word_def wordc_def whitespace_def symbols_def MAXARGS_def O_RDONLY_def O_WRONLY_def O_CREATE_def)
  then show "\<exists>t buf. parsecmd (show_cmd ex_cmd 0) = Ok (t, buf) \<and> read_cmd (length (show_cmd ex_cmd 0)) buf t = ex_cmd"
    by (rule parse_show_roundtrip)
qed

end
