(* ===== verification/Sh_Run.thy ===== *)
theory Sh_Run
  imports Sh
begin

text \<open>
  How \<open>runcmd\<close> connects the stages of a pipeline.  The programs that a list of actions starts are collected with their descriptors, and
  the descriptors of every shell that waits, at each of its waits.
\<close>

fun programs :: "action list \<Rightarrow> (u8 list list \<times> fdtable) list" where
  "programs [] = []"
| "programs (Fork1 child # rest) = programs child @ programs rest"
| "programs (Exec1 as t # rest) = (as, t) # programs rest"
| "programs (Wait1 t # rest) = programs rest"
| "programs (Fail msg # rest) = programs rest"

fun waiters :: "action list \<Rightarrow> fdtable list" where
  "waiters [] = []"
| "waiters (Fork1 child # rest) = waiters rest @ waiters child"
| "waiters (Exec1 as t # rest) = waiters rest"
| "waiters (Wait1 t # rest) = t # waiters rest"
| "waiters (Fail msg # rest) = waiters rest"

fun pipeline :: "'a list list \<Rightarrow> 'a cmd" where
  "pipeline [] = EXEC []"
| "pipeline [as] = EXEC as"
| "pipeline (as # bs # cs) = PIPE (EXEC as) (pipeline (bs # cs))"

section \<open>Descriptors\<close>

definition ready :: "fdtable \<Rightarrow> bool" where
  "ready t \<longleftrightarrow> 2 \<le> length t \<and> t ! 0 \<noteq> None \<and> t ! 1 \<noteq> None \<and> 2 \<le> length (filter (\<lambda>ch. ch = None) t)"

lemma lowest_free_eq:
  "fd < length t \<Longrightarrow> t ! fd = None \<Longrightarrow> (\<And>k. k < fd \<Longrightarrow> t ! k \<noteq> None) \<Longrightarrow> lowest_free t = Some fd"
  by (auto simp: lowest_free_def find_Some_iff intro!: exI [of _ fd])

lemma lowest_freeD:
  assumes "lowest_free t = Some fd"
  shows "fd < length t" "t ! fd = None"
  using assms by (auto simp: lowest_free_def find_Some_iff)

lemma lowest_free_ex: "fd < length t \<Longrightarrow> t ! fd = None \<Longrightarrow> \<exists>k. lowest_free t = Some k"
  by (cases "lowest_free t") (auto simp: lowest_free_def find_None_iff)

lemma two_free:
  assumes "2 \<le> length (filter P xs)"
  obtains i j where "i < length xs" "j < length xs" "i \<noteq> j" "P (xs ! i)" "P (xs ! j)"
proof -
  let ?I = "{i. i < length xs \<and> P (xs ! i)}"
  have c: "2 \<le> card ?I" using assms by (simp add: length_filter_conv_card)
  then obtain i where i: "i \<in> ?I" by (cases "?I = {}") auto
  have "card (?I - {i}) \<noteq> 0" using c i by simp
  then obtain j where "j \<in> ?I - {i}" by (cases "?I - {i} = {}") auto
  then show thesis using i by (intro that [of i j]) auto
qed

lemma ready_update: "ready t \<Longrightarrow> k < 2 \<Longrightarrow> ready (t[k := Some ch])"
proof -
  assume t: "ready t" and k: "k < 2"
  have occ: "t ! k \<noteq> None" using t k by (auto simp: ready_def less_2_cases_iff)
  have "(t[k := Some ch] ! i = None) = (t ! i = None)" if "i < length t" for i
    using occ that by (cases "i = k") auto
  then have "length (filter (\<lambda>ch. ch = None) (t[k := Some ch])) = length (filter (\<lambda>ch. ch = None) t)"
    unfolding length_filter_conv_card by (intro arg_cong [where f = card]) auto
  moreover have "k < length t" using t k by (simp add: ready_def)
  then have "t[k := Some ch] ! i \<noteq> None" if "i < 2" for i
    using t that by (cases "i = k") (auto simp: ready_def less_2_cases_iff)
  ultimately show ?thesis using t by (simp add: ready_def)
qed

lemma sh_pipe_ready:
  assumes "ready t"
  obtains p0 p1 where "sh_pipe at t = Some (p0, p1, t[p0 := Some (ReadEnd at), p1 := Some (WriteEnd at)])"
    "1 < p0" "1 < p1" "p0 \<noteq> p1" "p0 < length t" "p1 < length t" "t ! p0 = None" "t ! p1 = None"
proof -
  obtain i j where ij: "i < length t" "j < length t" "i \<noteq> j" "t ! i = None" "t ! j = None"
    using assms two_free [of "\<lambda>ch. ch = None" t] by (auto simp: ready_def)
  obtain p0 where p0: "lowest_free t = Some p0" using lowest_free_ex ij(1,4) by blast
  note p0' = lowest_freeD [OF p0]
  let ?t = "t[p0 := Some (ReadEnd at)]"
  obtain k where "k < length t" "k \<noteq> p0" "t ! k = None" using ij by (cases "i = p0") auto
  then obtain p1 where p1: "lowest_free ?t = Some p1" using lowest_free_ex [of k ?t] by auto
  note p1' = lowest_freeD [OF p1]
  have ne: "p0 \<noteq> p1" using p1' p0'(1) by auto
  have big: "1 < p" if "t ! p = None" for p
    using that assms by (cases "p = 0"; cases "p = 1") (auto simp: ready_def)
  show thesis
  proof (rule that)
    show "sh_pipe at t = Some (p0, p1, t[p0 := Some (ReadEnd at), p1 := Some (WriteEnd at)])"
      by (simp add: sh_pipe_def sh_alloc_def p0 p1)
    show "t ! p1 = None" using p1'(2) ne by simp
    then show "1 < p1" by (rule big)
  qed (use p0' p1' ne big in auto)
qed

text \<open>The shell that made the pipe, when it has closed both ends, has the descriptors it began with.\<close>

lemma close_ends:
  "p0 < length t \<Longrightarrow> p1 < length t \<Longrightarrow> t ! p0 = None \<Longrightarrow> t ! p1 = None \<Longrightarrow> sh_close p1 (sh_close p0 (t[p0 := Some a, p1 := Some b])) = t"
  unfolding sh_close_def by (intro nth_equalityI) (auto simp: nth_list_update)

text \<open>A child of the pipe: one standard descriptor is the end of the pipe, the others are those of the parent.\<close>

lemma dup_end:
  assumes "ready t" "p0 < length t" "p1 < length t" "1 < p0" "1 < p1" "p0 \<noteq> p1" "t ! p0 = None" "t ! p1 = None"
    and k: "k < 2" and p: "p = p0 \<and> ch = a \<or> p = p1 \<and> ch = b"
  shows "sh_close p1 (sh_close p0 (sh_dup p (sh_close k (t[p0 := Some a, p1 := Some b])))) = t[k := Some ch]"
proof -
  let ?u = "t[p0 := Some a, p1 := Some b, k := None]"
  have len: "k < length t" using assms by simp
  have at: "?u ! p = Some ch" using assms len by auto
  have "lowest_free ?u = Some k"
  proof (rule lowest_free_eq)
    fix j assume "j < k"
    then have "j = 0" "k = 1" using k by auto
    then show "?u ! j \<noteq> None" using assms by (auto simp: ready_def)
  qed (use len in auto)
  then have "sh_dup p ?u = ?u[k := Some ch]" by (simp add: sh_dup_def at sh_alloc_def)
  then have "sh_close p1 (sh_close p0 (sh_dup p (sh_close k (t[p0 := Some a, p1 := Some b])))) = ?u[k := Some ch, p0 := None, p1 := None]"
    by (simp add: sh_close_def)
  also have "\<dots> = t[k := Some ch]"
    using assms(2-8) k by (intro nth_equalityI) (auto simp: nth_list_update)
  finally show ?thesis .
qed

section \<open>Pipelines\<close>

lemma runcmd_PIPE:
  assumes "ready t" "\<And>at. forks at"
  shows "runcmd opens forks at (PIPE l r) t =
    [Fork1 (runcmd opens forks (0 # at) l (t[1 := Some (WriteEnd at)])),
     Fork1 (runcmd opens forks (1 # at) r (t[0 := Some (ReadEnd at)])), Wait1 t, Wait1 t]"
proof -
  obtain p0 p1 where p: "sh_pipe at t = Some (p0, p1, t[p0 := Some (ReadEnd at), p1 := Some (WriteEnd at)])"
    "1 < p0" "1 < p1" "p0 \<noteq> p1" "p0 < length t" "p1 < length t" "t ! p0 = None" "t ! p1 = None"
    using sh_pipe_ready [OF assms(1)] by metis
  note e = dup_end [OF assms(1) p(5,6,2-4,7,8), where a = "ReadEnd at" and b = "WriteEnd at"]
  have "sh_close p1 (sh_close p0 (sh_dup p1 (sh_close 1 (t[p0 := Some (ReadEnd at), p1 := Some (WriteEnd at)])))) = t[1 := Some (WriteEnd at)]"
    "sh_close p1 (sh_close p0 (sh_dup p0 (sh_close 0 (t[p0 := Some (ReadEnd at), p1 := Some (WriteEnd at)])))) = t[0 := Some (ReadEnd at)]"
    by (intro e; simp)+
  then show ?thesis using assms(2) close_ends [OF p(5-8)] by (simp add: p(1) fork1_def Let_def)
qed

text \<open>
  The descriptors of stage \<open>i\<close> of \<open>n\<close>, and those of the shell that starts stage \<open>i\<close> and the shell for the rest of the pipeline:
  it has the read end of the pipe before, as its standard input.
\<close>

definition shell_fds :: "nat list \<Rightarrow> fdtable \<Rightarrow> nat \<Rightarrow> fdtable" where
  "shell_fds at t i = t[0 := if i = 0 then t ! 0 else Some (ReadEnd (replicate (i - 1) 1 @ at))]"

definition stage_fds :: "nat list \<Rightarrow> fdtable \<Rightarrow> nat \<Rightarrow> nat \<Rightarrow> fdtable" where
  "stage_fds at t n i = (shell_fds at t i)[1 := if Suc i = n then t ! 1 else Some (WriteEnd (replicate i 1 @ at))]"

lemma fds_Suc:
  assumes "ready t"
  shows "shell_fds (1 # at) (t[0 := Some (ReadEnd at)]) i = shell_fds at t (Suc i)"
    "stage_fds (1 # at) (t[0 := Some (ReadEnd at)]) n i = stage_fds at t (Suc n) (Suc i)"
proof -
  have r: "replicate k x @ x # at = x # replicate k x @ at" for k and x :: nat by (induction k) auto
  show s: "shell_fds (1 # at) (t[0 := Some (ReadEnd at)]) i = shell_fds at t (Suc i)"
    using assms by (cases i) (auto simp: shell_fds_def ready_def r)
  show "stage_fds (1 # at) (t[0 := Some (ReadEnd at)]) n i = stage_fds at t (Suc n) (Suc i)"
    unfolding stage_fds_def s by (simp add: r)
qed

lemma fds_0: "ready t \<Longrightarrow> shell_fds at t 0 = t"
  by (simp add: shell_fds_def)

lemma upt_Suc_map: "[0 ..< Suc n] = 0 # map Suc [0 ..< n]"
  by (simp add: map_Suc_upt upt_conv_Cons del: upt_Suc)

lemma pipeline_runs:
  assumes "ready t" "\<And>at. forks at" "cs \<noteq> []" "list_all (\<lambda>as. as \<noteq> []) cs"
  shows "programs (runcmd opens forks at (pipeline cs) t) = map (\<lambda>i. (cs ! i, stage_fds at t (length cs) i)) [0 ..< length cs] \<and>
    waiters (runcmd opens forks at (pipeline cs) t) =
      concat (map (\<lambda>i. [shell_fds at t i, shell_fds at t i]) [0 ..< length cs - 1])"
  using assms
proof (induction cs arbitrary: at t rule: pipeline.induct)
  case (2 as)
  then show ?case by (simp add: stage_fds_def shell_fds_def ready_def)
next
  case (3 as bs cs)
  let ?t = "t[0 := Some (ReadEnd at)]" and ?n = "length (bs # cs)"
  have "ready ?t" using ready_update [OF 3(2), of 0] by simp
  note IH = 3(1) [OF this 3(3), of "1 # at"]
  have IH: "programs (runcmd opens forks (1 # at) (pipeline (bs # cs)) ?t) =
      map (\<lambda>i. ((bs # cs) ! i, stage_fds (1 # at) ?t ?n i)) [0 ..< ?n]"
    "waiters (runcmd opens forks (1 # at) (pipeline (bs # cs)) ?t) =
      concat (map (\<lambda>i. [shell_fds (1 # at) ?t i, shell_fds (1 # at) ?t i]) [0 ..< ?n - 1])"
    using IH 3(5) by simp_all
  have first: "stage_fds at t (Suc ?n) 0 = t[1 := Some (WriteEnd at)]" using 3(2) by (simp add: stage_fds_def fds_0)
  have run: "runcmd opens forks at (pipeline (as # bs # cs)) t =
      [Fork1 [Exec1 as (t[1 := Some (WriteEnd at)])], Fork1 (runcmd opens forks (1 # at) (pipeline (bs # cs)) ?t), Wait1 t, Wait1 t]"
    using 3(5) by (simp only: pipeline.simps runcmd_PIPE [OF 3(2,3)]) simp
  have "map (\<lambda>i. ((as # bs # cs) ! i, stage_fds at t (Suc ?n) i)) [0 ..< Suc ?n] =
      (as, t[1 := Some (WriteEnd at)]) # map (\<lambda>i. ((bs # cs) ! i, stage_fds (1 # at) ?t ?n i)) [0 ..< ?n]"
    unfolding upt_Suc_map fds_Suc [OF 3(2)] first [symmetric] by simp
  moreover have "concat (map (\<lambda>i. [shell_fds at t i, shell_fds at t i]) [0 ..< Suc (?n - 1)]) =
      t # t # concat (map (\<lambda>i. [shell_fds (1 # at) ?t i, shell_fds (1 # at) ?t i]) [0 ..< ?n - 1])"
    unfolding upt_Suc_map fds_Suc [OF 3(2)] using fds_0 [OF 3(2)] by (simp add: comp_def)
  moreover have "length (as # bs # cs) = Suc ?n" "length (as # bs # cs) - 1 = Suc (?n - 1)" by simp_all
  ultimately show ?case unfolding run using IH by (simp only: programs.simps waiters.simps append_Nil append_Nil2 append_Cons simp_thms)
qed simp

text \<open>
  C19: the shell wires pipelines correctly.  If the shell's standard descriptors are open, two more are free and the forks succeed, then the command
  \<open>c1 | c2 | ... | cn\<close> starts exactly the programs \<open>c1\<close> to \<open>cn\<close>.  Program \<open>i\<close> reads from the pipe before it (the first from the shell's standard input), writes
  to the pipe after it (the last to the shell's standard output), and has no other descriptor than those of the shell.  The shells that
  start the stages and wait for them, twice each, have closed both ends of the pipe they made: the first has the descriptors it began with, and the others
  only the read end of the pipe before, their standard input.  So the write end of a pipe is open in exactly one process, the program before it,
  and the reader sees the end of its input when that program ends.
\<close>

theorem pipeline_wiring:
  assumes "ready t" "\<And>at. forks at" "cs \<noteq> []" "list_all (\<lambda>as. as \<noteq> []) cs"
  shows "programs (runcmd opens forks at (pipeline cs) t) = map (\<lambda>i. (cs ! i, stage_fds at t (length cs) i)) [0 ..< length cs] \<and>
    waiters (runcmd opens forks at (pipeline cs) t) =
      concat (map (\<lambda>i. [shell_fds at t i, shell_fds at t i]) [0 ..< length cs - 1])"
  using assms by (rule pipeline_runs)

theorem pipeline_wiring_witness:
  "programs (runcmd (\<lambda>f m. True) (\<lambda>at. True) [] (pipeline [[[99, 97, 116]], [[119, 99]]]) [Some Console, Some Console, Some Console, None, None]) =
   [([[99, 97, 116]], [Some Console, Some (WriteEnd []), Some Console, None, None]),
    ([[119, 99]], [Some (ReadEnd []), Some Console, Some Console, None, None])] \<and>
   waiters (runcmd (\<lambda>f m. True) (\<lambda>at. True) [] (pipeline [[[99, 97, 116]], [[119, 99]]]) [Some Console, Some Console, Some Console, None, None]) =
   [[Some Console, Some Console, Some Console, None, None], [Some Console, Some Console, Some Console, None, None]]"
  using pipeline_wiring [of "[Some Console, Some Console, Some Console, None, None]" "\<lambda>at. True" "[[[99, 97, 116]], [[119, 99]]]" "\<lambda>f m. True" "[]"]
  by (simp add: ready_def stage_fds_def shell_fds_def upt_conv_Cons)

end
