(* ===== verification/Cow_Proc.thy ===== *)
theory Cow_Proc
  imports Vm Proc Sysfile
begin

text \<open>
  Processes of the copy-on-write kernel (\<open>proc.c\<close>, \<open>sysproc.c\<close> and \<open>trap.c\<close> of \<open>xv6-cow_patch\<close>).  The state puts the components
  together: the process table with its locks, the memory and page tables, and the files.  A function works on its own part of
  the state: \<open>zoom_ck\<close> runs an operation on memory, \<open>zoom_fs i\<close> a file operation on behalf of process \<open>i\<close>.  The pages
  of pipes are counted with the files (theory \<open>File\<close>), not with the memory.  A function that gives up the
  CPU is split at the context switch as in theory \<open>Proc\<close>.
\<close>

section \<open>State\<close>

record cst = "proc pst" +
  ck :: kstate
  cfs :: filest
  trapret :: u32          \<comment> \<open>addresses of code\<close>
  forkret :: u32
  initcode_start :: u32   \<comment> \<open>linker symbols\<close>
  initcode_size :: u32
  first :: bool           \<comment> \<open>the static variable of \<open>forkret\<close>\<close>

definition zoom_ck :: "(kstate, 'a) kern \<Rightarrow> (cst, 'a) kern" where
  "zoom_ck m = zoomk ck (\<lambda>k s. s\<lparr>ck := k\<rparr>) m"

definition proc_fs :: "nat \<Rightarrow> cst \<Rightarrow> filest" where
  "proc_fs i s = (let p = ptable s ! i in (cfs s)\<lparr>curpid := p_pid p, mykilled := p_killed p,
     mycwd := (case p_cwd p of None \<Rightarrow> mycwd (cfs s) | Some c \<Rightarrow> c)\<rparr>)"

definition zoom_fs :: "nat \<Rightarrow> (filest, 'a) kern \<Rightarrow> (cst, 'a) kern" where
  "zoom_fs i m = zoomk (proc_fs i) (\<lambda>f s. s\<lparr>cfs := f\<rparr>) m"

definition set_mem :: "(memory \<Rightarrow> memory) \<Rightarrow> cst \<Rightarrow> cst" where
  "set_mem f s = s\<lparr>ck := (ck s)\<lparr>mem := f (mem (ck s))\<rparr>\<rparr>"

section \<open>Creating processes\<close>

definition cow_kstack_frame :: "nat \<Rightarrow> u32 \<Rightarrow> cst \<Rightarrow> cst" where
  "cow_kstack_frame i stack s =
     (let tf = stack + KSTACKSIZE - SIZEOF_TRAPFRAME;
          sp = tf - 4;
          ctx = sp - SIZEOF_CONTEXT in
      upd_proc i (\<lambda>p. p\<lparr>p_tf := tf, p_context := ctx\<rparr>)
        (set_mem (\<lambda>m. store32 (memset (store32 m sp (trapret s)) ctx 0 SIZEOF_CONTEXT) (ctx + CONTEXT_EIP) (forkret s)) s))"

definition cow_allocproc :: "(cst, nat option) kern" where
  "cow_allocproc = seqk (acquirep PTABLE) (\<lambda>s.
     case find_index (\<lambda>p. p_state p = UNUSED) (ptable s) of
       None \<Rightarrow> seqk (releasep PTABLE) (ret None) s
     | Some i \<Rightarrow>
         seqk (modk (\<lambda>s. upd_proc i (\<lambda>p. p\<lparr>p_state := EMBRYO, p_pid := nextpid s\<rparr>) (s\<lparr>nextpid := nextpid s + 1\<rparr>)))
           (seqk (releasep PTABLE)
             (bindk (zoom_ck kalloc) (\<lambda>stack.
               seqk (modk (upd_proc i (\<lambda>p. p\<lparr>p_kstack := stack\<rparr>)))
                 (if stack = 0 then
                    seqk (modk (upd_proc i (\<lambda>p. p\<lparr>p_state := UNUSED\<rparr>))) (ret None)
                  else seqk (modk (cow_kstack_frame i stack)) (ret (Some i)))))) s)"

definition cow_make_runnable :: "nat \<Rightarrow> (cst, unit) kern" where
  "cow_make_runnable i = seqk (acquirep PTABLE)
     (seqk (modk (upd_proc i (\<lambda>p. p\<lparr>p_state := RUNNABLE\<rparr>))) (releasep PTABLE))"

text \<open>The fields of the trap frame at their offsets; segment registers have 16 bits.\<close>

definition user_frame :: "u32 \<Rightarrow> memory \<Rightarrow> memory" where
  "user_frame tf m =
     (let m1 = memset m tf 0 SIZEOF_TRAPFRAME;
          m2 = store16 m1 (tf + 60) 0x1B;
          m3 = store16 m2 (tf + 44) 0x23;
          m4 = store16 m3 (tf + 40) 0x23;
          m5 = store16 m4 (tf + 72) 0x23;
          m6 = store32 m5 (tf + 64) 0x200;
          m7 = store32 m6 (tf + 68) PGSIZE in
      store32 m7 (tf + 56) 0)"

definition initcode_name :: bytes where
  "initcode_name = (\<lambda>k. if k < 8 then [105, 110, 105, 116, 99, 111, 100, 101] ! k else 0)"

definition cow_userinit :: "(cst, unit) kern" where
  "cow_userinit = bindk cow_allocproc (\<lambda>np. case np of
     None \<Rightarrow> undefinedk ''userinit: null process''
   | Some i \<Rightarrow>
       seqk (modk (\<lambda>s. s\<lparr>initproc := Some i\<rparr>))
         (bindk (zoom_ck setupkvm) (\<lambda>d.
            seqk (modk (upd_proc i (\<lambda>p. p\<lparr>p_pgdir := d\<rparr>)))
              (if d = 0 then panic ''userinit: out of memory?''
               else (\<lambda>s.
                 seqk (zoom_ck (inituvm d (initcode_start s) (initcode_size s)))
                   (seqk (modk (upd_proc i (\<lambda>p. p\<lparr>p_sz := PGSIZE\<rparr>)))
                     (seqk (modk (set_mem (user_frame (p_tf (ptable s ! i)))))
                       (seqk (modk (upd_proc i (\<lambda>p. p\<lparr>p_name := safestrcpy (p_name p) initcode_name 16\<rparr>)))
                         (bindk (zoom_fs i (namei [47])) (\<lambda>c.
                            seqk (modk (upd_proc i (\<lambda>p. p\<lparr>p_cwd := c\<rparr>))) (cow_make_runnable i)))))) s)))))"

section \<open>Memory\<close>

definition cow_switchuvm :: "nat \<Rightarrow> (cst, unit) kern" where
  "cow_switchuvm i = (\<lambda>s.
     if p_kstack (ptable s ! i) = 0 then Panic ''switchuvm: no kstack''
     else if p_pgdir (ptable s ! i) = 0 then Panic ''switchuvm: no pgdir''
     else zoom_ck (lcr3 (V2P (p_pgdir (ptable s ! i)))) s)"

definition cow_growproc :: "u32 \<Rightarrow> (cst, u32) kern" where
  "cow_growproc n = bindk myproc (\<lambda>i s.
     let p = ptable s ! i; sz = p_sz p in
     bindk (if 0 <s n then zoom_ck (allocuvm (p_pgdir p) sz (sz + n))
            else if n <s 0 then zoom_ck (deallocuvm (p_pgdir p) sz (sz + n))
            else ret sz) (\<lambda>sz'.
       if n \<noteq> 0 \<and> sz' = 0 then ret (-1)
       else seqk (modk (upd_proc i (\<lambda>p. p\<lparr>p_sz := sz'\<rparr>))) (seqk (cow_switchuvm i) (ret 0))) s)"

section \<open>Fork\<close>

definition TF_EAX :: u32 where "TF_EAX = 28"

text \<open>The loop that shares the open files, over the descriptors given.\<close>

fun fork_files :: "nat \<Rightarrow> nat \<Rightarrow> nat list \<Rightarrow> (cst, unit) kern" where
  "fork_files i j [] = ret ()"
| "fork_files i j (fd # fds) = (\<lambda>s. case p_ofile (ptable s ! i) ! fd of
     None \<Rightarrow> fork_files i j fds s
   | Some f \<Rightarrow> bindk (zoom_fs i (filedup f)) (\<lambda>g.
       seqk (modk (upd_proc j (\<lambda>p. p\<lparr>p_ofile := (p_ofile p)[fd := Some g]\<rparr>))) (fork_files i j fds)) s)"

definition fork_cwd :: "nat \<Rightarrow> nat \<Rightarrow> (cst, unit) kern" where
  "fork_cwd i j = (\<lambda>s. case p_cwd (ptable s ! i) of
     None \<Rightarrow> Undefined ''idup: null inode''
   | Some c \<Rightarrow> bindk (zoom_fs i (idup c)) (\<lambda>c'. modk (upd_proc j (\<lambda>p. p\<lparr>p_cwd := Some c'\<rparr>))) s)"

definition fork_child :: "nat \<Rightarrow> nat \<Rightarrow> cst \<Rightarrow> cst" where
  "fork_child i j s =
     (let cur = ptable s ! i; tf = p_tf (ptable s ! j) in
      set_mem (\<lambda>m. store32 (memmove m tf (p_tf cur) SIZEOF_TRAPFRAME) (tf + TF_EAX) 0)
        (upd_proc j (\<lambda>p. p\<lparr>p_sz := p_sz cur, p_parent := Some i\<rparr>) s))"

definition fork_finish :: "nat \<Rightarrow> nat \<Rightarrow> (cst, u32) kern" where
  "fork_finish i j =
     seqk (modk (fork_child i j))
       (seqk (fork_files i j [0 ..< NOFILE])
         (seqk (fork_cwd i j)
           (seqk (modk (\<lambda>s. upd_proc j (\<lambda>p. p\<lparr>p_name := safestrcpy (p_name p) (p_name (ptable s ! i)) 16\<rparr>) s))
             (bindk (getk (\<lambda>s. p_pid (ptable s ! j))) (\<lambda>pid. seqk (cow_make_runnable j) (ret pid))))))"

definition fork_undo :: "nat \<Rightarrow> u32 \<Rightarrow> (cst, u32) kern" where
  "fork_undo j stack = seqk (zoom_ck (kfree stack))
     (seqk (modk (upd_proc j (\<lambda>p. p\<lparr>p_kstack := 0, p_state := UNUSED\<rparr>))) (ret (-1)))"

definition fork_into :: "nat \<Rightarrow> nat \<Rightarrow> (cst, u32) kern" where
  "fork_into i j = (\<lambda>s.
     bindk (zoom_ck (copyuvm (p_pgdir (ptable s ! i)) (p_sz (ptable s ! i)))) (\<lambda>d.
       seqk (modk (upd_proc j (\<lambda>p. p\<lparr>p_pgdir := d\<rparr>)))
         (if d = 0 then fork_undo j (p_kstack (ptable s ! j)) else fork_finish i j)) s)"

definition cow_fork :: "(cst, u32) kern" where
  "cow_fork = bindk myproc (\<lambda>i. bindk cow_allocproc (\<lambda>np. case np of
     None \<Rightarrow> ret (-1)
   | Some j \<Rightarrow> fork_into i j))"

section \<open>Exit and wait\<close>

fun exit_files :: "nat \<Rightarrow> nat list \<Rightarrow> (cst, unit) kern" where
  "exit_files i [] = ret ()"
| "exit_files i (fd # fds) = (\<lambda>s. case p_ofile (ptable s ! i) ! fd of
     None \<Rightarrow> exit_files i fds s
   | Some f \<Rightarrow> seqk (zoom_fs i (fileclose f))
       (seqk (modk (upd_proc i (\<lambda>p. p\<lparr>p_ofile := (p_ofile p)[fd := None]\<rparr>))) (exit_files i fds)) s)"

definition exit_cwd :: "nat \<Rightarrow> (cst, unit) kern" where
  "exit_cwd i = (\<lambda>s. case p_cwd (ptable s ! i) of
     None \<Rightarrow> Undefined ''iput: null inode''
   | Some c \<Rightarrow> seqk (zoom_fs i (seqk begin_op (seqk (iput c) end_op)))
       (modk (upd_proc i (\<lambda>p. p\<lparr>p_cwd := None\<rparr>))) s)"

definition cow_exit_zombie :: "nat \<Rightarrow> (cst, bool) kern" where
  "cow_exit_zombie i = seqk (acquirep PTABLE) (\<lambda>s.
     seqk (wakeup1 (chan_of (p_parent (ptable s ! i))))
       (seqk (reparent i [0 ..< length (ptable s)])
         (seqk (modk (upd_proc i (\<lambda>p. p\<lparr>p_state := ZOMBIE\<rparr>))) sched_enter)) s)"

definition cow_exit :: "(cst, bool) kern" where
  "cow_exit = bindk myproc (\<lambda>i s.
     if initproc s = Some i then Panic ''init exiting''
     else seqk (exit_files i [0 ..< NOFILE]) (seqk (exit_cwd i) (cow_exit_zombie i)) s)"

text \<open>One scan of \<open>wait\<close> with the lock held: the result, or \<open>None\<close> to sleep and scan again.\<close>

definition cow_wait_scan :: "nat \<Rightarrow> (cst, u32 option) kern" where
  "cow_wait_scan i = (\<lambda>s. case scan_kids i 0 (ptable s) False of
      Zombie k \<Rightarrow>
        (let p = ptable s ! k in
         seqk (zoom_ck (kfree (p_kstack p)))
           (seqk (zoom_ck (freevm (p_pgdir p)))
             (seqk (modk (upd_proc k reaped)) (seqk (releasep PTABLE) (ret (Some (p_pid p)))))) s)
    | HasKids \<Rightarrow> if p_killed (ptable s ! i) then seqk (releasep PTABLE) (ret (Some (-1))) s
                else Ok (None, s)
    | NoKids \<Rightarrow> seqk (releasep PTABLE) (ret (Some (-1))) s)"

text \<open>From a call or a wake-up to the return (\<open>Inl\<close>) or the next switch to the scheduler (\<open>Inr\<close>).\<close>

definition wait_or_sleep :: "nat \<Rightarrow> (cst, u32 + bool) kern" where
  "wait_or_sleep i = bindk (cow_wait_scan i) (\<lambda>r. case r of
     Some pid \<Rightarrow> ret (Inl pid)
   | None \<Rightarrow> bindk (sleep_enter (ChanProc i) PTABLE) (\<lambda>b. ret (Inr b)))"

definition cow_wait :: "(cst, u32 + bool) kern" where
  "cow_wait = bindk myproc (\<lambda>i. seqk (acquirep PTABLE) (wait_or_sleep i))"

definition cow_wait_again :: "bool \<Rightarrow> (cst, u32 + bool) kern" where
  "cow_wait_again b = seqk (sleep_exit b PTABLE) (bindk myproc wait_or_sleep)"

section \<open>The scheduler\<close>

text \<open>The loop over the table from index \<open>k\<close> on, to the next switch (the process) or the end of the round.\<close>

definition cow_sched_from :: "nat \<Rightarrow> (cst, nat option) kern" where
  "cow_sched_from k = (\<lambda>s. case find_index_from k (\<lambda>p. p_state p = RUNNABLE) (drop k (ptable s)) of
     None \<Rightarrow> seqk (releasep PTABLE) (ret None) s
   | Some i \<Rightarrow>
       seqk (modk (\<lambda>s. s\<lparr>cproc := Some i\<rparr>))
         (seqk (cow_switchuvm i)
           (seqk (modk (upd_proc i (\<lambda>p. p\<lparr>p_state := RUNNING\<rparr>))) (ret (Some i)))) s)"

definition cow_sched_top :: "(cst, nat option) kern" where
  "cow_sched_top = seqk (acquirep PTABLE) (cow_sched_from 0)"

definition cow_sched_back :: "nat \<Rightarrow> (cst, nat option) kern" where
  "cow_sched_back i = seqk (zoom_ck switchkvm) (seqk (modk (\<lambda>s. s\<lparr>cproc := None\<rparr>)) (cow_sched_from (Suc i)))"

definition cow_forkret :: "(cst, unit) kern" where
  "cow_forkret = seqk (releasep PTABLE) (bindk myproc (\<lambda>i s.
     if first s then
       seqk (modk (\<lambda>s. s\<lparr>first := False\<rparr>)) (zoom_fs i (seqk (iinit ROOTDEV) (initlog ROOTDEV))) s
     else Ok ((), s)))"

end
