(* ===== verification/Cow_Trap.thy ===== *)
theory Cow_Trap
  imports Cow_Proc
begin

text \<open>
  Traps and the system calls on processes (\<open>trap.c\<close>, \<open>syscall.c\<close>, \<open>sysproc.c\<close> of \<open>xv6-cow_patch\<close>).  The device drivers and the table of
  system calls are parameters.  A trap either returns to the interrupted code, or it ends or suspends the process, which
  is then at a switch to the scheduler.  The calls that both kernels share work on any state with a process table.
\<close>

section \<open>System calls\<close>

definition NSYSCALL :: nat where "NSYSCALL = 23"

definition cow_syscall :: "(nat \<Rightarrow> (cst, u32) kern option) \<Rightarrow> (cst, unit) kern" where
  "cow_syscall calls = bindk myproc (\<lambda>i s.
     let eax = p_tf (ptable s ! i) + TF_EAX; num = load32 (mem (ck s)) eax in
     if 0 <s num \<and> unat num < NSYSCALL \<and> calls (unat num) \<noteq> None
     then bindk (the (calls (unat num))) (\<lambda>r. modk (set_mem (\<lambda>m. store32 m eax r))) s
     else modk (set_mem (\<lambda>m. store32 m eax (-1))) s)"

definition sys_getpid :: "('a, 'x, u32) pkern" where
  "sys_getpid = bindk myproc (\<lambda>i. getk (\<lambda>s. p_pid (ptable s ! i)))"

definition sys_getfreepages :: "(cst, u32) kern" where
  "sys_getfreepages = zoom_ck num_of_FreePages"

text \<open>The argument is the result of \<open>argint\<close>.\<close>

definition sys_kill :: "u32 option \<Rightarrow> ('a, 'x, int) pkern" where
  "sys_kill arg = (case arg of None \<Rightarrow> ret (-1) | Some pid \<Rightarrow> kill pid)"

definition sys_sbrk :: "u32 option \<Rightarrow> (cst, u32) kern" where
  "sys_sbrk arg = (case arg of
     None \<Rightarrow> ret (-1)
   | Some n \<Rightarrow> bindk myproc (\<lambda>i. bindk (getk (\<lambda>s. p_sz (ptable s ! i))) (\<lambda>addr.
       bindk (cow_growproc n) (\<lambda>r. ret (if r <s 0 then -1 else addr)))))"

text \<open>\<open>sys_sleep\<close> from its loop condition to the return (\<open>Inl\<close>) or the switch to the scheduler (\<open>Inr\<close>).\<close>

definition sleep_check :: "u32 \<Rightarrow> u32 \<Rightarrow> ('a, 'x, int + bool) pkern" where
  "sleep_check ticks0 n = bindk myproc (\<lambda>i s.
     if ticks s - ticks0 < n then
       if p_killed (ptable s ! i) then seqk (releasep TICKSLOCK) (ret (Inl (-1))) s
       else bindk (sleep_enter ChanTicks TICKSLOCK) (\<lambda>b. ret (Inr b)) s
     else seqk (releasep TICKSLOCK) (ret (Inl 0)) s)"

definition sys_sleep :: "u32 option \<Rightarrow> ('a, 'x, int + bool) pkern" where
  "sys_sleep arg = (case arg of
     None \<Rightarrow> ret (Inl (-1))
   | Some n \<Rightarrow> seqk (acquirep TICKSLOCK) (\<lambda>s. sleep_check (ticks s) n s))"

definition sys_sleep_again :: "bool \<Rightarrow> u32 \<Rightarrow> u32 \<Rightarrow> ('a, 'x, int + bool) pkern" where
  "sys_sleep_again b ticks0 n = seqk (sleep_exit b TICKSLOCK) (sleep_check ticks0 n)"

definition sys_uptime :: "('a, 'x, u32) pkern" where
  "sys_uptime = seqk (acquirep TICKSLOCK) (bindk (getk ticks) (\<lambda>x. seqk (releasep TICKSLOCK) (ret x)))"

section \<open>Traps\<close>

datatype trap_end = Returns | Exits bool | Yields bool

definition T_SYSCALL :: u32 where "T_SYSCALL = 64"
definition T_PGFLT :: u32 where "T_PGFLT = 14"
definition T_IRQ0 :: u32 where "T_IRQ0 = 32"

definition set_killed :: "nat \<Rightarrow> (cst, unit) kern" where
  "set_killed i = modk (upd_proc i (\<lambda>p. p\<lparr>p_killed := True\<rparr>))"

definition page_fault :: "u32 \<Rightarrow> (cst, unit) kern" where
  "page_fault cr2 = bindk myproc (\<lambda>i s.
     bindk (zoom_ck (COW_FAULT (p_pgdir (ptable s ! i)) cr2)) (\<lambda>oom. whenk oom (set_killed i)) s)"

text \<open>\<open>cpu\<close> is the result of \<open>cpuid\<close>, the CPU that takes the interrupt: the first one counts the ticks.\<close>

definition cow_tick :: "(cst, unit) kern" where
  "cow_tick = seqk (acquirep TICKSLOCK)
     (seqk (modk (\<lambda>s. s\<lparr>ticks := ticks s + 1\<rparr>)) (seqk (wakeup ChanTicks) (releasep TICKSLOCK)))"

definition cow_timer :: "nat \<Rightarrow> (cst, unit) kern" where
  "cow_timer cpu = whenk (cpu = 0) cow_tick"

definition cur_killed :: "cst \<Rightarrow> bool" where
  "cur_killed s \<longleftrightarrow> (case cproc s of None \<Rightarrow> False | Some i \<Rightarrow> p_killed (ptable s ! i))"

definition exit_now :: "(cst, trap_end) kern" where
  "exit_now = bindk cow_exit (\<lambda>b. ret (Exits b))"

definition trap_cause :: "nat \<Rightarrow> (u32 \<Rightarrow> (cst, unit) kern) \<Rightarrow> u32 \<Rightarrow> u32 \<Rightarrow> u32 \<Rightarrow> (cst, unit) kern" where
  "trap_cause cpu dev trapno cs cr2 =
     (if trapno = T_PGFLT then page_fault cr2
      else if trapno = T_IRQ0 then cow_timer cpu
      else if trapno = T_IRQ0 + 14 \<or> trapno = T_IRQ0 + 1 \<or> trapno = T_IRQ0 + 4 then dev trapno
      else if trapno = T_IRQ0 + 15 \<or> trapno = T_IRQ0 + 7 \<or> trapno = T_IRQ0 + 31 then ret ()
      else (\<lambda>s. case cproc s of
          None \<Rightarrow> Panic ''trap''
        | Some i \<Rightarrow> if cs AND 3 = 0 then Panic ''trap'' else set_killed i s))"

definition trap :: "nat \<Rightarrow> (cst, unit) kern \<Rightarrow> (u32 \<Rightarrow> (cst, unit) kern) \<Rightarrow> u32 \<Rightarrow> u32 \<Rightarrow> u32 \<Rightarrow> u32 \<Rightarrow> (cst, trap_end) kern" where
  "trap cpu sysc dev tf trapno cs cr2 =
     (if trapno = T_SYSCALL then bindk myproc (\<lambda>i s.
        if p_killed (ptable s ! i) then exit_now s
        else seqk (modk (upd_proc i (\<lambda>p. p\<lparr>p_tf := tf\<rparr>))) (seqk sysc (\<lambda>s.
               if cur_killed s then exit_now s else Ok (Returns, s))) s)
      else seqk (trap_cause cpu dev trapno cs cr2) (\<lambda>s.
        if cur_killed s \<and> cs AND 3 = 3 then exit_now s
        else case cproc s of
          Some i \<Rightarrow> if p_state (ptable s ! i) = RUNNING \<and> trapno = T_IRQ0
                    then bindk yield_enter (\<lambda>b. ret (Yields b)) s else Ok (Returns, s)
        | None \<Rightarrow> Ok (Returns, s)))"

text \<open>The end of \<open>trap\<close> after the process has been switched back to.\<close>

definition trap_again :: "bool \<Rightarrow> u32 \<Rightarrow> (cst, trap_end) kern" where
  "trap_again b cs = seqk (yield_exit b) (\<lambda>s. if cur_killed s \<and> cs AND 3 = 3 then exit_now s else Ok (Returns, s))"

end
