(* ===== verification/Cow_Tree.thy ===== *)
theory Cow_Tree
  imports Cow_Trap
begin

text \<open>
  The family tree of the processes of the copy-on-write kernel.  Only the state and the parent of a process matter for it: the
  \<open>shape\<close> of the process table.  Most operations keep the shape; \<open>fork\<close> adds a child, \<open>exit\<close> makes a zombie and passes its children
  on, \<open>wait\<close> removes a zombie.  The invariant \<open>tree\<close> says that every process has a parent that can still
  wait for it.
\<close>

section \<open>Shapes\<close>

type_synonym pshape = "procstate \<times> nat option"

definition shape :: "'a proc_scheme \<Rightarrow> pshape" where
  "shape p = (p_state p, p_parent p)"

definition sh :: "cst \<Rightarrow> pshape list \<times> nat option" where
  "sh s = (map shape (ptable s), initproc s)"

definition live :: "procstate \<Rightarrow> bool" where
  "live st \<longleftrightarrow> st \<in> {SLEEPING, RUNNABLE, RUNNING}"

definition vacant :: "procstate \<Rightarrow> bool" where
  "vacant st \<longleftrightarrow> st \<in> {UNUSED, EMBRYO}"

definition tree :: "pshape list \<times> nat option \<Rightarrow> bool" where
  "tree x \<longleftrightarrow> (case x of (ps, z) \<Rightarrow>
     (\<exists>i. z = Some i \<and> i < length ps \<and> live (fst (ps ! i))) \<and>
     (\<forall>k < length ps.
        (vacant (fst (ps ! k)) \<longrightarrow> snd (ps ! k) = None) \<and>
        (\<not> vacant (fst (ps ! k)) \<longrightarrow> Some k \<noteq> z \<longrightarrow>
           (\<exists>j. snd (ps ! k) = Some j \<and> j < length ps \<and> live (fst (ps ! j))))))"

lemma treeD:
  assumes "tree (ps, z)"
  obtains i where "z = Some i" "i < length ps" "live (fst (ps ! i))"
  using assms by (auto simp: tree_def)

lemma tree_vacant: "tree (ps, z) \<Longrightarrow> k < length ps \<Longrightarrow> vacant (fst (ps ! k)) \<Longrightarrow> snd (ps ! k) = None"
  by (simp add: tree_def)

lemma tree_parent:
  assumes "tree (ps, z)" "k < length ps" "\<not> vacant (fst (ps ! k))" "Some k \<noteq> z"
  obtains j where "snd (ps ! k) = Some j" "j < length ps" "live (fst (ps ! j))"
  using assms by (auto simp: tree_def)

section \<open>Operations that keep the shape\<close>

named_theorems keep \<open>operations that keep the shape\<close>

definition keeps :: "(cst, 'a) kern \<Rightarrow> bool" where
  "keeps m \<longleftrightarrow> (\<forall>s x t. m s = Ok (x, t) \<longrightarrow> sh t = sh s)"

lemma keepsI: "(\<And>s x t. m s = Ok (x, t) \<Longrightarrow> sh t = sh s) \<Longrightarrow> keeps m"
  unfolding keeps_def by blast

lemma keepsD: "keeps m \<Longrightarrow> m s = Ok (x, t) \<Longrightarrow> sh t = sh s"
  unfolding keeps_def by blast

lemma keeps_ret [keep]: "keeps (ret x)" by (rule keepsI) (simp add: kern_defs)
lemma keeps_panic [keep]: "keeps (panic x)" by (rule keepsI) (simp add: kern_defs)
lemma keeps_undefined [keep]: "keeps (undefinedk x)" by (rule keepsI) (simp add: kern_defs)
lemma keeps_get [keep]: "keeps (getk f)" by (rule keepsI) (simp add: kern_defs)

lemma keeps_bind [keep]: "keeps m \<Longrightarrow> (\<And>x. keeps (f x)) \<Longrightarrow> keeps (bindk m f)"
  unfolding keeps_def by (metis bindk_OkE)

lemma keeps_seq [keep]: "keeps m \<Longrightarrow> keeps n \<Longrightarrow> keeps (seqk m n)"
  unfolding seqk_def by (intro keep)

lemma keeps_when [keep]: "keeps m \<Longrightarrow> keeps (whenk b m)"
  by (simp add: whenk_def keeps_ret)

lemma keeps_if [keep]: "keeps m \<Longrightarrow> keeps n \<Longrightarrow> keeps (if b then m else n)"
  by simp

lemma keeps_at: "(\<And>s. keeps (f s)) \<Longrightarrow> m = (\<lambda>s. f s s) \<Longrightarrow> keeps m"
  unfolding keeps_def by simp

lemma keeps_mod: "(\<And>s. sh (f s) = sh s) \<Longrightarrow> keeps (modk f)"
  by (rule keepsI) (auto simp: kern_defs)

lemma keeps_zoom_ck [keep]: "keeps (zoom_ck m)"
  by (rule keepsI) (auto simp: zoom_ck_def zoomk_def sh_def split: outcome.splits)

lemma keeps_zoom_fs [keep]: "keeps (zoom_fs i m)"
  by (rule keepsI) (auto simp: zoom_fs_def zoomk_def sh_def split: outcome.splits)

lemma keeps_lock [keep]: "keeps (acquirep l)" "keeps (releasep l)"
  by (rule keepsI; auto simp: acquirep_def releasep_def zoomk_def sh_def split: outcome.splits)+

lemma keeps_myproc [keep]: "keeps myproc"
  by (rule keepsI) (auto simp: myproc_def split: option.splits)

lemma sh_set_mem [simp]: "sh (set_mem f s) = sh s"
  by (simp add: sh_def set_mem_def)

lemma keeps_set_mem [keep]: "keeps (modk (set_mem f))"
  by (rule keeps_mod) simp

lemma sh_upd: "shape (f (ptable s ! i)) = shape (ptable s ! i) \<Longrightarrow> sh (upd_proc i f s) = sh s"
  by (cases "i < length (ptable s)") (simp_all add: sh_def map_update list_update_same_conv list_update_beyond)

lemma keeps_upd: "(\<And>p. shape (f p) = shape p) \<Longrightarrow> keeps (modk (upd_proc i f))"
  by (rule keeps_mod) (simp add: sh_upd)

lemma keeps_upds [keep]:
  "keeps (modk (upd_proc i (\<lambda>p. p\<lparr>p_kstack := x1\<rparr>)))" "keeps (modk (upd_proc i (\<lambda>p. p\<lparr>p_pgdir := x1\<rparr>)))"
  "keeps (modk (upd_proc i (\<lambda>p. p\<lparr>p_sz := x1\<rparr>)))" "keeps (modk (upd_proc i (\<lambda>p. p\<lparr>p_cwd := x2\<rparr>)))"
  "keeps (modk (upd_proc i (\<lambda>p. p\<lparr>p_ofile := f3 (p_ofile p)\<rparr>)))" "keeps (modk (upd_proc i (\<lambda>p. p\<lparr>p_name := f4 (p_name p)\<rparr>)))"
  "keeps (modk (upd_proc i (\<lambda>p. p\<lparr>p_chan := x5\<rparr>)))" "keeps (modk (upd_proc i (\<lambda>p. p\<lparr>p_killed := x6\<rparr>)))"
  "keeps (modk (upd_proc i (\<lambda>p. p\<lparr>p_tf := x1\<rparr>)))"
  by (rule keeps_upd; simp add: shape_def)+

lemma keeps_name [keep]: "keeps (modk (\<lambda>s. upd_proc j (\<lambda>p. p\<lparr>p_name := safestrcpy (p_name p) (g s) 16\<rparr>) s))"
  by (rule keeps_mod) (simp add: sh_upd shape_def)

lemma keeps_cproc [keep]: "keeps (modk (\<lambda>s. s\<lparr>cproc := c\<rparr>))" "keeps (modk (\<lambda>s. s\<lparr>ticks := ticks s + 1\<rparr>))"
  by (rule keeps_mod; simp add: sh_def)+

lemma keeps_sched [keep]: "keeps sched_enter" "keeps (sched_exit b)"
  unfolding sched_enter_def sched_exit_def
  by (rule keeps_bind [OF keeps_myproc], rule keepsI, simp split: if_splits) (rule keeps_mod, simp add: sh_def)

lemma keeps_switch [keep]: "keeps (cow_switchuvm i)"
  by (rule keepsI) (auto simp: cow_switchuvm_def split: if_splits dest: keepsD [OF keeps_zoom_ck])

lemma keeps_fork_files [keep]: "keeps (fork_files i j fds)"
proof (induction fds)
  case (Cons fd fds)
  show ?case
    by (rule keepsI) (auto split: option.splits elim!: bindk_OkE simp: seqk_def
      dest!: keepsD [OF Cons] keepsD [OF keeps_zoom_fs] keepsD [OF keeps_upds(5)])
qed (simp add: keep)

lemma keeps_exit_files [keep]: "keeps (exit_files i fds)"
proof (induction fds)
  case (Cons fd fds)
  show ?case
    by (rule keepsI) (auto split: option.splits elim!: bindk_OkE simp: seqk_def
      dest!: keepsD [OF Cons] keepsD [OF keeps_zoom_fs] keepsD [OF keeps_upds(5)])
qed (simp add: keep)

lemma keeps_cwd [keep]: "keeps (fork_cwd i j)" "keeps (exit_cwd i)"
  unfolding fork_cwd_def exit_cwd_def
  by (rule keepsI; auto split: option.splits elim!: bindk_OkE simp: seqk_def
      dest!: keepsD [OF keeps_zoom_fs] keepsD [OF keeps_upds(4)])+

lemma keeps_growproc [keep]: "keeps (cow_growproc n)"
proof -
  have "keeps (\<lambda>s. let p = ptable s ! i; sz = p_sz p in
     bindk (if 0 <s n then zoom_ck (allocuvm (p_pgdir p) sz (sz + n))
            else if n <s 0 then zoom_ck (deallocuvm (p_pgdir p) sz (sz + n))
            else ret sz) (\<lambda>sz'.
       if n \<noteq> 0 \<and> sz' = 0 then ret (-1)
       else seqk (modk (upd_proc i (\<lambda>p. p\<lparr>p_sz := sz'\<rparr>))) (seqk (cow_switchuvm i) (ret 0))) s)" for i
    unfolding Let_def by (rule keeps_at [rotated], rule refl) (intro keep)
  then show ?thesis unfolding cow_growproc_def by (intro keep)
qed

section \<open>Fork\<close>

definition child_at :: "nat \<Rightarrow> pshape \<Rightarrow> pshape list \<times> nat option \<Rightarrow> pshape list \<times> nat option" where
  "child_at j c x = ((fst x)[j := c], snd x)"

lemma sh_upd_proc: "sh (upd_proc j f s) = child_at j (shape (f (ptable s ! j))) (sh s)"
  by (simp add: sh_def child_at_def map_update)

lemma child_at_twice [simp]: "child_at j d (child_at j c x) = child_at j d x"
  by (simp add: child_at_def)

lemma child_at_self: "j < length (fst x) \<Longrightarrow> fst x ! j = c \<Longrightarrow> child_at j c x = x"
  by (cases x) (auto simp: child_at_def)

lemma sh_nth: "j < length (ptable s) \<Longrightarrow> fst (sh s) ! j = shape (ptable s ! j)"
  by (simp add: sh_def)

lemma sh_length [simp]: "length (fst (sh s)) = length (ptable s)"
  by (simp add: sh_def)

lemma lock_same:
  "acquirep l s = Ok (x, t) \<Longrightarrow> ptable t = ptable s \<and> cproc t = cproc s \<and> initproc t = initproc s \<and> sh t = sh s"
  "releasep l s = Ok (x, t) \<Longrightarrow> ptable t = ptable s \<and> cproc t = cproc s \<and> initproc t = initproc s \<and> sh t = sh s"
  by (auto simp: acquirep_def releasep_def zoomk_def sh_def split: outcome.splits)

lemma same_sh_length: "sh t = sh s \<Longrightarrow> length (ptable t) = length (ptable s)"
  by (metis sh_length)

lemma sh_kstack_frame: "sh (cow_kstack_frame i x s) = sh s"
  unfolding cow_kstack_frame_def Let_def by (subst sh_upd) (simp_all add: shape_def)

lemma keeps_kstack_frame [keep]: "keeps (modk (cow_kstack_frame i x))"
  by (rule keeps_mod) (rule sh_kstack_frame)

lemma allocproc_sh:
  assumes "cow_allocproc s = Ok (r, t)"
  shows "case r of None \<Rightarrow> sh t = sh s
    | Some j \<Rightarrow> j < length (ptable s) \<and> p_state (ptable s ! j) = UNUSED \<and>
        sh t = child_at j (EMBRYO, p_parent (ptable s ! j)) (sh s)"
proof -
  obtain s1 where s1: "acquirep PTABLE s = Ok ((), s1)" and rest: "(case find_index (\<lambda>p. p_state p = UNUSED) (ptable s1) of
       None \<Rightarrow> seqk (releasep PTABLE) (ret None) s1
     | Some i \<Rightarrow>
         seqk (modk (\<lambda>s. upd_proc i (\<lambda>p. p\<lparr>p_state := EMBRYO, p_pid := nextpid s\<rparr>) (s\<lparr>nextpid := nextpid s + 1\<rparr>)))
           (seqk (releasep PTABLE)
             (bindk (zoom_ck kalloc) (\<lambda>stack.
               seqk (modk (upd_proc i (\<lambda>p. p\<lparr>p_kstack := stack\<rparr>)))
                 (if stack = 0 then
                    seqk (modk (upd_proc i (\<lambda>p. p\<lparr>p_state := UNUSED\<rparr>))) (ret None)
                  else seqk (modk (cow_kstack_frame i stack)) (ret (Some i)))))) s1) = Ok (r, t)"
    using assms unfolding cow_allocproc_def seqk_def by (auto elim!: bindk_OkE)
  have same: "ptable s1 = ptable s" "sh s1 = sh s" using lock_same(1) [OF s1] by auto
  show ?thesis
  proof (cases "find_index (\<lambda>p. p_state p = UNUSED) (ptable s1)")
    case None
    then have "seqk (releasep PTABLE) (ret None) s1 = Ok (r, t)" using rest by simp
    then have "r = None" "sh t = sh s1" by (auto simp: seqk_def kern_defs elim!: bindk_OkE dest: lock_same(2) split: outcome.splits)
    then show ?thesis using same by simp
  next
    case (Some j)
    have j: "j < length (ptable s)" "p_state (ptable s ! j) = UNUSED" using Some same by (auto simp: find_index_Some)
    let ?s2 = "upd_proc j (\<lambda>p. p\<lparr>p_state := EMBRYO, p_pid := nextpid s1\<rparr>) (s1\<lparr>nextpid := nextpid s1 + 1\<rparr>)"
    have s2: "sh ?s2 = child_at j (EMBRYO, p_parent (ptable s ! j)) (sh s)"
      using same by (simp add: sh_upd_proc shape_def) (simp add: sh_def)
    from rest Some obtain s3 stack s4 where s3: "releasep PTABLE ?s2 = Ok ((), s3)" and s4: "zoom_ck kalloc s3 = Ok (stack, s4)"
      and last: "seqk (modk (upd_proc j (\<lambda>p. p\<lparr>p_kstack := stack\<rparr>)))
                 (if stack = 0 then
                    seqk (modk (upd_proc j (\<lambda>p. p\<lparr>p_state := UNUSED\<rparr>))) (ret None)
                  else seqk (modk (cow_kstack_frame j stack)) (ret (Some j))) s4 = Ok (r, t)"
      by (simp add: seqk_def modk_def bindk_Ok) (auto elim!: bindk_OkE)
    let ?s5 = "upd_proc j (\<lambda>p. p\<lparr>p_kstack := stack\<rparr>) s4"
    have "sh s4 = sh ?s2" using lock_same(2) [OF s3] keepsD [OF keeps_zoom_ck s4] by simp
    then have s5: "sh ?s5 = child_at j (EMBRYO, p_parent (ptable s ! j)) (sh s)" using s2 by (simp add: sh_upd shape_def)
    have len: "length (ptable ?s5) = length (ptable s)"
      using arg_cong [OF s5, of "\<lambda>x. length (fst x)"] by (simp add: child_at_def)
    have par: "p_parent (ptable ?s5 ! j) = p_parent (ptable s ! j)"
      using sh_nth [of j ?s5] s5 j(1) len by (simp add: child_at_def shape_def)
    show ?thesis
    proof (cases "stack = 0")
      case True
      then have r: "r = None" "t = upd_proc j (\<lambda>p. p\<lparr>p_state := UNUSED\<rparr>) ?s5" using last by (auto simp: kern_defs)
      have "sh t = child_at j (shape ((ptable ?s5 ! j)\<lparr>p_state := UNUSED\<rparr>)) (sh ?s5)" unfolding r(2) by (rule sh_upd_proc)
      also have "\<dots> = child_at j (UNUSED, p_parent (ptable s ! j)) (sh s)" unfolding s5 using par by (simp add: shape_def)
      also have "\<dots> = sh s" using j by (intro child_at_self) (simp_all add: sh_nth shape_def)
      finally show ?thesis using r by simp
    next
      case False
      then have r: "r = Some j" "t = cow_kstack_frame j stack ?s5" using last by (auto simp: kern_defs)
      then show ?thesis using s5 j by (simp add: sh_kstack_frame)
    qed
  qed
qed

lemma keeps_bindE:
  assumes "bindk m f s = Ok (r, t)" "keeps m"
  obtains x u where "sh u = sh s" "f x u = Ok (r, t)" "m s = Ok (x, u)"
  using assms by (metis bindk_OkE keepsD)

lemma keeps_seqE:
  assumes "seqk m n s = Ok (r, t)" "keeps m"
  obtains u where "sh u = sh s" "n u = Ok (r, t)"
  using assms unfolding seqk_def by (metis keeps_bindE)

lemma seq_modE: "seqk (modk f) n s = Ok (r, t) \<Longrightarrow> n (f s) = Ok (r, t)"
  by (simp add: kern_simps)

lemma make_runnable_sh:
  assumes "cow_make_runnable j s = Ok (x, t)" "j < length (ptable s)"
  shows "sh t = child_at j (RUNNABLE, p_parent (ptable s ! j)) (sh s)"
proof -
  obtain u where u: "acquirep PTABLE s = Ok ((), u)" "seqk (modk (upd_proc j (\<lambda>p. p\<lparr>p_state := RUNNABLE\<rparr>))) (releasep PTABLE) u = Ok (x, t)"
    using assms(1) unfolding cow_make_runnable_def seqk_def by (auto elim: bindk_OkE)
  then have "sh t = sh (upd_proc j (\<lambda>p. p\<lparr>p_state := RUNNABLE\<rparr>) u)" by (auto dest!: seq_modE lock_same(2))
  then show ?thesis using lock_same(1) [OF u(1)] by (simp add: sh_upd_proc shape_def)
qed

lemma fork_finish_sh:
  assumes "fork_finish i j s = Ok (r, t)" "j < length (ptable s)"
  shows "sh t = child_at j (RUNNABLE, Some i) (sh s)"
proof -
  let ?s1 = "fork_child i j s"
  have s1: "sh ?s1 = child_at j (p_state (ptable s ! j), Some i) (sh s)"
    by (simp add: fork_child_def Let_def sh_upd_proc shape_def)
  note run = seq_modE [OF assms(1) [unfolded fork_finish_def]]
  obtain s2 where s2: "sh s2 = sh ?s1" and run2: "seqk (fork_cwd i j)
      (seqk (modk (\<lambda>s. upd_proc j (\<lambda>p. p\<lparr>p_name := safestrcpy (p_name p) (p_name (ptable s ! i)) 16\<rparr>) s))
        (bindk (getk (\<lambda>s. p_pid (ptable s ! j))) (\<lambda>pid. seqk (cow_make_runnable j) (ret pid)))) s2 = Ok (r, t)"
    by (rule keeps_seqE [OF run keeps_fork_files])
  obtain s3 where s3: "sh s3 = sh s2" and run3: "seqk (modk (\<lambda>s. upd_proc j (\<lambda>p. p\<lparr>p_name := safestrcpy (p_name p) (p_name (ptable s ! i)) 16\<rparr>) s))
        (bindk (getk (\<lambda>s. p_pid (ptable s ! j))) (\<lambda>pid. seqk (cow_make_runnable j) (ret pid))) s3 = Ok (r, t)"
    by (rule keeps_seqE [OF run2 keeps_cwd(1)])
  obtain s4 where s4: "sh s4 = sh s3" and run4: "bindk (getk (\<lambda>s. p_pid (ptable s ! j))) (\<lambda>pid. seqk (cow_make_runnable j) (ret pid)) s4 = Ok (r, t)"
    by (rule keeps_seqE [OF run3 keeps_name])
  have run5: "cow_make_runnable j s4 = Ok ((), t)" using run4 by (auto simp: seqk_def kern_simps ret_def elim!: bindk_OkE)
  have sh4: "sh s4 = child_at j (p_state (ptable s ! j), Some i) (sh s)" using s1 s2 s3 s4 by simp
  have len: "j < length (ptable s4)" using arg_cong [OF sh4, of "\<lambda>x. length (fst x)"] assms(2) by (simp add: child_at_def)
  have "p_parent (ptable s4 ! j) = Some i" using sh_nth [OF len] sh4 assms(2) by (simp add: child_at_def shape_def)
  then show ?thesis using make_runnable_sh [OF run5 len] sh4 by simp
qed

lemma fork_into_sh:
  assumes run: "fork_into i j s1 = Ok (r, t)" and j: "j < length (fst x)" and s1: "sh s1 = child_at j (EMBRYO, q) x"
  shows "sh t = child_at j (UNUSED, q) x \<or> sh t = child_at j (RUNNABLE, Some i) x"
proof -
  obtain d s2 where s2: "sh s2 = sh s1" and run2: "seqk (modk (upd_proc j (\<lambda>p. p\<lparr>p_pgdir := d\<rparr>)))
      (if d = 0 then fork_undo j (p_kstack (ptable s1 ! j)) else fork_finish i j) s2 = Ok (r, t)"
    by (rule keeps_bindE [OF run [unfolded fork_into_def] keeps_zoom_ck])
  obtain s3 where s3: "sh s3 = sh s2" and run3: "(if d = 0 then fork_undo j (p_kstack (ptable s1 ! j)) else fork_finish i j) s3 = Ok (r, t)"
    by (rule keeps_seqE [OF run2 keeps_upds(2)])
  have sh3: "sh s3 = child_at j (EMBRYO, q) x" using s1 s2 s3 by simp
  have len: "j < length (ptable s3)" using arg_cong [OF sh3, of "\<lambda>x. length (fst x)"] j by (simp add: child_at_def)
  show ?thesis
  proof (cases "d = 0")
    case False
    then show ?thesis using fork_finish_sh [OF _ len] run3 sh3 by simp
  next
    case True
    then have undo: "fork_undo j (p_kstack (ptable s1 ! j)) s3 = Ok (r, t)" using run3 by simp
    obtain s4 where s4: "sh s4 = sh s3" and run4: "seqk (modk (upd_proc j (\<lambda>p. p\<lparr>p_kstack := 0, p_state := UNUSED\<rparr>))) (ret (-1)) s4 = Ok (r, t)"
      by (rule keeps_seqE [OF undo [unfolded fork_undo_def] keeps_zoom_ck])
    have len4: "j < length (ptable s4)" using len same_sh_length [OF s4] by simp
    have "p_parent (ptable s4 ! j) = q" using sh_nth [OF len4] s4 sh3 j by (simp add: child_at_def shape_def)
    then have "sh t = child_at j (UNUSED, q) x" using run4 s4 sh3 by (auto simp: kern_simps sh_upd_proc shape_def)
    then show ?thesis ..
  qed
qed

lemma fork_sh:
  assumes "cow_fork s = Ok (r, t)"
  shows "sh t = sh s \<or> (\<exists>i j. cproc s = Some i \<and> j < length (ptable s) \<and> p_state (ptable s ! j) = UNUSED \<and>
    sh t = child_at j (RUNNABLE, Some i) (sh s))"
proof (cases "cproc s")
  case None
  then show ?thesis using assms by (simp add: cow_fork_def myproc_def kern_simps)
next
  case (Some i)
  then obtain np s1 where a: "cow_allocproc s = Ok (np, s1)" and rest: "(case np of None \<Rightarrow> ret (-1) | Some j \<Rightarrow> fork_into i j) s1 = Ok (r, t)"
    using assms by (auto simp: cow_fork_def myproc_def kern_simps elim: bindk_OkE)
  show ?thesis
  proof (cases np)
    case None
    then show ?thesis using allocproc_sh [OF a] rest by (simp add: kern_simps)
  next
    case j: (Some j)
    have u: "j < length (ptable s)" "p_state (ptable s ! j) = UNUSED" and s1: "sh s1 = child_at j (EMBRYO, p_parent (ptable s ! j)) (sh s)"
      using allocproc_sh [OF a] j by auto
    have "child_at j (UNUSED, p_parent (ptable s ! j)) (sh s) = sh s" using u by (simp add: child_at_self sh_nth shape_def)
    then show ?thesis using fork_into_sh [OF _ _ s1] rest j Some u by auto
  qed
qed

lemma tree_fork:
  assumes t: "tree (ps, z)" and j: "j < length ps" "fst (ps ! j) = UNUSED" and i: "i < length ps" "live (fst (ps ! i))"
  shows "tree (child_at j (RUNNABLE, Some i) (ps, z))"
proof -
  have ij: "i \<noteq> j" using i j by (auto simp: live_def)
  obtain k where k: "z = Some k" "k < length ps" "live (fst (ps ! k))" using treeD [OF t] .
  have kj: "k \<noteq> j" using k j by (auto simp: live_def)
  have live': "live (fst (ps[j := (RUNNABLE, Some i)] ! m))" if "live (fst (ps ! m))" "m < length ps" for m
    using that j by (cases "m = j") (auto simp: live_def)
  have "\<exists>m. snd (ps[j := (RUNNABLE, Some i)] ! l) = Some m \<and> m < length ps \<and> live (fst (ps[j := (RUNNABLE, Some i)] ! m))"
    if l: "l < length ps" "\<not> vacant (fst (ps[j := (RUNNABLE, Some i)] ! l))" "Some l \<noteq> z" for l
  proof (cases "l = j")
    case True
    then show ?thesis using i ij j by (auto simp: nth_list_update)
  next
    case False
    then obtain m where "snd (ps ! l) = Some m" "m < length ps" "live (fst (ps ! m))" using tree_parent [OF t l(1)] l by auto
    then show ?thesis using False live' by auto
  qed
  moreover have "snd (ps[j := (RUNNABLE, Some i)] ! l) = None" if "l < length ps" "vacant (fst (ps[j := (RUNNABLE, Some i)] ! l))" for l
    using that tree_vacant [OF t] j by (cases "l = j") (auto simp: vacant_def)
  ultimately show ?thesis using k live' by (auto simp: tree_def child_at_def)
qed

section \<open>Changes that the tree does not notice\<close>

text \<open>The same parents, and the same processes alive and vacant.\<close>

definition alike :: "pshape \<Rightarrow> pshape \<Rightarrow> bool" where
  "alike a b \<longleftrightarrow> snd a = snd b \<and> live (fst a) = live (fst b) \<and> vacant (fst a) = vacant (fst b)"

definition similar :: "pshape list \<times> nat option \<Rightarrow> pshape list \<times> nat option \<Rightarrow> bool" where
  "similar x y \<longleftrightarrow> snd x = snd y \<and> length (fst x) = length (fst y) \<and> (\<forall>k < length (fst x). alike (fst x ! k) (fst y ! k))"

lemma similar_refl [simp]: "similar x x"
  by (simp add: similar_def alike_def)

lemma similar_trans: "similar x y \<Longrightarrow> similar y w \<Longrightarrow> similar x w"
  by (simp add: similar_def alike_def)

lemma similar_tree: "similar x y \<Longrightarrow> tree x \<Longrightarrow> tree y"
  by (cases x; cases y) (auto simp: similar_def alike_def tree_def; metis)

lemma alike_refl [simp]: "alike a a"
  by (simp add: alike_def)

lemma similar_child: "alike (fst x ! j) c \<Longrightarrow> similar x (child_at j c x)"
  by (cases "j < length (fst x)") (simp_all add: similar_def child_at_def nth_list_update list_update_beyond)

lemma similar_upd: "alike (shape (ptable s ! j)) (shape (f (ptable s ! j))) \<Longrightarrow> similar (sh s) (sh (upd_proc j f s))"
proof (cases "j < length (ptable s)")
  case True
  then show "alike (shape (ptable s ! j)) (shape (f (ptable s ! j))) \<Longrightarrow> ?thesis" by (simp add: sh_upd_proc similar_child sh_nth)
qed (simp add: sh_upd_proc child_at_def list_update_beyond)

lemma wake_alike: "alike (shape p) (shape (wake ch p))"
  by (auto simp: alike_def shape_def wake_def live_def vacant_def)

lemma wakeup1_similar: "wakeup1 ch s = Ok (x, t) \<Longrightarrow> similar (sh s) (sh t)"
  by (auto simp: wakeup1_def modk_def similar_def sh_def wake_alike)

lemma kill_similar:
  assumes "kill pid s = Ok (r, t)"
  shows "similar (sh s) (sh t)"
proof -
  obtain u where u: "sh u = sh s" and run: "(case find_index (\<lambda>p. p_pid p = pid) (ptable u) of
         Some i \<Rightarrow> seqk (modk (upd_proc i kill1)) (seqk (releasep PTABLE) (ret 0)) u
       | None \<Rightarrow> seqk (releasep PTABLE) (ret (-1)) u) = Ok (r, t)"
    by (rule keeps_seqE [OF assms [unfolded kill_def] keeps_lock(1)])
  have "alike (shape p) (shape (kill1 p))" for p :: proc
    by (auto simp: alike_def shape_def kill1_def live_def vacant_def)
  then have k: "similar (sh u) (sh (upd_proc i kill1 u))" for i by (intro similar_upd)
  show ?thesis
  proof (cases "find_index (\<lambda>p. p_pid p = pid) (ptable u)")
    case None
    then have "sh t = sh u" using run keepsD [of "seqk (releasep PTABLE) (ret (-1))"] by (simp add: keep)
    then show ?thesis using u by simp
  next
    case (Some i)
    then have "seqk (releasep PTABLE) (ret 0) (upd_proc i kill1 u) = Ok (r, t)" using run by (simp add: kern_simps)
    then have "sh t = sh (upd_proc i kill1 u)" using keepsD [of "seqk (releasep PTABLE) (ret 0)"] by (simp add: keep)
    then show ?thesis using u k by simp
  qed
qed

lemma tick_similar:
  assumes "cow_tick s = Ok (r, t)"
  shows "similar (sh s) (sh t)"
proof -
  obtain s1 where s1: "sh s1 = sh s" "seqk (modk (\<lambda>s. s\<lparr>ticks := ticks s + 1\<rparr>)) (seqk (wakeup ChanTicks) (releasep TICKSLOCK)) s1 = Ok (r, t)"
    by (rule keeps_seqE [OF assms [unfolded cow_tick_def] keeps_lock(1)])
  obtain s2 where s2: "sh s2 = sh s1" "seqk (wakeup ChanTicks) (releasep TICKSLOCK) s2 = Ok (r, t)"
    by (rule keeps_seqE [OF s1(2) keeps_cproc(2)])
  obtain y s3 where s3: "wakeup ChanTicks s2 = Ok (y, s3)" "releasep TICKSLOCK s3 = Ok (r, t)"
    using s2(2) unfolding seqk_def by (rule bindk_OkE)
  obtain s4 where s4: "sh s4 = sh s2" "seqk (wakeup1 ChanTicks) (releasep PTABLE) s4 = Ok (y, s3)"
    by (rule keeps_seqE [OF s3(1) [unfolded wakeup_def] keeps_lock(1)])
  obtain w s5 where s5: "wakeup1 ChanTicks s4 = Ok (w, s5)" "releasep PTABLE s5 = Ok (y, s3)"
    using s4(2) unfolding seqk_def by (rule bindk_OkE)
  show ?thesis using s1(1) s2(1) s4(1) wakeup1_similar [OF s5(1)] lock_same(2) [OF s5(2)] lock_same(2) [OF s3(2)] by simp
qed

text \<open>The running process may change between states of life.\<close>

definition running :: "cst \<Rightarrow> bool" where
  "running s \<longleftrightarrow> (\<exists>i. cproc s = Some i \<and> i < length (ptable s) \<and> p_state (ptable s ! i) = RUNNING)"

lemma yield_similar:
  assumes "yield_enter s = Ok (b, t)" "running s"
  shows "similar (sh s) (sh t)"
proof -
  obtain i where i: "cproc s = Some i" "p_state (ptable s ! i) = RUNNING" using assms(2) by (auto simp: running_def)
  obtain x u where u: "acquirep PTABLE s = Ok (x, u)"
    and run: "bindk myproc (\<lambda>i. seqk (modk (upd_proc i (\<lambda>p. p\<lparr>p_state := RUNNABLE\<rparr>))) sched_enter) u = Ok (b, t)"
    using assms(1) unfolding yield_enter_def seqk_def [of "acquirep PTABLE"] by (rule bindk_OkE)
  have l: "ptable u = ptable s" "cproc u = cproc s" "sh u = sh s" using lock_same(1) [OF u] by auto
  have "sched_enter (upd_proc i (\<lambda>p. p\<lparr>p_state := RUNNABLE\<rparr>) u) = Ok (b, t)" using run l i by (simp add: myproc_def kern_simps)
  then have "sh t = sh (upd_proc i (\<lambda>p. p\<lparr>p_state := RUNNABLE\<rparr>) u)" by (rule keepsD [OF keeps_sched(1)])
  moreover have "similar (sh u) (sh (upd_proc i (\<lambda>p. p\<lparr>p_state := RUNNABLE\<rparr>) u))"
    using i l by (intro similar_upd) (simp add: alike_def shape_def live_def vacant_def)
  ultimately show ?thesis using l by simp
qed

lemma sleep_similar:
  assumes "sleep_enter ch l s = Ok (b, t)" "running s"
  shows "similar (sh s) (sh t)"
proof -
  obtain i where i: "cproc s = Some i" "i < length (ptable s)" "p_state (ptable s ! i) = RUNNING" using assms(2) by (auto simp: running_def)
  have k: "keeps (whenk (l \<noteq> PTABLE) (seqk (acquirep PTABLE) (releasep l)))" by (intro keep)
  obtain u where u: "sh u = sh s" and run: "seqk (modk (upd_proc i (\<lambda>p. p\<lparr>p_chan := ch, p_state := SLEEPING\<rparr>))) sched_enter u = Ok (b, t)"
    using assms(1) i(1) unfolding sleep_enter_def by (auto elim: keeps_seqE [OF _ k])
  have sh: "shape (ptable u ! i) = shape (ptable s ! i)" using u i(2) same_sh_length [OF u] sh_nth [of i u] sh_nth [of i s] by simp
  have "sh t = sh (upd_proc i (\<lambda>p. p\<lparr>p_chan := ch, p_state := SLEEPING\<rparr>) u)"
    using run by (auto simp: kern_simps dest: keepsD [OF keeps_sched(1)])
  moreover have "similar (sh u) (sh (upd_proc i (\<lambda>p. p\<lparr>p_chan := ch, p_state := SLEEPING\<rparr>) u))"
    using i(3) sh by (intro similar_upd) (simp add: alike_def shape_def live_def vacant_def)
  ultimately show ?thesis using u by simp
qed

lemma sched_from_similar:
  assumes "cow_sched_from k s = Ok (r, t)"
  shows "similar (sh s) (sh t)"
proof (cases "find_index_from k (\<lambda>p. p_state p = RUNNABLE) (drop k (ptable s))")
  case None
  then have "seqk (releasep PTABLE) (ret None) s = Ok (r, t)" using assms by (simp add: cow_sched_from_def)
  then have "sh t = sh s" using keepsD [of "seqk (releasep PTABLE) (ret None)"] by (simp add: keep)
  then show ?thesis by simp
next
  case (Some i)
  then have i: "k \<le> i" "i < length (ptable s)" "p_state (ptable s ! i) = RUNNABLE"
    by (auto simp: find_index_from_Some less_diff_conv)
  have run: "seqk (modk (\<lambda>s. s\<lparr>cproc := Some i\<rparr>)) (seqk (cow_switchuvm i)
      (seqk (modk (upd_proc i (\<lambda>p. p\<lparr>p_state := RUNNING\<rparr>))) (ret (Some i)))) s = Ok (r, t)"
    using assms Some by (simp add: cow_sched_from_def)
  obtain u where u: "sh u = sh s" "seqk (cow_switchuvm i) (seqk (modk (upd_proc i (\<lambda>p. p\<lparr>p_state := RUNNING\<rparr>))) (ret (Some i))) u = Ok (r, t)"
    by (rule keeps_seqE [OF run keeps_cproc(1)])
  obtain v where v: "sh v = sh u" "seqk (modk (upd_proc i (\<lambda>p. p\<lparr>p_state := RUNNING\<rparr>))) (ret (Some i)) v = Ok (r, t)"
    by (rule keeps_seqE [OF u(2) keeps_switch])
  have "sh v = sh s" using u v by simp
  then have "shape (ptable v ! i) = shape (ptable s ! i)" using i(2) same_sh_length [of v s] sh_nth [of i v] sh_nth [of i s] by simp
  then have "similar (sh v) (sh (upd_proc i (\<lambda>p. p\<lparr>p_state := RUNNING\<rparr>) v))"
    using i(3) by (intro similar_upd) (simp add: alike_def shape_def live_def vacant_def)
  then show ?thesis using u v by (simp add: kern_simps)
qed

section \<open>Exit\<close>

text \<open>
  What the loop of \<open>exit\<close> does to a process: it may be woken up, and children of \<open>i\<close> get the parent \<open>z\<close>.
\<close>

definition passed :: "nat \<Rightarrow> nat option \<Rightarrow> pshape \<Rightarrow> pshape \<Rightarrow> bool" where
  "passed i z a b \<longleftrightarrow> live (fst a) = live (fst b) \<and> vacant (fst a) = vacant (fst b) \<and>
     (snd b = snd a \<or> snd a = Some i \<and> snd b = z)"

definition passed_on :: "nat \<Rightarrow> pshape list \<times> nat option \<Rightarrow> pshape list \<times> nat option \<Rightarrow> bool" where
  "passed_on i x y \<longleftrightarrow> snd y = snd x \<and> length (fst y) = length (fst x) \<and> (\<forall>k < length (fst x). passed i (snd x) (fst x ! k) (fst y ! k))"

lemma passed_trans: "passed i z a b \<Longrightarrow> passed i z b c \<Longrightarrow> passed i z a c"
  by (auto simp: passed_def)

lemma passed_on_trans: "passed_on i x y \<Longrightarrow> passed_on i y w \<Longrightarrow> passed_on i x w"
  unfolding passed_on_def by (auto intro: passed_trans)

lemma similar_passed: "similar x y \<Longrightarrow> passed_on i x y"
  by (auto simp: similar_def alike_def passed_on_def passed_def)

lemma passed_adopt:
  assumes "p_parent (ptable s ! k) = Some i"
  shows "passed_on i (sh s) (sh (upd_proc k (\<lambda>p. p\<lparr>p_parent := initproc s\<rparr>) s))"
proof (cases "k < length (ptable s)")
  case True
  then show ?thesis using assms
    by (auto simp: passed_on_def sh_upd_proc child_at_def nth_list_update passed_def sh_nth shape_def sh_def)
qed (simp add: sh_upd_proc child_at_def list_update_beyond passed_on_def passed_def)

lemma reparent_sh:
  assumes "reparent i ks s = Ok (x, t)" "initproc s \<noteq> Some i"
  shows "passed_on i (sh s) (sh t) \<and> (\<forall>k \<in> set ks. k < length (ptable s) \<longrightarrow> p_parent (ptable t ! k) \<noteq> Some i)"
  using assms
proof (induction ks arbitrary: s)
  case Nil
  then show ?case by (simp add: kern_simps passed_on_def passed_def)
next
  case (Cons k ks)
  have stays: "p_parent (ptable t ! k) \<noteq> Some i"
    if "passed_on i (sh u) (sh t)" "initproc u \<noteq> Some i" "k < length (ptable u)" "p_parent (ptable u ! k) \<noteq> Some i" for u
    using that by (auto simp: passed_on_def passed_def sh_def shape_def)
  show ?case
  proof (cases "p_parent (ptable s ! k) = Some i")
    case False
    then have "reparent i ks s = Ok (x, t)" using Cons.prems(1) by simp
    then show ?thesis using Cons.IH [of s] Cons.prems(2) False stays [of s] by auto
  next
    case True
    let ?s1 = "upd_proc k (\<lambda>p. p\<lparr>p_parent := initproc s\<rparr>) s"
    have "seqk (modk (upd_proc k (\<lambda>p. p\<lparr>p_parent := initproc s\<rparr>)))
         (seqk (whenk (p_state (ptable s ! k) = ZOMBIE) (wakeup1 (chan_of (initproc s)))) (reparent i ks)) s = Ok (x, t)"
      using Cons.prems(1) True by simp
    from seq_modE [OF this] obtain y s2 where w: "whenk (p_state (ptable s ! k) = ZOMBIE) (wakeup1 (chan_of (initproc s))) ?s1 = Ok (y, s2)"
      and rest: "reparent i ks s2 = Ok (x, t)" unfolding seqk_def by (rule bindk_OkE)
    have sim: "similar (sh ?s1) (sh s2)" using w wakeup1_similar by (auto simp: whenk_app split: if_splits)
    have i2: "initproc s2 = initproc s" "length (ptable s2) = length (ptable s)" using sim by (auto simp: similar_def sh_def)
    have ih: "passed_on i (sh s2) (sh t)" "\<forall>k \<in> set ks. k < length (ptable s2) \<longrightarrow> p_parent (ptable t ! k) \<noteq> Some i"
      using Cons.IH [OF rest] Cons.prems(2) i2 by auto
    have "passed_on i (sh s) (sh t)"
      using passed_on_trans [OF passed_adopt [OF True] passed_on_trans [OF similar_passed [OF sim] ih(1)]] .
    moreover have "p_parent (ptable t ! k) \<noteq> Some i" if "k < length (ptable s)"
    proof (rule stays [OF ih(1)])
      have "snd (fst (sh ?s1) ! k) = snd (fst (sh s2) ! k)" using sim that by (simp add: similar_def alike_def)
      then show "p_parent (ptable s2 ! k) \<noteq> Some i" using that i2 Cons.prems(2) by (simp add: sh_nth shape_def)
    qed (use that i2 Cons.prems(2) in simp_all)
    ultimately show ?thesis using ih(2) i2 by auto
  qed
qed

lemma tree_exit:
  assumes t: "tree x" and p: "passed_on i x y" and i: "i < length (fst x)" "live (fst (fst x ! i))" "snd x \<noteq> Some i"
    and none: "\<forall>k < length (fst y). snd (fst y ! k) \<noteq> Some i"
  shows "tree (child_at i (ZOMBIE, snd (fst y ! i)) y)"
proof -
  obtain ps z where x: "x = (ps, z)" by (cases x)
  obtain qs where y: "y = (qs, z)" using p x by (cases y) (auto simp: passed_on_def)
  have len: "length qs = length ps" and pw: "\<And>k. k < length ps \<Longrightarrow> passed i z (ps ! k) (qs ! k)" using p x y by (auto simp: passed_on_def)
  obtain r where r: "z = Some r" "r < length ps" "live (fst (ps ! r))" using treeD t x by metis
  have ri: "r \<noteq> i" using i(3) x r by auto
  let ?c = "(ZOMBIE, snd (qs ! i))"
  have alive: "live (fst (qs[i := ?c] ! j))" if "j < length ps" "live (fst (ps ! j))" "j \<noteq> i" for j
    using pw [OF that(1)] that by (simp add: passed_def)
  have par: "\<exists>j. snd (qs[i := ?c] ! k) = Some j \<and> j < length ps \<and> live (fst (qs[i := ?c] ! j))"
    if k: "k < length ps" "\<not> vacant (fst (ps ! k))" "Some k \<noteq> z" for k
  proof -
    obtain j where j: "snd (ps ! k) = Some j" "j < length ps" "live (fst (ps ! j))" using tree_parent t x k by metis
    have s: "snd (qs[i := ?c] ! k) = snd (qs ! k)" using k(1) len by (cases "k = i") auto
    have "snd (qs ! k) \<noteq> Some i" using none y len k(1) by simp
    then have "snd (qs ! k) = Some r \<or> snd (qs ! k) = Some j \<and> j \<noteq> i" using pw [OF k(1)] j(1) r(1) by (auto simp: passed_def)
    then show ?thesis using s alive j r ri by auto
  qed
  have vac: "vacant (fst (qs[i := ?c] ! k)) \<Longrightarrow> vacant (fst (ps ! k)) \<and> k \<noteq> i" if "k < length ps" for k
    using that pw [OF that] len by (cases "k = i") (auto simp: passed_def vacant_def)
  have "snd (qs[i := ?c] ! k) = None" if "k < length ps" "vacant (fst (qs[i := ?c] ! k))" for k
    using vac [OF that] tree_vacant [of ps z k] t x that pw [OF that(1)] by (auto simp: passed_def)
  moreover have "\<not> vacant (fst (ps ! k))" if "k < length ps" "\<not> vacant (fst (qs[i := ?c] ! k))" for k
    using that pw [OF that(1)] i(2) x len by (cases "k = i") (auto simp: passed_def live_def vacant_def)
  ultimately show ?thesis using par alive r ri y len by (auto simp: tree_def child_at_def)
qed

lemma exit_zombie_tree:
  assumes run: "cow_exit_zombie i s = Ok (b, t)" and t: "tree (sh s)" and i: "i < length (ptable s)" "live (p_state (ptable s ! i))"
    and z: "initproc s \<noteq> Some i"
  shows "tree (sh t)"
proof -
  obtain x1 s1 where s1: "acquirep PTABLE s = Ok (x1, s1)" and run1: "seqk (wakeup1 (chan_of (p_parent (ptable s1 ! i))))
       (seqk (reparent i [0 ..< length (ptable s1)])
         (seqk (modk (upd_proc i (\<lambda>p. p\<lparr>p_state := ZOMBIE\<rparr>))) sched_enter)) s1 = Ok (b, t)"
    using run unfolding cow_exit_zombie_def seqk_def [of "acquirep PTABLE"] by (rule bindk_OkE)
  have l: "ptable s1 = ptable s" "initproc s1 = initproc s" "sh s1 = sh s" using lock_same(1) [OF s1] by auto
  obtain x2 s2 where s2: "wakeup1 (chan_of (p_parent (ptable s1 ! i))) s1 = Ok (x2, s2)"
    and run2: "seqk (reparent i [0 ..< length (ptable s1)]) (seqk (modk (upd_proc i (\<lambda>p. p\<lparr>p_state := ZOMBIE\<rparr>))) sched_enter) s2 = Ok (b, t)"
    using run1 unfolding seqk_def [of "wakeup1 c" for c] by (rule bindk_OkE)
  have sim: "similar (sh s) (sh s2)" using wakeup1_similar [OF s2] l by simp
  have i2: "initproc s2 = initproc s" "length (ptable s2) = length (ptable s)" using sim by (auto simp: similar_def sh_def)
  obtain x3 s3 where s3: "reparent i [0 ..< length (ptable s1)] s2 = Ok (x3, s3)"
    and run3: "seqk (modk (upd_proc i (\<lambda>p. p\<lparr>p_state := ZOMBIE\<rparr>))) sched_enter s3 = Ok (b, t)"
    using run2 unfolding seqk_def [of "reparent a c" for a c] by (rule bindk_OkE)
  have r: "passed_on i (sh s2) (sh s3)" "\<forall>k < length (ptable s). p_parent (ptable s3 ! k) \<noteq> Some i"
    using reparent_sh [OF s3] z i2 l by auto
  have len: "length (ptable s3) = length (ptable s)" using r(1) i2(2) by (simp add: passed_on_def)
  have "sh t = sh (upd_proc i (\<lambda>p. p\<lparr>p_state := ZOMBIE\<rparr>) s3)" using seq_modE [OF run3] by (rule keepsD [OF keeps_sched(1)])
  then have st: "sh t = child_at i (ZOMBIE, snd (fst (sh s3) ! i)) (sh s3)" using len i(1) by (simp add: sh_upd_proc shape_def sh_nth)
  have "tree (child_at i (ZOMBIE, snd (fst (sh s3) ! i)) (sh s3))"
  proof (rule tree_exit [OF similar_tree [OF sim t] r(1)])
    show "i < length (fst (sh s2))" using i i2 by simp
    show "live (fst (fst (sh s2) ! i))" using sim i by (simp add: similar_def alike_def sh_nth shape_def)
    show "snd (sh s2) \<noteq> Some i" using z i2 by (simp add: sh_def)
    show "\<forall>k < length (fst (sh s3)). snd (fst (sh s3) ! k) \<noteq> Some i" using r(2) len by (simp add: sh_nth shape_def)
  qed
  then show ?thesis using st by simp
qed

section \<open>Wait\<close>

lemma scan_kids_Zombie:
  assumes "scan_kids i k ps b = Zombie m"
  shows "k \<le> m \<and> m < k + length ps \<and> p_state (ps ! (m - k)) = ZOMBIE \<and> p_parent (ps ! (m - k)) = Some i"
  using assms
proof (induction ps arbitrary: k b)
  case (Cons p ps)
  show ?case
  proof (cases "p_parent p = Some i \<and> p_state p = ZOMBIE")
    case True
    then show ?thesis using Cons.prems by auto
  next
    case False
    then obtain b' where "scan_kids i (Suc k) ps b' = Zombie m" using Cons.prems by (auto split: if_splits)
    from Cons.IH [OF this] show ?thesis by (auto simp: nth_Cons' Suc_diff_le less_Suc_eq_0_disj)
  qed
qed (simp split: if_splits)

lemma scan_kids_finds:
  assumes "\<exists>p \<in> set ps. p_state p = ZOMBIE \<and> p_parent p = Some i"
  shows "\<exists>m. scan_kids i k ps b = Zombie m"
  using assms by (induction ps arbitrary: k b) auto

lemma tree_reap:
  assumes t: "tree (ps, z)" and k: "k < length ps" "fst (ps ! k) = ZOMBIE"
  shows "tree (child_at k (UNUSED, None) (ps, z))"
proof -
  obtain r where r: "z = Some r" "r < length ps" "live (fst (ps ! r))" using treeD [OF t] .
  let ?qs = "ps[k := (UNUSED, None)]"
  have alive: "live (fst (?qs ! j))" if "j < length ps" "live (fst (ps ! j))" for j
    using that k by (cases "j = k") (auto simp: live_def)
  have par: "\<exists>j. snd (?qs ! l) = Some j \<and> j < length ps \<and> live (fst (?qs ! j))"
    if l: "l < length ps" "\<not> vacant (fst (?qs ! l))" "Some l \<noteq> z" for l
  proof -
    have lk: "l \<noteq> k" using l k(1) by (auto simp: vacant_def)
    then obtain j where "snd (ps ! l) = Some j" "j < length ps" "live (fst (ps ! j))" using tree_parent [OF t l(1)] l by auto
    then show ?thesis using alive lk by auto
  qed
  have "snd (?qs ! l) = None" if "l < length ps" "vacant (fst (?qs ! l))" for l
    using that tree_vacant [OF t] by (cases "l = k") auto
  then show ?thesis using par alive r by (auto simp: tree_def child_at_def)
qed

lemma wait_scan_tree:
  assumes run: "cow_wait_scan i s = Ok (r, t)" and t: "tree (sh s)"
  shows "tree (sh t) \<and> (r = None \<longrightarrow> t = s)"
proof (cases "scan_kids i 0 (ptable s) False")
  case (Zombie k)
  have k: "k < length (ptable s)" "p_state (ptable s ! k) = ZOMBIE" using scan_kids_Zombie [OF Zombie] by auto
  have run1: "seqk (zoom_ck (kfree (p_kstack (ptable s ! k)))) (seqk (zoom_ck (freevm (p_pgdir (ptable s ! k))))
      (seqk (modk (upd_proc k reaped)) (seqk (releasep PTABLE) (ret (Some (p_pid (ptable s ! k))))))) s = Ok (r, t)"
    using run Zombie by (simp add: cow_wait_scan_def Let_def)
  obtain u where u: "sh u = sh s" and run2: "seqk (zoom_ck (freevm (p_pgdir (ptable s ! k))))
      (seqk (modk (upd_proc k reaped)) (seqk (releasep PTABLE) (ret (Some (p_pid (ptable s ! k)))))) u = Ok (r, t)"
    by (rule keeps_seqE [OF run1 keeps_zoom_ck])
  obtain v where v: "sh v = sh u" and run3: "seqk (modk (upd_proc k reaped)) (seqk (releasep PTABLE) (ret (Some (p_pid (ptable s ! k))))) v = Ok (r, t)"
    by (rule keeps_seqE [OF run2 keeps_zoom_ck])
  obtain w where w: "sh w = sh (upd_proc k reaped v)" and run4: "ret (Some (p_pid (ptable s ! k))) w = Ok (r, t)"
    by (rule keeps_seqE [OF seq_modE [OF run3] keeps_lock(2)])
  have "sh t = child_at k (UNUSED, None) (sh s)" using run4 w v u by (simp add: kern_simps sh_upd_proc shape_def reaped_def)
  moreover have "tree (child_at k (UNUSED, None) (sh s))"
    using tree_reap [of "fst (sh s)" "snd (sh s)" k] t k by (simp add: sh_nth shape_def)
  ultimately show ?thesis using run4 by (auto simp: kern_simps)
next
  case HasKids
  then have "t = s \<and> r = None \<or> seqk (releasep PTABLE) (ret (Some (-1))) s = Ok (r, t)"
    using run by (auto simp: cow_wait_scan_def split: if_splits)
  then show ?thesis using t keepsD [of "seqk (releasep PTABLE) (ret (Some (-1)))" s r t]
    by (auto simp: keep) (auto simp: seqk_def ret_def elim!: bindk_OkE)
next
  case NoKids
  then have "seqk (releasep PTABLE) (ret (Some (-1))) s = Ok (r, t)" using run by (simp add: cow_wait_scan_def)
  then show ?thesis using t keepsD [of "seqk (releasep PTABLE) (ret (Some (-1)))" s r t]
    by (auto simp: keep) (auto simp: seqk_def ret_def elim!: bindk_OkE)
qed

lemma wait_or_sleep_tree:
  assumes run: "wait_or_sleep i s = Ok (r, t)" and t: "tree (sh s)" and "running s"
  shows "tree (sh t)"
proof -
  obtain a u where u: "cow_wait_scan i s = Ok (a, u)" and rest: "(case a of Some pid \<Rightarrow> ret (Inl pid)
      | None \<Rightarrow> bindk (sleep_enter (ChanProc i) PTABLE) (\<lambda>b. ret (Inr b))) u = Ok (r, t)"
    using run unfolding wait_or_sleep_def by (rule bindk_OkE)
  have tu: "tree (sh u)" "a = None \<longrightarrow> u = s" using wait_scan_tree [OF u t] by auto
  show ?thesis
  proof (cases a)
    case (Some pid)
    then show ?thesis using rest tu by (simp add: kern_simps)
  next
    case None
    then obtain b where "sleep_enter (ChanProc i) PTABLE s = Ok (b, t)" using rest tu(2) by (auto simp: ret_def elim!: bindk_OkE)
    then show ?thesis using sleep_similar assms(3) similar_tree t by blast
  qed
qed

section \<open>All steps\<close>

text \<open>
  What may happen to the process table: the running process is in the kernel and calls one of the functions, the clock ticks, or
  the scheduler goes on.  Every interleaving of the functions is allowed, whoever holds the locks.  The other system calls (\<open>exec\<close>, \<open>open\<close>, \<open>chdir\<close>
  and the like) are any sequence of work on the files, work on the memory, and changes of the fields of the own entry for memory, files, directory, name and trap frame.
\<close>

inductive cstep :: "cst \<Rightarrow> cst \<Rightarrow> bool" where
  fork: "running s \<Longrightarrow> cow_fork s = Ok (r, t) \<Longrightarrow> cstep s t"
| exit: "running s \<Longrightarrow> cow_exit s = Ok (b, t) \<Longrightarrow> cstep s t"
| wait: "running s \<Longrightarrow> cow_wait s = Ok (w, t) \<Longrightarrow> cstep s t"
| wait_again: "running s \<Longrightarrow> cow_wait_again b s = Ok (w, t) \<Longrightarrow> cstep s t"
| grow: "running s \<Longrightarrow> cow_growproc n s = Ok (r, t) \<Longrightarrow> cstep s t"
| kill: "running s \<Longrightarrow> kill pid s = Ok (k, t) \<Longrightarrow> cstep s t"
| fault: "running s \<Longrightarrow> page_fault va s = Ok (u, t) \<Longrightarrow> cstep s t"
| sleep: "running s \<Longrightarrow> sleep_enter ch l s = Ok (b, t) \<Longrightarrow> cstep s t"
| sleep_again: "running s \<Longrightarrow> sleep_exit b l s = Ok (u, t) \<Longrightarrow> cstep s t"
| yield: "running s \<Longrightarrow> yield_enter s = Ok (b, t) \<Longrightarrow> cstep s t"
| yield_again: "running s \<Longrightarrow> yield_exit b s = Ok (u, t) \<Longrightarrow> cstep s t"
| start: "running s \<Longrightarrow> cow_forkret s = Ok (u, t) \<Longrightarrow> cstep s t"
| files: "running s \<Longrightarrow> zoom_fs i m s = Ok ((), t) \<Longrightarrow> cstep s t"
| memory: "running s \<Longrightarrow> zoom_ck n s = Ok ((), t) \<Longrightarrow> cstep s t"
| own: "running s \<Longrightarrow> cproc s = Some i \<Longrightarrow>
    cstep s (upd_proc i (\<lambda>p. p\<lparr>p_sz := a, p_pgdir := d, p_name := nm, p_ofile := fds, p_cwd := c, p_tf := f\<rparr>) s)"
| tick: "cow_tick s = Ok (u, t) \<Longrightarrow> cstep s t"
| top: "cow_sched_top s = Ok (n, t) \<Longrightarrow> cstep s t"
| go_on: "cow_sched_back i s = Ok (n, t) \<Longrightarrow> cstep s t"

lemma running_lock: "acquirep l s = Ok (x, t) \<Longrightarrow> running s \<Longrightarrow> running t"
  using lock_same(1) [of l s x t] by (simp add: running_def)

lemma exit_tree:
  assumes run: "cow_exit s = Ok (b, t)" and t: "tree (sh s)" and r: "running s"
  shows "tree (sh t)"
proof -
  obtain i where i: "cproc s = Some i" "i < length (ptable s)" "p_state (ptable s ! i) = RUNNING" using r by (auto simp: running_def)
  have z: "initproc s \<noteq> Some i" and run1: "seqk (exit_files i [0 ..< NOFILE]) (seqk (exit_cwd i) (cow_exit_zombie i)) s = Ok (b, t)"
    using run i(1) by (auto simp: cow_exit_def myproc_def kern_simps split: if_splits)
  obtain u where u: "sh u = sh s" and run2: "seqk (exit_cwd i) (cow_exit_zombie i) u = Ok (b, t)"
    by (rule keeps_seqE [OF run1 keeps_exit_files])
  obtain v where v: "sh v = sh u" and run3: "cow_exit_zombie i v = Ok (b, t)" by (rule keeps_seqE [OF run2 keeps_cwd(2)])
  have sv: "sh v = sh s" using u v by simp
  have lv: "length (ptable v) = length (ptable s)" by (rule same_sh_length [OF sv])
  have iv: "initproc v = initproc s" using arg_cong [OF sv, of snd] by (simp add: sh_def)
  have "shape (ptable v ! i) = shape (ptable s ! i)" using sv i(2) lv sh_nth [of i v] sh_nth [of i s] by simp
  then show ?thesis using exit_zombie_tree [OF run3] t sv lv iv i z by (simp add: shape_def live_def)
qed

lemma keeps_page_fault [keep]: "keeps (page_fault va)"
proof -
  have "keeps (\<lambda>s. bindk (zoom_ck (COW_FAULT (p_pgdir (ptable s ! i)) va)) (\<lambda>oom. whenk oom (set_killed i)) s)" for i
    unfolding set_killed_def by (rule keeps_at [rotated], rule refl) (intro keep)
  then show ?thesis unfolding page_fault_def by (intro keep)
qed

lemma keeps_forkret [keep]: "keeps cow_forkret"
proof -
  have "keeps (modk (\<lambda>s. s\<lparr>first := False\<rparr>))" by (rule keeps_mod) (simp add: sh_def)
  then have "keeps (seqk (modk (\<lambda>s. s\<lparr>first := False\<rparr>)) (zoom_fs i m))" for i and m :: "(filest, unit) kern" by (intro keep)
  then have "keeps (\<lambda>s. if first s then seqk (modk (\<lambda>s. s\<lparr>first := False\<rparr>)) (zoom_fs i (seqk (iinit ROOTDEV) (initlog ROOTDEV))) s
      else Ok ((), s))" for i
    by (intro keepsI) (auto split: if_splits dest: keepsD)
  then show ?thesis unfolding cow_forkret_def by (intro keep)
qed

lemma cstep_tree: "cstep s t \<Longrightarrow> tree (sh s) \<Longrightarrow> tree (sh t)"
proof (induction rule: cstep.induct)
  case (fork s r t)
  show ?case
  proof (cases "sh t = sh s")
    case False
    then obtain i j where ij: "cproc s = Some i" "j < length (ptable s)" "p_state (ptable s ! j) = UNUSED"
      "sh t = child_at j (RUNNABLE, Some i) (sh s)" using fork_sh [OF fork(2)] by blast
    have "i < length (ptable s)" "live (p_state (ptable s ! i))" using fork(1) ij(1) by (auto simp: running_def live_def)
    then show ?thesis using tree_fork [of "fst (sh s)" "snd (sh s)" j i] fork(3) ij by (simp add: sh_nth shape_def)
  qed (use fork in simp)
next
  case (exit s b t)
  then show ?case using exit_tree by blast
next
  case (wait s w t)
  obtain i where i: "cproc s = Some i" using wait(1) by (auto simp: running_def)
  then have "bindk (acquirep PTABLE) (\<lambda>_. wait_or_sleep i) s = Ok (w, t)" using wait(2) by (simp add: cow_wait_def myproc_def kern_simps seqk_def)
  then obtain x u where u: "acquirep PTABLE s = Ok (x, u)" "wait_or_sleep i u = Ok (w, t)" by (rule bindk_OkE)
  show ?case using wait_or_sleep_tree [OF u(2) _ running_lock [OF u(1) wait(1)]] lock_same(1) [OF u(1)] wait(3) by simp
next
  case (wait_again s b w t)
  obtain i where i: "cproc s = Some i" using wait_again(1) by (auto simp: running_def)
  let ?u = "upd_proc i (\<lambda>p. p\<lparr>p_chan := NoChan\<rparr>) (s\<lparr>lk := upd_cpu 0 (\<lambda>c. c\<lparr>intena := b\<rparr>) (lk s)\<rparr>)"
  have "wait_or_sleep i ?u = Ok (w, t)"
    using wait_again(2) i by (simp add: cow_wait_again_def sleep_exit_def sched_exit_def myproc_def kern_simps)
  moreover have "sh ?u = sh s" by (subst sh_upd) (simp_all add: shape_def sh_def)
  moreover have "running ?u" using wait_again(1) i by (simp add: running_def)
  ultimately show ?case using wait_or_sleep_tree wait_again(3) by metis
next
  case (grow s n r t)
  then show ?case using keepsD [OF keeps_growproc] by metis
next
  case (kill s pid k t)
  then show ?case using kill_similar similar_tree by blast
next
  case (fault s va u t)
  then show ?case using keepsD [OF keeps_page_fault] by metis
next
  case (sleep s ch l b t)
  then show ?case using sleep_similar similar_tree by blast
next
  case (sleep_again s b l u t)
  have "keeps (sleep_exit b l)" unfolding sleep_exit_def by (intro keep)
  then show ?case using sleep_again keepsD by metis
next
  case (yield s b t)
  then show ?case using yield_similar similar_tree by blast
next
  case (yield_again s b u t)
  have "keeps (yield_exit b)" unfolding yield_exit_def by (intro keep)
  then show ?case using yield_again keepsD by metis
next
  case (start s u t)
  then show ?case using keepsD [OF keeps_forkret] by metis
next
  case (files s i m t)
  then show ?case using keepsD [OF keeps_zoom_fs] by metis
next
  case (memory s n t)
  then show ?case using keepsD [OF keeps_zoom_ck] by metis
next
  case (own s i a d nm fds c f)
  then show ?case by (subst sh_upd) (simp_all add: shape_def)
next
  case (tick s u t)
  then show ?case using tick_similar similar_tree by blast
next
  case (top s n t)
  obtain u where "sh u = sh s" "cow_sched_from 0 u = Ok (n, t)" by (rule keeps_seqE [OF top(1) [unfolded cow_sched_top_def] keeps_lock(1)])
  then show ?case using sched_from_similar similar_tree top(2) by metis
next
  case (go_on i s n t)
  obtain u where u: "sh u = sh s" "seqk (modk (\<lambda>s. s\<lparr>cproc := None\<rparr>)) (cow_sched_from (Suc i)) u = Ok (n, t)"
    by (rule keeps_seqE [OF go_on(1) [unfolded cow_sched_back_def] keeps_zoom_ck])
  obtain v where "sh v = sh u" "cow_sched_from (Suc i) v = Ok (n, t)" by (rule keeps_seqE [OF u(2) keeps_cproc(1)])
  then show ?case using sched_from_similar similar_tree go_on(2) u(1) by metis
qed

lemma reachable_tree: "cstep\<^sup>*\<^sup>* s t \<Longrightarrow> tree (sh s) \<Longrightarrow> tree (sh t)"
  by (induction rule: rtranclp_induct) (auto dest: cstep_tree)

section \<open>The first process\<close>

text \<open>The process table before \<open>userinit\<close>: static storage, all zero.\<close>

definition at_boot :: "cst \<Rightarrow> bool" where
  "at_boot s \<longleftrightarrow> (\<forall>p \<in> set (ptable s). p_state p = UNUSED \<and> p_parent p = None)"

lemma tree_first:
  assumes "j < length (fst x)" "\<forall>c \<in> set (fst x). c = (UNUSED, None)"
  shows "tree (child_at j (RUNNABLE, None) (fst x, Some j))"
proof -
  have "fst x ! k = (UNUSED, None)" if "k < length (fst x)" for k using assms(2) that by simp
  then show ?thesis using assms(1) by (auto simp: tree_def child_at_def nth_list_update live_def vacant_def)
qed

text \<open>What makes process \<open>i\<close> runnable and keeps the shape otherwise.\<close>

definition starts :: "nat \<Rightarrow> (cst, 'a) kern \<Rightarrow> bool" where
  "starts i m \<longleftrightarrow> (\<forall>s x t. m s = Ok (x, t) \<longrightarrow> i < length (ptable s) \<longrightarrow> sh t = child_at i (RUNNABLE, p_parent (ptable s ! i)) (sh s))"

lemma starts_make: "starts i (cow_make_runnable i)"
  unfolding starts_def using make_runnable_sh by blast

lemma starts_panic: "starts i (panic x)"
  by (simp add: starts_def panic_def)

lemma starts_if: "starts i m \<Longrightarrow> starts i n \<Longrightarrow> starts i (if b then m else n)"
  by simp

lemma starts_at: "(\<And>s. starts i (f s)) \<Longrightarrow> starts i (\<lambda>s. f s s)"
  unfolding starts_def by blast

lemma starts_bind:
  assumes "keeps m" "\<And>x. starts i (f x)"
  shows "starts i (bindk m f)"
  unfolding starts_def
proof (intro allI impI)
  fix s x t assume run: "bindk m f s = Ok (x, t)" and i: "i < length (ptable s)"
  obtain y u where u: "sh u = sh s" "f y u = Ok (x, t)" by (rule keeps_bindE [OF run assms(1)])
  have len: "i < length (ptable u)" using i same_sh_length [OF u(1)] by simp
  have "shape (ptable u ! i) = shape (ptable s ! i)" using sh_nth [OF len] sh_nth [OF i] u(1) by simp
  then show "sh t = child_at i (RUNNABLE, p_parent (ptable s ! i)) (sh s)"
    using assms(2) [unfolded starts_def] u len by (auto simp: shape_def)
qed

lemma starts_seq: "keeps m \<Longrightarrow> starts i n \<Longrightarrow> starts i (seqk m n)"
  unfolding seqk_def by (rule starts_bind)

lemma userinit_tree:
  assumes boot: "at_boot b" and run: "cow_userinit b = Ok (u, s)"
  shows "tree (sh s)"
proof -
  define tail where "tail = (\<lambda>i d (s :: cst). seqk (zoom_ck (inituvm d (initcode_start s) (initcode_size s)))
      (seqk (modk (upd_proc i (\<lambda>p. p\<lparr>p_sz := PGSIZE\<rparr>)))
        (seqk (modk (set_mem (user_frame (p_tf (ptable s ! i)))))
          (seqk (modk (upd_proc i (\<lambda>p. p\<lparr>p_name := safestrcpy (p_name p) initcode_name 16\<rparr>)))
            (bindk (zoom_fs i (namei [47])) (\<lambda>c. seqk (modk (upd_proc i (\<lambda>p. p\<lparr>p_cwd := c\<rparr>))) (cow_make_runnable i)))))))"
  define body where "body = (\<lambda>i. bindk (zoom_ck setupkvm) (\<lambda>d. seqk (modk (upd_proc i (\<lambda>p. p\<lparr>p_pgdir := d\<rparr>)))
      (if d = 0 then panic ''userinit: out of memory?'' else (\<lambda>s. tail i d s s))))"
  have "starts i (\<lambda>s. tail i d s s)" for i d
    by (rule starts_at [where f = "tail i d"]) (unfold tail_def, intro starts_bind starts_seq starts_make keep)
  then have st: "starts i (body i)" for i
    unfolding body_def by (intro starts_bind starts_seq starts_if starts_panic keep)
  obtain np s1 where a: "cow_allocproc b = Ok (np, s1)" and rest: "(case np of None \<Rightarrow> undefinedk ''userinit: null process''
      | Some i \<Rightarrow> seqk (modk (\<lambda>s. s\<lparr>initproc := Some i\<rparr>)) (body i)) s1 = Ok (u, s)"
    using run unfolding cow_userinit_def body_def tail_def by (rule bindk_OkE)
  obtain i where np: "np = Some i" using rest by (cases np) (auto simp: undefinedk_def)
  have i: "i < length (ptable b)" "p_state (ptable b ! i) = UNUSED"
    and sh1: "sh s1 = child_at i (EMBRYO, p_parent (ptable b ! i)) (sh b)" using allocproc_sh [OF a] np by auto
  let ?s = "s1\<lparr>initproc := Some i\<rparr>"
  have "p_parent (ptable b ! i) = None" using boot i by (simp add: at_boot_def)
  then have sh2: "sh ?s = child_at i (EMBRYO, None) (fst (sh b), Some i)" using sh1 by (simp add: sh_def child_at_def)
  have len: "i < length (ptable ?s)" using arg_cong [OF sh2, of "\<lambda>x. length (fst x)"] i(1) by (simp add: child_at_def)
  have par: "p_parent (ptable ?s ! i) = None" using sh_nth [OF len] sh2 i(1) by (simp add: child_at_def shape_def)
  note run1 = seq_modE [OF rest [unfolded np option.case]]
  have "sh s = child_at i (RUNNABLE, p_parent (ptable ?s ! i)) (sh ?s)" using st run1 len unfolding starts_def by blast
  then have "sh s = child_at i (RUNNABLE, None) (fst (sh b), Some i)" using sh2 par by simp
  moreover have "\<forall>c \<in> set (fst (sh b)). c = (UNUSED, None)" using boot by (auto simp: at_boot_def sh_def shape_def)
  ultimately show ?thesis using tree_first [of i "sh b"] i(1) by simp
qed

section \<open>Waiting for zombies\<close>

text \<open>The table of process \<open>i\<close> after \<open>n\<close> scans that reap.\<close>

fun waited :: "nat \<Rightarrow> nat \<Rightarrow> proc list \<Rightarrow> proc list" where
  "waited 0 i ps = ps"
| "waited (Suc n) i ps = waited n i (case scan_kids i 0 ps False of Zombie m \<Rightarrow> ps[m := reaped (ps ! m)] | _ \<Rightarrow> ps)"

lemma scan_kids_first:
  assumes "scan_kids i k ps b = Zombie m" "k \<le> j" "j < k + length ps" "p_state (ps ! (j - k)) = ZOMBIE" "p_parent (ps ! (j - k)) = Some i"
  shows "m \<le> j"
  using assms
proof (induction ps arbitrary: k b)
  case (Cons p ps)
  show ?case
  proof (cases "p_parent p = Some i \<and> p_state p = ZOMBIE")
    case True
    then show ?thesis using Cons.prems by auto
  next
    case False
    then obtain b' where s: "scan_kids i (Suc k) ps b' = Zombie m" using Cons.prems(1) by (auto split: if_splits)
    have "j \<noteq> k" using False Cons.prems(4,5) by auto
    then have "Suc k \<le> j" "(p # ps) ! (j - k) = ps ! (j - Suc k)" using Cons.prems(2) by (auto simp: nth_Cons' Suc_diff_le)
    then show ?thesis using Cons.IH [OF s] Cons.prems by simp
  qed
qed simp

text \<open>Each zombie child is found by some scan: the one found before it, if any, has a smaller index.\<close>

lemma waits_find:
  assumes "k < length ps" "p_state (ps ! k) = ZOMBIE" "p_parent (ps ! k) = Some i"
  shows "\<exists>n. scan_kids i 0 (waited n i ps) False = Zombie k"
  using assms
proof (induction "card {m. m < k \<and> p_state (ps ! m) = ZOMBIE}" arbitrary: ps rule: less_induct)
  case less
  have "\<exists>p \<in> set ps. p_state p = ZOMBIE \<and> p_parent p = Some i" using less.prems nth_mem by blast
  from scan_kids_finds [OF this] obtain m where m: "scan_kids i 0 ps False = Zombie m" by blast
  have mz: "m < length ps" "p_state (ps ! m) = ZOMBIE" using scan_kids_Zombie [OF m] by auto
  have "m \<le> k" using scan_kids_first [OF m, of k] less.prems by simp
  show ?case
  proof (cases "m = k")
    case True
    then show ?thesis using m by (intro exI [of _ 0]) simp
  next
    case False
    let ?qs = "ps[m := reaped (ps ! m)]"
    have "{l. l < k \<and> p_state (?qs ! l) = ZOMBIE} \<subset> {l. l < k \<and> p_state (ps ! l) = ZOMBIE}"
    proof
      have r: "p_state (?qs ! m) = UNUSED" using mz(1) by (simp add: reaped_def)
      have "p_state (ps ! l) = ZOMBIE" if "p_state (?qs ! l) = ZOMBIE" for l using that r by (cases "l = m") simp_all
      then show "{l. l < k \<and> p_state (?qs ! l) = ZOMBIE} \<subseteq> {l. l < k \<and> p_state (ps ! l) = ZOMBIE}" by blast
      have "m \<in> {l. l < k \<and> p_state (ps ! l) = ZOMBIE}" "m \<notin> {l. l < k \<and> p_state (?qs ! l) = ZOMBIE}"
        using False \<open>m \<le> k\<close> mz r by simp_all
      then show "{l. l < k \<and> p_state (?qs ! l) = ZOMBIE} \<noteq> {l. l < k \<and> p_state (ps ! l) = ZOMBIE}" by blast
    qed
    then have "card {l. l < k \<and> p_state (?qs ! l) = ZOMBIE} < card {l. l < k \<and> p_state (ps ! l) = ZOMBIE}"
      by (intro psubset_card_mono) simp_all
    moreover have "k < length ?qs" "p_state (?qs ! k) = ZOMBIE" "p_parent (?qs ! k) = Some i" using less.prems False by simp_all
    ultimately have "\<exists>n. scan_kids i 0 (waited n i ?qs) False = Zombie k" by (rule less.hyps)
    then obtain n where "scan_kids i 0 (waited n i ?qs) False = Zombie k" ..
    then show ?thesis using m by (intro exI [of _ "Suc n"]) simp
  qed
qed

text \<open>The scan of \<open>wait\<close> does what \<open>waited\<close> says, and gives the process identifier of the zombie.\<close>

lemma zoom_ck_table: "zoom_ck m s = Ok (x, t) \<Longrightarrow> ptable t = ptable s"
  by (auto simp: zoom_ck_def zoomk_def split: outcome.splits)

lemma wait_scan_reaps:
  assumes run: "cow_wait_scan i s = Ok (w, t)" and k: "scan_kids i 0 (ptable s) False = Zombie k"
  shows "w = Some (p_pid (ptable s ! k)) \<and> ptable t = waited 1 i (ptable s)"
proof -
  have run1: "bindk (zoom_ck (kfree (p_kstack (ptable s ! k)))) (\<lambda>_. bindk (zoom_ck (freevm (p_pgdir (ptable s ! k))))
      (\<lambda>_. seqk (modk (upd_proc k reaped)) (seqk (releasep PTABLE) (ret (Some (p_pid (ptable s ! k))))))) s = Ok (w, t)"
    using run k by (simp add: cow_wait_scan_def Let_def seqk_def)
  obtain x u where u: "zoom_ck (kfree (p_kstack (ptable s ! k))) s = Ok (x, u)" and run2: "bindk (zoom_ck (freevm (p_pgdir (ptable s ! k))))
      (\<lambda>_. seqk (modk (upd_proc k reaped)) (seqk (releasep PTABLE) (ret (Some (p_pid (ptable s ! k)))))) u = Ok (w, t)"
    using run1 by (rule bindk_OkE)
  obtain y v where v: "zoom_ck (freevm (p_pgdir (ptable s ! k))) u = Ok (y, v)" and
    run3: "seqk (modk (upd_proc k reaped)) (seqk (releasep PTABLE) (ret (Some (p_pid (ptable s ! k))))) v = Ok (w, t)"
    using run2 by (rule bindk_OkE)
  note last = seq_modE [OF run3]
  have v: "ptable v = ptable s" using zoom_ck_table [OF u] zoom_ck_table [OF v] by simp
  have "w = Some (p_pid (ptable s ! k)) \<and> ptable t = ptable (upd_proc k reaped v)"
    using last unfolding seqk_def by (auto elim!: bindk_OkE simp: ret_def dest: lock_same(2))
  then show ?thesis using k by (simp add: upd_proc_def v)
qed

text \<open>
  C13: no zombie is lost.  Start from the process that \<open>userinit\<close> makes in an empty process table, or from any other table whose processes form a family tree.
  However processes fork, exit, wait, sleep, are killed and scheduled, the first process is never a zombie, and every other process that is alive or a zombie has a
  living parent: the children of a process that exits are passed on to \<open>init\<close>, which never exits.  So a zombie is found by its parent: after some scans of
  \<open>wait\<close> that find earlier zombies of the same parent, the next scan finds this very zombie; a scan gives the process identifier of the zombie it finds and frees its entry.
\<close>

theorem no_zombie_is_lost:
  assumes start: "tree (sh s) \<or> (\<exists>b u. at_boot b \<and> cow_userinit b = Ok (u, s))" and steps: "cstep\<^sup>*\<^sup>* s t"
  shows "(\<exists>r. initproc t = Some r \<and> r < length (ptable t) \<and> p_state (ptable t ! r) \<in> {SLEEPING, RUNNABLE, RUNNING}) \<and>
    (\<forall>k < length (ptable t). p_state (ptable t ! k) \<notin> {UNUSED, EMBRYO} \<and> initproc t \<noteq> Some k \<longrightarrow>
      (\<exists>i. p_parent (ptable t ! k) = Some i \<and> i < length (ptable t) \<and> p_state (ptable t ! i) \<in> {SLEEPING, RUNNABLE, RUNNING} \<and>
        (p_state (ptable t ! k) = ZOMBIE \<longrightarrow> (\<exists>n. scan_kids i 0 (waited n i (ptable t)) False = Zombie k)))) \<and>
    (\<forall>i k w u. scan_kids i 0 (ptable t) False = Zombie k \<longrightarrow> cow_wait_scan i t = Ok (w, u) \<longrightarrow>
      w = Some (p_pid (ptable t ! k)) \<and> ptable u = waited 1 i (ptable t))"
proof (intro conjI allI impI)
  have "tree (sh s)" using start userinit_tree by blast
  then have t: "tree (fst (sh t), snd (sh t))" using reachable_tree [OF steps] by simp
  obtain r where "snd (sh t) = Some r" "r < length (fst (sh t))" "live (fst (fst (sh t) ! r))" using treeD [OF t] .
  then show "\<exists>r. initproc t = Some r \<and> r < length (ptable t) \<and> p_state (ptable t ! r) \<in> {SLEEPING, RUNNABLE, RUNNING}"
    by (intro exI [of _ r]) (auto simp: sh_nth shape_def live_def sh_def)
  fix k assume k: "k < length (ptable t)" "p_state (ptable t ! k) \<notin> {UNUSED, EMBRYO} \<and> initproc t \<noteq> Some k"
  then have "Some k \<noteq> snd (sh t)" "\<not> vacant (fst (fst (sh t) ! k))" by (auto simp: sh_def shape_def vacant_def)
  then obtain i where i: "snd (fst (sh t) ! k) = Some i" "i < length (fst (sh t))" "live (fst (fst (sh t) ! i))"
    using tree_parent [OF t, of k] k(1) by auto
  then show "\<exists>i. p_parent (ptable t ! k) = Some i \<and> i < length (ptable t) \<and> p_state (ptable t ! i) \<in> {SLEEPING, RUNNABLE, RUNNING} \<and>
      (p_state (ptable t ! k) = ZOMBIE \<longrightarrow> (\<exists>n. scan_kids i 0 (waited n i (ptable t)) False = Zombie k))"
    using k(1) waits_find [OF k(1)] by (intro exI [of _ i]) (simp add: sh_nth shape_def live_def)
next
  fix i k w u assume "scan_kids i 0 (ptable t) False = Zombie k" "cow_wait_scan i t = Ok (w, u)"
  then show "w = Some (p_pid (ptable t ! k))" "ptable u = waited 1 i (ptable t)" using wait_scan_reaps by blast+
qed

section \<open>An example\<close>

text \<open>\<open>init\<close> waits for its child, process 1, which runs and has a child of its own, process 2.\<close>

definition ex_cproc :: "procstate \<Rightarrow> u32 \<Rightarrow> nat option \<Rightarrow> chan \<Rightarrow> proc" where
  "ex_cproc st pid parent ch = \<lparr>p_sz = 4096, p_pgdir = 0x80300000, p_kstack = 0x80310000, p_state = st, p_pid = pid, p_parent = parent,
     p_tf = 0x80310F00, p_context = 0x80310E00, p_chan = ch, p_killed = False, p_ofile = replicate 16 None, p_cwd = Some 0,
     p_name = (\<lambda>_. 0)\<rparr>"

definition ex_cfs :: filest where
  "ex_cfs = \<lparr>bufs = (\<lambda>_. blank_buf), bnext = (\<lambda>_. 0), bprev = (\<lambda>_. 0), disk = (\<lambda>_ _. 0), disksize = 1000, writes = [],
     curpid = 1, log_start = 2, log_size = 30, log_outstanding = 0, log_committing = False, log_dev = 1, lh_n = 0,
     lh_block = (\<lambda>_. 0), sb = sb_of_block (\<lambda>_. 0),
     inodes = (\<lambda>_. \<lparr>i_dev = 1, i_inum = 1, i_ref = 3, i_lock = \<lparr>sl_locked = False, sl_pid = 0\<rparr>, i_valid = True, i_type = 1, i_major = 0,
       i_minor = 0, i_nlink = 1, i_size = 512, i_addrs = (\<lambda>_. 0)\<rparr>),
     devsw = (\<lambda>_. \<lparr>dev_read = None, dev_write = None\<rparr>), mycwd = 0, ftable = (\<lambda>_. \<lparr>f_type = FD_NONE, f_ref = 0, f_readable = False,
       f_writable = False, f_pipe = 0, f_ip = 0, f_off = 0\<rparr>), pipes = (\<lambda>_. pipe_init (\<lambda>_. 0)), freepages = [], mykilled = False\<rparr>"

definition ex_ck :: kstate where
  "ex_ck = \<lparr>mem = (\<lambda>_. 0), kend = 0x80200000, klocked = False, use_lock = True, free_pages = 0, freelist = 0,
     page_rCount = (\<lambda>_. 0), kdata = 0x80108000, kpgdir = 0, cr3 = 0\<rparr>"

definition ex_cst :: cst where
  "ex_cst = \<lparr>lk = \<lparr>cpus = (\<lambda>_. \<lparr>ncli = 0, intena = False, fl_if = True\<rparr>), locks = (\<lambda>_. \<lparr>locked = False, lcpu = None\<rparr>)\<rparr>,
     ptable = [ex_cproc SLEEPING 1 None (ChanProc 0), ex_cproc RUNNING 2 (Some 0) NoChan, ex_cproc SLEEPING 3 (Some 1) ChanTicks],
     nextpid = 4, initproc = Some 0, ticks = 0, cproc = Some 1, ck = ex_ck, cfs = ex_cfs,
     trapret = 0, forkret = 0, initcode_start = 0, initcode_size = 0, first = False\<rparr>"

lemma ex_tree: "tree (sh ex_cst)"
  by (simp add: tree_def sh_def ex_cst_def shape_def ex_cproc_def live_def vacant_def All_less_Suc numeral_3_eq_3)

lemma exit_files_none: "\<forall>fd \<in> set fds. p_ofile (ptable s ! i) ! fd = None \<Longrightarrow> exit_files i fds s = Ok ((), s)"
  by (induction fds) (simp_all add: kern_simps)

lemma ex_exit_cwd: "\<exists>f. exit_cwd 1 ex_cst = Ok ((), upd_proc 1 (\<lambda>p. p\<lparr>p_cwd := None\<rparr>) (ex_cst\<lparr>cfs := f\<rparr>))"
proof -
  have "\<exists>f. seqk begin_op (seqk (iput 0) end_op) (proc_fs 1 ex_cst) = Ok ((), f)"
    by (simp add: ex_cst_def ex_cproc_def zoomk_def proc_fs_def Let_def kern_simps begin_op_def end_op_def iput_def
      inode_sleep_def inode_release_def acquiresleep_def releasesleep_def upd_inode_def ex_cfs_def MAXOPBLOCKS_def LOGSIZE_def commit_def)
  moreover have "p_cwd (ptable ex_cst ! 1) = Some 0" by (simp add: ex_cst_def ex_cproc_def)
  ultimately show ?thesis by (auto simp: exit_cwd_def zoom_fs_def kern_simps)
qed

lemma ex_exit_zombie:
  "\<exists>b t. cow_exit_zombie 1 (upd_proc 1 (\<lambda>p. p\<lparr>p_cwd := None\<rparr>) (ex_cst\<lparr>cfs := f\<rparr>)) = Ok (b, t) \<and>
     p_state (ptable t ! 1) = ZOMBIE \<and> length (ptable t) = 3"
proof -
  let ?s = "upd_proc 1 (\<lambda>p. p\<lparr>p_cwd := None\<rparr>) (ex_cst\<lparr>cfs := f\<rparr>)"
  let ?u = "lock_in PTABLE ?s"
  have q: "holdset ?s {}" by (simp add: holdset_def ex_cst_def cpu_ok_def)
  have a: "acquirep PTABLE ?s = Ok ((), ?u)" by (rule acquirep_hold [OF q]) simp
  have c: "critical ?u" using holdset_in [OF q, of PTABLE] by simp
  have p: "ptable ?u = [ex_cproc SLEEPING 1 None (ChanProc 0), (ex_cproc RUNNING 2 (Some 0) NoChan)\<lparr>p_cwd := None\<rparr>,
      ex_cproc SLEEPING 3 (Some 1) ChanTicks]" "cproc ?u = Some 1" "initproc ?u = Some 0"
    by (simp_all add: ex_cst_def)
  let ?w = "?u\<lparr>ptable := [ex_cproc RUNNABLE 1 None (ChanProc 0), (ex_cproc RUNNING 2 (Some 0) NoChan)\<lparr>p_cwd := None\<rparr>,
      ex_cproc SLEEPING 3 (Some 1) ChanTicks]\<rparr>"
  let ?x = "?u\<lparr>ptable := [ex_cproc RUNNABLE 1 None (ChanProc 0), (ex_cproc RUNNING 2 (Some 0) NoChan)\<lparr>p_cwd := None\<rparr>,
      ex_cproc SLEEPING 3 (Some 0) ChanTicks]\<rparr>"
  have w: "wakeup1 (chan_of (p_parent (ptable ?u ! 1))) ?u = Ok ((), ?w)"
  proof -
    have "chan_of (p_parent (ptable ?u ! 1)) = ChanProc 0" unfolding p(1) by (simp add: ex_cproc_def chan_of_def)
    moreover have "map (wake (ChanProc 0)) (ptable ?u) = ptable ?w" unfolding p(1) by (simp add: wake_def ex_cproc_def)
    ultimately show ?thesis unfolding wakeup1_def modk_def by simp
  qed
  have r: "reparent 1 [0, 1, 2] ?w = Ok ((), ?x)"
    using p(3) by (simp add: kern_simps ex_cproc_def upd_proc_def)
  have "critical (upd_proc 1 (\<lambda>p. p\<lparr>p_state := ZOMBIE\<rparr>) ?x)" using c by simp
  from sched_enter_critical [OF this, of 1] p(2)
  have e: "\<exists>b. sched_enter (upd_proc 1 (\<lambda>p. p\<lparr>p_state := ZOMBIE\<rparr>) ?x) = Ok (b, upd_proc 1 (\<lambda>p. p\<lparr>p_state := ZOMBIE\<rparr>) ?x)" by simp
  have l: "[0 ..< length (ptable ?u)] = [0, 1, 2]" unfolding p(1) by (simp add: upt_rec)
  have "cow_exit_zombie 1 ?s = sched_enter (upd_proc 1 (\<lambda>p. p\<lparr>p_state := ZOMBIE\<rparr>) ?x)"
    by (simp only: cow_exit_zombie_def seqk_def bindk_def modk_def a w l r outcome.case prod.case)
  then show ?thesis using e by (auto simp: upd_proc_def)
qed

lemma ex_exit: "\<exists>b t. cow_exit ex_cst = Ok (b, t) \<and> p_state (ptable t ! 1) = ZOMBIE \<and> length (ptable t) = 3"
proof -
  have "exit_files 1 [0 ..< NOFILE] ex_cst = Ok ((), ex_cst)"
    by (rule exit_files_none) (simp add: ex_cst_def ex_cproc_def NOFILE_def)
  moreover obtain f where "exit_cwd 1 ex_cst = Ok ((), upd_proc 1 (\<lambda>p. p\<lparr>p_cwd := None\<rparr>) (ex_cst\<lparr>cfs := f\<rparr>))"
    using ex_exit_cwd by blast
  moreover have "cproc ex_cst = Some 1" "initproc ex_cst \<noteq> Some 1" by (simp_all add: ex_cst_def)
  ultimately show ?thesis using ex_exit_zombie [of f] by (simp add: cow_exit_def myproc_def kern_simps)
qed

theorem no_zombie_is_lost_witness:
  "\<exists>t i n. cstep\<^sup>*\<^sup>* ex_cst t \<and> p_state (ptable t ! 1) = ZOMBIE \<and> p_parent (ptable t ! 1) = Some i \<and>
    p_state (ptable t ! i) \<in> {SLEEPING, RUNNABLE, RUNNING} \<and> scan_kids i 0 (waited n i (ptable t)) False = Zombie 1"
proof -
  obtain b t where t: "cow_exit ex_cst = Ok (b, t)" "p_state (ptable t ! 1) = ZOMBIE" "length (ptable t) = 3"
    using ex_exit by blast
  have "running ex_cst" by (simp add: running_def ex_cst_def ex_cproc_def)
  then have steps: "cstep\<^sup>*\<^sup>* ex_cst t" using cstep.exit [OF _ t(1)] by blast
  note lost = no_zombie_is_lost [OF disjI1 [OF ex_tree] steps]
  then have "initproc t \<noteq> Some 1" using t(2) by auto
  moreover have "1 < length (ptable t)" using t(3) by simp
  ultimately obtain i n where "p_parent (ptable t ! 1) = Some i" "p_state (ptable t ! i) \<in> {SLEEPING, RUNNABLE, RUNNING}"
    "scan_kids i 0 (waited n i (ptable t)) False = Zombie 1"
    using conjunct1 [OF conjunct2 [OF lost], rule_format, of 1] t(2) by auto
  then show ?thesis using t(2) steps by blast
qed

end
