(* ===== verification/Cow_Dealloc.thy ===== *)
theory Cow_Dealloc
  imports Cow_Fault
begin

unbundle bit_operations_syntax

text \<open>
  Giving memory back: \<open>deallocuvm\<close> drops one reference to every page it removes, and exactly the pages without another
  reference return to the free list.
\<close>

section \<open>Releasing pages\<close>

text \<open>The pages \<open>k\<close> to \<open>n - 1\<close> of a process, and the state after they have been released.\<close>

definition pages_in :: "kstate \<Rightarrow> u32 \<Rightarrow> nat \<Rightarrow> nat \<Rightarrow> bool" where
  "pages_in s pd k n \<longleftrightarrow> wf_pgdir s pd \<and> inj_on (uframe (mem s) pd) {k ..< n} \<and>
     (\<forall>j. k \<le> j \<and> j < n \<longrightarrow> present (pte_val (mem s) pd (upage j)) \<and> used s (uframe (mem s) pd j) \<and>
        uframe (mem s) pd j \<notin> pt_pages (mem s) pd)"

definition orphans :: "kstate \<Rightarrow> u32 \<Rightarrow> nat \<Rightarrow> nat \<Rightarrow> u32 list" where
  "orphans s pd k n = filter (\<lambda>f. rCount s (V2P f) = 1) (rev (map (uframe (mem s) pd) [k ..< n]))"

definition released :: "kstate \<Rightarrow> kstate \<Rightarrow> u32 \<Rightarrow> nat \<Rightarrow> nat \<Rightarrow> bool" where
  "released s t pd k n \<longleftrightarrow> same_config s t \<and> wf_pgdir t pd \<and> pt_pages (mem t) pd = pt_pages (mem s) pd \<and>
     (\<forall>va. pte_val (mem t) pd va = (if k \<le> unat va div 4096 \<and> unat va div 4096 < n then 0 else pte_val (mem s) pd va)) \<and>
     (\<forall>g. page_aligned g \<longrightarrow> rCount t (V2P g) =
        (if g \<in> uframe (mem s) pd ` {k ..< n} then rCount s (V2P g) - 1 else rCount s (V2P g))) \<and>
     agree_on (- (pt_pages (mem s) pd \<union> set (orphans s pd k n))) (mem t) (mem s)"

lemma orphans_step: "k < n \<Longrightarrow> orphans s pd k n = orphans s pd (Suc k) n @ orphans s pd k (Suc k)"
  by (simp add: orphans_def upt_conv_Cons)

lemma kfree_page:
  assumes "\<not> klocked s" "used s f" "free_list s xs" "wf_pgdir s pd" "f \<notin> pt_pages (mem s) pd"
  obtains t where "kfree f s = Ok ((), t)" "free_list t ((if rCount s (V2P f) = 1 then [f] else []) @ xs)" "same_config s t"
    "wf_pgdir t pd" "agree_on (- (if rCount s (V2P f) = 1 then {f} else {})) (mem t) (mem s)"
    "\<And>g. page_aligned g \<Longrightarrow> rCount t (V2P g) = (if g = f then rCount s (V2P g) - 1 else rCount s (V2P g))"
proof -
  have f: "page_ok (kend s) f" "rCount s (V2P f) \<noteq> 0" "page_aligned f" using assms(2) by (auto simp: used_def)
  have nf: "f \<notin> set xs" using assms(2,3) by (rule used_not_free)
  show thesis
  proof (cases "rCount s (V2P f) = 1")
    case True
    then have "rCount s (V2P f) \<le> 1" by simp
    then obtain t where t: "kfree f s = Ok ((), t)" "free_list t (f # xs)" "same_config s t"
      "agree_on (- {f}) (mem t) (mem s)" "page_rCount t = (page_rCount s)(pgno (V2P f) := 0)"
      using kfree_last [OF assms(1) f(1) _ assms(3) nf] by metis
    have rc: "rCount t (V2P g) = (if g = f then rCount s (V2P g) - 1 else rCount s (V2P g))" if "page_aligned g" for g
      using that f(3) True by (auto simp: rCount_def t(5))
    have "wf_pgdir t pd"
    proof (rule wf_pgdir_agree [OF assms(4)])
      show "agree_on (pt_pages (mem s) pd) (mem s) (mem t)"
        using t(4) assms(5) by (auto intro: agree_on_sym agree_on_subset)
      show "rCount t (V2P g) \<noteq> 0" if "g \<in> pt_pages (mem s) pd" for g
        using wf_pgdir_used [OF assms(4) that] rc [of g] that assms(5) by (auto simp: used_def split: if_splits)
    qed (use t(3) in \<open>simp add: same_config_def\<close>)
    then show thesis using True t rc by (intro that [of t]) simp_all
  next
    case False
    then have "1 < rCount s (V2P f)" using f(2) by (simp add: word_less_nat_alt word_unat_eq_iff)
    let ?t = "set_rCount (V2P f) (rCount s (V2P f) - 1) s"
    have run: "kfree f s = Ok ((), ?t)" using \<open>1 < rCount s (V2P f)\<close> assms(1) f(1) by (intro kfree_shared)
    show thesis
    proof (rule that [OF run])
      show "free_list ?t ((if rCount s (V2P f) = 1 then [f] else []) @ xs)"
        using False free_list_shared [OF assms(3) nf f(3)] by simp
      show "wf_pgdir ?t pd" using assms(4,5) f(3) by (intro wf_pgdir_set_rCount) auto
      show "same_config s ?t" by (simp add: same_config_def)
      show "rCount ?t (V2P g) = (if g = f then rCount s (V2P g) - 1 else rCount s (V2P g))" if "page_aligned g" for g
        using that f(3) by (auto simp: rCount_def)
    qed simp
  qed
qed

lemma pages_in_agree:
  assumes "pages_in s pd k n" "released s t pd i k" "i \<le> k" "n \<le> 0x80000"
    and inj: "inj_on (uframe (mem s) pd) {i ..< n}"
  shows "pages_in t pd k n" "orphans t pd k n = orphans s pd k n"
    and "j \<in> {k ..< n} \<Longrightarrow> uframe (mem t) pd j = uframe (mem s) pd j"
proof -
  have fr: "uframe (mem t) pd j = uframe (mem s) pd j \<and> pte_val (mem t) pd (upage j) = pte_val (mem s) pd (upage j) \<and>
      rCount t (V2P (uframe (mem s) pd j)) = rCount s (V2P (uframe (mem s) pd j))" if j: "j \<in> {k ..< n}" for j
  proof -
    have "unat (upage j) div 4096 = j" using j assms(4) by (simp add: unat_upage)
    then have "pte_val (mem t) pd (upage j) = pte_val (mem s) pd (upage j)" using assms(2) j by (simp add: released_def)
    moreover have "uframe (mem s) pd j \<notin> uframe (mem s) pd ` {i ..< k}"
      using inj_onD [OF inj, of j] j assms(3) by fastforce
    then have "rCount t (V2P (uframe (mem s) pd j)) = rCount s (V2P (uframe (mem s) pd j))"
      using assms(2) by (simp add: released_def uframe_def)
    ultimately show ?thesis by (simp add: uframe_def)
  qed
  show "j \<in> {k ..< n} \<Longrightarrow> uframe (mem t) pd j = uframe (mem s) pd j" using fr by blast
  have "inj_on (uframe (mem t) pd) {k ..< n}"
    using assms(1) fr unfolding pages_in_def by (subst inj_on_cong [of _ _ "uframe (mem s) pd"]) auto
  then show "pages_in t pd k n"
    using assms(1,2) fr unfolding pages_in_def released_def used_def same_config_def by auto
  have "map (uframe (mem t) pd) [k ..< n] = map (uframe (mem s) pd) [k ..< n]" using fr by auto
  then show "orphans t pd k n = orphans s pd k n"
    unfolding orphans_def by (intro filter_cong) (use fr in auto)
qed

lemma released_page:
  assumes "\<not> klocked s" "free_list s xs" "pages_in s pd k (Suc k)" "k < 0x80000" "0x80000000 < kend s"
  obtains a t where "walkpgdir pd (upage k) False s = Ok (a, s)" "a \<noteq> 0" "load32 (mem s) a AND PTE_P \<noteq> 0" "PTE_ADDR (load32 (mem s) a) \<noteq> 0"
    "seqk (kfree (P2V (PTE_ADDR (load32 (mem s) a)))) (modk (stmem a 0)) s = Ok ((), t)"
    "released s t pd k (Suc k)" "free_list t (orphans s pd k (Suc k) @ xs)"
proof -
  let ?f = "uframe (mem s) pd k" and ?va = "upage k"
  have p: "wf_pgdir s pd" "present (pte_val (mem s) pd ?va)" "used s ?f" "?f \<notin> pt_pages (mem s) pd"
    using assms(3) by (auto simp: pages_in_def)
  obtain a where a: "pte_loc (mem s) pd ?va = Some a" "a \<noteq> 0" "load32 (mem s) a = pte_val (mem s) pd ?va"
    "walkpgdir pd ?va False s = Ok (a, s)"
    using p(1,2) by (rule fault_lookup)
  have f: "?f = P2V (PTE_ADDR (load32 (mem s) a))" by (simp add: uframe_def tab_def a(3))
  have "?f \<noteq> 0x80000000" using p(3) assms(5) by (auto simp: used_def page_ok_def)
  then have nz: "PTE_ADDR (load32 (mem s) a) \<noteq> 0" by (auto simp: f P2V_def layout_defs)
  let ?o = "orphans s pd k (Suc k)"
  have o: "(if rCount s (V2P ?f) = 1 then [?f] else []) = ?o" "(if rCount s (V2P ?f) = 1 then {?f} else {}) = set ?o"
    by (simp_all add: orphans_def)
  obtain u where u: "kfree ?f s = Ok ((), u)" "free_list u (?o @ xs)" "same_config s u" "wf_pgdir u pd"
    "agree_on (- set ?o) (mem u) (mem s)"
    "\<And>g. page_aligned g \<Longrightarrow> rCount u (V2P g) = (if g = ?f then rCount s (V2P g) - 1 else rCount s (V2P g))"
    by (rule kfree_page [OF assms(1) p(3) assms(2) p(1,4), unfolded o]) blast
  have ag: "agree_on (pt_pages (mem s) pd) (mem s) (mem u)"
  proof (rule agree_on_sym, rule agree_on_subset [OF u(5)])
    show "pt_pages (mem s) pd \<subseteq> - set ?o" using p(4) by (auto simp flip: o(2) split: if_splits)
  qed
  have al: "page_aligned pd" using p(1) by (rule wf_pgdir_aligned)
  have loc: "pte_loc (mem u) pd ?va = Some a" using pte_loc_agree [OF ag _ al] a(1) by simp
  have val: "pte_val (mem u) pd va = pte_val (mem s) pd va" for va using pte_val_agree [OF ag _ al] by simp
  have pt: "pt_pages (mem u) pd = pt_pages (mem s) pd" using pt_pages_agree [OF ag _ al] by simp
  let ?t = "stmem a 0 u"
  note st = store_pte [OF u(4) loc] and fa = pte_loc_facts [OF u(4) loc]
  show thesis
  proof (rule that [OF a(4,2) _ nz])
    show "load32 (mem s) a AND PTE_P \<noteq> 0" using p(2) by (simp add: a(3) present_def)
    show "seqk (kfree (P2V (PTE_ADDR (load32 (mem s) a)))) (modk (stmem a 0)) s = Ok ((), ?t)"
      using u(1) by (simp add: f [symmetric] kern_simps)
    show "free_list ?t (?o @ xs)" using u(2) fa(1) wf_pgdir_used [OF u(4) fa(2)] by (rule free_list_stmem)
    have "agree_on (- pt_pages (mem s) pd) (mem ?t) (mem u)"
      using fa(1,2) pt by (auto simp: stmem_def intro!: agree_on_store32)
    then have "agree_on (- (pt_pages (mem s) pd \<union> set ?o)) (mem ?t) (mem s)"
      using u(5) by (meson agree_on_subset agree_on_trans compl_mono sup_ge1 sup_ge2 order.refl)
    moreover have "wf_pgdir ?t pd" using u(4) loc by (rule wf_pgdir_store_pte)
    moreover have "same_config s ?t" using u(3) by (simp add: same_config_def stmem_def)
    moreover have "pt_pages (mem ?t) pd = pt_pages (mem s) pd" using st(2) pt by (simp add: stmem_def)
    moreover have "PGROUNDDOWN va = PGROUNDDOWN ?va \<longleftrightarrow> unat va div 4096 = k" for va
      using upage_iff [of k va] upage_iff [of k ?va] assms(4) by (simp add: unat_upage)
    then have "pte_val (mem ?t) pd va = (if k \<le> unat va div 4096 \<and> unat va div 4096 < Suc k then 0 else pte_val (mem s) pd va)" for va
      using st(3) [of 0 va] val [of va] by (auto simp: stmem_def)
    moreover have "rCount ?t x = rCount u x" for x by (simp add: rCount_def stmem_def)
    ultimately show "released s ?t pd k (Suc k)" using u(6) by (simp add: released_def)
  qed
qed

lemma released_trans:
  assumes "released s t pd k (Suc k)" "released t u pd (Suc k) n" "k < n" "n \<le> 0x80000" "pages_in s pd k n"
  shows "released s u pd k n"
proof -
  have inj: "inj_on (uframe (mem s) pd) {k ..< n}" using assms(5) by (simp add: pages_in_def)
  have "pages_in s pd (Suc k) n" using assms(5) inj_on_subset [OF inj] by (auto simp: pages_in_def)
  note pg = pages_in_agree [OF this assms(1) _ assms(4) inj]
  have im: "uframe (mem t) pd ` {Suc k ..< n} = uframe (mem s) pd ` {Suc k ..< n}"
    using pg(3) by (intro image_cong) auto
  have split: "uframe (mem s) pd ` {k ..< n} = insert (uframe (mem s) pd k) (uframe (mem s) pd ` {Suc k ..< n})"
    using assms(3) by (auto simp: image_iff) (metis atLeastLessThan_iff le_antisym not_less_eq_eq)
  have nin: "uframe (mem s) pd k \<notin> uframe (mem s) pd ` {Suc k ..< n}"
    using inj_onD [OF inj, of k] assms(3) by fastforce
  have pt: "pt_pages (mem t) pd = pt_pages (mem s) pd" using assms(1) by (simp add: released_def)
  have "agree_on (- (pt_pages (mem s) pd \<union> set (orphans s pd k n))) (mem u) (mem s)"
  proof (rule agree_on_trans)
    show "agree_on (- (pt_pages (mem s) pd \<union> set (orphans s pd k n))) (mem u) (mem t)"
      using assms(2) pg(2) pt by (auto simp: released_def orphans_step [OF assms(3)] intro: agree_on_subset)
    show "agree_on (- (pt_pages (mem s) pd \<union> set (orphans s pd k n))) (mem t) (mem s)"
      using assms(1) by (auto simp: released_def orphans_step [OF assms(3)] intro: agree_on_subset)
  qed
  moreover have "rCount u (V2P g) = (if g \<in> uframe (mem s) pd ` {k ..< n} then rCount s (V2P g) - 1 else rCount s (V2P g))"
    if "page_aligned g" for g
    using assms(1,2) that nin unfolding released_def im split by auto
  moreover have "pte_val (mem u) pd va = (if k \<le> unat va div 4096 \<and> unat va div 4096 < n then 0 else pte_val (mem s) pd va)" for va
    using assms(1,2,3) unfolding released_def by auto
  moreover have "same_config s u" using assms(1,2) by (auto simp: released_def intro: same_config_trans)
  ultimately show ?thesis using assms(2) pt by (simp add: released_def)
qed

lemma released_refl: "wf_pgdir s pd \<Longrightarrow> n \<le> k \<Longrightarrow> released s s pd k n"
  by (auto simp: released_def)

section \<open>The loop\<close>

lemma deallocuvm_loop_pages:
  assumes "\<not> klocked s" "0x80000000 < kend s" "free_list s xs" "pages_in s pd k (upages sz)" "sz \<le> KERNBASE"
    and "k \<le> upages sz" "upages sz - k \<le> n"
  shows "okp (\<lambda>_ t. released s t pd k (upages sz) \<and> free_list t (orphans s pd k (upages sz) @ xs))
    (deallocuvm_loop n pd (upage k) sz s)"
  using assms(1-4,6,7)
proof (induction n arbitrary: s k xs)
  case (Suc n)
  have sz: "upages sz \<le> 0x80000" using assms(5) by (simp add: upages_def KERNBASE_def word_le_nat_alt)
  have lt: "upage k < sz \<longleftrightarrow> k < upages sz"
    using Suc.prems(5) sz by (simp add: word_less_nat_alt upages_iff unat_upage)
  show ?case
  proof (cases "k < upages sz")
    case False
    then show ?thesis using Suc.prems lt released_refl [of s pd k "upages sz"] by (simp add: pages_in_def orphans_def)
  next
    case True
    have one: "pages_in s pd k (Suc k)" using Suc.prems(4) True by (auto simp: pages_in_def)
    have k: "k < 0x80000" using True sz by simp
    obtain a t where a: "walkpgdir pd (upage k) False s = Ok (a, s)" "a \<noteq> 0" "load32 (mem s) a AND PTE_P \<noteq> 0"
      "PTE_ADDR (load32 (mem s) a) \<noteq> 0"
      and run: "seqk (kfree (P2V (PTE_ADDR (load32 (mem s) a)))) (modk (stmem a 0)) s = Ok ((), t)"
      and t: "released s t pd k (Suc k)" "free_list t (orphans s pd k (Suc k) @ xs)"
      by (rule released_page [OF Suc.prems(1,3) one k Suc.prems(2)])
    have step: "deallocuvm_loop (Suc n) pd (upage k) sz s = deallocuvm_loop n pd (upage (Suc k)) sz t"
    proof -
      have "seqk (kfree (P2V (PTE_ADDR (load32 (mem s) a)))) (seqk (modk (stmem a 0)) m) s = m t" for m
        using run by (auto simp: seqk_def bindk_def modk_def split: outcome.splits)
      then show ?thesis using True lt a by (simp add: bindk_def [of "walkpgdir _ _ _"] Let_def upage_Suc)
    qed
    have inj: "inj_on (uframe (mem s) pd) {k ..< upages sz}" using Suc.prems(4) by (simp add: pages_in_def)
    have "pages_in s pd (Suc k) (upages sz)" using Suc.prems(4) inj_on_subset [OF inj] by (auto simp: pages_in_def)
    note pg = pages_in_agree [OF this t(1) _ sz inj]
    have cfg: "klocked t = klocked s" "kend t = kend s" using t(1) by (simp_all add: released_def same_config_def)
    have "okp (\<lambda>_ u. released t u pd (Suc k) (upages sz) \<and>
        free_list u (orphans t pd (Suc k) (upages sz) @ orphans s pd k (Suc k) @ xs)) (deallocuvm_loop n pd (upage (Suc k)) sz t)"
      using Suc.prems True cfg pg t(2) by (intro Suc.IH) auto
    then show ?thesis
      unfolding step
      by (rule okp_mono)
        (use released_trans [OF t(1) _ True sz Suc.prems(4)] pg(2) in \<open>auto simp: orphans_step [OF True]\<close>)
  qed
next
  case 0
  then have "k = upages sz" by simp
  moreover have "\<not> upage k < sz"
    using 0 assms(5) calculation unat_upage [of k] upages_iff [of k sz]
    by (simp add: word_less_nat_alt upages_def KERNBASE_def word_le_nat_alt)
  ultimately show ?case using 0 released_refl [of s pd k k] by (simp add: pages_in_def orphans_def)
qed

text \<open>
  C14: \<open>deallocuvm\<close> gives memory back exactly.  On a user address space whose pages are distinct, shrinking from \<open>sz\<close> to \<open>newsz\<close>
  completes and returns \<open>newsz\<close>; the entries of the pages above \<open>newsz\<close> are cleared and all others kept; each of these pages loses one reference
  and no other page does; exactly the pages that had one reference go to the free list, and no byte outside them and the page tables changes,
  so that pages shared with another process keep their contents.
\<close>

theorem deallocuvm_releases:
  assumes "\<not> klocked s" "0x80000000 < kend s" "free_list s xs" "user_space s pd sz" "newsz < sz"
    and "inj_on (uframe (mem s) pd) {j. j < upages sz}"
  shows "okp (\<lambda>r t. r = newsz \<and> released s t pd (upages newsz) (upages sz) \<and>
      free_list t (orphans s pd (upages newsz) (upages sz) @ xs)) (deallocuvm pd sz newsz s)"
proof -
  have sz: "sz \<le> KERNBASE" using assms(4) by (simp add: user_space_def)
  have le: "unat newsz < unat sz" "unat sz \<le> 0x80000000"
    using assms(5) sz by (simp_all add: word_less_nat_alt word_le_nat_alt KERNBASE_def)
  then have up: "upages newsz \<le> upages sz" "upages newsz \<le> 0x80000" "upages sz \<le> Suc (unat sz div 4096)"
    by (simp_all add: upages_def div_le_mono)
  have "unat (PGROUNDUP newsz) = unat (upage (upages newsz))"
    using le up by (simp add: unat_PGROUNDUP unat_upage upages_def)
  then have start: "PGROUNDUP newsz = upage (upages newsz)" by (simp add: word_unat_eq_iff)
  have "inj_on (uframe (mem s) pd) {upages newsz ..< upages sz}" by (rule inj_on_subset [OF assms(6)]) auto
  then have "pages_in s pd (upages newsz) (upages sz)" using assms(4) by (simp add: pages_in_def user_space_def)
  then have "okp (\<lambda>_ t. released s t pd (upages newsz) (upages sz) \<and> free_list t (orphans s pd (upages newsz) (upages sz) @ xs))
      (deallocuvm_loop (Suc (unat sz div 4096)) pd (upage (upages newsz)) sz s)"
    using assms(1-3) sz up by (intro deallocuvm_loop_pages) auto
  moreover have "\<not> sz \<le> newsz" using assms(5) by simp
  ultimately show ?thesis
    unfolding deallocuvm_def start by (auto simp: seqk_def ret_def intro!: okp_bind elim!: okp_mono)
qed

theorem deallocuvm_releases_witness:
  "okp (\<lambda>r t. r = 0 \<and> pte_val (mem t) exPD 0 = 0 \<and> free_list t (exUP # exfree 2)) (deallocuvm exPD 4096 0 (exst 2))"
proof -
  have n: "(2 :: nat) \<le> 10000" by simp
  have u: "upages 4096 = 1" "upages 0 = 0" by (simp_all add: upages_def)
  have p0: "upage 0 = 0" by (simp add: upage_def)
  have f: "uframe (mem (exst 2)) exPD 0 = exUP" by (simp add: uframe_def p0 exst_space [OF n] ex_present)
  have o: "orphans (exst 2) exPD 0 (Suc 0) = [exUP]" using exst_pages(2) [OF n, of exUP] by (simp add: orphans_def f)
  have "okp (\<lambda>r t. r = 0 \<and> released (exst 2) t exPD (upages 0) (upages 4096) \<and>
      free_list t (orphans (exst 2) exPD (upages 0) (upages 4096) @ exfree 2)) (deallocuvm exPD 4096 0 (exst 2))"
  proof (rule deallocuvm_releases)
    show "0x80000000 < kend (exst 2)" by (simp add: exst_def)
    show "inj_on (uframe (mem (exst 2)) exPD) {j. j < upages 4096}" by (simp add: u inj_on_def)
  qed (simp_all add: exst_user [OF n] exst_free_list [OF n])
  then show ?thesis by (rule okp_mono) (auto simp: u o released_def)
qed

end
