(* ===== verification/Cow_Kernel_Props.thy ===== *)
theory Cow_Kernel_Props
  imports Cow_Tree Cow_Dealloc
begin

unbundle bit_operations_syntax

text \<open>
  Properties of the copy-on-write kernel that join processes and memory: what a page fault does to the process, and how the
  memory of a process grows and shrinks.
\<close>

section \<open>Faults on the guard page\<close>

text \<open>
  \<open>exec\<close> makes the page below the stack inaccessible with \<open>clearpteu\<close>.  \<open>guarded c i va s\<close>: process \<open>i\<close> runs, and the page at \<open>va\<close> is present
  without the user bit and has the reference count \<open>c\<close>.
\<close>

definition guarded :: "u32 \<Rightarrow> nat \<Rightarrow> u32 \<Rightarrow> cst \<Rightarrow> bool" where
  "guarded c i va s \<longleftrightarrow> cproc s = Some i \<and> \<not> p_killed (ptable s ! i) \<and>
     (let pd = p_pgdir (ptable s ! i); k = ck s; e = pte_val (mem k) pd va in
      \<not> klocked k \<and> 0x80000000 \<le> kend k \<and> wf_pgdir k pd \<and> present e \<and> e AND PTE_U = 0 \<and>
      used k (tab e) \<and> tab e \<notin> pt_pages (mem k) pd \<and> rCount k (V2P (tab e)) = c)"

lemma flags_PTE_W:
  "present (PTE_W OR e) \<longleftrightarrow> present e" "tab (PTE_W OR e) = tab e" "(PTE_W OR e) AND PTE_U = e AND PTE_U"
proof -
  have "PTE_W AND PTE_P = 0" "PTE_W AND PTE_U = 0" by (simp_all add: layout_defs PTE_W_def PTE_P_def PTE_U_def)
  then show "present (PTE_W OR e) \<longleftrightarrow> present e" "(PTE_W OR e) AND PTE_U = e AND PTE_U"
    by (simp_all add: present_def bit.conj_disj_distrib2)
  have "PTE_ADDR (PTE_W OR e) = PTE_ADDR e"
    by (simp add: PTE_ADDR_def PTE_W_def bit.conj_disj_distrib2)
  then show "tab (PTE_W OR e) = tab e" by (simp add: tab_def)
qed

lemma page_fault_keeps:
  assumes "cproc s = Some i" "COW_FAULT (p_pgdir (ptable s ! i)) va (ck s) = Ok (False, k)"
  shows "page_fault va s = Ok ((), s\<lparr>ck := k\<rparr>)"
  using assms by (simp add: page_fault_def zoom_ck_def myproc_def bindk_def zoomk_def whenk_def ret_def)

lemma trap_fault:
  assumes "cproc s = Some i" "\<not> p_killed (ptable s ! i)" "COW_FAULT (p_pgdir (ptable s ! i)) va (ck s) = Ok (False, k)"
  shows "trap cpu sysc dev tf T_PGFLT cs va s = Ok (Returns, s\<lparr>ck := k\<rparr>)"
proof -
  have "trap_cause cpu dev T_PGFLT cs va s = Ok ((), s\<lparr>ck := k\<rparr>)"
    using page_fault_keeps [OF assms(1,3)] by (simp add: trap_cause_def)
  then show ?thesis
    using assms(1,2) by (simp add: trap_def T_PGFLT_def T_SYSCALL_def T_IRQ0_def kern_simps cur_killed_def)
qed

lemma guarded_sole:
  assumes "guarded 1 i va s"
  shows "\<exists>s'. trap cpu sysc dev tf T_PGFLT cs va s = Ok (Returns, s') \<and> guarded 1 i va s'"
proof -
  let ?pd = "p_pgdir (ptable s ! i)" and ?k = "ck s"
  let ?e = "pte_val (mem ?k) ?pd va"
  have g: "cproc s = Some i" "\<not> p_killed (ptable s ! i)" "\<not> klocked ?k" "0x80000000 \<le> kend ?k" "wf_pgdir ?k ?pd"
    "present ?e" "?e AND PTE_U = 0" "used ?k (tab ?e)" "tab ?e \<notin> pt_pages (mem ?k) ?pd" "rCount ?k (V2P (tab ?e)) = 1"
    using assms by (simp_all add: guarded_def Let_def)
  obtain a where a: "COW_FAULT ?pd va ?k = Ok (False, (stmem a (PTE_W OR ?e) ?k)\<lparr>cr3 := V2P ?pd\<rparr>)"
    "pte_loc (mem ?k) ?pd va = Some a"
    using g(3-6,8,10) by (rule COW_FAULT_sole)
  let ?k' = "(stmem a (PTE_W OR ?e) ?k)\<lparr>cr3 := V2P ?pd\<rparr>"
  note st = store_pte [OF g(5) a(2)]
  have "pte_val (mem ?k') ?pd va = PTE_W OR ?e" "pt_pages (mem ?k') ?pd = pt_pages (mem ?k) ?pd"
    using st by (simp_all add: stmem_def)
  moreover have "wf_pgdir ?k' ?pd" using wf_pgdir_store_pte [OF g(5) a(2)] by simp
  moreover have "used ?k' f = used ?k f" "rCount ?k' x = rCount ?k x" for f x
    by (simp_all add: used_def rCount_def stmem_def)
  moreover have "kend ?k' = kend ?k" "klocked ?k' = klocked ?k" by (simp_all add: stmem_def)
  ultimately have "guarded 1 i va (s\<lparr>ck := ?k'\<rparr>)"
    using g by (simp add: guarded_def Let_def flags_PTE_W)
  then show ?thesis using trap_fault [OF g(1,2) a(1)] by blast
qed

lemma guarded_shared:
  assumes "guarded c i va s" "1 < c" "free_list (ck s) (x # xs)"
  shows "\<exists>s'. trap cpu sysc dev tf T_PGFLT cs va s = Ok (Returns, s') \<and>
    pte_val (mem (ck s')) (p_pgdir (ptable s' ! i)) va = PTE_U OR PTE_W OR PTE_P OR V2P x"
proof -
  let ?pd = "p_pgdir (ptable s ! i)" and ?k = "ck s"
  let ?e = "pte_val (mem ?k) ?pd va"
  have g: "cproc s = Some i" "\<not> p_killed (ptable s ! i)" "\<not> klocked ?k" "0x80000000 \<le> kend ?k" "wf_pgdir ?k ?pd"
    "present ?e" "used ?k (tab ?e)" "tab ?e \<notin> pt_pages (mem ?k) ?pd" "1 < rCount ?k (V2P (tab ?e))"
    using assms(1,2) by (simp_all add: guarded_def Let_def)
  obtain t where t: "COW_FAULT ?pd va ?k = Ok (False, t\<lparr>cr3 := V2P ?pd\<rparr>)" "privatised ?k t ?pd va x"
    using COW_FAULT_copy [OF g(3-5) assms(3) g(6-9)] by blast
  then show ?thesis using trap_fault [OF g(1,2) t(1)] by (simp add: privatised_def)
qed

text \<open>One fault of the running process at \<open>va\<close> and the return to the faulting instruction.\<close>

definition refault :: "nat \<Rightarrow> (cst, unit) kern \<Rightarrow> (u32 \<Rightarrow> (cst, unit) kern) \<Rightarrow> u32 \<Rightarrow> u32 \<Rightarrow> u32 \<Rightarrow> cst \<Rightarrow> cst \<Rightarrow> bool" where
  "refault cpu sysc dev tf cs va s s' \<longleftrightarrow> trap cpu sysc dev tf T_PGFLT cs va s = Ok (Returns, s')"

text \<open>
  C5: the guard page does not stop a process.  The fault handler never looks at the user bit that \<open>clearpteu\<close> has cleared.  When the
  guard page belongs to one process, the trap returns to the faulting instruction with the page still inaccessible and the process not killed, and this
  happens any number of times: the process faults for ever.  When the page is shared after a fork and a page is free, the handler replaces it by
  a page that the user can read and write: the guard is gone.
\<close>

theorem guard_page_not_enforced:
  "(guarded 1 i va s \<longrightarrow> (\<exists>s'. (refault cpu sysc dev tf cs va ^^ n) s s' \<and> guarded 1 i va s')) \<and>
   (guarded c i va s \<and> 1 < c \<and> free_list (ck s) (x # xs) \<longrightarrow>
      (\<exists>s'. refault cpu sysc dev tf cs va s s' \<and>
         pte_val (mem (ck s')) (p_pgdir (ptable s' ! i)) va = PTE_U OR PTE_W OR PTE_P OR V2P x))"
proof (intro conjI impI)
  show "\<exists>s'. (refault cpu sysc dev tf cs va ^^ n) s s' \<and> guarded 1 i va s'" if "guarded 1 i va s"
  proof (induction n)
    case 0
    then show ?case using that by auto
  next
    case (Suc n)
    then obtain s' where s': "(refault cpu sysc dev tf cs va ^^ n) s s'" "guarded 1 i va s'" by blast
    obtain s'' where "refault cpu sysc dev tf cs va s' s''" "guarded 1 i va s''"
      using guarded_sole [OF s'(2)] unfolding refault_def by blast
    then show ?case using s'(1) by (auto intro: relpowp_Suc_I)
  qed
qed (use guarded_shared in \<open>auto simp: refault_def\<close>)

text \<open>The example process, with \<open>c\<close> references to its page, after \<open>clearpteu\<close> on it.\<close>

definition ex_guard :: "u32 \<Rightarrow> cst" where
  "ex_guard c = (upd_proc 1 (\<lambda>p. p\<lparr>p_pgdir := exPD\<rparr>) ex_cst)
     \<lparr>ck := (case clearpteu exPD 0 (set_rCount (V2P exUP) c (exst 2)) of Ok (_, k) \<Rightarrow> k)\<rparr>"

lemma ex_guarded:
  assumes "c \<noteq> 0"
  shows "guarded c 1 0 (ex_guard c)" "free_list (ck (ex_guard c)) (exfree 2)"
proof -
  let ?k = "set_rCount (V2P exUP) c (exst 2)"
  have n: "(2 :: nat) \<le> 10000" by simp
  note sp = exst_space [OF n] and pg = exst_pages [OF n, of exUP]
  have up: "exUP \<notin> {exPD, exPT}" by (simp add: ex_addrs)
  have wf: "wf_pgdir ?k exPD" using sp(1,2) up by (intro wf_pgdir_set_rCount) auto
  have fr: "free_list ?k (exfree 2)"
    using exst_free_list [OF n] pg(1,3) by (intro free_list_shared) (auto simp: used_def)
  obtain a where a: "pte_loc (mem ?k) exPD 0 = Some a" "a \<noteq> 0" "load32 (mem ?k) a = pte_val (mem ?k) exPD 0"
    "walkpgdir exPD 0 False ?k = Ok (a, ?k)"
    using fault_lookup [OF wf, of 0] sp(3) ex_present(3) by (metis set_rCount_fields(1))
  let ?e = "0x00302003 :: u32"
  let ?k' = "stmem a ?e ?k"
  have run: "clearpteu exPD 0 ?k = Ok ((), ?k')"
    using a by (simp add: clearpteu_def bindk_def sp(3) PTE_U_def)
  have val: "pte_val (mem ?k') exPD 0 = ?e" "pt_pages (mem ?k') exPD = {exPD, exPT}"
    using store_pte [OF wf a(1)] sp(1) by (simp_all add: stmem_def)
  have e: "present ?e" "tab ?e = exUP" "?e AND PTE_U = 0"
    by (simp_all add: present_def tab_def PTE_ADDR_def PTE_P_def PTE_U_def P2V_def layout_defs ex_addrs)
  have "used ?k' exUP" "rCount ?k' (V2P exUP) = c"
    using pg(1) assms by (simp_all add: used_def rCount_def stmem_def)
  moreover have "wf_pgdir ?k' exPD" by (rule wf_pgdir_store_pte [OF wf a(1)])
  moreover have "kend ?k' = 0x80200000" "\<not> klocked ?k'" by (simp_all add: stmem_def exst_def)
  moreover have ckg: "ck (ex_guard c) = ?k'" and "cproc (ex_guard c) = Some 1" "\<not> p_killed (ptable (ex_guard c) ! 1)"
    "p_pgdir (ptable (ex_guard c) ! 1) = exPD"
    by (simp_all add: ex_guard_def run upd_proc_def ex_cst_def ex_cproc_def)
  ultimately show "guarded c 1 0 (ex_guard c)" using e up by (simp add: guarded_def Let_def val)
  show "free_list (ck (ex_guard c)) (exfree 2)"
    unfolding ckg using fr pte_loc_facts [OF wf a(1)] wf by (intro free_list_stmem) (auto intro: wf_pgdir_used)
qed

theorem guard_page_not_enforced_witness:
  "(\<exists>s'. (refault 0 (ret ()) (\<lambda>_. ret ()) 0 0x1B 0 ^^ 1000) (ex_guard 1) s' \<and> guarded 1 1 0 s') \<and>
   (\<exists>s'. refault 0 (ret ()) (\<lambda>_. ret ()) 0 0x1B 0 (ex_guard 2) s' \<and>
      pte_val (mem (ck s')) (p_pgdir (ptable s' ! 1)) 0 = PTE_U OR PTE_W OR PTE_P OR V2P 0x80400000)"
proof
  show "\<exists>s'. (refault 0 (ret ()) (\<lambda>_. ret ()) 0 0x1B 0 ^^ 1000) (ex_guard 1) s' \<and> guarded 1 1 0 s'"
    using ex_guarded(1) [of 1] by (intro guard_page_not_enforced [THEN conjunct1, THEN mp]) simp
  have "exfree 2 = [0x80400000, 0x80401000]" by (simp add: exfree_def page_seq_def upt_conv_Cons)
  then show "\<exists>s'. refault 0 (ret ()) (\<lambda>_. ret ()) 0 0x1B 0 (ex_guard 2) s' \<and>
      pte_val (mem (ck s')) (p_pgdir (ptable s' ! 1)) 0 = PTE_U OR PTE_W OR PTE_P OR V2P 0x80400000"
    using ex_guarded [of 2] by (intro guard_page_not_enforced [where c = 2 and xs = "[0x80401000]", THEN conjunct2, THEN mp]) simp
qed

section \<open>Shrinking a process\<close>

text \<open>A running process with its memory in order.\<close>

definition proc_mem :: "nat \<Rightarrow> cst \<Rightarrow> u32 list \<Rightarrow> bool" where
  "proc_mem i s xs \<longleftrightarrow> cproc s = Some i \<and> i < length (ptable s) \<and>
     (let p = ptable s ! i; k = ck s in
      p_kstack p \<noteq> 0 \<and> p_pgdir p \<noteq> 0 \<and> p_sz p \<noteq> 0 \<and> \<not> klocked k \<and> 0x80000000 < kend k \<and> free_list k xs \<and>
      user_space k (p_pgdir p) (p_sz p) \<and> inj_on (uframe (mem k) (p_pgdir p)) {j. j < upages (p_sz p)})"

lemma sbrk_shrink:
  assumes "cproc s = Some i" "p_kstack (ptable s ! i) \<noteq> 0" "p_pgdir (ptable s ! i) \<noteq> 0" "n <s 0"
    and "deallocuvm (p_pgdir (ptable s ! i)) (p_sz (ptable s ! i)) (p_sz (ptable s ! i) + n) (ck s) = Ok (r, k)"
  shows "sys_sbrk (Some n) s = (if r = 0 then Ok (-1, s\<lparr>ck := k\<rparr>)
    else Ok (p_sz (ptable s ! i), upd_proc i (\<lambda>p. p\<lparr>p_sz := r\<rparr>) (s\<lparr>ck := k\<lparr>cr3 := V2P (p_pgdir (ptable s ! i))\<rparr>\<rparr>)))"
proof -
  have n: "n \<noteq> 0" "\<not> 0 <s n" using assms(4) by auto
  have eq: "p_pgdir ((ptable s)[i := (ptable s ! i)\<lparr>p_sz := r\<rparr>] ! i) = p_pgdir (ptable s ! i) \<and>
    p_kstack ((ptable s)[i := (ptable s ! i)\<lparr>p_sz := r\<rparr>] ! i) = p_kstack (ptable s ! i)"
    by (cases "i < length (ptable s)") (simp_all add: list_update_beyond not_less)
  have grow: "cow_growproc n s = (if r = 0 then Ok (-1, s\<lparr>ck := k\<rparr>)
      else Ok (0, upd_proc i (\<lambda>p. p\<lparr>p_sz := r\<rparr>) (s\<lparr>ck := k\<lparr>cr3 := V2P (p_pgdir (ptable s ! i))\<rparr>\<rparr>)))"
    using assms n
    by (auto simp: cow_growproc_def bindk_def myproc_def zoom_ck_def zoomk_def Let_def ret_def seqk_def modk_def
      cow_switchuvm_def upd_proc_def lcr3_def eq)
  show ?thesis
    using assms(1) grow by (auto simp: sys_sbrk_def bindk_def myproc_def getk_def ret_def)
qed

lemma shrink_word:
  assumes "sz \<le> KERNBASE" "n <s 0"
  shows "unat (- n) \<le> unat sz \<Longrightarrow> sz \<noteq> 0 \<Longrightarrow> sz + n < sz" "unat sz < unat (- n) \<Longrightarrow> sz \<le> sz + n"
proof -
  have n: "n \<noteq> 0" using assms(2) by auto
  have "(unat n + unat (- n)) mod 2 ^ 32 = 0" using unat_word_ariths(1) [of n "- n"] by simp
  moreover have pos: "0 < unat n" "0 < unat (- n)" using n by (simp_all add: unat_gt_0)
  moreover have "unat n < 2 ^ 32" "unat (- n) < 2 ^ 32" using unsigned_less [of n] unsigned_less [of "- n"] by simp_all
  ultimately have un: "unat n = 2 ^ 32 - unat (- n)" "0 < unat (- n)" by (auto simp: mod_if split: if_splits)
  have lt: "unat (- n) < 2 ^ 32" "unat sz \<le> 0x80000000"
    using unsigned_less [of "- n"] assms(1) by (simp_all add: word_le_nat_alt KERNBASE_def)
  show "unat (- n) \<le> unat sz \<Longrightarrow> sz \<noteq> 0 \<Longrightarrow> sz + n < sz"
    using un lt by (simp add: word_less_nat_alt unat_word_ariths(1) mod_if)
  show "unat sz < unat (- n) \<Longrightarrow> sz \<le> sz + n"
    using un lt by (simp add: word_le_nat_alt unat_word_ariths(1))
qed

text \<open>
  C15: shrinking a process with \<open>sbrk\<close>, on every negative argument.  Within the size the pages above the new size are released, the size is updated and the
  old size returned (the register \<open>cr3\<close> is reloaded).  Down to exactly zero the call reports failure, but has released every page and left the old size in the process.  Beyond
  zero the call reports success and does nothing.
\<close>

theorem sbrk_negative:
  assumes "proc_mem i s xs" "n <s 0"
  defines "p \<equiv> ptable s ! i"
  shows "okp (\<lambda>r t.
    if unat (p_sz p) < unat (- n) then r = p_sz p \<and> ptable t = ptable s \<and> mem (ck t) = mem (ck s)
    else if p_sz p + n = 0 then r = -1 \<and> ptable t = ptable s \<and> released (ck s) ((ck t)\<lparr>cr3 := cr3 (ck s)\<rparr>) (p_pgdir p) 0 (upages (p_sz p))
    else r = p_sz p \<and> ptable t = (ptable s)[i := p\<lparr>p_sz := p_sz p + n\<rparr>] \<and>
      released (ck s) ((ck t)\<lparr>cr3 := cr3 (ck s)\<rparr>) (p_pgdir p) (upages (p_sz p + n)) (upages (p_sz p))) (sys_sbrk (Some n) s)"
proof -
  let ?sz = "p_sz p" and ?pd = "p_pgdir p" and ?k = "ck s"
  have g: "cproc s = Some i" "i < length (ptable s)" "p_kstack p \<noteq> 0" "?pd \<noteq> 0" "?sz \<noteq> 0" "\<not> klocked ?k" "0x80000000 < kend ?k"
    "free_list ?k xs" "user_space ?k ?pd ?sz" "inj_on (uframe (mem ?k) ?pd) {j. j < upages ?sz}"
    using assms(1) by (simp_all add: proc_mem_def Let_def p_def)
  have sz: "?sz \<le> KERNBASE" using g(9) by (simp add: user_space_def)
  note run = sbrk_shrink [OF g(1) g(3,4) [unfolded p_def] assms(2), folded p_def]
  show ?thesis
  proof (cases "unat ?sz < unat (- n)")
    case True
    then have "deallocuvm ?pd ?sz (?sz + n) ?k = Ok (?sz, ?k)"
      using shrink_word(2) [OF sz assms(2)] by (simp add: deallocuvm_def ret_def)
    then show ?thesis using True g(2,5) run by (simp add: upd_proc_def p_def)
  next
    case False
    then have "?sz + n < ?sz" using shrink_word(1) [OF sz assms(2)] g(5) by simp
    from deallocuvm_releases [OF g(6-9) this g(10)] obtain k where k: "deallocuvm ?pd ?sz (?sz + n) ?k = Ok (?sz + n, k)"
      "released ?k k ?pd (upages (?sz + n)) (upages ?sz)"
      by (auto elim: okpE)
    have "upages 0 = 0" by (simp add: upages_def)
    moreover have "k\<lparr>cr3 := cr3 ?k\<rparr> = k" using k(2) by (cases k) (simp add: released_def same_config_def)
    ultimately show ?thesis using False k(2) run [OF k(1)] by (auto simp: upd_proc_def p_def)
  qed
qed

text \<open>The example process has one page.\<close>

definition ex_sbrk :: cst where
  "ex_sbrk = (upd_proc 1 (\<lambda>p. p\<lparr>p_pgdir := exPD, p_sz := 4096, p_kstack := 0x80500000\<rparr>) ex_cst)\<lparr>ck := exst 2\<rparr>"

lemma ex_sbrk_ok: "proc_mem 1 ex_sbrk (exfree 2)"
proof -
  have n: "(2 :: nat) \<le> 10000" by simp
  have p: "cproc ex_sbrk = Some 1" "1 < length (ptable ex_sbrk)" "ck ex_sbrk = exst 2" "p_pgdir (ptable ex_sbrk ! 1) = exPD"
    "p_sz (ptable ex_sbrk ! 1) = 4096" "p_kstack (ptable ex_sbrk ! 1) = 0x80500000"
    by (simp_all add: ex_sbrk_def upd_proc_def ex_cst_def)
  have "inj_on (uframe (mem (exst 2)) exPD) {j. j < upages 4096}" by (simp add: upages_def inj_on_def)
  moreover have "0x80000000 < kend (exst 2)" "exPD \<noteq> 0" by (simp_all add: exst_def exPD_def)
  ultimately show ?thesis
    using exst_user [OF n] exst_free_list [OF n] unfolding proc_mem_def Let_def p using p(2) by simp
qed

theorem sbrk_negative_witness:
  "okp (\<lambda>r t. r = -1 \<and> ptable t = ptable ex_sbrk \<and> pte_val (mem (ck t)) exPD 0 = 0) (sys_sbrk (Some (- 4096)) ex_sbrk) \<and>
   okp (\<lambda>r t. r = 4096 \<and> ptable t = ptable ex_sbrk \<and> mem (ck t) = mem (ck ex_sbrk)) (sys_sbrk (Some (- 4097)) ex_sbrk)"
proof
  have p: "p_sz (ptable ex_sbrk ! 1) = 4096" "p_pgdir (ptable ex_sbrk ! 1) = exPD"
    by (simp_all add: ex_sbrk_def upd_proc_def ex_cst_def)
  have neg: "(- 4096 :: u32) <s 0" "(- 4097 :: u32) <s 0" by code_simp+
  show "okp (\<lambda>r t. r = -1 \<and> ptable t = ptable ex_sbrk \<and> pte_val (mem (ck t)) exPD 0 = 0) (sys_sbrk (Some (- 4096)) ex_sbrk)"
    using sbrk_negative [OF ex_sbrk_ok neg(1), unfolded p] by (rule okp_mono) (simp add: released_def upages_def)
  show "okp (\<lambda>r t. r = 4096 \<and> ptable t = ptable ex_sbrk \<and> mem (ck t) = mem (ck ex_sbrk)) (sys_sbrk (Some (- 4097)) ex_sbrk)"
    using sbrk_negative [OF ex_sbrk_ok neg(2), unfolded p] by (rule okp_mono) simp
qed

end
