(* ===== verification/Exec.thy ===== *)
theory Exec
  imports Cow_Tree
begin

unbundle bit_operations_syntax

text \<open>
  \<open>exec\<close> (\<open>exec.c\<close>, with \<open>loaduvm\<close> of \<open>vm.c\<close>): loading a program into a new address space and switching the process to it.  The argument
  strings are the bytes that \<open>sys_exec\<close> has fetched.  A \<open>goto bad\<close> is the result \<open>None\<close>, on which \<open>exec_bad\<close> runs.
\<close>

section \<open>Loading\<close>

text \<open>The C buffer at an address as \<open>readi\<close> fills it, and the bytes it has then.\<close>

definition mem_bytes :: "memory \<Rightarrow> u32 \<Rightarrow> bytes" where
  "mem_bytes m a = (\<lambda>k. m (a + of_nat k))"

definition put_bytes :: "memory \<Rightarrow> u32 \<Rightarrow> bytes \<Rightarrow> nat \<Rightarrow> memory" where
  "put_bytes m a d n = (\<lambda>x. if unat (x - a) < n then d (unat (x - a)) else m x)"

definition read_page :: "nat \<Rightarrow> nat \<Rightarrow> u32 \<Rightarrow> u32 \<Rightarrow> u32 \<Rightarrow> (cst, int) kern" where
  "read_page p ip a off n = bindk (getk (\<lambda>s. mem_bytes (mem (ck s)) a)) (\<lambda>dst.
     bindk (zoom_fs p (readi ip dst off n)) (\<lambda>(r, d).
       seqk (modk (set_mem (\<lambda>m. put_bytes m a d (unat n)))) (ret r)))"

fun loaduvm_loop :: "nat \<Rightarrow> nat \<Rightarrow> u32 \<Rightarrow> u32 \<Rightarrow> nat \<Rightarrow> u32 \<Rightarrow> u32 \<Rightarrow> u32 \<Rightarrow> (cst, int) kern" where
  "loaduvm_loop 0 p pgdir addr ip offset sz i = (if i < sz then divergesk else ret 0)"
| "loaduvm_loop (Suc k) p pgdir addr ip offset sz i =
     (if i < sz then
        bindk (zoom_ck (walkpgdir pgdir (addr + i) False)) (\<lambda>pte.
          if pte = 0 then panic ''loaduvm: address should exist''
          else bindk (getk (\<lambda>s. PTE_ADDR (load32 (mem (ck s)) pte))) (\<lambda>pa.
            let n = (if sz - i < PGSIZE then sz - i else PGSIZE) in
            bindk (read_page p ip (P2V pa) (offset + i) n) (\<lambda>r.
              if r \<noteq> uint n then ret (-1) else loaduvm_loop k p pgdir addr ip offset sz (i + PGSIZE))))
      else ret 0)"

definition loaduvm :: "nat \<Rightarrow> u32 \<Rightarrow> u32 \<Rightarrow> nat \<Rightarrow> u32 \<Rightarrow> u32 \<Rightarrow> (cst, int) kern" where
  "loaduvm p pgdir addr ip offset sz =
     (if addr mod PGSIZE \<noteq> 0 then panic ''loaduvm: addr must be page aligned''
      else loaduvm_loop (Suc (unat sz div 4096)) p pgdir addr ip offset sz 0)"

definition ELF_MAGIC :: u32 where "ELF_MAGIC = 0x464C457F"
definition ELF_PROG_LOAD :: u32 where "ELF_PROG_LOAD = 1"

text \<open>The loop over the program headers: \<open>k\<close> headers left, the next one at \<open>off\<close>.\<close>

fun exec_load :: "nat \<Rightarrow> nat \<Rightarrow> u32 \<Rightarrow> nat \<Rightarrow> u32 \<Rightarrow> u32 \<Rightarrow> (cst, u32 option) kern" where
  "exec_load p ip pgdir 0 off sz = ret (Some sz)"
| "exec_load p ip pgdir (Suc k) off sz = bindk (zoom_fs p (readi ip (\<lambda>_. 0) off 32)) (\<lambda>(r, ph).
     let poff = get32 ph 4; vaddr = get32 ph 8; filesz = get32 ph 16; memsz = get32 ph 20 in
     if r \<noteq> 32 then ret None
     else if get32 ph 0 \<noteq> ELF_PROG_LOAD then exec_load p ip pgdir k (off + 32) sz
     else if memsz < filesz then ret None
     else if vaddr + memsz < vaddr then ret None
     else bindk (zoom_ck (allocuvm pgdir sz (vaddr + memsz))) (\<lambda>sz'.
       if sz' = 0 then ret None
       else if vaddr mod PGSIZE \<noteq> 0 then ret None
       else bindk (loaduvm p pgdir vaddr ip poff filesz) (\<lambda>r.
         if r < 0 then ret None else exec_load p ip pgdir k (off + 32) sz')))"

section \<open>The stack\<close>

text \<open>\<open>copyout\<close> for bytes that are given as a list.\<close>

fun copyout_bytes_loop :: "nat \<Rightarrow> u32 \<Rightarrow> u32 \<Rightarrow> u8 list \<Rightarrow> (kstate, int) kern" where
  "copyout_bytes_loop 0 pgdir va bs = (if bs \<noteq> [] then divergesk else ret 0)"
| "copyout_bytes_loop (Suc k) pgdir va bs =
     (if bs \<noteq> [] then
        (let va0 = PGROUNDDOWN va in
         bindk (uva2ka pgdir va0) (\<lambda>pa0.
           if pa0 = 0 then ret (-1)
           else (let n = min (unat (PGSIZE - (va - va0))) (length bs) in
             seqk (modk (\<lambda>s. s\<lparr>mem := put_bytes (mem s) (pa0 + (va - va0)) (\<lambda>j. bs ! j) n\<rparr>))
               (copyout_bytes_loop k pgdir (va0 + PGSIZE) (drop n bs)))))
      else ret 0)"

definition copyout_bytes :: "u32 \<Rightarrow> u32 \<Rightarrow> u8 list \<Rightarrow> (kstate, int) kern" where
  "copyout_bytes pgdir va bs = copyout_bytes_loop (length bs) pgdir va bs"

definition MAXARG :: nat where "MAXARG = 32"

text \<open>The loop over the arguments: \<open>us\<close> are the stack addresses of the arguments so far.\<close>

fun exec_args :: "u32 \<Rightarrow> u8 list list \<Rightarrow> u32 \<Rightarrow> u32 list \<Rightarrow> (cst, (u32 \<times> u32 list) option) kern" where
  "exec_args pgdir [] sp us = ret (Some (sp, us))"
| "exec_args pgdir (a # as) sp us =
     (if MAXARG \<le> length us then ret None
      else let sp' = (sp - of_nat (length a + 1)) AND NOT 3 in
        bindk (zoom_ck (copyout_bytes pgdir sp' (a @ [0]))) (\<lambda>r.
          if r < 0 then ret None else exec_args pgdir as sp' (us @ [sp'])))"

definition word_bytes :: "u32 \<Rightarrow> u8 list" where
  "word_bytes w = map (\<lambda>j. ucast (drop_bit (8 * j) w)) [0 ..< 4]"

definition ustack :: "u32 \<Rightarrow> u32 list \<Rightarrow> u32 list" where
  "ustack sp us = [0xFFFFFFFF, of_nat (length us), sp - of_nat ((length us + 1) * 4)] @ us @ [0]"

section \<open>The call\<close>

definition exec_bad :: "nat \<Rightarrow> u32 \<Rightarrow> nat option \<Rightarrow> (cst, int) kern" where
  "exec_bad p pgdir ip = seqk (whenk (pgdir \<noteq> 0) (zoom_ck (freevm pgdir)))
     (seqk (case ip of None \<Rightarrow> ret () | Some ip \<Rightarrow> zoom_fs p (seqk (iunlockput ip) end_op)) (ret (-1)))"

definition last_elem :: "u8 list \<Rightarrow> u8 list" where
  "last_elem path = rev (takeWhile (\<lambda>c. c \<noteq> 47) (rev path))"

definition cstr :: "u8 list \<Rightarrow> bytes" where
  "cstr xs = (\<lambda>k. if k < length xs then xs ! k else 0)"

definition TF_EIP :: u32 where "TF_EIP = 56"
definition TF_ESP :: u32 where "TF_ESP = 68"

definition exec_commit :: "nat \<Rightarrow> u32 \<Rightarrow> u32 \<Rightarrow> u32 \<Rightarrow> u32 \<Rightarrow> u8 list \<Rightarrow> (cst, int) kern" where
  "exec_commit p pgdir sz entry sp path = bindk (getk (\<lambda>s. ptable s ! p)) (\<lambda>curproc.
     seqk (modk (upd_proc p (\<lambda>q. q\<lparr>p_name := safestrcpy (p_name q) (cstr (last_elem path)) 16, p_pgdir := pgdir, p_sz := sz\<rparr>)))
       (seqk (modk (set_mem (\<lambda>m. store32 (store32 m (p_tf curproc + TF_EIP) entry) (p_tf curproc + TF_ESP) sp)))
         (seqk (cow_switchuvm p) (seqk (zoom_ck (freevm (p_pgdir curproc))) (ret 0)))))"

definition exec_image :: "nat \<Rightarrow> u32 \<Rightarrow> u32 \<Rightarrow> u32 \<Rightarrow> u8 list \<Rightarrow> u8 list list \<Rightarrow> (cst, int) kern" where
  "exec_image p pgdir sz0 entry path argv =
     (let sz1 = PGROUNDUP sz0 in
      bindk (zoom_ck (allocuvm pgdir sz1 (sz1 + 2 * PGSIZE))) (\<lambda>sz.
        if sz = 0 then exec_bad p pgdir None
        else seqk (zoom_ck (clearpteu pgdir (sz - 2 * PGSIZE)))
          (bindk (exec_args pgdir argv sz []) (\<lambda>r. case r of
             None \<Rightarrow> exec_bad p pgdir None
           | Some (sp, us) \<Rightarrow>
               (let sp' = sp - of_nat ((3 + length us + 1) * 4) in
                bindk (zoom_ck (copyout_bytes pgdir sp' (concat (map word_bytes (ustack sp us))))) (\<lambda>r.
                  if r < 0 then exec_bad p pgdir None else exec_commit p pgdir sz entry sp' path))))))"

text \<open>The part with the inode locked: header, address space and segments.\<close>

definition exec_elf :: "nat \<Rightarrow> nat \<Rightarrow> bytes \<Rightarrow> u8 list \<Rightarrow> u8 list list \<Rightarrow> (cst, int) kern" where
  "exec_elf p ip elf path argv = bindk (zoom_ck setupkvm) (\<lambda>pgdir.
     if pgdir = 0 then exec_bad p 0 (Some ip)
     else bindk (exec_load p ip pgdir (unat (get16 elf 44)) (get32 elf 28) 0) (\<lambda>r. case r of
         None \<Rightarrow> exec_bad p pgdir (Some ip)
       | Some sz \<Rightarrow> seqk (zoom_fs p (seqk (iunlockput ip) end_op)) (exec_image p pgdir sz (get32 elf 24) path argv)))"

definition exec_file :: "nat \<Rightarrow> nat \<Rightarrow> u8 list \<Rightarrow> u8 list list \<Rightarrow> (cst, int) kern" where
  "exec_file p ip path argv = bindk (zoom_fs p (readi ip (\<lambda>_. 0) 0 52)) (\<lambda>(r, elf).
     if r \<noteq> 52 then exec_bad p 0 (Some ip)
     else if get32 elf 0 \<noteq> ELF_MAGIC then exec_bad p 0 (Some ip)
     else exec_elf p ip elf path argv)"

definition exec :: "u8 list \<Rightarrow> u8 list list \<Rightarrow> (cst, int) kern" where
  "exec path argv = bindk myproc (\<lambda>p. seqk (zoom_fs p begin_op) (bindk (zoom_fs p (namei path)) (\<lambda>np. case np of
     None \<Rightarrow> seqk (zoom_fs p end_op) (ret (-1))
   | Some ip \<Rightarrow> seqk (zoom_fs p (ilock ip)) (exec_file p ip path argv))))"

text \<open>
  \<open>sys_exec\<close>: the loop that fetches the argument strings from the array at \<open>uargv\<close>, then the call.  \<open>u\<close> is the process as the argument functions see it.
\<close>

fun exec_argv :: "nat \<Rightarrow> u32 \<Rightarrow> u32 \<Rightarrow> 'x ust_scheme \<Rightarrow> u8 list list option" where
  "exec_argv 0 uargv i u = None"
| "exec_argv (Suc k) uargv i u = (case fetchint (uargv + 4 * i) u of
     None \<Rightarrow> None
   | Some uarg \<Rightarrow> if uarg = 0 then Some []
       else case fetchstr uarg u of None \<Rightarrow> None | Some a \<Rightarrow> map_option ((#) a) (exec_argv k uargv (i + 1) u))"

definition sys_exec :: "'x ust_scheme \<Rightarrow> (cst, int) kern" where
  "sys_exec u = (case (argstr 0 u, argint 1 u) of
     (Some path, Some uargv) \<Rightarrow>
       (case exec_argv MAXARG uargv 0 u of None \<Rightarrow> ret (-1) | Some argv \<Rightarrow> exec path argv)
   | _ \<Rightarrow> ret (-1))"

end
