(* ===== verification/Exec_Props.thy ===== *)
theory Exec_Props
  imports Exec
begin

text \<open>
  \<open>exec\<close> replaces the image of a process or leaves it alone.  Everything before the commit works on the new address space and on files.
\<close>

definition leaves :: "(cst, 'a) kern \<Rightarrow> bool" where
  "leaves m \<longleftrightarrow> (\<forall>s x t. m s = Ok (x, t) \<longrightarrow> ptable t = ptable s)"

named_theorems leave \<open>operations that leave the process table alone\<close>

lemma leaves_zoom_ck [leave]: "leaves (zoom_ck m)"
  by (auto simp: leaves_def zoom_ck_def zoomk_def split: outcome.splits)

lemma leaves_zoom_fs [leave]: "leaves (zoom_fs p m)"
  by (auto simp: leaves_def zoom_fs_def zoomk_def split: outcome.splits)

lemma leaves_ret [leave]: "leaves (ret x)"
  by (simp add: leaves_def ret_def)

lemma leaves_stop [leave]: "leaves (panic msg)" "leaves divergesk"
  by (simp_all add: leaves_def panic_def divergesk_def)

lemma leaves_set_mem [leave]: "leaves (modk (set_mem f))"
  by (auto simp: leaves_def modk_def set_mem_def)

lemma leaves_myproc [leave]: "leaves myproc"
  by (auto simp: leaves_def myproc_def split: option.splits)

lemma leaves_bind: "leaves m \<Longrightarrow> (\<And>x. leaves (f x)) \<Longrightarrow> leaves (bindk m f)"
  by (auto simp: leaves_def elim!: bindk_OkE)

lemma leaves_seq: "leaves m \<Longrightarrow> leaves k \<Longrightarrow> leaves (seqk m k)"
  unfolding seqk_def by (rule leaves_bind)

lemma leaves_getk [leave]: "leaves (getk f)"
  by (simp add: leaves_def getk_def)

lemma leaves_switchuvm [leave]: "leaves (cow_switchuvm p)"
  unfolding leaves_def cow_switchuvm_def by (auto dest: leaves_zoom_ck [unfolded leaves_def, rule_format] split: if_splits)

lemma leaves_read_page [leave]: "leaves (read_page p ip a off n)"
  unfolding read_page_def by (auto intro!: leaves_bind leaves_seq leave split: prod.splits)

lemma leaves_loaduvm_loop: "leaves (loaduvm_loop k p pgdir addr ip offset sz i)"
  by (induction k arbitrary: i) (auto simp: Let_def intro!: leaves_bind leave)

lemma leaves_loaduvm [leave]: "leaves (loaduvm p pgdir addr ip offset sz)"
  by (simp add: loaduvm_def leaves_loaduvm_loop leave del: loaduvm_loop.simps)

lemma leaves_exec_load [leave]: "leaves (exec_load p ip pgdir k off sz)"
  by (induction k arbitrary: off sz) (auto simp: Let_def intro!: leaves_bind leave split: prod.splits)

lemma leaves_exec_args [leave]: "leaves (exec_args pgdir as sp us)"
  by (induction as arbitrary: sp us) (auto simp: Let_def intro!: leaves_bind leave)

lemma leaves_whenk [leave]: "leaves m \<Longrightarrow> leaves (whenk b m)"
  by (simp add: whenk_def leave)

section \<open>The result\<close>

definition replaced :: "nat \<Rightarrow> proc list \<Rightarrow> proc list \<Rightarrow> u8 list \<Rightarrow> bool" where
  "replaced p ps qs path \<longleftrightarrow> (\<exists>pgdir sz. pgdir \<noteq> 0 \<and> sz \<noteq> 0 \<and> qs = ps[p := (ps ! p)
     \<lparr>p_name := safestrcpy (p_name (ps ! p)) (cstr (last_elem path)) 16, p_pgdir := pgdir, p_sz := sz\<rparr>])"

definition all_or_nothing :: "nat \<Rightarrow> u8 list \<Rightarrow> proc list \<Rightarrow> (int \<times> cst) outcome \<Rightarrow> bool" where
  "all_or_nothing p path ps r \<longleftrightarrow> (\<forall>x t. r = Ok (x, t) \<longrightarrow>
     x = -1 \<and> ptable t = ps \<or> x = 0 \<and> replaced p ps (ptable t) path)"

lemma all_or_nothing_bind:
  assumes "leaves m" "ptable s = ps" "\<And>x t. ptable t = ps \<Longrightarrow> all_or_nothing p path ps (f x t)"
  shows "all_or_nothing p path ps (bindk m f s)"
  unfolding all_or_nothing_def
proof (intro allI impI)
  fix y u assume "bindk m f s = Ok (y, u)"
  then obtain x t where t: "m s = Ok (x, t)" "f x t = Ok (y, u)" by (rule bindk_OkE)
  then have "ptable t = ps" using assms(1,2) by (auto simp: leaves_def)
  then show "y = -1 \<and> ptable u = ps \<or> y = 0 \<and> replaced p ps (ptable u) path"
    using assms(3) t(2) unfolding all_or_nothing_def by blast
qed

lemma all_or_nothing_seq:
  "leaves m \<Longrightarrow> ptable s = ps \<Longrightarrow> (\<And>t. ptable t = ps \<Longrightarrow> all_or_nothing p path ps (k t)) \<Longrightarrow> all_or_nothing p path ps (seqk m k s)"
  unfolding seqk_def by (rule all_or_nothing_bind)

lemma exec_bad_fails:
  assumes "ptable s = ps"
  shows "all_or_nothing p path ps (exec_bad q pgdir ip s)"
proof -
  have "leaves (case ip of None \<Rightarrow> ret () | Some ip \<Rightarrow> zoom_fs q (seqk (iunlockput ip) end_op))"
    by (cases ip) (simp_all add: leave)
  then show ?thesis
    unfolding exec_bad_def using assms
    by (intro all_or_nothing_seq leave) (auto simp: all_or_nothing_def ret_def)
qed

lemma bindk_getk: "bindk (getk f) g s = g (f s) s" and bindk_modk: "bindk (modk h) k s = k () (h s)"
  by (simp_all add: bindk_def getk_def modk_def)

lemma bindk_myproc: "cproc s = Some p \<Longrightarrow> bindk myproc f s = f p s"
  by (simp add: bindk_def myproc_def)

lemma exec_commit_replaces:
  assumes "ptable s = ps" "pgdir \<noteq> 0" "sz \<noteq> 0"
  shows "all_or_nothing p path ps (exec_commit p pgdir sz entry sp path s)"
  unfolding all_or_nothing_def
proof (intro allI impI disjI2)
  fix x t assume run: "exec_commit p pgdir sz entry sp path s = Ok (x, t)"
  let ?f = "\<lambda>q :: proc. q\<lparr>p_name := safestrcpy (p_name q) (cstr (last_elem path)) 16, p_pgdir := pgdir, p_sz := sz\<rparr>"
  let ?m = "\<lambda>m. store32 (store32 m (p_tf (ptable s ! p) + TF_EIP) entry) (p_tf (ptable s ! p) + TF_ESP) sp"
  let ?u = "set_mem ?m (upd_proc p ?f s)"
  have "bindk (cow_switchuvm p) (\<lambda>_. bindk (zoom_ck (freevm (p_pgdir (ptable s ! p)))) (\<lambda>_. ret 0)) ?u = Ok (x, t)"
    using run unfolding exec_commit_def seqk_def bindk_getk bindk_modk .
  then obtain v w where v: "cow_switchuvm p ?u = Ok ((), v)" "zoom_ck (freevm (p_pgdir (ptable s ! p))) v = Ok ((), w)"
      "ret 0 w = Ok (x, t)"
    by (auto elim!: bindk_OkE)
  have "ptable v = ptable ?u" using leaves_switchuvm v(1) unfolding leaves_def by blast
  moreover have "ptable w = ptable v"
    using leaves_zoom_ck [of "freevm (p_pgdir (ptable s ! p))"] v(2) unfolding leaves_def by blast
  ultimately have "ptable w = ps[p := ?f (ps ! p)]" using assms(1) by (simp add: set_mem_def upd_proc_def)
  then show "x = 0 \<and> replaced p ps (ptable t) path"
    using v(3) assms(2,3) by (auto simp: ret_def replaced_def)
qed

lemma all_or_nothing_if:
  "(b \<Longrightarrow> all_or_nothing p path ps (m s)) \<Longrightarrow> (\<not> b \<Longrightarrow> all_or_nothing p path ps (k s)) \<Longrightarrow>
   all_or_nothing p path ps ((if b then m else k) s)"
  by simp

lemma all_or_nothing_fail: "ptable s = ps \<Longrightarrow> all_or_nothing p path ps (ret (-1) s)"
  by (simp add: all_or_nothing_def ret_def)

lemmas aon = all_or_nothing_fail all_or_nothing_bind all_or_nothing_seq all_or_nothing_if exec_bad_fails

lemma exec_image_result:
  assumes "ptable s = ps" "pgdir \<noteq> 0"
  shows "all_or_nothing p path ps (exec_image p pgdir sz entry path argv s)"
  unfolding exec_image_def Let_def
  apply (intro aon leave assms(1); assumption?)
  subgoal for sz' t u r v
    using assms(2)
    by (cases r) (auto intro!: aon leave exec_commit_replaces split: prod.splits)
  done

lemma exec_elf_result:
  "ptable s = ps \<Longrightarrow> all_or_nothing p path ps (exec_elf p ip elf path argv s)"
  unfolding exec_elf_def
  apply (intro aon leave; assumption?)
  subgoal for pgdir t r u by (cases r) (auto intro!: aon leave exec_image_result)
  done

lemma exec_file_result:
  "ptable s = ps \<Longrightarrow> all_or_nothing p path ps (exec_file p ip path argv s)"
  unfolding exec_file_def
  by (intro aon leave; assumption?) (auto intro!: aon exec_elf_result split: prod.splits)

text \<open>
  C16: \<open>exec\<close> is all or nothing.  Whenever it returns, either the result is -1 and the process table is unchanged, so that the process goes on with its old
  image, on every failure path: a missing or malformed file, no memory, too many or too long arguments; or the result is 0 and exactly the name, the page directory and
  the size of the calling process have been replaced.
\<close>

theorem exec_all_or_nothing:
  assumes "exec path argv s = Ok (r, t)" "cproc s = Some p"
  shows "r = -1 \<and> ptable t = ptable s \<or> r = 0 \<and> replaced p (ptable s) (ptable t) path"
proof -
  have "all_or_nothing p path (ptable s)
      (seqk (zoom_fs p begin_op) (bindk (zoom_fs p (namei path)) (\<lambda>np. case np of
         None \<Rightarrow> seqk (zoom_fs p end_op) (ret (-1))
       | Some ip \<Rightarrow> seqk (zoom_fs p (ilock ip)) (exec_file p ip path argv))) s)"
    apply (intro aon leave refl; assumption?)
    subgoal for t np u
      by (cases np) (auto intro!: aon leave exec_file_result)
    done
  then show ?thesis
    using assms unfolding all_or_nothing_def exec_def bindk_myproc [OF assms(2)] by blast
qed

text \<open>
  The example process calls \<open>exec\<close> on its current directory, here an empty file.  \<open>ex_fs n r l\<close> is its file system with \<open>n\<close> calls in the log and
  the count \<open>r\<close> and lock \<open>l\<close> of the directory.
\<close>

definition ex_fs :: "int \<Rightarrow> int \<Rightarrow> sleeplock \<Rightarrow> filest" where
  "ex_fs n r l = ex_cfs\<lparr>curpid := 2, mykilled := False, mycwd := 0, log_outstanding := n,
     inodes := (inodes ex_cfs)(0 := (inodes ex_cfs 0)\<lparr>i_size := 0, i_ref := r, i_lock := l\<rparr>)\<rparr>"

definition unlocked :: sleeplock where "unlocked = \<lparr>sl_locked = False, sl_pid = 0\<rparr>"
definition locked2 :: sleeplock where "locked2 = \<lparr>sl_locked = True, sl_pid = 2\<rparr>"

lemmas ex_fs_defs = ex_fs_def ex_cfs_def unlocked_def locked2_def

lemma ex_fs_steps:
  "begin_op (ex_fs 0 3 unlocked) = Ok ((), ex_fs 1 3 unlocked)"
  "namei [] (ex_fs 1 3 unlocked) = Ok (Some 0, ex_fs 1 4 unlocked)"
  "ilock 0 (ex_fs 1 4 unlocked) = Ok ((), ex_fs 1 4 locked2)"
  "readi 0 d 0 52 (ex_fs 1 4 locked2) = Ok ((0, d), ex_fs 1 4 locked2)"
  "iunlockput 0 (ex_fs 1 4 locked2) = Ok ((), ex_fs 1 3 unlocked)"
  "\<exists>f. end_op (ex_fs 1 3 unlocked) = Ok ((), f)"
  by (simp_all add: ex_fs_defs begin_op_def MAXOPBLOCKS_def LOGSIZE_def namei_def namex_def namex_loop.simps skipelem_def skip_slashes_def
      idup_def upd_inode_def kern_simps ilock_def inode_sleep_def inode_release_def acquiresleep_def holdingsleep_def Let_def zoomk_def
      readi_def T_DEV_def readi_loop.simps iunlockput_def iunlock_def iput_def end_op_def commit_def)

definition ex_exec :: cst where
  "ex_exec = ex_cst\<lparr>cfs := ex_fs 0 3 unlocked\<rparr>"

lemma ex_zoom:
  "m (ex_fs n r l) = Ok (x, f) \<Longrightarrow> zoom_fs 1 m (ex_cst\<lparr>cfs := ex_fs n r l\<rparr>) = Ok (x, ex_cst\<lparr>cfs := f\<rparr>)"
proof -
  have "proc_fs 1 (ex_cst\<lparr>cfs := ex_fs n r l\<rparr>) = ex_fs n r l"
    by (simp add: proc_fs_def ex_cst_def ex_cproc_def ex_fs_defs Let_def)
  then show "m (ex_fs n r l) = Ok (x, f) \<Longrightarrow> ?thesis" by (simp add: zoom_fs_def zoomk_def)
qed

lemma ex_exec_fails: "\<exists>t. exec [] [] ex_exec = Ok (-1, t)"
proof -
  have cur: "cproc (ex_cst\<lparr>cfs := ex_fs 0 3 unlocked\<rparr>) = Some 1" by (simp add: ex_cst_def)
  obtain f where f: "end_op (ex_fs 1 3 unlocked) = Ok ((), f)" using ex_fs_steps(6) by blast
  have put: "seqk (iunlockput 0) end_op (ex_fs 1 4 locked2) = Ok ((), f)"
    using ex_fs_steps(5) f by (simp add: seqk_def bindk_def)
  let ?s = "\<lambda>n r l. ex_cst\<lparr>cfs := ex_fs n r l\<rparr>"
  have z: "zoom_fs 1 begin_op (?s 0 3 unlocked) = Ok ((), ?s 1 3 unlocked)"
    "zoom_fs 1 (namei []) (?s 1 3 unlocked) = Ok (Some 0, ?s 1 4 unlocked)"
    "zoom_fs 1 (ilock 0) (?s 1 4 unlocked) = Ok ((), ?s 1 4 locked2)"
    "zoom_fs 1 (readi 0 (\<lambda>_. 0) 0 52) (?s 1 4 locked2) = Ok ((0, \<lambda>_. 0), ?s 1 4 locked2)"
    "zoom_fs 1 (seqk (iunlockput 0) end_op) (?s 1 4 locked2) = Ok ((), ex_cst\<lparr>cfs := f\<rparr>)"
    by (rule ex_zoom, rule ex_fs_steps put)+
  note run = bindk_def outcome.case prod.case option.case
  have bad: "exec_bad 1 0 (Some 0) (?s 1 4 locked2) = Ok (-1, ex_cst\<lparr>cfs := f\<rparr>)"
    unfolding exec_bad_def seqk_def [of "whenk _ _"] seqk_def [of "case_option _ _ _"] by (simp only: run z whenk_def ret_def if_False simp_thms)
  have "exec_file 1 0 [] [] (?s 1 4 locked2) = Ok (-1, ex_cst\<lparr>cfs := f\<rparr>)"
    unfolding exec_file_def run z using bad by simp
  then show ?thesis
    unfolding exec_def ex_exec_def bindk_myproc [OF cur] unfolding seqk_def run z by simp
qed

theorem exec_all_or_nothing_witness:
  "\<exists>t. exec [] [] ex_exec = Ok (-1, t) \<and> ptable t = ptable ex_exec"
proof -
  obtain t where t: "exec [] [] ex_exec = Ok (-1, t)" using ex_exec_fails by blast
  have "cproc ex_exec = Some 1" by (simp add: ex_exec_def ex_cst_def)
  then show ?thesis using exec_all_or_nothing [OF t] t by auto
qed

end
