(* ===== verification/Console.thy ===== *)
theory Console
  imports Proc Ulib
begin

unbundle bit_operations_syntax

text \<open>
  The console (\<open>console.c\<close>): the screen, formatted output of the kernel, and the line editor for keyboard and serial input.  The input buffer is a ring of
  128 bytes with three free-running 32-bit indices: what has been read, what is ready to be read, and what is being
  edited.  \<open>crt\<close> is the memory of the screen as an array of 16-bit cells and \<open>cursor\<close> the position in the registers of its controller; \<open>uart\<close>
  collects the bytes sent to the serial port.
\<close>

section \<open>The screen\<close>

record consst = "proc pst" +
  crt :: "nat \<Rightarrow> u16"
  cursor :: nat
  uart :: "u8 list"
  panicked :: bool
  locking :: bool
  ibuf :: "nat \<Rightarrow> u8"
  ir :: u32
  iw :: u32
  ie :: u32

type_synonym 'r ckern = "(consst, 'r) kern"

definition BACKSPACE :: u32 where "BACKSPACE = 0x100"

definition scroll :: "nat \<Rightarrow> (nat \<Rightarrow> u16) \<Rightarrow> nat \<Rightarrow> u16" where
  "scroll pos m = (\<lambda>k. if pos \<le> k \<and> k < 24 * 80 then 0 else if k < 23 * 80 then m (k + 80) else m k)"

definition cgaputc :: "u32 \<Rightarrow> unit ckern" where
  "cgaputc c = (\<lambda>s.
     let pos = cursor s;
         m = (if c = 10 \<or> c = BACKSPACE then crt s else (crt s)(pos := ucast (c AND 0xFF) OR 0x0700));
         pos1 = (if c = 10 then pos + (80 - pos mod 80) else if c = BACKSPACE then pos - 1 else pos + 1) in
     if 25 * 80 < pos1 then Panic ''pos under/overflow''
     else let up = (24 \<le> pos1 div 80);
              pos2 = (if up then pos1 - 80 else pos1);
              m2 = (if up then scroll pos2 m else m) in
       Ok ((), s\<lparr>crt := m2(pos2 := 0x0720), cursor := pos2\<rparr>))"

definition consputc :: "u32 \<Rightarrow> unit ckern" where
  "consputc c = (\<lambda>s. if panicked s then Diverges
     else seqk (modk (\<lambda>s. s\<lparr>uart := uart s @ (if c = BACKSPACE then [8, 32, 8] else [ucast c])\<rparr>)) (cgaputc c) s)"

fun consputs :: "u32 list \<Rightarrow> unit ckern" where
  "consputs [] = ret ()"
| "consputs (c # cs) = seqk (consputc c) (consputs cs)"

section \<open>Formatted output\<close>

definition low_digit :: "u32 \<Rightarrow> u8" where
  "low_digit d = [48, 49, 50, 51, 52, 53, 54, 55, 56, 57, 97, 98, 99, 100, 101, 102] ! unat d"

text \<open>The digits from position \<open>i\<close> of the 16-byte buffer on, the last first.\<close>

function low_digits :: "nat \<Rightarrow> u32 \<Rightarrow> u32 \<Rightarrow> u8 list option" where
  "low_digits i base x =
     (if 16 \<le> i then None
      else if x div base = 0 then Some [low_digit (x mod base)]
      else map_option ((#) (low_digit (x mod base))) (low_digits (Suc i) base (x div base)))"
  by auto
termination by (relation "measure (\<lambda>(i, base, x). 16 - i)") auto

declare low_digits.simps [simp del]

definition kprintint :: "u32 \<Rightarrow> u32 \<Rightarrow> bool \<Rightarrow> u8 list option" where
  "kprintint xx base sg =
     (let neg = (sg \<and> xx <s 0); x = (if neg then - xx else xx) in
      case low_digits 0 base x of
        None \<Rightarrow> None
      | Some ds \<Rightarrow> if neg then (if 16 \<le> length ds then None else Some (rev (ds @ [45]))) else Some (rev ds))"

text \<open>The characters of \<open>cprintf\<close>; \<open>ap k\<close> is the \<open>k\<close>-th word after the format on the stack, \<open>strs\<close> the string at an address.\<close>

fun cprintf_chars :: "(u32 \<Rightarrow> u8 list) \<Rightarrow> (nat \<Rightarrow> u32) \<Rightarrow> nat \<Rightarrow> u8 list \<Rightarrow> u8 list option" where
  "cprintf_chars strs ap k [] = Some []"
| "cprintf_chars strs ap k [c] = (if c \<noteq> 37 then Some [c] else Some [])"
| "cprintf_chars strs ap k (c # d # fmt) =
     (if c \<noteq> 37 then map_option ((#) c) (cprintf_chars strs ap k (d # fmt))
      else if d = 100 then
        (case kprintint (ap k) 10 True of None \<Rightarrow> None | Some ds \<Rightarrow> map_option ((@) ds) (cprintf_chars strs ap (Suc k) fmt))
      else if d = 120 \<or> d = 112 then
        (case kprintint (ap k) 16 False of None \<Rightarrow> None | Some ds \<Rightarrow> map_option ((@) ds) (cprintf_chars strs ap (Suc k) fmt))
      else if d = 115 then map_option ((@) (string_arg strs (ap k))) (cprintf_chars strs ap (Suc k) fmt)
      else if d = 37 then map_option ((#) 37) (cprintf_chars strs ap k fmt)
      else map_option (\<lambda>r. 37 # d # r) (cprintf_chars strs ap k fmt))"

definition cprintf :: "(u32 \<Rightarrow> u8 list) \<Rightarrow> (nat \<Rightarrow> u32) \<Rightarrow> u8 list \<Rightarrow> unit ckern" where
  "cprintf strs ap fmt = bindk (getk locking) (\<lambda>lock.
     seqk (whenk lock (acquirep CONS))
       (seqk (case cprintf_chars strs ap 0 fmt of
                None \<Rightarrow> undefinedk ''printint: buffer''
              | Some cs \<Rightarrow> consputs (map ucast cs))
         (whenk lock (releasep CONS))))"

text \<open>
  \<open>panic\<close> up to the endless loop it ends in: \<open>lapicid\<close> is the number of the CPU, \<open>pcs\<close> what \<open>getcallerpcs\<close> finds, \<open>ap\<close> the words on
  the stack that a percent sign in the message would print.
\<close>

definition ascii :: "string \<Rightarrow> u8 list" where "ascii = map of_char"

fun print_pcs :: "u32 list \<Rightarrow> unit ckern" where
  "print_pcs [] = ret ()"
| "print_pcs (p # pcs) = seqk (cprintf (\<lambda>_. []) (\<lambda>_. p) (ascii '' %p'')) (print_pcs pcs)"

definition kpanic :: "(u32 \<Rightarrow> u8 list) \<Rightarrow> (nat \<Rightarrow> u32) \<Rightarrow> u32 \<Rightarrow> u32 list \<Rightarrow> u8 list \<Rightarrow> unit ckern" where
  "kpanic strs ap lapicid pcs msg =
     seqk (modk (\<lambda>s. s\<lparr>lk := upd_cpu 0 (\<lambda>c. c\<lparr>fl_if := False\<rparr>) (lk s), locking := False\<rparr>))
       (seqk (cprintf strs (\<lambda>_. lapicid) (ascii ''lapicid %d: panic: ''))
         (seqk (cprintf strs ap msg)
           (seqk (cprintf strs ap [10])
             (seqk (print_pcs pcs) (modk (\<lambda>s. s\<lparr>panicked := True\<rparr>))))))"

section \<open>The line editor\<close>

definition INPUT_BUF :: u32 where "INPUT_BUF = 128"

definition islot :: "u32 \<Rightarrow> nat" where
  "islot i = unat (i mod INPUT_BUF)"

text \<open>Kill line: the state and the number of characters erased.\<close>

function kill_line :: "consst \<Rightarrow> nat \<times> consst" where
  "kill_line s =
     (if ie s \<noteq> iw s \<and> ibuf s (islot (ie s - 1)) \<noteq> 10
      then map_prod Suc id (kill_line (s\<lparr>ie := ie s - 1\<rparr>)) else (0, s))"
  by auto
termination
proof (relation "measure (\<lambda>s. unat (ie s - iw s))")
  fix s :: consst assume "ie s \<noteq> iw s \<and> ibuf s (islot (ie s - 1)) \<noteq> 10"
  then have n: "ie s - iw s \<noteq> 0" by simp
  have eq: "ie s - 1 - iw s = (ie s - iw s) - 1" by (simp add: algebra_simps)
  have "unat (ie s - 1 - iw s) = unat (ie s - iw s) - 1" unfolding eq by (rule unat_minus_one [OF n])
  moreover have "0 < unat (ie s - iw s)" using n unfolding unat_gt_0 .
  ultimately show "(s\<lparr>ie := ie s - 1\<rparr>, s) \<in> measure (\<lambda>s. unat (ie s - iw s))" by simp
qed simp

declare kill_line.simps [simp del]

text \<open>One character: the new state, what is echoed, and whether readers are woken.\<close>

definition edit_char :: "u8 \<Rightarrow> consst \<Rightarrow> consst \<times> u32 list \<times> bool" where
  "edit_char c s =
     (if c = 16 then (s, [], False)
      else if c = 21 then (let (k, t) = kill_line s in (t, replicate k BACKSPACE, False))
      else if c = 8 \<or> c = 127 then
        (if ie s \<noteq> iw s then (s\<lparr>ie := ie s - 1\<rparr>, [BACKSPACE], False) else (s, [], False))
      else if c \<noteq> 0 \<and> ie s - ir s < INPUT_BUF then
        (let d = (if c = 13 then 10 else c);
             t = s\<lparr>ibuf := (ibuf s)(islot (ie s) := d), ie := ie s + 1\<rparr> in
         if d = 10 \<or> d = 4 \<or> ie t = ir t + INPUT_BUF then (t\<lparr>iw := ie t\<rparr>, [ucast d], True) else (t, [ucast d], False))
      else (s, [], False))"

text \<open>\<open>consoleintr\<close> on the characters that \<open>getc\<close> delivers; the result says whether \<open>procdump\<close> follows.\<close>

fun consoleintr_loop :: "u8 list \<Rightarrow> bool \<Rightarrow> bool ckern" where
  "consoleintr_loop [] dump = ret dump"
| "consoleintr_loop (c # cs) dump = (\<lambda>s. case edit_char c s of (t, echo, wk) \<Rightarrow>
     seqk (consputs echo) (seqk (whenk wk (wakeup ChanInput)) (consoleintr_loop cs (dump \<or> c = 16))) t)"

definition consoleintr :: "u8 list \<Rightarrow> bool ckern" where
  "consoleintr cs = seqk (acquirep CONS) (bindk (consoleintr_loop cs False) (\<lambda>dump. seqk (releasep CONS) (ret dump)))"

section \<open>Reading and writing\<close>

text \<open>
  The loop of \<open>consoleread\<close> with \<open>n\<close> of \<open>target\<close> bytes to go: the bytes it takes, and whether it ends, fails or sleeps with some bytes to go.
\<close>

datatype cres = CDone | CKilled | CSleep nat

fun consoleread_loop :: "bool \<Rightarrow> nat \<Rightarrow> nat \<Rightarrow> consst \<Rightarrow> u8 list \<times> cres \<times> consst" where
  "consoleread_loop killed target 0 s = ([], CDone, s)"
| "consoleread_loop killed target (Suc n) s =
     (if ir s = iw s then ([], if killed then CKilled else CSleep (Suc n), s)
      else let c = ibuf s (islot (ir s)); t = s\<lparr>ir := ir s + 1\<rparr> in
        if c = 4 then ([], CDone, if Suc n < target then s else t)
        else if c = 10 then ([c], CDone, t)
        else map_prod ((#) c) id (consoleread_loop killed target n t))"

text \<open>
  From the call or a wake-up to the return (\<open>Inl\<close>, with the value and the bytes stored) or the switch to the scheduler (\<open>Inr\<close>).  The lock of the
  device's inode, which the code releases and takes back around this, is not part of the state.
\<close>

definition consoleread_step :: "nat \<Rightarrow> nat \<Rightarrow> u8 list \<Rightarrow> (int \<times> u8 list + nat \<times> u8 list \<times> bool) ckern" where
  "consoleread_step target n got = bindk myproc (\<lambda>i s.
     case consoleread_loop (p_killed (ptable s ! i)) target n s of (bs, r, t) \<Rightarrow>
       (case r of
          CDone \<Rightarrow> seqk (releasep CONS) (ret (Inl (int (length (got @ bs)), got @ bs)))
        | CKilled \<Rightarrow> seqk (releasep CONS) (ret (Inl (-1, got @ bs)))
        | CSleep k \<Rightarrow> bindk (sleep_enter ChanInput CONS) (\<lambda>b. ret (Inr (k, got @ bs, b)))) t)"

definition consoleread :: "nat \<Rightarrow> (int \<times> u8 list + nat \<times> u8 list \<times> bool) ckern" where
  "consoleread n = seqk (acquirep CONS) (consoleread_step n n [])"

definition consoleread_again :: "bool \<Rightarrow> nat \<Rightarrow> nat \<Rightarrow> u8 list \<Rightarrow> (int \<times> u8 list + nat \<times> u8 list \<times> bool) ckern" where
  "consoleread_again b target k got = seqk (sleep_exit b CONS) (consoleread_step target k got)"

definition consolewrite :: "u8 list \<Rightarrow> nat ckern" where
  "consolewrite bs = seqk (acquirep CONS) (seqk (consputs (map ucast bs)) (seqk (releasep CONS) (ret (length bs))))"

definition consoleinit :: "unit ckern" where
  "consoleinit = seqk (zoomk lk (\<lambda>k s. s\<lparr>lk := k\<rparr>) (initlock CONS)) (modk (\<lambda>s. s\<lparr>locking := True\<rparr>))"

end
