(* ===== verification/Console_Props.thy ===== *)
theory Console_Props
  imports Console
begin

text \<open>
  The line editor of the console as two lists: the bytes ready to be read and the line being edited.
\<close>

section \<open>The ring as lists\<close>

definition clen :: "consst \<Rightarrow> nat" where
  "clen s = unat (ie s - ir s)"

definition rlen :: "consst \<Rightarrow> nat" where
  "rlen s = unat (iw s - ir s)"

definition cells :: "consst \<Rightarrow> u8 list" where
  "cells s = map (\<lambda>k. ibuf s (islot (ir s + of_nat k))) [0 ..< clen s]"

definition ready_bytes :: "consst \<Rightarrow> u8 list" where
  "ready_bytes s = take (rlen s) (cells s)"

definition edit_line :: "consst \<Rightarrow> u8 list" where
  "edit_line s = drop (rlen s) (cells s)"

definition input_ok :: "consst \<Rightarrow> bool" where
  "input_ok s \<longleftrightarrow> rlen s \<le> clen s \<and> clen s \<le> 128 \<and> 10 \<notin> set (edit_line s)"

lemma length_cells [simp]: "length (cells s) = clen s"
  by (simp add: cells_def)

lemma islot_add: "islot (a + of_nat k) = (unat a + k) mod 128"
proof -
  have "unat (a + of_nat k :: u32) = (unat a + k) mod 2 ^ 32"
    by (simp add: unat_word_ariths unat_of_nat mod_add_right_eq)
  moreover have "m mod 2 ^ 32 mod 128 = m mod (128 :: nat)" for m by (rule mod_mod_cancel) simp
  ultimately show ?thesis by (simp add: islot_def INPUT_BUF_def unat_mod)
qed

lemma islots_distinct:
  assumes "j < k" "k < 128" shows "(a + j) mod 128 \<noteq> (a + k) mod (128 :: nat)"
proof
  assume "(a + j) mod 128 = (a + k) mod 128"
  then have "128 dvd (a + k) - (a + j)" using assms(1) by (metis add_left_mono less_imp_le mod_eq_dvd_iff_nat)
  then show False using assms by (auto dest: dvd_imp_le)
qed

lemma ie_eq: "ie s = ir s + of_nat (clen s)" and iw_eq: "iw s = ir s + of_nat (rlen s)"
  by (simp_all add: clen_def rlen_def)

lemma editing_empty: "input_ok s \<Longrightarrow> ie s = iw s \<longleftrightarrow> edit_line s = []"
proof -
  assume ok: "input_ok s"
  have "ie s = iw s \<longleftrightarrow> ie s - ir s = iw s - ir s" by (metis diff_add_cancel)
  also have "\<dots> \<longleftrightarrow> clen s = rlen s" by (simp add: clen_def rlen_def word_unat_eq_iff)
  finally show ?thesis using ok by (auto simp: edit_line_def input_ok_def)
qed

lemma nothing_ready: "input_ok s \<Longrightarrow> ir s = iw s \<longleftrightarrow> ready_bytes s = []"
proof -
  assume ok: "input_ok s"
  have "ir s = iw s \<longleftrightarrow> rlen s = 0" by (auto simp: rlen_def unat_eq_0)
  then show ?thesis using ok by (auto simp: ready_bytes_def input_ok_def simp flip: length_0_conv)
qed

lemma ready_edit: "ready_bytes s @ edit_line s = cells s"
  by (simp add: ready_bytes_def edit_line_def)

text \<open>The three moves of the indices.\<close>

lemma back_cells:
  assumes "input_ok s" "edit_line s \<noteq> []"
  shows "input_ok (s\<lparr>ie := ie s - 1\<rparr>)" "ready_bytes (s\<lparr>ie := ie s - 1\<rparr>) = ready_bytes s"
    "edit_line (s\<lparr>ie := ie s - 1\<rparr>) = butlast (edit_line s)" "ibuf s (islot (ie s - 1)) = last (edit_line s)"
proof -
  let ?t = "s\<lparr>ie := ie s - 1\<rparr>"
  have lt: "rlen s < clen s" using assms by (auto simp: edit_line_def input_ok_def)
  have nz: "ie s - ir s \<noteq> 0" using lt by (auto simp: clen_def)
  have eq: "ie s - 1 - ir s = (ie s - ir s) - 1" by (simp add: algebra_simps)
  have "unat (ie s - 1 - ir s) = unat (ie s - ir s) - 1" unfolding eq by (rule unat_minus_one [OF nz])
  then have len: "clen ?t = clen s - 1" "rlen ?t = rlen s" by (simp_all add: clen_def rlen_def)
  have c: "cells ?t = butlast (cells s)"
    by (simp add: cells_def len butlast_conv_take take_map)
  have split: "cells s = ready_bytes s @ edit_line s" by (simp add: ready_edit)
  show r: "ready_bytes ?t = ready_bytes s"
  proof -
    have "rlen s \<le> clen s - 1" using lt by linarith
    then show ?thesis by (simp add: ready_bytes_def c len butlast_conv_take min_absorb1)
  qed
  show e: "edit_line ?t = butlast (edit_line s)"
    using lt by (simp add: edit_line_def c len butlast_conv_take drop_take)
  have "set (butlast (edit_line s)) \<subseteq> set (edit_line s)" by (auto dest: in_set_butlastD)
  then show "input_ok ?t" using assms(1) lt e by (auto simp: input_ok_def len)
  have last: "ie s - 1 = ir s + of_nat (clen s - 1)"
    using ie_eq [of s] lt by (simp add: of_nat_diff algebra_simps)
  have "ibuf s (islot (ie s - 1)) = cells s ! (clen s - 1)" using lt unfolding last by (simp add: cells_def)
  also have "\<dots> = last (cells s)"
  proof -
    have "cells s \<noteq> []" using lt by (simp add: cells_def)
    then show ?thesis by (simp add: last_conv_nth)
  qed
  also have "\<dots> = last (edit_line s)" using assms(2) by (simp add: split)
  finally show "ibuf s (islot (ie s - 1)) = last (edit_line s)" .
qed

lemma push_cells:
  fixes d
  assumes "input_ok s" "clen s < 128"
  defines "t \<equiv> s\<lparr>ibuf := (ibuf s)(islot (ie s) := d), ie := ie s + 1\<rparr>"
  shows "cells t = cells s @ [d]" "clen t = Suc (clen s)" "rlen t = rlen s"
proof -
  have eq: "ie s + 1 - ir s = (ie s - ir s) + 1" by (simp add: algebra_simps)
  have "unat (ie s + 1 - ir s) = (clen s + 1) mod 2 ^ 32"
    unfolding eq clen_def by (simp only: unat_word_ariths unat_1) simp
  then show len: "clen t = Suc (clen s)" using assms(2) by (simp add: clen_def t_def)
  show "rlen t = rlen s" by (simp add: rlen_def t_def)
  have slot: "islot (ie s) = (unat (ir s) + clen s) mod 128" using islot_add [of "ir s" "clen s"] ie_eq [of s] by simp
  have "ibuf t (islot (ir s + of_nat k)) = ibuf s (islot (ir s + of_nat k))" if "k < clen s" for k
    using islots_distinct [OF that assms(2), of "unat (ir s)"] by (simp add: t_def slot islot_add)
  moreover have "ibuf t (islot (ir s + of_nat (clen s))) = d" by (simp add: t_def slot islot_add)
  ultimately show "cells t = cells s @ [d]" unfolding cells_def len by (simp add: t_def)
qed

lemma get_cells:
  assumes "input_ok s" "ready_bytes s = c # cs"
  defines "t \<equiv> s\<lparr>ir := ir s + 1\<rparr>"
  shows "ibuf s (islot (ir s)) = c" "ready_bytes t = cs" "edit_line t = edit_line s" "input_ok t"
proof -
  have r1: "0 < rlen s" using assms(2) by (cases "rlen s") (simp_all add: ready_bytes_def)
  have r: "0 < rlen s" "0 < clen s" using r1 assms(1) by (simp_all add: input_ok_def)
  obtain m where m: "clen s = Suc m" using r(2) gr0_implies_Suc by blast
  obtain q where q: "rlen s = Suc q" using r(1) gr0_implies_Suc by blast
  have nz: "ie s - ir s \<noteq> 0" "iw s - ir s \<noteq> 0" using r by (auto simp: clen_def rlen_def)
  have "clen t = m" "rlen t = q"
    using unat_minus_one [OF nz(1)] unat_minus_one [OF nz(2)] m q by (simp_all add: t_def clen_def rlen_def diff_diff_eq)
  note len = this
  have "[0 ..< Suc m] = 0 # map Suc [0 ..< m]" by (simp add: map_Suc_upt upt_conv_Cons del: upt_Suc)
  then have c: "cells s = ibuf s (islot (ir s)) # cells t"
    unfolding cells_def len m by (simp add: t_def add.assoc)
  show "ibuf s (islot (ir s)) = c" "ready_bytes t = cs" "edit_line t = edit_line s"
    using assms(2) c len q by (simp_all add: ready_bytes_def edit_line_def)
  then show "input_ok t" using assms(1) len m q by (simp add: input_ok_def)
qed

lemma kill_line_clears:
  assumes "input_ok s"
  shows "fst (kill_line s) = length (edit_line s)" "input_ok (snd (kill_line s))"
    "ready_bytes (snd (kill_line s)) = ready_bytes s" "edit_line (snd (kill_line s)) = []"
proof -
  have "fst (kill_line s) = length (edit_line s) \<and> input_ok (snd (kill_line s)) \<and>
    ready_bytes (snd (kill_line s)) = ready_bytes s \<and> edit_line (snd (kill_line s)) = []"
    using assms
  proof (induction "length (edit_line s)" arbitrary: s)
    case 0
    then have "ie s = iw s" using editing_empty by auto
    then show ?case using 0 by (subst (1 2 3 4) kill_line.simps) simp
  next
    case (Suc n)
    have e: "edit_line s \<noteq> []" "ie s \<noteq> iw s" using Suc.hyps(2) editing_empty [OF Suc.prems] by auto
    note b = back_cells [OF Suc.prems e(1)]
    have "last (edit_line s) \<noteq> 10" using Suc.prems e(1) by (metis input_ok_def last_in_set)
    then have "kill_line s = map_prod Suc id (kill_line (s\<lparr>ie := ie s - 1\<rparr>))"
      using e(2) b(4) by (subst kill_line.simps) simp
    then show ?case using Suc.hyps(1) [of "s\<lparr>ie := ie s - 1\<rparr>"] Suc.hyps(2) b by simp
  qed
  then show "fst (kill_line s) = length (edit_line s)" "input_ok (snd (kill_line s))"
    "ready_bytes (snd (kill_line s)) = ready_bytes s" "edit_line (snd (kill_line s)) = []" by auto
qed

section \<open>What the editor does\<close>

text \<open>The line editor on lists: the bytes ready to be read and the line being edited, 128 bytes in all.\<close>

definition edit_spec :: "u8 \<Rightarrow> u8 list \<times> u8 list \<Rightarrow> u8 list \<times> u8 list" where
  "edit_spec c = (\<lambda>(rd, ed).
     if c = 16 then (rd, ed)
     else if c = 21 then (rd, [])
     else if c = 8 \<or> c = 127 then (rd, butlast ed)
     else if c = 0 \<or> 128 \<le> length rd + length ed then (rd, ed)
     else let d = (if c = 13 then 10 else c) in
       if d = 10 \<or> d = 4 \<or> length rd + length ed = 127 then (rd @ ed @ [d], []) else (rd, ed @ [d]))"

fun read_spec :: "bool \<Rightarrow> nat \<Rightarrow> nat \<Rightarrow> u8 list \<Rightarrow> u8 list \<times> cres \<times> u8 list" where
  "read_spec killed target 0 rd = ([], CDone, rd)"
| "read_spec killed target (Suc n) [] = ([], if killed then CKilled else CSleep (Suc n), [])"
| "read_spec killed target (Suc n) (c # rd) =
     (if c = 4 then ([], CDone, if Suc n < target then c # rd else rd)
      else if c = 10 then ([c], CDone, rd)
      else map_prod ((#) c) id (read_spec killed target n rd))"

definition input_view :: "consst \<Rightarrow> u8 list \<times> u8 list" where
  "input_view s = (ready_bytes s, edit_line s)"

lemma room: "input_ok s \<Longrightarrow> length (ready_bytes s) + length (edit_line s) = clen s"
  by (metis length_append length_cells ready_edit)

lemma edit_char_full:
  assumes "input_ok s" "c \<notin> {16, 21, 8, 127}" "c = 0 \<or> 128 \<le> clen s"
  shows "fst (edit_char c s) = s" "edit_spec c (input_view s) = input_view s"
proof -
  have "ie s - ir s < INPUT_BUF \<longleftrightarrow> clen s < 128" by (simp add: clen_def INPUT_BUF_def word_less_nat_alt)
  then have sp: "\<not> (c \<noteq> 0 \<and> ie s - ir s < INPUT_BUF)" using assms(3) by linarith
  show "fst (edit_char c s) = s" using assms(2) unfolding edit_char_def if_not_P [OF sp] by simp
  show "edit_spec c (input_view s) = input_view s"
    using assms(2,3) unfolding edit_spec_def input_view_def room [OF assms(1)] prod.case by simp
qed

lemma edit_char_typed:
  assumes "input_ok s" "c \<notin> {16, 21, 8, 127, 0}" "clen s < 128"
  shows "input_ok (fst (edit_char c s)) \<and> input_view (fst (edit_char c s)) = edit_spec c (input_view s)"
proof -
  let ?d = "if c = 13 then 10 else c"
  let ?t = "s\<lparr>ibuf := (ibuf s)(islot (ie s) := ?d), ie := ie s + 1\<rparr>"
  have sp: "ie s - ir s < INPUT_BUF" using assms(3) by (simp add: clen_def INPUT_BUF_def word_less_nat_alt)
  note p = push_cells [OF assms(1,3), of ?d]
  have full: "ie ?t = ir ?t + INPUT_BUF \<longleftrightarrow> clen s = 127"
  proof -
    have "ie ?t = ir ?t + INPUT_BUF \<longleftrightarrow> ie ?t - ir ?t = 128" by (auto simp: INPUT_BUF_def algebra_simps)
    also have "\<dots> \<longleftrightarrow> clen ?t = 128" by (simp add: clen_def word_unat_eq_iff)
    finally show ?thesis using p(2) by simp
  qed
  have le: "rlen s \<le> clen s" using assms(1) by (simp add: input_ok_def)
  show ?thesis
  proof (cases "?d = 10 \<or> ?d = 4 \<or> clen s = 127")
    case commit: True
    let ?u = "?t\<lparr>iw := ie ?t\<rparr>"
    have u: "cells ?u = cells s @ [?d]" "clen ?u = Suc (clen s)" "rlen ?u = Suc (clen s)"
      using p(1,2) by (simp_all add: cells_def clen_def rlen_def)
    have "edit_char c s = (?u, [ucast ?d], True)" using assms(2) sp full commit by (simp add: edit_char_def Let_def)
    moreover have "edit_spec c (input_view s) = (cells s @ [?d], [])"
      using assms(2,3) commit unfolding edit_spec_def input_view_def room [OF assms(1)] prod.case by (simp add: Let_def ready_edit flip: append_assoc)
    ultimately show ?thesis using assms(3) u by (simp add: input_view_def input_ok_def ready_bytes_def edit_line_def)
  next
    case stay: False
    have "edit_char c s = (?t, [ucast ?d], False)" using assms(2) sp full stay by (simp add: edit_char_def Let_def)
    moreover have "ready_bytes ?t = ready_bytes s" "edit_line ?t = edit_line s @ [?d]"
      using p le by (simp_all add: ready_bytes_def edit_line_def)
    moreover have "edit_spec c (input_view s) = (ready_bytes s, edit_line s @ [?d])"
      using assms(2,3) stay unfolding edit_spec_def input_view_def room [OF assms(1)] prod.case by (simp add: Let_def)
    ultimately show ?thesis using assms(1,3) p(2,3) stay by (simp add: input_view_def input_ok_def)
  qed
qed

lemma edit_char_refines:
  assumes "input_ok s"
  shows "input_ok (fst (edit_char c s)) \<and> input_view (fst (edit_char c s)) = edit_spec c (input_view s)"
proof -
  consider "c = 16" | (kl) "c = 21" | (bs) "c = 8 \<or> c = 127" "c \<noteq> 16" "c \<noteq> 21"
    | (full) "c \<notin> {16, 21, 8, 127}" "c = 0 \<or> 128 \<le> clen s" | (typed) "c \<notin> {16, 21, 8, 127, 0}" "clen s < 128"
    by force
  then show ?thesis
  proof cases
    case kl
    then show ?thesis using kill_line_clears [OF assms]
      by (auto simp: edit_char_def edit_spec_def input_view_def split: prod.splits)
  next
    case bs
    then show ?thesis using assms back_cells [OF assms] editing_empty [OF assms]
      by (cases "edit_line s = []") (simp_all add: edit_char_def edit_spec_def input_view_def)
  qed (use assms edit_char_full edit_char_typed in \<open>simp_all add: edit_char_def edit_spec_def input_view_def\<close>)
qed

lemma consoleread_refines:
  assumes "input_ok s"
  shows "case consoleread_loop killed target n s of (bs, r, t) \<Rightarrow>
    input_ok t \<and> edit_line t = edit_line s \<and> read_spec killed target n (ready_bytes s) = (bs, r, ready_bytes t)"
  using assms
proof (induction n arbitrary: s)
  case (Suc n)
  show ?case
  proof (cases "ready_bytes s")
    case Nil
    then show ?thesis using Suc.prems nothing_ready by auto
  next
    case (Cons c cs)
    have ne: "ir s \<noteq> iw s" using nothing_ready [OF Suc.prems] Cons by simp
    note g = get_cells [OF Suc.prems Cons]
    show ?thesis
      using Suc.IH [OF g(4)] g ne Cons Suc.prems
      by (auto simp: Let_def split: prod.splits)
  qed
qed simp

section \<open>The interrupt handler and the reader\<close>

definition console_ok :: "lockid set \<Rightarrow> consst \<Rightarrow> bool" where
  "console_ok L s \<longleftrightarrow> holdset s L \<and> \<not> panicked s \<and> cursor s < 24 * 80 \<and> input_ok s"

definition same_input :: "consst \<Rightarrow> consst \<Rightarrow> bool" where
  "same_input s t \<longleftrightarrow> ibuf t = ibuf s \<and> ir t = ir s \<and> iw t = iw s \<and> ie t = ie s"

lemma same_input_view: "same_input s t \<Longrightarrow> input_view t = input_view s \<and> input_ok t = input_ok s"
  by (simp add: same_input_def input_view_def input_ok_def ready_bytes_def edit_line_def cells_def clen_def rlen_def)

lemma same_input_trans: "same_input s t \<Longrightarrow> same_input t u \<Longrightarrow> same_input s u"
  by (simp add: same_input_def)

lemma console_ok_same:
  "console_ok L s \<Longrightarrow> same_input s t \<Longrightarrow> holdset t M \<Longrightarrow> panicked t = panicked s \<Longrightarrow> cursor t = cursor s \<Longrightarrow> console_ok M t"
  using same_input_view by (auto simp: console_ok_def)

lemma lock_same_input [simp]:
  "same_input s (lock_in l s)" "same_input s (lock_out l s)" "cursor (lock_in l s) = cursor s" "cursor (lock_out l s) = cursor s"
  "panicked (lock_in l s) = panicked s" "panicked (lock_out l s) = panicked s"
  by (simp_all add: same_input_def lock_in_def lock_out_def)

lemma console_lock: "console_ok L s \<Longrightarrow> l \<notin> L \<Longrightarrow> acquirep l s = Ok ((), lock_in l s) \<and> console_ok (insert l L) (lock_in l s)"
proof
  assume ok: "console_ok L s" and l: "l \<notin> L"
  then have h: "holdset s L" by (simp add: console_ok_def)
  show "acquirep l s = Ok ((), lock_in l s)" by (rule acquirep_hold [OF h l])
  show "console_ok (insert l L) (lock_in l s)" by (rule console_ok_same [OF ok _ holdset_in [OF h l]]) simp_all
qed

lemma console_unlock: "console_ok L s \<Longrightarrow> l \<in> L \<Longrightarrow> releasep l s = Ok ((), lock_out l s) \<and> console_ok (L - {l}) (lock_out l s)"
proof
  assume ok: "console_ok L s" and l: "l \<in> L"
  then have h: "holdset s L" by (simp add: console_ok_def)
  show "releasep l s = Ok ((), lock_out l s)" by (rule releasep_hold [OF h l])
  show "console_ok (L - {l}) (lock_out l s)" by (rule console_ok_same [OF ok _ holdset_out [OF h l]]) simp_all
qed

text \<open>A character on a screen whose cursor is in the first 24 lines leaves it there and writes nothing behind them.\<close>

lemma cgaputc_in_bounds:
  assumes "cursor s < 24 * 80"
  shows "okp (\<lambda>_ t. cursor t < 24 * 80 \<and> (\<forall>k \<ge> 24 * 80. crt t k = crt s k) \<and> t = s\<lparr>crt := crt t, cursor := cursor t\<rparr>) (cgaputc c s)"
proof -
  define pos1 where "pos1 = (if c = 10 then cursor s + (80 - cursor s mod 80) else if c = BACKSPACE then cursor s - 1 else cursor s + 1)"
  have "pos1 \<le> 24 * 80"
  proof (cases "c = 10")
    case True
    have "cursor s div 80 < 24" using assms by (simp add: less_mult_imp_div_less)
    moreover have "cursor s + (80 - cursor s mod 80) = (cursor s div 80 + 1) * 80"
    proof -
      obtain q r where qr: "q = cursor s div 80" "r = cursor s mod 80" by simp
      have "cursor s = q * 80 + r" "r < 80" unfolding qr by simp_all
      then have "cursor s + (80 - r) = (q + 1) * 80" by simp
      then show ?thesis by (simp only: qr)
    qed
    ultimately show ?thesis using True by (simp add: pos1_def)
  qed (use assms in \<open>auto simp: pos1_def\<close>)
  moreover from this have "\<not> 24 \<le> pos1 div 80 \<Longrightarrow> pos1 < 24 * 80" by (simp add: not_le div_less_iff_less_mult)
  ultimately show ?thesis
    using assms unfolding cgaputc_def Let_def pos1_def [symmetric] by (auto simp: scroll_def)
qed

lemma consputs_ok:
  "console_ok L s \<Longrightarrow> okp (\<lambda>_ t. console_ok L t \<and> same_input s t) (consputs cs s)"
proof (induction cs arbitrary: s)
  case Nil
  then show ?case by (simp add: ret_app same_input_def)
next
  case (Cons c cs)
  let ?s = "s\<lparr>uart := uart s @ (if c = BACKSPACE then [8, 32, 8] else [ucast c])\<rparr>"
  have cur: "cursor ?s < 24 * 80" using Cons.prems by (simp add: console_ok_def)
  from cgaputc_in_bounds [OF this, of c] obtain t where t: "cgaputc c ?s = Ok ((), t)" "cursor t < 24 * 80"
    "t = ?s\<lparr>crt := crt t, cursor := cursor t\<rparr>" by (auto elim!: okpE)
  have f: "same_input s t" "lk t = lk s" "panicked t = panicked s" by (subst t(3), simp add: same_input_def)+
  have "console_ok L t" using Cons.prems t(2) f same_input_view [OF f(1)] by (simp add: console_ok_def holdset_def)
  then have "okp (\<lambda>_ u. console_ok L u \<and> same_input t u) (consputs cs t)" by (rule Cons.IH)
  then have "okp (\<lambda>_ u. console_ok L u \<and> same_input s u) (consputs cs t)"
    by (rule okp_mono) (auto intro: same_input_trans [OF f(1)])
  moreover have "consputs (c # cs) s = consputs cs t"
    using Cons.prems t(1) by (simp add: consputc_def kern_simps console_ok_def)
  ultimately show ?case by simp
qed

lemma edit_char_console: "console_ok L s \<Longrightarrow> console_ok L (fst (edit_char c s))"
proof -
  assume ok: "console_ok L s"
  have k: "holdset (snd (kill_line u)) L = holdset u L \<and> panicked (snd (kill_line u)) = panicked u \<and>
      cursor (snd (kill_line u)) = cursor u" for u
  proof (induction u rule: kill_line.induct)
    case (1 u)
    then show ?case by (subst (1 2 3) kill_line.simps) (simp add: holdset_def)
  qed
  have "holdset (fst (edit_char c s)) L = holdset s L \<and> panicked (fst (edit_char c s)) = panicked s \<and>
      cursor (fst (edit_char c s)) = cursor s"
    using k [of s] by (cases "kill_line s") (simp add: edit_char_def Let_def holdset_def)
  then show ?thesis using ok edit_char_refines [of s c] by (simp add: console_ok_def)
qed

lemma wakeup_console:
  assumes "console_ok L s" "PTABLE \<notin> L"
  shows "okp (\<lambda>_ t. console_ok L t \<and> same_input s t) (wakeup ch s)"
proof -
  let ?t = "(lock_in PTABLE s)\<lparr>ptable := map (wake ch) (ptable s)\<rparr>"
  have h: "holdset s L" using assms(1) by (simp add: console_ok_def)
  have "holdset ?t (insert PTABLE L)" using h assms(2) by (simp add: holdset_in)
  then have "holdset (lock_out PTABLE ?t) L" using holdset_out [of ?t "insert PTABLE L" PTABLE] assms(2) by simp
  moreover have same: "same_input s (lock_out PTABLE ?t)" by (simp add: same_input_def lock_in_def lock_out_def)
  ultimately have "console_ok L (lock_out PTABLE ?t)" by (intro console_ok_same [OF assms(1)]) (simp_all add: lock_in_def lock_out_def)
  then show ?thesis using wakeup_eq [OF h assms(2)] same by simp
qed

lemma consoleintr_loop_ok:
  assumes "console_ok L s" "PTABLE \<notin> L"
  shows "okp (\<lambda>d t. console_ok L t \<and> input_view t = fold edit_spec cs (input_view s) \<and> (d \<longleftrightarrow> dump \<or> 16 \<in> set cs))
    (consoleintr_loop cs dump s)"
  using assms(1)
proof (induction cs arbitrary: s dump)
  case Nil
  then show ?case by (simp add: ret_app)
next
  case (Cons c cs)
  obtain t echo wk where e: "edit_char c s = (t, echo, wk)" by (cases "edit_char c s")
  have t: "console_ok L t" "input_view t = edit_spec c (input_view s)"
    using edit_char_console [OF Cons.prems, of c] edit_char_refines [of s c] Cons.prems e by (simp_all add: console_ok_def)
  have "okp (\<lambda>_ u. console_ok L u \<and> same_input t u) (consputs echo t)" by (rule consputs_ok [OF t(1)])
  then obtain u where u: "consputs echo t = Ok ((), u)" "console_ok L u" "same_input t u" by (auto elim: okpE)
  have "okp (\<lambda>_ v. console_ok L v \<and> same_input u v) (whenk wk (wakeup ChanInput) u)"
    using wakeup_console [OF u(2) assms(2)] u(2) by (cases wk) (simp_all add: whenk_def ret_app same_input_def)
  then obtain v where v: "whenk wk (wakeup ChanInput) u = Ok ((), v)" "console_ok L v" "same_input u v" by (auto elim: okpE)
  have iv: "input_view v = edit_spec c (input_view s)"
    using same_input_view [OF u(3)] same_input_view [OF v(3)] t(2) by simp
  show ?case using Cons.IH [OF v(2), of "dump \<or> c = 16"] e u(1) v(1) iv
    by (auto simp: kern_simps elim!: okp_mono)
qed

lemma line_discipline:
  assumes "quiet s" "\<not> panicked s" "cursor s < 24 * 80" "input_ok s"
  shows "okp (\<lambda>dump t. quiet t \<and> \<not> panicked t \<and> cursor t < 24 * 80 \<and> input_ok t \<and>
    input_view t = fold edit_spec cs (input_view s) \<and> (dump \<longleftrightarrow> 16 \<in> set cs)) (consoleintr cs s)"
proof -
  have ok: "console_ok {} s" using assms by (simp add: console_ok_def)
  from console_lock [OF this, of CONS] have a: "acquirep CONS s = Ok ((), lock_in CONS s)" "console_ok {CONS} (lock_in CONS s)" by simp_all
  have "input_view (lock_in CONS s) = input_view s" by (rule same_input_view [THEN conjunct1]) simp
  with consoleintr_loop_ok [OF a(2), of cs False] obtain d t where t: "consoleintr_loop cs False (lock_in CONS s) = Ok (d, t)"
    "console_ok {CONS} t" "input_view t = fold edit_spec cs (input_view s)" "d \<longleftrightarrow> 16 \<in> set cs" by (auto elim!: okpE)
  from console_unlock [OF t(2), of CONS] have r: "releasep CONS t = Ok ((), lock_out CONS t)" "console_ok {} (lock_out CONS t)" by simp_all
  have "input_view (lock_out CONS t) = input_view t" by (rule same_input_view [THEN conjunct1]) simp
  then show ?thesis using a(1) t(1,3,4) r by (simp add: consoleintr_def kern_simps console_ok_def)
qed

text \<open>
  C38: the line discipline.  On any characters from the keyboard the interrupt handler returns, with the lock free again and the cursor within the
  first 24 lines of the screen; what it leaves in the ring is exactly what the editor on two lists leaves: a character is
  appended to the line, a backspace takes the last one of the line away, control-U the whole line and never a byte of an earlier line, and the line is handed over to readers at a newline, at
  control-D, or when 128 bytes are waiting, after which characters are dropped; the dump of the processes is asked for exactly when control-P was typed.
\<close>

theorem console_line_discipline:
  assumes "quiet s" "\<not> panicked s" "cursor s < 24 * 80" "input_ok s"
  shows "okp (\<lambda>dump t. quiet t \<and> \<not> panicked t \<and> cursor t < 24 * 80 \<and> input_ok t \<and>
    input_view t = fold edit_spec cs (input_view s) \<and> (dump \<longleftrightarrow> 16 \<in> set cs)) (consoleintr cs s)"
  by (rule line_discipline [OF assms])

text \<open>An idle console: one running process, a free lock, the three indices about to wrap around.\<close>

definition ex_reader :: "proc" where
  "ex_reader = \<lparr>p_sz = 0, p_pgdir = 0x80300000, p_kstack = 0x80310000, p_state = RUNNING, p_pid = 1, p_parent = None,
     p_tf = 0, p_context = 0, p_chan = NoChan, p_killed = False, p_ofile = replicate 16 None, p_cwd = None, p_name = (\<lambda>_. 0)\<rparr>"

definition ex_console :: consst where
  "ex_console = \<lparr>lk = fst lock_init, ptable = [ex_reader], nextpid = 2, initproc = Some 0, ticks = 0, cproc = Some 0,
     crt = (\<lambda>_. 0), cursor = 0, uart = [], panicked = False, locking = True, ibuf = (\<lambda>_. 0), ir = - 2, iw = - 2, ie = - 2\<rparr>"

lemma ex_console_ok: "quiet ex_console" "\<not> panicked ex_console" "cursor ex_console < 24 * 80" "input_ok ex_console"
  "input_view ex_console = ([], [])"
  by (simp_all add: ex_console_def holdset_def lock_init_def cpu_ok_def input_ok_def input_view_def ready_bytes_def
      edit_line_def cells_def clen_def rlen_def)

text \<open>Typing \<open>ab\<close>, backspace, \<open>c\<close>, return, \<open>x\<close>.\<close>

theorem console_line_discipline_witness:
  "okp (\<lambda>dump t. input_view t = ([97, 99, 10], [120]) \<and> \<not> dump) (consoleintr [97, 98, 8, 99, 13, 120] ex_console)"
proof -
  have "fold edit_spec [97, 98, 8, 99, 13, 120] ([], []) = ([97, 99, 10], [120])" by (simp add: edit_spec_def)
  then show ?thesis
    using console_line_discipline [OF ex_console_ok(1-4), of "[97, 98, 8, 99, 13, 120]"] ex_console_ok(5)
    by (auto elim!: okp_mono)
qed

lemma consoleread_loop_fields:
  "case consoleread_loop killed target n s of (bs, r, t) \<Rightarrow> t = s\<lparr>ir := ir t\<rparr>"
proof (induction n arbitrary: s)
  case (Suc n)
  let ?t = "s\<lparr>ir := ir s + 1\<rparr>"
  obtain bs r u where u: "consoleread_loop killed target n ?t = (bs, r, u)" by (cases "consoleread_loop killed target n ?t")
  have "u = ?t\<lparr>ir := ir u\<rparr>" using Suc.IH [of ?t] u by simp
  then have "u = s\<lparr>ir := ir u\<rparr>" by simp
  then show ?case using u by (auto simp: Let_def)
qed simp

text \<open>reading the console.  A process that reads takes exactly the bytes the specification on lists takes: up to a newline, which it keeps, or a control-D, which
  ends the read and is left for the next one when bytes were read before it, or as many as were asked for; the call then returns their number with the lock free.  When
  the bytes run out first it returns -1 if the process has been killed and otherwise sleeps on the buffer, with the bytes it has so far and the number
  that is missing; the line being edited is never touched.
\<close>

theorem consoleread_takes_a_line:
  assumes "quiet s" "input_ok s" "cproc s = Some i" "i < length (ptable s)"
    and "read_spec (p_killed (ptable s ! i)) n n (ready_bytes s) = (bs, r, rest)"
  shows "okp (\<lambda>v t. input_ok t \<and> input_view t = (rest, edit_line s) \<and>
    (case r of
       CDone \<Rightarrow> v = Inl (int (length bs), bs) \<and> quiet t
     | CKilled \<Rightarrow> v = Inl (-1, bs) \<and> quiet t
     | CSleep k \<Rightarrow> (\<exists>b. v = Inr (k, bs, b)) \<and> p_state (ptable t ! i) = SLEEPING \<and> p_chan (ptable t ! i) = ChanInput))
    (consoleread n s)"
proof -
  let ?s = "lock_in CONS s"
  have a: "acquirep CONS s = Ok ((), ?s)" "holdset ?s {CONS}" using assms(1) holdset_in [OF assms(1), of CONS] by (simp_all add: acquirep_hold)
  have v: "input_view ?s = input_view s" "input_ok ?s" using same_input_view [of s ?s] assms(2) by simp_all
  obtain bs' r' t where l: "consoleread_loop (p_killed (ptable s ! i)) n n ?s = (bs', r', t)"
    by (cases "consoleread_loop (p_killed (ptable s ! i)) n n ?s")
  have t: "bs' = bs" "r' = r" "input_ok t" "input_view t = (rest, edit_line s)"
    using consoleread_refines [OF v(2), where killed = "p_killed (ptable s ! i)" and target = n and n = n] l assms(5) v(1) by (simp_all add: input_view_def)
  have f: "t = ?s\<lparr>ir := ir t\<rparr>" using consoleread_loop_fields [where killed = "p_killed (ptable s ! i)" and target = n and n = n and s = ?s] l by simp
  have h: "holdset t {CONS}" "cproc t = Some i" "ptable t = ptable s" by (subst f, use a(2) assms(3) in \<open>simp add: holdset_def\<close>)+
  have rel: "releasep CONS t = Ok ((), lock_out CONS t)" "quiet (lock_out CONS t)"
    using h(1) holdset_out [OF h(1), of CONS] by (simp_all add: releasep_hold)
  have vt: "input_view (lock_out CONS t) = input_view t" "input_ok (lock_out CONS t)" using same_input_view [of t "lock_out CONS t"] t(3) by simp_all
  have run: "consoleread n s = (case r of
          CDone \<Rightarrow> seqk (releasep CONS) (ret (Inl (int (length bs), bs)))
        | CKilled \<Rightarrow> seqk (releasep CONS) (ret (Inl (-1, bs)))
        | CSleep k \<Rightarrow> bindk (sleep_enter ChanInput CONS) (\<lambda>b. ret (Inr (k, bs, b)))) t"
    using a(1) assms(3) l t(1,2) by (simp add: consoleread_def consoleread_step_def myproc_def kern_simps)
  show ?thesis
  proof (cases r)
    case (CSleep k)
    from sleep_enter_hold [OF h(1) _ h(2), of ChanInput] h(3) assms(4) obtain b u where
      u: "sleep_enter ChanInput CONS t = Ok (b, u)" "p_state (ptable u ! i) = SLEEPING" "p_chan (ptable u ! i) = ChanInput"
        "u = t\<lparr>lk := lk u, ptable := ptable u\<rparr>" by (auto elim!: okpE)
    have "same_input t u" by (subst u(4)) (simp add: same_input_def)
    then show ?thesis using run u(1-3) CSleep t same_input_view [of t u] by (simp add: kern_simps)
  qed (use run rel vt t in \<open>simp_all add: kern_simps\<close>)
qed

text \<open>A line \<open>ab\<close> is ready and \<open>c\<close> is being edited; the line lies across the end of the ring.\<close>

definition ex_line :: consst where
  "ex_line = ex_console\<lparr>ibuf := (\<lambda>k. if k = 126 then 97 else if k = 127 then 98 else if k = 0 then 10 else 99), iw := 1, ie := 2\<rparr>"

lemma ex_line_ok: "quiet ex_line" "input_ok ex_line" "cproc ex_line = Some 0" "0 < length (ptable ex_line)"
  "\<not> p_killed (ptable ex_line ! 0)" "ready_bytes ex_line = [97, 98, 10]" "edit_line ex_line = [99]"
  by (simp_all add: ex_line_def ex_console_def ex_reader_def holdset_def lock_init_def cpu_ok_def input_ok_def ready_bytes_def
      edit_line_def cells_def clen_def rlen_def islot_def INPUT_BUF_def upt_rec)

theorem consoleread_takes_a_line_witness:
  "okp (\<lambda>v t. v = Inl (3, [97, 98, 10]) \<and> input_view t = ([], [99])) (consoleread 100 ex_line)"
proof -
  have "read_spec False 100 100 [97, 98, 10] = ([97, 98, 10], CDone, [])" by code_simp
  then have "read_spec (p_killed (ptable ex_line ! 0)) 100 100 (ready_bytes ex_line) = ([97, 98, 10], CDone, [])"
    using ex_line_ok(5,6) by simp
  from consoleread_takes_a_line [OF ex_line_ok(1-4) this] show ?thesis
    using ex_line_ok(7) by (auto elim!: okp_mono)
qed

end
