(* ===== verification/Umalloc.thy ===== *)
theory Umalloc
  imports Prelude
begin

text \<open>
  The allocator of user programs (\<open>umalloc.c\<close>): a circular list of free blocks in the order of their addresses.  The store maps
  the address of a header to its two words; a block of \<open>n\<close> units is the \<open>8 * n\<close> bytes from its header on.  \<open>base\<close> is the
  address of the static header that starts the list.  Whether the kernel lets the heap grow is a parameter, \<open>grant\<close>: \<open>sbrk\<close>
  of a positive count returns the old end of the heap and moves it, or returns -1.
\<close>

section \<open>The code\<close>

record header =
  h_ptr :: u32
  h_size :: u32

record heap =
  hdr :: "u32 \<Rightarrow> header"
  freep :: u32
  brk :: u32

definition set_hdr :: "u32 \<Rightarrow> header \<Rightarrow> heap \<Rightarrow> heap" where
  "set_hdr p x h = h\<lparr>hdr := (hdr h)(p := x)\<rparr>"

text \<open>The loop of \<open>free\<close> that looks for the block before \<open>bp\<close>.\<close>

partial_function (option) free_seek :: "heap \<Rightarrow> u32 \<Rightarrow> u32 \<Rightarrow> u32 option" where
  "free_seek h bp p =
     (let q = h_ptr (hdr h p) in
      if p < bp \<and> bp < q then Some p
      else if q \<le> p \<and> (p < bp \<or> bp < q) then Some p
      else free_seek h bp q)"

definition free_link :: "u32 \<Rightarrow> u32 \<Rightarrow> heap \<Rightarrow> heap" where
  "free_link bp p h =
     (let q = h_ptr (hdr h p);
          b = (if bp + 8 * h_size (hdr h bp) = q
               then \<lparr>h_ptr = h_ptr (hdr h q), h_size = h_size (hdr h bp) + h_size (hdr h q)\<rparr>
               else (hdr h bp)\<lparr>h_ptr := q\<rparr>);
          h1 = set_hdr bp b h;
          c = (if p + 8 * h_size (hdr h1 p) = bp
               then \<lparr>h_ptr = h_ptr (hdr h1 bp), h_size = h_size (hdr h1 p) + h_size (hdr h1 bp)\<rparr>
               else (hdr h1 p)\<lparr>h_ptr := bp\<rparr>) in
      (set_hdr p c h1)\<lparr>freep := p\<rparr>)"

definition ufree :: "u32 \<Rightarrow> (heap, unit) kern" where
  "ufree ap = (\<lambda>h.
     if freep h = 0 then Undefined ''free: empty list''
     else case free_seek h (ap - 8) (freep h) of
         None \<Rightarrow> Diverges
       | Some p \<Rightarrow> Ok ((), free_link (ap - 8) p h))"

text \<open>
  \<open>sbrk\<close> takes an \<open>int\<close>, so a count from \<open>2 ^ 31\<close> on is negative and shrinks the process: \<open>deallocuvm\<close> does nothing when the sum wraps
  around, and a new size of zero counts as a failure.
\<close>

definition usbrk :: "(u32 \<Rightarrow> heap \<Rightarrow> bool) \<Rightarrow> u32 \<Rightarrow> (heap, u32) kern" where
  "usbrk grant n = (\<lambda>h.
     if n < 0x80000000 then if grant n h then Ok (brk h, h\<lparr>brk := brk h + n\<rparr>) else Ok (- 1, h)
     else if brk h \<le> brk h + n then Ok (brk h, h)
     else if brk h + n = 0 then Ok (- 1, h)
     else Ok (brk h, h\<lparr>brk := brk h + n\<rparr>))"

definition morecore :: "(u32 \<Rightarrow> heap \<Rightarrow> bool) \<Rightarrow> u32 \<Rightarrow> (heap, u32) kern" where
  "morecore grant nu =
     (let n = (if nu < 4096 then 4096 else nu) in
      bindk (usbrk grant (n * 8)) (\<lambda>p h.
        if p = - 1 then Ok (0, h)
        else if brk h < p + 8 then Undefined ''morecore: header outside the heap''
        else seqk (ufree (p + 8)) (getk freep) (set_hdr p ((hdr h p)\<lparr>h_size := n\<rparr>) h)))"

text \<open>Taking \<open>n\<close> units of the block \<open>p\<close> behind \<open>prevp\<close>.\<close>

definition take_units :: "u32 \<Rightarrow> u32 \<Rightarrow> u32 \<Rightarrow> (heap, u32) kern" where
  "take_units n prevp p = (\<lambda>h.
     let s = h_size (hdr h p) in
     if s = n then Ok (p + 8, (set_hdr prevp ((hdr h prevp)\<lparr>h_ptr := h_ptr (hdr h p)\<rparr>) h)\<lparr>freep := prevp\<rparr>)
     else let h1 = set_hdr p ((hdr h p)\<lparr>h_size := s - n\<rparr>) h;
              p2 = p + 8 * (s - n) in
       Ok (p2 + 8, (set_hdr p2 ((hdr h1 p2)\<lparr>h_size := n\<rparr>) h1)\<lparr>freep := prevp\<rparr>))"

partial_function (option) malloc_loop ::
    "(u32 \<Rightarrow> heap \<Rightarrow> bool) \<Rightarrow> u32 \<Rightarrow> u32 \<Rightarrow> u32 \<Rightarrow> heap \<Rightarrow> (u32 \<times> heap) outcome option" where
  "malloc_loop grant n prevp p h =
     (if n \<le> h_size (hdr h p) then Some (take_units n prevp p h)
      else if p = freep h then
        (case morecore grant n h of
           Ok (q, h1) \<Rightarrow> if q = 0 then Some (Ok (0, h1)) else malloc_loop grant n q (h_ptr (hdr h1 q)) h1
         | r \<Rightarrow> Some r)
      else malloc_loop grant n p (h_ptr (hdr h p)) h)"

definition units_of :: "u32 \<Rightarrow> u32" where
  "units_of nbytes = (nbytes + 8 - 1) div 8 + 1"

definition umalloc :: "(u32 \<Rightarrow> heap \<Rightarrow> bool) \<Rightarrow> u32 \<Rightarrow> u32 \<Rightarrow> (heap, u32) kern" where
  "umalloc grant base nbytes = (\<lambda>h.
     let h0 = (if freep h = 0 then (set_hdr base \<lparr>h_ptr = base, h_size = 0\<rparr> h)\<lparr>freep := base\<rparr> else h) in
     case malloc_loop grant (units_of nbytes) (freep h0) (h_ptr (hdr h0 (freep h0))) h0 of
       None \<Rightarrow> Diverges
     | Some r \<Rightarrow> r)"

end
