(* ===== verification/Umalloc_Props.thy ===== *)
theory Umalloc_Props
  imports Umalloc
begin

text \<open>
  The user allocator is correct: its list stays well formed, blocks in use never overlap each other or the free ones, and
  the search loops end.
\<close>

section \<open>Chains of blocks\<close>

fun chain :: "(u32 \<Rightarrow> u32) \<Rightarrow> u32 \<Rightarrow> u32 list \<Rightarrow> u32 \<Rightarrow> bool" where
  "chain f p [] q \<longleftrightarrow> p = q"
| "chain f p (a # as) q \<longleftrightarrow> p = a \<and> chain f (f a) as q"

lemma chain_append: "chain f p (as @ bs) q \<longleftrightarrow> (\<exists>r. chain f p as r \<and> chain f r bs q)"
  by (induction as arbitrary: p) auto

lemma chain_cong: "(\<And>a. a \<in> set as \<Longrightarrow> f a = g a) \<Longrightarrow> chain f p as q = chain g p as q"
  by (induction as arbitrary: p) auto

lemma chain_end: "chain f p as q \<Longrightarrow> chain f p as r \<Longrightarrow> q = r"
  by (induction as arbitrary: p) auto

lemma chain_hd: "chain f p (as @ [q]) r \<longleftrightarrow> chain f p as q \<and> f q = r"
  by (auto simp: chain_append)

lemma chain_start: "chain f p as q \<Longrightarrow> p = hd (as @ [q])"
  by (cases as) auto

text \<open>The successor of a node of the cycle stands behind it, or is the start of the cycle.\<close>

lemma chain_next:
  assumes "chain f b L b" "a \<in> set L" "f a \<noteq> b"
  obtains xs ys where "L = xs @ a # f a # ys"
proof -
  obtain xs ys where L: "L = xs @ a # ys" using assms(2) by (auto simp: in_set_conv_decomp)
  then have "chain f (f a) ys b" using assms(1) by (auto simp: chain_append)
  then have "\<exists>zs. ys = f a # zs" using assms(3) by (cases ys) auto
  then show ?thesis using that L by blast
qed

section \<open>The invariant\<close>

definition nxt :: "heap \<Rightarrow> u32 \<Rightarrow> u32" where
  "nxt h a = h_ptr (hdr h a)"

text \<open>The first address behind a block.\<close>

definition fin :: "heap \<Rightarrow> u32 \<Rightarrow> nat" where
  "fin h a = unat a + 8 * unat (h_size (hdr h a))"

text \<open>\<open>L\<close> is the free list from \<open>base\<close> on: in the order of the addresses, with a gap between any two blocks.\<close>

definition free_ok :: "u32 \<Rightarrow> u32 list \<Rightarrow> heap \<Rightarrow> bool" where
  "free_ok base L h \<longleftrightarrow> L \<noteq> [] \<and> chain (nxt h) base L base \<and> sorted_wrt (\<lambda>a b. fin h a < unat b) L \<and>
     h_size (hdr h base) = 0 \<and> (\<forall>a \<in> set L - {base}. 0 < unat (h_size (hdr h a))) \<and> freep h \<in> set L"

definition apart :: "heap \<Rightarrow> u32 \<Rightarrow> u32 \<Rightarrow> bool" where
  "apart h a b \<longleftrightarrow> fin h a \<le> unat b \<or> fin h b \<le> unat a"

text \<open>\<open>A\<close> are the blocks in use.\<close>

definition heap_ok :: "u32 \<Rightarrow> u32 list \<Rightarrow> u32 set \<Rightarrow> heap \<Rightarrow> bool" where
  "heap_ok base L A h \<longleftrightarrow> free_ok base L h \<and> base \<noteq> 0 \<and> unat base + 8 \<le> unat (brk h) \<and> unat (brk h) \<le> 2 ^ 31 \<and>
     (\<forall>a \<in> A \<union> (set L - {base}). unat base + 8 \<le> unat a \<and> fin h a \<le> unat (brk h)) \<and> (\<forall>a \<in> A. 0 < unat (h_size (hdr h a))) \<and>
     (\<forall>a \<in> A. (\<forall>b \<in> A. a \<noteq> b \<longrightarrow> apart h a b) \<and> (\<forall>b \<in> set L - {base}. apart h a b))"

lemma heap_ok_list: "heap_ok base L A h \<Longrightarrow> \<exists>T. L = base # T"
  by (cases L) (auto simp: heap_ok_def free_ok_def)

lemma heap_ok_used:
  "heap_ok base L A h \<Longrightarrow> a \<in> A \<Longrightarrow> unat base + 8 \<le> unat a \<and> fin h a \<le> unat (brk h) \<and> 0 < unat (h_size (hdr h a))"
  by (simp add: heap_ok_def)

lemma heap_ok_free:
  "heap_ok base L A h \<Longrightarrow> a \<in> set L \<Longrightarrow> a \<noteq> base \<Longrightarrow> unat base + 8 \<le> unat a \<and> fin h a \<le> unat (brk h) \<and> 0 < unat (h_size (hdr h a))"
  by (simp add: heap_ok_def free_ok_def)

lemma heap_ok_apart: "heap_ok base L A h \<Longrightarrow> a \<in> A \<Longrightarrow> b \<in> A \<Longrightarrow> a \<noteq> b \<Longrightarrow> apart h a b"
  and heap_ok_apart_free: "heap_ok base L A h \<Longrightarrow> a \<in> A \<Longrightarrow> b \<in> set L \<Longrightarrow> b \<noteq> base \<Longrightarrow> apart h a b"
  by (simp_all add: heap_ok_def)

lemma fin_gt: "0 < unat (h_size (hdr h a)) \<Longrightarrow> unat a + 8 \<le> fin h a" and fin_ge: "unat a \<le> fin h a"
  by (simp_all add: fin_def)

lemma unat_fin: "fin h a < 2 ^ 32 \<Longrightarrow> unat (a + 8 * h_size (hdr h a)) = fin h a"
proof -
  assume f: "fin h a < 2 ^ 32"
  have e: "unat (8 * h_size (hdr h a)) = 8 * unat (h_size (hdr h a)) mod 2 ^ 32" by (simp add: unat_word_ariths)
  moreover have "8 * unat (h_size (hdr h a)) < 2 ^ 32" using f by (simp add: fin_def)
  ultimately have "unat (8 * h_size (hdr h a)) = 8 * unat (h_size (hdr h a))" by simp
  then show ?thesis using f by (simp add: unat_word_ariths fin_def)
qed

section \<open>Looking for the place of a block\<close>

text \<open>The list around a block that is not free: the blocks up to \<open>p\<close> lie below it, the rest above.\<close>

definition around :: "u32 \<Rightarrow> u32 \<Rightarrow> u32 list \<Rightarrow> u32 \<Rightarrow> u32 list \<Rightarrow> bool" where
  "around base bp xs p ys \<longleftrightarrow> sorted_wrt (<) (xs @ p # ys) \<and> hd (xs @ [p]) = base \<and> base \<le> p \<and> p < bp \<and> (\<forall>y \<in> set ys. bp < y)"

lemma seek_below:
  assumes "chain (nxt h) a (zs @ p # ys) base" "around base bp xs p ys" "sorted_wrt (<) (zs @ p # ys)"
  shows "free_seek h bp a = Some p"
  using assms
proof (induction zs arbitrary: a)
  case Nil
  then have a: "a = p" and c: "chain (nxt h) (nxt h p) ys base" by auto
  have o: "base \<le> p" "p < bp" "\<forall>y \<in> set ys. bp < y" using Nil.prems(2) by (auto simp: around_def)
  show ?case
  proof (cases ys)
    case Nil
    then have "h_ptr (hdr h p) = base" using c by (simp add: nxt_def)
    then show ?thesis using o a by (subst free_seek.simps) (simp add: Let_def)
  next
    case (Cons y ys')
    then have "h_ptr (hdr h p) = y" using c by (simp add: nxt_def)
    then show ?thesis using o a Cons by (subst free_seek.simps) (simp add: Let_def)
  qed
next
  case (Cons z zs)
  then have a: "a = z" and c: "chain (nxt h) (nxt h z) (zs @ p # ys) base" by auto
  have q: "nxt h z \<in> set (zs @ [p])" using c by (cases zs) auto
  then have "z < nxt h z" "nxt h z \<le> p" using Cons.prems(3) by (auto simp: sorted_wrt_append)
  moreover have "p < bp" using Cons.prems(2) by (simp add: around_def)
  ultimately have "\<not> bp < nxt h z" "\<not> nxt h z \<le> z" by auto
  then have "free_seek h bp a = free_seek h bp (nxt h z)"
    by (subst free_seek.simps) (simp add: Let_def a nxt_def)
  then show ?case using Cons.IH [OF c Cons.prems(2)] Cons.prems(3) by simp
qed

lemma seek_above:
  assumes "chain (nxt h) base (xs @ p # ys) base" "around base bp xs p ys" "chain (nxt h) a zs base"
    "sorted_wrt (<) zs" "\<forall>z \<in> set zs. bp < z"
  shows "free_seek h bp a = Some p"
  using assms(3-5)
proof (induction zs arbitrary: a)
  case Nil
  then show ?case using seek_below [OF assms(1,2)] assms(2) by (simp add: around_def)
next
  case (Cons z zs)
  then have a: "a = z" and c: "chain (nxt h) (nxt h z) zs base" by auto
  have "base < bp" "bp < z" using assms(2) Cons.prems(3) by (auto simp: around_def)
  moreover have "nxt h z = base \<or> z < nxt h z" using c Cons.prems(2) by (cases zs) auto
  ultimately have "free_seek h bp a = free_seek h bp (nxt h z)"
    by (subst free_seek.simps) (auto simp: Let_def a nxt_def)
  then show ?case using Cons.IH [OF c] Cons.prems(2,3) by simp
qed

lemma seek_finds:
  assumes "chain (nxt h) base (xs @ p # ys) base" "around base bp xs p ys" "a \<in> set (xs @ p # ys)"
  shows "free_seek h bp a = Some p"
proof (cases "a \<in> set (xs @ [p])")
  case True
  then obtain us vs where s: "xs @ [p] = us @ a # vs" by (metis split_list)
  then obtain zs where zs: "a # vs = zs @ [p]" by (metis append_butlast_last_id last_appendR last_snoc list.distinct(1))
  have L: "xs @ p # ys = us @ zs @ p # ys" using s zs by (metis append.assoc append_Cons append_Nil)
  then have "chain (nxt h) a (zs @ p # ys) base" using assms(1) zs
    by (metis (no_types, lifting) append_Cons append_assoc append_self_conv2 chain.simps(2) chain_append)
  moreover have "sorted_wrt (<) (zs @ p # ys)" using assms(2) L by (simp add: around_def sorted_wrt_append)
  ultimately show ?thesis using seek_below [OF _ assms(2)] by blast
next
  case False
  then obtain us vs where s: "ys = us @ a # vs" using assms(3) by (metis Un_iff append.assoc append_Cons append_Nil set_append split_list)
  then have "chain (nxt h) a (a # vs) base" using assms(1) by (auto simp: chain_append)
  moreover have "sorted_wrt (<) (a # vs)" "\<forall>z \<in> set (a # vs). bp < z" using assms(2) s by (auto simp: around_def sorted_wrt_append)
  ultimately show ?thesis by (rule seek_above [OF assms(1,2)])
qed

section \<open>Freeing\<close>

lemma sorted_less: "free_ok base L h \<Longrightarrow> sorted_wrt (<) L"
  unfolding free_ok_def by (elim conjE, erule sorted_wrt_mono_rel [rotated]) (use fin_ge in \<open>auto simp: word_less_nat_alt intro: le_less_trans\<close>)

lemma used_not_listed: "heap_ok base L A h \<Longrightarrow> a \<in> A \<Longrightarrow> a \<notin> set L"
proof
  assume ok: "heap_ok base L A h" and a: "a \<in> A" "a \<in> set L"
  have "a \<noteq> base" using heap_ok_used [OF ok a(1)] by auto
  then have "apart h a a" using ok a by (simp add: heap_ok_def)
  moreover have "0 < unat (h_size (hdr h a))" using ok a(1) by (simp add: heap_ok_def)
  ultimately show False using fin_gt [of h a] by (auto simp: apart_def)
qed

lemma around_used:
  assumes ok: "heap_ok base L A h" and bp: "bp \<in> A"
  obtains xs p ys where "L = xs @ p # ys" "around base bp xs p ys" "fin h p \<le> unat bp" "\<forall>y \<in> set ys. fin h bp \<le> unat y"
proof -
  obtain T where T: "L = base # T" using heap_ok_list [OF ok] by blast
  have b: "base < bp" using heap_ok_used [OF ok bp] by (simp add: word_less_nat_alt)
  let ?us = "takeWhile (\<lambda>a. a < bp) L" 
  define ys where "ys = dropWhile (\<lambda>a. a < bp) L"
  have yL: "y \<in> set L" if "y \<in> set ys" for y using that by (metis ys_def set_dropWhileD)
  have us: "?us \<noteq> []" "hd ?us = base" using T b by simp_all
  define xs p where "xs = butlast ?us" and "p = last ?us"
  have xp: "xs @ [p] = ?us" using us by (simp add: xs_def p_def)
  then have L: "L = xs @ p # ys" unfolding ys_def by (metis append.assoc append_Cons append_Nil takeWhile_dropWhile_id)
  have so: "sorted_wrt (<) L" using sorted_less [of base L h] ok by (simp add: heap_ok_def)
  have "p \<in> set ?us" by (metis xp in_set_conv_decomp)
  then have p: "p < bp" "p \<in> set L" by (auto dest: set_takeWhileD)
  have lo: "base \<le> p" using so T p(2) by auto
  have ys: "bp < y" if y: "y \<in> set ys" for y
  proof -
    obtain z zs where z: "ys = z # zs" using y by (cases ys) auto
    then have "\<not> z < bp" using hd_dropWhile [of "\<lambda>a. a < bp" L] unfolding ys_def [symmetric] by simp
    moreover have "z \<le> y" using so y L z by (auto simp: sorted_wrt_append)
    moreover have "y \<noteq> bp" using used_not_listed [OF ok bp] yL [OF y] by blast
    ultimately show ?thesis by auto
  qed
  have ap: "apart h bp b" if "b \<in> set L" "b \<noteq> base" for b using ok bp that by (simp add: heap_ok_def)
  have nz: "unat bp < fin h bp" using ok bp by (auto simp: heap_ok_def fin_def)
  have "fin h p \<le> unat bp"
  proof (cases "p = base")
    case True
    then show ?thesis using ok b by (simp add: heap_ok_def free_ok_def fin_def word_less_nat_alt)
  next
    case False
    from ap [OF p(2) this] show ?thesis using p(1) nz fin_ge [of p h] by (auto simp: apart_def word_less_nat_alt)
  qed
  moreover have "fin h bp \<le> unat y" if y: "y \<in> set ys" for y
  proof -
    have "y \<noteq> base" using ys [OF y] b by auto
    from ap [OF yL [OF y] this] show ?thesis using ys [OF y] fin_ge [of y h] by (auto simp: apart_def word_less_nat_alt)
  qed
  moreover have "around base bp xs p ys" using so L lo p(1) ys us(2) xp by (auto simp: around_def)
  ultimately show ?thesis using that L by blast
qed

text \<open>The bytes of the blocks in a list.\<close>

definition span :: "heap \<Rightarrow> u32 \<Rightarrow> nat set" where
  "span h a = {unat a ..< fin h a}"

definition free_bytes :: "u32 list \<Rightarrow> heap \<Rightarrow> nat set" where
  "free_bytes L h = (\<Union>a \<in> set L. span h a)"

lemma set_hdr_simps [simp]:
  "hdr (set_hdr p x h) = (hdr h)(p := x)" "freep (set_hdr p x h) = freep h" "brk (set_hdr p x h) = brk h"
  by (simp_all add: set_hdr_def)

lemma fin_set [simp]: "fin (h\<lparr>freep := f\<rparr>) = fin h" "a \<noteq> p \<Longrightarrow> fin (set_hdr p x h) a = fin h a"
  "fin (set_hdr p x h) p = unat p + 8 * unat (h_size x)" "nxt (h\<lparr>freep := f\<rparr>) = nxt h"
  "nxt (set_hdr p x h) = (nxt h)(p := h_ptr x)"
  by (auto simp: fin_def nxt_def fun_eq_iff)

text \<open>The block \<open>bp\<close> takes the free block behind it, if they touch; \<open>ys1\<close> is the rest of the list.\<close>

definition absorb :: "u32 \<Rightarrow> u32 \<Rightarrow> heap \<Rightarrow> header" where
  "absorb bp q h = (if bp + 8 * h_size (hdr h bp) = q
     then \<lparr>h_ptr = h_ptr (hdr h q), h_size = h_size (hdr h bp) + h_size (hdr h q)\<rparr> else (hdr h bp)\<lparr>h_ptr := q\<rparr>)"

lemma unat_size_add:
  assumes "unat a + 8 * (unat m + unat n) \<le> 2 ^ 31" shows "unat (m + n :: u32) = unat m + unat n"
  using assms by (simp add: unat_word_ariths)

lemma absorb_next:
  assumes ok: "heap_ok base (xs @ p # ys) A h" and bp: "bp \<in> A" "\<forall>y \<in> set ys. fin h bp \<le> unat y"
  defines "b \<equiv> absorb bp (nxt h p) h"
  obtains ys1 us where "ys = us @ ys1" "chain (nxt h) (h_ptr b) ys1 base" "\<forall>y \<in> set ys1. unat bp + 8 * unat (h_size b) < unat y"
    "unat (h_size (hdr h bp)) \<le> unat (h_size b)" "unat bp + 8 * unat (h_size b) \<le> unat (brk h)"
    "{unat bp ..< unat bp + 8 * unat (h_size b)} = span h bp \<union> free_bytes us h"
    "\<And>a. a \<in> A \<Longrightarrow> a \<noteq> bp \<Longrightarrow> fin h a \<le> unat bp \<or> unat bp + 8 * unat (h_size b) \<le> unat a"
proof -
  have ub: "unat bp + 8 * unat (h_size (hdr h bp)) = fin h bp" by (simp add: fin_def)
  have bk: "unat (brk h) \<le> 2 ^ 31" using ok by (simp add: heap_ok_def)
  note ob = heap_ok_used [OF ok bp(1)]
  have fb: "unat (bp + 8 * h_size (hdr h bp)) = fin h bp" using ob bk by (intro unat_fin) simp
  have ap: "apart h a bp" if "a \<in> A" "a \<noteq> bp" for a using ok bp that by (auto simp: heap_ok_def)
  have so: "sorted_wrt (\<lambda>a b. fin h a < unat b) (xs @ p # ys)" and ch: "chain (nxt h) base (xs @ p # ys) base"
    using ok by (auto simp: heap_ok_def free_ok_def)
  have cy: "chain (nxt h) (nxt h p) ys base" using ch by (auto simp: chain_append)
  show ?thesis
  proof (cases "bp + 8 * h_size (hdr h bp) = nxt h p")
    case False
    then have b: "b = (hdr h bp)\<lparr>h_ptr := nxt h p\<rparr>" by (simp add: b_def absorb_def)
    have "fin h bp < unat y" if y: "y \<in> set ys" for y
    proof -
      obtain z zs where z: "ys = z # zs" using y by (cases ys) auto
      then have "nxt h p = z" using cy by simp
      then have "fin h bp \<noteq> unat z" using False fb by (metis word_unat_eq_iff)
      moreover have "fin h bp \<le> unat z" "z = y \<or> unat z < unat y"
        using bp(2) z y so fin_ge [of z h] by (auto simp: sorted_wrt_append intro: le_less_trans)
      ultimately show ?thesis by auto
    qed
    then show ?thesis using that [of "[]" ys] cy ob ap ub by (auto simp: b span_def free_bytes_def apart_def)
  next
    case True
    obtain q zs where z: "ys = q # zs"
    proof (cases ys)
      case Nil
      then have "nxt h p = base" using cy by simp
      then have "fin h bp = unat base" using fb True by simp
      then show ?thesis using ob fin_ge [of bp h] by simp
    qed (use that in blast)
    have q: "nxt h p = q" "fin h bp = unat q" using cy z fb True by auto
    have qt: "q \<in> set (xs @ p # ys)" "q \<noteq> base" using z q(2) ob fin_ge [of bp h] by auto
    note oq = heap_ok_free [OF ok qt]
    have aq: "apart h a q" if "a \<in> A" for a using ok qt that by (simp add: heap_ok_def)
    have "unat (h_size (hdr h bp) + h_size (hdr h q)) = unat (h_size (hdr h bp)) + unat (h_size (hdr h q))"
      using oq q(2) bk by (intro unat_size_add [of bp]) (simp add: fin_def)
    then have b: "h_ptr b = nxt h q" "unat (h_size b) = unat (h_size (hdr h bp)) + unat (h_size (hdr h q))"
      using True q(1) by (simp_all add: b_def absorb_def nxt_def)
    then have e: "unat bp + 8 * unat (h_size b) = fin h q" using q(2) by (simp add: fin_def)
    have "span h bp \<union> free_bytes [q] h = {unat bp ..< fin h q}" using q(2) ob oq fin_ge [of bp h] fin_ge [of q h] by (auto simp: span_def free_bytes_def)
    moreover have "fin h a \<le> unat bp \<or> fin h q \<le> unat a" if "a \<in> A" "a \<noteq> bp" for a
      using ap [OF that] aq [OF that(1)] q(2) heap_ok_used [OF ok that(1)] fin_gt [of h a] by (auto simp: apart_def)
    ultimately show ?thesis using that [of "[q]" zs] z cy so oq q b e by (auto simp: sorted_wrt_append)
  qed
qed

text \<open>A part of the list is replaced by \<open>ms\<close>, which starts at the same block.\<close>

lemma heap_ok_relink:
  assumes ok: "heap_ok base (xs @ p # us @ ys) A h" and A: "A' \<subseteq> A"
    and same: "\<And>a. a \<in> A' \<union> set xs \<union> set ys \<Longrightarrow> hdr t a = hdr h a" "brk t = brk h" "freep t = p"
    and mid: "ms \<noteq> []" "hd ms = p" "chain (nxt t) p ms (hd (ys @ [base]))" "sorted_wrt (\<lambda>a b. fin t a < unat b) ms"
      "\<And>m x. m \<in> set ms \<Longrightarrow> x \<in> set xs \<Longrightarrow> fin h x < unat m" "\<And>m y. m \<in> set ms \<Longrightarrow> y \<in> set ys \<Longrightarrow> fin t m < unat y"
      "\<And>m. m \<in> set ms \<Longrightarrow> m \<noteq> base \<Longrightarrow> unat base + 8 \<le> unat m \<and> fin t m \<le> unat (brk h) \<and> 0 < unat (h_size (hdr t m)) \<and> (\<forall>a \<in> A'. apart t a m)"
      "p = base \<Longrightarrow> h_size (hdr t base) = 0"
  shows "heap_ok base (xs @ ms @ ys) A' t"
proof -
  obtain ms' where ms: "ms = p # ms'" using mid(1,2) by (cases ms) auto
  have ch: "chain (nxt h) base (xs @ p # us @ ys) base" and so: "sorted_wrt (\<lambda>a b. fin h a < unat b) (xs @ p # us @ ys)"
    and b0: "h_size (hdr h base) = 0" using ok by (auto simp: heap_ok_def free_ok_def)
  have f: "fin t a = fin h a" if "a \<in> A' \<union> set xs \<union> set ys" for a using same(1) [OF that] by (simp add: fin_def)
  have cx: "chain (nxt h) base xs p" using ch by (auto simp: chain_append)
  have "chain (nxt t) base xs p" using cx same(1) by (subst chain_cong [of xs "nxt t" "nxt h"]) (simp_all add: nxt_def)
  moreover have cy: "chain (nxt h) (hd (ys @ [base])) ys base" using ch by (auto simp: chain_append dest: chain_start)
  then have "chain (nxt t) (hd (ys @ [base])) ys base" using same(1) by (subst chain_cong [of ys "nxt t" "nxt h"]) (simp_all add: nxt_def)
  ultimately have c: "chain (nxt t) base (xs @ ms @ ys) base" using mid(3) by (auto simp: chain_append)
  have "sorted_wrt (\<lambda>a b. fin t a < unat b) xs" "sorted_wrt (\<lambda>a b. fin t a < unat b) ys"
    using so f by (auto simp: sorted_wrt_append intro: sorted_wrt_mono_rel [where P = "\<lambda>a b. fin h a < unat b"])
  then have s: "sorted_wrt (\<lambda>a b. fin t a < unat b) (xs @ ms @ ys)" using so mid(4-6) f by (auto simp: sorted_wrt_append)
  have "h_size (hdr t base) = 0" using mid(8) same(1) b0 cx by (cases xs) auto
  moreover have "0 < unat (h_size (hdr t a))" if "a \<in> set (xs @ ms @ ys)" "a \<noteq> base" for a
    using that same(1) mid(7) heap_ok_free [OF ok, of a] by auto
  ultimately have "free_ok base (xs @ ms @ ys) t" using c s same(3) mid(1) ms by (auto simp: free_ok_def)
  moreover have "unat base + 8 \<le> unat a \<and> fin t a \<le> unat (brk t)" if "a \<in> A' \<union> (set (xs @ ms @ ys) - {base})" for a
    using that f same(2) mid(7) heap_ok_free [OF ok, of a] heap_ok_used [OF ok, of a] A by auto
  moreover have "apart t a b" if "a \<in> A'" "b \<in> A'" "a \<noteq> b" for a b
    using heap_ok_apart [OF ok, of a b] that A f by (auto simp: apart_def)
  moreover have "apart t a b" if "a \<in> A'" "b \<in> set (xs @ ms @ ys) - {base}" for a b
    using heap_ok_apart_free [OF ok, of a b] that A f mid(7) by (auto simp: apart_def)
  moreover have "0 < unat (h_size (hdr t a))" if "a \<in> A'" for a using that A same(1) heap_ok_used [OF ok, of a] by auto
  ultimately show ?thesis using ok same(2) by (simp add: heap_ok_def)
qed

text \<open>The heap while \<open>bp\<close> is linked in behind \<open>p\<close>: \<open>b\<close> is its header, which took the blocks \<open>us\<close>, and \<open>t\<close> the heap after.\<close>

definition linking :: "u32 \<Rightarrow> u32 list \<Rightarrow> u32 \<Rightarrow> u32 list \<Rightarrow> u32 list \<Rightarrow> u32 set \<Rightarrow> u32 \<Rightarrow> header \<Rightarrow> header \<Rightarrow> heap \<Rightarrow> heap \<Rightarrow> bool" where
  "linking base xs p us ys A bp b c h t \<longleftrightarrow> heap_ok base (xs @ p # us @ ys) A h \<and> bp \<in> A \<and> fin h p \<le> unat bp \<and>
     h_ptr b = hd (ys @ [base]) \<and> (\<forall>y \<in> set ys. unat bp + 8 * unat (h_size b) < unat y) \<and>
     unat (h_size (hdr h bp)) \<le> unat (h_size b) \<and> unat bp + 8 * unat (h_size b) \<le> unat (brk h) \<and>
     {unat bp ..< unat bp + 8 * unat (h_size b)} = span h bp \<union> free_bytes us h \<and>
     (\<forall>a \<in> A. a \<noteq> bp \<longrightarrow> fin h a \<le> unat bp \<or> unat bp + 8 * unat (h_size b) \<le> unat a) \<and>
     hdr t = (hdr h)(bp := b, p := c) \<and> brk t = brk h \<and> freep t = p"

definition linked :: "u32 \<Rightarrow> u32 list \<Rightarrow> u32 \<Rightarrow> u32 list \<Rightarrow> u32 set \<Rightarrow> heap \<Rightarrow> heap \<Rightarrow> bool" where
  "linked base L bp L' A h t \<longleftrightarrow> heap_ok base L' (A - {bp}) t \<and> (\<forall>a \<in> A - {bp}. hdr t a = hdr h a) \<and> brk t = brk h \<and>
     (\<exists>a \<in> set L'. unat (h_size (hdr h bp)) \<le> unat (h_size (hdr t a))) \<and> free_bytes L' t = free_bytes L h \<union> span h bp"

lemma linking_facts:
  assumes l: "linking base xs p us ys A bp b c h t"
  shows "p \<noteq> bp" "p \<noteq> base \<Longrightarrow> unat base + 8 \<le> unat p \<and> 0 < unat (h_size (hdr h p)) \<and> (\<forall>a \<in> A. apart h a p)"
    "a \<in> (A - {bp}) \<union> set xs \<union> set ys \<Longrightarrow> hdr t a = hdr h a" "a \<in> (A - {bp}) \<union> set xs \<union> set ys \<Longrightarrow> fin t a = fin h a"
    "free_bytes xs t = free_bytes xs h" "free_bytes ys t = free_bytes ys h"
    "unat (p + 8 * h_size (hdr h p)) = fin h p" "unat bp < fin h bp" "unat base + 8 \<le> unat bp"
    "sorted_wrt (\<lambda>a b. fin h a < unat b) (xs @ p # us @ ys)"
proof -
  have ok: "heap_ok base (xs @ p # us @ ys) A h" and bp: "bp \<in> A" using l by (simp_all add: linking_def)
  have ob: "unat base + 8 \<le> unat bp \<and> fin h bp \<le> unat (brk h) \<and> 0 < unat (h_size (hdr h bp))" "unat (brk h) \<le> 2 ^ 31"
    using heap_ok_used [OF ok bp] ok by (simp_all add: heap_ok_def)
  have "sorted_wrt (<) (xs @ p # us @ ys)" using sorted_less [of base _ h] ok by (simp add: heap_ok_def)
  then have ps: "p \<notin> set xs" "p \<notin> set ys" by (auto simp: sorted_wrt_append)
  have bs: "p \<noteq> bp" "bp \<notin> set xs" "bp \<notin> set ys" using used_not_listed [OF ok bp] by auto
  have pA: "p \<notin> A" using used_not_listed [OF ok, of p] by auto
  show "p \<noteq> bp" by fact
  show "p \<noteq> base \<Longrightarrow> unat base + 8 \<le> unat p \<and> 0 < unat (h_size (hdr h p)) \<and> (\<forall>a \<in> A. apart h a p)"
    using heap_ok_free [OF ok, of p] heap_ok_apart_free [OF ok, of _ p] by auto
  show same: "hdr t a = hdr h a" if "a \<in> (A - {bp}) \<union> set xs \<union> set ys" for a using that l ps bs pA by (auto simp: linking_def)
  show ft: "fin t a = fin h a" if "a \<in> (A - {bp}) \<union> set xs \<union> set ys" for a using same [OF that] by (simp add: fin_def)
  show "free_bytes xs t = free_bytes xs h" "free_bytes ys t = free_bytes ys h" using ft by (simp_all add: free_bytes_def span_def)
  show "unat bp < fin h bp" "unat base + 8 \<le> unat bp" using ob by (simp_all add: fin_def)
  show "unat (p + 8 * h_size (hdr h p)) = fin h p" using l ob fin_ge [of bp h] by (intro unat_fin) (simp add: linking_def)
  show "sorted_wrt (\<lambda>a b. fin h a < unat b) (xs @ p # us @ ys)" using ok by (simp add: heap_ok_def free_ok_def)
qed

text \<open>The block below touches \<open>bp\<close> and takes it over.\<close>

lemma link_merge:
  assumes l: "linking base xs p us ys A bp b c h t" and m: "p + 8 * h_size (hdr h p) = bp" and c: "c = \<lparr>h_ptr = h_ptr b, h_size = h_size (hdr h p) + h_size b\<rparr>"
  shows "linked base (xs @ p # us @ ys) bp (xs @ [p] @ ys) A h t"
proof -
  note F = linking_facts [OF l]
  have ok: "heap_ok base (xs @ p # us @ ys) A h" and ht: "hdr t = (hdr h)(bp := b, p := c)" "brk t = brk h" "freep t = p" using l by (simp_all add: linking_def)
  have y: "h_ptr b = hd (ys @ [base])" "\<forall>y \<in> set ys. unat bp + 8 * unat (h_size b) < unat y"
    "unat (h_size (hdr h bp)) \<le> unat (h_size b)" "unat bp + 8 * unat (h_size b) \<le> unat (brk h)"
    "{unat bp ..< unat bp + 8 * unat (h_size b)} = span h bp \<union> free_bytes us h"
    "\<And>a. a \<in> A \<Longrightarrow> a \<noteq> bp \<Longrightarrow> fin h a \<le> unat bp \<or> unat bp + 8 * unat (h_size b) \<le> unat a" using l unfolding linking_def by blast+
  have fpb: "fin h p = unat bp" using F(7) m by simp
  have sz: "0 < unat (h_size b)" using F(8) y(3) by (simp add: fin_def)
  have nb: "p \<noteq> base" using fpb F(9) ok by (auto simp: fin_def heap_ok_def free_ok_def)
  have "unat (h_size (hdr h p) + h_size b) = unat (h_size (hdr h p)) + unat (h_size b)"
    using fpb y(4) ok by (intro unat_size_add [of p]) (simp add: fin_def heap_ok_def)
  then have c': "h_ptr c = h_ptr b" "unat (h_size c) = unat (h_size (hdr h p)) + unat (h_size b)" by (simp_all add: c)
  then have fe: "fin t p = unat bp + 8 * unat (h_size b)" using fpb by (simp add: fin_def ht(1))
  have apt: "apart t a p" if "a \<in> A - {bp}" for a
  proof -
    have "fin h a \<le> unat p \<or> unat bp \<le> unat a" using F(2) [OF nb] that fpb by (auto simp: apart_def)
    moreover have "unat a < fin h a" using heap_ok_used [OF ok, of a] that by (simp add: fin_def)
    ultimately have "fin h a \<le> unat p \<or> unat bp + 8 * unat (h_size b) \<le> unat a" using y(6) [of a] that by auto
    then show ?thesis using F(4) [of a] that fe by (auto simp: apart_def)
  qed
  have "heap_ok base (xs @ [p] @ ys) (A - {bp}) t"
  proof (rule heap_ok_relink [OF ok])
    show "chain (nxt t) p [p] (hd (ys @ [base]))" using y(1) c'(1) by (simp add: nxt_def ht(1))
  qed (use F(3) ht fe y(2,4) F(2) [OF nb] sz c'(2) apt F(10) nb in \<open>auto simp: sorted_wrt_append\<close>)
  moreover have "span t p = span h p \<union> (span h bp \<union> free_bytes us h)"
    using fe fpb sz fin_ge [of p h] unfolding y(5) [symmetric] by (auto simp: span_def)
  then have "free_bytes (xs @ [p] @ ys) t = free_bytes (xs @ p # us @ ys) h \<union> span h bp" using F(5,6) by (auto simp: free_bytes_def)
  moreover have "unat (h_size (hdr h bp)) \<le> unat (h_size (hdr t p))" using c'(2) y(3) by (simp add: ht(1))
  ultimately show ?thesis using F(3) ht(2) by (auto simp: linked_def)
qed

text \<open>The block below does not touch \<open>bp\<close>, which becomes a block of the list.\<close>

lemma link_insert:
  assumes l: "linking base xs p us ys A bp b c h t" and m: "p + 8 * h_size (hdr h p) \<noteq> bp" and c: "c = (hdr h p)\<lparr>h_ptr := bp\<rparr>"
  shows "linked base (xs @ p # us @ ys) bp (xs @ [p, bp] @ ys) A h t"
proof -
  note F = linking_facts [OF l]
  have ok: "heap_ok base (xs @ p # us @ ys) A h" and ht: "hdr t = (hdr h)(bp := b, p := c)" "brk t = brk h" "freep t = p"
    and fp: "fin h p \<le> unat bp" using l by (simp_all add: linking_def)
  have y: "h_ptr b = hd (ys @ [base])" "\<forall>y \<in> set ys. unat bp + 8 * unat (h_size b) < unat y"
    "unat (h_size (hdr h bp)) \<le> unat (h_size b)" "unat bp + 8 * unat (h_size b) \<le> unat (brk h)"
    "{unat bp ..< unat bp + 8 * unat (h_size b)} = span h bp \<union> free_bytes us h"
    "\<And>a. a \<in> A \<Longrightarrow> a \<noteq> bp \<Longrightarrow> fin h a \<le> unat bp \<or> unat bp + 8 * unat (h_size b) \<le> unat a" using l unfolding linking_def by blast+
  have fpb: "fin h p < unat bp" using F(7) fp m by (metis le_neq_implies_less word_unat_eq_iff)
  have sz: "0 < unat (h_size b)" using F(8) y(3) by (simp add: fin_def)
  have ft: "fin t p = fin h p" "fin t bp = unat bp + 8 * unat (h_size b)" "nxt t p = bp" "nxt t bp = h_ptr b"
    using F(1) by (simp_all add: fin_def nxt_def ht(1) c)
  have m1: "m = p \<or> m = bp" if "m \<in> set [p, bp]" for m using that by simp
  have "heap_ok base (xs @ [p, bp] @ ys) (A - {bp}) t"
  proof (rule heap_ok_relink [OF ok])
    show "chain (nxt t) p [p, bp] (hd (ys @ [base]))" using y(1) ft by simp
    show "sorted_wrt (\<lambda>a b. fin t a < unat b) [p, bp]" using ft fpb by simp
    show "fin h x < unat m" if "m \<in> set [p, bp]" "x \<in> set xs" for m x
      using m1 [OF that(1)] that(2) F(10) fpb fin_ge [of p h] by (auto simp: sorted_wrt_append)
    show "fin t m < unat z" if "m \<in> set [p, bp]" "z \<in> set ys" for m z using m1 [OF that(1)] that(2) ft fpb y(2) by fastforce
    show "p = base \<Longrightarrow> h_size (hdr t base) = 0" using ok by (simp add: ht(1) c heap_ok_def free_ok_def)
    show "unat base + 8 \<le> unat m \<and> fin t m \<le> unat (brk h) \<and> 0 < unat (h_size (hdr t m)) \<and> (\<forall>a \<in> A - {bp}. apart t a m)"
      if "m \<in> set [p, bp]" "m \<noteq> base" for m
    proof (cases "m = p")
      case True
      then show ?thesis using F(2,4) that(2) ft(1) fp y(4) by (auto simp: ht(1) c apart_def)
    next
      case False
      then have "m = bp" using m1 [OF that(1)] by blast
      then show ?thesis using F(1,4,9) ft(2) y(4,6) sz by (auto simp: ht(1) apart_def)
    qed
  qed (use F(3) ht in auto)
  moreover have "span t p = span h p" "span t bp = span h bp \<union> free_bytes us h" using ft unfolding y(5) [symmetric] by (simp_all add: span_def)
  then have "free_bytes (xs @ [p, bp] @ ys) t = free_bytes (xs @ p # us @ ys) h \<union> span h bp" using F(5,6) by (auto simp: free_bytes_def)
  moreover have "unat (h_size (hdr h bp)) \<le> unat (h_size (hdr t bp))" using y(3) F(1) by (simp add: ht(1))
  ultimately show ?thesis using F(3) ht(2) by (auto simp: linked_def)
qed

lemma free_link_ok:
  assumes ok: "heap_ok base (xs @ p # ys) A h" and bp: "bp \<in> A" and fp: "fin h p \<le> unat bp" and fy: "\<forall>y \<in> set ys. fin h bp \<le> unat y"
  shows "\<exists>L'. linked base (xs @ p # ys) bp L' A h (free_link bp p h)"
proof -
  define b where "b = absorb bp (nxt h p) h"
  define c where "c = (if p + 8 * h_size (hdr h p) = bp then \<lparr>h_ptr = h_ptr b, h_size = h_size (hdr h p) + h_size b\<rparr> else (hdr h p)\<lparr>h_ptr := bp\<rparr>)"
  obtain ys1 us where y: "ys = us @ ys1" "chain (nxt h) (h_ptr b) ys1 base" "\<forall>y \<in> set ys1. unat bp + 8 * unat (h_size b) < unat y"
    "unat (h_size (hdr h bp)) \<le> unat (h_size b)" "unat bp + 8 * unat (h_size b) \<le> unat (brk h)"
    "{unat bp ..< unat bp + 8 * unat (h_size b)} = span h bp \<union> free_bytes us h"
    "\<And>a. a \<in> A \<Longrightarrow> a \<noteq> bp \<Longrightarrow> fin h a \<le> unat bp \<or> unat bp + 8 * unat (h_size b) \<le> unat a"
    using absorb_next [OF ok bp fy] unfolding b_def by blast
  have "p \<noteq> bp" using used_not_listed [OF ok bp] by auto
  then have t: "free_link bp p h = (set_hdr p c (set_hdr bp b h))\<lparr>freep := p\<rparr>" by (simp add: free_link_def Let_def c_def b_def absorb_def nxt_def)
  have "linking base xs p us ys1 A bp b c h (free_link bp p h)"
    using ok bp fp y chain_start [OF y(2)] unfolding t by (simp add: linking_def)
  then show ?thesis using link_merge link_insert y(1) c_def by (cases "p + 8 * h_size (hdr h p) = bp") (metis append.assoc append_Cons)+
qed

lemma free_list_nonzero: "heap_ok base L A h \<Longrightarrow> a \<in> set L \<Longrightarrow> a \<noteq> 0"
proof
  assume ok: "heap_ok base L A h" and a: "a \<in> set L" "a = 0"
  then have "a \<noteq> base" by (auto simp: heap_ok_def)
  from heap_ok_free [OF ok a(1) this] show False using a(2) by simp
qed

lemma ufree_ok:
  assumes ok: "heap_ok base L A h" and bp: "bp \<in> A"
  obtains L' t where "ufree (bp + 8) h = Ok ((), t)" "heap_ok base L' (A - {bp}) t" "\<And>a. a \<in> A - {bp} \<Longrightarrow> hdr t a = hdr h a"
    "brk t = brk h" "\<exists>a \<in> set L'. unat (h_size (hdr h bp)) \<le> unat (h_size (hdr t a))" "free_bytes L' t = free_bytes L h \<union> span h bp"
proof -
  obtain xs p ys where L: "L = xs @ p # ys" "around base bp xs p ys" "fin h p \<le> unat bp" "\<forall>y \<in> set ys. fin h bp \<le> unat y"
    by (rule around_used [OF ok bp])
  have fr: "freep h \<in> set L" "chain (nxt h) base L base" using ok by (auto simp: heap_ok_def free_ok_def)
  have "free_seek h bp (freep h) = Some p" by (rule seek_finds [of h base xs p ys]) (use fr L in auto)
  then have "ufree (bp + 8) h = Ok ((), free_link bp p h)" using free_list_nonzero [OF ok fr(1)] by (simp add: ufree_def)
  then show ?thesis using free_link_ok [OF _ bp L(3,4)] ok L(1) that unfolding linked_def by metis
qed

section \<open>Allocating\<close>

lemma heap_ok_add:
  assumes "heap_ok base L A h" "unat base + 8 \<le> unat a" "fin h a \<le> unat (brk h)" "0 < unat (h_size (hdr h a))"
    "\<And>b. b \<in> A \<Longrightarrow> apart h a b" "\<And>b. b \<in> set L \<Longrightarrow> b \<noteq> base \<Longrightarrow> apart h a b"
  shows "heap_ok base L (insert a A) h"
  using assms by (auto simp: heap_ok_def apart_def)

text \<open>The block \<open>p\<close> behind \<open>prevp\<close>, out of which units are taken.\<close>

lemma take_from:
  assumes ok: "heap_ok base L A h" and p: "prevp \<in> set L" "nxt h prevp = p" "p \<in> set L" "0 < unat (h_size (hdr h p))"
  obtains xs ys where "L = xs @ prevp # [p] @ ys" "p \<noteq> base" "nxt h p = hd (ys @ [base])"
    "p \<notin> A" "prevp \<notin> A" "prevp \<noteq> p" "p \<notin> set xs" "p \<notin> set ys" "prevp \<notin> set xs" "prevp \<notin> set ys"
    "\<And>b. b \<in> set L \<Longrightarrow> b \<noteq> p \<Longrightarrow> fin h b < unat p \<or> fin h p < unat b"
    "prevp \<noteq> base \<Longrightarrow> unat base + 8 \<le> unat prevp \<and> fin h prevp \<le> unat (brk h) \<and> 0 < unat (h_size (hdr h prevp)) \<and> (\<forall>a \<in> A. apart h a prevp)"
proof -
  have ch: "chain (nxt h) base L base" and pb: "p \<noteq> base" using ok p(4) by (auto simp: heap_ok_def free_ok_def)
  obtain xs ys where L: "L = xs @ prevp # p # ys" using chain_next [OF ch p(1)] p(2) pb by metis
  have so: "sorted_wrt (\<lambda>a b. fin h a < unat b) L" "sorted_wrt (<) L" using ok sorted_less [of base L h] by (auto simp: heap_ok_def free_ok_def)
  show ?thesis
  proof (rule that [of xs ys])
    show "nxt h p = hd (ys @ [base])" using ch L by (auto simp: chain_append dest: chain_start)
    show "prevp \<noteq> p" "p \<notin> set xs" "p \<notin> set ys" "prevp \<notin> set xs" "prevp \<notin> set ys" using so(2) L by (auto simp: sorted_wrt_append)
    show "p \<notin> A" "prevp \<notin> A" using used_not_listed [OF ok] p(1,3) by auto
    show "fin h b < unat p \<or> fin h p < unat b" if "b \<in> set L" "b \<noteq> p" for b using so(1) L that by (auto simp: sorted_wrt_append)
    show "unat base + 8 \<le> unat prevp \<and> fin h prevp \<le> unat (brk h) \<and> 0 < unat (h_size (hdr h prevp)) \<and> (\<forall>a \<in> A. apart h a prevp)"
      if "prevp \<noteq> base" using heap_ok_free [OF ok p(1) that] heap_ok_apart_free [OF ok _ p(1) that] by auto
  qed (use L pb in auto)
qed

definition taken_units :: "u32 \<Rightarrow> u32 list \<Rightarrow> u32 set \<Rightarrow> heap \<Rightarrow> u32 \<Rightarrow> u32 \<Rightarrow> u32 list \<Rightarrow> heap \<Rightarrow> bool" where
  "taken_units base L A h n a L' t \<longleftrightarrow> heap_ok base L' (insert a A) t \<and> h_size (hdr t a) = n \<and> a \<notin> A \<and> (\<forall>b \<in> A. hdr t b = hdr h b) \<and>
     brk t = brk h \<and> free_bytes L' t \<union> span t a = free_bytes L h"

lemma take_exact:
  assumes ok: "heap_ok base L A h" and p: "prevp \<in> set L" "nxt h prevp = p" "p \<in> set L" and n: "0 < unat n" "h_size (hdr h p) = n"
  shows "\<exists>L' t. take_units n prevp p h = Ok (p + 8, t) \<and> taken_units base L A h n p L' t"
proof -
  have z: "0 < unat (h_size (hdr h p))" using n by simp
  obtain xs ys where L: "L = xs @ prevp # [p] @ ys" "p \<noteq> base" "nxt h p = hd (ys @ [base])"
    "p \<notin> A" "prevp \<notin> A" "prevp \<noteq> p" "p \<notin> set xs" "p \<notin> set ys" "prevp \<notin> set xs" "prevp \<notin> set ys"
    "\<And>b. b \<in> set L \<Longrightarrow> b \<noteq> p \<Longrightarrow> fin h b < unat p \<or> fin h p < unat b"
    "prevp \<noteq> base \<Longrightarrow> unat base + 8 \<le> unat prevp \<and> fin h prevp \<le> unat (brk h) \<and> 0 < unat (h_size (hdr h prevp)) \<and> (\<forall>a \<in> A. apart h a prevp)"
    by (rule take_from [OF ok p z]) blast
  define t where "t = (set_hdr prevp ((hdr h prevp)\<lparr>h_ptr := h_ptr (hdr h p)\<rparr>) h)\<lparr>freep := prevp\<rparr>"
  have run: "take_units n prevp p h = Ok (p + 8, t)" using n(2) by (simp add: take_units_def t_def)
  have ht: "hdr t = (hdr h)(prevp := (hdr h prevp)\<lparr>h_ptr := nxt h p\<rparr>)" "brk t = brk h" "freep t = prevp" by (simp_all add: t_def nxt_def)
  have ft: "fin t = fin h" by (auto simp: fin_def ht(1) fun_eq_iff)
  have ap: "apart t = apart h" by (simp add: apart_def ft fun_eq_iff)
  have so: "sorted_wrt (\<lambda>a b. fin h a < unat b) (xs @ prevp # p # ys)" "h_size (hdr h base) = 0" using ok L(1) by (auto simp: heap_ok_def free_ok_def)
  have "heap_ok base (xs @ [prevp] @ ys) A t"
  proof (rule heap_ok_relink [OF ok [unfolded L(1)]])
    show "chain (nxt t) prevp [prevp] (hd (ys @ [base]))" using L(3) by (simp add: nxt_def ht(1))
  qed (use L(4-10,12) ht ft ap so in \<open>auto simp: sorted_wrt_append\<close>)
  moreover have "apart h p b" if "b \<in> set L" "b \<noteq> p" for b using L(11) [OF that] by (auto simp: apart_def)
  moreover have "apart h p b" if "b \<in> A" for b using heap_ok_apart_free [OF ok that p(3) L(2)] by (auto simp: apart_def)
  ultimately have "heap_ok base (xs @ [prevp] @ ys) (insert p A) t"
    using heap_ok_free [OF ok p(3) L(2)] L ht ft ap by (intro heap_ok_add) auto
  moreover have "free_bytes (xs @ [prevp] @ ys) t \<union> span t p = free_bytes L h" using L(1) by (auto simp: free_bytes_def span_def ft)
  moreover have "hdr t b = hdr h b" if "b \<in> A" for b using that L(5) by (auto simp: ht(1))
  ultimately show ?thesis using run L(4,6) n(2) ht(1,2) by (auto simp: taken_units_def)
qed

text \<open>The end of the block \<open>p\<close> is cut off: \<open>a\<close> is the header of the new block, \<open>t\<close> the heap after.\<close>

definition cutting :: "u32 \<Rightarrow> u32 list \<Rightarrow> u32 \<Rightarrow> u32 \<Rightarrow> u32 list \<Rightarrow> u32 set \<Rightarrow> u32 \<Rightarrow> u32 \<Rightarrow> heap \<Rightarrow> heap \<Rightarrow> bool" where
  "cutting base xs prevp p ys A n a h t \<longleftrightarrow> heap_ok base (xs @ [prevp, p] @ ys) A h \<and> p \<noteq> base \<and> nxt h prevp = p \<and> nxt h p = hd (ys @ [base]) \<and>
     (\<forall>b \<in> set (xs @ [prevp, p] @ ys). b \<noteq> p \<longrightarrow> fin h b < unat p \<or> fin h p < unat b) \<and>
     (prevp \<noteq> base \<longrightarrow> unat base + 8 \<le> unat prevp \<and> fin h prevp \<le> unat (brk h) \<and> 0 < unat (h_size (hdr h prevp)) \<and> (\<forall>b \<in> A. apart h b prevp)) \<and>
     0 < unat n \<and> unat n < unat (h_size (hdr h p)) \<and> a = p + 8 * (h_size (hdr h p) - n) \<and>
     hdr t = (hdr h)(p := (hdr h p)\<lparr>h_size := h_size (hdr h p) - n\<rparr>, a := (((hdr h)(p := (hdr h p)\<lparr>h_size := h_size (hdr h p) - n\<rparr>)) a)\<lparr>h_size := n\<rparr>) \<and> brk t = brk h \<and> freep t = prevp"

lemma cutting_facts:
  assumes l: "cutting base xs prevp p ys A n a h t"
  shows "unat p + 8 \<le> unat a" "unat a < fin h p" "fin t p = unat a" "fin t a = fin h p" "a \<notin> A" "a \<notin> set (xs @ [prevp, p] @ ys)"
    "b \<noteq> p \<Longrightarrow> b \<noteq> a \<Longrightarrow> hdr t b = hdr h b" "b \<noteq> p \<Longrightarrow> b \<noteq> a \<Longrightarrow> fin t b = fin h b"
    "unat base + 8 \<le> unat p" "fin h p \<le> unat (brk h)" "p \<notin> A" "prevp \<notin> A"
proof -
  let ?s = "h_size (hdr h p)"
  have ok: "heap_ok base (xs @ [prevp, p] @ ys) A h" and pb: "p \<noteq> base" and n: "0 < unat n" "unat n < unat ?s"
    and ht: "hdr t = (hdr h)(p := (hdr h p)\<lparr>h_size := ?s - n\<rparr>, a := (((hdr h)(p := (hdr h p)\<lparr>h_size := ?s - n\<rparr>)) a)\<lparr>h_size := n\<rparr>)"
    and a: "a = p + 8 * (?s - n)" using l by (simp_all add: cutting_def)
  have far: "fin h b < unat p \<or> fin h p < unat b" if "b \<in> set (xs @ [prevp, p] @ ys)" "b \<noteq> p" for b using that l unfolding cutting_def by blast
  have pL: "p \<in> set (xs @ [prevp, p] @ ys)" by simp
  note op = heap_ok_free [OF ok pL pb]
  show "unat base + 8 \<le> unat p" "fin h p \<le> unat (brk h)" using op by auto
  have bk: "unat (brk h) \<le> 2 ^ 31" using ok by (simp add: heap_ok_def)
  have d: "unat (?s - n) = unat ?s - unat n" using n(2) by (simp add: unat_sub word_le_nat_alt)
  have "unat p + 8 * (unat ?s - unat n) \<le> fin h p" by (simp add: fin_def)
  also have "fin h p < 2 ^ 32" using op bk by simp
  finally have "unat p + 8 * (unat ?s - unat n) < 2 ^ 32" .
  then have "unat (p + 8 * h_size ((hdr h p)\<lparr>h_size := ?s - n\<rparr>)) = fin (set_hdr p ((hdr h p)\<lparr>h_size := ?s - n\<rparr>) h) p"
    using unat_fin [of "set_hdr p ((hdr h p)\<lparr>h_size := ?s - n\<rparr>) h" p] d by simp
  then have ua: "unat a = unat p + 8 * (unat ?s - unat n)" by (simp add: a d)
  then show fa: "unat p + 8 \<le> unat a" "unat a < fin h p" using n by (simp_all add: fin_def)
  then have ne: "a \<noteq> p" by auto
  show "fin t p = unat a" "fin t a = fin h p" using ne ua n by (simp_all add: fin_def ht d)
  show "a \<notin> set (xs @ [prevp, p] @ ys)" using far [of a] fa ne fin_ge [of a h] by auto
  show "a \<notin> A"
  proof
    assume "a \<in> A"
    from heap_ok_apart_free [OF ok this pL pb] heap_ok_used [OF ok this] show False using fa by (auto simp: apart_def fin_def)
  qed
  show "hdr t b = hdr h b" if "b \<noteq> p" "b \<noteq> a" using that by (simp add: ht)
  then show "fin t b = fin h b" if "b \<noteq> p" "b \<noteq> a" using that by (simp add: fin_def)
  show "p \<notin> A" "prevp \<notin> A" using used_not_listed [OF ok, of p] used_not_listed [OF ok, of prevp] by auto
qed

lemma cut_free:
  assumes l: "cutting base xs prevp p ys A n a h t"
  shows "heap_ok base (xs @ [prevp, p] @ ys) A t"
proof -
  note F = cutting_facts [OF l]
  have ok: "heap_ok base (xs @ prevp # [p] @ ys) A h" and nx: "nxt h prevp = p" "nxt h p = hd (ys @ [base])" and pb: "p \<noteq> base" using l by (simp_all add: cutting_def)
  have al: "a \<notin> set xs" "a \<notin> set ys" "a \<noteq> prevp" "a \<noteq> p" using F(6) by auto
  have "sorted_wrt (<) (xs @ prevp # [p] @ ys)" using sorted_less [of base _ h] ok by (simp add: heap_ok_def)
  then have pl: "p \<notin> set xs" "p \<notin> set ys" "prevp \<noteq> p" by (auto simp: sorted_wrt_append)
  have so: "sorted_wrt (\<lambda>a b. fin h a < unat b) (xs @ prevp # p # ys)" "h_size (hdr h base) = 0" using ok by (auto simp: heap_ok_def free_ok_def)
  have nt: "nxt t p = nxt h p" "nxt t prevp = p" using nx(1) pl(3) al l by (auto simp: nxt_def cutting_def)
  have fpv: "fin t prevp = fin h prevp" "fin h prevp < unat p" using F(8) pl(3) al(3) so(1) by (auto simp: sorted_wrt_append)
  have fA: "fin t b = fin h b" if "b \<in> A" for b using F(8) [of b] that F(5,11) by blast
  have aps: "apart t b p" if "b \<in> A" for b
    using heap_ok_apart_free [OF ok that _ pb] fA [OF that] F(2,3) by (auto simp: apart_def)
  have size: "0 < unat (h_size (hdr t p))" using F(1,3) by (simp add: fin_def)
  show ?thesis unfolding append_Cons
  proof (rule heap_ok_relink [OF ok, of A t "[prevp, p]", simplified append_Cons])
    show "chain (nxt t) prevp [prevp, p] (hd (ys @ [base]))" using nx(2) nt by simp
    show "sorted_wrt (\<lambda>a b. fin t a < unat b) [prevp, p]" using fpv by simp
    show "fin h x < unat m" if "m \<in> set [prevp, p]" "x \<in> set xs" for m x using that so(1) by (auto simp: sorted_wrt_append)
    show "fin t m < unat y" if "m \<in> set [prevp, p]" "y \<in> set ys" for m y using that so(1) F(2,3) fpv by (auto simp: sorted_wrt_append intro: less_trans)
    show "unat base + 8 \<le> unat m \<and> fin t m \<le> unat (brk h) \<and> 0 < unat (h_size (hdr t m)) \<and> (\<forall>a \<in> A. apart t a m)"
      if "m \<in> set [prevp, p]" "m \<noteq> base" for m
    proof (cases "m = p")
      case True
      then show ?thesis using F(2,3,9,10) size aps by simp
    next
      case False
      then have m: "m = prevp" using that(1) by simp
      then have pv: "unat base + 8 \<le> unat prevp" "fin h prevp \<le> unat (brk h)" "0 < unat (h_size (hdr h prevp))" "\<And>b. b \<in> A \<Longrightarrow> apart h b prevp"
        using l that(2) unfolding cutting_def by blast+
      then show ?thesis using m fpv(1) F(7) [of prevp] fA pl(3) al(3) by (simp add: apart_def)
    qed
    show "prevp = base \<Longrightarrow> h_size (hdr t base) = 0" using F(7) [of prevp] pl(3) al(3) so(2) by simp
    show "hdr t b = hdr h b" if "b \<in> A \<union> set xs \<union> set ys" for b by (rule F(7)) (use that F(5,11) pl al in auto)
  qed (use l in \<open>auto simp: cutting_def\<close>)
qed

lemma cut_used:
  assumes l: "cutting base xs prevp p ys A n a h t"
  shows "taken_units base (xs @ [prevp, p] @ ys) A h n a (xs @ [prevp, p] @ ys) t"
proof -
  let ?L = "xs @ [prevp, p] @ ys"
  note F = cutting_facts [OF l]
  have ok: "heap_ok base ?L A h" and pb: "p \<noteq> base" and n: "0 < unat n" and ha: "h_size (hdr t a) = n" "brk t = brk h" using l by (auto simp: cutting_def)
  have far: "fin h b < unat p \<or> fin h p < unat b" if "b \<in> set ?L" "b \<noteq> p" for b using that l unfolding cutting_def by blast
  have pL: "p \<in> set ?L" by simp
  have "heap_ok base ?L (insert a A) t"
  proof (rule heap_ok_add [OF cut_free [OF l]])
    show "apart t a b" if "b \<in> A" for b
      using heap_ok_apart_free [OF ok that pL pb] F(8) [of b] F(1,4,5,11) that by (fastforce simp: apart_def)
    show "apart t a b" if "b \<in> set ?L" "b \<noteq> base" for b
    proof (cases "b = p")
      case True
      then show ?thesis using F(3) by (simp add: apart_def)
    next
      case False
      then have "fin t b = fin h b" using F(6) that(1) by (intro F(8)) auto
      then show ?thesis using far [OF that(1) False] F(1,4) by (auto simp: apart_def)
    qed
  qed (use F ha n in auto)
  moreover have "free_bytes ?L t \<union> span t a = free_bytes ?L h"
  proof -
    have "span t p \<union> span t a = span h p" using F(1-4) by (auto simp: span_def)
    moreover have "span t b = span h b" if "b \<in> set ?L" "b \<noteq> p" for b
    proof -
      have "fin t b = fin h b" by (rule F(8)) (use that F(6) in auto)
      then show ?thesis by (simp add: span_def)
    qed
    ultimately show ?thesis using pL unfolding free_bytes_def by blast
  qed
  moreover have "hdr t b = hdr h b" if "b \<in> A" for b by (rule F(7)) (use that F(5,11) in auto)
  ultimately show ?thesis using ha F(5) by (auto simp: taken_units_def)
qed

lemma take_split:
  assumes ok: "heap_ok base L A h" and p: "prevp \<in> set L" "nxt h prevp = p" "p \<in> set L" and n: "0 < unat n" "n < h_size (hdr h p)"
  shows "\<exists>t a. take_units n prevp p h = Ok (a + 8, t) \<and> taken_units base L A h n a L t"
proof -
  have lt: "unat n < unat (h_size (hdr h p))" using n(2) by (simp add: word_less_nat_alt)
  then have z: "0 < unat (h_size (hdr h p))" by simp
  obtain xs ys where L: "L = xs @ prevp # [p] @ ys" "p \<noteq> base" "nxt h p = hd (ys @ [base])"
    "\<And>b. b \<in> set L \<Longrightarrow> b \<noteq> p \<Longrightarrow> fin h b < unat p \<or> fin h p < unat b"
    "prevp \<noteq> base \<Longrightarrow> unat base + 8 \<le> unat prevp \<and> fin h prevp \<le> unat (brk h) \<and> 0 < unat (h_size (hdr h prevp)) \<and> (\<forall>a \<in> A. apart h a prevp)"
    by (rule take_from [OF ok p z]) blast
  define h1 where "h1 = set_hdr p ((hdr h p)\<lparr>h_size := h_size (hdr h p) - n\<rparr>) h"
  define a where "a = p + 8 * (h_size (hdr h p) - n)"
  define t where "t = (set_hdr a ((hdr h1 a)\<lparr>h_size := n\<rparr>) h1)\<lparr>freep := prevp\<rparr>"
  have run: "take_units n prevp p h = Ok (a + 8, t)" using n(2) by (simp add: take_units_def Let_def t_def a_def h1_def less_imp_neq [symmetric])
  have "cutting base xs prevp p ys A n a h t"
    using ok p(2) L n(1) lt unfolding cutting_def t_def h1_def a_def by simp
  from cut_used [OF this] show ?thesis using run L(1) by auto
qed

lemma take_units_ok:
  assumes ok: "heap_ok base L A h" and p: "prevp \<in> set L" "nxt h prevp = p" "p \<in> set L" and n: "0 < unat n" "n \<le> h_size (hdr h p)"
  shows "\<exists>L' a t. take_units n prevp p h = Ok (a + 8, t) \<and> taken_units base L A h n a L' t"
  using take_exact [OF ok p n(1)] take_split [OF ok p n(1)] n(2) by (metis order_le_less)

section \<open>The search of malloc\<close>

lemma loop_scan:
  assumes "chain (nxt h) p zs e" "zs \<noteq> []" "last zs = freep h" "freep h \<notin> set (butlast zs)" "set zs \<subseteq> set L" "prevp \<in> set L" "nxt h prevp = p"
  shows "if \<exists>z \<in> set zs. n \<le> h_size (hdr h z)
    then \<exists>prev z. prev \<in> set L \<and> nxt h prev = z \<and> z \<in> set L \<and> n \<le> h_size (hdr h z) \<and> malloc_loop g n prevp p h = Some (take_units n prev z h)
    else malloc_loop g n prevp p h = (case morecore g n h of
           Ok (q, h1) \<Rightarrow> if q = 0 then Some (Ok (0, h1)) else malloc_loop g n q (h_ptr (hdr h1 q)) h1
         | r \<Rightarrow> Some r)"
  using assms
proof (induction zs arbitrary: p prevp)
  case (Cons z zs)
  then have p: "p = z" "z \<in> set L" and c: "chain (nxt h) (nxt h z) zs e" by auto
  show ?case
  proof (cases "n \<le> h_size (hdr h z)")
    case True
    then have "malloc_loop g n prevp p h = Some (take_units n prevp z h)" by (subst malloc_loop.simps) (simp add: p)
    then show ?thesis using True Cons.prems(6,7) p by auto
  next
    case no: False
    show ?thesis
    proof (cases "zs = []")
      case True
      then have "z = freep h" using Cons.prems(3) by simp
      then show ?thesis using no True p by (subst malloc_loop.simps) simp
    next
      case False
      then have zf: "z \<noteq> freep h" using Cons.prems(4) by auto
      have step: "malloc_loop g n prevp p h = malloc_loop g n z (nxt h z) h"
        using no zf by (subst malloc_loop.simps) (simp add: p nxt_def)
      have ih: "if \<exists>y \<in> set zs. n \<le> h_size (hdr h y)
        then \<exists>prev y. prev \<in> set L \<and> nxt h prev = y \<and> y \<in> set L \<and> n \<le> h_size (hdr h y) \<and> malloc_loop g n z (nxt h z) h = Some (take_units n prev y h)
        else malloc_loop g n z (nxt h z) h = (case morecore g n h of
           Ok (q, h1) \<Rightarrow> if q = 0 then Some (Ok (0, h1)) else malloc_loop g n q (h_ptr (hdr h1 q)) h1
         | r \<Rightarrow> Some r)"
        by (rule Cons.IH [OF c False]) (use Cons.prems(3-5) False p in auto)
      have "(\<exists>y \<in> set (z # zs). n \<le> h_size (hdr h y)) \<longleftrightarrow> (\<exists>y \<in> set zs. n \<le> h_size (hdr h y))" using no by auto
      then show ?thesis using ih unfolding step by presburger
    qed
  qed
qed simp

text \<open>The way once around the list, from the successor of \<open>freep\<close> to \<open>freep\<close>.\<close>

lemma cycle:
  assumes "heap_ok base L A h"
  obtains zs where "chain (nxt h) (nxt h (freep h)) zs (nxt h (freep h))" "zs \<noteq> []" "last zs = freep h" "freep h \<notin> set (butlast zs)" "set zs = set L"
proof -
  have ch: "chain (nxt h) base L base" "freep h \<in> set L" using assms by (auto simp: heap_ok_def free_ok_def)
  obtain as bs where L: "L = as @ freep h # bs" using ch(2) by (auto simp: in_set_conv_decomp)
  have "sorted_wrt (<) L" using sorted_less [of base L h] assms by (simp add: heap_ok_def)
  then have "freep h \<notin> set as" "freep h \<notin> set bs" unfolding L by (auto simp: sorted_wrt_append)
  moreover have "chain (nxt h) base as (freep h)" "chain (nxt h) (nxt h (freep h)) bs base" using ch(1) unfolding L by (auto simp: chain_append)
  then have "chain (nxt h) (nxt h (freep h)) ((bs @ as) @ [freep h]) (nxt h (freep h))" by (auto simp: chain_append)
  ultimately show ?thesis using that [of "(bs @ as) @ [freep h]"] L by (simp add: butlast_append) blast
qed

lemma heap_ok_grow:
  assumes ok: "heap_ok base L A h" and same: "\<And>a. a \<in> A \<union> set L \<Longrightarrow> hdr t a = hdr h a" "freep t = freep h" "unat (brk h) \<le> unat (brk t)" "unat (brk t) \<le> 2 ^ 31"
  shows "heap_ok base L A t"
proof -
  have f: "fin t a = fin h a" if "a \<in> A \<union> set L" for a using same(1) [OF that] by (simp add: fin_def)
  have b: "base \<in> set L" using heap_ok_list [OF ok] by auto
  have "chain (nxt t) base L base = chain (nxt h) base L base" using same(1) by (intro chain_cong) (simp add: nxt_def)
  moreover have "sorted_wrt (\<lambda>a b. fin t a < unat b) L"
    using ok f by (auto simp: heap_ok_def free_ok_def intro: sorted_wrt_mono_rel [where P = "\<lambda>a b. fin h a < unat b"])
  ultimately have "free_ok base L t" using ok same b by (auto simp: heap_ok_def free_ok_def)
  moreover have "unat base + 8 \<le> unat a \<and> fin t a \<le> unat (brk t)" if "a \<in> A \<union> (set L - {base})" for a
    using that f [of a] same(3) heap_ok_used [OF ok, of a] heap_ok_free [OF ok, of a] by auto
  moreover have "apart t a b" if "a \<in> A" "b \<in> A" "a \<noteq> b" for a b using heap_ok_apart [OF ok that] f that by (simp add: apart_def)
  moreover have "apart t a b" if "a \<in> A" "b \<in> set L" "b \<noteq> base" for a b using heap_ok_apart_free [OF ok that] f that by (simp add: apart_def)
  moreover have "0 < unat (h_size (hdr t a))" if "a \<in> A" for a using heap_ok_used [OF ok that] same(1) that by simp
  ultimately show ?thesis using ok same(3,4) by (simp add: heap_ok_def)
qed

text \<open>What \<open>sbrk\<close> promises: the heap stays below the kernel.\<close>

definition below_kernel :: "(u32 \<Rightarrow> heap \<Rightarrow> bool) \<Rightarrow> bool" where
  "below_kernel grant \<longleftrightarrow> (\<forall>n h. grant n h \<longrightarrow> unat (brk h) + unat n \<le> 2 ^ 31)"

lemma morecore_ok:
  assumes ok: "heap_ok base L A h" and g: "below_kernel grant" and n: "unat n < 2 ^ 28"
  defines "nu \<equiv> (if n < 4096 then 4096 else n)"
  shows "if grant (nu * 8) h
    then \<exists>L' t. morecore grant n h = Ok (freep t, t) \<and> heap_ok base L' A t \<and> (\<forall>a \<in> A. hdr t a = hdr h a) \<and> (\<exists>a \<in> set L'. n \<le> h_size (hdr t a))
    else morecore grant n h = Ok (0, h)"
proof (cases "grant (nu * 8) h")
  case False
  have "nu * 8 < 0x80000000" using n by (auto simp: nu_def word_less_nat_alt unat_word_ariths)
  then show ?thesis using False by (simp add: morecore_def usbrk_def bindk_def Let_def flip: nu_def)
next
  case True
  have nu: "unat nu < 2 ^ 28" "n \<le> nu" "0 < unat nu" using n by (auto simp: nu_def word_less_nat_alt word_le_nat_alt)
  have u8: "unat (nu * 8) = 8 * unat nu" using nu(1) by (simp add: unat_word_ariths)
  have pos: "nu * 8 < 0x80000000" using nu(1) u8 by (simp add: word_less_nat_alt)
  have lim: "unat (brk h) + 8 * unat nu \<le> 2 ^ 31" using g [unfolded below_kernel_def, rule_format, OF True] u8 by simp
  define p where "p = brk h"
  define k where "k = set_hdr p ((hdr h p)\<lparr>h_size := nu\<rparr>) (h\<lparr>brk := brk h + nu * 8\<rparr>)"
  have bk: "unat (brk k) = unat p + 8 * unat nu" using lim u8 by (simp add: k_def p_def unat_word_ariths)
  have new: "a \<noteq> p" if "a \<in> A \<union> set L" for a
  proof (cases "a = base")
    case True
    then show ?thesis using ok by (auto simp: p_def heap_ok_def)
  next
    case False
    then show ?thesis using that heap_ok_used [OF ok, of a] heap_ok_free [OF ok, of a] by (auto simp: p_def fin_def)
  qed
  have okk: "heap_ok base L A k" by (rule heap_ok_grow [OF ok]) (use new bk lim in \<open>auto simp: k_def p_def\<close>)
  have fk: "fin k p = unat p + 8 * unat nu" "fin k a = fin h a" if "a \<in> A \<union> set L" for a using new [OF that] by (simp_all add: fin_def k_def)
  have fkp: "fin k p = unat p + 8 * unat nu" "h_size (hdr k p) = nu" by (simp_all add: fin_def k_def)
  have pin: "heap_ok base L (insert p A) k"
  proof (rule heap_ok_add [OF okk])
    show "apart k p b" if "b \<in> A" for b using heap_ok_used [OF ok that] fk(2) [of b] that by (simp add: apart_def p_def)
    show "apart k p b" if "b \<in> set L" "b \<noteq> base" for b using heap_ok_free [OF ok that] fk(2) [of b] that by (simp add: apart_def p_def)
  qed (use ok bk fkp nu in \<open>auto simp: p_def heap_ok_def\<close>)
  obtain L' t where t: "ufree (p + 8) k = Ok ((), t)" "heap_ok base L' (insert p A - {p}) t" "\<And>a. a \<in> insert p A - {p} \<Longrightarrow> hdr t a = hdr k a"
    "\<exists>a \<in> set L'. unat (h_size (hdr k p)) \<le> unat (h_size (hdr t a))" by (rule ufree_ok [OF pin insertI1]) blast
  have A: "insert p A - {p} = A" using new by auto
  have pn: "p \<noteq> - 1" "\<not> brk h + nu * 8 < p + 8"
  proof -
    have "unat (p + 1) = unat p + 1" using lim by (simp add: p_def unat_word_ariths)
    then show "p \<noteq> - 1" by auto
    have "unat (p + 8) = unat p + 8" using lim by (simp add: p_def unat_word_ariths)
    then show "\<not> brk h + nu * 8 < p + 8" using bk nu(3) by (simp add: word_less_nat_alt k_def)
  qed
  have "morecore grant n h = Ok (freep t, t)"
    using True pos pn t(1) unfolding morecore_def Let_def nu_def [symmetric]
    by (simp add: usbrk_def kern_simps p_def [symmetric]) (simp add: k_def p_def bindk_def getk_def)
  moreover have "\<exists>a \<in> set L'. n \<le> h_size (hdr t a)" using t(4) nu(2) fkp(2) by (auto simp: word_le_nat_alt intro: le_trans)
  moreover have "hdr t a = hdr h a" if "a \<in> A" for a using t(3) [of a] that new [of a] by (simp add: k_def)
  ultimately show ?thesis using True t(2) A by auto
qed

lemma units_small: "unat nbytes \<le> 2 ^ 30 \<Longrightarrow> unat (units_of nbytes) = (unat nbytes + 7) div 8 + 1 \<and> unat (units_of nbytes) < 2 ^ 28"
proof -
  assume n: "unat nbytes \<le> 2 ^ 30"
  have e: "nbytes + 8 - 1 = nbytes + 7" by simp
  have "unat (nbytes + 7) = unat nbytes + 7" using n by (simp add: unat_word_ariths)
  then have d: "unat ((nbytes + 8 - 1) div 8) = (unat nbytes + 7) div 8" unfolding e unat_div by simp
  have "(unat nbytes + 7) div 8 \<le> (2 ^ 30 + 7) div 8" using n by (intro div_le_mono) simp
  then have "(unat nbytes + 7) div 8 \<le> 2 ^ 27" by simp
  then show ?thesis using d by (simp add: units_of_def unat_word_ariths)
qed

text \<open>The allocator between calls: the list is set up at the first call.\<close>

definition heap_inv :: "u32 \<Rightarrow> u32 set \<Rightarrow> heap \<Rightarrow> bool" where
  "heap_inv base A h \<longleftrightarrow> (freep h = 0 \<and> A = {} \<and> base \<noteq> 0 \<and> unat base + 8 \<le> unat (brk h) \<and> unat (brk h) \<le> 2 ^ 31) \<or>
     (\<exists>L. heap_ok base L A h)"

lemma first_call:
  assumes "heap_inv base A h"
  defines "h0 \<equiv> (if freep h = 0 then (set_hdr base \<lparr>h_ptr = base, h_size = 0\<rparr> h)\<lparr>freep := base\<rparr> else h)"
  shows "\<exists>L. heap_ok base L A h0" "a \<in> A \<Longrightarrow> hdr h0 a = hdr h a" "brk h0 = brk h"
proof -
  have nz: "freep h \<noteq> 0" if "heap_ok base L A h" for L using free_list_nonzero [OF that, of "freep h"] that by (auto simp: heap_ok_def free_ok_def)
  show "\<exists>L. heap_ok base L A h0"
  proof (cases "freep h = 0")
    case True
    then have "heap_ok base [base] {} h0" "A = {}" using assms(1) nz by (auto simp: heap_inv_def heap_ok_def free_ok_def h0_def nxt_def)
    then show ?thesis by blast
  qed (use assms(1) in \<open>auto simp: heap_inv_def h0_def\<close>)
  show "a \<in> A \<Longrightarrow> hdr h0 a = hdr h a" "brk h0 = brk h" using assms(1) nz by (auto simp: heap_inv_def h0_def)
qed

definition malloc_result :: "u32 \<Rightarrow> u32 set \<Rightarrow> heap \<Rightarrow> u32 \<Rightarrow> u32 \<Rightarrow> heap \<Rightarrow> bool" where
  "malloc_result base A h n r t \<longleftrightarrow> (\<forall>a \<in> A. hdr t a = hdr h a) \<and>
     (if r = 0 then heap_inv base A t
      else heap_inv base (insert (r - 8) A) t \<and> r - 8 \<notin> A \<and> h_size (hdr t (r - 8)) = n)"

lemma found_result:
  assumes ok: "heap_ok base L A h" and p: "prevp \<in> set L" "nxt h prevp = p" "p \<in> set L" and n: "0 < unat n" "n \<le> h_size (hdr h p)"
  shows "\<exists>r t. take_units n prevp p h = Ok (r, t) \<and> r \<noteq> 0 \<and> malloc_result base A h n r t"
proof -
  obtain L' a t where t: "take_units n prevp p h = Ok (a + 8, t)" "taken_units base L A h n a L' t" using take_units_ok [OF ok p n] by blast
  have ok': "heap_ok base L' (insert a A) t" using t(2) by (simp add: taken_units_def)
  have "unat a + 8 \<le> 2 ^ 31" using heap_ok_used [OF ok', of a] ok' fin_gt [of t a] by (simp add: heap_ok_def)
  then have "unat (a + 8) = unat a + 8" by (simp add: unat_word_ariths)
  then have "a + 8 \<noteq> 0" by auto
  then show ?thesis using t ok' by (auto simp: taken_units_def malloc_result_def heap_inv_def)
qed

lemma loop_returns:
  assumes ok: "heap_ok base L A h" and g: "below_kernel grant" and n: "0 < unat n" "unat n < 2 ^ 28"
  shows "\<exists>r t. malloc_loop grant n (freep h) (nxt h (freep h)) h = Some (Ok (r, t)) \<and> malloc_result base A h n r t \<and>
    (r = 0 \<longrightarrow> \<not> grant ((if n < 4096 then 4096 else n) * 8) h \<and> t = h)"
proof -
  have fr: "freep h \<in> set L" using ok by (simp add: heap_ok_def free_ok_def)
  obtain zs where zs: "chain (nxt h) (nxt h (freep h)) zs (nxt h (freep h))" "zs \<noteq> []" "last zs = freep h" "freep h \<notin> set (butlast zs)" "set zs = set L"
    by (rule cycle [OF ok])
  note sc = loop_scan [OF zs(1-4) _ fr refl, of n grant, unfolded zs(5), OF order_refl]
  show ?thesis
  proof (cases "\<exists>z \<in> set L. n \<le> h_size (hdr h z)")
    case True
    then obtain prev z where "prev \<in> set L" "nxt h prev = z" "z \<in> set L" "n \<le> h_size (hdr h z)"
      "malloc_loop grant n (freep h) (nxt h (freep h)) h = Some (take_units n prev z h)" using sc by auto
    then show ?thesis using found_result [OF ok _ _ _ n(1)] by metis
  next
    case none: False
    let ?nu = "if n < 4096 then 4096 else n"
    note mc = morecore_ok [OF ok g n(2)]
    show ?thesis
    proof (cases "grant (?nu * 8) h")
      case False
      then have "morecore grant n h = Ok (0, h)" using mc by simp
      then show ?thesis using sc none False ok by (auto simp: malloc_result_def heap_inv_def)
    next
      case True
      then obtain L' t where t: "morecore grant n h = Ok (freep t, t)" "heap_ok base L' A t" "\<forall>a \<in> A. hdr t a = hdr h a"
        "\<exists>a \<in> set L'. n \<le> h_size (hdr t a)" using mc by auto
      have ft: "freep t \<in> set L'" using t(2) by (simp add: heap_ok_def free_ok_def)
      obtain ys where ys: "chain (nxt t) (nxt t (freep t)) ys (nxt t (freep t))" "ys \<noteq> []" "last ys = freep t" "freep t \<notin> set (butlast ys)" "set ys = set L'"
        by (rule cycle [OF t(2)])
      obtain prev z where pz: "prev \<in> set L'" "nxt t prev = z" "z \<in> set L'" "n \<le> h_size (hdr t z)"
        "malloc_loop grant n (freep t) (nxt t (freep t)) t = Some (take_units n prev z t)"
        using loop_scan [OF ys(1-4) _ ft refl, of n grant, unfolded ys(5), OF order_refl] t(4) by auto
      obtain r u where u: "take_units n prev z t = Ok (r, u)" "r \<noteq> 0" "malloc_result base A t n r u"
        using found_result [OF t(2) pz(1-3) n(1) pz(4)] by blast
      have "malloc_loop grant n (freep h) (nxt h (freep h)) h = Some (Ok (r, u))"
        using sc none t(1) pz(5) u(1) free_list_nonzero [OF t(2) ft] by (simp add: nxt_def)
      moreover have "malloc_result base A h n r u" using u(3) t(3) by (simp add: malloc_result_def)
      ultimately show ?thesis using u(2) by blast
    qed
  qed
qed

lemma umalloc_units:
  assumes inv: "heap_inv base A h" and g: "below_kernel grant" and u: "0 < unat (units_of nbytes)" "unat (units_of nbytes) < 2 ^ 28"
  shows "\<exists>r t. umalloc grant base nbytes h = Ok (r, t) \<and> malloc_result base A h (units_of nbytes) r t \<and>
    (r = 0 \<longrightarrow> \<not> grant (max 4096 (units_of nbytes) * 8) t)"
proof -
  define h0 where "h0 = (if freep h = 0 then (set_hdr base \<lparr>h_ptr = base, h_size = 0\<rparr> h)\<lparr>freep := base\<rparr> else h)"
  note f = first_call [OF inv, folded h0_def]
  obtain L where L: "heap_ok base L A h0" using f(1) by blast
  have m: "(if units_of nbytes < 4096 then 4096 else units_of nbytes) = max 4096 (units_of nbytes)" by (auto simp: max_def not_le)
  obtain r t where t: "malloc_loop grant (units_of nbytes) (freep h0) (nxt h0 (freep h0)) h0 = Some (Ok (r, t))"
    "malloc_result base A h0 (units_of nbytes) r t" "r = 0 \<longrightarrow> \<not> grant (max 4096 (units_of nbytes) * 8) t"
    using loop_returns [OF L g u, unfolded m] by blast
  have "umalloc grant base nbytes h = Ok (r, t)" using t(1) by (simp add: umalloc_def Let_def nxt_def flip: h0_def)
  then show ?thesis using t(2,3) f(2) by (auto simp: malloc_result_def)
qed

lemma umalloc_returns:
  assumes "heap_inv base A h" "below_kernel grant" "unat nbytes \<le> 2 ^ 30"
  shows "\<exists>r t. umalloc grant base nbytes h = Ok (r, t) \<and> malloc_result base A h (units_of nbytes) r t \<and>
    (r = 0 \<longrightarrow> \<not> grant (max 4096 (units_of nbytes) * 8) t)"
  by (rule umalloc_units) (use assms units_small in auto)

text \<open>The bytes of the block behind its header.\<close>

lemma result_block:
  assumes "malloc_result base A h n r t" "r \<noteq> 0" "0 < unat n"
  shows "unat r = unat (r - 8) + 8" "fin t (r - 8) + 8 = unat r + 8 * unat n"
proof -
  obtain L where ok: "heap_ok base L (insert (r - 8) A) t" "h_size (hdr t (r - 8)) = n"
    using assms by (auto simp: malloc_result_def heap_inv_def)
  note u = heap_ok_used [OF ok(1), of "r - 8"]
  then have "unat (r - 8) + 8 * unat n \<le> 2 ^ 31" using ok by (simp add: heap_ok_def fin_def)
  then show e: "unat r = unat (r - 8) + 8" using assms(3) unat_word_ariths(1) [of "r - 8" 8] by simp
  then show "fin t (r - 8) + 8 = unat r + 8 * unat n" using ok(2) by (simp add: fin_def)
qed

lemma inv_blocks:
  assumes "heap_inv base A h" "a \<in> A"
  shows "span h a \<subseteq> {unat base + 8 ..< unat (brk h)}" "b \<in> A \<Longrightarrow> a \<noteq> b \<Longrightarrow> span h a \<inter> span h b = {}"
proof -
  obtain L where ok: "heap_ok base L A h" using assms by (auto simp: heap_inv_def)
  show "span h a \<subseteq> {unat base + 8 ..< unat (brk h)}" using heap_ok_used [OF ok assms(2)] by (auto simp: span_def)
  show "span h a \<inter> span h b = {}" if "b \<in> A" "a \<noteq> b" using heap_ok_apart [OF ok assms(2) that] by (auto simp: apart_def span_def)
qed

section \<open>Every history of calls\<close>

text \<open>The histories of a program that frees only what it holds: \<open>A\<close> are the headers of the blocks it holds.\<close>

inductive hrun :: "(u32 \<Rightarrow> heap \<Rightarrow> bool) \<Rightarrow> u32 \<Rightarrow> u32 set \<Rightarrow> heap \<Rightarrow> bool" for grant :: "u32 \<Rightarrow> heap \<Rightarrow> bool" and base :: u32 where
  start: "freep h = 0 \<Longrightarrow> base \<noteq> 0 \<Longrightarrow> unat base + 8 \<le> unat (brk h) \<Longrightarrow> unat (brk h) \<le> 2 ^ 31 \<Longrightarrow> hrun grant base {} h"
| failed: "hrun grant base A h \<Longrightarrow> unat nbytes \<le> 2 ^ 30 \<Longrightarrow> umalloc grant base nbytes h = Ok (0, t) \<Longrightarrow> hrun grant base A t"
| got: "hrun grant base A h \<Longrightarrow> unat nbytes \<le> 2 ^ 30 \<Longrightarrow> umalloc grant base nbytes h = Ok (r, t) \<Longrightarrow> r \<noteq> 0 \<Longrightarrow>
    hrun grant base (insert (r - 8) A) t"
| freed: "hrun grant base A h \<Longrightarrow> a \<in> A \<Longrightarrow> ufree (a + 8) h = Ok ((), t) \<Longrightarrow> hrun grant base (A - {a}) t"

lemma inv_free:
  assumes inv: "heap_inv base A h" and a: "a \<in> A"
  shows "\<exists>t. ufree (a + 8) h = Ok ((), t) \<and> heap_inv base (A - {a}) t \<and> (\<forall>b \<in> A - {a}. hdr t b = hdr h b)"
proof -
  obtain L where L: "heap_ok base L A h" using inv a by (auto simp: heap_inv_def)
  obtain L' t where "ufree (a + 8) h = Ok ((), t)" "heap_ok base L' (A - {a}) t" "\<And>b. b \<in> A - {a} \<Longrightarrow> hdr t b = hdr h b"
    by (rule ufree_ok [OF L a]) blast
  then show ?thesis by (auto simp: heap_inv_def)
qed

lemma hrun_inv: "hrun grant base A h \<Longrightarrow> below_kernel grant \<Longrightarrow> heap_inv base A h"
proof (induction rule: hrun.induct)
  case (failed A h nbytes t)
  then show ?case using umalloc_returns [of base A h grant nbytes] by (auto simp: malloc_result_def)
next
  case (got A h nbytes r t)
  then show ?case using umalloc_returns [of base A h grant nbytes] by (auto simp: malloc_result_def)
next
  case (freed A h a t)
  then show ?case using inv_free [of base A h a] by auto
qed (auto simp: heap_inv_def)

text \<open>A heap before the first call, and a kernel that grants every request below its own base.\<close>

definition heap_new :: heap where
  "heap_new = \<lparr>hdr = (\<lambda>_. \<lparr>h_ptr = 0, h_size = 0\<rparr>), freep = 0, brk = 12288\<rparr>"

definition room :: "u32 \<Rightarrow> heap \<Rightarrow> bool" where
  "room n h \<longleftrightarrow> unat (brk h) + unat n \<le> 2 ^ 31"

lemma room_below: "below_kernel room"
  by (simp add: below_kernel_def room_def)

lemma new_run: "hrun room 8192 {} heap_new"
  by (rule hrun.start) (simp_all add: heap_new_def)

text \<open>The heap after two calls of \<open>malloc(100)\<close>: both blocks come from the end of the 4096 units that the first call got.\<close>

definition heap_one :: heap where
  "heap_one = \<lparr>hdr = (\<lambda>_. \<lparr>h_ptr = 0, h_size = 0\<rparr>)
     (8192 := \<lparr>h_ptr = 12288, h_size = 0\<rparr>, 12288 := \<lparr>h_ptr = 8192, h_size = 4082\<rparr>, 44944 := \<lparr>h_ptr = 0, h_size = 14\<rparr>),
     freep = 8192, brk = 45056\<rparr>"

definition heap_two :: heap where
  "heap_two = heap_one\<lparr>hdr := (hdr heap_one)(12288 := \<lparr>h_ptr = 8192, h_size = 4068\<rparr>, 44832 := \<lparr>h_ptr = 0, h_size = 14\<rparr>)\<rparr>"

lemma units_100: "units_of 100 = 14"
  by (simp add: units_of_def)

lemma morecore_new:
  "morecore room 14 ((set_hdr 8192 \<lparr>h_ptr = 8192, h_size = 0\<rparr> heap_new)\<lparr>freep := 8192\<rparr>) =
     Ok (8192, heap_one\<lparr>hdr := (hdr heap_one)(12288 := \<lparr>h_ptr = 8192, h_size = 4096\<rparr>, 44944 := \<lparr>h_ptr = 0, h_size = 0\<rparr>)\<rparr>)"
  by (simp add: morecore_def usbrk_def room_def kern_simps bindk_def ufree_def free_seek.simps free_link_def Let_def heap_new_def heap_one_def
      set_hdr_def getk_def fun_eq_iff)

lemma one_call: "umalloc room 8192 100 heap_new = Ok (44952, heap_one)"
  using morecore_new by (simp add: umalloc_def units_100 Let_def heap_new_def heap_one_def malloc_loop.simps take_units_def set_hdr_def fun_eq_iff)

lemma two_call: "umalloc room 8192 100 heap_one = Ok (44840, heap_two)"
  by (simp add: umalloc_def units_100 Let_def heap_one_def heap_two_def malloc_loop.simps take_units_def set_hdr_def)

lemma two_run: "hrun room 8192 {44832, 44944} heap_two"
  using hrun.got [OF hrun.got [OF new_run _ one_call] _ two_call] by simp

text \<open>C26: After any history of \<open>malloc\<close> and \<open>free\<close> calls of a program that frees only blocks it holds (umalloc.c), the blocks the
  program holds lie inside the heap and no two of them share a byte.\<close>

theorem malloc_blocks_disjoint:
  assumes "hrun grant base A h" "below_kernel grant" "a \<in> A"
  shows "span h a \<subseteq> {unat base + 8 ..< unat (brk h)} \<and> (\<forall>b \<in> A. a \<noteq> b \<longrightarrow> span h a \<inter> span h b = {})"
  using inv_blocks [OF hrun_inv [OF assms(1,2)] assms(3)] by blast

theorem malloc_blocks_disjoint_witness:
  "span heap_two 44944 \<subseteq> {8200 ..< 45056} \<and> span heap_two 44944 \<inter> span heap_two 44832 = {}"
  using malloc_blocks_disjoint [OF two_run room_below, of 44944] by (simp add: heap_two_def heap_one_def)

text \<open>C27: In every such history \<open>malloc\<close> of at most a gigabyte returns: either 0, and then the kernel refused to grow the heap, or
  a block outside those in use with room for the bytes asked for; \<open>free\<close> of a block in use returns too.  Neither changes the
  header of another block in use.\<close>

theorem malloc_free_return:
  assumes "hrun grant base A h" "below_kernel grant" "unat nbytes \<le> 2 ^ 30"
  shows "(\<exists>r t. umalloc grant base nbytes h = Ok (r, t) \<and> (\<forall>a \<in> A. hdr t a = hdr h a) \<and>
      (if r = 0 then \<not> grant (max 4096 (units_of nbytes) * 8) t
       else r - 8 \<notin> A \<and> {unat r ..< unat r + unat nbytes} \<subseteq> span t (r - 8))) \<and>
    (\<forall>a \<in> A. \<exists>t. ufree (a + 8) h = Ok ((), t) \<and> (\<forall>b \<in> A - {a}. hdr t b = hdr h b))"
proof (intro conjI ballI)
  have inv: "heap_inv base A h" by (rule hrun_inv [OF assms(1,2)])
  obtain r t where t: "umalloc grant base nbytes h = Ok (r, t)" "malloc_result base A h (units_of nbytes) r t"
    "r = 0 \<longrightarrow> \<not> grant (max 4096 (units_of nbytes) * 8) t" using umalloc_returns [OF inv assms(2,3)] by blast
  note u = units_small [OF assms(3)]
  have "{unat r ..< unat r + unat nbytes} \<subseteq> span t (r - 8)" if r: "r \<noteq> 0"
  proof -
    have f: "fin t (r - 8) + 8 = unat r + 8 * unat (units_of nbytes)" using result_block(2) [OF t(2) r] u by simp
    have "unat nbytes \<le> 8 * ((unat nbytes + 7) div 8)" by simp
    then have "unat r + unat nbytes \<le> fin t (r - 8)" using f u by simp
    moreover have "unat (r - 8) \<le> unat r" using result_block(1) [OF t(2) r] u by simp
    ultimately show ?thesis by (auto simp: span_def)
  qed
  then show "\<exists>r t. umalloc grant base nbytes h = Ok (r, t) \<and> (\<forall>a \<in> A. hdr t a = hdr h a) \<and>
      (if r = 0 then \<not> grant (max 4096 (units_of nbytes) * 8) t
       else r - 8 \<notin> A \<and> {unat r ..< unat r + unat nbytes} \<subseteq> span t (r - 8))"
    using t by (auto simp: malloc_result_def)
  show "\<exists>t. ufree (a + 8) h = Ok ((), t) \<and> (\<forall>b \<in> A - {a}. hdr t b = hdr h b)" if "a \<in> A" for a
    using inv_free [OF inv that] by blast
qed

theorem malloc_free_return_witness:
  "\<exists>r t. umalloc room 8192 100 heap_new = Ok (r, t) \<and>
    (if r = 0 then \<not> room (max 4096 (units_of 100) * 8) t else {unat r ..< unat r + 100} \<subseteq> span t (r - 8))"
  using malloc_free_return [OF new_run room_below, of 100] by (auto split: if_splits)

text \<open>A request of more than \<open>2 ^ 32 - 8\<close> bytes wraps around in the count of units (umalloc.c:68): \<open>malloc\<close> takes one unit, the
  header, and the pointer it returns is the end of its block.\<close>

theorem malloc_huge_wraps:
  assumes "hrun grant base A h" "below_kernel grant" "2 ^ 32 - 8 < unat nbytes"
  shows "\<exists>r t. umalloc grant base nbytes h = Ok (r, t) \<and> (if r = 0 then \<not> grant 32768 t else fin t (r - 8) = unat r)"
proof -
  have "unat nbytes < 2 ^ 32" using unsigned_less [of nbytes, where 'a = nat] by simp
  then have e: "unat nbytes + 7 = (unat nbytes + 7 - 2 ^ 32) + 2 ^ 32" and l: "unat nbytes + 7 - 2 ^ 32 < 8" using assms(3) by simp_all
  have "unat (nbytes + 7) = (unat nbytes + 7) mod 2 ^ 32" by (simp add: unat_word_ariths)
  also have "\<dots> = unat nbytes + 7 - 2 ^ 32" by (subst e, subst mod_add_self2) (rule mod_less, use l in simp)
  finally have "unat (nbytes + 7) < 8" using l by simp
  then have "unat ((nbytes + 7) div 8) = 0" unfolding unat_div by simp
  then have z: "(nbytes + 7) div 8 = 0" by (metis unat_eq_zero)
  have n: "nbytes + 8 - 1 = nbytes + 7" by simp
  have u: "units_of nbytes = 1" unfolding units_of_def n z by simp
  obtain r t where "umalloc grant base nbytes h = Ok (r, t)" "malloc_result base A h 1 r t" "r = 0 \<longrightarrow> \<not> grant (max 4096 1 * 8) t"
    using umalloc_units [OF hrun_inv [OF assms(1,2)] assms(2), of nbytes] u by auto
  then show ?thesis using result_block(2) [of base A h 1 r t] by auto
qed

theorem malloc_huge_wraps_witness:
  "\<exists>r t. umalloc room 8192 4294967295 heap_new = Ok (r, t) \<and> (if r = 0 then \<not> room 32768 t else fin t (r - 8) = unat r)"
  using malloc_huge_wraps [OF new_run room_below, of 4294967295] by simp

end
