(* ===== verification/Sched_Proc.thy ===== *)
theory Sched_Proc
  imports Sched Cow_Trap
begin

unbundle bit_operations_syntax

text \<open>
  The rest of the process operations of the scheduling kernel (\<open>proc.c\<close>, \<open>sysproc.c\<close>, \<open>trap.c\<close> of \<open>xv6_scheduling_patch\<close>): the first
  process, growth, fork, exit, wait and waitx with their callers, and the trap handler with the clock interrupt of the policies.  The
  state joins the state of the schedulers (theory \<open>Sched\<close>) with the files.  The kernel writes the results of \<open>waitx\<close> and \<open>getprocstable\<close>
  through the page table of the caller (\<open>kput\<close>); a write to an address without a writable page is a page fault in the kernel, which \<open>trap\<close> answers with a panic.
\<close>

section \<open>State\<close>

record sfull =
  sc :: sst
  sfs :: filest
  s_initcode_start :: u32
  s_initcode_size :: u32
  s_first :: bool

definition zoom_sc :: "(sst, 'a) kern \<Rightarrow> (sfull, 'a) kern" where
  "zoom_sc m = zoomk sc (\<lambda>k s. s\<lparr>sc := k\<rparr>) m"

definition sproc_fs :: "nat \<Rightarrow> sfull \<Rightarrow> filest" where
  "sproc_fs i s = (let p = ptable (sc s) ! i in (sfs s)\<lparr>curpid := p_pid p, mykilled := p_killed p,
     mycwd := (case p_cwd p of None \<Rightarrow> mycwd (sfs s) | Some c \<Rightarrow> c)\<rparr>)"

definition zoom_sfs :: "nat \<Rightarrow> (filest, 'a) kern \<Rightarrow> (sfull, 'a) kern" where
  "zoom_sfs i m = zoomk (sproc_fs i) (\<lambda>f s. s\<lparr>sfs := f\<rparr>) m"

definition set_sproc :: "nat \<Rightarrow> (sproc \<Rightarrow> sproc) \<Rightarrow> (sfull, unit) kern" where
  "set_sproc i f = zoom_sc (modk (upd_proc i f))"

definition set_smem :: "(memory \<Rightarrow> memory) \<Rightarrow> sst \<Rightarrow> sst" where
  "set_smem f s = s\<lparr>km := (km s)\<lparr>smem := f (smem (km s))\<rparr>\<rparr>"

section \<open>The first process, growth\<close>

definition s_userinit :: "(sfull, unit) kern" where
  "s_userinit = bindk (zoom_sc allocproc) (\<lambda>np. case np of
     None \<Rightarrow> undefinedk ''userinit: null process''
   | Some i \<Rightarrow>
       seqk (zoom_sc (modk (\<lambda>s. s\<lparr>initproc := Some i\<rparr>)))
         (bindk (zoom_sc (zoom_km s_setupkvm)) (\<lambda>d.
            seqk (set_sproc i (\<lambda>p. p\<lparr>p_pgdir := d\<rparr>))
              (if d = 0 then panic ''userinit: out of memory?''
               else (\<lambda>s.
                 seqk (zoom_sc (zoom_km (s_inituvm d (s_initcode_start s) (s_initcode_size s))))
                   (seqk (set_sproc i (\<lambda>p. p\<lparr>p_sz := PGSIZE\<rparr>))
                     (seqk (zoom_sc (modk (set_smem (user_frame (p_tf (ptable (sc s) ! i))))))
                       (seqk (set_sproc i (\<lambda>p. p\<lparr>p_name := safestrcpy (p_name p) initcode_name 16\<rparr>))
                         (bindk (zoom_sfs i (namei [47])) (\<lambda>c.
                            seqk (set_sproc i (\<lambda>p. p\<lparr>p_cwd := c\<rparr>)) (zoom_sc (make_runnable i))))))) s)))))"

definition s_growproc :: "u32 \<Rightarrow> (sst, u32) kern" where
  "s_growproc n = bindk myproc (\<lambda>i s.
     let p = ptable s ! i; sz = p_sz p in
     bindk (if 0 <s n then zoom_km (s_allocuvm (p_pgdir p) sz (sz + n))
            else if n <s 0 then zoom_km (s_deallocuvm (p_pgdir p) sz (sz + n))
            else ret sz) (\<lambda>sz'.
       if n \<noteq> 0 \<and> sz' = 0 then ret (-1)
       else seqk (modk (upd_proc i (\<lambda>p. p\<lparr>p_sz := sz'\<rparr>))) (seqk (sched_switchuvm i) (ret 0))) s)"

section \<open>Fork\<close>

fun s_fork_files :: "nat \<Rightarrow> nat \<Rightarrow> nat list \<Rightarrow> (sfull, unit) kern" where
  "s_fork_files i j [] = ret ()"
| "s_fork_files i j (fd # fds) = (\<lambda>s. case p_ofile (ptable (sc s) ! i) ! fd of
     None \<Rightarrow> s_fork_files i j fds s
   | Some f \<Rightarrow> bindk (zoom_sfs i (filedup f)) (\<lambda>g.
       seqk (set_sproc j (\<lambda>p. p\<lparr>p_ofile := (p_ofile p)[fd := Some g]\<rparr>)) (s_fork_files i j fds)) s)"

definition s_fork_cwd :: "nat \<Rightarrow> nat \<Rightarrow> (sfull, unit) kern" where
  "s_fork_cwd i j = (\<lambda>s. case p_cwd (ptable (sc s) ! i) of
     None \<Rightarrow> Undefined ''idup: null inode''
   | Some c \<Rightarrow> bindk (zoom_sfs i (idup c)) (\<lambda>c'. set_sproc j (\<lambda>p. p\<lparr>p_cwd := Some c'\<rparr>)) s)"

definition s_fork_child :: "nat \<Rightarrow> nat \<Rightarrow> sst \<Rightarrow> sst" where
  "s_fork_child i j s =
     (let cur = ptable s ! i; tf = p_tf (ptable s ! j) in
      set_smem (\<lambda>m. store32 (memmove m tf (p_tf cur) SIZEOF_TRAPFRAME) (tf + TF_EAX) 0)
        (upd_proc j (\<lambda>p. p\<lparr>p_sz := p_sz cur, p_parent := Some i\<rparr>) s))"

definition s_fork_finish :: "nat \<Rightarrow> nat \<Rightarrow> (sfull, u32) kern" where
  "s_fork_finish i j =
     seqk (zoom_sc (modk (s_fork_child i j)))
       (seqk (s_fork_files i j [0 ..< NOFILE])
         (seqk (s_fork_cwd i j)
           (seqk (zoom_sc (modk (\<lambda>s. upd_proc j (\<lambda>p. p\<lparr>p_name := safestrcpy (p_name p) (p_name (ptable s ! i)) 16\<rparr>) s)))
             (bindk (getk (\<lambda>s. p_pid (ptable (sc s) ! j))) (\<lambda>pid. seqk (zoom_sc (make_runnable j)) (ret pid))))))"

definition s_fork_undo :: "nat \<Rightarrow> u32 \<Rightarrow> (sfull, u32) kern" where
  "s_fork_undo j stack = seqk (zoom_sc (zoom_km (sched_kfree stack)))
     (seqk (set_sproc j (\<lambda>p. p\<lparr>p_kstack := 0, p_state := UNUSED\<rparr>)) (ret (-1)))"

definition s_fork_into :: "nat \<Rightarrow> nat \<Rightarrow> (sfull, u32) kern" where
  "s_fork_into i j = (\<lambda>s.
     bindk (zoom_sc (zoom_km (s_copyuvm (p_pgdir (ptable (sc s) ! i)) (p_sz (ptable (sc s) ! i))))) (\<lambda>d.
       seqk (set_sproc j (\<lambda>p. p\<lparr>p_pgdir := d\<rparr>))
         (if d = 0 then s_fork_undo j (p_kstack (ptable (sc s) ! j)) else s_fork_finish i j)) s)"

definition s_fork :: "(sfull, u32) kern" where
  "s_fork = bindk (zoom_sc myproc) (\<lambda>i. bindk (zoom_sc allocproc) (\<lambda>np. case np of
     None \<Rightarrow> ret (-1)
   | Some j \<Rightarrow> s_fork_into i j))"

section \<open>Exit\<close>

fun s_exit_files :: "nat \<Rightarrow> nat list \<Rightarrow> (sfull, unit) kern" where
  "s_exit_files i [] = ret ()"
| "s_exit_files i (fd # fds) = (\<lambda>s. case p_ofile (ptable (sc s) ! i) ! fd of
     None \<Rightarrow> s_exit_files i fds s
   | Some f \<Rightarrow> seqk (zoom_sfs i (fileclose f))
       (seqk (set_sproc i (\<lambda>p. p\<lparr>p_ofile := (p_ofile p)[fd := None]\<rparr>)) (s_exit_files i fds)) s)"

definition s_exit_cwd :: "nat \<Rightarrow> (sfull, unit) kern" where
  "s_exit_cwd i = (\<lambda>s. case p_cwd (ptable (sc s) ! i) of
     None \<Rightarrow> Undefined ''iput: null inode''
   | Some c \<Rightarrow> seqk (zoom_sfs i (seqk begin_op (seqk (iput c) end_op))) (set_sproc i (\<lambda>p. p\<lparr>p_cwd := None\<rparr>)) s)"

definition s_exit :: "(sfull, bool) kern" where
  "s_exit = bindk (zoom_sc myproc) (\<lambda>i s.
     if initproc (sc s) = Some i then Panic ''init exiting''
     else seqk (s_exit_files i [0 ..< NOFILE]) (seqk (s_exit_cwd i) (zoom_sc (exit_zombie i))) s)"

section \<open>Wait\<close>

text \<open>From a call or a wake-up to the return (\<open>Inl\<close>) or the next switch to the scheduler (\<open>Inr\<close>).\<close>

definition s_wait_or_sleep :: "nat \<Rightarrow> (sst, u32 + bool) kern" where
  "s_wait_or_sleep i = bindk (wait_scan i) (\<lambda>r. case r of
     Some pid \<Rightarrow> ret (Inl pid)
   | None \<Rightarrow> bindk (sleep_enter (ChanProc i) PTABLE) (\<lambda>b. ret (Inr b)))"

definition s_wait :: "(sst, u32 + bool) kern" where
  "s_wait = bindk myproc (\<lambda>i. seqk (acquirep PTABLE) (s_wait_or_sleep i))"

definition s_wait_again :: "bool \<Rightarrow> (sst, u32 + bool) kern" where
  "s_wait_again b = seqk (sleep_exit b PTABLE) (bindk myproc s_wait_or_sleep)"

text \<open>A word written by the kernel at a user address of process \<open>i\<close>, byte by byte through the page table.\<close>

definition kaddr :: "memory \<Rightarrow> u32 \<Rightarrow> u32 \<Rightarrow> u32" where
  "kaddr m pd va = P2V (PTE_ADDR (load32 m (P2V (PTE_ADDR (load32 m (pd + 4 * PDX va))) + 4 * PTX va))) + (va AND 0xFFF)"

definition kwritable :: "memory \<Rightarrow> u32 \<Rightarrow> u32 \<Rightarrow> bool" where
  "kwritable m pd va \<longleftrightarrow> load32 m (pd + 4 * PDX va) AND PTE_P \<noteq> 0 \<and>
     (let e = load32 m (P2V (PTE_ADDR (load32 m (pd + 4 * PDX va))) + 4 * PTX va) in e AND PTE_P \<noteq> 0 \<and> e AND PTE_W \<noteq> 0)"

fun kput_bytes :: "u32 \<Rightarrow> u32 \<Rightarrow> u8 list \<Rightarrow> memory \<Rightarrow> memory option" where
  "kput_bytes pd va [] m = Some m"
| "kput_bytes pd va (b # bs) m = (if kwritable m pd va then kput_bytes pd (va + 1) bs (m(kaddr m pd va := b)) else None)"

definition kput :: "nat \<Rightarrow> u32 \<Rightarrow> u32 \<Rightarrow> (sst, unit) kern" where
  "kput i va v = (\<lambda>s.
     case kput_bytes (p_pgdir (ptable s ! i)) va [ucast v, ucast (drop_bit 8 v), ucast (drop_bit 16 v), ucast (drop_bit 24 v)] (smem (km s)) of
       None \<Rightarrow> Panic ''trap''
     | Some m \<Rightarrow> Ok ((), set_smem (\<lambda>_. m) s))"

definition s_waitx_or_sleep :: "u32 \<Rightarrow> u32 \<Rightarrow> nat \<Rightarrow> (sst, u32 + bool) kern" where
  "s_waitx_or_sleep wt rt i = (\<lambda>s.
     seqk (case scan_kids i 0 (ptable s) False of
         Zombie k \<Rightarrow> seqk (kput i rt (p_rtime (ptable s ! k))) (kput i wt (wtime_of (ptable s ! k)))
       | _ \<Rightarrow> ret ())
       (bindk (waitx_scan i) (\<lambda>r. case r of
          Some (pid, _) \<Rightarrow> ret (Inl pid)
        | None \<Rightarrow> bindk (sleep_enter (ChanProc i) PTABLE) (\<lambda>b. ret (Inr b)))) s)"

definition s_waitx :: "u32 \<Rightarrow> u32 \<Rightarrow> (sst, u32 + bool) kern" where
  "s_waitx wt rt = bindk myproc (\<lambda>i. seqk (acquirep PTABLE) (s_waitx_or_sleep wt rt i))"

definition s_waitx_again :: "u32 \<Rightarrow> u32 \<Rightarrow> bool \<Rightarrow> (sst, u32 + bool) kern" where
  "s_waitx_again wt rt b = seqk (sleep_exit b PTABLE) (bindk myproc (s_waitx_or_sleep wt rt))"

section \<open>System calls\<close>

text \<open>The arguments are the results of \<open>argptr\<close> and \<open>argint\<close>, evaluated in this order.\<close>

definition s_sys_waitx :: "u32 option \<Rightarrow> u32 option \<Rightarrow> (sst, u32 + bool) kern" where
  "s_sys_waitx wt rt = (case (wt, rt) of (Some w, Some r) \<Rightarrow> s_waitx w r | _ \<Rightarrow> ret (Inl (-1)))"

definition s_sys_set_priority :: "u32 option \<Rightarrow> u32 option \<Rightarrow> (sst, u32 \<times> bool option) kern" where
  "s_sys_set_priority prio pid = (case (prio, pid) of
     (Some n, Some p) \<Rightarrow> bindk (set_priority n p) (\<lambda>(r, y).
       if y then bindk yield_enter (\<lambda>b. ret (r, Some b)) else ret (r, None))
   | _ \<Rightarrow> ret (-1, None))"

definition s_sys_kill :: "u32 option \<Rightarrow> (sst, int) kern" where
  "s_sys_kill = sys_kill"

definition s_sys_getpid :: "(sst, u32) kern" where
  "s_sys_getpid = sys_getpid"

definition s_sys_sbrk :: "u32 option \<Rightarrow> (sst, u32) kern" where
  "s_sys_sbrk arg = (case arg of
     None \<Rightarrow> ret (-1)
   | Some n \<Rightarrow> bindk myproc (\<lambda>i. bindk (getk (\<lambda>s. p_sz (ptable s ! i))) (\<lambda>addr.
       bindk (s_growproc n) (\<lambda>r. ret (if r <s 0 then -1 else addr)))))"

definition s_sys_sleep :: "u32 option \<Rightarrow> (sst, int + bool) kern" where
  "s_sys_sleep = sys_sleep"

definition s_sys_uptime :: "(sst, u32) kern" where
  "s_sys_uptime = sys_uptime"

text \<open>The rows of the process table written to the caller: 48 bytes each, the fields in the order of the code.\<close>

definition state_num :: "procstate \<Rightarrow> u32" where
  "state_num st = (case st of UNUSED \<Rightarrow> 0 | EMBRYO \<Rightarrow> 1 | SLEEPING \<Rightarrow> 2 | RUNNABLE \<Rightarrow> 3 | RUNNING \<Rightarrow> 4 | ZOMBIE \<Rightarrow> 5)"

definition row_words :: "Info_req \<Rightarrow> (u32 \<times> u32) list" where
  "row_words r = [(0, i_pid r), (4, state_num (i_state r)), (12, i_priority r), (8, i_rtime r),
     (28, i_ticks r ! 0), (32, i_ticks r ! 1), (36, i_ticks r ! 2), (40, i_ticks r ! 3), (44, i_ticks r ! 4),
     (16, i_curq r), (24, i_wtime r), (20, i_n_run r)]"

fun put_words :: "nat \<Rightarrow> u32 \<Rightarrow> (u32 \<times> u32) list \<Rightarrow> (sst, unit) kern" where
  "put_words i a [] = ret ()"
| "put_words i a ((off, v) # ws) = seqk (kput i (a + off) v) (put_words i a ws)"

fun put_rows :: "nat \<Rightarrow> u32 \<Rightarrow> Info_req list \<Rightarrow> (sst, unit) kern" where
  "put_rows i a [] = ret ()"
| "put_rows i a (r # rs) = seqk (put_words i a (row_words r)) (put_rows i (a + 48) rs)"

definition s_getprocstable :: "nat \<Rightarrow> u32 \<Rightarrow> (sst, u32) kern" where
  "s_getprocstable i table = seqk (acquirep PTABLE)
     (bindk (getk (\<lambda>s. map (info (ticks s)) (filter (\<lambda>p. p_state p \<noteq> UNUSED) (ptable s)))) (\<lambda>rows.
        seqk (put_rows i table rows) (seqk (releasep PTABLE) (ret (of_nat (length rows))))))"

definition s_sys_getprocstable :: "u32 option \<Rightarrow> (sst, u32) kern" where
  "s_sys_getprocstable arg = (case arg of
     None \<Rightarrow> ret (-1)
   | Some table \<Rightarrow> bindk myproc (\<lambda>i. s_getprocstable i table))"

section \<open>Traps\<close>

definition s_set_killed :: "nat \<Rightarrow> (sfull, unit) kern" where
  "s_set_killed i = set_sproc i (\<lambda>p. p\<lparr>p_killed := True\<rparr>)"

definition s_cur_killed :: "sfull \<Rightarrow> bool" where
  "s_cur_killed s \<longleftrightarrow> (case cproc (sc s) of None \<Rightarrow> False | Some i \<Rightarrow> p_killed (ptable (sc s) ! i))"

definition s_exit_now :: "(sfull, trap_end) kern" where
  "s_exit_now = bindk s_exit (\<lambda>b. ret (Exits b))"

text \<open>\<open>cpu\<close> is the result of \<open>cpuid\<close>: the CPU that takes the interrupt.\<close>

definition s_trap_cause :: "nat \<Rightarrow> (u32 \<Rightarrow> (sfull, unit) kern) \<Rightarrow> u32 \<Rightarrow> u32 \<Rightarrow> (sfull, unit) kern" where
  "s_trap_cause cpu dev trapno cs =
     (if trapno = T_IRQ0 then zoom_sc (timer_irq cpu)
      else if trapno = T_IRQ0 + 14 \<or> trapno = T_IRQ0 + 1 \<or> trapno = T_IRQ0 + 4 then dev trapno
      else if trapno = T_IRQ0 + 15 \<or> trapno = T_IRQ0 + 7 \<or> trapno = T_IRQ0 + 31 then ret ()
      else (\<lambda>s. case cproc (sc s) of
          None \<Rightarrow> Panic ''trap''
        | Some i \<Rightarrow> if cs AND 3 = 0 then Panic ''trap'' else s_set_killed i s))"

text \<open>With the policy FCFS the clock interrupt does not take the CPU away.\<close>

definition s_trap :: "policy \<Rightarrow> nat \<Rightarrow> (sfull, unit) kern \<Rightarrow> (u32 \<Rightarrow> (sfull, unit) kern) \<Rightarrow> u32 \<Rightarrow> u32 \<Rightarrow> u32 \<Rightarrow> (sfull, trap_end) kern" where
  "s_trap pol cpu sysc dev tf trapno cs =
     (if trapno = T_SYSCALL then bindk (zoom_sc myproc) (\<lambda>i s.
        if p_killed (ptable (sc s) ! i) then s_exit_now s
        else seqk (set_sproc i (\<lambda>p. p\<lparr>p_tf := tf\<rparr>)) (seqk sysc (\<lambda>s.
               if s_cur_killed s then s_exit_now s else Ok (Returns, s))) s)
      else seqk (s_trap_cause cpu dev trapno cs) (\<lambda>s.
        if s_cur_killed s \<and> cs AND 3 = 3 then s_exit_now s
        else case cproc (sc s) of
          Some i \<Rightarrow> if p_state (ptable (sc s) ! i) = RUNNING \<and> trapno = T_IRQ0 \<and> pol \<noteq> FCFS
                    then bindk (zoom_sc yield_enter) (\<lambda>b. ret (Yields b)) s
                    else if s_cur_killed s \<and> cs AND 3 = 3 then s_exit_now s else Ok (Returns, s)
        | None \<Rightarrow> Ok (Returns, s)))"

definition s_trap_again :: "bool \<Rightarrow> u32 \<Rightarrow> (sfull, trap_end) kern" where
  "s_trap_again b cs = seqk (zoom_sc (yield_exit b)) (\<lambda>s. if s_cur_killed s \<and> cs AND 3 = 3 then s_exit_now s else Ok (Returns, s))"

definition s_forkret :: "(sfull, unit) kern" where
  "s_forkret = seqk (zoom_sc (releasep PTABLE)) (bindk (zoom_sc myproc) (\<lambda>i s.
     if s_first s then
       seqk (modk (\<lambda>s. s\<lparr>s_first := False\<rparr>)) (zoom_sfs i (seqk (iinit ROOTDEV) (initlog ROOTDEV))) s
     else Ok ((), s)))"

end
