(* ===== verification/Sched_Copy.thy ===== *)
theory Sched_Copy
  imports Sched_Vm Cow_Fault
begin

unbundle bit_operations_syntax

text \<open>
  The two kernels compared.  \<open>forget\<close> drops the reference counts from a state of the copy-on-write kernel and gives a state of
  the scheduling kernel; the operations on page tables that free nothing commute with it.  With this the lemmas on
  page tables carry over, and \<open>copyuvm\<close> of the scheduling kernel, which copies every page, is compared with copy on write.
\<close>

section \<open>Forgetting the reference counts\<close>

definition forget :: "kstate \<Rightarrow> skstate" where
  "forget k = \<lparr>smem = mem k, skend = kend k, sklocked = klocked k, suse_lock = use_lock k, sfreelist = freelist k,
     skdata = kdata k, skpgdir = kpgdir k, scr3 = cr3 k\<rparr>"

lemma forget_fields [simp]:
  "smem (forget k) = mem k" "skend (forget k) = kend k" "sklocked (forget k) = klocked k" "suse_lock (forget k) = use_lock k"
  "sfreelist (forget k) = freelist k" "skdata (forget k) = kdata k" "skpgdir (forget k) = kpgdir k" "scr3 (forget k) = cr3 k"
  by (simp_all add: forget_def)

lemma forget_update [simp]:
  "(forget k)\<lparr>smem := m\<rparr> = forget (k\<lparr>mem := m\<rparr>)" "(forget k)\<lparr>sfreelist := f\<rparr> = forget (k\<lparr>freelist := f\<rparr>)"
  "(forget k)\<lparr>sklocked := b\<rparr> = forget (k\<lparr>klocked := b\<rparr>)" "forget (set_rCount pa n k) = forget k" "forget (k\<lparr>free_pages := n\<rparr>) = forget k"
  by (simp_all add: forget_def set_rCount_def)

lemma s_stmem_forget [simp]: "s_stmem a v (forget k) = forget (stmem a v k)"
  by (simp add: s_stmem_def stmem_def)

text \<open>The second operation does on the state without counts what the first does with them.\<close>

definition commutes :: "(kstate, 'a) kern \<Rightarrow> (skstate, 'a) kern \<Rightarrow> bool" where
  "commutes m n \<longleftrightarrow> (\<forall>k. n (forget k) = map_outcome (map_prod id forget) (m k))"

lemma commutesI: "(\<And>k. n (forget k) = map_outcome (map_prod id forget) (m k)) \<Longrightarrow> commutes m n"
  by (simp add: commutes_def)

lemma commutesD: "commutes m n \<Longrightarrow> n (forget k) = map_outcome (map_prod id forget) (m k)"
  by (simp add: commutes_def)

lemma commutes_Ok: "commutes m n \<Longrightarrow> m k = Ok (x, t) \<Longrightarrow> n (forget k) = Ok (x, forget t)"
  by (simp add: commutes_def)

lemma commutes_bind: "commutes m n \<Longrightarrow> (\<And>x. commutes (f x) (g x)) \<Longrightarrow> commutes (bindk m f) (bindk n g)"
  by (auto simp: commutes_def bindk_def split: outcome.splits)

lemma commutes_ret: "commutes (ret x) (ret x)" and commutes_undefined: "commutes (undefinedk e) (undefinedk e)"
  by (simp_all add: commutes_def kern_simps)

lemma commutes_kalloc: "commutes kalloc sched_kalloc"
proof (rule commutesI)
  fix k
  show "sched_kalloc (forget k) = map_outcome (map_prod id forget) (kalloc k)"
  proof (cases "klocked k")
    case False
    then show ?thesis by (simp add: kalloc_eq sched_kalloc_eq)
  next
    case True
    then show ?thesis
      by (cases "use_lock k"; cases "freelist k = 0")
        (simp_all add: kalloc_def sched_kalloc_def kalloc_take_def kern_defs sacquire_kmem_def acquire_kmem_def Let_def)
  qed
qed

lemma commutes_walkpgdir: "commutes (walkpgdir pd va a) (s_walkpgdir pd va a)"
proof (rule commutesI)
  fix k
  show "s_walkpgdir pd va a (forget k) = map_outcome (map_prod id forget) (walkpgdir pd va a k)"
    unfolding walkpgdir_def s_walkpgdir_def Let_def
    by (cases "kalloc k") (auto simp: commutesD [OF commutes_kalloc] kern_defs)
qed

lemma commutes_mappages_loop: "commutes (mappages_loop n pd a lst pa perm) (s_mappages_loop n pd a lst pa perm)"
proof (induction n arbitrary: a pa)
  case 0
  show ?case by (simp add: commutes_def kern_simps)
next
  case (Suc n)
  show ?case unfolding mappages_loop.simps s_mappages_loop.simps
    by (rule commutes_bind [OF commutes_walkpgdir]) (auto intro!: commutesI simp: Let_def commutesD [OF Suc.IH])
qed

lemma commutes_mappages: "commutes (mappages pd va sz pa perm) (s_mappages pd va sz pa perm)"
  unfolding mappages_def s_mappages_def Let_def by (rule commutes_mappages_loop)

text \<open>\<open>setupkvm\<close> frees pages when it fails, so the counts matter then.\<close>

lemma setupkvm_loop_forget:
  "setupkvm_loop d ks k = Ok (e, t) \<Longrightarrow> e \<noteq> 0 \<Longrightarrow> s_setupkvm_loop d ks (forget k) = Ok (e, forget t)"
proof (induction ks arbitrary: k)
  case Nil
  then show ?case by (simp add: kern_simps)
next
  case (Cons x ks)
  then obtain r k1 where m: "mappages d (virt x) (phys_end x - phys_start x) (phys_start x) (kperm x) k = Ok (r, k1)"
    "(if r < 0 then seqk (freevm d) (ret 0) else setupkvm_loop d ks) k1 = Ok (e, t)"
    by (auto elim!: bindk_OkE)
  then have "\<not> r < 0" using Cons.prems(2) by (auto simp: kern_simps elim!: bindk_OkE split: if_splits)
  then show ?case using m Cons.IH Cons.prems(2) commutes_Ok [OF commutes_mappages m(1)] by (simp add: kern_simps)
qed

lemma setupkvm_forget: "setupkvm k = Ok (e, t) \<Longrightarrow> e \<noteq> 0 \<Longrightarrow> s_setupkvm (forget k) = Ok (e, forget t)"
  unfolding setupkvm_def s_setupkvm_def
  by (auto elim!: bindk_OkE simp: kern_simps commutes_Ok [OF commutes_kalloc] split: if_splits intro: setupkvm_loop_forget)

section \<open>Copying one page\<close>

text \<open>
  One iteration of the loop of \<open>copyuvm\<close>: the page of the child at \<open>va\<close> is \<open>x\<close>, with the bytes of the parent's; \<open>ys\<close> are the
  pages taken for tables of the child.
\<close>

definition copied_page :: "kstate \<Rightarrow> kstate \<Rightarrow> u32 \<Rightarrow> u32 \<Rightarrow> u32 \<Rightarrow> u32 \<Rightarrow> u32 list \<Rightarrow> bool" where
  "copied_page t u pd d va x ys \<longleftrightarrow> same_config t u \<and> apart u pd d \<and> pt_pages (mem u) pd = pt_pages (mem t) pd \<and>
     pt_pages (mem u) d = pt_pages (mem t) d \<union> set ys \<and> (\<forall>w. pte_val (mem u) pd w = pte_val (mem t) pd w) \<and>
     (\<forall>w. PGROUNDDOWN w \<noteq> va \<longrightarrow> pte_val (mem u) d w = pte_val (mem t) d w) \<and>
     present (pte_val (mem u) d va) \<and> tab (pte_val (mem u) d va) = x \<and>
     x \<notin> pt_pages (mem u) pd \<union> pt_pages (mem u) d \<and> used u x \<and>
     (\<forall>w. mem u (x + (w AND 0xFFF)) = mem t (tab (pte_val (mem t) pd va) + (w AND 0xFFF))) \<and>
     agree_on (- insert x (pt_pages (mem u) d)) (mem u) (mem t) \<and> (\<forall>f. used t f \<longrightarrow> used u f)"

lemma tab_copy: "page_aligned x \<Longrightarrow> tab (V2P x OR PTE_FLAGS e OR PTE_P) = x \<and> present (V2P x OR PTE_FLAGS e OR PTE_P)"
proof -
  assume x: "page_aligned x"
  have "PTE_FLAGS e OR PTE_P = PTE_FLAGS (e OR PTE_P)" by (simp add: PTE_FLAGS_def PTE_P_def bit.conj_disj_distrib2)
  then have "unat (PTE_FLAGS e OR PTE_P) < 4096" using PTE_FLAGS_less by metis
  then have "PTE_ADDR (V2P x OR (PTE_FLAGS e OR PTE_P)) = V2P x" using x by (simp add: PTE_ADDR_or)
  moreover have "(V2P x OR (PTE_FLAGS e OR PTE_P)) AND PTE_P = PTE_P" by (rule bit_word_eqI) (auto simp: bit_simps)
  ultimately show ?thesis by (simp add: tab_def present_def or.assoc) (simp add: PTE_P_def)
qed

lemma wf_pgdir_used_agree:
  assumes "wf_pgdir s q" "agree_on (- {x}) (mem s) (mem t)" "x \<notin> pt_pages (mem s) q" "kend t = kend s" "\<And>f. used s f \<Longrightarrow> rCount t (V2P f) \<noteq> 0"
  shows "wf_pgdir t q" "pt_pages (mem t) q = pt_pages (mem s) q" "pte_val (mem t) q w = pte_val (mem s) q w"
proof -
  have ag: "agree_on (pt_pages (mem s) q) (mem s) (mem t)" using assms(2,3) by (auto intro: agree_on_subset)
  have al: "page_aligned q" using assms(1) by (rule wf_pgdir_aligned)
  show "wf_pgdir t q" using assms(4,5) wf_pgdir_used [OF assms(1)] by (intro wf_pgdir_agree [OF assms(1) ag]) auto
  show "pt_pages (mem t) q = pt_pages (mem s) q" by (rule pt_pages_agree [OF ag _ al]) simp
  show "pte_val (mem t) q w = pte_val (mem s) q w" by (rule pte_val_agree [OF ag _ al]) simp
qed

text \<open>The copy itself: the page \<open>x\<close> is taken and filled.\<close>

lemma copy_frame:
  assumes t: "\<not> klocked t" "free_list t (x # xs)" "apart t pd d" and f: "used t f"
  obtains t1 t2 where "kalloc t = Ok (x, t1)" "t2 = t1\<lparr>mem := memmove (mem t1) x f PGSIZE\<rparr>" "free_list t2 xs" "same_config t t2" "apart t2 pd d"
    "\<And>g. used t g \<Longrightarrow> used t2 g" "used t2 x" "x \<notin> pt_pages (mem t) pd \<union> pt_pages (mem t) d" "agree_on (- {x}) (mem t) (mem t2)"
    "\<And>w. mem t2 (x + (w AND 0xFFF)) = mem t (f + (w AND 0xFFF))"
    "\<And>q w. q = pd \<or> q = d \<Longrightarrow> pt_pages (mem t2) q = pt_pages (mem t) q \<and> pte_val (mem t2) q w = pte_val (mem t) q w"
proof -
  obtain t1 where t1: "kalloc t = Ok (x, t1)" "free_list t1 xs" "same_config t t1" "mem t1 = mem t"
    "page_rCount t1 = (page_rCount t)(pgno (V2P x) := 1)" using t(1,2) by (rule kalloc_Cons)
  define t2 where "t2 = t1\<lparr>mem := memmove (mem t1) x f PGSIZE\<rparr>"
  have x: "page_ok (kend t) x" "x \<notin> set xs" using t(2) by (auto simp: free_list_def)
  have fo: "page_ok (kend t) f" using f by (simp add: used_def)
  have wf: "wf_pgdir t pd" "wf_pgdir t d" using t(3) by (simp_all add: apart_def)
  have xn: "x \<notin> pt_pages (mem t) pd" "x \<notin> pt_pages (mem t) d" using used_not_free [OF wf_pgdir_used [OF wf(1)] t(2)] used_not_free [OF wf_pgdir_used [OF wf(2)] t(2)] by auto
  have ag: "agree_on (- {x}) (mem t) (mem t2)" using memmove_page [OF x(1) fo] by (auto simp: t2_def t1(4) agree_on_def)
  have rc: "rCount t2 (V2P g) = (if g = x then 1 else rCount t (V2P g))" if "page_aligned g" for g
    using that x(1) by (auto simp: t2_def rCount_def t1(5))
  have us: "used t2 g" if "used t g" for g
    using that t1(3) rc [OF used_aligned [OF that]] by (simp add: used_def same_config_def t2_def)
  have nz: "rCount t2 (V2P g) \<noteq> 0" if "used t g" for g using us [OF that] by (simp add: used_def)
  have ke: "kend t2 = kend t" using t1(3) by (simp add: t2_def same_config_def)
  note q = wf_pgdir_used_agree [OF wf(1) ag xn(1) ke nz] wf_pgdir_used_agree [OF wf(2) ag xn(2) ke nz]
  have "free_list t2 xs"
    by (rule free_list_agree [OF t1(2), of "- {x}"]) (use ag x(2) in \<open>auto simp: t2_def t1(4) rCount_def\<close>)
  moreover have "same_config t t2" using t1(3) by (simp add: t2_def same_config_def)
  moreover have "apart t2 pd d" using q t(3) by (simp add: apart_def)
  moreover have "used t2 x" using x rc [of x] t1(3) by (simp add: used_def t2_def same_config_def)
  moreover have "mem t2 (x + (w AND 0xFFF)) = mem t (f + (w AND 0xFFF))" for w
    using memmove_page_byte [OF x(1) fo] by (simp add: t2_def t1(4))
  ultimately show ?thesis using that [OF t1(1) t2_def] us xn ag q by blast
qed

lemma ext_card_eq:
  assumes "ext d s t ys zs" "wf_pgdir s d"
  shows "card (pt_pages (mem t) d) = card (pt_pages (mem s) d) + length ys"
proof -
  have fl: "free_list s (ys @ zs)" and pp: "pt_pages (mem t) d = pt_pages (mem s) d \<union> set ys" using assms(1) by (simp_all add: ext_def)
  have "set ys \<inter> pt_pages (mem s) d = {}" using wf_pgdir_used [OF assms(2)] used_not_free [OF _ fl] by fastforce
  moreover have "distinct ys" using fl by (simp add: free_list_def)
  ultimately show ?thesis unfolding pp using card_pt_pages(1) by (subst card_Un_disjoint) (auto simp: distinct_card)
qed

lemma ext_used: "ext d s t ys zs \<Longrightarrow> used s g \<Longrightarrow> used t g"
  using used_aligned [of s g] by (auto simp: ext_def used_def same_config_def)

lemma plain_copy_page:
  assumes t: "\<not> klocked t" "free_list t zs" "apart t pd d" "page_aligned va" "va < sz"
    and room: "1026 + m < length zs + card (pt_pages (mem t) d)"
    and e: "present (pte_val (mem t) pd va)" "\<not> present (pte_val (mem t) d va)" "used t (tab (pte_val (mem t) pd va))"
  obtains x ys vs u where "s_copyuvm_loop (Suc n) pd d va sz (forget t) = s_copyuvm_loop n pd d (va + PGSIZE) sz (forget u)"
    "zs = x # ys @ vs" "free_list u vs" "copied_page t u pd d va x ys" "1025 + m < length vs + card (pt_pages (mem u) d)"
proof -
  have wf: "wf_pgdir t pd" "wf_pgdir t d" using t(3) by (simp_all add: apart_def)
  obtain a where a: "pte_loc (mem t) pd va = Some a" "a \<noteq> 0" "load32 (mem t) a = pte_val (mem t) pd va" "walkpgdir pd va False t = Ok (a, t)"
    using wf(1) e(1) by (rule fault_lookup)
  obtain x xs where x: "zs = x # xs" using room card_pt_pages(2) [of "mem t" d] by (cases zs) auto
  let ?e = "pte_val (mem t) pd va"
  obtain t1 t2 where c: "kalloc t = Ok (x, t1)" "t2 = t1\<lparr>mem := memmove (mem t1) x (tab ?e) PGSIZE\<rparr>" "free_list t2 xs" "same_config t t2" "apart t2 pd d"
    "\<And>g. used t g \<Longrightarrow> used t2 g" "used t2 x" "x \<notin> pt_pages (mem t) pd \<union> pt_pages (mem t) d" "agree_on (- {x}) (mem t) (mem t2)"
    "\<And>w. mem t2 (x + (w AND 0xFFF)) = mem t (tab ?e + (w AND 0xFFF))"
    "\<And>q w. q = pd \<or> q = d \<Longrightarrow> pt_pages (mem t2) q = pt_pages (mem t) q \<and> pte_val (mem t2) q w = pte_val (mem t) q w"
    using copy_frame [OF t(1) t(2) [unfolded x] t(3) e(3)] by blast
  have x0: "x \<noteq> 0" "page_aligned x" using t(2) x by (auto simp: free_list_def dest: page_ok_nonzero)
  have nl: "\<not> klocked t2" using t(1) c(4) by (simp add: same_config_def)
  have wf2: "wf_pgdir t2 d" using c(5) by (simp add: apart_def)
  have np: "\<not> present (pte_val (mem t2) d va)" using e(2) c(11) [of d] by simp
  from nl c(3) wf2 t(4) np show thesis
  proof (cases rule: mappages_page [where pa = "V2P x" and perm = "PTE_FLAGS ?e"])
    case (out_of_memory u)
    then show ?thesis using ext_card_eq [OF _ wf2, of u xs "[]"] room c(11) [of d] card_pt_pages(2) [of "mem u" d] x by simp
  next
    case (mapped u ys vs)
    have run: "s_copyuvm_loop (Suc n) pd d va sz (forget t) = s_copyuvm_loop n pd d (va + PGSIZE) sz (forget u)"
      using t(5) a e(1) x0 commutes_Ok [OF commutes_walkpgdir a(4)] commutes_Ok [OF commutes_kalloc c(1)] commutes_Ok [OF commutes_mappages mapped(1)] c(2)
      by (simp add: kern_simps Let_def present_def flip: tab_def)
    note o = ext_other [OF mapped(3) c(5)]
    have pu: "pt_pages (mem u) d = pt_pages (mem t) d \<union> set ys" "pt_pages (mem u) pd = pt_pages (mem t) pd"
      using mapped(3) c(11) o(3) by (simp_all add: ext_def)
    have xy: "x \<notin> set ys" using used_not_free [OF c(7,3)] mapped(2) by simp
    have xn: "x \<notin> pt_pages (mem u) pd \<union> pt_pages (mem u) d" using c(8) pu xy by simp
    have ag: "agree_on (- pt_pages (mem u) d) (mem u) (mem t2)" using mapped(3) unfolding ext_def by blast
    have "mem u (x + (w AND 0xFFF)) = mem t (tab ?e + (w AND 0xFFF))" for w
      using agree_onD [OF ag, of "x + (w AND 0xFFF)"] xn c(10) user_byte_page [OF x0(2), of w] by simp
    moreover have "agree_on (- insert x (pt_pages (mem u) d)) (mem u) (mem t)"
      using ag agree_on_sym [OF c(9)] by (auto intro: agree_on_trans agree_on_subset)
    moreover have "PGROUNDDOWN va = va" using t(4) by (rule PGROUNDDOWN_aligned)
    ultimately have "copied_page t u pd d va x ys"
      using mapped(3,4) c(4-7,11) o pu xn tab_copy [OF x0(2), of ?e] ext_used [OF mapped(3)]
      by (simp add: copied_page_def ext_def same_config_def)
    moreover have "1025 + m < length vs + card (pt_pages (mem u) d)"
      using ext_card_eq [OF mapped(3) wf2] room mapped(2) c(11) [of d] by (simp add: x)
    ultimately show ?thesis using that run x mapped(2) ext_frees [OF mapped(3)] by blast
  qed
qed

section \<open>The loop\<close>

text \<open>The first \<open>k\<close> pages are copied; \<open>ys\<close> are all pages taken since \<open>s\<close>.\<close>

definition copied :: "kstate \<Rightarrow> kstate \<Rightarrow> u32 \<Rightarrow> u32 \<Rightarrow> nat \<Rightarrow> u32 list \<Rightarrow> bool" where
  "copied s t pd d k ys \<longleftrightarrow> same_config s t \<and> apart t pd d \<and> pt_pages (mem t) pd = pt_pages (mem s) pd \<and>
     pt_pages (mem t) d \<subseteq> pt_pages (mem s) d \<union> set ys \<and> (\<forall>w. pte_val (mem t) pd w = pte_val (mem s) pd w) \<and>
     (\<forall>w. k \<le> unat w div 4096 \<longrightarrow> pte_val (mem t) d w = pte_val (mem s) d w) \<and>
     (\<forall>j < k. present (pte_val (mem t) d (upage j)) \<and> uframe (mem t) d j \<in> set ys \<and>
        uframe (mem t) d j \<notin> pt_pages (mem t) pd \<union> pt_pages (mem t) d \<and> used t (uframe (mem t) d j) \<and>
        (\<forall>w. mem t (uframe (mem t) d j + (w AND 0xFFF)) = mem s (uframe (mem s) pd j + (w AND 0xFFF)))) \<and>
     inj_on (uframe (mem t) d) {..<k} \<and> agree_on (- (pt_pages (mem s) d \<union> set ys)) (mem t) (mem s) \<and> (\<forall>f. used s f \<longrightarrow> used t f)"

lemma copied_refl: "apart s pd d \<Longrightarrow> copied s s pd d 0 []"
  by (simp add: copied_def)

lemma copied_step:
  assumes c: "copied s t pd d k ys" and p: "copied_page t u pd d (upage k) x zs" and fl: "free_list s (ys @ x # zs @ vs)" "free_list t (x # zs @ vs)"
    and k: "k \<le> 0x7FFFF" and f: "used s (uframe (mem s) pd k)" "uframe (mem s) pd k \<notin> pt_pages (mem s) d"
  shows "copied s u pd d (Suc k) (ys @ x # zs)"
proof -
  have kk: "PGROUNDDOWN w = upage k \<longleftrightarrow> unat w div 4096 = k" for w using k by (intro upage_iff) simp
  have v: "pte_val (mem u) d w = pte_val (mem t) d w" if "unat w div 4096 \<noteq> k" for w using p that kk [of w] by (simp add: copied_page_def)
  have uj: "unat (upage j) div 4096 = j" if "j \<le> k" for j using that k unat_upage [of j] by simp
  have fr: "uframe (mem u) d j = uframe (mem t) d j" if "j < k" for j using v [of "upage j"] uj [of j] that by (simp add: uframe_def)
  have fk: "uframe (mem u) d k = x" using p by (simp add: copied_page_def uframe_def)
  have tp: "uframe (mem t) pd k = uframe (mem s) pd k" using c by (simp add: copied_def uframe_def)
  have xz: "x \<notin> set ys" "set ys \<inter> set zs = {}" using fl(1) by (auto simp: free_list_def)
  have pg: "pt_pages (mem u) d = pt_pages (mem t) d \<union> set zs" "pt_pages (mem u) pd = pt_pages (mem t) pd" using p by (simp_all add: copied_page_def)
  have agp: "agree_on (- insert x (pt_pages (mem u) d)) (mem u) (mem t)" using p unfolding copied_page_def by blast
  have ags: "agree_on (- (pt_pages (mem s) d \<union> set ys)) (mem t) (mem s)" using c by (simp add: copied_def)
  have old: "present (pte_val (mem u) d (upage j)) \<and> uframe (mem u) d j \<in> set ys \<and> uframe (mem u) d j \<notin> pt_pages (mem u) pd \<union> pt_pages (mem u) d \<and>
      used u (uframe (mem u) d j) \<and> (\<forall>w. mem u (uframe (mem u) d j + (w AND 0xFFF)) = mem s (uframe (mem s) pd j + (w AND 0xFFF)))" if j: "j < k" for j
  proof -
    have o: "present (pte_val (mem t) d (upage j))" "uframe (mem t) d j \<in> set ys" "uframe (mem t) d j \<notin> pt_pages (mem t) pd \<union> pt_pages (mem t) d"
      "used t (uframe (mem t) d j)" "\<And>w. mem t (uframe (mem t) d j + (w AND 0xFFF)) = mem s (uframe (mem s) pd j + (w AND 0xFFF))"
      using c j unfolding copied_def by blast+
    have n: "uframe (mem t) d j \<notin> set zs" "uframe (mem t) d j \<noteq> x" using o(2) xz by auto
    have al: "page_aligned (uframe (mem t) d j)" by (simp add: uframe_def)
    have "mem u (uframe (mem t) d j + (w AND 0xFFF)) = mem t (uframe (mem t) d j + (w AND 0xFFF))" for w
      by (rule agree_onD [OF agp]) (use n o(3) pg user_byte_page [OF al] in auto)
    moreover have "pte_val (mem u) d (upage j) = pte_val (mem t) d (upage j)" by (rule v) (use uj [of j] j in simp)
    ultimately show ?thesis using o n pg p fr [OF j] by (simp add: copied_page_def)
  qed
  have new: "mem u (x + (w AND 0xFFF)) = mem s (uframe (mem s) pd k + (w AND 0xFFF))" for w
  proof -
    have "mem u (x + (w AND 0xFFF)) = mem t (uframe (mem s) pd k + (w AND 0xFFF))" using p tp by (simp add: copied_page_def uframe_def)
    also have "\<dots> = mem s (uframe (mem s) pd k + (w AND 0xFFF))"
      by (rule agree_onD [OF ags]) (use f used_not_free [OF f(1) fl(1)] user_byte_page [of "uframe (mem s) pd k"] in \<open>auto simp: uframe_def\<close>)
    finally show ?thesis .
  qed
  have "present (pte_val (mem u) d (upage k))" "x \<notin> pt_pages (mem u) pd \<union> pt_pages (mem u) d" "used u x" using p unfolding copied_page_def by blast+
  then have all: "\<forall>j < Suc k. present (pte_val (mem u) d (upage j)) \<and> uframe (mem u) d j \<in> set (ys @ x # zs) \<and>
        uframe (mem u) d j \<notin> pt_pages (mem u) pd \<union> pt_pages (mem u) d \<and> used u (uframe (mem u) d j) \<and>
        (\<forall>w. mem u (uframe (mem u) d j + (w AND 0xFFF)) = mem s (uframe (mem s) pd j + (w AND 0xFFF)))"
    using old new fk by (auto simp: less_Suc_eq)
  have "uframe (mem u) d ` {..<k} \<subseteq> set ys" using old by auto
  moreover have "inj_on (uframe (mem u) d) {..<k}" using c fr by (auto simp: copied_def inj_on_def)
  ultimately have "inj_on (uframe (mem u) d) {..<Suc k}" using xz(1) fk by (auto simp: lessThan_Suc)
  moreover have "agree_on (- (pt_pages (mem s) d \<union> set (ys @ x # zs))) (mem u) (mem s)"
  proof (rule agree_on_trans)
    have "pt_pages (mem t) d \<subseteq> pt_pages (mem s) d \<union> set ys" using c by (simp add: copied_def)
    then show "agree_on (- (pt_pages (mem s) d \<union> set (ys @ x # zs))) (mem u) (mem t)" by (intro agree_on_subset [OF agp]) (auto simp: pg)
    show "agree_on (- (pt_pages (mem s) d \<union> set (ys @ x # zs))) (mem t) (mem s)" by (rule agree_on_subset [OF ags]) auto
  qed
  moreover have "\<forall>w. Suc k \<le> unat w div 4096 \<longrightarrow> pte_val (mem u) d w = pte_val (mem s) d w" using c v by (simp add: copied_def)
  ultimately show ?thesis
    using c p all pg same_config_trans [of s t u] unfolding copied_def copied_page_def by auto
qed

lemma s_copyuvm_loop_done: "\<not> i < sz \<Longrightarrow> s_copyuvm_loop fuel pd d i sz s = Ok (d, s)"
  by (cases fuel) (simp_all add: kern_simps)

text \<open>The pages \<open>k, \<dots>, n - 1\<close> of the parent, and the room in the child.\<close>

definition copyable :: "kstate \<Rightarrow> u32 \<Rightarrow> u32 \<Rightarrow> nat \<Rightarrow> bool" where
  "copyable s pd d n \<longleftrightarrow> (\<forall>j < n. present (pte_val (mem s) pd (upage j)) \<and> \<not> present (pte_val (mem s) d (upage j)) \<and>
     used s (uframe (mem s) pd j) \<and> uframe (mem s) pd j \<notin> pt_pages (mem s) d)"

lemma s_copyuvm_loop_ok:
  assumes "\<not> klocked s" "copyable s pd d n" "n \<le> 0x80000" and sz: "\<And>j. j \<le> n \<Longrightarrow> upage j < sz \<longleftrightarrow> j < n"
    and "copied s t pd d k ys" "free_list s (ys @ zs)" "free_list t zs" "k \<le> n" "n - k \<le> fuel"
    and "1025 + (n - k) < length zs + card (pt_pages (mem t) d)"
  shows "\<exists>u us vs. s_copyuvm_loop fuel pd d (upage k) sz (forget t) = Ok (d, forget u) \<and> free_list u vs \<and> free_list s (us @ vs) \<and> copied s u pd d n us"
  using assms(5-10)
proof (induction fuel arbitrary: t k ys zs)
  case 0
  then have "k = n" "\<not> upage n < sz" using sz [of n] by simp_all
  then show ?case using 0 s_copyuvm_loop_done by blast
next
  case (Suc fuel)
  show ?case
  proof (cases "k = n")
    case True
    then have "\<not> upage k < sz" using sz [of n] by simp
    then show ?thesis using True Suc.prems s_copyuvm_loop_done by blast
  next
    case False
    then have k: "k < n" using Suc.prems(4) by simp
    then have cs: "present (pte_val (mem s) pd (upage k))" "\<not> present (pte_val (mem s) d (upage k))" "used s (uframe (mem s) pd k)"
      "uframe (mem s) pd k \<notin> pt_pages (mem s) d" using assms(2) by (simp_all add: copyable_def)
    have uk: "unat (upage k) div 4096 = k" using unat_upage [of k] k assms(3) by simp
    then have pk: "pte_val (mem t) pd (upage k) = pte_val (mem s) pd (upage k)" "pte_val (mem t) d (upage k) = pte_val (mem s) d (upage k)"
      using Suc.prems(1) by (simp_all add: copied_def)
    have ct: "\<not> klocked t" "apart t pd d" "used t (tab (pte_val (mem t) pd (upage k)))"
      using assms(1) Suc.prems(1) cs(3) pk(1) by (simp_all add: copied_def same_config_def uframe_def)
    have room: "1026 + (n - Suc k) < length zs + card (pt_pages (mem t) d)" using Suc.prems(6) k by simp
    have up: "page_aligned (upage k)" "upage k < sz" using k assms(3) sz [of k] by simp_all
    have et: "present (pte_val (mem t) pd (upage k))" "\<not> present (pte_val (mem t) d (upage k))" using cs(1,2) pk by simp_all
    obtain x ws vs u where u: "s_copyuvm_loop (Suc fuel) pd d (upage k) sz (forget t) = s_copyuvm_loop fuel pd d (upage k + PGSIZE) sz (forget u)"
      "zs = x # ws @ vs" "free_list u vs" "copied_page t u pd d (upage k) x ws" "1025 + (n - Suc k) < length vs + card (pt_pages (mem u) d)"
      by (rule plain_copy_page [OF ct(1) Suc.prems(3) ct(2) up room et ct(3), where n = fuel])
    have "copied s u pd d (Suc k) (ys @ x # ws)"
      by (rule copied_step [OF Suc.prems(1) u(4), of vs]) (use Suc.prems(2,3) u(2) k assms(3) cs(3,4) in simp_all)
    from Suc.IH [OF this, of vs] show ?thesis using u Suc.prems(2,5) k by (simp add: upage_Suc del: s_copyuvm_loop.simps)
  qed
qed

section \<open>Fork by copying\<close>

definition s_uwrite :: "u32 \<Rightarrow> u32 \<Rightarrow> u8 \<Rightarrow> skstate \<Rightarrow> skstate" where
  "s_uwrite pd va b s = s\<lparr>smem := (smem s)(tab (pte_val (smem s) pd va) + (va AND 0xFFF) := b)\<rparr>"

lemma s_uwrite_forget: "s_uwrite pd va b (forget k) = forget (uwrite pd va b k)"
  by (simp add: s_uwrite_def uwrite_def)

text \<open>No page of \<open>q\<close> is a page or a page table of \<open>r\<close>, and no two addresses of \<open>q\<close> on different pages share a page.\<close>

definition own_pages :: "kstate \<Rightarrow> u32 \<Rightarrow> u32 \<Rightarrow> u32 \<Rightarrow> bool" where
  "own_pages t q r sz \<longleftrightarrow> wf_pgdir t q \<and> wf_pgdir t r \<and> (\<forall>w < sz. tab (pte_val (mem t) q w) \<notin> pt_pages (mem t) q \<union> pt_pages (mem t) r \<and>
     (\<forall>v < sz. (PGROUNDDOWN v = PGROUNDDOWN w \<or> tab (pte_val (mem t) q v) \<noteq> tab (pte_val (mem t) q w)) \<and>
        tab (pte_val (mem t) r v) \<noteq> tab (pte_val (mem t) q w)))"

lemma own_pagesI:
  assumes "wf_pgdir t q" "wf_pgdir t r" "\<And>w. w < sz \<Longrightarrow> tab (pte_val (mem t) q w) \<notin> pt_pages (mem t) q"
    "\<And>w. w < sz \<Longrightarrow> tab (pte_val (mem t) q w) \<notin> pt_pages (mem t) r"
    "\<And>v w. v < sz \<Longrightarrow> w < sz \<Longrightarrow> tab (pte_val (mem t) q v) = tab (pte_val (mem t) q w) \<Longrightarrow> PGROUNDDOWN v = PGROUNDDOWN w"
    "\<And>v w. v < sz \<Longrightarrow> w < sz \<Longrightarrow> tab (pte_val (mem t) r v) \<noteq> tab (pte_val (mem t) q w)"
  shows "own_pages t q r sz"
  using assms unfolding own_pages_def by blast

lemma own_write:
  assumes "own_pages t q r sz" "va < sz" "w < sz"
  shows "uread (mem (uwrite q va c t)) q w = (if w = va then c else uread (mem t) q w)"
    and "uread (mem (uwrite q va c t)) r w = uread (mem t) r w"
proof -
  show "uread (mem (uwrite q va c t)) q w = (if w = va then c else uread (mem t) q w)"
    by (rule uwrite_own) (use assms in \<open>auto simp: own_pages_def\<close>)
  show "uread (mem (uwrite q va c t)) r w = uread (mem t) r w"
    by (rule uwrite_other [where sz = sz]) (use assms in \<open>auto simp: own_pages_def\<close>)
qed

lemma copied_own:
  assumes c: "copied s t pd d n ys" and fl: "free_list s (ys @ zs)" and us: "user_space s pd sz" and n: "n = upages sz"
    and inj: "inj_on (uframe (mem s) pd) {j. j < upages sz}" and d: "pt_pages (mem s) d \<inter> uframe (mem s) pd ` {j. j < upages sz} = {}"
  shows "own_pages t d pd sz" "own_pages t pd d sz" "w < sz \<Longrightarrow> uread (mem t) d w = uread (mem s) pd w \<and> uread (mem t) pd w = uread (mem s) pd w"
proof -
  let ?k = "\<lambda>w :: u32. unat w div 4096"
  have fd: "tab (pte_val (mem t) d w) = uframe (mem t) d (?k w)" "tab (pte_val (mem t) pd w) = uframe (mem s) pd (?k w)" "?k w < n"
      "uframe (mem s) pd (?k w) \<notin> set ys" "uframe (mem s) pd (?k w) \<notin> pt_pages (mem s) pd"
      "uframe (mem s) pd (?k w) \<notin> pt_pages (mem s) d" if w: "w < sz" for w
  proof -
    note pw = user_space_page [OF us w]
    show "tab (pte_val (mem t) d w) = uframe (mem t) d (?k w)" by (rule pte_val_upage(2) [OF pw(4)])
    show "tab (pte_val (mem t) pd w) = uframe (mem s) pd (?k w)" using c pte_val_upage(2) [OF pw(4), of "mem s" pd] by (simp add: copied_def)
    show k: "?k w < n" using upages_page [OF w] n by simp
    have f: "tab (pte_val (mem s) pd w) = uframe (mem s) pd (?k w)" by (rule pte_val_upage(2) [OF pw(4)])
    show "uframe (mem s) pd (?k w) \<notin> set ys" using used_not_free [OF pw(2) fl] f by simp
    show "uframe (mem s) pd (?k w) \<notin> pt_pages (mem s) pd" using pw(3) f by simp
    show "uframe (mem s) pd (?k w) \<notin> pt_pages (mem s) d" using d k n by auto
  qed
  have ch: "uframe (mem t) d j \<in> set ys" "uframe (mem t) d j \<notin> pt_pages (mem t) pd \<union> pt_pages (mem t) d"
      "mem t (uframe (mem t) d j + (w AND 0xFFF)) = mem s (uframe (mem s) pd j + (w AND 0xFFF))" if "j < n" for j w
    using c that unfolding copied_def by blast+
  have wf: "wf_pgdir t d" "wf_pgdir t pd" using c by (simp_all add: copied_def apart_def)
  have pt: "pt_pages (mem t) pd = pt_pages (mem s) pd" "pt_pages (mem t) d \<subseteq> pt_pages (mem s) d \<union> set ys" using c by (simp_all add: copied_def)
  have ij: "inj_on (uframe (mem t) d) {..<n}" using c by (simp add: copied_def)
  have page: "PGROUNDDOWN v = PGROUNDDOWN w" if "?k v = ?k w" for v w :: u32 using that by (simp add: same_page_div)
  have id: "PGROUNDDOWN v = PGROUNDDOWN w" if "v < sz" "w < sz" "uframe (mem t) d (?k v) = uframe (mem t) d (?k w)" for v w
    by (rule page, rule inj_onD [OF ij that(3)]) (use fd(3) that in auto)
  have ip: "PGROUNDDOWN v = PGROUNDDOWN w" if "v < sz" "w < sz" "uframe (mem s) pd (?k v) = uframe (mem s) pd (?k w)" for v w
    by (rule page, rule inj_onD [OF inj that(3)]) (use fd(3) that n in auto)
  have df: "uframe (mem t) d (?k w) \<noteq> uframe (mem s) pd (?k v)" if "v < sz" "w < sz" for v w using ch(1) [OF fd(3) [OF that(2)]] fd(4) [OF that(1)] by auto
  show "own_pages t d pd sz"
  proof (rule own_pagesI [OF wf])
    show "tab (pte_val (mem t) d w) \<notin> pt_pages (mem t) d" "tab (pte_val (mem t) d w) \<notin> pt_pages (mem t) pd" if "w < sz" for w
      using ch(2) [OF fd(3) [OF that]] by (simp_all add: fd(1) [OF that])
    show "PGROUNDDOWN v = PGROUNDDOWN w" if "v < sz" "w < sz" "tab (pte_val (mem t) d v) = tab (pte_val (mem t) d w)" for v w
      using id [OF that(1,2)] that(3) by (simp add: fd(1) that(1,2))
    show "tab (pte_val (mem t) pd v) \<noteq> tab (pte_val (mem t) d w)" if "v < sz" "w < sz" for v w
      using df [OF that] by (simp add: fd(1,2) that)
  qed
  show "own_pages t pd d sz"
  proof (rule own_pagesI [OF wf(2,1)])
    show "tab (pte_val (mem t) pd w) \<notin> pt_pages (mem t) pd" "tab (pte_val (mem t) pd w) \<notin> pt_pages (mem t) d" if "w < sz" for w
      using fd(4-6) [OF that] pt by (auto simp: fd(2) [OF that])
    show "PGROUNDDOWN v = PGROUNDDOWN w" if "v < sz" "w < sz" "tab (pte_val (mem t) pd v) = tab (pte_val (mem t) pd w)" for v w
      using ip [OF that(1,2)] that(3) by (simp add: fd(2) that(1,2))
    show "tab (pte_val (mem t) d v) \<noteq> tab (pte_val (mem t) pd w)" if "v < sz" "w < sz" for v w
      using df [OF that(2,1)] by (simp add: fd(1,2) that)
  qed
  show "uread (mem t) d w = uread (mem s) pd w \<and> uread (mem t) pd w = uread (mem s) pd w" if w: "w < sz"
  proof
    have g: "tab (pte_val (mem s) pd w) = uframe (mem s) pd (?k w)" by (rule pte_val_upage(2) [OF user_space_page(4) [OF us w]])
    show "uread (mem t) d w = uread (mem s) pd w" using ch(3) [OF fd(3) [OF w]] by (simp add: uread_def fd(1) [OF w] g)
    have ag: "agree_on (- (pt_pages (mem s) d \<union> set ys)) (mem t) (mem s)" using c by (simp add: copied_def)
    show "uread (mem t) pd w = uread (mem s) pd w"
      by (rule uread_agree [OF ag]) (use fd [OF w] g in auto)
  qed
qed

lemma s_copyuvm_ok:
  assumes "\<not> klocked s" "free_list s xs" "1025 + upages sz < length xs" "kernel_layout (kdata s)" "user_space s pd sz"
    and inj: "inj_on (uframe (mem s) pd) {j. j < upages sz}"
  obtains d t where "s_copyuvm pd sz (forget s) = Ok (d, forget t)" "d \<noteq> 0" "own_pages t d pd sz" "own_pages t pd d sz"
    "\<forall>w < sz. uread (mem t) d w = uread (mem s) pd w \<and> uread (mem t) pd w = uread (mem s) pd w"
proof -
  let ?n = "upages sz"
  have wf: "wf_pgdir s pd" and sz: "unat sz \<le> 0x80000000" using assms(5) by (simp_all add: user_space_def KERNBASE_def word_le_nat_alt)
  have u: "?n \<le> 0x80000" using sz by (simp add: upages_def)
  have l: "1025 < length xs" using assms(3) by simp
  obtain d s1 ps zs where k: "setupkvm s = Ok (d, s1)" "d \<noteq> 0" "xs = ps @ zs" "d \<in> set ps" "free_list s1 zs" "new_space s s1 d ps" "length ps \<le> 1025"
    using assms(1,2) l assms(4) by (rule setupkvm_ok)
  have fl: "free_list s (ps @ zs)" using assms(2) k(3) by simp
  have c: "same_config s s1" "pt_pages (mem s1) d = set ps" using k(6) by (simp_all add: new_space_def)
  note a = new_space_apart [OF k(6) fl wf]
  have fr: "uframe (mem s1) pd = uframe (mem s) pd" by (simp add: uframe_def a(2) fun_eq_iff)
  have pg: "present (pte_val (mem s) pd (upage j))" "used s (uframe (mem s) pd j)" "uframe (mem s) pd j \<notin> set ps" "used s1 (uframe (mem s) pd j)"
    "uframe (mem s) pd j \<notin> pt_pages (mem s) pd" "pte_val (mem s1) d (upage j) = 0" if j: "j < ?n" for j
  proof -
    show p: "present (pte_val (mem s) pd (upage j))" "used s (uframe (mem s) pd j)" "uframe (mem s) pd j \<notin> pt_pages (mem s) pd"
      using assms(5) j by (simp_all add: user_space_def)
    show np: "uframe (mem s) pd j \<notin> set ps" using used_not_free [OF p(2) fl] by simp
    have "rCount s1 (V2P (uframe (mem s) pd j)) = rCount s (V2P (uframe (mem s) pd j))" using k(6) np by (simp add: new_space_def uframe_def)
    then show "used s1 (uframe (mem s) pd j)" using p(2) c(1) by (simp add: used_def same_config_def)
    have "4096 * j < 0x80000000" using j sz by (simp add: upages_iff)
    then show "pte_val (mem s1) d (upage j) = 0" using k(6) unat_upage [of j] by (simp add: new_space_def)
  qed
  have us1: "user_space s1 pd sz" using assms(5) pg a by (simp add: user_space_def apart_def fr)
  have cp: "copyable s1 pd d ?n" unfolding copyable_def fr c(2) using pg a(2) by simp
  have dp: "distinct ps" using fl by (simp add: free_list_def)
  have "\<exists>t us vs. s_copyuvm_loop (Suc (unat sz div 4096)) pd d (upage 0) sz (forget s1) = Ok (d, forget t) \<and> free_list t vs \<and> free_list s1 (us @ vs) \<and> copied s1 t pd d ?n us"
  proof (rule s_copyuvm_loop_ok [OF _ cp u _ copied_refl [OF a(1)] _ k(5)])
    show "\<not> klocked s1" using assms(1) c(1) by (simp add: same_config_def)
    show "free_list s1 ([] @ zs)" using k(5) by simp
    show "?n - 0 \<le> Suc (unat sz div 4096)" by (simp add: upages_def)
    show "1025 + (?n - 0) < length zs + card (pt_pages (mem s1) d)" using assms(3) k(3) dp by (simp add: c(2) distinct_card)
    show "upage j < sz \<longleftrightarrow> j < ?n" if "j \<le> ?n" for j using that u unat_upage [of j] by (simp add: upages_iff word_less_nat_alt)
  qed simp
  then obtain t us vs where t: "s_copyuvm_loop (Suc (unat sz div 4096)) pd d (upage 0) sz (forget s1) = Ok (d, forget t)" "free_list s1 (us @ vs)" "copied s1 t pd d ?n us"
    by blast
  have "upage 0 = 0" by (simp add: upage_def)
  then have run: "s_copyuvm pd sz (forget s) = Ok (d, forget t)"
    using t(1) setupkvm_forget [OF k(1,2)] k(2) by (simp add: s_copyuvm_def kern_simps del: s_copyuvm_loop.simps)
  have dj: "pt_pages (mem s1) d \<inter> uframe (mem s1) pd ` {j. j < ?n} = {}" using pg(3) by (auto simp: c(2) fr)
  note own = copied_own [OF t(3,2) us1 refl _ dj, unfolded fr, OF inj]
  have "uread (mem s1) pd w = uread (mem s) pd w" if w: "w < sz" for w
  proof -
    have "agree_on (- set ps) (mem s1) (mem s)" using k(6) by (simp add: new_space_def)
    then show ?thesis by (rule uread_agree) (use user_space_page(2) [OF assms(5) w] used_not_free [OF _ fl] in \<open>auto simp: a(2)\<close>)
  qed
  then show thesis using that [OF run k(2) own(1,2)] own(3) by simp
qed

text \<open>
  C6: copy on write refines the fork that copies.  From the same state, with the reference counts forgotten for the scheduling
  kernel, \<open>copyuvm\<close> of both kernels succeeds, and the processes read the same bytes; and when the child or the parent then writes,
  through the page fault handler in one kernel and directly in the other, both processes again read the same bytes in both
  kernels.
\<close>

theorem cow_fork_equals_copying_fork:
  assumes "\<not> klocked s" "free_list s xs" "1025 + upages sz < length xs" "kernel_layout (kdata s)" "0x80000000 \<le> kend s"
    and "user_space s pd sz" "counts_below s pd sz" "inj_on (uframe (mem s) pd) {j. j < upages sz}" "va < sz"
  shows "okp (\<lambda>d t. okp (\<lambda>e u. d \<noteq> 0 \<and> e \<noteq> 0 \<and>
      (\<forall>w < sz. uread (mem t) d w = uread (smem u) e w \<and> uread (mem t) pd w = uread (smem u) pd w) \<and>
      okp (\<lambda>killed v. \<not> killed \<and> (\<forall>w < sz.
        uread (mem (uwrite d va c v)) d w = uread (smem (s_uwrite e va c u)) e w \<and>
        uread (mem (uwrite d va c v)) pd w = uread (smem (s_uwrite e va c u)) pd w)) (COW_FAULT d va t) \<and>
      okp (\<lambda>killed v. \<not> killed \<and> (\<forall>w < sz.
        uread (mem (uwrite pd va c v)) pd w = uread (smem (s_uwrite pd va c u)) pd w \<and>
        uread (mem (uwrite pd va c v)) d w = uread (smem (s_uwrite pd va c u)) e w)) (COW_FAULT pd va t))
    (s_copyuvm pd sz (forget s))) (copyuvm pd sz s)"
proof -
  obtain e u where u: "s_copyuvm pd sz (forget s) = Ok (e, forget u)" "e \<noteq> 0" "own_pages u e pd sz" "own_pages u pd e sz"
    "\<forall>w < sz. uread (mem u) e w = uread (mem s) pd w \<and> uread (mem u) pd w = uread (mem s) pd w"
    using assms(1-4,6,8) by (rule s_copyuvm_ok)
  have l: "1025 < length xs" using assms(3) by simp
  obtain d t x zs where t: "copyuvm pd sz s = Ok (d, t)" "d \<noteq> 0" "free_list t (x # zs)" "\<not> klocked t"
    "0x80000000 \<le> kend t" "user_space t pd sz" "user_space t d sz" "bystander t pd d sz" "bystander t d pd sz"
    "\<forall>w < sz. uread (mem t) d w = uread (mem s) pd w \<and> uread (mem t) pd w = uread (mem s) pd w"
    "\<forall>w < sz. 1 < rCount t (V2P (tab (pte_val (mem t) d w))) \<and> tab (pte_val (mem t) pd w) = tab (pte_val (mem t) d w)"
    using assms(1,2) l assms(4-7) by (rule copyuvm_spaces)
  note c = t(11) [rule_format, OF assms(9)]
  note w = own_write [OF u(3) assms(9), of _ c] own_write [OF u(4) assms(9), of _ c]
  show ?thesis
    using fault_write [OF t(4,5,3) assms(9) t(7,9), of c] fault_write [OF t(4,5,3) assms(9) t(6,8), of c] t(1,2,10) c u w
    by (auto simp: s_uwrite_forget elim!: okp_mono)
qed

theorem cow_fork_equals_copying_fork_witness:
  "okp (\<lambda>d t. okp (\<lambda>e u. d \<noteq> 0 \<and> e \<noteq> 0 \<and>
      (\<forall>w < 4096. uread (mem t) d w = uread (smem u) e w \<and> uread (mem t) exPD w = uread (smem u) exPD w) \<and>
      okp (\<lambda>killed v. \<not> killed \<and> (\<forall>w < 4096.
        uread (mem (uwrite d 8 7 v)) d w = uread (smem (s_uwrite e 8 7 u)) e w \<and>
        uread (mem (uwrite d 8 7 v)) exPD w = uread (smem (s_uwrite e 8 7 u)) exPD w)) (COW_FAULT d 8 t) \<and>
      okp (\<lambda>killed v. \<not> killed \<and> (\<forall>w < 4096.
        uread (mem (uwrite exPD 8 7 v)) exPD w = uread (smem (s_uwrite exPD 8 7 u)) exPD w \<and>
        uread (mem (uwrite exPD 8 7 v)) d w = uread (smem (s_uwrite exPD 8 7 u)) e w)) (COW_FAULT exPD 8 t))
    (s_copyuvm exPD 4096 (forget (exst 1100)))) (copyuvm exPD 4096 (exst 1100))"
proof (rule cow_fork_equals_copying_fork)
  show "free_list (exst 1100) (exfree 1100)" by (rule exst_free_list) simp
  show "1025 + upages 4096 < length (exfree 1100)" by (simp add: exfree_def upages_def)
  show "inj_on (uframe (mem (exst 1100)) exPD) {j. j < upages 4096}" by (simp add: upages_def inj_on_def)
qed (simp_all add: exst_user)

end
