(* ===== verification/Sched_Trap_Props.thy ===== *)
theory Sched_Trap_Props
  imports Sched_Proc Sched_Props Sched_Copy
begin

unbundle bit_operations_syntax

text \<open>
  Properties of the trap handler and the system calls of the scheduling kernel: what the clock interrupt does under each policy, and
  what happens when \<open>getprocstable\<close> writes past the memory of the caller.
\<close>

section \<open>The clock interrupt\<close>

lemma okp_E: "okp P r \<Longrightarrow> \<exists>x t. r = Ok (x, t) \<and> P x t"
  by (cases r) auto

lemma after_tick_killed [simp]: "p_killed (after_tick p) = p_killed p"
  by (cases "p_state p") (simp_all add: after_tick_def)

lemma yield_state:
  assumes "yield_enter s = Ok (b, t)" "cproc s = Some i" "i < length (ptable s)"
  shows "p_state (ptable t ! i) = RUNNABLE"
  using assms by (auto simp: yield_enter_def sched_enter_def seqk_app modk_app myproc_def acquirep_def zoomk_def elim!: bindk_OkE split: outcome.splits if_splits)

text \<open>
  C23: the clock interrupt on CPU 0 while a process runs, under every policy.  The handler adds one tick to the clock and does the bookkeeping for every process in the
  table: the running process has run one tick more, in all and in its queue; every sleeping process has slept one tick more, and those that sleep for the clock are runnable;
  the other entries are as before.  Then, if the interrupt came from user space and the process has been killed, it exits.  Otherwise, with FCFS, the handler returns to the process,
  which keeps running; with the other policies the process is made runnable again and stands at the switch to the scheduler, which then completes its next choice.
\<close>

theorem clock_interrupt:
  assumes "sys pol n (sc f) pc" "proc_of pc = Some i"
  shows "\<exists>u. sys pol (Suc n) u pc \<and> ticks u = ticks (sc f) + 1 \<and> length (ptable u) = length (ptable (sc f)) \<and>
    (\<forall>k < length (ptable u). let p = ptable (sc f) ! k in ptable u ! k =
       (if p_state p = RUNNING then
          p\<lparr>p_rtime := p_rtime p + 1, p_q_ticks := (p_q_ticks p)[unat (p_queue p) := p_q_ticks p ! unat (p_queue p) + 1],
            p_curr_q_ticks := p_curr_q_ticks p + 1\<rparr>
        else if p_state p = SLEEPING then
          p\<lparr>p_iotime := p_iotime p + 1, p_lastWorkingticks := p_lastWorkingticks p + 1,
            p_state := (if p_chan p = ChanTicks then RUNNABLE else SLEEPING)\<rparr>
        else p)) \<and>
    (if p_killed (ptable (sc f) ! i) \<and> cs AND 3 = 3 then s_trap pol 0 sysc dev tf T_IRQ0 cs f = s_exit_now (f\<lparr>sc := u\<rparr>)
     else if pol = FCFS then s_trap pol 0 sysc dev tf T_IRQ0 cs f = Ok (Returns, f\<lparr>sc := u\<rparr>) \<and> p_state (ptable u ! i) = RUNNING
     else \<exists>b v. s_trap pol 0 sysc dev tf T_IRQ0 cs f = Ok (Yields b, f\<lparr>sc := v\<rparr>) \<and> gives_up u v \<and>
       p_state (ptable v ! i) = RUNNABLE \<and> okp (\<lambda>_ _. True) (sched_back pc v))"
proof -
  have top: "pc \<noteq> Top" using assms(2) by (auto simp: proc_of_def)
  have inv: "sinv n (sc f) pc" using assms(1) by (rule sys_inv)
  obtain t where t: "timer_tick (sc f) = Ok ((), t)" "sinv (Suc n) t pc" using okp_E [OF timer_tick_ok [OF inv]] by auto
  note tab = timer_tick_table [OF t(1)]
  have sys: "sys pol (Suc n) t pc" by (rule sys.ticks [OF assms(1) t(1)])
  have "only_running i t" using on_cpu_proc [of t pc] t(2) top assms(2) by (auto simp: sinv_def)
  then have c: "cproc t = Some i" "i < length (ptable t)" "p_state (ptable t ! i) = RUNNING" by (auto simp: only_running_def)
  let ?g = "f\<lparr>sc := t\<rparr>"
  have k: "s_cur_killed ?g \<longleftrightarrow> p_killed (ptable (sc f) ! i)" using c(1,2) tab(1) by (simp add: s_cur_killed_def)
  have run: "s_trap_cause 0 dev T_IRQ0 cs f = Ok ((), ?g)" using t(1) by (simp add: s_trap_cause_def timer_irq_def kern_simps zoom_sc_def zoomk_def)
  have T: "T_IRQ0 \<noteq> T_SYSCALL" by (simp add: T_SYSCALL_def T_IRQ0_def)
  have each: "\<forall>k < length (ptable t). let p = ptable (sc f) ! k in ptable t ! k =
       (if p_state p = RUNNING then
          p\<lparr>p_rtime := p_rtime p + 1, p_q_ticks := (p_q_ticks p)[unat (p_queue p) := p_q_ticks p ! unat (p_queue p) + 1],
            p_curr_q_ticks := p_curr_q_ticks p + 1\<rparr>
        else if p_state p = SLEEPING then
          p\<lparr>p_iotime := p_iotime p + 1, p_lastWorkingticks := p_lastWorkingticks p + 1,
            p_state := (if p_chan p = ChanTicks then RUNNABLE else SLEEPING)\<rparr>
        else p)"
    unfolding tab(1) by (simp add: after_tick_def Let_def split: procstate.split)
  have rest: "if p_killed (ptable (sc f) ! i) \<and> cs AND 3 = 3 then s_trap pol 0 sysc dev tf T_IRQ0 cs f = s_exit_now (f\<lparr>sc := t\<rparr>)
     else if pol = FCFS then s_trap pol 0 sysc dev tf T_IRQ0 cs f = Ok (Returns, f\<lparr>sc := t\<rparr>) \<and> p_state (ptable t ! i) = RUNNING
     else \<exists>b v. s_trap pol 0 sysc dev tf T_IRQ0 cs f = Ok (Yields b, f\<lparr>sc := v\<rparr>) \<and> gives_up t v \<and>
       p_state (ptable v ! i) = RUNNABLE \<and> okp (\<lambda>_ _. True) (sched_back pc v)"
  proof (cases "p_killed (ptable (sc f) ! i) \<and> cs AND 3 = 3")
    case True
    then have "s_trap pol 0 sysc dev tf T_IRQ0 cs f = s_exit_now ?g" using run k T by (simp add: s_trap_def kern_simps)
    then show ?thesis using True by simp
  next
    case alive: False
    show ?thesis
    proof (cases "pol = FCFS")
      case True
      then have "s_trap pol 0 sysc dev tf T_IRQ0 cs f = Ok (Returns, ?g)" using run k alive c(1) T by (simp add: s_trap_def kern_simps) auto
      then show ?thesis using True alive c(3) by auto
    next
      case False
      obtain b v where v: "yield_enter t = Ok (b, v)" using sinv_yield_enter [OF t(2) top] by auto
      have "s_trap pol 0 sysc dev tf T_IRQ0 cs f = Ok (Yields b, ?g\<lparr>sc := v\<rparr>)"
        using run k alive c(1,3) False v T by (simp add: s_trap_def kern_simps zoom_sc_def zoomk_def) auto
      moreover have g: "gives_up t v" using v by (rule gives_up.yields)
      moreover have "okp (\<lambda>_ _. True) (sched_back pc v)" using sched_back_ok [OF gives_up_ok [OF g t(2) top]] by (rule okp_mono) simp
      ultimately show ?thesis using False alive yield_state [OF v c(1,2)] by auto
    qed
  qed
  show ?thesis using sys tab(2) each rest tab(1) by (intro exI [of _ t]) simp
qed

theorem clock_interrupt_witness:
  "\<exists>s q i u. sys MLFQ 0 s (MLFQrun q i) \<and> sys MLFQ 1 u (MLFQrun q i) \<and> p_rtime (ptable u ! i) = p_rtime (ptable s ! i) + 1 \<and>
     (let f = \<lparr>sc = s, sfs = undefined, s_initcode_start = 0, s_initcode_size = 0, s_first = False\<rparr> in
      \<exists>b v. s_trap MLFQ 0 (ret ()) (\<lambda>_. ret ()) 0 T_IRQ0 8 f = Ok (Yields b, f\<lparr>sc := v\<rparr>) \<and> gives_up u v \<and> p_state (ptable v ! i) = RUNNABLE)"
proof -
  obtain s q i where s: "sys MLFQ 0 s (MLFQrun q i)" using ex_runs by blast
  then have r: "i < length (ptable s)" "p_state (ptable s ! i) = RUNNING" using sys_inv [OF s] by (auto simp: sinv_def on_cpu_def only_running_def)
  let ?f = "\<lparr>sc = s, sfs = undefined, s_initcode_start = 0, s_initcode_size = 0, s_first = False\<rparr>"
  have "sys MLFQ 0 (sc ?f) (MLFQrun q i)" "proc_of (MLFQrun q i) = Some i" "(8 :: u32) AND 3 \<noteq> 3" using s by (simp_all add: proc_of_def)
  from clock_interrupt [OF this(1,2), of 8 "ret ()" "\<lambda>_. ret ()" 0] this(3)
  obtain u where "sys MLFQ 1 u (MLFQrun q i)" "length (ptable u) = length (ptable s)"
    "\<forall>k < length (ptable u). p_state (ptable s ! k) = RUNNING \<longrightarrow> p_rtime (ptable u ! k) = p_rtime (ptable s ! k) + 1"
    "\<exists>b v. s_trap MLFQ 0 (ret ()) (\<lambda>_. ret ()) 0 T_IRQ0 8 ?f = Ok (Yields b, ?f\<lparr>sc := v\<rparr>) \<and> gives_up u v \<and> p_state (ptable v ! i) = RUNNABLE"
    by (auto simp: Let_def)
  then show ?thesis using s r unfolding Let_def by (intro exI [of _ s] exI [of _ q] exI [of _ i] exI [of _ u]) simp
qed

section \<open>The table of processes\<close>

lemma kwritable_present: "kwritable m pd va \<Longrightarrow> present (pte_val m pd va) \<and> kaddr m pd va = tab (pte_val m pd va) + (va AND 0xFFF)"
  by (simp add: kwritable_def kaddr_def Let_def pte_val_def pte_loc_def pde_at_def present_def tab_def)

text \<open>Writing to a page that is not one of the page tables leaves the page table as it is.\<close>

lemma kput_bytes_keeps:
  assumes "kput_bytes pd va bs m = Some m'" "page_aligned pd" "\<And>k. k < length bs \<Longrightarrow> PGROUNDDOWN (va + of_nat k) = PGROUNDDOWN g"
    and "tab (pte_val m pd g) \<notin> pt_pages m pd"
  shows "pte_val m' pd w = pte_val m pd w"
  using assms
proof (induction bs arbitrary: va m)
  case (Cons b bs)
  then have w: "kwritable m pd va" and r: "kput_bytes pd (va + 1) bs (m(kaddr m pd va := b)) = Some m'" by (auto split: if_splits)
  let ?f = "tab (pte_val m pd g)" and ?m = "m(kaddr m pd va := b)"
  have "pte_val m pd va = pte_val m pd g" using Cons.prems(3) [of 0] by (intro pte_val_same_page) simp
  then have "PGROUNDDOWN (kaddr m pd va) = ?f" using kwritable_present [OF w] by (simp add: user_byte_page)
  then have ag: "agree_on (- {?f}) m ?m" by (auto simp: agree_on_def)
  have v: "pte_val ?m pd u = pte_val m pd u" for u using pte_val_agree [OF ag _ Cons.prems(2)] Cons.prems(4) by blast
  have "pd \<in> - {?f}" using Cons.prems(4) pt_pages_pd [of pd m] by (metis ComplI singletonD)
  then have p: "pt_pages ?m pd = pt_pages m pd" by (rule pt_pages_agree [OF ag _ Cons.prems(2)])
  have n: "tab (pte_val ?m pd g) \<notin> pt_pages ?m pd" unfolding v p by (rule Cons.prems(4))
  have "PGROUNDDOWN (va + 1 + of_nat k) = PGROUNDDOWN g" if "k < length bs" for k using Cons.prems(3) [of "Suc k"] that by (simp add: add.assoc)
  from Cons.IH [OF r Cons.prems(2) this n] show ?case unfolding v .
qed simp

lemma kput_unmapped: "\<not> present (pte_val (smem (km s)) (p_pgdir (ptable s ! i)) va) \<Longrightarrow> kput i va v s = Panic ''trap''"
  using kwritable_present [of "smem (km s)" "p_pgdir (ptable s ! i)" va] by (auto simp: kput_def)

lemma last_word_page:
  assumes "page_aligned sz" "sz \<noteq> 0" "k < 4"
  shows "PGROUNDDOWN (sz - 4 + of_nat k) = PGROUNDDOWN (sz - 4)"
proof -
  obtain q where q: "unat sz = 4096 * q" using assms(1) by (auto simp: page_aligned_unat mod_eq_0_iff_dvd elim!: dvdE)
  then have "0 < q" using assms(2) by (auto simp: unat_eq_0 [symmetric] intro!: gr0I)
  then obtain r where r: "q = Suc r" by (cases q) auto
  have "unat (sz - 4) = 4096 * q - 4" using q r by (simp add: unat_sub word_le_nat_alt)
  then have u: "unat (sz - 4) = 4096 * r + 4092" using r by simp
  moreover have "unat (sz - 4 + of_nat k) = 4096 * r + 4092 + k"
    using u q r assms(3) unat32_less [of sz] by (simp add: unat_word_ariths unat_of_nat)
  ultimately show ?thesis using assms(3) by (simp add: same_page_div)
qed

text \<open>
  C24: \<open>getprocstable\<close> checks only the size of a pointer (sysproc.c:121).  \<open>argptr\<close> accepts the last four bytes of the memory of
  the caller as the place of the table; the call writes the pid of the first process there, and the next field, in a page that the process does
  not have, is a page fault in the kernel, which panics.
\<close>

theorem getprocstable_overrun_panics:
  fixes u :: "'x ust_scheme"
  assumes "quiet s" "cproc s = Some i" "i < length (ptable s)" "p_state (ptable s ! i) \<noteq> UNUSED"
    and "page_aligned sz" "sz \<noteq> 0" "page_aligned (p_pgdir (ptable s ! i))"
    and pg: "tab (pte_val (smem (km s)) (p_pgdir (ptable s ! i)) (sz - 4)) \<notin> pt_pages (smem (km s)) (p_pgdir (ptable s ! i))"
      "\<not> present (pte_val (smem (km s)) (p_pgdir (ptable s ! i)) sz)"
    and "argint 0 u = Some (sz - 4)" "psz u = sz"
  shows "argptr 0 4 u = Some (sz - 4) \<and> s_sys_getprocstable (argptr 0 4 u) s = Panic ''trap''"
proof
  have "sz - 4 < sz"
  proof -
    obtain q where q: "unat sz = 4096 * q" using assms(5) by (auto simp: page_aligned_unat mod_eq_0_iff_dvd elim!: dvdE)
    then have "4 \<le> unat sz" using assms(6) by (cases q) (auto simp: unat_eq_0 [symmetric])
    then show ?thesis by (simp add: word_less_nat_alt unat_sub word_le_nat_alt)
  qed
  then show a: "argptr 0 4 u = Some (sz - 4)" using assms(10,11) by (simp add: argptr_def not_le)
  let ?s = "lock_in PTABLE s" and ?pd = "p_pgdir (ptable s ! i)"
  have l: "acquirep PTABLE s = Ok ((), ?s)" using acquirep_hold [OF assms(1)] by simp
  obtain p ps where rows: "filter (\<lambda>p. p_state p \<noteq> UNUSED) (ptable s) = p # ps"
    using assms(3,4) by (cases "filter (\<lambda>p. p_state p \<noteq> UNUSED) (ptable s)") (auto simp: filter_empty_conv)
  have k: "kput i (sz - 4) v ?s = Panic ''trap'' \<or> (\<exists>t. kput i (sz - 4) v ?s = Ok ((), t) \<and> kput i sz v' t = Panic ''trap'')" for v v'
  proof (cases "kput i (sz - 4) v ?s")
    case (Ok r)
    then obtain m where m: "kput_bytes ?pd (sz - 4) [ucast v, ucast (drop_bit 8 v), ucast (drop_bit 16 v), ucast (drop_bit 24 v)] (smem (km s)) = Some m"
      "r = ((), set_smem (\<lambda>_. m) ?s)" by (auto simp: kput_def lock_in_def simp del: kput_bytes.simps split: option.splits)
    have "pte_val m ?pd sz = pte_val (smem (km s)) ?pd sz"
      by (rule kput_bytes_keeps [OF m(1) assms(7) _ pg(1)], rule last_word_page [OF assms(5,6)]) simp
    then have "kput i sz v' (set_smem (\<lambda>_. m) ?s) = Panic ''trap''"
      using pg(2) by (intro kput_unmapped) (simp add: set_smem_def lock_in_def)
    then show ?thesis using Ok m(2) by blast
  qed (auto simp: kput_def simp del: kput_bytes.simps split: option.splits)
  have "put_words i (sz - 4) (row_words (info (ticks s) p)) ?s = Panic ''trap''"
    using k [of "i_pid (info (ticks s) p)" "state_num (i_state (info (ticks s) p))"] by (auto simp: row_words_def kern_simps)
  then show "s_sys_getprocstable (argptr 0 4 u) s = Panic ''trap''"
    using a l rows assms(2) by (simp add: s_sys_getprocstable_def s_getprocstable_def myproc_def kern_simps)
qed

lemma ex_unmapped: "pte_val (mem (exst 0)) exPD 4096 = 0"
proof -
  have "word_aligned (exPT + 4)" using slot_word_aligned [of exPT 1] by simp
  then have "load32 exmem0 (exPT + 4) = 0" by (simp add: exmem0_word) (simp add: ex_addrs)
  then show ?thesis using ex_present by (simp add: exst_def exfree_def pte_val_def pte_loc_def PDX_def PTX_def ex_pde layout_defs)
qed

theorem getprocstable_overrun_panics_witness:
  "let p = (ex_proc 1 60)\<lparr>p_state := RUNNING, p_pgdir := exPD, p_sz := 4096\<rparr>;
       s = ex_sst\<lparr>ptable := [p], cproc := Some 0, km := (km ex_sst)\<lparr>smem := mem (exst 0)\<rparr>\<rparr>;
       u = (undefined :: ust)\<lparr>umem := store32 (\<lambda>_. 0) 4 4092, psz := 4096, uesp := 0\<rparr> in
   argptr 0 4 u = Some 4092 \<and> s_sys_getprocstable (argptr 0 4 u) s = Panic ''trap''"
proof -
  let ?p = "(ex_proc 1 60)\<lparr>p_state := RUNNING, p_pgdir := exPD, p_sz := 4096\<rparr>"
  let ?s = "ex_sst\<lparr>ptable := [?p], cproc := Some 0, km := (km ex_sst)\<lparr>smem := mem (exst 0)\<rparr>\<rparr>"
  let ?u = "(undefined :: ust)\<lparr>umem := store32 (\<lambda>_. 0) 4 4092, psz := 4096, uesp := 0\<rparr>"
  have us: "user_space (exst 0) exPD 4096" by (rule exst_user) simp
  have "argptr 0 4 ?u = Some (4096 - 4) \<and> s_sys_getprocstable (argptr 0 4 ?u) ?s = Panic ''trap''"
  proof (rule getprocstable_overrun_panics)
    show "quiet ?s" using ex_sst_boot by (simp add: boot_state_def holdset_def)
    show "argint 0 ?u = Some (4096 - 4)" by (simp add: argint_def fetchint_def)
    show "page_aligned (4096 :: u32)" by (simp add: page_aligned_unat)
    show "tab (pte_val (smem (km ?s)) (p_pgdir (ptable ?s ! 0)) (4096 - 4)) \<notin> pt_pages (smem (km ?s)) (p_pgdir (ptable ?s ! 0))"
      using user_space_page(3) [OF us, of 4092] by simp
    show "\<not> present (pte_val (smem (km ?s)) (p_pgdir (ptable ?s ! 0)) 4096)" by (simp add: ex_unmapped)
  qed simp_all
  moreover have "(4096 - 4 :: u32) = 4092" by simp
  ultimately show ?thesis unfolding Let_def by metis
qed

end
