(* ===== verification/Ide.thy ===== *)
theory Ide
  imports Bio Proc
begin

unbundle bit_operations_syntax

text \<open>
  The driver of the IDE disk (\<open>ide.c\<close>): the queue of requests through the \<open>qnext\<close> fields of the buffers, the commands to the ports of the
  controller, the interrupt handler, and the processes that sleep until their request is done.  The controller is a parameter:
  \<open>a_status\<close> are the successive answers of its status port, \<open>a_data\<close> what it delivers on the data port after a history of port writes, and
  \<open>a_second\<close> the answers of the status port when the second disk is selected.
\<close>

section \<open>Ports\<close>

datatype port_op = Outb u16 u8 | Outsl bytes | Insl

record ata =
  a_status :: "nat \<Rightarrow> u8"
  a_data :: "port_op list \<Rightarrow> bytes"
  a_second :: "nat \<Rightarrow> u8"

record idest = "proc pst" +
  ide_bufs :: "nat \<Rightarrow> buf"
  qnext :: "nat \<Rightarrow> nat option"
  idequeue :: "nat option"
  havedisk1 :: bool
  ports :: "port_op list"   \<comment> \<open>all writes to the ports, in order\<close>
  polls :: nat              \<comment> \<open>how often the status port has been read\<close>

type_synonym 'r ikern = "(idest, 'r) kern"

definition upd_ide_buf :: "nat \<Rightarrow> (buf \<Rightarrow> buf) \<Rightarrow> idest \<Rightarrow> idest" where
  "upd_ide_buf b f s = s\<lparr>ide_bufs := (ide_bufs s)(b := f (ide_bufs s b))\<rparr>"

definition port :: "port_op \<Rightarrow> unit ikern" where
  "port p = modk (\<lambda>s. s\<lparr>ports := ports s @ [p]\<rparr>)"

definition SECTOR_SIZE :: nat where "SECTOR_SIZE = 512"
definition IDE_BSY :: u8 where "IDE_BSY = 0x80"
definition IDE_DRDY :: u8 where "IDE_DRDY = 0x40"
definition IDE_DF :: u8 where "IDE_DF = 0x20"
definition IDE_ERR :: u8 where "IDE_ERR = 0x01"
definition IDE_CMD_READ :: u8 where "IDE_CMD_READ = 0x20"
definition IDE_CMD_WRITE :: u8 where "IDE_CMD_WRITE = 0x30"
definition IDE_CMD_RDMUL :: u8 where "IDE_CMD_RDMUL = 0xc4"
definition IDE_CMD_WRMUL :: u8 where "IDE_CMD_WRMUL = 0xc5"
definition FSSIZE :: u32 where "FSSIZE = 1000"

section \<open>The controller\<close>

text \<open>The busy loop of \<open>idewait\<close>: the first ready status from reading number \<open>n\<close> on, and the number of readings.\<close>

partial_function (option) idewait_loop :: "(nat \<Rightarrow> u8) \<Rightarrow> nat \<Rightarrow> (u8 \<times> nat) option" where
  "idewait_loop st n = (if st n AND (IDE_BSY OR IDE_DRDY) = IDE_DRDY then Some (st n, Suc n) else idewait_loop st (Suc n))"

definition idewait :: "ata \<Rightarrow> bool \<Rightarrow> int ikern" where
  "idewait d checkerr = (\<lambda>s. case idewait_loop (a_status d) (polls s) of
     None \<Rightarrow> Diverges
   | Some (r, n) \<Rightarrow> Ok (if checkerr \<and> r AND (IDE_DF OR IDE_ERR) \<noteq> 0 then -1 else 0, s\<lparr>polls := n\<rparr>))"

text \<open>Whether a second disk is there: up to 1000 readings of its status.\<close>

definition ideinit :: "ata \<Rightarrow> unit ikern" where
  "ideinit d = seqk (zoomk lk (\<lambda>k s. s\<lparr>lk := k\<rparr>) (initlock IDELOCK))
     (bindk (idewait d False) (\<lambda>_.
        seqk (port (Outb 0x1f6 (0xe0 OR push_bit 4 1)))
          (seqk (whenk (\<exists>i \<in> {..< 1000}. a_second d i \<noteq> 0) (modk (\<lambda>s. s\<lparr>havedisk1 := True\<rparr>)))
             (port (Outb 0x1f6 (0xe0 OR push_bit 4 0))))))"

definition sector_per_block :: nat where "sector_per_block = 512 div SECTOR_SIZE"

definition idestart :: "ata \<Rightarrow> nat option \<Rightarrow> unit ikern" where
  "idestart d q = (case q of
     None \<Rightarrow> panic ''idestart''
   | Some b \<Rightarrow> (\<lambda>s.
       let x = ide_bufs s b;
           sector = b_blockno x * of_nat sector_per_block;
           read_cmd = (if sector_per_block = 1 then IDE_CMD_READ else IDE_CMD_RDMUL);
           write_cmd = (if sector_per_block = 1 then IDE_CMD_WRITE else IDE_CMD_WRMUL) in
       if FSSIZE \<le> b_blockno x then Panic ''incorrect blockno''
       else if 7 < sector_per_block then Panic ''idestart''
       else bindk (idewait d False) (\<lambda>_.
         seqk (port (Outb 0x3f6 0))
           (seqk (port (Outb 0x1f2 (of_nat sector_per_block)))
             (seqk (port (Outb 0x1f3 (ucast (sector AND 0xff))))
               (seqk (port (Outb 0x1f4 (ucast (drop_bit 8 sector AND 0xff))))
                 (seqk (port (Outb 0x1f5 (ucast (drop_bit 16 sector AND 0xff))))
                   (seqk (port (Outb 0x1f6 (ucast (0xe0 OR push_bit 4 (b_dev x AND 1) OR (drop_bit 24 sector AND 0x0f)))))
                     (if b_dirty x then seqk (port (Outb 0x1f7 write_cmd)) (port (Outsl (b_data x)))
                      else port (Outb 0x1f7 read_cmd)))))))) s))"

section \<open>The interrupt handler\<close>

definition ide_read :: "ata \<Rightarrow> nat \<Rightarrow> unit ikern" where
  "ide_read d b = (\<lambda>s. if b_dirty (ide_bufs s b) then Ok ((), s)
     else bindk (idewait d True) (\<lambda>r.
       whenk (0 \<le> r) (seqk (modk (\<lambda>s. upd_ide_buf b (\<lambda>x. x\<lparr>b_data := a_data d (ports s)\<rparr>) s)) (port Insl))) s)"

definition ideintr :: "ata \<Rightarrow> unit ikern" where
  "ideintr d = seqk (acquirep IDELOCK) (\<lambda>s. case idequeue s of
     None \<Rightarrow> releasep IDELOCK s
   | Some b \<Rightarrow>
       seqk (modk (\<lambda>s. s\<lparr>idequeue := qnext s b\<rparr>))
         (seqk (ide_read d b)
           (seqk (modk (upd_ide_buf b (\<lambda>x. x\<lparr>b_valid := True, b_dirty := False\<rparr>)))
             (seqk (wakeup (ChanBuf b))
               (seqk (\<lambda>s. whenk (idequeue s \<noteq> None) (idestart d (idequeue s)) s)
                 (releasep IDELOCK))))) s)"

section \<open>Requests\<close>

text \<open>
  The loop that looks for the end of the queue with a pointer to a pointer: \<open>None\<close> is \<open>&idequeue\<close>, \<open>Some c\<close> is \<open>&c->qnext\<close>.
\<close>

definition deref :: "nat option \<Rightarrow> idest \<Rightarrow> nat option" where
  "deref pp s = (case pp of None \<Rightarrow> idequeue s | Some c \<Rightarrow> qnext s c)"

definition assign :: "nat option \<Rightarrow> nat \<Rightarrow> idest \<Rightarrow> idest" where
  "assign pp b s = (case pp of None \<Rightarrow> s\<lparr>idequeue := Some b\<rparr> | Some c \<Rightarrow> s\<lparr>qnext := (qnext s)(c := Some b)\<rparr>)"

partial_function (option) find_end :: "idest \<Rightarrow> nat option \<Rightarrow> nat option option" where
  "find_end s pp = (case deref pp s of None \<Rightarrow> Some pp | Some c \<Rightarrow> find_end s (Some c))"

definition ide_append :: "nat \<Rightarrow> unit ikern" where
  "ide_append b = seqk (modk (\<lambda>s. s\<lparr>qnext := (qnext s)(b := None)\<rparr>))
     (\<lambda>s. case find_end s None of None \<Rightarrow> Diverges | Some pp \<Rightarrow> Ok ((), assign pp b s))"

text \<open>
  \<open>iderw\<close> up to its return (\<open>None\<close>) or the next switch to the scheduler (\<open>Some\<close> the saved interrupt flag), and from there on.
\<close>

definition ide_wait :: "nat \<Rightarrow> bool option ikern" where
  "ide_wait b = (\<lambda>s. if b_valid (ide_bufs s b) \<and> \<not> b_dirty (ide_bufs s b) then seqk (releasep IDELOCK) (ret None) s
     else bindk (sleep_enter (ChanBuf b) IDELOCK) (\<lambda>i. ret (Some i)) s)"

definition ide_rw :: "ata \<Rightarrow> nat \<Rightarrow> bool option ikern" where
  "ide_rw d b = bindk myproc (\<lambda>i s. let x = ide_bufs s b in
     if \<not> holdingsleep (p_pid (ptable s ! i)) (b_lock x) then Panic ''iderw: buf not locked''
     else if b_valid x \<and> \<not> b_dirty x then Panic ''iderw: nothing to do''
     else if b_dev x \<noteq> 0 \<and> \<not> havedisk1 s then Panic ''iderw: ide disk 1 not present''
     else seqk (acquirep IDELOCK)
       (seqk (ide_append b)
         (seqk (\<lambda>s. whenk (idequeue s = Some b) (idestart d (Some b)) s) (ide_wait b))) s)"

definition ide_rw_again :: "nat \<Rightarrow> bool \<Rightarrow> bool option ikern" where
  "ide_rw_again b i = seqk (sleep_exit i IDELOCK) (ide_wait b)"

end
