(* ===== verification/Ide_Props.thy ===== *)
theory Ide_Props
  imports Ide
begin

unbundle bit_operations_syntax

text \<open>
  The disk driver with its queue implements the disk in memory (\<open>memide.c\<close>, theory \<open>Bio\<close>) on which the buffer cache and the file system
  are verified: requests are served in the order in which they were made, each interrupt has the effect of \<open>memide.c\<close>'s \<open>iderw\<close> on the buffer and
  the disk, and wakes the process that waits.  An error of the disk, in contrast, is not reported.
\<close>

section \<open>The documented behaviour of the disk\<close>

text \<open>The registers of the controller, the command it carries out (0 when there is none: the transfer of a sector ends a command), and the sectors of its two disks.\<close>

record drive =
  d_low :: u8
  d_mid :: u8
  d_high :: u8
  d_select :: u8
  d_cmd :: u8
  d_disk :: "bool \<Rightarrow> nat \<Rightarrow> bytes"

definition d_second :: "drive \<Rightarrow> bool" where
  "d_second r = bit (d_select r) 4"

definition d_lba :: "drive \<Rightarrow> nat" where
  "d_lba r = unat (d_low r) + 256 * unat (d_mid r) + 65536 * unat (d_high r) + 16777216 * unat (d_select r AND 0x0f)"

fun drive_op :: "port_op \<Rightarrow> drive \<Rightarrow> drive" where
  "drive_op (Outb p v) r =
     (if p = 0x1f3 then r\<lparr>d_low := v\<rparr> else if p = 0x1f4 then r\<lparr>d_mid := v\<rparr> else if p = 0x1f5 then r\<lparr>d_high := v\<rparr>
      else if p = 0x1f6 then r\<lparr>d_select := v\<rparr> else if p = 0x1f7 then r\<lparr>d_cmd := v\<rparr> else r)"
| "drive_op (Outsl bs) r =
     (if d_cmd r = IDE_CMD_WRITE then r\<lparr>d_disk := (d_disk r)(d_second r := (d_disk r (d_second r))(d_lba r := bs)), d_cmd := 0\<rparr> else r)"
| "drive_op Insl r = r\<lparr>d_cmd := 0\<rparr>"

definition replay :: "drive \<Rightarrow> port_op list \<Rightarrow> drive" where
  "replay r0 ops = fold drive_op ops r0"

lemma replay_append [simp]: "replay r0 (xs @ ys) = replay (replay r0 xs) ys"
  by (simp add: replay_def)

abbreviation ready_status :: "u8 \<Rightarrow> bool" where
  "ready_status r \<equiv> r AND (IDE_BSY OR IDE_DRDY) = IDE_DRDY"

text \<open>The disk becomes ready after every command, without an error, and delivers the sector that a read command names.\<close>

definition ata_ready :: "ata \<Rightarrow> bool" where
  "ata_ready d \<longleftrightarrow> (\<forall>n. \<exists>m \<ge> n. ready_status (a_status d m))"

definition ata_ok :: "ata \<Rightarrow> drive \<Rightarrow> bool" where
  "ata_ok d r0 \<longleftrightarrow> ata_ready d \<and> (\<forall>n. a_status d n AND (IDE_DF OR IDE_ERR) = 0) \<and>
     (\<forall>ops. d_cmd (replay r0 ops) = IDE_CMD_READ \<longrightarrow> a_data d ops = d_disk (replay r0 ops) (d_second (replay r0 ops)) (d_lba (replay r0 ops)))"

section \<open>Waiting and starting\<close>

lemma idewait_loop_ok: "n \<le> m \<Longrightarrow> ready_status (st m) \<Longrightarrow> \<exists>k. idewait_loop st n = Some (st k, Suc k) \<and> n \<le> k"
proof (induction "m - n" arbitrary: n)
  case (Suc x)
  show ?case
  proof (cases "ready_status (st n)")
    case False
    then have "idewait_loop st n = idewait_loop st (Suc n)" by (subst idewait_loop.simps) simp
    moreover have "\<exists>k. idewait_loop st (Suc n) = Some (st k, Suc k) \<and> Suc n \<le> k" using Suc by (intro Suc.hyps(1)) auto
    ultimately show ?thesis by auto
  qed (subst idewait_loop.simps, auto)
qed (subst idewait_loop.simps, auto)

lemma idewait_ok:
  assumes "ata_ready d"
  shows "\<exists>k. idewait d c s = Ok (if c \<and> a_status d k AND (IDE_DF OR IDE_ERR) \<noteq> 0 then -1 else 0, s\<lparr>polls := Suc k\<rparr>)"
proof -
  obtain m where "polls s \<le> m" "ready_status (a_status d m)" using assms unfolding ata_ready_def by blast
  then obtain k where "idewait_loop (a_status d) (polls s) = Some (a_status d k, Suc k)" using idewait_loop_ok by blast
  then show ?thesis by (auto simp: idewait_def)
qed

definition commands :: "buf \<Rightarrow> port_op list" where
  "commands x = (let sector = b_blockno x in
     [Outb 0x3f6 0, Outb 0x1f2 1, Outb 0x1f3 (ucast (sector AND 0xff)), Outb 0x1f4 (ucast (drop_bit 8 sector AND 0xff)),
      Outb 0x1f5 (ucast (drop_bit 16 sector AND 0xff)),
      Outb 0x1f6 (ucast (0xe0 OR push_bit 4 (b_dev x AND 1) OR (drop_bit 24 sector AND 0x0f)))] @
     (if b_dirty x then [Outb 0x1f7 IDE_CMD_WRITE, Outsl (b_data x)] else [Outb 0x1f7 IDE_CMD_READ]))"

lemma six_ports:
  "seqk (port a) (seqk (port b) (seqk (port c) (seqk (port e) (seqk (port f) (seqk (port g) m))))) s = m (s\<lparr>ports := ports s @ [a, b, c, e, f, g]\<rparr>)"
  by (simp add: port_def kern_simps)

lemma last_ports:
  "seqk (port a) (port b) s = Ok ((), s\<lparr>ports := ports s @ [a, b]\<rparr>)" "port a s = Ok ((), s\<lparr>ports := ports s @ [a]\<rparr>)"
  by (simp_all add: port_def kern_simps)

lemma idestart_ok:
  assumes "ata_ready d" "b_blockno (ide_bufs s b) < FSSIZE"
  shows "\<exists>n. idestart d (Some b) s = Ok ((), s\<lparr>polls := n, ports := ports s @ commands (ide_bufs s b)\<rparr>)"
proof -
  have one: "sector_per_block = 1" by (simp add: sector_per_block_def SECTOR_SIZE_def)
  obtain k where k: "idewait d False s = Ok (0, s\<lparr>polls := Suc k\<rparr>)" using idewait_ok [OF assms(1), of False s] by auto
  have "idestart d (Some b) s = Ok ((), s\<lparr>polls := Suc k, ports := ports s @ commands (ide_bufs s b)\<rparr>)"
    using assms(2) k by (cases "b_dirty (ide_bufs s b)")
      (simp_all only: idestart_def one Let_def commands_def option.case bindk_Ok not_le [symmetric] if_True if_False simp_thms six_ports last_ports of_nat_1 mult_1_right,
       simp_all)
  then show ?thesis by blast
qed

lemma unat_low_byte: "unat (ucast (w AND 0xff :: u32) :: u8) = unat w mod 256"
proof -
  have m: "w AND 0xff = take_bit 8 w" by (simp add: take_bit_eq_mask mask_eq_exp_minus_1)
  have "unat (w AND 0xff) = unat w mod 256" unfolding m unsigned_take_bit_eq by (simp add: take_bit_eq_mod)
  then show ?thesis by (simp only: unsigned_ucast_eq take_bit_eq_mod) simp
qed

lemma small_sector:
  assumes "w < FSSIZE"
  shows "unat w < 1000" "drop_bit 16 w = 0" "drop_bit 24 w = 0" "unat (drop_bit 8 w) = unat w div 256"
proof -
  show u: "unat w < 1000" using assms by (simp add: FSSIZE_def word_less_nat_alt)
  show "unat (drop_bit 8 w) = unat w div 256" by (simp add: drop_bit_eq_div unat_div)
  have "unat (drop_bit 16 w) = 0" "unat (drop_bit 24 w) = 0" using u by (simp_all add: drop_bit_eq_div unat_div)
  then show "drop_bit 16 w = 0" "drop_bit 24 w = 0" by (simp_all add: unat_eq_0)
qed

lemma replay_commands:
  assumes "b_blockno x < FSSIZE" "b_dev x = 1"
  shows "d_lba (replay r (commands x)) = unat (b_blockno x)" "d_second (replay r (commands x))"
    "d_cmd (replay r (commands x)) = (if b_dirty x then 0 else IDE_CMD_READ)"
    "d_disk (replay r (commands x)) True =
       (if b_dirty x then (d_disk r True)(unat (b_blockno x) := b_data x) else d_disk r True)"
proof -
  let ?w = "b_blockno x"
  note sm = small_sector [OF assms(1)]
  have sel: "(ucast (0xe0 OR push_bit 4 (b_dev x AND 1) OR (drop_bit 24 ?w AND 0x0f)) :: u8) = 0xf0"
    using assms(2) sm(3) by simp
  have lba: "unat (ucast (?w AND 0xff) :: u8) + 256 * unat (ucast (drop_bit 8 ?w AND 0xff) :: u8) = unat ?w"
    using sm(1) by (simp add: unat_low_byte sm(4))
  have "bit (0xf0 :: u8) 4" by simp
  then show "d_lba (replay r (commands x)) = unat ?w" "d_second (replay r (commands x))"
    "d_cmd (replay r (commands x)) = (if b_dirty x then 0 else IDE_CMD_READ)"
    "d_disk (replay r (commands x)) True = (if b_dirty x then (d_disk r True)(unat ?w := b_data x) else d_disk r True)"
    using lba sm(2) unfolding commands_def Let_def sel by (simp_all add: replay_def d_lba_def d_second_def)
qed

section \<open>The queue\<close>

fun qchain :: "(nat \<Rightarrow> nat option) \<Rightarrow> nat option \<Rightarrow> nat list \<Rightarrow> bool" where
  "qchain nx p [] \<longleftrightarrow> p = None"
| "qchain nx p (b # bs) \<longleftrightarrow> p = Some b \<and> qchain nx (nx b) bs"

lemma qchain_cong: "(\<And>b. b \<in> set qs \<Longrightarrow> nx b = ny b) \<Longrightarrow> qchain nx p qs = qchain ny p qs"
  by (induction qs arbitrary: p) auto

lemma find_end_chain:
  "qchain (qnext s) (deref pp s) qs \<Longrightarrow> find_end s pp = Some (if qs = [] then pp else Some (last qs))"
proof (induction qs arbitrary: pp)
  case (Cons b bs)
  then have "qchain (qnext s) (deref (Some b) s) bs" by (simp add: deref_def)
  from Cons.IH [OF this] Cons.prems show ?case by (subst find_end.simps) simp
qed (subst find_end.simps, simp)

lemma qchain_snoc: "qchain nx p qs \<Longrightarrow> distinct qs \<Longrightarrow> qs \<noteq> [] \<Longrightarrow> b \<notin> set qs \<Longrightarrow> nx b = None \<Longrightarrow> qchain (nx(last qs := Some b)) p (qs @ [b])"
proof (induction qs arbitrary: p)
  case (Cons c bs)
  show ?case
  proof (cases "bs = []")
    case False
    have "qchain (nx(last bs := Some b)) (nx c) (bs @ [b])" by (rule Cons.IH) (use Cons.prems False in auto)
    moreover have "c \<noteq> last bs" using Cons.prems(2) False by auto
    ultimately show ?thesis using Cons.prems(1) False by (simp add: fun_upd_def)
  qed (use Cons.prems in auto)
qed simp

lemma ide_append_ok:
  assumes "qchain (qnext s) (idequeue s) qs" "distinct qs" "b \<notin> set qs"
  shows "\<exists>nx p. ide_append b s = Ok ((), s\<lparr>qnext := nx, idequeue := p\<rparr>) \<and> qchain nx p (qs @ [b])"
proof -
  let ?s = "s\<lparr>qnext := (qnext s)(b := None)\<rparr>"
  have c: "qchain (qnext ?s) (idequeue s) qs" by (rule iffD1 [OF qchain_cong assms(1)]) (use assms(3) in auto)
  have f: "find_end ?s None = Some (if qs = [] then None else Some (last qs))"
    by (rule find_end_chain) (use c in \<open>simp add: deref_def\<close>)
  show ?thesis
  proof (cases "qs = []")
    case True
    then show ?thesis using f by (auto simp: ide_append_def kern_simps assign_def intro!: exI [of _ "qnext ?s"])
  next
    case False
    then have "qchain ((qnext ?s)(last qs := Some b)) (idequeue s) (qs @ [b])" using qchain_snoc [OF c assms(2) False assms(3)] by simp
    then show ?thesis using f False by (auto simp: ide_append_def kern_simps assign_def intro!: exI [of _ "(qnext ?s)(last qs := Some b)"] exI [of _ "idequeue s"])
  qed
qed

section \<open>The driver implements the disk in memory\<close>

text \<open>
  \<open>u\<close> is the state of the disk in memory, \<open>qs\<close> the requests that are not done.  The transfer of the first one has been started; when it is a write, the
  disk has its bytes already.
\<close>

definition request_ok :: "bst \<Rightarrow> nat \<Rightarrow> bool" where
  "request_ok u b \<longleftrightarrow> sl_locked (b_lock (bufs u b)) \<and> \<not> (b_valid (bufs u b) \<and> \<not> b_dirty (bufs u b)) \<and> b_dev (bufs u b) = 1 \<and>
     b_blockno (bufs u b) < FSSIZE \<and> unat (b_blockno (bufs u b)) < disksize u"

definition in_flight :: "buf \<Rightarrow> drive \<Rightarrow> (nat \<Rightarrow> bytes) \<Rightarrow> bool" where
  "in_flight x r A \<longleftrightarrow> d_second r \<and> d_lba r = unat (b_blockno x) \<and> d_cmd r = (if b_dirty x then 0 else IDE_CMD_READ) \<and>
     d_disk r True = (if b_dirty x then A(unat (b_blockno x) := b_data x) else A)"

definition ide_rel :: "drive \<Rightarrow> idest \<Rightarrow> bst \<Rightarrow> nat list \<Rightarrow> bool" where
  "ide_rel r0 s u qs \<longleftrightarrow> qchain (qnext s) (idequeue s) qs \<and> distinct qs \<and> bufs u = ide_bufs s \<and> havedisk1 s \<and> (\<forall>b \<in> set qs. request_ok u b) \<and>
     (case qs of [] \<Rightarrow> d_disk (replay r0 (ports s)) True = disk u
      | b # _ \<Rightarrow> in_flight (bufs u b) (replay r0 (ports s)) (disk u))"

text \<open>What \<open>memide.c\<close> does for the owner of the buffer.\<close>

definition serve :: "nat \<Rightarrow> bst \<Rightarrow> bst" where
  "serve b u = (case iderw b (u\<lparr>curpid := sl_pid (b_lock (bufs u b))\<rparr>) of Ok (_, v) \<Rightarrow> v | _ \<Rightarrow> u)"

lemma serve_ok:
  assumes "request_ok u b"
  shows "iderw b (u\<lparr>curpid := sl_pid (b_lock (bufs u b))\<rparr>) = Ok ((), serve b u)"
    and "bufs (serve b u) = (bufs u)(b := (bufs u b)\<lparr>b_valid := True, b_dirty := False,
      b_data := (if b_dirty (bufs u b) then b_data (bufs u b) else disk u (unat (b_blockno (bufs u b))))\<rparr>)"
    and "disk (serve b u) = (if b_dirty (bufs u b) then (disk u)(unat (b_blockno (bufs u b)) := b_data (bufs u b)) else disk u)"
    and "disksize (serve b u) = disksize u"
  using assms by (auto simp: request_ok_def iderw_def serve_def Let_def holdingsleep_def disk_write_def upd_buf_def not_le)

lemma ide_fields [simp]:
  "ide_bufs (lock_in l s) = ide_bufs s" "qnext (lock_in l s) = qnext s" "idequeue (lock_in l s) = idequeue s"
  "havedisk1 (lock_in l s) = havedisk1 s" "ports (lock_in l s) = ports s" "polls (lock_in l s) = polls s"
  "ide_bufs (lock_out l s) = ide_bufs s" "qnext (lock_out l s) = qnext s" "idequeue (lock_out l s) = idequeue s"
  "havedisk1 (lock_out l s) = havedisk1 s" "ports (lock_out l s) = ports s" "polls (lock_out l s) = polls s"
  by (simp_all add: lock_in_def lock_out_def)

lemma holdset_ide [simp]:
  "holdset (s\<lparr>ide_bufs := bs\<rparr>) = holdset s" "holdset (s\<lparr>qnext := nx\<rparr>) = holdset s" "holdset (s\<lparr>idequeue := p\<rparr>) = holdset s"
  "holdset (s\<lparr>ports := ps\<rparr>) = holdset s" "holdset (s\<lparr>polls := n\<rparr>) = holdset s" "holdset (upd_ide_buf b f s) = holdset s"
  by (simp_all add: fun_eq_iff holdset_def upd_ide_buf_def)

lemma ide_read_ok:
  assumes "ata_ok d r0" "in_flight (ide_bufs s b) (replay r0 (ports s)) A"
  shows "\<exists>n p. ide_read d b s = Ok ((), s\<lparr>ide_bufs := (ide_bufs s)(b := (ide_bufs s b)\<lparr>b_data :=
       (if b_dirty (ide_bufs s b) then b_data (ide_bufs s b) else A (unat (b_blockno (ide_bufs s b))))\<rparr>), polls := n, ports := ports s @ p\<rparr>) \<and>
     (\<exists>c. replay r0 (ports s @ p) = (replay r0 (ports s))\<lparr>d_cmd := c\<rparr>)"
proof (cases "b_dirty (ide_bufs s b)")
  case True
  then show ?thesis by (auto simp: ide_read_def replay_def intro!: exI [of _ "polls s"] exI [of _ "[]"] exI [of _ "d_cmd (replay r0 (ports s))"])
next
  case False
  obtain k where k: "idewait d True s = Ok (0, s\<lparr>polls := Suc k\<rparr>)"
    using idewait_ok [of d True s] assms(1) by (auto simp: ata_ok_def)
  have "a_data d (ports s) = A (unat (b_blockno (ide_bufs s b)))" using assms False by (simp add: ata_ok_def in_flight_def)
  then have "ide_read d b s = Ok ((), s\<lparr>ide_bufs := (ide_bufs s)(b := (ide_bufs s b)\<lparr>b_data :=
       (if b_dirty (ide_bufs s b) then b_data (ide_bufs s b) else A (unat (b_blockno (ide_bufs s b))))\<rparr>), polls := Suc k, ports := ports s @ [Insl]\<rparr>)"
    using False k by (simp add: ide_read_def kern_simps port_def upd_ide_buf_def)
  moreover have "replay r0 (ports s @ [Insl]) = (replay r0 (ports s))\<lparr>d_cmd := 0\<rparr>" by (simp add: replay_def)
  ultimately show ?thesis by blast
qed

lemma ideintr_none: "quiet s \<Longrightarrow> idequeue s = None \<Longrightarrow> ideintr d s = Ok ((), lock_out IDELOCK (lock_in IDELOCK s))"
  using holdset_in [of s "{}" IDELOCK] by (simp add: ideintr_def kern_simps acquirep_hold releasep_hold)

text \<open>The last part of the handler: the next transfer is started.\<close>

lemma start_next_ok:
  assumes "ata_ready d" "holdset s {IDELOCK}" "idequeue s \<noteq> None \<Longrightarrow> b_blockno (ide_bufs s (the (idequeue s))) < FSSIZE"
  shows "\<exists>n. seqk (\<lambda>s. whenk (idequeue s \<noteq> None) (idestart d (idequeue s)) s) (releasep IDELOCK) s = Ok ((), lock_out IDELOCK
     (s\<lparr>polls := n, ports := ports s @ (case idequeue s of None \<Rightarrow> [] | Some c \<Rightarrow> commands (ide_bufs s c))\<rparr>))"
proof (cases "idequeue s")
  case None
  then show ?thesis using assms(2) by (auto simp: kern_simps releasep_hold intro!: exI [of _ "polls s"])
next
  case (Some c)
  obtain n where n: "idestart d (Some c) s = Ok ((), s\<lparr>polls := n, ports := ports s @ commands (ide_bufs s c)\<rparr>)"
    using idestart_ok [OF assms(1), of s c] assms(3) Some by auto
  then show ?thesis using Some assms(2) by (auto simp: kern_simps releasep_hold)
qed

lemma request_ok_serve: "request_ok u b \<Longrightarrow> request_ok u c \<Longrightarrow> c \<noteq> b \<Longrightarrow> request_ok (serve b u) c"
  by (simp add: request_ok_def serve_ok)

lemma ide_rel_next:
  assumes "ide_rel r0 s u (b # bs)" "bufs v = ide_bufs t" "v = serve b u" "qnext t = qnext s" "idequeue t = qnext s b" "havedisk1 t"
    and "replay r0 (ports t) = replay ((replay r0 (ports s))\<lparr>d_cmd := x\<rparr>) (case bs of [] \<Rightarrow> [] | c # _ \<Rightarrow> commands (ide_bufs t c))"
  shows "ide_rel r0 t v bs"
proof -
  have ok: "request_ok u b" "\<And>c. c \<in> set bs \<Longrightarrow> request_ok u c \<and> c \<noteq> b" using assms(1) by (auto simp: ide_rel_def)
  then have rest: "\<And>c. c \<in> set bs \<Longrightarrow> request_ok v c" using request_ok_serve assms(3) by blast
  have dk: "d_disk (replay r0 (ports s)) True = disk v"
    using assms(1) serve_ok [OF ok(1)] by (simp add: ide_rel_def in_flight_def assms(3))
  have "case bs of [] \<Rightarrow> d_disk (replay r0 (ports t)) True = disk v | c # _ \<Rightarrow> in_flight (bufs v c) (replay r0 (ports t)) (disk v)"
  proof (cases bs)
    case (Cons c cs)
    then have "b_blockno (ide_bufs t c) < FSSIZE" "b_dev (ide_bufs t c) = 1"
      using rest [of c] unfolding request_ok_def assms(2) by auto
    from replay_commands [OF this] show ?thesis using Cons dk assms(7) by (simp add: in_flight_def assms(2))
  qed (use dk assms(7) in \<open>simp add: replay_def\<close>)
  moreover have "qchain (qnext s) (qnext s b) bs" "distinct bs" using assms(1) by (auto simp: ide_rel_def)
  ultimately show ?thesis unfolding ide_rel_def assms(4,5) using assms(2,6) rest by blast
qed

lemma ideintr_steps:
  assumes "quiet s" "idequeue s = Some b" "ide_read d b ((lock_in IDELOCK s)\<lparr>idequeue := qnext s b\<rparr>) = Ok ((), s2)"
    and "wakeup (ChanBuf b) (upd_ide_buf b (\<lambda>x. x\<lparr>b_valid := True, b_dirty := False\<rparr>) s2) = Ok ((), s4)"
    and "seqk (\<lambda>s. whenk (idequeue s \<noteq> None) (idestart d (idequeue s)) s) (releasep IDELOCK) s4 = Ok ((), t)"
  shows "ideintr d s = Ok ((), t)"
  using assms by (simp add: ideintr_def kern_simps acquirep_hold)

lemma buf_done: "x\<lparr>b_data := y, b_valid := True, b_dirty := False\<rparr> = x\<lparr>b_valid := True, b_dirty := False, b_data := y\<rparr>"
  by (cases x) simp

lemma upd_ide_buf_done:
  "upd_ide_buf b (\<lambda>x. x\<lparr>b_valid := True, b_dirty := False\<rparr>) (s\<lparr>ide_bufs := (ide_bufs s)(b := (ide_bufs s b)\<lparr>b_data := y\<rparr>), polls := n, ports := ps\<rparr>) =
     s\<lparr>ide_bufs := (ide_bufs s)(b := (ide_bufs s b)\<lparr>b_valid := True, b_dirty := False, b_data := y\<rparr>), polls := n, ports := ps\<rparr>"
  by (cases s) (simp add: upd_ide_buf_def buf_done)

text \<open>The state after the wake-up.\<close>

lemma wakeup_in_handler:
  assumes "holdset s {IDELOCK}"
  shows "\<exists>t. wakeup ch s = Ok ((), t) \<and> holdset t {IDELOCK} \<and> ide_bufs t = ide_bufs s \<and> qnext t = qnext s \<and> idequeue t = idequeue s \<and>
     havedisk1 t = havedisk1 s \<and> ports t = ports s \<and> ptable t = map (wake ch) (ptable s) \<and> cproc t = cproc s"
proof -
  let ?u = "(lock_in PTABLE s)\<lparr>ptable := map (wake ch) (ptable s)\<rparr>"
  have "holdset ?u {PTABLE, IDELOCK}" using holdset_in [OF assms, of PTABLE] by simp
  from holdset_out [OF this, of PTABLE] have "holdset (lock_out PTABLE ?u) {IDELOCK}" by (simp add: insert_Diff_if)
  moreover have "wakeup ch s = Ok ((), lock_out PTABLE ?u)" by (rule wakeup_eq [OF assms]) simp
  ultimately show ?thesis by (intro exI [of _ "lock_out PTABLE ?u"]) simp
qed

lemma ideintr_serves:
  assumes "ata_ok d r0" "quiet s" "ide_rel r0 s u (b # bs)"
  shows "\<exists>t. ideintr d s = Ok ((), t) \<and> quiet t \<and> ide_rel r0 t (serve b u) bs \<and> ptable t = map (wake (ChanBuf b)) (ptable s) \<and> cproc t = cproc s"
proof -
  have q: "idequeue s = Some b" "qchain (qnext s) (qnext s b) bs" "havedisk1 s" "bufs u = ide_bufs s"
    and ok: "request_ok u b" "\<And>c. c \<in> set bs \<Longrightarrow> request_ok u c \<and> c \<noteq> b"
    and fl: "in_flight (ide_bufs s b) (replay r0 (ports s)) (disk u)"
    using assms(3) by (auto simp: ide_rel_def)
  define s1 where "s1 = (lock_in IDELOCK s)\<lparr>idequeue := qnext s b\<rparr>"
  have f1: "holdset s1 {IDELOCK}" "ide_bufs s1 = ide_bufs s" "qnext s1 = qnext s" "idequeue s1 = qnext s b" "havedisk1 s1" "ports s1 = ports s"
    "ptable s1 = ptable s" "cproc s1 = cproc s"
    using holdset_in [OF assms(2), of IDELOCK] q(3) by (simp_all add: s1_def)
  obtain n p x where rd: "ide_read d b s1 = Ok ((), s1\<lparr>ide_bufs := (ide_bufs s1)(b := (ide_bufs s1 b)\<lparr>b_data :=
       (if b_dirty (ide_bufs s1 b) then b_data (ide_bufs s1 b) else disk u (unat (b_blockno (ide_bufs s1 b))))\<rparr>), polls := n, ports := ports s1 @ p\<rparr>)"
    "replay r0 (ports s @ p) = (replay r0 (ports s))\<lparr>d_cmd := x\<rparr>"
    using ide_read_ok [OF assms(1), of s1 b "disk u"] fl unfolding f1 by blast
  define s3 where "s3 = s1\<lparr>ide_bufs := bufs (serve b u), polls := n, ports := ports s1 @ p\<rparr>"
  have fin: "upd_ide_buf b (\<lambda>x. x\<lparr>b_valid := True, b_dirty := False\<rparr>) (s1\<lparr>ide_bufs := (ide_bufs s1)(b := (ide_bufs s1 b)\<lparr>b_data :=
       (if b_dirty (ide_bufs s1 b) then b_data (ide_bufs s1 b) else disk u (unat (b_blockno (ide_bufs s1 b))))\<rparr>), polls := n, ports := ports s1 @ p\<rparr>) = s3"
    unfolding upd_ide_buf_done unfolding s3_def serve_ok(2) [OF ok(1)] q(4) f1(2) by (rule refl)
  have "holdset s3 {IDELOCK}" using f1(1) by (simp add: s3_def)
  from wakeup_in_handler [OF this, of "ChanBuf b"] obtain s4 where w: "wakeup (ChanBuf b) s3 = Ok ((), s4)" and f4: "holdset s4 {IDELOCK}"
    "ide_bufs s4 = bufs (serve b u)" "qnext s4 = qnext s" "idequeue s4 = qnext s b" "havedisk1 s4" "ports s4 = ports s @ p"
    "ptable s4 = map (wake (ChanBuf b)) (ptable s)" "cproc s4 = cproc s"
    using f1 by (auto simp: s3_def)
  have nx: "b_blockno (ide_bufs s4 (the (idequeue s4))) < FSSIZE" if "idequeue s4 \<noteq> None"
  proof (cases bs)
    case (Cons c cs)
    then show ?thesis using q(2) ok(2) [of c] request_ok_serve [OF ok(1), of c] unfolding f4 by (simp add: request_ok_def)
  qed (use that q(2) f4(4) in simp)
  have rdy: "ata_ready d" using assms(1) by (simp add: ata_ok_def)
  define cs where "cs = (case idequeue s4 of None \<Rightarrow> [] | Some c \<Rightarrow> commands (ide_bufs s4 c))"
  obtain m where st: "seqk (\<lambda>s. whenk (idequeue s \<noteq> None) (idestart d (idequeue s)) s) (releasep IDELOCK) s4 =
     Ok ((), lock_out IDELOCK (s4\<lparr>polls := m, ports := ports s4 @ cs\<rparr>))"
    using start_next_ok [OF rdy f4(1) nx] unfolding cs_def by blast
  let ?t = "lock_out IDELOCK (s4\<lparr>polls := m, ports := ports s4 @ cs\<rparr>)"
  have run: "ideintr d s = Ok ((), ?t)"
    by (rule ideintr_steps [OF assms(2) q(1) rd(1) [unfolded s1_def] _ st]) (use w fin in \<open>simp only: s1_def\<close>)
  have "quiet ?t" using holdset_out [of "s4\<lparr>polls := m, ports := ports s4 @ cs\<rparr>" "{IDELOCK}" IDELOCK] f4(1) by simp
  moreover have "ide_rel r0 ?t (serve b u) bs"
    by (rule ide_rel_next [OF assms(3)]) (use f4 q(2) rd(2) [unfolded replay_append] in \<open>simp_all add: cs_def split: list.split\<close>, auto)
  ultimately show ?thesis using run f4(7,8) by (intro exI [of _ ?t]) simp
qed

lemma ide_rel_cong:
  "ide_bufs t = ide_bufs s \<Longrightarrow> qnext t = qnext s \<Longrightarrow> idequeue t = idequeue s \<Longrightarrow> havedisk1 t = havedisk1 s \<Longrightarrow> ports t = ports s \<Longrightarrow>
     ide_rel r0 t u qs = ide_rel r0 s u qs"
  by (cases qs) (simp_all add: ide_rel_def)

text \<open>A request is appended to the queue, started when it is the first, and the process sleeps.\<close>

lemma ide_rw_queues:
  assumes "ata_ok d r0" "quiet s" "ide_rel r0 s u qs" "cproc s = Some i" "i < length (ptable s)"
    and "holdingsleep (p_pid (ptable s ! i)) (b_lock (bufs u b))" "request_ok u b" "b \<notin> set qs"
  shows "okp (\<lambda>r t. r \<noteq> None \<and> critical t \<and> ide_rel r0 t u (qs @ [b]) \<and>
     ptable t = (ptable s)[i := (ptable s ! i)\<lparr>p_chan := ChanBuf b, p_state := SLEEPING\<rparr>] \<and> cproc t = cproc s) (ide_rw d b s)"
proof -
  have q: "qchain (qnext s) (idequeue s) qs" "distinct qs" "bufs u = ide_bufs s" "havedisk1 s" using assms(3) by (auto simp: ide_rel_def)
  let ?s1 = "lock_in IDELOCK s"
  obtain nx p where ap: "ide_append b ?s1 = Ok ((), ?s1\<lparr>qnext := nx, idequeue := p\<rparr>)" "qchain nx p (qs @ [b])"
    using ide_append_ok [of ?s1 qs b] q(1,2) assms(8) by auto
  define s2 where "s2 = ?s1\<lparr>qnext := nx, idequeue := p\<rparr>"
  have f2: "holdset s2 {IDELOCK}" "ide_bufs s2 = ide_bufs s" "qnext s2 = nx" "idequeue s2 = p" "havedisk1 s2" "ports s2 = ports s" "ptable s2 = ptable s" "cproc s2 = cproc s"
    using holdset_in [OF assms(2), of IDELOCK] q(4) by (simp_all add: s2_def)
  have hd: "p = Some b \<longleftrightarrow> qs = []" using ap(2) assms(8) by (cases qs) auto
  have bl: "b_blockno (ide_bufs s2 b) < FSSIZE" "b_dev (ide_bufs s2 b) = 1" using assms(7) unfolding f2(2) request_ok_def q(3) by auto
  define cs where "cs = (if qs = [] then commands (ide_bufs s2 b) else [])"
  have "ata_ready d" using assms(1) by (simp add: ata_ok_def)
  from idestart_ok [OF this bl(1)] obtain m where m: "idestart d (Some b) s2 = Ok ((), s2\<lparr>polls := m, ports := ports s2 @ commands (ide_bufs s2 b)\<rparr>)" by blast
  define n where "n = (if qs = [] then m else polls s2)"
  have st: "whenk (idequeue s2 = Some b) (idestart d (Some b)) s2 = Ok ((), s2\<lparr>polls := n, ports := ports s2 @ cs\<rparr>)"
    using m hd f2(4) by (simp add: whenk_def ret_def cs_def n_def)
  let ?s3 = "s2\<lparr>polls := n, ports := ports s2 @ cs\<rparr>"
  have rel: "ide_rel r0 ?s3 u (qs @ [b])"
  proof (cases qs)
    case Nil
    then show ?thesis
      using assms(3,7) ap(2) f2 replay_commands [OF bl, of "replay r0 (ports s)"] q(3) by (simp add: ide_rel_def cs_def in_flight_def)
  next
    case (Cons c bs)
    then show ?thesis using assms(3,7,8) ap(2) f2 q by (simp add: ide_rel_def cs_def)
  qed
  have h3: "holdset ?s3 {IDELOCK}" "cproc ?s3 = Some i" "i < length (ptable ?s3)" using f2 assms(4,5) by simp_all
  obtain x t where t: "sleep_enter (ChanBuf b) IDELOCK ?s3 = Ok (x, t)" "critical t" "t = ?s3\<lparr>lk := lk t, ptable := ptable t\<rparr>"
    "ptable t = (ptable s)[i := (ptable s ! i)\<lparr>p_chan := ChanBuf b, p_state := SLEEPING\<rparr>]"
    using sleep_enter_hold [OF h3(1) _ h3(2,3), of "ChanBuf b"] f2(7) by (auto simp: okp_def)
  have nd: "\<not> (b_valid (ide_bufs s b) \<and> \<not> b_dirty (ide_bufs s b))" "b_dev (ide_bufs s b) = 1" using assms(7) unfolding request_ok_def q(3) by auto
  then have "ide_wait b ?s3 = Ok (Some x, t)" using t(1) f2(2) by (auto simp: ide_wait_def kern_simps)
  then have run: "ide_rw d b s = Ok (Some x, t)"
    using assms(2,4,6) nd q(3,4) ap(1) st by (simp add: ide_rw_def Let_def myproc_def kern_simps acquirep_hold s2_def [symmetric])
  have "ide_bufs t = ide_bufs ?s3 \<and> qnext t = qnext ?s3 \<and> idequeue t = idequeue ?s3 \<and> havedisk1 t = havedisk1 ?s3 \<and> ports t = ports ?s3 \<and> cproc t = cproc ?s3"
    by (subst (1 2 3 4 5 6) t(3)) simp
  then have "ide_rel r0 t u (qs @ [b]) \<and> cproc t = cproc s" using rel f2(8) ide_rel_cong [of t ?s3 r0 u "qs @ [b]"] by simp
  then show ?thesis using run t(2,4) by simp
qed

text \<open>When the process runs again after its request has been served, \<open>iderw\<close> returns.\<close>

lemma ide_rw_returns:
  assumes "critical s" "cproc s = Some i" "b_valid (ide_bufs s b)" "\<not> b_dirty (ide_bufs s b)"
  shows "okp (\<lambda>r t. r = None \<and> quiet t \<and> ide_bufs t = ide_bufs s \<and> ports t = ports s) (ide_rw_again b x s)"
proof -
  let ?s1 = "s\<lparr>lk := upd_cpu 0 (\<lambda>c. c\<lparr>intena := x\<rparr>) (lk s)\<rparr>"
  let ?s2 = "upd_proc i (\<lambda>p. p\<lparr>p_chan := NoChan\<rparr>) ?s1"
  have h: "critical ?s1" by (rule sched_exit_hold [OF assms(1)])
  then have h2: "critical ?s2" by simp
  let ?s3 = "lock_out PTABLE ?s2"
  have q3: "quiet ?s3" by (rule quiet_out [OF h2])
  let ?s4 = "lock_in IDELOCK ?s3"
  have h4: "holdset ?s4 {IDELOCK}" using holdset_in [OF q3, of IDELOCK] by simp
  have b: "ide_bufs (upd_proc i f t) = ide_bufs t" "ports (upd_proc i f t) = ports t" for f t by (simp_all add: upd_proc_def)
  have "sleep_exit x IDELOCK s = Ok ((), ?s4)"
    using assms(2) h2 q3 by (simp add: sleep_exit_def sched_exit_def myproc_def kern_simps releasep_hold acquirep_hold)
  then have "ide_rw_again b x s = Ok (None, lock_out IDELOCK ?s4)"
    using assms(3,4) h4 by (simp add: ide_rw_again_def ide_wait_def kern_simps b releasep_hold)
  then show ?thesis using holdset_out [OF h4, of IDELOCK] by (simp add: b)
qed

section \<open>Any sequence of requests and interrupts\<close>

text \<open>
  Between the calls of the driver the rest of the kernel runs: it leaves the driver alone, except that the owner of a buffer that is not
  queued may do with it what it likes.
\<close>

datatype ide_event = Request nat | Interrupt | Change nat buf

definition rest_runs :: "idest \<Rightarrow> idest \<Rightarrow> bool" where
  "rest_runs s t \<longleftrightarrow> quiet t \<and> ide_bufs t = ide_bufs s \<and> qnext t = qnext s \<and> idequeue t = idequeue s \<and> havedisk1 t = havedisk1 s \<and> ports t = ports s"

definition caller :: "idest \<Rightarrow> nat \<Rightarrow> bool" where
  "caller s b \<longleftrightarrow> (\<exists>i. cproc s = Some i \<and> i < length (ptable s) \<and> holdingsleep (p_pid (ptable s ! i)) (b_lock (ide_bufs s b)))"

inductive ide_step :: "ata \<Rightarrow> idest \<Rightarrow> ide_event \<Rightarrow> idest \<Rightarrow> bool" where
  request: "caller s b \<Longrightarrow> ide_rw d b s = Ok (r, s') \<Longrightarrow> rest_runs s' t \<Longrightarrow> ide_step d s (Request b) t"
| interrupt: "ideintr d s = Ok ((), s') \<Longrightarrow> rest_runs s' t \<Longrightarrow> ide_step d s Interrupt t"
| change: "rest_runs (upd_ide_buf b (\<lambda>_. x) s) t \<Longrightarrow> ide_step d s (Change b x) t"

inductive ide_run :: "ata \<Rightarrow> idest \<Rightarrow> ide_event list \<Rightarrow> idest \<Rightarrow> bool" where
  start: "ide_run d s [] s"
| step: "ide_run d s es t \<Longrightarrow> ide_step d t e t' \<Longrightarrow> ide_run d s (es @ [e]) t'"

inductive_cases ide_stepE: "ide_step d s (Request b) t" "ide_step d s Interrupt t" "ide_step d s (Change b x) t"

text \<open>The specification: a queue in front of the disk in memory, of which each interrupt serves the first request with \<open>memide.c\<close>'s \<open>iderw\<close>.\<close>

fun disk_step :: "bst \<times> nat list \<Rightarrow> ide_event \<Rightarrow> (bst \<times> nat list) option" where
  "disk_step (u, qs) (Request b) = (if request_ok u b \<and> b \<notin> set qs then Some (u, qs @ [b]) else None)"
| "disk_step (u, []) Interrupt = Some (u, [])"
| "disk_step (u, b # bs) Interrupt = (case iderw b (u\<lparr>curpid := sl_pid (b_lock (bufs u b))\<rparr>) of Ok (_, v) \<Rightarrow> Some (v, bs) | _ \<Rightarrow> None)"
| "disk_step (u, qs) (Change b x) = (if b \<in> set qs then None else Some (u\<lparr>bufs := (bufs u)(b := x)\<rparr>, qs))"

definition disk_run :: "bst \<times> nat list \<Rightarrow> ide_event list \<Rightarrow> (bst \<times> nat list) option" where
  "disk_run c es = foldl (\<lambda>r e. case r of None \<Rightarrow> None | Some c \<Rightarrow> disk_step c e) (Some c) es"

lemma ide_rel_rest: "rest_runs s t \<Longrightarrow> ide_rel r0 t u qs = ide_rel r0 s u qs"
  by (rule ide_rel_cong) (simp_all add: rest_runs_def)

lemma disk_step_serves:
  assumes "ide_rel r0 s u (b # bs)" "disk_step (u, b # bs) Interrupt = Some (v, qs)"
  shows "v = serve b u \<and> qs = bs"
proof -
  have "request_ok u b" using assms(1) by (simp add: ide_rel_def)
  from serve_ok(1) [OF this] show ?thesis using assms(2) by simp
qed

lemma ide_step_refines:
  assumes "ata_ok d r0" "quiet s" "ide_rel r0 s u qs" "ide_step d s e t" "disk_step (u, qs) e = Some (v, rs)"
  shows "quiet t \<and> ide_rel r0 t v rs"
proof (cases e)
  case (Request b)
  then obtain r s' where s': "caller s b" "ide_rw d b s = Ok (r, s')" "rest_runs s' t" using assms(4) by (auto elim: ide_stepE)
  have ok: "request_ok u b" "b \<notin> set qs" "v = u" "rs = qs @ [b]" using assms(5) Request by (auto split: if_splits)
  obtain i where i: "cproc s = Some i" "i < length (ptable s)" "holdingsleep (p_pid (ptable s ! i)) (b_lock (bufs u b))"
    using s'(1) assms(3) by (auto simp: caller_def ide_rel_def)
  have "ide_rel r0 s' u (qs @ [b])" using ide_rw_queues [OF assms(1-3) i ok(1,2)] s'(2) by simp
  then show ?thesis using s'(3) ok(3,4) ide_rel_rest [OF s'(3)] by (simp add: rest_runs_def)
next
  case Interrupt
  then obtain s' where s': "ideintr d s = Ok ((), s')" "rest_runs s' t" using assms(4) by (auto elim: ide_stepE)
  have "ide_rel r0 s' v rs"
  proof (cases qs)
    case Nil
    then have "ideintr d s = Ok ((), lock_out IDELOCK (lock_in IDELOCK s))" using assms(2,3) by (intro ideintr_none) (simp_all add: ide_rel_def)
    then show ?thesis using Nil Interrupt s'(1) assms(3,5) by (auto simp: ide_rel_def)
  next
    case (Cons b bs)
    then have "v = serve b u \<and> rs = bs" using disk_step_serves [of r0 s u b bs] assms(3,5) Interrupt by simp
    then show ?thesis using ideintr_serves [OF assms(1,2), of u b bs] assms(3) Cons s'(1) by auto
  qed
  then show ?thesis using s'(2) ide_rel_rest [OF s'(2)] by (simp add: rest_runs_def)
next
  case (Change b x)
  then have s': "rest_runs (upd_ide_buf b (\<lambda>_. x) s) t" using assms(4) by (auto elim: ide_stepE)
  have ok: "b \<notin> set qs" "v = u\<lparr>bufs := (bufs u)(b := x)\<rparr>" "rs = qs" using assms(5) Change by (auto split: if_splits)
  have "ide_rel r0 (upd_ide_buf b (\<lambda>_. x) s) v rs"
    using assms(3) ok by (auto simp: ide_rel_def upd_ide_buf_def request_ok_def split: list.splits)
  then show ?thesis using s' ide_rel_rest [OF s'] by (simp add: rest_runs_def)
qed

lemma ide_run_refines:
  assumes "ata_ok d r0" "ide_run d s es t"
  shows "quiet s \<Longrightarrow> ide_rel r0 s u qs \<Longrightarrow> disk_run (u, qs) es = Some (v, rs) \<Longrightarrow> quiet t \<and> ide_rel r0 t v rs"
  using assms(2,1)
proof (induction arbitrary: v rs rule: ide_run.induct)
  case (step d s es t e t')
  then obtain w ps where w: "disk_run (u, qs) es = Some (w, ps)" "disk_step (w, ps) e = Some (v, rs)"
    by (auto simp: disk_run_def split: option.splits)
  then show ?case using ide_step_refines [OF step.prems(4) _ _ step.hyps(2) w(2)] step.IH [OF step.prems(1,2) w(1) step.prems(4)] by blast
qed (simp add: disk_run_def)

text \<open>
  C33: the disk driver implements the disk in memory.  Take any sequence of requests of processes, interrupts of the disk and changes of buffers that are not queued, on a disk that
  behaves as documented.  The buffers and the sectors are then those of the disk in memory (\<open>memide.c\<close>) to which each interrupt has applied the oldest
  request, and the queue holds the requests that are not done in their order.  The next interrupt completes, serves the first of
  them and makes every process that sleeps for it runnable; a further request completes as well and leaves its process sleeping.
\<close>

theorem ide_refines_memory_disk:
  assumes "ata_ok d r0" "quiet s" "ide_rel r0 s u []" "ide_run d s es t" "disk_run (u, []) es = Some (v, qs)"
  shows "quiet t \<and> ide_bufs t = bufs v \<and> qchain (qnext t) (idequeue t) qs \<and> (qs = [] \<longrightarrow> d_disk (replay r0 (ports t)) True = disk v) \<and>
    okp (\<lambda>_ t'. case qs of [] \<Rightarrow> ide_bufs t' = bufs v
       | b # bs \<Rightarrow> ide_bufs t' = bufs (serve b v) \<and> qchain (qnext t') (idequeue t') bs \<and>
           (\<forall>j < length (ptable t). p_state (ptable t ! j) = SLEEPING \<and> p_chan (ptable t ! j) = ChanBuf b \<longrightarrow> p_state (ptable t' ! j) = RUNNABLE))
      (ideintr d t) \<and>
    (\<forall>b. request_ok v b \<and> b \<notin> set qs \<and> caller t b \<longrightarrow>
       okp (\<lambda>r t'. r \<noteq> None \<and> p_state (ptable t' ! the (cproc t)) = SLEEPING \<and> p_chan (ptable t' ! the (cproc t)) = ChanBuf b) (ide_rw d b t))"
proof -
  have q: "quiet t" and r: "ide_rel r0 t v qs" using ide_run_refines [OF assms(1,4,2,3,5)] by auto
  have "okp (\<lambda>_ t'. case qs of [] \<Rightarrow> ide_bufs t' = bufs v
       | b # bs \<Rightarrow> ide_bufs t' = bufs (serve b v) \<and> qchain (qnext t') (idequeue t') bs \<and>
           (\<forall>j < length (ptable t). p_state (ptable t ! j) = SLEEPING \<and> p_chan (ptable t ! j) = ChanBuf b \<longrightarrow> p_state (ptable t' ! j) = RUNNABLE))
      (ideintr d t)"
  proof (cases qs)
    case Nil
    then show ?thesis using r ideintr_none [OF q, of d] by (simp add: ide_rel_def)
  next
    case (Cons b bs)
    obtain t' where t': "ideintr d t = Ok ((), t')" "ide_rel r0 t' (serve b v) bs" "ptable t' = map (wake (ChanBuf b)) (ptable t)"
      using ideintr_serves [OF assms(1) q, of v b bs] r Cons by auto
    then show ?thesis using Cons by (simp add: ide_rel_def wake_def)
  qed
  moreover have "okp (\<lambda>r t'. r \<noteq> None \<and> p_state (ptable t' ! the (cproc t)) = SLEEPING \<and> p_chan (ptable t' ! the (cproc t)) = ChanBuf b) (ide_rw d b t)"
    if b: "request_ok v b" "b \<notin> set qs" "caller t b" for b
  proof -
    obtain i where "cproc t = Some i" "i < length (ptable t)" "holdingsleep (p_pid (ptable t ! i)) (b_lock (bufs v b))"
      using b(3) r by (auto simp: caller_def ide_rel_def)
    from ide_rw_queues [OF assms(1) q r this b(1,2)] this(1,2) show ?thesis by (auto elim!: okp_mono)
  qed
  ultimately show ?thesis using q r by (auto simp: ide_rel_def)
qed

section \<open>Errors of the disk\<close>

text \<open>
  C34: an error of the disk is not reported.  When the disk ends a read with an error, the interrupt handler takes no data from it but marks the buffer valid all the same and
  wakes the process, whose \<open>iderw\<close> then returns as after a successful read: the buffer of the block holds what was in it before (in
  \<open>bread\<close>, the bytes of the block that was cached there earlier).
\<close>

theorem ide_read_error_unnoticed:
  assumes "ata_ready d" "\<forall>n. a_status d n AND (IDE_DF OR IDE_ERR) \<noteq> 0" "quiet s" "idequeue s = Some b" "qnext s b = None" "\<not> b_dirty (ide_bufs s b)"
  shows "okp (\<lambda>_ t. quiet t \<and> b_valid (ide_bufs t b) \<and> b_data (ide_bufs t b) = b_data (ide_bufs s b) \<and> ports t = ports s \<and>
     (\<forall>t' i x. critical t' \<and> cproc t' = Some i \<and> ide_bufs t' = ide_bufs t \<longrightarrow> okp (\<lambda>r t''. r = None \<and> ide_bufs t'' = ide_bufs t) (ide_rw_again b x t'))) (ideintr d s)"
proof -
  let ?s1 = "(lock_in IDELOCK s)\<lparr>idequeue := qnext s b\<rparr>"
  obtain k where "idewait d True ?s1 = Ok (-1, ?s1\<lparr>polls := Suc k\<rparr>)" using idewait_ok [OF assms(1), of True ?s1] assms(2) by auto
  then have rd: "ide_read d b ?s1 = Ok ((), ?s1\<lparr>polls := Suc k\<rparr>)" using assms(6) by (simp add: ide_read_def kern_simps)
  define s3 where "s3 = upd_ide_buf b (\<lambda>x. x\<lparr>b_valid := True, b_dirty := False\<rparr>) (?s1\<lparr>polls := Suc k\<rparr>)"
  have f3: "holdset s3 {IDELOCK}" "ide_bufs s3 = (ide_bufs s)(b := (ide_bufs s b)\<lparr>b_valid := True, b_dirty := False\<rparr>)" "idequeue s3 = None" "ports s3 = ports s"
    using holdset_in [OF assms(3), of IDELOCK] assms(5) by (simp_all add: s3_def upd_ide_buf_def)
  obtain s4 where s4: "wakeup (ChanBuf b) s3 = Ok ((), s4)" "holdset s4 {IDELOCK}" "ide_bufs s4 = ide_bufs s3" "idequeue s4 = None" "ports s4 = ports s"
    using wakeup_in_handler [OF f3(1), of "ChanBuf b"] f3 by auto
  let ?t = "lock_out IDELOCK s4"
  have "seqk (\<lambda>s. whenk (idequeue s \<noteq> None) (idestart d (idequeue s)) s) (releasep IDELOCK) s4 = Ok ((), ?t)"
    using s4(2,4) by (simp add: kern_simps releasep_hold)
  from ideintr_steps [OF assms(3,4) rd s4(1) [unfolded s3_def] this] have run: "ideintr d s = Ok ((), ?t)" .
  have t: "quiet ?t" "ide_bufs ?t b = (ide_bufs s b)\<lparr>b_valid := True, b_dirty := False\<rparr>" "ports ?t = ports s"
    using holdset_out [OF s4(2), of IDELOCK] s4(3,5) f3(2) by simp_all
  have "okp (\<lambda>r t''. r = None \<and> ide_bufs t'' = ide_bufs ?t) (ide_rw_again b x t')"
    if "critical t'" "cproc t' = Some i" "ide_bufs t' = ide_bufs ?t" for t' i x
    using ide_rw_returns [OF that(1,2), of b x] that(3) t(2) by (auto elim!: okp_mono)
  then show ?thesis using run t by auto
qed

section \<open>A small disk\<close>

definition ex_drive :: drive where
  "ex_drive = \<lparr>d_low = 0, d_mid = 0, d_high = 0, d_select = 0, d_cmd = 0, d_disk = (\<lambda>_ k _. of_nat k)\<rparr>"

definition ex_ata :: ata where
  "ex_ata = \<lparr>a_status = (\<lambda>_. IDE_DRDY), a_data = (\<lambda>ops. let r = replay ex_drive ops in d_disk r (d_second r) (d_lba r)), a_second = (\<lambda>_. 1)\<rparr>"

definition ex_ide_buf :: buf where
  "ex_ide_buf = \<lparr>b_valid = False, b_dirty = False, b_dev = 1, b_blockno = 5, b_lock = \<lparr>sl_locked = True, sl_pid = 1\<rparr>, b_refcnt = 1, b_data = (\<lambda>_. 0)\<rparr>"

definition ex_ide :: idest where
  "ex_ide = \<lparr>lk = fst lock_init,
     ptable = [\<lparr>p_sz = 0, p_pgdir = 0, p_kstack = 0, p_state = RUNNING, p_pid = 1, p_parent = None, p_tf = 0, p_context = 0, p_chan = NoChan,
       p_killed = False, p_ofile = [], p_cwd = None, p_name = (\<lambda>_. 0)\<rparr>], nextpid = 2, initproc = Some 0, ticks = 0, cproc = Some 0,
     ide_bufs = (\<lambda>_. ex_ide_buf), qnext = (\<lambda>_. None), idequeue = None, havedisk1 = True, ports = [], polls = 0\<rparr>"

definition ex_bst :: bst where
  "ex_bst = \<lparr>bufs = (\<lambda>_. ex_ide_buf), bnext = id, bprev = id, disk = (\<lambda>k _. of_nat k), disksize = 1000, writes = [], curpid = 1\<rparr>"

lemma ex_ata_ok: "ata_ok ex_ata ex_drive"
  by (auto simp: ata_ok_def ata_ready_def ex_ata_def Let_def IDE_DRDY_def IDE_BSY_def IDE_DF_def IDE_ERR_def)

lemma ex_ide_ok: "quiet ex_ide" "ide_rel ex_drive ex_ide ex_bst []" "request_ok ex_bst 0" "caller ex_ide 0"
  by (simp_all add: ex_ide_def holdset_def lock_init_def cpu_ok_def ide_rel_def ex_bst_def replay_def ex_drive_def request_ok_def caller_def
      holdingsleep_def ex_ide_buf_def FSSIZE_def)

theorem ide_refines_memory_disk_witness:
  "\<exists>t. ide_run ex_ata ex_ide [Request 0, Interrupt] t \<and> ide_bufs t = bufs (serve 0 ex_bst) \<and> b_valid (ide_bufs t 0) \<and> b_data (ide_bufs t 0) = (\<lambda>_. 5)"
proof -
  have one: "\<exists>t :: idest. quiet t \<and> ide_bufs t = ide_bufs s \<and> qnext t = qnext s \<and> idequeue t = idequeue s \<and> havedisk1 t = havedisk1 s \<and> ports t = ports s" for s :: idest
  proof -
    have "quiet (s\<lparr>lk := lk ex_ide\<rparr>)" using ex_ide_ok(1) by (simp add: holdset_def)
    then show ?thesis by (intro exI [of _ "s\<lparr>lk := lk ex_ide\<rparr>"]) simp
  qed
  have "caller ex_ide 0" by (rule ex_ide_ok(4))
  then obtain r s1 where s1: "ide_rw ex_ata 0 ex_ide = Ok (r, s1)" "ide_rel ex_drive s1 ex_bst [0]"
    using ide_rw_queues [OF ex_ata_ok ex_ide_ok(1,2), of 0 0] ex_ide_ok(3) by (auto simp: ex_ide_def ex_bst_def holdingsleep_def ex_ide_buf_def okp_def)
  obtain s2 where s2: "rest_runs s1 s2" using one [of s1] unfolding rest_runs_def by blast
  have r1: "ide_run ex_ata ex_ide ([] @ [Request 0]) s2" by (rule ide_run.step [OF ide_run.start ide_step.request [OF ex_ide_ok(4) s1(1) s2]])
  have "ide_rel ex_drive s2 ex_bst [0]" using s1(2) ide_rel_rest [OF s2] by simp
  then obtain s3 where s3: "ideintr ex_ata s2 = Ok ((), s3)" using ideintr_serves [OF ex_ata_ok, of s2 ex_bst 0 "[]"] s2 by (auto simp: rest_runs_def)
  obtain s4 where s4: "rest_runs s3 s4" using one [of s3] unfolding rest_runs_def by blast
  have "ide_run ex_ata ex_ide (([] @ [Request 0]) @ [Interrupt]) s4" by (rule ide_run.step [OF r1 ide_step.interrupt [OF s3 s4]])
  then have run: "ide_run ex_ata ex_ide [Request 0, Interrupt] s4" by simp
  have "disk_run (ex_bst, []) [Request 0, Interrupt] = Some (serve 0 ex_bst, [])"
    using ex_ide_ok(3) serve_ok(1) [OF ex_ide_ok(3)] by (simp add: disk_run_def)
  from ide_refines_memory_disk [OF ex_ata_ok ex_ide_ok(1,2) run this] have b: "ide_bufs s4 = bufs (serve 0 ex_bst)" by simp
  have "b_valid (bufs (serve 0 ex_bst) 0) \<and> b_data (bufs (serve 0 ex_bst) 0) = (\<lambda>_. 5)"
    unfolding serve_ok(2) [OF ex_ide_ok(3)] by (simp add: ex_bst_def ex_ide_buf_def)
  then show ?thesis using run b by auto
qed

theorem ide_read_error_unnoticed_witness:
  "okp (\<lambda>_ t. b_valid (ide_bufs t 0) \<and> b_data (ide_bufs t 0) = (\<lambda>_. 0) \<and> ports t = [])
     (ideintr (ex_ata\<lparr>a_status := (\<lambda>_. IDE_DRDY OR IDE_ERR)\<rparr>) (ex_ide\<lparr>idequeue := Some 0\<rparr>))"
proof -
  let ?d = "ex_ata\<lparr>a_status := (\<lambda>_. IDE_DRDY OR IDE_ERR)\<rparr>" and ?s = "ex_ide\<lparr>idequeue := Some 0\<rparr>"
  have q: "quiet ?s" using ex_ide_ok(1) by simp
  have h: "ata_ready ?d" "\<forall>n. a_status ?d n AND (IDE_DF OR IDE_ERR) \<noteq> 0" "quiet ?s" "idequeue ?s = Some 0" "qnext ?s 0 = None" "\<not> b_dirty (ide_bufs ?s 0)"
    using q by (simp_all add: ata_ready_def IDE_DRDY_def IDE_BSY_def IDE_DF_def IDE_ERR_def) (auto simp: ex_ata_def ex_ide_def ex_ide_buf_def)
  from ide_read_error_unnoticed [OF h] show ?thesis
    by (rule okp_mono) (simp add: ex_ide_def ex_ide_buf_def)
qed

end
