(* ===== verification/Kbd.thy ===== *)
theory Kbd
  imports Console
begin

unbundle bit_operations_syntax

text \<open>
  The keyboard (\<open>kbd.c\<close> with the tables of \<open>kbd.h\<close>) and the serial port (\<open>uart.c\<close>) as sources of characters for the line editor of the console.
  What the two controllers answer on their ports is an argument: for the keyboard a pair of status and data for each call of \<open>kbdgetc\<close>,
  for the serial port the status and data of each call of \<open>uartgetc\<close>.
\<close>

section \<open>Tables\<close>

definition KBS_DIB :: u8 where "KBS_DIB = 0x01"
definition SHIFT :: u32 where "SHIFT = 1"
definition CTL :: u32 where "CTL = 2"
definition ALT :: u32 where "ALT = 4"
definition CAPSLOCK :: u32 where "CAPSLOCK = 8"
definition NUMLOCK :: u32 where "NUMLOCK = 16"
definition SCROLLLOCK :: u32 where "SCROLLLOCK = 32"
definition E0ESC :: u32 where "E0ESC = 64"

text \<open>An array of 256 bytes given by its first entries and some later ones; the others are 0.\<close>

definition table :: "u8 list \<Rightarrow> (nat \<times> u8) list \<Rightarrow> u8 \<Rightarrow> u8" where
  "table xs ps k = (if unat k < length xs then xs ! unat k else case map_of ps (unat k) of None \<Rightarrow> 0 | Some v \<Rightarrow> v)"

definition shiftcode :: "u8 \<Rightarrow> u32" where
  "shiftcode k = (if k = 0x1D then CTL else if k = 0x2A then SHIFT else if k = 0x36 then SHIFT else if k = 0x38 then ALT
     else if k = 0x9D then CTL else if k = 0xB8 then ALT else 0)"

definition togglecode :: "u8 \<Rightarrow> u32" where
  "togglecode k = (if k = 0x3A then CAPSLOCK else if k = 0x45 then NUMLOCK else if k = 0x46 then SCROLLLOCK else 0)"

text \<open>The home, end, cursor, page, insert and delete keys.\<close>

definition key_codes :: "(nat \<times> u8) list" where
  "key_codes = [(0xC8, 0xE2), (0xD0, 0xE3), (0xC9, 0xE6), (0xD1, 0xE7), (0xCB, 0xE4), (0xCD, 0xE5), (0x97, 0xE0), (0xCF, 0xE1), (0xD2, 0xE8), (0xD3, 0xE9)]"

definition normal_keys :: "u8 list" where
  "normal_keys = [0, 27, 49, 50, 51, 52, 53, 54, 55, 56, 57, 48, 45, 61, 8, 9,
     113, 119, 101, 114, 116, 121, 117, 105, 111, 112, 91, 93, 10, 0, 97, 115,
     100, 102, 103, 104, 106, 107, 108, 59, 39, 96, 0, 92, 122, 120, 99, 118,
     98, 110, 109, 44, 46, 47, 0, 42, 0, 32, 0, 0, 0, 0, 0, 0,
     0, 0, 0, 0, 0, 0, 0, 55, 56, 57, 45, 52, 53, 54, 43, 49,
     50, 51, 48, 46, 0, 0, 0, 0]"

definition normalmap :: "u8 \<Rightarrow> u8" where
  "normalmap = table normal_keys ([(0x9C, 10), (0xB5, 47)] @ key_codes)"

definition shift_keys :: "u8 list" where
  "shift_keys = [0, 27, 33, 64, 35, 36, 37, 94, 38, 42, 40, 41, 95, 43, 8, 9,
     81, 87, 69, 82, 84, 89, 85, 73, 79, 80, 123, 125, 10, 0, 65, 83,
     68, 70, 71, 72, 74, 75, 76, 58, 34, 126, 0, 124, 90, 88, 67, 86,
     66, 78, 77, 60, 62, 63, 0, 42, 0, 32, 0, 0, 0, 0, 0, 0,
     0, 0, 0, 0, 0, 0, 0, 55, 56, 57, 45, 52, 53, 54, 43, 49,
     50, 51, 48, 46, 0, 0, 0, 0]"

definition shiftmap :: "u8 \<Rightarrow> u8" where
  "shiftmap = table shift_keys ([(0x9C, 10), (0xB5, 47)] @ key_codes)"

definition ctl_keys :: "u8 list" where
  "ctl_keys = [0, 0, 0, 0, 0, 0, 0, 0, 0, 0, 0, 0, 0, 0, 0, 0,
     17, 23, 5, 18, 20, 25, 21, 9, 15, 16, 0, 0, 13, 0, 1, 19,
     4, 6, 7, 8, 10, 11, 12, 0, 0, 0, 0, 28, 26, 24, 3, 22,
     2, 14, 13, 0, 0, 239, 0, 0]"

definition ctlmap :: "u8 \<Rightarrow> u8" where
  "ctlmap = table ctl_keys ([(0x9C, 13), (0xB5, 239)] @ key_codes)"

section \<open>The keyboard\<close>

definition charcode :: "u32 \<Rightarrow> u8 \<Rightarrow> u8" where
  "charcode i = [normalmap, shiftmap, ctlmap, ctlmap] ! unat i"

text \<open>One call with the answers of the ports: the result, \<open>None\<close> for -1, and the new value of \<open>shift\<close>.\<close>

definition kbdgetc :: "u8 \<Rightarrow> u8 \<Rightarrow> u32 \<Rightarrow> u8 option \<times> u32" where
  "kbdgetc st code shift =
     (if st AND KBS_DIB = 0 then (None, shift)
      else if code = 0xE0 then (Some 0, shift OR E0ESC)
      else if code AND 0x80 \<noteq> 0 then
        (let k = (if shift AND E0ESC \<noteq> 0 then code else code AND 0x7F) in (Some 0, shift AND NOT (shiftcode k OR E0ESC)))
      else
        (let esc = (shift AND E0ESC \<noteq> 0);
             k = (if esc then code OR 0x80 else code);
             s1 = (if esc then shift AND NOT E0ESC else shift);
             s2 = (s1 OR shiftcode k) XOR togglecode k;
             c = charcode (s2 AND (CTL OR SHIFT)) k in
         (Some (if s2 AND CAPSLOCK \<noteq> 0 then
                  (if 97 \<le> c \<and> c \<le> 122 then c - 32 else if 65 \<le> c \<and> c \<le> 90 then c + 32 else c)
                else c), s2)))"

text \<open>All characters \<open>consoleintr\<close> gets, until a call returns -1, and the value of \<open>shift\<close> at the end.\<close>

fun kbd_chars :: "u32 \<Rightarrow> (u8 \<times> u8) list \<Rightarrow> u8 list \<times> u32" where
  "kbd_chars shift [] = ([], shift)"
| "kbd_chars shift ((st, code) # qs) = (case kbdgetc st code shift of
     (None, t) \<Rightarrow> ([], t)
   | (Some c, t) \<Rightarrow> map_prod ((#) c) id (kbd_chars t qs))"

definition kbdintr :: "u32 \<Rightarrow> (u8 \<times> u8) list \<Rightarrow> (bool \<times> u32) ckern" where
  "kbdintr shift qs = (case kbd_chars shift qs of (cs, t) \<Rightarrow> bindk (consoleintr cs) (\<lambda>dump. ret (dump, t)))"

section \<open>The serial port\<close>

text \<open>\<open>uartputc\<close>: the number of readings of the status before the byte is sent, at most 128, and the byte, unless there is no port.\<close>

fun uart_polls :: "(nat \<Rightarrow> u8) \<Rightarrow> nat \<Rightarrow> nat \<Rightarrow> nat" where
  "uart_polls st i 0 = i"
| "uart_polls st i (Suc n) = (if st i AND 0x20 \<noteq> 0 then Suc i else uart_polls st (Suc i) n)"

definition uartputc :: "bool \<Rightarrow> (nat \<Rightarrow> u8) \<Rightarrow> u8 \<Rightarrow> (nat \<times> u8) option" where
  "uartputc present st c = (if \<not> present then None else Some (uart_polls st 0 128, c))"

definition uartgetc :: "bool \<Rightarrow> u8 \<Rightarrow> u8 \<Rightarrow> u8 option" where
  "uartgetc present st code = (if \<not> present then None else if st AND 0x01 = 0 then None else Some code)"

fun uart_chars :: "bool \<Rightarrow> (u8 \<times> u8) list \<Rightarrow> u8 list" where
  "uart_chars present [] = []"
| "uart_chars present ((st, code) # qs) = (case uartgetc present st code of None \<Rightarrow> [] | Some c \<Rightarrow> c # uart_chars present qs)"

definition uartintr :: "bool \<Rightarrow> (u8 \<times> u8) list \<Rightarrow> bool ckern" where
  "uartintr present qs = consoleintr (uart_chars present qs)"

end
