(* ===== verification/Kbd_Props.thy ===== *)
theory Kbd_Props
  imports Kbd Console_Props
begin

unbundle bit_operations_syntax

text \<open>
  Typing on the keyboard: the scan codes of the keys of a text, pressed and released one after the other with the shift key where it is needed, are decoded to the
  text, and reach the line editor of the console as this text.
\<close>

section \<open>The keyboard\<close>

text \<open>
  The keyboard is described by itself and not by the tables of the code: the main block of a US keyboard, with the numbers that the hardware gives its
  keys (scan code set 1).  A row of keys has consecutive codes; each row is given by the code of its first key, the
  characters on its keys and the characters with the shift key.
\<close>

definition key_rows :: "(nat \<times> string \<times> string) list" where
  "key_rows =
    [(0x02, ''1234567890-='', ''!@#$%^&*()_+''),
     (0x10, ''qwertyuiop[]'', ''QWERTYUIOP{}''),
     (0x1E, ''asdfghjkl;'' @ [CHR 0x27, CHR 0x60], ''ASDFGHJKL:'' @ [CHR 0x22, CHR 0x7E]),
     (0x2B, CHR 0x5C # ''zxcvbnm,./'', ''|ZXCVBNM<>?''),
     (0x39, '' '', '' '')]"

definition caps :: "(nat \<times> char \<times> char) list" where
  "caps = concat (map (\<lambda>(k, lo, up). zip [k ..< k + length lo] (zip lo up)) key_rows)"

text \<open>
  The character, the modifier and the code of the key: escape, backspace, tab and enter; the keys alone; with the shift key; and with the
  control key, where the letters, the backslash and the slash give the code of the (capital) character less 64.
\<close>

definition us_keys :: "(u8 \<times> u32 \<times> u8) list" where
  "us_keys = [(27, 0, 0x01), (8, 0, 0x0E), (9, 0, 0x0F), (10, 0, 0x1C)]
     @ map (\<lambda>(k, lo, up). (of_char lo, 0, of_nat k)) caps
     @ map (\<lambda>(k, lo, up). (of_char up, SHIFT, of_nat k)) caps
     @ map (\<lambda>(k, lo, up). (of_char up - 64, CTL, of_nat k)) (filter (\<lambda>(k, lo, up). up \<in> set ''ABCDEFGHIJKLMNOPQRSTUVWXYZ'') caps)
     @ map (\<lambda>(k, lo, up). (of_char lo - 64, CTL, of_nat k)) (filter (\<lambda>(k, lo, up). lo = CHR 0x5C \<or> lo = CHR 0x2F) caps)"

definition typable :: "u8 \<Rightarrow> bool" where
  "typable c \<longleftrightarrow> c \<in> set (map fst us_keys)"

text \<open>
  Pressing and releasing: the code of a released key has the high bit set; the controller says each time that there is data.  The shift
  key has the code 0x2A, the control key 0x1D.
\<close>

definition strokes :: "u8 \<Rightarrow> (u8 \<times> u8) list" where
  "strokes c = (case map_of us_keys c of
     None \<Rightarrow> []
   | Some (sh, k) \<Rightarrow>
       if sh = 0 then [(1, k), (1, k OR 0x80)]
       else if sh = SHIFT then [(1, 0x2A), (1, k), (1, k OR 0x80), (1, 0xAA)]
       else [(1, 0x1D), (1, k), (1, k OR 0x80), (1, 0x9D)])"

text \<open>The map in force under a modifier.\<close>

definition layout :: "u32 \<Rightarrow> u8 list \<Rightarrow> bool" where
  "layout sh xs \<longleftrightarrow> sh = 0 \<and> xs = normal_keys \<or> sh = SHIFT \<and> xs = shift_keys \<or> sh = CTL \<and> xs = ctl_keys"

section \<open>Decoding\<close>

lemma keys_length: "length normal_keys = 88" "length shift_keys = 88" "length ctl_keys = 56"
  by (simp_all add: normal_keys_def shift_keys_def ctl_keys_def)

text \<open>The keys with a character are no modifiers.\<close>

lemma modifier_keys:
  "normal_keys ! 29 = 0" "normal_keys ! 42 = 0" "normal_keys ! 54 = 0" "normal_keys ! 56 = 0" "normal_keys ! 58 = 0" "normal_keys ! 69 = 0" "normal_keys ! 70 = 0"
  "shift_keys ! 29 = 0" "shift_keys ! 42 = 0" "shift_keys ! 54 = 0" "shift_keys ! 56 = 0" "shift_keys ! 58 = 0" "shift_keys ! 69 = 0" "shift_keys ! 70 = 0"
  "ctl_keys ! 29 = 0" "ctl_keys ! 42 = 0" "ctl_keys ! 54 = 0"
  by (simp_all add: normal_keys_def shift_keys_def ctl_keys_def)

text \<open>A code below 128 and the code of its release.\<close>

lemma low_code:
  assumes "unat (x :: u8) < 128"
  shows "x AND 0x80 = 0" "(x OR 0x80) AND 0x80 = 0x80" "(x OR 0x80) AND 0x7F = x" "unat (x OR 0x80) = unat x + 128"
proof -
  have lo: "\<not> bit x n" if "7 \<le> n" for n
  proof
    assume b: "bit x n"
    then have "n < 8" using bit_imp_le_length by fastforce
    then have "n = 7" using that by simp
    then have "bit (unat x) 7" using b by (simp add: bit_unsigned_iff)
    then show False using assms by (simp add: bit_iff_odd)
  qed
  have c: "(0x80 :: u8) = push_bit 7 1" "(0x7F :: u8) = mask 7" by (simp_all add: mask_eq_exp_minus_1)
  have b: "bit (0x80 :: u8) n \<longleftrightarrow> n = 7" "bit (0x7F :: u8) n \<longleftrightarrow> n < 7" for n
    unfolding c bit_push_bit_iff bit_mask_iff by (auto simp: bit_1_iff)
  show z: "x AND 0x80 = 0"
  proof (rule bit_word_eqI)
    fix n
    show "bit (x AND 0x80) n = bit (0 :: u8) n" unfolding bit_and_iff b using lo [of n] by auto
  qed
  show "(x OR 0x80) AND 0x80 = 0x80" by (simp add: bit.conj_disj_distrib2 z)
  show "(x OR 0x80) AND 0x7F = x"
  proof (rule bit_word_eqI)
    fix n
    show "bit ((x OR 0x80) AND 0x7F) n = bit x n" unfolding bit_and_iff bit_or_iff b using lo [of n] by (cases "n < 7") auto
  qed
  have "x OR 0x80 = x + 0x80" using disjunctive_add_eq_or [OF z] by simp
  then show "unat (x OR 0x80) = unat x + 128" using assms by (simp add: unat_word_ariths)
qed

lemma plain_key:
  assumes "k < length xs" "xs ! k = c" "c \<noteq> 0" "layout sh xs"
  shows "shiftcode (of_nat k) = 0" "togglecode (of_nat k) = 0" "unat (of_nat k :: u8) = k" "(of_nat k :: u8) \<noteq> 0xE0" "(of_nat k OR 0x80 :: u8) \<noteq> 0xE0" "k < 88"
proof -
  show lt: "k < 88" using assms(1,4) by (auto simp: layout_def keys_length)
  show u: "unat (of_nat k :: u8) = k" using lt by (simp add: unat_of_nat)
  have ne: "(of_nat k :: u8) \<noteq> j" if "unat j \<noteq> k" for j using u that by metis
  have "k \<notin> {29, 42, 54, 56, 58, 69, 70}" using assms modifier_keys by (auto simp: layout_def keys_length)
  then show "shiftcode (of_nat k) = 0" "togglecode (of_nat k) = 0"
    using ne lt by (simp_all add: shiftcode_def togglecode_def)
  show "(of_nat k :: u8) \<noteq> 0xE0" using lt by (intro ne) simp
  have "unat (of_nat k OR 0x80 :: u8) = k + 128" using low_code(4) [of "of_nat k"] u lt by simp
  then show "(of_nat k OR 0x80 :: u8) \<noteq> 0xE0" using lt by auto
qed

lemma kbd_masks:
  "(1 :: u8) AND KBS_DIB \<noteq> 0" "(0 :: u32) AND E0ESC = 0" "SHIFT AND E0ESC = 0" "CTL AND E0ESC = 0" "(0 :: u32) AND (CTL OR SHIFT) = 0"
  "SHIFT AND (CTL OR SHIFT) = SHIFT" "CTL AND (CTL OR SHIFT) = CTL" "(0 :: u32) AND CAPSLOCK = 0" "SHIFT AND CAPSLOCK = 0" "CTL AND CAPSLOCK = 0"
  "SHIFT AND NOT E0ESC = SHIFT" "CTL AND NOT E0ESC = CTL" "SHIFT AND NOT (SHIFT OR E0ESC) = 0"
  by (simp_all add: KBS_DIB_def E0ESC_def SHIFT_def CTL_def CAPSLOCK_def)

lemma press_key:
  assumes "k < length xs" "xs ! k = c" "c \<noteq> 0" "layout sh xs"
  shows "kbdgetc 1 (of_nat k) sh = (Some c, sh)" "kbdgetc 1 (of_nat k OR 0x80) sh = (Some 0, sh)"
proof -
  note p = plain_key [OF assms]
  have lt: "unat (of_nat k :: u8) < 128" using p(3,6) by simp
  note l = low_code [OF lt]
  have t: "table xs ps (of_nat k) = c" for ps using assms(1,2) p(3) by (simp add: table_def)
  have m: "charcode (sh AND (CTL OR SHIFT)) (of_nat k) = c"
  proof -
    have "unat (0 :: u32) = 0" "unat SHIFT = 1" "unat CTL = 2" by (simp_all add: SHIFT_def CTL_def)
    then show ?thesis using assms(4) t by (auto simp: layout_def charcode_def kbd_masks normalmap_def shiftmap_def ctlmap_def)
  qed
  show "kbdgetc 1 (of_nat k) sh = (Some c, sh)"
    using assms(4) m by (auto simp: layout_def kbdgetc_def kbd_masks p l Let_def)
  show "kbdgetc 1 (of_nat k OR 0x80) sh = (Some 0, sh)"
    using assms(4) by (auto simp: layout_def kbdgetc_def kbd_masks p l Let_def)
qed

lemma modifier_key:
  "kbdgetc 1 0x2A 0 = (Some 0, SHIFT)" "kbdgetc 1 0xAA SHIFT = (Some 0, 0)" "kbdgetc 1 0x1D 0 = (Some 0, CTL)" "kbdgetc 1 0x9D CTL = (Some 0, 0)"
  by (simp_all add: kbdgetc_def Let_def charcode_def SHIFT_def CTL_def CAPSLOCK_def E0ESC_def KBS_DIB_def shiftcode_def togglecode_def
      shiftmap_def ctlmap_def table_def shift_keys_def ctl_keys_def)

text \<open>The tables of the code agree with the keyboard.\<close>

definition map_for :: "u32 \<Rightarrow> u8 list" where
  "map_for sh = (if sh = 0 then normal_keys else if sh = SHIFT then shift_keys else ctl_keys)"

lemma us_keys_maps:
  "list_all (\<lambda>(c, sh, k). c \<noteq> 0 \<and> (sh = 0 \<or> sh = SHIFT \<or> sh = CTL) \<and> unat k < length (map_for sh) \<and> map_for sh ! unat k = c) us_keys"
  by code_simp

lemma us_keys_chars:
  "map (\<lambda>k. uint (fst k)) us_keys =
   [27, 8, 9, 10, 49, 50, 51, 52, 53, 54, 55, 56, 57, 48, 45, 61, 113, 119, 101, 114, 116, 121, 117, 105, 111,
    112, 91, 93, 97, 115, 100, 102, 103, 104, 106, 107, 108, 59, 39, 96, 92, 122, 120, 99, 118, 98, 110, 109, 44,
    46, 47, 32, 33, 64, 35, 36, 37, 94, 38, 42, 40, 41, 95, 43, 81, 87, 69, 82, 84, 89, 85, 73, 79, 80, 123, 125,
    65, 83, 68, 70, 71, 72, 74, 75, 76, 58, 34, 126, 124, 90, 88, 67, 86, 66, 78, 77, 60, 62, 63, 32, 17, 23, 5,
    18, 20, 25, 21, 9, 15, 16, 1, 19, 4, 6, 7, 8, 10, 11, 12, 26, 24, 3, 22, 2, 14, 13, 28, 239]"
  by code_simp

text \<open>The keyboard has every printable character and the control characters up to 28.\<close>

lemma typable_ascii: "32 \<le> c \<and> c \<le> 126 \<or> 1 \<le> c \<and> c \<le> 28 \<Longrightarrow> typable c"
proof -
  have all: "list_all (\<lambda>n. n \<in> set (map (\<lambda>k. uint (fst k)) us_keys)) ([32 .. 126] @ [1 .. 28])" unfolding us_keys_chars by code_simp
  assume "32 \<le> c \<and> c \<le> 126 \<or> 1 \<le> c \<and> c \<le> 28"
  then have "uint c \<in> set ([32 .. 126] @ [1 .. 28])" unfolding set_append set_upto Un_iff atLeastAtMost_iff word_le_def by simp
  with all have "uint c \<in> set (map (\<lambda>k. uint (fst k)) us_keys)" by (simp only: list_all_iff)
  then obtain k where "k \<in> set us_keys" "uint (fst k) = uint c" by auto
  moreover from this(2) have "fst k = c" by (rule word_uint_eqI)
  ultimately show ?thesis by (auto simp: typable_def)
qed

lemma us_key_layout:
  assumes "typable c"
  obtains sh k xs where "map_of us_keys c = Some (sh, of_nat k)" "layout sh xs" "k < length xs" "xs ! k = c" "c \<noteq> 0"
proof -
  obtain sh k where m: "map_of us_keys c = Some (sh, k)" using assms unfolding typable_def by (metis map_of_eq_None_iff list.set_map not_None_eq prod.exhaust)
  then have "(c, sh, k) \<in> set us_keys" by (rule map_of_SomeD)
  then have *: "c \<noteq> 0" "sh = 0 \<or> sh = SHIFT \<or> sh = CTL" "unat k < length (map_for sh)" "map_for sh ! unat k = c"
    using us_keys_maps by (auto simp: list_all_iff)
  have "layout sh (map_for sh)" using *(2) by (auto simp: layout_def map_for_def SHIFT_def CTL_def)
  then show thesis using m * by (intro that [of sh "unat k" "map_for sh"]) simp_all
qed

lemma kbd_chars_Cons: "kbdgetc 1 k sh = (Some c, t) \<Longrightarrow> kbd_chars sh ((1, k) # qs) = (c # fst (kbd_chars t qs), snd (kbd_chars t qs))"
  by (simp add: map_prod_def split: prod.split)

lemma strokes_ok:
  assumes "typable c"
  shows "\<exists>cs. kbd_chars 0 (strokes c @ qs) = (cs @ fst (kbd_chars 0 qs), snd (kbd_chars 0 qs)) \<and> filter (\<lambda>c. c \<noteq> 0) cs = [c]"
proof -
  obtain sh k xs where k: "map_of us_keys c = Some (sh, of_nat k)" "layout sh xs" "k < length xs" "xs ! k = c" and c: "c \<noteq> 0"
    using us_key_layout [OF assms] .
  note key = press_key [OF k(3,4) c k(2), THEN kbd_chars_Cons]
  note mods = modifier_key [THEN kbd_chars_Cons]
  have ne: "SHIFT \<noteq> 0" "CTL \<noteq> 0" "CTL \<noteq> SHIFT" by (simp_all add: SHIFT_def CTL_def)
  consider "sh = 0" | "sh = SHIFT" | "sh = CTL" using k(2) by (auto simp: layout_def)
  then show ?thesis
  proof cases
    case 1
    then show ?thesis using k(1) c by (intro exI [of _ "[c, 0]"]) (simp add: strokes_def key [unfolded 1] del: kbd_chars.simps)
  next
    case 2
    then show ?thesis using k(1) c ne by (intro exI [of _ "[0, c, 0, 0]"]) (simp add: strokes_def key [unfolded 2] mods del: kbd_chars.simps)
  next
    case 3
    then show ?thesis using k(1) c ne by (intro exI [of _ "[0, c, 0, 0]"]) (simp add: strokes_def key [unfolded 3] mods del: kbd_chars.simps)
  qed
qed

lemma typed_text:
  assumes "\<forall>c \<in> set cs. typable c"
  shows "filter (\<lambda>c. c \<noteq> 0) (fst (kbd_chars 0 (concat (map strokes cs)))) = cs \<and> snd (kbd_chars 0 (concat (map strokes cs))) = 0"
  using assms
proof (induction cs)
  case (Cons c cs)
  obtain ds where "kbd_chars 0 (strokes c @ concat (map strokes cs)) = (ds @ fst (kbd_chars 0 (concat (map strokes cs))), snd (kbd_chars 0 (concat (map strokes cs))))"
    "filter (\<lambda>c. c \<noteq> 0) ds = [c]" using strokes_ok [of c] Cons.prems by auto
  then show ?case using Cons by simp
qed simp

lemma edit_spec_0: "edit_spec 0 v = v"
  by (cases v) (simp add: edit_spec_def)

lemma fold_edit_spec: "fold edit_spec (filter (\<lambda>c. c \<noteq> 0) cs) v = fold edit_spec cs v"
  by (induction cs arbitrary: v) (auto simp: edit_spec_0)

section \<open>Typing a text\<close>

text \<open>
  C39: typing.  Given any text of characters that a US keyboard has (all printable characters, enter, tab, backspace, escape and the control
  characters up to 28), let the keys of that keyboard be pressed and released one character after the other, with the shift or the control key where the keyboard needs it.
  The interrupt handler decodes the scan codes of the hardware to exactly this text: the line editor does what it does on the text, no modifier is left pressed, and the lock of the console is free again.
\<close>

theorem typing_decodes:
  assumes "quiet s" "\<not> panicked s" "cursor s < 24 * 80" "input_ok s" "\<forall>c \<in> set cs. typable c"
  shows "okp (\<lambda>(dump, shift) t. shift = 0 \<and> quiet t \<and> input_ok t \<and> input_view t = fold edit_spec cs (input_view s) \<and> (dump \<longleftrightarrow> 16 \<in> set cs))
    (kbdintr 0 (concat (map strokes cs)) s)"
proof -
  obtain ds t where ds: "kbd_chars 0 (concat (map strokes cs)) = (ds, t)" by fastforce
  have f: "filter (\<lambda>c. c \<noteq> 0) ds = cs" "t = 0" using typed_text [OF assms(5)] ds by auto
  have "16 \<in> set ds \<longleftrightarrow> 16 \<in> set cs" using f(1) by auto
  moreover have "fold edit_spec ds v = fold edit_spec cs v" for v using fold_edit_spec [of ds v] f(1) by simp
  ultimately show ?thesis
    using line_discipline [OF assms(1-4), of ds] f(2)
    by (auto simp: kbdintr_def ds kern_simps elim!: okpE)
qed

theorem typing_decodes_witness:
  "okp (\<lambda>r t. input_view t = ([72, 105, 33, 10], []) \<and> snd r = 0) (kbdintr 0 (concat (map strokes [72, 120, 8, 105, 33, 10])) ex_console)"
proof -
  have "\<forall>c \<in> set [72, 120, 8, 105, 33, 10]. typable c"
    by (auto intro!: typable_ascii)
  from typing_decodes [OF ex_console_ok(1-4) this] show ?thesis
    by (rule okp_mono) (auto simp: ex_console_ok(5) edit_spec_def)
qed

end
