(* ===== verification/Mkfs.thy ===== *)
theory Mkfs
  imports Fs
begin

unbundle bit_operations_syntax

text \<open>
  The program that builds the disk image (\<open>mkfs.c\<close>): boot block, superblock, empty log, inodes, free map and the data of the files that are
  put into the root directory.  The image is the sequence of its blocks; the program runs on the host, where the calls on
  the image file succeed, except that reading past its end gives no bytes (the blocks of files and inodes are read before they are written, so the
  image never grows).  \<open>xint\<close> and \<open>xshort\<close> put the bytes of a number in the order of the disk; the fields of an inode are kept as
  numbers here, and \<open>put_dinode\<close> and \<open>get_dinode\<close> of theory \<open>Fs\<close> write and read their bytes in this order.  A failing assertion or read ends the program, the outcome \<open>Panic\<close>.
\<close>

section \<open>State\<close>

definition NINODES :: u32 where "NINODES = 200"
definition FSSIZE_mk :: nat where "FSSIZE_mk = 1000"
definition nbitmap :: nat where "nbitmap = FSSIZE_mk div (BSIZE * 8) + 1"
definition ninodeblocks :: nat where "ninodeblocks = unat NINODES div IPB + 1"
definition nlog :: nat where "nlog = 30"
definition nmeta :: nat where "nmeta = 2 + nlog + ninodeblocks + nbitmap"

record mkst =
  img :: "nat \<Rightarrow> bytes"
  msb :: superblock
  freeinode :: u32
  freeblock :: u32

type_synonym 'r mkern = "(mkst, 'r) kern"

definition xshort :: "u16 \<Rightarrow> u8 list" where
  "xshort x = [ucast x, ucast (drop_bit 8 x)]"

definition xint :: "u32 \<Rightarrow> u8 list" where
  "xint x = [ucast x, ucast (drop_bit 8 x), ucast (drop_bit 16 x), ucast (drop_bit 24 x)]"

definition wsect :: "nat \<Rightarrow> bytes \<Rightarrow> unit mkern" where
  "wsect sec buf = modk (\<lambda>s. s\<lparr>img := (img s)(sec := buf)\<rparr>)"

definition rsect :: "nat \<Rightarrow> bytes mkern" where
  "rsect sec = (if sec < FSSIZE_mk then getk (\<lambda>s. img s sec) else panic ''read'')"

definition assertk :: "bool \<Rightarrow> unit mkern" where
  "assertk b = (if b then ret () else panic ''assert'')"

section \<open>Inodes\<close>

definition blank_inode :: inode where
  "blank_inode = \<lparr>i_dev = 0, i_inum = 0, i_ref = 0, i_lock = \<lparr>sl_locked = False, sl_pid = 0\<rparr>, i_valid = False, i_type = 0, i_major = 0, i_minor = 0,
     i_nlink = 0, i_size = 0, i_addrs = (\<lambda>_. 0)\<rparr>"

definition rinode :: "u32 \<Rightarrow> inode mkern" where
  "rinode inum = (\<lambda>s. bindk (rsect (unat (IBLOCK inum (msb s)))) (\<lambda>buf. ret (get_dinode (dinode_off inum) buf blank_inode)) s)"

definition winode :: "u32 \<Rightarrow> inode \<Rightarrow> unit mkern" where
  "winode inum ip = (\<lambda>s. bindk (rsect (unat (IBLOCK inum (msb s)))) (\<lambda>buf.
     wsect (unat (IBLOCK inum (msb s))) (put_dinode (dinode_off inum) ip buf)) s)"

definition mk_ialloc :: "u16 \<Rightarrow> u32 mkern" where
  "mk_ialloc ty = bindk (getk freeinode) (\<lambda>inum.
     seqk (modk (\<lambda>s. s\<lparr>freeinode := freeinode s + 1\<rparr>))
       (seqk (winode inum (blank_inode\<lparr>i_type := ty, i_nlink := 1, i_size := 0\<rparr>)) (ret inum)))"

text \<open>The free map: the bits of the first \<open>n\<close> blocks are set.\<close>

fun set_bits :: "nat \<Rightarrow> nat \<Rightarrow> bytes \<Rightarrow> bytes" where
  "set_bits i 0 buf = buf"
| "set_bits i (Suc n) buf = set_bits (Suc i) n (buf(i div 8 := buf (i div 8) OR push_bit (i mod 8) 1))"

definition mk_balloc :: "nat \<Rightarrow> unit mkern" where
  "mk_balloc n = (\<lambda>s. seqk (assertk (n < BSIZE * 8)) (wsect (unat (sb_bmapstart (msb s))) (set_bits 0 n (\<lambda>_. 0))) s)"

section \<open>Appending to a file\<close>

definition take_block :: "u32 mkern" where
  "take_block = (\<lambda>s. Ok (freeblock s, s\<lparr>freeblock := freeblock s + 1\<rparr>))"

text \<open>The block of number \<open>fbn\<close> of the file, taken from the free blocks when there is none yet.\<close>

definition mk_bmap :: "inode \<Rightarrow> nat \<Rightarrow> (inode \<times> u32) mkern" where
  "mk_bmap din fbn =
     (if fbn < NDIRECT then
        bindk (if i_addrs din fbn = 0 then bindk take_block (\<lambda>b. ret (din\<lparr>i_addrs := (i_addrs din)(fbn := b)\<rparr>)) else ret din)
          (\<lambda>din. ret (din, i_addrs din fbn))
      else
        bindk (if i_addrs din NDIRECT = 0 then bindk take_block (\<lambda>b. ret (din\<lparr>i_addrs := (i_addrs din)(NDIRECT := b)\<rparr>)) else ret din)
          (\<lambda>din. bindk (rsect (unat (i_addrs din NDIRECT))) (\<lambda>indirect.
             if get32 indirect (4 * (fbn - NDIRECT)) = 0 then
               bindk take_block (\<lambda>b. seqk (wsect (unat (i_addrs din NDIRECT)) (put32 (4 * (fbn - NDIRECT)) b indirect)) (ret (din, b)))
             else ret (din, get32 indirect (4 * (fbn - NDIRECT))))))"

definition put_list :: "nat \<Rightarrow> u8 list \<Rightarrow> bytes \<Rightarrow> bytes" where
  "put_list off xs buf = (\<lambda>k. if off \<le> k \<and> k < off + length xs then xs ! (k - off) else buf k)"

function iappend_loop :: "inode \<Rightarrow> nat \<Rightarrow> u8 list \<Rightarrow> (inode \<times> nat) mkern" where
  "iappend_loop din off xs =
     (if xs = [] then ret (din, off)
      else let fbn = off div BSIZE; n1 = min (length xs) ((fbn + 1) * BSIZE - off) in
        seqk (assertk (fbn < MAXFILE))
          (bindk (mk_bmap din fbn) (\<lambda>(din, x).
             bindk (rsect (unat x)) (\<lambda>buf.
               seqk (wsect (unat x) (put_list (off - fbn * BSIZE) (take n1 xs) buf))
                 (iappend_loop din (off + n1) (drop n1 xs))))))"
  by auto
termination
proof (relation "measure (\<lambda>(din, off, xs). length xs)", goal_cases)
  case (2 din off xs fbn n1)
  have "off < (off div BSIZE + 1) * BSIZE" by (simp add: BSIZE_def dividend_less_div_times)
  then show ?case using 2 by auto
qed simp

declare iappend_loop.simps [simp del]

definition iappend :: "u32 \<Rightarrow> u8 list \<Rightarrow> unit mkern" where
  "iappend inum xs = bindk (rinode inum) (\<lambda>din.
     bindk (iappend_loop din (unat (i_size din)) xs) (\<lambda>(din, off). winode inum (din\<lparr>i_size := of_nat off\<rparr>)))"

section \<open>Building the image\<close>

text \<open>The bytes of the superblock and of a directory entry, whose name is given with its 14 bytes.\<close>

definition sb_bytes :: "superblock \<Rightarrow> u8 list" where
  "sb_bytes x = xint (sb_size x) @ xint (sb_nblocks x) @ xint (sb_ninodes x) @ xint (sb_nlog x) @ xint (sb_logstart x) @
     xint (sb_inodestart x) @ xint (sb_bmapstart x)"

definition dirent :: "u32 \<Rightarrow> u8 list \<Rightarrow> u8 list" where
  "dirent inum name = xshort (ucast inum) @ take DIRSIZ (name @ replicate DIRSIZ 0)"

definition mk_sb :: superblock where
  "mk_sb = \<lparr>sb_size = of_nat FSSIZE_mk, sb_nblocks = of_nat (FSSIZE_mk - nmeta), sb_ninodes = NINODES, sb_nlog = of_nat nlog, sb_logstart = 2,
     sb_inodestart = of_nat (2 + nlog), sb_bmapstart = of_nat (2 + nlog + ninodeblocks)\<rparr>"

text \<open>A file that is put into the image: the name, and the parts in which \<open>read\<close> delivers its contents.\<close>

fun append_parts :: "u32 \<Rightarrow> u8 list list \<Rightarrow> unit mkern" where
  "append_parts inum [] = ret ()"
| "append_parts inum (xs # xss) = seqk (iappend inum xs) (append_parts inum xss)"

definition skip_underscore :: "u8 list \<Rightarrow> u8 list" where
  "skip_underscore name = (if name \<noteq> [] \<and> hd name = 95 then tl name else name)"

definition add_file :: "u8 list \<Rightarrow> u8 list list \<Rightarrow> unit mkern" where
  "add_file name parts = seqk (assertk (47 \<notin> set name))
     (bindk (mk_ialloc T_FILE) (\<lambda>inum. seqk (iappend ROOTINO (dirent inum (skip_underscore name))) (append_parts inum parts)))"

fun add_files :: "(u8 list \<times> u8 list list) list \<Rightarrow> unit mkern" where
  "add_files [] = ret ()"
| "add_files ((name, parts) # fs) = seqk (add_file name parts) (add_files fs)"

text \<open>The size of the root directory is rounded up past the end of its last block.\<close>

definition fix_root :: "unit mkern" where
  "fix_root = bindk (rinode ROOTINO) (\<lambda>din. winode ROOTINO (din\<lparr>i_size := (i_size din div of_nat BSIZE + 1) * of_nat BSIZE\<rparr>))"

definition empty_image :: mkst where
  "empty_image = \<lparr>img = (\<lambda>k. if k = 1 then put_list 0 (sb_bytes mk_sb) (\<lambda>_. 0) else (\<lambda>_. 0)), msb = mk_sb, freeinode = 1, freeblock = of_nat nmeta\<rparr>"

definition mkfs :: "(u8 list \<times> u8 list list) list \<Rightarrow> unit mkern" where
  "mkfs files = seqk (modk (\<lambda>_. empty_image))
     (bindk (mk_ialloc T_DIR) (\<lambda>rootino.
        seqk (assertk (rootino = ROOTINO))
          (seqk (iappend rootino (dirent rootino [46]))
            (seqk (iappend rootino (dirent rootino [46, 46]))
              (seqk (add_files files)
                (seqk fix_root (\<lambda>s. mk_balloc (unat (freeblock s)) s)))))))"

end
