(* ===== verification/Mkfs_Files.thy ===== *)
theory Mkfs_Files
  imports Mkfs Fs_File
begin

unbundle bit_operations_syntax

text \<open>
  Files on the image that \<open>mkfs\<close> builds: a file is the list of the bytes of its blocks, and \<open>iappend\<close> appends to the list, takes exactly the blocks that
  are needed, and leaves every other file alone.
\<close>

section \<open>A file on an image\<close>

definition iaddr :: "(nat \<Rightarrow> bytes) \<Rightarrow> (nat \<Rightarrow> u32) \<Rightarrow> nat \<Rightarrow> u32" where
  "iaddr m ad bn = (if bn < NDIRECT then ad bn else if ad NDIRECT = 0 then 0 else get32 (m (unat (ad NDIRECT))) (4 * (bn - NDIRECT)))"

definition iblocks :: "(nat \<Rightarrow> bytes) \<Rightarrow> (nat \<Rightarrow> u32) \<Rightarrow> nat set" where
  "iblocks m ad = unat ` ({ad NDIRECT} \<union> iaddr m ad ` {..< MAXFILE} - {0})"

definition ibyte :: "(nat \<Rightarrow> bytes) \<Rightarrow> (nat \<Rightarrow> u32) \<Rightarrow> nat \<Rightarrow> u8" where
  "ibyte m ad k = m (unat (iaddr m ad (k div BSIZE))) (k mod BSIZE)"

definition addrs_good :: "(nat \<Rightarrow> bytes) \<Rightarrow> (nat \<Rightarrow> u32) \<Rightarrow> nat \<Rightarrow> bool" where
  "addrs_good m ad fb \<longleftrightarrow> iblocks m ad \<subseteq> {nmeta ..< fb} \<and>
     (\<forall>bn < MAXFILE. iaddr m ad bn \<noteq> 0 \<longrightarrow> iaddr m ad bn \<noteq> ad NDIRECT \<and> (\<forall>bn' < MAXFILE. iaddr m ad bn' = iaddr m ad bn \<longrightarrow> bn' = bn))"

text \<open>Exactly the blocks that the bytes need are there, and the rest of the last one is zero.\<close>

definition file_at :: "(nat \<Rightarrow> bytes) \<Rightarrow> (nat \<Rightarrow> u32) \<Rightarrow> nat \<Rightarrow> u8 list \<Rightarrow> bool" where
  "file_at m ad fb xs \<longleftrightarrow> length xs \<le> MAXFILE * BSIZE \<and> addrs_good m ad fb \<and>
     (\<forall>bn < MAXFILE. iaddr m ad bn \<noteq> 0 \<longleftrightarrow> bn * BSIZE < length xs) \<and> (ad NDIRECT \<noteq> 0 \<longleftrightarrow> NDIRECT * BSIZE < length xs) \<and>
     (\<forall>k < MAXFILE * BSIZE. iaddr m ad (k div BSIZE) \<noteq> 0 \<longrightarrow> ibyte m ad k = (if k < length xs then xs ! k else 0))"

definition unused_zero :: "(nat \<Rightarrow> bytes) \<Rightarrow> nat \<Rightarrow> bool" where
  "unused_zero m fb \<longleftrightarrow> (\<forall>k \<ge> fb. m k = (\<lambda>_. 0))"

text \<open>The number of blocks of a file of \<open>n\<close> bytes, with the indirect block.\<close>

definition blocks_of :: "nat \<Rightarrow> nat" where
  "blocks_of n = (n + 511) div 512 + (if NDIRECT * BSIZE < n then 1 else 0)"

lemma iaddr_0: "nmeta \<le> unat a \<Longrightarrow> (a :: u32) \<noteq> 0"
  by (auto simp: nmeta_def)

lemma iaddr_cong: "(ad NDIRECT \<noteq> 0 \<Longrightarrow> m' (unat (ad NDIRECT)) = m (unat (ad NDIRECT))) \<Longrightarrow> iaddr m' ad = iaddr m ad"
  by (intro ext) (simp add: iaddr_def)

lemma in_iblocks:
  "ad NDIRECT \<noteq> 0 \<Longrightarrow> unat (ad NDIRECT) \<in> iblocks m ad" "bn < MAXFILE \<Longrightarrow> iaddr m ad bn \<noteq> 0 \<Longrightarrow> unat (iaddr m ad bn) \<in> iblocks m ad"
  by (auto simp: iblocks_def)

text \<open>A file depends on its own blocks only.\<close>

lemma file_at_frame:
  assumes "file_at m ad fb xs" "fb \<le> fb'" "\<And>k. k \<in> iblocks m ad \<Longrightarrow> m' k = m k"
  shows "file_at m' ad fb' xs" "iblocks m' ad = iblocks m ad"
proof -
  have a: "iaddr m' ad = iaddr m ad" by (rule iaddr_cong) (use assms(3) in_iblocks(1) in blast)
  then show b: "iblocks m' ad = iblocks m ad" by (simp add: iblocks_def)
  have "ibyte m' ad k = ibyte m ad k" if "k < MAXFILE * BSIZE" "iaddr m ad (k div BSIZE) \<noteq> 0" for k
    using in_iblocks(2) [OF fbyte_block [OF that(1)] that(2)] assms(3) by (simp add: ibyte_def a)
  then show "file_at m' ad fb' xs" using assms(1,2) by (auto simp: file_at_def addrs_good_def a b)
qed

section \<open>Taking a block\<close>

lemma get32_zero: "get32 (\<lambda>_. 0) k = 0"
  by (simp add: get32_def)

lemma fresh_word: "fb < 2 ^ 32 \<Longrightarrow> unat (of_nat fb :: u32) = fb"
  by (simp add: unat_of_nat)

text \<open>The indirect block is taken: it has no entries yet.\<close>

lemma take_indirect:
  assumes "addrs_good m ad fb" "unused_zero m fb" "ad NDIRECT = 0" "nmeta \<le> fb" "fb < 2 ^ 32"
  defines "ad' \<equiv> ad(NDIRECT := of_nat fb)"
  shows "iaddr m ad' = iaddr m ad" "addrs_good m ad' (Suc fb)" "iblocks m ad' = insert fb (iblocks m ad)"
proof -
  have u: "unat (ad' NDIRECT) = fb" "ad' NDIRECT \<noteq> 0" using assms(4,5) by (simp_all add: ad'_def fresh_word iaddr_0)
  show a: "iaddr m ad' = iaddr m ad"
  proof
    have "m fb = (\<lambda>_. 0)" using assms(2) by (simp add: unused_zero_def)
    then show "iaddr m ad' bn = iaddr m ad bn" for bn using assms(3) u by (simp add: iaddr_def get32_zero ad'_def)
  qed
  show b: "iblocks m ad' = insert fb (iblocks m ad)"
  proof -
    have "iblocks m ad' = unat ` (insert (ad' NDIRECT) (iaddr m ad ` {..< MAXFILE} - {0}))" using u(2) by (auto simp: iblocks_def a)
    also have "\<dots> = insert fb (unat ` (iaddr m ad ` {..< MAXFILE} - {0}))" by (simp add: u(1))
    also have "unat ` (iaddr m ad ` {..< MAXFILE} - {0}) = iblocks m ad" using assms(3) by (simp add: iblocks_def)
    finally show ?thesis .
  qed
  have "iaddr m ad bn \<noteq> ad' NDIRECT" if "bn < MAXFILE" "iaddr m ad bn \<noteq> 0" for bn
    using in_iblocks(2) [of bn m ad] that assms(1) u(1) by (auto simp: addrs_good_def)
  then show "addrs_good m ad' (Suc fb)" using assms(1,4) unfolding addrs_good_def a b by auto
qed

text \<open>The data block of number \<open>bn\<close> is taken.\<close>

lemma take_data:
  assumes "addrs_good m ad fb" "bn < MAXFILE" "iaddr m ad bn = 0" "nmeta \<le> fb" "fb < 2 ^ 32"
    and new: "iaddr m' ad' = (iaddr m ad)(bn := of_nat fb)" "ad' NDIRECT = ad NDIRECT"
  shows "addrs_good m' ad' (Suc fb)" "iblocks m' ad' = insert fb (iblocks m ad)"
proof -
  have u: "unat (of_nat fb :: u32) = fb" "(of_nat fb :: u32) \<noteq> 0" using assms(4,5) by (simp_all add: fresh_word iaddr_0)
  have b: "{ad NDIRECT} \<union> (iaddr m ad)(bn := of_nat fb) ` {..< MAXFILE} - {0} = insert (of_nat fb) ({ad NDIRECT} \<union> iaddr m ad ` {..< MAXFILE} - {0})"
    using assms(2,3) u(2) by (auto simp: image_iff split: if_splits)
  then show bl: "iblocks m' ad' = insert fb (iblocks m ad)" unfolding iblocks_def new by (simp add: u(1))
  have old: "of_nat fb \<noteq> ad NDIRECT" "\<And>bn'. bn' < MAXFILE \<Longrightarrow> iaddr m ad bn' \<noteq> of_nat fb"
  proof -
    have n: "fb \<notin> iblocks m ad" using assms(1) by (auto simp: addrs_good_def)
    show "of_nat fb \<noteq> ad NDIRECT" using n in_iblocks(1) [of ad m] u by metis
    show "iaddr m ad bn' \<noteq> of_nat fb" if "bn' < MAXFILE" for bn' using n in_iblocks(2) [of bn' m ad] that u by metis
  qed
  show "addrs_good m' ad' (Suc fb)"
    unfolding addrs_good_def bl new
  proof (intro conjI allI impI)
    show "insert fb (iblocks m ad) \<subseteq> {nmeta ..< Suc fb}" using assms(1,4) by (auto simp: addrs_good_def)
    fix c assume c: "c < MAXFILE" "((iaddr m ad)(bn := of_nat fb)) c \<noteq> 0"
    show "((iaddr m ad)(bn := of_nat fb)) c \<noteq> ad NDIRECT"
      using c old(1) assms(1) by (cases "c = bn") (simp_all add: addrs_good_def)
    fix c' assume c': "c' < MAXFILE" "((iaddr m ad)(bn := of_nat fb)) c' = ((iaddr m ad)(bn := of_nat fb)) c"
    show "c' = c"
    proof (cases "c = bn \<or> c' = bn")
      case True
      then show ?thesis using c' old(2) [OF c(1)] old(2) [OF c'(1)] by (metis fun_upd_apply)
    next
      case False
      then show ?thesis using c c' assms(1) by (simp add: addrs_good_def)
    qed
  qed
qed

lemma put_entry:
  assumes "ad NDIRECT \<noteq> 0" "NDIRECT \<le> bn"
  shows "iaddr (m(unat (ad NDIRECT) := put32 (4 * (bn - NDIRECT)) b (m (unat (ad NDIRECT))))) ad = (iaddr m ad)(bn := b)"
proof
  fix c
  show "iaddr (m(unat (ad NDIRECT) := put32 (4 * (bn - NDIRECT)) b (m (unat (ad NDIRECT))))) ad c = ((iaddr m ad)(bn := b)) c"
  proof (cases "c = bn")
    case False
    show ?thesis
    proof (cases "c < NDIRECT")
      case True
      then show ?thesis using False by (simp add: iaddr_def)
    next
      case ge: False
      then have "4 * (bn - NDIRECT) + 4 \<le> 4 * (c - NDIRECT) \<or> 4 * (c - NDIRECT) + 4 \<le> 4 * (bn - NDIRECT)"
        using assms(2) False by arith
      then have "get32 (put32 (4 * (bn - NDIRECT)) b d) (4 * (c - NDIRECT)) = get32 d (4 * (c - NDIRECT))" for d by (rule get_put_other(1))
      moreover have "((iaddr m ad)(bn := b)) c = iaddr m ad c" using False by simp
      ultimately show ?thesis using assms(1) ge by (simp only: iaddr_def if_False fun_upd_same)
    qed
  qed (use assms in \<open>simp add: iaddr_def\<close>)
qed

lemma blocks_step:
  "n mod 512 = 0 \<Longrightarrow> n \<noteq> 6144 \<Longrightarrow> blocks_of (n + 1) = blocks_of n + 1" "n mod 512 \<noteq> 0 \<Longrightarrow> blocks_of (n + 1) = blocks_of n"
  "blocks_of 6145 = blocks_of 6144 + 2"
proof -
  obtain q r where q: "n = 512 * q + r" "r < 512" using div_mult_mod_eq [of n 512] mod_less_divisor [of 512 n] by (metis mult.commute zero_less_numeral)
  have nr: "n mod 512 = r" using q by simp
  then have "r \<noteq> 0 \<Longrightarrow> n \<noteq> 6144" by auto
  note nr
  moreover have "(512 * q + r + 511) div 512 = (if r = 0 then q else q + 1)" "(512 * q + r + 1 + 511) div 512 = q + 1"
    using q(2) by (cases "r = 0"; intro div_nat_eqI; simp)+
  ultimately show "n mod 512 = 0 \<Longrightarrow> n \<noteq> 6144 \<Longrightarrow> blocks_of (n + 1) = blocks_of n + 1" "n mod 512 \<noteq> 0 \<Longrightarrow> blocks_of (n + 1) = blocks_of n"
    using q \<open>r \<noteq> 0 \<Longrightarrow> n \<noteq> 6144\<close> by (auto simp: blocks_of_def NDIRECT_def BSIZE_def)
qed (simp add: blocks_of_def NDIRECT_def BSIZE_def)

lemma blocks_mono: "a \<le> b \<Longrightarrow> blocks_of a \<le> blocks_of b"
  unfolding blocks_of_def using div_le_mono [of "a + 511" "b + 511" 512] by simp

text \<open>What \<open>mk_bmap\<close> leaves behind when it is asked for block \<open>bn\<close>.\<close>

definition mapped :: "nat \<Rightarrow> (nat \<Rightarrow> bytes) \<Rightarrow> (nat \<Rightarrow> u32) \<Rightarrow> nat \<Rightarrow> (nat \<Rightarrow> bytes) \<Rightarrow> (nat \<Rightarrow> u32) \<Rightarrow> nat \<Rightarrow> bool" where
  "mapped bn m ad fb m' ad' fb' \<longleftrightarrow> addrs_good m' ad' fb' \<and> iaddr m' ad' bn \<noteq> 0 \<and> (\<forall>c. c \<noteq> bn \<longrightarrow> iaddr m' ad' c = iaddr m ad c) \<and>
     (if iaddr m ad bn \<noteq> 0 then iaddr m' ad' bn = iaddr m ad bn else m' (unat (iaddr m' ad' bn)) = (\<lambda>_. 0)) \<and> (ad' NDIRECT \<noteq> 0 \<longleftrightarrow> NDIRECT \<le> bn \<or> ad NDIRECT \<noteq> 0) \<and>
     iblocks m' ad' = iblocks m ad \<union> {fb ..< fb'} \<and> (\<forall>k. m' k \<noteq> m k \<longrightarrow> ad' NDIRECT \<noteq> 0 \<and> k = unat (ad' NDIRECT)) \<and> unused_zero m' fb'"

lemma mapped_old:
  assumes "addrs_good m ad fb" "unused_zero m fb" "iaddr m ad bn \<noteq> 0"
  shows "mapped bn m ad fb m ad fb"
proof -
  have "NDIRECT \<le> bn \<Longrightarrow> ad NDIRECT \<noteq> 0" using assms(3) by (auto simp: iaddr_def split: if_splits)
  then show ?thesis using assms by (auto simp: mapped_def)
qed

lemma mapped_direct:
  assumes "addrs_good m ad fb" "unused_zero m fb" "nmeta \<le> fb" "fb < 2 ^ 32" "bn < NDIRECT" "ad bn = 0"
  shows "mapped bn m ad fb m (ad(bn := of_nat fb)) (Suc fb)"
proof -
  define ad' where "ad' = ad(bn := of_nat fb)"
  have a: "iaddr m ad' = (iaddr m ad)(bn := of_nat fb)" using assms(5) by (auto simp: iaddr_def ad'_def)
  have lt: "bn < MAXFILE" and z: "iaddr m ad bn = 0" using assms(5,6) by (auto simp: iaddr_def MAXFILE_def)
  have n: "ad' NDIRECT = ad NDIRECT" using assms(5) by (simp add: ad'_def)
  note t = take_data [OF assms(1) lt z assms(3,4) a n]
  have "(of_nat fb :: u32) \<noteq> 0" "unat (of_nat fb :: u32) = fb" using assms(3,4) by (simp_all add: fresh_word iaddr_0)
  then have "mapped bn m ad fb m ad' (Suc fb)" using t n a assms(2,3,5) z unfolding mapped_def by (auto simp: unused_zero_def)
  then show ?thesis by (simp add: ad'_def)
qed

lemma mapped_entry:
  assumes "addrs_good m ad fb" "unused_zero m fb" "nmeta \<le> fb" "fb < 2 ^ 32" "NDIRECT \<le> bn" "bn < MAXFILE" "ad NDIRECT \<noteq> 0" "iaddr m ad bn = 0"
  shows "mapped bn m ad fb (m(unat (ad NDIRECT) := put32 (4 * (bn - NDIRECT)) (of_nat fb) (m (unat (ad NDIRECT))))) ad (Suc fb)"
proof -
  let ?m = "m(unat (ad NDIRECT) := put32 (4 * (bn - NDIRECT)) (of_nat fb) (m (unat (ad NDIRECT))))"
  have a: "iaddr ?m ad = (iaddr m ad)(bn := of_nat fb)" using put_entry [of ad bn m] assms(7,5) by blast
  note t = take_data [OF assms(1,6,8,3,4) a refl]
  have lt: "unat (ad NDIRECT) < fb" using in_iblocks(1) [of ad m] assms(1,7) by (auto simp: addrs_good_def)
  then have "?m fb = (\<lambda>_. 0)" using assms(2) by (simp add: unused_zero_def)
  moreover have "unused_zero ?m (Suc fb)" using assms(2) lt by (auto simp: unused_zero_def)
  moreover have "(of_nat fb :: u32) \<noteq> 0" "unat (of_nat fb :: u32) = fb" using assms(3,4) by (simp_all add: fresh_word iaddr_0)
  ultimately show ?thesis using t assms(5,7,8) unfolding mapped_def a by auto
qed

lemma mapped_indirect:
  assumes "addrs_good m ad fb" "unused_zero m fb" "nmeta \<le> fb" "Suc fb < 2 ^ 32" "NDIRECT \<le> bn" "bn < MAXFILE" "ad NDIRECT = 0"
  shows "mapped bn m ad fb (m(fb := put32 (4 * (bn - NDIRECT)) (of_nat (Suc fb)) (m fb))) (ad(NDIRECT := of_nat fb)) (Suc (Suc fb))"
proof -
  let ?ad = "ad(NDIRECT := of_nat fb)" and ?m = "m(fb := put32 (4 * (bn - NDIRECT)) (of_nat (Suc fb)) (m fb))"
  have fb: "fb < 2 ^ 32" using assms(4) by simp
  note i = take_indirect [OF assms(1,2,7,3) fb]
  have u: "unat (?ad NDIRECT) = fb" "?ad NDIRECT \<noteq> 0" using assms(3) fb by (simp_all add: fresh_word iaddr_0)
  have z: "iaddr m ?ad bn = 0" using assms(5,7) unfolding i(1) by (simp add: iaddr_def)
  have uz: "unused_zero m (Suc fb)" using assms(2) by (simp add: unused_zero_def)
  have "mapped bn m ?ad (Suc fb) (m(unat (?ad NDIRECT) := put32 (4 * (bn - NDIRECT)) (of_nat (Suc fb)) (m (unat (?ad NDIRECT))))) ?ad (Suc (Suc fb))"
    by (rule mapped_entry [OF i(2) uz _ assms(4,5,6) u(2) z]) (use assms(3) in simp)
  then have g: "mapped bn m ?ad (Suc fb) ?m ?ad (Suc (Suc fb))" unfolding u(1) .
  have "iblocks m ?ad \<union> {Suc fb ..< Suc (Suc fb)} = iblocks m ad \<union> {fb ..< Suc (Suc fb)}" unfolding i(3) by auto
  moreover have "iaddr m ad bn = 0" using z unfolding i(1) .
  ultimately show ?thesis using g u(2) assms(5) unfolding mapped_def i(1) by simp
qed

lemma rsect_ok: "sec < FSSIZE_mk \<Longrightarrow> rsect sec s = Ok (img s sec, s)"
  by (simp add: rsect_def kern_simps)

lemma iblocks_less: "addrs_good m ad fb \<Longrightarrow> k \<in> iblocks m ad \<Longrightarrow> fb \<le> n \<Longrightarrow> k < n"
  by (auto simp: addrs_good_def)

lemma next_block_new:
  assumes f: "file_at m ad fb xs" and bn: "bn = length xs div BSIZE" "bn < MAXFILE"
  shows "iaddr m ad bn = 0 \<longleftrightarrow> length xs mod 512 = 0" "ad NDIRECT = 0 \<longleftrightarrow> length xs \<le> 6144"
proof -
  let ?n = "length xs"
  have "bn * 512 < ?n \<longleftrightarrow> ?n mod 512 \<noteq> 0" using bn(1) div_mult_mod_eq [of ?n 512] unfolding BSIZE_def by linarith
  moreover have "iaddr m ad bn \<noteq> 0 \<longleftrightarrow> bn * 512 < ?n" using f bn(2) by (simp add: file_at_def BSIZE_def)
  ultimately show "iaddr m ad bn = 0 \<longleftrightarrow> ?n mod 512 = 0" by metis
  show "ad NDIRECT = 0 \<longleftrightarrow> ?n \<le> 6144" using f by (auto simp: file_at_def NDIRECT_def BSIZE_def)
qed

lemma mk_bmap_ok:
  assumes f: "file_at m ad fb xs" and z: "unused_zero m fb"
    and fb: "nmeta \<le> fb" "fb + (blocks_of (length xs + 1) - blocks_of (length xs)) \<le> FSSIZE_mk" and bn: "bn = length xs div BSIZE" "bn < MAXFILE"
    and s: "img s = m" "freeblock s = of_nat fb" "i_addrs din = ad"
  shows "\<exists>m' ad' fb'. mk_bmap din bn s = Ok ((din\<lparr>i_addrs := ad'\<rparr>, iaddr m' ad' bn), s\<lparr>img := m', freeblock := of_nat fb'\<rparr>) \<and>
    mapped bn m ad fb m' ad' fb' \<and> fb' = fb + (blocks_of (length xs + 1) - blocks_of (length xs))"
proof -
  let ?n = "length xs"
  have g: "addrs_good m ad fb" using f by (simp add: file_at_def)
  note new = next_block_new(1) [OF f bn] and ind = next_block_new(2) [OF f bn]
  have upd: "s\<lparr>img := m, freeblock := k\<rparr> = s\<lparr>freeblock := k\<rparr>" "s\<lparr>freeblock := of_nat fb\<rparr> = s" "din\<lparr>i_addrs := ad\<rparr> = din" for k
    using s by (cases s; cases din; simp)+
  have w: "of_nat (Suc fb) = freeblock s + 1" "of_nat (Suc (Suc fb)) = freeblock s + 1 + 1" by (simp_all add: s(2))
  have lt: "fb < 2 ^ 32" "Suc fb < 2 ^ 32" "fb \<le> FSSIZE_mk" using fb(2) by (simp_all add: FSSIZE_mk_def)
  have rd: "rsect (unat (ad NDIRECT)) t = Ok (img t (unat (ad NDIRECT)), t)" if "ad NDIRECT \<noteq> 0" for t
    using iblocks_less [OF g in_iblocks(1) lt(3)] that by (intro rsect_ok) simp
  show ?thesis
  proof (cases "iaddr m ad bn = 0")
    case False
    have "mk_bmap din bn s = Ok ((din\<lparr>i_addrs := ad\<rparr>, iaddr m ad bn), s\<lparr>img := m, freeblock := of_nat fb\<rparr>)"
      unfolding upd using False s by (cases "bn < NDIRECT"; cases "ad NDIRECT = 0") (simp_all add: mk_bmap_def iaddr_def kern_simps rd)
    moreover have "blocks_of (?n + 1) = blocks_of ?n" using new False blocks_step(2) by blast
    ultimately show ?thesis using mapped_old [OF g z False] by (intro exI [of _ m] exI [of _ ad] exI [of _ fb]) simp
  next
    case zero: True
    have n0: "?n mod 512 = 0" using new zero by simp
    show ?thesis
    proof (cases "bn < NDIRECT")
      case True
      then have ab: "ad bn = 0" using zero by (simp add: iaddr_def)
      have "?n \<noteq> 6144" using True bn(1) by (auto simp: NDIRECT_def BSIZE_def)
      then have "blocks_of (?n + 1) = blocks_of ?n + 1" using blocks_step(1) [OF n0] by blast
      moreover have "mk_bmap din bn s = Ok ((din\<lparr>i_addrs := ad(bn := of_nat fb)\<rparr>, iaddr m (ad(bn := of_nat fb)) bn), s\<lparr>img := m, freeblock := of_nat (Suc fb)\<rparr>)"
        unfolding upd w using True ab s by (simp add: mk_bmap_def iaddr_def kern_simps take_block_def)
      ultimately show ?thesis using mapped_direct [OF g z fb(1) lt(1) True ab] by (intro exI [of _ m] exI [of _ "ad(bn := of_nat fb)"] exI [of _ "Suc fb"]) simp
    next
      case ge: False
      then have ge': "NDIRECT \<le> bn" by simp
      show ?thesis
      proof (cases "ad NDIRECT = 0")
        case False
        let ?m = "m(unat (ad NDIRECT) := put32 (4 * (bn - NDIRECT)) (of_nat fb) (m (unat (ad NDIRECT))))"
        have "blocks_of (?n + 1) = blocks_of ?n + 1" using blocks_step(1) [OF n0] ind False by simp
        moreover have "mk_bmap din bn s = Ok ((din\<lparr>i_addrs := ad\<rparr>, iaddr ?m ad bn), s\<lparr>img := ?m, freeblock := of_nat (Suc fb)\<rparr>)"
          unfolding upd w using ge False zero s by (simp add: mk_bmap_def iaddr_def kern_simps take_block_def rd wsect_def)
        ultimately show ?thesis using mapped_entry [OF g z fb(1) lt(1) ge' bn(2) False zero] by (intro exI [of _ ?m] exI [of _ ad] exI [of _ "Suc fb"]) simp
      next
        case True
        let ?m = "m(fb := put32 (4 * (bn - NDIRECT)) (of_nat (Suc fb)) (m fb))" and ?ad = "ad(NDIRECT := of_nat fb)"
        have "?n = 6144" using True ind ge bn(1) by (auto simp: NDIRECT_def BSIZE_def)
        then have "blocks_of (?n + 1) = blocks_of ?n + 2" using blocks_step(3) by simp
        moreover have u: "unat (of_nat fb :: u32) = fb" "(of_nat fb :: u32) \<noteq> 0" using fb(1) lt(1) by (simp_all add: fresh_word iaddr_0)
        moreover have "m fb = (\<lambda>_. 0)" using z by (simp add: unused_zero_def)
        moreover have "fb < FSSIZE_mk" using calculation(1) fb(2) by simp
        moreover have "mk_bmap din bn s = Ok ((din\<lparr>i_addrs := ?ad\<rparr>, iaddr ?m ?ad bn), s\<lparr>img := ?m, freeblock := of_nat (Suc (Suc fb))\<rparr>)"
          unfolding w using ge True s calculation(2-5) by (simp add: mk_bmap_def iaddr_def kern_simps take_block_def rsect_ok wsect_def get32_zero)
        ultimately show ?thesis using mapped_indirect [OF g z fb(1) lt(2) ge' bn(2) True] by (intro exI [of _ ?m] exI [of _ ?ad] exI [of _ "Suc (Suc fb)"]) simp
      qed
    qed
  qed
qed

section \<open>One round of the loop\<close>

text \<open>After \<open>mk_bmap\<close> the bytes of the file are the same, and they stay so while its new block is filled from position \<open>off\<close> on.\<close>

lemma blocks_round:
  assumes "0 < n1" "n1 \<le> (n div 512 + 1) * 512 - n"
  shows "blocks_of (n + n1) = blocks_of (n + 1)" "(n + n1 - 1) div 512 = n div 512"
proof -
  have e: "n = 512 * (n div 512) + n mod 512" by simp
  have "n + n1 \<le> (n div 512 + 1) * 512" using assms by linarith
  then have le: "n + n1 \<le> 512 * (n div 512) + 512" by simp
  then show d: "(n + n1 - 1) div 512 = n div 512" using assms(1) e by (intro div_nat_eqI) auto
  have "(n + n1 + 511) div 512 = n div 512 + 1" "(n + 1 + 511) div 512 = n div 512 + 1"
    using assms(1) e le by (intro div_nat_eqI; simp; linarith)+
  moreover have "6144 < n + n1 \<longleftrightarrow> 6144 < n + 1"
  proof
    assume "6144 < n + n1"
    then have "12 \<le> n div 512" using le by linarith
    then show "6144 < n + 1" using e by linarith
  qed (use assms(1) in linarith)
  ultimately show "blocks_of (n + n1) = blocks_of (n + 1)" by (simp add: blocks_of_def NDIRECT_def BSIZE_def)
qed

lemma addrs_apart:
  assumes "addrs_good m ad fb" "bn < MAXFILE" "iaddr m ad bn \<noteq> 0"
  shows "unat (iaddr m ad bn) \<noteq> unat (ad NDIRECT)" "c < MAXFILE \<Longrightarrow> c \<noteq> bn \<Longrightarrow> unat (iaddr m ad c) \<noteq> unat (iaddr m ad bn)"
  using assms by (auto simp: addrs_good_def dest!: unsigned_word_eqI)

lemma mappedD:
  assumes "mapped bn m ad fb m' ad' fb'"
  shows "addrs_good m' ad' fb'" "iaddr m' ad' bn \<noteq> 0" "\<And>c. c \<noteq> bn \<Longrightarrow> iaddr m' ad' c = iaddr m ad c"
    "iaddr m ad bn \<noteq> 0 \<Longrightarrow> iaddr m' ad' bn = iaddr m ad bn" "iaddr m ad bn = 0 \<Longrightarrow> m' (unat (iaddr m' ad' bn)) = (\<lambda>_. 0)"
    "ad' NDIRECT \<noteq> 0 \<longleftrightarrow> NDIRECT \<le> bn \<or> ad NDIRECT \<noteq> 0" "iblocks m' ad' = iblocks m ad \<union> {fb ..< fb'}"
    "\<And>k. m' k \<noteq> m k \<Longrightarrow> ad' NDIRECT \<noteq> 0 \<and> k = unat (ad' NDIRECT)" "unused_zero m' fb'"
  using assms by (auto simp: mapped_def)

lemma file_atD:
  assumes "file_at m ad fb xs"
  shows "length xs \<le> MAXFILE * BSIZE" "\<And>c. c < MAXFILE \<Longrightarrow> iaddr m ad c \<noteq> 0 \<longleftrightarrow> c * BSIZE < length xs" "ad NDIRECT \<noteq> 0 \<longleftrightarrow> NDIRECT * BSIZE < length xs"
    "\<And>k. k < MAXFILE * BSIZE \<Longrightarrow> iaddr m ad (k div BSIZE) \<noteq> 0 \<Longrightarrow> ibyte m ad k = (if k < length xs then xs ! k else 0)"
  using assms by (auto simp: file_at_def)

lemma last_block:
  assumes "bn = n div BSIZE"
  shows "n < (bn + 1) * BSIZE" "bn * BSIZE \<le> n" "k \<le> (bn + 1) * BSIZE - n \<Longrightarrow> n + k \<le> (bn + 1) * BSIZE"
proof -
  show n: "n < (bn + 1) * BSIZE" unfolding assms by (simp add: BSIZE_def dividend_less_div_times)
  show "bn * BSIZE \<le> n" unfolding assms by (rule div_times_less_eq_dividend)
  show "k \<le> (bn + 1) * BSIZE - n \<Longrightarrow> n + k \<le> (bn + 1) * BSIZE" using n by linarith
qed

text \<open>The addresses after \<open>mk_bmap\<close> are those of the longer file.\<close>

lemma filled_addrs:
  assumes f: "file_at m ad fb xs" and mp: "mapped bn m ad fb m' ad' fb'" and bn: "bn = length xs div BSIZE"
    and ys: "ys \<noteq> []" "length ys \<le> (bn + 1) * BSIZE - length xs"
  shows "c < MAXFILE \<Longrightarrow> iaddr m' ad' c \<noteq> 0 \<longleftrightarrow> c * BSIZE < length xs + length ys" "ad' NDIRECT \<noteq> 0 \<longleftrightarrow> NDIRECT * BSIZE < length xs + length ys"
proof -
  let ?n = "length xs"
  note mo = mappedD [OF mp] and f' = file_atD [OF f] and le = last_block(1,2) [OF bn] last_block(3) [OF bn ys(2)]
  show "iaddr m' ad' c \<noteq> 0 \<longleftrightarrow> c * BSIZE < ?n + length ys" if c: "c < MAXFILE"
  proof (cases "c = bn")
    case True
    have "bn * BSIZE < ?n + length ys" using le(2) ys(1) by (cases ys) auto
    then show ?thesis using True mo(2) by simp
  next
    case False
    have "c * BSIZE < ?n + length ys \<longleftrightarrow> c < bn" "c * BSIZE < ?n \<longleftrightarrow> c < bn"
      using False le by (auto simp: BSIZE_def)
    then show ?thesis using mo(3) [OF False] f'(2) [OF c] by simp
  qed
  show "ad' NDIRECT \<noteq> 0 \<longleftrightarrow> NDIRECT * BSIZE < ?n + length ys"
    using mo(6) f'(3) le ys(1) by (cases ys) (auto simp: BSIZE_def)
qed

text \<open>The bytes of the block that is filled, and of the other blocks.\<close>

lemma filled_byte:
  assumes f: "file_at m ad fb xs" and mp: "mapped bn m ad fb m' ad' fb'" and bn: "bn = length xs div BSIZE" "bn < MAXFILE"
    and ys: "length ys \<le> (bn + 1) * BSIZE - length xs" and k: "k < MAXFILE * BSIZE" "k div BSIZE = bn"
  shows "put_list (length xs - bn * BSIZE) ys (m' (unat (iaddr m' ad' bn))) (k mod BSIZE) = (if k < length xs + length ys then (xs @ ys) ! k else 0)"
proof -
  let ?n = "length xs" and ?x = "unat (iaddr m' ad' bn)"
  note mo = mappedD [OF mp] and f' = file_atD [OF f] and le = last_block(1,2) [OF bn(1)] last_block(3) [OF bn(1) ys]
  have km: "k = bn * BSIZE + k mod BSIZE" using k(2) div_mult_mod_eq [of k BSIZE] by simp
  have old: "m' ?x (k mod BSIZE) = (if k < ?n then xs ! k else 0)"
  proof (cases "iaddr m ad bn = 0")
    case True
    have "?n \<le> bn * BSIZE" using f'(2) [OF bn(2)] True by simp
    then show ?thesis using mo(5) [OF True] km by simp
  next
    case False
    have "?x = unat (iaddr m ad bn)" using mo(4) [OF False] by simp
    moreover have "m' ?x = m ?x" using mo(8) [of ?x] addrs_apart(1) [OF mo(1) bn(2) mo(2)] by blast
    ultimately show ?thesis using f'(4) [OF k(1)] False unfolding ibyte_def k(2) by simp
  qed
  show ?thesis
  proof (cases "?n \<le> k \<and> k < ?n + length ys")
    case False
    then have "\<not> (?n - bn * BSIZE \<le> k mod BSIZE \<and> k mod BSIZE < ?n - bn * BSIZE + length ys)" using km le(2) by linarith
    then show ?thesis using old False by (auto simp: put_list_def nth_append)
  next
    case True
    then have "?n - bn * BSIZE \<le> k mod BSIZE" "k mod BSIZE < ?n - bn * BSIZE + length ys" "k mod BSIZE - (?n - bn * BSIZE) = k - ?n"
      using km le(2) by linarith+
    then show ?thesis using True by (simp add: put_list_def nth_append)
  qed
qed

lemma other_byte:
  assumes f: "file_at m ad fb xs" and mp: "mapped bn m ad fb m' ad' fb'" and bn: "bn = length xs div BSIZE" "bn < MAXFILE"
    and k: "k < MAXFILE * BSIZE" "iaddr m' ad' (k div BSIZE) \<noteq> 0" "k div BSIZE \<noteq> bn"
  defines "x \<equiv> unat (iaddr m' ad' bn)"
  shows "(m'(x := b)) (unat (iaddr m' ad' (k div BSIZE))) (k mod BSIZE) = xs ! k" "k < length xs"
proof -
  let ?c = "k div BSIZE"
  note mo = mappedD [OF mp] and f' = file_atD [OF f] and le = last_block(1,2) [OF bn(1)]
  have c: "?c < MAXFILE" by (rule fbyte_block [OF k(1)])
  have nz: "iaddr m ad ?c \<noteq> 0" using k(2) mo(3) [OF k(3)] by simp
  show lt: "k < length xs"
  proof -
    have "?c * BSIZE < length xs" using f'(2) [OF c] nz by simp
    then have "?c < bn" using le(1) k(3) by (auto simp: BSIZE_def)
    then have "k < bn * BSIZE" by (simp add: BSIZE_def div_less_iff_less_mult)
    then show ?thesis using le(2) by linarith
  qed
  have "unat (iaddr m' ad' ?c) \<noteq> x" using addrs_apart(2) [OF mo(1) bn(2) mo(2) c k(3)] by (simp add: x_def)
  moreover have "unat (iaddr m' ad' ?c) \<noteq> unat (ad' NDIRECT)" by (rule addrs_apart(1) [OF mo(1) c k(2)])
  ultimately have "(m'(x := b)) (unat (iaddr m' ad' ?c)) = m (unat (iaddr m' ad' ?c))" using mo(8) by auto
  then show "(m'(x := b)) (unat (iaddr m' ad' ?c)) (k mod BSIZE) = xs ! k" using f'(4) [OF k(1) nz] mo(3) [OF k(3)] lt by (simp add: ibyte_def)
qed

lemma fill_block:
  assumes f: "file_at m ad fb xs" and mp: "mapped bn m ad fb m' ad' fb'" and bn: "bn = length xs div BSIZE" "bn < MAXFILE" "fb \<le> fb'"
    and ys: "ys \<noteq> []" "length ys \<le> (bn + 1) * BSIZE - length xs"
  defines "x \<equiv> unat (iaddr m' ad' bn)"
  defines "m'' \<equiv> m'(x := put_list (length xs - bn * BSIZE) ys (m' x))"
  shows "file_at m'' ad' fb' (xs @ ys)" "iblocks m'' ad' = iblocks m ad \<union> {fb ..< fb'}" "unused_zero m'' fb'"
    "\<And>k. k \<notin> iblocks m ad \<union> {fb ..< fb'} \<Longrightarrow> m'' k = m k"
proof -
  note mo = mappedD [OF mp]
  have x: "x \<in> iblocks m' ad'" "x \<noteq> unat (ad' NDIRECT)"
    using in_iblocks(2) [OF bn(2) mo(2)] addrs_apart(1) [OF mo(1) bn(2) mo(2)] by (simp_all add: x_def)
  have a: "iaddr m'' ad' = iaddr m' ad'" by (rule iaddr_cong) (use x(2) in \<open>simp add: m''_def\<close>)
  show b: "iblocks m'' ad' = iblocks m ad \<union> {fb ..< fb'}" using mo(7) by (simp add: iblocks_def a)
  show "unused_zero m'' fb'" using mo(1,9) x(1) by (auto simp: unused_zero_def m''_def addrs_good_def)
  show "m'' k = m k" if "k \<notin> iblocks m ad \<union> {fb ..< fb'}" for k
    using that mo(7) mo(8) [of k] x(1) in_iblocks(1) [of ad' m'] by (auto simp: m''_def)
  have bytes: "ibyte m'' ad' k = (if k < length xs + length ys then (xs @ ys) ! k else 0)" if k: "k < MAXFILE * BSIZE" "iaddr m' ad' (k div BSIZE) \<noteq> 0" for k
  proof (cases "k div BSIZE = bn")
    case True
    then show ?thesis using filled_byte [OF f mp bn(1,2) ys(2) k(1) True] unfolding ibyte_def a True x_def [symmetric] by (simp add: m''_def)
  next
    case False
    note o = other_byte [OF f mp bn(1,2) k False, folded x_def]
    show ?thesis using o(2) o(1) [of "put_list (length xs - bn * BSIZE) ys (m' x)"] unfolding ibyte_def a by (simp add: m''_def nth_append)
  qed
  have "length xs + length ys \<le> MAXFILE * BSIZE"
    using last_block(3) [OF bn(1) ys(2)] mult_le_mono1 [of "bn + 1" MAXFILE BSIZE] bn(2) by simp
  moreover have "addrs_good m'' ad' fb'" using mo(1) unfolding addrs_good_def b mo(7) a by blast
  ultimately show "file_at m'' ad' fb' (xs @ ys)"
    using filled_addrs [OF f mp bn(1) ys] bytes unfolding file_at_def a by simp
qed

section \<open>Appending\<close>

text \<open>\<open>grows\<close>: the file has become longer, and only its old and its new blocks have changed.\<close>

definition grows :: "(nat \<Rightarrow> bytes) \<Rightarrow> (nat \<Rightarrow> u32) \<Rightarrow> nat \<Rightarrow> (nat \<Rightarrow> bytes) \<Rightarrow> (nat \<Rightarrow> u32) \<Rightarrow> nat \<Rightarrow> u8 list \<Rightarrow> bool" where
  "grows m ad fb m' ad' fb' xs \<longleftrightarrow> file_at m' ad' fb' xs \<and> unused_zero m' fb' \<and> iblocks m' ad' = iblocks m ad \<union> {fb ..< fb'} \<and>
     (\<forall>k. k \<notin> iblocks m ad \<union> {fb ..< fb'} \<longrightarrow> m' k = m k)"

lemma grows_trans:
  assumes "grows m ad fb m1 ad1 fb1 xs" "grows m1 ad1 fb1 m2 ad2 fb2 ys" "fb \<le> fb1" "fb1 \<le> fb2"
  shows "grows m ad fb m2 ad2 fb2 ys"
proof -
  have "iblocks m2 ad2 = iblocks m ad \<union> {fb ..< fb2}" using assms by (auto simp: grows_def)
  moreover have "m2 k = m k" if "k \<notin> iblocks m ad \<union> {fb ..< fb2}" for k
    using assms that by (auto simp: grows_def)
  ultimately show ?thesis using assms(2) unfolding grows_def by blast
qed

text \<open>One round puts \<open>n1\<close> bytes at the end of the file.\<close>

lemma iappend_round:
  assumes f: "file_at m ad fb xs" "unused_zero m fb" "nmeta \<le> fb" and len: "length xs + length ys \<le> MAXFILE * BSIZE" and ys: "ys \<noteq> []"
    and sp: "fb + (blocks_of (length xs + length ys) - blocks_of (length xs)) \<le> FSSIZE_mk"
    and s: "img s = m" "freeblock s = of_nat fb" "i_addrs din = ad"
  shows "\<exists>n1 m' ad'. let fb' = fb + (blocks_of (length xs + n1) - blocks_of (length xs)) in 0 < n1 \<and> n1 \<le> length ys \<and>
    iappend_loop din (length xs) ys s = iappend_loop (din\<lparr>i_addrs := ad'\<rparr>) (length xs + n1) (drop n1 ys) (s\<lparr>img := m', freeblock := of_nat fb'\<rparr>) \<and>
    grows m ad fb m' ad' fb' (xs @ take n1 ys)"
proof -
  let ?n = "length xs"
  define bn where "bn = ?n div BSIZE"
  define n1 where "n1 = min (length ys) ((bn + 1) * BSIZE - ?n)"
  have n1: "0 < n1" "n1 \<le> length ys" "n1 \<le> (bn + 1) * BSIZE - ?n" using ys last_block(1) [OF bn_def] by (simp_all add: n1_def)
  have "?n < MAXFILE * BSIZE" using len ys by (cases ys) auto
  then have bnm: "bn < MAXFILE" unfolding bn_def by (rule fbyte_block)
  have eq: "blocks_of (?n + n1) = blocks_of (?n + 1)" using blocks_round(1) [of n1 ?n] n1 by (simp add: bn_def BSIZE_def)
  have "blocks_of (?n + n1) \<le> blocks_of (?n + length ys)" using n1(2) by (simp add: blocks_mono)
  then have fb2: "fb + (blocks_of (?n + 1) - blocks_of ?n) \<le> FSSIZE_mk" using sp eq by simp
  obtain m1 ad1 fb1 where mk: "mk_bmap din bn s = Ok ((din\<lparr>i_addrs := ad1\<rparr>, iaddr m1 ad1 bn), s\<lparr>img := m1, freeblock := of_nat fb1\<rparr>)"
    "mapped bn m ad fb m1 ad1 fb1" "fb1 = fb + (blocks_of (?n + 1) - blocks_of ?n)"
    using mk_bmap_ok [OF f fb2 bn_def bnm s] by blast
  let ?x = "unat (iaddr m1 ad1 bn)" and ?zs = "take n1 ys"
  define m2 where "m2 = m1(?x := put_list (?n - bn * BSIZE) ?zs (m1 ?x))"
  have ge: "fb \<le> fb1" using mk(3) by simp
  have zs: "?zs \<noteq> []" "length ?zs \<le> (bn + 1) * BSIZE - ?n" using n1 ys by auto
  note fl = fill_block [OF f(1) mk(2) bn_def bnm ge zs, folded m2_def]
  have xl: "?x < FSSIZE_mk"
  proof (rule iblocks_less)
    show "addrs_good m1 ad1 fb1" "?x \<in> iblocks m1 ad1" using mappedD(1,2) [OF mk(2)] bnm in_iblocks(2) by auto
    show "fb1 \<le> FSSIZE_mk" using fb2 mk(3) by simp
  qed
  have n1e: "min (length ys) (BSIZE + bn * BSIZE - ?n) = n1" by (simp add: n1_def)
  have up: "s\<lparr>freeblock := k, img := m'\<rparr> = s\<lparr>img := m', freeblock := k\<rparr>" for k m' by (cases s) simp
  have "iappend_loop din ?n ys s = iappend_loop (din\<lparr>i_addrs := ad1\<rparr>) (?n + n1) (drop n1 ys) (s\<lparr>img := m2, freeblock := of_nat fb1\<rparr>)"
    using ys bnm mk(1) unfolding iappend_loop.simps [of din ?n ys]
    by (simp add: bn_def [symmetric] n1e up Let_def kern_simps assertk_def rsect_ok [OF xl] wsect_def m2_def)
  moreover have "grows m ad fb m2 ad1 fb1 (xs @ ?zs)" using fl by (simp add: grows_def)
  ultimately show ?thesis using n1(1,2) mk(3) eq by (intro exI [of _ n1] exI [of _ m2] exI [of _ ad1]) (simp add: Let_def)
qed

lemma iappend_loop_ok:
  assumes "file_at m ad fb xs" "unused_zero m fb" "nmeta \<le> fb" "fb + (blocks_of (length (xs @ ys)) - blocks_of (length xs)) \<le> FSSIZE_mk"
    "length xs + length ys \<le> MAXFILE * BSIZE" and "img s = m" "freeblock s = of_nat fb" "i_addrs din = ad"
  shows "\<exists>m' ad'. let fb' = fb + (blocks_of (length (xs @ ys)) - blocks_of (length xs)) in
    iappend_loop din (length xs) ys s = Ok ((din\<lparr>i_addrs := ad'\<rparr>, length (xs @ ys)), s\<lparr>img := m', freeblock := of_nat fb'\<rparr>) \<and>
    grows m ad fb m' ad' fb' (xs @ ys)"
  using assms
proof (induction "length ys" arbitrary: m ad fb xs ys s din rule: less_induct)
  case less
  let ?n = "length xs" and ?b = "\<lambda>n. blocks_of n - blocks_of (length xs)"
  show ?case
  proof (cases "ys = []")
    case True
    then have "iappend_loop din ?n ys s = Ok ((din\<lparr>i_addrs := ad\<rparr>, ?n), s\<lparr>img := m, freeblock := of_nat fb\<rparr>)"
      using less.prems(6-8) by (subst iappend_loop.simps) (cases s; cases din; simp add: kern_simps)
    then show ?thesis using less.prems True by (intro exI [of _ m] exI [of _ ad]) (simp add: Let_def grows_def)
  next
    case False
    have sp: "fb + ?b (?n + length ys) \<le> FSSIZE_mk" using less.prems(4) by simp
    obtain n1 m1 ad1 where r: "0 < n1" "n1 \<le> length ys"
      "iappend_loop din ?n ys s = iappend_loop (din\<lparr>i_addrs := ad1\<rparr>) (?n + n1) (drop n1 ys) (s\<lparr>img := m1, freeblock := of_nat (fb + ?b (?n + n1))\<rparr>)"
      "grows m ad fb m1 ad1 (fb + ?b (?n + n1)) (xs @ take n1 ys)"
      using iappend_round [OF less.prems(1-3,5) False sp less.prems(6-8)] unfolding Let_def by blast
    let ?fb1 = "fb + ?b (?n + n1)" and ?zs = "take n1 ys" and ?ys = "drop n1 ys"
    let ?s = "s\<lparr>img := m1, freeblock := of_nat ?fb1\<rparr>" and ?din = "din\<lparr>i_addrs := ad1\<rparr>"
    have mono: "blocks_of ?n \<le> blocks_of (?n + n1)" "blocks_of (?n + n1) \<le> blocks_of (?n + length ys)" using r(2) by (simp_all add: blocks_mono)
    have tot: "(xs @ ?zs) @ ?ys = xs @ ys" "length (xs @ ?zs) = ?n + n1" using r(2) by simp_all
    have e: "?fb1 + (blocks_of (length (xs @ ys)) - blocks_of (?n + n1)) = fb + ?b (length (xs @ ys))" using mono by simp
    have g: "file_at m1 ad1 ?fb1 (xs @ ?zs)" "unused_zero m1 ?fb1" using r(4) by (simp_all add: grows_def)
    have small: "length ?ys < length ys" using r(1,2) by simp
    have pre: "nmeta \<le> ?fb1" "?fb1 + (blocks_of (length ((xs @ ?zs) @ ?ys)) - blocks_of (length (xs @ ?zs))) \<le> FSSIZE_mk"
      "length (xs @ ?zs) + length ?ys \<le> MAXFILE * BSIZE" unfolding tot e using less.prems(3-5) r(2) by simp_all
    have flds: "img ?s = m1" "freeblock ?s = of_nat ?fb1" "i_addrs ?din = ad1" by simp_all
    obtain m3 ad3 where
      "iappend_loop ?din (?n + n1) ?ys ?s = Ok ((?din\<lparr>i_addrs := ad3\<rparr>, length (xs @ ys)), ?s\<lparr>img := m3, freeblock := of_nat (fb + ?b (length (xs @ ys)))\<rparr>)"
      "grows m1 ad1 ?fb1 m3 ad3 (fb + ?b (length (xs @ ys))) (xs @ ys)"
      using less.hyps [OF small g pre flds] unfolding tot e Let_def by blast
    moreover have "grows m ad fb m3 ad3 (fb + ?b (length (xs @ ys))) (xs @ ys)"
      by (rule grows_trans [OF r(4) calculation(2)]) (use mono in simp_all)
    ultimately show ?thesis using r(3) by (intro exI [of _ m3] exI [of _ ad3]) (simp add: Let_def)
  qed
qed

end
