(* ===== verification/Mkfs_Image.thy ===== *)
theory Mkfs_Image
  imports Mkfs_Files
begin

unbundle bit_operations_syntax

text \<open>
  The image that \<open>mkfs\<close> builds, as a list of files: reading and writing the inodes, appending to a file, creating one.  \<open>mk_inv\<close> says that the inodes
  1, 2, \<open>\<dots>\<close> hold these files in blocks of their own, and that the blocks from \<open>freeblock\<close> on are unused.
\<close>

section \<open>Inodes on the image\<close>

definition iblk :: "nat \<Rightarrow> nat" where "iblk n = n div 8 + 32"

definition dino :: "mkst \<Rightarrow> nat \<Rightarrow> inode" where
  "dino t n = get_dinode (64 * (n mod 8)) (img t (iblk n)) blank_inode"

abbreviation blks :: "mkst \<Rightarrow> nat \<Rightarrow> nat set" where
  "blks t n \<equiv> iblocks (img t) (i_addrs (dino t n))"

lemma nmeta_59: "nmeta = 59"
  by (simp add: nmeta_def nlog_def ninodeblocks_def nbitmap_def NINODES_def FSSIZE_mk_def IPB_def BSIZE_def)

lemma mk_sb_fields:
  "sb_size mk_sb = 1000" "sb_ninodes mk_sb = 200" "sb_inodestart mk_sb = 32" "sb_bmapstart mk_sb = 58" "sb_logstart mk_sb = 2"
  by (simp_all add: mk_sb_def FSSIZE_mk_def NINODES_def nlog_def ninodeblocks_def IPB_def)

lemma mk_iblock:
  assumes "n < 200"
  shows "unat (IBLOCK (of_nat n) mk_sb) = iblk n" "dinode_off (of_nat n) = 64 * (n mod 8)" "iblk n < nmeta" "iblk n < FSSIZE_mk"
proof -
  have u: "unat (of_nat n :: u32) = n" using assms by (simp add: unat_of_nat)
  have "unat (of_nat (n div 8) + 32 :: u32) = n div 8 + 32" using assms by (simp add: unat_word_ariths unat_of_nat)
  then show "unat (IBLOCK (of_nat n) mk_sb) = iblk n" by (simp add: IBLOCK_def mk_sb_fields u IPB_def iblk_def)
  show "dinode_off (of_nat n) = 64 * (n mod 8)" by (simp add: dinode_off_def u IPB_def)
  show "iblk n < nmeta" "iblk n < FSSIZE_mk" using assms by (simp_all add: iblk_def nmeta_59 FSSIZE_mk_def)
qed

lemma get_dinode_cong:
  assumes "\<And>k. off \<le> k \<Longrightarrow> k < off + 64 \<Longrightarrow> d k = e k"
  shows "get_dinode off d ip = get_dinode off e ip"
proof -
  have "get16 d (off + i) = get16 e (off + i)" if "i < 8" for i by (rule get16_cong) (use assms that in auto)
  from this [of 0] this [of 2] this [of 4] this [of 6] have g: "get16 d off = get16 e off" "get16 d (off + 2) = get16 e (off + 2)"
    "get16 d (off + 4) = get16 e (off + 4)" "get16 d (off + 6) = get16 e (off + 6)" by simp_all
  have "get32 d (off + 8) = get32 e (off + 8)" by (rule get32_cong) (use assms in auto)
  moreover have "get32 d (off + 12 + 4 * i) = get32 e (off + 12 + 4 * i)" if "i \<le> NDIRECT" for i
    by (rule get32_cong) (use assms that in \<open>auto simp: NDIRECT_def\<close>)
  ultimately show ?thesis using g by (simp add: get_dinode_def cong: if_cong)
qed

lemma rinode_ok: "msb t = mk_sb \<Longrightarrow> n < 200 \<Longrightarrow> rinode (of_nat n) t = Ok (dino t n, t)"
  by (simp add: rinode_def rsect_ok kern_simps mk_iblock dino_def)

lemma winode_ok:
  assumes "msb t = mk_sb" "n < 200"
  shows "\<exists>d. winode (of_nat n) ip t = Ok ((), t\<lparr>img := (img t)(iblk n := d)\<rparr>) \<and>
    (\<forall>j < 200. j \<noteq> n \<longrightarrow> dino (t\<lparr>img := (img t)(iblk n := d)\<rparr>) j = dino t j) \<and> same_dinode (dino (t\<lparr>img := (img t)(iblk n := d)\<rparr>) n) ip"
proof -
  let ?d = "put_dinode (64 * (n mod 8)) ip (img t (iblk n))"
  let ?t = "t\<lparr>img := (img t)(iblk n := ?d)\<rparr>"
  have "winode (of_nat n) ip t = Ok ((), ?t)" using assms by (simp add: winode_def rsect_ok wsect_def kern_simps mk_iblock)
  moreover have "dino ?t j = dino t j" if "j < 200" "j \<noteq> n" for j
  proof (cases "iblk j = iblk n")
    case True
    then have "j div 8 = n div 8" by (simp add: iblk_def)
    then have "j mod 8 \<noteq> n mod 8" using that(2) by (metis div_mult_mod_eq)
    then have "64 * (j mod 8) + 64 \<le> 64 * (n mod 8) \<or> 64 * (n mod 8) + 64 \<le> 64 * (j mod 8)" by arith
    then have "get_dinode (64 * (j mod 8)) ?d blank_inode = get_dinode (64 * (j mod 8)) (img t (iblk n)) blank_inode"
      by (intro get_dinode_cong put_dinode_out) auto
    then show ?thesis using True by (simp add: dino_def)
  qed (simp add: dino_def)
  moreover have "same_dinode (dino ?t n) ip" using get_put_dinode by (simp add: dino_def)
  ultimately show ?thesis by blast
qed

lemma iaddr_low: "(\<And>i. i \<le> NDIRECT \<Longrightarrow> ad i = ad' i) \<Longrightarrow> iaddr m ad = iaddr m ad'"
  by (intro ext) (simp add: iaddr_def)

lemma file_at_low:
  assumes "\<And>i. i \<le> NDIRECT \<Longrightarrow> ad i = ad' i"
  shows "file_at m ad fb xs = file_at m ad' fb xs" "iblocks m ad = iblocks m ad'"
  using iaddr_low [OF assms, where m = m] assms [of NDIRECT] by (simp_all add: file_at_def addrs_good_def iblocks_def ibyte_def)

section \<open>Appending to a file of the image\<close>

definition holds :: "mkst \<Rightarrow> nat \<Rightarrow> u16 \<Rightarrow> nat \<Rightarrow> u8 list \<Rightarrow> bool" where
  "holds t n ty fb xs \<longleftrightarrow> i_type (dino t n) = ty \<and> i_size (dino t n) = of_nat (length xs) \<and> file_at (img t) (i_addrs (dino t n)) fb xs"

lemma holds_blks: "holds t n ty fb xs \<Longrightarrow> blks t n \<subseteq> {nmeta ..< fb}"
  by (simp add: holds_def file_at_def addrs_good_def)

lemma iappend_ok:
  assumes t: "msb t = mk_sb" "n < 200" "holds t n ty fb xs" "unused_zero (img t) fb" "nmeta \<le> fb" "freeblock t = of_nat fb"
    and len: "fb + (blocks_of (length (xs @ ys)) - blocks_of (length xs)) \<le> FSSIZE_mk" "length xs + length ys \<le> MAXFILE * BSIZE"
  defines "fb' \<equiv> fb + (blocks_of (length (xs @ ys)) - blocks_of (length xs))"
  shows "\<exists>t'. iappend (of_nat n) ys t = Ok ((), t') \<and> msb t' = mk_sb \<and> freeinode t' = freeinode t \<and> freeblock t' = of_nat fb' \<and>
    holds t' n ty fb' (xs @ ys) \<and> unused_zero (img t') fb' \<and> blks t' n = blks t n \<union> {fb ..< fb'} \<and>
    (\<forall>k. k \<notin> insert (iblk n) (blks t n \<union> {fb ..< fb'}) \<longrightarrow> img t' k = img t k) \<and> (\<forall>j < 200. j \<noteq> n \<longrightarrow> dino t' j = dino t j)"
proof -
  let ?din = "dino t n"
  have h: "i_type ?din = ty" "i_size ?din = of_nat (length xs)" "file_at (img t) (i_addrs ?din) fb xs" using t(3) by (simp_all add: holds_def)
  have sz: "unat (i_size ?din) = length xs" using h(2) len(2) by (simp add: max_bytes unat_of_nat)
  obtain m' ad' where l: "iappend_loop ?din (length xs) ys t = Ok ((?din\<lparr>i_addrs := ad'\<rparr>, length (xs @ ys)), t\<lparr>img := m', freeblock := of_nat fb'\<rparr>)"
    "file_at m' ad' fb' (xs @ ys)" "unused_zero m' fb'" "iblocks m' ad' = blks t n \<union> {fb ..< fb'}"
    "\<And>k. k \<notin> blks t n \<union> {fb ..< fb'} \<Longrightarrow> m' k = img t k"
    using iappend_loop_ok [OF h(3) t(4,5) len refl t(6) refl] unfolding Let_def fb'_def grows_def by blast
  let ?t1 = "t\<lparr>img := m', freeblock := of_nat fb'\<rparr>" and ?ip = "?din\<lparr>i_addrs := ad', i_size := of_nat (length (xs @ ys))\<rparr>"
  obtain d where w: "winode (of_nat n) ?ip ?t1 = Ok ((), ?t1\<lparr>img := (img ?t1)(iblk n := d)\<rparr>)"
    "\<And>j. j < 200 \<Longrightarrow> j \<noteq> n \<Longrightarrow> dino (?t1\<lparr>img := (img ?t1)(iblk n := d)\<rparr>) j = dino ?t1 j" "same_dinode (dino (?t1\<lparr>img := (img ?t1)(iblk n := d)\<rparr>) n) ?ip"
    using winode_ok [of ?t1 n ?ip] t(1,2) by auto
  define t2 where "t2 = ?t1\<lparr>img := (img ?t1)(iblk n := d)\<rparr>"
  have i2: "img t2 = m'(iblk n := d)" by (simp add: t2_def)
  have low: "k \<notin> blks t n \<union> {fb ..< fb'}" if "k < nmeta" for k using that holds_blks [OF t(3)] t(5) by auto
  have "iblk n \<notin> iblocks m' ad'" using low [OF mk_iblock(3) [OF t(2)]] l(4) by simp
  then have same: "\<And>k. k \<in> iblocks m' ad' \<Longrightarrow> img t2 k = m' k" by (auto simp: i2)
  have fr: "file_at (img t2) ad' fb' (xs @ ys)" "iblocks (img t2) ad' = iblocks m' ad'"
    by (rule file_at_frame [OF l(2) order_refl same]; assumption)+
  have ad: "\<And>i. i \<le> NDIRECT \<Longrightarrow> i_addrs (dino t2 n) i = ad' i" "i_type (dino t2 n) = ty" "i_size (dino t2 n) = of_nat (length (xs @ ys))"
    using w(3) h(1) by (simp_all add: same_dinode_def t2_def)
  note lo = file_at_low [OF ad(1), where m = "img t2"]
  have "iappend (of_nat n) ys t = Ok ((), t2)"
    using rinode_ok [OF t(1,2)] l(1) w(1) sz by (simp add: iappend_def kern_simps t2_def)
  moreover have "holds t2 n ty fb' (xs @ ys)" using ad(2,3) fr(1) lo(1) by (simp add: holds_def)
  moreover have "unused_zero (img t2) fb'"
    using l(3) mk_iblock(3) [OF t(2)] t(5) by (auto simp: i2 unused_zero_def fb'_def)
  moreover have "blks t2 n = blks t n \<union> {fb ..< fb'}" using lo(2) fr(2) l(4) by simp
  moreover have "dino t2 j = dino t j" if "j < 200" "j \<noteq> n" for j
    using w(2) [OF that] l(5) [OF low [OF mk_iblock(3) [OF that(1)]]] by (simp add: t2_def dino_def)
  moreover have "msb t2 = mk_sb" "freeinode t2 = freeinode t" "freeblock t2 = of_nat fb'" using t(1) by (simp_all add: t2_def)
  ultimately show ?thesis using l(5) by (intro exI [of _ t2]) (auto simp: i2)
qed

section \<open>The files of the image\<close>

text \<open>The types and contents of the inodes 1, 2, \<open>\<dots>\<close>, and the first free block after them.\<close>

type_synonym files = "(u16 \<times> u8 list) list"

definition fb_of :: "files \<Rightarrow> nat" where
  "fb_of fs = nmeta + sum_list (map (\<lambda>f. blocks_of (length (snd f))) fs)"

definition mk_inv :: "mkst \<Rightarrow> files \<Rightarrow> bool" where
  "mk_inv t fs \<longleftrightarrow> msb t = mk_sb \<and> length fs < 200 \<and> freeinode t = of_nat (Suc (length fs)) \<and> freeblock t = of_nat (fb_of fs) \<and>
     unused_zero (img t) (fb_of fs) \<and> img t 1 = put_list 0 (sb_bytes mk_sb) (\<lambda>_. 0) \<and>
     (\<forall>i < length fs. holds t (Suc i) (fst (fs ! i)) (fb_of fs) (snd (fs ! i))) \<and>
     (\<forall>i < length fs. \<forall>j < length fs. i \<noteq> j \<longrightarrow> blks t (Suc i) \<inter> blks t (Suc j) = {})"

lemma sum_list_bound: "(\<And>x. x \<in> set xs \<Longrightarrow> f x \<le> c) \<Longrightarrow> sum_list (map f xs) \<le> length xs * (c :: nat)"
  by (induction xs) (auto simp: add_le_mono)

lemma blocks_of_le: "n \<le> MAXFILE * BSIZE \<Longrightarrow> blocks_of n \<le> 141"
proof -
  assume "n \<le> MAXFILE * BSIZE"
  then have "(n + 511) div 512 \<le> (71680 + 511) div 512" unfolding max_bytes by (intro div_le_mono) simp
  then show ?thesis by (simp add: blocks_of_def)
qed

lemma fb_of_bound:
  assumes "mk_inv t fs"
  shows "fb_of fs \<le> 28259" "nmeta \<le> fb_of fs"
proof -
  have "blocks_of (length (snd f)) \<le> 141" if "f \<in> set fs" for f
    using assms that by (intro blocks_of_le) (auto simp: mk_inv_def holds_def file_at_def in_set_conv_nth)
  then have "sum_list (map (\<lambda>f. blocks_of (length (snd f))) fs) \<le> length fs * 141" by (rule sum_list_bound)
  moreover have "length fs \<le> 199" using assms by (simp add: mk_inv_def)
  ultimately show "fb_of fs \<le> 28259" by (simp add: fb_of_def nmeta_59)
qed (simp add: fb_of_def)

lemma fb_of_update:
  assumes "i < length fs" "fs ! i = (ty, xs)" "blocks_of (length xs) \<le> blocks_of (length (xs @ ys))"
  shows "fb_of (fs[i := (ty, xs @ ys)]) = fb_of fs + (blocks_of (length (xs @ ys)) - blocks_of (length xs))"
proof -
  let ?bs = "map (\<lambda>f. blocks_of (length (snd f))) fs"
  have "?bs ! i \<le> sum_list ?bs" using assms(1) by (intro elem_le_sum_list) simp
  then show ?thesis using assms by (simp add: fb_of_def map_update sum_list_update)
qed

text \<open>A file is appended to.\<close>

lemma iappend_inv:
  assumes inv: "mk_inv t fs" and i: "i < length fs" "fs ! i = (ty, xs)" and len: "length xs + length ys \<le> MAXFILE * BSIZE"
    and sp: "fb_of (fs[i := (ty, xs @ ys)]) \<le> FSSIZE_mk"
  shows "\<exists>t'. iappend (of_nat (Suc i)) ys t = Ok ((), t') \<and> mk_inv t' (fs[i := (ty, xs @ ys)])"
proof -
  let ?fb = "fb_of fs" and ?gs = "fs[i := (ty, xs @ ys)]"
  have n: "Suc i < 200" and m: "msb t = mk_sb" "freeblock t = of_nat ?fb" "unused_zero (img t) ?fb" "holds t (Suc i) ty ?fb xs"
    using inv i by (auto simp: mk_inv_def)
  note fb = fb_of_bound [OF inv]
  have up: "fb_of ?gs = ?fb + (blocks_of (length (xs @ ys)) - blocks_of (length xs))" using i by (intro fb_of_update) (simp_all add: blocks_mono)
  note l = sp [unfolded up]
  obtain t' where t': "iappend (of_nat (Suc i)) ys t = Ok ((), t')" "msb t' = mk_sb" "freeinode t' = freeinode t"
    and fb': "freeblock t' = of_nat (?fb + (blocks_of (length (xs @ ys)) - blocks_of (length xs)))"
    "holds t' (Suc i) ty (?fb + (blocks_of (length (xs @ ys)) - blocks_of (length xs))) (xs @ ys)"
    "unused_zero (img t') (?fb + (blocks_of (length (xs @ ys)) - blocks_of (length xs)))"
    "blks t' (Suc i) = blks t (Suc i) \<union> {?fb ..< ?fb + (blocks_of (length (xs @ ys)) - blocks_of (length xs))}"
    "\<forall>k. k \<notin> insert (iblk (Suc i)) (blks t (Suc i) \<union> {?fb ..< ?fb + (blocks_of (length (xs @ ys)) - blocks_of (length xs))}) \<longrightarrow> img t' k = img t k"
    and oth: "\<forall>j < 200. j \<noteq> Suc i \<longrightarrow> dino t' j = dino t j"
    using iappend_ok [OF m(1) n m(4,3) fb(2) m(2) l len] by blast
  have fr: "img t' k = img t k" if "k \<noteq> iblk (Suc i)" "k \<notin> blks t (Suc i)" "k < ?fb" for k using fb'(5) that by auto
  have other: "holds t' (Suc j) (fst (fs ! j)) (fb_of ?gs) (snd (fs ! j))" "blks t' (Suc j) = blks t (Suc j)" if j: "j < length fs" "j \<noteq> i" for j
  proof -
    have h: "holds t (Suc j) (fst (fs ! j)) ?fb (snd (fs ! j))" and dis: "blks t (Suc j) \<inter> blks t (Suc i) = {}" and j2: "Suc j < 200"
      using inv i(1) j by (auto simp: mk_inv_def)
    have dj: "dino t' (Suc j) = dino t (Suc j)" using oth j2 j(2) by simp
    have "img t' k = img t k" if "k \<in> blks t (Suc j)" for k
      using that dis holds_blks [OF h] mk_iblock(3) [OF n] by (intro fr) auto
    note frame = file_at_frame [OF _ _ this]
    show "blks t' (Suc j) = blks t (Suc j)" unfolding dj by (rule frame(2) [where fb = ?fb and fb' = ?fb and xs = "snd (fs ! j)"]) (use h in \<open>auto simp: holds_def\<close>)
    show "holds t' (Suc j) (fst (fs ! j)) (fb_of ?gs) (snd (fs ! j))"
      using h frame(1) [where fb = ?fb and fb' = "fb_of ?gs" and xs = "snd (fs ! j)"] by (simp add: holds_def dj up)
  qed
  have new: "blks t' (Suc i) \<inter> blks t (Suc j) = {}" if j: "j < length fs" "j \<noteq> i" for j
  proof -
    have "blks t (Suc i) \<inter> blks t (Suc j) = {}" "holds t (Suc j) (fst (fs ! j)) ?fb (snd (fs ! j))" using inv i(1) j by (auto simp: mk_inv_def)
    then show ?thesis using fb'(4) holds_blks [of t "Suc j" _ ?fb] by fastforce
  qed
  have one: "img t' 1 = img t 1"
    using holds_blks [OF m(4)] fb(2) by (intro fr) (auto simp: iblk_def nmeta_59)
  have dis: "blks t' (Suc a) \<inter> blks t' (Suc b) = {}" if ab: "a < length fs" "b < length fs" "a \<noteq> b" for a b
  proof -
    have "blks t (Suc a) \<inter> blks t (Suc b) = {}" using inv ab by (simp add: mk_inv_def)
    then show ?thesis using ab new other(2) by (cases "a = i"; cases "b = i") (simp_all, blast)
  qed
  have all: "holds t' (Suc j) (fst (?gs ! j)) (fb_of ?gs) (snd (?gs ! j))" if "j < length ?gs" for j
    using that other(1) [of j] fb'(2) i(1) by (cases "j = i") (simp_all add: up)
  have "mk_inv t' ?gs"
    using t'(2,3) fb'(1,3) inv all dis one unfolding mk_inv_def up by simp
  then show ?thesis using t'(1) by blast
qed

text \<open>A new file is empty.\<close>

lemma blocks_of_0: "blocks_of 0 = 0"
  by (simp add: blocks_of_def)

lemma empty_file:
  assumes "\<forall>i \<le> NDIRECT. ad i = 0"
  shows "file_at m ad fb []" "iblocks m ad = {}"
proof -
  have a: "iaddr m ad bn = 0" for bn using assms by (simp add: iaddr_def)
  have "ad NDIRECT = 0" using assms by simp
  then show "iblocks m ad = {}" by (auto simp: iblocks_def a)
  then show "file_at m ad fb []" using \<open>ad NDIRECT = 0\<close> by (simp add: file_at_def addrs_good_def a)
qed

lemma ialloc_inv:
  assumes inv: "mk_inv t fs" and n: "length fs < 199"
  shows "\<exists>t'. mk_ialloc ty t = Ok (of_nat (Suc (length fs)), t') \<and> mk_inv t' (fs @ [(ty, [])])"
proof -
  let ?n = "Suc (length fs)" and ?t1 = "t\<lparr>freeinode := freeinode t + 1\<rparr>" and ?ip = "blank_inode\<lparr>i_type := ty, i_nlink := 1, i_size := 0\<rparr>"
  have n200: "?n < 200" and m: "msb ?t1 = mk_sb" using n inv by (simp_all add: mk_inv_def)
  obtain d where w: "winode (of_nat ?n) ?ip ?t1 = Ok ((), ?t1\<lparr>img := (img ?t1)(iblk ?n := d)\<rparr>)"
    "\<And>j. j < 200 \<Longrightarrow> j \<noteq> ?n \<Longrightarrow> dino (?t1\<lparr>img := (img ?t1)(iblk ?n := d)\<rparr>) j = dino ?t1 j" "same_dinode (dino (?t1\<lparr>img := (img ?t1)(iblk ?n := d)\<rparr>) ?n) ?ip"
    using winode_ok [OF m n200, of ?ip] by blast
  define t2 where "t2 = ?t1\<lparr>img := (img ?t1)(iblk ?n := d)\<rparr>"
  have i2: "img t2 = (img t)(iblk ?n := d)" by (simp add: t2_def)
  have fbs: "fb_of (fs @ [(ty, [])]) = fb_of fs" by (simp add: fb_of_def blocks_of_0)
  have run: "mk_ialloc ty t = Ok (of_nat ?n, t2)"
    using inv w(1) by (simp add: mk_ialloc_def kern_simps mk_inv_def t2_def)
  have old: "holds t2 (Suc j) (fst (fs ! j)) (fb_of fs) (snd (fs ! j))" "blks t2 (Suc j) = blks t (Suc j)" if j: "j < length fs" for j
  proof -
    have h: "holds t (Suc j) (fst (fs ! j)) (fb_of fs) (snd (fs ! j))" using inv j by (simp add: mk_inv_def)
    have dj: "dino t2 (Suc j) = dino t (Suc j)" using w(2) [of "Suc j"] j n by (simp add: t2_def dino_def)
    have "img t2 k = img t k" if "k \<in> blks t (Suc j)" for k using that holds_blks [OF h] mk_iblock(3) [OF n200] by (auto simp: i2)
    note frame = file_at_frame [OF _ order_refl this, where fb = "fb_of fs" and xs = "snd (fs ! j)"]
    show "holds t2 (Suc j) (fst (fs ! j)) (fb_of fs) (snd (fs ! j))" using h frame(1) by (simp add: holds_def dj)
    show "blks t2 (Suc j) = blks t (Suc j)" unfolding dj by (rule frame(2)) (use h in \<open>auto simp: holds_def\<close>)
  qed
  have new: "holds t2 ?n ty (fb_of fs) []" "blks t2 ?n = {}"
  proof -
    have d: "i_type (dino t2 ?n) = ty" "i_size (dino t2 ?n) = 0" "\<forall>i \<le> NDIRECT. i_addrs (dino t2 ?n) i = 0"
      using w(3) by (simp_all add: same_dinode_def t2_def blank_inode_def)
    note e = empty_file [OF d(3)]
    show "holds t2 ?n ty (fb_of fs) []" using d(1,2) e(1) by (simp add: holds_def)
    show "blks t2 ?n = {}" by (rule e(2))
  qed
  have one: "img t2 1 = img t 1" by (simp add: i2 iblk_def)
  have uz: "unused_zero (img t2) (fb_of fs)"
    using inv mk_iblock(3) [OF n200] fb_of_bound(2) [OF inv] by (auto simp: mk_inv_def unused_zero_def i2)
  have all: "holds t2 (Suc j) (fst ((fs @ [(ty, [])]) ! j)) (fb_of fs) (snd ((fs @ [(ty, [])]) ! j))" if "j < Suc (length fs)" for j
    using that old(1) [of j] new(1) by (cases "j = length fs") (simp_all add: nth_append)
  have dis: "blks t2 (Suc a) \<inter> blks t2 (Suc b) = {}" if "a < Suc (length fs)" "b < Suc (length fs)" "a \<noteq> b" for a b
    using that inv old(2) [of a] old(2) [of b] new(2) by (cases "a = length fs"; cases "b = length fs") (simp_all add: mk_inv_def)
  have "msb t2 = mk_sb" "freeinode t2 = of_nat (Suc (Suc (length fs)))" "freeblock t2 = of_nat (fb_of fs)"
    using inv by (simp_all add: mk_inv_def t2_def)
  then have "mk_inv t2 (fs @ [(ty, [])])"
    using inv n all dis uz one unfolding mk_inv_def fbs by simp
  then show ?thesis using run by blast
qed

end
