(* ===== verification/Mkfs_Props.thy ===== *)
theory Mkfs_Props
  imports Mkfs_Image
begin

unbundle bit_operations_syntax

text \<open>
  The run of \<open>mkfs\<close>, and the image as the kernel reads it: the superblock, the free map and the inodes are well formed, and every file that was put into the
  image has, through the addresses in its inode, exactly the bytes that were put in.
\<close>

section \<open>The program\<close>

lemma fb_of_mono: "length xs \<le> length ys \<Longrightarrow> fb_of (fs[i := (ty, xs)]) \<le> fb_of (fs[i := (ty, ys)])"
proof (induction fs arbitrary: i)
  case (Cons f fs)
  then show ?case by (cases i) (simp_all add: fb_of_def blocks_mono)
qed (simp add: fb_of_def)

lemma append_parts_inv:
  "mk_inv t fs \<Longrightarrow> i < length fs \<Longrightarrow> fs ! i = (ty, xs) \<Longrightarrow> length xs + length (concat parts) \<le> MAXFILE * BSIZE \<Longrightarrow>
    fb_of (fs[i := (ty, xs @ concat parts)]) \<le> FSSIZE_mk \<Longrightarrow>
    \<exists>t'. append_parts (of_nat (Suc i)) parts t = Ok ((), t') \<and> mk_inv t' (fs[i := (ty, xs @ concat parts)])"
proof (induction parts arbitrary: t fs xs)
  case Nil
  then show ?case using list_update_id [of fs i] by (simp add: kern_simps)
next
  case (Cons ys parts)
  have "fb_of (fs[i := (ty, xs @ ys)]) \<le> FSSIZE_mk" by (rule order_trans [OF fb_of_mono Cons.prems(5)]) simp
  then obtain t1 where t1: "iappend (of_nat (Suc i)) ys t = Ok ((), t1)" "mk_inv t1 (fs[i := (ty, xs @ ys)])"
    using iappend_inv [OF Cons.prems(1-3), of ys] Cons.prems(4) by auto
  from Cons.IH [OF t1(2), of "xs @ ys"] Cons.prems(2,4,5) obtain t2 where
    "append_parts (of_nat (Suc i)) parts t1 = Ok ((), t2)" "mk_inv t2 (fs[i := (ty, xs @ ys @ concat parts)])" by auto
  then show ?case using t1(1) by (auto simp: kern_simps)
qed

lemma length_dirent: "length (dirent n name) = 16"
  by (simp add: dirent_def xshort_def DIRSIZ_def)

text \<open>The root directory after the files \<open>fs\<close>, of which the first has inode \<open>k\<close>.\<close>

fun entries :: "nat \<Rightarrow> (u8 list \<times> u8 list list) list \<Rightarrow> u8 list" where
  "entries k [] = []"
| "entries k ((name, parts) # fs) = dirent (of_nat k) (skip_underscore name) @ entries (Suc k) fs"

lemma length_entries: "length (entries k fs) = 16 * length fs"
  by (induction k fs rule: entries.induct) (simp_all add: length_dirent)

definition stored :: "(u8 list \<times> u8 list list) list \<Rightarrow> files" where
  "stored fs = map (\<lambda>(name, parts). (T_FILE, concat parts)) fs"

definition file_fits :: "u8 list \<times> u8 list list \<Rightarrow> bool" where
  "file_fits f \<longleftrightarrow> 47 \<notin> set (fst f) \<and> length (concat (snd f)) \<le> MAXFILE * BSIZE"

lemma add_file_inv:
  assumes inv: "mk_inv t ((T_DIR, xs) # gs)" and n: "length gs < 198" and f: "file_fits (name, parts)" and len: "length xs + 16 \<le> MAXFILE * BSIZE"
    and sp: "fb_of ((T_DIR, xs @ dirent (of_nat (length gs + 2)) (skip_underscore name)) # gs @ [(T_FILE, concat parts)]) \<le> FSSIZE_mk"
  shows "\<exists>t'. add_file name parts t = Ok ((), t') \<and>
    mk_inv t' ((T_DIR, xs @ dirent (of_nat (length gs + 2)) (skip_underscore name)) # gs @ [(T_FILE, concat parts)])"
proof -
  let ?k = "length gs + 2" and ?xs = "xs @ dirent (of_nat (length gs + 2)) (skip_underscore name)"
  obtain t1 where t1: "mk_ialloc T_FILE t = Ok (of_nat ?k, t1)" "mk_inv t1 ((T_DIR, xs) # gs @ [(T_FILE, [])])"
    using ialloc_inv [OF inv, of T_FILE] n by auto
  have "fb_of ((T_DIR, ?xs) # gs @ [(T_FILE, [])]) \<le> FSSIZE_mk"
    using sp blocks_mono [of 0 "length (concat parts)"] unfolding fb_of_def by simp
  then obtain t2 where t2: "iappend ROOTINO (dirent (of_nat ?k) (skip_underscore name)) t1 = Ok ((), t2)" "mk_inv t2 ((T_DIR, ?xs) # gs @ [(T_FILE, [])])"
    using iappend_inv [OF t1(2), of 0 T_DIR xs "dirent (of_nat ?k) (skip_underscore name)"] len by (auto simp: length_dirent ROOTINO_def)
  have "((T_DIR, ?xs) # gs @ [(T_FILE, [])]) ! Suc (length gs) = (T_FILE, [])" by (simp add: nth_append)
  from append_parts_inv [OF t2(2) _ this, of parts] obtain t3 where t3: "append_parts (of_nat ?k) parts t2 = Ok ((), t3)"
    "mk_inv t3 ((T_DIR, ?xs) # gs @ [(T_FILE, concat parts)])" using f sp by (auto simp: file_fits_def list_update_append)
  have "add_file name parts t = Ok ((), t3)"
    using f t1(1) t2(1) t3(1) by (simp add: add_file_def file_fits_def assertk_def kern_simps)
  then show ?thesis using t3(2) by blast
qed

lemma add_files_inv:
  "mk_inv t ((T_DIR, xs) # gs) \<Longrightarrow> length gs + length fs \<le> 198 \<Longrightarrow> \<forall>f \<in> set fs. file_fits f \<Longrightarrow> length xs + 16 * length fs \<le> MAXFILE * BSIZE \<Longrightarrow>
    fb_of ((T_DIR, xs @ entries (length gs + 2) fs) # gs @ stored fs) \<le> FSSIZE_mk \<Longrightarrow>
    \<exists>t'. add_files fs t = Ok ((), t') \<and> mk_inv t' ((T_DIR, xs @ entries (length gs + 2) fs) # gs @ stored fs)"
proof (induction fs arbitrary: t xs gs)
  case (Cons f fs)
  obtain name parts where f: "f = (name, parts)" by (cases f)
  let ?xs = "xs @ dirent (of_nat (length gs + 2)) (skip_underscore name)"
  have "fb_of ((T_DIR, ?xs) # gs @ [(T_FILE, concat parts)]) \<le> FSSIZE_mk"
  proof (rule order_trans [OF _ Cons.prems(5)])
    have "blocks_of (length ?xs) \<le> blocks_of (length (xs @ entries (length gs + 2) (f # fs)))" by (rule blocks_mono) (simp add: f)
    then show "fb_of ((T_DIR, ?xs) # gs @ [(T_FILE, concat parts)]) \<le> fb_of ((T_DIR, xs @ entries (length gs + 2) (f # fs)) # gs @ stored (f # fs))"
      by (simp add: fb_of_def stored_def f)
  qed
  then obtain t1 where t1: "add_file name parts t = Ok ((), t1)"
    "mk_inv t1 ((T_DIR, xs @ dirent (of_nat (length gs + 2)) (skip_underscore name)) # gs @ [(T_FILE, concat parts)])"
    using add_file_inv [OF Cons.prems(1), of name parts] Cons.prems(2-4) f by auto
  from Cons.IH [OF t1(2)] Cons.prems(2-5) f obtain t2 where "add_files fs t1 = Ok ((), t2)"
    "mk_inv t2 ((T_DIR, (xs @ dirent (of_nat (length gs + 2)) (skip_underscore name)) @ entries (length gs + 3) fs) # (gs @ [(T_FILE, concat parts)]) @ stored fs)"
    by (auto simp: length_dirent stored_def numeral_eq_Suc)
  then show ?case using t1(1) f by (auto simp: kern_simps stored_def numeral_eq_Suc)
qed (simp add: kern_simps stored_def)

section \<open>The free map\<close>

lemma upd_bit:
  "(bit v z \<longleftrightarrow> bit (f x) z \<or> z = w) \<Longrightarrow> \<not> bit ((f(x := v)) y) z \<longleftrightarrow> \<not> bit (f y) z \<and> \<not> (y = x \<and> z = w)"
  by simp

lemma set_bits_ok: "bit_clear (set_bits i n buf) b \<longleftrightarrow> bit_clear buf b \<and> \<not> (i \<le> b \<and> b < i + n)"
proof (induction n arbitrary: i buf)
  case (Suc n)
  let ?x = "buf (i div 8) OR push_bit (i mod 8) 1"
  have e: "b = i \<longleftrightarrow> b div 8 = i div 8 \<and> b mod 8 = i mod 8" by (metis div_mult_mod_eq)
  have "bit ?x j \<longleftrightarrow> bit (buf (i div 8)) j \<or> j = i mod 8" if "j < 8" for j
    using that by (auto simp: bit_or_iff bit_exp_iff)
  then have "bit ?x (b mod 8) \<longleftrightarrow> bit (buf (i div 8)) (b mod 8) \<or> b mod 8 = i mod 8" by simp
  then have "bit_clear (buf(i div 8 := ?x)) b \<longleftrightarrow> bit_clear buf b \<and> b \<noteq> i"
    unfolding bit_clear_iff e by (rule upd_bit)
  moreover have "i \<le> b \<and> b < i + Suc n \<longleftrightarrow> b = i \<or> Suc i \<le> b \<and> b < Suc i + n" by presburger
  ultimately show ?case unfolding set_bits.simps Suc.IH [of "Suc i"] by blast
qed simp

section \<open>The run\<close>

definition root_bytes :: "(u8 list \<times> u8 list list) list \<Rightarrow> u8 list" where
  "root_bytes files = dirent ROOTINO [46] @ dirent ROOTINO [46, 46] @ entries 2 files"

definition contents :: "(u8 list \<times> u8 list list) list \<Rightarrow> files" where
  "contents files = (T_DIR, root_bytes files) # stored files"

definition can_build :: "(u8 list \<times> u8 list list) list \<Rightarrow> bool" where
  "can_build files \<longleftrightarrow> length files \<le> 198 \<and> (\<forall>f \<in> set files. file_fits f) \<and> fb_of (contents files) \<le> FSSIZE_mk"

lemma length_root_bytes: "length (root_bytes files) = 16 * (length files + 2)"
  by (simp add: root_bytes_def length_dirent length_entries)

lemma empty_image_inv: "mk_inv empty_image []"
  by (simp add: mk_inv_def empty_image_def unused_zero_def fb_of_def nmeta_59)

lemma root_inv:
  assumes "can_build files"
  shows "\<exists>t1 t2 t3 t4. mk_ialloc T_DIR empty_image = Ok (ROOTINO, t1) \<and> iappend ROOTINO (dirent ROOTINO [46]) t1 = Ok ((), t2) \<and>
    iappend ROOTINO (dirent ROOTINO [46, 46]) t2 = Ok ((), t3) \<and> add_files files t3 = Ok ((), t4) \<and> mk_inv t4 (contents files)"
proof -
  let ?d = "dirent ROOTINO [46]" and ?dd = "dirent ROOTINO [46, 46]"
  have fit: "fb_of (contents files) \<le> FSSIZE_mk" "length files \<le> 198" "\<forall>f \<in> set files. file_fits f" using assms by (simp_all add: can_build_def)
  have sm: "fb_of [(T_DIR, ?d)] \<le> FSSIZE_mk" "fb_of [(T_DIR, ?d @ ?dd)] \<le> FSSIZE_mk"
    by (simp_all add: fb_of_def length_dirent nmeta_59 FSSIZE_mk_def blocks_of_def NDIRECT_def BSIZE_def)
  obtain t1 where t1: "mk_ialloc T_DIR empty_image = Ok (ROOTINO, t1)" "mk_inv t1 [(T_DIR, [])]"
    using ialloc_inv [OF empty_image_inv, of T_DIR] by (auto simp: ROOTINO_def)
  obtain t2 where t2: "iappend ROOTINO ?d t1 = Ok ((), t2)" "mk_inv t2 [(T_DIR, ?d)]"
    using iappend_inv [OF t1(2), of 0 T_DIR "[]" ?d] sm(1) by (auto simp: ROOTINO_def length_dirent max_bytes)
  obtain t3 where t3: "iappend ROOTINO ?dd t2 = Ok ((), t3)" "mk_inv t3 ((T_DIR, ?d @ ?dd) # [])"
    using iappend_inv [OF t2(2), of 0 T_DIR ?d ?dd] sm(2) by (auto simp: ROOTINO_def length_dirent max_bytes)
  have c: "contents files = (T_DIR, (?d @ ?dd) @ entries (length ([] :: files) + 2) files) # [] @ stored files" by (simp add: contents_def root_bytes_def numeral_2_eq_2)
  have "length ([] :: files) + length files \<le> 198" "length (?d @ ?dd) + 16 * length files \<le> MAXFILE * BSIZE"
    using fit(2) by (simp_all add: length_dirent max_bytes)
  from add_files_inv [OF t3(2) this(1) fit(3) this(2) fit(1) [unfolded c]] obtain t4 where "add_files files t3 = Ok ((), t4)" "mk_inv t4 (contents files)"
    unfolding c by blast
  then show ?thesis using t1(1) t2(1) t3(1) by blast
qed

text \<open>The finished image: only the size of the root directory and the free map differ from what \<open>mk_inv\<close> describes.\<close>

definition built :: "mkst \<Rightarrow> files \<Rightarrow> bool" where
  "built t fs \<longleftrightarrow> img t 1 = put_list 0 (sb_bytes mk_sb) (\<lambda>_. 0) \<and> img t 58 = set_bits 0 (fb_of fs) (\<lambda>_. 0) \<and>
     (\<forall>i < length fs. i_type (dino t (Suc i)) = fst (fs ! i) \<and> file_at (img t) (i_addrs (dino t (Suc i))) (fb_of fs) (snd (fs ! i)) \<and>
        i_size (dino t (Suc i)) = of_nat (if i = 0 then (length (snd (fs ! i)) div 512 + 1) * 512 else length (snd (fs ! i))))"

lemma size_word:
  assumes "l \<le> 4096"
  shows "((of_nat l :: u32) div of_nat BSIZE + 1) * of_nat BSIZE = of_nat ((l div 512 + 1) * 512)"
proof (rule unsigned_word_eqI)
  have "unat (of_nat l :: u32) = l" using assms by (simp add: unat_of_nat)
  then have d: "unat ((of_nat l :: u32) div of_nat BSIZE) = l div 512" by (simp add: unat_div BSIZE_def)
  have "l div 512 \<le> 8" using div_le_mono [OF assms, of 512] by simp
  then show "unat (((of_nat l :: u32) div of_nat BSIZE + 1) * of_nat BSIZE) = unat (of_nat ((l div 512 + 1) * 512) :: u32)"
    using d by (simp add: unat_word_ariths unat_of_nat BSIZE_def)
qed

lemma fix_root_ok:
  assumes inv: "mk_inv t fs" and r: "fs \<noteq> []" "length (snd (fs ! 0)) \<le> 4096" and fb: "fb_of fs \<le> FSSIZE_mk"
  shows "\<exists>t'. seqk fix_root (\<lambda>s. mk_balloc (unat (freeblock s)) s) t = Ok ((), t') \<and> built t' fs"
proof -
  let ?l = "length (snd (fs ! 0))"
  have one: "1 = Suc 0" by simp
  have m: "msb t = mk_sb" "freeblock t = of_nat (fb_of fs)" "img t 1 = put_list 0 (sb_bytes mk_sb) (\<lambda>_. 0)"
    "\<And>i. i < length fs \<Longrightarrow> holds t (Suc i) (fst (fs ! i)) (fb_of fs) (snd (fs ! i))" "length fs < 200"
    using inv by (simp_all add: mk_inv_def)
  note h0 = m(4) [of 0, simplified]
  let ?ip = "(dino t 1)\<lparr>i_size := of_nat ((?l div 512 + 1) * 512)\<rparr>"
  obtain d where w: "winode (of_nat 1) ?ip t = Ok ((), t\<lparr>img := (img t)(iblk 1 := d)\<rparr>)"
    "\<And>j. j < 200 \<Longrightarrow> j \<noteq> 1 \<Longrightarrow> dino (t\<lparr>img := (img t)(iblk 1 := d)\<rparr>) j = dino t j" "same_dinode (dino (t\<lparr>img := (img t)(iblk 1 := d)\<rparr>) 1) ?ip"
    using winode_ok [OF m(1), of 1 ?ip] by auto
  define t2 where "t2 = t\<lparr>img := (img t)(iblk 1 := d)\<rparr>"
  define t3 where "t3 = t2\<lparr>img := (img t2)(58 := set_bits 0 (fb_of fs) (\<lambda>_. 0))\<rparr>"
  have fx: "fix_root t = Ok ((), t2)"
    using rinode_ok [OF m(1), of 1] w(1) h0 r size_word [OF r(2)] by (simp add: fix_root_def kern_simps ROOTINO_def holds_def t2_def)
  have t2: "msb t2 = mk_sb" "freeblock t2 = of_nat (fb_of fs)" "img t2 = (img t)(iblk 1 := d)" using m by (simp_all add: t2_def)
  have bl: "mk_balloc (unat (freeblock t2)) t2 = Ok ((), t3)"
    using fb t2 by (simp add: mk_balloc_def mk_sb_fields assertk_def wsect_def kern_simps unat_of_nat BSIZE_def FSSIZE_mk_def t3_def)
  have data: "img t3 k = img t k" if "k \<in> blks t (Suc i)" "i < length fs" for i k
    using that holds_blks [OF m(4) [OF that(2)]] by (auto simp: t3_def t2(3) iblk_def nmeta_59)
  have dt: "dino t3 j = dino t2 j" if "j < 200" for j using that by (simp add: dino_def t3_def iblk_def)
  have at: "file_at (img t3) (i_addrs (dino t3 (Suc i))) (fb_of fs) (snd (fs ! i))"
    if i: "i < length fs" and ad: "\<And>n. n \<le> NDIRECT \<Longrightarrow> i_addrs (dino t3 (Suc i)) n = i_addrs (dino t (Suc i)) n" for i
  proof -
    have "file_at (img t) (i_addrs (dino t (Suc i))) (fb_of fs) (snd (fs ! i))" using m(4) [OF i] by (simp add: holds_def)
    from file_at_frame(1) [OF this order_refl data [OF _ i]] show ?thesis using file_at_low(1) [OF ad] by simp
  qed
  have root: "i_type (dino t3 1) = fst (fs ! 0)" "i_size (dino t3 1) = of_nat ((?l div 512 + 1) * 512)"
    "\<And>n. n \<le> NDIRECT \<Longrightarrow> i_addrs (dino t3 1) n = i_addrs (dino t 1) n"
    using w(3) dt [of 1] h0 r(1) by (simp_all add: same_dinode_def holds_def t2_def)
  have rest: "dino t3 (Suc i) = dino t (Suc i)" if "i < length fs" "i \<noteq> 0" for i
    using w(2) [of "Suc i"] dt [of "Suc i"] that m(5) by (simp add: t2_def)
  have "i_type (dino t3 (Suc i)) = fst (fs ! i) \<and> file_at (img t3) (i_addrs (dino t3 (Suc i))) (fb_of fs) (snd (fs ! i)) \<and>
      i_size (dino t3 (Suc i)) = of_nat (if i = 0 then (length (snd (fs ! i)) div 512 + 1) * 512 else length (snd (fs ! i)))"
    if i: "i < length fs" for i
  proof (cases "i = 0")
    case True
    then show ?thesis using root at [OF i] by simp
  next
    case False
    then show ?thesis using rest [OF i False] m(4) [OF i] at [OF i] by (simp add: holds_def)
  qed
  moreover have "img t3 1 = put_list 0 (sb_bytes mk_sb) (\<lambda>_. 0)" "img t3 58 = set_bits 0 (fb_of fs) (\<lambda>_. 0)"
    using m(3) by (simp_all add: t3_def t2(3) iblk_def)
  ultimately have "built t3 fs" unfolding built_def by blast
  then show ?thesis using fx bl by (intro exI [of _ t3]) (simp add: kern_simps)
qed

lemma mkfs_builds:
  assumes "can_build files"
  shows "\<exists>t. mkfs files s = Ok ((), t) \<and> built t (contents files)"
proof -
  obtain t1 t2 t3 t4 where r: "mk_ialloc T_DIR empty_image = Ok (ROOTINO, t1)" "iappend ROOTINO (dirent ROOTINO [46]) t1 = Ok ((), t2)"
    "iappend ROOTINO (dirent ROOTINO [46, 46]) t2 = Ok ((), t3)" "add_files files t3 = Ok ((), t4)" "mk_inv t4 (contents files)"
    using root_inv [OF assms] by blast
  have "contents files \<noteq> []" "length (snd (contents files ! 0)) \<le> 4096" "fb_of (contents files) \<le> FSSIZE_mk"
    using assms by (simp_all add: can_build_def contents_def length_root_bytes)
  from fix_root_ok [OF r(5) this] obtain t5 where t5: "seqk fix_root (\<lambda>s. mk_balloc (unat (freeblock s)) s) t4 = Ok ((), t5)" "built t5 (contents files)"
    by blast
  have "mkfs files s = Ok ((), t5)"
    using r(1-4) t5(1) by (simp add: mkfs_def assertk_def kern_simps)
  then show ?thesis using t5(2) by blast
qed

section \<open>The image in the kernel\<close>

text \<open>A kernel whose disk holds the image, and an entry of its inode cache that was loaded from inode \<open>n\<close>.\<close>

definition mounted :: "mkst \<Rightarrow> 'x fsst_scheme \<Rightarrow> bool" where
  "mounted t k \<longleftrightarrow> bview k = img t \<and> disksize k = FSSIZE_mk \<and> sb k = sb_of_block (img t 1) \<and> log_start k = sb_logstart (sb k)"

definition loaded :: "'x fsst_scheme \<Rightarrow> nat \<Rightarrow> nat \<Rightarrow> bool" where
  "loaded k i n \<longleftrightarrow> i_dev (inodes k i) = 1 \<and> i_inum (inodes k i) = of_nat n \<and> synced k i"

lemma xint_roundtrip: "ucast (ucast x :: u8) OR push_bit 8 (ucast (ucast (drop_bit 8 x) :: u8)) OR push_bit 16 (ucast (ucast (drop_bit 16 x) :: u8)) OR
    push_bit 24 (ucast (ucast (drop_bit 24 x) :: u8)) = (x :: u32)"
  using get32_put32 [of 0 x "\<lambda>_. 0"] by (simp add: get32_def put32_def)

lemma mk_sb_read: "sb_of_block (put_list 0 (sb_bytes mk_sb) (\<lambda>_. 0)) = mk_sb"
  by (simp add: sb_of_block_def get32_def put_list_def sb_bytes_def xint_def xint_roundtrip)

lemma mounted_fs:
  assumes "built t fs" "mounted t k" "fb_of fs \<le> FSSIZE_mk"
  shows "sb k = mk_sb" "fs_ok k" "nmeta \<le> unat a \<Longrightarrow> unat a < fb_of fs \<Longrightarrow> data_block k a"
proof -
  show sb: "sb k = mk_sb" using assms(1,2) mk_sb_read by (simp add: mounted_def built_def)
  have la: "log_area k = {2 .. 31}" using assms(2) by (simp add: mounted_def log_area_def sb mk_sb_fields)
  have sz: "fs_size k = 1000" "disksize k = 1000" using assms(2) by (simp_all add: fs_size_def sb mk_sb_fields mounted_def FSSIZE_mk_def)
  have bb: "bmblk k b = 58" if "b < 1000" for b using that by (simp add: bmblk_def BBLOCK_def sb mk_sb_fields BPB_def)
  have ib: "unat (IBLOCK n mk_sb) < 58" "32 \<le> unat (IBLOCK n mk_sb)" if "n < 200" for n
    using that mk_iblock(1) [of "unat n"] by (simp_all add: iblk_def word_less_nat_alt)
  have us: "used k b \<longleftrightarrow> b < fb_of fs" if "b < 1000" for b
    using that assms(1,2) set_bits_ok [of 0 "fb_of fs" "\<lambda>_. 0" b] bit_clear_iff [of "\<lambda>_. 0" b] by (simp add: used_def bb mounted_def built_def BPB_def)
  have meta: "b < nmeta" if "b \<in> metablk k" for b
    using that ib(1) by (fastforce simp: metablk_def la bb sz sb mk_sb_fields nmeta_59)
  have fb: "nmeta \<le> fb_of fs" by (simp add: fb_of_def)
  have "map_ok k" by (simp add: map_ok_def sz sb mk_sb_fields la BPB_def div_le_mono)
  moreover have "iblk_ok k n \<and> unat (IBLOCK n (sb k)) \<notin> mapblk k" if "n < sb_ninodes (sb k)" for n
    using ib [of n] that by (auto simp: iblk_ok_def fsblk_def sz sb mk_sb_fields la mapblk_def bb)
  ultimately show "fs_ok k" using us meta fb sz(1) unfolding fs_ok_def by fastforce
  assume a: "nmeta \<le> unat a" "unat a < fb_of fs"
  then show "data_block k a" using us [of "unat a"] meta [of "unat a"] assms(3) by (auto simp: data_block_def sz FSSIZE_mk_def)
qed

text \<open>The addresses of an inode that was loaded.\<close>

lemma loaded_inode:
  assumes b: "built t fs" "mounted t k" "fb_of fs \<le> FSSIZE_mk" and n: "n < length fs" "length fs < 200" and l: "loaded k i (Suc n)"
  shows "i_type (inodes k i) = fst (fs ! n)" "baddr k i = iaddr (img t) (i_addrs (dino t (Suc n)))" "ind k i = i_addrs (dino t (Suc n)) NDIRECT"
    "i_size (inodes k i) = i_size (dino t (Suc n))" "file_at (img t) (i_addrs (dino t (Suc n))) (fb_of fs) (snd (fs ! n))"
proof -
  have sb: "sb k = mk_sb" and v: "bview k = img t" using mounted_fs(1) [OF b] b(2) by (simp_all add: mounted_def)
  have "same_dinode (get_dinode (64 * (Suc n mod 8)) (img t (iblk (Suc n))) (inodes k i)) (inodes k i)"
  proof -
    have i: "i_inum (inodes k i) = of_nat (Suc n)" and s: "synced k i" using l by (simp_all only: loaded_def)
    have "Suc n < 200" using n by simp
    from s [unfolded synced_def inode_block_def sb v i mk_iblock(1,2) [OF this]] show ?thesis .
  qed
  then have f: "i_type (inodes k i) = i_type (dino t (Suc n))" "i_size (inodes k i) = i_size (dino t (Suc n))"
    "\<And>j. j \<le> NDIRECT \<Longrightarrow> i_addrs (inodes k i) j = i_addrs (dino t (Suc n)) j"
    by (simp_all add: same_dinode_def get_dinode_def dino_def)
  then show "i_type (inodes k i) = fst (fs ! n)" "i_size (inodes k i) = i_size (dino t (Suc n))" "ind k i = i_addrs (dino t (Suc n)) NDIRECT"
    "file_at (img t) (i_addrs (dino t (Suc n))) (fb_of fs) (snd (fs ! n))" using b(1) n(1) by (simp_all add: built_def ind_def)
  have "baddr k i = iaddr (bview k) (i_addrs (inodes k i))" by (intro ext) (simp add: baddr_def iaddr_def ind_def)
  then show "baddr k i = iaddr (img t) (i_addrs (dino t (Suc n)))" using iaddr_low [OF f(3)] by (simp add: v)
qed

lemma loaded_addrs:
  assumes b: "built t fs" "mounted t k" "fb_of fs \<le> FSSIZE_mk" and n: "n < length fs" "length fs < 200" and l: "loaded k i (Suc n)"
  shows "addrs_ok k i"
proof -
  note li = loaded_inode [OF b n l]
  have g: "addrs_good (img t) (i_addrs (dino t (Suc n))) (fb_of fs)" using li(5) by (simp add: file_at_def)
  have d: "data_block k a" if "unat a \<in> iblocks (img t) (i_addrs (dino t (Suc n)))" for a
    using that g mounted_fs(3) [OF b] by (auto simp: addrs_good_def)
  have "i_inum (inodes k i) < sb_ninodes (sb k)"
    using l n mounted_fs(1) [OF b] by (simp add: loaded_def mk_sb_fields word_less_nat_alt unat_of_nat unat_word_ariths)
  then show ?thesis using l g d in_iblocks unfolding addrs_ok_def li(2,3) addrs_good_def loaded_def by blast
qed

lemma loaded_bytes:
  assumes b: "built t fs" "mounted t k" "fb_of fs \<le> FSSIZE_mk" and n: "n < length fs" "length fs < 200" and l: "loaded k i (Suc n)"
    and j: "j < MAXFILE * BSIZE"
  shows "fbyte k i j = (if j < length (snd (fs ! n)) then snd (fs ! n) ! j else 0)" "baddr k i (j div BSIZE) \<noteq> 0 \<longleftrightarrow> j div BSIZE * BSIZE < length (snd (fs ! n))"
proof -
  let ?xs = "snd (fs ! n)"
  note li = loaded_inode [OF b n l]
  have v: "bview k = img t" using b(2) by (simp add: mounted_def)
  have c: "j div BSIZE < MAXFILE" by (rule fbyte_block [OF j])
  show m: "baddr k i (j div BSIZE) \<noteq> 0 \<longleftrightarrow> j div BSIZE * BSIZE < length ?xs" using li(5) c by (simp add: li(2) file_at_def)
  show "fbyte k i j = (if j < length ?xs then ?xs ! j else 0)"
  proof (cases "baddr k i (j div BSIZE) = 0")
    case True
    then have "\<not> j < length ?xs" using m div_times_less_eq_dividend [of j BSIZE] by linarith
    then show ?thesis using True by (simp add: fbyte_def)
  next
    case False
    then show ?thesis using li(5) j by (simp add: fbyte_def Let_def li(2) v file_at_def ibyte_def)
  qed
qed

lemma pad_list: "length xs \<le> m \<Longrightarrow> map (\<lambda>j. if j < length xs then xs ! j else 0) [0 ..< m] = xs @ replicate (m - length xs) (0 :: u8)"
  by (rule nth_equalityI) (auto simp: nth_append)

text \<open>A file as the kernel sees it, and the root directory, whose size is rounded up past its last entry.\<close>

lemma loaded_file:
  assumes b: "built t fs" "mounted t k" "fb_of fs \<le> FSSIZE_mk" and n: "n < length fs" "length fs < 200" and l: "loaded k i (Suc n)"
    and ty: "fst (fs ! n) \<noteq> T_DEV" and sz: "fsize k i = m" "length (snd (fs ! n)) \<le> m" "m \<le> MAXFILE * BSIZE"
  shows "content k i = snd (fs ! n) @ replicate (m - length (snd (fs ! n))) 0"
    "file_ok k i \<longleftrightarrow> (\<forall>j < m. j div BSIZE * BSIZE < length (snd (fs ! n)))"
proof -
  have "fbyte k i j = (if j < length (snd (fs ! n)) then snd (fs ! n) ! j else 0)" if "j < m" for j
    using loaded_bytes(1) [OF b n l, of j] sz(3) that by simp
  then have "map (fbyte k i) [0 ..< m] = map (\<lambda>j. if j < length (snd (fs ! n)) then snd (fs ! n) ! j else 0) [0 ..< m]"
    by (intro map_cong) auto
  then show "content k i = snd (fs ! n) @ replicate (m - length (snd (fs ! n))) 0"
    using pad_list [OF sz(2)] by (simp add: content_def sz(1))
  have "(\<forall>j < m. baddr k i (j div BSIZE) \<noteq> 0) \<longleftrightarrow> (\<forall>j < m. j div BSIZE * BSIZE < length (snd (fs ! n)))"
    using loaded_bytes(2) [OF b n l] sz(3) by (meson order_less_le_trans)
  then show "file_ok k i \<longleftrightarrow> (\<forall>j < m. j div BSIZE * BSIZE < length (snd (fs ! n)))"
    using mounted_fs(2) [OF b] loaded_addrs [OF b n l] loaded_inode(1) [OF b n l] l ty sz(1,3) by (simp add: file_ok_def loaded_def)
qed

lemma file_mapped: "m \<le> l \<Longrightarrow> j < m \<Longrightarrow> j div BSIZE * BSIZE < (l :: nat)"
  using div_times_less_eq_dividend [of j BSIZE] by linarith

text \<open>The last block of the rounded size has a first byte, which no entry covers when the entries fill their blocks.\<close>

lemma root_mapped: "(\<forall>j < (l div 512 + 1) * 512. j div 512 * 512 < l) \<longleftrightarrow> l mod 512 \<noteq> (0 :: nat)"
proof
  assume "\<forall>j < (l div 512 + 1) * 512. j div 512 * 512 < l"
  from this [rule_format, of "l div 512 * 512"] have "l div 512 * 512 < l" by simp
  then show "l mod 512 \<noteq> 0" using div_mult_mod_eq [of l 512] by linarith
next
  assume m: "l mod 512 \<noteq> 0"
  show "\<forall>j < (l div 512 + 1) * 512. j div 512 * 512 < l"
  proof (intro allI impI)
    fix j assume "j < (l div 512 + 1) * 512"
    then have "j div 512 < l div 512 + 1" by (simp add: div_less_iff_less_mult)
    then have "j div 512 * 512 \<le> l div 512 * 512" by simp
    then show "j div 512 * 512 < l" using m div_mult_mod_eq [of l 512] by linarith
  qed
qed

definition root_size :: "(u8 list \<times> u8 list list) list \<Rightarrow> nat" where
  "root_size files = (16 * (length files + 2) div 512 + 1) * 512"

lemma contents_facts:
  assumes "can_build files"
  shows "length (contents files) < 200" "length (contents files) = Suc (length files)" "fb_of (contents files) \<le> FSSIZE_mk"
  using assms by (simp_all add: can_build_def contents_def stored_def)

lemma built_file:
  assumes c: "can_build files" and b: "built t (contents files)" and m: "mounted t k" "j < length files" "loaded k i (j + 2)"
  shows "i_type (inodes k i) = T_FILE \<and> file_ok k i \<and> content k i = concat (snd (files ! j))"
proof -
  let ?fs = "contents files"
  note n = contents_facts [OF c]
  have l: "loaded k i (Suc (Suc j))" and lt: "Suc j < length ?fs" using m(2,3) n(2) by simp_all
  have f: "?fs ! Suc j = (T_FILE, concat (snd (files ! j)))" using m(2) by (simp add: contents_def stored_def split: prod.split)
  have le: "length (concat (snd (files ! j))) \<le> MAXFILE * BSIZE"
    using c m(2) nth_mem [OF m(2)] by (auto simp: can_build_def file_fits_def)
  note li = loaded_inode [OF b m(1) n(3) lt n(1) l]
  have "i_size (dino t (Suc (Suc j))) = of_nat (length (concat (snd (files ! j))))" using b lt f by (simp add: built_def)
  then have sz: "fsize k i = length (concat (snd (files ! j)))" using li(4) le by (simp add: fsize_def max_bytes unat_of_nat)
  note lf = loaded_file [OF b m(1) n(3) lt n(1) l, unfolded f fst_conv snd_conv, OF _ sz order_refl le]
  have "\<forall>a < length (concat (snd (files ! j))). a div BSIZE * BSIZE < length (concat (snd (files ! j)))" using file_mapped [OF order_refl] by blast
  then show ?thesis using lf li(1) f by (simp add: T_FILE_def T_DEV_def)
qed

lemma built_root:
  assumes c: "can_build files" and b: "built t (contents files)" and m: "mounted t k" "loaded k i 1"
  shows "i_type (inodes k i) = T_DIR \<and> content k i = root_bytes files @ replicate (root_size files - length (root_bytes files)) 0 \<and>
    (file_ok k i \<longleftrightarrow> (length files + 2) mod 32 \<noteq> 0)"
proof -
  let ?fs = "contents files"
  note n = contents_facts [OF c]
  have l: "loaded k i (Suc 0)" and lt: "0 < length ?fs" using m(2) n(2) by simp_all
  have f: "?fs ! 0 = (T_DIR, root_bytes files)" by (simp add: contents_def)
  have le: "root_size files \<le> 4096" "length (root_bytes files) \<le> root_size files"
  proof -
    have "16 * (length files + 2) div 512 \<le> 3200 div 512" using n by (intro div_le_mono) simp
    then show "root_size files \<le> 4096" by (simp add: root_size_def)
    show "length (root_bytes files) \<le> root_size files"
      using dividend_less_div_times [of 512 "16 * (length files + 2)"] by (simp add: root_size_def length_root_bytes)
  qed
  then have mx: "root_size files \<le> MAXFILE * BSIZE" by (simp add: max_bytes)
  note li = loaded_inode [OF b m(1) n(3) lt n(1) l]
  have "i_size (dino t (Suc 0)) = of_nat (root_size files)" using b lt f by (simp add: built_def root_size_def length_root_bytes)
  then have sz: "fsize k i = root_size files" using li(4) le by (simp add: fsize_def unat_of_nat)
  note lf = loaded_file [OF b m(1) n(3) lt n(1) l, unfolded f fst_conv snd_conv, OF _ sz le(2) mx]
  have "16 * (length files + 2) mod 512 = 16 * ((length files + 2) mod 32)" using mult_mod_right [of 16 "length files + 2" 32] by simp
  then show ?thesis using lf li(1) f root_mapped [of "16 * (length files + 2)"]
    by (simp add: T_DIR_def T_DEV_def length_root_bytes root_size_def BSIZE_def)
qed

text \<open>
  C10: for every list of files that fits, mkfs ends, and a kernel that mounts the image finds the superblock and a consistent file system on it: the inode of
  each file, loaded into the inode cache, is a good file with exactly the bytes that were read from the host, and the inode of the root directory holds the entries
  of \<open>.\<close>, \<open>..\<close> and the files, followed by zeros.  The directory is a good file unless its entries fill their last block: then its size counts a block that it does not have.
\<close>

theorem mkfs_image_readable:
  assumes "can_build files"
  shows "\<exists>t. mkfs files s = Ok ((), t) \<and> (\<forall>k :: 'x fsst_scheme. mounted t k \<longrightarrow> fs_ok k \<and> sb k = mk_sb \<and>
    (\<forall>i j. j < length files \<longrightarrow> loaded k i (j + 2) \<longrightarrow>
       i_type (inodes k i) = T_FILE \<and> file_ok k i \<and> content k i = concat (snd (files ! j))) \<and>
    (\<forall>i. loaded k i 1 \<longrightarrow> i_type (inodes k i) = T_DIR \<and>
       content k i = root_bytes files @ replicate (root_size files - length (root_bytes files)) 0 \<and>
       (file_ok k i \<longleftrightarrow> (length files + 2) mod 32 \<noteq> 0)))"
proof -
  obtain t where "mkfs files s = Ok ((), t)" "built t (contents files)" using mkfs_builds [OF assms] by blast
  then show ?thesis
    using built_file [OF assms, of t] built_root [OF assms, of t] mounted_fs(1,2) [OF _ _ contents_facts(3) [OF assms], of t] by blast
qed

text \<open>The image with the file \<open>a\<close> of three bytes in a kernel that has just loaded the inode of this file.\<close>

definition ex_mount :: "mkst \<Rightarrow> fsst" where
  "ex_mount t = (let b = sb_of_block (img t 1) in ex_fboot\<lparr>disk := img t, sb := b, log_start := sb_logstart b,
     inodes := (\<lambda>_. (get_dinode (dinode_off 2) (img t (unat (IBLOCK 2 b))) ex_inode)\<lparr>i_dev := 1, i_inum := 2\<rparr>)\<rparr>)"

lemma ex_mount_ok: "mounted t (ex_mount t)" "loaded (ex_mount t) 0 2"
proof -
  have c: "\<not> cached (ex_mount t) k i" for k i by (simp add: ex_mount_def Let_def cached_def ex_fboot_def blank_buf_def)
  have "find (cached (ex_mount t) k) xs = None" for k xs by (simp add: find_None_iff c)
  moreover have "disk (ex_mount t) = img t" by (simp add: ex_mount_def Let_def)
  ultimately have v: "bview (ex_mount t) = img t" by (intro ext) (simp only: bview_def option.case)
  then show "mounted t (ex_mount t)" by (simp add: mounted_def ex_mount_def Let_def ex_fboot_def FSSIZE_mk_def)
  show "loaded (ex_mount t) 0 2"
    unfolding loaded_def synced_def inode_block_def v by (simp add: ex_mount_def Let_def same_dinode_def get_dinode_def)
qed

lemma ex_can_build: "can_build [([97], [[1, 2, 3]])]"
  by (simp add: can_build_def file_fits_def contents_def stored_def fb_of_def length_root_bytes max_bytes nmeta_59 blocks_of_def FSSIZE_mk_def fs_consts)

theorem mkfs_image_readable_witness:
  "\<exists>t k. mkfs [([97], [[1, 2, 3]])] empty_image = Ok ((), t) \<and> mounted t (k :: fsst) \<and> loaded k 0 2 \<and> file_ok k 0 \<and> content k 0 = [1, 2, 3]"
proof -
  let ?files = "[([97], [[1, 2, 3]])] :: (u8 list \<times> u8 list list) list"
  obtain t where t: "mkfs ?files empty_image = Ok ((), t)" and
    f: "\<And>(k :: fsst) j. mounted t k \<Longrightarrow> j < length ?files \<Longrightarrow> loaded k 0 (j + 2) \<Longrightarrow> file_ok k 0 \<and> content k 0 = concat (snd (?files ! j))"
    using mkfs_image_readable [OF ex_can_build, of empty_image] by blast
  from f [of "ex_mount t" 0] ex_mount_ok [of t] have "file_ok (ex_mount t) 0 \<and> content (ex_mount t) 0 = [1, 2, 3]" by (simp add: numeral_2_eq_2)
  then show ?thesis using t ex_mount_ok [of t] by blast
qed

end
