(* ===== verification/Mp.thy ===== *)
theory Mp
  imports Mmu Cstring
begin

unbundle bit_operations_syntax

text \<open>
  The search for the processors of the machine (\<open>mp.c\<close>) and the processor that runs (\<open>mycpu\<close> and \<open>cpuid\<close> of \<open>proc.c\<close>).  The tables are bytes of the memory \<open>m\<close>, read at
  the offsets that the structures of \<open>mp.h\<close> have in C.  The loops over addresses are partial functions: \<open>None\<close> is a loop that does not end.
\<close>

section \<open>State\<close>

definition NCPU :: int where "NCPU = 8"
definition MPPROC :: u8 where "MPPROC = 0"
definition MPBUS :: u8 where "MPBUS = 1"
definition MPIOAPIC :: u8 where "MPIOAPIC = 2"
definition MPIOINTR :: u8 where "MPIOINTR = 3"
definition MPLINTR :: u8 where "MPLINTR = 4"

record mpst =
  cpu_apicid :: "nat \<Rightarrow> u8"
  ncpu :: int
  ioapicid :: u8
  lapic :: u32
  mp_outs :: "(u16 \<times> u8) list"  \<comment> \<open>the bytes written to ports, in order\<close>

type_synonym 'r mpkern = "(mpst, 'r) kern"

definition mp_bytes :: "memory \<Rightarrow> u32 \<Rightarrow> bytes" where
  "mp_bytes m p = (\<lambda>i. m (p + of_nat i))"

definition load16 :: "memory \<Rightarrow> u32 \<Rightarrow> u16" where
  "load16 m p = ucast (m p) OR push_bit 8 (ucast (m (p + 1)))"

definition is_text :: "memory \<Rightarrow> u32 \<Rightarrow> u8 list \<Rightarrow> bool" where
  "is_text m p xs \<longleftrightarrow> memcmp (mp_bytes m p) (\<lambda>i. xs ! i) (of_nat (length xs)) = 0"

text \<open>The fields of the structures \<open>mp\<close>, of 16 bytes, and \<open>mpconf\<close>, of 44 bytes.\<close>

definition mp_physaddr :: "memory \<Rightarrow> u32 \<Rightarrow> u32" where "mp_physaddr m p = load32 m (p + 4)"
definition mp_imcrp :: "memory \<Rightarrow> u32 \<Rightarrow> u8" where "mp_imcrp m p = m (p + 12)"
definition conf_length :: "memory \<Rightarrow> u32 \<Rightarrow> u16" where "conf_length m p = load16 m (p + 4)"
definition conf_version :: "memory \<Rightarrow> u32 \<Rightarrow> u8" where "conf_version m p = m (p + 6)"
definition conf_lapicaddr :: "memory \<Rightarrow> u32 \<Rightarrow> u32" where "conf_lapicaddr m p = load32 m (p + 36)"
definition conf_size :: nat where "conf_size = 44"

section \<open>The search for the tables\<close>

primrec mp_sum_loop :: "bytes \<Rightarrow> nat \<Rightarrow> nat \<Rightarrow> int \<Rightarrow> int" where
  "mp_sum_loop b i 0 s = s"
| "mp_sum_loop b i (Suc n) s = mp_sum_loop b (Suc i) n (s + uint (b i))"

definition mp_sum :: "bytes \<Rightarrow> nat \<Rightarrow> u8" where
  "mp_sum b len = word_of_int (mp_sum_loop b 0 len 0)"

definition mp_here :: "memory \<Rightarrow> u32 \<Rightarrow> bool" where
  "mp_here m p \<longleftrightarrow> is_text m p [95, 77, 80, 95] \<and> mp_sum (mp_bytes m p) 16 = 0"

partial_function (option) mpsearch_loop :: "memory \<Rightarrow> u32 \<Rightarrow> u32 \<Rightarrow> u32 option option" where
  "mpsearch_loop m p e = (if p < e then if mp_here m p then Some (Some p) else mpsearch_loop m (p + 16) e else Some None)"

definition mpsearch1 :: "memory \<Rightarrow> u32 \<Rightarrow> u32 \<Rightarrow> u32 option option" where
  "mpsearch1 m a len = mpsearch_loop m (P2V a) (P2V a + len)"

definition or_else :: "'a option option \<Rightarrow> 'a option option \<Rightarrow> 'a option option" where
  "or_else a b = (case a of None \<Rightarrow> None | Some None \<Rightarrow> b | Some (Some x) \<Rightarrow> Some (Some x))"

definition mpsearch :: "memory \<Rightarrow> u32 option option" where
  "mpsearch m =
     (let bda = P2V 0x400;
          p = push_bit 4 (push_bit 8 (ucast (m (bda + 0x0F))) OR ucast (m (bda + 0x0E)));
          q = (push_bit 8 (ucast (m (bda + 0x14))) OR ucast (m (bda + 0x13))) * 1024
      in or_else (if p \<noteq> 0 then mpsearch1 m p 1024 else mpsearch1 m (q - 1024) 1024) (mpsearch1 m 0xF0000 0x10000))"

definition conf_good :: "memory \<Rightarrow> u32 \<Rightarrow> bool" where
  "conf_good m c \<longleftrightarrow> is_text m c [80, 67, 77, 80] \<and> (conf_version m c = 1 \<or> conf_version m c = 4) \<and>
     mp_sum (mp_bytes m c) (unat (conf_length m c)) = 0"

definition mpconfig :: "memory \<Rightarrow> (u32 \<times> u32) option option" where
  "mpconfig m = (case mpsearch m of
     None \<Rightarrow> None
   | Some None \<Rightarrow> Some None
   | Some (Some mp) \<Rightarrow>
       if mp_physaddr m mp = 0 then Some None
       else if conf_good m (P2V (mp_physaddr m mp)) then Some (Some (mp, P2V (mp_physaddr m mp))) else Some None)"

section \<open>The processors\<close>

definition add_cpu :: "u8 \<Rightarrow> mpst \<Rightarrow> mpst" where
  "add_cpu a s = (if ncpu s < NCPU then s\<lparr>cpu_apicid := (cpu_apicid s)(nat (ncpu s) := a), ncpu := ncpu s + 1\<rparr> else s)"

text \<open>The loop over the entries; the \<open>break\<close> after an unknown type leaves the \<open>switch\<close> only, so the next round is at the same entry.\<close>

partial_function (option) mp_entries :: "memory \<Rightarrow> u32 \<Rightarrow> u32 \<Rightarrow> bool \<Rightarrow> mpst \<Rightarrow> (bool \<times> mpst) option" where
  "mp_entries m p e ismp s =
     (if p < e then
        if m p = MPPROC then mp_entries m (p + 20) e ismp (add_cpu (m (p + 1)) s)
        else if m p = MPIOAPIC then mp_entries m (p + 8) e ismp (s\<lparr>ioapicid := m (p + 1)\<rparr>)
        else if m p = MPBUS \<or> m p = MPIOINTR \<or> m p = MPLINTR then mp_entries m (p + 8) e ismp s
        else mp_entries m p e False s
      else Some (ismp, s))"

definition outb_mp :: "u16 \<Rightarrow> u8 \<Rightarrow> unit mpkern" where
  "outb_mp port v = modk (\<lambda>s. s\<lparr>mp_outs := mp_outs s @ [(port, v)]\<rparr>)"

text \<open>\<open>imcr\<close> is what port \<open>0x23\<close> reads.\<close>

definition mpinit :: "memory \<Rightarrow> u8 \<Rightarrow> unit mpkern" where
  "mpinit m imcr = (\<lambda>s. case mpconfig m of
     None \<Rightarrow> Diverges
   | Some None \<Rightarrow> Panic ''Expect to run on an SMP''
   | Some (Some (mp, conf)) \<Rightarrow>
       (case mp_entries m (conf + of_nat conf_size) (conf + ucast (conf_length m conf)) True (s\<lparr>lapic := conf_lapicaddr m conf\<rparr>) of
          None \<Rightarrow> Diverges
        | Some (ismp, t) \<Rightarrow>
            if \<not> ismp then Panic ''Didn't find a suitable machine''
            else whenk (mp_imcrp m mp \<noteq> 0) (seqk (outb_mp 0x22 0x70) (outb_mp 0x23 (imcr OR 1))) t))"

text \<open>\<open>mycpu\<close>, with the interrupt flag and the number that \<open>lapicid\<close> returns, gives the index of the processor, as \<open>cpuid\<close> does.\<close>

fun mycpu_loop :: "mpst \<Rightarrow> u32 \<Rightarrow> nat \<Rightarrow> nat \<Rightarrow> nat option" where
  "mycpu_loop s apicid i 0 = None"
| "mycpu_loop s apicid i (Suc n) = (if ucast (cpu_apicid s i) = apicid then Some i else mycpu_loop s apicid (Suc i) n)"

definition mycpu :: "bool \<Rightarrow> u32 \<Rightarrow> nat mpkern" where
  "mycpu fl_if apicid = (\<lambda>s.
     if fl_if then Panic ''mycpu called with interrupts enabled''
     else case mycpu_loop s apicid 0 (nat (ncpu s)) of None \<Rightarrow> Panic ''unknown apicid'' | Some i \<Rightarrow> Ok (i, s))"

end
