(* ===== verification/Mp_Props.thy ===== *)
theory Mp_Props
  imports Mp
begin

unbundle bit_operations_syntax

text \<open>
  What \<open>mpinit\<close> makes of a table of processors: on a table of known entries it records the processors in order, and on a table with an entry of another type it does
  not end.  The search for the tables always ends.
\<close>

section \<open>The search ends\<close>

lemma mpsearch_loop_ends:
  "unat p + 16 * k < 2 ^ 32 \<Longrightarrow> unat e \<le> unat p + 16 * k \<Longrightarrow> \<exists>r. mpsearch_loop m p e = Some r \<and> (\<forall>q. r = Some q \<longrightarrow> mp_here m q)"
proof (induction k arbitrary: p)
  case 0
  then have "\<not> p < e" by (simp add: word_less_nat_alt)
  then show ?case by (simp add: mpsearch_loop.simps)
next
  case (Suc k)
  have "unat (p + 16) = unat p + 16" using Suc.prems(1) by (simp add: unat_word_ariths)
  then have "\<exists>r. mpsearch_loop m (p + 16) e = Some r \<and> (\<forall>q. r = Some q \<longrightarrow> mp_here m q)" using Suc.prems by (intro Suc.IH) simp_all
  then show ?case by (subst mpsearch_loop.simps) auto
qed

lemma mpsearch1_ends:
  assumes "unat (P2V a) + unat len + 15 < 2 ^ 32"
  shows "\<exists>r. mpsearch1 m a len = Some r \<and> (\<forall>q. r = Some q \<longrightarrow> mp_here m q)"
proof -
  have "unat (P2V a + len) = unat (P2V a) + unat len" using assms by (simp add: unat_word_ariths)
  moreover have "unat len \<le> 16 * ((unat len + 15) div 16)" "16 * ((unat len + 15) div 16) \<le> unat len + 15" by simp_all
  ultimately show ?thesis unfolding mpsearch1_def using assms by (intro mpsearch_loop_ends [where k = "(unat len + 15) div 16"]) simp_all
qed

lemma take_bit_unat: "take_bit n x = (x :: u32) \<Longrightarrow> unat x < 2 ^ n"
  by (metis take_bit_nat_less_exp unsigned_take_bit_eq)

lemma two_bytes: "unat (push_bit 8 (ucast (a :: u8)) OR ucast (b :: u8) :: u32) < 65536"
proof -
  have "take_bit 16 (push_bit 8 (ucast a) OR ucast b :: u32) = push_bit 8 (ucast a) OR ucast b"
    by (rule bit_word_eqI) (auto simp: bit_simps dest: bit_imp_le_length)
  from take_bit_unat [OF this] show ?thesis by simp
qed

lemma high_end: "unat a < 2 ^ 30 \<Longrightarrow> unat (P2V a) + 70000 < 2 ^ 32" "unat (P2V (- 1024)) + 70000 < 2 ^ 32"
  by (simp_all add: P2V_def KERNBASE_def unat_word_ariths)

lemma mpsearch_ends: "\<exists>r. mpsearch m = Some r \<and> (\<forall>q. r = Some q \<longrightarrow> mp_here m q)"
proof -
  let ?bda = "P2V 0x400"
  define x y :: u32 where "x = push_bit 8 (ucast (m (?bda + 0x0F))) OR ucast (m (?bda + 0x0E))"
    and "y = push_bit 8 (ucast (m (?bda + 0x14))) OR ucast (m (?bda + 0x13))"
  have xy: "unat x < 65536" "unat y < 65536" unfolding x_def y_def by (rule two_bytes)+
  have "unat (push_bit 4 x) < 2 ^ 30" using xy(1) by (simp add: push_bit_eq_mult unat_word_ariths)
  then have a: "\<exists>r. mpsearch1 m (push_bit 4 x) 1024 = Some r \<and> (\<forall>q. r = Some q \<longrightarrow> mp_here m q)"
    using high_end(1) [of "push_bit 4 x"] by (intro mpsearch1_ends) simp
  have "unat (P2V (y * 1024 - 1024)) + 70000 < 2 ^ 32"
  proof (cases "y = 0")
    case False
    then have "0 < unat y" by (simp add: unat_gt_0)
    then have "unat (y * 1024) = unat y * 1024" "1024 \<le> unat y * 1024" using xy(2) by (simp_all add: unat_word_ariths)
    then have "unat (y * 1024 - 1024) < 2 ^ 30" using xy(2) by (simp add: unat_sub_if')
    then show ?thesis by (rule high_end(1))
  qed (use high_end(2) in simp)
  then have b: "\<exists>r. mpsearch1 m (y * 1024 - 1024) 1024 = Some r \<and> (\<forall>q. r = Some q \<longrightarrow> mp_here m q)"
    by (intro mpsearch1_ends) simp
  have c: "\<exists>r. mpsearch1 m 0xF0000 0x10000 = Some r \<and> (\<forall>q. r = Some q \<longrightarrow> mp_here m q)"
    using high_end(1) [of "0xF0000"] by (intro mpsearch1_ends) simp
  show ?thesis using a b c unfolding mpsearch_def x_def y_def Let_def or_else_def by (auto split: option.splits)
qed

lemma mpconfig_ends: "mpconfig m \<noteq> None"
  using mpsearch_ends [of m] by (auto simp: mpconfig_def split: option.splits)

section \<open>The entries\<close>

text \<open>An entry of the table with its bytes.\<close>

definition entry_ok :: "u8 list \<Rightarrow> bool" where
  "entry_ok x \<longleftrightarrow> x \<noteq> [] \<and> (if hd x = MPPROC then length x = 20 else hd x \<le> MPLINTR \<and> length x = 8)"

definition mem_at :: "memory \<Rightarrow> u32 \<Rightarrow> u8 list \<Rightarrow> bool" where
  "mem_at m p xs \<longleftrightarrow> (\<forall>i < length xs. m (p + of_nat i) = xs ! i)"

definition record_entry :: "u8 list \<Rightarrow> mpst \<Rightarrow> mpst" where
  "record_entry x s = (if hd x = MPPROC then add_cpu (x ! 1) s else if hd x = MPIOAPIC then s\<lparr>ioapicid := x ! 1\<rparr> else s)"

lemma mem_atD: "mem_at m p xs \<Longrightarrow> i < length xs \<Longrightarrow> m (p + of_nat i) = xs ! i"
  by (simp add: mem_at_def)

lemma mem_at_append:
  assumes "mem_at m p (xs @ ys)"
  shows "mem_at m p xs" "mem_at m (p + of_nat (length xs)) ys"
proof -
  show "mem_at m p xs" unfolding mem_at_def
  proof (intro allI impI)
    fix i assume "i < length xs"
    then show "m (p + of_nat i) = xs ! i" using mem_atD [OF assms, of i] by (simp add: nth_append)
  qed
  show "mem_at m (p + of_nat (length xs)) ys" unfolding mem_at_def
  proof (intro allI impI)
    fix i assume "i < length ys"
    then show "m (p + of_nat (length xs) + of_nat i) = ys ! i" using mem_atD [OF assms, of "length xs + i"] by (simp add: add.assoc)
  qed
qed

lemma word_of_unat: "unat x = n \<Longrightarrow> x = of_nat n"
  by auto

lemma small_type: "x \<le> (4 :: u8) \<Longrightarrow> x = 0 \<or> x = 1 \<or> x = 2 \<or> x = 3 \<or> x = 4"
proof -
  assume "x \<le> 4"
  then have "unat x \<le> 4" by (simp add: word_le_nat_alt)
  then have "unat x = 0 \<or> unat x = 1 \<or> unat x = 2 \<or> unat x = 3 \<or> unat x = 4" by linarith
  then show ?thesis by (elim disjE) (drule word_of_unat, simp)+
qed

text \<open>One round on a known entry.\<close>

lemma entry_round:
  assumes "entry_ok x" "mem_at m p x" "p < e"
  shows "mp_entries m p e b s = mp_entries m (p + of_nat (length x)) e b (record_entry x s)"
proof -
  obtain t xs where x: "x = t # xs" using assms(1) by (cases x) (simp_all add: entry_ok_def)
  have l: "length x = 20 \<and> t = 0 \<or> length x = 8 \<and> (t = 1 \<or> t = 2 \<or> t = 3 \<or> t = 4)"
    using assms(1) small_type [of t] by (auto simp: entry_ok_def x MPPROC_def MPLINTR_def split: if_splits)
  have "0 < length x" "1 < length x" using l by auto
  then have m: "m p = t" "m (p + 1) = x ! 1" using mem_atD [OF assms(2), of 0] mem_atD [OF assms(2), of 1] by (simp_all add: x)
  show ?thesis
    using l assms(3) m
    by (subst mp_entries.simps, elim disjE conjE) (simp_all add: record_entry_def x MPPROC_def MPBUS_def MPIOAPIC_def MPIOINTR_def MPLINTR_def)
qed

lemma entries_run:
  "\<forall>x \<in> set es. entry_ok x \<Longrightarrow> mem_at m p (concat es) \<Longrightarrow> unat p + length (concat es) \<le> unat e \<Longrightarrow>
    mp_entries m p e b s = mp_entries m (p + of_nat (length (concat es))) e b (fold record_entry es s)"
proof (induction es arbitrary: p s)
  case (Cons x es)
  have x: "entry_ok x" "0 < length x" using Cons.prems(1) by (auto simp: entry_ok_def)
  have "unat p + length x < 2 ^ 32" using Cons.prems(3) unat32_less [of e] by simp
  then have u: "unat (p + of_nat (length x)) = unat p + length x" by (simp add: unat_word_ariths unat_of_nat)
  have "unat p < unat e" using Cons.prems(3) x(2) by (simp only: concat.simps length_append)
  then have "p < e" by (simp add: word_less_nat_alt)
  note mem_at_append [of m p x "concat es"]
  then have "mem_at m p x" "mem_at m (p + of_nat (length x)) (concat es)" using Cons.prems(2) by simp_all
  then have "mp_entries m p e b s = mp_entries m (p + of_nat (length x)) e b (record_entry x s)"
    using entry_round [OF x(1) _ \<open>p < e\<close>] by blast
  also have "\<dots> = mp_entries m (p + of_nat (length x) + of_nat (length (concat es))) e b (fold record_entry es (record_entry x s))"
    using Cons.prems u \<open>mem_at m (p + of_nat (length x)) (concat es)\<close> by (intro Cons.IH) simp_all
  finally show ?case by (simp add: add.assoc)
qed simp

text \<open>On an entry of another type the loop stays where it is.\<close>

lemma entries_stuck: "p < e \<Longrightarrow> MPLINTR < m p \<Longrightarrow> mp_entries m p e b s = None"
proof (rule ccontr)
  assume a: "p < e" "MPLINTR < m p" and "mp_entries m p e b s \<noteq> None"
  then obtain y where y: "mp_entries m p e b s = Some y" by blast
  have "p < e \<longrightarrow> MPLINTR < m p \<longrightarrow> False"
  proof (rule mp_entries.raw_induct [where P = "\<lambda>m p e b s y. p < e \<longrightarrow> MPLINTR < m p \<longrightarrow> False", OF _ y], intro impI)
    fix f and m :: memory and p e b s y
    assume f: "\<And>m p e b s y. f m p e b s = Some y \<Longrightarrow> p < e \<longrightarrow> MPLINTR < m p \<longrightarrow> False" and lt: "p < e" "MPLINTR < m p"
      and r: "(if p < e then
        if m p = MPPROC then f m (p + 20) e b (add_cpu (m (p + 1)) s)
        else if m p = MPIOAPIC then f m (p + 8) e b (s\<lparr>ioapicid := m (p + 1)\<rparr>)
        else if m p = MPBUS \<or> m p = MPIOINTR \<or> m p = MPLINTR then f m (p + 8) e b s
        else f m p e False s
      else Some (b, s)) = Some y"
    have "m p \<noteq> MPPROC" "m p \<noteq> MPIOAPIC" "m p \<noteq> MPBUS" "m p \<noteq> MPIOINTR" "m p \<noteq> MPLINTR"
      using lt(2) by (auto simp: MPPROC_def MPIOAPIC_def MPBUS_def MPIOINTR_def MPLINTR_def word_less_nat_alt)
    then have "f m p e False s = Some y" using r lt(1) by simp
    then show False using f lt by blast
  qed
  then show False using a by blast
qed

section \<open>The processors\<close>

definition cpu_list :: "mpst \<Rightarrow> u8 list" where
  "cpu_list s = map (cpu_apicid s) [0 ..< nat (ncpu s)]"

definition apic_ids :: "u8 list list \<Rightarrow> u8 list" where
  "apic_ids es = map (\<lambda>x. x ! 1) (filter (\<lambda>x. hd x = MPPROC) es)"

definition ioapic_ids :: "u8 list list \<Rightarrow> u8 list" where
  "ioapic_ids es = map (\<lambda>x. x ! 1) (filter (\<lambda>x. hd x = MPIOAPIC) es)"

lemma add_cpu_list:
  assumes "0 \<le> ncpu s" "ncpu s \<le> NCPU"
  shows "cpu_list (add_cpu a s) = take 8 (cpu_list s @ [a])" "0 \<le> ncpu (add_cpu a s) \<and> ncpu (add_cpu a s) \<le> NCPU"
proof -
  obtain n where n: "ncpu s = int n" using assms(1) by (metis nonneg_int_cases)
  show "cpu_list (add_cpu a s) = take 8 (cpu_list s @ [a])"
    using assms(2) by (cases "n < 8") (auto simp: cpu_list_def add_cpu_def n NCPU_def nat_add_distrib)
qed (use assms in \<open>auto simp: add_cpu_def\<close>)

lemma fold_entries:
  fixes es :: "u8 list list"
  assumes "0 \<le> ncpu s" "ncpu s \<le> NCPU"
  defines "t \<equiv> fold record_entry es s"
  shows "cpu_list t = take 8 (cpu_list s @ apic_ids es) \<and> ioapicid t = last (ioapicid s # ioapic_ids es) \<and> lapic t = lapic s \<and> mp_outs t = mp_outs s \<and>
    0 \<le> ncpu t \<and> ncpu t \<le> NCPU"
  using assms(1,2) unfolding t_def
proof (induction es arbitrary: s)
  case Nil
  then show ?case by (simp add: cpu_list_def apic_ids_def ioapic_ids_def NCPU_def)
next
  case (Cons x es)
  have "cpu_list (record_entry x s) = take 8 (cpu_list s @ apic_ids [x])" "0 \<le> ncpu (record_entry x s)" "ncpu (record_entry x s) \<le> NCPU"
    using Cons.prems add_cpu_list [OF Cons.prems, of "x ! 1"] by (auto simp: record_entry_def apic_ids_def cpu_list_def NCPU_def)
  moreover have "ioapicid (record_entry x s) = last (ioapicid s # ioapic_ids [x])" "lapic (record_entry x s) = lapic s" "mp_outs (record_entry x s) = mp_outs s"
    by (simp_all add: record_entry_def add_cpu_def ioapic_ids_def MPPROC_def MPIOAPIC_def)
  moreover have "apic_ids (x # es) = apic_ids [x] @ apic_ids es" "ioapic_ids (x # es) = ioapic_ids [x] @ ioapic_ids es"
    by (simp_all add: apic_ids_def ioapic_ids_def)
  moreover have "take 8 (take 8 a @ c) = take 8 (a @ c)" for a c :: "u8 list" by (cases "length a \<le> 8") simp_all
  from this [of "cpu_list s @ apic_ids [x]" "apic_ids es"]
  have "take 8 (take 8 (cpu_list s @ apic_ids [x]) @ apic_ids es) = take 8 (cpu_list s @ apic_ids [x] @ apic_ids es)" by (simp only: append_assoc)
  moreover have "last (last (a # c) # d) = last (a # c @ d)" for a :: u8 and c d by (cases "d = []") simp_all
  ultimately show ?case using Cons.IH [of "record_entry x s"] by (simp only: fold_simps)
qed

lemma mycpu_loop_finds:
  "k < n \<Longrightarrow> \<forall>j < k. cpu_apicid s (i + j) \<noteq> cpu_apicid s (i + k) \<Longrightarrow> mycpu_loop s (ucast (cpu_apicid s (i + k))) i n = Some (i + k)"
proof (induction n arbitrary: i k)
  case (Suc n)
  show ?case
  proof (cases k)
    case (Suc l)
    have "cpu_apicid s i \<noteq> cpu_apicid s (i + k)" using Suc Suc.prems(2) [rule_format, of 0] by simp
    then have "ucast (cpu_apicid s i) \<noteq> (ucast (cpu_apicid s (i + k)) :: u32)" using unat_widen(1) by (metis unsigned_word_eqI)
    moreover have "\<forall>j < l. cpu_apicid s (Suc i + j) \<noteq> cpu_apicid s (Suc i + l)" using Suc Suc.prems(2) by fastforce
    then have "mycpu_loop s (ucast (cpu_apicid s (Suc i + l))) (Suc i) n = Some (Suc i + l)" using Suc Suc.prems(1) by (intro Suc.IH) simp_all
    ultimately show ?thesis using Suc by simp
  qed simp
qed simp

lemma mycpu_finds:
  assumes "distinct (cpu_list t)" "i < length (cpu_list t)"
  shows "mycpu False (ucast (cpu_list t ! i)) t = Ok (i, t)"
proof -
  have i: "i < nat (ncpu t)" "cpu_list t ! i = cpu_apicid t i" using assms(2) by (simp_all add: cpu_list_def)
  have "cpu_apicid t (0 + j) \<noteq> cpu_apicid t (0 + i)" if "j < i" for j
    using assms that i(1) nth_eq_iff_index_eq [OF assms(1), of j i] by (simp add: cpu_list_def)
  then have "mycpu_loop t (ucast (cpu_apicid t (0 + i))) 0 (nat (ncpu t)) = Some (0 + i)" using i(1) by (intro mycpu_loop_finds) simp_all
  then show ?thesis by (simp add: mycpu_def i(2))
qed

text \<open>
  C9: the start of the kernel reads the table of processors.  When the table consists of known entries, mpinit ends with the first eight processors of the
  table in order and the last interrupt controller, and \<open>mycpu\<close> finds each of these processors when their numbers differ.  When an entry of another type comes first,
  mpinit does not end: the panic for an unsuitable machine is never reached, since the \<open>break\<close> leaves only the \<open>switch\<close>.
\<close>

theorem mpinit_reads_table:
  assumes conf: "mpconfig m = Some (Some (mp, conf))" and es: "\<forall>x \<in> set es. entry_ok x" "mem_at m (conf + of_nat conf_size) (concat es)"
    and fit: "conf_size + length (concat es) \<le> unat (conf_length m conf)" "unat conf + unat (conf_length m conf) < 2 ^ 32"
    and s: "ncpu s = 0"
  shows "(conf_size + length (concat es) = unat (conf_length m conf) \<longrightarrow>
      (\<exists>t. mpinit m imcr s = Ok ((), t) \<and> cpu_list t = take 8 (apic_ids es) \<and> ioapicid t = last (ioapicid s # ioapic_ids es) \<and>
        lapic t = conf_lapicaddr m conf \<and>
        (distinct (take 8 (apic_ids es)) \<longrightarrow> (\<forall>i < length (cpu_list t). mycpu False (ucast (cpu_list t ! i)) t = Ok (i, t))))) \<and>
    (conf_size + length (concat es) < unat (conf_length m conf) \<longrightarrow> MPLINTR < m (conf + of_nat (conf_size + length (concat es))) \<longrightarrow>
      mpinit m imcr s = Diverges)"
proof -
  let ?n = "length (concat es)" and ?l = "unat (conf_length m conf)" and ?p = "conf + of_nat conf_size" and ?e = "conf + ucast (conf_length m conf)"
  let ?s = "s\<lparr>lapic := conf_lapicaddr m conf\<rparr>"
  have u: "unat ?e = unat conf + ?l" using fit(2) by (simp add: unat_word_ariths unat_widen)
  have w: "unat (conf + of_nat k) = unat conf + k" if "k \<le> ?l" for k
  proof -
    have "k < 2 ^ 32" "unat conf + k < 2 ^ 32" using that fit(2) by linarith+
    then show ?thesis by (simp add: unat_word_ariths unat_of_nat)
  qed
  have run: "mp_entries m ?p ?e True ?s = mp_entries m (conf + of_nat (conf_size + ?n)) ?e True (fold record_entry es ?s)"
    using entries_run [OF es, where e = ?e and b = True and s = ?s] w [of conf_size] u fit(1) by (simp add: add.assoc)
  have init: "cpu_list ?s = []" "ncpu ?s = 0" using s by (simp_all add: cpu_list_def)
  define t where "t = fold record_entry es ?s"
  have t: "cpu_list t = take 8 (apic_ids es)" "ioapicid t = last (ioapicid s # ioapic_ids es)" "lapic t = conf_lapicaddr m conf"
    using fold_entries [of ?s es] init by (simp_all add: t_def NCPU_def)
  show ?thesis
  proof (intro conjI impI)
    assume "conf_size + ?n = ?l"
    then have "\<not> conf + of_nat (conf_size + ?n) < ?e" using u w [of "conf_size + ?n"] by (simp only: word_less_nat_alt)
    then have ok: "mp_entries m ?p ?e True ?s = Some (True, t)" unfolding run t_def by (simp add: mp_entries.simps)
    define t' where "t' = (if mp_imcrp m mp \<noteq> 0 then t\<lparr>mp_outs := mp_outs t @ [(0x22, 0x70), (0x23, imcr OR 1)]\<rparr> else t)"
    have same: "cpu_list t' = cpu_list t" "ioapicid t' = ioapicid t" "lapic t' = lapic t" by (simp_all add: t'_def cpu_list_def)
    have "mpinit m imcr s = Ok ((), t')" using conf ok by (simp add: mpinit_def kern_simps outb_mp_def t'_def)
    then show "\<exists>t. mpinit m imcr s = Ok ((), t) \<and> cpu_list t = take 8 (apic_ids es) \<and> ioapicid t = last (ioapicid s # ioapic_ids es) \<and>
        lapic t = conf_lapicaddr m conf \<and>
        (distinct (take 8 (apic_ids es)) \<longrightarrow> (\<forall>i < length (cpu_list t). mycpu False (ucast (cpu_list t ! i)) t = Ok (i, t)))"
      using mycpu_finds [of t'] t by (intro exI [of _ t']) (simp add: same)
  next
    assume lt: "conf_size + ?n < ?l" "MPLINTR < m (conf + of_nat (conf_size + ?n))"
    have "conf + of_nat (conf_size + ?n) < ?e" using u w [of "conf_size + ?n"] lt(1) by (simp only: word_less_nat_alt)
    then have "mp_entries m ?p ?e True ?s = None" unfolding run by (rule entries_stuck) (rule lt(2))
    then show "mpinit m imcr s = Diverges" using conf by (simp add: mpinit_def)
  qed
qed

text \<open>Reading a table whose bytes are known.\<close>

lemma mp_sum_words: "word_of_int (mp_sum_loop b i n s) = (word_of_int s :: u8) + sum_list (map b [i ..< i + n])"
proof (induction n arbitrary: i s)
  case (Suc n)
  have "[i ..< i + Suc n] = i # [Suc i ..< Suc i + n]" by (simp add: upt_conv_Cons)
  then show ?case using Suc [of "Suc i" "s + uint (b i)"] by (simp add: wi_hom_syms add.assoc)
qed simp

lemma mp_sum_list: "mem_at m p xs \<Longrightarrow> mp_sum (mp_bytes m p) (length xs) = sum_list xs"
proof -
  assume "mem_at m p xs"
  then have "map (mp_bytes m p) [0 ..< length xs] = xs" by (intro nth_equalityI) (simp_all add: mem_at_def mp_bytes_def)
  then show ?thesis using mp_sum_words [of "mp_bytes m p" 0 "length xs" 0] by (simp add: mp_sum_def)
qed

lemma memcmp_loop_eq: "\<forall>j < n. s1 (i + j) = s2 (i + j) \<Longrightarrow> memcmp_loop s1 s2 i n = 0"
proof (induction n arbitrary: i)
  case (Suc n)
  have "\<forall>j < n. s1 (Suc i + j) = s2 (Suc i + j)" using Suc.prems by fastforce
  then show ?case using Suc.IH [of "Suc i"] Suc.prems [rule_format, of 0] by simp
qed simp

lemma is_text_at: "mem_at m p xs \<Longrightarrow> is_text m p xs"
proof -
  assume "mem_at m p xs"
  moreover have "unat (of_nat (length xs) :: u32) \<le> length xs" by (simp add: unat_of_nat)
  ultimately show ?thesis unfolding is_text_def memcmp_def by (intro memcmp_loop_eq) (simp add: mem_at_def mp_bytes_def)
qed

text \<open>A memory with a table of two processors and one interrupt controller.\<close>

definition ex_es :: "u8 list list" where
  "ex_es = [[0, 0, 20, 3, 0, 0, 0, 0, 0, 0, 0, 0, 0, 0, 0, 0, 0, 0, 0, 0],
     [0, 1, 20, 1, 0, 0, 0, 0, 0, 0, 0, 0, 0, 0, 0, 0, 0, 0, 0, 0], [2, 2, 17, 1, 0, 0, 192, 254]]"

definition ex_pcmp :: "u8 list" where
  "ex_pcmp = [80, 67, 77, 80, 92, 0, 4, 142, 0, 0, 0, 0, 0, 0, 0, 0, 0, 0, 0, 0, 0, 0, 0, 0, 0, 0, 0, 0, 0, 0, 0, 0, 0, 0, 3, 0, 0, 0, 224, 254, 0, 0, 0, 0]"

definition ex_mp :: "u8 list" where
  "ex_mp = [95, 77, 80, 95, 0, 8, 0, 0, 1, 4, 152, 0, 0, 0, 0, 0]"

definition ex_mpmem :: memory where
  "ex_mpmem a = (let i = unat (a - KERNBASE); t = ex_pcmp @ concat ex_es in
     if i < 16 then ex_mp ! i else if i = 0x413 then 1 else if 0x800 \<le> i \<and> i < 0x800 + length t then t ! (i - 0x800) else 0)"

lemma ex_mp_length: "length ex_mp = 16" "length (ex_pcmp @ concat ex_es) = 92" "length ex_pcmp = 44" "conf_size + length (concat ex_es) = 92"
  by (simp_all add: ex_mp_def ex_pcmp_def ex_es_def conf_size_def)

lemma ex_mp_tables: "mem_at ex_mpmem 0x80000000 ex_mp" "mem_at ex_mpmem 0x80000800 (ex_pcmp @ concat ex_es)"
proof -
  have u: "unat (0x800 + of_nat i :: u32) = 0x800 + i" "unat (of_nat i :: u32) = i" if "i < 92" for i
    using that by (simp_all add: unat_word_ariths unat_of_nat)
  show "mem_at ex_mpmem 0x80000000 ex_mp"
    unfolding mem_at_def ex_mp_length by (simp add: ex_mpmem_def KERNBASE_def u Let_def)
  show "mem_at ex_mpmem 0x80000800 (ex_pcmp @ concat ex_es)"
    unfolding mem_at_def ex_mp_length
  proof (intro allI impI)
    fix i assume i: "i < (92 :: nat)"
    have "unat (0x80000800 + of_nat i - KERNBASE) = 0x800 + i" using u(1) [OF i] by (simp add: KERNBASE_def)
    then show "ex_mpmem (0x80000800 + of_nat i) = (ex_pcmp @ concat ex_es) ! i" using i unfolding ex_mpmem_def ex_mp_length Let_def by simp
  qed
qed

lemma ex_mpconfig: "mpconfig ex_mpmem = Some (Some (0x80000000, 0x80000800))" "unat (conf_length ex_mpmem 0x80000800) = 92"
proof -
  note mp = mem_atD [OF ex_mp_tables(1)] and cf = mem_atD [OF ex_mp_tables(2)]
  have z: "sum_list ex_mp = 0" "sum_list (ex_pcmp @ concat ex_es) = 0" by (simp_all add: ex_mp_def ex_pcmp_def ex_es_def)
  have "ex_mp = [95, 77, 80, 95] @ drop 4 ex_mp" "ex_pcmp @ concat ex_es = [80, 67, 77, 80] @ drop 4 ex_pcmp @ concat ex_es" by (simp_all add: ex_mp_def ex_pcmp_def)
  then have tx: "is_text ex_mpmem 0x80000000 [95, 77, 80, 95]" "is_text ex_mpmem 0x80000800 [80, 67, 77, 80]"
    using ex_mp_tables mem_at_append(1) by (metis is_text_at)+
  have "mp_here ex_mpmem 0x80000000" using mp_sum_list [OF ex_mp_tables(1)] tx(1) z(1) by (simp add: mp_here_def ex_mp_length)
  then have "mpsearch_loop ex_mpmem 0x80000000 e = Some (Some 0x80000000)" if "0x80000000 < e" for e
    using that by (subst mpsearch_loop.simps) simp
  moreover have "ex_mpmem (P2V 0x400 + 0x0F) = 0" "ex_mpmem (P2V 0x400 + 0x0E) = 0" "ex_mpmem (P2V 0x400 + 0x14) = 0" "ex_mpmem (P2V 0x400 + 0x13) = 1"
    by (simp_all add: ex_mpmem_def P2V_def KERNBASE_def Let_def)
  ultimately have "mpsearch ex_mpmem = Some (Some 0x80000000)"
    by (simp add: mpsearch_def mpsearch1_def or_else_def P2V_def KERNBASE_def)
  moreover have "mp_physaddr ex_mpmem 0x80000000 = 0x800"
    using mp [of 4] mp [of 5] mp [of 6] mp [of 7] by (simp add: mp_physaddr_def load32_def ex_mp_def)
  moreover show l: "unat (conf_length ex_mpmem 0x80000800) = 92"
    using cf [of 4] cf [of 5] by (simp add: conf_length_def load16_def ex_pcmp_def)
  moreover have "conf_version ex_mpmem 0x80000800 = 4" using cf [of 6] by (simp add: conf_version_def ex_pcmp_def)
  then have "conf_good ex_mpmem 0x80000800" using tx(2) mp_sum_list [OF ex_mp_tables(2), unfolded z(2) ex_mp_length(2)] l by (simp add: conf_good_def)
  ultimately show "mpconfig ex_mpmem = Some (Some (0x80000000, 0x80000800))" by (simp add: mpconfig_def P2V_def KERNBASE_def)
qed

lemma ex_mp_table: "mem_at ex_mpmem (0x80000800 + of_nat conf_size) (concat ex_es)"
  using mem_at_append(2) [OF ex_mp_tables(2)] by (simp add: ex_mp_length conf_size_def)

lemma ex_entries_ok: "\<forall>x \<in> set ex_es. entry_ok x"
  by (simp add: ex_es_def entry_ok_def MPPROC_def MPLINTR_def)

theorem mpinit_reads_table_witness:
  "\<exists>t. mpinit ex_mpmem 0 \<lparr>cpu_apicid = (\<lambda>_. 0), ncpu = 0, ioapicid = 0, lapic = 0, mp_outs = []\<rparr> = Ok ((), t) \<and> cpu_list t = [0, 1] \<and> ioapicid t = 2 \<and>
     mycpu False 1 t = Ok (1, t)"
proof -
  let ?s = "\<lparr>cpu_apicid = (\<lambda>_. 0), ncpu = 0, ioapicid = 0, lapic = 0, mp_outs = []\<rparr>"
  have ids: "take 8 (apic_ids ex_es) = [0, 1]" "ioapic_ids ex_es = [2]" by (simp_all add: apic_ids_def ioapic_ids_def ex_es_def MPPROC_def MPIOAPIC_def)
  have f: "conf_size + length (concat ex_es) \<le> unat (conf_length ex_mpmem 0x80000800)" "unat (0x80000800 :: u32) + unat (conf_length ex_mpmem 0x80000800) < 2 ^ 32"
    "ncpu ?s = 0" by (simp_all only: ex_mp_length ex_mpconfig(2)) simp_all
  obtain t where t: "mpinit ex_mpmem 0 ?s = Ok ((), t)" "cpu_list t = [0, 1]" "ioapicid t = 2"
    "\<forall>i < length (cpu_list t). mycpu False (ucast (cpu_list t ! i)) t = Ok (i, t)"
    using mpinit_reads_table [OF ex_mpconfig(1) ex_entries_ok ex_mp_table f, of 0] unfolding ids ex_mp_length ex_mpconfig(2) by auto
  have "mycpu False 1 t = Ok (1, t)" using t(4) [rule_format, of 1] t(2) by simp
  then show ?thesis using t by blast
qed

end
