(* ===== verification/Apic.thy ===== *)
theory Apic
  imports Cow_Trap
begin

unbundle bit_operations_syntax

text \<open>
  The interrupt controllers (\<open>lapic.c\<close>, \<open>ioapic.c\<close>, \<open>picirq.c\<close>) and the clock of the machine.  Registers of a device are written through its record; what
  the hardware answers is a parameter: the version and status registers of the local controller, and the registers of the clock, which may change
  between any two readings.
\<close>

section \<open>The local controller\<close>

definition LAPIC_TPR :: nat where "LAPIC_TPR = 0x0080 div 4"
definition LAPIC_EOI :: nat where "LAPIC_EOI = 0x00B0 div 4"
definition LAPIC_SVR :: nat where "LAPIC_SVR = 0x00F0 div 4"
definition LAPIC_ENABLE :: u32 where "LAPIC_ENABLE = 0x100"
definition LAPIC_ESR :: nat where "LAPIC_ESR = 0x0280 div 4"
definition ICRLO :: nat where "ICRLO = 0x0300 div 4"
definition ICR_INIT :: u32 where "ICR_INIT = 0x500"
definition ICR_STARTUP :: u32 where "ICR_STARTUP = 0x600"
definition ICR_DELIVS :: u32 where "ICR_DELIVS = 0x1000"
definition ICR_ASSERT :: u32 where "ICR_ASSERT = 0x4000"
definition ICR_LEVEL :: u32 where "ICR_LEVEL = 0x8000"
definition ICR_BCAST :: u32 where "ICR_BCAST = 0x80000"
definition ICRHI :: nat where "ICRHI = 0x0310 div 4"
definition LAPIC_TIMER :: nat where "LAPIC_TIMER = 0x0320 div 4"
definition TIMER_X1 :: u32 where "TIMER_X1 = 0xB"
definition TIMER_PERIODIC :: u32 where "TIMER_PERIODIC = 0x20000"
definition LAPIC_PCINT :: nat where "LAPIC_PCINT = 0x0340 div 4"
definition LAPIC_LINT0 :: nat where "LAPIC_LINT0 = 0x0350 div 4"
definition LAPIC_LINT1 :: nat where "LAPIC_LINT1 = 0x0360 div 4"
definition LAPIC_ERROR :: nat where "LAPIC_ERROR = 0x0370 div 4"
definition LVT_MASKED :: u32 where "LVT_MASKED = 0x10000"
definition LAPIC_TICR :: nat where "LAPIC_TICR = 0x0380 div 4"
definition LAPIC_TDCR :: nat where "LAPIC_TDCR = 0x03E0 div 4"
definition LAPIC_IRQ_ERROR :: u32 where "LAPIC_IRQ_ERROR = 19"
definition LAPIC_IRQ_SPURIOUS :: u32 where "LAPIC_IRQ_SPURIOUS = 31"

record apicst =
  lapic_ptr :: u32
  lapic_writes :: "(nat \<times> u32) list"  \<comment> \<open>the registers written, in order\<close>
  apic_outs :: "(u16 \<times> u8) list"
  apic_mem :: memory

type_synonym 'r akern = "(apicst, 'r) kern"

definition lapicw :: "nat \<Rightarrow> u32 \<Rightarrow> unit akern" where
  "lapicw index v = modk (\<lambda>s. s\<lparr>lapic_writes := lapic_writes s @ [(index, v)]\<rparr>)"

definition aoutb :: "u16 \<Rightarrow> u8 \<Rightarrow> unit akern" where
  "aoutb port v = modk (\<lambda>s. s\<lparr>apic_outs := apic_outs s @ [(port, v)]\<rparr>)"

fun lapic_seq :: "(nat \<times> u32) list \<Rightarrow> unit akern" where
  "lapic_seq [] = ret ()"
| "lapic_seq ((i, v) # ws) = seqk (lapicw i v) (lapic_seq ws)"

text \<open>Waiting until the delivery status is clear; \<open>icr n\<close> is the answer to the \<open>n\<close>-th reading.\<close>

partial_function (option) icr_wait :: "(nat \<Rightarrow> u32) \<Rightarrow> nat \<Rightarrow> nat option" where
  "icr_wait icr n = (if icr n AND ICR_DELIVS \<noteq> 0 then icr_wait icr (Suc n) else Some n)"

definition lapicinit :: "u32 \<Rightarrow> (nat \<Rightarrow> u32) \<Rightarrow> unit akern" where
  "lapicinit ver icr = (\<lambda>s. if lapic_ptr s = 0 then Ok ((), s) else
     seqk (lapic_seq [(LAPIC_SVR, LAPIC_ENABLE OR (T_IRQ0 + LAPIC_IRQ_SPURIOUS)), (LAPIC_TDCR, TIMER_X1),
         (LAPIC_TIMER, TIMER_PERIODIC OR T_IRQ0), (LAPIC_TICR, 10000000), (LAPIC_LINT0, LVT_MASKED), (LAPIC_LINT1, LVT_MASKED)])
       (seqk (whenk (4 \<le> drop_bit 16 ver AND 0xFF) (lapicw LAPIC_PCINT LVT_MASKED))
         (seqk (lapic_seq [(LAPIC_ERROR, T_IRQ0 + LAPIC_IRQ_ERROR), (LAPIC_ESR, 0), (LAPIC_ESR, 0), (LAPIC_EOI, 0), (ICRHI, 0),
             (ICRLO, ICR_BCAST OR ICR_INIT OR ICR_LEVEL)])
           (seqk (\<lambda>s. case icr_wait icr 0 of None \<Rightarrow> Diverges | Some _ \<Rightarrow> Ok ((), s)) (lapicw LAPIC_TPR 0)))) s)"

definition lapicid :: "u32 \<Rightarrow> apicst \<Rightarrow> u32" where
  "lapicid idreg s = (if lapic_ptr s = 0 then 0 else drop_bit 24 idreg)"

definition lapiceoi :: "unit akern" where
  "lapiceoi = (\<lambda>s. whenk (lapic_ptr s \<noteq> 0) (lapicw LAPIC_EOI 0) s)"

text \<open>Starting another processor: the shutdown code and the warm reset vector, then the interrupts of the startup algorithm.\<close>

definition CMOS_PORT :: u16 where "CMOS_PORT = 0x70"

definition store16 :: "memory \<Rightarrow> u32 \<Rightarrow> u16 \<Rightarrow> memory" where
  "store16 m a v = m(a := ucast v, a + 1 := ucast (drop_bit 8 v))"

fun startup_ipis :: "nat \<Rightarrow> u8 \<Rightarrow> u32 \<Rightarrow> unit akern" where
  "startup_ipis 0 ap addr = ret ()"
| "startup_ipis (Suc k) ap addr =
     seqk (lapic_seq [(ICRHI, push_bit 24 (ucast ap)), (ICRLO, ICR_STARTUP OR drop_bit 12 addr)]) (startup_ipis k ap addr)"

definition lapicstartap :: "u8 \<Rightarrow> u32 \<Rightarrow> unit akern" where
  "lapicstartap ap addr =
     seqk (aoutb CMOS_PORT 0xF) (seqk (aoutb (CMOS_PORT + 1) 0x0A)
       (seqk (modk (\<lambda>s. s\<lparr>apic_mem := store16 (store16 (apic_mem s) (P2V (push_bit 4 0x40 OR 0x67)) 0)
           (P2V (push_bit 4 0x40 OR 0x67) + 2) (ucast (drop_bit 4 addr))\<rparr>))
         (seqk (lapic_seq [(ICRHI, push_bit 24 (ucast ap)), (ICRLO, ICR_INIT OR ICR_LEVEL OR ICR_ASSERT), (ICRLO, ICR_INIT OR ICR_LEVEL)])
           (startup_ipis 2 ap addr))))"

section \<open>The old and the new interrupt controller\<close>

definition IO_PIC1 :: u16 where "IO_PIC1 = 0x20"
definition IO_PIC2 :: u16 where "IO_PIC2 = 0xA0"

definition picinit :: "unit akern" where
  "picinit = seqk (aoutb (IO_PIC1 + 1) 0xFF) (aoutb (IO_PIC2 + 1) 0xFF)"

definition REG_ID :: u32 where "REG_ID = 0"
definition REG_VER :: u32 where "REG_VER = 1"
definition REG_TABLE :: u32 where "REG_TABLE = 0x10"
definition INT_DISABLED :: u32 where "INT_DISABLED = 0x10000"

text \<open>The controller shows in its word \<open>data\<close> the register that was selected through \<open>reg\<close>.\<close>

record ioapicst =
  io_reg :: u32
  io_regs :: "u32 \<Rightarrow> u32"

type_synonym 'r iokern = "(ioapicst, 'r) kern"

definition ioapicread :: "u32 \<Rightarrow> u32 iokern" where
  "ioapicread r = seqk (modk (\<lambda>s. s\<lparr>io_reg := r\<rparr>)) (getk (\<lambda>s. io_regs s (io_reg s)))"

definition ioapicwrite :: "u32 \<Rightarrow> u32 \<Rightarrow> unit iokern" where
  "ioapicwrite r v = seqk (modk (\<lambda>s. s\<lparr>io_reg := r\<rparr>)) (modk (\<lambda>s. s\<lparr>io_regs := (io_regs s)(io_reg s := v)\<rparr>))"

fun ioapic_loop :: "u32 \<Rightarrow> nat \<Rightarrow> unit iokern" where
  "ioapic_loop i 0 = ret ()"
| "ioapic_loop i (Suc k) =
     seqk (ioapicwrite (REG_TABLE + 2 * i) (INT_DISABLED OR (T_IRQ0 + i)))
       (seqk (ioapicwrite (REG_TABLE + 2 * i + 1) 0) (ioapic_loop (i + 1) k))"

text \<open>The result says whether the number of the controller is the one of the table of processors; otherwise a message is printed.\<close>

definition ioapicinit :: "u8 \<Rightarrow> bool iokern" where
  "ioapicinit ioid = bindk (ioapicread REG_VER) (\<lambda>ver. bindk (ioapicread REG_ID) (\<lambda>idr.
     seqk (ioapic_loop 0 (unat (drop_bit 16 ver AND 0xFF) + 1)) (ret (drop_bit 24 idr = ucast ioid))))"

definition ioapicenable :: "u32 \<Rightarrow> u32 \<Rightarrow> unit iokern" where
  "ioapicenable irq cpunum = seqk (ioapicwrite (REG_TABLE + 2 * irq) (T_IRQ0 + irq)) (ioapicwrite (REG_TABLE + 2 * irq + 1) (push_bit 24 cpunum))"

section \<open>The clock\<close>

definition CMOS_STATA :: u32 where "CMOS_STATA = 0x0A"
definition CMOS_STATB :: u32 where "CMOS_STATB = 0x0B"
definition CMOS_UIP :: u32 where "CMOS_UIP = 0x80"

record rtcdate =
  r_second :: u32
  r_minute :: u32
  r_hour :: u32
  r_day :: u32
  r_month :: u32
  r_year :: u32

text \<open>\<open>rtc n r\<close> is what the \<open>n\<close>-th reading gives when it is of register \<open>r\<close>; \<open>n\<close> counts the readings.\<close>

definition cmos_read :: "(nat \<Rightarrow> u32 \<Rightarrow> u8) \<Rightarrow> u32 \<Rightarrow> nat \<Rightarrow> u32 \<times> nat" where
  "cmos_read rtc r n = (ucast (rtc n r), Suc n)"

definition fill_rtcdate :: "(nat \<Rightarrow> u32 \<Rightarrow> u8) \<Rightarrow> nat \<Rightarrow> rtcdate \<times> nat" where
  "fill_rtcdate rtc n =
     (let (s, n) = cmos_read rtc 0 n; (mi, n) = cmos_read rtc 2 n; (h, n) = cmos_read rtc 4 n; (d, n) = cmos_read rtc 7 n;
          (mo, n) = cmos_read rtc 8 n; (y, n) = cmos_read rtc 9 n
      in (\<lparr>r_second = s, r_minute = mi, r_hour = h, r_day = d, r_month = mo, r_year = y\<rparr>, n))"

partial_function (option) cmos_loop :: "(nat \<Rightarrow> u32 \<Rightarrow> u8) \<Rightarrow> nat \<Rightarrow> (rtcdate \<times> nat) option" where
  "cmos_loop rtc n =
     (let t1 = fill_rtcdate rtc n; a = cmos_read rtc CMOS_STATA (snd t1); t2 = fill_rtcdate rtc (snd a)
      in if fst a AND CMOS_UIP \<noteq> 0 then cmos_loop rtc (snd a)
         else if fst t1 = fst t2 then Some (fst t1, snd t2) else cmos_loop rtc (snd t2))"

definition bcd_conv :: "u32 \<Rightarrow> u32" where
  "bcd_conv x = drop_bit 4 x * 10 + (x AND 0xF)"

definition conv_date :: "rtcdate \<Rightarrow> rtcdate" where
  "conv_date t = \<lparr>r_second = bcd_conv (r_second t), r_minute = bcd_conv (r_minute t), r_hour = bcd_conv (r_hour t),
     r_day = bcd_conv (r_day t), r_month = bcd_conv (r_month t), r_year = bcd_conv (r_year t)\<rparr>"

definition cmostime :: "(nat \<Rightarrow> u32 \<Rightarrow> u8) \<Rightarrow> rtcdate option" where
  "cmostime rtc =
     (let b = cmos_read rtc CMOS_STATB 0
      in map_option (\<lambda>(t, n). let t = (if fst b AND push_bit 2 1 = 0 then conv_date t else t) in t\<lparr>r_year := r_year t + 2000\<rparr>) (cmos_loop rtc (snd b)))"

end
