(* ===== verification/Apic_Props.thy ===== *)
theory Apic_Props
  imports Apic
begin

unbundle bit_operations_syntax

text \<open>
  The interrupt controllers after their set-up, and the time of day: a date that two readings in succession agree on, decoded from binary coded decimals.
\<close>

section \<open>The clock\<close>

lemma fill_rtcdate_simps:
  "fst (fill_rtcdate rtc n) = \<lparr>r_second = ucast (rtc n 0), r_minute = ucast (rtc (n + 1) 2), r_hour = ucast (rtc (n + 2) 4), r_day = ucast (rtc (n + 3) 7),
     r_month = ucast (rtc (n + 4) 8), r_year = ucast (rtc (n + 5) 9)\<rparr>"
  "snd (fill_rtcdate rtc n) = n + 6"
  by (simp_all add: fill_rtcdate_def cmos_read_def eval_nat_numeral)

text \<open>A reading that is taken: it is followed by a status without an update and by the same reading.\<close>

definition read_twice :: "(nat \<Rightarrow> u32 \<Rightarrow> u8) \<Rightarrow> nat \<Rightarrow> bool" where
  "read_twice rtc n \<longleftrightarrow> rtc (n + 6) CMOS_STATA AND 0x80 = 0 \<and> fst (fill_rtcdate rtc n) = fst (fill_rtcdate rtc (n + 7))"

lemma uip_byte: "ucast (a :: u8) AND CMOS_UIP = (0 :: u32) \<longleftrightarrow> a AND 0x80 = 0"
proof -
  have "ucast a AND CMOS_UIP = (ucast (a AND 0x80) :: u32)" by (simp add: CMOS_UIP_def unsigned_and_eq)
  moreover have "(ucast x :: u32) = 0 \<longleftrightarrow> x = 0" for x :: u8 using unat_widen(1) [of x] by (metis unat_eq_zero)
  ultimately show ?thesis by simp
qed

lemma cmos_loop_step:
  "cmos_loop rtc n = (if read_twice rtc n then Some (fst (fill_rtcdate rtc n), n + 13)
     else cmos_loop rtc (if rtc (n + 6) CMOS_STATA AND 0x80 = 0 then n + 13 else n + 7))"
proof -
  have e: "Suc (n + 6) = n + 7" "n + 7 + 6 = n + 13" by simp_all
  show ?thesis by (subst cmos_loop.simps) (simp only: read_twice_def Let_def cmos_read_def fill_rtcdate_simps(2) uip_byte fst_conv snd_conv e, simp)
qed

text \<open>The loop returns the first reading that is taken, and it ends when the clock stands still from some reading on.\<close>

lemma cmos_loop_ends:
  assumes "\<forall>j \<ge> k. rtc j = rtc k" "rtc k CMOS_STATA AND 0x80 = 0"
  shows "\<exists>j. n \<le> j \<and> read_twice rtc j \<and> cmos_loop rtc n = Some (fst (fill_rtcdate rtc j), j + 13)"
proof (induction "k - n" arbitrary: n rule: less_induct)
  case less
  show ?case
  proof (cases "read_twice rtc n")
    case True
    then show ?thesis by (intro exI [of _ n]) (subst cmos_loop_step, simp)
  next
    case False
    have "n < k"
    proof (rule ccontr)
      assume "\<not> n < k"
      then have at: "rtc (n + i) = rtc k" "rtc n = rtc k" for i
        using assms(1) [rule_format, of "n + i"] assms(1) [rule_format, of n] by simp_all
      have "read_twice rtc n" using assms(2) unfolding read_twice_def fill_rtcdate_simps add.assoc at by simp
      then show False using False by simp
    qed
    define n' where "n' = (if rtc (n + 6) CMOS_STATA AND 0x80 = 0 then n + 13 else n + 7)"
    have "n < n'" by (simp add: n'_def)
    then obtain j where "n' \<le> j" "read_twice rtc j" "cmos_loop rtc n' = Some (fst (fill_rtcdate rtc j), j + 13)"
      using less [of n'] \<open>n < k\<close> by fastforce
    then show ?thesis using False \<open>n < n'\<close> by (intro exI [of _ j]) (subst cmos_loop_step, simp add: n'_def)
  qed
qed

text \<open>Two decimal digits as the clock shows them.\<close>

definition bcd :: "nat \<Rightarrow> u8" where
  "bcd v = push_bit 4 (of_nat (v div 10)) OR of_nat (v mod 10)"

lemma bcd_conv_bcd:
  assumes "v < 100"
  shows "bcd_conv (ucast (bcd v)) = of_nat v"
proof -
  obtain a b where v: "v = 10 * a + b" "a < 10" "b < 10" using assms that [of "v div 10" "v mod 10"] by auto
  then have d: "v div 10 = a" "v mod 10 = b" by simp_all
  have "\<forall>a \<in> set [0 ..< 10]. \<forall>b \<in> set [0 ..< 10]. bcd_conv (ucast (push_bit 4 (of_nat a) OR of_nat b :: u8)) = of_nat (10 * a + b)"
    by code_simp
  then show ?thesis using v(2,3) unfolding bcd_def d v(1) by simp
qed

definition bcd_reading :: "nat \<Rightarrow> nat \<Rightarrow> nat \<Rightarrow> nat \<Rightarrow> nat \<Rightarrow> nat \<Rightarrow> u32 \<Rightarrow> u8" where
  "bcd_reading s mi h d mo y r = (if r = 0 then bcd s else if r = 2 then bcd mi else if r = 4 then bcd h else if r = 7 then bcd d
     else if r = 8 then bcd mo else if r = 9 then bcd y else 0)"

text \<open>
  The time of day: \<open>cmostime\<close> returns when the clock stands still for long enough, with a reading that was made twice in succession and without an update between;
  for a clock that shows a date in binary coded decimals the result is this date, in the years from 2000 on.
\<close>

theorem cmostime_decodes:
  assumes "\<forall>j \<ge> k. rtc j = bcd_reading s mi h d mo y" "rtc 0 CMOS_STATB AND 4 = 0"
    and "s < 100" "mi < 100" "h < 100" "d < 100" "mo < 100" "y < 100"
  shows "(\<exists>j. read_twice rtc j \<and> cmostime rtc = Some (let t = conv_date (fst (fill_rtcdate rtc j)) in t\<lparr>r_year := r_year t + 2000\<rparr>)) \<and>
    (k \<le> 1 \<longrightarrow> cmostime rtc = Some \<lparr>r_second = of_nat s, r_minute = of_nat mi, r_hour = of_nat h, r_day = of_nat d, r_month = of_nat mo,
       r_year = of_nat (2000 + y)\<rparr>)"
proof -
  have "\<forall>j \<ge> k. rtc j = rtc k" "rtc k CMOS_STATA AND 0x80 = 0"
    using assms(1) by (simp_all add: bcd_reading_def CMOS_STATA_def)
  from cmos_loop_ends [OF this, of 1] obtain j where j: "1 \<le> j" "read_twice rtc j" "cmos_loop rtc 1 = Some (fst (fill_rtcdate rtc j), j + 13)" by blast
  have "(ucast (rtc 0 CMOS_STATB) AND 4 :: u32) = ucast (rtc 0 CMOS_STATB AND 4)" by (simp add: unsigned_and_eq)
  then have c: "cmostime rtc = Some (let t = conv_date (fst (fill_rtcdate rtc j)) in t\<lparr>r_year := r_year t + 2000\<rparr>)"
    using j(3) assms(2) by (simp add: cmostime_def Let_def cmos_read_def)
  moreover have "cmostime rtc = Some \<lparr>r_second = of_nat s, r_minute = of_nat mi, r_hour = of_nat h, r_day = of_nat d, r_month = of_nat mo, r_year = of_nat (2000 + y)\<rparr>"
    if "k \<le> 1"
  proof -
    have "\<And>i. j \<le> i \<Longrightarrow> rtc i = bcd_reading s mi h d mo y" using assms(1) j(1) that by simp
    then have "fst (fill_rtcdate rtc j) = \<lparr>r_second = ucast (bcd s), r_minute = ucast (bcd mi), r_hour = ucast (bcd h), r_day = ucast (bcd d),
        r_month = ucast (bcd mo), r_year = ucast (bcd y)\<rparr>" unfolding fill_rtcdate_simps by (simp add: bcd_reading_def)
    then show ?thesis using c assms(3-8) by (simp add: conv_date_def bcd_conv_bcd)
  qed
  ultimately show ?thesis using j(2) by blast
qed

theorem cmostime_decodes_witness:
  "cmostime (\<lambda>_. bcd_reading 59 30 23 31 12 24) =
     Some \<lparr>r_second = 59, r_minute = 30, r_hour = 23, r_day = 31, r_month = 12, r_year = 2024\<rparr>"
  using cmostime_decodes [of 0 "\<lambda>_. bcd_reading 59 30 23 31 12 24" 59 30 23 31 12 24] by (simp add: bcd_reading_def CMOS_STATB_def)

section \<open>The interrupt controllers\<close>

lemma ioapicwrite_ok: "ioapicwrite r v s = Ok ((), s\<lparr>io_reg := r, io_regs := (io_regs s)(r := v)\<rparr>)"
  by (simp add: ioapicwrite_def kern_simps)

text \<open>The entry of interrupt \<open>i\<close> in the redirection table.\<close>

definition redirect :: "ioapicst \<Rightarrow> nat \<Rightarrow> u32 \<times> u32" where
  "redirect s i = (io_regs s (REG_TABLE + 2 * of_nat i), io_regs s (REG_TABLE + 2 * of_nat i + 1))"

lemma table_apart:
  assumes "i < 1000" "j < 1000"
  shows "REG_TABLE + 2 * of_nat i \<noteq> REG_TABLE + 2 * of_nat j + 1" "i \<noteq> j \<Longrightarrow> REG_TABLE + 2 * of_nat i \<noteq> REG_TABLE + 2 * of_nat j"
proof -
  have u: "unat (2 * of_nat k :: u32) = 2 * k" "unat (2 * of_nat k + 1 :: u32) = 2 * k + 1" if "k < 1000" for k
    using that by (simp_all add: unat_word_ariths unat_of_nat)
  have "2 * of_nat i \<noteq> (2 * of_nat j + 1 :: u32)" using u assms by (metis add_diff_cancel_left' dvd_triv_left even_plus_one_iff)
  then show "REG_TABLE + 2 * of_nat i \<noteq> REG_TABLE + 2 * of_nat j + 1" by (simp add: add.assoc)
  assume "i \<noteq> j"
  then have "2 * of_nat i \<noteq> (2 * of_nat j :: u32)" using u(1) assms by (metis mult_cancel_left zero_neq_numeral)
  then show "REG_TABLE + 2 * of_nat i \<noteq> REG_TABLE + 2 * of_nat j" by simp
qed

lemma ioapicwrite_redirect:
  assumes "j < 1000" "s' = s\<lparr>io_reg := r, io_regs := (io_regs s)(REG_TABLE + 2 * of_nat j := lo, REG_TABLE + 2 * of_nat j + 1 := hi)\<rparr>" "i < 1000"
  shows "redirect s' i = (if i = j then (lo, hi) else redirect s i)"
  using table_apart [OF assms(3,1)] table_apart [OF assms(1,3)] by (simp add: redirect_def assms(2))

lemma ioapic_loop_ok:
  "n + k \<le> 1000 \<Longrightarrow> \<exists>t. ioapic_loop (of_nat n) k s = Ok ((), t) \<and>
     (\<forall>i < 1000. redirect t i = (if n \<le> i \<and> i < n + k then (INT_DISABLED OR (T_IRQ0 + of_nat i), 0) else redirect s i))"
proof (induction k arbitrary: n s)
  case (Suc k)
  define s' where "s' = s\<lparr>io_reg := REG_TABLE + 2 * of_nat n + 1,
     io_regs := (io_regs s)(REG_TABLE + 2 * of_nat n := INT_DISABLED OR (T_IRQ0 + of_nat n), REG_TABLE + 2 * of_nat n + 1 := 0)\<rparr>"
  have r: "redirect s' i = (if i = n then (INT_DISABLED OR (T_IRQ0 + of_nat n), 0) else redirect s i)" if "i < 1000" for i
    using ioapicwrite_redirect [OF _ s'_def that] Suc.prems by simp
  have "ioapic_loop (of_nat n) (Suc k) s = ioapic_loop (of_nat (Suc n)) k s'"
    by (simp add: kern_simps ioapicwrite_ok s'_def add.commute)
  moreover obtain t where "ioapic_loop (of_nat (Suc n)) k s' = Ok ((), t)"
    "\<forall>i < 1000. redirect t i = (if Suc n \<le> i \<and> i < Suc n + k then (INT_DISABLED OR (T_IRQ0 + of_nat i), 0) else redirect s' i)"
    using Suc.IH [of "Suc n" s'] Suc.prems by auto
  ultimately show ?case using r by (intro exI [of _ t]) auto
qed (auto simp: kern_simps)

text \<open>After the set-up every interrupt has its vector and is disabled; enabling one routes it to its processor and leaves the others alone.\<close>

theorem ioapic_routes:
  assumes "drop_bit 16 (io_regs s REG_VER) AND 0xFF = of_nat maxintr" "maxintr \<le> 255" "irq \<le> maxintr"
  shows "\<exists>id t. ioapicinit ioid s = Ok (id, t) \<and> (id \<longleftrightarrow> drop_bit 24 (io_regs s REG_ID) = ucast ioid) \<and>
    (\<forall>i \<le> maxintr. redirect t i = (INT_DISABLED OR (T_IRQ0 + of_nat i), 0)) \<and>
    (\<exists>u. ioapicenable (of_nat irq) cpunum t = Ok ((), u) \<and>
       (\<forall>i < 1000. redirect u i = (if i = irq then (T_IRQ0 + of_nat irq, push_bit 24 cpunum) else redirect t i)))"
proof -
  let ?s = "s\<lparr>io_reg := REG_ID\<rparr>"
  have u: "unat (of_nat maxintr :: u32) = maxintr" using assms(2) by (simp add: unat_of_nat)
  obtain t where t: "ioapic_loop (of_nat 0) (maxintr + 1) ?s = Ok ((), t)"
    "\<forall>i < 1000. redirect t i = (if 0 \<le> i \<and> i < 0 + (maxintr + 1) then (INT_DISABLED OR (T_IRQ0 + of_nat i), 0) else redirect ?s i)"
    using ioapic_loop_ok [of 0 "maxintr + 1" ?s] assms(2) by auto
  have run: "ioapicinit ioid s = Ok (drop_bit 24 (io_regs s REG_ID) = ucast ioid, t)"
    using t(1) assms(1) u by (simp add: ioapicinit_def ioapicread_def kern_simps)
  have all: "\<forall>i \<le> maxintr. redirect t i = (INT_DISABLED OR (T_IRQ0 + of_nat i), 0)" using t(2) assms(2) by simp
  define v where "v = t\<lparr>io_reg := REG_TABLE + 2 * of_nat irq + 1,
     io_regs := (io_regs t)(REG_TABLE + 2 * of_nat irq := T_IRQ0 + of_nat irq, REG_TABLE + 2 * of_nat irq + 1 := push_bit 24 cpunum)\<rparr>"
  have "ioapicenable (of_nat irq) cpunum t = Ok ((), v)" by (simp add: ioapicenable_def kern_simps ioapicwrite_ok v_def)
  moreover have "redirect v i = (if i = irq then (T_IRQ0 + of_nat irq, push_bit 24 cpunum) else redirect t i)" if "i < 1000" for i
    using ioapicwrite_redirect [OF _ v_def that] assms(2,3) by simp
  ultimately show ?thesis using run all by blast
qed

text \<open>The registers of the local controller after a sequence of writes.\<close>

definition lapic_regs :: "apicst \<Rightarrow> nat \<Rightarrow> u32 option" where
  "lapic_regs s = map_of (rev (lapic_writes s))"

lemma lapic_seq_ok: "lapic_seq ws s = Ok ((), s\<lparr>lapic_writes := lapic_writes s @ ws\<rparr>)"
proof (induction ws arbitrary: s)
  case (Cons w ws)
  then show ?case by (cases w) (simp add: kern_simps lapicw_def)
qed (simp add: kern_simps)

lemma icr_wait_ends: "icr n AND ICR_DELIVS = 0 \<Longrightarrow> m \<le> n \<Longrightarrow> \<exists>j. icr_wait icr m = Some j"
proof (induction "n - m" arbitrary: m)
  case 0
  then show ?case by (simp add: icr_wait.simps)
next
  case (Suc k)
  then have "\<exists>j. icr_wait icr (Suc m) = Some j" by simp
  then show ?case by (subst icr_wait.simps) simp
qed

text \<open>The local controller after its set-up: the timer interrupts periodically with the vector of the clock, the two lines are masked, errors have their vector, and
  every priority is let through.  Without a controller nothing is written.\<close>

theorem lapicinit_sets_up:
  assumes "icr n AND ICR_DELIVS = 0"
  shows "if lapic_ptr s = 0 then lapicinit ver icr s = Ok ((), s)
    else \<exists>t. lapicinit ver icr s = Ok ((), t) \<and> lapic_regs t LAPIC_TIMER = Some (TIMER_PERIODIC OR T_IRQ0) \<and> lapic_regs t LAPIC_TICR = Some 10000000 \<and>
      lapic_regs t LAPIC_LINT0 = Some LVT_MASKED \<and> lapic_regs t LAPIC_LINT1 = Some LVT_MASKED \<and>
      lapic_regs t LAPIC_ERROR = Some (T_IRQ0 + LAPIC_IRQ_ERROR) \<and> lapic_regs t LAPIC_TPR = Some 0"
proof (cases "lapic_ptr s = 0")
  case False
  obtain j where j: "icr_wait icr 0 = Some j" using icr_wait_ends [of icr n 0] assms by blast
  show ?thesis using False j
    by (cases "4 \<le> drop_bit 16 ver AND 0xFF") (simp_all add: lapicinit_def lapic_seq_ok lapicw_def kern_simps whenk_def lapic_regs_def
      LAPIC_TPR_def LAPIC_EOI_def LAPIC_SVR_def LAPIC_ESR_def ICRLO_def ICRHI_def LAPIC_TIMER_def LAPIC_PCINT_def LAPIC_LINT0_def LAPIC_LINT1_def
      LAPIC_ERROR_def LAPIC_TICR_def LAPIC_TDCR_def del: lapic_seq.simps)
qed (simp add: lapicinit_def)

end
