(* ===== verification/Boot.thy ===== *)
theory Boot
  imports Mp
begin

unbundle bit_operations_syntax

text \<open>
  The boot loader (\<open>bootmain.c\<close>).  It works on physical memory and on the ports of the first disk: \<open>st n\<close> is the answer to the \<open>n\<close>-th reading of the
  status, and \<open>drv\<close> gives the bytes that the disk delivers after a read command with four address bytes.  The loops are partial functions: \<open>None\<close> is
  a loop that does not end.
\<close>

definition SECTSIZE :: nat where "SECTSIZE = 512"
definition BOOT_ELF_MAGIC :: u32 where "BOOT_ELF_MAGIC = 0x464C457F"

record bootst =
  boot_mem :: memory
  boot_polls :: nat  \<comment> \<open>the number of readings of the status\<close>

type_synonym drive = "u8 \<Rightarrow> u8 \<Rightarrow> u8 \<Rightarrow> u8 \<Rightarrow> bytes"

partial_function (option) waitdisk :: "(nat \<Rightarrow> u8) \<Rightarrow> nat \<Rightarrow> nat option" where
  "waitdisk st n = (if st n AND 0xC0 \<noteq> 0x40 then waitdisk st (Suc n) else Some (Suc n))"

definition readsect :: "(nat \<Rightarrow> u8) \<Rightarrow> drive \<Rightarrow> u32 \<Rightarrow> u32 \<Rightarrow> bootst \<Rightarrow> bootst option" where
  "readsect st drv dst offset s =
     Option.bind (waitdisk st (boot_polls s)) (\<lambda>n. Option.bind (waitdisk st n) (\<lambda>n'.
       let d = drv (ucast offset) (ucast (drop_bit 8 offset)) (ucast (drop_bit 16 offset)) (ucast (drop_bit 24 offset) OR 0xE0)
       in Some (s\<lparr>boot_mem := (\<lambda>a. if unat (a - dst) < SECTSIZE then d (unat (a - dst)) else boot_mem s a), boot_polls := n'\<rparr>)))"

partial_function (option) readseg_loop :: "(nat \<Rightarrow> u8) \<Rightarrow> drive \<Rightarrow> u32 \<Rightarrow> u32 \<Rightarrow> u32 \<Rightarrow> bootst \<Rightarrow> bootst option" where
  "readseg_loop st drv pa epa offset s =
     (if pa < epa then Option.bind (readsect st drv pa offset s) (readseg_loop st drv (pa + of_nat SECTSIZE) epa (offset + 1)) else Some s)"

definition readseg :: "(nat \<Rightarrow> u8) \<Rightarrow> drive \<Rightarrow> u32 \<Rightarrow> u32 \<Rightarrow> u32 \<Rightarrow> bootst \<Rightarrow> bootst option" where
  "readseg st drv pa count offset =
     readseg_loop st drv (pa - offset mod of_nat SECTSIZE) (pa + count) (offset div of_nat SECTSIZE + 1)"

text \<open>A program header of 32 bytes at address \<open>ph\<close>.\<close>

definition boot_seg :: "(nat \<Rightarrow> u8) \<Rightarrow> drive \<Rightarrow> u32 \<Rightarrow> bootst \<Rightarrow> bootst option" where
  "boot_seg st drv ph s =
     (let ld = (\<lambda>s o'. load32 (boot_mem s) (ph + o')); pa = ld s 12
      in map_option (\<lambda>s. if ld s 16 < ld s 20 then s\<lparr>boot_mem := stosb (boot_mem s) (pa + ld s 16) 0 (unat (ld s 20 - ld s 16))\<rparr> else s)
           (readseg st drv pa (ld s 16) (ld s 4) s))"

partial_function (option) boot_segs :: "(nat \<Rightarrow> u8) \<Rightarrow> drive \<Rightarrow> u32 \<Rightarrow> u32 \<Rightarrow> bootst \<Rightarrow> bootst option" where
  "boot_segs st drv ph eph s = (if ph < eph then Option.bind (boot_seg st drv ph s) (boot_segs st drv (ph + 32) eph) else Some s)"

text \<open>The result is the entry point, or \<open>None\<close> when there is no kernel on the disk.\<close>

definition bootmain :: "(nat \<Rightarrow> u8) \<Rightarrow> drive \<Rightarrow> bootst \<Rightarrow> (u32 option \<times> bootst) option" where
  "bootmain st drv s =
     (let elf = 0x10000 in Option.bind (readseg st drv elf 4096 0 s) (\<lambda>s.
        if load32 (boot_mem s) elf \<noteq> BOOT_ELF_MAGIC then Some (None, s)
        else let ph = elf + load32 (boot_mem s) (elf + 28); eph = ph + 32 * ucast (load16 (boot_mem s) (elf + 44))
          in map_option (\<lambda>s. (Some (load32 (boot_mem s) (elf + 24)), s)) (boot_segs st drv ph eph s)))"

end
