(* ===== verification/Boot_Props.thy ===== *)
theory Boot_Props
  imports Boot
begin

unbundle bit_operations_syntax

text \<open>
  The boot loader reads a segment of the kernel file: the bytes of the file, which starts at the second sector of the disk, are in memory, and nothing before the first
  sector or after the last one has changed.
\<close>

definition ready_again :: "(nat \<Rightarrow> u8) \<Rightarrow> bool" where
  "ready_again st \<longleftrightarrow> (\<forall>n. \<exists>m \<ge> n. st m AND 0xC0 = 0x40)"

text \<open>The documented behaviour of the disk: it delivers the sector whose number is in the four bytes.\<close>

definition drive_ok :: "drive \<Rightarrow> (nat \<Rightarrow> bytes) \<Rightarrow> bool" where
  "drive_ok drv img \<longleftrightarrow> (\<forall>k :: u32. unat k < 2 ^ 28 \<longrightarrow>
     drv (ucast k) (ucast (drop_bit 8 k)) (ucast (drop_bit 16 k)) (ucast (drop_bit 24 k) OR 0xE0) = img (unat k))"

text \<open>A byte of the kernel file.\<close>

definition file_byte :: "(nat \<Rightarrow> bytes) \<Rightarrow> nat \<Rightarrow> u8" where
  "file_byte img j = img (j div 512 + 1) (j mod 512)"

lemma waitdisk_ends:
  assumes "ready_again st"
  shows "\<exists>n'. waitdisk st n = Some n'"
proof -
  obtain m where m: "n \<le> m" "st m AND 0xC0 = 0x40" using assms by (auto simp: ready_again_def)
  then show ?thesis
  proof (induction "m - n" arbitrary: n)
    case 0
    then show ?case by (simp add: waitdisk.simps)
  next
    case (Suc k)
    then have "\<exists>n'. waitdisk st (Suc n) = Some n'" by simp
    then show ?case by (subst waitdisk.simps) simp
  qed
qed

lemma readsect_ok:
  assumes "ready_again st" "drive_ok drv img" "unat k < 2 ^ 28"
  shows "\<exists>n. readsect st drv dst k s = Some (s\<lparr>boot_mem := (\<lambda>a. if unat (a - dst) < 512 then img (unat k) (unat (a - dst)) else boot_mem s a), boot_polls := n\<rparr>)"
proof -
  obtain n n' where "waitdisk st (boot_polls s) = Some n" "waitdisk st n = Some n'" using waitdisk_ends [OF assms(1)] by metis
  then show ?thesis using assms(2,3) by (auto simp: readsect_def Let_def SECTSIZE_def drive_ok_def)
qed

text \<open>\<open>q\<close> sectors are read to an aligned range of memory.\<close>

lemma readseg_loop_ok:
  assumes st: "ready_again st" "drive_ok drv img"
  shows "unat pa + 512 * q < 2 ^ 32 \<Longrightarrow> unat epa \<le> unat pa + 512 * q \<Longrightarrow> unat pa + 512 * q < unat epa + 512 \<Longrightarrow> unat k + q \<le> 2 ^ 28 \<Longrightarrow>
    \<exists>t. readseg_loop st drv pa epa k s = Some t \<and>
      (\<forall>a. boot_mem t a = (if unat pa \<le> unat a \<and> unat a < unat pa + 512 * q
         then img (unat k + (unat a - unat pa) div 512) ((unat a - unat pa) mod 512) else boot_mem s a))"
proof (induction q arbitrary: pa k s)
  case 0
  then have "\<not> pa < epa" by (simp add: word_less_nat_alt)
  then show ?case by (auto simp: readseg_loop.simps)
next
  case (Suc q)
  have up: "unat (pa + 512) = unat pa + 512" "unat (k + 1) = unat k + 1" using Suc.prems by (simp_all add: unat_word_ariths)
  have lt: "pa < epa" using Suc.prems(3) by (simp add: word_less_nat_alt)
  have k: "unat k < 2 ^ 28" using Suc.prems(4) by simp
  obtain n where r: "readsect st drv pa k s = Some (s\<lparr>boot_mem := (\<lambda>a. if unat (a - pa) < 512 then img (unat k) (unat (a - pa)) else boot_mem s a), boot_polls := n\<rparr>)"
    using readsect_ok [OF st k] by blast
  define s' where "s' = s\<lparr>boot_mem := (\<lambda>a. if unat (a - pa) < 512 then img (unat k) (unat (a - pa)) else boot_mem s a), boot_polls := n\<rparr>"
  have "unat (pa + 512) + 512 * q < 2 ^ 32" "unat epa \<le> unat (pa + 512) + 512 * q" "unat (pa + 512) + 512 * q < unat epa + 512" "unat (k + 1) + q \<le> 2 ^ 28"
    using Suc.prems unfolding up by simp_all
  from Suc.IH [OF this, of s'] obtain t where t: "readseg_loop st drv (pa + 512) epa (k + 1) s' = Some t"
    "\<forall>a. boot_mem t a = (if unat (pa + 512) \<le> unat a \<and> unat a < unat (pa + 512) + 512 * q
         then img (unat (k + 1) + (unat a - unat (pa + 512)) div 512) ((unat a - unat (pa + 512)) mod 512) else boot_mem s' a)" by blast
  have near: "unat (a - pa) < 512 \<longleftrightarrow> unat pa \<le> unat a \<and> unat a < unat pa + 512" "unat pa \<le> unat a \<Longrightarrow> unat (a - pa) = unat a - unat pa" for a
    using up(1) unat32_less [of "pa + 512"] by (auto simp: unat_sub_if')
  have "boot_mem t a = (if unat pa \<le> unat a \<and> unat a < unat pa + 512 * Suc q
         then img (unat k + (unat a - unat pa) div 512) ((unat a - unat pa) mod 512) else boot_mem s a)" for a
  proof (cases "unat pa + 512 \<le> unat a")
    case True
    then have e: "unat a - unat pa = (unat a - (unat pa + 512)) + 512" by simp
    have "(x + 512) div 512 = Suc (x div 512)" "(x + 512) mod 512 = x mod 512" for x :: nat by simp_all
    then have "(unat a - unat pa) div 512 = Suc ((unat a - (unat pa + 512)) div 512)" "(unat a - unat pa) mod 512 = (unat a - (unat pa + 512)) mod 512"
      unfolding e by blast+
    then show ?thesis using True t(2) near(1) [of a] by (simp add: up s'_def)
  next
    case False
    then show ?thesis using t(2) near [of a] by (auto simp: up s'_def)
  qed
  then show ?case using t(1) r lt by (intro exI [of _ t]) (subst readseg_loop.simps, simp add: SECTSIZE_def s'_def)
qed

text \<open>
  \<open>readseg\<close> puts the \<open>count\<close> bytes of the kernel file from \<open>offset\<close> on to address \<open>pa\<close>; besides them only the rest of the first and of the last sector is overwritten.
\<close>

theorem readseg_loads:
  assumes st: "ready_again st" "drive_ok drv img" and r: "unat offset mod 512 \<le> unat pa" "unat pa + unat count + 512 < 2 ^ 32"
  shows "\<exists>t. readseg st drv pa count offset s = Some t \<and>
    (\<forall>i < unat count. boot_mem t (pa + of_nat i) = file_byte img (unat offset + i)) \<and>
    (\<forall>a. unat a < unat pa - unat offset mod 512 \<or> unat pa + unat count + 512 \<le> unat a \<longrightarrow> boot_mem t a = boot_mem s a)"
proof -
  let ?m = "unat offset mod 512" and ?n = "unat count"
  define q where "q = (?m + ?n + 511) div 512"
  have o: "unat (offset mod 512) = ?m" "unat (offset div 512 + 1) = unat offset div 512 + 1"
  proof -
    have "unat offset div 512 + 1 < 2 ^ 32" using unat32_less [of offset] by simp
    then show "unat (offset mod 512) = ?m" "unat (offset div 512 + 1) = unat offset div 512 + 1" by (simp_all add: unat_mod unat_div unat_word_ariths)
  qed
  have p: "unat (pa - offset mod 512) = unat pa - ?m" "unat (pa + count) = unat pa + ?n"
    using r o(1) by (simp_all add: unat_sub_if' unat_word_ariths)
  have q: "512 * q \<le> ?m + ?n + 511" "?m + ?n \<le> 512 * q" unfolding q_def using div_mult_mod_eq [of "?m + ?n + 511" 512] by (simp, linarith)
  have "unat offset div 512 + 1 + q \<le> 2 ^ 28"
  proof -
    have "unat offset div 512 < 2 ^ 23" using unat32_less [of offset] by (simp add: div_less_iff_less_mult)
    moreover have "q < 2 ^ 24" using q(1) unat32_less [of count] by simp
    ultimately show ?thesis by simp
  qed
  moreover have "unat pa - ?m + 512 * q < 2 ^ 32" "unat pa + ?n \<le> unat pa - ?m + 512 * q" "unat pa - ?m + 512 * q < unat pa + ?n + 512"
    using r q by linarith+
  ultimately obtain t where t: "readseg_loop st drv (pa - offset mod 512) (pa + count) (offset div 512 + 1) s = Some t"
    "\<forall>a. boot_mem t a = (if unat pa - ?m \<le> unat a \<and> unat a < unat pa - ?m + 512 * q
         then img (unat offset div 512 + 1 + (unat a - (unat pa - ?m)) div 512) ((unat a - (unat pa - ?m)) mod 512) else boot_mem s a)"
    using readseg_loop_ok [OF st, of "pa - offset mod 512" q "pa + count" "offset div 512 + 1" s] unfolding o p by blast
  have "boot_mem t (pa + of_nat i) = file_byte img (unat offset + i)" if i: "i < ?n" for i
  proof -
    have u: "unat (pa + of_nat i) = unat pa + i" using i r by (simp add: unat_word_ariths unat_of_nat)
    have e: "unat pa + i - (unat pa - ?m) = ?m + i" using r(1) by simp
    have f: "unat offset + i = 512 * (unat offset div 512) + (?m + i)" by simp
    have "(unat offset + i) div 512 = unat offset div 512 + (?m + i) div 512" "(unat offset + i) mod 512 = (?m + i) mod 512"
      unfolding f by (simp_all only: div_mult_self4 mod_mult_self4)
    moreover have "unat pa - ?m \<le> unat pa + i \<and> unat pa + i < unat pa - ?m + 512 * q" using q(2) i r(1) by linarith
    ultimately show ?thesis using t(2) [rule_format, of "pa + of_nat i", unfolded u e] by (simp add: file_byte_def)
  qed
  moreover have "boot_mem t a = boot_mem s a" if "unat a < unat pa - ?m \<or> unat pa + ?n + 512 \<le> unat a" for a
    using t(2) that q(1) r(1) by auto
  ultimately show ?thesis using t(1) by (auto simp: readseg_def SECTSIZE_def)
qed

section \<open>A kernel of one segment\<close>

definition file_word :: "(nat \<Rightarrow> bytes) \<Rightarrow> nat \<Rightarrow> u32" where
  "file_word img j = load32 (\<lambda>a. file_byte img (unat a)) (of_nat j)"

definition file_half :: "(nat \<Rightarrow> bytes) \<Rightarrow> nat \<Rightarrow> u16" where
  "file_half img j = load16 (\<lambda>a. file_byte img (unat a)) (of_nat j)"

text \<open>The first page of the kernel file is at \<open>0x10000\<close>.\<close>

definition header_at :: "(nat \<Rightarrow> bytes) \<Rightarrow> bootst \<Rightarrow> bool" where
  "header_at img s \<longleftrightarrow> (\<forall>i < 4096. boot_mem s (0x10000 + of_nat i) = file_byte img i)"

lemma header_byte:
  assumes "header_at img s" "j + k < 4096"
  shows "boot_mem s (0x10000 + of_nat j + of_nat k) = file_byte img (j + k)" "unat (of_nat j + of_nat k :: u32) = j + k"
  using assms(1) [unfolded header_at_def, rule_format, OF assms(2)] assms(2) by (simp_all add: add.assoc unat_word_ariths unat_of_nat)

lemma header_read:
  assumes h: "header_at img s"
  shows "j + 3 < 4096 \<Longrightarrow> load32 (boot_mem s) (0x10000 + of_nat j) = file_word img j" "j + 1 < 4096 \<Longrightarrow> load16 (boot_mem s) (0x10000 + of_nat j) = file_half img j"
  using header_byte [OF h, of j 0] header_byte [OF h, of j 1] header_byte [OF h, of j 2] header_byte [OF h, of j 3]
  by (simp_all add: load32_def load16_def file_word_def file_half_def)

lemma header_frame: "header_at img s \<Longrightarrow> (\<And>a. unat a < 0x11000 \<Longrightarrow> boot_mem t a = boot_mem s a) \<Longrightarrow> header_at img t"
proof -
  assume "header_at img s" "\<And>a. unat a < 0x11000 \<Longrightarrow> boot_mem t a = boot_mem s a"
  moreover have "unat (0x10000 + of_nat i :: u32) < 0x11000" if "i < 4096" for i using that by (simp add: unat_word_ariths unat_of_nat)
  ultimately show "header_at img t" by (simp add: header_at_def)
qed

text \<open>A segment above the header is loaded: its bytes, and zeros up to its size in memory.\<close>

lemma boot_seg_ok:
  assumes st: "ready_again st" "drive_ok drv img" and h: "header_at img s" and j: "j + 32 \<le> 4096"
    and seg: "off = file_word img (j + 4)" "pa = file_word img (j + 12)" "fsz = file_word img (j + 16)" "msz = file_word img (j + 20)"
    and r: "0x11000 + unat off mod 512 \<le> unat pa" "unat pa + unat msz + 512 < 2 ^ 32" "unat fsz \<le> unat msz"
  shows "\<exists>t. boot_seg st drv (0x10000 + of_nat j) s = Some t \<and> header_at img t \<and>
    (\<forall>i < unat fsz. boot_mem t (pa + of_nat i) = file_byte img (unat off + i)) \<and>
    (\<forall>i < unat msz. unat fsz \<le> i \<longrightarrow> boot_mem t (pa + of_nat i) = 0)"
proof -
  have rd: "load32 (boot_mem u) (0x10000 + of_nat j + 4) = off" "load32 (boot_mem u) (0x10000 + of_nat j + 12) = pa"
    "load32 (boot_mem u) (0x10000 + of_nat j + 16) = fsz" "load32 (boot_mem u) (0x10000 + of_nat j + 20) = msz" if u: "header_at img u" for u
    using header_read(1) [OF u, of "j + 4"] header_read(1) [OF u, of "j + 12"] header_read(1) [OF u, of "j + 16"] header_read(1) [OF u, of "j + 20"] j
    unfolding seg by (simp_all add: add.assoc)
  obtain t where t: "readseg st drv pa fsz off s = Some t" "\<forall>i < unat fsz. boot_mem t (pa + of_nat i) = file_byte img (unat off + i)"
    "\<forall>a. unat a < unat pa - unat off mod 512 \<or> unat pa + unat fsz + 512 \<le> unat a \<longrightarrow> boot_mem t a = boot_mem s a"
    using readseg_loads [OF st, of off pa fsz s] r by auto
  have ht: "header_at img t" using t(3) r(1) by (intro header_frame [OF h]) auto
  define u where "u = (if fsz < msz then t\<lparr>boot_mem := stosb (boot_mem t) (pa + fsz) 0 (unat (msz - fsz))\<rparr> else t)"
  have um: "boot_mem u a = (if unat (a - (pa + fsz)) < unat msz - unat fsz then 0 else boot_mem t a)" for a
  proof (cases "fsz < msz")
    case True
    then have "unat (msz - fsz) = unat msz - unat fsz" by (simp add: unat_sub word_le_nat_alt word_less_nat_alt)
    moreover have "unat (msz - fsz) \<le> 4294967296" using unat32_less [of "msz - fsz"] by simp
    ultimately show ?thesis using True stosb_apply [of "unat (msz - fsz)" "boot_mem t" "pa + fsz" 0 a] by (simp add: u_def)
  qed (simp add: u_def word_less_nat_alt)
  have run: "boot_seg st drv (0x10000 + of_nat j) s = Some u"
    using t(1) rd [OF h] rd [OF ht] by (simp add: boot_seg_def Let_def u_def)
  have pf: "unat (pa + fsz) = unat pa + unat fsz" using r by (simp add: unat_word_ariths)
  have low: "unat (a - (pa + fsz)) \<ge> unat msz - unat fsz" if "unat a < unat pa + unat fsz" for a
    using that pf r(2,3) by (simp add: unat_sub_if')
  have old: "boot_mem u a = boot_mem t a" if "unat a < unat pa + unat fsz" for a using low [OF that] by (simp add: um)
  have "header_at img u" using r(1) by (intro header_frame [OF ht] old) simp
  moreover have "boot_mem u (pa + of_nat i) = file_byte img (unat off + i)" if i: "i < unat fsz" for i
  proof -
    have "unat (pa + of_nat i) = unat pa + i" using i r by (simp add: unat_word_ariths unat_of_nat)
    then show ?thesis using old [of "pa + of_nat i"] t(2) i by simp
  qed
  moreover have "boot_mem u (pa + of_nat i) = 0" if i: "i < unat msz" "unat fsz \<le> i" for i
  proof -
    have "pa + of_nat i - (pa + fsz) = of_nat (i - unat fsz)" using i(2) by (simp add: of_nat_diff)
    moreover have "i - unat fsz < 2 ^ 32" using i(1) unat32_less [of msz] by simp
    ultimately have "unat (pa + of_nat i - (pa + fsz)) = i - unat fsz" by (simp add: unat_of_nat)
    moreover have "i - unat fsz < unat msz - unat fsz" by (rule diff_less_mono [OF i])
    ultimately show ?thesis by (simp add: um)
  qed
  ultimately show ?thesis using run by blast
qed

text \<open>
  The boot loader on a kernel file with one segment: it loads the segment with its zeros and returns the entry point of the file; a disk without the magic number gives no
  entry point.
\<close>

theorem bootmain_loads:
  assumes st: "ready_again st" "drive_ok drv img" and j: "j = unat (file_word img 28)" "j + 32 \<le> 4096" "file_half img 44 = 1"
    and seg: "off = file_word img (j + 4)" "pa = file_word img (j + 12)" "fsz = file_word img (j + 16)" "msz = file_word img (j + 20)"
    and r: "0x11000 + unat off mod 512 \<le> unat pa" "unat pa + unat msz + 512 < 2 ^ 32" "unat fsz \<le> unat msz"
  shows "\<exists>t. bootmain st drv s = Some (if file_word img 0 = BOOT_ELF_MAGIC then Some (file_word img 24) else None, t) \<and>
    (file_word img 0 = BOOT_ELF_MAGIC \<longrightarrow> (\<forall>i < unat msz. boot_mem t (pa + of_nat i) = (if i < unat fsz then file_byte img (unat off + i) else 0)))"
proof -
  obtain h where h: "readseg st drv 0x10000 4096 0 s = Some h" "\<forall>i < unat (4096 :: u32). boot_mem h (0x10000 + of_nat i) = file_byte img (unat (0 :: u32) + i)"
    using readseg_loads [OF st, of 0 "0x10000" 4096 s] by auto
  have hh: "header_at img h" using h(2) by (simp add: header_at_def)
  have rd: "load32 (boot_mem u) 0x10000 = file_word img 0" "load32 (boot_mem u) (0x10000 + 24) = file_word img 24" "load32 (boot_mem u) (0x10000 + 28) = file_word img 28"
    "load16 (boot_mem u) (0x10000 + 44) = file_half img 44" if u: "header_at img u" for u
    using header_read(1) [OF u, of 0] header_read(1) [OF u, of 24] header_read(1) [OF u, of 28] header_read(2) [OF u, of 44] by simp_all
  have ph: "file_word img 28 = of_nat j" by (simp add: j(1))
  show ?thesis
  proof (cases "file_word img 0 = BOOT_ELF_MAGIC")
    case False
    then show ?thesis using h(1) rd [OF hh] by (simp add: bootmain_def Let_def)
  next
    case True
    obtain t where t: "boot_seg st drv (0x10000 + of_nat j) h = Some t" "header_at img t"
      "\<forall>i < unat fsz. boot_mem t (pa + of_nat i) = file_byte img (unat off + i)" "\<forall>i < unat msz. unat fsz \<le> i \<longrightarrow> boot_mem t (pa + of_nat i) = 0"
      using boot_seg_ok [OF st hh j(2) seg r] by blast
    have fin: "boot_segs st drv e e u = Some u" for e u by (subst boot_segs.simps) simp
    have "unat (0x10000 + of_nat j :: u32) = 0x10000 + j" "unat (0x10000 + of_nat j + 32 :: u32) = 0x10000 + j + 32"
      using j(2) by (simp_all add: unat_word_ariths unat_of_nat)
    then have "(0x10000 + of_nat j :: u32) < 0x10000 + of_nat j + 32" by (simp only: word_less_nat_alt)
    then have "boot_segs st drv (0x10000 + of_nat j) (0x10000 + of_nat j + 32) h = Some t"
      using t(1) fin by (subst boot_segs.simps) simp
    then have "bootmain st drv s = Some (Some (file_word img 24), t)"
      using h(1) rd [OF hh] rd [OF t(2)] True j(3) by (simp add: bootmain_def Let_def ph)
    then show ?thesis using True t(3,4) by simp
  qed
qed

end
