(* ===== verification/Spec2Isabelle.thy ===== *)
theory Spec2Isabelle
  imports Cow_Fault Sched_Props Pipe_Live Bio_Props Log_Crash Fs_Props Fs_File Sys_Props Grep Ulib Sh_Round Sh_Run Cow_Kernel_Props Exec_Props Console_Props Umalloc_Props Sched_Trap_Props Ide_Props Kbd_Props Mkfs_Props Mp_Props Apic_Props Boot_Props
begin

text \<open>
  Verification of two patched xv6 kernels for the x86: \<open>src/xv6-cow_patch\<close>, whose fork shares pages copy-on-write, and
  \<open>src/xv6_scheduling_patch\<close>, which adds the policies FCFS, PBS and MLFQ and the calls \<open>waitx\<close>, \<open>set_priority\<close> and
  \<open>getprocstable\<close>.  The two trees share most files byte for byte; such a file is modelled once and mapped to \<open>xv6-cow_patch\<close>.

  \<^bold>\<open>How the code is modelled.\<close>  Theory \<open>Prelude\<close> has the state monad \<open>kern\<close>: a C function takes the part of the machine state
  it works on and gives an \<open>outcome\<close>, which is \<open>Ok\<close> with a result and the new state, \<open>Panic\<close> for a call of \<open>panic\<close>,
  \<open>Undefined\<close> for an access that C leaves undefined (a null pointer, an index outside an array), or \<open>Sleeps\<close> where the caller would wait for another
  process.  Structures are records, enumerations datatypes, \<open>uint\<close> and pointers are 32-bit words with wrap-around.  The process table, the
  buffers and the inode cache are lists; memory is a function from addresses to bytes, and page tables are words in that memory, so
  aliasing between page tables and pages is part of the model.  A part of the state is reached through record extension
  (\<open>bst\<close>, \<open>lst\<close>, \<open>fsst\<close>, \<open>filest\<close> each add the fields of one layer) or through \<open>zoomk\<close>.  A function that gives up the CPU is split at the switch into what
  happens before (\<open>sched_enter\<close>, \<open>sleep_enter\<close>, \<open>yield_enter\<close>) and after (\<open>sched_exit\<close>, ...).

  \<^bold>\<open>Memory.\<close>
  \<^item> \<open>Mmu\<close> (\<open>mmu.h\<close>, \<open>memlayout.h\<close>) and \<open>Cstring\<close> (\<open>string.c\<close>): address arithmetic and byte memory.
  \<^item> \<open>Kalloc\<close> (\<open>kalloc.c\<close> of both trees): the free list in the pages themselves and the reference counts.  The
    locale \<open>page_allocator\<close> is the contract of \<open>kalloc\<close> and \<open>kfree\<close>; it is interpreted on both allocators.
  \<^item> \<open>Vm\<close>, \<open>Vm_Lemmas\<close>, \<open>Vm_Kernel\<close> (\<open>vm.c\<close> of the copy-on-write tree) and \<open>Sched_Vm\<close> (that of the scheduling tree): page tables, user memory,
    \<open>copyuvm\<close>, \<open>COW_FAULT\<close>.  \<open>Vm_Lemmas\<close> abstracts a page table in memory to a function from virtual addresses to entries.
  \<^item> \<open>Cow\<close>, \<open>Cow_Example\<close>, \<open>Cow_Fault\<close>: fork shares the pages read-only and counts them; after a fault a write of one process is not seen
    by the other; every branch of the fault handler, including the unchecked address.
  \<^item> \<open>Cow_Dealloc\<close>: \<open>deallocuvm\<close> drops one reference per page and frees exactly the pages without another one.

  \<^item> \<open>Sched_Copy\<close>: the two kernels compared.  The operations on page tables commute with forgetting the reference counts, and copy on
    write refines the fork that copies every page.

  \<^bold>\<open>Locks and processes.\<close>
  \<^item> \<open>Spinlock\<close> (\<open>spinlock.c\<close>): acquire and release for any number of CPUs as an interleaving of their atomic steps, mutual exclusion by rule
    induction.
  \<^item> \<open>Proc\<close>: the functions of \<open>proc.c\<close> that both kernels share (sleep, wakeup, sched, yield, kill).
  \<^item> \<open>Sched\<close>, \<open>Sched_Pick\<close>, \<open>Sched_Inv\<close>, \<open>Sched_Times\<close>, \<open>Sched_Props\<close> (\<open>proc.c\<close> and \<open>trap.c\<close> of the scheduling tree): the four policies, the clock
    tick and the process calls; the locale \<open>picker\<close> is the contract of a selection loop and is interpreted on the loops of FCFS and PBS.  The transition system \<open>sys\<close>
    joins scheduler, ticks and processes on one CPU, and its invariant gives safety; \<open>hist\<close> counts the ticks of every process along a run and gives the time accounting.
    The \<open>Makefile\<close> starts two CPUs unless it is told otherwise (\<open>CPUS := 2\<close>); the theorems on the schedulers are about \<open>CPUS=1\<close>.  The trap handlers have the
    number of the CPU as an argument, and only CPU 0 counts ticks.
  \<^item> \<open>Sched_Proc\<close>, \<open>Sched_Trap_Props\<close> (\<open>proc.c\<close>, \<open>trap.c\<close>, \<open>sysproc.c\<close> of the scheduling tree): the first process, fork, exit and wait
    with the files, the system calls and the trap handler; the clock interrupt under each policy, and a table of processes that is written
    past the memory of the caller.
  \<^item> \<open>Cow_Proc\<close>, \<open>Cow_Trap\<close>, \<open>Cow_Tree\<close> (\<open>proc.c\<close>, \<open>trap.c\<close>, \<open>syscall.c\<close>, \<open>sysproc.c\<close> of the copy-on-write tree): process creation,
    fork, exit, wait, traps and system calls on the joint state of process table, memory and files; the relation \<open>cstep\<close> and the
    invariant \<open>tree\<close> of parents and children, which \<open>userinit\<close> establishes.  \<open>Cow_Kernel_Props\<close>: faults on the guard page, shrinking a process with \<open>sbrk\<close>.
  \<^item> \<open>Exec\<close>, \<open>Exec_Props\<close> (\<open>exec.c\<close>, \<open>loaduvm\<close>): loading a program; a failing \<open>exec\<close> leaves the process as it was.

  \<^item> \<open>Console\<close>, \<open>Console_Props\<close> (\<open>console.c\<close>): screen, formatted output, \<open>panic\<close>, and the line editor on its ring of 128 bytes, which refines an editor on two
    lists; reading a line.  \<open>Kbd\<close>, \<open>Kbd_Props\<close> (\<open>kbd.c\<close>, \<open>uart.c\<close>): the decoding of scan codes, from the keys of a
    US keyboard, which are listed independently of the tables of the driver, to the line editor.

  \<^bold>\<open>The machine.\<close>
  \<^item> \<open>Mp\<close>, \<open>Mp_Props\<close> (\<open>mp.c\<close>, \<open>mycpu\<close>): the search for the table of processors and its entries; a table with an unknown entry makes the kernel hang.
  \<^item> \<open>Apic\<close>, \<open>Apic_Props\<close> (\<open>lapic.c\<close>, \<open>ioapic.c\<close>, \<open>picirq.c\<close>): the registers of the interrupt controllers after their set-up, and the time of day.
  \<^item> \<open>Boot\<close>, \<open>Boot_Props\<close> (\<open>bootmain.c\<close>): the boot loader puts the segments of the kernel file into memory.

  \<^bold>\<open>Files.\<close>
  \<^item> \<open>Pipe\<close> (\<open>pipe.c\<close>): the ring buffer; the locale \<open>bounded_fifo\<close> is its contract as a queue of at most 512 bytes.  \<open>Pipe_Live\<close>: a writer and a reader as
    two entries of the process table, each of which runs only when it has not been put to sleep or has been woken, in any order.
  \<^item> \<open>Blocks\<close>, \<open>Bio\<close>, \<open>Bio_Props\<close> (\<open>sleeplock.c\<close>, \<open>bio.c\<close>, \<open>memide.c\<close>): the buffer cache; seen from outside it is the disk, inside it is replacement of the
    least recently used buffer.
  \<^item> \<open>Ide\<close>, \<open>Ide_Props\<close> (\<open>ide.c\<close>): the driver of the IDE disk with its queue, which implements the disk in memory that the buffer cache is verified
    on; errors of the disk.
  \<^item> \<open>Log\<close>, \<open>Log_Crash\<close> (\<open>log.c\<close>): transactions and recovery; a crash at any disk write leaves all or nothing.
  \<^item> \<open>Fs\<close>, \<open>Fs_Blocks\<close>, \<open>Fs_Props\<close> (\<open>fs.c\<close>): blocks, inodes, contents, directories and paths on top of the log.
  \<^item> \<open>Fs_Content\<close>, \<open>Fs_File\<close>: the contents of files through \<open>bmap\<close>, \<open>readi\<close> and \<open>writei\<close>; the locale \<open>byte_file\<close> is the contract of a file as a list
    of bytes, interpreted on the inodes of the model.
  \<^item> \<open>Mkfs\<close>, \<open>Mkfs_Files\<close>, \<open>Mkfs_Image\<close>, \<open>Mkfs_Props\<close> (\<open>mkfs.c\<close>): the program that builds the first image; its invariant represents the image as a list
    of files, and the kernel that mounts the image finds these files.
  \<^item> \<open>File\<close>, \<open>Sysfile\<close>, \<open>Sys_Props\<close> (\<open>file.c\<close>, \<open>sysfile.c\<close>, the argument functions of \<open>syscall.c\<close>).

  \<^bold>\<open>User programs.\<close>
  \<^item> \<open>Grep\<close> (\<open>grep.c\<close>): the matcher against the language of an expression, the loop over the input against the list of lines.
  \<^item> \<open>Ulib\<close> (\<open>ulib.c\<close>, \<open>printf.c\<close>): strings and number conversion.
  \<^item> \<open>Umalloc\<close>, \<open>Umalloc_Props\<close> (\<open>umalloc.c\<close>): the allocator on its circular list; over all histories of \<open>malloc\<close> and \<open>free\<close> the blocks in
    use stay disjoint and the search loops, which are partial functions, end.
  \<^item> \<open>Sh\<close> (\<open>sh.c\<close>): the parser, whose pointers into the line are represented by the rest of the line, \<open>nulterminate\<close>, \<open>runcmd\<close> on descriptor
    tables and the main loop.  \<open>Sh_Props\<close>: the parser ends with a message or a well-formed command; \<open>Sh_Round\<close>: it reads back every command that is written
    down; \<open>Sh_Run\<close>: the wiring of pipelines, with the descriptors of the programs and of the shells that wait.

  \<^bold>\<open>Bounds and fuel.\<close>  Loops are structural or have a termination proof, with these exceptions.  The loops over pages of
  \<open>vm.c\<close> count to a size below \<open>2 ^ 32\<close> in steps of a page and get the number of pages as fuel, which is exactly the number of iterations.
  \<open>bscan\<close> follows the list of buffers with one step per buffer and one to spare; the well-formedness of the list shows that this is enough.
  \<open>grep\<close> takes fuel because it depends on what \<open>read\<close> returns; the theorem says that more fuel than the file has bytes is enough.
  The parsing functions of the shell take the depth of their calls; \<open>parsecmd\<close> supplies four times the length of the line and five, and
  \<open>parsecmd_ends\<close> shows that this is enough.  \<open>strlen\<close> is a partial
  function, for a string without end, and so are the loops that poll a device or go through a table of the firmware; \<open>None\<close> is their not ending.  Spinning is a step of the interleaving, not a loop.

  \<^bold>\<open>Parameters.\<close>  The contents of the disk, the addresses of linker symbols and the device interrupts are parameters or fields of
  the state without further assumptions.  The controller of the IDE disk is a parameter too; \<open>ata_ok\<close> states its documented behaviour: it becomes ready, and a read
  command delivers the sector that was written last.  \<open>drive_ok\<close> states the same of the disk that the boot loader reads, and the theorems on waiting loops assume that the
  device answers ready in the end.  Of the parameter \<open>grant\<close> of the user allocator, which says whether \<open>sbrk\<close> grows the heap by a positive count, the
  theorems assume that it keeps the heap below the kernel, as \<open>allocuvm\<close> does.

  \<^bold>\<open>Not modelled.\<close>  Assembly, segment and interrupt descriptors and \<open>main.c\<close>, which calls the initialisation functions and waits for the other
  processors, whose first code is assembly.  \<open>procdump\<close> and \<open>getcallerpcs\<close> print for debugging.  The tests (\<open>usertests.c\<close> and others) are clients of the calls.  Interrupts
  arrive between kernel operations and not inside them, and the memory model is sequentially consistent.  Apart from \<open>Spinlock\<close>, the kernel state is that of one
  CPU with its current process.
\<close>

end
